(* ===== verification/Prelude.thy ===== *)
theory Prelude
  imports Main "HOL-Library.Word" "HOL-Library.Monad_Syntax"
begin

text \<open>
  Shared vocabulary of the development: the machine integer types of the C code, the
  convention for calls that do not return, and generic lemmas on lists, options and maps
  that several components use.

  A kernel routine or program of the repository that dereferences a null pointer, runs out
  of a buffer, calls \<^verbatim>\<open>panic\<close> or never terminates does not return a value: its model
  returns \<^term>\<open>None\<close>. Error codes that the C code returns (\<open>-1\<close>, \<open>-ENOENT\<close>) are
  ordinary integer results. A theorem that a call returns is therefore a theorem that the
  model is \<^term>\<open>Some\<close>.
\<close>

unbundle bit_operations_syntax

section \<open>Machine integers\<close>

type_synonym u8 = "8 word"
type_synonym u16 = "16 word"
type_synonym u32 = "32 word"
type_synonym u64 = "64 word"

text \<open>Conversion of an unbounded value to the C type \<^verbatim>\<open>int\<close> (two's complement, 32 bits).\<close>

definition to_int32 :: "int \<Rightarrow> int" where
  "to_int32 x = sint (word_of_int x :: u32)"

lemma to_int32_id: "- (2 ^ 31) \<le> x \<Longrightarrow> x < 2 ^ 31 \<Longrightarrow> to_int32 x = x"
  by (simp add: to_int32_def sint_sbintrunc' signed_take_bit_int_eq_self)

section \<open>Calls that do not return\<close>

definition panic :: "string \<Rightarrow> 'a option" where
  "panic msg = None"

lemma panic_simps [simp]:
  "panic msg = None" "(panic msg = Some x) \<longleftrightarrow> False" "\<not> Option.is_none (Some x)"
  by (simp_all add: panic_def)

text \<open>Facts that take a monadic computation in the option type apart.\<close>

named_theorems opt_dest \<open>destruction of option computations\<close>

lemmas [opt_dest] = bind_eq_Some_conv

section \<open>Lists\<close>

lemma list_update_same_length [simp]: "length (xs[i := v]) = length xs"
  by simp

lemma find_Some_prop: "List.find P xs = Some x \<Longrightarrow> P x \<and> x \<in> set xs"
  by (induction xs) (auto split: if_splits)

lemma find_upt_Some:
  assumes "List.find P [0..<n] = Some i"
  shows "i < n \<and> P i \<and> (\<forall>j < i. \<not> P j)"
  using assms by (auto simp: find_Some_iff)

lemma find_upt_None: "List.find P [0..<n] = None \<longleftrightarrow> (\<forall>i < n. \<not> P i)"
  by (auto simp: find_None_iff)

section \<open>State machines\<close>

text \<open>A program that runs forever is a relation of steps from its initial states. An invariant that the
  initial states satisfy and every step keeps holds in every state it reaches.\<close>

locale transition_system =
  fixes initial :: "'s \<Rightarrow> bool" and step :: "'s \<Rightarrow> 's \<Rightarrow> bool" and inv :: "'s \<Rightarrow> bool"
  assumes initial_inv: "initial s \<Longrightarrow> inv s" and step_inv: "step s t \<Longrightarrow> inv s \<Longrightarrow> inv t"
begin

lemma steps_inv: "step\<^sup>*\<^sup>* s t \<Longrightarrow> inv s \<Longrightarrow> inv t"
  by (induction rule: rtranclp_induct) (auto intro: step_inv)

lemma reachable_inv: "initial s \<Longrightarrow> step\<^sup>*\<^sup>* s t \<Longrightarrow> inv t"
  using steps_inv initial_inv by blast

end

end
