(* ===== verification/Safequeue.thy ===== *)
theory Safequeue
  imports Prelude "HOL-Library.Multiset"
begin

text \<open>
  The bounded priority queue of the proxy server (\<^verbatim>\<open>safequeue.h\<close>, \<^verbatim>\<open>safequeue.c\<close>).
  The queue is the code's singly linked list: a heap maps addresses to the allocated items,
  address 0 is the null pointer, and every dereference of an address that is not allocated
  fails. The mutex is a flag of the queue record; locking a held mutex blocks, so it has no
  result. A consumer that finds the queue empty waits on the condition variable: it gives
  the mutex back and the number of waiting threads grows.

  The last sections state the contract of such a queue as a locale, prove its consequences
  there (order of service, fairness among equal priorities) and interpret it on the code.
\<close>

section \<open>Data\<close>

record QueueItem =
  qi_priority :: int
  qi_client_fd :: int
  qi_method :: nat
  qi_path :: string
  qi_delay :: int
  qi_next :: nat

record PriorityQueue =
  pq_head :: nat
  pq_size :: int
  pq_capacity :: int
  pq_lock :: bool
  pq_not_empty :: nat

type_synonym qheap = "nat \<rightharpoonup> QueueItem"

section \<open>Operations\<close>

definition mutex_lock :: "PriorityQueue \<Rightarrow> PriorityQueue option" where
  "mutex_lock pq = (if pq_lock pq then None else Some (pq\<lparr>pq_lock := True\<rparr>))"

definition mutex_unlock :: "PriorityQueue \<Rightarrow> PriorityQueue" where
  "mutex_unlock pq = pq\<lparr>pq_lock := False\<rparr>"

text \<open>Signalling wakes one of the waiting threads, if there is one.\<close>

definition cond_signal :: "PriorityQueue \<Rightarrow> PriorityQueue" where
  "cond_signal pq = pq\<lparr>pq_not_empty := pq_not_empty pq - 1\<rparr>"

definition initPriorityQueue :: "int \<Rightarrow> PriorityQueue" where
  "initPriorityQueue capacity =
    \<lparr>pq_head = 0, pq_size = 0, pq_capacity = capacity, pq_lock = False, pq_not_empty = 0\<rparr>"

partial_function (option) insert_walk :: "qheap \<Rightarrow> int \<Rightarrow> nat \<Rightarrow> nat option" where
  "insert_walk h prio current = do {
     c \<leftarrow> h current;
     if qi_next c = 0 then Some current
     else do {
       n \<leftarrow> h (qi_next c);
       if prio \<le> qi_priority n then insert_walk h prio (qi_next c) else Some current
     }
   }"

definition insertItem :: "qheap \<Rightarrow> PriorityQueue \<Rightarrow> nat \<Rightarrow> (int \<times> qheap \<times> PriorityQueue) option" where
  "insertItem h pq item = do {
     pq \<leftarrow> mutex_lock pq;
     if pq_capacity pq \<le> pq_size pq then Some (-1, h, mutex_unlock pq)
     else do {
       it \<leftarrow> h item;
       front \<leftarrow> (if pq_head pq = 0 then Some True
                 else map_option (\<lambda>hd. qi_priority hd < qi_priority it) (h (pq_head pq)));
       (h, pq) \<leftarrow>
         (if front then Some (h(item \<mapsto> it\<lparr>qi_next := pq_head pq\<rparr>), pq\<lparr>pq_head := item\<rparr>)
          else do {
            current \<leftarrow> insert_walk h (qi_priority it) (pq_head pq);
            c \<leftarrow> h current;
            let h1 = h(item \<mapsto> it\<lparr>qi_next := qi_next c\<rparr>);
            c1 \<leftarrow> h1 current;
            Some (h1(current \<mapsto> c1\<lparr>qi_next := item\<rparr>), pq)
          });
       Some (0, h, mutex_unlock (cond_signal (pq\<lparr>pq_size := pq_size pq + 1\<rparr>)))
     }
   }"

datatype remove_result = Waiting | Removed nat

definition removeItem :: "qheap \<Rightarrow> PriorityQueue \<Rightarrow> (remove_result \<times> qheap \<times> PriorityQueue) option" where
  "removeItem h pq = do {
     pq \<leftarrow> mutex_lock pq;
     if pq_size pq = 0 then Some (Waiting, h, mutex_unlock (pq\<lparr>pq_not_empty := pq_not_empty pq + 1\<rparr>))
     else do {
       item \<leftarrow> h (pq_head pq);
       Some (Removed (pq_head pq), h,
             mutex_unlock (pq\<lparr>pq_head := qi_next item, pq_size := pq_size pq - 1\<rparr>))
     }
   }"

partial_function (option) free_items :: "qheap \<Rightarrow> nat \<Rightarrow> qheap option" where
  "free_items h current =
     (if current = 0 then Some h
      else do {
        c \<leftarrow> h current;
        free_items (h(current := None)) (qi_next c)
      })"

definition destroyPriorityQueue :: "qheap \<Rightarrow> PriorityQueue \<Rightarrow> qheap option" where
  "destroyPriorityQueue h pq = do {
     pq \<leftarrow> mutex_lock pq;
     free_items h (pq_head pq)
   }"

section \<open>The list a queue represents\<close>

text \<open>An element is the address of an item with the fields the client set.\<close>

type_synonym qelem = "nat \<times> QueueItem"

abbreviation payload :: "QueueItem \<Rightarrow> QueueItem" where
  "payload it \<equiv> it\<lparr>qi_next := 0\<rparr>"

definition prio :: "qelem \<Rightarrow> int" where
  "prio x = qi_priority (snd x)"

fun lseg :: "qheap \<Rightarrow> nat \<Rightarrow> qelem list \<Rightarrow> nat \<Rightarrow> bool" where
  "lseg h p [] q = (p = q)"
| "lseg h p ((a, v) # xs) q =
     (p = a \<and> a \<noteq> 0 \<and> (\<exists>it. h a = Some it \<and> payload it = v \<and> lseg h (qi_next it) xs q))"

lemma lseg_append: "lseg h p (xs @ ys) q \<longleftrightarrow> (\<exists>r. lseg h p xs r \<and> lseg h r ys q)"
  by (induction h p xs q rule: lseg.induct) auto

lemma lseg_upd [simp]: "a \<notin> fst ` set xs \<Longrightarrow> lseg (h(a := v)) p xs q = lseg h p xs q"
  by (induction h p xs q rule: lseg.induct) auto

lemma lseg_end: "lseg h p xs 0 \<Longrightarrow> p = 0 \<longleftrightarrow> xs = []"
  by (cases xs) auto

lemma lseg_unique: "lseg h p xs 0 \<Longrightarrow> lseg h p ys 0 \<Longrightarrow> xs = ys"
proof (induction xs arbitrary: p ys)
  case Nil
  then show ?case by (simp add: lseg_end)
next
  case (Cons x xs)
  obtain a v where x: "x = (a, v)" by (cases x)
  with Cons.prems(1) obtain it where "p = a" "a \<noteq> 0" "h a = Some it" "payload it = v"
      "lseg h (qi_next it) xs 0" by auto
  moreover obtain zs where "ys = (a, v) # zs" "lseg h (qi_next it) zs 0"
    using Cons.prems(2) calculation by (cases ys) auto
  ultimately show ?case using Cons.IH x by blast
qed

definition by_priority :: "qelem list \<Rightarrow> bool" where
  "by_priority xs = sorted_wrt (\<lambda>x y. prio y \<le> prio x) xs"

definition pq_repr :: "qheap \<times> PriorityQueue \<Rightarrow> qelem list \<Rightarrow> bool" where
  "pq_repr q xs = (case q of (h, pq) \<Rightarrow>
     lseg h (pq_head pq) xs 0 \<and> distinct (map fst xs) \<and> by_priority xs \<and>
     pq_size pq = int (length xs) \<and> pq_size pq \<le> pq_capacity pq \<and> \<not> pq_lock pq)"

text \<open>Insertion as the contract states it: behind every element of the same or a higher priority.\<close>

fun pinsert :: "('a \<Rightarrow> int) \<Rightarrow> 'a \<Rightarrow> 'a list \<Rightarrow> 'a list" where
  "pinsert pr x [] = [x]"
| "pinsert pr x (y # ys) = (if pr y < pr x then x # y # ys else y # pinsert pr x ys)"

lemma mset_pinsert [simp]: "mset (pinsert pr x xs) = add_mset x (mset xs)"
  by (induction xs) auto

lemma set_pinsert [simp]: "set (pinsert pr x xs) = insert x (set xs)"
  by (induction xs) auto

lemma length_pinsert [simp]: "length (pinsert pr x xs) = Suc (length xs)"
  by (induction xs) auto

lemma sorted_pinsert:
  "sorted_wrt (\<lambda>x y. pr y \<le> pr x) xs \<Longrightarrow> sorted_wrt (\<lambda>x y. pr y \<le> pr x) (pinsert pr x xs)"
  by (induction xs) auto

lemma pinsert_fifo:
  assumes "sorted_wrt (\<lambda>x y. pr y \<le> pr x) xs"
  shows "filter (\<lambda>y. pr y = p) (pinsert pr x xs) =
    filter (\<lambda>y. pr y = p) xs @ (if pr x = p then [x] else [])"
  using assms
proof (induction xs)
  case (Cons y ys)
  have "pr y < pr x \<Longrightarrow> pr x = p \<Longrightarrow> filter (\<lambda>y. pr y = p) (y # ys) = []"
    using Cons.prems by (auto simp: filter_empty_conv)
  with Cons show ?case by auto
qed simp

section \<open>Correctness of the pointer operations\<close>

lemma insert_walk_pinsert:
  assumes "lseg h p xs 0" "xs \<noteq> []" "pr \<le> prio (hd xs)" "prio x = pr"
  shows "\<exists>ys a v zs. xs = ys @ (a, v) # zs \<and> insert_walk h pr p = Some a \<and>
    pinsert prio x xs = ys @ (a, v) # x # zs"
  using assms
proof (induction xs arbitrary: p)
  case (Cons e xs)
  obtain a v where e: "e = (a, v)" by (cases e)
  from Cons.prems e obtain it where it: "p = a" "h a = Some it" "payload it = v" "lseg h (qi_next it) xs 0"
    by auto
  show ?case
  proof (cases xs)
    case Nil
    with it have "insert_walk h pr p = Some a" by (simp add: insert_walk.simps)
    with Nil e Cons.prems show ?thesis by force
  next
    case (Cons f fs)
    obtain b w where f: "f = (b, w)" by (cases f)
    from it Cons f obtain it' where it': "qi_next it = b" "b \<noteq> 0" "h b = Some it'" "payload it' = w"
      by auto
    then have pf: "qi_priority it' = prio f" using f by (auto simp: prio_def)
    show ?thesis
    proof (cases "pr \<le> prio f")
      case True
      with it it' pf have "insert_walk h pr p = insert_walk h pr b"
        by (simp add: insert_walk.simps [of h pr a])
      moreover obtain ys a' v' zs where IH: "xs = ys @ (a', v') # zs" "insert_walk h pr b = Some a'"
          "pinsert prio x xs = ys @ (a', v') # x # zs"
        using Cons.IH [of b] it(4) it'(1) Cons True Cons.prems(4) by (metis list.sel(1) list.distinct(1))
      ultimately show ?thesis using Cons.prems e
        by (intro exI [of _ "e # ys"] exI [of _ a'] exI [of _ v'] exI [of _ zs]) auto
    next
      case False
      with it it' pf have "insert_walk h pr p = Some a" by (simp add: insert_walk.simps [of h pr a])
      then show ?thesis using Cons Cons.prems e False
        by (intro exI [of _ "[]"] exI [of _ a] exI [of _ v] exI [of _ xs]) auto
    qed
  qed
qed simp

lemma insertItem_full:
  "pq_repr (h, pq) xs \<Longrightarrow> pq_capacity pq \<le> int (length xs) \<Longrightarrow> insertItem h pq item = Some (-1, h, pq)"
  by (auto simp: insertItem_def pq_repr_def mutex_lock_def mutex_unlock_def)

lemma insertItem_repr:
  assumes repr: "pq_repr (h, pq) xs" and room: "int (length xs) < pq_capacity pq"
    and item: "h item = Some it" "item \<noteq> 0" "item \<notin> fst ` set xs"
  shows "\<exists>h' pq'. insertItem h pq item = Some (0, h', pq') \<and>
    pq_repr (h', pq') (pinsert prio (item, payload it) xs) \<and> pq_capacity pq' = pq_capacity pq"
proof -
  let ?x = "(item, payload it)"
  from repr have l: "lseg h (pq_head pq) xs 0" and d: "distinct (map fst xs)" and s: "by_priority xs"
      and n: "pq_size pq = int (length xs)" "\<not> pq_lock pq" by (auto simp: pq_repr_def)
  let ?zs = "pinsert prio ?x xs"
  have s': "by_priority ?zs"
    using s unfolding by_priority_def by (rule sorted_pinsert)
  have "mset (map fst ?zs) = mset (item # map fst xs)" by simp
  then have "distinct (map fst ?zs) = distinct (item # map fst xs)" by (rule mset_eq_imp_distinct_iff)
  then have d': "distinct (map fst ?zs)" using d item by simp
  show ?thesis
  proof (cases "xs = [] \<or> prio (hd xs) < qi_priority it")
    case True
    define h' where "h' = h(item \<mapsto> it\<lparr>qi_next := pq_head pq\<rparr>)"
    have z: "?zs = ?x # xs" using True by (cases xs) (auto simp: prio_def)
    have "lseg h' item ?zs 0" using l item unfolding z h'_def by simp
    moreover have "pq_head pq \<noteq> 0 \<Longrightarrow> map_option (\<lambda>hd. qi_priority hd < qi_priority it) (h (pq_head pq)) = Some True"
      using l True by (cases xs) (auto simp: prio_def)
    ultimately show ?thesis using n room item s' d'
      by (auto simp: insertItem_def mutex_lock_def mutex_unlock_def cond_signal_def pq_repr_def h'_def z)
  next
    case False
    then have "xs \<noteq> []" "qi_priority it \<le> prio (hd xs)" by auto
    with l obtain ys a v zs where w: "xs = ys @ (a, v) # zs"
        "insert_walk h (qi_priority it) (pq_head pq) = Some a" "?zs = ys @ (a, v) # ?x # zs"
      using insert_walk_pinsert [of h "pq_head pq" xs "qi_priority it" ?x] by (auto simp: prio_def)
    from l w obtain c where c: "lseg h (pq_head pq) ys a" "a \<noteq> 0" "h a = Some c" "payload c = v"
        "lseg h (qi_next c) zs 0" by (auto simp: lseg_append)
    have ai: "a \<noteq> item" "a \<notin> fst ` set ys" "a \<notin> fst ` set zs" "item \<notin> fst ` set ys" "item \<notin> fst ` set zs"
      using d item w(1) by auto
    define h' where "h' = h(item \<mapsto> it\<lparr>qi_next := qi_next c\<rparr>, a \<mapsto> c\<lparr>qi_next := item\<rparr>)"
    have "lseg h' (pq_head pq) ?zs 0"
      unfolding w(3) lseg_append h'_def using c ai item by (intro exI [of _ a]) auto
    moreover obtain f where "h (pq_head pq) = Some f" "qi_priority f = prio (hd xs)" "pq_head pq \<noteq> 0"
      using l False by (cases xs) (auto simp: prio_def)
    ultimately show ?thesis using n room item s' d' c ai w False
      by (auto simp: insertItem_def mutex_lock_def mutex_unlock_def cond_signal_def pq_repr_def h'_def)
  qed
qed

lemma removeItem_empty:
  "pq_repr (h, pq) [] \<Longrightarrow> removeItem h pq = Some (Waiting, h, pq\<lparr>pq_not_empty := pq_not_empty pq + 1\<rparr>)"
  by (auto simp: removeItem_def pq_repr_def mutex_lock_def mutex_unlock_def)

lemma removeItem_repr:
  assumes "pq_repr (h, pq) ((a, v) # xs)"
  shows "\<exists>pq'. removeItem h pq = Some (Removed a, h, pq') \<and> pq_repr (h, pq') xs \<and>
    pq_capacity pq' = pq_capacity pq"
  using assms
  by (auto simp: removeItem_def pq_repr_def mutex_lock_def mutex_unlock_def by_priority_def)

lemma free_items_all:
  "lseg h p xs 0 \<Longrightarrow> distinct (map fst xs) \<Longrightarrow> free_items h p = Some (h |` (- fst ` set xs))"
proof (induction xs arbitrary: h p)
  case Nil
  then show ?case by (simp add: free_items.simps)
next
  case (Cons x xs)
  obtain a v where x: "x = (a, v)" by (cases x)
  with Cons.prems obtain it where it: "p = a" "a \<noteq> 0" "h a = Some it" "lseg h (qi_next it) xs 0" by auto
  have "a \<notin> fst ` set xs" using Cons.prems x by auto
  with it have "lseg (h(a := None)) (qi_next it) xs 0" by simp
  then have "free_items (h(a := None)) (qi_next it) = Some ((h(a := None)) |` (- fst ` set xs))"
    using Cons.IH Cons.prems(2) by (metis distinct.simps(2) list.simps(9))
  moreover have "(h(a := None)) |` (- fst ` set xs) = h |` (- fst ` set (x # xs))"
    by (rule ext) (auto simp: restrict_map_def x)
  ultimately show ?case using it by (simp add: free_items.simps [of h a])
qed

section \<open>The contract of the queue\<close>

text \<open>
  What the proxy relies on: a queue represents the list of its elements in order of service;
  insertion puts an element behind its equals or refuses it when the queue is full; removal
  takes the first element or finds none. The consequences below hold for every provider.
\<close>

locale bounded_pq =
  fixes repr :: "'q \<Rightarrow> 'a list \<Rightarrow> bool"
    and cap :: "'q \<Rightarrow> int"
    and key :: "'a \<Rightarrow> int"
    and fresh :: "'q \<Rightarrow> 'a list \<Rightarrow> 'a \<Rightarrow> bool"
    and enq :: "'q \<Rightarrow> 'a \<Rightarrow> (int \<times> 'q) option"
    and deq :: "'q \<Rightarrow> ('a option \<times> 'q) option"
  assumes ordered: "repr q xs \<Longrightarrow> sorted_wrt (\<lambda>x y. key y \<le> key x) xs"
    and bounded: "repr q xs \<Longrightarrow> int (length xs) \<le> cap q"
    and enq_room: "repr q xs \<Longrightarrow> fresh q xs x \<Longrightarrow> int (length xs) < cap q \<Longrightarrow>
      \<exists>q'. enq q x = Some (0, q') \<and> repr q' (pinsert key x xs) \<and> cap q' = cap q"
    and enq_no_room: "repr q xs \<Longrightarrow> cap q \<le> int (length xs) \<Longrightarrow> enq q x = Some (-1, q)"
    and deq_first: "repr q (x # xs) \<Longrightarrow> \<exists>q'. deq q = Some (Some x, q') \<and> repr q' xs \<and> cap q' = cap q"
    and deq_none: "repr q [] \<Longrightarrow> \<exists>q'. deq q = Some (None, q') \<and> repr q' [] \<and> cap q' = cap q"
begin

lemma deq_total: "repr q xs \<Longrightarrow> \<exists>r q'. deq q = Some (r, q')"
  using deq_first deq_none by (cases xs) blast+

lemma deq_highest:
  assumes "repr q xs" "deq q = Some (Some x, q')"
  shows "x \<in> set xs \<and> (\<forall>y \<in> set xs. key y \<le> key x)"
proof (cases xs)
  case Nil
  with assms deq_none [of q] show ?thesis by auto
next
  case (Cons z zs)
  with assms deq_first [of q z zs] have "x = z" by auto
  with Cons ordered [OF assms(1)] show ?thesis by auto
qed

lemma enq_keeps_order_of_equals:
  assumes "repr q xs" "fresh q xs x" "int (length xs) < cap q"
  shows "\<exists>q' ys. enq q x = Some (0, q') \<and> repr q' ys \<and>
    filter (\<lambda>y. key y = key x) ys = filter (\<lambda>y. key y = key x) xs @ [x] \<and>
    filter (\<lambda>y. key y \<noteq> key x) ys = filter (\<lambda>y. key y \<noteq> key x) xs"
proof -
  have "filter (\<lambda>y. key y \<noteq> key x) (pinsert key x xs) = filter (\<lambda>y. key y \<noteq> key x) xs"
    by (induction xs) auto
  with enq_room [OF assms] pinsert_fifo [OF ordered [OF assms(1)], of "key x" x] show ?thesis
    by auto
qed

lemma enq_then_deq:
  assumes "repr q xs" "fresh q xs x" "int (length xs) < cap q" "\<forall>y \<in> set xs. key y < key x"
  shows "\<exists>q1 q2. enq q x = Some (0, q1) \<and> deq q1 = Some (Some x, q2) \<and> repr q2 xs"
proof -
  have "pinsert key x xs = x # xs" using assms(4) by (cases xs) auto
  with enq_room [OF assms(1-3)] obtain q1 where "enq q x = Some (0, q1)" "repr q1 (x # xs)" by auto
  with deq_first [of q1 x xs] show ?thesis by blast
qed

end

definition pq_fresh :: "qheap \<times> PriorityQueue \<Rightarrow> qelem list \<Rightarrow> qelem \<Rightarrow> bool" where
  "pq_fresh q xs x = (\<exists>it. fst q (fst x) = Some it \<and> payload it = snd x \<and> fst x \<noteq> 0 \<and> fst x \<notin> fst ` set xs)"

definition pq_enq :: "qheap \<times> PriorityQueue \<Rightarrow> qelem \<Rightarrow> (int \<times> qheap \<times> PriorityQueue) option" where
  "pq_enq q x = insertItem (fst q) (snd q) (fst x)"

definition pq_deq :: "qheap \<times> PriorityQueue \<Rightarrow> (qelem option \<times> qheap \<times> PriorityQueue) option" where
  "pq_deq q = do {
     (r, h, pq) \<leftarrow> removeItem (fst q) (snd q);
     case r of
       Waiting \<Rightarrow> Some (None, h, pq)
     | Removed a \<Rightarrow> do { it \<leftarrow> h a; Some (Some (a, payload it), h, pq) }
   }"

interpretation sq: bounded_pq pq_repr "\<lambda>q. pq_capacity (snd q)" prio pq_fresh pq_enq pq_deq
proof unfold_locales
  fix q :: "qheap \<times> PriorityQueue" and xs and x :: qelem
  obtain h pq where q: "q = (h, pq)" by (cases q)
  obtain a v where x: "x = (a, v)" by (cases x)
  show "pq_repr q xs \<Longrightarrow> sorted_wrt (\<lambda>x y. prio y \<le> prio x) xs"
    by (auto simp: pq_repr_def by_priority_def split: prod.splits)
  show "pq_repr q xs \<Longrightarrow> int (length xs) \<le> pq_capacity (snd q)"
    by (auto simp: pq_repr_def split: prod.splits)
  show "\<exists>q'. pq_enq q x = Some (0, q') \<and> pq_repr q' (pinsert prio x xs) \<and>
      pq_capacity (snd q') = pq_capacity (snd q)"
    if "pq_repr q xs" "pq_fresh q xs x" "int (length xs) < pq_capacity (snd q)"
    using that insertItem_repr [of h pq xs a] unfolding q x pq_fresh_def pq_enq_def by fastforce
  show "pq_enq q x = Some (- 1, q)" if "pq_repr q xs" "pq_capacity (snd q) \<le> int (length xs)"
    using that insertItem_full [of h pq xs a] unfolding q x pq_enq_def by simp
  show "\<exists>q'. pq_deq q = Some (Some x, q') \<and> pq_repr q' xs \<and> pq_capacity (snd q') = pq_capacity (snd q)"
    if r: "pq_repr q (x # xs)"
  proof -
    from r obtain it where "h a = Some it" "payload it = v" by (auto simp: q x pq_repr_def)
    with r removeItem_repr [of h pq a v xs] show ?thesis by (auto simp: q x pq_deq_def)
  qed
  show "\<exists>q'. pq_deq q = Some (None, q') \<and> pq_repr q' [] \<and> pq_capacity (snd q') = pq_capacity (snd q)"
    if "pq_repr q []"
    using that removeItem_empty [of h pq] by (auto simp: q pq_deq_def pq_repr_def)
qed

section \<open>Properties\<close>

text \<open>Sample states for the witnesses: item 1 is queued, item 2 is allocated and not yet queued.\<close>

definition sample_item :: "int \<Rightarrow> int \<Rightarrow> QueueItem" where
  "sample_item p fd = \<lparr>qi_priority = p, qi_client_fd = fd, qi_method = 0, qi_path = ''/1/a'', qi_delay = -1, qi_next = 0\<rparr>"

definition sample_heap :: qheap where
  "sample_heap = [1 \<mapsto> sample_item 3 7, 2 \<mapsto> sample_item 3 8]"

definition sample_pq :: "int \<Rightarrow> PriorityQueue" where
  "sample_pq n = \<lparr>pq_head = 1, pq_size = 1, pq_capacity = n, pq_lock = False, pq_not_empty = 0\<rparr>"

lemmas sample_defs = sample_item_def sample_heap_def sample_pq_def pq_repr_def by_priority_def prio_def

lemma sample_repr: "1 \<le> n \<Longrightarrow> pq_repr (sample_heap, sample_pq n) [(1, sample_item 3 7)]"
  by (simp add: sample_defs)

text \<open>C15. \<open>insertItem\<close> on a queue that represents the list \<open>xs\<close>: when the queue is full it
  returns \<open>-1\<close> and changes neither the queue nor the heap; otherwise it terminates, returns 0,
  releases the lock and the linked list represents \<open>xs\<close> with the item inserted behind every
  element of the same or a higher priority, still in order of priority and within the capacity.\<close>

theorem insertItem_correct:
  assumes "pq_repr (h, pq) xs" "h item = Some it" "item \<noteq> 0" "item \<notin> fst ` set xs"
  shows "if pq_capacity pq \<le> int (length xs) then insertItem h pq item = Some (-1, h, pq)
    else \<exists>h' pq'. insertItem h pq item = Some (0, h', pq') \<and>
      pq_repr (h', pq') (pinsert prio (item, payload it) xs) \<and> pq_capacity pq' = pq_capacity pq"
  using insertItem_full [OF assms(1)] insertItem_repr [OF assms(1) _ assms(2-4)] by auto

theorem insertItem_correct_witness:
  "\<exists>h' pq'. insertItem sample_heap (sample_pq 2) 2 = Some (0, h', pq') \<and>
      pq_repr (h', pq') [(1, sample_item 3 7), (2, sample_item 3 8)]"
  using insertItem_correct [OF sample_repr, of 2 2 "sample_item 3 8"] by (simp add: sample_defs) blast

text \<open>First come, first served among equals: inserting an item into a queue with room leaves
  the items of every other priority as they were and puts the new item last among those of its
  own priority.\<close>

theorem insertItem_fifo:
  assumes "pq_repr (h, pq) xs" "h item = Some it" "item \<noteq> 0" "item \<notin> fst ` set xs"
    "int (length xs) < pq_capacity pq"
  shows "\<exists>h' pq' ys. insertItem h pq item = Some (0, h', pq') \<and> pq_repr (h', pq') ys \<and>
    filter (\<lambda>y. prio y = qi_priority it) ys = filter (\<lambda>y. prio y = qi_priority it) xs @ [(item, payload it)] \<and>
    filter (\<lambda>y. prio y \<noteq> qi_priority it) ys = filter (\<lambda>y. prio y \<noteq> qi_priority it) xs"
  using sq.enq_keeps_order_of_equals [of "(h, pq)" xs "(item, payload it)"] assms
  by (simp add: pq_fresh_def pq_enq_def prio_def)

theorem insertItem_fifo_witness:
  "\<exists>h' pq' ys. insertItem sample_heap (sample_pq 2) 2 = Some (0, h', pq') \<and> pq_repr (h', pq') ys \<and>
    filter (\<lambda>y. prio y = 3) ys = [(1, sample_item 3 7), (2, sample_item 3 8)]"
  using insertItem_fifo [OF sample_repr, of 2 2 "sample_item 3 8"] by (simp add: sample_defs) metis

text \<open>\<open>removeItem\<close> on a non-empty queue returns an item of the highest priority and leaves the
  queue representing the others; on an empty queue the caller waits, with the lock released.\<close>

theorem removeItem_correct:
  assumes "pq_repr (h, pq) xs"
  shows "case xs of
      [] \<Rightarrow> removeItem h pq = Some (Waiting, h, pq\<lparr>pq_not_empty := pq_not_empty pq + 1\<rparr>)
    | x # ys \<Rightarrow> \<exists>pq'. removeItem h pq = Some (Removed (fst x), h, pq') \<and> pq_repr (h, pq') ys \<and>
        list_all (\<lambda>y. prio y \<le> prio x) ys"
proof (cases xs)
  case Nil
  with assms show ?thesis using removeItem_empty by simp
next
  case (Cons x ys)
  have "list_all (\<lambda>y. prio y \<le> prio x) ys"
    using sq.ordered [OF assms] by (simp add: Cons list_all_iff)
  with Cons assms removeItem_repr [of h pq "fst x" "snd x" ys] show ?thesis by auto
qed

theorem removeItem_correct_witness:
  "\<exists>pq'. removeItem sample_heap (sample_pq 2) = Some (Removed 1, sample_heap, pq') \<and> pq_repr (sample_heap, pq') []"
  using removeItem_correct [OF sample_repr, of 2] by simp

text \<open>\<open>destroyPriorityQueue\<close> terminates and frees every item of the queue exactly once and
  nothing else.\<close>

theorem destroyPriorityQueue_frees:
  assumes "pq_repr (h, pq) xs"
  shows "destroyPriorityQueue h pq = Some (\<lambda>a. if a \<in> fst ` set xs then None else h a)"
proof -
  have "h |` (- fst ` set xs) = (\<lambda>a. if a \<in> fst ` set xs then None else h a)"
    by (rule ext) (simp add: restrict_map_def)
  with assms free_items_all [of h "pq_head pq" xs] show ?thesis
    by (simp add: destroyPriorityQueue_def mutex_lock_def pq_repr_def)
qed

theorem destroyPriorityQueue_frees_witness:
  "\<exists>h'. destroyPriorityQueue sample_heap (sample_pq 2) = Some h' \<and> h' 1 = None \<and> h' 2 = Some (sample_item 3 8)"
  using destroyPriorityQueue_frees [OF sample_repr, of 2] by (simp add: sample_heap_def)

end
