(* ===== verification/CString.thy ===== *)
theory CString
  imports Prelude
begin

text \<open>
  The C library functions on strings that the user programs call (\<^verbatim>\<open>strtok\<close>,
  \<^verbatim>\<open>strchr\<close>, \<^verbatim>\<open>strrchr\<close>, \<^verbatim>\<open>strstr\<close>, \<^verbatim>\<open>strncmp\<close>, \<^verbatim>\<open>atoi\<close> and the
  \<^verbatim>\<open>%d\<close> conversion), on C strings given as the characters before the terminating NUL.
  A pointer into a string is an index, or the suffix it points to.
\<close>

section \<open>Searching\<close>

definition strchr :: "string \<Rightarrow> char \<Rightarrow> string option" where
  "strchr s c = (case dropWhile (\<lambda>x. x \<noteq> c) s of [] \<Rightarrow> None | t \<Rightarrow> Some t)"

fun strstr :: "string \<Rightarrow> string \<Rightarrow> nat option" where
  "strstr [] pat = (if pat = [] then Some 0 else None)"
| "strstr (c # s) pat = (if take (length pat) (c # s) = pat then Some 0 else map_option Suc (strstr s pat))"

fun strrchr :: "string \<Rightarrow> char \<Rightarrow> nat option" where
  "strrchr [] c = None"
| "strrchr (x # s) c = (case strrchr s c of Some i \<Rightarrow> Some (Suc i) | None \<Rightarrow> if x = c then Some 0 else None)"

definition strncmp_eq :: "string \<Rightarrow> string \<Rightarrow> nat \<Rightarrow> bool" where
  "strncmp_eq s t n = (take n s = take n t)"

lemma strstr_None: "strstr s pat = None \<longleftrightarrow> (\<forall>i \<le> length s. take (length pat) (drop i s) \<noteq> pat)"
proof (induction s)
  case Nil then show ?case by (auto split: if_splits)
next
  case (Cons c s)
  have "(\<forall>i \<le> length (c # s). take (length pat) (drop i (c # s)) \<noteq> pat) \<longleftrightarrow>
      take (length pat) (c # s) \<noteq> pat \<and> (\<forall>i \<le> length s. take (length pat) (drop i s) \<noteq> pat)"
    by (metis Suc_le_mono drop0 drop_Suc_Cons length_Cons not0_implies_Suc zero_le)
  then show ?case using Cons.IH by auto
qed

lemma strrchr_Some:
  "strrchr s c = Some i \<longleftrightarrow> i < length s \<and> s ! i = c \<and> c \<notin> set (drop (Suc i) s)"
proof (induction s arbitrary: i)
  case Nil then show ?case by simp
next
  case (Cons x s)
  have none: "strrchr s c = None \<longleftrightarrow> c \<notin> set s" for s
    by (induction s) (auto split: option.splits)
  show ?case
  proof (cases i)
    case 0
    then show ?thesis using none [of s] by (auto split: option.splits)
  next
    case (Suc j)
    then show ?thesis using Cons.IH [of j] none [of s]
      by (auto split: option.splits)
  qed
qed

lemma strrchr_None: "strrchr s c = None \<longleftrightarrow> c \<notin> set s"
  by (induction s) (auto split: option.splits)

section \<open>Tokens\<close>

text \<open>One call of \<^verbatim>\<open>strtok\<close>: the next token and the saved position after it.\<close>

definition strtok :: "string \<Rightarrow> string \<Rightarrow> (string \<times> string) option" where
  "strtok delims s =
    (case dropWhile (\<lambda>c. c \<in> set delims) s of
       [] \<Rightarrow> None
     | t \<Rightarrow> Some (takeWhile (\<lambda>c. c \<notin> set delims) t, tl (dropWhile (\<lambda>c. c \<notin> set delims) t)))"

lemma strtok_shorter: "strtok delims s = Some (t, r) \<Longrightarrow> length r < length s"
proof -
  assume a: "strtok delims s = Some (t, r)"
  then obtain c u where cu: "dropWhile (\<lambda>c. c \<in> set delims) s = c # u"
    and r: "r = tl (dropWhile (\<lambda>c. c \<notin> set delims) (c # u))"
    by (auto simp: strtok_def split: list.splits)
  have "c \<notin> set delims" using cu by (metis hd_dropWhile list.distinct(1) list.sel(1))
  then have "length r \<le> length u"
    using r length_dropWhile_le [of "\<lambda>c. c \<notin> set delims" u] by simp
  moreover have "length (c # u) \<le> length s"
    using length_dropWhile_le [of "\<lambda>c. c \<in> set delims" s] cu by simp
  ultimately show ?thesis by simp
qed

text \<open>The tokens that the loop \<^verbatim>\<open>for (t = strtok(s, d); t; t = strtok(NULL, d))\<close> visits.\<close>

function tokens :: "string \<Rightarrow> string \<Rightarrow> string list" where
  "tokens delims s = (case strtok delims s of None \<Rightarrow> [] | Some (t, r) \<Rightarrow> t # tokens delims r)"
  by pat_completeness auto
termination
  by (relation "measure (\<lambda>(d, s). length s)") (auto dest: strtok_shorter)

declare tokens.simps [simp del]

lemma strtok_token: "strtok delims s = Some (t, r) \<Longrightarrow> t \<noteq> [] \<and> set t \<inter> set delims = {}"
proof -
  assume a: "strtok delims s = Some (t, r)"
  then obtain c u where cu: "dropWhile (\<lambda>c. c \<in> set delims) s = c # u"
    and t: "t = takeWhile (\<lambda>c. c \<notin> set delims) (c # u)"
    by (auto simp: strtok_def split: list.splits)
  have "c \<notin> set delims" using cu by (metis hd_dropWhile list.distinct(1) list.sel(1))
  then show ?thesis unfolding t by (auto dest: set_takeWhileD)
qed

lemma tokens_nonempty: "t \<in> set (tokens delims s) \<Longrightarrow> t \<noteq> [] \<and> set t \<inter> set delims = {}"
proof (induction delims s rule: tokens.induct)
  case (1 delims s)
  show ?case
  proof (cases "strtok delims s")
    case None
    with 1 show ?thesis by (simp add: tokens.simps [of delims s])
  next
    case (Some p)
    obtain w r where p: "p = (w, r)" by (cases p)
    with Some 1 have "t = w \<or> t \<in> set (tokens delims r)" by (simp add: tokens.simps [of delims s])
    with Some 1 p strtok_token [of delims s w r] show ?thesis by blast
  qed
qed

lemma tokens_Nil [simp]: "tokens delims [] = []"
  by (simp add: tokens.simps strtok_def)

lemma strtok_delim: "c \<in> set delims \<Longrightarrow> strtok delims (c # s) = strtok delims s"
  by (simp add: strtok_def)

lemma tokens_delim: "c \<in> set delims \<Longrightarrow> tokens delims (c # s) = tokens delims s"
  by (subst (1 2) tokens.simps) (simp add: strtok_delim)

lemma strtok_word:
  assumes "t \<noteq> []" "set t \<inter> set delims = {}"
  shows "strtok delims t = Some (t, [])"
    and "c \<in> set delims \<Longrightarrow> strtok delims (t @ c # s) = Some (t, s)"
proof -
  from assms have d: "dropWhile (\<lambda>c. c \<in> set delims) (t @ u) = t @ u" for u
    by (cases t) auto
  from assms have tw: "takeWhile (\<lambda>c. c \<notin> set delims) t = t" "dropWhile (\<lambda>c. c \<notin> set delims) t = []"
    by (auto simp: disjoint_iff intro: takeWhile_eq_all_conv [THEN iffD2])
  obtain x u where t: "t = x # u" using assms(1) by (cases t) auto
  have "tl (dropWhile (\<lambda>c. c \<notin> set delims) t) = []" by (simp only: tw list.sel)
  then show "strtok delims t = Some (t, [])"
    using d [of "[]"] tw(1) unfolding strtok_def t by simp
  assume c: "c \<in> set delims"
  from assms c have "takeWhile (\<lambda>c. c \<notin> set delims) (t @ c # s) = t"
      "dropWhile (\<lambda>c. c \<notin> set delims) (t @ c # s) = c # s"
    by (auto simp: disjoint_iff takeWhile_append dropWhile_append dest: set_takeWhileD)
  then show "strtok delims (t @ c # s) = Some (t, s)"
    using d [of "c # s"] assms(1) by (cases t) (auto simp: strtok_def)
qed

lemma tokens_word: "t \<noteq> [] \<Longrightarrow> set t \<inter> set delims = {} \<Longrightarrow> tokens delims t = [t]"
  by (subst tokens.simps) (simp add: strtok_word)

text \<open>A reference tokenizer that reads the string once, with the current word as accumulator.\<close>

fun split_acc :: "string \<Rightarrow> string \<Rightarrow> string \<Rightarrow> string list" where
  "split_acc delims w [] = (if w = [] then [] else [w])"
| "split_acc delims w (c # s) =
    (if c \<in> set delims then (if w = [] then [] else [w]) @ split_acc delims [] s
     else split_acc delims (w @ [c]) s)"

lemma tokens_split_acc: "set w \<inter> set delims = {} \<Longrightarrow> tokens delims (w @ s) = split_acc delims w s"
proof (induction s arbitrary: w)
  case Nil
  then show ?case by (simp add: tokens_word)
next
  case (Cons c s)
  show ?case
  proof (cases "c \<in> set delims")
    case True
    have "tokens delims (w @ c # s) = (if w = [] then [] else [w]) @ tokens delims s"
    proof (cases "w = []")
      case False
      then show ?thesis using Cons.prems True
        by (simp add: tokens.simps [of delims "w @ c # s"] strtok_word)
    qed (simp add: True tokens_delim)
    then show ?thesis using Cons.IH [of "[]"] True by simp
  next
    case False
    then show ?thesis using Cons.IH [of "w @ [c]"] Cons.prems by simp
  qed
qed

lemma tokens_eq_split: "tokens delims s = split_acc delims [] s"
  using tokens_split_acc [of "[]" delims s] by simp

lemma split_acc_snoc:
  assumes "c \<in> set delims" "t \<noteq> []" "set t \<inter> set delims = {}"
  shows "split_acc delims w (s @ c # t) = split_acc delims w s @ [t]"
proof (induction s arbitrary: w)
  case Nil
  have "split_acc delims [] t = [t]"
    using tokens_eq_split [of delims t] tokens_word assms by simp
  then show ?case using assms by simp
qed (use assms in simp)

lemma tokens_snoc:
  assumes "c \<in> set delims" "t \<noteq> []" "set t \<inter> set delims = {}"
  shows "tokens delims (s @ c # t) = tokens delims s @ [t]"
  by (simp add: tokens_eq_split split_acc_snoc [OF assms])

lemma split_acc_chars: "t \<in> set (split_acc delims w s) \<Longrightarrow> set t \<subseteq> set w \<union> set s"
  by (induction delims w s rule: split_acc.induct) (auto split: if_splits)

lemma tokens_chars: "t \<in> set (tokens delims s) \<Longrightarrow> set t \<subseteq> set s"
  using split_acc_chars [of t delims "[]" s] by (simp add: tokens_eq_split)

section \<open>Reading lines\<close>

text \<open>The loop \<^verbatim>\<open>while (fgets(buf, size, f))\<close> over a file: each call reads up to and with a newline, or
  \<open>size - 1\<close> bytes. The length of a piece is at least 1 for buffers of 2 bytes and more.\<close>

abbreviation newline :: string where "newline \<equiv> [CHR 0x0A]"

definition c_string :: "string \<Rightarrow> string" where
  "c_string s = takeWhile (\<lambda>c. c \<noteq> CHR 0x00) s"

definition fgets_piece :: "nat \<Rightarrow> string \<Rightarrow> string" where
  "fgets_piece sz s = take (max 1 (sz - 1)) (take (Suc (length (takeWhile (\<lambda>c. c \<noteq> CHR 0x0A) s))) s)"

function fgets_lines :: "nat \<Rightarrow> string \<Rightarrow> string list" where
  "fgets_lines sz s = (if s = [] then [] else fgets_piece sz s # fgets_lines sz (drop (length (fgets_piece sz s)) s))"
  by pat_completeness auto

termination
  by (relation "measure (\<lambda>(sz, s). length s)") (auto simp: fgets_piece_def)

declare fgets_lines.simps [simp del]

text \<open>A line that fits into the buffer is one piece.\<close>

lemma fgets_lines_line:
  assumes "CHR 0x0A \<notin> set l" "length l + 1 < sz"
  shows "fgets_lines sz (l @ newline @ s) = (l @ newline) # fgets_lines sz s"
proof -
  have "takeWhile (\<lambda>c. c \<noteq> CHR 0x0A) (l @ newline @ s) = l" using assms(1) by (subst takeWhile_append2) auto
  then have "fgets_piece sz (l @ newline @ s) = l @ newline" using assms(2) by (simp add: fgets_piece_def)
  then show ?thesis by (subst fgets_lines.simps) simp
qed

lemma c_string_id: "CHR 0x00 \<notin> set s \<Longrightarrow> c_string s = s"
  unfolding c_string_def by (rule takeWhile_eq_all_conv [THEN iffD2]) auto

lemma concat_fgets_lines: "concat (fgets_lines sz s) = s"
proof (induction sz s rule: fgets_lines.induct)
  case (1 sz s)
  have "fgets_piece sz s @ drop (length (fgets_piece sz s)) s = s" unfolding fgets_piece_def take_take by (metis append_take_drop_id length_take min.commute take_take take_all_iff nle_le)
  then show ?case using 1 by (cases "s = []") (simp add: fgets_lines.simps [of sz "[]"], simp add: fgets_lines.simps [of sz s])
qed

section \<open>Numbers\<close>

definition code_of :: "char \<Rightarrow> nat" where
  "code_of c = of_char c"

definition is_digit :: "char \<Rightarrow> bool" where
  "is_digit c = (48 \<le> code_of c \<and> code_of c \<le> 57)"

definition is_space :: "char \<Rightarrow> bool" where
  "is_space c = (code_of c = 32 \<or> (9 \<le> code_of c \<and> code_of c \<le> 13))"

fun digits_val :: "nat \<Rightarrow> string \<Rightarrow> nat" where
  "digits_val n [] = n"
| "digits_val n (c # s) = (if is_digit c then digits_val (10 * n + (code_of c - 48)) s else n)"

text \<open>\<^verbatim>\<open>atoi\<close>: blanks, an optional sign, digits; the value is a saturated 64-bit \<^verbatim>\<open>long\<close> cut to
  \<^verbatim>\<open>int\<close>, as in the library the programs are linked with.\<close>

definition strtol10 :: "string \<Rightarrow> int" where
  "strtol10 s =
    (let t = dropWhile is_space s in
     case t of
       c # r \<Rightarrow>
         if c = CHR ''-'' then max (- (2 ^ 63)) (- int (digits_val 0 r))
         else if c = CHR ''+'' then min (2 ^ 63 - 1) (int (digits_val 0 r))
         else min (2 ^ 63 - 1) (int (digits_val 0 t))
     | [] \<Rightarrow> 0)"

definition atoi :: "string \<Rightarrow> int" where
  "atoi s = to_int32 (strtol10 s)"

text \<open>The \<^verbatim>\<open>%d\<close> conversion.\<close>

fun show_nat :: "nat \<Rightarrow> string" where
  "show_nat n = (if n < 10 then [char_of (48 + n)] else show_nat (n div 10) @ [char_of (48 + n mod 10)])"

declare show_nat.simps [simp del]

definition show_int :: "int \<Rightarrow> string" where
  "show_int i = (if i < 0 then CHR ''-'' # show_nat (nat (- i)) else show_nat (nat i))"

lemma code_of_char_of: "n < 256 \<Longrightarrow> code_of (char_of n) = n"
  by (simp add: code_of_def)

lemma digit_char: "n < 10 \<Longrightarrow> is_digit (char_of (48 + n :: nat)) \<and> code_of (char_of (48 + n :: nat)) - 48 = n"
  by (simp add: is_digit_def code_of_char_of)

lemma digits_val_append:
  "list_all is_digit s \<Longrightarrow> digits_val n (s @ t) = digits_val (digits_val n s) t"
  by (induction s arbitrary: n) auto

lemma show_nat_digits: "list_all is_digit (show_nat n)"
proof (induction n rule: show_nat.induct)
  case (1 n)
  show ?case
    using 1 digit_char [of n] digit_char [of "n mod 10"]
    by (cases "n < 10") (simp_all add: show_nat.simps [of n])
qed

lemma digits_val_show_nat: "digits_val 0 (show_nat n) = n"
proof (induction n rule: show_nat.induct)
  case (1 n)
  show ?case
  proof (cases "n < 10")
    case True
    then show ?thesis using digit_char [of n] by (simp add: show_nat.simps [of n])
  next
    case False
    then show ?thesis
      using 1 digit_char [of "n mod 10"]
      by (simp add: show_nat.simps [of n] digits_val_append [OF show_nat_digits])
  qed
qed

lemma show_nat_nonempty: "show_nat n \<noteq> []"
  by (simp add: show_nat.simps [of n])

text \<open>Printing a C \<^verbatim>\<open>int\<close> and reading it back is the identity.\<close>

lemma atoi_show_int:
  assumes "- (2 ^ 31) \<le> i" "i < 2 ^ 31"
  shows "atoi (show_int i) = i"
proof -
  have first: "\<exists>c r. show_nat n = c # r \<and> is_digit c" for n
    using show_nat_digits [of n] show_nat_nonempty [of n] by (cases "show_nat n") auto
  have dig: "is_digit c \<Longrightarrow> \<not> is_space c \<and> c \<noteq> CHR ''-'' \<and> c \<noteq> CHR ''+''" for c
    by (auto simp: is_digit_def is_space_def code_of_def)
  have "strtol10 (show_int i) = i"
  proof (cases "i < 0")
    case True
    then show ?thesis using assms
      by (simp add: show_int_def strtol10_def is_space_def code_of_def digits_val_show_nat)
  next
    case False
    obtain c r where cr: "show_nat (nat i) = c # r" "is_digit c" using first by blast
    with dig have "\<not> is_space c" "c \<noteq> CHR ''-''" "c \<noteq> CHR ''+''" by auto
    moreover have "digits_val 0 (c # r) = nat i" using digits_val_show_nat [of "nat i"] cr by simp
    ultimately show ?thesis using False assms cr
      by (simp add: show_int_def strtol10_def del: digits_val.simps)
  qed
  then show ?thesis using assms by (simp add: atoi_def to_int32_id)
qed

end
