(* ===== verification/Proxy.thy ===== *)
theory Proxy
  imports Safequeue CString
begin

text \<open>
  The proxy server (\<^verbatim>\<open>proxyserver.h\<close>, \<^verbatim>\<open>proxyserver.c\<close>): response helpers, the parser
  of client requests, the listener's handling of one accepted connection, the worker's
  handling of one queued request, and the command line. Results of system calls
  (\<^verbatim>\<open>recv\<close>, \<^verbatim>\<open>write\<close>, \<^verbatim>\<open>connect\<close>, \<dots>) and contents of uninitialised memory are
  arguments of the definitions. \<^term>\<open>None\<close> stands for a null or out-of-range pointer
  access, for arithmetic on a null pointer, or for a call that is still blocked.
\<close>

section \<open>State\<close>

text \<open>\<open>px_sent\<close> is what each descriptor has received, \<open>px_closed\<close> the descriptors that were shut
  down and closed, \<open>px_writes\<close> the results of the \<^verbatim>\<open>write\<close> calls still to come, each at most
  the number of bytes asked for, and \<open>px_clock\<close> the time that \<^verbatim>\<open>sleep\<close> advances.\<close>

record proxy =
  px_heap :: qheap
  px_pq :: PriorityQueue
  px_sent :: "int \<Rightarrow> string"
  px_closed :: "int set"
  px_writes :: "int list"
  px_clock :: int

datatype status_code = OK | BAD_REQUEST | BAD_GATEWAY | SERVER_ERROR | QUEUE_FULL | QUEUE_EMPTY

fun status_num :: "status_code \<Rightarrow> int" where
  "status_num OK = 200"
| "status_num BAD_REQUEST = 400"
| "status_num BAD_GATEWAY = 502"
| "status_num SERVER_ERROR = 500"
| "status_num QUEUE_FULL = 599"
| "status_num QUEUE_EMPTY = 598"

record http_request =
  rq_method :: nat
  rq_path :: "string option"
  rq_delay :: int
  rq_priority :: int

definition GETJOBCMD :: string where
  "GETJOBCMD = ''/GetJob''"

definition crlf :: string where
  "crlf = [CHR 0x0D, CHR 0x0A]"

section \<open>Responses\<close>

definition http_get_mime_type :: "string option \<Rightarrow> string" where
  "http_get_mime_type filename =
    (case filename of
       None \<Rightarrow> ''text/plain''
     | Some f \<Rightarrow>
         let path_len = length f in
         if path_len < 5 \<or> f ! (path_len - 1) \<noteq> CHR ''l'' \<or> f ! (path_len - 2) \<noteq> CHR ''m'' \<or>
            f ! (path_len - 3) \<noteq> CHR ''t'' \<or> f ! (path_len - 4) \<noteq> CHR ''h'' \<or> f ! (path_len - 5) \<noteq> CHR ''.''
         then ''text/plain'' else ''text/html'')"

definition http_get_response_message :: "int \<Rightarrow> string" where
  "http_get_response_message status_code =
    (if status_code = 100 then ''Continue''
     else if status_code = 200 then ''OK''
     else if status_code = 301 then ''Moved Permanently''
     else if status_code = 302 then ''Found''
     else if status_code = 304 then ''Not Modified''
     else if status_code = 400 then ''Bad Request''
     else if status_code = 401 then ''Unauthorized''
     else if status_code = 403 then ''Forbidden''
     else if status_code = 404 then ''Not Found''
     else if status_code = 405 then ''Method Not Allowed''
     else ''Internal Server Error'')"

definition dprintf :: "int \<Rightarrow> string \<Rightarrow> proxy \<Rightarrow> proxy" where
  "dprintf fd s px = px\<lparr>px_sent := (px_sent px)(fd := px_sent px fd @ s)\<rparr>"

definition http_start_response :: "int \<Rightarrow> int \<Rightarrow> proxy \<Rightarrow> proxy" where
  "http_start_response fd status_code =
    dprintf fd (''HTTP/1.0 '' @ show_int status_code @ '' '' @ http_get_response_message status_code @ crlf)"

definition http_send_header :: "int \<Rightarrow> string \<Rightarrow> string \<Rightarrow> proxy \<Rightarrow> proxy" where
  "http_send_header fd key value = dprintf fd (key @ '': '' @ value @ crlf)"

definition http_end_headers :: "int \<Rightarrow> proxy \<Rightarrow> proxy" where
  "http_end_headers fd = dprintf fd crlf"

text \<open>The loop of \<open>http_send_data\<close>: the data still to send, the results of the next
  \<^verbatim>\<open>write\<close> calls, and what has been sent so far.\<close>

fun send_loop :: "string \<Rightarrow> int list \<Rightarrow> string \<Rightarrow> (int \<times> string \<times> int list) option" where
  "send_loop [] ws sent = Some (0, sent, ws)"
| "send_loop (c # data) [] sent = None"
| "send_loop (c # data) (w # ws) sent =
    (if w < 0 then Some (-1, sent, ws)
     else if int (length (c # data)) < w then None
     else send_loop (drop (nat w) (c # data)) ws (sent @ take (nat w) (c # data)))"

definition http_send_data :: "int \<Rightarrow> string \<Rightarrow> proxy \<Rightarrow> (int \<times> proxy) option" where
  "http_send_data fd data px = do {
     (r, sent, ws) \<leftarrow> send_loop data (px_writes px) [];
     Some (r, (dprintf fd sent px)\<lparr>px_writes := ws\<rparr>)
   }"

definition http_send_string :: "int \<Rightarrow> string \<Rightarrow> proxy \<Rightarrow> proxy option" where
  "http_send_string fd data px = map_option snd (http_send_data fd data px)"

definition shutdown_close :: "int \<Rightarrow> proxy \<Rightarrow> proxy" where
  "shutdown_close fd px = px\<lparr>px_closed := insert fd (px_closed px)\<rparr>"

text \<open>The buffer that is sent is the freshly allocated one: its contents, not the message.\<close>

definition send_error_response :: "int \<Rightarrow> status_code \<Rightarrow> string \<Rightarrow> string \<Rightarrow> proxy \<Rightarrow> proxy option" where
  "send_error_response client_fd err_code err_msg buf px =
    http_send_string client_fd buf
      (http_end_headers client_fd
        (http_send_header client_fd ''Content-Type'' ''text/html''
          (http_start_response client_fd (status_num err_code) px)))"

section \<open>Parsing a request\<close>

text \<open>The first line: the path is the second blank-separated word; unless it is the command to
  take a job, its first component is the priority.\<close>

definition parse_first_line :: "string \<Rightarrow> (string \<times> int option) option" where
  "parse_first_line token = do {
     i1 \<leftarrow> strstr token '' '';
     let t1 = drop (i1 + 1) token;
     i2 \<leftarrow> strstr t1 '' '';
     let path = take i2 t1;
     if path = GETJOBCMD then Some (path, None)
     else do {
       j1 \<leftarrow> strstr path ''/'';
       let p1 = drop (j1 + 1) path;
       j2 \<leftarrow> strstr p1 ''/'';
       Some (path, Some (atoi (take j2 p1)))
     }
   }"

text \<open>A further line: \<open>token\<close> ends where \<^verbatim>\<open>strtok\<close> wrote its NUL, \<open>after\<close> is the buffer behind
  that NUL, if it is still the received text.\<close>

definition parse_header_line :: "string \<Rightarrow> string option \<Rightarrow> int \<Rightarrow> int option" where
  "parse_header_line token after delay =
    (case strstr token '':'' of
       None \<Rightarrow> Some delay
     | Some i \<Rightarrow>
         let same = (if i = 0 then token = ''Delay'' else strncmp_eq ''Delay'' token (i - 1)) in
         if \<not> same then Some delay
         else if i + 1 < length token then Some (atoi (drop (i + 2) token))
         else map_option atoi after)"

function parse_lines :: "bool \<Rightarrow> string \<Rightarrow> string option \<times> int \<times> int \<Rightarrow> (string option \<times> int \<times> int) option" where
  "parse_lines is_first s st =
    (case strtok crlf s of
       None \<Rightarrow> Some st
     | Some (token, rest) \<Rightarrow>
         let (path, delay, priority) = st;
             more = dropWhile (\<lambda>c. c \<notin> set crlf) (dropWhile (\<lambda>c. c \<in> set crlf) s) \<noteq> [] in
         if is_first then
           (case parse_first_line token of
              None \<Rightarrow> None
            | Some (p, None) \<Rightarrow> Some (Some p, delay, priority)
            | Some (p, Some n) \<Rightarrow> parse_lines False rest (Some p, delay, n))
         else
           (case parse_header_line token (if more then Some rest else None) delay of
              None \<Rightarrow> None
            | Some d \<Rightarrow> parse_lines False rest (path, d, priority)))"
  by pat_completeness auto
termination
  by (relation "measure (\<lambda>(b, s, st). length s)") (auto dest: strtok_shorter)

declare parse_lines.simps [simp del]

text \<open>\<open>received\<close> is what \<^verbatim>\<open>recv\<close> put into the buffer, \<^term>\<open>None\<close> for its error result \<open>-1\<close>,
  with which the code writes before the buffer.\<close>

definition parse_client_request :: "nat \<Rightarrow> string option \<Rightarrow> http_request option" where
  "parse_client_request uninit_method received = do {
     bytes \<leftarrow> received;
     (path, delay, priority) \<leftarrow> parse_lines True (takeWhile (\<lambda>c. c \<noteq> CHR 0x00) bytes) (None, -1, -1);
     Some \<lparr>rq_method = uninit_method, rq_path = path, rq_delay = delay, rq_priority = priority\<rparr>
   }"

section \<open>The listener\<close>

definition job_response :: "int \<Rightarrow> status_code \<Rightarrow> string \<Rightarrow> proxy \<Rightarrow> proxy option" where
  "job_response client_fd code body px =
    http_send_string client_fd body
      (http_end_headers client_fd
        (http_send_header client_fd ''Server'' ''httpserver/1.0''
          (http_send_header client_fd ''Content-type'' (http_get_mime_type (Some ''index.html''))
            (http_start_response client_fd (status_num code) px))))"

definition home_page :: string where
  "home_page = ''<html><body><a href='' @ [CHR 0x27] @ ''/'' @ [CHR 0x27] @ ''>Home</a></body></html>''"

text \<open>One iteration of the accept loop of \<open>serve_forever\<close>: \<open>client_fd\<close> is the result of
  \<^verbatim>\<open>accept\<close>, \<open>newItem\<close> the address and \<open>uninit\<close> the contents of the memory that
  \<^verbatim>\<open>malloc\<close> returns.\<close>

definition serve_connection ::
    "int \<Rightarrow> string option \<Rightarrow> nat \<Rightarrow> nat \<Rightarrow> QueueItem \<Rightarrow> proxy \<Rightarrow> proxy option" where
  "serve_connection client_fd received uninit_method newItem uninit px =
    (if client_fd < 0 then Some px
     else do {
       rq \<leftarrow> parse_client_request uninit_method received;
       path \<leftarrow> rq_path rq;
       if GETJOBCMD = path then do {
         pq \<leftarrow> mutex_lock (px_pq px);
         if pq_size pq = 0 then do {
           px \<leftarrow> job_response client_fd QUEUE_EMPTY home_page (px\<lparr>px_pq := mutex_unlock pq\<rparr>);
           Some (shutdown_close client_fd px)
         } else do {
           item \<leftarrow> px_heap px (pq_head pq);
           let pq = mutex_unlock (pq\<lparr>pq_head := qi_next item, pq_size := pq_size pq - 1\<rparr>);
           px \<leftarrow> job_response client_fd OK (qi_path item) (px\<lparr>px_pq := pq\<rparr>);
           Some (shutdown_close client_fd px)
         }
       } else do {
         let it = uninit\<lparr>qi_client_fd := client_fd, qi_delay := rq_delay rq, qi_method := rq_method rq,
                         qi_path := path, qi_priority := rq_priority rq\<rparr>;
         (r, h, pq) \<leftarrow> insertItem ((px_heap px)(newItem \<mapsto> it)) (px_pq px) newItem;
         let px = px\<lparr>px_heap := h, px_pq := pq\<rparr>;
         if r < 0 then do {
           px \<leftarrow> job_response client_fd QUEUE_FULL home_page px;
           Some (shutdown_close client_fd px)
         } else Some px
       }
     })"

section \<open>The worker\<close>

text \<open>Results of the system calls of one iteration: the sockets, the request read from the client
  (\<open>None\<close> for the error result \<open>-1\<close>, which the code passes on as a huge size), the chunks received from the file server (\<open>None\<close> for a result \<open>\<le> 0\<close>), and the contents of
  the buffer of an error response.\<close>

record worker_env =
  we_socket :: int
  we_connect :: int
  we_request :: "string option"
  we_recv :: "string option list"
  we_errbuf :: string

datatype worker_end = NextRequest | ThreadEnds | ProcessExits | StillWaiting

fun forward_loop :: "int \<Rightarrow> string option list \<Rightarrow> proxy \<Rightarrow> proxy option" where
  "forward_loop client_fd [] px = None"
| "forward_loop client_fd (None # cs) px = Some px"
| "forward_loop client_fd (Some chunk # cs) px = do {
     (r, px) \<leftarrow> http_send_data client_fd chunk px;
     if r < 0 then Some px else forward_loop client_fd cs px
   }"

definition serve_one :: "worker_env \<Rightarrow> proxy \<Rightarrow> (worker_end \<times> proxy) option" where
  "serve_one env px = do {
     (r, h, pq) \<leftarrow> removeItem (px_heap px) (px_pq px);
     let px = px\<lparr>px_heap := h, px_pq := pq\<rparr>;
     case r of
       Waiting \<Rightarrow> Some (StillWaiting, px)
     | Removed a \<Rightarrow> do {
         qit \<leftarrow> h a;
         let client_fd = qi_client_fd qit;
         let px = (if 0 < qi_delay qit then px\<lparr>px_clock := px_clock px + qi_delay qit\<rparr> else px);
         let fileserver_fd = we_socket env;
         if fileserver_fd = -1 then Some (ProcessExits, px)
         else if we_connect env < 0 then do {
           px \<leftarrow> send_error_response client_fd BAD_GATEWAY ''Bad Gateway'' (we_errbuf env) px;
           Some (ThreadEnds, px)
         } else do {
           request \<leftarrow> we_request env;
           (ret, px) \<leftarrow> http_send_data fileserver_fd request px;
           px \<leftarrow> (if ret < 0
                 then send_error_response client_fd BAD_GATEWAY ''Bad Gateway'' (we_errbuf env) px
                 else forward_loop client_fd (we_recv env) px);
           Some (NextRequest, shutdown_close client_fd (shutdown_close fileserver_fd px))
         }
       }
   }"

section \<open>Settings\<close>

record settings =
  num_listener :: int
  listener_ports :: "int list"
  num_workers :: int
  fileserver_ipaddr :: string
  fileserver_port :: int
  max_queue_size :: int

definition default_settings :: settings where
  "default_settings = \<lparr>num_listener = 1, listener_ports = [8000], num_workers = 1, fileserver_ipaddr = ''127.0.0.1'',
     fileserver_port = 3333, max_queue_size = 100\<rparr>"

definition print_settings :: "settings \<Rightarrow> string" where
  "print_settings s =
    CHR 0x09 # ''---- Setting ----'' @ [CHR 0x0A] @
    CHR 0x09 # show_int (num_listener s) @ '' listeners ['' @
      concat (map (\<lambda>p. CHR '' '' # show_int p) (listener_ports s)) @ '' ]'' @ [CHR 0x0A] @
    CHR 0x09 # show_int (num_listener s) @ '' workers'' @ [CHR 0x0A] @
    CHR 0x09 # ''fileserver ipaddr '' @ fileserver_ipaddr s @ '' port '' @ show_int (fileserver_port s) @ [CHR 0x0A] @
    CHR 0x09 # ''max queue size  '' @ show_int (max_queue_size s) @ [CHR 0x0A] @
    CHR 0x09 # ''  ----'' @ CHR 0x09 # ''----'' @ [CHR 0x09, CHR 0x0A]"

text \<open>The options of \<open>main\<close>: the settings, or the usage message for an unknown option.
  An option without its argument reads past the argument vector.\<close>

fun parse_options :: "string list \<Rightarrow> settings \<Rightarrow> settings option option" where
  "parse_options [] s = Some (Some s)"
| "parse_options (opt # argv) s =
    (if opt = ''-l'' then
       (case argv of
          [] \<Rightarrow> None
        | n # r \<Rightarrow>
            if int (length r) < atoi n then None
            else parse_options (drop (nat (atoi n)) r)
                   (s\<lparr>num_listener := atoi n, listener_ports := map atoi (take (nat (atoi n)) r)\<rparr>))
     else if opt = ''-w'' then
       (case argv of [] \<Rightarrow> None | n # r \<Rightarrow> parse_options r (s\<lparr>num_workers := atoi n\<rparr>))
     else if opt = ''-q'' then
       (case argv of [] \<Rightarrow> None | n # r \<Rightarrow> parse_options r (s\<lparr>max_queue_size := atoi n\<rparr>))
     else if opt = ''-i'' then
       (case argv of [] \<Rightarrow> None | n # r \<Rightarrow> parse_options r (s\<lparr>fileserver_ipaddr := n\<rparr>))
     else if opt = ''-p'' then
       (case argv of [] \<Rightarrow> None | n # r \<Rightarrow> parse_options r (s\<lparr>fileserver_port := atoi n\<rparr>))
     else Some None)"

section \<open>Sending\<close>

text \<open>Short writes are continued: success means that all of the data went out, failure that a
  prefix did.\<close>

lemma send_loop_sent:
  "send_loop data ws acc = Some (r, sent, ws') \<Longrightarrow>
     (r = 0 \<and> sent = acc @ data) \<or> (r = -1 \<and> (\<exists>k < length data. sent = acc @ take k data))"
proof (induction data ws acc arbitrary: r sent ws' rule: send_loop.induct)
  case (3 c data w ws acc)
  show ?case
  proof (cases "w < 0")
    case True
    with 3 show ?thesis by auto
  next
    case False
    let ?d = "c # data" and ?n = "nat w"
    from False 3(2) have le: "w \<le> int (length ?d)"
        and rec: "send_loop (drop ?n ?d) ws (acc @ take ?n ?d) = Some (r, sent, ws')"
      by (auto split: if_splits)
    from 3(1) [OF False _ rec] le consider "r = 0" "sent = (acc @ take ?n ?d) @ drop ?n ?d"
      | k where "r = -1" "k < length (drop ?n ?d)" "sent = (acc @ take ?n ?d) @ take k (drop ?n ?d)"
      by auto
    then show ?thesis
    proof cases
      case 1
      then show ?thesis by simp
    next
      case 2
      then have "sent = acc @ take (?n + k) ?d" by (simp only: append_assoc take_add)
      moreover have "?n + k < length ?d" using 2 by simp
      ultimately show ?thesis using 2 by blast
    qed
  qed
qed auto

text \<open>Results of \<^verbatim>\<open>write\<close> with which \<open>n\<close> bytes get out: each call takes at least one byte and
  at most what is left. \<open>writes_left\<close> gives the results that remain for later calls.\<close>

fun writes_left :: "nat \<Rightarrow> int list \<Rightarrow> int list option" where
  "writes_left 0 ws = Some ws"
| "writes_left (Suc n) [] = None"
| "writes_left (Suc n) (w # ws) =
    (if 0 < w \<and> w \<le> int (Suc n) then writes_left (Suc n - nat w) ws else None)"

fun writes_seq :: "string list \<Rightarrow> int list \<Rightarrow> bool" where
  "writes_seq [] ws = True"
| "writes_seq (d # ds) ws = (case writes_left (length d) ws of None \<Rightarrow> False | Some ws' \<Rightarrow> writes_seq ds ws')"

lemma send_loop_total:
  "writes_left (length data) ws = Some ws' \<Longrightarrow> send_loop data ws acc = Some (0, acc @ data, ws')"
proof (induction data ws acc rule: send_loop.induct)
  case (3 c data w ws acc)
  then have w: "0 < w" "w \<le> int (length (c # data))"
      and ok: "writes_left (length (drop (nat w) (c # data))) ws = Some ws'"
    by (simp_all split: if_splits)
  with 3(1) [OF _ _ ok] have
    "send_loop (drop (nat w) (c # data)) ws (acc @ take (nat w) (c # data)) =
       Some (0, (acc @ take (nat w) (c # data)) @ drop (nat w) (c # data), ws')" by auto
  with w show ?case by simp
qed auto

lemma http_send_data_total:
  "writes_left (length data) (px_writes px) = Some ws' \<Longrightarrow>
    http_send_data fd data px = Some (0, (dprintf fd data px)\<lparr>px_writes := ws'\<rparr>)"
  by (simp add: http_send_data_def send_loop_total)

lemmas response_defs = http_send_string_def http_end_headers_def http_send_header_def http_start_response_def
  dprintf_def shutdown_close_def

section \<open>Parsing well-formed requests\<close>

lemma strstr_char: "c \<notin> set a \<Longrightarrow> strstr (a @ c # b) [c] = Some (length a)"
  by (induction a) auto

lemma strtok_line:
  assumes "line \<noteq> []" "set line \<inter> set crlf = {}"
  shows "strtok crlf (line @ crlf @ s) = Some (line, CHR 0x0A # s)"
  using strtok_word(2) [OF assms, of "CHR 0x0D" "CHR 0x0A # s"] by (simp add: crlf_def)

lemma strtok_after: "strtok crlf (CHR 0x0A # s) = strtok crlf s"
  by (rule strtok_delim) (simp add: crlf_def)

definition clean :: "string \<Rightarrow> bool" where
  "clean s = (\<forall>c \<in> set s. c \<noteq> CHR '' '' \<and> c \<noteq> CHR 0x0D \<and> c \<noteq> CHR 0x0A \<and> c \<noteq> CHR 0x00)"

lemma show_int_chars: "c \<in> set (show_int i) \<Longrightarrow> c = CHR ''-'' \<or> is_digit c"
  using show_nat_digits by (auto simp: show_int_def list_all_iff split: if_splits)

lemma digit_neq: "is_digit c \<Longrightarrow> c \<noteq> CHR '' '' \<and> c \<noteq> CHR 0x0D \<and> c \<noteq> CHR 0x0A \<and> c \<noteq> CHR 0x00 \<and>
    c \<noteq> CHR ''/'' \<and> c \<noteq> CHR '':'' \<and> c \<noteq> CHR ''G''"
  by (auto simp: is_digit_def code_of_def)

lemma clean_show_int: "clean (show_int i)" "CHR ''/'' \<notin> set (show_int i)" "CHR '':'' \<notin> set (show_int i)"
  using show_int_chars [of _ i] digit_neq by (fastforce simp: clean_def)+

lemma show_int_nonempty: "show_int i \<noteq> []"
  using show_nat_nonempty by (auto simp: show_int_def)

lemma parse_first_line_ok:
  assumes "clean name" "- (2 ^ 31) \<le> p" "p < 2 ^ 31"
  shows "parse_first_line (''GET /'' @ show_int p @ ''/'' @ name @ '' HTTP/1.1'') =
    Some (''/'' @ show_int p @ ''/'' @ name, Some p)"
proof -
  let ?path = "''/'' @ show_int p @ ''/'' @ name"
  have sp: "CHR '' '' \<notin> set ?path" using assms(1) clean_show_int(1) [of p] by (auto simp: clean_def)
  have 1: "strstr (''GET'' @ CHR '' '' # (?path @ '' HTTP/1.1'')) '' '' = Some 3"
    by (subst strstr_char) auto
  have 2: "strstr (?path @ CHR '' '' # ''HTTP/1.1'') '' '' = Some (length ?path)"
    by (rule strstr_char [OF sp])
  have 3: "strstr (CHR ''/'' # (show_int p @ ''/'' @ name)) ''/'' = Some 0"
    by simp
  have 4: "strstr (show_int p @ CHR ''/'' # name) ''/'' = Some (length (show_int p))"
    by (rule strstr_char) (rule clean_show_int)
  obtain c r where cr: "show_int p = c # r" using show_int_nonempty [of p] by (cases "show_int p") auto
  have "c \<noteq> CHR ''G''" using show_int_chars [of c p] digit_neq [of c] cr by auto
  then have "?path \<noteq> GETJOBCMD" by (simp add: GETJOBCMD_def cr)
  with 1 2 3 4 show ?thesis by (simp add: parse_first_line_def atoi_show_int [OF assms(2,3)])
qed

lemma parse_header_line_delay:
  assumes "- (2 ^ 31) \<le> d" "d < 2 ^ 31"
  shows "parse_header_line (''Delay: '' @ show_int d) after e = Some d"
proof -
  have "strstr (''Delay'' @ CHR '':'' # ('' '' @ show_int d)) '':'' = Some 5"
    by (subst strstr_char) auto
  with assms show ?thesis by (simp add: parse_header_line_def strncmp_eq_def atoi_show_int)
qed

lemma clean_crlf: "clean s \<Longrightarrow> set s \<inter> set crlf = {}"
  by (auto simp: clean_def crlf_def)

text \<open>Requests with any headers: the delay, and others. The code takes a name for \<open>Delay\<close> when all but its last letter begin \<open>Delay\<close>; such names, and those that differ
  from it only in case, which HTTP takes for the same name and the code does not, are left out.\<close>

datatype header = Delay_header int | Other_header string string

fun header_text :: "header \<Rightarrow> string" where
  "header_text (Delay_header d) = ''Delay: '' @ show_int d"
| "header_text (Other_header n v) = n @ '': '' @ v"

definition other_name :: "string \<Rightarrow> bool" where
  "other_name n = (n \<noteq> [] \<and> CHR '':'' \<notin> set n \<and> butlast n \<notin> {'''', ''D'', ''De'', ''Del'', ''Dela'', ''Delay''} \<and>
     \<not> list_all2 (\<lambda>c ds. c \<in> set ds) n [''dD'', ''eE'', ''lL'', ''aA'', ''yY''])"

definition one_line :: "string \<Rightarrow> bool" where
  "one_line s = (CHR 0x0D \<notin> set s \<and> CHR 0x0A \<notin> set s \<and> CHR 0x00 \<notin> set s)"

fun header_ok :: "header \<Rightarrow> bool" where
  "header_ok (Delay_header d) = (- (2 ^ 31) \<le> d \<and> d < 2 ^ 31)"
| "header_ok (Other_header n v) = (other_name n \<and> one_line n \<and> one_line v)"

fun last_delay :: "int \<Rightarrow> header list \<Rightarrow> int" where
  "last_delay e [] = e"
| "last_delay e (Delay_header d # hs) = last_delay d hs"
| "last_delay e (Other_header n v # hs) = last_delay e hs"

definition headers_text :: "header list \<Rightarrow> string" where
  "headers_text hs = concat (map (\<lambda>h. header_text h @ crlf) hs)"

lemma one_line_show_int: "one_line (show_int d)"
  using clean_show_int(1) [of d] by (auto simp: clean_def one_line_def)

lemma header_one_line: "header_ok h \<Longrightarrow> one_line (header_text h)"
  using one_line_show_int by (cases h) (auto simp: one_line_def)

lemma headers_no_nul: "list_all header_ok hs \<Longrightarrow> CHR 0x00 \<notin> set (headers_text hs)"
  using header_one_line by (auto simp: headers_text_def list_all_iff one_line_def crlf_def)

lemma parse_header_line_other:
  assumes "other_name n"
  shows "parse_header_line (n @ '': '' @ v) after e = Some e"
proof -
  have n: "n \<noteq> []" "CHR '':'' \<notin> set n" "butlast n \<notin> {'''', ''D'', ''De'', ''Del'', ''Dela'', ''Delay''}" using assms by (simp_all add: other_name_def)
  have "strstr (n @ CHR '':'' # ('' '' @ v)) '':'' = Some (length n)" by (rule strstr_char [OF n(2)])
  moreover have "take k ''Delay'' \<in> {'''', ''D'', ''De'', ''Del'', ''Dela'', ''Delay''}" for k by (auto simp: take_Cons')
  then have "take (length n - 1) ''Delay'' \<noteq> butlast n" using n(3) by metis
  then have "\<not> strncmp_eq ''Delay'' (n @ '': '' @ v) (length n - 1)" using n(1) by (simp add: strncmp_eq_def butlast_conv_take)
  ultimately show ?thesis using n(1) by (simp add: parse_header_line_def)
qed

lemma parse_header:
  assumes "header_ok h"
  shows "parse_header_line (header_text h) after e = Some (last_delay e [h])"
  using assms by (cases h) (simp_all add: parse_header_line_delay [simplified] parse_header_line_other [simplified])

lemma parse_headers:
  assumes "list_all header_ok hs"
  shows "parse_lines False (CHR 0x0A # headers_text hs @ crlf) (path, e, p) = Some (path, last_delay e hs, p)"
  using assms
proof (induction hs arbitrary: e)
  case Nil
  have "strtok crlf (CHR 0x0A # crlf) = None" by (simp add: strtok_def crlf_def)
  then show ?case by (subst parse_lines.simps) (simp add: headers_text_def)
next
  case (Cons h hs)
  then have h: "header_ok h" and hs: "list_all header_ok hs" by simp_all
  have "header_text h \<noteq> []" by (cases h) simp_all
  moreover have "set (header_text h) \<inter> set crlf = {}" using header_one_line [OF h] by (auto simp: one_line_def crlf_def)
  ultimately have "strtok crlf (CHR 0x0A # headers_text (h # hs) @ crlf) = Some (header_text h, CHR 0x0A # headers_text hs @ crlf)"
    unfolding strtok_after headers_text_def using strtok_line [of "header_text h" "headers_text hs @ crlf"] by (simp add: headers_text_def)
  then have "parse_lines False (CHR 0x0A # headers_text (h # hs) @ crlf) (path, e, p) =
      parse_lines False (CHR 0x0A # headers_text hs @ crlf) (path, last_delay e [h], p)"
    by (subst parse_lines.simps) (simp add: parse_header [OF h])
  also have "\<dots> = Some (path, last_delay (last_delay e [h]) hs, p)" by (rule Cons.IH [OF hs])
  finally show ?case by (cases h) simp_all
qed

text \<open>The text of a well-formed request: for the file \<open>name\<close> with priority \<open>p\<close> and some headers.\<close>

definition request_with :: "int \<Rightarrow> string \<Rightarrow> header list \<Rightarrow> string" where
  "request_with p name hs = ''GET /'' @ show_int p @ ''/'' @ name @ '' HTTP/1.1'' @ crlf @ headers_text hs @ crlf"

lemma parse_request_lines:
  assumes "clean name" "- (2 ^ 31) \<le> p" "p < 2 ^ 31" "list_all header_ok hs"
  shows "parse_lines True (request_with p name hs) (q, e, f) = Some (Some (''/'' @ show_int p @ ''/'' @ name), last_delay e hs, p)"
proof -
  let ?l1 = "''GET /'' @ show_int p @ ''/'' @ name @ '' HTTP/1.1''"
  have c1: "set ?l1 \<inter> set crlf = {}"
    using clean_crlf [OF assms(1)] clean_crlf [OF clean_show_int(1)] by (auto simp: crlf_def)
  have "strtok crlf (?l1 @ crlf @ headers_text hs @ crlf) = Some (?l1, CHR 0x0A # headers_text hs @ crlf)"
    by (rule strtok_line [OF _ c1]) simp
  then have "strtok crlf (request_with p name hs) = Some (?l1, CHR 0x0A # headers_text hs @ crlf)" by (simp add: request_with_def)
  then show ?thesis
    using parse_first_line_ok [OF assms(1-3)] parse_headers [OF assms(4)] by (subst parse_lines.simps) simp
qed

lemma clean_no_nul: "clean s \<Longrightarrow> CHR 0x00 \<notin> set s"
  by (auto simp: clean_def)

lemma parse_request_with:
  assumes "clean name" "- (2 ^ 31) \<le> p" "p < 2 ^ 31" "list_all header_ok hs"
  shows "parse_client_request m (Some (request_with p name hs)) =
    Some \<lparr>rq_method = m, rq_path = Some (''/'' @ show_int p @ ''/'' @ name), rq_delay = last_delay (-1) hs, rq_priority = p\<rparr>"
proof -
  have "CHR 0x00 \<notin> set (request_with p name hs)"
    using clean_no_nul [OF assms(1)] clean_no_nul [OF clean_show_int(1)] headers_no_nul [OF assms(4)] by (simp add: request_with_def crlf_def)
  then have tw: "takeWhile (\<lambda>c. c \<noteq> CHR 0x00) (request_with p name hs) = request_with p name hs" by (subst takeWhile_eq_all_conv) blast
  show ?thesis unfolding parse_client_request_def Option.bind.bind_lunit tw by (simp add: parse_request_lines [OF assms])
qed

section \<open>Queueing and answering a connection\<close>

text \<open>The text of a well-formed request and of the server's own answers.\<close>

definition request_text :: "int \<Rightarrow> string \<Rightarrow> int \<Rightarrow> string" where
  "request_text p name d = ''GET /'' @ show_int p @ ''/'' @ name @ '' HTTP/1.1'' @ crlf @
     ''Delay: '' @ show_int d @ crlf @ crlf"

definition request_item :: "int \<Rightarrow> int \<Rightarrow> nat \<Rightarrow> string \<Rightarrow> int \<Rightarrow> QueueItem" where
  "request_item p fd m name d = \<lparr>qi_priority = p, qi_client_fd = fd, qi_method = m,
     qi_path = ''/'' @ show_int p @ ''/'' @ name, qi_delay = d, qi_next = 0\<rparr>"

definition answer_text :: "status_code \<Rightarrow> string \<Rightarrow> string" where
  "answer_text code body = ''HTTP/1.0 '' @ show_int (status_num code) @ '' '' @
     http_get_response_message (status_num code) @ crlf @ ''Content-type: text/html'' @ crlf @
     ''Server: httpserver/1.0'' @ crlf @ crlf @ body"

lemma job_response_total:
  assumes "writes_left (length body) (px_writes px) = Some ws"
  shows "job_response fd code body px = Some (px\<lparr>px_sent := (px_sent px)(fd := px_sent px fd @ answer_text code body),
    px_writes := ws\<rparr>)"
proof -
  have mime: "http_get_mime_type (Some ''index.html'') = ''text/html''"
    by (simp add: http_get_mime_type_def Let_def)
  have w: "\<And>x. x = px\<lparr>px_sent := px_sent x\<rparr> \<Longrightarrow> writes_left (length body) (px_writes x) = Some ws"
    using assms by (metis proxy.select_convs(5) proxy.surjective proxy.update_convs(3))
  show ?thesis unfolding job_response_def http_send_string_def
    by (subst http_send_data_total [of _ _ ws])
      (simp_all add: response_defs mime answer_text_def assms)
qed

lemma parse_client_request_ok:
  assumes "clean name" "- (2 ^ 31) \<le> p" "p < 2 ^ 31" "- (2 ^ 31) \<le> d" "d < 2 ^ 31"
  shows "parse_client_request m (Some (request_text p name d)) =
    Some \<lparr>rq_method = m, rq_path = Some (''/'' @ show_int p @ ''/'' @ name), rq_delay = d, rq_priority = p\<rparr>"
  using parse_request_with [OF assms(1-3), of "[Delay_header d]" m] assms(4,5) by (simp add: request_with_def headers_text_def request_text_def)

lemma request_not_job: "''/'' @ show_int p @ ''/'' @ name \<noteq> GETJOBCMD"
proof -
  obtain c r where cr: "show_int p = c # r" using show_int_nonempty [of p] by (cases "show_int p") auto
  have "c \<noteq> CHR ''G''" using show_int_chars [of c p] digit_neq [of c] cr by auto
  then show ?thesis by (simp add: GETJOBCMD_def cr)
qed

lemma repr_alloc: "pq_repr (h, pq) xs \<Longrightarrow> h a = None \<Longrightarrow> a \<notin> fst ` set xs"
proof -
  have "lseg h p ys q \<Longrightarrow> a \<in> fst ` set ys \<Longrightarrow> h a \<noteq> None" for p ys q
    by (induction h p ys q rule: lseg.induct) auto
  then show "pq_repr (h, pq) xs \<Longrightarrow> h a = None \<Longrightarrow> a \<notin> fst ` set xs"
    by (auto simp: pq_repr_def)
qed

lemma pq_repr_upd: "pq_repr (h, pq) xs \<Longrightarrow> a \<notin> fst ` set xs \<Longrightarrow> pq_repr (h(a := v), pq) xs"
  by (simp add: pq_repr_def)

lemma insertItem_new:
  assumes repr: "pq_repr (h, pq) xs" and a: "h a = None" "a \<noteq> 0"
  shows "pq_repr (h(a \<mapsto> it), pq) xs"
    "if pq_capacity pq \<le> int (length xs) then insertItem (h(a \<mapsto> it)) pq a = Some (-1, h(a \<mapsto> it), pq)
     else \<exists>h' pq'. insertItem (h(a \<mapsto> it)) pq a = Some (0, h', pq') \<and>
       pq_repr (h', pq') (pinsert prio (a, payload it) xs) \<and> pq_capacity pq' = pq_capacity pq"
proof -
  have fr: "a \<notin> fst ` set xs" by (rule repr_alloc [OF repr a(1)])
  show r: "pq_repr (h(a \<mapsto> it), pq) xs" by (rule pq_repr_upd [OF repr fr])
  show "if pq_capacity pq \<le> int (length xs) then insertItem (h(a \<mapsto> it)) pq a = Some (-1, h(a \<mapsto> it), pq)
     else \<exists>h' pq'. insertItem (h(a \<mapsto> it)) pq a = Some (0, h', pq') \<and>
       pq_repr (h', pq') (pinsert prio (a, payload it) xs) \<and> pq_capacity pq' = pq_capacity pq"
    using insertItem_full [OF r, of a] insertItem_repr [OF r _ _ a(2) fr, of it] by simp
qed

section \<open>The running server\<close>

text \<open>
  A step of the server is one iteration of a listener or of a worker: every access to the
  queue happens under its mutex, so iterations interleave as wholes. A listener's
  \<^verbatim>\<open>malloc\<close> returns the address of memory that is not allocated.
\<close>

inductive proxy_step :: "proxy \<Rightarrow> proxy \<Rightarrow> bool" where
  listen: "px_heap px a = None \<Longrightarrow> a \<noteq> 0 \<Longrightarrow> serve_connection fd received m a un px = Some px' \<Longrightarrow> proxy_step px px'"
| work: "serve_one env px = Some (r, px') \<Longrightarrow> proxy_step px px'"

definition proxy_inv :: "int \<Rightarrow> proxy \<Rightarrow> bool" where
  "proxy_inv n px = ((\<exists>xs. pq_repr (px_heap px, px_pq px) xs) \<and> pq_capacity (px_pq px) = n)"

lemma proxy_inv_cong:
  "proxy_inv n px \<Longrightarrow> px_heap px' = px_heap px \<Longrightarrow> px_pq px' = px_pq px \<Longrightarrow> proxy_inv n px'"
  by (simp add: proxy_inv_def)

text \<open>Sending never touches the queue.\<close>

lemma send_keeps_queue:
  "http_send_data fd s px = Some (r, px') \<Longrightarrow> px_heap px' = px_heap px \<and> px_pq px' = px_pq px"
  "job_response fd code s px = Some px' \<Longrightarrow> px_heap px' = px_heap px \<and> px_pq px' = px_pq px"
  "send_error_response fd code s b px = Some px' \<Longrightarrow> px_heap px' = px_heap px \<and> px_pq px' = px_pq px"
  by (auto simp: job_response_def send_error_response_def http_send_data_def response_defs
      bind_eq_Some_conv split: prod.splits)

lemma forward_keeps_queue:
  "forward_loop fd cs px = Some px' \<Longrightarrow> px_heap px' = px_heap px \<and> px_pq px' = px_pq px"
proof (induction fd cs px arbitrary: px' rule: forward_loop.induct)
  case (3 fd chunk cs px)
  from 3(2) obtain r q where q: "http_send_data fd chunk px = Some (r, q)"
      "(if r < 0 then Some q else forward_loop fd cs q) = Some px'"
    by (auto simp: bind_eq_Some_conv)
  from 3(1) [of "(r, q)" r q px'] q have "px_heap px' = px_heap q \<and> px_pq px' = px_pq q"
    by (auto split: if_splits)
  with send_keeps_queue(1) [OF q(1)] show ?case by simp
qed auto

lemma proxy_inv_remove:
  assumes "proxy_inv n px" "pq_size (px_pq px) \<noteq> 0"
  shows "\<exists>it. px_heap px (pq_head (px_pq px)) = Some it \<and>
    proxy_inv n (px\<lparr>px_pq := mutex_unlock (px_pq px\<lparr>pq_lock := True, pq_head := qi_next it,
      pq_size := pq_size (px_pq px) - 1\<rparr>)\<rparr>)"
proof -
  from assms obtain xs where r: "pq_repr (px_heap px, px_pq px) xs" "pq_capacity (px_pq px) = n"
    by (auto simp: proxy_inv_def)
  with assms(2) obtain a v ys where xs: "xs = (a, v) # ys"
    by (cases xs) (auto simp: pq_repr_def)
  with r show ?thesis by (auto simp: proxy_inv_def pq_repr_def mutex_unlock_def by_priority_def)
qed

lemma serve_connection_inv:
  assumes inv: "proxy_inv n px" and a: "px_heap px a = None" "a \<noteq> 0"
    and s: "serve_connection fd received m a un px = Some px'"
  shows "proxy_inv n px'"
proof (cases "fd < 0")
  case True
  with s inv show ?thesis by (simp add: serve_connection_def)
next
  case False
  with s obtain rq path where rq: "parse_client_request m received = Some rq" "rq_path rq = Some path"
    by (auto simp: serve_connection_def bind_eq_Some_conv)
  note s' = s [unfolded serve_connection_def rq Option.bind.bind_lunit if_not_P [OF False]]
  from inv obtain xs where xs: "pq_repr (px_heap px, px_pq px) xs" "pq_capacity (px_pq px) = n"
    by (auto simp: proxy_inv_def)
  show ?thesis
  proof (cases "GETJOBCMD = path")
    case True
    with s' xs proxy_inv_remove [OF inv] inv show ?thesis
      by (fastforce simp: bind_eq_Some_conv mutex_lock_def mutex_unlock_def shutdown_close_def Let_def
          dest: send_keeps_queue(2) intro: proxy_inv_cong split: if_splits)
  next
    case False
    let ?it = "un\<lparr>qi_client_fd := fd, qi_delay := rq_delay rq, qi_method := rq_method rq,
                  qi_path := path, qi_priority := rq_priority rq\<rparr>"
    from False s' obtain r h pq where i: "insertItem ((px_heap px)(a \<mapsto> ?it)) (px_pq px) a = Some (r, h, pq)"
        and e: "px_heap px' = h" "px_pq px' = pq"
      by (auto simp: bind_eq_Some_conv shutdown_close_def Let_def dest: send_keeps_queue(2) split: if_splits)
    from insertItem_new [OF xs(1) a, of ?it] i have "(\<exists>ys. pq_repr (h, pq) ys) \<and> pq_capacity pq = n"
      using xs(2) by (cases "pq_capacity (px_pq px) \<le> int (length xs)") auto
    then show ?thesis by (simp add: proxy_inv_def e)
  qed
qed

lemma serve_one_queue:
  assumes "removeItem (px_heap px) (px_pq px) = Some (rr, h, pq)" "serve_one env px = Some (r, px')"
  shows "px_heap px' = h \<and> px_pq px' = pq"
proof (cases rr)
  case Waiting
  with assms show ?thesis by (auto simp: serve_one_def)
next
  case (Removed a)
  with assms show ?thesis
    by (auto simp: serve_one_def bind_eq_Some_conv shutdown_close_def Let_def
        dest!: send_keeps_queue forward_keeps_queue split: if_splits)
qed

lemma serve_one_inv:
  assumes inv: "proxy_inv n px" and s: "serve_one env px = Some (r, px')"
  shows "proxy_inv n px'"
proof -
  from s obtain rr h pq where rm: "removeItem (px_heap px) (px_pq px) = Some (rr, h, pq)"
    by (auto simp: serve_one_def bind_eq_Some_conv)
  from inv obtain xs where xs: "pq_repr (px_heap px, px_pq px) xs" "pq_capacity (px_pq px) = n"
    by (auto simp: proxy_inv_def)
  have "(\<exists>ys. pq_repr (h, pq) ys) \<and> pq_capacity pq = n"
  proof (cases xs)
    case Nil
    with xs removeItem_empty [of "px_heap px" "px_pq px"] rm show ?thesis by (auto simp: pq_repr_def)
  next
    case (Cons x ys)
    with xs removeItem_repr [of "px_heap px" "px_pq px" "fst x" "snd x" ys] rm show ?thesis by auto
  qed
  with serve_one_queue [OF rm s] show ?thesis by (simp add: proxy_inv_def)
qed

lemma proxy_step_inv: "proxy_step px px' \<Longrightarrow> proxy_inv n px \<Longrightarrow> proxy_inv n px'"
  by (induction rule: proxy_step.induct) (blast intro: serve_connection_inv serve_one_inv)+

lemma forward_loop_total:
  assumes "writes_seq cs (px_writes px)"
  shows "\<exists>ws. forward_loop fd (map Some cs @ None # rest) px =
    Some (px\<lparr>px_sent := (px_sent px)(fd := px_sent px fd @ concat cs), px_writes := ws\<rparr>)"
  using assms
proof (induction cs arbitrary: px)
  case Nil
  have "px = px\<lparr>px_sent := (px_sent px)(fd := px_sent px fd @ concat []), px_writes := px_writes px\<rparr>" by simp
  then show ?case by (metis append.left_neutral forward_loop.simps(2) list.simps(8))
next
  case (Cons c cs)
  then obtain ws where ws: "writes_left (length c) (px_writes px) = Some ws" "writes_seq cs ws"
    by (auto split: option.splits)
  let ?px = "(dprintf fd c px)\<lparr>px_writes := ws\<rparr>"
  from ws(2) have "writes_seq cs (px_writes ?px)" by simp
  from Cons.IH [OF this] obtain ws' where
    "forward_loop fd (map Some cs @ None # rest) ?px =
      Some (?px\<lparr>px_sent := (px_sent ?px)(fd := px_sent ?px fd @ concat cs), px_writes := ws'\<rparr>)" by blast
  then have "forward_loop fd (map Some (c # cs) @ None # rest) px =
      Some (px\<lparr>px_sent := (px_sent px)(fd := px_sent px fd @ concat (c # cs)), px_writes := ws'\<rparr>)"
    by (simp add: http_send_data_total [OF ws(1)] dprintf_def)
  then show ?case by blast
qed

section \<open>Properties\<close>

definition start_proxy :: "int \<Rightarrow> int list \<Rightarrow> proxy" where
  "start_proxy n ws = \<lparr>px_heap = Map.empty, px_pq = initPriorityQueue n, px_sent = (\<lambda>_. []), px_closed = {},
     px_writes = ws, px_clock = 0\<rparr>"

lemma start_proxy_inv: "0 \<le> n \<Longrightarrow> proxy_inv n (start_proxy n ws)"
  by (auto simp: proxy_inv_def start_proxy_def initPriorityQueue_def pq_repr_def by_priority_def intro: exI [of _ "[]"])

interpretation ps: transition_system "\<lambda>px. \<exists>ws. px = start_proxy (int n) ws" proxy_step "proxy_inv (int n)" for n
  by unfold_locales (auto simp: start_proxy_inv intro: proxy_step_inv)

text \<open>C18. In every state that listeners and workers can reach from the start, in any interleaving
  and with any results of the system calls, the queue is a null-terminated list of allocated items
  without cycle, sorted by priority, its size field is its length and at most the capacity given at
  the start, and its mutex is free.\<close>

theorem proxy_queue_invariant:
  assumes "0 \<le> n" "proxy_step\<^sup>*\<^sup>* (start_proxy n ws) px"
  shows "\<exists>xs. pq_repr (px_heap px, px_pq px) xs \<and> int (length xs) \<le> n"
proof -
  have "proxy_inv n px" using ps.reachable_inv [OF _ assms(2), of "nat n"] assms(1) by auto
  then show ?thesis by (auto simp: proxy_inv_def pq_repr_def)
qed

theorem proxy_queue_invariant_witness:
  "\<exists>px xs. proxy_step\<^sup>*\<^sup>* (start_proxy 5 []) px \<and> pq_not_empty (px_pq px) = 1 \<and>
     pq_repr (px_heap px, px_pq px) xs \<and> int (length xs) \<le> 5"
proof -
  let ?env = "\<lparr>we_socket = 1, we_connect = 0, we_request = None, we_recv = [], we_errbuf = []\<rparr>"
  obtain r px where s: "serve_one ?env (start_proxy 5 []) = Some (r, px)" "pq_not_empty (px_pq px) = 1"
    by (simp add: serve_one_def start_proxy_def initPriorityQueue_def removeItem_def mutex_lock_def mutex_unlock_def)
  then have "proxy_step\<^sup>*\<^sup>* (start_proxy 5 []) px" by (blast intro: proxy_step.work)
  with proxy_queue_invariant [of 5 "[]" px] s(2) show ?thesis by auto
qed

text \<open>A listener that receives a request for \<open>/p/name\<close> with a delay header, in whatever state
  the queue is: when there is room the request is queued, behind all requests of the same or a
  higher priority, with the priority, path, delay and descriptor of the client, and nothing is sent;
  when the queue is full the client is answered with status 599 and closed and the queue stays as
  it was.\<close>

theorem serve_connection_request:
  assumes "pq_repr (px_heap px, px_pq px) xs" "px_heap px a = None" "a \<noteq> 0" "0 \<le> fd"
    "clean name" "- (2 ^ 31) \<le> p" "p < 2 ^ 31" "- (2 ^ 31) \<le> d" "d < 2 ^ 31"
    "writes_seq [home_page] (px_writes px)"
  shows "\<exists>px'. serve_connection fd (Some (request_text p name d)) m a un px = Some px' \<and>
    (if int (length xs) < pq_capacity (px_pq px)
     then pq_repr (px_heap px', px_pq px') (pinsert prio (a, request_item p fd m name d) xs) \<and>
       px_sent px' = px_sent px \<and> px_closed px' = px_closed px
     else pq_repr (px_heap px', px_pq px') xs \<and> px_closed px' = insert fd (px_closed px) \<and>
       px_sent px' = (px_sent px)(fd := px_sent px fd @ answer_text QUEUE_FULL home_page))"
proof -
  let ?path = "''/'' @ show_int p @ ''/'' @ name"
  let ?it = "un\<lparr>qi_client_fd := fd, qi_delay := d, qi_method := m, qi_path := ?path, qi_priority := p\<rparr>"
  let ?h = "(px_heap px)(a \<mapsto> ?it)"
  have pl: "payload ?it = request_item p fd m name d" by (simp add: request_item_def)
  note ins = insertItem_new [OF assms(1-3), of ?it]
  have call: "serve_connection fd (Some (request_text p name d)) m a un px =
    do { (r, h, pq) \<leftarrow> insertItem ?h (px_pq px) a;
         let px = px\<lparr>px_heap := h, px_pq := pq\<rparr>;
         if r < 0 then do {
           px \<leftarrow> job_response fd QUEUE_FULL home_page px;
           Some (shutdown_close fd px)
         } else Some px }"
    using assms(4) parse_client_request_ok [OF assms(5-9), of m] request_not_job [of p name, symmetric]
    by (simp add: serve_connection_def)
  show ?thesis
  proof (cases "int (length xs) < pq_capacity (px_pq px)")
    case True
    with ins(2) obtain h pq where "insertItem ?h (px_pq px) a = Some (0, h, pq)"
        "pq_repr (h, pq) (pinsert prio (a, request_item p fd m name d) xs)" unfolding pl by auto
    with True show ?thesis unfolding call by simp
  next
    case False
    with ins(2) have i: "insertItem ?h (px_pq px) a = Some (-1, ?h, px_pq px)" by auto
    from assms(10) obtain ws where "writes_left (length home_page) (px_writes (px\<lparr>px_heap := ?h\<rparr>)) = Some ws"
      by (auto split: option.splits)
    note j = job_response_total [OF this, of fd QUEUE_FULL]
    show ?thesis using False ins(1) unfolding call i by (simp add: j [simplified] shutdown_close_def)
  qed
qed

theorem serve_connection_request_witness:
  "\<exists>px'. serve_connection 4 (Some (request_text 3 ''a'' 2)) 0 1 (sample_item 0 0) (start_proxy 5 [int (length home_page)]) = Some px' \<and>
     pq_repr (px_heap px', px_pq px') [(1, request_item 3 4 0 ''a'' 2)]"
proof -
  let ?px = "start_proxy 5 [int (length home_page)]"
  have "pq_repr (px_heap ?px, px_pq ?px) []"
    by (simp add: start_proxy_def initPriorityQueue_def pq_repr_def by_priority_def)
  from serve_connection_request [OF this, of 1 4 "''a''" 3 2 0 "sample_item 0 0"] show ?thesis
    by (simp add: start_proxy_def clean_def initPriorityQueue_def home_page_def) blast
qed

text \<open>C33. A worker takes the first request of the queue, and, when the file server answers, the file
  server receives the request as the client sent it, the client receives the concatenation of
  everything the file server sends, whatever the sizes of the partial writes, both connections are
  closed and the queue represents the remaining requests.\<close>

theorem serve_one_forwards:
  assumes "pq_repr (px_heap px, px_pq px) ((a, v) # xs)" "we_socket env \<noteq> -1" "0 \<le> we_connect env"
    "we_request env = Some request" "we_recv env = map Some chunks @ None # rest"
    "writes_seq (request # chunks) (px_writes px)" "we_socket env \<noteq> qi_client_fd v"
  shows "\<exists>px'. serve_one env px = Some (NextRequest, px') \<and> pq_repr (px_heap px', px_pq px') xs \<and>
    px_sent px' (we_socket env) = px_sent px (we_socket env) @ request \<and>
    px_sent px' (qi_client_fd v) = px_sent px (qi_client_fd v) @ concat chunks \<and>
    {we_socket env, qi_client_fd v} \<subseteq> px_closed px' \<and>
    px_clock px' = px_clock px + max 0 (qi_delay v)"
proof -
  from removeItem_repr [OF assms(1)] obtain pq where rm: "removeItem (px_heap px) (px_pq px) = Some (Removed a, px_heap px, pq)"
      "pq_repr (px_heap px, pq) xs" by blast
  from assms(1) obtain it where it: "px_heap px a = Some it" "payload it = v" by (auto simp: pq_repr_def)
  then have f: "qi_client_fd it = qi_client_fd v" "qi_delay it = qi_delay v" by auto
  let ?px = "px\<lparr>px_heap := px_heap px, px_pq := pq, px_clock := px_clock px + max 0 (qi_delay v)\<rparr>"
  from assms(6) obtain ws where ws: "writes_left (length request) (px_writes ?px) = Some ws" "writes_seq chunks ws"
    by (auto split: option.splits)
  let ?px1 = "(dprintf (we_socket env) request ?px)\<lparr>px_writes := ws\<rparr>"
  from forward_loop_total [of chunks ?px1 "qi_client_fd v" rest] ws(2) obtain ws' where
    fw: "forward_loop (qi_client_fd v) (we_recv env) ?px1 = Some (?px1\<lparr>px_sent := (px_sent ?px1)(qi_client_fd v :=
        px_sent ?px1 (qi_client_fd v) @ concat chunks), px_writes := ws'\<rparr>)" by (auto simp: assms(5))
  have "serve_one env px = Some (NextRequest, shutdown_close (qi_client_fd v) (shutdown_close (we_socket env)
      (?px1\<lparr>px_sent := (px_sent ?px1)(qi_client_fd v := px_sent ?px1 (qi_client_fd v) @ concat chunks), px_writes := ws'\<rparr>)))"
    using assms(2-4) http_send_data_total [OF ws(1), of "we_socket env"] fw it(1) f
    by (cases "0 < qi_delay v") (simp_all add: serve_one_def rm(1) Let_def)
  with rm(2) assms(7) show ?thesis by (simp add: shutdown_close_def dprintf_def)
qed

definition sample_env :: worker_env where
  "sample_env = \<lparr>we_socket = 9, we_connect = 0, we_request = Some ''GET'', we_recv = [Some ''ab'', Some ''c'', None],
     we_errbuf = []\<rparr>"

theorem serve_one_forwards_witness:
  "\<exists>px'. serve_one sample_env ((start_proxy 5 [1, 2, 1, 1, 1])\<lparr>px_heap := sample_heap, px_pq := sample_pq 5\<rparr>) =
     Some (NextRequest, px') \<and> px_sent px' 7 = ''abc''"
  using serve_one_forwards [of "(start_proxy 5 [1, 2, 1, 1, 1])\<lparr>px_heap := sample_heap, px_pq := sample_pq 5\<rparr>"
      1 "sample_item 3 7" "[]" sample_env "''GET''" "[''ab'', ''c'']" "[]"] sample_repr [of 5]
  by (simp add: sample_env_def start_proxy_def sample_item_def) blast

text \<open>C39. The parser reads back what a request says: for every file name without blanks or control characters, every priority of the C type \<^verbatim>\<open>int\<close> and any sequence of headers,
  each of them \<open>Delay\<close> with a number of type \<^verbatim>\<open>int\<close> or one with another name and any value, it returns the path, the priority, and as the delay the number of the last
  \<open>Delay\<close> header, or -1 without one. The other names are those of \<^const>\<open>other_name\<close>: without a colon, not \<open>Delay\<close> in other case, and not a prefix of \<open>Delay\<close>, possibly empty, with one more letter, which the code takes for
  \<open>Delay\<close> (\<^verbatim>\<open>proxyserver.h:253\<close>).\<close>

theorem parse_client_request_roundtrip:
  assumes "clean name" "- (2 ^ 31) \<le> p" "p < 2 ^ 31" "list_all header_ok hs"
  shows "map_option (\<lambda>rq. (rq_path rq, rq_delay rq, rq_priority rq)) (parse_client_request m (Some (request_with p name hs))) =
    Some (Some (''/'' @ show_int p @ ''/'' @ name), last_delay (-1) hs, p)"
  by (simp add: parse_request_with [OF assms])

theorem parse_client_request_roundtrip_witness:
  "map_option (\<lambda>rq. (rq_path rq, rq_delay rq, rq_priority rq)) (parse_client_request 0 (Some (request_with 12 ''a.html''
     [Other_header ''Host'' ''localhost:8000'', Delay_header 5, Other_header ''Date'' ''x'']))) =
    Some (Some (''/'' @ show_int 12 @ ''/a.html''), 5, 12)"
  using parse_client_request_roundtrip [of "''a.html''" 12 "[Other_header ''Host'' ''localhost:8000'', Delay_header 5, Other_header ''Date'' ''x'']" 0]
  by (simp add: clean_def other_name_def one_line_def)

text \<open>Every header whose name is one letter sets the delay: the comparison with \<open>Delay\<close> covers
  one character less than the header's name, which for such a name is none.\<close>

theorem one_letter_header_sets_delay:
  assumes "c \<noteq> CHR '':''" "- (2 ^ 31) \<le> d" "d < 2 ^ 31"
  shows "parse_header_line (c # '': '' @ show_int d) after e = Some d"
proof -
  have "strstr (c # '': '' @ show_int d) '':'' = Some 1"
    using strstr_char [of "CHR '':''" "[c]" "CHR '' '' # show_int d"] assms(1) by simp
  then show ?thesis by (simp add: parse_header_line_def strncmp_eq_def atoi_show_int [OF assms(2,3)])
qed

theorem one_letter_header_sets_delay_witness:
  "parse_header_line (''X: '' @ show_int 5) None (-1) = Some 5"
  using one_letter_header_sets_delay [of "CHR ''X''" 5 None "-1"] by simp

end
