(* ===== verification/Memory.thy ===== *)
theory Memory
  imports Prelude
begin

text \<open>
  Byte-addressed memory, the common base of the components whose code works on raw bytes
  (the log-structured file system image and the kernel's pages): little-endian loads and
  stores of 32- and 64-bit integers, \<^verbatim>\<open>memset\<close> and \<^verbatim>\<open>memcpy\<close> with disjoint
  arguments, and the frame lemmas that say which addresses a store leaves alone.
\<close>

type_synonym mem = "nat \<Rightarrow> u8"

named_theorems mem_frame \<open>reads of addresses a store does not touch\<close>

section \<open>Integers in memory\<close>

definition byte_of :: "nat \<Rightarrow> u32 \<Rightarrow> u8" where
  "byte_of k v = ucast (drop_bit (8 * k) v)"

definition rd32 :: "mem \<Rightarrow> nat \<Rightarrow> u32" where
  "rd32 m a = word_of_nat (unat (m a) + 256 * unat (m (a + 1)) +
     65536 * unat (m (a + 2)) + 16777216 * unat (m (a + 3)))"

definition wr32 :: "mem \<Rightarrow> nat \<Rightarrow> u32 \<Rightarrow> mem" where
  "wr32 m a v = m(a := byte_of 0 v, a + 1 := byte_of 1 v, a + 2 := byte_of 2 v, a + 3 := byte_of 3 v)"

definition rd64 :: "mem \<Rightarrow> nat \<Rightarrow> u64" where
  "rd64 m a = word_of_nat (unat (rd32 m a) + 4294967296 * unat (rd32 m (a + 4)))"

definition wr64 :: "mem \<Rightarrow> nat \<Rightarrow> u64 \<Rightarrow> mem" where
  "wr64 m a v = wr32 (wr32 m a (ucast v)) (a + 4) (ucast (drop_bit 32 v))"

lemma unat_byte_of: "unat (byte_of k v) = unat v div 256 ^ k mod 256"
proof -
  have "(2::nat) ^ (8 * k) = 256 ^ k" by (simp add: power_mult)
  moreover have "unat (byte_of k v) = drop_bit (8 * k) (unat v) mod 2 ^ 8"
    by (simp add: byte_of_def unsigned_ucast_eq unat_drop_bit_eq take_bit_eq_mod del: drop_bit_eq_div)
  ultimately show ?thesis by (simp add: drop_bit_eq_div)
qed

lemma split_bytes4:
  fixes n :: nat assumes "n < 4294967296"
  shows "n mod 256 + 256 * (n div 256 mod 256) + 65536 * (n div 65536 mod 256) +
    16777216 * (n div 16777216 mod 256) = n"
proof -
  define q1 q2 q3 where q_defs: "q1 = n div 256" "q2 = q1 div 256" "q3 = q2 div 256"
  have d2: "n div 65536 = q2"
    using div_mult2_eq [of n 256 256] by (simp add: q_defs)
  have d3: "n div 16777216 = q3"
    using div_mult2_eq [of n 65536 256] d2 by (simp add: q_defs)
  have "q3 < 256" using assms d3 less_mult_imp_div_less [of n 256 16777216] by simp
  then have "q3 mod 256 = q3" by simp
  moreover have "256 * q1 + n mod 256 = n" "256 * q2 + q1 mod 256 = q1" "256 * q3 + q2 mod 256 = q2"
    unfolding q_defs by (rule mult_div_mod_eq)+
  ultimately have "n mod 256 + 256 * (q1 mod 256) + 65536 * (q2 mod 256) + 16777216 * (q3 mod 256) = n"
    by linarith
  then show ?thesis by (simp only: d2 d3 flip: q_defs(1))
qed

lemma rd32_wr32_same [simp]: "rd32 (wr32 m a v) a = v"
proof -
  have b: "unat v < 4294967296" using unsigned_less [of v, where ?'a = nat] by simp
  have "rd32 (wr32 m a v) a = word_of_nat (unat v mod 256 + 256 * (unat v div 256 mod 256) +
     65536 * (unat v div 65536 mod 256) + 16777216 * (unat v div 16777216 mod 256))"
    by (simp add: rd32_def wr32_def unat_byte_of)
  then show ?thesis by (simp add: split_bytes4 [OF b])
qed

lemma wr32_other [mem_frame]: "b < a \<or> a + 4 \<le> b \<Longrightarrow> wr32 m a v b = m b"
  by (auto simp: wr32_def)

lemma rd32_cong:
  assumes "\<And>i. i < 4 \<Longrightarrow> m (a + i) = m' (a + i)"
  shows "rd32 m a = rd32 m' a"
  using assms [of 0] assms [of 1] assms [of 2] assms [of 3] by (simp add: rd32_def)

lemma rd32_wr32_other [mem_frame]: "b + 4 \<le> a \<or> a + 4 \<le> b \<Longrightarrow> rd32 (wr32 m a v) b = rd32 m b"
  by (rule rd32_cong) (auto intro!: wr32_other)

lemma rd64_cong:
  assumes "\<And>i. i < 8 \<Longrightarrow> m (a + i) = m' (a + i)"
  shows "rd64 m a = rd64 m' a"
proof -
  have "rd32 m a = rd32 m' a" by (rule rd32_cong) (simp add: assms)
  moreover have "rd32 m (a + 4) = rd32 m' (a + 4)"
    by (rule rd32_cong) (use assms in \<open>simp add: add.assoc\<close>)
  ultimately show ?thesis by (simp add: rd64_def)
qed

lemma rd64_wr64_same [simp]: "rd64 (wr64 m a v) a = v"
proof -
  let ?n = "unat v"
  have lo: "unat (ucast v :: u32) = ?n mod 4294967296"
    by (simp add: unsigned_ucast_eq take_bit_eq_mod)
  have hi: "unat (ucast (drop_bit 32 v) :: u32) = drop_bit 32 ?n mod 4294967296"
    by (simp add: unsigned_ucast_eq unat_drop_bit_eq take_bit_eq_mod del: drop_bit_eq_div)
  have "?n mod 4294967296 + 4294967296 * (drop_bit 32 ?n mod 4294967296) = ?n"
    using unsigned_less [of v, where ?'a = nat] by (simp add: less_mult_imp_div_less drop_bit_eq_div)
  then have "rd64 (wr64 m a v) a = word_of_nat ?n"
    by (simp only: rd64_def wr64_def rd32_wr32_other [of a "a + 4"] rd32_wr32_same lo hi
        le_refl simp_thms)
  then show ?thesis by simp
qed

lemma wr64_other [mem_frame]: "b < a \<or> a + 8 \<le> b \<Longrightarrow> wr64 m a v b = m b"
  by (auto simp: wr64_def wr32_other)

section \<open>Block operations\<close>

definition memset_m :: "mem \<Rightarrow> nat \<Rightarrow> u8 \<Rightarrow> nat \<Rightarrow> mem" where
  "memset_m m a c n = (\<lambda>i. if a \<le> i \<and> i < a + n then c else m i)"

text \<open>The effect of \<^verbatim>\<open>memmove\<close> (and of \<^verbatim>\<open>memcpy\<close> on disjoint blocks): every byte of the
  destination is the old byte of the source.\<close>

definition memcpy_m :: "mem \<Rightarrow> nat \<Rightarrow> nat \<Rightarrow> nat \<Rightarrow> mem" where
  "memcpy_m m dst src n = (\<lambda>i. if dst \<le> i \<and> i < dst + n then m (src + (i - dst)) else m i)"

definition mem_bytes :: "mem \<Rightarrow> nat \<Rightarrow> nat \<Rightarrow> u8 list" where
  "mem_bytes m a n = map (\<lambda>i. m (a + i)) [0..<n]"

definition wr_bytes :: "mem \<Rightarrow> nat \<Rightarrow> u8 list \<Rightarrow> mem" where
  "wr_bytes m a bs = (\<lambda>i. if a \<le> i \<and> i < a + length bs then bs ! (i - a) else m i)"

lemma length_mem_bytes [simp]: "length (mem_bytes m a n) = n"
  by (simp add: mem_bytes_def)

lemma nth_mem_bytes [simp]: "i < n \<Longrightarrow> mem_bytes m a n ! i = m (a + i)"
  by (simp add: mem_bytes_def)

lemma memset_other [mem_frame]: "b < a \<or> a + n \<le> b \<Longrightarrow> memset_m m a c n b = m b"
  by (auto simp: memset_m_def)

lemma memcpy_other [mem_frame]: "b < dst \<or> dst + n \<le> b \<Longrightarrow> memcpy_m m dst src n b = m b"
  by (auto simp: memcpy_m_def)

lemma wr_bytes_other [mem_frame]: "b < a \<or> a + length bs \<le> b \<Longrightarrow> wr_bytes m a bs b = m b"
  by (auto simp: wr_bytes_def)

lemma memcpy_in: "i < n \<Longrightarrow> memcpy_m m dst src n (dst + i) = m (src + i)"
  by (simp add: memcpy_m_def)

lemma mem_bytes_cong:
  "(\<And>i. i < n \<Longrightarrow> m (a + i) = m' (a' + i)) \<Longrightarrow> mem_bytes m a n = mem_bytes m' a' n"
  by (simp add: mem_bytes_def)

lemma mem_bytes_memcpy [simp]: "mem_bytes (memcpy_m m dst src n) dst n = mem_bytes m src n"
  by (rule mem_bytes_cong) (simp add: memcpy_m_def)

lemma mem_bytes_wr_bytes [simp]: "mem_bytes (wr_bytes m a bs) a (length bs) = bs"
  by (rule nth_equalityI) (simp_all add: wr_bytes_def)

lemma mem_bytes_append: "mem_bytes m a (n + k) = mem_bytes m a n @ mem_bytes m (a + n) k"
  by (rule nth_equalityI) (auto simp: nth_append)

lemma mem_bytes_Suc: "mem_bytes m a (Suc n) = m a # mem_bytes m (a + 1) n"
  using mem_bytes_append [of m a 1 n] by (simp add: mem_bytes_def)

section \<open>Memories that agree on a range\<close>

definition same_on :: "nat \<Rightarrow> nat \<Rightarrow> mem \<Rightarrow> mem \<Rightarrow> bool" where
  "same_on lo hi m m' = (\<forall>b. lo \<le> b \<and> b < hi \<longrightarrow> m b = m' b)"

lemma same_onI: "(\<And>b. lo \<le> b \<Longrightarrow> b < hi \<Longrightarrow> m b = m' b) \<Longrightarrow> same_on lo hi m m'"
  by (simp add: same_on_def)

lemma same_on_sub: "same_on lo hi m m' \<Longrightarrow> lo \<le> lo' \<Longrightarrow> hi' \<le> hi \<Longrightarrow> same_on lo' hi' m m'"
  by (simp add: same_on_def)

lemma same_on_trans [trans]: "same_on lo hi m m' \<Longrightarrow> same_on lo hi m' m'' \<Longrightarrow> same_on lo hi m m''"
  by (simp add: same_on_def)

lemma same_on_rd32: "same_on a (a + 4) m m' \<Longrightarrow> rd32 m a = rd32 m' a"
  by (rule rd32_cong) (simp add: same_on_def)

lemma same_on_rd64: "same_on a (a + 8) m m' \<Longrightarrow> rd64 m a = rd64 m' a"
  by (rule rd64_cong) (simp add: same_on_def)

lemma same_on_bytes: "same_on a (a + n) m m' \<Longrightarrow> mem_bytes m a n = mem_bytes m' a n"
  by (rule mem_bytes_cong) (simp add: same_on_def)

lemma rd32_frames [mem_frame]:
  "b + 4 \<le> dst \<or> dst + n \<le> b \<Longrightarrow> rd32 (memcpy_m m dst src n) b = rd32 m b"
  "b + 4 \<le> a \<or> a + length bs \<le> b \<Longrightarrow> rd32 (wr_bytes m a bs) b = rd32 m b"
  "b + 4 \<le> a \<or> a + 8 \<le> b \<Longrightarrow> rd32 (wr64 m a w) b = rd32 m b"
  "b + 4 \<le> a \<or> a + 1 \<le> b \<Longrightarrow> rd32 (m(a := c)) b = rd32 m b"
  by (rule rd32_cong, auto simp: memcpy_m_def wr_bytes_def wr64_other)+

end
