(* ===== verification/Wfs.thy ===== *)
theory Wfs
  imports Memory CString
begin

text \<open>
  The log-structured file system (\<^verbatim>\<open>wfs.h\<close>, \<^verbatim>\<open>mount.wfs.c\<close>, \<^verbatim>\<open>mkfs.wfs.c\<close>,
  \<^verbatim>\<open>fsck.wfs.c\<close>) on the bytes of its image: a superblock of 8 bytes (magic, head), then log
  entries, each an inode of 44 bytes followed by its data; a directory's data are entries of
  40 bytes (a name of 32 bytes and a 64-bit inode number). A pointer into the mapped image is
  its offset, 0 in the table \<open>all_le\<close> standing for the null pointer. An access outside the
  image, a dereference of a null pointer and an index outside the table have no result.

  The theories \<open>Wfs_Log\<close> and \<open>Wfs_Fs\<close> relate the image to the log it represents and prove
  the operations correct.
\<close>

section \<open>Data\<close>

record wfs_inode =
  ino_number :: u32
  ino_deleted :: u32
  ino_mode :: u32
  ino_uid :: u32
  ino_gid :: u32
  ino_flags :: u32
  ino_size :: u32
  ino_atime :: u32
  ino_mtime :: u32
  ino_ctime :: u32
  ino_links :: u32

abbreviation sizeof_sb :: nat where "sizeof_sb \<equiv> 8"
abbreviation sizeof_inode :: nat where "sizeof_inode \<equiv> 44"
abbreviation sizeof_dentry :: nat where "sizeof_dentry \<equiv> 40"

definition MAX_FILE_NAME_LEN :: nat where "MAX_FILE_NAME_LEN = 32"
definition WFS_MAGIC :: u32 where "WFS_MAGIC = 0xdeadbeef"
definition S_IFDIR :: u32 where "S_IFDIR = 0x4000"
definition S_IFREG :: u32 where "S_IFREG = 0x8000"
definition ENOENT :: int where "ENOENT = 2"
definition EEXIST :: int where "EEXIST = 17"
definition EFBIG :: int where "EFBIG = 27"
definition ENOSPC :: int where "ENOSPC = 28"

record wfs =
  wf_data :: mem
  all_le :: "nat \<Rightarrow> nat"
  nLogEntry :: u32
  total_size :: nat

text \<open>What the operations ask the system for.\<close>

record wfs_env =
  env_time :: u32
  env_uid :: u32
  env_gid :: u32

definition rd_inode :: "mem \<Rightarrow> nat \<Rightarrow> wfs_inode" where
  "rd_inode m a =
    \<lparr>ino_number = rd32 m a, ino_deleted = rd32 m (a + 4), ino_mode = rd32 m (a + 8), ino_uid = rd32 m (a + 12),
     ino_gid = rd32 m (a + 16), ino_flags = rd32 m (a + 20), ino_size = rd32 m (a + 24), ino_atime = rd32 m (a + 28),
     ino_mtime = rd32 m (a + 32), ino_ctime = rd32 m (a + 36), ino_links = rd32 m (a + 40)\<rparr>"

definition sb_head :: "mem \<Rightarrow> u32" where
  "sb_head m = rd32 m 4"

definition in_image :: "wfs \<Rightarrow> nat \<Rightarrow> nat \<Rightarrow> unit option" where
  "in_image s a n = (if a + n \<le> total_size s then Some () else None)"

section \<open>Lookup\<close>

function scan_log :: "wfs \<Rightarrow> u32 \<Rightarrow> nat \<Rightarrow> nat option \<Rightarrow> (nat option \<times> wfs) option" where
  "scan_log s inode_cnm lookup the_entry =
    (if unat (sb_head (wf_data s)) \<le> lookup then Some (the_entry, s)
     else if total_size s < lookup + sizeof_inode then None
     else
       let current = rd_inode (wf_data s) lookup;
           k = unat (ino_number current);
           s' = s\<lparr>all_le := (all_le s)(k := if ino_deleted current = 0 then lookup else 0),
                 nLogEntry := (if nLogEntry s < ino_number current then ino_number current else nLogEntry s)\<rparr> in
       if 256 \<le> k then None
       else scan_log s' inode_cnm (lookup + sizeof_inode + unat (ino_size current))
              (if ino_number current = inode_cnm then Some lookup else the_entry))"
  by pat_completeness auto
termination
  by (relation "measure (\<lambda>(s, n, lookup, e). unat (sb_head (wf_data s)) - lookup)") auto

declare scan_log.simps [simp del]

definition get_number_inode :: "wfs \<Rightarrow> u32 \<Rightarrow> (nat option \<times> wfs) option" where
  "get_number_inode s inode_cnm = do {
     in_image s 0 sizeof_sb;
     (the_entry, s) \<leftarrow> scan_log s inode_cnm sizeof_sb None;
     e \<leftarrow> the_entry;
     if ino_deleted (rd_inode (wf_data s) e) \<noteq> 0 then Some (None, s) else Some (Some e, s)
   }"

text \<open>\<^verbatim>\<open>strcmp(p, t) == 0\<close> for a pointer into the image.\<close>

fun strcmp_at :: "wfs \<Rightarrow> nat \<Rightarrow> string \<Rightarrow> bool option" where
  "strcmp_at s a [] = (if a < total_size s then Some (wf_data s a = 0) else None)"
| "strcmp_at s a (c # t) =
    (if a < total_size s then (if wf_data s a = of_char c then strcmp_at s (a + 1) t else Some False) else None)"

function dir_search :: "wfs \<Rightarrow> string \<Rightarrow> nat \<Rightarrow> nat \<Rightarrow> u64 option option" where
  "dir_search s token insides end =
    (if end \<le> insides then Some None
     else do {
       eq \<leftarrow> strcmp_at s insides token;
       if eq then do { in_image s insides sizeof_dentry; Some (Some (rd64 (wf_data s) (insides + 32))) }
       else dir_search s token (insides + sizeof_dentry) end
     })"
  by pat_completeness auto
termination
  by (relation "measure (\<lambda>(s, t, a, e). e - a)") auto

declare dir_search.simps [simp del]

fun path_walk :: "wfs \<Rightarrow> string list \<Rightarrow> nat option \<Rightarrow> (nat option \<times> wfs) option" where
  "path_walk s [] curDir = Some (curDir, s)"
| "path_walk s (token # ts) curDir = do {
     dir \<leftarrow> curDir;
     let sz = unat (ino_size (rd_inode (wf_data s) dir));
     found \<leftarrow> dir_search s token (dir + sizeof_inode) (dir + sizeof_inode + sz);
     case found of
       None \<Rightarrow> Some (None, s)
     | Some n \<Rightarrow> do { (curDir, s) \<leftarrow> get_number_inode s (ucast n); path_walk s ts curDir }
   }"

definition get_path_inode :: "wfs \<Rightarrow> string \<Rightarrow> (nat option \<times> wfs) option" where
  "get_path_inode s path = do {
     (curDir, s) \<leftarrow> get_number_inode s 0;
     case curDir of
       None \<Rightarrow> Some (None, s)
     | Some root \<Rightarrow>
         if ino_mode (rd_inode (wf_data s) root) AND S_IFDIR = 0 then Some (None, s)
         else if path = ''/'' then Some (Some root, s)
         else path_walk s (tokens ''/'' path) (Some root)
   }"

text \<open>The inode is copied field by field; the three times are set to the current time.\<close>

definition wfsincpy :: "u32 \<Rightarrow> nat \<Rightarrow> nat \<Rightarrow> mem \<Rightarrow> mem" where
  "wfsincpy cur_time orig copied m =
    fold (\<lambda>k m. wr32 m (copied + 4 * k) (if k \<in> {7, 8, 9} then cur_time else rd32 m (orig + 4 * k))) [0..<11] m"

section \<open>Operations\<close>

record stat =
  st_uid :: u32
  st_gid :: u32
  st_mtime :: u32
  st_mode :: u32
  st_nlink :: u32
  st_size :: u32

definition wfs_getattr :: "wfs \<Rightarrow> string \<Rightarrow> (int \<times> stat option \<times> wfs) option" where
  "wfs_getattr s path = do {
     (file_entry, s) \<leftarrow> get_path_inode s path;
     case file_entry of
       None \<Rightarrow> Some (- ENOENT, None, s)
     | Some e \<Rightarrow>
         let i = rd_inode (wf_data s) e in
         Some (0, Some \<lparr>st_uid = ino_uid i, st_gid = ino_gid i, st_mtime = ino_mtime i, st_mode = ino_mode i,
           st_nlink = ino_links i, st_size = ino_size i\<rparr>, s)
   }"

definition strncpy_bytes :: "string \<Rightarrow> nat \<Rightarrow> u8 list" where
  "strncpy_bytes src n = map of_char (take n src) @ replicate (n - length src) 0"

text \<open>The part of a path before the last slash, \<^verbatim>\<open>"/"\<close> if it is empty, and the name behind it.\<close>

definition split_path :: "string \<Rightarrow> (string \<times> string) option" where
  "split_path path = do {
     last_slash \<leftarrow> strrchr path (CHR ''/'');
     Some (if last_slash = 0 then ''/'' else take last_slash path, drop (last_slash + 1) path)
   }"

text \<open>The common part of \<open>wfs_mknod\<close> and \<open>wfs_mkdir\<close>: a copy of the parent directory at the head
  of the log, the new inode behind it, and the new directory entry at the end of the copy.\<close>

definition new_inode_init :: "wfs_env \<Rightarrow> u32 \<Rightarrow> nat \<Rightarrow> mem \<Rightarrow> mem" where
  "new_inode_init env mode node m =
    fold (\<lambda>(k, v) m. wr32 m (node + k) v)
      [(4, 0), (8, mode), (12, env_uid env), (16, env_gid env), (20, 0), (24, 0),
       (36, env_time env), (32, env_time env), (28, env_time env), (40, 1)] m"

definition write_dentry :: "nat \<Rightarrow> u64 \<Rightarrow> string \<Rightarrow> mem \<Rightarrow> mem" where
  "write_dentry a num name m =
    (wr_bytes (wr64 m (a + 32) num) a (strncpy_bytes name (MAX_FILE_NAME_LEN - 1)))(a + (MAX_FILE_NAME_LEN - 1) := 0)"

definition add_node :: "wfs_env \<Rightarrow> u32 \<Rightarrow> wfs \<Rightarrow> nat \<Rightarrow> string \<Rightarrow> (int \<times> wfs) option" where
  "add_node env mode s dir node_name = do {
     let new_dir = unat (sb_head (wf_data s));
     if total_size s < new_dir + sizeof_inode then Some (- ENOSPC, s)
     else do {
       let m = wfsincpy (env_time env) dir new_dir (wf_data s);
       let sz = unat (ino_size (rd_inode m dir));
       in_image s (new_dir + sizeof_inode) sz;
       in_image s (dir + sizeof_inode) sz;
       let m = memcpy_m m (new_dir + sizeof_inode) (dir + sizeof_inode) sz;
       let m = wr32 m 4 (sb_head m + 44 + ino_size (rd_inode m dir) + 40);
       let new_node = unat (sb_head m);
       in_image s new_node sizeof_inode;
       let m = (case List.find (\<lambda>i. all_le s i = 0) [0..<256] of
                  Some i \<Rightarrow> wr32 m new_node (word_of_nat i)
                | None \<Rightarrow> m);
       let m = new_inode_init env mode new_node m;
       let m = wr32 m 4 (sb_head m + 44);
       let new_dentry = new_dir + sizeof_inode + unat (ino_size (rd_inode m new_dir));
       let num = ino_number (rd_inode m new_node);
       in_image s new_dentry sizeof_dentry;
       let m = write_dentry new_dentry (ucast num) node_name m;
       let m = wr32 m (new_dir + 24) (ino_size (rd_inode m new_dir) + 40);
       if 256 \<le> unat num then None
       else Some (0, s\<lparr>wf_data := m, all_le := (all_le s)(unat num := new_node)\<rparr>)
     }
   }"

definition make_node_dir :: "u32 \<Rightarrow> wfs_env \<Rightarrow> string \<Rightarrow> nat option \<Rightarrow> wfs \<Rightarrow> (int \<times> wfs) option" where
  "make_node_dir mode env node_name dir s =
    (case dir of
       None \<Rightarrow> Some (- ENOENT, s)
     | Some d \<Rightarrow>
         if ino_mode (rd_inode (wf_data s) d) AND S_IFDIR = 0 then Some (- ENOENT, s)
         else add_node env mode s d node_name)"

definition make_node :: "u32 \<Rightarrow> wfs_env \<Rightarrow> wfs \<Rightarrow> string \<Rightarrow> (int \<times> wfs) option" where
  "make_node mode env s path = do {
     (test_path, s) \<leftarrow> get_path_inode s path;
     if case test_path of None \<Rightarrow> False | Some e \<Rightarrow> ino_deleted (rd_inode (wf_data s) e) \<noteq> 0
     then Some (- EEXIST, s)
     else case split_path path of
       None \<Rightarrow> Some (- ENOENT, s)
     | Some (dir_path, node_name) \<Rightarrow> do {
         (dir, s) \<leftarrow> get_path_inode s dir_path;
         make_node_dir mode env node_name dir s
       }
   }"

definition wfs_mknod :: "wfs_env \<Rightarrow> wfs \<Rightarrow> string \<Rightarrow> (int \<times> wfs) option" where
  "wfs_mknod = make_node S_IFREG"

definition wfs_mkdir :: "wfs_env \<Rightarrow> wfs \<Rightarrow> string \<Rightarrow> (int \<times> wfs) option" where
  "wfs_mkdir = make_node S_IFDIR"

text \<open>\<open>buf\<close> tells whether the caller's buffer is there; the bytes put into it are part of the result.\<close>

definition wfs_read :: "wfs_env \<Rightarrow> wfs \<Rightarrow> string \<Rightarrow> bool \<Rightarrow> nat \<Rightarrow> nat \<Rightarrow> (int \<times> u8 list \<times> wfs) option" where
  "wfs_read env s path buf nbytes offset = do {
     (file_entry, s) \<leftarrow> get_path_inode s path;
     case file_entry of
       None \<Rightarrow> Some (- ENOENT, [], s)
     | Some e \<Rightarrow> do {
         let i = rd_inode (wf_data s) e;
         if ino_mode i AND S_IFDIR \<noteq> 0 then Some (-1, [], s)
         else if unat (ino_size i) \<le> offset then Some (0, [], s)
         else do {
           let actual_size = (if unat (ino_size i) < offset + nbytes then unat (ino_size i) - offset else nbytes);
           if \<not> buf then Some (-1, [], s)
           else do {
             in_image s (e + sizeof_inode + offset) actual_size;
             Some (to_int32 (int actual_size), mem_bytes (wf_data s) (e + sizeof_inode + offset) actual_size,
                   s\<lparr>wf_data := wr32 (wf_data s) (e + 28) (env_time env)\<rparr>)
           }
         }
       }
   }"

definition write_entry :: "wfs_env \<Rightarrow> wfs \<Rightarrow> nat \<Rightarrow> u8 list \<Rightarrow> nat \<Rightarrow> (int \<times> wfs) option" where
  "write_entry env s orig bytes offset = do {
     let modified = unat (sb_head (wf_data s));
     in_image s modified sizeof_inode;
     let m = wfsincpy (env_time env) orig modified (wf_data s);
     let sz = unat (ino_size (rd_inode m orig));
     if total_size s < modified + sizeof_inode + sz + length bytes then Some (- ENOSPC, s\<lparr>wf_data := m\<rparr>)
     else do {
       in_image s (orig + sizeof_inode) sz;
       let m = (if 0 < sz then memcpy_m m (modified + sizeof_inode) (orig + sizeof_inode) sz else m);
       let m = wr_bytes m (modified + sizeof_inode + offset) bytes;
       let m = wr32 m (modified + 24)
                 (if sz < offset + length bytes then word_of_nat (offset + length bytes)
                  else ino_size (rd_inode m orig));
       let m = wr32 m (modified + 36) (env_time env);
       let m = wr32 m (modified + 32) (env_time env);
       let m = wr32 m 4 (sb_head m + 44 + ino_size (rd_inode m modified));
       Some (to_int32 (int (length bytes)), s\<lparr>wf_data := m\<rparr>)
     }
   }"

definition wfs_write :: "wfs_env \<Rightarrow> wfs \<Rightarrow> string \<Rightarrow> u8 list option \<Rightarrow> nat \<Rightarrow> (int \<times> wfs) option" where
  "wfs_write env s path buf offset = do {
     (file_entry, s) \<leftarrow> get_path_inode s path;
     case file_entry of
       None \<Rightarrow> Some (- ENOENT, s)
     | Some orig \<Rightarrow>
         let i = rd_inode (wf_data s) orig in
         if ino_mode i AND S_IFDIR \<noteq> 0 then Some (-1, s)
         else if unat (ino_size i) < offset then Some (- EFBIG, s)
         else case buf of
           None \<Rightarrow> Some (-1, s)
         | Some bytes \<Rightarrow> write_entry env s orig bytes offset
   }"

definition cstring_at :: "wfs \<Rightarrow> nat \<Rightarrow> string option" where
  "cstring_at s a =
    (let bs = mem_bytes (wf_data s) a (total_size s - a) in
     if 0 \<in> set bs then Some (map (\<lambda>b. char_of (unat b)) (takeWhile (\<lambda>b. b \<noteq> 0) bs)) else None)"

text \<open>\<open>filler\<close> is the callback of the caller, applied to the names added so far and the next one;
  \<^term>\<open>True\<close> means that its buffer is full.\<close>

function readdir_loop :: "wfs \<Rightarrow> nat \<Rightarrow> nat \<Rightarrow> (string list \<Rightarrow> string \<Rightarrow> bool) \<Rightarrow> nat \<Rightarrow> string list \<Rightarrow> string list option" where
  "readdir_loop s dir_data sz filler dentry_num names =
    (if sz \<le> dentry_num * sizeof_dentry then Some names
     else do {
       name \<leftarrow> cstring_at s (dir_data + dentry_num * sizeof_dentry);
       if filler names name then Some names
       else readdir_loop s dir_data sz filler (dentry_num + 1) (names @ [name])
     })"
  by pat_completeness auto
termination
  by (relation "measure (\<lambda>(s, d, sz, f, n, ns). sz - n * sizeof_dentry)") auto

declare readdir_loop.simps [simp del]

definition wfs_readdir :: "wfs \<Rightarrow> string \<Rightarrow> (string list \<Rightarrow> string \<Rightarrow> bool) \<Rightarrow> (int \<times> string list \<times> wfs) option" where
  "wfs_readdir s path filler = do {
     (dir, s) \<leftarrow> get_path_inode s path;
     case dir of
       None \<Rightarrow> Some (- ENOENT, [], s)
     | Some d \<Rightarrow>
         if ino_mode (rd_inode (wf_data s) d) AND S_IFDIR = 0 then Some (- ENOENT, [], s)
         else do {
           names \<leftarrow> readdir_loop s (d + sizeof_inode) (unat (ino_size (rd_inode (wf_data s) d))) filler 0 [];
           Some (0, names, s)
         }
   }"

text \<open>The bytes that \<^verbatim>\<open>strncpy\<close> copies from a name in the image.\<close>

definition name_at :: "mem \<Rightarrow> nat \<Rightarrow> string" where
  "name_at m a = map (\<lambda>b. char_of (unat b)) (takeWhile (\<lambda>b. b \<noteq> 0) (mem_bytes m a (MAX_FILE_NAME_LEN - 1)))"

function unlink_copy :: "wfs \<Rightarrow> string \<Rightarrow> nat \<Rightarrow> nat \<Rightarrow> nat \<Rightarrow> bool \<Rightarrow> (bool \<times> wfs) option" where
  "unlink_copy s filename insides end new_insides found =
    (if end \<le> insides then Some (found, s)
     else do {
       eq \<leftarrow> strcmp_at s insides filename;
       if eq then unlink_copy s filename (insides + sizeof_dentry) end new_insides True
       else do {
         in_image s insides sizeof_dentry;
         in_image s new_insides sizeof_dentry;
         let m = write_dentry new_insides (rd64 (wf_data s) (insides + 32)) (name_at (wf_data s) insides) (wf_data s);
         unlink_copy (s\<lparr>wf_data := m\<rparr>) filename (insides + sizeof_dentry) end (new_insides + sizeof_dentry) found
       }
     })"
  by pat_completeness auto
termination
  by (relation "measure (\<lambda>(s, f, a, e, n, b). e - a)") auto

declare unlink_copy.simps [simp del]

definition remove_entry :: "wfs_env \<Rightarrow> wfs \<Rightarrow> nat \<Rightarrow> nat \<Rightarrow> string \<Rightarrow> (int \<times> wfs) option" where
  "remove_entry env s file dir filename = do {
     let new_dir = unat (sb_head (wf_data s));
     in_image s new_dir sizeof_inode;
     let s = s\<lparr>wf_data := wfsincpy (env_time env) dir new_dir (wf_data s)\<rparr>;
     let sz = unat (ino_size (rd_inode (wf_data s) dir));
     (found, s) \<leftarrow> unlink_copy s filename (dir + sizeof_inode) (dir + sizeof_inode + sz)
                     (new_dir + sizeof_inode) False;
     if \<not> found then Some (- ENOENT, s)
     else do {
       let m = wr32 (wf_data s) (new_dir + 24) (ino_size (rd_inode (wf_data s) new_dir) - 40);
       let m = wr32 m 4 (sb_head m + 44 + ino_size (rd_inode m new_dir));
       let m = wr32 m (file + 4) 1;
       let k = unat (ino_number (rd_inode m file));
       if 256 \<le> k then None
       else Some (0, s\<lparr>wf_data := m, all_le := (all_le s)(k := 0)\<rparr>)
     }
   }"

definition unlink_dir :: "wfs_env \<Rightarrow> nat \<Rightarrow> string \<Rightarrow> nat option \<Rightarrow> wfs \<Rightarrow> (int \<times> wfs) option" where
  "unlink_dir env file_entry filename dir s =
    (case dir of
       None \<Rightarrow> Some (- ENOENT, s)
     | Some d \<Rightarrow>
         if ino_mode (rd_inode (wf_data s) d) AND S_IFDIR = 0 then Some (- ENOENT, s)
         else remove_entry env s file_entry d filename)"

definition wfs_unlink :: "wfs_env \<Rightarrow> wfs \<Rightarrow> string \<Rightarrow> (int \<times> wfs) option" where
  "wfs_unlink env s path = do {
     (file_entry, s) \<leftarrow> get_path_inode s path;
     case file_entry of
       None \<Rightarrow> Some (- ENOENT, s)
     | Some f \<Rightarrow>
       (case split_path path of
          None \<Rightarrow> Some (- ENOENT, s)
        | Some (dir_path, filename) \<Rightarrow> do {
            (dir, s) \<leftarrow> get_path_inode s dir_path;
            unlink_dir env f filename dir s
          })
   }"

text \<open>The two records that \<open>mkfs\<close> writes at the start of the image, whose other bytes stay.\<close>

definition initialize_file_system :: "u32 \<Rightarrow> mem \<Rightarrow> mem" where
  "initialize_file_system now m =
    fold (\<lambda>(k, v) m. wr32 m k v)
      [(0, WFS_MAGIC), (4, 8 + 44), (8, 0), (12, 0), (16, S_IFDIR), (20, 0), (24, 0), (28, 0), (32, 0),
       (36, now), (40, now), (44, now), (48, 1)] m"

definition mount_image :: "mem \<Rightarrow> nat \<Rightarrow> wfs" where
  "mount_image m n = \<lparr>wf_data = m, all_le = (\<lambda>_. 0), nLogEntry = 0, total_size = n\<rparr>"

text \<open>\<^verbatim>\<open>fsck\<close>: the live entries, in the order of their inode numbers, are moved to the front.
  Copying between blocks that overlap has no defined result.\<close>

fun fsck_loop :: "u32 \<Rightarrow> wfs \<Rightarrow> nat list \<Rightarrow> wfs option" where
  "fsck_loop now s [] = Some s"
| "fsck_loop now s (i # is) =
    (if all_le s i = 0 then fsck_loop now s is
     else do {
       let cur = all_le s i;
       let new = unat (sb_head (wf_data s));
       in_image s new sizeof_inode;
       in_image s cur sizeof_inode;
       let m = wfsincpy now cur new (wf_data s);
       let sz = unat (ino_size (rd_inode m cur));
       in_image s (new + sizeof_inode) sz;
       in_image s (cur + sizeof_inode) sz;
       if new < cur + sz \<and> cur < new + sz \<and> cur \<noteq> new then None
       else do {
         let m = memcpy_m m (new + sizeof_inode) (cur + sizeof_inode) sz;
         let m = wr32 m 4 (sb_head m + 44 + ino_size (rd_inode m cur));
         fsck_loop now (s\<lparr>wf_data := m, all_le := (all_le s)(i := new)\<rparr>) is
       }
     })"

definition fsck_main :: "u32 \<Rightarrow> wfs \<Rightarrow> wfs option" where
  "fsck_main now s = do {
     (e, s) \<leftarrow> get_number_inode s 0;
     fsck_loop now (s\<lparr>wf_data := wr32 (wf_data s) 4 8\<rparr>) [0..<256]
   }"

end
