(* ===== verification/Wfs_Log.thy ===== *)
theory Wfs_Log
  imports Wfs
begin

text \<open>
  The list of log entries that an image represents: lookup of an inode finds its latest entry,
  and the operations append entries to the list, or mark one of them as deleted, or refresh its
  access time. The lemmas of this theory give the complete effect of each operation on the
  log; resolution of paths is treated in \<open>Wfs_Fs\<close>.
\<close>

section \<open>Inodes in memory\<close>

lemma rd_inode_same: "same_on a (a + 44) m m' \<Longrightarrow> rd_inode m a = rd_inode m' a"
  unfolding rd_inode_def by (simp add: same_on_rd32 [OF same_on_sub])

lemma upt_11: "[0..<11] = [0, 1, 2, 3, 4, 5, 6, 7, 8, 9, 10::nat]"
  by (simp add: upt_rec)

lemma wfsincpy_unfold:
  "wfsincpy t orig copied m =
    (let m = wr32 m copied (rd32 m orig); m = wr32 m (copied + 4) (rd32 m (orig + 4));
         m = wr32 m (copied + 8) (rd32 m (orig + 8)); m = wr32 m (copied + 12) (rd32 m (orig + 12));
         m = wr32 m (copied + 16) (rd32 m (orig + 16)); m = wr32 m (copied + 20) (rd32 m (orig + 20));
         m = wr32 m (copied + 24) (rd32 m (orig + 24)); m = wr32 m (copied + 28) t;
         m = wr32 m (copied + 32) t; m = wr32 m (copied + 36) t in
     wr32 m (copied + 40) (rd32 m (orig + 40)))"
  by (simp add: wfsincpy_def upt_11 Let_def)

lemma wfsincpy_other [mem_frame]: "b < c \<or> c + 44 \<le> b \<Longrightarrow> wfsincpy t a c m b = m b"
  by (auto simp: wfsincpy_unfold Let_def wr32_other)

lemma rd_inode_wfsincpy:
  "a + 44 \<le> c \<Longrightarrow>
    rd_inode (wfsincpy t a c m) c = (rd_inode m a)\<lparr>ino_atime := t, ino_mtime := t, ino_ctime := t\<rparr>"
  by (simp add: wfsincpy_unfold Let_def rd_inode_def rd32_wr32_other)

lemma new_inode_init_other [mem_frame]: "b < a + 4 \<or> a + 44 \<le> b \<Longrightarrow> new_inode_init env mode a m b = m b"
  by (auto simp: new_inode_init_def wr32_other)

definition fresh_inode :: "wfs_env \<Rightarrow> u32 \<Rightarrow> u32 \<Rightarrow> wfs_inode" where
  "fresh_inode env mode num =
    \<lparr>ino_number = num, ino_deleted = 0, ino_mode = mode, ino_uid = env_uid env, ino_gid = env_gid env,
     ino_flags = 0, ino_size = 0, ino_atime = env_time env, ino_mtime = env_time env, ino_ctime = env_time env,
     ino_links = 1\<rparr>"

lemma rd_inode_new_inode_init: "rd_inode (new_inode_init env mode a m) a = fresh_inode env mode (rd32 m a)"
  by (simp add: new_inode_init_def rd_inode_def fresh_inode_def rd32_wr32_other)

lemma write_dentry_other [mem_frame]: "b < a \<or> a + 40 \<le> b \<Longrightarrow> write_dentry a num name m b = m b"
  by (auto simp: write_dentry_def wr_bytes_def wr64_other strncpy_bytes_def MAX_FILE_NAME_LEN_def)

section \<open>Directory entries\<close>

definition dent_name :: "u8 list \<Rightarrow> string" where
  "dent_name d = map (\<lambda>b. char_of (unat b)) (takeWhile (\<lambda>b. b \<noteq> 0) (take 32 d))"

definition dent_num :: "u8 list \<Rightarrow> u64" where
  "dent_num d = rd64 (\<lambda>i. d ! i) 32"

function dents :: "u8 list \<Rightarrow> (string \<times> u64) list" where
  "dents d = (if length d < 40 then [] else (dent_name d, dent_num d) # dents (drop 40 d))"
  by pat_completeness auto
termination by (relation "measure length") auto

function wf_dir :: "u8 list \<Rightarrow> bool" where
  "wf_dir d = (if d = [] then True else if length d < 40 then False
     else 0 \<in> set (take 32 d) \<and> wf_dir (drop 40 d))"
  by pat_completeness auto
termination by (relation "measure length") auto

declare dents.simps [simp del] wf_dir.simps [simp del]

lemma dents_Nil [simp]: "dents [] = []" "wf_dir []"
  by (simp_all add: dents.simps [of "[]"] wf_dir.simps [of "[]"])

lemma wf_dir_nonempty:
  "wf_dir d \<Longrightarrow> d \<noteq> [] \<Longrightarrow> 40 \<le> length d \<and> 0 \<in> set (take 32 d) \<and> wf_dir (drop 40 d)"
  by (simp add: wf_dir.simps [of d] not_less split: if_splits)

lemma dent_append: "40 \<le> length d \<Longrightarrow> dent_name (d @ e) = dent_name d \<and> dent_num (d @ e) = dent_num d"
  unfolding dent_name_def dent_num_def by (auto intro!: rd64_cong simp: nth_append)

lemma dents_append: "wf_dir d \<Longrightarrow> dents (d @ e) = dents d @ dents e"
proof (induction d rule: wf_dir.induct)
  case (1 d)
  show ?case
  proof (cases "d = []")
    case False
    with "1.prems" have d: "40 \<le> length d" "wf_dir (drop 40 d)" using wf_dir_nonempty by auto
    with 1 False have "dents (drop 40 d @ e) = dents (drop 40 d) @ dents e" by simp
    with d show ?thesis by (simp add: dents.simps [of "d @ e"] dents.simps [of d] dent_append)
  qed simp
qed

lemma wf_dir_append: "wf_dir d \<Longrightarrow> wf_dir e \<Longrightarrow> wf_dir (d @ e)"
proof (induction d rule: wf_dir.induct)
  case (1 d)
  show ?case
  proof (cases "d = []")
    case False
    with "1.prems"(1) have d: "40 \<le> length d" "0 \<in> set (take 32 d)" "wf_dir (drop 40 d)"
      using wf_dir_nonempty by auto
    with 1 False have "wf_dir (drop 40 d @ e)" by simp
    with d show ?thesis by (simp add: wf_dir.simps [of "d @ e"])
  qed (simp add: "1.prems")
qed

lemma unat_of_char: "unat (of_char c :: u8) = of_char c"
proof -
  have "unat (of_char c :: u8) = unat (of_nat (of_char c) :: u8)" by (simp only: of_nat_of_char)
  also have "\<dots> = of_char c mod 256" by (simp add: unsigned_of_nat take_bit_eq_mod)
  finally show ?thesis by simp
qed

lemma char_of_byte [simp]: "char_of (unat (of_char c :: u8)) = c"
  by (simp add: unat_of_char)

lemma of_char_byte [simp]: "of_char (char_of (unat b)) = (b :: u8)"
proof -
  have "unat b < 256" using unsigned_less [of b, where ?'a = nat] by simp
  then have "(of_char (char_of (unat b)) :: nat) = unat b" by simp
  then have "(of_nat (of_char (char_of (unat b)) :: nat) :: u8) = of_nat (unat b)" by (simp only:)
  then show ?thesis by (simp only: of_nat_of_char of_nat_unat ucast_id)
qed

lemma of_char_zero [simp]: "(of_char c :: u8) = 0 \<longleftrightarrow> c = CHR 0x00"
proof -
  have "(of_char c :: u8) = 0 \<longleftrightarrow> (of_char c :: nat) = 0" using unat_eq_0 [of "of_char c :: u8"] by (simp add: unat_of_char)
  also have "\<dots> \<longleftrightarrow> (of_char c :: nat) = of_char (CHR 0x00)" by simp
  also have "\<dots> \<longleftrightarrow> c = CHR 0x00" by (rule of_char_eq_iff)
  finally show ?thesis .
qed

text \<open>A comparison with a name in the image, for names that end within their 32 bytes.\<close>

lemma strcmp_at_name:
  assumes "0 \<in> set (mem_bytes (wf_data s) a n)" "a + n \<le> total_size s" "CHR 0x00 \<notin> set t"
  shows "strcmp_at s a t =
    Some (map (\<lambda>b. char_of (unat b)) (takeWhile (\<lambda>b. b \<noteq> 0) (mem_bytes (wf_data s) a n)) = t)"
  using assms
proof (induction t arbitrary: a n)
  case Nil
  then obtain k where "n = Suc k" by (cases n) (auto simp: mem_bytes_def)
  with Nil show ?case by (simp add: mem_bytes_Suc)
next
  case (Cons c t)
  then obtain k where n: "n = Suc k" by (cases n) (auto simp: mem_bytes_def)
  have b: "mem_bytes (wf_data s) a n = wf_data s a # mem_bytes (wf_data s) (a + 1) k"
    unfolding n by (rule mem_bytes_Suc)
  show ?case
  proof (cases "wf_data s a = of_char c")
    case True
    with Cons.prems b have "0 \<in> set (mem_bytes (wf_data s) (a + 1) k)" by auto
    with Cons.IH [of "a + 1" k] Cons.prems True n b show ?thesis by auto
  next
    case False
    have "char_of (unat (wf_data s a)) \<noteq> c" using False of_char_byte [of "wf_data s a"] by metis
    with False Cons.prems b n show ?thesis by simp
  qed
qed

lemma dir_search_dents:
  assumes "wf_dir d" "mem_bytes (wf_data s) a (length d) = d" "a + length d \<le> total_size s" "CHR 0x00 \<notin> set t"
  shows "dir_search s t a (a + length d) = Some (map_of (dents d) t)"
  using assms
proof (induction d arbitrary: a rule: wf_dir.induct)
  case (1 d)
  show ?case
  proof (cases "d = []")
    case True
    then show ?thesis by (simp add: dir_search.simps)
  next
    case False
    with "1.prems"(1) have d: "40 \<le> length d" "0 \<in> set (take 32 d)" "wf_dir (drop 40 d)"
      using wf_dir_nonempty by auto
    have tk: "mem_bytes (wf_data s) a k = take k d" if "k \<le> length d" for k
      using that "1.prems"(2) mem_bytes_append [of "wf_data s" a k "length d - k"]
      by (metis append_eq_conv_conj le_add_diff_inverse length_mem_bytes)
    have dr: "mem_bytes (wf_data s) (a + 40) (length (drop 40 d)) = drop 40 d"
      using d "1.prems"(2) mem_bytes_append [of "wf_data s" a 40 "length d - 40"]
      by (metis append_eq_conv_conj le_add_diff_inverse length_drop length_mem_bytes)
    have num: "rd64 (wf_data s) (a + 32) = dent_num d"
    proof -
      have "wf_data s (a + i) = d ! i" if "i < 40" for i
        using that d(1) "1.prems"(2) nth_mem_bytes [of i "length d" "wf_data s" a] by simp
      then have "rd64 (\<lambda>i. wf_data s (a + i)) 32 = dent_num d"
        unfolding dent_num_def by (intro rd64_cong) simp
      then show ?thesis by (simp add: rd64_def rd32_def ac_simps)
    qed
    have "strcmp_at s a t = Some (dent_name d = t)"
      using strcmp_at_name [of s a 32 t] d tk [of 32] "1.prems" by (simp add: dent_name_def)
    moreover have "dir_search s t (a + 40) (a + 40 + length (drop 40 d)) = Some (map_of (dents (drop 40 d)) t)"
      using "1.IH" [OF False _ d(3) dr _ "1.prems"(4)] d(1) "1.prems"(3) by simp
    ultimately show ?thesis using d num "1.prems"(3) False
      by (simp add: dir_search.simps [of s t a] dents.simps [of d] in_image_def)
  qed
qed

section \<open>The log an image represents\<close>

type_synonym entry = "wfs_inode \<times> u8 list"

definition entry_at :: "mem \<Rightarrow> nat \<Rightarrow> entry \<Rightarrow> bool" where
  "entry_at m a e = (rd_inode m a = fst e \<and> unat (ino_size (fst e)) = length (snd e) \<and>
     mem_bytes m (a + 44) (length (snd e)) = snd e)"

definition entry_len :: "entry \<Rightarrow> nat" where
  "entry_len e = 44 + length (snd e)"

definition log_len :: "entry list \<Rightarrow> nat" where
  "log_len es = sum_list (map entry_len es)"

lemma log_len_simps [simp]:
  "log_len [] = 0" "log_len (e # es) = entry_len e + log_len es" "log_len (xs @ ys) = log_len xs + log_len ys"
  by (simp_all add: log_len_def)

fun entries_at :: "mem \<Rightarrow> nat \<Rightarrow> entry list \<Rightarrow> bool" where
  "entries_at m a [] = True"
| "entries_at m a (e # es) = (entry_at m a e \<and> entries_at m (a + entry_len e) es)"

lemma entries_at_append: "entries_at m a (xs @ ys) \<longleftrightarrow> entries_at m a xs \<and> entries_at m (a + log_len xs) ys"
  by (induction xs arbitrary: a) (auto simp: add.assoc)

lemma entry_at_same: "same_on a (a + entry_len e) m m' \<Longrightarrow> entry_at m a e = entry_at m' a e"
  unfolding entry_at_def entry_len_def
  using rd_inode_same [OF same_on_sub, of a _ m m' a] same_on_bytes [OF same_on_sub, of a _ m m' "a + 44" "length (snd e)"]
  by (simp add: add.assoc)

lemma entries_at_same: "same_on a (a + log_len es) m m' \<Longrightarrow> entries_at m a es = entries_at m' a es"
proof (induction es arbitrary: a)
  case (Cons e es)
  have "same_on a (a + entry_len e) m m'" "same_on (a + entry_len e) (a + entry_len e + log_len es) m m'"
    by (rule same_on_sub [OF Cons.prems]; simp)+
  with Cons.IH entry_at_same show ?case by simp
qed simp

definition number_of :: "entry \<Rightarrow> u32" where
  "number_of e = ino_number (fst e)"

definition log_inv :: "wfs \<Rightarrow> entry list \<Rightarrow> bool" where
  "log_inv s es = (entries_at (wf_data s) 8 es \<and> unat (sb_head (wf_data s)) = 8 + log_len es \<and>
     es \<noteq> [] \<and> 8 + log_len (butlast es) + 44 \<le> total_size s \<and> total_size s < 2 ^ 30 \<and>
     (\<forall>e \<in> set es. unat (number_of e) < 256) \<and> (\<exists>e \<in> set es. number_of e = 0) \<and>
     (\<forall>e \<in> set es. ino_mode (fst e) AND S_IFDIR \<noteq> 0 \<longrightarrow> 40 dvd length (snd e)))"

text \<open>Where the latest entry of an inode starts, and the table after a complete scan.\<close>

fun last_at :: "nat \<Rightarrow> entry list \<Rightarrow> u32 \<Rightarrow> nat option" where
  "last_at a [] n = None"
| "last_at a (e # es) n =
    (case last_at (a + entry_len e) es n of Some b \<Rightarrow> Some b | None \<Rightarrow> if number_of e = n then Some a else None)"

fun le_table :: "nat \<Rightarrow> entry list \<Rightarrow> (nat \<Rightarrow> nat) \<Rightarrow> nat \<Rightarrow> nat" where
  "le_table a [] t = t"
| "le_table a (e # es) t =
    le_table (a + entry_len e) es (t(unat (number_of e) := if ino_deleted (fst e) = 0 then a else 0))"

fun max_number :: "entry list \<Rightarrow> u32 \<Rightarrow> u32" where
  "max_number [] n = n"
| "max_number (e # es) n = max_number es (if n < number_of e then number_of e else n)"

definition refresh :: "wfs \<Rightarrow> entry list \<Rightarrow> wfs" where
  "refresh s es = s\<lparr>all_le := le_table 8 es (all_le s), nLogEntry := max_number es (nLogEntry s)\<rparr>"

lemma last_at_None: "last_at a es n = None \<longleftrightarrow> n \<notin> number_of ` set es"
proof (induction es arbitrary: a)
  case (Cons e es)
  show ?case
  proof (cases "last_at (a + entry_len e) es n")
    case (Some b)
    with Cons.IH [of "a + entry_len e"] show ?thesis by auto
  qed (use Cons.IH [of "a + entry_len e"] in auto)
qed simp

lemma last_at_SomeD:
  "last_at a es n = Some b \<Longrightarrow> \<exists>xs e ys. es = xs @ e # ys \<and> b = a + log_len xs \<and> number_of e = n \<and> n \<notin> number_of ` set ys"
proof (induction es arbitrary: a b)
  case (Cons e es)
  show ?case
  proof (cases "last_at (a + entry_len e) es n")
    case None
    with Cons.prems last_at_None [of _ es n] show ?thesis by (intro exI [of _ "[]"] exI [of _ e] exI [of _ es]) (auto split: if_splits)
  next
    case (Some c)
    with Cons.prems Cons.IH [OF Some] obtain xs f ys where
      "es = xs @ f # ys" "b = a + entry_len e + log_len xs" "number_of f = n" "n \<notin> number_of ` set ys" by auto
    then show ?thesis by (intro exI [of _ "e # xs"] exI [of _ f] exI [of _ ys]) auto
  qed
qed simp

lemma last_at_split:
  "n \<notin> number_of ` set ys \<Longrightarrow> number_of e = n \<Longrightarrow> last_at a (xs @ e # ys) n = Some (a + log_len xs)"
proof -
  assume a: "n \<notin> number_of ` set ys" "number_of e = n"
  have "last_at c ys n = None" for c
    using a(1) by (simp add: last_at_None)
  then show ?thesis using a(2) by (induction xs arbitrary: a) (auto simp: add.assoc)
qed

lemma le_table_notin: "\<forall>e \<in> set es. unat (number_of e) \<noteq> k \<Longrightarrow> le_table a es t k = t k"
  by (induction es arbitrary: a t) auto

lemma le_table_last:
  "n \<notin> number_of ` set ys \<Longrightarrow> number_of e = n \<Longrightarrow>
    le_table a (xs @ e # ys) t (unat n) = (if ino_deleted (fst e) = 0 then a + log_len xs else 0)"
proof (induction xs arbitrary: a t)
  case Nil
  then have "\<forall>f \<in> set ys. unat (number_of f) \<noteq> unat n" by (metis image_eqI word_unat_eq_iff)
  with Nil show ?case by (simp add: le_table_notin)
qed (simp add: add.assoc)

lemma last_occurrence:
  "n \<in> number_of ` set es \<Longrightarrow> \<exists>xs e ys. es = xs @ e # ys \<and> number_of e = n \<and> n \<notin> number_of ` set ys"
  using last_at_SomeD [of 0 es n] last_at_None [of 0 es n] by (cases "last_at 0 es n") blast+

lemma le_table_idem: "le_table a es (le_table a es t) = le_table a es t"
proof
  fix k
  show "le_table a es (le_table a es t) k = le_table a es t k"
  proof (cases "\<exists>e \<in> set es. unat (number_of e) = k")
    case True
    then obtain n where n: "unat n = k" "n \<in> number_of ` set es" by auto
    then obtain xs e ys where "es = xs @ e # ys" "number_of e = n" "n \<notin> number_of ` set ys"
      using last_occurrence by metis
    with n(1) le_table_last show ?thesis by metis
  next
    case False
    then show ?thesis using le_table_notin [of es k] by metis
  qed
qed

lemma max_number_idem: "max_number es (max_number es n) = max_number es n"
proof -
  have ge: "n \<le> max_number es n" "\<forall>e \<in> set es. number_of e \<le> max_number es n" for n
  proof (induction es arbitrary: n)
    case (Cons e es)
    case 1
    show ?case using Cons(1) [of "if n < number_of e then number_of e else n"] by (auto split: if_splits)
    case 2
    show ?case using Cons(1,2) [of "if n < number_of e then number_of e else n"] by (auto split: if_splits)
  qed simp_all
  have "\<forall>e \<in> set es. number_of e \<le> n \<Longrightarrow> max_number es n = n" for n
    by (induction es) (auto simp: not_less [symmetric])
  with ge show ?thesis by blast
qed

lemma refresh_idem [simp]: "refresh (refresh s es) es = refresh s es"
  by (simp add: refresh_def le_table_idem max_number_idem)

lemma refresh_simps [simp]:
  "wf_data (refresh s es) = wf_data s" "total_size (refresh s es) = total_size s"
  "all_le (refresh s es) = le_table 8 es (all_le s)" "log_inv (refresh s es) fs = log_inv s fs"
  by (simp_all add: refresh_def log_inv_def)

section \<open>Lookup finds the latest entry\<close>

lemma scan_log_entries:
  assumes "entries_at (wf_data s) a es" "unat (sb_head (wf_data s)) = a + log_len es"
    "es \<noteq> [] \<Longrightarrow> a + log_len (butlast es) + 44 \<le> total_size s" "\<forall>e \<in> set es. unat (number_of e) < 256"
  shows "scan_log s n a acc =
    Some (case last_at a es n of None \<Rightarrow> acc | Some b \<Rightarrow> Some b,
      s\<lparr>all_le := le_table a es (all_le s), nLogEntry := max_number es (nLogEntry s)\<rparr>)"
  using assms
proof (induction es arbitrary: a s acc)
  case Nil
  then show ?case by (simp add: scan_log.simps)
next
  case (Cons e es)
  let ?i = "fst e"
  from Cons.prems(1) have i: "rd_inode (wf_data s) a = ?i" "44 + unat (ino_size ?i) = entry_len e"
      and es: "entries_at (wf_data s) (a + entry_len e) es"
    by (simp_all add: entry_at_def entry_len_def)
  have "a + 44 \<le> total_size s" using Cons.prems(3) by (cases es) simp_all
  moreover have "a < unat (sb_head (wf_data s))" using Cons.prems(2) by (simp add: entry_len_def)
  ultimately have "scan_log s n a acc = scan_log
      (s\<lparr>all_le := (all_le s)(unat (number_of e) := if ino_deleted ?i = 0 then a else 0),
         nLogEntry := (if nLogEntry s < number_of e then number_of e else nLogEntry s)\<rparr>) n (a + entry_len e)
      (if number_of e = n then Some a else acc)"
    using Cons.prems(4) i(1) by (simp add: scan_log.simps [of s n a] Let_def number_of_def add.assoc i(2))
  also have "\<dots> = Some (case last_at (a + entry_len e) es n of None \<Rightarrow> (if number_of e = n then Some a else acc) | Some b \<Rightarrow> Some b,
      s\<lparr>all_le := le_table a (e # es) (all_le s), nLogEntry := max_number (e # es) (nLogEntry s)\<rparr>)"
    using Cons.prems es by (subst Cons.IH) (auto simp: add.assoc split: if_splits)
  finally show ?case by (simp split: option.splits)
qed

lemma get_number_inode_absent:
  "log_inv s es \<Longrightarrow> n \<notin> number_of ` set es \<Longrightarrow> get_number_inode s n = None"
  using scan_log_entries [of s 8 es n None] last_at_None [of 8 es n]
  by (simp add: get_number_inode_def log_inv_def)

lemma get_number_inode_latest:
  assumes inv: "log_inv s (xs @ e # ys)" and n: "number_of e = n" "n \<notin> number_of ` set ys"
  shows "get_number_inode s n =
    Some (if ino_deleted (fst e) = 0 then Some (8 + log_len xs) else None, refresh s (xs @ e # ys))"
proof -
  let ?es = "xs @ e # ys"
  have "scan_log s n 8 None = Some (Some (8 + log_len xs), refresh s ?es)"
    using scan_log_entries [of s 8 ?es n None] last_at_split [OF n(2,1), of 8 xs] inv
    by (simp add: log_inv_def refresh_def)
  moreover have "rd_inode (wf_data s) (8 + log_len xs) = fst e" "8 \<le> total_size s"
    using inv by (auto simp: log_inv_def entries_at_append entry_at_def)
  ultimately show ?thesis by (simp add: get_number_inode_def in_image_def)
qed

definition latest :: "entry list \<Rightarrow> u32 \<Rightarrow> entry option" where
  "latest es n = List.find (\<lambda>e. number_of e = n) (rev es)"

definition live :: "entry list \<Rightarrow> u32 \<Rightarrow> entry option" where
  "live es n = (case latest es n of None \<Rightarrow> None | Some e \<Rightarrow> if ino_deleted (fst e) = 0 then Some e else None)"

definition addr_of :: "entry list \<Rightarrow> u32 \<Rightarrow> nat" where
  "addr_of es n = (case last_at 8 es n of None \<Rightarrow> 0 | Some a \<Rightarrow> a)"

lemma latest_simps [simp]:
  "latest [] n = None" "latest (es @ [e]) n = (if number_of e = n then Some e else latest es n)"
  "latest [e] n = (if number_of e = n then Some e else None)"
  by (simp_all add: latest_def)

lemma latest_append: "latest (xs @ ys) n = (case latest ys n of None \<Rightarrow> latest xs n | Some e \<Rightarrow> Some e)"
  by (induction ys rule: rev_induct) (auto simp flip: append_assoc)

lemma latest_None: "latest es n = None \<longleftrightarrow> n \<notin> number_of ` set es"
  by (force simp: latest_def find_None_iff)

lemma latest_split:
  "latest es n = Some e \<longleftrightarrow> (\<exists>xs ys. es = xs @ e # ys \<and> number_of e = n \<and> n \<notin> number_of ` set ys)"
proof
  assume "latest es n = Some e"
  then show "\<exists>xs ys. es = xs @ e # ys \<and> number_of e = n \<and> n \<notin> number_of ` set ys"
  proof (induction es rule: rev_induct)
    case (snoc x es)
    show ?case
    proof (cases "number_of x = n")
      case True
      with snoc.prems show ?thesis by (intro exI [of _ es] exI [of _ "[]"]) simp
    next
      case False
      with snoc obtain xs ys where "es = xs @ e # ys" "number_of e = n" "n \<notin> number_of ` set ys" by auto
      with False show ?thesis by (intro exI [of _ xs] exI [of _ "ys @ [x]"]) auto
    qed
  qed simp
next
  assume "\<exists>xs ys. es = xs @ e # ys \<and> number_of e = n \<and> n \<notin> number_of ` set ys"
  then obtain xs ys where s: "es = xs @ e # ys" "number_of e = n" "n \<notin> number_of ` set ys" by blast
  then have "latest ys n = None" by (simp add: latest_None)
  then have "latest ((xs @ [e]) @ ys) n = Some e" using s(2) unfolding latest_append by simp
  then show "latest es n = Some e" by (simp add: s(1))
qed

lemma addr_of_split: "number_of e = n \<Longrightarrow> n \<notin> number_of ` set ys \<Longrightarrow> addr_of (xs @ e # ys) n = 8 + log_len xs"
  by (simp add: addr_of_def last_at_split)

text \<open>What is known about the address of a live inode.\<close>

lemma live_at:
  assumes "log_inv s es" "live es n = Some e"
  shows "get_number_inode s n = Some (Some (addr_of es n), refresh s es)"
    "entry_at (wf_data s) (addr_of es n) e" "8 \<le> addr_of es n" "addr_of es n + entry_len e \<le> 8 + log_len es"
    "addr_of es n + 44 \<le> total_size s" "unat (ino_number (fst e)) < 256" "ino_deleted (fst e) = 0" "number_of e = n"
    "ino_mode (fst e) AND S_IFDIR \<noteq> 0 \<longrightarrow> 40 dvd length (snd e)"
proof -
  from assms(2) have d: "ino_deleted (fst e) = 0" "latest es n = Some e"
    by (auto simp: live_def split: option.splits if_splits)
  then obtain xs ys where s: "es = xs @ e # ys" "number_of e = n" "n \<notin> number_of ` set ys" by (auto simp: latest_split)
  have a: "addr_of (xs @ e # ys) n = 8 + log_len xs" by (rule addr_of_split [OF s(2,3)])
  show "get_number_inode s n = Some (Some (addr_of es n), refresh s es)"
    using get_number_inode_latest [OF assms(1) [unfolded s(1)] s(2,3)] d by (simp add: a s(1))
  show "entry_at (wf_data s) (addr_of es n) e" "8 \<le> addr_of es n" "addr_of es n + entry_len e \<le> 8 + log_len es"
      "unat (ino_number (fst e)) < 256" "ino_mode (fst e) AND S_IFDIR \<noteq> 0 \<longrightarrow> 40 dvd length (snd e)"
    using assms(1) by (auto simp: log_inv_def a s(1) entries_at_append number_of_def)
  show "addr_of es n + 44 \<le> total_size s"
  proof (cases ys rule: rev_cases)
    case Nil
    with assms(1) a show ?thesis by (simp add: log_inv_def s(1) butlast_append)
  next
    case (snoc zs z)
    with assms(1) a show ?thesis by (simp add: log_inv_def s(1) butlast_append entry_len_def)
  qed
  show "ino_deleted (fst e) = 0" "number_of e = n" by fact+
qed

lemma get_number_inode_cases:
  assumes "log_inv s es"
  shows "get_number_inode s n =
    (case latest es n of None \<Rightarrow> None
     | Some e \<Rightarrow> Some (map_option (\<lambda>_. addr_of es n) (live es n), refresh s es))"
proof (cases "latest es n")
  case None
  with get_number_inode_absent [OF assms, of n] show ?thesis by (simp add: latest_None [of es n, symmetric])
next
  case (Some e)
  then obtain xs ys where s: "es = xs @ e # ys" "number_of e = n" "n \<notin> number_of ` set ys" by (auto simp: latest_split)
  with Some get_number_inode_latest [OF assms [unfolded s(1)] s(2,3)] addr_of_split [OF s(2,3), of xs]
  show ?thesis by (simp add: live_def)
qed

text \<open>A lookup that returns changes nothing but the table, and yields the address of a live inode.\<close>

definition is_addr :: "entry list \<Rightarrow> nat option \<Rightarrow> bool" where
  "is_addr es r = (case r of None \<Rightarrow> True | Some a \<Rightarrow> \<exists>n e. live es n = Some e \<and> a = addr_of es n)"

lemma get_number_inode_refresh:
  "log_inv s es \<Longrightarrow> get_number_inode s n = Some (r, s') \<Longrightarrow> s' = refresh s es \<and> is_addr es r"
  by (auto simp: get_number_inode_cases is_addr_def split: option.splits)

lemma path_walk_refresh:
  "log_inv s es \<Longrightarrow> is_addr es c \<Longrightarrow> path_walk (refresh s es) ts c = Some (r, s') \<Longrightarrow> s' = refresh s es \<and> is_addr es r"
proof (induction ts arbitrary: c)
  case (Cons t ts)
  from Cons.prems(3) consider "r = None" "s' = refresh s es"
    | n c' s1 where "get_number_inode (refresh s es) n = Some (c', s1)" "path_walk s1 ts c' = Some (r, s')"
    by (auto simp: bind_eq_Some_conv Let_def split: option.splits)
  then show ?case
  proof cases
    case 2
    with get_number_inode_refresh [of "refresh s es" es n c' s1] Cons.prems(1) have "s1 = refresh s es" "is_addr es c'"
      by simp_all
    with 2 Cons show ?thesis by simp
  qed (simp add: is_addr_def)
qed (simp add: is_addr_def)

lemma get_path_refresh:
  assumes "log_inv s es" "get_path_inode s path = Some (r, s')"
  shows "s' = refresh s es \<and> is_addr es r"
proof -
  from assms obtain c s1 where c: "get_number_inode s 0 = Some (c, s1)"
    by (auto simp: get_path_inode_def bind_eq_Some_conv)
  with get_number_inode_refresh [OF assms(1)] have s1: "s1 = refresh s es" "is_addr es c" by blast+
  show ?thesis
  proof (cases c)
    case None
    with assms(2) c s1 show ?thesis by (auto simp: get_path_inode_def)
  next
    case (Some a)
    with assms(2) c s1 path_walk_refresh [OF assms(1) s1(2)] show ?thesis
      by (auto simp: get_path_inode_def is_addr_def [of es None] split: if_splits)
  qed
qed

text \<open>How the log grows.\<close>

lemma log_inv_same:
  assumes "log_inv s es" "same_on 4 (8 + log_len es) (wf_data s) m"
  shows "log_inv (s\<lparr>wf_data := m, all_le := t\<rparr>) es"
proof -
  have "entries_at m 8 es = entries_at (wf_data s) 8 es"
    using entries_at_same [OF same_on_sub [OF assms(2), of 8]] by simp
  moreover have "sb_head m = sb_head (wf_data s)"
    unfolding sb_head_def using same_on_rd32 [of 4 "wf_data s" m] same_on_sub [OF assms(2), of 4 8] by simp
  ultimately show ?thesis using assms(1) by (simp add: log_inv_def)
qed

lemma log_inv_append:
  assumes "log_inv s es" "same_on 8 (8 + log_len es) (wf_data s) m" "entries_at m (8 + log_len es) fs" "fs \<noteq> []"
    "unat (sb_head m) = 8 + log_len (es @ fs)" "8 + log_len (butlast (es @ fs)) + 44 \<le> total_size s"
    "\<forall>e \<in> set fs. unat (number_of e) < 256 \<and> (ino_mode (fst e) AND S_IFDIR \<noteq> 0 \<longrightarrow> 40 dvd length (snd e))"
  shows "log_inv (s\<lparr>wf_data := m, all_le := t\<rparr>) (es @ fs)"
  using assms entries_at_same [OF assms(2)] by (auto simp: log_inv_def entries_at_append)

section \<open>Adding a node\<close>

definition dentry_bytes :: "string \<Rightarrow> u64 \<Rightarrow> u8 list" where
  "dentry_bytes name num = mem_bytes (write_dentry 0 num name (\<lambda>_. 0)) 0 40"

lemma length_dentry_bytes [simp]: "length (dentry_bytes name num) = 40"
  by (simp add: dentry_bytes_def)

lemma write_dentry_shift:
  "i < 40 \<Longrightarrow> write_dentry a num name m (a + i) = write_dentry 0 num name m' i"
proof -
  assume i: "i < 40"
  have "wr64 m (a + 32) num (a + i) = wr64 m' 32 num i" if "32 \<le> i"
    using that i by (auto simp: wr64_def wr32_def)
  moreover have "length (strncpy_bytes name 31) = 31" by (simp add: strncpy_bytes_def)
  ultimately show ?thesis using i
    by (auto simp: write_dentry_def wr_bytes_def MAX_FILE_NAME_LEN_def)
qed

lemma write_dentry_bytes: "mem_bytes (write_dentry a num name m) a 40 = dentry_bytes name num"
  unfolding dentry_bytes_def by (rule mem_bytes_cong) (simp add: write_dentry_shift)

lemma unat_add_small: "unat (a :: u32) + n < 2 ^ 32 \<Longrightarrow> unat (a + word_of_nat n) = unat a + n"
  by (simp add: unat_word_ariths unsigned_of_nat take_bit_eq_mod)

lemma unat_small: "n < 2 ^ 32 \<Longrightarrow> unat (word_of_nat n :: u32) = n"
  by (simp add: unsigned_of_nat take_bit_nat_eq_self)

lemma size_word: "unat (w :: u32) = n \<Longrightarrow> w = word_of_nat n"
  by auto

text \<open>The complete effect of \<open>add_node\<close> on an image that represents a log.\<close>

definition dir_copy :: "wfs_env \<Rightarrow> entry \<Rightarrow> u8 list \<Rightarrow> entry" where
  "dir_copy env e d = ((fst e)\<lparr>ino_size := word_of_nat (length d), ino_atime := env_time env,
     ino_mtime := env_time env, ino_ctime := env_time env\<rparr>, d)"

lemma wfsincpy_rd_inode:
  "b + 44 \<le> c \<or> c + 44 \<le> b \<Longrightarrow> rd_inode (wfsincpy t a c m) b = rd_inode m b"
  by (rule rd_inode_same) (auto intro!: same_onI wfsincpy_other)

lemma rd_inode_frames [mem_frame]:
  "b + 44 \<le> a \<or> a + 4 \<le> b \<Longrightarrow> rd_inode (wr32 m a v) b = rd_inode m b"
  "b + 44 \<le> dst \<or> dst + n \<le> b \<Longrightarrow> rd_inode (memcpy_m m dst src n) b = rd_inode m b"
  "b + 44 \<le> a \<or> a + length bs \<le> b \<Longrightarrow> rd_inode (wr_bytes m a bs) b = rd_inode m b"
  "b + 44 \<le> a \<or> a + 44 \<le> b \<Longrightarrow> rd_inode (new_inode_init env mode a m) b = rd_inode m b"
  "b + 44 \<le> a \<or> a + 40 \<le> b \<Longrightarrow> rd_inode (write_dentry a num name m) b = rd_inode m b"
  by (rule rd_inode_same, auto intro!: same_onI simp: wr32_other memcpy_other wr_bytes_other
      new_inode_init_other write_dentry_other)+

lemma sb_head_frames [mem_frame]:
  "8 \<le> a \<Longrightarrow> sb_head (wr32 m a v) = sb_head m"
  "8 \<le> dst \<Longrightarrow> sb_head (memcpy_m m dst src n) = sb_head m"
  "8 \<le> a \<Longrightarrow> sb_head (wr_bytes m a bs) = sb_head m"
  "8 \<le> a \<Longrightarrow> sb_head (new_inode_init env mode a m) = sb_head m"
  "8 \<le> a \<Longrightarrow> sb_head (write_dentry a num name m) = sb_head m"
  "8 \<le> a \<Longrightarrow> sb_head (wfsincpy t b a m) = sb_head m"
  "sb_head (wr32 m 4 v) = v"
  unfolding sb_head_def
  by (rule rd32_cong, auto intro!: wr32_other memcpy_other wr_bytes_other new_inode_init_other write_dentry_other
      wfsincpy_other)+

lemma rd_inode_wr_size: "rd_inode (wr32 m (a + 24) v) a = (rd_inode m a)\<lparr>ino_size := v\<rparr>"
  by (simp add: rd_inode_def rd32_wr32_other)

lemma rd_inode_wr_number: "rd32 (wr32 m a v) a = v" "ino_number (rd_inode m a) = rd32 m a"
  by (simp_all add: rd_inode_def)

lemma add_node_room:
  assumes inv: "log_inv s es" and lv: "live es n = Some e"
    and room: "8 + log_len es + 128 + length (snd e) \<le> total_size s"
  shows "\<exists>m num. (\<forall>i. List.find (\<lambda>i. all_le s i = 0) [0..<256] = Some i \<longrightarrow> num = word_of_nat i) \<and>
    add_node env mode s (addr_of es n) name =
      (if 256 \<le> unat num then None
       else Some (0, s\<lparr>wf_data := m, all_le := (all_le s)(unat num := 8 + log_len es + 84 + length (snd e))\<rparr>)) \<and>
    (unat num < 256 \<longrightarrow> log_inv (s\<lparr>wf_data := m, all_le := (all_le s)(unat num := 8 + log_len es + 84 + length (snd e))\<rparr>)
       (es @ [dir_copy env e (snd e @ dentry_bytes name (ucast num)), (fresh_inode env mode num, [])]))"
proof -
  define H where "H = 8 + log_len es"
  define L where "L = length (snd e)"
  define a where "a = addr_of es n"
  note la = live_at [OF inv lv, folded a_def]
  have tot: "H + 128 + L \<le> total_size s" "total_size s < 2 ^ 30" and H: "unat (sb_head (wf_data s)) = H"
    using room inv by (auto simp: H_def L_def log_inv_def)
  have ae: "8 \<le> a" "a + 44 + L \<le> H" "8 \<le> H" using la by (simp_all add: H_def L_def entry_len_def)
  have ie: "rd_inode (wf_data s) a = fst e" "unat (ino_size (fst e)) = L" "mem_bytes (wf_data s) (a + 44) L = snd e"
    using la(2) by (simp_all add: entry_at_def L_def)
  let ?m0 = "wf_data s"
  define m1 where "m1 = wfsincpy (env_time env) a H ?m0"
  have i1: "rd_inode m1 a = fst e" "rd_inode m1 H = (fst e)\<lparr>ino_atime := env_time env, ino_mtime := env_time env, ino_ctime := env_time env\<rparr>"
    using ae ie(1) by (simp_all add: m1_def wfsincpy_rd_inode rd_inode_wfsincpy)
  define m2 where "m2 = memcpy_m m1 (H + 44) (a + 44) L"
  define m3 where "m3 = wr32 m2 4 (sb_head m2 + 44 + ino_size (rd_inode m2 a) + 40)"
  have h2: "sb_head m2 = sb_head ?m0" "rd_inode m2 a = fst e" "rd_inode m2 H = rd_inode m1 H"
    using ae i1 by (simp_all add: m2_def m1_def mem_frame)
  have h3: "unat (sb_head m3) = H + 84 + L"
  proof -
    have sz: "ino_size (fst e) = word_of_nat L" using ie(2) by auto
    have "sb_head m3 = sb_head ?m0 + word_of_nat (84 + L)" by (simp add: sz m3_def mem_frame h2)
    then show ?thesis using tot H unat_add_small [of "sb_head ?m0" "84 + L"] by (simp only:) simp
  qed
  define N where "N = H + 84 + L"
  define m4 where "m4 = (case List.find (\<lambda>i. all_le s i = 0) [0..<256] of Some i \<Rightarrow> wr32 m3 N (word_of_nat i) | None \<Rightarrow> m3)"
  define m5 where "m5 = new_inode_init env mode N m4"
  define m6 where "m6 = wr32 m5 4 (sb_head m5 + 44)"
  define num where "num = rd32 m4 N"
  have n5: "rd_inode m6 N = fresh_inode env mode num"
    using ae by (simp add: m6_def m5_def mem_frame rd_inode_new_inode_init num_def N_def)
  have h5: "sb_head m5 = sb_head m3" "rd_inode m6 H = rd_inode m1 H"
    using ae by (auto simp: m6_def m5_def m4_def m3_def mem_frame N_def h2 split: option.splits)
  have h6: "unat (sb_head m6) = H + 128 + L"
    using unat_add_small [of "sb_head m3" 44] h3 tot by (simp add: m6_def mem_frame h5)
  define D where "D = H + 44 + L"
  define m7 where "m7 = write_dentry D (ucast num) name m6"
  define m8 where "m8 = wr32 m7 (H + 24) (ino_size (rd_inode m7 H) + 40)"
  have call: "add_node env mode s a name = (if 256 \<le> unat num then None
      else Some (0, s\<lparr>wf_data := m8, all_le := (all_le s)(unat num := N)\<rparr>))"
  proof -
    have "ino_size (rd_inode m6 H) = ino_size (fst e)" using h5 i1 by simp
    then have d: "H + 44 + unat (ino_size (rd_inode m6 H)) = D" using ie(2) by (simp add: D_def)
    have num: "ino_number (rd_inode m6 N) = num" by (simp add: n5 fresh_inode_def)
    show ?thesis
      unfolding add_node_def Let_def H m1_def [symmetric] i1(1) ie(2) m2_def [symmetric] m3_def [symmetric]
        h3 N_def [symmetric] m4_def [symmetric] m5_def [symmetric] m6_def [symmetric] num d m7_def [symmetric] m8_def [symmetric]
      using tot ae by (simp add: in_image_def N_def D_def)
  qed
  have frame: "m8 b = m1 b" if "8 \<le> b" "b < H + 24 \<or> H + 28 \<le> b \<and> b < H + 44" for b
    using that by (auto simp: m8_def m7_def m6_def m5_def m4_def m3_def m2_def mem_frame N_def D_def split: option.splits)
  have s8: "same_on 8 H ?m0 m8"
    by (rule same_onI) (simp add: frame, simp add: m1_def wfsincpy_other)
  have data: "mem_bytes m8 (H + 44) (L + 40) = snd e @ dentry_bytes name (ucast num)"
  proof -
    have "mem_bytes m8 (H + 44) L = mem_bytes m2 (H + 44) L"
      by (rule same_on_bytes) (auto intro!: same_onI simp: m8_def m7_def m6_def m5_def m4_def m3_def mem_frame N_def D_def split: option.splits)
    also have "\<dots> = mem_bytes ?m0 (a + 44) L"
      unfolding m2_def mem_bytes_memcpy by (rule same_on_bytes) (use ae in \<open>auto intro!: same_onI simp: m1_def mem_frame\<close>)
    finally have "mem_bytes m8 (H + 44) L = snd e" using ie(3) by simp
    moreover have "mem_bytes m8 D 40 = mem_bytes m7 D 40"
      by (rule same_on_bytes) (auto intro!: same_onI simp: m8_def mem_frame D_def)
    then have "mem_bytes m8 D 40 = dentry_bytes name (ucast num)"
      by (simp add: m7_def write_dentry_bytes)
    ultimately show ?thesis by (simp add: mem_bytes_append D_def)
  qed
  have "rd_inode m7 H = rd_inode m1 H" using h5 by (simp add: m7_def mem_frame D_def)
  moreover have "ino_size (fst e) + 40 = word_of_nat (L + 40)" using size_word [OF ie(2)] by simp
  ultimately have dir: "rd_inode m8 H = fst (dir_copy env e (snd e @ dentry_bytes name (ucast num)))"
    unfolding m8_def rd_inode_wr_size by (simp add: i1 dir_copy_def L_def)
  have "rd_inode m8 N = fresh_inode env mode num"
    using n5 by (simp add: m8_def m7_def mem_frame N_def D_def)
  then have e2: "entry_at m8 N (fresh_inode env mode num, [])"
    by (simp add: entry_at_def fresh_inode_def mem_bytes_def)
  have "unat (word_of_nat (L + 40) :: u32) = L + 40" using tot by (intro unat_small) simp
  then have e1: "entry_at m8 H (dir_copy env e (snd e @ dentry_bytes name (ucast num)))"
    using dir data by (simp add: entry_at_def dir_copy_def L_def)
  have ent: "entries_at m8 H [dir_copy env e (snd e @ dentry_bytes name (ucast num)), (fresh_inode env mode num, [])]"
    using e1 e2 by (simp add: N_def entry_len_def dir_copy_def L_def add.assoc add.commute add.left_commute)
  have "sb_head m8 = sb_head m6" using ae by (simp add: m8_def m7_def mem_frame D_def)
  then have inv8: "log_inv (s\<lparr>wf_data := m8, all_le := (all_le s)(unat num := N)\<rparr>)
      (es @ [dir_copy env e (snd e @ dentry_bytes name (ucast num)), (fresh_inode env mode num, [])])" if "unat num < 256"
    using that la(6,9) h6 tot
    by (intro log_inv_append inv s8 [unfolded H_def] ent [unfolded H_def])
      (simp_all add: butlast_append entry_len_def dir_copy_def number_of_def fresh_inode_def H_def L_def)
  have find: "\<forall>i. List.find (\<lambda>i. all_le s i = 0) [0..<256] = Some i \<longrightarrow> num = word_of_nat i"
    by (auto simp: num_def m4_def)
  show ?thesis using find call inv8 unfolding a_def N_def H_def L_def by blast
qed

lemma add_node_no_room:
  assumes inv: "log_inv s es" and lv: "live es n = Some e"
    and full: "total_size s < 8 + log_len es + 128 + length (snd e)"
  shows "add_node env mode s (addr_of es n) name =
    (if total_size s < 8 + log_len es + 44 then Some (- ENOSPC, s) else None)"
proof (cases "total_size s < 8 + log_len es + 44")
  case True
  with inv show ?thesis by (simp add: add_node_def log_inv_def)
next
  case False
  define H where "H = 8 + log_len es"
  define a where "a = addr_of es n"
  note la = live_at [OF inv lv, folded a_def]
  have ae: "8 \<le> a" "a + 44 + length (snd e) \<le> H" "8 \<le> H" using la by (simp_all add: H_def entry_len_def)
  have H: "unat (sb_head (wf_data s)) = H" "total_size s < 2 ^ 30" using inv by (simp_all add: H_def log_inv_def)
  define m1 where "m1 = wfsincpy (env_time env) a H (wf_data s)"
  have i1: "rd_inode m1 a = fst e" "unat (ino_size (fst e)) = length (snd e)" "sb_head m1 = sb_head (wf_data s)"
    using ae la(2) by (simp_all add: m1_def wfsincpy_rd_inode entry_at_def mem_frame)
  show ?thesis
  proof (cases "total_size s < H + 44 + length (snd e)")
    case True
    with False show ?thesis
      unfolding add_node_def Let_def H a_def [symmetric] m1_def [symmetric] i1
      by (simp add: H_def in_image_def)
  next
    case room: False
    define m3 where "m3 = wr32 (memcpy_m m1 (H + 44) (a + 44) (length (snd e))) 4
      (sb_head (memcpy_m m1 (H + 44) (a + 44) (length (snd e))) + 44 +
       ino_size (rd_inode (memcpy_m m1 (H + 44) (a + 44) (length (snd e))) a) + 40)"
    have "sb_head m3 = sb_head (wf_data s) + word_of_nat (84 + length (snd e))"
      using ae size_word [OF i1(2)] by (simp add: m3_def mem_frame i1)
    then have "unat (sb_head m3) = H + (84 + length (snd e))"
      using unat_add_small [of "sb_head (wf_data s)" "84 + length (snd e)"] room H by (simp only:) simp
    then have "in_image s (unat (sb_head m3)) 44 = None" using full by (simp add: H_def in_image_def)
    with False show ?thesis
      unfolding add_node_def Let_def H a_def [symmetric] m1_def [symmetric] i1 m3_def [symmetric]
      by (simp add: H_def)
  qed
qed

section \<open>Writing and reading\<close>

definition overwrite :: "'a list \<Rightarrow> nat \<Rightarrow> 'a list \<Rightarrow> 'a list" where
  "overwrite d off bytes = take off d @ bytes @ drop (off + length bytes) d"

lemma length_overwrite [simp]: "off \<le> length d \<Longrightarrow> length (overwrite d off bytes) = max (length d) (off + length bytes)"
  by (simp add: overwrite_def)

lemma mem_bytes_overwrite:
  assumes "off \<le> n" "mem_bytes m a n = d"
  shows "mem_bytes (wr_bytes m (a + off) bytes) a (max n (off + length bytes)) = overwrite d off bytes"
proof (rule nth_equalityI)
  have l: "length d = n" using assms(2) by auto
  then show "length (mem_bytes (wr_bytes m (a + off) bytes) a (max n (off + length bytes))) =
      length (overwrite d off bytes)" using assms(1) by simp
  fix i assume i: "i < length (mem_bytes (wr_bytes m (a + off) bytes) a (max n (off + length bytes)))"
  have d: "m (a + j) = d ! j" if "j < n" for j using that assms(2) nth_mem_bytes [of j n m a] by simp
  show "mem_bytes (wr_bytes m (a + off) bytes) a (max n (off + length bytes)) ! i = overwrite d off bytes ! i"
    using i assms(1) l d by (auto simp: overwrite_def wr_bytes_def nth_append min_def max_def split: if_splits)
qed

lemma rd_inode_wr_times:
  "rd_inode (wr32 m (a + 36) v) a = (rd_inode m a)\<lparr>ino_ctime := v\<rparr>"
  "rd_inode (wr32 m (a + 32) v) a = (rd_inode m a)\<lparr>ino_mtime := v\<rparr>"
  "rd_inode (wr32 m (a + 28) v) a = (rd_inode m a)\<lparr>ino_atime := v\<rparr>"
  "rd_inode (wr32 m (a + 4) v) a = (rd_inode m a)\<lparr>ino_deleted := v\<rparr>"
  by (simp_all add: rd_inode_def rd32_wr32_other)

lemma write_entry_room:
  assumes inv: "log_inv s es" and lv: "live es n = Some e" and reg: "ino_mode (fst e) AND S_IFDIR = 0" and off: "off \<le> length (snd e)"
    and room: "8 + log_len es + 44 + length (snd e) + length bytes \<le> total_size s"
  shows "\<exists>m. write_entry env s (addr_of es n) bytes off = Some (int (length bytes), s\<lparr>wf_data := m\<rparr>) \<and>
    log_inv (s\<lparr>wf_data := m\<rparr>) (es @ [dir_copy env e (overwrite (snd e) off bytes)])"
proof -
  define H where "H = 8 + log_len es"
  define L where "L = length (snd e)"
  define a where "a = addr_of es n"
  define K where "K = max L (off + length bytes)"
  note la = live_at [OF inv lv, folded a_def]
  have tot: "H + 44 + L + length bytes \<le> total_size s" "total_size s < 2 ^ 30" and H: "unat (sb_head (wf_data s)) = H"
    using room inv by (auto simp: H_def L_def log_inv_def)
  have ae: "8 \<le> a" "a + 44 + L \<le> H" "8 \<le> H" using la by (simp_all add: H_def L_def entry_len_def)
  have K: "L \<le> K" "off + length bytes \<le> K" "K \<le> L + length bytes" using off by (auto simp: K_def L_def)
  have ie: "rd_inode (wf_data s) a = fst e" "unat (ino_size (fst e)) = L" "mem_bytes (wf_data s) (a + 44) L = snd e"
    using la(2) by (simp_all add: entry_at_def L_def)
  define m1 where "m1 = wfsincpy (env_time env) a H (wf_data s)"
  have i1: "rd_inode m1 a = fst e" "rd_inode m1 H = (fst e)\<lparr>ino_atime := env_time env, ino_mtime := env_time env, ino_ctime := env_time env\<rparr>"
    using ae ie(1) by (simp_all add: m1_def wfsincpy_rd_inode rd_inode_wfsincpy)
  define m2 where "m2 = (if 0 < L then memcpy_m m1 (H + 44) (a + 44) L else m1)"
  define m3 where "m3 = wr_bytes m2 (H + 44 + off) bytes"
  have m2: "m2 = memcpy_m m1 (H + 44) (a + 44) L" by (auto simp: m2_def memcpy_m_def fun_eq_iff)
  have i3: "rd_inode m3 a = fst e" "rd_inode m3 H = rd_inode m1 H" "sb_head m3 = sb_head (wf_data s)"
    using ae i1 by (simp_all add: m3_def m2 m1_def mem_frame)
  define m4 where "m4 = wr32 m3 (H + 24) (if L < off + length bytes then word_of_nat (off + length bytes) else ino_size (rd_inode m3 a))"
  have m4: "m4 = wr32 m3 (H + 24) (word_of_nat K)"
    using size_word [OF ie(2)] by (simp add: m4_def i3 K_def max_def)
  define m6 where "m6 = wr32 (wr32 m4 (H + 36) (env_time env)) (H + 32) (env_time env)"
  define d where "d = overwrite (snd e) off bytes"
  have ld: "length d = K" using off by (simp add: d_def K_def L_def)
  have i6: "rd_inode m6 H = fst (dir_copy env e d)"
    by (simp add: m6_def m4 rd_inode_wr_times rd_inode_wr_size i3 i1 dir_copy_def ld)
  define m7 where "m7 = wr32 m6 4 (sb_head m6 + 44 + ino_size (rd_inode m6 H))"
  have call: "write_entry env s a bytes off = Some (int (length bytes), s\<lparr>wf_data := m7\<rparr>)"
  proof -
    have "to_int32 (int (length bytes)) = int (length bytes)" using tot by (intro to_int32_id) auto
    then show ?thesis
      unfolding write_entry_def Let_def H m1_def [symmetric] i1 ie(2) m2_def [symmetric] m3_def [symmetric]
        m4_def [symmetric] m6_def [symmetric] m7_def [symmetric]
      using tot ae by (simp add: in_image_def)
  qed
  have h6: "sb_head m6 = sb_head (wf_data s)" using ae by (simp add: m6_def m4 mem_frame i3)
  have kk: "unat (word_of_nat K :: u32) = K" using tot K by (intro unat_small) simp
  have h7: "unat (sb_head m7) = H + 44 + K"
  proof -
    have "sb_head m7 = sb_head (wf_data s) + word_of_nat (44 + K)"
      by (simp add: m7_def mem_frame h6 i6 dir_copy_def ld)
    then show ?thesis using unat_add_small [of "sb_head (wf_data s)" "44 + K"] tot K H by (simp only:) simp
  qed
  have data: "mem_bytes m7 (H + 44) K = d"
  proof -
    have "mem_bytes m7 (H + 44) K = mem_bytes m3 (H + 44) K"
      by (rule same_on_bytes) (use ae in \<open>auto intro!: same_onI simp: m7_def m6_def m4 mem_frame\<close>)
    moreover have "mem_bytes m2 (H + 44) L = snd e"
      unfolding m2 mem_bytes_memcpy ie(3) [symmetric]
      by (rule same_on_bytes) (use ae in \<open>auto intro!: same_onI simp: m1_def mem_frame\<close>)
    ultimately show ?thesis
      using mem_bytes_overwrite [of off L m2 "H + 44" "snd e" bytes] off by (simp add: m3_def K_def d_def L_def)
  qed
  have "rd_inode m7 H = fst (dir_copy env e d)" using i6 ae by (simp add: m7_def mem_frame)
  then have ent: "entries_at m7 H [dir_copy env e d]"
    using data kk by (simp add: entry_at_def dir_copy_def ld)
  have s7: "same_on 8 H (wf_data s) m7"
    by (rule same_onI) (simp add: m7_def m6_def m4 m3_def m2 m1_def mem_frame)
  have "log_inv (s\<lparr>wf_data := m7, all_le := all_le s\<rparr>) (es @ [dir_copy env e d])"
    using h7 tot la(6) reg
    by (intro log_inv_append inv s7 [unfolded H_def] ent [unfolded H_def])
      (simp_all add: butlast_append entry_len_def dir_copy_def number_of_def H_def ld)
  with call show ?thesis unfolding a_def d_def by auto
qed

section \<open>Changing an inode in place and removing a directory entry\<close>

lemma log_inv_change:
  assumes inv: "log_inv s (xs @ f # ys)" and m: "\<And>b. b < 8 + log_len xs \<or> 8 + log_len xs + 44 \<le> b \<Longrightarrow> m b = wf_data s b"
    and i: "rd_inode m (8 + log_len xs) = i" "ino_number i = ino_number (fst f)" "ino_size i = ino_size (fst f)"
      "ino_mode i = ino_mode (fst f)"
  shows "log_inv (s\<lparr>wf_data := m, all_le := t\<rparr>) (xs @ (i, snd f) # ys)"
proof -
  let ?a = "8 + log_len xs"
  from inv have e: "entries_at (wf_data s) 8 xs" "entry_at (wf_data s) ?a f" "entries_at (wf_data s) (?a + entry_len f) ys"
    by (simp_all add: log_inv_def entries_at_append)
  have "entries_at m 8 xs" using e(1) m by (subst entries_at_same [of _ _ _ "wf_data s"]) (auto simp: same_on_def)
  moreover have "entries_at m (?a + entry_len f) ys"
    using e(3) m by (subst entries_at_same [of _ _ _ "wf_data s"]) (auto simp: same_on_def entry_len_def)
  moreover have "mem_bytes m (?a + 44) (length (snd f)) = mem_bytes (wf_data s) (?a + 44) (length (snd f))"
    by (rule same_on_bytes) (auto simp: same_on_def m)
  moreover have "sb_head m = sb_head (wf_data s)"
    unfolding sb_head_def by (rule rd32_cong) (simp add: m)
  moreover have "butlast (xs @ (i, snd f) # ys) = xs @ butlast ((i, snd f) # ys)" by (simp add: butlast_append)
  moreover have "log_len (butlast ((i, snd f) # ys)) = log_len (butlast (f # ys))" by (simp add: entry_len_def)
  ultimately show ?thesis using inv i e(2)
    by (auto simp: log_inv_def entries_at_append entry_at_def entry_len_def number_of_def butlast_append)
qed

lemma wr_field_other:
  "k + 4 \<le> 44 \<Longrightarrow> b < a \<or> a + 44 \<le> b \<Longrightarrow> wr32 m (a + k) v b = m b"
  by (auto intro!: wr32_other)

lemma unlink_copy_frame:
  "unlink_copy s f a e n found = Some (r, s') \<Longrightarrow>
    \<exists>m. s' = s\<lparr>wf_data := m\<rparr> \<and> (\<forall>b < n. m b = wf_data s b) \<and> (r \<longrightarrow> found \<or> a < e)"
proof (induction s f a e n found rule: unlink_copy.induct)
  case (1 s f a e n found)
  show ?case
  proof (cases "e \<le> a")
    case True
    with "1.prems" show ?thesis by (auto simp: unlink_copy.simps [of s f a] intro: exI [of _ "wf_data s"])
  next
    case False
    from "1.prems" False obtain eq where eq: "strcmp_at s a f = Some eq"
      by (auto simp: unlink_copy.simps [of s f a] bind_eq_Some_conv)
    let ?m = "write_dentry n (rd64 (wf_data s) (a + 32)) (name_at (wf_data s) a) (wf_data s)"
    show ?thesis
    proof (cases eq)
      case True
      with "1.prems" False eq have "unlink_copy s f (a + 40) e n True = Some (r, s')"
        by (simp add: unlink_copy.simps [of s f a e n found])
      from "1.IH"(1) [OF False eq True this] False show ?thesis by auto
    next
      case no: False
      with "1.prems" False eq have u: "unlink_copy (s\<lparr>wf_data := ?m\<rparr>) f (a + 40) e (n + 40) found = Some (r, s')"
        and i: "in_image s a 40 = Some ()" "in_image s n 40 = Some ()"
        by (auto simp: unlink_copy.simps [of s f a e n found] bind_eq_Some_conv)
      from "1.IH"(2) [OF False eq no i refl u] False show ?thesis by (auto simp: write_dentry_other)
    qed
  qed
qed

lemma remove_entry_log:
  assumes inv: "log_inv s es" and ld: "live es n = Some e" and dir: "ino_mode (fst e) AND S_IFDIR \<noteq> 0"
    and lf: "live es k = Some f" and es: "es = xs @ f # ys" "k \<notin> number_of ` set ys"
    and u: "remove_entry env s (addr_of es k) (addr_of es n) filename = Some (r, s')"
  shows "(r = - ENOENT \<and> log_inv s' es) \<or>
    (r = 0 \<and> (\<exists>d. length d = length (snd e) - 40 \<and>
      log_inv s' (xs @ ((fst f)\<lparr>ino_deleted := 1\<rparr>, snd f) # ys @ [dir_copy env e d]) \<and>
      all_le s' = (all_le s)(unat k := 0) \<and> nLogEntry s' = nLogEntry s \<and> total_size s' = total_size s \<and>
      (\<exists>m. unlink_copy (s\<lparr>wf_data := wfsincpy (env_time env) (addr_of es n) (8 + log_len es) (wf_data s)\<rparr>) filename
        (addr_of es n + 44) (addr_of es n + 44 + length (snd e)) (8 + log_len es + 44) False = Some (True, s\<lparr>wf_data := m\<rparr>) \<and>
        d = mem_bytes m (8 + log_len es + 44) (length (snd e) - 40))))"
proof -
  define H where "H = 8 + log_len es"
  define L where "L = length (snd e)"
  define a where "a = addr_of es n"
  note la = live_at [OF inv ld, folded a_def] and lk = live_at [OF inv lf]
  have ak: "addr_of es k = 8 + log_len xs" using addr_of_split [of f k ys xs] es lk(8) by simp
  have H: "unat (sb_head (wf_data s)) = H" "total_size s < 2 ^ 30" using inv by (simp_all add: H_def log_inv_def)
  have ae: "8 \<le> a" "a + 44 + L \<le> H" "8 \<le> H" using la by (simp_all add: H_def L_def entry_len_def)
  define m1 where "m1 = wfsincpy (env_time env) a H (wf_data s)"
  have i1: "rd_inode m1 a = fst e" "unat (ino_size (fst e)) = L"
      "rd_inode m1 H = (fst e)\<lparr>ino_atime := env_time env, ino_mtime := env_time env, ino_ctime := env_time env\<rparr>"
    using ae la(2) by (simp_all add: m1_def wfsincpy_rd_inode rd_inode_wfsincpy entry_at_def L_def)
  note u' = u [unfolded remove_entry_def Let_def H a_def [symmetric] m1_def [symmetric], simplified, unfolded i1]
  from u' obtain found s1 where im: "H + 44 \<le> total_size s"
      and c: "unlink_copy (s\<lparr>wf_data := m1\<rparr>) filename (a + 44) (a + 44 + L) (H + 44) False = Some (found, s1)"
    by (auto simp: bind_eq_Some_conv in_image_def i1 split: if_splits)
  from unlink_copy_frame [OF c] obtain m where m: "s1 = s\<lparr>wf_data := m\<rparr>" "\<And>b. b < H + 44 \<Longrightarrow> m b = m1 b" "found \<longrightarrow> 0 < L"
    by auto
  have sH: "same_on 4 H (wf_data s) m" by (auto simp: same_on_def m(2) m1_def wfsincpy_other)
  have hm: "sb_head m = sb_head (wf_data s)" unfolding sb_head_def
    by (rule same_on_rd32 [symmetric], rule same_on_sub [OF sH]) (use ae in auto)
  have im1: "rd_inode m H = rd_inode m1 H" by (rule rd_inode_same) (auto simp: same_on_def m(2))
  show ?thesis
  proof (cases found)
    case False
    with u' c m(1) im have "r = - ENOENT" "s' = s\<lparr>wf_data := m, all_le := all_le s\<rparr>"
      by (auto simp: in_image_def i1)
    moreover have "log_inv (s\<lparr>wf_data := m, all_le := all_le s\<rparr>) es" by (rule log_inv_same [OF inv sH [unfolded H_def]])
    ultimately show ?thesis by simp
  next
    case True
    define d where "d = mem_bytes m (H + 44) (L - 40)"
    have L40: "40 \<le> L" "40 dvd L" using True m(3) la(9) dir by (auto simp: L_def dest: dvd_imp_le)
    define m2 where "m2 = wr32 m (H + 24) (ino_size (rd_inode m H) - 40)"
    define m3 where "m3 = wr32 m2 4 (sb_head m2 + 44 + ino_size (rd_inode m2 H))"
    define m4 where "m4 = wr32 m3 (addr_of es k + 4) 1"
    have "ino_size (fst e) - 40 = (word_of_nat (L - 40) :: u32)"
      using size_word [OF i1(2)] L40(1) by (simp add: of_nat_diff)
    then have i2: "rd_inode m2 H = fst (dir_copy env e d)"
      by (simp add: m2_def rd_inode_wr_size im1 i1 dir_copy_def d_def)
    have h3: "unat (sb_head m3) = H + 44 + (L - 40)"
    proof -
      have "sb_head m2 = sb_head (wf_data s)" using ae by (simp add: m2_def mem_frame hm)
      then have "sb_head m3 = sb_head (wf_data s) + word_of_nat (44 + (L - 40))"
        by (simp add: m3_def mem_frame i2 dir_copy_def d_def)
      then show ?thesis using unat_add_small [of "sb_head (wf_data s)" "44 + (L - 40)"] H ae im by (simp only:) simp
    qed
    have s3: "same_on 8 H (wf_data s) m3"
      using sH by (auto simp: same_on_def m3_def m2_def mem_frame)
    have "mem_bytes m3 (H + 44) (L - 40) = d" unfolding d_def
      by (rule same_on_bytes) (use ae in \<open>auto intro!: same_onI simp: m3_def m2_def mem_frame\<close>)
    moreover have "unat (word_of_nat (L - 40) :: u32) = L - 40" using H ae im by (intro unat_small) simp
    moreover have "rd_inode m3 H = fst (dir_copy env e d)" using i2 ae by (simp add: m3_def mem_frame)
    ultimately have ent: "entries_at m3 H [dir_copy env e d]"
      by (simp add: entry_at_def dir_copy_def d_def)
    have "40 dvd L - 40" using L40 by simp
    then have inv3: "log_inv (s\<lparr>wf_data := m3, all_le := all_le s\<rparr>) (es @ [dir_copy env e d])"
      using h3 im la(6)
      by (intro log_inv_append inv s3 [unfolded H_def] ent [unfolded H_def])
        (simp_all add: butlast_append entry_len_def dir_copy_def number_of_def H_def d_def)
    have f3: "rd_inode m3 (addr_of es k) = fst f"
    proof -
      have "rd_inode (wf_data s) (addr_of es k) = rd_inode m3 (addr_of es k)"
        by (rule rd_inode_same, rule same_on_sub [OF s3]) (use lk in \<open>auto simp: H_def entry_len_def\<close>)
      then show ?thesis using lk(2) by (simp add: entry_at_def)
    qed
    have f4: "rd_inode m4 (addr_of es k) = (fst f)\<lparr>ino_deleted := 1\<rparr>"
      by (simp add: m4_def rd_inode_wr_times f3)
    have "s' = s\<lparr>wf_data := m4, all_le := (all_le s)(unat k := 0)\<rparr>" "r = 0"
      using u' c m(1) True im lk(6,8) f4
      by (simp_all add: in_image_def i1 m2_def [symmetric] m3_def [symmetric] m4_def [symmetric] number_of_def)
    moreover have "log_inv (s\<lparr>wf_data := m4, all_le := (all_le s)(unat k := 0)\<rparr>)
        (xs @ ((fst f)\<lparr>ino_deleted := 1\<rparr>, snd f) # ys @ [dir_copy env e d])"
    proof -
      have fr: "m4 b = wf_data (s\<lparr>wf_data := m3, all_le := all_le s\<rparr>) b"
        if "b < 8 + log_len xs \<or> 8 + log_len xs + 44 \<le> b" for b
        unfolding m4_def ak using that by (auto intro!: wr32_other)
      have "log_inv (s\<lparr>wf_data := m3, all_le := all_le s\<rparr>) (xs @ f # ys @ [dir_copy env e d])"
        using inv3 by (simp add: es(1))
      from log_inv_change [OF this fr f4 [unfolded ak], of "(all_le s)(unat k := 0)"] show ?thesis by simp
    qed
    ultimately show ?thesis using c True m(1) unfolding a_def m1_def H_def L_def
      by (intro disjI2 conjI exI [of _ d] exI [of _ m]) (simp_all add: d_def H_def L_def)
  qed
qed

end
