(* ===== verification/Wfs_Fs.thy ===== *)
theory Wfs_Fs
  imports Wfs_Log
begin

text \<open>
  The file system as its users see it: the invariant that every sequence of operations keeps,
  resolution of paths over the live inodes, and what creating, writing, reading and removing
  a file do to it.
\<close>

section \<open>Every operation keeps the log well formed\<close>

lemma log_inv_all_le [simp]: "log_inv (s\<lparr>all_le := t\<rparr>) es = log_inv s es"
  by (simp add: log_inv_def)

lemma ucast_ucast32: "ucast (ucast (w :: u32) :: u64) = w"
  by (rule bit_word_eqI) (simp add: bit_unsigned_iff)

lemma is_addr_SomeD:
  assumes "is_addr es (Some a)"
  obtains n e where "live es n = Some e" "a = addr_of es n"
  using assms by (auto simp: is_addr_def)

lemma rd_inode_live: "log_inv s es \<Longrightarrow> live es n = Some e \<Longrightarrow> rd_inode (wf_data s) (addr_of es n) = fst e"
  using live_at(2) by (fastforce simp: entry_at_def)

text \<open>An operation starts by resolving a path; it goes on with the table refreshed and either no
  entry or the address of a live inode.\<close>

lemma lookup_cases:
  assumes "log_inv s es" "(get_path_inode s path \<bind> (\<lambda>(c, s). K c s)) = Some z"
  obtains "get_path_inode s path = Some (None, refresh s es)" "K None (refresh s es) = Some z"
  | n e where "live es n = Some e" "get_path_inode s path = Some (Some (addr_of es n), refresh s es)"
      "K (Some (addr_of es n)) (refresh s es) = Some z"
proof -
  from assms(2) obtain c s1 where c: "get_path_inode s path = Some (c, s1)" "K c s1 = Some z"
    by (auto simp: bind_eq_Some_conv)
  note r = get_path_refresh [OF assms(1) c(1)]
  show thesis
  proof (cases c)
    case None
    with c r that(1) show ?thesis by simp
  next
    case (Some a)
    with r obtain n e where "live es n = Some e" "a = addr_of es n" by (auto elim: is_addr_SomeD)
    with c r Some that(2) show ?thesis by simp
  qed
qed

lemma add_node_inv:
  assumes "log_inv s es" "live es n = Some e" "add_node env mode s (addr_of es n) name = Some (r, s')"
  shows "\<exists>es'. log_inv s' es'"
proof (cases "8 + log_len es + 128 + length (snd e) \<le> total_size s")
  case True
  from add_node_room [OF assms(1,2) True, of env mode name] assms(3) show ?thesis
    by (auto split: if_splits)
next
  case False
  with add_node_no_room [OF assms(1,2), of env mode name] assms show ?thesis by (auto split: if_splits)
qed

text \<open>The check for an existing entry never succeeds: a lookup yields no deleted entry.\<close>

lemma make_node_eq:
  assumes "log_inv s es" "make_node mode env s path = Some z"
  shows "(case split_path path of
       None \<Rightarrow> Some (- ENOENT, refresh s es)
     | Some (dir_path, node_name) \<Rightarrow>
         get_path_inode (refresh s es) dir_path \<bind> (\<lambda>(d, s). make_node_dir mode env node_name d s)) = Some z"
proof -
  let ?K = "\<lambda>c s. if case c of None \<Rightarrow> False | Some e \<Rightarrow> ino_deleted (rd_inode (wf_data s) e) \<noteq> 0 then Some (- EEXIST, s)
     else case split_path path of
       None \<Rightarrow> Some (- ENOENT, s)
     | Some (dir_path, node_name) \<Rightarrow> get_path_inode s dir_path \<bind> (\<lambda>(d, s). make_node_dir mode env node_name d s)"
  have "(get_path_inode s path \<bind> (\<lambda>(c, s). ?K c s)) = Some z"
    using assms(2) by (simp add: make_node_def)
  with assms(1) show ?thesis
    by (rule lookup_cases) (simp_all add: rd_inode_live [OF assms(1)] live_at(7) [OF assms(1)])
qed

lemma make_node_inv:
  assumes "log_inv s es" "make_node mode env s path = Some (r, s')"
  shows "\<exists>es'. log_inv s' es'"
proof (cases "split_path path")
  case None
  with make_node_eq [OF assms] assms(1) show ?thesis by auto
next
  case (Some p)
  obtain dp nm where p: "p = (dp, nm)" by (cases p)
  have inv: "log_inv (refresh s es) es" using assms(1) by simp
  have "(get_path_inode (refresh s es) dp \<bind> (\<lambda>(d, s). make_node_dir mode env nm d s)) = Some (r, s')"
    using make_node_eq [OF assms] Some p by simp
  with inv show ?thesis
  proof (rule lookup_cases)
    fix n e assume "live es n = Some e"
      "make_node_dir mode env nm (Some (addr_of es n)) (refresh (refresh s es) es) = Some (r, s')"
    then show ?thesis using add_node_inv [OF inv] assms(1) by (auto simp: make_node_dir_def split: if_splits)
  qed (use assms(1) in \<open>auto simp: make_node_dir_def\<close>)
qed

lemma wfs_read_inv:
  assumes inv: "log_inv s es" and r: "wfs_read env s path buf k off = Some (r, bs, s')"
  shows "\<exists>es'. log_inv s' es'"
  using inv r [unfolded wfs_read_def]
proof (rule lookup_cases)
  fix n e assume lv: "live es n = Some e"
    and k: "(case Some (addr_of es n) of None \<Rightarrow> Some (- ENOENT, [], refresh s es) | Some e \<Rightarrow>
       (let i = rd_inode (wf_data (refresh s es)) e in
         if ino_mode i AND S_IFDIR \<noteq> 0 then Some (-1, [], refresh s es)
         else if unat (ino_size i) \<le> off then Some (0, [], refresh s es)
         else (let actual_size = (if unat (ino_size i) < off + k then unat (ino_size i) - off else k) in
           if \<not> buf then Some (-1, [], refresh s es)
           else in_image (refresh s es) (e + sizeof_inode + off) actual_size \<bind> (\<lambda>_.
             Some (to_int32 (int actual_size), mem_bytes (wf_data (refresh s es)) (e + sizeof_inode + off) actual_size,
                   (refresh s es)\<lparr>wf_data := wr32 (wf_data (refresh s es)) (e + 28) (env_time env)\<rparr>))))) = Some (r, bs, s')"
  from lv have l: "latest es n = Some e" by (auto simp: live_def split: option.splits if_splits)
  then obtain xs ys where es: "es = xs @ e # ys" "number_of e = n" "n \<notin> number_of ` set ys" by (auto simp: latest_split)
  have a: "addr_of es n = 8 + log_len xs" using addr_of_split [OF es(2,3)] es(1) by simp
  from k consider "s' = refresh s es" | "s' = (refresh s es)\<lparr>wf_data := wr32 (wf_data s) (addr_of es n + 28) (env_time env)\<rparr>"
    by (auto simp: Let_def bind_eq_Some_conv split: if_splits)
  then show ?thesis
  proof cases
    case 1
    with inv show ?thesis by auto
  next
    case 2
    let ?m = "wr32 (wf_data s) (addr_of es n + 28) (env_time env)"
    have inv': "log_inv (refresh s es) (xs @ e # ys)" using inv es(1) by simp
    have "log_inv ((refresh s es)\<lparr>wf_data := ?m, all_le := all_le (refresh s es)\<rparr>)
        (xs @ ((fst e)\<lparr>ino_atime := env_time env\<rparr>, snd e) # ys)"
      by (rule log_inv_change [OF inv'])
        (auto simp: rd_inode_wr_times rd_inode_live [OF inv lv] simp flip: a intro!: wr32_other)
    then have "log_inv s' (xs @ ((fst e)\<lparr>ino_atime := env_time env\<rparr>, snd e) # ys)" by (simp add: 2)
    then show ?thesis ..
  qed
qed (use inv in auto)

lemma write_entry_inv:
  assumes inv: "log_inv s es" and lv: "live es n = Some e" and reg: "ino_mode (fst e) AND S_IFDIR = 0"
    and off: "off \<le> length (snd e)" and w: "write_entry env s (addr_of es n) bytes off = Some (r, s')"
  shows "\<exists>es'. log_inv s' es'"
proof (cases "8 + log_len es + 44 + length (snd e) + length bytes \<le> total_size s")
  case True
  from write_entry_room [OF inv lv reg off this, of env] w show ?thesis by auto
next
  case False
  let ?m = "wfsincpy (env_time env) (addr_of es n) (8 + log_len es) (wf_data s)"
  have "rd_inode ?m (addr_of es n) = fst e" "unat (ino_size (fst e)) = length (snd e)"
    using live_at [OF inv lv] by (simp_all add: wfsincpy_rd_inode entry_len_def entry_at_def)
  with False w inv have "s' = s\<lparr>wf_data := ?m, all_le := all_le s\<rparr>"
    by (auto simp: write_entry_def log_inv_def bind_eq_Some_conv Let_def split: if_splits)
  moreover have "same_on 4 (8 + log_len es) (wf_data s) ?m" by (auto simp: same_on_def wfsincpy_other)
  ultimately show ?thesis using log_inv_same [OF inv] by blast
qed

lemma wfs_write_inv:
  assumes inv: "log_inv s es" and w: "wfs_write env s path buf off = Some (r, s')"
  shows "\<exists>es'. log_inv s' es'"
  using inv w [unfolded wfs_write_def]
proof (rule lookup_cases)
  fix n e assume lv: "live es n = Some e"
    and k: "(case Some (addr_of es n) of None \<Rightarrow> Some (- ENOENT, refresh s es) | Some orig \<Rightarrow>
         let i = rd_inode (wf_data (refresh s es)) orig in
         if ino_mode i AND S_IFDIR \<noteq> 0 then Some (-1, refresh s es)
         else if unat (ino_size i) < off then Some (- EFBIG, refresh s es)
         else case buf of None \<Rightarrow> Some (-1, refresh s es)
           | Some bytes \<Rightarrow> write_entry env (refresh s es) orig bytes off) = Some (r, s')"
  have inv': "log_inv (refresh s es) es" using inv by simp
  have "unat (ino_size (fst e)) = length (snd e)" using live_at(2) [OF inv lv] by (simp add: entry_at_def)
  with k inv inv' lv show ?thesis
    using write_entry_inv [OF inv' lv] by (auto simp: Let_def rd_inode_live not_less split: if_splits option.splits)
qed (use inv in auto)

lemma remove_entry_inv:
  assumes inv: "log_inv s es" and "live es n = Some e" "ino_mode (fst e) AND S_IFDIR \<noteq> 0" "live es k = Some f"
    and "remove_entry env s (addr_of es k) (addr_of es n) filename = Some (r, s')"
  shows "\<exists>es'. log_inv s' es'"
proof -
  have "latest es k = Some f" using assms(4) by (auto simp: live_def split: option.splits if_splits)
  then obtain xs ys where "es = xs @ f # ys" "k \<notin> number_of ` set ys" by (auto simp: latest_split)
  from remove_entry_log [OF assms(1-4) this assms(5)] show ?thesis by blast
qed

lemma wfs_unlink_inv:
  assumes inv: "log_inv s es" and u: "wfs_unlink env s path = Some (r, s')"
  shows "\<exists>es'. log_inv s' es'"
  using inv u [unfolded wfs_unlink_def]
proof (rule lookup_cases)
  fix k f assume lf: "live es k = Some f"
    and c: "(case Some (addr_of es k) of None \<Rightarrow> Some (- ENOENT, refresh s es)
     | Some f \<Rightarrow> (case split_path path of None \<Rightarrow> Some (- ENOENT, refresh s es)
        | Some (dir_path, filename) \<Rightarrow>
            get_path_inode (refresh s es) dir_path \<bind> (\<lambda>(d, s). unlink_dir env f filename d s))) = Some (r, s')"
  have inv': "log_inv (refresh s es) es" using inv by simp
  show ?thesis
  proof (cases "split_path path")
    case None
    with c inv show ?thesis by auto
  next
    case (Some p)
    with c have "(get_path_inode (refresh s es) (fst p) \<bind> (\<lambda>(d, s). unlink_dir env (addr_of es k) (snd p) d s)) = Some (r, s')"
      by (simp split: prod.splits)
    with inv' show ?thesis
    proof (rule lookup_cases)
      fix n e assume ld: "live es n = Some e"
        "unlink_dir env (addr_of es k) (snd p) (Some (addr_of es n)) (refresh (refresh s es) es) = Some (r, s')"
      show ?thesis
      proof (cases "ino_mode (fst e) AND S_IFDIR = 0")
        case False
        with ld inv rd_inode_live [OF inv ld(1)]
        have "remove_entry env (refresh s es) (addr_of es k) (addr_of es n) (snd p) = Some (r, s')"
          by (simp add: unlink_dir_def)
        from remove_entry_inv [OF inv' ld(1) False lf this] show ?thesis .
      qed (use ld inv rd_inode_live [OF inv ld(1)] in \<open>auto simp: unlink_dir_def\<close>)
    qed (use inv in \<open>auto simp: unlink_dir_def\<close>)
  qed
qed (use inv in auto)

text \<open>Steps of the mounted file system: any operation, with any arguments.\<close>

inductive wfs_step :: "wfs \<Rightarrow> wfs \<Rightarrow> bool" where
  op_getattr: "wfs_getattr s path = Some (r, st, s') \<Longrightarrow> wfs_step s s'"
| op_mknod: "wfs_mknod env s path = Some (r, s') \<Longrightarrow> wfs_step s s'"
| op_mkdir: "wfs_mkdir env s path = Some (r, s') \<Longrightarrow> wfs_step s s'"
| op_read: "wfs_read env s path buf k off = Some (r, bs, s') \<Longrightarrow> wfs_step s s'"
| op_write: "wfs_write env s path bytes off = Some (r, s') \<Longrightarrow> wfs_step s s'"
| op_readdir: "wfs_readdir s path filler = Some (r, names, s') \<Longrightarrow> wfs_step s s'"
| op_unlink: "wfs_unlink env s path = Some (r, s') \<Longrightarrow> wfs_step s s'"

lemma get_path_inv: "log_inv s es \<Longrightarrow> get_path_inode s path = Some (c, s') \<Longrightarrow> log_inv s' es"
  using get_path_refresh [of s es path c s'] by auto

lemma wfs_getattr_state:
  "wfs_getattr s path = Some (r, st, s') \<Longrightarrow> \<exists>c. get_path_inode s path = Some (c, s')"
  by (auto simp: wfs_getattr_def bind_eq_Some_conv Let_def split: option.splits)

lemma wfs_readdir_state:
  "wfs_readdir s path filler = Some (r, names, s') \<Longrightarrow> \<exists>c. get_path_inode s path = Some (c, s')"
  by (auto simp: wfs_readdir_def bind_eq_Some_conv split: option.splits if_splits)

lemma wfs_step_inv: "wfs_step s s' \<Longrightarrow> \<exists>es. log_inv s es \<Longrightarrow> \<exists>es. log_inv s' es"
proof (induction rule: wfs_step.induct)
  case (op_getattr s path r st s')
  then show ?case using get_path_inv wfs_getattr_state by blast
next
  case (op_readdir s path filler r names s')
  then show ?case using get_path_inv wfs_readdir_state by blast
qed (use make_node_inv wfs_read_inv wfs_write_inv wfs_unlink_inv in \<open>auto simp: wfs_mknod_def wfs_mkdir_def\<close>)

definition root_inode :: "u32 \<Rightarrow> wfs_inode" where
  "root_inode now = \<lparr>ino_number = 0, ino_deleted = 0, ino_mode = S_IFDIR, ino_uid = 0, ino_gid = 0, ino_flags = 0,
     ino_size = 0, ino_atime = now, ino_mtime = now, ino_ctime = now, ino_links = 1\<rparr>"

lemma mkfs_inv:
  assumes "52 \<le> n" "n < 2 ^ 30"
  shows "log_inv (mount_image (initialize_file_system now m) n) [(root_inode now, [])]"
proof -
  let ?m = "initialize_file_system now m"
  have "rd_inode ?m 8 = root_inode now"
    by (simp add: initialize_file_system_def rd_inode_def root_inode_def rd32_wr32_other)
  moreover have "sb_head ?m = 52"
    by (simp add: initialize_file_system_def sb_head_def rd32_wr32_other)
  ultimately show ?thesis using assms
    by (simp add: log_inv_def mount_image_def entry_at_def entry_len_def root_inode_def number_of_def mem_bytes_def)
qed

section \<open>Resolution of paths\<close>

definition is_dir :: "entry \<Rightarrow> bool" where
  "is_dir e = (ino_mode (fst e) AND S_IFDIR \<noteq> 0)"

fun resolve :: "(u32 \<Rightarrow> entry option) \<Rightarrow> string list \<Rightarrow> u32 \<Rightarrow> u32 option" where
  "resolve lk [] n = Some n"
| "resolve lk (t # ts) n =
    (case lk n of
       None \<Rightarrow> None
     | Some e \<Rightarrow>
         if is_dir e \<and> wf_dir (snd e)
         then (case map_of (dents (snd e)) t of None \<Rightarrow> None | Some k \<Rightarrow> resolve lk ts (ucast k))
         else None)"

definition path_resolves :: "entry list \<Rightarrow> string \<Rightarrow> u32 \<Rightarrow> bool" where
  "path_resolves es path n = (CHR 0x00 \<notin> set path \<and> (\<exists>root. live es 0 = Some root \<and> is_dir root) \<and>
     resolve (live es) (tokens ''/'' path) 0 = Some n)"

lemma resolve_append: "resolve lk (ts @ us) n = resolve lk ts n \<bind> resolve lk us"
  by (induction ts arbitrary: n) (auto split: option.splits)

lemma path_walk_append:
  "path_walk s ts c = Some (Some a, s') \<Longrightarrow> path_walk s (ts @ us) c = path_walk s' us (Some a)"
proof (induction ts arbitrary: s c)
  case (Cons t ts)
  then show ?case by (auto simp: bind_eq_Some_conv Let_def split: option.splits)
qed simp

lemma path_walk_resolve:
  assumes inv: "log_inv s es" and fits: "8 + log_len es \<le> total_size s"
  shows "live es n = Some e \<Longrightarrow> \<forall>t \<in> set ts. CHR 0x00 \<notin> set t \<Longrightarrow> resolve (live es) ts n = Some k \<Longrightarrow> live es k \<noteq> None \<Longrightarrow>
    path_walk (refresh s es) ts (Some (addr_of es n)) = Some (Some (addr_of es k), refresh s es)"
proof (induction ts arbitrary: n e)
  case (Cons t ts)
  from Cons.prems obtain j where e: "is_dir e" "wf_dir (snd e)" "map_of (dents (snd e)) t = Some j"
      "resolve (live es) ts (ucast j) = Some k"
    by (auto split: if_splits option.splits)
  note la = live_at [OF inv Cons.prems(1)]
  have "unat (ino_size (rd_inode (wf_data s) (addr_of es n))) = length (snd e)"
    using la(2) by (simp add: entry_at_def)
  moreover have "dir_search (refresh s es) t (addr_of es n + 44) (addr_of es n + 44 + length (snd e)) = Some (Some j)"
    using dir_search_dents [of "snd e" "refresh s es" "addr_of es n + 44" t] e la(2,4) fits Cons.prems(2)
    by (simp add: entry_at_def entry_len_def)
  moreover obtain f where f: "live es (ucast j) = Some f"
    using e(4) Cons.prems(4) by (cases ts) (auto split: option.splits)
  moreover have "get_number_inode (refresh s es) (ucast j) = Some (Some (addr_of es (ucast j)), refresh s es)"
    using live_at(1) [of "refresh s es" es, OF _ f] inv by simp
  ultimately show ?case using Cons.IH [OF f _ e(4) Cons.prems(4)] Cons.prems(2) by simp
qed simp

lemma get_path_ok:
  assumes inv: "log_inv s es" and fits: "8 + log_len es \<le> total_size s"
    and p: "path_resolves es path n" "live es n \<noteq> None"
  shows "get_path_inode s path = Some (Some (addr_of es n), refresh s es)"
proof -
  from p obtain root where r: "live es 0 = Some root" "is_dir root"
      "resolve (live es) (tokens ''/'' path) 0 = Some n" "CHR 0x00 \<notin> set path"
    by (auto simp: path_resolves_def)
  have "\<forall>t \<in> set (tokens ''/'' path). CHR 0x00 \<notin> set t" using r(4) tokens_chars by blast
  note w = path_walk_resolve [OF inv fits r(1) this r(3) p(2)]
  have "tokens ''/'' ''/'' = []" by (simp add: tokens_delim)
  with r(3) have "path = ''/'' \<Longrightarrow> n = 0" by simp
  then show ?thesis using live_at(1) [OF inv r(1)] rd_inode_live [OF inv r(1)] r(2) w
    by (auto simp: get_path_inode_def is_dir_def)
qed

lemma get_path_missing:
  assumes inv: "log_inv s es" and fits: "8 + log_len es \<le> total_size s"
    and p: "path_resolves es path d" and d: "live es d = Some e" "is_dir e" "wf_dir (snd e)"
    and name: "name \<notin> fst ` set (dents (snd e))" "name \<noteq> []" "CHR ''/'' \<notin> set name" "CHR 0x00 \<notin> set name"
  shows "get_path_inode s (path @ CHR ''/'' # name) = Some (None, refresh s es)"
proof -
  from p obtain root where r: "live es 0 = Some root" "is_dir root"
      "resolve (live es) (tokens ''/'' path) 0 = Some d" "CHR 0x00 \<notin> set path"
    by (auto simp: path_resolves_def)
  have "\<forall>t \<in> set (tokens ''/'' path). CHR 0x00 \<notin> set t" using r(4) tokens_chars by blast
  note w = path_walk_resolve [OF inv fits r(1) this r(3)]
  let ?a = "addr_of es d"
  have sz: "unat (ino_size (rd_inode (wf_data s) ?a)) = length (snd e)"
    using live_at(2) [OF inv d(1)] by (simp add: entry_at_def)
  have "map_of (dents (snd e)) name = None" using name(1) by (simp add: map_of_eq_None_iff)
  then have ds: "dir_search (refresh s es) name (?a + 44) (?a + 44 + length (snd e)) = Some None"
    using dir_search_dents [of "snd e" "refresh s es" "?a + 44" name] live_at(2,4) [OF inv d(1)] d fits name
    by (simp add: entry_at_def entry_len_def)
  have "tokens ''/'' (path @ CHR ''/'' # name) = tokens ''/'' path @ [name]"
    using name by (intro tokens_snoc) auto
  then have pw: "path_walk (refresh s es) (tokens ''/'' (path @ CHR ''/'' # name)) (Some (addr_of es 0)) = Some (None, refresh s es)"
    using path_walk_append [OF w, of "[name]"] d(1) sz ds by simp
  have "path @ CHR ''/'' # name \<noteq> ''/''" using name(2) by (cases path) auto
  then show ?thesis using live_at(1) [OF inv r(1)] rd_inode_live [OF inv r(1)] r(2) pw
    by (simp add: get_path_inode_def is_dir_def)
qed

section \<open>Directory entries as they are written\<close>

lemma dentry_bytes_name: "take 32 (dentry_bytes name num) = strncpy_bytes name 31 @ [0]"
proof (rule nth_equalityI)
  have l: "length (strncpy_bytes name 31) = 31" by (simp add: strncpy_bytes_def)
  then show "length (take 32 (dentry_bytes name num)) = length (strncpy_bytes name 31 @ [0])" by simp
  fix i assume "i < length (take 32 (dentry_bytes name num))"
  then show "take 32 (dentry_bytes name num) ! i = (strncpy_bytes name 31 @ [0]) ! i"
    using l by (auto simp: dentry_bytes_def write_dentry_def wr_bytes_def MAX_FILE_NAME_LEN_def nth_append less_Suc_eq)
qed

lemma dent_num_dentry_bytes: "dent_num (dentry_bytes name num) = num"
proof -
  have l: "length (strncpy_bytes name 31) = 31" by (simp add: strncpy_bytes_def)
  have "dent_num (dentry_bytes name num) = rd64 (write_dentry 0 num name (\<lambda>_. 0)) 32"
    unfolding dent_num_def by (rule rd64_cong) (simp add: dentry_bytes_def)
  also have "\<dots> = rd64 (wr64 (\<lambda>_. 0) 32 num) 32"
    by (rule rd64_cong) (simp add: write_dentry_def wr_bytes_def MAX_FILE_NAME_LEN_def l)
  finally show ?thesis by simp
qed

lemma dent_name_dentry_bytes:
  assumes "CHR 0x00 \<notin> set name" "length name \<le> 31"
  shows "dent_name (dentry_bytes name num) = name"
proof -
  have "takeWhile (\<lambda>b. b \<noteq> 0) (map of_char name @ (0::u8) # ys) = map of_char name" for ys
    using assms(1) by (induction name) auto
  moreover have "\<exists>ys. replicate (31 - length name) (0::u8) @ [0] = 0 # ys"
    by (cases "31 - length name") auto
  ultimately have "takeWhile (\<lambda>b. b \<noteq> (0::u8)) (strncpy_bytes name 31 @ [0]) = map of_char name"
    using assms(2) by (auto simp: strncpy_bytes_def)
  then show ?thesis by (simp add: dent_name_def dentry_bytes_name map_idI)
qed

lemma dents_dentry_bytes:
  assumes "CHR 0x00 \<notin> set name" "length name \<le> 31"
  shows "dents (dentry_bytes name num) = [(name, num)]" "wf_dir (dentry_bytes name num)"
proof -
  show "dents (dentry_bytes name num) = [(name, num)]"
    by (simp add: dents.simps [of "dentry_bytes name num"] dent_name_dentry_bytes [OF assms] dent_num_dentry_bytes)
  have "dentry_bytes name num \<noteq> []" using length_dentry_bytes [of name num] by (metis list.size(3) zero_neq_numeral)
  then show "wf_dir (dentry_bytes name num)"
    by (simp add: wf_dir.simps [of "dentry_bytes name num"] dentry_bytes_name)
qed

lemma split_path_last:
  assumes "CHR ''/'' \<notin> set name"
  shows "split_path (dir @ CHR ''/'' # name) = Some (if dir = [] then ''/'' else dir, name)"
proof -
  have "strrchr (dir @ CHR ''/'' # name) (CHR ''/'') = Some (length dir)"
    using assms by (simp add: strrchr_Some nth_append)
  then show ?thesis by (simp add: split_path_def)
qed

lemma path_resolves_root: "path_resolves es (if p = [] then ''/'' else p) n = path_resolves es p n"
  by (simp add: path_resolves_def tokens_delim)

section \<open>How creation, writing and removal change the paths\<close>

text \<open>Directories that keep all their entries keep every path.\<close>

lemma resolve_mono:
  assumes "\<And>n e. lk n = Some e \<Longrightarrow> is_dir e \<Longrightarrow> wf_dir (snd e) \<Longrightarrow>
    \<exists>e'. lk' n = Some e' \<and> is_dir e' \<and> wf_dir (snd e') \<and> map_of (dents (snd e)) \<subseteq>\<^sub>m map_of (dents (snd e'))"
  shows "resolve lk ts n = Some k \<Longrightarrow> resolve lk' ts n = Some k"
proof (induction ts arbitrary: n)
  case (Cons t ts)
  then obtain e j where e: "lk n = Some e" "is_dir e" "wf_dir (snd e)" "map_of (dents (snd e)) t = Some j"
      "resolve lk ts (ucast j) = Some k" by (auto split: if_splits option.splits)
  with assms [OF e(1-3)] obtain e' where "lk' n = Some e'" "is_dir e'" "wf_dir (snd e')" "map_of (dents (snd e')) t = Some j"
    by (metis map_le_def domI)
  with Cons.IH [OF e(5)] show ?case by simp
qed simp

lemma live_append:
  "live (es @ [e]) n = (if number_of e = n then (if ino_deleted (fst e) = 0 then Some e else None) else live es n)"
  by (simp add: live_def)

lemma is_dir_copy [simp]: "is_dir (dir_copy env e d) = is_dir e" "snd (dir_copy env e d) = d"
  "number_of (dir_copy env e d) = number_of e" "ino_deleted (fst (dir_copy env e d)) = ino_deleted (fst e)"
  by (simp_all add: dir_copy_def is_dir_def number_of_def)

lemma fresh_entry [simp]: "number_of (fresh_inode env mode i, d) = i" "ino_deleted (fresh_inode env mode i) = 0"
  "ino_size (fresh_inode env mode i) = 0" "ino_mode (fresh_inode env mode i) = mode"
  by (simp_all add: number_of_def fresh_inode_def)

lemma free_not_live:
  assumes "le_table 8 es t (unat n) = 0"
  shows "live es n = None"
proof (cases "latest es n")
  case (Some e)
  then obtain xs ys where "es = xs @ e # ys" "number_of e = n" "n \<notin> number_of ` set ys" by (auto simp: latest_split)
  with le_table_last [of n ys e 8 xs t] assms have "ino_deleted (fst e) \<noteq> 0" by auto
  with Some show ?thesis by (simp add: live_def)
qed (simp add: live_def)

text \<open>The log after a node was added to directory \<open>d\<close>.\<close>

definition added :: "wfs_env \<Rightarrow> u32 \<Rightarrow> entry list \<Rightarrow> entry \<Rightarrow> string \<Rightarrow> u32 \<Rightarrow> entry list" where
  "added env mode es e name i =
    es @ [dir_copy env e (snd e @ dentry_bytes name (ucast i)), (fresh_inode env mode i, [])]"

lemma live_added:
  assumes "live es d = Some e" "live es i = None"
  shows "live (added env mode es e name i) n =
    (if n = i then Some (fresh_inode env mode i, [])
     else if n = d then Some (dir_copy env e (snd e @ dentry_bytes name (ucast i))) else live es n)"
proof -
  have "number_of e = d" "ino_deleted (fst e) = 0"
    using assms(1) by (auto simp: live_def latest_split split: option.splits if_splits)
  moreover have "i \<noteq> d" using assms by auto
  ultimately show ?thesis
    unfolding added_def using live_append [of "es @ [dir_copy env e (snd e @ dentry_bytes name (ucast i))]"]
    by (auto simp: live_append)
qed

lemma added_paths:
  assumes d: "live es d = Some e" "is_dir e" "wf_dir (snd e)" and i: "live es i = None"
    and name: "name \<notin> fst ` set (dents (snd e))" "name \<noteq> []" "CHR ''/'' \<notin> set name" "CHR 0x00 \<notin> set name" "length name \<le> 31"
  shows "path_resolves es p n \<Longrightarrow> path_resolves (added env mode es e name i) p n"
    "path_resolves es path d \<Longrightarrow> path_resolves (added env mode es e name i) (path @ CHR ''/'' # name) i"
proof -
  let ?es = "added env mode es e name i"
  note la = live_added [OF d(1) i, of env mode name]
  have ds: "dents (snd e @ dentry_bytes name (ucast i)) = dents (snd e) @ [(name, ucast i)]"
    using dents_append [OF d(3)] dents_dentry_bytes [OF name(4,5)] by simp
  have wf: "wf_dir (snd e @ dentry_bytes name (ucast i))"
    using wf_dir_append [OF d(3)] dents_dentry_bytes [OF name(4,5)] by simp
  have mono: "\<exists>e'. live ?es n = Some e' \<and> is_dir e' \<and> wf_dir (snd e') \<and> map_of (dents (snd e0)) \<subseteq>\<^sub>m map_of (dents (snd e'))"
    if "live es n = Some e0" "is_dir e0" "wf_dir (snd e0)" for n e0
  proof (cases "n = d")
    case True
    with that d have "e0 = e" by simp
    moreover have "map_of (dents (snd e)) \<subseteq>\<^sub>m map_of (dents (snd e @ dentry_bytes name (ucast i)))"
      by (simp add: ds map_le_map_add)
    moreover have "live ?es d = Some (dir_copy env e (snd e @ dentry_bytes name (ucast i)))"
      using la [of d] d i by auto
    ultimately show ?thesis using True wf d(2)
      by (intro exI [of _ "dir_copy env e (snd e @ dentry_bytes name (ucast i))"]) simp
  next
    case False
    with that i la [of n] have "live ?es n = Some e0" by auto
    with that show ?thesis by (intro exI [of _ e0]) simp
  qed
  have root: "\<exists>root. live ?es 0 = Some root \<and> is_dir root" if "\<exists>root. live es 0 = Some root \<and> is_dir root"
  proof (cases "d = 0")
    case True
    with la [of 0] d i show ?thesis
      by (intro exI [of _ "dir_copy env e (snd e @ dentry_bytes name (ucast i))"]) auto
  qed (use that la [of 0] i in auto)
  show "path_resolves ?es p n" if "path_resolves es p n" for p n
    using that root resolve_mono [OF mono] by (auto simp: path_resolves_def)
  assume p: "path_resolves es path d"
  have "tokens ''/'' (path @ CHR ''/'' # name) = tokens ''/'' path @ [name]"
    using name by (intro tokens_snoc) auto
  moreover have "resolve (live ?es) (tokens ''/'' path) 0 = Some d"
    using p resolve_mono [OF mono] by (auto simp: path_resolves_def)
  moreover have "map_of (dents (snd e @ dentry_bytes name (ucast i))) name = Some (ucast i)"
    unfolding ds map_of_append using name(1) map_of_eq_None_iff [of "dents (snd e)" name] by (simp add: map_add_def)
  moreover have "ucast (ucast i :: u64) = i" by (rule ucast_ucast32)
  ultimately have "resolve (live ?es) (tokens ''/'' (path @ CHR ''/'' # name)) 0 = Some i"
    using la [of d] d i wf by (auto simp: resolve_append)
  with p root name show "path_resolves ?es (path @ CHR ''/'' # name) i" by (auto simp: path_resolves_def)
qed

lemma make_node_adds:
  assumes inv: "log_inv s es" and d: "path_resolves es path d" "live es d = Some e" "is_dir e" "wf_dir (snd e)"
    and name: "name \<notin> fst ` set (dents (snd e))" "name \<noteq> []" "CHR ''/'' \<notin> set name" "CHR 0x00 \<notin> set name"
    and i: "List.find (\<lambda>i. all_le (refresh s es) i = 0) [0..<256] = Some i"
    and room: "8 + log_len es + 128 + length (snd e) \<le> total_size s"
  shows "\<exists>s'. make_node mode env s (path @ CHR ''/'' # name) = Some (0, s') \<and> total_size s' = total_size s \<and>
    log_inv s' (added env mode es e name (word_of_nat i)) \<and> live es (word_of_nat i) = None"
proof -
  have fits: "8 + log_len es \<le> total_size s" using room by simp
  have i': "i < 256" "le_table 8 es (all_le s) i = 0" using find_upt_Some [OF i] by auto
  have un: "unat (word_of_nat i :: u32) = i" using i'(1) by (intro unat_small) simp
  then have free: "live es (word_of_nat i) = None" using free_not_live [of es "all_le s"] i' by simp
  have inv': "log_inv (refresh s es) es" using inv by simp
  have "get_path_inode (refresh s es) (if path = [] then ''/'' else path) = Some (Some (addr_of es d), refresh s es)"
    using get_path_ok [OF inv', of "if path = [] then ''/'' else path" d] fits d by (simp add: path_resolves_root)
  moreover have "make_node_dir mode env name (Some (addr_of es d)) (refresh s es) =
      add_node env mode (refresh s es) (addr_of es d) name"
    using d(2,3) rd_inode_live [OF inv d(2)] by (simp add: make_node_dir_def is_dir_def)
  ultimately have call: "make_node mode env s (path @ CHR ''/'' # name) = add_node env mode (refresh s es) (addr_of es d) name"
    using get_path_missing [OF inv fits d name] by (simp add: make_node_def split_path_last [OF name(3)])
  have room': "8 + log_len es + 128 + length (snd e) \<le> total_size (refresh s es)" using room by simp
  obtain m num where m: "num = word_of_nat i" "add_node env mode (refresh s es) (addr_of es d) name =
      (if 256 \<le> unat num then None
       else Some (0, (refresh s es)\<lparr>wf_data := m, all_le := (all_le (refresh s es))(unat num := 8 + log_len es + 84 + length (snd e))\<rparr>))"
    "unat num < 256 \<longrightarrow> log_inv ((refresh s es)\<lparr>wf_data := m, all_le := (all_le (refresh s es))(unat num := 8 + log_len es + 84 + length (snd e))\<rparr>)
       (es @ [dir_copy env e (snd e @ dentry_bytes name (ucast num)), (fresh_inode env mode num, [])])"
    using add_node_room [OF inv' d(2) room', of env mode name] i by blast
  then show ?thesis using call i'(1) un free by (simp add: added_def)
qed

lemma wfs_read_ok:
  assumes inv: "log_inv s es" and fits: "8 + log_len es \<le> total_size s"
    and p: "path_resolves es path n" "live es n = Some e" "\<not> is_dir e"
  shows "\<exists>s'. wfs_read env s path True k off = Some (int (length (take k (drop off (snd e)))), take k (drop off (snd e)), s')"
proof -
  note la = live_at [OF inv p(2)]
  let ?a = "addr_of es n" and ?L = "length (snd e)"
  have i: "rd_inode (wf_data s) ?a = fst e" "unat (ino_size (fst e)) = ?L" "mem_bytes (wf_data s) (?a + 44) ?L = snd e"
    using la(2) by (simp_all add: entry_at_def)
  have lt: "?a + 44 + ?L \<le> total_size s" "total_size s < 2 ^ 30" using la(4) fits inv by (auto simp: entry_len_def log_inv_def)
  have rd: "mem_bytes (wf_data s) (?a + 44 + off) (min (?L - off) k) = take k (drop off (snd e))" if "off < ?L"
  proof (rule nth_equalityI)
    show "length (mem_bytes (wf_data s) (?a + 44 + off) (min (?L - off) k)) = length (take k (drop off (snd e)))"
      by simp
    fix j assume "j < length (mem_bytes (wf_data s) (?a + 44 + off) (min (?L - off) k))"
    then have j: "j < min (?L - off) k" "off + j < ?L" by auto
    have "snd e ! (off + j) = wf_data s (?a + 44 + (off + j))"
      using nth_mem_bytes [OF j(2), of "wf_data s" "?a + 44"] i(3) by simp
    then show "mem_bytes (wf_data s) (?a + 44 + off) (min (?L - off) k) ! j = take k (drop off (snd e)) ! j"
      using j by (simp add: add.assoc)
  qed
  have "get_path_inode s path = Some (Some ?a, refresh s es)" using get_path_ok [OF inv fits p(1)] p(2) by simp
  moreover have "(if ?L < off + k then ?L - off else k) = min (?L - off) k" if "off < ?L" using that by auto
  moreover have "to_int32 (int (min (?L - off) k)) = int (min (?L - off) k)" using lt by (intro to_int32_id) auto
  ultimately show ?thesis using i(1,2) p(3) rd lt
    by (cases "?L \<le> off"; cases "?L < off + k")
      (simp_all add: wfs_read_def is_dir_def in_image_def min_absorb1 min_absorb2 of_nat_diff)
qed

lemma write_paths:
  assumes n: "live es n = Some e" "\<not> is_dir e"
  shows "live (es @ [dir_copy env e d]) k = (if k = n then Some (dir_copy env e d) else live es k)"
    "path_resolves es p r \<Longrightarrow> path_resolves (es @ [dir_copy env e d]) p r"
proof -
  have e: "number_of e = n" "ino_deleted (fst e) = 0"
    using n(1) by (auto simp: live_def latest_split split: option.splits if_splits)
  then show lv: "live (es @ [dir_copy env e d]) k = (if k = n then Some (dir_copy env e d) else live es k)" for k
    by (auto simp: live_append)
  have mono: "\<exists>e'. live (es @ [dir_copy env e d]) n0 = Some e' \<and> is_dir e' \<and> wf_dir (snd e') \<and>
      map_of (dents (snd e0)) \<subseteq>\<^sub>m map_of (dents (snd e'))"
    if "live es n0 = Some e0" "is_dir e0" "wf_dir (snd e0)" for n0 e0
    using that n lv [of n0] by (intro exI [of _ e0]) auto
  assume p: "path_resolves es p r"
  then obtain root where "live es 0 = Some root" "is_dir root" by (auto simp: path_resolves_def)
  moreover from this lv [of 0] n have "live (es @ [dir_copy env e d]) 0 = Some root" by auto
  ultimately have "\<exists>root. live (es @ [dir_copy env e d]) 0 = Some root \<and> is_dir root" by blast
  with p show "path_resolves (es @ [dir_copy env e d]) p r"
    using resolve_mono [OF mono] by (auto simp: path_resolves_def)
qed

section \<open>Copying a directory without an entry\<close>

lemma dent_num_mem: "mem_bytes m a (length d) = d \<Longrightarrow> 40 \<le> length d \<Longrightarrow> rd64 m (a + 32) = dent_num d"
proof -
  assume d: "mem_bytes m a (length d) = d" "40 \<le> length d"
  have "m (a + i) = d ! i" if "i < 40" for i
    using that d nth_mem_bytes [of i "length d" m a] by simp
  then have "rd64 (\<lambda>i. m (a + i)) 32 = dent_num d"
    unfolding dent_num_def by (intro rd64_cong) simp
  then show ?thesis by (simp add: rd64_def rd32_def ac_simps)
qed

lemma mem_bytes_take: "mem_bytes m a (length d) = d \<Longrightarrow> k \<le> length d \<Longrightarrow> mem_bytes m a k = take k d"
  using mem_bytes_append [of m a k "length d - k"]
  by (metis append_eq_conv_conj le_add_diff_inverse length_mem_bytes)

lemma mem_bytes_drop: "mem_bytes m a (length d) = d \<Longrightarrow> k \<le> length d \<Longrightarrow> mem_bytes m (a + k) (length (drop k d)) = drop k d"
  using mem_bytes_append [of m a k "length d - k"]
  by (metis append_eq_conv_conj le_add_diff_inverse length_drop length_mem_bytes)

lemma takeWhile_take_31:
  assumes "0 \<in> set (take 32 (d :: u8 list))"
  shows "takeWhile (\<lambda>b. b \<noteq> 0) (take 31 d) = takeWhile (\<lambda>b. b \<noteq> 0) (take 32 d)"
proof (cases "31 < length d")
  case True
  then have t: "take 32 d = take 31 d @ [d ! 31]" using take_Suc_conv_app_nth [of 31 d] by simp
  show ?thesis
  proof (cases "0 \<in> set (take 31 d)")
    case False
    with assms t have "d ! 31 = 0" by simp
    with t show ?thesis by (simp add: takeWhile_append)
  qed (simp add: t takeWhile_append1)
qed simp

lemma name_at_dent: "mem_bytes m a (length d) = d \<Longrightarrow> 40 \<le> length d \<Longrightarrow> 0 \<in> set (take 32 d) \<Longrightarrow> name_at m a = dent_name d"
  by (simp add: name_at_def dent_name_def MAX_FILE_NAME_LEN_def mem_bytes_take takeWhile_take_31)

lemma dent_name_ok:
  assumes "0 \<in> set (take 32 d)"
  shows "length (dent_name d) \<le> 31" "CHR 0x00 \<notin> set (dent_name d)"
proof -
  have "length (takeWhile (\<lambda>b. b \<noteq> 0) (take 31 d)) \<le> 31"
    using length_takeWhile_le [of "\<lambda>b. b \<noteq> 0" "take 31 d"] by simp
  then show "length (dent_name d) \<le> 31" using takeWhile_take_31 [OF assms] by (simp add: dent_name_def)
  have "b = 0" if "CHR 0x00 = char_of (unat b)" for b :: u8
    using that of_char_byte [of b] of_char_zero [of "CHR 0x00"] by metis
  then show "CHR 0x00 \<notin> set (dent_name d)" unfolding dent_name_def using set_takeWhileD by fastforce
qed

definition write_dents :: "(string \<times> u64) list \<Rightarrow> u8 list" where
  "write_dents xs = concat (map (\<lambda>(nm, k). dentry_bytes nm k) xs)"

lemma write_dents_simps [simp]:
  "write_dents [] = []" "write_dents ((nm, k) # xs) = dentry_bytes nm k @ write_dents xs"
  "length (write_dents xs) = 40 * length xs"
  by (simp_all add: write_dents_def, induction xs) auto

lemma dents_names: "wf_dir d \<Longrightarrow> (nm, k) \<in> set (dents d) \<Longrightarrow> length nm \<le> 31 \<and> CHR 0x00 \<notin> set nm"
proof (induction d rule: wf_dir.induct)
  case (1 d)
  show ?case
  proof (cases "d = []")
    case False
    with "1.prems" have d: "40 \<le> length d" "0 \<in> set (take 32 d)" "wf_dir (drop 40 d)" using wf_dir_nonempty by auto
    with 1 False dent_name_ok [OF d(2)] show ?thesis by (auto simp: dents.simps [of d])
  qed (use 1 in simp)
qed

lemma length_dents: "wf_dir d \<Longrightarrow> 40 * length (dents d) = length d"
proof (induction d rule: wf_dir.induct)
  case (1 d)
  show ?case
  proof (cases "d = []")
    case False
    with "1.prems" have d: "40 \<le> length d" "wf_dir (drop 40 d)" using wf_dir_nonempty by auto
    with 1 False have "40 * length (dents (drop 40 d)) = length d - 40" by simp
    with d show ?thesis by (simp add: dents.simps [of d])
  qed simp
qed

lemma dents_write_dents:
  assumes "\<forall>(nm, k) \<in> set xs. length nm \<le> 31 \<and> CHR 0x00 \<notin> set nm"
  shows "dents (write_dents xs) = xs \<and> wf_dir (write_dents xs)"
  using assms
proof (induction xs)
  case (Cons x xs)
  obtain nm k where x: "x = (nm, k)" by (cases x)
  note b = dents_dentry_bytes [of nm k]
  show ?case using Cons b dents_append [of "dentry_bytes nm k" "write_dents xs"]
      wf_dir_append [of "dentry_bytes nm k" "write_dents xs"] by (auto simp: x)
qed simp

lemma unlink_copy_dents:
  assumes "wf_dir d" "mem_bytes (wf_data s) a (length d) = d" "a + length d \<le> n" "n + length d \<le> total_size s"
    "CHR 0x00 \<notin> set fn"
  shows "\<exists>m. unlink_copy s fn a (a + length d) n found = Some (found \<or> fn \<in> fst ` set (dents d), s\<lparr>wf_data := m\<rparr>) \<and>
    mem_bytes m n (40 * length (filter (\<lambda>x. fst x \<noteq> fn) (dents d))) = write_dents (filter (\<lambda>x. fst x \<noteq> fn) (dents d))"
  using assms
proof (induction d arbitrary: s a n found rule: wf_dir.induct)
  case (1 d)
  show ?case
  proof (cases "d = []")
    case True
    then show ?thesis by (auto simp: unlink_copy.simps mem_bytes_def intro!: exI [of _ "wf_data s"])
  next
    case False
    with "1.prems"(1) have d: "40 \<le> length d" "0 \<in> set (take 32 d)" "wf_dir (drop 40 d)" using wf_dir_nonempty by auto
    note tk = mem_bytes_take [OF "1.prems"(2)] and dr = mem_bytes_drop [OF "1.prems"(2) d(1)]
    have eq: "strcmp_at s a fn = Some (dent_name d = fn)"
      using strcmp_at_name [of s a 32 fn] d tk [of 32] "1.prems" by (simp add: dent_name_def)
    have end': "a + 40 + length (drop 40 d) = a + length d" using d(1) by simp
    have ds: "dents d = (dent_name d, dent_num d) # dents (drop 40 d)" using d(1) by (simp add: dents.simps [of d])
    show ?thesis
    proof (cases "dent_name d = fn")
      case True
      have "unlink_copy s fn a (a + length d) n found = unlink_copy s fn (a + 40) (a + 40 + length (drop 40 d)) n True"
        using d(1) eq True end' False by (simp add: unlink_copy.simps [of s fn a])
      with "1.IH" [OF False _ d(3) dr, of n True] "1.prems" d(1) True ds show ?thesis by auto
    next
      case no: False
      define m1 where "m1 = write_dentry n (rd64 (wf_data s) (a + 32)) (name_at (wf_data s) a) (wf_data s)"
      have m1: "m1 = write_dentry n (dent_num d) (dent_name d) (wf_data s)"
        using dent_num_mem [OF "1.prems"(2) d(1)] name_at_dent [OF "1.prems"(2) d(1,2)] by (simp add: m1_def)
      have im: "in_image s a 40 = Some ()" "in_image s n 40 = Some ()"
        using d(1) "1.prems"(3,4) by (auto simp: in_image_def)
      have u: "unlink_copy s fn a (a + length d) n found =
          unlink_copy (s\<lparr>wf_data := m1\<rparr>) fn (a + 40) (a + 40 + length (drop 40 d)) (n + 40) found"
        using d(1) eq no end' False im by (simp add: unlink_copy.simps [of s fn a] m1_def)
      have "mem_bytes m1 (a + 40) (length (drop 40 d)) = mem_bytes (wf_data s) (a + 40) (length (drop 40 d))"
        by (rule same_on_bytes) (use "1.prems"(3) d(1) in \<open>auto intro!: same_onI simp: m1_def write_dentry_other\<close>)
      then have "mem_bytes (wf_data (s\<lparr>wf_data := m1\<rparr>)) (a + 40) (length (drop 40 d)) = drop 40 d" using dr by simp
      from "1.IH" [OF False _ d(3) this, of "n + 40" found] "1.prems" d(1) obtain m where
        m: "unlink_copy (s\<lparr>wf_data := m1\<rparr>) fn (a + 40) (a + 40 + length (drop 40 d)) (n + 40) found =
            Some (found \<or> fn \<in> fst ` set (dents (drop 40 d)), s\<lparr>wf_data := m\<rparr>)"
          "mem_bytes m (n + 40) (40 * length (filter (\<lambda>x. fst x \<noteq> fn) (dents (drop 40 d)))) =
            write_dents (filter (\<lambda>x. fst x \<noteq> fn) (dents (drop 40 d)))" by auto
      from unlink_copy_frame [OF m(1)] obtain m' where "s\<lparr>wf_data := m\<rparr> = s\<lparr>wf_data := m1, wf_data := m'\<rparr>" "\<forall>b < n + 40. m' b = m1 b"
        by auto
      then have "\<forall>b < n + 40. m b = m1 b" by (metis wfs.select_convs(1) wfs.surjective wfs.update_convs(1))
      then have "mem_bytes m n 40 = dentry_bytes (dent_name d) (dent_num d)"
        by (subst mem_bytes_cong [of 40 m n m1 n]) (simp_all add: m1 write_dentry_bytes)
      then show ?thesis using u m no ds mem_bytes_append [of m n 40] by auto
    qed
  qed
qed

text \<open>The log after file \<open>f\<close>, inode \<open>k\<close>, was removed from directory \<open>d\<close>.\<close>

lemma live_removed:
  assumes "es = xs @ f # ys" "number_of f = k" "k \<notin> number_of ` set ys" "live es d = Some e" "d \<noteq> k"
  shows "live (xs @ ((fst f)\<lparr>ino_deleted := 1\<rparr>, snd f) # ys @ [dir_copy env e c]) n =
    (if n = d then Some (dir_copy env e c) else if n = k then None else live es n)"
proof -
  let ?f = "((fst f)\<lparr>ino_deleted := 1\<rparr>, snd f)"
  have e: "number_of e = d" "ino_deleted (fst e) = 0"
    using assms(4) by (auto simp: live_def latest_split split: option.splits if_splits)
  have f: "number_of ?f = k" using assms(2) by (simp add: number_of_def)
  have ly: "latest ys k = None" using assms(3) by (simp add: latest_None)
  have "latest (xs @ [?f] @ ys) n = (if n = k then Some ?f else latest (xs @ [f] @ ys) n)"
    using f assms(2) ly unfolding latest_append by (auto split: option.splits)
  then have "live (xs @ ?f # ys) n = (if n = k then None else live es n)"
    using assms(1) by (simp add: live_def)
  then show ?thesis using live_append [of "xs @ ?f # ys" "dir_copy env e c" n] e assms(5) by simp
qed

lemma removed_paths:
  assumes d: "live es d = Some e" "is_dir e" "wf_dir (snd e)" "map_of (dents (snd e)) name = Some j"
    and k: "k = ucast j" "live es k = Some f" "\<not> is_dir f"
    and c: "wf_dir c" "dents c = filter (\<lambda>x. fst x \<noteq> name) (dents (snd e))"
    and lv: "\<And>n. live es' n = (if n = d then Some (dir_copy env e c) else if n = k then None else live es n)"
    and p: "path_resolves es p n" "n \<noteq> k"
  shows "path_resolves es' p n"
proof -
  have mc: "map_of (dents c) t = map_of (dents (snd e)) t" if "t \<noteq> name" for t
  proof -
    have "map_of (filter (\<lambda>x. fst x \<noteq> name) xs) t = map_of xs t" for xs :: "(string \<times> u64) list"
      using that by (induction xs) auto
    then show ?thesis by (simp add: c(2))
  qed
  have step: "resolve (live es') ts m = Some n" if "resolve (live es) ts m = Some n" for ts m
    using that
  proof (induction ts arbitrary: m)
    case (Cons t ts)
    then obtain e0 j0 where e0: "live es m = Some e0" "is_dir e0" "wf_dir (snd e0)" "map_of (dents (snd e0)) t = Some j0"
        "resolve (live es) ts (ucast j0) = Some n" by (auto split: if_splits option.splits)
    have "m \<noteq> k" using e0 k by auto
    show ?case
    proof (cases "m = d")
      case True
      with d e0 have "e0 = e" by simp
      have "t \<noteq> name"
      proof
        assume "t = name"
        with \<open>e0 = e\<close> e0 d k(1) have "resolve (live es) ts k = Some n" by simp
        with k p(2) show False by (cases ts) auto
      qed
      with True \<open>e0 = e\<close> e0 mc Cons.IH [OF e0(5)] lv [of m] c d show ?thesis by simp
    next
      case False
      with e0 Cons.IH [OF e0(5)] lv [of m] \<open>m \<noteq> k\<close> show ?thesis by simp
    qed
  qed simp
  obtain root where root: "live es 0 = Some root" "is_dir root" using p(1) by (auto simp: path_resolves_def)
  have "0 \<noteq> k" using root k by auto
  then have "\<exists>root. live es' 0 = Some root \<and> is_dir root"
    using root lv [of 0] d(2) by (cases "d = 0") (metis is_dir_copy(1))+
  with p(1) step show ?thesis by (auto simp: path_resolves_def)
qed

lemma filter_distinct_length:
  assumes "distinct (map fst xs)" "y \<in> fst ` set xs"
  shows "Suc (length (filter (\<lambda>x. fst x \<noteq> y) xs)) = length xs"
  using assms
proof (induction xs)
  case (Cons x xs)
  show ?case
  proof (cases "fst x = y")
    case True
    with Cons.prems have "\<forall>z \<in> set xs. fst z \<noteq> y"
      by (metis distinct.simps(2) image_eqI list.set_map list.simps(9))
    then have "filter (\<lambda>x. fst x \<noteq> y) xs = xs" by (simp add: filter_id_conv)
    with True show ?thesis by simp
  next
    case False
    with Cons show ?thesis by auto
  qed
qed simp

lemma unlink_removes_log:
  assumes inv: "log_inv s es" and d: "path_resolves es path d" "live es d = Some e" "is_dir e" "wf_dir (snd e)"
      "distinct (map fst (dents (snd e)))" "map_of (dents (snd e)) name = Some j"
    and k: "live es (ucast j) = Some f" "\<not> is_dir f"
    and name: "name \<noteq> []" "CHR ''/'' \<notin> set name" "CHR 0x00 \<notin> set name"
    and room: "8 + log_len es + 44 + length (snd e) \<le> total_size s"
  shows "\<exists>s' xs ys c. wfs_unlink env s (path @ CHR ''/'' # name) = Some (0, s') \<and> es = xs @ f # ys \<and>
    ucast j \<notin> number_of ` set ys \<and> total_size s' = total_size s \<and> wf_dir c \<and>
    dents c = filter (\<lambda>x. fst x \<noteq> name) (dents (snd e)) \<and>
    log_inv s' (xs @ ((fst f)\<lparr>ino_deleted := 1\<rparr>, snd f) # ys @ [dir_copy env e c])"
proof -
  let ?k = "ucast j :: u32" and ?p = "path @ CHR ''/'' # name" and ?ds = "filter (\<lambda>x. fst x \<noteq> name) (dents (snd e))"
  have fits: "8 + log_len es \<le> total_size s" using room by simp
  have inv': "log_inv (refresh s es) es" using inv by simp
  have "latest es ?k = Some f" using k(1) by (auto simp: live_def split: option.splits if_splits)
  then obtain xs ys where es: "es = xs @ f # ys" "?k \<notin> number_of ` set ys" by (auto simp: latest_split)
  have "tokens ''/'' ?p = tokens ''/'' path @ [name]" using name by (intro tokens_snoc) auto
  then have pr: "path_resolves es ?p ?k" using d name by (auto simp: path_resolves_def resolve_append)
  have "get_path_inode s ?p = Some (Some (addr_of es ?k), refresh s es)"
    using get_path_ok [OF inv fits pr] k(1) by simp
  moreover have "get_path_inode (refresh s es) (if path = [] then ''/'' else path) = Some (Some (addr_of es d), refresh s es)"
    using get_path_ok [OF inv', of "if path = [] then ''/'' else path" d] fits d by (simp add: path_resolves_root)
  moreover have "unlink_dir env (addr_of es ?k) name (Some (addr_of es d)) (refresh s es) =
      remove_entry env (refresh s es) (addr_of es ?k) (addr_of es d) name"
    using d(2,3) rd_inode_live [OF inv d(2)] by (simp add: unlink_dir_def is_dir_def)
  ultimately have call: "wfs_unlink env s ?p = remove_entry env (refresh s es) (addr_of es ?k) (addr_of es d) name"
    by (simp add: wfs_unlink_def split_path_last [OF name(2)])
  let ?a = "addr_of es d" and ?H = "8 + log_len es"
  note la = live_at [OF inv d(2)] and lk = live_at [OF inv k(1)]
  have ae: "?a + 44 + length (snd e) \<le> ?H" using la(4) by (simp add: entry_len_def)
  define s1 where "s1 = (refresh s es)\<lparr>wf_data := wfsincpy (env_time env) ?a ?H (wf_data s)\<rparr>"
  have "mem_bytes (wf_data s1) (?a + 44) (length (snd e)) = mem_bytes (wf_data s) (?a + 44) (length (snd e))"
    by (rule same_on_bytes) (use ae in \<open>auto intro!: same_onI simp: s1_def wfsincpy_other\<close>)
  also have "\<dots> = snd e" using la(2) by (simp add: entry_at_def)
  finally have mb: "mem_bytes (wf_data s1) (?a + 44) (length (snd e)) = snd e" .
  have "name \<in> fst ` set (dents (snd e))" using d(6) by (force dest: map_of_SomeD)
  with unlink_copy_dents [OF d(4) mb, of "?H + 44" name False] ae room name(3) obtain m where
    m: "unlink_copy s1 name (?a + 44) (?a + 44 + length (snd e)) (?H + 44) False = Some (True, s1\<lparr>wf_data := m\<rparr>)"
      "mem_bytes m (?H + 44) (40 * length ?ds) = write_dents ?ds" by (auto simp: s1_def)
  have len: "length (snd e) - 40 = 40 * length ?ds"
    using filter_distinct_length [OF d(5) \<open>name \<in> fst ` set (dents (snd e))\<close>] length_dents [OF d(4)] by simp
  have wsz: "rd_inode (wf_data s1) ?a = fst e" "unat (ino_size (fst e)) = length (snd e)"
    using la(2) ae by (simp_all add: s1_def wfsincpy_rd_inode entry_at_def)
  have "\<exists>z. remove_entry env (refresh s es) (addr_of es ?k) ?a name = Some (0, z)"
  proof -
    have H: "unat (sb_head (wf_data s)) = ?H" using inv by (simp add: log_inv_def)
    define m3 where "m3 = (let m = wr32 m (?H + 24) (ino_size (rd_inode m ?H) - 40) in
        wr32 m 4 (sb_head m + 44 + ino_size (rd_inode m ?H)))"
    have "ino_number (rd_inode (wr32 m3 (addr_of es ?k + 4) 1) (addr_of es ?k)) = ino_number (fst f)"
    proof -
      from unlink_copy_frame [OF m(1)] obtain m' where m': "s1\<lparr>wf_data := m\<rparr> = s1\<lparr>wf_data := m'\<rparr>" "\<forall>b < ?H + 44. m' b = wf_data s1 b"
        by blast
      have "m = m'" using m'(1) by (metis wfs.select_convs(1) wfs.surjective wfs.update_convs(1))
      then have "m3 b = wf_data s b" if "8 \<le> b" "b < ?H" for b
        using that m'(2) by (simp add: m3_def Let_def s1_def mem_frame)
      then have "rd_inode m3 (addr_of es ?k) = rd_inode (wf_data s) (addr_of es ?k)"
        using lk(3,4) by (intro rd_inode_same) (auto simp: same_on_def entry_len_def)
      then show ?thesis using rd_inode_live [OF inv k(1)] by (simp add: rd_inode_wr_times)
    qed
    then show ?thesis
      using m(1) wsz lk(6) room by (simp add: remove_entry_def Let_def H in_image_def m3_def s1_def)
  qed
  then obtain s' where s': "remove_entry env (refresh s es) (addr_of es ?k) ?a name = Some (0, s')" by blast
  have dir: "ino_mode (fst e) AND S_IFDIR \<noteq> 0" using d(3) by (simp add: is_dir_def)
  from remove_entry_log [OF inv' d(2) dir k(1) es s'] m len obtain c where
    c: "c = write_dents ?ds" "log_inv s' (xs @ ((fst f)\<lparr>ino_deleted := 1\<rparr>, snd f) # ys @ [dir_copy env e c])"
      "total_size s' = total_size s"
    by (auto simp: s1_def ENOENT_def dest: arg_cong [of _ _ wf_data])
  have "\<forall>(nm, k) \<in> set ?ds. length nm \<le> 31 \<and> CHR 0x00 \<notin> set nm" using dents_names [OF d(4)] by auto
  from dents_write_dents [OF this] c call s' es show ?thesis by auto
qed

text \<open>The file system as a state machine, from a fresh image on.\<close>

interpretation ws: transition_system "\<lambda>s. \<exists>n now m. 52 \<le> n \<and> n < 2 ^ 30 \<and> s = mount_image (initialize_file_system now m) n"
  wfs_step "\<lambda>s. \<exists>es. log_inv s es"
  by unfold_locales (blast intro: mkfs_inv wfs_step_inv)+

section \<open>Properties\<close>

text \<open>C17. Whatever operations are performed on a file system made by \<open>mkfs\<close>, in any order and
  with any arguments, the image stays a well-formed log: the superblock's head is the end of a
  sequence of entries whose sizes add up, every inode number fits the table of inodes, the root is
  there and every directory holds whole entries.\<close>

theorem wfs_log_invariant:
  assumes "52 \<le> n" "n < 2 ^ 30" "wfs_step\<^sup>*\<^sup>* (mount_image (initialize_file_system now m) n) s"
  shows "\<exists>es. log_inv s es"
  using ws.reachable_inv [OF _ assms(3)] assms(1,2) by blast

text \<open>\<open>get_number_inode\<close> scans the whole log and returns the latest entry of the inode it is
  asked for, a null pointer if that entry is marked as deleted; for an inode that has no entry it
  dereferences a null pointer. The image is not changed.\<close>

theorem get_number_inode_correct:
  assumes "log_inv s es"
  shows "get_number_inode s n = (case latest es n of
      None \<Rightarrow> None
    | Some e \<Rightarrow> Some (if ino_deleted (fst e) = 0 then Some (addr_of es n) else None, refresh s es)) \<and>
    wf_data (refresh s es) = wf_data s"
  using get_number_inode_cases [OF assms, of n] by (simp add: live_def split: option.splits)

text \<open>C21. Creating a file whose name is new in an existing directory succeeds when there is room:
  afterwards \<open>getattr\<close> finds the file, empty, a regular file of the caller, and every path that
  could be resolved before still leads to the same inode.\<close>

theorem mknod_creates:
  assumes inv: "log_inv s es" and d: "path_resolves es path d" "live es d = Some e" "is_dir e" "wf_dir (snd e)"
    and name: "name \<notin> fst ` set (dents (snd e))" "name \<noteq> []" "CHR ''/'' \<notin> set name" "CHR 0x00 \<notin> set name" "length name \<le> 31"
    and i: "List.find (\<lambda>i. all_le (refresh s es) i = 0) [0..<256] = Some i"
    and room: "8 + log_len es + 128 + length (snd e) \<le> total_size s"
  shows "\<exists>s' es' s''. wfs_mknod env s (path @ CHR ''/'' # name) = Some (0, s') \<and> log_inv s' es' \<and>
    wfs_getattr s' (path @ CHR ''/'' # name) = Some (0, Some \<lparr>st_uid = env_uid env, st_gid = env_gid env,
      st_mtime = env_time env, st_mode = S_IFREG, st_nlink = 1, st_size = 0\<rparr>, s'') \<and>
    (\<forall>p n. path_resolves es p n \<longrightarrow> path_resolves es' p n)"
proof -
  let ?i = "word_of_nat i :: u32"
  from make_node_adds [OF inv d name(1-4) i room, of S_IFREG env] obtain s' where
    s': "wfs_mknod env s (path @ CHR ''/'' # name) = Some (0, s')" "total_size s' = total_size s"
      "log_inv s' (added env S_IFREG es e name ?i)" and free: "live es ?i = None"
    unfolding wfs_mknod_def by blast
  let ?es = "added env S_IFREG es e name ?i"
  note ap = added_paths [OF d(2-4) free name]
  have lv: "live ?es ?i = Some (fresh_inode env S_IFREG ?i, [])" using live_added [OF d(2) free] by simp
  have "8 + log_len ?es \<le> total_size s'" using room s'(2) by (simp add: added_def entry_len_def)
  from get_path_ok [OF s'(3) this ap(2) [OF d(1)]] lv rd_inode_live [OF s'(3) lv]
  have "wfs_getattr s' (path @ CHR ''/'' # name) = Some (0, Some \<lparr>st_uid = env_uid env, st_gid = env_gid env,
      st_mtime = env_time env, st_mode = S_IFREG, st_nlink = 1, st_size = 0\<rparr>, refresh s' ?es)"
    by (simp add: wfs_getattr_def fresh_inode_def)
  with s' ap(1) show ?thesis by blast
qed

text \<open>C20. What is written is what is read: a write within or at the end of a regular file returns the
  number of bytes, and afterwards every read of the file returns the bytes of the old contents
  overwritten at the offset; all other inodes are unchanged and all paths resolve as before.\<close>

theorem write_then_read:
  assumes inv: "log_inv s es" and p: "path_resolves es path n" "live es n = Some e" "\<not> is_dir e"
    and off: "off \<le> length (snd e)" and room: "8 + log_len es + 44 + length (snd e) + length bytes \<le> total_size s"
  shows "\<exists>s' es'. wfs_write env s path (Some bytes) off = Some (int (length bytes), s') \<and> log_inv s' es' \<and>
    (\<forall>k o'. \<exists>s''. wfs_read env' s' path True k o' =
       Some (int (length (take k (drop o' (overwrite (snd e) off bytes)))), take k (drop o' (overwrite (snd e) off bytes)), s'')) \<and>
    (\<forall>k. k \<noteq> n \<longrightarrow> live es' k = live es k) \<and> (\<forall>q k. path_resolves es q k \<longrightarrow> path_resolves es' q k)"
proof -
  have fits: "8 + log_len es \<le> total_size s" using room by simp
  have inv': "log_inv (refresh s es) es" using inv by simp
  have reg: "ino_mode (fst e) AND S_IFDIR = 0" using p(3) by (simp add: is_dir_def)
  let ?es = "es @ [dir_copy env e (overwrite (snd e) off bytes)]"
  from write_entry_room [OF inv' p(2) reg off, of bytes env] room obtain m where
    m: "write_entry env (refresh s es) (addr_of es n) bytes off = Some (int (length bytes), (refresh s es)\<lparr>wf_data := m\<rparr>)"
      "log_inv ((refresh s es)\<lparr>wf_data := m\<rparr>) ?es" by auto
  have "get_path_inode s path = Some (Some (addr_of es n), refresh s es)" using get_path_ok [OF inv fits p(1)] p(2) by simp
  moreover have "rd_inode (wf_data s) (addr_of es n) = fst e" "unat (ino_size (fst e)) = length (snd e)"
    using live_at(2) [OF inv p(2)] by (simp_all add: entry_at_def)
  ultimately have w: "wfs_write env s path (Some bytes) off = Some (int (length bytes), (refresh s es)\<lparr>wf_data := m\<rparr>)"
    using m(1) reg off by (simp add: wfs_write_def)
  note wp = write_paths [OF p(2,3), where env = env and d = "overwrite (snd e) off bytes"]
  have "8 + log_len ?es \<le> total_size ((refresh s es)\<lparr>wf_data := m\<rparr>)" using room off by (simp add: entry_len_def)
  from wfs_read_ok [OF m(2) this wp(2) [OF p(1)], of "dir_copy env e (overwrite (snd e) off bytes)" env'] wp(1) p(3)
  have "\<forall>k o'. \<exists>s''. wfs_read env' ((refresh s es)\<lparr>wf_data := m\<rparr>) path True k o' =
      Some (int (length (take k (drop o' (overwrite (snd e) off bytes)))), take k (drop o' (overwrite (snd e) off bytes)), s'')"
    by simp
  moreover have "\<forall>k. k \<noteq> n \<longrightarrow> live ?es k = live es k" using wp(1) by simp
  ultimately show ?thesis using w m(2) wp(2) by blast
qed

text \<open>C22. Removing a regular file from a directory without duplicate names succeeds: afterwards
  \<open>getattr\<close> reports that the path does not exist, every path to another inode still leads to it,
  and all inodes but the file and its directory are unchanged.\<close>

theorem unlink_removes:
  assumes inv: "log_inv s es" and d: "path_resolves es path d" "live es d = Some e" "is_dir e" "wf_dir (snd e)"
      "distinct (map fst (dents (snd e)))" "map_of (dents (snd e)) name = Some j"
    and k: "live es (ucast j) = Some f" "\<not> is_dir f"
    and name: "name \<noteq> []" "CHR ''/'' \<notin> set name" "CHR 0x00 \<notin> set name"
    and room: "8 + log_len es + 44 + length (snd e) \<le> total_size s"
  shows "\<exists>s' es' s''. wfs_unlink env s (path @ CHR ''/'' # name) = Some (0, s') \<and> log_inv s' es' \<and>
    wfs_getattr s' (path @ CHR ''/'' # name) = Some (- ENOENT, None, s'') \<and>
    (\<forall>p n. path_resolves es p n \<and> n \<noteq> ucast j \<longrightarrow> path_resolves es' p n) \<and>
    (\<forall>n. n \<noteq> d \<and> n \<noteq> ucast j \<longrightarrow> live es' n = live es n)"
proof -
  let ?k = "ucast j :: u32"
  from unlink_removes_log [OF assms] obtain s' xs ys c where s': "wfs_unlink env s (path @ CHR ''/'' # name) = Some (0, s')"
      and es: "es = xs @ f # ys" "?k \<notin> number_of ` set ys" "total_size s' = total_size s"
      and c: "wf_dir c" "dents c = filter (\<lambda>x. fst x \<noteq> name) (dents (snd e))"
      and inv': "log_inv s' (xs @ ((fst f)\<lparr>ino_deleted := 1\<rparr>, snd f) # ys @ [dir_copy env e c])" by blast
  let ?es = "xs @ ((fst f)\<lparr>ino_deleted := 1\<rparr>, snd f) # ys @ [dir_copy env e c]"
  have dk: "d \<noteq> ?k" using d k by auto
  have "number_of f = ?k" using live_at(8) [OF inv k(1)] .
  note lv = live_removed [OF es(1) this es(2) d(2) dk, of env c]
  note rp = removed_paths [OF d(2,3,4,6) refl k c lv]
  have "length c \<le> length (snd e)"
    using mult_le_mono2 [OF length_filter_le [of "\<lambda>x. fst x \<noteq> name" "dents (snd e)"], of 40]
    unfolding length_dents [OF d(4)] c(2) [symmetric] length_dents [OF c(1)] .
  then have "8 + log_len ?es \<le> total_size s'" using room es by (simp add: entry_len_def)
  moreover have "name \<notin> fst ` set (dents (snd (dir_copy env e c)))" using c(2) by auto
  ultimately have "get_path_inode s' (path @ CHR ''/'' # name) = Some (None, refresh s' ?es)"
    using get_path_missing [OF inv', of path d "dir_copy env e c" name] rp [OF d(1) dk] lv [of d] d(3) c(1) name by simp
  then have "wfs_getattr s' (path @ CHR ''/'' # name) = Some (- ENOENT, None, refresh s' ?es)"
    by (simp add: wfs_getattr_def)
  with s' inv' rp lv show ?thesis by (intro exI [of _ s'] exI [of _ ?es] exI [of _ "refresh s' ?es"]) auto
qed

text \<open>The error for an existing file is never reported: \<open>mknod\<close> and \<open>mkdir\<close> test whether the
  entry they found is deleted, and a lookup never returns a deleted entry.\<close>

theorem mknod_never_EEXIST:
  assumes "log_inv s es" "wfs_mknod env s path = Some (r, s') \<or> wfs_mkdir env s path = Some (r, s')"
  shows "r \<in> {0, - ENOENT, - ENOSPC}"
proof -
  have add: "r \<in> {0, - ENOSPC}" if "add_node env mode s2 a nm = Some (r, s')" for mode s2 a nm
    using that by (auto simp: add_node_def Let_def bind_eq_Some_conv split: if_splits)
  have dir: "r \<in> {0, - ENOENT, - ENOSPC}" if "make_node_dir mode env nm c s2 = Some (r, s')" for mode nm c s2
    using that add by (fastforce simp: make_node_dir_def split: option.splits if_splits)
  have "r \<in> {0, - ENOENT, - ENOSPC}" if "make_node mode env s path = Some (r, s')" for mode
    using make_node_eq [OF assms(1) that] dir by (auto simp: bind_eq_Some_conv split: option.splits)
  with assms(2) show ?thesis by (auto simp: wfs_mknod_def wfs_mkdir_def)
qed

section \<open>Witnesses\<close>

definition sample_fs :: wfs where
  "sample_fs = mount_image (initialize_file_system 7 (\<lambda>_. 0)) 1000"

definition sample_log :: "entry list" where
  "sample_log = [(root_inode 7, [])]"

definition sample_wenv :: wfs_env where
  "sample_wenv = \<lparr>env_time = 9, env_uid = 1, env_gid = 2\<rparr>"

lemma sample_fs_log: "log_inv sample_fs sample_log" "total_size sample_fs = 1000" "log_len sample_log = 44"
  using mkfs_inv [of 1000 7 "\<lambda>_. 0"] by (simp_all add: sample_fs_def sample_log_def mount_image_def entry_len_def)

lemma sample_root:
  "live sample_log 0 = Some (root_inode 7, [])" "is_dir (root_inode 7, [])" "path_resolves sample_log [] 0"
  by (simp_all add: sample_log_def live_def number_of_def root_inode_def is_dir_def S_IFDIR_def path_resolves_def)

lemma sample_free: "List.find (\<lambda>i. all_le (refresh sample_fs sample_log) i = 0) [0..<256] = Some 1"
proof -
  have "[0..<256] = [0..<2] @ [2..<256 :: nat]" using upt_add_eq_append [of 0 2 254] by simp
  also have "[0..<2] = [0, 1 :: nat]" by (simp add: upt_rec)
  finally show ?thesis by (simp add: sample_fs_def sample_log_def mount_image_def number_of_def root_inode_def)
qed

theorem wfs_log_invariant_witness:
  "\<exists>s es. wfs_step\<^sup>*\<^sup>* sample_fs s \<and> s \<noteq> sample_fs \<and> log_inv s es"
proof -
  from make_node_adds [OF sample_fs_log(1) sample_root(3,1,2), of "''a''" 1 S_IFREG sample_wenv] sample_free sample_fs_log
  obtain s' where s': "wfs_mknod sample_wenv sample_fs (''/a'') = Some (0, s')"
      "log_inv s' (added sample_wenv S_IFREG sample_log (root_inode 7, []) ''a'' 1)"
    by (auto simp: wfs_mknod_def)
  then have st: "wfs_step\<^sup>*\<^sup>* (mount_image (initialize_file_system 7 (\<lambda>_. 0)) 1000) s'"
    by (auto simp: sample_fs_def intro: wfs_step.op_mknod)
  have "unat (sb_head (wf_data s')) \<noteq> unat (sb_head (wf_data sample_fs))"
    using s'(2) sample_fs_log(1) by (simp add: log_inv_def added_def sample_log_def entry_len_def)
  then have "s' \<noteq> sample_fs" by auto
  with wfs_log_invariant [OF _ _ st] st show ?thesis by (auto simp: sample_fs_def)
qed

theorem get_number_inode_correct_witness:
  "\<exists>s. get_number_inode sample_fs 0 = Some (Some 8, s) \<and> get_number_inode sample_fs 1 = None"
  using get_number_inode_correct [OF sample_fs_log(1), of 0] get_number_inode_correct [OF sample_fs_log(1), of 1]
  by (simp add: sample_log_def number_of_def root_inode_def addr_of_def)

theorem mknod_creates_witness:
  "\<exists>s' s''. wfs_mknod sample_wenv sample_fs ''/a'' = Some (0, s') \<and>
    wfs_getattr s' ''/a'' = Some (0, Some \<lparr>st_uid = 1, st_gid = 2, st_mtime = 9, st_mode = S_IFREG, st_nlink = 1,
      st_size = 0\<rparr>, s'')"
  using mknod_creates [OF sample_fs_log(1) sample_root(3,1,2), of "''a''" 1 sample_wenv] sample_free sample_fs_log
  by (simp add: sample_wenv_def) blast

lemma sample_file:
  "\<exists>s. log_inv s (added sample_wenv S_IFREG sample_log (root_inode 7, []) ''a'' 1) \<and> total_size s = 1000"
  using make_node_adds [OF sample_fs_log(1) sample_root(3,1,2), of "''a''" 1 S_IFREG sample_wenv] sample_free sample_fs_log
  by auto

lemma sample_file_paths:
  "path_resolves (added sample_wenv S_IFREG sample_log (root_inode 7, []) ''a'' 1) ''/a'' 1"
  "path_resolves (added sample_wenv S_IFREG sample_log (root_inode 7, []) ''a'' 1) [] 0"
  "live (added sample_wenv S_IFREG sample_log (root_inode 7, []) ''a'' 1) 1 = Some (fresh_inode sample_wenv S_IFREG 1, [])"
  "live (added sample_wenv S_IFREG sample_log (root_inode 7, []) ''a'' 1) 0 =
     Some (dir_copy sample_wenv (root_inode 7, []) (dentry_bytes ''a'' 1))"
  "log_len (added sample_wenv S_IFREG sample_log (root_inode 7, []) ''a'' 1) = 172"
proof -
  have l1: "live sample_log 1 = None" by (simp add: sample_log_def live_def number_of_def root_inode_def)
  note ap = added_paths [OF sample_root(1,2) _ l1, where name = "''a''" and env = sample_wenv and mode = S_IFREG]
  from ap(2) [of "[]"] sample_root(3)
  show "path_resolves (added sample_wenv S_IFREG sample_log (root_inode 7, []) ''a'' 1) ''/a'' 1" by simp
  from ap(1) [of "[]" 0] sample_root(3)
  show "path_resolves (added sample_wenv S_IFREG sample_log (root_inode 7, []) ''a'' 1) [] 0" by simp
  note lv = live_added [OF sample_root(1) l1, of sample_wenv S_IFREG "''a''"]
  show "live (added sample_wenv S_IFREG sample_log (root_inode 7, []) ''a'' 1) 1 = Some (fresh_inode sample_wenv S_IFREG 1, [])"
    using lv [of 1] by simp
  show "live (added sample_wenv S_IFREG sample_log (root_inode 7, []) ''a'' 1) 0 =
     Some (dir_copy sample_wenv (root_inode 7, []) (dentry_bytes ''a'' 1))" using lv [of 0] by simp
  show "log_len (added sample_wenv S_IFREG sample_log (root_inode 7, []) ''a'' 1) = 172"
    by (simp add: added_def sample_log_def entry_len_def)
qed

lemma reg_not_dir: "\<not> is_dir (fresh_inode env S_IFREG i, d)"
  by (simp add: is_dir_def S_IFREG_def S_IFDIR_def)

theorem write_then_read_witness:
  "\<exists>s s' s''. wfs_write sample_wenv s ''/a'' (Some [1, 2, 3]) 0 = Some (3, s') \<and>
     wfs_read sample_wenv s' ''/a'' True 2 1 = Some (2, [2, 3], s'')"
proof -
  obtain s where s: "log_inv s (added sample_wenv S_IFREG sample_log (root_inode 7, []) ''a'' 1)" "total_size s = 1000"
    using sample_file by blast
  from write_then_read [OF s(1) sample_file_paths(1,3) reg_not_dir, of 0 "[1, 2, 3]" sample_wenv sample_wenv]
  obtain s' where s': "wfs_write sample_wenv s ''/a'' (Some [1, 2, 3]) 0 = Some (3, s')"
      "\<forall>k o'. \<exists>s''. wfs_read sample_wenv s' ''/a'' True k o' =
         Some (int (length (take k (drop o' (overwrite [] 0 [1, 2, 3])))), take k (drop o' (overwrite [] 0 [1, 2, 3])), s'')"
    using s(2) sample_file_paths(5) by auto
  from spec [OF spec [OF s'(2), of 2], of 1] s'(1) show ?thesis by (auto simp: overwrite_def)
qed

theorem unlink_removes_witness:
  "\<exists>s s' s''. wfs_unlink sample_wenv s ''/a'' = Some (0, s') \<and> wfs_getattr s' ''/a'' = Some (- ENOENT, None, s'')"
proof -
  obtain s where s: "log_inv s (added sample_wenv S_IFREG sample_log (root_inode 7, []) ''a'' 1)" "total_size s = 1000"
    using sample_file by blast
  have d: "is_dir (dir_copy sample_wenv (root_inode 7, []) (dentry_bytes ''a'' 1))" using sample_root(2) by simp
  note de = dents_dentry_bytes [of "''a''" 1, simplified]
  have j: "ucast (1 :: u64) = (1 :: u32)" by simp
  have "8 + log_len (added sample_wenv S_IFREG sample_log (root_inode 7, []) ''a'' 1) + 44 +
      length (snd (dir_copy sample_wenv (root_inode 7, []) (dentry_bytes ''a'' 1))) \<le> total_size s"
    by (simp add: s(2) sample_file_paths(5))
  from unlink_removes [OF s(1) sample_file_paths(2,4) d _ _ _ _ reg_not_dir [of sample_wenv 1 "[]"] _ _ _ this, where name = "''a''" and j = 1 and env = sample_wenv]
  show ?thesis unfolding j by (simp only: is_dir_copy de sample_file_paths(3)) auto
qed

theorem mknod_never_EEXIST_witness:
  "\<exists>r s'. wfs_mknod sample_wenv sample_fs ''/a'' = Some (r, s') \<and> r \<in> {0, - ENOENT, - ENOSPC}"
proof -
  from make_node_adds [OF sample_fs_log(1) sample_root(3,1,2), of "''a''" 1 S_IFREG sample_wenv] sample_free sample_fs_log
  obtain s' where s': "wfs_mknod sample_wenv sample_fs ''/a'' = Some (0, s')" by (auto simp: wfs_mknod_def)
  with mknod_never_EEXIST [OF sample_fs_log(1), of sample_wenv "''/a''" 0 s'] show ?thesis by blast
qed

end
