(* ===== verification/Spinlock.thy ===== *)
theory Spinlock
  imports Prelude
begin

text \<open>
  Spin locks and interrupt nesting of the kernel (\<^verbatim>\<open>spinlock.h\<close>, \<^verbatim>\<open>spinlock.c\<close>) as one
  CPU executes them; the machine is configured with one CPU. A lock that somebody else
  holds is never released while this CPU spins, so acquiring it has no result, nor has a
  \<^verbatim>\<open>panic\<close>. The call stacks recorded for debugging are an argument.
\<close>

section \<open>State\<close>

record cpu =
  cpu_id :: nat
  cpu_ncli :: int
  cpu_intena :: bool
  cpu_proc :: "nat option"
  cpu_IF :: bool

record spinlock =
  lk_locked :: bool
  lk_name :: string
  lk_cpu :: "nat option"
  lk_pcs :: "u32 list"

section \<open>Operations\<close>

definition initlock :: "string \<Rightarrow> spinlock \<Rightarrow> spinlock" where
  "initlock nm lk = lk\<lparr>lk_name := nm, lk_locked := False, lk_cpu := None\<rparr>"

definition mycpu :: "cpu \<Rightarrow> nat option" where
  "mycpu c = (if cpu_IF c then panic ''mycpu called with interrupts enabled'' else Some (cpu_id c))"

definition pushcli :: "cpu \<Rightarrow> cpu" where
  "pushcli c =
    (let eflags = cpu_IF c; c = c\<lparr>cpu_IF := False\<rparr>;
         c = (if cpu_ncli c = 0 then c\<lparr>cpu_intena := eflags\<rparr> else c) in
     c\<lparr>cpu_ncli := cpu_ncli c + 1\<rparr>)"

definition popcli :: "cpu \<Rightarrow> cpu option" where
  "popcli c =
    (if cpu_IF c then panic ''popcli - interruptible''
     else let c = c\<lparr>cpu_ncli := cpu_ncli c - 1\<rparr> in
       if cpu_ncli c < 0 then panic ''popcli''
       else if cpu_ncli c = 0 \<and> cpu_intena c then Some (c\<lparr>cpu_IF := True\<rparr>) else Some c)"

definition holding :: "cpu \<Rightarrow> spinlock \<Rightarrow> (bool \<times> cpu) option" where
  "holding c lk = do {
     let c = pushcli c;
     me \<leftarrow> mycpu c;
     let r = (lk_locked lk \<and> lk_cpu lk = Some me);
     c \<leftarrow> popcli c;
     Some (r, c)
   }"

definition acquire :: "u32 list \<Rightarrow> cpu \<Rightarrow> spinlock \<Rightarrow> (cpu \<times> spinlock) option" where
  "acquire pcs c lk = do {
     let c = pushcli c;
     (h, c) \<leftarrow> holding c lk;
     if h then panic ''acquire''
     else if lk_locked lk then None
     else do {
       me \<leftarrow> mycpu c;
       Some (c, lk\<lparr>lk_locked := True, lk_cpu := Some me, lk_pcs := pcs\<rparr>)
     }
   }"

definition release :: "cpu \<Rightarrow> spinlock \<Rightarrow> (cpu \<times> spinlock) option" where
  "release c lk = do {
     (h, c) \<leftarrow> holding c lk;
     if \<not> h then panic ''release''
     else do {
       let lk = lk\<lparr>lk_pcs := (lk_pcs lk)[0 := 0], lk_cpu := None, lk_locked := False\<rparr>;
       c \<leftarrow> popcli c;
       Some (c, lk)
     }
   }"

definition KERNBASE :: u32 where
  "KERNBASE = 0x80000000"

text \<open>The chain of saved frame pointers, in a memory of 32-bit words.\<close>

fun caller_chain :: "(u32 \<Rightarrow> u32) \<Rightarrow> u32 \<Rightarrow> nat \<Rightarrow> u32 list" where
  "caller_chain m ebp 0 = []"
| "caller_chain m ebp (Suc n) =
    (if ebp = 0 \<or> ebp < KERNBASE \<or> ebp = 0xffffffff then replicate (Suc n) 0
     else m (ebp + 4) # caller_chain m (m ebp) n)"

definition getcallerpcs :: "(u32 \<Rightarrow> u32) \<Rightarrow> u32 \<Rightarrow> u32 list" where
  "getcallerpcs m v = caller_chain m (v - 8) 10"

section \<open>Interrupt nesting\<close>

text \<open>What every reachable state of a CPU satisfies: interrupts are off while \<open>ncli\<close> is positive.\<close>

definition cpu_ok :: "cpu \<Rightarrow> bool" where
  "cpu_ok c = (0 \<le> cpu_ncli c \<and> (0 < cpu_ncli c \<longrightarrow> \<not> cpu_IF c))"

lemma pushcli_simps [simp]:
  "cpu_IF (pushcli c) = False" "cpu_ncli (pushcli c) = cpu_ncli c + 1" "cpu_id (pushcli c) = cpu_id c"
  "cpu_intena (pushcli c) = (if cpu_ncli c = 0 then cpu_IF c else cpu_intena c)" "cpu_proc (pushcli c) = cpu_proc c"
  by (simp_all add: pushcli_def Let_def)

lemma pop_push:
  assumes "cpu_ok c"
  shows "popcli (pushcli c) = Some (c\<lparr>cpu_intena := cpu_intena (pushcli c)\<rparr>)"
  using assms by (cases c) (auto simp: popcli_def pushcli_def cpu_ok_def Let_def)

lemma holding_eq:
  "cpu_ok c \<Longrightarrow> holding c lk = Some (lk_locked lk \<and> lk_cpu lk = Some (cpu_id c), c\<lparr>cpu_intena := cpu_intena (pushcli c)\<rparr>)"
  by (simp add: holding_def mycpu_def pop_push)

lemma push_ok: "cpu_ok c \<Longrightarrow> cpu_ok (pushcli c)"
  by (simp add: cpu_ok_def)

lemma acquire_free:
  assumes "cpu_ok c" "\<not> lk_locked lk"
  shows "acquire pcs c lk = Some (pushcli c, lk\<lparr>lk_locked := True, lk_cpu := Some (cpu_id c), lk_pcs := pcs\<rparr>)"
proof -
  have "(pushcli c)\<lparr>cpu_intena := cpu_intena (pushcli (pushcli c))\<rparr> = pushcli c"
    using assms(1) by (cases c) (auto simp: pushcli_def Let_def cpu_ok_def)
  with assms push_ok [OF assms(1)] show ?thesis
    by (simp add: acquire_def holding_eq mycpu_def)
qed

lemma acquire_blocked: "cpu_ok c \<Longrightarrow> lk_locked lk \<Longrightarrow> acquire pcs c lk = None"
  by (simp add: acquire_def holding_eq [OF push_ok])

definition unlocked :: "spinlock \<Rightarrow> spinlock" where
  "unlocked lk = lk\<lparr>lk_pcs := (lk_pcs lk)[0 := 0], lk_cpu := None, lk_locked := False\<rparr>"

lemma release_held:
  assumes "cpu_ok c" "0 < cpu_ncli c" "lk_locked lk" "lk_cpu lk = Some (cpu_id c)"
  shows "release c lk = Some (c\<lparr>cpu_ncli := cpu_ncli c - 1, cpu_IF := cpu_ncli c = 1 \<and> cpu_intena c\<rparr>, unlocked lk)"
  using assms by (cases c) (auto simp: release_def holding_eq popcli_def pushcli_def Let_def cpu_ok_def unlocked_def)

lemma release_not_held:
  "cpu_ok c \<Longrightarrow> \<not> (lk_locked lk \<and> lk_cpu lk = Some (cpu_id c)) \<Longrightarrow> release c lk = None"
  by (auto simp: release_def holding_eq)

section \<open>Sequences of lock operations\<close>

datatype lock_event = Acq nat "u32 list" | Rel nat

text \<open>One operation on a table of locks; an index outside the table is not a lock.\<close>

fun lock_step :: "lock_event \<Rightarrow> cpu \<times> spinlock list \<Rightarrow> (cpu \<times> spinlock list) option" where
  "lock_step (Acq i pcs) (c, ls) =
    (if i < length ls then do { (c, lk) \<leftarrow> acquire pcs c (ls ! i); Some (c, ls[i := lk]) } else None)"
| "lock_step (Rel i) (c, ls) =
    (if i < length ls then do { (c, lk) \<leftarrow> release c (ls ! i); Some (c, ls[i := lk]) } else None)"

fun lock_run :: "lock_event list \<Rightarrow> cpu \<times> spinlock list \<Rightarrow> (cpu \<times> spinlock list) option" where
  "lock_run [] st = Some st"
| "lock_run (e # es) st = lock_step e st \<bind> lock_run es"

definition held :: "spinlock list \<Rightarrow> nat" where
  "held ls = length (filter lk_locked ls)"

text \<open>\<open>i0\<close> is the interrupt flag before the first lock was taken.\<close>

definition lock_inv :: "bool \<Rightarrow> cpu \<times> spinlock list \<Rightarrow> bool" where
  "lock_inv i0 st = (case st of (c, ls) \<Rightarrow>
     cpu_ncli c = int (held ls) \<and> list_all (\<lambda>lk. lk_locked lk \<longrightarrow> lk_cpu lk = Some (cpu_id c)) ls \<and>
     (if held ls = 0 then cpu_IF c = i0 else \<not> cpu_IF c \<and> cpu_intena c = i0))"

lemma lock_inv_ok: "lock_inv i0 (c, ls) \<Longrightarrow> cpu_ok c"
  by (auto simp: lock_inv_def cpu_ok_def split: if_splits)

lemma held_update:
  "i < length ls \<Longrightarrow> held (ls[i := lk]) + (if lk_locked (ls ! i) then 1 else 0) = held ls + (if lk_locked lk then 1 else 0)"
proof (induction ls arbitrary: i)
  case (Cons x ls)
  then show ?case by (cases i) (auto simp: held_def split: if_splits)
qed simp

lemma held_pos: "i < length ls \<Longrightarrow> lk_locked (ls ! i) \<Longrightarrow> 0 < held ls"
  by (auto simp: held_def filter_empty_conv intro: nth_mem)

lemma lock_step_inv:
  assumes inv: "lock_inv i0 (c, ls)" and s: "lock_step e (c, ls) = Some (c', ls')"
  shows "lock_inv i0 (c', ls') \<and> length ls' = length ls \<and> cpu_id c' = cpu_id c"
proof (cases e)
  case (Acq i pcs)
  note ok = lock_inv_ok [OF inv]
  from s Acq have i: "i < length ls" by (auto split: if_splits)
  from s Acq i acquire_blocked [OF ok] have free: "\<not> lk_locked (ls ! i)" by (cases "lk_locked (ls ! i)") auto
  let ?lk = "(ls ! i)\<lparr>lk_locked := True, lk_cpu := Some (cpu_id c), lk_pcs := pcs\<rparr>"
  from s Acq i acquire_free [OF ok free] have e: "c' = pushcli c" "ls' = ls[i := ?lk]" by auto
  have "held ls' = Suc (held ls)" using held_update [OF i, of ?lk] free e by simp
  moreover have "list_all (\<lambda>lk. lk_locked lk \<longrightarrow> lk_cpu lk = Some (cpu_id c)) ls'"
    using inv set_update_subset_insert [of ls i ?lk] unfolding e(2) by (auto simp: lock_inv_def list_all_iff)
  ultimately show ?thesis using inv e by (auto simp: lock_inv_def split: if_splits)
next
  case (Rel i)
  note ok = lock_inv_ok [OF inv]
  from s Rel have i: "i < length ls" by (auto split: if_splits)
  from s Rel i release_not_held [OF ok] have h: "lk_locked (ls ! i)" "lk_cpu (ls ! i) = Some (cpu_id c)"
    by (cases "lk_locked (ls ! i) \<and> lk_cpu (ls ! i) = Some (cpu_id c)"; auto)+
  have pos: "0 < held ls" by (rule held_pos [OF i h(1)])
  then have "0 < cpu_ncli c" using inv by (simp add: lock_inv_def)
  with s Rel i release_held [OF ok _ h]
  have e: "c' = c\<lparr>cpu_ncli := cpu_ncli c - 1, cpu_IF := cpu_ncli c = 1 \<and> cpu_intena c\<rparr>" "ls' = ls[i := unlocked (ls ! i)]"
    by auto
  have "Suc (held ls') = held ls" using held_update [OF i, of "unlocked (ls ! i)"] h e by (simp add: unlocked_def)
  moreover have "list_all (\<lambda>lk. lk_locked lk \<longrightarrow> lk_cpu lk = Some (cpu_id c)) ls'"
    using inv set_update_subset_insert [of ls i "unlocked (ls ! i)"] unfolding e(2)
    by (auto simp: lock_inv_def list_all_iff unlocked_def)
  ultimately show ?thesis using inv e pos by (auto simp: lock_inv_def split: if_splits)
qed

lemma lock_run_inv:
  "lock_inv i0 (c, ls) \<Longrightarrow> lock_run es (c, ls) = Some (c', ls') \<Longrightarrow> lock_inv i0 (c', ls')"
proof (induction es arbitrary: c ls)
  case (Cons e es)
  from Cons.prems(2) obtain c1 ls1 where s: "lock_step e (c, ls) = Some (c1, ls1)" "lock_run es (c1, ls1) = Some (c', ls')"
    by (auto simp: bind_eq_Some_conv)
  with lock_step_inv [OF Cons.prems(1) s(1)] Cons.IH show ?case by blast
qed simp

section \<open>Properties\<close>

definition free_lock :: "string \<Rightarrow> spinlock" where
  "free_lock nm = \<lparr>lk_locked = False, lk_name = nm, lk_cpu = None, lk_pcs = replicate 10 0\<rparr>"

definition boot_cpu :: "bool \<Rightarrow> cpu" where
  "boot_cpu i = \<lparr>cpu_id = 0, cpu_ncli = 0, cpu_intena = False, cpu_proc = None, cpu_IF = i\<rparr>"

text \<open>Any sequence of lock operations that runs without panic or deadlock on a CPU that held no
  lock, whatever the nesting and the order of the releases: while a lock is held interrupts are
  off, \<open>ncli\<close> is the number of locks held, and when all locks are released the interrupt flag is
  what it was at the beginning.\<close>

theorem interrupts_restored:
  assumes "cpu_ncli c = 0" "held ls = 0" "lock_run es (c, ls) = Some (c', ls')"
  shows "cpu_ncli c' = int (held ls') \<and> (if held ls' = 0 then cpu_IF c' = cpu_IF c else \<not> cpu_IF c')"
proof -
  have "\<not> lk_locked (ls ! i)" if "i < length ls" for i using held_pos [OF that] assms(2) by auto
  then have "lock_inv (cpu_IF c) (c, ls)" using assms by (auto simp: lock_inv_def list_all_length)
  from lock_run_inv [OF this assms(3)] show ?thesis by (simp add: lock_inv_def split: if_splits)
qed

theorem interrupts_restored_witness:
  "\<exists>c' ls'. lock_run [Acq 0 [], Acq 1 [], Rel 0, Rel 1] (boot_cpu True, [free_lock ''a'', free_lock ''b'']) = Some (c', ls') \<and>
    cpu_ncli c' = int (held ls') \<and> (if held ls' = 0 then cpu_IF c' = True else \<not> cpu_IF c')"
proof -
  obtain c' ls' where r: "lock_run [Acq 0 [], Acq 1 [], Rel 0, Rel 1] (boot_cpu True, [free_lock ''a'', free_lock ''b'']) = Some (c', ls')"
    by (simp add: boot_cpu_def free_lock_def acquire_def release_def holding_def mycpu_def pushcli_def popcli_def Let_def)
  from interrupts_restored [OF _ _ r] r show ?thesis by (simp add: boot_cpu_def held_def free_lock_def)
qed

text \<open>Mutual exclusion on one CPU: a free lock is acquired, with interrupts off, and releasing it
  gives back the lock and the interrupt state; acquiring a lock that is held and releasing one that
  is not held do not return.\<close>

theorem acquire_release:
  assumes "cpu_ok c"
  shows "if lk_locked lk then acquire pcs c lk = None
    else \<exists>c1 lk1 c2 lk2. acquire pcs c lk = Some (c1, lk1) \<and> lk_locked lk1 \<and> \<not> cpu_IF c1 \<and>
      acquire pcs c1 lk1 = None \<and> release c1 lk1 = Some (c2, lk2) \<and> \<not> lk_locked lk2 \<and>
      cpu_ncli c2 = cpu_ncli c \<and> cpu_IF c2 = cpu_IF c \<and> release c2 lk2 = None"
proof (cases "lk_locked lk")
  case True
  then show ?thesis using acquire_blocked [OF assms] by simp
next
  case False
  let ?c1 = "pushcli c" and ?lk1 = "lk\<lparr>lk_locked := True, lk_cpu := Some (cpu_id c), lk_pcs := pcs\<rparr>"
  have a: "acquire pcs c lk = Some (?c1, ?lk1)" by (rule acquire_free [OF assms False])
  have b: "acquire pcs ?c1 ?lk1 = None" by (rule acquire_blocked [OF push_ok [OF assms]]) simp
  have n: "0 < cpu_ncli ?c1" using assms by (simp add: cpu_ok_def)
  note r = release_held [OF push_ok [OF assms] n, of ?lk1]
  have "cpu_ok (?c1\<lparr>cpu_ncli := cpu_ncli ?c1 - 1, cpu_IF := cpu_ncli ?c1 = 1 \<and> cpu_intena ?c1\<rparr>)"
    using assms by (auto simp: cpu_ok_def)
  note r2 = release_not_held [OF this, of "unlocked ?lk1"]
  have if_back: "(cpu_ncli c = 0 \<and> (if cpu_ncli c = 0 then cpu_IF c else cpu_intena c)) = cpu_IF c"
    using assms by (auto simp: cpu_ok_def)
  show ?thesis using False a b r r2 if_back by (auto simp: unlocked_def)
qed

theorem acquire_release_witness:
  "\<exists>c1 lk1. acquire [] (boot_cpu True) (free_lock ''a'') = Some (c1, lk1) \<and> \<not> cpu_IF c1"
  using acquire_release [of "boot_cpu True" "free_lock ''a''" "[]"] by (auto simp: boot_cpu_def free_lock_def cpu_ok_def)

end
