(* ===== verification/Proc.thy ===== *)
theory Proc
  imports Spinlock
begin

text \<open>
  Processes and the multi-level feedback scheduler (\<^verbatim>\<open>proc.h\<close>, \<^verbatim>\<open>proc.c\<close>, \<^verbatim>\<open>psched.h\<close>,
  \<^verbatim>\<open>sysproc.c\<close> of the scheduler project). The process table is a list, a pointer into it an
  index. Results of the memory allocator and of the virtual memory and file layers are
  arguments; calls into those layers that have effects there are recorded in \<open>k_calls\<close> in
  order. A call of \<^verbatim>\<open>swtch\<close> ends the definition it occurs in: what the process does when it
  runs again is a definition of its own (\<open>sched_in\<close>, \<open>sleep_end\<close>, \<open>forkret\<close>). The disabling of
  interrupts around the read of the current process in \<^verbatim>\<open>myproc\<close> cancels out
  (\<open>Spinlock.pop_push\<close>).
\<close>

section \<open>Data\<close>

definition NPROC :: nat where "NPROC = 64"
definition KSTACKSIZE :: nat where "KSTACKSIZE = 4096"
definition PGSIZE :: u32 where "PGSIZE = 4096"
definition INT_MAX :: int where "INT_MAX = 2 ^ 31 - 1"

datatype procstate = UNUSED | EMBRYO | SLEEPING | RUNNABLE | RUNNING | ZOMBIE

record trapframe =
  tf_edi :: u32
  tf_esi :: u32
  tf_ebp :: u32
  tf_oesp :: u32
  tf_ebx :: u32
  tf_edx :: u32
  tf_ecx :: u32
  tf_eax :: u32
  tf_gs :: u16
  tf_fs :: u16
  tf_es :: u16
  tf_ds :: u16
  tf_trapno :: u32
  tf_err :: u32
  tf_eip :: u32
  tf_cs :: u16
  tf_eflags :: u32
  tf_esp :: u32
  tf_ss :: u16

definition zero_frame :: trapframe where
  "zero_frame = \<lparr>tf_edi = 0, tf_esi = 0, tf_ebp = 0, tf_oesp = 0, tf_ebx = 0, tf_edx = 0, tf_ecx = 0, tf_eax = 0,
     tf_gs = 0, tf_fs = 0, tf_es = 0, tf_ds = 0, tf_trapno = 0, tf_err = 0, tf_eip = 0, tf_cs = 0, tf_eflags = 0,
     tf_esp = 0, tf_ss = 0\<rparr>"

abbreviation sizeof_trapframe :: nat where "sizeof_trapframe \<equiv> 76"
abbreviation sizeof_context :: nat where "sizeof_context \<equiv> 20"

text \<open>Where a process continues when the scheduler switches to it.\<close>

datatype resume = At_forkret | In_yield | In_sleep | In_exit

text \<open>\<open>p_frame\<close> is the trap frame that \<open>p_tf\<close> points to; \<open>p_resume\<close> and \<open>p_intena\<close> are what the kernel
  stack of a process that is switched out holds.\<close>

record proc =
  p_sz :: u32
  p_pgdir :: nat
  p_kstack :: nat
  p_state :: procstate
  p_pid :: int
  p_parent :: "nat option"
  p_tf :: nat
  p_frame :: trapframe
  p_context :: nat
  p_resume :: resume
  p_intena :: bool
  p_chan :: nat
  p_killed :: bool
  p_ofile :: "nat list"
  p_cwd :: nat
  p_name :: string
  p_ticks :: int
  p_priority :: int
  p_nice :: int
  p_sleep_ticks :: int
  p_total_cpu :: int

datatype kcall = KFree nat | FreeVm nat | FileDup nat | IDup nat | FileClose nat | IPut nat | BeginOp | EndOp
  | SwitchUvm nat | SwitchKvm | InitUvm nat | IInit | InitLog

record kernel =
  k_procs :: "proc list"
  k_initproc :: "nat option"
  k_nextpid :: int
  k_ticks :: u32
  k_cpu :: cpu
  k_lock :: spinlock
  k_first :: bool
  k_calls :: "kcall list"

definition kcall :: "kcall \<Rightarrow> kernel \<Rightarrow> kernel" where
  "kcall c k = k\<lparr>k_calls := k_calls k @ [c]\<rparr>"

abbreviation proc_at :: "kernel \<Rightarrow> nat \<Rightarrow> proc" where
  "proc_at k i \<equiv> k_procs k ! i"

definition upd_proc :: "nat \<Rightarrow> (proc \<Rightarrow> proc) \<Rightarrow> kernel \<Rightarrow> kernel" where
  "upd_proc i f k = k\<lparr>k_procs := (k_procs k)[i := f (proc_at k i)]\<rparr>"

definition acquire_pt :: "kernel \<Rightarrow> kernel option" where
  "acquire_pt k = do { (c, lk) \<leftarrow> acquire [] (k_cpu k) (k_lock k); Some (k\<lparr>k_cpu := c, k_lock := lk\<rparr>) }"

definition release_pt :: "kernel \<Rightarrow> kernel option" where
  "release_pt k = do { (c, lk) \<leftarrow> release (k_cpu k) (k_lock k); Some (k\<lparr>k_cpu := c, k_lock := lk\<rparr>) }"

definition myproc :: "kernel \<Rightarrow> nat option" where
  "myproc k = cpu_proc (k_cpu k)"

text \<open>Increment of an \<^verbatim>\<open>int\<close>; an overflow has no defined result.\<close>

definition inc32 :: "int \<Rightarrow> int option" where
  "inc32 x = (if x = INT_MAX then None else Some (x + 1))"

section \<open>Creating processes\<close>

definition allocproc :: "nat \<Rightarrow> kernel \<Rightarrow> (nat option \<times> kernel) option" where
  "allocproc kalloc_result k = do {
     k \<leftarrow> acquire_pt k;
     case List.find (\<lambda>i. p_state (proc_at k i) = UNUSED) [0..<NPROC] of
       None \<Rightarrow> do { k \<leftarrow> release_pt k; Some (None, k) }
     | Some i \<Rightarrow> do {
         let pid = k_nextpid k;
         next \<leftarrow> inc32 pid;
         let k = upd_proc i (\<lambda>p. p\<lparr>p_state := EMBRYO, p_pid := pid\<rparr>) (k\<lparr>k_nextpid := next\<rparr>);
         k \<leftarrow> release_pt k;
         let k = upd_proc i (\<lambda>p. p\<lparr>p_kstack := kalloc_result\<rparr>) k;
         if kalloc_result = 0 then Some (None, upd_proc i (\<lambda>p. p\<lparr>p_state := UNUSED\<rparr>) k)
         else
           let sp = kalloc_result + KSTACKSIZE - sizeof_trapframe in
           Some (Some i, upd_proc i (\<lambda>p. p\<lparr>p_tf := sp, p_context := sp - 4 - sizeof_context,
             p_resume := At_forkret\<rparr>) k)
       }
   }"

definition SEG_UCODE :: u16 where "SEG_UCODE = 3"
definition SEG_UDATA :: u16 where "SEG_UDATA = 4"
definition DPL_USER :: u16 where "DPL_USER = 3"
definition FL_IF :: u32 where "FL_IF = 0x200"

definition userinit :: "nat \<Rightarrow> nat \<Rightarrow> nat \<Rightarrow> kernel \<Rightarrow> kernel option" where
  "userinit kalloc_result setupkvm_result root_inode k = do {
     (p, k) \<leftarrow> allocproc kalloc_result k;
     let k = k\<lparr>k_initproc := p\<rparr>;
     i \<leftarrow> p;
     let k = upd_proc i (\<lambda>p. p\<lparr>p_pgdir := setupkvm_result\<rparr>) k;
     if setupkvm_result = 0 then panic ''userinit: out of memory?''
     else do {
       let k = kcall (InitUvm setupkvm_result) k;
       let ds = push_bit 3 SEG_UDATA OR DPL_USER;
       let frame = zero_frame\<lparr>tf_cs := push_bit 3 SEG_UCODE OR DPL_USER, tf_ds := ds, tf_es := ds, tf_ss := ds,
                     tf_eflags := FL_IF, tf_esp := PGSIZE, tf_eip := 0\<rparr>;
       let k = upd_proc i (\<lambda>p. p\<lparr>p_sz := PGSIZE, p_frame := frame, p_name := ''initcode'', p_cwd := root_inode\<rparr>) k;
       k \<leftarrow> acquire_pt k;
       let k = upd_proc i (\<lambda>p. p\<lparr>p_nice := 0, p_priority := 0, p_ticks := 0, p_state := RUNNABLE,
                  p_sleep_ticks := 0, p_total_cpu := 0\<rparr>) k;
       release_pt k
     }
   }"

text \<open>\<open>resize pgdir oldsz newsz\<close> is the result of \<^verbatim>\<open>allocuvm\<close> or \<^verbatim>\<open>deallocuvm\<close>.\<close>

definition growproc :: "(nat \<Rightarrow> u32 \<Rightarrow> u32 \<Rightarrow> u32) \<Rightarrow> (nat \<Rightarrow> u32 \<Rightarrow> u32 \<Rightarrow> u32) \<Rightarrow> int \<Rightarrow> kernel \<Rightarrow> (int \<times> kernel) option" where
  "growproc allocuvm deallocuvm n k = do {
     cur \<leftarrow> myproc k;
     let sz = p_sz (proc_at k cur);
     let pgdir = p_pgdir (proc_at k cur);
     let new = (if 0 < n then allocuvm pgdir sz (sz + word_of_int n)
                else if n < 0 then deallocuvm pgdir sz (sz + word_of_int n) else sz);
     if n \<noteq> 0 \<and> new = 0 then Some (-1, k)
     else Some (0, kcall (SwitchUvm cur) (upd_proc cur (\<lambda>p. p\<lparr>p_sz := new\<rparr>) k))
   }"

definition dup_files :: "nat list \<Rightarrow> nat list \<Rightarrow> nat list" where
  "dup_files old cur = map2 (\<lambda>o' f. if f \<noteq> 0 then f else o') old cur"

definition dup_calls :: "nat list \<Rightarrow> kcall list" where
  "dup_calls fs = map FileDup (filter (\<lambda>f. f \<noteq> 0) fs)"

definition fork :: "nat \<Rightarrow> nat \<Rightarrow> kernel \<Rightarrow> (int \<times> kernel) option" where
  "fork kalloc_result copyuvm_result k = do {
     cur \<leftarrow> myproc k;
     (np, k) \<leftarrow> allocproc kalloc_result k;
     case np of
       None \<Rightarrow> Some (-1, k)
     | Some i \<Rightarrow> do {
         let k = upd_proc i (\<lambda>p. p\<lparr>p_pgdir := copyuvm_result\<rparr>) k;
         if copyuvm_result = 0
         then Some (-1, upd_proc i (\<lambda>p. p\<lparr>p_kstack := 0, p_state := UNUSED\<rparr>) (kcall (KFree (p_kstack (proc_at k i))) k))
         else do {
           let curproc = proc_at k cur;
           let k = upd_proc i (\<lambda>p. p\<lparr>p_sz := p_sz curproc, p_parent := Some cur,
                      p_frame := (p_frame curproc)\<lparr>tf_eax := 0\<rparr>,
                      p_ofile := dup_files (p_ofile p) (p_ofile curproc), p_cwd := p_cwd curproc,
                      p_name := take 15 (p_name curproc)\<rparr>)
                    (k\<lparr>k_calls := k_calls k @ dup_calls (p_ofile curproc) @ [IDup (p_cwd curproc)]\<rparr>);
           let pid = p_pid (proc_at k i);
           k \<leftarrow> acquire_pt k;
           let k = upd_proc i (\<lambda>p. p\<lparr>p_state := RUNNABLE\<rparr>) k;
           k \<leftarrow> release_pt k;
           Some (pid, k)
         }
       }
   }"

section \<open>Switching\<close>

definition sched_out :: "nat \<Rightarrow> resume \<Rightarrow> kernel \<Rightarrow> kernel option" where
  "sched_out p r k = do {
     (h, c) \<leftarrow> holding (k_cpu k) (k_lock k);
     if \<not> h then panic ''sched ptable.lock''
     else if cpu_ncli (k_cpu k) \<noteq> 1 then panic ''sched locks''
     else if p_state (proc_at k p) = RUNNING then panic ''sched running''
     else if cpu_IF (k_cpu k) then panic ''sched interruptible''
     else Some (upd_proc p (\<lambda>q. q\<lparr>p_resume := r, p_intena := cpu_intena (k_cpu k)\<rparr>) k)
   }"

definition sched_in :: "nat \<Rightarrow> kernel \<Rightarrow> kernel" where
  "sched_in p k = k\<lparr>k_cpu := (k_cpu k)\<lparr>cpu_intena := p_intena (proc_at k p)\<rparr>\<rparr>"

definition yield :: "kernel \<Rightarrow> kernel option" where
  "yield k = do {
     k \<leftarrow> acquire_pt k;
     cur \<leftarrow> myproc k;
     sched_out cur In_yield (upd_proc cur (\<lambda>p. p\<lparr>p_state := RUNNABLE\<rparr>) k)
   }"

definition yield_end :: "nat \<Rightarrow> kernel \<Rightarrow> kernel option" where
  "yield_end p k = release_pt (sched_in p k)"

definition forkret :: "kernel \<Rightarrow> kernel option" where
  "forkret k = do {
     k \<leftarrow> release_pt k;
     Some (if k_first k then kcall InitLog (kcall IInit (k\<lparr>k_first := False\<rparr>)) else k)
   }"

text \<open>\<open>lk\<close> is \<^term>\<open>None\<close> for the lock of the process table itself.\<close>

definition sleep :: "nat \<Rightarrow> spinlock option \<Rightarrow> kernel \<Rightarrow> (spinlock option \<times> kernel) option" where
  "sleep chan lk k = do {
     p \<leftarrow> myproc k;
     (lk, k) \<leftarrow> (case lk of
        None \<Rightarrow> Some (None, k)
      | Some l \<Rightarrow> do {
          k \<leftarrow> acquire_pt k;
          (c, l) \<leftarrow> release (k_cpu k) l;
          Some (Some l, k\<lparr>k_cpu := c\<rparr>)
        });
     k \<leftarrow> sched_out p In_sleep (upd_proc p (\<lambda>q. q\<lparr>p_chan := chan, p_state := SLEEPING\<rparr>) k);
     Some (lk, k)
   }"

definition sleep_end :: "nat \<Rightarrow> spinlock option \<Rightarrow> kernel \<Rightarrow> (spinlock option \<times> kernel) option" where
  "sleep_end p lk k = do {
     let k = upd_proc p (\<lambda>q. q\<lparr>p_chan := 0\<rparr>) (sched_in p k);
     case lk of
       None \<Rightarrow> Some (None, k)
     | Some l \<Rightarrow> do {
         k \<leftarrow> release_pt k;
         (c, l) \<leftarrow> acquire [] (k_cpu k) l;
         Some (Some l, k\<lparr>k_cpu := c\<rparr>)
       }
   }"

section \<open>Waking, killing and ending processes\<close>

definition wake :: "proc \<Rightarrow> proc" where
  "wake p =
    (if p_state p = SLEEPING \<and> p_sleep_ticks p = 0 then p\<lparr>p_state := RUNNABLE\<rparr>
     else if p_state p = SLEEPING \<and> 0 < p_sleep_ticks p then p\<lparr>p_sleep_ticks := p_sleep_ticks p - 1\<rparr>
     else p)"

text \<open>The channel is not looked at.\<close>

definition wakeup1 :: "nat \<Rightarrow> kernel \<Rightarrow> kernel" where
  "wakeup1 chan k = k\<lparr>k_procs := map wake (k_procs k)\<rparr>"

definition wakeup :: "nat \<Rightarrow> kernel \<Rightarrow> kernel option" where
  "wakeup chan k = do { k \<leftarrow> acquire_pt k; release_pt (wakeup1 chan k) }"

definition kill :: "int \<Rightarrow> kernel \<Rightarrow> (int \<times> kernel) option" where
  "kill pid k = do {
     k \<leftarrow> acquire_pt k;
     case List.find (\<lambda>i. p_pid (proc_at k i) = pid) [0..<NPROC] of
       None \<Rightarrow> do { k \<leftarrow> release_pt k; Some (-1, k) }
     | Some i \<Rightarrow> do {
         let k = upd_proc i (\<lambda>p. p\<lparr>p_killed := True,
                    p_state := (if p_state p = SLEEPING then RUNNABLE else p_state p)\<rparr>) k;
         k \<leftarrow> release_pt k;
         Some (0, k)
       }
   }"

text \<open>The address of the table entry \<open>i\<close>, as a channel.\<close>

definition proc_chan :: "nat option \<Rightarrow> nat" where
  "proc_chan p = (case p of None \<Rightarrow> 0 | Some i \<Rightarrow> i + 1)"

definition reparent_one :: "nat \<Rightarrow> nat \<Rightarrow> kernel \<Rightarrow> kernel" where
  "reparent_one cur i k =
    (if p_parent (proc_at k i) = Some cur then
       let k = upd_proc i (\<lambda>p. p\<lparr>p_parent := k_initproc k\<rparr>) k in
       if p_state (proc_at k i) = ZOMBIE then wakeup1 (proc_chan (k_initproc k)) k else k
     else k)"

definition exit :: "kernel \<Rightarrow> kernel option" where
  "exit k = do {
     cur \<leftarrow> myproc k;
     if Some cur = k_initproc k then panic ''init exiting''
     else do {
       let k = k\<lparr>k_calls := k_calls k @ map FileClose (filter (\<lambda>f. f \<noteq> 0) (p_ofile (proc_at k cur))) @
                  [BeginOp, IPut (p_cwd (proc_at k cur)), EndOp]\<rparr>;
       let k = upd_proc cur (\<lambda>p. p\<lparr>p_ofile := map (\<lambda>_. 0) (p_ofile p), p_cwd := 0\<rparr>) k;
       k \<leftarrow> acquire_pt k;
       let k = wakeup1 (proc_chan (p_parent (proc_at k cur))) k;
       let k = fold (reparent_one cur) [0..<NPROC] k;
       sched_out cur In_exit (upd_proc cur (\<lambda>p. p\<lparr>p_state := ZOMBIE\<rparr>) k)
     }
   }"

datatype wait_result = Returns int | Sleeps

text \<open>One round of the loop of \<^verbatim>\<open>wait\<close>, entered with the lock held.\<close>

definition wait_round :: "nat \<Rightarrow> kernel \<Rightarrow> (wait_result \<times> kernel) option" where
  "wait_round cur k =
    (case List.find (\<lambda>i. p_parent (proc_at k i) = Some cur \<and> p_state (proc_at k i) = ZOMBIE) [0..<NPROC] of
       Some i \<Rightarrow> do {
         let p = proc_at k i;
         let k = upd_proc i (\<lambda>p. p\<lparr>p_kstack := 0, p_pid := 0, p_parent := None, p_name := [], p_killed := False,
                    p_state := UNUSED\<rparr>) (kcall (FreeVm (p_pgdir p)) (kcall (KFree (p_kstack p)) k));
         k \<leftarrow> release_pt k;
         Some (Returns (p_pid p), k)
       }
     | None \<Rightarrow>
         if \<not> (\<exists>i \<in> set [0..<NPROC]. p_parent (proc_at k i) = Some cur) \<or> p_killed (proc_at k cur)
         then do { k \<leftarrow> release_pt k; Some (Returns (-1), k) }
         else do { (_, k) \<leftarrow> sleep (proc_chan (Some cur)) None k; Some (Sleeps, k) })"

definition wait :: "kernel \<Rightarrow> (wait_result \<times> kernel) option" where
  "wait k = do { cur \<leftarrow> myproc k; k \<leftarrow> acquire_pt k; wait_round cur k }"

section \<open>The scheduler\<close>

text \<open>Division by two, rounding towards zero as in C.\<close>

definition half :: "int \<Rightarrow> int" where
  "half x = (if x < 0 then - ((- x) div 2) else x div 2)"

definition decay :: "proc \<Rightarrow> proc" where
  "decay p = (let t = half (p_ticks p) in p\<lparr>p_ticks := t, p_priority := half t + p_nice p\<rparr>)"

fun pick_loop :: "proc list \<Rightarrow> nat list \<Rightarrow> int \<Rightarrow> nat list \<Rightarrow> nat list" where
  "pick_loop ps [] highest chosen = chosen"
| "pick_loop ps (i # is) highest chosen =
    (if p_state (ps ! i) = RUNNABLE \<and> p_priority (ps ! i) < highest
     then pick_loop ps is (p_priority (ps ! i)) [i]
     else if p_state (ps ! i) = RUNNABLE \<and> p_priority (ps ! i) = highest
     then pick_loop ps is highest (chosen @ [i])
     else pick_loop ps is highest chosen)"

definition pick :: "proc list \<Rightarrow> nat list" where
  "pick ps = pick_loop ps [0..<NPROC] INT_MAX []"

text \<open>The scheduler's own variables are part of its state: the processes still to run in this round
  and \<open>pre_tick\<close>.\<close>

record machine =
  m_kernel :: kernel
  s_queue :: "nat list"
  s_pre_tick :: u32

definition sched_round :: "machine \<Rightarrow> machine option" where
  "sched_round m = do {
     let k = (m_kernel m)\<lparr>k_cpu := (k_cpu (m_kernel m))\<lparr>cpu_IF := True\<rparr>\<rparr>;
     k \<leftarrow> acquire_pt k;
     let again = (k_ticks k mod 100 = 0 \<and> s_pre_tick m \<noteq> k_ticks k);
     let pre = (if again then k_ticks k else s_pre_tick m);
     let k = (if again then k\<lparr>k_procs := map decay (k_procs k)\<rparr> else k);
     let chosen = pick (k_procs k);
     k \<leftarrow> (if chosen = [] then release_pt k else Some k);
     Some \<lparr>m_kernel = k, s_queue = chosen, s_pre_tick = pre\<rparr>
   }"

text \<open>The part of the inner loop before \<^verbatim>\<open>swtch\<close>, and the part after it.\<close>

definition dispatch :: "nat \<Rightarrow> kernel \<Rightarrow> kernel option" where
  "dispatch p k = do {
     let k = kcall (SwitchUvm p) (k\<lparr>k_cpu := (k_cpu k)\<lparr>cpu_proc := Some p\<rparr>\<rparr>);
     t \<leftarrow> inc32 (p_ticks (proc_at k p));
     c \<leftarrow> inc32 (p_total_cpu (proc_at k p));
     Some (upd_proc p (\<lambda>q. q\<lparr>p_state := RUNNING, p_ticks := t, p_total_cpu := c\<rparr>) k)
   }"

definition undispatch :: "kernel \<Rightarrow> kernel" where
  "undispatch k = kcall SwitchKvm (k\<lparr>k_cpu := (k_cpu k)\<lparr>cpu_proc := None\<rparr>\<rparr>)"

definition round_back :: "nat list \<Rightarrow> kernel \<Rightarrow> kernel option" where
  "round_back queue k = (if queue = [] then release_pt (undispatch k) else Some (undispatch k))"

section \<open>System calls\<close>

definition nice :: "int \<Rightarrow> kernel \<Rightarrow> (int \<times> kernel) option" where
  "nice n k = do {
     cur \<leftarrow> myproc k;
     let prev = p_nice (proc_at k cur);
     if n < 0 \<or> 20 < n then Some (-1, k)
     else Some (prev, upd_proc cur (\<lambda>p. p\<lparr>p_nice := n\<rparr>) k)
   }"

record pschedinfo =
  ps_inuse :: "int list"
  ps_priority :: "int list"
  ps_nice :: "int list"
  ps_pid :: "int list"
  ps_ticks :: "int list"

definition report_one :: "kernel \<Rightarrow> nat \<Rightarrow> pschedinfo \<Rightarrow> pschedinfo" where
  "report_one k i psi =
    (let p = proc_at k i in
     if p_state p \<noteq> UNUSED then
       psi\<lparr>ps_inuse := (ps_inuse psi)[i := 1], ps_nice := (ps_nice psi)[i := p_nice p],
           ps_pid := (ps_pid psi)[i := p_pid p], ps_priority := (ps_priority psi)[i := p_priority p],
           ps_ticks := (ps_ticks psi)[i := p_ticks p]\<rparr>
     else psi\<lparr>ps_inuse := (ps_inuse psi)[i := 0]\<rparr>)"

definition getschedstate :: "pschedinfo option \<Rightarrow> kernel \<Rightarrow> int \<times> pschedinfo option" where
  "getschedstate psi k =
    (case psi of None \<Rightarrow> (-1, None) | Some psi \<Rightarrow> (0, Some (fold (report_one k) [0..<NPROC] psi)))"

text \<open>An argument fetched from user memory is \<^term>\<open>None\<close> if it is not in the process's memory.\<close>

definition sys_kill :: "int option \<Rightarrow> kernel \<Rightarrow> (int \<times> kernel) option" where
  "sys_kill arg k = (case arg of None \<Rightarrow> Some (-1, k) | Some pid \<Rightarrow> kill pid k)"

definition sys_getpid :: "kernel \<Rightarrow> int option" where
  "sys_getpid k = map_option (\<lambda>p. p_pid (proc_at k p)) (myproc k)"

definition sys_sbrk ::
    "(nat \<Rightarrow> u32 \<Rightarrow> u32 \<Rightarrow> u32) \<Rightarrow> (nat \<Rightarrow> u32 \<Rightarrow> u32 \<Rightarrow> u32) \<Rightarrow> int option \<Rightarrow> kernel \<Rightarrow> (int \<times> kernel) option" where
  "sys_sbrk allocuvm deallocuvm arg k =
    (case arg of
       None \<Rightarrow> Some (-1, k)
     | Some n \<Rightarrow> do {
         cur \<leftarrow> myproc k;
         let addr = sint (p_sz (proc_at k cur));
         (r, k) \<leftarrow> growproc allocuvm deallocuvm n k;
         if r < 0 then Some (-1, k) else Some (addr, k)
       })"

text \<open>The loop of \<^verbatim>\<open>sys_sleep\<close>, with the lock \<open>l\<close> of the tick counter held: one test, and the call of
  \<open>sleep\<close> if it has to wait.\<close>

definition sys_sleep_round :: "int \<Rightarrow> u32 \<Rightarrow> spinlock \<Rightarrow> kernel \<Rightarrow> (int option \<times> spinlock option \<times> kernel) option" where
  "sys_sleep_round n ticks0 l k =
    (if k_ticks k - ticks0 < word_of_int n then do {
       cur \<leftarrow> myproc k;
       if p_killed (proc_at k cur) then do {
         (c, l) \<leftarrow> release (k_cpu k) l;
         Some (Some (-1), Some l, k\<lparr>k_cpu := c\<rparr>)
       } else do {
         (l, k) \<leftarrow> sleep 1000 (Some l) k;
         Some (None, l, k)
       }
     } else do {
       (c, l) \<leftarrow> release (k_cpu k) l;
       Some (Some 0, Some l, k\<lparr>k_cpu := c\<rparr>)
     })"

definition sys_sleep :: "int option \<Rightarrow> spinlock \<Rightarrow> kernel \<Rightarrow> (int option \<times> spinlock option \<times> kernel) option" where
  "sys_sleep arg l k =
    (case arg of
       None \<Rightarrow> Some (Some (-1), Some l, k)
     | Some n \<Rightarrow> do {
         cur \<leftarrow> myproc k;
         let k = upd_proc cur (\<lambda>p. p\<lparr>p_sleep_ticks := n\<rparr>) k;
         (c, l) \<leftarrow> acquire [] (k_cpu k) l;
         let k = k\<lparr>k_cpu := c\<rparr>;
         sys_sleep_round n (k_ticks k) l k
       })"

definition sys_uptime :: "kernel \<Rightarrow> int" where
  "sys_uptime k = sint (k_ticks k)"

definition sys_nice :: "int option \<Rightarrow> kernel \<Rightarrow> (int \<times> kernel) option" where
  "sys_nice arg k = (case arg of None \<Rightarrow> Some (-1, k) | Some n \<Rightarrow> nice n k)"

definition sys_getschedstate :: "pschedinfo option option \<Rightarrow> kernel \<Rightarrow> int \<times> pschedinfo option" where
  "sys_getschedstate arg k = (case arg of None \<Rightarrow> (-1, None) | Some psi \<Rightarrow> getschedstate psi k)"

text \<open>The timer interrupt (\<^verbatim>\<open>trap.c\<close>): one tick, and everybody who sleeps is looked at.\<close>

definition timer_tick :: "spinlock \<Rightarrow> kernel \<Rightarrow> (spinlock \<times> kernel) option" where
  "timer_tick l k = do {
     (c, l) \<leftarrow> acquire [] (k_cpu k) l;
     k \<leftarrow> wakeup 1000 (k\<lparr>k_cpu := c, k_ticks := k_ticks k + 1\<rparr>);
     (c, l) \<leftarrow> release (k_cpu k) l;
     Some (l, k\<lparr>k_cpu := c\<rparr>)
   }"

end
