(* ===== verification/Sched.thy ===== *)
theory Sched
  imports Proc
begin

text \<open>
  Correctness of the process table and of the scheduler: what a round of the scheduler picks,
  and the invariant that every interleaving of system calls, interrupts and scheduler steps
  keeps on the one CPU.
\<close>

section \<open>The lock of the process table\<close>

definition idle :: "kernel \<Rightarrow> bool" where
  "idle k = (\<not> lk_locked (k_lock k) \<and> cpu_ncli (k_cpu k) = 0)"

definition locked :: "kernel \<Rightarrow> bool" where
  "locked k = (lk_locked (k_lock k) \<and> lk_cpu (k_lock k) = Some (cpu_id (k_cpu k)) \<and> cpu_ncli (k_cpu k) = 1 \<and>
     \<not> cpu_IF (k_cpu k))"

definition acq :: "kernel \<Rightarrow> kernel" where
  "acq k = k\<lparr>k_cpu := pushcli (k_cpu k),
     k_lock := (k_lock k)\<lparr>lk_locked := True, lk_cpu := Some (cpu_id (k_cpu k)), lk_pcs := []\<rparr>\<rparr>"

definition rel :: "kernel \<Rightarrow> kernel" where
  "rel k = k\<lparr>k_cpu := (k_cpu k)\<lparr>cpu_ncli := cpu_ncli (k_cpu k) - 1, cpu_IF := cpu_ncli (k_cpu k) = 1 \<and> cpu_intena (k_cpu k)\<rparr>,
     k_lock := unlocked (k_lock k)\<rparr>"

named_theorems kst \<open>projections of kernel states\<close>

lemma acq_simps [simp, kst]:
  "k_procs (acq k) = k_procs k" "k_initproc (acq k) = k_initproc k" "k_nextpid (acq k) = k_nextpid k"
  "k_ticks (acq k) = k_ticks k" "k_calls (acq k) = k_calls k" "cpu_proc (k_cpu (acq k)) = cpu_proc (k_cpu k)"
  "k_first (acq k) = k_first k"
  by (simp_all add: acq_def)

lemma rel_simps [simp, kst]:
  "k_procs (rel k) = k_procs k" "k_initproc (rel k) = k_initproc k" "k_nextpid (rel k) = k_nextpid k"
  "k_ticks (rel k) = k_ticks k" "k_calls (rel k) = k_calls k" "cpu_proc (k_cpu (rel k)) = cpu_proc (k_cpu k)"
  "k_first (rel k) = k_first k"
  by (simp_all add: rel_def)

lemma upd_proc_simps [simp, kst]:
  "k_procs (upd_proc i f k) = (k_procs k)[i := f (proc_at k i)]" "k_initproc (upd_proc i f k) = k_initproc k"
  "k_nextpid (upd_proc i f k) = k_nextpid k" "k_ticks (upd_proc i f k) = k_ticks k"
  "k_cpu (upd_proc i f k) = k_cpu k" "k_lock (upd_proc i f k) = k_lock k" "k_calls (upd_proc i f k) = k_calls k"
  "k_first (upd_proc i f k) = k_first k"
  by (simp_all add: upd_proc_def)

lemma kcall_simps [simp, kst]:
  "k_procs (kcall c k) = k_procs k" "k_initproc (kcall c k) = k_initproc k" "k_nextpid (kcall c k) = k_nextpid k"
  "k_ticks (kcall c k) = k_ticks k" "k_cpu (kcall c k) = k_cpu k" "k_lock (kcall c k) = k_lock k"
  "k_first (kcall c k) = k_first k"
  by (simp_all add: kcall_def)

lemma wakeup1_simps [simp, kst]:
  "k_procs (wakeup1 ch k) = map wake (k_procs k)" "k_initproc (wakeup1 ch k) = k_initproc k"
  "k_nextpid (wakeup1 ch k) = k_nextpid k" "k_cpu (wakeup1 ch k) = k_cpu k" "k_lock (wakeup1 ch k) = k_lock k"
  by (simp_all add: wakeup1_def)

lemma acquire_pt_idle: "idle k \<Longrightarrow> acquire_pt k = Some (acq k)"
  using acquire_free [of "k_cpu k" "k_lock k" "[]"] by (simp add: acquire_pt_def idle_def acq_def cpu_ok_def)

lemma acquire_pt_Some: "acquire_pt k = Some k' \<Longrightarrow> cpu_ok (k_cpu k) \<Longrightarrow> k' = acq k \<and> \<not> lk_locked (k_lock k)"
  using acquire_free [of "k_cpu k" "k_lock k" "[]"] acquire_blocked [of "k_cpu k" "k_lock k" "[]"]
  by (cases "lk_locked (k_lock k)") (auto simp: acquire_pt_def acq_def)

lemma release_pt_locked: "locked k \<Longrightarrow> release_pt k = Some (rel k)"
  using release_held [of "k_cpu k" "k_lock k"] by (simp add: release_pt_def locked_def rel_def cpu_ok_def)

lemma locked_acq: "idle k \<Longrightarrow> locked (acq k)"
  by (simp add: idle_def locked_def acq_def)

lemma idle_rel: "locked k \<Longrightarrow> idle (rel k)"
  by (simp add: idle_def locked_def rel_def unlocked_def)

lemma locked_cong: "k_cpu k' = k_cpu k \<Longrightarrow> k_lock k' = k_lock k \<Longrightarrow> locked k' = locked k"
  by (simp add: locked_def)

lemma idle_cong: "k_cpu k' = k_cpu k \<Longrightarrow> k_lock k' = k_lock k \<Longrightarrow> idle k' = idle k"
  by (simp add: idle_def)

lemma locked_simps [simp]:
  "locked (upd_proc i f k) = locked k" "locked (kcall c k) = locked k" "locked (wakeup1 ch k) = locked k"
  "idle (upd_proc i f k) = idle k" "idle (kcall c k) = idle k" "idle (k\<lparr>k_nextpid := n\<rparr>) = idle k"
  "locked (k\<lparr>k_nextpid := n\<rparr>) = locked k" "locked (k\<lparr>k_procs := ps\<rparr>) = locked k" "idle (k\<lparr>k_calls := cs\<rparr>) = idle k"
  "locked (k\<lparr>k_calls := cs\<rparr>) = locked k"
  by (simp_all add: locked_def idle_def)

lemma sched_out_eq:
  "locked k \<Longrightarrow> p_state (proc_at k p) \<noteq> RUNNING \<Longrightarrow>
    sched_out p r k = Some (upd_proc p (\<lambda>q. q\<lparr>p_resume := r, p_intena := cpu_intena (k_cpu k)\<rparr>) k)"
  using holding_eq [of "k_cpu k" "k_lock k"] by (simp add: sched_out_def locked_def cpu_ok_def)

section \<open>What a round picks\<close>

definition runnable :: "proc list \<Rightarrow> nat \<Rightarrow> bool" where
  "runnable ps i = (p_state (ps ! i) = RUNNABLE)"

lemma pick_loop_spec:
  assumes "\<forall>i \<in> set is. p_priority (ps ! i) \<le> INT_MAX"
    "chosen = filter (\<lambda>i. runnable ps i \<and> p_priority (ps ! i) = h) seen"
    "\<forall>i \<in> set seen. runnable ps i \<longrightarrow> h \<le> p_priority (ps ! i)"
    "h < INT_MAX \<longrightarrow> chosen \<noteq> []" "h \<le> INT_MAX"
  shows "\<exists>h'. pick_loop ps is h chosen = filter (\<lambda>i. runnable ps i \<and> p_priority (ps ! i) = h') (seen @ is) \<and>
    (\<forall>i \<in> set (seen @ is). runnable ps i \<longrightarrow> h' \<le> p_priority (ps ! i)) \<and>
    (h' < INT_MAX \<longrightarrow> (\<exists>i \<in> set (seen @ is). runnable ps i \<and> p_priority (ps ! i) = h')) \<and> h' \<le> INT_MAX"
  using assms
proof (induction "is" arbitrary: h chosen "seen")
  case Nil
  then show ?case by (intro exI [of _ h]) (auto simp: filter_empty_conv)
next
  case (Cons i js)
  let ?p = "p_priority (ps ! i)"
  consider "runnable ps i" "?p < h" | "runnable ps i" "?p = h" | "\<not> runnable ps i \<or> h < ?p" by linarith
  then show ?case
  proof cases
    case 1
    have "filter (\<lambda>j. runnable ps j \<and> p_priority (ps ! j) = ?p) seen = []"
      using Cons.prems(3) 1 by (auto simp: filter_empty_conv)
    then have c: "[i] = filter (\<lambda>j. runnable ps j \<and> p_priority (ps ! j) = ?p) (seen @ [i])" using 1 by simp
    have l: "\<forall>j \<in> set (seen @ [i]). runnable ps j \<longrightarrow> ?p \<le> p_priority (ps ! j)" using Cons.prems(3) 1 by auto
    have "\<forall>i \<in> set js. p_priority (ps ! i) \<le> INT_MAX" "?p \<le> INT_MAX" using Cons.prems(1) by simp_all
    from Cons.IH [OF this(1) c l _ this(2)] 1 show ?thesis by (simp add: runnable_def)
  next
    case 2
    then have c: "chosen @ [i] = filter (\<lambda>j. runnable ps j \<and> p_priority (ps ! j) = h) (seen @ [i])"
      using Cons.prems(2) by simp
    have l: "\<forall>j \<in> set (seen @ [i]). runnable ps j \<longrightarrow> h \<le> p_priority (ps ! j)" using Cons.prems(3) 2 by auto
    have "\<forall>i \<in> set js. p_priority (ps ! i) \<le> INT_MAX" using Cons.prems(1) by simp
    from Cons.IH [OF this c l _ Cons.prems(5)] 2 show ?thesis by (simp add: runnable_def)
  next
    case 3
    then have c: "chosen = filter (\<lambda>j. runnable ps j \<and> p_priority (ps ! j) = h) (seen @ [i])"
      using Cons.prems(2) by auto
    have l: "\<forall>j \<in> set (seen @ [i]). runnable ps j \<longrightarrow> h \<le> p_priority (ps ! j)" using Cons.prems(3) 3 by auto
    have "\<forall>i \<in> set js. p_priority (ps ! i) \<le> INT_MAX" using Cons.prems(1) by simp
    from Cons.IH [OF this c l Cons.prems(4,5)] 3 show ?thesis by (auto simp: runnable_def)
  qed
qed

lemma pick_spec:
  assumes "\<forall>i < NPROC. p_priority (ps ! i) \<le> INT_MAX"
  shows "pick ps = filter (\<lambda>i. runnable ps i \<and> (\<forall>j < NPROC. runnable ps j \<longrightarrow> p_priority (ps ! i) \<le> p_priority (ps ! j))) [0..<NPROC]"
proof -
  have "\<exists>h. pick_loop ps [0..<NPROC] INT_MAX [] = filter (\<lambda>i. runnable ps i \<and> p_priority (ps ! i) = h) [0..<NPROC] \<and>
      (\<forall>i < NPROC. runnable ps i \<longrightarrow> h \<le> p_priority (ps ! i)) \<and>
      (h < INT_MAX \<longrightarrow> (\<exists>i < NPROC. runnable ps i \<and> p_priority (ps ! i) = h)) \<and> h \<le> INT_MAX"
    using pick_loop_spec [of "[0..<NPROC]" ps "[]" INT_MAX "[]"] assms by (simp add: atLeast0LessThan Bex_def lessThan_def)
  then obtain h where
    h: "pick ps = filter (\<lambda>i. runnable ps i \<and> p_priority (ps ! i) = h) [0..<NPROC]"
      "\<forall>i < NPROC. runnable ps i \<longrightarrow> h \<le> p_priority (ps ! i)"
      "h < INT_MAX \<longrightarrow> (\<exists>i < NPROC. runnable ps i \<and> p_priority (ps ! i) = h)" "h \<le> INT_MAX"
    unfolding pick_def by blast
  have "(p_priority (ps ! i) = h) = (\<forall>j < NPROC. runnable ps j \<longrightarrow> p_priority (ps ! i) \<le> p_priority (ps ! j))"
    if "i < NPROC" "runnable ps i" for i
  proof (cases "h < INT_MAX")
    case True
    with h that show ?thesis by (metis order_antisym)
  next
    case False
    with h(4) have "h = INT_MAX" by simp
    with h(2) assms that show ?thesis by (metis order_antisym)
  qed
  then show ?thesis unfolding h(1) by (intro filter_cong) auto
qed

lemma set_pick: "i \<in> set (pick_loop ps is h chosen) \<Longrightarrow> i \<in> set chosen \<or> i \<in> set is \<and> runnable ps i"
  by (induction ps "is" h chosen rule: pick_loop.induct) (auto simp: runnable_def split: if_splits)

lemma pick_runnable: "i \<in> set (pick ps) \<Longrightarrow> i < NPROC \<and> p_state (ps ! i) = RUNNABLE"
  using set_pick [of i ps "[0..<NPROC]" INT_MAX "[]"] by (simp add: pick_def runnable_def)

lemma distinct_pick_loop: "distinct (chosen @ is) \<Longrightarrow> distinct (pick_loop ps is h chosen)"
  by (induction ps "is" h chosen rule: pick_loop.induct) auto

lemma distinct_pick: "distinct (pick ps)"
  by (simp add: pick_def distinct_pick_loop)

section \<open>The invariant of the process table\<close>

text \<open>\<open>run\<close> is the process on the CPU, \<open>q\<close> the processes the scheduler still has to run in this round,
  \<open>np\<close> the next process identifier.\<close>

definition proc_ok :: "int \<Rightarrow> proc \<Rightarrow> bool" where
  "proc_ok np p = ((p_state p \<noteq> UNUSED \<longrightarrow> 0 < p_pid p \<and> p_pid p < np) \<and> 0 \<le> p_nice p \<and> p_nice p \<le> 20 \<and>
     0 \<le> p_ticks p \<and> p_ticks p \<le> INT_MAX \<and> 0 \<le> p_priority p \<and> p_priority p \<le> INT_MAX)"

definition pids_differ :: "proc list \<Rightarrow> bool" where
  "pids_differ ps = (\<forall>i < length ps. \<forall>j < length ps. i \<noteq> j \<and> p_state (ps ! i) \<noteq> UNUSED \<and> p_state (ps ! j) \<noteq> UNUSED \<longrightarrow>
     p_pid (ps ! i) \<noteq> p_pid (ps ! j))"

definition tinv :: "proc list \<Rightarrow> int \<Rightarrow> nat option \<Rightarrow> nat list \<Rightarrow> bool" where
  "tinv ps np run q = (length ps = NPROC \<and> 0 < np \<and> (\<forall>i < NPROC. proc_ok np (ps ! i)) \<and> pids_differ ps \<and>
     (\<forall>i < NPROC. p_state (ps ! i) = RUNNING \<longleftrightarrow> run = Some i) \<and> (\<forall>r. run = Some r \<longrightarrow> r < NPROC) \<and>
     (\<forall>i \<in> set q. i < NPROC \<and> p_state (ps ! i) = RUNNABLE))"

lemma tinv_upd:
  assumes inv: "tinv ps np run q" and i: "i < NPROC" and np: "np \<le> np'" and ok: "proc_ok np' p'"
    and run: "p_state p' = RUNNING \<longleftrightarrow> run' = Some i" "\<And>j. j \<noteq> i \<Longrightarrow> run' = Some j \<longleftrightarrow> run = Some j"
    and q: "set q' \<subseteq> set q" "i \<in> set q' \<Longrightarrow> p_state p' = RUNNABLE"
    and pid: "p_state p' \<noteq> UNUSED \<Longrightarrow> p_pid p' = p_pid (ps ! i) \<and> p_state (ps ! i) \<noteq> UNUSED \<or> p_pid p' = np"
  shows "tinv (ps[i := p']) np' run' q'"
proof -
  have len: "length ps = NPROC" and pk: "\<And>j. j < NPROC \<Longrightarrow> proc_ok np (ps ! j)" using inv by (auto simp: tinv_def)
  have up: "proc_ok np' (ps ! j)" if "j < NPROC" for j using pk [OF that] np by (auto simp: proc_ok_def)
  have "p_pid p' \<noteq> p_pid (ps ! j)" if "j < NPROC" "j \<noteq> i" "p_state p' \<noteq> UNUSED" "p_state (ps ! j) \<noteq> UNUSED" for j
    using pid [OF that(3)] pk [OF that(1)] inv that i by (auto simp: tinv_def pids_differ_def proc_ok_def)
  then have "pids_differ (ps[i := p'])"
    using inv i len by (auto simp: tinv_def pids_differ_def nth_list_update) metis
  moreover have "run' = Some r \<Longrightarrow> r < NPROC" for r using run inv i by (cases "r = i") (auto simp: tinv_def)
  ultimately show ?thesis using inv i np ok run q up len by (auto simp: tinv_def nth_list_update)
qed

text \<open>A change that keeps the state and the identifier of one process.\<close>

lemma tinv_field:
  assumes "tinv ps np run q" "i < NPROC" "proc_ok np p'" "p_state p' = p_state (ps ! i)" "p_pid p' = p_pid (ps ! i)"
  shows "tinv (ps[i := p']) np run q"
  using assms by (intro tinv_upd [OF assms(1,2) order.refl assms(3)]) (auto simp: tinv_def)

lemma tinv_map:
  assumes inv: "tinv ps np run q" and f: "\<And>p. proc_ok np p \<Longrightarrow> proc_ok np (f p)" "\<And>p. p_pid (f p) = p_pid p"
    "\<And>p. p_state (f p) = p_state p \<or> p_state p = SLEEPING \<and> p_state (f p) = RUNNABLE"
  shows "tinv (map f ps) np run q"
proof -
  have s: "p_state (f p) = UNUSED \<longleftrightarrow> p_state p = UNUSED" "p_state (f p) = RUNNING \<longleftrightarrow> p_state p = RUNNING"
      "p_state p = RUNNABLE \<Longrightarrow> p_state (f p) = RUNNABLE" for p
    using f(3) [of p] by auto
  show ?thesis using inv f(1,2) s by (auto simp: tinv_def pids_differ_def)
qed

lemma tinv_wake: "tinv ps np run q \<Longrightarrow> tinv (map wake ps) np run q"
  by (rule tinv_map) (auto simp: wake_def proc_ok_def)

lemma half_bounds: "0 \<le> x \<Longrightarrow> x \<le> INT_MAX \<Longrightarrow> 0 \<le> half x \<and> 2 * half x \<le> INT_MAX"
  by (auto simp: half_def)

lemma proc_ok_decay: "proc_ok np p \<Longrightarrow> proc_ok np (decay p)"
proof -
  assume ok: "proc_ok np p"
  then have h: "0 \<le> half (p_ticks p)" "2 * half (p_ticks p) \<le> INT_MAX" using half_bounds by (auto simp: proc_ok_def)
  then have h2: "0 \<le> half (half (p_ticks p))" "4 * half (half (p_ticks p)) \<le> INT_MAX"
    using half_bounds [of "half (p_ticks p)"] by (auto simp: half_def)
  then have "half (half (p_ticks p)) + p_nice p \<le> INT_MAX" using ok by (auto simp: proc_ok_def INT_MAX_def)
  then show ?thesis using ok h h2 by (auto simp: proc_ok_def decay_def Let_def)
qed

lemma tinv_decay: "tinv ps np run q \<Longrightarrow> tinv (map decay ps) np run q"
  by (rule tinv_map) (auto simp: proc_ok_decay, auto simp: decay_def Let_def)

text \<open>The state while a process runs, and the state in which it gives the CPU back.\<close>

definition on_cpu :: "nat \<Rightarrow> nat list \<Rightarrow> kernel \<Rightarrow> bool" where
  "on_cpu p q k = (idle k \<and> cpu_proc (k_cpu k) = Some p \<and> tinv (k_procs k) (k_nextpid k) (Some p) q)"

definition leaving :: "nat list \<Rightarrow> kernel \<Rightarrow> bool" where
  "leaving q k = (locked k \<and> tinv (k_procs k) (k_nextpid k) None q)"

definition minv :: "machine \<Rightarrow> bool" where
  "minv m = (let k = m_kernel m in
     tinv (k_procs k) (k_nextpid k) (cpu_proc (k_cpu k)) (s_queue m) \<and> distinct (s_queue m) \<and>
     (if cpu_proc (k_cpu k) = None \<and> s_queue m \<noteq> [] then locked k else idle k))"

lemma minv_on_cpu: "cpu_proc (k_cpu (m_kernel m)) = Some p \<Longrightarrow> minv m \<longleftrightarrow> on_cpu p (s_queue m) (m_kernel m) \<and> distinct (s_queue m)"
  by (auto simp: minv_def on_cpu_def Let_def)

lemma tinv_proc: "tinv ps np run q \<Longrightarrow> i < NPROC \<Longrightarrow> proc_ok np (ps ! i)"
  "tinv ps np (Some p) q \<Longrightarrow> p < NPROC" "tinv ps np (Some p) q \<Longrightarrow> p_state (ps ! p) = RUNNING" "tinv ps np run q \<Longrightarrow> length ps = NPROC"
  by (auto simp: tinv_def)

lemma not_in_queue: "tinv ps np run q \<Longrightarrow> p_state (ps ! i) \<noteq> RUNNABLE \<Longrightarrow> i \<notin> set q"
  by (auto simp: tinv_def)

text \<open>Interrupt handlers may also run while the scheduler is between two rounds, so some lemmas speak
  of any occupant of the CPU.\<close>

definition calm :: "nat list \<Rightarrow> kernel \<Rightarrow> bool" where
  "calm q k = (idle k \<and> tinv (k_procs k) (k_nextpid k) (cpu_proc (k_cpu k)) q)"

lemma on_cpu_calm: "on_cpu p q k \<longleftrightarrow> calm q k \<and> cpu_proc (k_cpu k) = Some p"
  by (auto simp: on_cpu_def calm_def)

section \<open>System calls keep the invariant\<close>

lemma allocproc_calm:
  assumes on: "calm q k" and a: "allocproc ka k = Some (r, k')"
  shows "calm q k' \<and> cpu_proc (k_cpu k') = cpu_proc (k_cpu k) \<and> (case r of None \<Rightarrow> True
    | Some i \<Rightarrow> i < NPROC \<and> cpu_proc (k_cpu k) \<noteq> Some i \<and> i \<notin> set q \<and> p_state (proc_at k' i) = EMBRYO \<and>
        p_pid (proc_at k' i) = k_nextpid k \<and> (\<forall>j. j \<noteq> i \<longrightarrow> proc_at k' j = proc_at k j))"
proof -
  let ?run = "cpu_proc (k_cpu k)"
  from on have i: "idle k" and t: "tinv (k_procs k) (k_nextpid k) ?run q" by (auto simp: calm_def)
  note lk = locked_acq [OF i]
  show ?thesis
  proof (cases "List.find (\<lambda>i. p_state (proc_at k i) = UNUSED) [0..<NPROC]")
    case None
    with a i have "r = None" "k' = rel (acq k)"
      by (auto simp: allocproc_def acquire_pt_idle release_pt_locked [OF lk])
    with i t idle_rel [OF lk] show ?thesis by (simp add: calm_def)
  next
    case (Some j)
    then have j: "j < NPROC" "p_state (proc_at k j) = UNUSED" using find_upt_Some by auto
    have len: "length (k_procs k) = NPROC" using t by (auto dest: tinv_proc)
    have jq: "?run \<noteq> Some j" "j \<notin> set q" using t j not_in_queue [OF t] by (auto simp: tinv_def)
    from a i Some obtain n where n: "inc32 (k_nextpid k) = Some n"
      by (auto simp: allocproc_def acquire_pt_idle bind_eq_Some_conv Let_def)
    then have np: "n = k_nextpid k + 1" by (auto simp: inc32_def split: if_splits)
    let ?k1 = "upd_proc j (\<lambda>p. p\<lparr>p_state := EMBRYO, p_pid := k_nextpid k\<rparr>) ((acq k)\<lparr>k_nextpid := n\<rparr>)"
    have l1: "locked ?k1" using lk by simp
    let ?k2 = "upd_proc j (\<lambda>p. p\<lparr>p_kstack := ka\<rparr>) (rel ?k1)"
    have ok: "proc_ok n (proc_at k j)" using tinv_proc(1) [OF t j(1)] np by (auto simp: proc_ok_def)
    have pos: "0 < k_nextpid k" using t by (simp add: tinv_def)
    let ?y = "(proc_at k j)\<lparr>p_state := EMBRYO, p_pid := k_nextpid k, p_kstack := ka\<rparr>"
    have fin: "calm q (upd_proc j f ?k2) \<and> proc_at (upd_proc j f ?k2) j = f ?y \<and>
        cpu_proc (k_cpu (upd_proc j f ?k2)) = ?run \<and> (\<forall>i. i \<noteq> j \<longrightarrow> proc_at (upd_proc j f ?k2) i = proc_at k i)"
      if "p_state (f ?y) \<noteq> RUNNING" "p_pid (f ?y) = k_nextpid k" "p_nice (f ?y) = p_nice (proc_at k j)"
        "p_ticks (f ?y) = p_ticks (proc_at k j)" "p_priority (f ?y) = p_priority (proc_at k j)" for f
    proof -
      have "proc_ok n (f ?y)" using ok that pos np by (auto simp: proc_ok_def)
      then have "tinv ((k_procs k)[j := f ?y]) n ?run q"
        using that jq np by (intro tinv_upd [OF t j(1)]) auto
      then show ?thesis using j len idle_rel [OF l1] i by (simp add: calm_def)
    qed
    from a i Some n have c: "(r, k') = (if ka = 0 then (None, upd_proc j (\<lambda>p. p\<lparr>p_state := UNUSED\<rparr>) ?k2)
        else (Some j, upd_proc j (\<lambda>p. p\<lparr>p_tf := ka + KSTACKSIZE - 76, p_context := ka + KSTACKSIZE - 76 - 4 - 20, p_resume := At_forkret\<rparr>) ?k2))"
      using release_pt_locked [OF l1] by (auto simp: allocproc_def acquire_pt_idle Let_def split: if_splits)
    show ?thesis
    proof (cases "ka = 0")
      case True
      with c fin [of "\<lambda>p. p\<lparr>p_state := UNUSED\<rparr>"] show ?thesis by simp
    next
      case False
      with c fin [of "\<lambda>p. p\<lparr>p_tf := ka + KSTACKSIZE - 76, p_context := ka + KSTACKSIZE - 76 - 4 - 20, p_resume := At_forkret\<rparr>"]
        j jq show ?thesis by simp
    qed
  qed
qed

lemma allocproc_inv:
  assumes "on_cpu p q k" "allocproc ka k = Some (r, k')"
  shows "on_cpu p q k' \<and> (case r of None \<Rightarrow> True
    | Some i \<Rightarrow> i < NPROC \<and> i \<noteq> p \<and> i \<notin> set q \<and> p_state (proc_at k' i) = EMBRYO \<and> p_pid (proc_at k' i) = k_nextpid k \<and>
        (\<forall>j. j \<noteq> i \<longrightarrow> proc_at k' j = proc_at k j))"
  using allocproc_calm [of q k ka r k'] assms by (auto simp: on_cpu_calm split: option.splits)

lemma calm_field:
  assumes on: "calm q k" and i: "i < NPROC" "proc_ok (k_nextpid k) (f (proc_at k i))"
    "p_state (f (proc_at k i)) = p_state (proc_at k i)" "p_pid (f (proc_at k i)) = p_pid (proc_at k i)"
  shows "calm q (upd_proc i f k)"
  using on tinv_field [of "k_procs k" "k_nextpid k" "cpu_proc (k_cpu k)" q i "f (proc_at k i)"] i by (simp add: calm_def)

lemma on_cpu_field:
  assumes "on_cpu p q k" "i < NPROC" "proc_ok (k_nextpid k) (f (proc_at k i))"
    "p_state (f (proc_at k i)) = p_state (proc_at k i)" "p_pid (f (proc_at k i)) = p_pid (proc_at k i)"
  shows "on_cpu p q (upd_proc i f k)"
  using calm_field [of q k i f] assms by (simp add: on_cpu_calm)

lemma on_cpu_calls [simp]: "on_cpu p q (k\<lparr>k_calls := cs\<rparr>) = on_cpu p q k" "on_cpu p q (kcall c k) = on_cpu p q k"
  "calm q (kcall c k) = calm q k" "calm q (k\<lparr>k_initproc := x\<rparr>) = calm q k"
  by (simp_all add: on_cpu_def kcall_def calm_def idle_def)

text \<open>A critical section that changes the state of one process that is neither running nor queued.\<close>

lemma calm_section:
  assumes on: "calm q k" and i: "i < NPROC" "cpu_proc (k_cpu k) \<noteq> Some i" "i \<notin> set q \<or> p_state (f (proc_at k i)) = RUNNABLE"
    and f: "proc_ok (k_nextpid k) (f (proc_at k i))" "p_state (f (proc_at k i)) \<noteq> RUNNING"
      "p_state (f (proc_at k i)) \<noteq> UNUSED \<Longrightarrow> p_pid (f (proc_at k i)) = p_pid (proc_at k i) \<and> p_state (proc_at k i) \<noteq> UNUSED"
  shows "calm q (upd_proc i f k)"
    "acquire_pt k = Some (acq k) \<and> release_pt (upd_proc i f (acq k)) = Some (rel (upd_proc i f (acq k))) \<and>
      calm q (rel (upd_proc i f (acq k)))"
proof -
  let ?run = "cpu_proc (k_cpu k)"
  from on have id: "idle k" and t: "tinv (k_procs k) (k_nextpid k) ?run q" by (auto simp: calm_def)
  have t': "tinv ((k_procs k)[i := f (proc_at k i)]) (k_nextpid k) ?run q"
    using i f by (intro tinv_upd [OF t i(1) order.refl f(1)]) auto
  then show "calm q (upd_proc i f k)" using id by (simp add: calm_def)
  have l: "locked (upd_proc i f (acq k))" using locked_acq [OF id] by simp
  show "acquire_pt k = Some (acq k) \<and> release_pt (upd_proc i f (acq k)) = Some (rel (upd_proc i f (acq k))) \<and>
      calm q (rel (upd_proc i f (acq k)))"
    using acquire_pt_idle [OF id] release_pt_locked [OF l] idle_rel [OF l] t' by (simp add: calm_def)
qed

lemma on_cpu_section:
  assumes "on_cpu p q k" "i < NPROC" "i \<noteq> p" "i \<notin> set q \<or> p_state (f (proc_at k i)) = RUNNABLE"
    "proc_ok (k_nextpid k) (f (proc_at k i))" "p_state (f (proc_at k i)) \<noteq> RUNNING"
    "p_state (f (proc_at k i)) \<noteq> UNUSED \<Longrightarrow> p_pid (f (proc_at k i)) = p_pid (proc_at k i) \<and> p_state (proc_at k i) \<noteq> UNUSED"
  shows "on_cpu p q (upd_proc i f k)" "\<exists>k'. acquire_pt k = Some (acq k) \<and> release_pt (upd_proc i f (acq k)) = Some k' \<and> on_cpu p q k'"
  using calm_section [of q k i f] assms by (auto simp: on_cpu_calm)

lemma fork_inv:
  assumes on: "on_cpu p q k" and f: "fork ka cu k = Some (r, k')"
  shows "on_cpu p q k'"
proof -
  have p: "myproc k = Some p" using on by (simp add: on_cpu_def myproc_def)
  with f obtain np k1 where a: "allocproc ka k = Some (np, k1)" by (auto simp: fork_def bind_eq_Some_conv)
  note ai = allocproc_inv [OF on a]
  show ?thesis
  proof (cases np)
    case None
    with f p a ai show ?thesis by (auto simp: fork_def)
  next
    case (Some i)
    with ai have i: "i < NPROC" "i \<noteq> p" "i \<notin> set q" "p_state (proc_at k1 i) = EMBRYO" and on1: "on_cpu p q k1" by auto
    have len: "length (k_procs k1) = NPROC" and ok: "proc_ok (k_nextpid k1) (proc_at k1 i)"
      using on1 i(1) by (auto simp: on_cpu_def dest: tinv_proc)
    let ?k2 = "upd_proc i (\<lambda>p. p\<lparr>p_pgdir := cu\<rparr>) k1"
    have on2: "on_cpu p q ?k2" by (rule on_cpu_field [OF on1 i(1)]) (use ok in \<open>auto simp: proc_ok_def\<close>)
    show ?thesis
    proof (cases "cu = 0")
      case True
      let ?k3 = "kcall (KFree (p_kstack (proc_at ?k2 i))) ?k2"
      have "on_cpu p q (upd_proc i (\<lambda>p. p\<lparr>p_kstack := 0, p_state := UNUSED\<rparr>) ?k3)"
        by (rule on_cpu_section(1)) (use on2 i ok len in \<open>auto simp: proc_ok_def\<close>)
      with f p a Some True show ?thesis by (auto simp: fork_def Let_def)
    next
      case False
      let ?c = "proc_at ?k2 p"
      let ?g = "\<lambda>x. x\<lparr>p_sz := p_sz ?c, p_parent := Some p, p_frame := (p_frame ?c)\<lparr>tf_eax := 0\<rparr>,
          p_ofile := dup_files (p_ofile x) (p_ofile ?c), p_cwd := p_cwd ?c, p_name := take 15 (p_name ?c)\<rparr>"
      let ?k3 = "upd_proc i ?g (?k2\<lparr>k_calls := k_calls ?k2 @ dup_calls (p_ofile ?c) @ [IDup (p_cwd ?c)]\<rparr>)"
      have on3: "on_cpu p q ?k3"
        by (rule on_cpu_field) (use on2 i ok len in \<open>auto simp: proc_ok_def\<close>)
      have "\<exists>k4. acquire_pt ?k3 = Some (acq ?k3) \<and> release_pt (upd_proc i (\<lambda>p. p\<lparr>p_state := RUNNABLE\<rparr>) (acq ?k3)) = Some k4 \<and> on_cpu p q k4"
        by (rule on_cpu_section(2) [OF on3]) (use i ok len in \<open>auto simp: proc_ok_def\<close>)
      with f p a Some False show ?thesis by (auto simp: fork_def Let_def)
    qed
  qed
qed

lemma wakeup_inv:
  assumes "calm q k" "wakeup ch k = Some k'"
  shows "calm q k' \<and> cpu_proc (k_cpu k') = cpu_proc (k_cpu k)"
proof -
  have id: "idle k" using assms(1) by (simp add: calm_def)
  have "locked (wakeup1 ch (acq k))" using locked_acq [OF id] by simp
  from release_pt_locked [OF this] assms(2) idle_rel [OF this] acquire_pt_idle [OF id] assms(1) show ?thesis
    by (auto simp: wakeup_def calm_def intro: tinv_wake)
qed

lemma kill_inv:
  assumes "calm q k" "kill pid k = Some (r, k')"
  shows "calm q k' \<and> cpu_proc (k_cpu k') = cpu_proc (k_cpu k)"
proof -
  have id: "idle k" and t: "tinv (k_procs k) (k_nextpid k) (cpu_proc (k_cpu k)) q" using assms(1) by (auto simp: calm_def)
  note lk = locked_acq [OF id]
  show ?thesis
  proof (cases "List.find (\<lambda>i. p_pid (proc_at k i) = pid) [0..<NPROC]")
    case None
    with assms(2) id have "k' = rel (acq k)" by (auto simp: kill_def acquire_pt_idle release_pt_locked [OF lk])
    with idle_rel [OF lk] t show ?thesis by (simp add: calm_def)
  next
    case (Some i)
    then have i: "i < NPROC" using find_upt_Some by auto
    let ?f = "\<lambda>p. p\<lparr>p_killed := True, p_state := (if p_state p = SLEEPING then RUNNABLE else p_state p)\<rparr>"
    have l: "locked (upd_proc i ?f (acq k))" using lk by simp
    have "k' = rel (upd_proc i ?f (acq k))"
      using assms(2) id Some release_pt_locked [OF l] by (auto simp: kill_def acquire_pt_idle Let_def)
    moreover have "tinv ((k_procs k)[i := ?f (proc_at k i)]) (k_nextpid k) (cpu_proc (k_cpu k)) q"
      using t i tinv_proc(1) [OF t i] by (intro tinv_upd [OF t i order.refl]) (auto simp: tinv_def proc_ok_def)
    ultimately show ?thesis using idle_rel [OF l]
      by (cases "p_state (proc_at k i) = SLEEPING") (simp_all add: calm_def)
  qed
qed

text \<open>A second lock that is taken and given back around an operation: the tick lock.\<close>

lemma acquire_other:
  assumes "cpu_ok (k_cpu k)" "acquire pcs (k_cpu k) l = Some (c, l')"
  shows "c = pushcli (k_cpu k)" "lk_locked l'" "lk_cpu l' = Some (cpu_id (k_cpu k))"
  using assms acquire_free [of "k_cpu k" l pcs] acquire_blocked [of "k_cpu k" l pcs]
  by (cases "lk_locked l"; auto)+

lemma idle_ok: "idle k \<Longrightarrow> cpu_ok (k_cpu k)"
  by (simp add: idle_def cpu_ok_def)

lemma timer_tick_inv:
  assumes "calm q k" "timer_tick l k = Some (l', k')"
  shows "calm q k' \<and> cpu_proc (k_cpu k') = cpu_proc (k_cpu k)"
proof -
  have id: "idle k" and t: "tinv (k_procs k) (k_nextpid k) (cpu_proc (k_cpu k)) q" using assms(1) by (auto simp: calm_def)
  from assms(2) obtain c l1 k1 c2 l2 where a: "acquire [] (k_cpu k) l = Some (c, l1)"
      and w: "wakeup 1000 (k\<lparr>k_cpu := c, k_ticks := k_ticks k + 1\<rparr>) = Some k1"
      and r: "release (k_cpu k1) l1 = Some (c2, l2)" and k': "k' = k1\<lparr>k_cpu := c2\<rparr>"
    by (auto simp: timer_tick_def bind_eq_Some_conv)
  note ac = acquire_other [OF idle_ok [OF id] a]
  let ?k0 = "k\<lparr>k_cpu := c, k_ticks := k_ticks k + 1\<rparr>"
  have ok0: "cpu_ok (k_cpu ?k0)" using ac(1) idle_ok [OF id] by (simp add: push_ok)
  from w have "acquire_pt ?k0 = Some (acq ?k0) \<and> \<not> lk_locked (k_lock k)" using acquire_pt_Some [OF _ ok0]
    by (auto simp: wakeup_def bind_eq_Some_conv)
  then have k1: "release_pt (wakeup1 1000 (acq ?k0)) = Some k1" using w by (simp add: wakeup_def)
  have "k1 = rel (wakeup1 1000 (acq ?k0))"
    using k1 release_held [of "k_cpu (acq ?k0)" "k_lock (acq ?k0)"] ok0 ac(1) id
    by (auto simp: release_pt_def rel_def acq_def idle_def cpu_ok_def)
  then have e: "k_procs k1 = map wake (k_procs k)" "k_nextpid k1 = k_nextpid k" "cpu_proc (k_cpu k1) = cpu_proc (k_cpu k)"
      "\<not> lk_locked (k_lock k1)" "cpu_ncli (k_cpu k1) = 1" "\<not> cpu_IF (k_cpu k1)" "cpu_id (k_cpu k1) = cpu_id (k_cpu k)"
    using ac id by (auto simp: rel_def acq_def unlocked_def idle_def)
  then have "cpu_ok (k_cpu k1)" by (simp add: cpu_ok_def)
  from release_held [OF this, of l1] e ac have "(c2, l2) = ((k_cpu k1)\<lparr>cpu_ncli := 0, cpu_IF := cpu_intena (k_cpu k1)\<rparr>, unlocked l1)"
    using r by auto
  then show ?thesis using e k' t by (auto simp: calm_def idle_def intro: tinv_wake)
qed

lemma nice_inv: "on_cpu p q k \<Longrightarrow> nice n k = Some (r, k') \<Longrightarrow> on_cpu p q k'"
proof -
  assume on: "on_cpu p q k" and n: "nice n k = Some (r, k')"
  then have p: "myproc k = Some p" "p < NPROC" "proc_ok (k_nextpid k) (proc_at k p)"
    by (auto simp: on_cpu_def myproc_def dest: tinv_proc)
  have "on_cpu p q (upd_proc p (\<lambda>p. p\<lparr>p_nice := n\<rparr>) k)" if "0 \<le> n" "n \<le> 20"
    by (rule on_cpu_field [OF on p(2)]) (use p(3) that in \<open>auto simp: proc_ok_def\<close>)
  with n p(1) on show ?thesis by (auto simp: nice_def Let_def split: if_splits)
qed

lemma growproc_inv: "on_cpu p q k \<Longrightarrow> growproc au du n k = Some (r, k') \<Longrightarrow> on_cpu p q k'"
proof -
  assume on: "on_cpu p q k" and g: "growproc au du n k = Some (r, k')"
  then have p: "myproc k = Some p" "p < NPROC" "proc_ok (k_nextpid k) (proc_at k p)"
    by (auto simp: on_cpu_def myproc_def dest: tinv_proc)
  have "on_cpu p q (upd_proc p (\<lambda>p. p\<lparr>p_sz := s\<rparr>) k)" for s
    by (rule on_cpu_field [OF on p(2)]) (use p(3) in \<open>auto simp: proc_ok_def\<close>)
  with g p(1) on show ?thesis by (auto simp: growproc_def Let_def split: if_splits)
qed

section \<open>Giving the CPU back\<close>

lemma sched_out_leaving:
  assumes l: "locked k" and t: "tinv (k_procs k) (k_nextpid k) (Some p) q" and f: "proc_ok (k_nextpid k) (f (proc_at k p))"
    "p_state (f (proc_at k p)) \<notin> {RUNNING, UNUSED}" "p_pid (f (proc_at k p)) = p_pid (proc_at k p)"
    and s: "sched_out p r (upd_proc p f k) = Some k'"
  shows "leaving q k'"
proof -
  have p: "p < NPROC" "p_state (proc_at k p) = RUNNING" "length (k_procs k) = NPROC" using t by (auto dest: tinv_proc)
  then have pq: "p \<notin> set q" using not_in_queue [OF t, of p] by simp
  let ?g = "\<lambda>q. q\<lparr>p_resume := r, p_intena := cpu_intena (k_cpu k)\<rparr>"
  have k': "k' = upd_proc p ?g (upd_proc p f k)"
    using s sched_out_eq [of "upd_proc p f k" p r] l f(2) p by simp
  have "tinv ((k_procs k)[p := ?g (f (proc_at k p))]) (k_nextpid k) None q"
    using f p pq by (intro tinv_upd [OF t p(1) order.refl]) (auto simp: proc_ok_def tinv_def)
  then show ?thesis using k' l p by (simp add: leaving_def)
qed

lemma yield_leaving: "on_cpu p q k \<Longrightarrow> yield k = Some k' \<Longrightarrow> leaving q k'"
proof -
  assume on: "on_cpu p q k" and y: "yield k = Some k'"
  then have id: "idle k" "cpu_proc (k_cpu k) = Some p" and t: "tinv (k_procs k) (k_nextpid k) (Some p) q"
    by (auto simp: on_cpu_def)
  have "sched_out p In_yield (upd_proc p (\<lambda>p. p\<lparr>p_state := RUNNABLE\<rparr>) (acq k)) = Some k'"
    using y id by (simp add: yield_def acquire_pt_idle myproc_def)
  then show ?thesis
    by (rule sched_out_leaving [rotated -1]) (use id t tinv_proc(1,2) [OF t] locked_acq [OF id(1)] tinv_proc(1) [OF t tinv_proc(2) [OF t]] tinv_proc(3) [OF t] in \<open>auto simp: proc_ok_def\<close>)
qed

lemma sleep_None_leaving:
  assumes l: "locked k" and p: "cpu_proc (k_cpu k) = Some p" and t: "tinv (k_procs k) (k_nextpid k) (Some p) q"
    and s: "sleep ch None k = Some (l', k')"
  shows "leaving q k'"
proof -
  have "sched_out p In_sleep (upd_proc p (\<lambda>q. q\<lparr>p_chan := ch, p_state := SLEEPING\<rparr>) k) = Some k'"
    using s p by (auto simp: sleep_def myproc_def bind_eq_Some_conv)
  then show ?thesis
    by (rule sched_out_leaving [rotated -1]) (use l t tinv_proc(1) [OF t tinv_proc(2) [OF t]] tinv_proc(3) [OF t] in \<open>auto simp: proc_ok_def\<close>)
qed

lemma sleep_Some_leaving:
  assumes l: "\<not> lk_locked (k_lock k)" "cpu_ncli (k_cpu k) = 1" "\<not> cpu_IF (k_cpu k)" "lk_locked lk" "lk_cpu lk = Some (cpu_id (k_cpu k))"
    and p: "cpu_proc (k_cpu k) = Some p" and t: "tinv (k_procs k) (k_nextpid k) (Some p) q"
    and s: "sleep ch (Some lk) k = Some (l', k')"
  shows "leaving q k'"
proof -
  have ok: "cpu_ok (k_cpu k)" using l by (simp add: cpu_ok_def)
  have a: "acquire_pt k = Some (acq k)"
    using acquire_free [OF ok l(1), of "[]"] by (simp add: acquire_pt_def acq_def)
  have ok': "cpu_ok (k_cpu (acq k))" using l by (simp add: acq_def cpu_ok_def)
  let ?c = "(k_cpu (acq k))\<lparr>cpu_ncli := 1, cpu_IF := False\<rparr>"
  have r: "release (k_cpu (acq k)) lk = Some (?c, unlocked lk)"
    using release_held [OF ok', of lk] l by (simp add: acq_def)
  let ?k = "(acq k)\<lparr>k_cpu := ?c\<rparr>"
  have "sched_out p In_sleep (upd_proc p (\<lambda>q. q\<lparr>p_chan := ch, p_state := SLEEPING\<rparr>) ?k) = Some k'"
    using s p a r by (auto simp: sleep_def myproc_def bind_eq_Some_conv)
  moreover have "locked ?k" using l by (simp add: locked_def acq_def)
  ultimately show ?thesis
    by (intro sched_out_leaving [of ?k p q "\<lambda>q. q\<lparr>p_chan := ch, p_state := SLEEPING\<rparr>"])
      (use t tinv_proc(1) [OF t tinv_proc(2) [OF t]] tinv_proc(3) [OF t] in \<open>auto simp: proc_ok_def\<close>)
qed

lemma wait_round_inv:
  assumes l: "locked k" and p: "cpu_proc (k_cpu k) = Some p" and t: "tinv (k_procs k) (k_nextpid k) (Some p) q"
    and w: "wait_round p k = Some (r, k')"
  shows "if r = Sleeps then leaving q k' else on_cpu p q k'"
proof (cases "List.find (\<lambda>i. p_parent (proc_at k i) = Some p \<and> p_state (proc_at k i) = ZOMBIE) [0..<NPROC]")
  case None
  show ?thesis
  proof (cases "\<not> (\<exists>i \<in> set [0..<NPROC]. p_parent (proc_at k i) = Some p) \<or> p_killed (proc_at k p)")
    case True
    with w None have "r = Returns (-1)" "k' = rel k" by (auto simp: wait_round_def release_pt_locked [OF l])
    with idle_rel [OF l] p t show ?thesis by (simp add: on_cpu_def)
  next
    case False
    with w None obtain l' where "sleep (proc_chan (Some p)) None k = Some (l', k')" "r = Sleeps"
      by (auto simp: wait_round_def bind_eq_Some_conv split: if_splits)
    with sleep_None_leaving [OF l p t] show ?thesis by simp
  qed
next
  case (Some i)
  then have i: "i < NPROC" "p_state (proc_at k i) = ZOMBIE" using find_upt_Some by auto
  have ne: "i \<noteq> p" "i \<notin> set q" using i tinv_proc(3) [OF t] not_in_queue [OF t, of i] by auto
  let ?f = "\<lambda>p. p\<lparr>p_kstack := 0, p_pid := 0, p_parent := None, p_name := [], p_killed := False, p_state := UNUSED\<rparr>"
  let ?k = "upd_proc i ?f (kcall (FreeVm (p_pgdir (proc_at k i))) (kcall (KFree (p_kstack (proc_at k i))) k))"
  have l': "locked ?k" using l by simp
  have "r = Returns (p_pid (proc_at k i))" "k' = rel ?k"
    using w Some release_pt_locked [OF l'] by (auto simp: wait_round_def Let_def)
  moreover have "tinv ((k_procs k)[i := ?f (proc_at k i)]) (k_nextpid k) (Some p) q"
    using ne tinv_proc(1) [OF t i(1)] by (intro tinv_upd [OF t i(1) order.refl]) (auto simp: proc_ok_def)
  ultimately show ?thesis using idle_rel [OF l'] p by (simp add: on_cpu_def)
qed

lemma wait_inv:
  assumes on: "on_cpu p q k" and w: "wait k = Some (r, k')"
  shows "if r = Sleeps then leaving q k' else on_cpu p q k'"
proof -
  from on have id: "idle k" and p: "cpu_proc (k_cpu k) = Some p" and t: "tinv (k_procs k) (k_nextpid k) (Some p) q"
    by (auto simp: on_cpu_def)
  have "wait_round p (acq k) = Some (r, k')" using w p id by (simp add: wait_def myproc_def acquire_pt_idle)
  from wait_round_inv [OF locked_acq [OF id] _ _ this] p t show ?thesis by simp
qed

text \<open>Passing children to the first process touches no state and no identifier of a process, except that
  sleepers may wake up.\<close>

lemma reparent_step:
  assumes "tinv (k_procs k) np run q" "i < NPROC"
  shows "tinv (k_procs (reparent_one c i k)) np run q" "k_cpu (reparent_one c i k) = k_cpu k"
    "k_lock (reparent_one c i k) = k_lock k" "k_nextpid (reparent_one c i k) = k_nextpid k" "k_initproc (reparent_one c i k) = k_initproc k"
proof -
  have "tinv ((k_procs k)[i := (proc_at k i)\<lparr>p_parent := x\<rparr>]) np run q" for x
    using tinv_field [OF assms] tinv_proc(1) [OF assms] by (auto simp: proc_ok_def)
  then show "tinv (k_procs (reparent_one c i k)) np run q"
    using assms(1) by (auto simp: reparent_one_def Let_def intro: tinv_wake)
qed (auto simp: reparent_one_def Let_def)

lemma reparent_all:
  "tinv (k_procs k) np run q \<Longrightarrow> \<forall>i \<in> set is. i < NPROC \<Longrightarrow>
    tinv (k_procs (fold (reparent_one c) is k)) np run q \<and> k_cpu (fold (reparent_one c) is k) = k_cpu k \<and>
    k_lock (fold (reparent_one c) is k) = k_lock k \<and> k_nextpid (fold (reparent_one c) is k) = k_nextpid k \<and>
    k_initproc (fold (reparent_one c) is k) = k_initproc k"
proof (induction "is" arbitrary: k)
  case (Cons i js)
  then have i: "i < NPROC" by simp
  note r = reparent_step [OF Cons.prems(1) i, of c]
  from Cons.IH [OF r(1)] Cons.prems(2) r show ?case by simp
qed simp

lemma exit_leaving:
  assumes on: "on_cpu p q k" and e: "exit k = Some k'"
  shows "leaving q k'"
proof -
  from on have id: "idle k" and p: "cpu_proc (k_cpu k) = Some p" and t: "tinv (k_procs k) (k_nextpid k) (Some p) q"
    by (auto simp: on_cpu_def)
  note pn = tinv_proc(2) [OF t]
  let ?k1 = "upd_proc p (\<lambda>p. p\<lparr>p_ofile := map (\<lambda>_. 0) (p_ofile p), p_cwd := 0\<rparr>)
    (k\<lparr>k_calls := k_calls k @ map FileClose (filter (\<lambda>f. f \<noteq> 0) (p_ofile (proc_at k p))) @ [BeginOp, IPut (p_cwd (proc_at k p)), EndOp]\<rparr>)"
  have id1: "idle ?k1" using id by simp
  have t1: "tinv (k_procs ?k1) (k_nextpid k) (Some p) q"
    using tinv_field [OF t pn] tinv_proc(1) [OF t pn] by (auto simp: proc_ok_def)
  let ?k2 = "wakeup1 (proc_chan (p_parent (proc_at (acq ?k1) p))) (acq ?k1)"
  let ?k3 = "fold (reparent_one p) [0..<NPROC] ?k2"
  have t2: "tinv (k_procs ?k2) (k_nextpid k) (Some p) q" using tinv_wake [OF t1] by simp
  have r: "tinv (k_procs ?k3) (k_nextpid k) (Some p) q" "k_cpu ?k3 = k_cpu (acq ?k1)" "k_lock ?k3 = k_lock (acq ?k1)" "k_nextpid ?k3 = k_nextpid k"
    using reparent_all [OF t2, of "[0..<NPROC]" p] by auto
  have "sched_out p In_exit (upd_proc p (\<lambda>p. p\<lparr>p_state := ZOMBIE\<rparr>) ?k3) = Some k'"
    using e p acquire_pt_idle [OF id1] by (auto simp: exit_def myproc_def Let_def split: if_splits)
  moreover have "locked ?k3" using locked_cong [of ?k3 "acq ?k1"] r locked_acq [OF id1] by simp
  ultimately show ?thesis
    by (intro sched_out_leaving [of ?k3 p q "\<lambda>p. p\<lparr>p_state := ZOMBIE\<rparr>"])
      (use r tinv_proc(1) [OF r(1) pn] tinv_proc(3) [OF r(1)] in \<open>auto simp: proc_ok_def\<close>)
qed

lemma sys_sleep_inv:
  assumes on: "on_cpu p q k" and s: "sys_sleep arg l k = Some (r, l', k')"
  shows "if r = None then leaving q k' else on_cpu p q k'"
proof (cases arg)
  case None
  with s on show ?thesis by (auto simp: sys_sleep_def)
next
  case (Some n)
  have p: "myproc k = Some p" "p < NPROC" "proc_ok (k_nextpid k) (proc_at k p)"
    using on by (auto simp: on_cpu_def myproc_def dest: tinv_proc)
  let ?k = "upd_proc p (\<lambda>p. p\<lparr>p_sleep_ticks := n\<rparr>) k"
  have on1: "on_cpu p q ?k" by (rule on_cpu_field [OF on p(2)]) (use p(3) in \<open>auto simp: proc_ok_def\<close>)
  then have id: "idle ?k" and pc: "cpu_proc (k_cpu ?k) = Some p" and t: "tinv (k_procs ?k) (k_nextpid ?k) (Some p) q"
    by (auto simp: on_cpu_def)
  from s Some p obtain c l1 where a: "acquire [] (k_cpu ?k) l = Some (c, l1)"
      and w: "sys_sleep_round n (k_ticks k) l1 (?k\<lparr>k_cpu := c\<rparr>) = Some (r, l', k')"
    by (auto simp: sys_sleep_def bind_eq_Some_conv Let_def)
  note ac = acquire_other [OF idle_ok [OF id] a]
  have cl: "cpu_ncli c = 1" "\<not> cpu_IF c" "cpu_id c = cpu_id (k_cpu k)" "cpu_proc c = Some p" using ac(1) id pc by (auto simp: idle_def)
  then have rel: "release c l1 = Some (c\<lparr>cpu_ncli := 0, cpu_IF := cpu_intena c\<rparr>, unlocked l1)"
    using release_held [of c l1] ac by (simp add: cpu_ok_def)
  have ret: "on_cpu p q (?k\<lparr>k_cpu := c\<lparr>cpu_ncli := 0, cpu_IF := cpu_intena c\<rparr>\<rparr>)"
    using on1 cl by (simp add: on_cpu_def idle_def)
  show ?thesis
  proof (cases r)
    case (Some v)
    have "k' = ?k\<lparr>k_cpu := c\<lparr>cpu_ncli := 0, cpu_IF := cpu_intena c\<rparr>\<rparr>"
      using w Some rel cl by (auto simp: sys_sleep_round_def bind_eq_Some_conv split: if_splits)
    with ret Some show ?thesis by simp
  next
    case None
    have "sleep 1000 (Some l1) (?k\<lparr>k_cpu := c\<rparr>) = Some (l', k')"
      using w None rel cl by (auto simp: sys_sleep_round_def bind_eq_Some_conv split: if_splits)
    then have "leaving q k'"
      by (rule sleep_Some_leaving [rotated -1]) (use t cl ac id in \<open>auto simp: idle_def\<close>)
    with None show ?thesis by simp
  qed
qed

section \<open>Taking the CPU\<close>

lemma dispatch_inv:
  assumes l: "locked k" and t: "tinv (k_procs k) (k_nextpid k) None (p # q)" and d: "distinct (p # q)"
    and s: "dispatch p k = Some k'"
  shows "locked k' \<and> cpu_proc (k_cpu k') = Some p \<and> tinv (k_procs k') (k_nextpid k') (Some p) q"
proof -
  have p: "p < NPROC" "p_state (proc_at k p) = RUNNABLE" using t by (auto simp: tinv_def)
  from s obtain a b where ab: "inc32 (p_ticks (proc_at k p)) = Some a" "inc32 (p_total_cpu (proc_at k p)) = Some b"
      and k': "k' = upd_proc p (\<lambda>q. q\<lparr>p_state := RUNNING, p_ticks := a, p_total_cpu := b\<rparr>)
        (kcall (SwitchUvm p) (k\<lparr>k_cpu := (k_cpu k)\<lparr>cpu_proc := Some p\<rparr>\<rparr>))"
    by (auto simp: dispatch_def bind_eq_Some_conv Let_def)
  have a: "a = p_ticks (proc_at k p) + 1" "p_ticks (proc_at k p) \<noteq> INT_MAX" using ab(1) by (auto simp: inc32_def split: if_splits)
  have "tinv ((k_procs k)[p := (proc_at k p)\<lparr>p_state := RUNNING, p_ticks := a, p_total_cpu := b\<rparr>]) (k_nextpid k) (Some p) q"
    using d p a tinv_proc(1) [OF t p(1)] by (intro tinv_upd [OF t p(1) order.refl]) (auto simp: proc_ok_def)
  moreover have "locked k'" using l by (simp add: k' locked_def)
  ultimately show ?thesis by (simp add: k')
qed

lemma undispatch_simps [simp]:
  "k_procs (undispatch k) = k_procs k" "k_nextpid (undispatch k) = k_nextpid k" "locked (undispatch k) = locked k"
  "cpu_proc (k_cpu (undispatch k)) = None"
  by (simp_all add: undispatch_def locked_def)

lemma round_back_inv:
  assumes "leaving q k" "distinct q" "round_back q k = Some k'"
  shows "minv \<lparr>m_kernel = k', s_queue = q, s_pre_tick = t\<rparr>"
proof (cases "q = []")
  case True
  then have "k' = rel (undispatch k)" using assms release_pt_locked [of "undispatch k"] by (simp add: round_back_def leaving_def)
  with True assms(1) idle_rel [of "undispatch k"] show ?thesis by (simp add: minv_def leaving_def)
next
  case False
  with assms show ?thesis by (auto simp: minv_def leaving_def round_back_def)
qed

lemma sched_in_simps [simp]:
  "k_procs (sched_in p k) = k_procs k" "k_nextpid (sched_in p k) = k_nextpid k" "locked (sched_in p k) = locked k"
  "cpu_proc (k_cpu (sched_in p k)) = cpu_proc (k_cpu k)"
  by (simp_all add: sched_in_def locked_def)

lemma resume_on_cpu:
  assumes l: "locked k" "cpu_proc (k_cpu k) = Some p" "tinv (k_procs k) (k_nextpid k) (Some p) q" and r: "release_pt k = Some k'"
  shows "on_cpu p q k'"
  using r release_pt_locked [OF l(1)] idle_rel [OF l(1)] l by (auto simp: on_cpu_def)

text \<open>A process that wakes up in \<open>sleep\<close> with another lock: it holds that lock, and the table is free.\<close>

lemma sleep_end_Some:
  assumes l: "locked k" "cpu_proc (k_cpu k) = Some p" "tinv (k_procs k) (k_nextpid k) (Some p) q"
    and s: "sleep_end p (Some l0) k = Some (Some l1, k1)"
  shows "\<not> lk_locked (k_lock k1) \<and> cpu_ncli (k_cpu k1) = 1 \<and> \<not> cpu_IF (k_cpu k1) \<and> lk_locked l1 \<and>
    lk_cpu l1 = Some (cpu_id (k_cpu k1)) \<and> cpu_proc (k_cpu k1) = Some p \<and> tinv (k_procs k1) (k_nextpid k1) (Some p) q"
proof -
  let ?k = "upd_proc p (\<lambda>q. q\<lparr>p_chan := 0\<rparr>) (sched_in p k)"
  have p: "p < NPROC" "proc_ok (k_nextpid k) (proc_at k p)" using l(3) tinv_proc by blast+
  have "tinv ((k_procs k)[p := (proc_at k p)\<lparr>p_chan := 0\<rparr>]) (k_nextpid k) (Some p) q"
    using tinv_field [OF l(3) p(1)] p(2) by (auto simp: proc_ok_def)
  then have lk: "locked ?k" "cpu_proc (k_cpu ?k) = Some p" "tinv (k_procs ?k) (k_nextpid ?k) (Some p) q"
    using l by simp_all
  note r = release_pt_locked [OF lk(1)]
  have on: "on_cpu p q (rel ?k)" by (rule resume_on_cpu [OF lk r])
  then have id: "idle (rel ?k)" by (simp add: on_cpu_def)
  from s r obtain c1 where a: "acquire [] (k_cpu (rel ?k)) l0 = Some (c1, l1)" and k1: "k1 = (rel ?k)\<lparr>k_cpu := c1\<rparr>"
    by (auto simp: sleep_end_def Let_def bind_eq_Some_conv)
  note ac = acquire_other [OF idle_ok [OF id] a]
  have "cpu_ncli c1 = 1" "\<not> cpu_IF c1" "cpu_id c1 = cpu_id (k_cpu (rel ?k))" "cpu_proc c1 = Some p"
    using ac(1) id on by (auto simp: idle_def on_cpu_def)
  then show ?thesis using ac id on by (simp add: k1 idle_def on_cpu_def)
qed

section \<open>The running system\<close>

text \<open>
  Steps of the machine. With no process on the CPU the scheduler starts a round or switches to
  the next process of its round, which goes on where it had stopped; a running process makes
  system calls and stays on the CPU (\<open>stay\<close>) or gives it back to the scheduler (\<open>leave\<close>);
  interrupts come when they are enabled.
\<close>

inductive stay :: "kernel \<Rightarrow> kernel \<Rightarrow> bool" where
  "fork ka cu k = Some (r, k') \<Longrightarrow> stay k k'"
| "kill pid k = Some (r, k') \<Longrightarrow> stay k k'"
| "nice n k = Some (r, k') \<Longrightarrow> stay k k'"
| "growproc au du n k = Some (r, k') \<Longrightarrow> stay k k'"
| "wait k = Some (Returns r, k') \<Longrightarrow> stay k k'"
| "sys_sleep arg l k = Some (Some r, l', k') \<Longrightarrow> stay k k'"

inductive leave :: "kernel \<Rightarrow> kernel \<Rightarrow> bool" where
  "yield k = Some k' \<Longrightarrow> leave k k'"
| "exit k = Some k' \<Longrightarrow> leave k k'"
| "wait k = Some (Sleeps, k') \<Longrightarrow> leave k k'"
| "sys_sleep arg l k = Some (None, l', k') \<Longrightarrow> leave k k'"

inductive resumed :: "nat \<Rightarrow> kernel \<Rightarrow> kernel \<Rightarrow> bool" where
  "p_resume (proc_at k p) = At_forkret \<Longrightarrow> forkret k = Some k' \<Longrightarrow> resumed p k k'"
| "p_resume (proc_at k p) = In_yield \<Longrightarrow> yield_end p k = Some k' \<Longrightarrow> resumed p k k'"
| "p_resume (proc_at k p) = In_sleep \<Longrightarrow> sleep_end p (Some l) k = Some (Some l1, k1) \<Longrightarrow>
    release (k_cpu k1) l1 = Some (c, l2) \<Longrightarrow> resumed p k (k1\<lparr>k_cpu := c\<rparr>)"
| "p_resume (proc_at k p) = In_sleep \<Longrightarrow> sleep_end p None k = Some (None, k1) \<Longrightarrow>
    wait_round p k1 = Some (Returns r, k') \<Longrightarrow> resumed p k k'"

inductive mstep :: "machine \<Rightarrow> machine \<Rightarrow> bool" where
  m_round: "cpu_proc (k_cpu (m_kernel m)) = None \<Longrightarrow> s_queue m = [] \<Longrightarrow> sched_round m = Some m' \<Longrightarrow> mstep m m'"
| m_switch: "cpu_proc (k_cpu (m_kernel m)) = None \<Longrightarrow> s_queue m = p # q \<Longrightarrow> dispatch p (m_kernel m) = Some k1 \<Longrightarrow>
    resumed p k1 k2 \<Longrightarrow> mstep m (m\<lparr>m_kernel := k2, s_queue := q\<rparr>)"
| m_wait_again: "cpu_proc (k_cpu (m_kernel m)) = None \<Longrightarrow> s_queue m = p # q \<Longrightarrow> dispatch p (m_kernel m) = Some k1 \<Longrightarrow>
    p_resume (proc_at k1 p) = In_sleep \<Longrightarrow> sleep_end p None k1 = Some (None, k2) \<Longrightarrow>
    wait_round p k2 = Some (Sleeps, k3) \<Longrightarrow> round_back q k3 = Some k4 \<Longrightarrow> mstep m (m\<lparr>m_kernel := k4, s_queue := q\<rparr>)"
| m_sleep_again: "cpu_proc (k_cpu (m_kernel m)) = None \<Longrightarrow> s_queue m = p # q \<Longrightarrow> dispatch p (m_kernel m) = Some k1 \<Longrightarrow>
    p_resume (proc_at k1 p) = In_sleep \<Longrightarrow> sleep_end p (Some l) k1 = Some (Some l1, k2) \<Longrightarrow>
    sleep ch (Some l1) k2 = Some (l2, k3) \<Longrightarrow> round_back q k3 = Some k4 \<Longrightarrow> mstep m (m\<lparr>m_kernel := k4, s_queue := q\<rparr>)"
| m_call: "cpu_proc (k_cpu (m_kernel m)) = Some p \<Longrightarrow> stay (m_kernel m) k' \<Longrightarrow> mstep m (m\<lparr>m_kernel := k'\<rparr>)"
| m_leave: "cpu_proc (k_cpu (m_kernel m)) = Some p \<Longrightarrow> leave (m_kernel m) k1 \<Longrightarrow> round_back (s_queue m) k1 = Some k' \<Longrightarrow>
    mstep m (m\<lparr>m_kernel := k'\<rparr>)"
| m_timer: "cpu_IF (k_cpu (m_kernel m)) \<Longrightarrow> timer_tick l (m_kernel m) = Some (l', k') \<Longrightarrow> mstep m (m\<lparr>m_kernel := k'\<rparr>)"
| m_device: "cpu_IF (k_cpu (m_kernel m)) \<Longrightarrow> wakeup ch (m_kernel m) = Some k' \<Longrightarrow> mstep m (m\<lparr>m_kernel := k'\<rparr>)"

lemma stay_inv: "stay k k' \<Longrightarrow> on_cpu p q k \<Longrightarrow> on_cpu p q k'"
proof (induction rule: stay.induct)
  case (1 ka cu k r k')
  then show ?case using fork_inv by blast
next
  case (2 pid k r k')
  then show ?case using kill_inv by (auto simp: on_cpu_calm)
next
  case (3 n k r k')
  then show ?case using nice_inv by blast
next
  case (4 au du n k r k')
  then show ?case using growproc_inv by blast
next
  case (5 k r k')
  then show ?case using wait_inv [of p q k "Returns r" k'] by simp
next
  case (6 arg l k r l' k')
  then show ?case using sys_sleep_inv [of p q k arg l "Some r" l' k'] by simp
qed

lemma leave_inv: "leave k k' \<Longrightarrow> on_cpu p q k \<Longrightarrow> leaving q k'"
proof (induction rule: leave.induct)
  case (3 k k')
  then show ?case using wait_inv [of p q k Sleeps k'] by simp
next
  case (4 arg l k l' k')
  then show ?case using sys_sleep_inv [of p q k arg l None l' k'] by simp
qed (use yield_leaving exit_leaving in blast)+

lemma resumed_inv:
  assumes "resumed p k k'" and l: "locked k" and c: "cpu_proc (k_cpu k) = Some p" and t: "tinv (k_procs k) (k_nextpid k) (Some p) q"
  shows "on_cpu p q k'"
proof -
  have p: "p < NPROC" "proc_ok (k_nextpid k) (proc_at k p)" using t tinv_proc by blast+
  have ch: "tinv ((k_procs k)[p := (proc_at k p)\<lparr>p_chan := 0\<rparr>]) (k_nextpid k) (Some p) q"
    using tinv_field [OF t p(1)] p(2) by (auto simp: proc_ok_def)
  let ?k = "upd_proc p (\<lambda>q. q\<lparr>p_chan := 0\<rparr>) (sched_in p k)"
  have lk: "locked ?k" "cpu_proc (k_cpu ?k) = Some p" "tinv (k_procs ?k) (k_nextpid ?k) (Some p) q"
    using l c ch by simp_all
  show ?thesis using assms(1)
  proof cases
    case 1
    then have "k' = (if k_first (rel k) then kcall InitLog (kcall IInit ((rel k)\<lparr>k_first := False\<rparr>)) else rel k)"
      by (auto simp: forkret_def release_pt_locked [OF l])
    moreover have "on_cpu p q (rel k)" using resume_on_cpu [OF l c t release_pt_locked [OF l]] .
    ultimately show ?thesis by (auto simp: on_cpu_def idle_def)
  next
    case 2
    have "release_pt (sched_in p k) = Some k'" using 2 by (simp add: yield_end_def)
    then show ?thesis by (rule resume_on_cpu [rotated -1]) (use l c t in simp_all)
  next
    case (3 lk0 l1 k1 c' l2)
    note e = sleep_end_Some [OF l c t 3(3)]
    then have "c' = (k_cpu k1)\<lparr>cpu_ncli := 0, cpu_IF := cpu_intena (k_cpu k1)\<rparr>"
      using 3 release_held [of "k_cpu k1" l1] by (simp add: cpu_ok_def)
    then show ?thesis using 3(1) e by (simp add: on_cpu_def idle_def)
  next
    case (4 k1 r)
    then have "wait_round p ?k = Some (Returns r, k')" by (simp add: sleep_end_def)
    from wait_round_inv [OF lk this] show ?thesis by simp
  qed
qed

lemma sched_round_inv:
  assumes inv: "minv m" and c: "cpu_proc (k_cpu (m_kernel m)) = None" "s_queue m = []" and s: "sched_round m = Some m'"
  shows "minv m'"
proof -
  let ?k = "(m_kernel m)\<lparr>k_cpu := (k_cpu (m_kernel m))\<lparr>cpu_IF := True\<rparr>\<rparr>"
  have id: "idle ?k" and t: "tinv (k_procs ?k) (k_nextpid ?k) None []"
    using inv c by (auto simp: minv_def Let_def idle_def)
  define k1 where "k1 = (if k_ticks (acq ?k) mod 100 = 0 \<and> s_pre_tick m \<noteq> k_ticks (acq ?k)
    then (acq ?k)\<lparr>k_procs := map decay (k_procs (acq ?k))\<rparr> else acq ?k)"
  have l1: "locked k1" using locked_acq [OF id] by (simp add: k1_def)
  have t1: "tinv (k_procs k1) (k_nextpid k1) None []" using t tinv_decay [OF t] by (simp add: k1_def)
  have c1: "cpu_proc (k_cpu k1) = None" using c by (simp add: k1_def)
  from s obtain k2 pre where k2: "(if pick (k_procs k1) = [] then release_pt k1 else Some k1) = Some k2"
      and m': "m' = \<lparr>m_kernel = k2, s_queue = pick (k_procs k1), s_pre_tick = pre\<rparr>"
    unfolding sched_round_def Let_def acquire_pt_idle [OF id] Option.bind.bind_lunit k1_def [symmetric] bind_eq_Some_conv
    by auto
  have "tinv (k_procs k1) (k_nextpid k1) None (pick (k_procs k1))"
    using t1 pick_runnable by (auto simp: tinv_def)
  then show ?thesis using k2 m' l1 c1 release_pt_locked [OF l1] idle_rel [OF l1] distinct_pick
    by (auto simp: minv_def Let_def split: if_splits)
qed

lemma mstep_inv: "mstep m m' \<Longrightarrow> minv m \<Longrightarrow> minv m'"
proof (induction rule: mstep.induct)
  case (m_round m m')
  then show ?case using sched_round_inv by blast
next
  case (m_switch m p q k1 k2)
  then have "locked (m_kernel m)" "tinv (k_procs (m_kernel m)) (k_nextpid (m_kernel m)) None (p # q)" "distinct (p # q)"
    by (auto simp: minv_def Let_def)
  from dispatch_inv [OF this m_switch(3)] resumed_inv [OF m_switch(4)] have "on_cpu p q k2" by blast
  with \<open>distinct (p # q)\<close> show ?case using minv_on_cpu [of "m\<lparr>m_kernel := k2, s_queue := q\<rparr>" p] by (simp add: on_cpu_def)
next
  case (m_wait_again m p q k1 k2 k3 k4)
  then have d: "locked (m_kernel m)" "tinv (k_procs (m_kernel m)) (k_nextpid (m_kernel m)) None (p # q)" "distinct (p # q)"
    by (auto simp: minv_def Let_def)
  note k1 = dispatch_inv [OF d m_wait_again(3)]
  then have t: "tinv (k_procs k1) (k_nextpid k1) (Some p) q" by blast
  have p: "p < NPROC" "proc_ok (k_nextpid k1) (proc_at k1 p)" using t tinv_proc by blast+
  have k2: "k2 = upd_proc p (\<lambda>q. q\<lparr>p_chan := 0\<rparr>) (sched_in p k1)" using m_wait_again(5) by (simp add: sleep_end_def)
  have "locked k2" "cpu_proc (k_cpu k2) = Some p" using k1 by (simp_all add: k2)
  moreover have "tinv (k_procs k2) (k_nextpid k2) (Some p) q"
    using tinv_field [OF t p(1)] p(2) by (auto simp: k2 proc_ok_def)
  ultimately have "leaving q k3" using wait_round_inv [OF _ _ _ m_wait_again(6)] by simp
  from round_back_inv [OF this _ m_wait_again(7), of "s_pre_tick m"] d(3) show ?case by (simp add: minv_def)
next
  case (m_sleep_again m p q k1 l l1 k2 ch l2 k3 k4)
  then have d: "locked (m_kernel m)" "tinv (k_procs (m_kernel m)) (k_nextpid (m_kernel m)) None (p # q)" "distinct (p # q)"
    by (auto simp: minv_def Let_def)
  note k1 = dispatch_inv [OF d m_sleep_again(3)]
  then have "locked k1" "cpu_proc (k_cpu k1) = Some p" "tinv (k_procs k1) (k_nextpid k1) (Some p) q" by blast+
  from sleep_end_Some [OF this m_sleep_again(5)] have "leaving q k3"
    using sleep_Some_leaving [OF _ _ _ _ _ _ _ m_sleep_again(6), of p q] by blast
  from round_back_inv [OF this _ m_sleep_again(7), of "s_pre_tick m"] d(3) show ?case by (simp add: minv_def)
next
  case (m_call m p k')
  then have "on_cpu p (s_queue m) (m_kernel m)" "distinct (s_queue m)" using minv_on_cpu by blast+
  with stay_inv [OF m_call(2)] have "on_cpu p (s_queue m) k'" by blast
  with \<open>distinct (s_queue m)\<close> show ?case using minv_on_cpu [of "m\<lparr>m_kernel := k'\<rparr>" p] by (simp add: on_cpu_def)
next
  case (m_leave m p k1 k')
  then have "on_cpu p (s_queue m) (m_kernel m)" "distinct (s_queue m)" using minv_on_cpu by blast+
  with leave_inv [OF m_leave(2)] have "leaving (s_queue m) k1" by blast
  from round_back_inv [OF this \<open>distinct (s_queue m)\<close> m_leave(3), of "s_pre_tick m"] show ?case by (simp add: minv_def)
next
  case (m_timer m l l' k')
  then have "calm (s_queue m) (m_kernel m)" by (auto simp: minv_def Let_def calm_def locked_def split: if_splits)
  from timer_tick_inv [OF this m_timer(2)] m_timer show ?case by (auto simp: minv_def Let_def calm_def locked_def split: if_splits)
next
  case (m_device m ch k')
  then have "calm (s_queue m) (m_kernel m)" by (auto simp: minv_def Let_def calm_def locked_def split: if_splits)
  from wakeup_inv [OF this m_device(2)] m_device show ?case by (auto simp: minv_def Let_def calm_def locked_def split: if_splits)
qed

section \<open>From boot\<close>

definition zero_proc :: proc where
  "zero_proc = \<lparr>p_sz = 0, p_pgdir = 0, p_kstack = 0, p_state = UNUSED, p_pid = 0, p_parent = None, p_tf = 0,
     p_frame = zero_frame, p_context = 0, p_resume = At_forkret, p_intena = False, p_chan = 0, p_killed = False,
     p_ofile = replicate 16 0, p_cwd = 0, p_name = [], p_ticks = 0, p_priority = 0, p_nice = 0, p_sleep_ticks = 0,
     p_total_cpu = 0\<rparr>"

definition boot_kernel :: kernel where
  "boot_kernel = \<lparr>k_procs = replicate NPROC zero_proc, k_initproc = None, k_nextpid = 1, k_ticks = 0,
     k_cpu = boot_cpu False, k_lock = free_lock ''ptable'', k_first = True, k_calls = []\<rparr>"

lemma boot_calm: "calm [] boot_kernel"
  by (auto simp: calm_def boot_kernel_def idle_def free_lock_def boot_cpu_def tinv_def pids_differ_def proc_ok_def
      zero_proc_def INT_MAX_def NPROC_def)

lemma userinit_inv:
  assumes u: "userinit ka sk ri boot_kernel = Some k"
  shows "calm [] k \<and> cpu_proc (k_cpu k) = None"
proof -
  from u obtain p k1 where a: "allocproc ka boot_kernel = Some (p, k1)" by (auto simp: userinit_def bind_eq_Some_conv)
  note ac = allocproc_calm [OF boot_calm a]
  from u a obtain i where p: "p = Some i" "sk \<noteq> 0" by (auto simp: userinit_def bind_eq_Some_conv Let_def split: if_splits)
  with ac have i: "i < NPROC" "p_state (proc_at k1 i) = EMBRYO" and c1: "calm [] k1" and none: "cpu_proc (k_cpu k1) = None"
    by (auto simp: boot_kernel_def boot_cpu_def)
  have len: "length (k_procs k1) = NPROC" and ok: "proc_ok (k_nextpid k1) (proc_at k1 i)"
    using c1 i(1) by (auto simp: calm_def dest: tinv_proc)
  let ?ds = "push_bit 3 SEG_UDATA OR DPL_USER"
  let ?fr = "zero_frame\<lparr>tf_cs := push_bit 3 SEG_UCODE OR DPL_USER, tf_ds := ?ds, tf_es := ?ds, tf_ss := ?ds,
      tf_eflags := FL_IF, tf_esp := PGSIZE, tf_eip := 0\<rparr>"
  define k2 where "k2 = upd_proc i (\<lambda>p. p\<lparr>p_pgdir := sk\<rparr>) (k1\<lparr>k_initproc := Some i\<rparr>)"
  have c2: "calm [] k2" unfolding k2_def
    by (rule calm_field) (use c1 i ok in \<open>auto simp: proc_ok_def\<close>)
  define k3 where "k3 = upd_proc i (\<lambda>p. p\<lparr>p_sz := PGSIZE, p_frame := ?fr, p_name := ''initcode'', p_cwd := ri\<rparr>) (kcall (InitUvm sk) k2)"
  have c3: "calm [] k3" unfolding k3_def
    by (rule calm_field) (use c2 i ok len in \<open>auto simp: proc_ok_def k2_def\<close>)
  have n3: "cpu_proc (k_cpu k3) = None" using none by (simp add: k3_def k2_def)
  let ?f = "\<lambda>p. p\<lparr>p_nice := 0, p_priority := 0, p_ticks := 0, p_state := RUNNABLE, p_sleep_ticks := 0, p_total_cpu := 0\<rparr>"
  have "acquire_pt k3 = Some (acq k3) \<and> release_pt (upd_proc i ?f (acq k3)) = Some (rel (upd_proc i ?f (acq k3))) \<and>
      calm [] (rel (upd_proc i ?f (acq k3)))"
    by (rule calm_section(2) [OF c3]) (use i ok len n3 in \<open>auto simp: proc_ok_def INT_MAX_def k3_def k2_def\<close>)
  moreover have "k = rel (upd_proc i ?f (acq k3))"
    using u a p calculation by (simp add: userinit_def Let_def k2_def [symmetric] k3_def [symmetric])
  ultimately show ?thesis using n3 by simp
qed

lemma allocproc_eq:
  assumes id: "idle k" and i: "List.find (\<lambda>i. p_state (proc_at k i) = UNUSED) [0..<NPROC] = Some i" "i < length (k_procs k)"
    and ka: "ka \<noteq> 0" "k_nextpid k \<noteq> INT_MAX"
  shows "\<exists>k'. allocproc ka k = Some (Some i, k') \<and> idle k' \<and> k_nextpid k' = k_nextpid k + 1 \<and>
    cpu_proc (k_cpu k') = cpu_proc (k_cpu k) \<and> k_calls k' = k_calls k \<and> k_ticks k' = k_ticks k \<and>
    k_procs k' = (k_procs k)[i := (proc_at k i)\<lparr>p_state := EMBRYO, p_pid := k_nextpid k, p_kstack := ka,
      p_tf := ka + KSTACKSIZE - sizeof_trapframe, p_context := ka + KSTACKSIZE - sizeof_trapframe - 4 - sizeof_context,
      p_resume := At_forkret\<rparr>]"
proof -
  let ?k = "upd_proc i (\<lambda>p. p\<lparr>p_state := EMBRYO, p_pid := k_nextpid k\<rparr>) ((acq k)\<lparr>k_nextpid := k_nextpid k + 1\<rparr>)"
  have l: "locked ?k" using locked_acq [OF id] by simp
  have "allocproc ka k = Some (Some i, upd_proc i (\<lambda>p. p\<lparr>p_tf := ka + KSTACKSIZE - sizeof_trapframe,
      p_context := ka + KSTACKSIZE - sizeof_trapframe - 4 - sizeof_context, p_resume := At_forkret\<rparr>)
      (upd_proc i (\<lambda>p. p\<lparr>p_kstack := ka\<rparr>) (rel ?k)))"
    using release_pt_locked [OF l] i ka id by (simp add: allocproc_def acquire_pt_idle inc32_def Let_def)
  then show ?thesis using idle_rel [OF l] i(2) by (simp add: idle_def)
qed

text \<open>The first process.\<close>

definition init_proc :: "nat \<Rightarrow> nat \<Rightarrow> nat \<Rightarrow> proc" where
  "init_proc ka sk ri = zero_proc\<lparr>p_pid := 1, p_kstack := ka,
      p_tf := ka + KSTACKSIZE - sizeof_trapframe, p_context := ka + KSTACKSIZE - sizeof_trapframe - 4 - sizeof_context,
      p_resume := At_forkret, p_pgdir := sk, p_sz := PGSIZE,
      p_frame := zero_frame\<lparr>tf_cs := push_bit 3 SEG_UCODE OR DPL_USER, tf_ds := push_bit 3 SEG_UDATA OR DPL_USER,
        tf_es := push_bit 3 SEG_UDATA OR DPL_USER, tf_ss := push_bit 3 SEG_UDATA OR DPL_USER,
        tf_eflags := FL_IF, tf_esp := PGSIZE, tf_eip := 0\<rparr>,
      p_name := ''initcode'', p_cwd := ri,
      p_nice := 0, p_priority := 0, p_ticks := 0, p_state := RUNNABLE, p_sleep_ticks := 0, p_total_cpu := 0\<rparr>"

lemma userinit_eq:
  assumes "ka \<noteq> 0" "sk \<noteq> 0"
  shows "\<exists>k. userinit ka sk ri boot_kernel = Some k \<and> k_procs k = (replicate NPROC zero_proc)[0 := init_proc ka sk ri] \<and>
    k_nextpid k = 2 \<and> k_initproc k = Some 0 \<and> k_ticks k = 0"
proof -
  have f: "List.find (\<lambda>i. p_state (proc_at boot_kernel i) = UNUSED) [0..<NPROC] = Some 0"
    by (simp add: boot_kernel_def zero_proc_def NPROC_def upt_conv_Cons)
  have idb: "idle boot_kernel" using boot_calm by (simp add: calm_def)
  have b: "0 < length (k_procs boot_kernel)" "k_nextpid boot_kernel \<noteq> INT_MAX" by (simp_all add: boot_kernel_def INT_MAX_def NPROC_def)
  from allocproc_eq [OF idb f b(1) assms(1) b(2)] obtain k1 where k1: "allocproc ka boot_kernel = Some (Some 0, k1)" "idle k1"
      "k_nextpid k1 = 2" "k_ticks k1 = 0" "k_procs k1 = (replicate NPROC zero_proc)[0 := zero_proc\<lparr>p_state := EMBRYO, p_pid := 1, p_kstack := ka,
        p_tf := ka + KSTACKSIZE - sizeof_trapframe, p_context := ka + KSTACKSIZE - sizeof_trapframe - 4 - sizeof_context,
        p_resume := At_forkret\<rparr>]"
    by (auto simp: boot_kernel_def NPROC_def)
  let ?ds = "push_bit 3 SEG_UDATA OR DPL_USER"
  let ?fr = "zero_frame\<lparr>tf_cs := push_bit 3 SEG_UCODE OR DPL_USER, tf_ds := ?ds, tf_es := ?ds, tf_ss := ?ds,
      tf_eflags := FL_IF, tf_esp := PGSIZE, tf_eip := 0\<rparr>"
  define k3 where "k3 = upd_proc 0 (\<lambda>p. p\<lparr>p_sz := PGSIZE, p_frame := ?fr, p_name := ''initcode'', p_cwd := ri\<rparr>)
      (kcall (InitUvm sk) (upd_proc 0 (\<lambda>p. p\<lparr>p_pgdir := sk\<rparr>) (k1\<lparr>k_initproc := Some 0\<rparr>)))"
  have id3: "idle k3" using k1(2) by (simp add: k3_def idle_def)
  let ?f = "\<lambda>p. p\<lparr>p_nice := 0, p_priority := 0, p_ticks := 0, p_state := RUNNABLE, p_sleep_ticks := 0, p_total_cpu := 0\<rparr>"
  have l: "locked (upd_proc 0 ?f (acq k3))" using locked_acq [OF id3] by simp
  have u: "userinit ka sk ri boot_kernel = Some (rel (upd_proc 0 ?f (acq k3)))"
    using assms(2) by (simp only: userinit_def k1(1) Option.bind.bind_lunit prod.case Let_def if_False k3_def [symmetric]
        acquire_pt_idle [OF id3] release_pt_locked [OF l])
  have "k_procs (rel (upd_proc 0 ?f (acq k3))) = (replicate NPROC zero_proc)[0 := init_proc ka sk ri]"
    using k1(5) by (simp add: k3_def init_proc_def NPROC_def)
  then show ?thesis using u k1 by (simp add: k3_def)
qed

lemma userinit_returns:
  assumes "ka \<noteq> 0" "sk \<noteq> 0"
  shows "\<exists>k. userinit ka sk ri boot_kernel = Some k \<and> idle k \<and> cpu_proc (k_cpu k) = None"
  using userinit_eq [OF assms, of ri] userinit_inv [of ka sk ri] by (auto simp: calm_def)

definition reachable :: "machine \<Rightarrow> bool" where
  "reachable m = (\<exists>ka sk ri k. userinit ka sk ri boot_kernel = Some k \<and>
     mstep\<^sup>*\<^sup>* \<lparr>m_kernel = k, s_queue = [], s_pre_tick = 0\<rparr> m)"

definition booted :: "machine \<Rightarrow> bool" where
  "booted m = (\<exists>ka sk ri. userinit ka sk ri boot_kernel = Some (m_kernel m) \<and> s_queue m = [])"

lemma booted_minv: "booted m \<Longrightarrow> minv m"
  using userinit_inv unfolding booted_def minv_def calm_def Let_def by fastforce

interpretation km: transition_system booted mstep minv
  by unfold_locales (blast intro: booted_minv mstep_inv)+

lemma reachable_minv: "reachable m \<Longrightarrow> minv m"
proof -
  assume "reachable m"
  then obtain k where "booted \<lparr>m_kernel = k, s_queue = [], s_pre_tick = 0\<rparr>" "mstep\<^sup>*\<^sup>* \<lparr>m_kernel = k, s_queue = [], s_pre_tick = 0\<rparr> m"
    unfolding reachable_def booted_def by auto
  then show ?thesis by (rule km.reachable_inv)
qed

lemma reachable_on_cpu: "reachable m \<Longrightarrow> cpu_proc (k_cpu (m_kernel m)) = Some p \<Longrightarrow> on_cpu p (s_queue m) (m_kernel m)"
  using reachable_minv minv_on_cpu by blast

lemma sched_round_eq:
  assumes id: "idle (m_kernel m)" and k: "k = (m_kernel m)\<lparr>k_cpu := (k_cpu (m_kernel m))\<lparr>cpu_IF := True\<rparr>\<rparr>"
    and k1: "k1 = (if k_ticks k mod 100 = 0 \<and> s_pre_tick m \<noteq> k_ticks k then (acq k)\<lparr>k_procs := map decay (k_procs k)\<rparr> else acq k)"
  shows "sched_round m = Some \<lparr>m_kernel = (if pick (k_procs k1) = [] then rel k1 else k1), s_queue = pick (k_procs k1),
    s_pre_tick = (if k_ticks k mod 100 = 0 \<and> s_pre_tick m \<noteq> k_ticks k then k_ticks k else s_pre_tick m)\<rparr>"
proof -
  have idk: "idle k" using id by (simp add: k idle_def)
  have "locked k1" using locked_acq [OF idk] by (simp add: k1)
  from release_pt_locked [OF this] show ?thesis
    unfolding sched_round_def Let_def k [symmetric] acquire_pt_idle [OF idk] Option.bind.bind_lunit acq_simps k1 [symmetric]
    by simp
qed

text \<open>The machine soon after boot: the first process runs, every other entry of the table is free.\<close>

lemma pick_single:
  assumes "ps = (replicate NPROC zero_proc)[0 := p]" "p_state p = RUNNABLE" "p_priority p \<le> INT_MAX"
  shows "pick ps = [0]"
proof -
  have o: "p_state (ps ! i) = RUNNABLE \<Longrightarrow> i < NPROC \<Longrightarrow> i = 0" for i
    using assms(1) by (cases i) (auto simp: zero_proc_def NPROC_def)
  have p0: "ps ! 0 = p" using assms(1) by (simp add: NPROC_def)
  have "p_priority (ps ! i) \<le> INT_MAX" if "i < NPROC" for i
    using that assms(1,3) p0 by (cases i) (auto simp: zero_proc_def INT_MAX_def NPROC_def)
  then have "0 \<in> set (pick ps)" using pick_spec [of ps] o p0 assms(2) by (auto simp: runnable_def NPROC_def)
  moreover have "set (pick ps) \<subseteq> {0}" using pick_runnable [of _ ps] o by blast
  ultimately have "set (pick ps) = {0}" by blast
  moreover from this have "length (pick ps) = 1" using distinct_card [OF distinct_pick [of ps]] by simp
  ultimately show ?thesis by (cases "pick ps") auto
qed

lemma sample_running:
  "\<exists>m. reachable m \<and> cpu_proc (k_cpu (m_kernel m)) = Some 0 \<and> k_nextpid (m_kernel m) = 2 \<and> k_initproc (m_kernel m) = Some 0 \<and>
    (\<exists>p. k_procs (m_kernel m) = (replicate NPROC zero_proc)[0 := p] \<and> p_pid p = 1 \<and> p_parent p = None \<and> \<not> p_killed p \<and> length (p_ofile p) = 16)"
proof -
  let ?i = "init_proc 4096 8192 1"
  obtain k where k: "userinit 4096 8192 1 boot_kernel = Some k" "k_procs k = (replicate NPROC zero_proc)[0 := ?i]"
      "k_nextpid k = 2" "k_initproc k = Some 0" "k_ticks k = 0" using userinit_eq [of 4096 8192 1] by auto
  from userinit_inv [OF k(1)] have idk: "idle k" "cpu_proc (k_cpu k) = None" by (auto simp: calm_def)
  let ?m = "\<lparr>m_kernel = k, s_queue = [], s_pre_tick = 0\<rparr>"
  let ?k0 = "k\<lparr>k_cpu := (k_cpu k)\<lparr>cpu_IF := True\<rparr>\<rparr>"
  have pk: "pick (k_procs k) = [0]" using k(2) by (intro pick_single) (auto simp: init_proc_def INT_MAX_def)
  let ?m1 = "\<lparr>m_kernel = acq ?k0, s_queue = [0], s_pre_tick = 0\<rparr>"
  have r: "sched_round ?m = Some ?m1"
    using sched_round_eq [OF _ refl refl, of ?m] idk(1) k(5) pk by simp
  let ?p = "?i\<lparr>p_state := RUNNING, p_ticks := 1, p_total_cpu := 1\<rparr>"
  let ?k1 = "upd_proc 0 (\<lambda>q. q\<lparr>p_state := RUNNING, p_ticks := 1, p_total_cpu := 1\<rparr>)
      (kcall (SwitchUvm 0) ((acq ?k0)\<lparr>k_cpu := (k_cpu (acq ?k0))\<lparr>cpu_proc := Some 0\<rparr>\<rparr>))"
  have i0: "proc_at k 0 = ?i" using k(2) by (simp add: NPROC_def)
  have d: "dispatch 0 (acq ?k0) = Some ?k1"
    using i0 by (simp add: dispatch_def inc32_def init_proc_def INT_MAX_def Let_def)
  have "idle ?k0" using idk(1) by (simp add: idle_def)
  from locked_acq [OF this] have l1: "locked ?k1" by (simp add: locked_def)
  obtain k2 where f: "forkret ?k1 = Some k2" and k2: "cpu_proc (k_cpu k2) = Some 0" "k_nextpid k2 = 2" "k_initproc k2 = Some 0"
      "k_procs k2 = (replicate NPROC zero_proc)[0 := ?p]"
    using release_pt_locked [OF l1] k by (auto simp: forkret_def NPROC_def)
  have "p_resume (proc_at ?k1 0) = At_forkret" using i0 k(2) by (simp add: NPROC_def init_proc_def)
  from m_switch [of ?m1 0 "[]" ?k1 k2] d idk resumed.intros(1) [OF this f]
  have s: "mstep ?m1 \<lparr>m_kernel = k2, s_queue = [], s_pre_tick = 0\<rparr>" by simp
  have "mstep\<^sup>*\<^sup>* ?m \<lparr>m_kernel = k2, s_queue = [], s_pre_tick = 0\<rparr>"
    using m_round [OF _ _ r] idk(2) s by (simp add: rtranclp.rtrancl_into_rtrancl [OF rtranclp.rtrancl_into_rtrancl [OF rtranclp.rtrancl_refl]])
  then have "reachable \<lparr>m_kernel = k2, s_queue = [], s_pre_tick = 0\<rparr>" using k(1) unfolding reachable_def by blast
  then show ?thesis using k2 by (intro exI [of _ "\<lparr>m_kernel = k2, s_queue = [], s_pre_tick = 0\<rparr>"] conjI exI [of _ ?p])
     (auto simp: init_proc_def zero_proc_def)
qed

text \<open>The child that \<open>fork\<close> makes out of the free table entry \<open>old\<close>: whatever is not listed keeps what the
  entry's former owner left.\<close>

definition child_of :: "nat \<Rightarrow> proc \<Rightarrow> nat \<Rightarrow> nat \<Rightarrow> int \<Rightarrow> proc \<Rightarrow> proc" where
  "child_of cur parent ka cu pid old = old\<lparr>p_pid := pid, p_kstack := ka,
     p_tf := ka + KSTACKSIZE - sizeof_trapframe, p_context := ka + KSTACKSIZE - sizeof_trapframe - 4 - sizeof_context,
     p_resume := At_forkret, p_pgdir := cu, p_sz := p_sz parent, p_parent := Some cur,
     p_frame := (p_frame parent)\<lparr>tf_eax := 0\<rparr>, p_ofile := dup_files (p_ofile old) (p_ofile parent),
     p_cwd := p_cwd parent, p_name := take 15 (p_name parent), p_state := RUNNABLE\<rparr>"

lemma fork_eq:
  assumes on: "on_cpu p q k" and i: "List.find (\<lambda>i. p_state (proc_at k i) = UNUSED) [0..<NPROC] = Some i"
    and ka: "ka \<noteq> 0" "k_nextpid k \<noteq> INT_MAX" and cu: "cu \<noteq> 0"
  shows "\<exists>k'. fork ka cu k = Some (k_nextpid k, k') \<and> k_nextpid k' = k_nextpid k + 1 \<and>
    k_procs k' = (k_procs k)[i := child_of p (proc_at k p) ka cu (k_nextpid k) (proc_at k i)] \<and>
    k_calls k' = k_calls k @ dup_calls (p_ofile (proc_at k p)) @ [IDup (p_cwd (proc_at k p))]"
proof -
  have id: "idle k" and p: "myproc k = Some p" and t: "tinv (k_procs k) (k_nextpid k) (Some p) q" using on by (auto simp: on_cpu_def myproc_def)
  have ix: "i < length (k_procs k)" "p_state (proc_at k i) = UNUSED" using find_upt_Some [OF i] t by (auto simp: tinv_def)
  then have ip: "i \<noteq> p" using tinv_proc(3) [OF t] by auto
  from allocproc_eq [OF id i ix(1) ka] obtain k1 where a: "allocproc ka k = Some (Some i, k1)" "idle k1" "k_nextpid k1 = k_nextpid k + 1"
      "cpu_proc (k_cpu k1) = cpu_proc (k_cpu k)" "k_calls k1 = k_calls k"
      "k_procs k1 = (k_procs k)[i := (proc_at k i)\<lparr>p_state := EMBRYO, p_pid := k_nextpid k, p_kstack := ka,
        p_tf := ka + KSTACKSIZE - sizeof_trapframe, p_context := ka + KSTACKSIZE - sizeof_trapframe - 4 - sizeof_context,
        p_resume := At_forkret\<rparr>]" by blast
  let ?k2 = "upd_proc i (\<lambda>p. p\<lparr>p_pgdir := cu\<rparr>) k1"
  let ?c = "proc_at ?k2 p"
  let ?g = "\<lambda>x. x\<lparr>p_sz := p_sz ?c, p_parent := Some p, p_frame := (p_frame ?c)\<lparr>tf_eax := 0\<rparr>,
      p_ofile := dup_files (p_ofile x) (p_ofile ?c), p_cwd := p_cwd ?c, p_name := take 15 (p_name ?c)\<rparr>"
  define k3 where "k3 = upd_proc i ?g (?k2\<lparr>k_calls := k_calls ?k2 @ dup_calls (p_ofile ?c) @ [IDup (p_cwd ?c)]\<rparr>)"
  have id3: "idle k3" using a(2) by (simp add: k3_def idle_def)
  let ?k4 = "upd_proc i (\<lambda>p. p\<lparr>p_state := RUNNABLE\<rparr>) (acq k3)"
  have l4: "locked ?k4" using locked_acq [OF id3] by simp
  have "fork ka cu k = Some (p_pid (proc_at k3 i), rel ?k4)"
    using cu by (simp only: fork_def p a(1) Option.bind.bind_lunit prod.case option.case Let_def if_False k3_def [symmetric]
        acquire_pt_idle [OF id3] release_pt_locked [OF l4])
  moreover have "p_pid (proc_at k3 i) = k_nextpid k" using ix a by (simp add: k3_def)
  moreover have "k_procs (rel ?k4) = (k_procs k)[i := child_of p (proc_at k p) ka cu (k_nextpid k) (proc_at k i)]"
    using ix ip a by (simp add: k3_def child_of_def)
  ultimately show ?thesis using a ix ip by (simp add: k3_def)
qed

text \<open>The loop of \<open>exit\<close> over the table: every child of \<open>c\<close> gets the first process as its parent, nobody
  else's parent changes, and who is RUNNABLE stays so.\<close>

lemma wake_simps [simp]:
  "p_parent (wake p) = p_parent p" "p_pid (wake p) = p_pid p" "p_ofile (wake p) = p_ofile p" "p_cwd (wake p) = p_cwd p"
  "p_state p = RUNNABLE \<Longrightarrow> p_state (wake p) = RUNNABLE"
  by (simp_all add: wake_def)

lemma reparent_one_at:
  assumes "i < length (k_procs k)" "j < length (k_procs k)"
  shows "p_parent (proc_at (reparent_one c i k) j) = (if j = i \<and> p_parent (proc_at k j) = Some c then k_initproc k else p_parent (proc_at k j))"
    "p_pid (proc_at (reparent_one c i k) j) = p_pid (proc_at k j)"
    "p_ofile (proc_at (reparent_one c i k) j) = p_ofile (proc_at k j)"
    "p_state (proc_at k j) = RUNNABLE \<Longrightarrow> p_state (proc_at (reparent_one c i k) j) = RUNNABLE"
    "length (k_procs (reparent_one c i k)) = length (k_procs k)"
  using assms by (auto simp: reparent_one_def Let_def nth_list_update)

lemma reparent_one_frame:
  "k_cpu (reparent_one c i k) = k_cpu k" "k_lock (reparent_one c i k) = k_lock k" "k_initproc (reparent_one c i k) = k_initproc k"
  by (auto simp: reparent_one_def Let_def)

lemma reparent_fold:
  assumes "\<forall>i \<in> set is. i < length (k_procs k)" "distinct is" "j < length (k_procs k)"
  shows "p_parent (proc_at (fold (reparent_one c) is k) j) =
      (if j \<in> set is \<and> p_parent (proc_at k j) = Some c then k_initproc k else p_parent (proc_at k j)) \<and>
    p_pid (proc_at (fold (reparent_one c) is k) j) = p_pid (proc_at k j) \<and>
    p_ofile (proc_at (fold (reparent_one c) is k) j) = p_ofile (proc_at k j) \<and>
    (p_state (proc_at k j) = RUNNABLE \<longrightarrow> p_state (proc_at (fold (reparent_one c) is k) j) = RUNNABLE) \<and>
    k_cpu (fold (reparent_one c) is k) = k_cpu k \<and> k_lock (fold (reparent_one c) is k) = k_lock k \<and>
    length (k_procs (fold (reparent_one c) is k)) = length (k_procs k)"
  using assms
proof (induction "is" arbitrary: k)
  case (Cons i js)
  let ?k = "reparent_one c i k"
  have i: "i < length (k_procs k)" using Cons.prems(1) by simp
  note at = reparent_one_at [OF i Cons.prems(3), of c]
  note IH = Cons.IH [of ?k]
  have pre: "\<forall>i \<in> set js. i < length (k_procs ?k)" "distinct js" "j < length (k_procs ?k)"
    using Cons.prems at(5) by auto
  show ?case using IH [OF pre] at reparent_one_frame [of c i k] Cons.prems(2) by (auto split: if_splits)
qed simp

definition psi_ok :: "pschedinfo \<Rightarrow> bool" where
  "psi_ok psi = (length (ps_inuse psi) = NPROC \<and> length (ps_priority psi) = NPROC \<and> length (ps_nice psi) = NPROC \<and>
     length (ps_pid psi) = NPROC \<and> length (ps_ticks psi) = NPROC)"

definition psi_row :: "pschedinfo \<Rightarrow> nat \<Rightarrow> int \<times> int \<times> int \<times> int \<times> int" where
  "psi_row psi i = (ps_inuse psi ! i, ps_priority psi ! i, ps_nice psi ! i, ps_pid psi ! i, ps_ticks psi ! i)"

lemma report_one_row:
  assumes "psi_ok psi" "i < NPROC"
  shows "psi_ok (report_one k i psi)"
    "j \<noteq> i \<Longrightarrow> psi_row (report_one k i psi) j = psi_row psi j"
    "psi_row (report_one k i psi) i = (let p = proc_at k i; (u, pr, n, pid, t) = psi_row psi i in
       if p_state p \<noteq> UNUSED then (1, p_priority p, p_nice p, p_pid p, p_ticks p) else (0, pr, n, pid, t))"
  using assms by (auto simp: report_one_def psi_ok_def psi_row_def Let_def)

lemma report_fold_row:
  assumes "psi_ok psi" "\<forall>i \<in> set is. i < NPROC" "distinct is"
  shows "psi_row (fold (report_one k) is psi) j = (if j \<in> set is then psi_row (report_one k j psi) j else psi_row psi j)"
  using assms
proof (induction "is" arbitrary: psi)
  case (Cons i js)
  have i: "i < NPROC" using Cons.prems(2) by simp
  note r = report_one_row [OF Cons.prems(1) i, where k = k]
  have "psi_row (report_one k j (report_one k i psi)) j = psi_row (report_one k j psi) j" if "j \<in> set js"
  proof -
    have "j \<noteq> i" "j < NPROC" using that Cons.prems(2,3) by auto
    then show ?thesis using report_one_row(3) [OF r(1), where i = j and k = k] report_one_row(3) [OF Cons.prems(1), where i = j and k = k] r(2) by simp
  qed
  then show ?case using Cons.IH [OF r(1)] Cons.prems(2,3) r(2) by auto
qed simp

section \<open>Properties\<close>

text \<open>C23. In every state that the system reaches from the first process on, under any interleaving of
  system calls, interrupts and scheduling: a process is in state RUNNING exactly if it is the one on
  the CPU; the processes that the scheduler still has to run in its round are RUNNABLE; processes in
  use have distinct positive identifiers below the next one; nice values are between 0 and 20 and the
  counters do not leave the range of \<^verbatim>\<open>int\<close>.\<close>

theorem process_table_invariant:
  assumes "reachable m" "k = m_kernel m" "i < NPROC" "j < NPROC"
  shows "(p_state (proc_at k i) = RUNNING \<longleftrightarrow> cpu_proc (k_cpu k) = Some i) \<and>
    (i \<in> set (s_queue m) \<longrightarrow> p_state (proc_at k i) = RUNNABLE) \<and>
    (p_state (proc_at k i) \<noteq> UNUSED \<longrightarrow> 0 < p_pid (proc_at k i) \<and> p_pid (proc_at k i) < k_nextpid k) \<and>
    (p_state (proc_at k i) \<noteq> UNUSED \<and> p_state (proc_at k j) \<noteq> UNUSED \<and> p_pid (proc_at k i) = p_pid (proc_at k j) \<longrightarrow> i = j) \<and>
    p_nice (proc_at k i) \<in> {0..20} \<and> p_ticks (proc_at k i) \<in> {0..INT_MAX} \<and> p_priority (proc_at k i) \<in> {0..INT_MAX}"
proof -
  have t: "tinv (k_procs k) (k_nextpid k) (cpu_proc (k_cpu k)) (s_queue m)"
    using reachable_minv [OF assms(1)] assms(2) by (simp add: minv_def Let_def)
  then have "proc_ok (k_nextpid k) (proc_at k i)" using assms(3) by (rule tinv_proc(1))
  moreover have "p_state (proc_at k i) \<noteq> UNUSED \<and> p_state (proc_at k j) \<noteq> UNUSED \<and> p_pid (proc_at k i) = p_pid (proc_at k j) \<longrightarrow> i = j"
    using t assms(3,4) unfolding tinv_def pids_differ_def by metis
  ultimately show ?thesis using t assms(3) by (auto simp: tinv_def proc_ok_def)
qed

theorem process_table_invariant_witness:
  "\<exists>k. userinit 4096 8192 1 boot_kernel = Some k \<and>
    (p_state (proc_at k 0) = RUNNING \<longleftrightarrow> cpu_proc (k_cpu k) = Some 0) \<and> p_nice (proc_at k 0) \<in> {0..20}"
proof -
  obtain k where k: "userinit 4096 8192 1 boot_kernel = Some k" using userinit_returns [of 4096 8192 1] by auto
  let ?m = "\<lparr>m_kernel = k, s_queue = [], s_pre_tick = 0\<rparr>"
  have "reachable ?m" using k by (auto simp: reachable_def)
  from process_table_invariant [OF this, of k 0 0] k show ?thesis by (simp add: NPROC_def)
qed

text \<open>C24. A round of the scheduler always comes to its choice: when the tick counter is at a new multiple
  of 100 every process's ticks are halved and its priority recomputed, and then the processes to run
  are exactly the RUNNABLE ones of least priority value, in table order.\<close>

theorem sched_round_picks:
  assumes "reachable m" "cpu_proc (k_cpu (m_kernel m)) = None" "s_queue m = []"
  shows "\<exists>m'. sched_round m = Some m' \<and>
    k_procs (m_kernel m') = (if k_ticks (m_kernel m) mod 100 = 0 \<and> s_pre_tick m \<noteq> k_ticks (m_kernel m)
      then map decay (k_procs (m_kernel m)) else k_procs (m_kernel m)) \<and>
    s_queue m' = filter (\<lambda>i. p_state (proc_at (m_kernel m') i) = RUNNABLE \<and>
      (\<forall>j < NPROC. p_state (proc_at (m_kernel m') j) = RUNNABLE \<longrightarrow>
        p_priority (proc_at (m_kernel m') i) \<le> p_priority (proc_at (m_kernel m') j))) [0..<NPROC]"
proof -
  have id: "idle (m_kernel m)" and t: "tinv (k_procs (m_kernel m)) (k_nextpid (m_kernel m)) None []"
    using reachable_minv [OF assms(1)] assms(2,3) by (auto simp: minv_def Let_def)
  define ps where "ps = (if k_ticks (m_kernel m) mod 100 = 0 \<and> s_pre_tick m \<noteq> k_ticks (m_kernel m)
      then map decay (k_procs (m_kernel m)) else k_procs (m_kernel m))"
  have "tinv ps (k_nextpid (m_kernel m)) None []" using t tinv_decay [OF t] by (simp add: ps_def)
  then have "\<forall>i < NPROC. p_priority (ps ! i) \<le> INT_MAX" by (auto simp: tinv_def proc_ok_def)
  note pick = pick_spec [OF this, unfolded runnable_def]
  from sched_round_eq [OF id refl refl] have
    "\<exists>m'. sched_round m = Some m' \<and> k_procs (m_kernel m') = ps \<and> s_queue m' = pick ps"
    by (simp add: ps_def)
  then show ?thesis unfolding pick ps_def [symmetric] by auto
qed

theorem sched_round_picks_witness:
  "\<exists>k m'. userinit 4096 8192 1 boot_kernel = Some k \<and> sched_round \<lparr>m_kernel = k, s_queue = [], s_pre_tick = 0\<rparr> = Some m' \<and>
    set (s_queue m') \<subseteq> {i. p_state (proc_at (m_kernel m') i) = RUNNABLE}"
proof -
  obtain k where k: "userinit 4096 8192 1 boot_kernel = Some k" "cpu_proc (k_cpu k) = None"
    using userinit_returns [of 4096 8192 1] by auto
  let ?m = "\<lparr>m_kernel = k, s_queue = [], s_pre_tick = 0\<rparr>"
  have "reachable ?m" using k by (auto simp: reachable_def)
  from sched_round_picks [OF this] k show ?thesis by auto
qed

text \<open>A free table entry that carries nothing over from a former owner: no open file, not killed, and the scheduling
  fields 0. The entries of the table are so at boot and stay so until a process is made in them (or \<^verbatim>\<open>kill(0)\<close> marks one killed).\<close>

definition fresh_entry :: "proc \<Rightarrow> bool" where
  "fresh_entry p = (p_state p = UNUSED \<and> p_ofile p = replicate 16 0 \<and> \<not> p_killed p \<and>
     p_ticks p = 0 \<and> p_priority p = 0 \<and> p_nice p = 0 \<and> p_sleep_ticks p = 0)"

lemma dup_files_fresh: "length fs = n \<Longrightarrow> dup_files (replicate n 0) fs = fs"
  by (auto simp: dup_files_def map2_map_map intro: nth_equalityI)

text \<open>C26. \<open>fork\<close> with memory at hand, when the first free entry of the process table is a fresh one (\<^const>\<open>fresh_entry\<close>: not used before): it returns a
  fresh identifier, and the entry becomes a RUNNABLE child of the caller with the caller's memory size, name, working directory and
  open files (duplicated), the copied page table, a copy of the caller's trap frame in which \<^verbatim>\<open>eax\<close> is 0, and a stack whose first
  switch leads to \<^verbatim>\<open>forkret\<close>. Its ticks, priority and nice value are 0, as the README of the project asks (line 58). No other process
  changes. An entry that was used before keeps the scheduling fields of its former owner (\<^verbatim>\<open>proc.c:189\<close>), which the theorem
  excludes.\<close>

theorem fork_child:
  assumes "reachable m" "k = m_kernel m" "cpu_proc (k_cpu k) = Some p" "i < NPROC" "fresh_entry (proc_at k i)"
    "\<forall>j < i. p_state (proc_at k j) \<noteq> UNUSED" "ka \<noteq> 0" "cu \<noteq> 0" "k_nextpid k < INT_MAX" "length (p_ofile (proc_at k p)) = 16"
  shows "\<exists>k' c. fork ka cu k = Some (k_nextpid k, k') \<and> k_nextpid k' = k_nextpid k + 1 \<and> k_procs k' = (k_procs k)[i := c] \<and>
    k_calls k' = k_calls k @ dup_calls (p_ofile (proc_at k p)) @ [IDup (p_cwd (proc_at k p))] \<and>
    p_state c = RUNNABLE \<and> p_pid c = k_nextpid k \<and> p_parent c = Some p \<and> \<not> p_killed c \<and>
    p_ticks c = 0 \<and> p_priority c = 0 \<and> p_nice c = 0 \<and> p_sleep_ticks c = 0 \<and>
    p_sz c = p_sz (proc_at k p) \<and> p_pgdir c = cu \<and> p_ofile c = p_ofile (proc_at k p) \<and> p_cwd c = p_cwd (proc_at k p) \<and>
    p_name c = take 15 (p_name (proc_at k p)) \<and> p_frame c = (p_frame (proc_at k p))\<lparr>tf_eax := 0\<rparr> \<and>
    p_kstack c = ka \<and> p_tf c = ka + KSTACKSIZE - sizeof_trapframe \<and>
    p_context c = ka + KSTACKSIZE - sizeof_trapframe - 4 - sizeof_context \<and> p_resume c = At_forkret \<and>
    p_pid c \<notin> {p_pid (proc_at k j) |j. j < NPROC \<and> p_state (proc_at k j) \<noteq> UNUSED}"
proof -
  let ?c = "child_of p (proc_at k p) ka cu (k_nextpid k) (proc_at k i)"
  have on: "on_cpu p (s_queue m) k" using reachable_on_cpu [OF assms(1)] assms(2,3) by simp
  then have t: "tinv (k_procs k) (k_nextpid k) (Some p) (s_queue m)" by (simp add: on_cpu_def)
  have "List.find (\<lambda>i. p_state (proc_at k i) = UNUSED) [0..<NPROC] = Some i"
    using assms(4-6) by (auto simp: find_Some_iff fresh_entry_def)
  from fork_eq [OF on this assms(7) _ assms(8)] assms(9) obtain k' where
    k': "fork ka cu k = Some (k_nextpid k, k')" "k_nextpid k' = k_nextpid k + 1" "k_procs k' = (k_procs k)[i := ?c]"
      "k_calls k' = k_calls k @ dup_calls (p_ofile (proc_at k p)) @ [IDup (p_cwd (proc_at k p))]" by auto
  have "p_pid (proc_at k j) < k_nextpid k" if "j < NPROC" "p_state (proc_at k j) \<noteq> UNUSED" for j
    using tinv_proc(1) [OF t that(1)] that by (auto simp: proc_ok_def)
  then have "k_nextpid k \<notin> {p_pid (proc_at k j) |j. j < NPROC \<and> p_state (proc_at k j) \<noteq> UNUSED}" by fastforce
  with k' assms(5,10) show ?thesis
    by (intro exI [of _ k'] exI [of _ ?c]) (simp add: child_of_def fresh_entry_def dup_files_fresh)
qed

theorem fork_child_witness:
  "\<exists>m k'. reachable m \<and> fork 4096 8192 (m_kernel m) = Some (2, k') \<and> p_state (proc_at k' 1) = RUNNABLE \<and>
    p_ticks (proc_at k' 1) = 0 \<and> p_nice (proc_at k' 1) = 0"
proof -
  obtain m p where m: "reachable m" "cpu_proc (k_cpu (m_kernel m)) = Some 0" "k_nextpid (m_kernel m) = 2"
      "k_procs (m_kernel m) = (replicate NPROC zero_proc)[0 := p]" "p_pid p = 1" "length (p_ofile p) = 16" using sample_running by blast
  have "p_state p = RUNNING" using reachable_on_cpu [OF m(1,2)] tinv_proc(3) m(4) by (fastforce simp: on_cpu_def NPROC_def)
  with fork_child [OF m(1) refl m(2), of 1 4096 8192] m show ?thesis
    by (auto simp: NPROC_def zero_proc_def fresh_entry_def INT_MAX_def)
qed

text \<open>C27. \<open>exit\<close> of any process but the first: it becomes a ZOMBIE with no open files, all its children
  (and nobody else) pass to the first process, and every process that sleeps without a tick count, so
  its parent in \<^verbatim>\<open>wait\<close>, is RUNNABLE afterwards.\<close>

theorem exit_reparents:
  assumes "idle k" "length (k_procs k) = NPROC" "cpu_proc (k_cpu k) = Some p" "p < NPROC" "k_initproc k \<noteq> Some p" "i < NPROC"
  shows "\<exists>k'. exit k = Some k' \<and> p_state (proc_at k' p) = ZOMBIE \<and> set (p_ofile (proc_at k' p)) \<subseteq> {0} \<and>
    p_pid (proc_at k' i) = p_pid (proc_at k i) \<and>
    p_parent (proc_at k' i) = (if p_parent (proc_at k i) = Some p then k_initproc k else p_parent (proc_at k i)) \<and>
    (i \<noteq> p \<and> p_state (proc_at k i) = SLEEPING \<and> p_sleep_ticks (proc_at k i) = 0 \<longrightarrow> p_state (proc_at k' i) = RUNNABLE)"
proof -
  let ?k1 = "upd_proc p (\<lambda>p. p\<lparr>p_ofile := map (\<lambda>_. 0) (p_ofile p), p_cwd := 0\<rparr>)
    (k\<lparr>k_calls := k_calls k @ map FileClose (filter (\<lambda>f. f \<noteq> 0) (p_ofile (proc_at k p))) @ [BeginOp, IPut (p_cwd (proc_at k p)), EndOp]\<rparr>)"
  have id1: "idle ?k1" using assms(1) by simp
  define k2 where "k2 = wakeup1 (proc_chan (p_parent (proc_at (acq ?k1) p))) (acq ?k1)"
  define k3 where "k3 = fold (reparent_one p) [0..<NPROC] k2"
  have len: "length (k_procs k2) = NPROC" using assms(2) by (simp add: k2_def)
  have r: "p_parent (proc_at k3 j) = (if p_parent (proc_at k2 j) = Some p then k_initproc k2 else p_parent (proc_at k2 j)) \<and>
      p_pid (proc_at k3 j) = p_pid (proc_at k2 j) \<and> p_ofile (proc_at k3 j) = p_ofile (proc_at k2 j) \<and>
      (p_state (proc_at k2 j) = RUNNABLE \<longrightarrow> p_state (proc_at k3 j) = RUNNABLE) \<and> k_cpu k3 = k_cpu k2 \<and> k_lock k3 = k_lock k2 \<and>
      length (k_procs k3) = NPROC" if "j < NPROC" for j
    using reparent_fold [of "[0..<NPROC]" k2 j p] len that by (simp add: k3_def)
  have l3: "locked (upd_proc p (\<lambda>p. p\<lparr>p_state := ZOMBIE\<rparr>) k3)"
    using locked_cong [of k3 k2] r [OF assms(4)] locked_acq [OF id1] by (simp add: k2_def)
  have "p_state (proc_at (upd_proc p (\<lambda>p. p\<lparr>p_state := ZOMBIE\<rparr>) k3) p) \<noteq> RUNNING" using r [OF assms(4)] assms(4) by simp
  note so = sched_out_eq [OF l3 this, of In_exit]
  have e: "exit k = Some (upd_proc p (\<lambda>q. q\<lparr>p_resume := In_exit, p_intena := cpu_intena (k_cpu k3)\<rparr>) (upd_proc p (\<lambda>p. p\<lparr>p_state := ZOMBIE\<rparr>) k3))"
    using not_sym [OF assms(5)] by (simp only: exit_def myproc_def Let_def assms(3) Option.bind.bind_lunit if_False acquire_pt_idle [OF id1]
        k2_def [symmetric] k3_def [symmetric] so upd_proc_simps(5))
  have i2: "p_pid (proc_at k2 i) = p_pid (proc_at k i)" "p_parent (proc_at k2 i) = p_parent (proc_at k i)" "k_initproc k2 = k_initproc k"
      "p_ofile (proc_at k2 p) = map (\<lambda>_. 0) (p_ofile (proc_at k p))"
      "i \<noteq> p \<and> p_state (proc_at k i) = SLEEPING \<and> p_sleep_ticks (proc_at k i) = 0 \<longrightarrow> p_state (proc_at k2 i) = RUNNABLE"
    using assms(2,4,6) by (auto simp: k2_def nth_list_update wake_def)
  show ?thesis using r [OF assms(6)] r [OF assms(4)] i2 assms(4,6)
    by (cases "i = p") (simp_all add: e, auto)
qed

definition two_procs :: kernel where
  "two_procs = boot_kernel\<lparr>k_procs := (replicate NPROC zero_proc)[0 := zero_proc\<lparr>p_state := SLEEPING, p_pid := 1\<rparr>,
      1 := zero_proc\<lparr>p_state := RUNNING, p_pid := 2, p_parent := Some 0\<rparr>,
      2 := zero_proc\<lparr>p_state := ZOMBIE, p_pid := 3, p_parent := Some 1\<rparr>],
     k_cpu := (boot_cpu False)\<lparr>cpu_proc := Some 1\<rparr>, k_initproc := Some 0, k_nextpid := 4\<rparr>"

lemma two_procs_simps:
  "idle two_procs" "length (k_procs two_procs) = NPROC" "cpu_proc (k_cpu two_procs) = Some 1" "k_initproc two_procs = Some 0"
  "proc_at two_procs 0 = zero_proc\<lparr>p_state := SLEEPING, p_pid := 1\<rparr>"
  "proc_at two_procs 1 = zero_proc\<lparr>p_state := RUNNING, p_pid := 2, p_parent := Some 0\<rparr>"
  "proc_at two_procs 2 = zero_proc\<lparr>p_state := ZOMBIE, p_pid := 3, p_parent := Some 1\<rparr>"
  by (simp_all add: two_procs_def boot_kernel_def boot_cpu_def idle_def free_lock_def NPROC_def)

theorem exit_reparents_witness:
  "\<exists>k'. exit two_procs = Some k' \<and> p_state (proc_at k' 1) = ZOMBIE \<and> p_parent (proc_at k' 2) = Some 0"
  using exit_reparents [of two_procs 1 2] two_procs_simps by (auto simp: NPROC_def)

text \<open>C28. \<open>wait\<close> with an exited child: it returns the identifier of the first one in table order, gives its
  stack and address space back, frees its table entry and changes no other process.\<close>

theorem wait_reaps:
  assumes "idle k" "cpu_proc (k_cpu k) = Some p" "i < NPROC" "p_parent (proc_at k i) = Some p" "p_state (proc_at k i) = ZOMBIE"
    "\<forall>j < i. \<not> (p_parent (proc_at k j) = Some p \<and> p_state (proc_at k j) = ZOMBIE)"
  shows "\<exists>k'. wait k = Some (Returns (p_pid (proc_at k i)), k') \<and> idle k' \<and>
    k_procs k' = (k_procs k)[i := (proc_at k i)\<lparr>p_kstack := 0, p_pid := 0, p_parent := None, p_name := [], p_killed := False,
      p_state := UNUSED\<rparr>] \<and>
    k_calls k' = k_calls k @ [KFree (p_kstack (proc_at k i)), FreeVm (p_pgdir (proc_at k i))]"
proof -
  have f: "List.find (\<lambda>i. p_parent (proc_at k i) = Some p \<and> p_state (proc_at k i) = ZOMBIE) [0..<NPROC] = Some i"
    using assms(3-6) by (auto simp: find_Some_iff)
  let ?k = "upd_proc i (\<lambda>p. p\<lparr>p_kstack := 0, p_pid := 0, p_parent := None, p_name := [], p_killed := False, p_state := UNUSED\<rparr>)
      (kcall (FreeVm (p_pgdir (proc_at k i))) (kcall (KFree (p_kstack (proc_at k i))) (acq k)))"
  have l: "locked ?k" using locked_acq [OF assms(1)] by simp
  have "wait k = Some (Returns (p_pid (proc_at k i)), rel ?k)"
    using assms(2) f release_pt_locked [OF l] by (simp add: wait_def wait_round_def myproc_def acquire_pt_idle [OF assms(1)] Let_def)
  then show ?thesis using idle_rel [OF l] by (simp add: kcall_def)
qed

theorem wait_reaps_witness:
  "\<exists>k'. wait two_procs = Some (Returns 3, k') \<and> k_calls k' = [KFree 0, FreeVm 0]"
proof -
  have "\<forall>j < 2. \<not> (p_parent (proc_at two_procs j) = Some 1 \<and> p_state (proc_at two_procs j) = ZOMBIE)"
    using two_procs_simps(5,6) by (auto simp: less_2_cases_iff zero_proc_def)
  from wait_reaps [OF two_procs_simps(1,3), of 2, OF _ _ _ this] two_procs_simps(7) show ?thesis
    by (auto simp: NPROC_def two_procs_def boot_kernel_def zero_proc_def)
qed

text \<open>\<^verbatim>\<open>kill(0)\<close> is not an error while the table has a free entry: the identifier of a free entry is 0,
  so \<open>kill\<close> answers 0 and marks that entry as killed; nothing clears the mark when the entry is allocated,
  so that the next process made in it starts out killed.\<close>

theorem kill_zero_hits_free_entry:
  assumes "on_cpu p q k" "i < NPROC" "p_state (proc_at k i) = UNUSED" "p_pid (proc_at k i) = 0"
    "\<forall>j < i. p_pid (proc_at k j) \<noteq> 0 \<and> p_state (proc_at k j) \<noteq> UNUSED" "ka \<noteq> 0" "cu \<noteq> 0" "k_nextpid k < INT_MAX"
  shows "\<exists>k1 k2. kill 0 k = Some (0, k1) \<and> fork ka cu k1 = Some (k_nextpid k, k2) \<and>
    p_pid (proc_at k2 i) = k_nextpid k \<and> p_state (proc_at k2 i) = RUNNABLE \<and> p_killed (proc_at k2 i)"
proof -
  have c: "calm q k" and p: "cpu_proc (k_cpu k) = Some p" using assms(1) by (auto simp: on_cpu_calm)
  then have id: "idle k" and len: "length (k_procs k) = NPROC" by (auto simp: calm_def tinv_def)
  have f: "List.find (\<lambda>i. p_pid (proc_at k i) = 0) [0..<NPROC] = Some i" using assms(2-5) by (auto simp: find_Some_iff)
  let ?f = "\<lambda>p. p\<lparr>p_killed := True, p_state := (if p_state p = SLEEPING then RUNNABLE else p_state p)\<rparr>"
  let ?k = "upd_proc i ?f (acq k)"
  have l: "locked ?k" using locked_acq [OF id] by simp
  have k1: "kill 0 k = Some (0, rel ?k)"
    using f release_pt_locked [OF l] by (simp add: kill_def acquire_pt_idle [OF id] Let_def)
  have on: "on_cpu p q (rel ?k)" using kill_inv [OF c k1] p by (simp add: on_cpu_calm)
  have at: "proc_at (rel ?k) j = (if j = i then (proc_at k i)\<lparr>p_killed := True\<rparr> else proc_at k j)" if "j < NPROC" for j
    using that assms(2,3) len by (auto simp: nth_list_update)
  have u: "List.find (\<lambda>i. p_state (proc_at (rel ?k) i) = UNUSED) [0..<NPROC] = Some i"
    using assms(2,3,5) at by (auto simp: find_Some_iff simp del: rel_simps upd_proc_simps)
  have n: "k_nextpid (rel ?k) = k_nextpid k" by simp
  from fork_eq [OF on u assms(6) _ assms(7)] n assms(8) obtain k2 where
    k2: "fork ka cu (rel ?k) = Some (k_nextpid k, k2)"
      "k_procs k2 = (k_procs (rel ?k))[i := child_of p (proc_at (rel ?k) p) ka cu (k_nextpid k) (proc_at (rel ?k) i)]" by auto
  have "proc_at k2 i = child_of p (proc_at (rel ?k) p) ka cu (k_nextpid k) ((proc_at k i)\<lparr>p_killed := True\<rparr>)"
    using k2(2) at [OF assms(2)] assms(2) len by simp
  then show ?thesis using k1 k2(1) by (auto simp: child_of_def)
qed

theorem kill_zero_hits_free_entry_witness:
  "\<exists>m k1 k2. reachable m \<and> kill 0 (m_kernel m) = Some (0, k1) \<and> fork 4096 8192 k1 = Some (2, k2) \<and> p_killed (proc_at k2 1)"
proof -
  obtain m p where m: "reachable m" "cpu_proc (k_cpu (m_kernel m)) = Some 0" "k_nextpid (m_kernel m) = 2"
      "k_procs (m_kernel m) = (replicate NPROC zero_proc)[0 := p]" "p_pid p = 1" using sample_running by blast
  note on = reachable_on_cpu [OF m(1,2)]
  have "p_state p = RUNNING" using on tinv_proc(3) m(4) by (fastforce simp: on_cpu_def NPROC_def)
  with kill_zero_hits_free_entry [OF on, of 1 4096 8192] m show ?thesis
    by (auto simp: NPROC_def zero_proc_def INT_MAX_def)
qed

text \<open>\<^verbatim>\<open>getschedstate\<close> answers 0 and reports, in row \<open>i\<close> of the caller's structure, whether entry \<open>i\<close> of the
  process table is in use and the priority, nice value, identifier and ticks of its process; the other
  columns of the row of a free entry keep what the caller had there. A null pointer is answered by -1.\<close>

theorem getschedstate_reports:
  assumes "psi_ok psi" "i < NPROC"
  shows "\<exists>psi'. getschedstate (Some psi) k = (0, Some psi') \<and>
    psi_row psi' i = (if p_state (proc_at k i) \<noteq> UNUSED
      then (1, p_priority (proc_at k i), p_nice (proc_at k i), p_pid (proc_at k i), p_ticks (proc_at k i))
      else (0, snd (psi_row psi i))) \<and> getschedstate None k = (-1, None)"
  using report_fold_row [OF assms(1), of "[0..<NPROC]" k i] report_one_row(3) [OF assms, where k = k] assms(2)
  by (simp add: getschedstate_def Let_def psi_row_def)

theorem getschedstate_reports_witness:
  "\<exists>psi'. getschedstate (Some \<lparr>ps_inuse = replicate NPROC 7, ps_priority = replicate NPROC 0, ps_nice = replicate NPROC 0,
     ps_pid = replicate NPROC 0, ps_ticks = replicate NPROC 0\<rparr>) two_procs = (0, Some psi') \<and> psi_row psi' 2 = (1, 0, 0, 3, 0)"
  using getschedstate_reports [of "\<lparr>ps_inuse = replicate NPROC 7, ps_priority = replicate NPROC 0, ps_nice = replicate NPROC 0,
     ps_pid = replicate NPROC 0, ps_ticks = replicate NPROC 0\<rparr>" 2 two_procs] two_procs_simps(7)
  by (auto simp: psi_ok_def NPROC_def zero_proc_def)

end
