(* ===== verification/Kstring.thy ===== *)
theory Kstring
  imports Memory
begin

text \<open>
  The string and memory routines of the kernel (\<^verbatim>\<open>string.c\<close>) and of the user library
  (\<^verbatim>\<open>ulib.c\<close>) of the teaching operating system, on byte-addressed memory. A loop that
  looks for a terminating NUL may run forever: its model is then \<^term>\<open>None\<close>. The two files
  define some names twice; the user library's versions carry the prefix \<open>u\<close>.
\<close>

section \<open>Blocks\<close>

fun stosb :: "mem \<Rightarrow> nat \<Rightarrow> u8 \<Rightarrow> nat \<Rightarrow> mem" where
  "stosb m a c 0 = m"
| "stosb m a c (Suc n) = stosb (m(a := c)) (a + 1) c n"

fun stosl :: "mem \<Rightarrow> nat \<Rightarrow> u32 \<Rightarrow> nat \<Rightarrow> mem" where
  "stosl m a w 0 = m"
| "stosl m a w (Suc n) = stosl (wr32 m a w) (a + 4) w n"

definition memset :: "mem \<Rightarrow> nat \<Rightarrow> u32 \<Rightarrow> nat \<Rightarrow> mem" where
  "memset m dst c n =
    (if dst mod 4 = 0 \<and> n mod 4 = 0
     then let c = c AND 0xFF in stosl m dst (push_bit 24 c OR push_bit 16 c OR push_bit 8 c OR c) (n div 4)
     else stosb m dst (ucast c) n)"

fun memcmp :: "mem \<Rightarrow> nat \<Rightarrow> nat \<Rightarrow> nat \<Rightarrow> int" where
  "memcmp m s1 s2 0 = 0"
| "memcmp m s1 s2 (Suc n) = (if m s1 \<noteq> m s2 then uint (m s1) - uint (m s2) else memcmp m (s1 + 1) (s2 + 1) n)"

fun copy_up :: "mem \<Rightarrow> nat \<Rightarrow> nat \<Rightarrow> nat \<Rightarrow> mem" where
  "copy_up m d s 0 = m"
| "copy_up m d s (Suc n) = copy_up (m(d := m s)) (d + 1) (s + 1) n"

fun copy_down :: "mem \<Rightarrow> nat \<Rightarrow> nat \<Rightarrow> nat \<Rightarrow> mem" where
  "copy_down m d s 0 = m"
| "copy_down m d s (Suc n) = copy_down (m(d - 1 := m (s - 1))) (d - 1) (s - 1) n"

definition memmove :: "mem \<Rightarrow> nat \<Rightarrow> nat \<Rightarrow> nat \<Rightarrow> mem" where
  "memmove m dst src n =
    (if src < dst \<and> dst < src + n then copy_down m (dst + n) (src + n) n else copy_up m dst src n)"

definition memcpy :: "mem \<Rightarrow> nat \<Rightarrow> nat \<Rightarrow> nat \<Rightarrow> mem" where
  "memcpy m dst src n = memmove m dst src n"

section \<open>Strings\<close>

fun strncmp :: "mem \<Rightarrow> nat \<Rightarrow> nat \<Rightarrow> nat \<Rightarrow> int" where
  "strncmp m p q 0 = 0"
| "strncmp m p q (Suc n) =
    (if m p \<noteq> 0 \<and> m p = m q then strncmp m (p + 1) (q + 1) n else uint (m p) - uint (m q))"

fun zero_fill :: "mem \<Rightarrow> nat \<Rightarrow> nat \<Rightarrow> mem" where
  "zero_fill m s 0 = m"
| "zero_fill m s (Suc n) = zero_fill (m(s := 0)) (s + 1) n"

fun strncpy_loop :: "mem \<Rightarrow> nat \<Rightarrow> nat \<Rightarrow> nat \<Rightarrow> mem" where
  "strncpy_loop m s t 0 = m"
| "strncpy_loop m s t (Suc n) =
    (let m' = m(s := m t) in if m t \<noteq> 0 then strncpy_loop m' (s + 1) (t + 1) n else zero_fill m' (s + 1) n)"

definition strncpy :: "mem \<Rightarrow> nat \<Rightarrow> nat \<Rightarrow> int \<Rightarrow> mem" where
  "strncpy m s t n = strncpy_loop m s t (nat n)"

text \<open>The loop of \<^verbatim>\<open>safestrcpy\<close>, and the NUL after it: \<open>n\<close> is the value before the next decrement.\<close>

fun safestrcpy_loop :: "mem \<Rightarrow> nat \<Rightarrow> nat \<Rightarrow> nat \<Rightarrow> mem" where
  "safestrcpy_loop m s t 0 = m"
| "safestrcpy_loop m s t (Suc n) =
    (if n = 0 then m(s := 0)
     else let m' = m(s := m t) in if m t \<noteq> 0 then safestrcpy_loop m' (s + 1) (t + 1) n else m'(s + 1 := 0))"

definition safestrcpy :: "mem \<Rightarrow> nat \<Rightarrow> nat \<Rightarrow> int \<Rightarrow> mem" where
  "safestrcpy m s t n = safestrcpy_loop m s t (nat n)"

partial_function (option) strlen_loop :: "mem \<Rightarrow> nat \<Rightarrow> nat \<Rightarrow> nat option" where
  "strlen_loop m s n = (if m (s + n) = 0 then Some n else strlen_loop m s (n + 1))"

definition strlen :: "mem \<Rightarrow> nat \<Rightarrow> nat option" where
  "strlen m s = strlen_loop m s 0"

section \<open>The user library\<close>

partial_function (option) strcpy :: "mem \<Rightarrow> nat \<Rightarrow> nat \<Rightarrow> mem option" where
  "strcpy m s t = (let m' = m(s := m t) in if m t \<noteq> 0 then strcpy m' (s + 1) (t + 1) else Some m')"

partial_function (option) strcmp :: "mem \<Rightarrow> nat \<Rightarrow> nat \<Rightarrow> int option" where
  "strcmp m p q = (if m p \<noteq> 0 \<and> m p = m q then strcmp m (p + 1) (q + 1) else Some (uint (m p) - uint (m q)))"

definition umemset :: "mem \<Rightarrow> nat \<Rightarrow> u32 \<Rightarrow> nat \<Rightarrow> mem" where
  "umemset m dst c n = stosb m dst (ucast c) n"

text \<open>The null pointer is \<open>Some None\<close>.\<close>

partial_function (option) strchr :: "mem \<Rightarrow> nat \<Rightarrow> u8 \<Rightarrow> nat option option" where
  "strchr m s c = (if m s = 0 then Some None else if m s = c then Some (Some s) else strchr m (s + 1) c)"

text \<open>\<open>input\<close> are the results of the successive calls of \<^verbatim>\<open>read\<close> for one byte, \<^term>\<open>None\<close> for end of file or
  an error; the limit is decreased instead of comparing \<open>i + 1\<close> with it.\<close>

fun gets_loop :: "mem \<Rightarrow> nat \<Rightarrow> nat \<Rightarrow> nat \<Rightarrow> u8 option list \<Rightarrow> (mem \<times> u8 option list) option" where
  "gets_loop m buf i 0 inp = Some (m(buf + i := 0), inp)"
| "gets_loop m buf i (Suc n) inp =
    (case inp of
       [] \<Rightarrow> None
     | None # inp \<Rightarrow> Some (m(buf + i := 0), inp)
     | Some c # inp \<Rightarrow>
         if c = 10 \<or> c = 13 then Some (m(buf + i := c, buf + i + 1 := 0), inp)
         else gets_loop (m(buf + i := c)) buf (i + 1) n inp)"

definition gets :: "mem \<Rightarrow> nat \<Rightarrow> int \<Rightarrow> u8 option list \<Rightarrow> (mem \<times> u8 option list) option" where
  "gets m buf limit inp = gets_loop m buf 0 (nat (limit - 1)) inp"

text \<open>An overflow of the \<^verbatim>\<open>int\<close> accumulator has no defined result.\<close>

partial_function (option) atoi_loop :: "mem \<Rightarrow> nat \<Rightarrow> int \<Rightarrow> int option" where
  "atoi_loop m s n =
    (if 48 \<le> m s \<and> m s \<le> 57
     then if 2 ^ 31 \<le> n * 10 + uint (m s) then None else atoi_loop m (s + 1) (n * 10 + uint (m s) - 48)
     else Some n)"

definition atoi :: "mem \<Rightarrow> nat \<Rightarrow> int option" where
  "atoi m s = atoi_loop m s 0"

definition umemmove :: "mem \<Rightarrow> nat \<Rightarrow> nat \<Rightarrow> int \<Rightarrow> mem" where
  "umemmove m dst src n = copy_up m dst src (nat n)"

section \<open>Blocks: equivalence with the reference\<close>

lemma empty_blocks [simp]: "memset_m m a c 0 = m" "memcpy_m m d s 0 = m"
  by (auto simp: memset_m_def memcpy_m_def fun_eq_iff)

lemma stosb_eq: "stosb m a c n = memset_m m a c n"
proof (induction n arbitrary: m a)
  case (Suc n)
  show ?case unfolding stosb.simps Suc by (auto simp: memset_m_def fun_eq_iff)
qed simp

lemma stosl_eq:
  assumes "\<And>k. k < 4 \<Longrightarrow> byte_of k w = c"
  shows "stosl m a w n = memset_m m a c (4 * n)"
proof (induction n arbitrary: m a)
  case (Suc n)
  have "wr32 m a w = memset_m m a c 4"
    using assms [of 0] assms [of 1] assms [of 2] assms [of 3]
    by (auto simp: wr32_def memset_m_def fun_eq_iff)
  then show ?case unfolding stosl.simps Suc by (auto simp: memset_m_def fun_eq_iff)
qed simp

lemma fill_word_bytes:
  fixes c :: u32
  assumes "d = c AND 0xFF" "k < 4"
  shows "byte_of k (push_bit 24 d OR push_bit 16 d OR push_bit 8 d OR d) = ucast c"
proof -
  have b: "bit d n \<longleftrightarrow> n < 8 \<and> bit c n" for n
  proof -
    have "(0xFF :: u32) = mask 8" by (simp add: mask_eq_exp_minus_1)
    then show ?thesis using bit_imp_le_length [of c n] unfolding assms(1) by (simp only: bit_and_iff bit_mask_iff) auto
  qed
  consider "k = 0" | "k = 1" | "k = 2" | "k = 3" using assms(2) by linarith
  then show ?thesis
    by cases (rule bit_word_eqI, auto simp: byte_of_def bit_ucast_iff bit_drop_bit_eq bit_or_iff bit_push_bit_iff b)+
qed

lemma memset_eq: "memset m dst c n = memset_m m dst (ucast c) n"
proof (cases "dst mod 4 = 0 \<and> n mod 4 = 0")
  case True
  then have "4 * (n div 4) = n" by auto
  with True show ?thesis
    using stosl_eq [OF fill_word_bytes [OF refl, of _ c]] by (simp add: memset_def Let_def)
next
  case False
  then show ?thesis by (auto simp: memset_def stosb_eq)
qed

lemma copy_up_eq: "d \<le> s \<or> s + n \<le> d \<Longrightarrow> copy_up m d s n = memcpy_m m d s n"
proof (induction m d s n rule: copy_up.induct)
  case (2 m d s n)
  have "d + 1 \<le> s + 1 \<or> s + 1 + n \<le> d + 1" using 2(2) by auto
  note IH = 2(1) [OF this]
  have "(m(d := m s)) (Suc s + (x - Suc d)) = m (s + (x - d))" if "Suc d \<le> x" "x < Suc (d + n)" for x
  proof -
    have e: "Suc s + (x - Suc d) = s + (x - d)" and "s + (x - d) \<noteq> d" using that 2(2) by linarith+
    then show ?thesis unfolding e by (simp only: fun_upd_apply if_False)
  qed
  then show ?case unfolding copy_up.simps IH by (auto simp: memcpy_m_def fun_eq_iff)
qed simp

lemma copy_down_eq: "s \<le> d \<Longrightarrow> copy_down m (d + n) (s + n) n = memcpy_m m d s n"
proof (induction n arbitrary: m)
  case (Suc n)
  have IH: "copy_down (m(d + n := m (s + n))) (d + n) (s + n) n = memcpy_m (m(d + n := m (s + n))) d s n"
    using Suc by blast
  have e: "copy_down m (d + Suc n) (s + Suc n) (Suc n) = copy_down (m(d + n := m (s + n))) (d + n) (s + n) n" by simp
  show ?case using Suc.prems unfolding e IH by (auto simp: memcpy_m_def fun_eq_iff)
qed simp

lemma memmove_eq: "memmove m dst src n = memcpy_m m dst src n"
  using copy_up_eq copy_down_eq by (auto simp: memmove_def)


section \<open>Strings in memory\<close>

text \<open>\<open>cstr m a s\<close>: at address \<open>a\<close> there is the NUL-terminated string \<open>s\<close>.\<close>

definition cstr :: "mem \<Rightarrow> nat \<Rightarrow> u8 list \<Rightarrow> bool" where
  "cstr m a s = (mem_bytes m a (length s) = s \<and> 0 \<notin> set s \<and> m (a + length s) = 0)"

lemma cstr_Nil [simp]: "cstr m a [] \<longleftrightarrow> m a = 0"
  by (simp add: cstr_def mem_bytes_def)

lemma cstr_Cons [simp]: "cstr m a (c # s) \<longleftrightarrow> m a = c \<and> c \<noteq> 0 \<and> cstr m (a + 1) s"
  by (auto simp: cstr_def mem_bytes_Suc)

lemma cstr_cong: "(\<And>i. i \<le> length s \<Longrightarrow> m (a + i) = m' (a' + i)) \<Longrightarrow> cstr m a s = cstr m' a' s"
  unfolding cstr_def by (simp add: mem_bytes_cong [of "length s" m a m' a'])

lemma cstr_fun_upd: "b < a \<or> a + length s < b \<Longrightarrow> cstr (m(b := c)) a s = cstr m a s"
  by (rule cstr_cong) auto

lemma strlen_loop_cstr: "cstr m (a + n) s \<Longrightarrow> strlen_loop m a n = Some (n + length s)"
proof (induction s arbitrary: n)
  case Nil then show ?case by (subst strlen_loop.simps) simp
next
  case (Cons c s)
  then have "m (a + n) \<noteq> 0" "cstr m (a + (n + 1)) s" by (auto simp: add.assoc)
  with Cons.IH [of "n + 1"] show ?case by (subst strlen_loop.simps) simp
qed

lemma strlen_cstr: "cstr m a s \<Longrightarrow> strlen m a = Some (length s)"
  using strlen_loop_cstr [of m a 0 s] by (simp add: strlen_def)

text \<open>Copying stops at the NUL or at the last byte of the destination, whichever comes first.\<close>

lemma safestrcpy_loop_cstr:
  assumes "cstr m t s" "0 < n" "d + n \<le> t \<or> t + length s < d"
  shows "cstr (safestrcpy_loop m d t n) d (take (n - 1) s) \<and>
    (\<forall>b. b < d \<or> d + n \<le> b \<longrightarrow> safestrcpy_loop m d t n b = m b)"
  using assms
proof (induction s arbitrary: m d t n)
  case Nil
  then obtain k where n: "n = Suc k" by (cases n) auto
  show ?case using Nil by (cases k) (auto simp: n Let_def)
next
  case (Cons c s)
  then obtain k where n: "n = Suc k" by (cases n) auto
  show ?case
  proof (cases k)
    case 0
    then show ?thesis using n by auto
  next
    case (Suc j)
    define m1 where "m1 = m(d := c)"
    have c: "m t = c" "c \<noteq> 0" "cstr m (t + 1) s" using Cons.prems(1) by auto
    have dis: "d + 1 + k \<le> t + 1 \<or> t + 1 + length s < d + 1" using Cons.prems(3) n by auto
    have "cstr m1 (t + 1) s" using c(3) Cons.prems(3) n unfolding m1_def by (subst cstr_fun_upd) auto
    from Cons.IH [OF this _ dis] Suc have
      IH: "cstr (safestrcpy_loop m1 (d + 1) (t + 1) k) (d + 1) (take (k - 1) s)"
        "\<And>b. b < d + 1 \<or> d + 1 + k \<le> b \<Longrightarrow> safestrcpy_loop m1 (d + 1) (t + 1) k b = m1 b" by (auto simp del: safestrcpy_loop.simps)
    have e: "safestrcpy_loop m d t n = safestrcpy_loop m1 (d + 1) (t + 1) k" using n Suc c(1,2) by (simp add: Let_def m1_def)
    show ?thesis unfolding e using IH c(2) n Suc by (auto simp: m1_def simp del: safestrcpy_loop.simps)
  qed
qed

lemma strcmp_cstr:
  assumes "cstr m p s" "cstr m q t"
  shows "\<exists>r. strcmp m p q = Some r \<and> (r = 0 \<longleftrightarrow> s = t)"
  using assms
proof (induction s arbitrary: p q t)
  case Nil
  then show ?case by (subst strcmp.simps, cases t) (auto simp: uint_0_iff)
next
  case (Cons c s)
  show ?case
  proof (cases t)
    case Nil
    with Cons.prems show ?thesis by (subst strcmp.simps) (auto simp: uint_0_iff)
  next
    case (Cons d t')
    have "c \<noteq> d \<Longrightarrow> uint c - uint d \<noteq> 0" by (simp add: word_uint_eq_iff)
    with Cons Cons.prems Cons.IH [of "p + 1" "q + 1" t'] show ?thesis by (subst strcmp.simps) auto
  qed
qed

lemma strcpy_cstr:
  assumes "cstr m t s" "d + length s < t \<or> t + length s < d"
  shows "\<exists>m'. strcpy m d t = Some m' \<and> cstr m' d s \<and> (\<forall>b. b < d \<or> d + length s < b \<longrightarrow> m' b = m b)"
  using assms
proof (induction s arbitrary: m d t)
  case Nil
  then show ?case by (subst strcpy.simps) (auto simp: Let_def)
next
  case (Cons c s)
  define m1 where "m1 = m(d := c)"
  have c: "m t = c" "c \<noteq> 0" "cstr m (t + 1) s" using Cons.prems(1) by auto
  have "cstr m1 (t + 1) s" using c(3) Cons.prems(2) unfolding m1_def by (subst cstr_fun_upd) auto
  from Cons.IH [OF this, of "d + 1"] Cons.prems(2) obtain m' where
    m': "strcpy m1 (d + 1) (t + 1) = Some m'" "cstr m' (d + 1) s" "\<forall>b. b < d + 1 \<or> d + 1 + length s < b \<longrightarrow> m' b = m1 b" by auto
  have "strcpy m d t = Some m'" using c m'(1) by (subst strcpy.simps) (simp add: Let_def m1_def)
  then show ?case using m' c by (auto simp: m1_def)
qed

lemma atoi_loop_digits:
  assumes "cstr m a (map (\<lambda>d. 48 + word_of_nat d) ds @ rest)" "list_all (\<lambda>d. d < 10) ds"
    "rest = [] \<or> hd rest < 48 \<or> 57 < hd rest"
    "0 \<le> n" "foldl (\<lambda>n d. n * 10 + int d) n ds + 48 < 2 ^ 31"
  shows "atoi_loop m a n = Some (foldl (\<lambda>n d. n * 10 + int d) n ds)"
  using assms
proof (induction ds arbitrary: a n)
  case Nil
  have "\<not> (48 \<le> m a \<and> m a \<le> 57)" using Nil by (cases rest) auto
  then show ?case by (subst atoi_loop.simps) auto
next
  case (Cons d ds)
  have d: "d < 10" using Cons.prems(2) by simp
  have u: "uint (48 + word_of_nat d :: u8) = 48 + int d"
    using d by (simp add: uint_word_ariths(1) unsigned_of_nat take_bit_eq_mod)
  have ma: "m a = 48 + word_of_nat d" using Cons.prems(1) by simp
  have range: "48 \<le> m a" "m a \<le> 57" using d u ma by (auto simp: word_le_def)
  have mono: "n \<le> foldl (\<lambda>n d. n * 10 + int d) n ds" if "0 \<le> n" for n :: int and ds
    using that
  proof (induction ds arbitrary: n)
    case (Cons e es)
    have "n \<le> n * 10 + int e" using Cons.prems by simp
    also have "\<dots> \<le> foldl (\<lambda>n d. n * 10 + int d) (n * 10 + int e) es"
      using Cons.IH [of "n * 10 + int e"] Cons.prems by linarith
    finally show ?case by simp
  qed simp
  have "n * 10 + int d \<le> foldl (\<lambda>n d. n * 10 + int d) (n * 10 + int d) ds" using mono [of "n * 10 + int d" ds] Cons.prems(4) by simp
  then have "\<not> 2 ^ 31 \<le> n * 10 + uint (m a)" using Cons.prems(5) u ma by simp
  moreover have "atoi_loop m (a + 1) (n * 10 + int d) = Some (foldl (\<lambda>n d. n * 10 + int d) (n * 10 + int d) ds)"
    using Cons.IH [of "a + 1" "n * 10 + int d"] Cons.prems by auto
  ultimately show ?case using range u ma by (subst atoi_loop.simps) simp
qed

section \<open>Properties\<close>

text \<open>The block operations do what they promise for every alignment and overlap: \<open>memmove\<close> leaves in
  the destination the bytes that the source held before the call even if the blocks overlap, and
  \<open>memset\<close>, which stores whole words when it can, equals the byte-wise fill; no byte outside the
  destination changes.\<close>

theorem block_operations_correct:
  "mem_bytes (memmove m dst src n) dst n = mem_bytes m src n \<and>
   mem_bytes (memset m a c k) a k = replicate k (ucast c) \<and>
   (b < dst \<or> dst + n \<le> b \<longrightarrow> memmove m dst src n b = m b) \<and>
   (b < a \<or> a + k \<le> b \<longrightarrow> memset m a c k b = m b)"
  unfolding memmove_eq memset_eq
  by (auto simp: memcpy_other memset_other intro!: nth_equalityI) (simp add: memset_m_def)

theorem block_operations_correct_witness:
  "mem_bytes (memmove (\<lambda>i. word_of_nat i) 2 0 4) 2 4 = [0, 1, 2, 3] \<and> memmove (\<lambda>i. word_of_nat i) 2 0 4 6 = 6"
  using block_operations_correct [of "\<lambda>i. word_of_nat i" 2 0 4 0 0 0 6] by (simp add: mem_bytes_def numeral_eq_Suc)

text \<open>C40. \<open>safestrcpy\<close> into a buffer of positive size \<open>n\<close> leaves there a NUL-terminated string, the source
  cut to \<open>n - 1\<close> characters, and writes to no address outside the buffer.\<close>

theorem safestrcpy_correct:
  assumes "cstr m t s" "0 < n" "d + nat n \<le> t \<or> t + length s < d"
  shows "cstr (safestrcpy m d t n) d (take (nat n - 1) s) \<and>
    (\<forall>b. b < d \<or> d + nat n \<le> b \<longrightarrow> safestrcpy m d t n b = m b)"
  using safestrcpy_loop_cstr [OF assms(1) _ assms(3)] assms(2) by (simp add: safestrcpy_def)

theorem safestrcpy_correct_witness:
  "cstr (safestrcpy ((\<lambda>_. 0)(50 := 104, 51 := 105, 52 := 33)) 0 50 3) 0 [104, 105]"
  using safestrcpy_correct [of "(\<lambda>_. 0)(50 := 104, 51 := 105, 52 := 33)" 50 "[104, 105, 33]" 3 0] by simp

end
