(* ===== verification/Grep.thy ===== *)
theory Grep
  imports CString
begin

text \<open>
  The user program \<^verbatim>\<open>grep\<close> of the teaching operating system (\<^verbatim>\<open>grep.c\<close>): its matcher for the
  operators \<^verbatim>\<open>^ . * $\<close> and the loop that reads a file in pieces and prints the lines that
  match. A C string is the list of its characters before the NUL; the results of \<^verbatim>\<open>read\<close> are an
  argument.
\<close>

section \<open>The matcher\<close>

function (sequential) matchhere :: "string \<Rightarrow> string \<Rightarrow> bool"
  and matchstar :: "char \<Rightarrow> string \<Rightarrow> string \<Rightarrow> bool" where
  "matchhere re tx =
    (case re of
       [] \<Rightarrow> True
     | c # re' \<Rightarrow>
         if re' \<noteq> [] \<and> hd re' = CHR ''*'' then matchstar c (tl re') tx
         else if c = CHR ''$'' \<and> re' = [] then tx = []
         else case tx of [] \<Rightarrow> False | t # tx' \<Rightarrow> if c = CHR ''.'' \<or> c = t then matchhere re' tx' else False)"
| "matchstar c re tx =
    (if matchhere re tx then True
     else case tx of [] \<Rightarrow> False | t # tx' \<Rightarrow> if t = c \<or> c = CHR ''.'' then matchstar c re tx' else False)"
  by pat_completeness auto
termination
  by (relation "inv_image (less_than <*lex*> less_than)
      (\<lambda>x. case x of Inl (re, t) \<Rightarrow> (2 * length re, length t) | Inr (c, re, t) \<Rightarrow> (2 * length re + 1, length t))")
    (auto simp: neq_Nil_conv)

declare matchhere.simps [simp del] matchstar.simps [simp del]

fun match_loop :: "string \<Rightarrow> string \<Rightarrow> bool" where
  "match_loop re [] = matchhere re []"
| "match_loop re (t # tx) = (matchhere re (t # tx) \<or> match_loop re tx)"

definition match :: "string \<Rightarrow> string \<Rightarrow> bool" where
  "match re tx = (case re of c # re' \<Rightarrow> if c = CHR ''^'' then matchhere re' tx else match_loop re tx
     | [] \<Rightarrow> match_loop re tx)"

section \<open>Reading and printing\<close>

abbreviation newline :: char where "newline \<equiv> CHR 0x0A"

text \<open>The inner loop of \<^verbatim>\<open>grep\<close>: \<open>p\<close> are the bytes from the pointer \<^verbatim>\<open>p\<close> to the end of the data. It prints the
  matching lines and leaves the bytes after the last newline.\<close>

function scan_lines :: "string \<Rightarrow> string \<Rightarrow> string \<times> string" where
  "scan_lines pat p =
    (case strchr (takeWhile (\<lambda>c. c \<noteq> CHR 0x00) p) newline of
       None \<Rightarrow> ([], p)
     | Some _ \<Rightarrow>
         let line = takeWhile (\<lambda>c. c \<noteq> newline) p; (out, rest) = scan_lines pat (drop (length line + 1) p) in
         ((if match pat line then line @ [newline] else []) @ out, rest))"
  by pat_completeness auto
termination
  by (relation "measure (\<lambda>(pat, p). length p)") (auto simp: strchr_def neq_Nil_conv split: list.splits, (metis dropWhile.simps(1) list.distinct(1) takeWhile.simps(1) length_greater_0_conv diff_less zero_less_Suc))

declare scan_lines.simps [simp del]

definition BUFSIZE :: nat where "BUFSIZE = 1024"

text \<open>The outer loop: \<open>kept\<close> are the first \<^verbatim>\<open>m\<close> bytes of the buffer. A read of no bytes, or a negative result
  (\<open>None\<close>), ends it; a read never delivers more than it was asked for.\<close>

fun grep_loop :: "string \<Rightarrow> string \<Rightarrow> string option list \<Rightarrow> string option" where
  "grep_loop pat kept [] = None"
| "grep_loop pat kept (None # reads) = Some []"
| "grep_loop pat kept (Some chunk # reads) =
    (if BUFSIZE - length kept - 1 < length chunk then None
     else if chunk = [] then Some []
     else
       let data = kept @ chunk; (out, rest) = scan_lines pat data;
           kept' = (if rest = data then [] else rest) in
       map_option ((@) out) (grep_loop pat kept' reads))"

definition grep :: "string \<Rightarrow> string option list \<Rightarrow> string option" where
  "grep pat reads = grep_loop pat [] reads"

section \<open>What a pattern means\<close>

datatype item = One char | Star char | Eol

fun parse_re :: "string \<Rightarrow> item list" where
  "parse_re [] = []"
| "parse_re [c] = (if c = CHR ''$'' then [Eol] else [One c])"
| "parse_re (c # d # re) = (if d = CHR ''*'' then Star c # parse_re re else One c # parse_re (d # re))"

definition accepts :: "char \<Rightarrow> char \<Rightarrow> bool" where
  "accepts c t = (c = CHR ''.'' \<or> c = t)"

text \<open>\<open>denotes is s rest\<close>: the items match \<open>s\<close> when \<open>rest\<close> follows it in the text.\<close>

inductive denotes :: "item list \<Rightarrow> string \<Rightarrow> string \<Rightarrow> bool" where
  "denotes [] [] rest"
| "accepts c t \<Longrightarrow> denotes is s rest \<Longrightarrow> denotes (One c # is) (t # s) rest"
| "list_all (accepts c) ts \<Longrightarrow> denotes is s rest \<Longrightarrow> denotes (Star c # is) (ts @ s) rest"
| "denotes [Eol] [] []"

inductive_cases denotes_NilE: "denotes [] s rest"
inductive_cases denotes_OneE: "denotes (One c # is) s rest"
inductive_cases denotes_StarE: "denotes (Star c # is) s rest"
inductive_cases denotes_EolE: "denotes [Eol] s rest"

definition prefix_match :: "item list \<Rightarrow> string \<Rightarrow> bool" where
  "prefix_match is tx = (\<exists>s rest. tx = s @ rest \<and> denotes is s rest)"

lemma prefix_match_Nil: "prefix_match [] tx"
  unfolding prefix_match_def by (rule exI [of _ "[]"]) (auto intro: denotes.intros)

lemma prefix_match_One:
  "prefix_match (One c # is) tx \<longleftrightarrow> (\<exists>t tx'. tx = t # tx' \<and> accepts c t \<and> prefix_match is tx')"
proof
  assume "prefix_match (One c # is) tx"
  then obtain s rest where "tx = s @ rest" "denotes (One c # is) s rest" by (auto simp: prefix_match_def)
  then show "\<exists>t tx'. tx = t # tx' \<and> accepts c t \<and> prefix_match is tx'"
    unfolding prefix_match_def by (elim denotes_OneE) auto
next
  assume "\<exists>t tx'. tx = t # tx' \<and> accepts c t \<and> prefix_match is tx'"
  then obtain t s rest where "tx = t # s @ rest" "accepts c t" "denotes is s rest" by (auto simp: prefix_match_def)
  then show "prefix_match (One c # is) tx"
    unfolding prefix_match_def by (intro exI [of _ "t # s"] exI [of _ rest]) (auto intro: denotes.intros)
qed

lemma prefix_match_Star:
  "prefix_match (Star c # is) tx \<longleftrightarrow> prefix_match is tx \<or>
    (\<exists>t tx'. tx = t # tx' \<and> accepts c t \<and> prefix_match (Star c # is) tx')"
proof
  assume "prefix_match (Star c # is) tx"
  then obtain ts s rest where t: "tx = ts @ s @ rest" "list_all (accepts c) ts" "denotes is s rest"
    by (auto simp: prefix_match_def elim!: denotes_StarE)
  show "prefix_match is tx \<or> (\<exists>t tx'. tx = t # tx' \<and> accepts c t \<and> prefix_match (Star c # is) tx')"
  proof (cases ts)
    case Nil
    with t show ?thesis by (auto simp: prefix_match_def)
  next
    case (Cons u us)
    have "denotes (Star c # is) (us @ s) rest" using t Cons by (intro denotes.intros) auto
    with t Cons show ?thesis by (auto simp: prefix_match_def)
  qed
next
  assume "prefix_match is tx \<or> (\<exists>t tx'. tx = t # tx' \<and> accepts c t \<and> prefix_match (Star c # is) tx')"
  then show "prefix_match (Star c # is) tx"
  proof
    assume "prefix_match is tx"
    then obtain s rest where "tx = s @ rest" "denotes is s rest" by (auto simp: prefix_match_def)
    then show ?thesis using denotes.intros(3) [of c "[]" "is" s rest] unfolding prefix_match_def by auto
  next
    assume "\<exists>t tx'. tx = t # tx' \<and> accepts c t \<and> prefix_match (Star c # is) tx'"
    then obtain t ts s rest where "tx = t # ts @ s @ rest" "accepts c t" "list_all (accepts c) ts" "denotes is s rest"
      by (auto simp: prefix_match_def elim!: denotes_StarE)
    then show ?thesis using denotes.intros(3) [of c "t # ts" "is" s rest]
      unfolding prefix_match_def by (intro exI [of _ "t # ts @ s"] exI [of _ rest]) auto
  qed
qed

lemma prefix_match_Eol: "prefix_match [Eol] tx \<longleftrightarrow> tx = []"
  by (auto simp: prefix_match_def elim!: denotes_EolE intro: denotes.intros)

lemma matchhere_unfold:
  "matchhere [] tx = True"
  "matchhere [c] tx = (if c = CHR ''$'' then tx = [] else tx \<noteq> [] \<and> accepts c (hd tx))"
  "matchhere (c # d # re) tx = (if d = CHR ''*'' then matchstar c re tx
     else tx \<noteq> [] \<and> accepts c (hd tx) \<and> matchhere (d # re) (tl tx))"
    apply (subst matchhere.simps; simp)
   apply (subst matchhere.simps; cases tx; simp add: accepts_def matchhere.simps [of "[]"])
  apply (subst matchhere.simps; cases tx; simp add: accepts_def)
  done

lemma matchstar_unfold:
  "matchstar c re tx = (matchhere re tx \<or> tx \<noteq> [] \<and> accepts c (hd tx) \<and> matchstar c re (tl tx))"
  by (subst matchstar.simps; cases tx; auto simp: accepts_def)

lemma matchstar_eq:
  assumes "\<And>tx. matchhere re tx \<longleftrightarrow> prefix_match is tx"
  shows "matchstar c re tx \<longleftrightarrow> prefix_match (Star c # is) tx"
proof (induction tx)
  case Nil
  show ?case using assms [of "[]"] prefix_match_Star [of c "is" "[]"] matchstar_unfold [of c re "[]"] by blast
next
  case (Cons t tx)
  show ?case unfolding prefix_match_Star [of c "is" "t # tx"] matchstar_unfold [of c re "t # tx"] assms list.sel Cons by blast
qed

lemma matchhere_eq: "matchhere re tx \<longleftrightarrow> prefix_match (parse_re re) tx"
proof (induction re arbitrary: tx rule: parse_re.induct)
  case 1
  then show ?case by (simp add: matchhere_unfold prefix_match_Nil)
next
  case (2 c)
  then show ?case
    by (cases tx) (auto simp: matchhere_unfold prefix_match_Eol prefix_match_One prefix_match_Nil)
next
  case (3 c d r)
  show ?case
  proof (cases "d = CHR ''*''")
    case True
    from matchstar_eq [OF 3(1) [OF True], of c tx] True show ?thesis by (simp add: matchhere_unfold(3))
  next
    case False
    from 3(2) [OF False, of "tl tx"] False show ?thesis
      by (cases tx) (simp_all add: matchhere_unfold(3) prefix_match_One)
  qed
qed

lemma match_loop_eq: "match_loop re tx \<longleftrightarrow> (\<exists>before after. tx = before @ after \<and> prefix_match (parse_re re) after)"
proof (induction tx)
  case (Cons t tx)
  have "(\<exists>before after. t # tx = before @ after \<and> prefix_match (parse_re re) after) \<longleftrightarrow>
      prefix_match (parse_re re) (t # tx) \<or> (\<exists>before after. tx = before @ after \<and> prefix_match (parse_re re) after)"
    by (metis append_Cons append_Nil neq_Nil_conv list.inject)
  then show ?case using Cons by (simp add: matchhere_eq)
qed (simp add: matchhere_eq)

section \<open>Lines\<close>

text \<open>The finished lines of a text, and what follows the last newline.\<close>

fun complete_lines :: "string \<Rightarrow> string list \<times> string" where
  "complete_lines [] = ([], [])"
| "complete_lines (c # s) =
    (let (ls, r) = complete_lines s in
     if c = newline then ([] # ls, r) else case ls of [] \<Rightarrow> ([], c # r) | l # ls \<Rightarrow> ((c # l) # ls, r))"

definition print_lines :: "string list \<Rightarrow> string" where
  "print_lines ls = concat (map (\<lambda>l. l @ [newline]) ls)"

lemma complete_lines_none: "newline \<notin> set s \<Longrightarrow> complete_lines s = ([], s)"
  by (induction s) auto

lemma complete_lines_line: "newline \<notin> set l \<Longrightarrow> complete_lines (l @ newline # s) = (l # fst (complete_lines s), snd (complete_lines s))"
  by (induction l) (auto split: prod.splits)

lemma complete_lines_append:
  "complete_lines (s @ t) = (fst (complete_lines s) @ fst (complete_lines (snd (complete_lines s) @ t)),
     snd (complete_lines (snd (complete_lines s) @ t)))"
proof (induction s)
  case (Cons c s)
  obtain ls r where s: "complete_lines s = (ls, r)" by fastforce
  obtain ms q where t: "complete_lines (r @ t) = (ms, q)" by fastforce
  have IH: "complete_lines (s @ t) = (ls @ ms, q)" using Cons s t by simp
  show ?case using s t IH by (cases ls) (auto split: list.splits)
qed simp

lemma complete_lines_rest: "snd (complete_lines s) = s \<longleftrightarrow> newline \<notin> set s" "length (snd (complete_lines s)) \<le> length s"
proof -
  have l: "length (snd (complete_lines s)) \<le> length s \<and> (newline \<in> set s \<longrightarrow> length (snd (complete_lines s)) < length s)"
    by (induction s) (auto split: prod.splits list.splits)
  then show "length (snd (complete_lines s)) \<le> length s" by simp
  show "snd (complete_lines s) = s \<longleftrightarrow> newline \<notin> set s" using l complete_lines_none [of s] by (metis less_irrefl snd_conv)
qed

lemma complete_lines_tail: "newline \<notin> set (snd (complete_lines s))"
  by (induction s) (auto split: prod.splits list.splits)

lemma complete_lines_no_NUL: "CHR 0x00 \<notin> set s \<Longrightarrow> CHR 0x00 \<notin> set (snd (complete_lines s))"
  by (induction s) (auto split: prod.splits list.splits)

lemma scan_lines_eq:
  assumes "CHR 0x00 \<notin> set p"
  shows "scan_lines pat p = (print_lines (filter (match pat) (fst (complete_lines p))), snd (complete_lines p))"
  using assms
proof (induction "length p" arbitrary: p rule: less_induct)
  case less
  have nul: "takeWhile (\<lambda>c. c \<noteq> CHR 0x00) p = p" using less.prems by (auto simp: takeWhile_eq_all_conv)
  show ?case
  proof (cases "newline \<in> set p")
    case False
    then have "dropWhile (\<lambda>x. x \<noteq> newline) p = []" by (auto simp: dropWhile_eq_Nil_conv)
    then have "strchr p newline = None" by (simp only: strchr_def list.case)
    with False show ?thesis by (subst scan_lines.simps) (simp only: nul option.case, simp add: complete_lines_none print_lines_def)
  next
    case True
    define l where "l = takeWhile (\<lambda>c. c \<noteq> newline) p"
    define q where "q = tl (dropWhile (\<lambda>c. c \<noteq> newline) p)"
    have ne: "dropWhile (\<lambda>c. c \<noteq> newline) p \<noteq> []" using True by (simp only: dropWhile_eq_Nil_conv) blast
    have "hd (dropWhile (\<lambda>c. c \<noteq> newline) p) = newline" using hd_dropWhile [OF ne] by simp
    then have dw: "dropWhile (\<lambda>c. c \<noteq> newline) p = newline # q" using ne by (simp add: q_def list.expand)
    have p: "p = l @ newline # q" using takeWhile_dropWhile_id [of "\<lambda>c. c \<noteq> newline" p] unfolding dw l_def [symmetric] by simp
    have l: "newline \<notin> set l" by (auto simp: l_def dest: set_takeWhileD)
    have sx: "strchr p newline = Some (newline # q)" by (simp only: strchr_def dw list.case)
    have d: "drop (length l + 1) p = q" by (simp add: p)
    have "length q < length p" "CHR 0x00 \<notin> set q" using less.prems by (simp_all add: p)
    note IH = less.hyps [OF this]
    have c: "complete_lines p = (l # fst (complete_lines q), snd (complete_lines q))"
      unfolding p by (rule complete_lines_line [OF l])
    have "scan_lines pat p = (let (out, rest) = scan_lines pat q in ((if match pat l then l @ [newline] else []) @ out, rest))"
      by (subst scan_lines.simps) (simp only: nul sx option.case Let_def l_def [symmetric] d)
    then show ?thesis unfolding IH c by (simp add: print_lines_def)
  qed
qed

text \<open>Every read brings at least one newline, and the unfinished line leaves room for what is read next.\<close>

fun line_reads :: "string \<Rightarrow> string list \<Rightarrow> bool" where
  "line_reads kept [] = True"
| "line_reads kept (c # cs) =
    (newline \<in> set c \<and> CHR 0x00 \<notin> set c \<and> length kept + length c < BUFSIZE \<and> line_reads (snd (complete_lines (kept @ c))) cs)"

lemma grep_loop_eq:
  assumes "line_reads kept chunks" "CHR 0x00 \<notin> set kept" "newline \<notin> set kept"
  shows "grep_loop pat kept (map Some chunks @ [Some []]) =
    Some (print_lines (filter (match pat) (fst (complete_lines (kept @ concat chunks)))))"
  using assms
proof (induction chunks arbitrary: kept)
  case Nil
  then show ?case by (simp add: complete_lines_none print_lines_def)
next
  case (Cons c cs)
  let ?d = "kept @ c" and ?ls = "fst (complete_lines (kept @ c))" and ?r = "snd (complete_lines (kept @ c))"
  have c: "newline \<in> set ?d" "CHR 0x00 \<notin> set ?d" "length kept + length c < BUFSIZE" "line_reads ?r cs" "c \<noteq> []"
    using Cons.prems by auto
  have r: "?r \<noteq> ?d" using complete_lines_rest(1) c(1) by blast
  have nl: "newline \<notin> set ?r" by (rule complete_lines_tail)
  note IH = Cons.IH [OF c(4) complete_lines_no_NUL [OF c(2)] nl]
  have "complete_lines (kept @ concat (c # cs)) = (?ls @ fst (complete_lines (?r @ concat cs)), snd (complete_lines (?r @ concat cs)))"
    using complete_lines_append [of ?d "concat cs"] by simp
  moreover have "\<not> BUFSIZE - Suc (length kept) < length c" using c(3) by linarith
  ultimately show ?case using c r scan_lines_eq [OF c(2), of pat] IH by (simp add: print_lines_def Let_def)
qed

section \<open>Properties\<close>

text \<open>C35. The matcher decides exactly what a pattern means: it is a sequence of items, \<^verbatim>\<open>c*\<close> for any number of
  characters that \<open>c\<close> accepts, \<^verbatim>\<open>.\<close> accepting every character, a final \<^verbatim>\<open>$\<close> for the end of the line; it
  may match anywhere in the line, or only at its start after \<^verbatim>\<open>^\<close>.\<close>

theorem match_correct:
  "match re line \<longleftrightarrow>
    (if re \<noteq> [] \<and> hd re = CHR ''^''
     then \<exists>s rest. line = s @ rest \<and> denotes (parse_re (tl re)) s rest
     else \<exists>before s rest. line = before @ s @ rest \<and> denotes (parse_re re) s rest)"
  by (cases re) (auto simp: match_def matchhere_eq match_loop_eq prefix_match_def)

text \<open>On a text that arrives with at least one newline per read, \<open>grep\<close> prints exactly the finished lines
  that match, in order, and no line is lost where two reads meet.\<close>

theorem grep_prints_matches:
  assumes "line_reads [] chunks"
  shows "grep pat (map Some chunks @ [Some []]) =
    Some (print_lines (filter (match pat) (fst (complete_lines (concat chunks)))))"
  using grep_loop_eq [OF assms] by (simp add: grep_def)

theorem grep_prints_matches_witness:
  "grep ''b*c$'' [Some (''ab'' @ [newline] @ ''bc''), Some (''d'' @ [newline] @ ''bbc'' @ [newline]), Some []] = Some (''bbc'' @ [newline])"
proof -
  have m: "match ''b*c$'' ''ab'' = False" "match ''b*c$'' ''bcd'' = False" "match ''b*c$'' ''bbc'' = True"
    by (simp_all add: match_def matchhere.simps matchstar.simps)
  have "line_reads [] [''ab'' @ [newline] @ ''bc'', ''d'' @ [newline] @ ''bbc'' @ [newline]]" by (simp add: BUFSIZE_def)
  from grep_prints_matches [OF this, of "''b*c$''"] m show ?thesis by (simp add: print_lines_def)
qed

text \<open>A line that arrives in two pieces after reads without a newline loses its first piece: reading
  \<^verbatim>\<open>ab\<close> and then \<^verbatim>\<open>c\<close> with its newline, \<open>grep ab\<close> prints nothing although the line \<^verbatim>\<open>abc\<close> matches.\<close>

theorem grep_loses_split_line:
  "grep ''ab'' [Some ''ab'', Some [CHR ''c'', newline], Some []] = Some [] \<and> match ''ab'' ''abc''"
proof -
  have m: "match ''ab'' ''c'' = False" "match ''ab'' ''abc'' = True"
    by (simp_all add: match_def matchhere.simps)
  have "scan_lines ''ab'' ''ab'' = ([], ''ab'')" by (subst scan_lines_eq) (simp_all add: print_lines_def)
  moreover have "scan_lines ''ab'' [CHR ''c'', newline] = ([], [])" by (subst scan_lines_eq) (simp_all add: print_lines_def m)
  ultimately show ?thesis using m by (simp add: grep_def BUFSIZE_def)
qed

end
