(* ===== verification/Pipe.thy ===== *)
theory Pipe
  imports Prelude
begin

text \<open>
  Pipes of the teaching operating system (\<^verbatim>\<open>pipe.c\<close>). A pipe is a ring buffer of 512 bytes with two
  free-running 32-bit counters. A call that has to sleep ends with \<open>Asleep\<close> and the bytes still to be
  written; it goes on by entering again, with the lock taken anew. The calls of \<^verbatim>\<open>wakeup\<close> are recorded.
  A lock that is already held is never released while the caller spins, so acquiring it has no result.
\<close>

section \<open>State\<close>

definition PIPESIZE :: nat where "PIPESIZE = 512"

datatype chan = Ch_nread | Ch_nwrite

record pipe =
  pi_lock :: bool
  pi_data :: "u8 list"
  pi_nread :: u32
  pi_nwrite :: u32
  pi_readopen :: bool
  pi_writeopen :: bool
  pi_woken :: "chan list"

definition acquire_pi :: "pipe \<Rightarrow> pipe option" where
  "acquire_pi p = (if pi_lock p then None else Some (p\<lparr>pi_lock := True\<rparr>))"

definition release_pi :: "pipe \<Rightarrow> pipe option" where
  "release_pi p = (if pi_lock p then Some (p\<lparr>pi_lock := False\<rparr>) else panic ''release'')"

definition wakeup_pi :: "chan \<Rightarrow> pipe \<Rightarrow> pipe" where
  "wakeup_pi c p = p\<lparr>pi_woken := pi_woken p @ [c]\<rparr>"

text \<open>The fields that \<^verbatim>\<open>pipealloc\<close> sets in a fresh page \<open>old\<close>.\<close>

definition new_pipe :: "pipe \<Rightarrow> pipe" where
  "new_pipe old = old\<lparr>pi_readopen := True, pi_writeopen := True, pi_nwrite := 0, pi_nread := 0, pi_lock := False\<rparr>"

section \<open>Operations\<close>

datatype io = Finished int | Asleep

definition pipe_full :: "pipe \<Rightarrow> bool" where
  "pipe_full p = (pi_nwrite p = pi_nread p + word_of_nat PIPESIZE)"

definition put_byte :: "u8 \<Rightarrow> pipe \<Rightarrow> pipe" where
  "put_byte c p = p\<lparr>pi_data := (pi_data p)[unat (pi_nwrite p mod word_of_nat PIPESIZE) := c], pi_nwrite := pi_nwrite p + 1\<rparr>"

definition get_byte :: "pipe \<Rightarrow> u8 \<times> pipe" where
  "get_byte p = (pi_data p ! unat (pi_nread p mod word_of_nat PIPESIZE), p\<lparr>pi_nread := pi_nread p + 1\<rparr>)"

fun pipewrite_loop :: "bool \<Rightarrow> int \<Rightarrow> u8 list \<Rightarrow> pipe \<Rightarrow> (io \<times> u8 list \<times> pipe) option" where
  "pipewrite_loop killed n [] p = do { p \<leftarrow> release_pi (wakeup_pi Ch_nread p); Some (Finished n, [], p) }"
| "pipewrite_loop killed n (c # cs) p =
    (if pipe_full p then
       if \<not> pi_readopen p \<or> killed then do { p \<leftarrow> release_pi p; Some (Finished (-1), c # cs, p) }
       else do { p \<leftarrow> release_pi (wakeup_pi Ch_nread p); Some (Asleep, c # cs, p) }
     else pipewrite_loop killed n cs (put_byte c p))"

text \<open>\<open>n\<close> is the argument of the call, \<open>bs\<close> the bytes still to be written: at first the \<open>n\<close> bytes at \<^verbatim>\<open>addr\<close>.\<close>

definition pipewrite :: "bool \<Rightarrow> int \<Rightarrow> u8 list \<Rightarrow> pipe \<Rightarrow> (io \<times> u8 list \<times> pipe) option" where
  "pipewrite killed n bs p = do { p \<leftarrow> acquire_pi p; pipewrite_loop killed n bs p }"

fun read_loop :: "nat \<Rightarrow> pipe \<Rightarrow> u8 list \<times> pipe" where
  "read_loop 0 p = ([], p)"
| "read_loop (Suc n) p =
    (if pi_nread p = pi_nwrite p then ([], p)
     else let (c, p) = get_byte p; (cs, p) = read_loop n p in (c # cs, p))"

definition piperead :: "bool \<Rightarrow> int \<Rightarrow> pipe \<Rightarrow> (io \<times> u8 list \<times> pipe) option" where
  "piperead killed n p = do {
     p \<leftarrow> acquire_pi p;
     if pi_nread p = pi_nwrite p \<and> pi_writeopen p then
       if killed then do { p \<leftarrow> release_pi p; Some (Finished (-1), [], p) }
       else do { p \<leftarrow> release_pi p; Some (Asleep, [], p) }
     else do {
       let (bs, p) = read_loop (nat n) p;
       p \<leftarrow> release_pi (wakeup_pi Ch_nwrite p);
       Some (Finished (int (length bs)), bs, p)
     }
   }"

text \<open>The first component says that the page of the pipe is freed.\<close>

definition pipeclose :: "bool \<Rightarrow> pipe \<Rightarrow> (bool \<times> pipe) option" where
  "pipeclose writable p = do {
     p \<leftarrow> acquire_pi p;
     let p = (if writable then wakeup_pi Ch_nread (p\<lparr>pi_writeopen := False\<rparr>)
              else wakeup_pi Ch_nwrite (p\<lparr>pi_readopen := False\<rparr>));
     p \<leftarrow> release_pi p;
     Some (\<not> pi_readopen p \<and> \<not> pi_writeopen p, p)
   }"

section \<open>The ring buffer is a bounded queue\<close>

text \<open>The contract of a bounded queue of bytes, in terms of the list of its contents.\<close>

locale byte_fifo =
  fixes ok :: "'q \<Rightarrow> bool" and cont :: "'q \<Rightarrow> u8 list" and cap :: nat
    and put :: "u8 \<Rightarrow> 'q \<Rightarrow> 'q" and get :: "'q \<Rightarrow> u8 \<times> 'q"
  assumes bounded: "ok q \<Longrightarrow> length (cont q) \<le> cap"
    and ok_put: "ok q \<Longrightarrow> length (cont q) < cap \<Longrightarrow> ok (put c q)"
    and cont_put: "ok q \<Longrightarrow> length (cont q) < cap \<Longrightarrow> cont (put c q) = cont q @ [c]"
    and ok_get: "ok q \<Longrightarrow> cont q \<noteq> [] \<Longrightarrow> ok (snd (get q))"
    and cont_get: "ok q \<Longrightarrow> cont q \<noteq> [] \<Longrightarrow> cont q = fst (get q) # cont (snd (get q))"
begin

lemma put_all:
  "ok q \<Longrightarrow> length (cont q) + length cs \<le> cap \<Longrightarrow> ok (fold put cs q) \<and> cont (fold put cs q) = cont q @ cs"
proof (induction cs arbitrary: q)
  case (Cons c cs)
  then have "ok (put c q)" "cont (put c q) = cont q @ [c]" using ok_put cont_put by auto
  with Cons.IH [of "put c q"] Cons.prems show ?case by simp
qed simp

fun get_n :: "nat \<Rightarrow> 'q \<Rightarrow> u8 list \<times> 'q" where
  "get_n 0 q = ([], q)"
| "get_n (Suc n) q = (if cont q = [] then ([], q) else (fst (get q) # fst (get_n n (snd (get q))), snd (get_n n (snd (get q)))))"

lemma get_n_eq: "ok q \<Longrightarrow> ok (snd (get_n n q)) \<and> fst (get_n n q) = take n (cont q) \<and> cont (snd (get_n n q)) = drop n (cont q)"
proof (induction n arbitrary: q)
  case (Suc n)
  show ?case
  proof (cases "cont q = []")
    case False
    from ok_get [OF Suc.prems False] Suc.IH have IH: "ok (snd (get_n n (snd (get q))))"
      "fst (get_n n (snd (get q))) = take n (cont (snd (get q)))" "cont (snd (get_n n (snd (get q)))) = drop n (cont (snd (get q)))" by auto
    have "take (Suc n) (cont q) = fst (get q) # take n (cont (snd (get q)))" "drop (Suc n) (cont q) = drop n (cont (snd (get q)))"
      by (subst cont_get [OF Suc.prems False]; simp)+
    with IH False show ?thesis by simp
  qed (use Suc.prems in simp)
qed simp

text \<open>What is put in comes out in the same order.\<close>

lemma round_trip:
  assumes "ok q" "length (cont q) + length cs \<le> cap"
  shows "fst (get_n (length (cont q) + length cs) (fold put cs q)) = cont q @ cs"
  using put_all [OF assms] get_n_eq by simp

end

definition pipe_count :: "pipe \<Rightarrow> nat" where
  "pipe_count p = unat (pi_nwrite p - pi_nread p)"

definition pipe_content :: "pipe \<Rightarrow> u8 list" where
  "pipe_content p = map (\<lambda>i. pi_data p ! unat ((pi_nread p + word_of_nat i) mod word_of_nat PIPESIZE)) [0..<pipe_count p]"

definition pipe_ok :: "pipe \<Rightarrow> bool" where
  "pipe_ok p = (length (pi_data p) = PIPESIZE \<and> pipe_count p \<le> PIPESIZE)"

lemma length_content [simp]: "length (pipe_content p) = pipe_count p"
  by (simp add: pipe_content_def)

lemma index_mod: "unat ((x :: u32) mod word_of_nat PIPESIZE) = unat x mod PIPESIZE"
  by (simp add: unat_mod PIPESIZE_def)

text \<open>Since the buffer size divides the range of the counters, slots do not jump when a counter wraps.\<close>

lemma slot_add: "unat ((x + word_of_nat i :: u32) mod word_of_nat PIPESIZE) = (unat x + i) mod PIPESIZE"
proof -
  have "unat (x + word_of_nat i :: u32) = (unat x + i) mod 4294967296"
    by (simp add: unat_word_ariths unat_of_nat mod_simps)
  moreover have "(n mod 4294967296) mod 512 = n mod 512" for n :: nat by (rule mod_mod_cancel) simp
  ultimately show ?thesis unfolding index_mod by (simp only: PIPESIZE_def)
qed

lemma slots_differ:
  fixes a :: nat
  assumes "i < j" "j < i + PIPESIZE"
  shows "(a + i) mod PIPESIZE \<noteq> (a + j) mod PIPESIZE"
proof
  assume "(a + i) mod PIPESIZE = (a + j) mod PIPESIZE"
  then have "PIPESIZE dvd (a + j) - (a + i)" using assms(1) by (metis add_le_cancel_left less_imp_le mod_eq_dvd_iff_nat)
  then have "PIPESIZE dvd j - i" by simp
  with assms show False by (metis dvd_imp_le less_diff_conv2 less_imp_le linorder_not_le zero_less_diff add.commute)
qed

lemma full_iff: "pipe_ok p \<Longrightarrow> pipe_full p \<longleftrightarrow> pipe_count p = PIPESIZE"
proof -
  have "pipe_full p \<longleftrightarrow> pi_nwrite p - pi_nread p = word_of_nat PIPESIZE" by (auto simp: pipe_full_def algebra_simps)
  also have "\<dots> \<longleftrightarrow> unat (pi_nwrite p - pi_nread p) = PIPESIZE"
    by (auto simp: word_unat_eq_iff PIPESIZE_def)
  finally show ?thesis by (simp add: pipe_count_def)
qed

lemma empty_iff: "pi_nread p = pi_nwrite p \<longleftrightarrow> pipe_content p = []"
proof -
  have "pi_nread p = pi_nwrite p \<longleftrightarrow> pipe_count p = 0"
    by (metis pipe_count_def unat_eq_zero cancel_comm_monoid_add_class.diff_cancel right_minus_eq)
  then show ?thesis by (simp add: pipe_content_def)
qed

lemma content_nth: "i < pipe_count p \<Longrightarrow> pipe_content p ! i = pi_data p ! ((unat (pi_nread p) + i) mod PIPESIZE)"
  by (simp add: pipe_content_def slot_add)

lemma count_put: "pipe_ok p \<Longrightarrow> pipe_count p < PIPESIZE \<Longrightarrow> pipe_count (put_byte c p) = Suc (pipe_count p)"
proof -
  assume "pipe_count p < PIPESIZE"
  then have "unat (pi_nwrite p - pi_nread p) + 1 < 2 ^ 32" by (simp add: pipe_count_def PIPESIZE_def)
  then have "unat (pi_nwrite p - pi_nread p + 1) = unat (pi_nwrite p - pi_nread p) + 1"
    by (simp add: unat_word_ariths)
  moreover have "pi_nwrite p + 1 - pi_nread p = pi_nwrite p - pi_nread p + 1" by (simp add: algebra_simps)
  ultimately have "unat (pi_nwrite p + 1 - pi_nread p) = Suc (unat (pi_nwrite p - pi_nread p))" by (simp only: Suc_eq_plus1)
  then show ?thesis by (simp add: pipe_count_def put_byte_def)
qed

lemma write_slot: "unat (pi_nwrite p mod word_of_nat PIPESIZE) = (unat (pi_nread p) + pipe_count p) mod PIPESIZE"
  using slot_add [of "pi_nread p" "pipe_count p"] by (simp add: pipe_count_def)

lemma put_laws:
  assumes "pipe_ok p" "pipe_count p < PIPESIZE"
  shows "pipe_ok (put_byte c p)" "pipe_content (put_byte c p) = pipe_content p @ [c]"
proof -
  note n = count_put [OF assms, of c]
  show "pipe_ok (put_byte c p)" using assms n by (simp add: pipe_ok_def put_byte_def pipe_count_def)
  show "pipe_content (put_byte c p) = pipe_content p @ [c]"
  proof (rule nth_equalityI)
    fix i assume i: "i < length (pipe_content (put_byte c p))"
    let ?w = "(unat (pi_nread p) + pipe_count p) mod PIPESIZE" and ?r = "(unat (pi_nread p) + i) mod PIPESIZE"
    have d: "pi_data (put_byte c p) = (pi_data p)[?w := c]" "pi_nread (put_byte c p) = pi_nread p"
      by (simp_all add: put_byte_def write_slot)
    have w: "?w < length (pi_data p)" using assms by (simp add: pipe_ok_def PIPESIZE_def)
    show "pipe_content (put_byte c p) ! i = (pipe_content p @ [c]) ! i"
    proof (cases "i < pipe_count p")
      case True
      then have "?r \<noteq> ?w" using slots_differ [of i "pipe_count p" "unat (pi_nread p)"] assms by simp
      with True i show ?thesis by (simp add: content_nth d nth_append)
    next
      case False
      then have "i = pipe_count p" using i n by simp
      then show ?thesis using i w by (simp add: content_nth d nth_append)
    qed
  qed (simp add: n)
qed

lemma get_laws:
  assumes "pipe_ok p" "pipe_content p \<noteq> []"
  shows "pipe_ok (snd (get_byte p))" "pipe_content p = fst (get_byte p) # pipe_content (snd (get_byte p))"
proof -
  have pos: "0 < pipe_count p" using assms(2) by (simp add: pipe_content_def)
  then have "pi_nwrite p - pi_nread p \<noteq> 0" by (auto simp: pipe_count_def)
  then have "unat (pi_nwrite p - pi_nread p - 1) = unat (pi_nwrite p - pi_nread p) - 1" by (rule unat_minus_one)
  moreover have "pi_nwrite p - (pi_nread p + 1) = pi_nwrite p - pi_nread p - 1" by (rule diff_diff_eq [symmetric])
  ultimately have "unat (pi_nwrite p - (pi_nread p + 1)) = unat (pi_nwrite p - pi_nread p) - 1" by (simp only:)
  then have n: "pipe_count (snd (get_byte p)) = pipe_count p - 1" by (simp add: pipe_count_def get_byte_def)
  have "pi_data (snd (get_byte p)) = pi_data p" by (simp add: get_byte_def)
  then show "pipe_ok (snd (get_byte p))" using assms(1) n by (auto simp only: pipe_ok_def intro: le_trans [OF diff_le_self])
  have "unat (pi_nread (snd (get_byte p))) mod PIPESIZE = (unat (pi_nread p) + 1) mod PIPESIZE"
    using slot_add [of "pi_nread p" 1] index_mod by (simp add: get_byte_def)
  then have slot: "(unat (pi_nread (snd (get_byte p))) + j) mod PIPESIZE = (unat (pi_nread p) + Suc j) mod PIPESIZE" for j
    by (metis add.assoc mod_add_left_eq plus_1_eq_Suc)
  have data: "pi_data (snd (get_byte p)) = pi_data p" by (simp add: get_byte_def)
  show "pipe_content p = fst (get_byte p) # pipe_content (snd (get_byte p))"
  proof (rule nth_equalityI)
    fix i assume i: "i < length (pipe_content p)"
    show "pipe_content p ! i = (fst (get_byte p) # pipe_content (snd (get_byte p))) ! i"
      using i n by (cases i) (simp_all add: content_nth slot data, simp add: get_byte_def index_mod)
  qed (use n pos in simp)
qed

interpretation pf: byte_fifo pipe_ok pipe_content PIPESIZE put_byte get_byte
  by unfold_locales (use put_laws get_laws in \<open>auto simp: pipe_ok_def\<close>)

section \<open>The calls in terms of the queue\<close>

lemma put_byte_frame [simp]:
  "pi_lock (put_byte c p) = pi_lock p" "pi_readopen (put_byte c p) = pi_readopen p" "pi_writeopen (put_byte c p) = pi_writeopen p"
  "pi_woken (put_byte c p) = pi_woken p"
  by (simp_all add: put_byte_def)

lemma fold_put_frame [simp]:
  "pi_lock (fold put_byte cs p) = pi_lock p" "pi_readopen (fold put_byte cs p) = pi_readopen p" "pi_writeopen (fold put_byte cs p) = pi_writeopen p"
  by (induction cs arbitrary: p) simp_all

lemma pipe_same [simp]:
  "pipe_ok (p\<lparr>pi_lock := b\<rparr>) = pipe_ok p" "pipe_content (p\<lparr>pi_lock := b\<rparr>) = pipe_content p"
  "pipe_ok (wakeup_pi ch p) = pipe_ok p" "pipe_content (wakeup_pi ch p) = pipe_content p"
  "pipe_ok (p\<lparr>pi_writeopen := b\<rparr>) = pipe_ok p" "pipe_content (p\<lparr>pi_writeopen := b\<rparr>) = pipe_content p"
  "pipe_ok (p\<lparr>pi_readopen := b\<rparr>) = pipe_ok p" "pipe_content (p\<lparr>pi_readopen := b\<rparr>) = pipe_content p"
  "pi_lock (wakeup_pi ch p) = pi_lock p" "pi_readopen (wakeup_pi ch p) = pi_readopen p" "pi_writeopen (wakeup_pi ch p) = pi_writeopen p"
  "pi_nread (wakeup_pi ch p) = pi_nread p" "pi_nwrite (wakeup_pi ch p) = pi_nwrite p"
  by (simp_all add: pipe_ok_def pipe_content_def pipe_count_def wakeup_pi_def)

text \<open>Writing stores as much as fits.\<close>

definition write_outcome :: "bool \<Rightarrow> int \<Rightarrow> nat \<Rightarrow> pipe \<Rightarrow> io" where
  "write_outcome killed n k p = (if k \<le> PIPESIZE - pipe_count p then Finished n
     else if \<not> pi_readopen p \<or> killed then Finished (-1) else Asleep)"

lemma pipewrite_loop_eq:
  assumes "pipe_ok p" "pi_lock p"
  shows "\<exists>p'. pipewrite_loop killed n bs p =
      Some (write_outcome killed n (length bs) p,
        drop (PIPESIZE - pipe_count p) bs, p') \<and>
    pipe_ok p' \<and> \<not> pi_lock p' \<and> pipe_content p' = pipe_content p @ take (PIPESIZE - pipe_count p) bs \<and>
    pi_readopen p' = pi_readopen p \<and> pi_writeopen p' = pi_writeopen p"
  using assms
proof (induction bs arbitrary: p)
  case Nil
  then show ?case by (simp add: release_pi_def write_outcome_def)
next
  case (Cons c cs)
  show ?case
  proof (cases "pipe_count p = PIPESIZE")
    case True
    then have "pipe_full p" using full_iff [OF Cons.prems(1)] by simp
    with True Cons.prems show ?thesis by (simp add: release_pi_def write_outcome_def)
  next
    case False
    then have lt: "pipe_count p < PIPESIZE" and nf: "\<not> pipe_full p" using Cons.prems(1) full_iff by (auto simp: pipe_ok_def)
    note put = put_laws [OF Cons.prems(1) lt, of c] and n = count_put [OF Cons.prems(1) lt, of c]
    have free: "PIPESIZE - pipe_count p = Suc (PIPESIZE - pipe_count (put_byte c p))" using lt n by simp
    have "write_outcome killed n (length (c # cs)) p = write_outcome killed n (length cs) (put_byte c p)"
      using lt n by (auto simp: write_outcome_def)
    with Cons.IH [OF put(1)] Cons.prems(2) nf put(2) show ?thesis unfolding free by simp
  qed
qed

lemma pipewrite_eq:
  assumes "pipe_ok p" "\<not> pi_lock p"
  shows "\<exists>p'. pipewrite killed n bs p =
      Some (write_outcome killed n (length bs) p,
        drop (PIPESIZE - pipe_count p) bs, p') \<and>
    pipe_ok p' \<and> \<not> pi_lock p' \<and> pipe_content p' = pipe_content p @ take (PIPESIZE - pipe_count p) bs \<and>
    pi_readopen p' = pi_readopen p \<and> pi_writeopen p' = pi_writeopen p"
proof -
  have "pipe_count (p\<lparr>pi_lock := True\<rparr>) = pipe_count p" "write_outcome killed n k (p\<lparr>pi_lock := True\<rparr>) = write_outcome killed n k p" for k
    by (simp_all add: pipe_count_def write_outcome_def)
  with pipewrite_loop_eq [of "p\<lparr>pi_lock := True\<rparr>" killed n bs] assms show ?thesis by (simp add: pipewrite_def acquire_pi_def)
qed

lemma read_loop_eq: "read_loop n p = pf.get_n n p"
  by (induction n arbitrary: p) (simp_all add: empty_iff split_beta)

lemma read_loop_frame: "pi_lock (snd (read_loop n p)) = pi_lock p" "pi_readopen (snd (read_loop n p)) = pi_readopen p"
    "pi_writeopen (snd (read_loop n p)) = pi_writeopen p"
  by (induction n arbitrary: p) (simp_all add: get_byte_def split_beta)

lemma piperead_eq:
  assumes "pipe_ok p" "\<not> pi_lock p"
  shows "\<exists>p'. piperead killed n p =
      Some (if pipe_content p = [] \<and> pi_writeopen p then if killed then Finished (-1) else Asleep
        else Finished (int (min (nat n) (pipe_count p))), take (nat n) (pipe_content p), p') \<and>
    pipe_ok p' \<and> \<not> pi_lock p' \<and> pipe_content p' = drop (nat n) (pipe_content p) \<and>
    pi_readopen p' = pi_readopen p \<and> pi_writeopen p' = pi_writeopen p"
proof -
  let ?p = "p\<lparr>pi_lock := True\<rparr>"
  have g: "pipe_ok (snd (read_loop (nat n) ?p))" "fst (read_loop (nat n) ?p) = take (nat n) (pipe_content p)"
      "pipe_content (snd (read_loop (nat n) ?p)) = drop (nat n) (pipe_content p)"
    using pf.get_n_eq [of ?p "nat n"] assms(1) by (simp_all add: read_loop_eq)
  have e: "pi_nread p = pi_nwrite p \<longleftrightarrow> pipe_content p = []" by (rule empty_iff)
  have "pipe_content p = [] \<Longrightarrow> pipe_count p = 0" using length_content [of p] by simp
  then show ?thesis
    using assms g e read_loop_frame [of "nat n" ?p]
    by (cases "pipe_content p = []"; cases "pi_writeopen p"; cases killed)
      (simp_all add: piperead_def acquire_pi_def release_pi_def split_beta Let_def min.commute)
qed

lemma pipeclose_eq:
  assumes "pipe_ok p" "\<not> pi_lock p"
  shows "\<exists>p'. pipeclose w p = Some (\<not> (if w then pi_readopen p else pi_writeopen p), p') \<and> pipe_ok p' \<and> \<not> pi_lock p' \<and>
    pipe_content p' = pipe_content p \<and> pi_writeopen p' = (\<not> w \<and> pi_writeopen p) \<and> pi_readopen p' = (w \<and> pi_readopen p)"
  using assms by (cases w) (simp_all add: pipeclose_def acquire_pi_def release_pi_def)

section \<open>Readers and writers in any order\<close>

text \<open>The pipe with the bytes that have been stored and delivered since it was made. A writer stores some of
  its bytes and finishes or sleeps; writers and readers may come in any number and order.\<close>

record pipe_run =
  pr_pipe :: pipe
  pr_in :: "u8 list"
  pr_out :: "u8 list"

inductive pipe_step :: "pipe_run \<Rightarrow> pipe_run \<Rightarrow> bool" where
  step_write: "pipewrite killed n bs (pr_pipe s) = Some (r, rest, p) \<Longrightarrow>
    pipe_step s (s\<lparr>pr_pipe := p, pr_in := pr_in s @ take (length bs - length rest) bs\<rparr>)"
| step_read: "piperead killed n (pr_pipe s) = Some (r, bs, p) \<Longrightarrow> pipe_step s (s\<lparr>pr_pipe := p, pr_out := pr_out s @ bs\<rparr>)"
| step_close: "pipeclose w (pr_pipe s) = Some (freed, p) \<Longrightarrow> pipe_step s (s\<lparr>pr_pipe := p\<rparr>)"

definition pipe_run_ok :: "pipe_run \<Rightarrow> bool" where
  "pipe_run_ok s = (pipe_ok (pr_pipe s) \<and> \<not> pi_lock (pr_pipe s) \<and> pr_in s = pr_out s @ pipe_content (pr_pipe s))"

lemma pipe_step_ok: "pipe_step s t \<Longrightarrow> pipe_run_ok s \<Longrightarrow> pipe_run_ok t"
proof (induction rule: pipe_step.induct)
  case (step_write killed n bs s r rest p)
  then have "pipe_ok (pr_pipe s)" "\<not> pi_lock (pr_pipe s)" by (auto simp: pipe_run_ok_def)
  from pipewrite_eq [OF this, of killed n bs] step_write
  have "pipe_ok p" "\<not> pi_lock p" "rest = drop (PIPESIZE - pipe_count (pr_pipe s)) bs"
    "pipe_content p = pipe_content (pr_pipe s) @ take (PIPESIZE - pipe_count (pr_pipe s)) bs" by auto
  moreover have "take (length bs - (length bs - k)) bs = take k bs" for k by (cases "k \<le> length bs") simp_all
  ultimately show ?case using step_write(2) by (simp add: pipe_run_ok_def)
next
  case (step_read killed n s r bs p)
  then have "pipe_ok (pr_pipe s)" "\<not> pi_lock (pr_pipe s)" by (auto simp: pipe_run_ok_def)
  from piperead_eq [OF this, of killed n] step_read
  have "pipe_ok p" "\<not> pi_lock p" "bs = take (nat n) (pipe_content (pr_pipe s))" "pipe_content p = drop (nat n) (pipe_content (pr_pipe s))" by auto
  then show ?case using step_read(2) by (simp add: pipe_run_ok_def)
next
  case (step_close w s freed p)
  then have "pipe_ok (pr_pipe s)" "\<not> pi_lock (pr_pipe s)" by (auto simp: pipe_run_ok_def)
  from pipeclose_eq [OF this, of w] step_close show ?case by (auto simp: pipe_run_ok_def)
qed

definition pipe_start :: "pipe_run \<Rightarrow> bool" where
  "pipe_start s = (\<exists>old. length (pi_data old) = PIPESIZE \<and> s = \<lparr>pr_pipe = new_pipe old, pr_in = [], pr_out = []\<rparr>)"

lemma pipe_start_ok: "pipe_start s \<Longrightarrow> pipe_run_ok s"
  by (auto simp: pipe_start_def pipe_run_ok_def new_pipe_def pipe_ok_def pipe_content_def pipe_count_def)

interpretation pr: transition_system pipe_start pipe_step pipe_run_ok
  by unfold_locales (blast intro: pipe_start_ok pipe_step_ok)+

section \<open>Properties\<close>

text \<open>C30. Whatever the interleaving of writers, readers and closers, and however often the 32-bit counters
  wrap around: the bytes delivered so far are a prefix of the bytes stored so far, in order, and what is
  missing is the contents of the ring, at most 512 bytes. No byte is lost, doubled or reordered.\<close>

theorem pipe_is_fifo:
  assumes "length (pi_data old) = PIPESIZE" "pipe_step\<^sup>*\<^sup>* \<lparr>pr_pipe = new_pipe old, pr_in = [], pr_out = []\<rparr> s"
  shows "pr_in s = pr_out s @ pipe_content (pr_pipe s) \<and> length (pipe_content (pr_pipe s)) \<le> PIPESIZE"
  using pr.reachable_inv [OF _ assms(2)] assms(1) by (auto simp: pipe_start_def pipe_run_ok_def pipe_ok_def)

definition sample_pipe :: pipe where
  "sample_pipe = \<lparr>pi_lock = False, pi_data = replicate PIPESIZE 0, pi_nread = 0, pi_nwrite = 0, pi_readopen = False,
     pi_writeopen = False, pi_woken = []\<rparr>"

theorem pipe_is_fifo_witness:
  "\<exists>s. pipe_step\<^sup>*\<^sup>* \<lparr>pr_pipe = new_pipe sample_pipe, pr_in = [], pr_out = []\<rparr> s \<and> pr_in s = [7, 8] \<and>
    [7, 8] = pr_out s @ pipe_content (pr_pipe s)"
proof -
  let ?s = "\<lparr>pr_pipe = new_pipe sample_pipe, pr_in = [], pr_out = []\<rparr>"
  have l: "length (pi_data sample_pipe) = PIPESIZE" by (simp add: sample_pipe_def)
  have ok: "pipe_ok (new_pipe sample_pipe)" "\<not> pi_lock (new_pipe sample_pipe)" "pipe_count (new_pipe sample_pipe) = 0"
    by (simp_all add: sample_pipe_def new_pipe_def pipe_ok_def pipe_count_def)
  from pipewrite_eq [OF ok(1,2), of False 2 "[7, 8]"] ok(3) obtain r p where
    "pipewrite False 2 [7, 8] (new_pipe sample_pipe) = Some (r, [], p)" by (auto simp: PIPESIZE_def)
  then have "pipe_step ?s (?s\<lparr>pr_pipe := p, pr_in := [7, 8]\<rparr>)"
    using step_write [of False 2 "[7, 8]" ?s r "[]" p] by simp
  then have st: "pipe_step\<^sup>*\<^sup>* ?s (?s\<lparr>pr_pipe := p, pr_in := [7, 8]\<rparr>)" by blast
  from pipe_is_fifo [OF l this] st show ?thesis by (intro exI [of _ "?s\<lparr>pr_pipe := p, pr_in := [7, 8]\<rparr>"]) simp
qed

text \<open>What a write and a read return, on every branch. A write that fits stores everything and returns
  its length; one that does not fit fills the ring and then sleeps, or fails with -1 if nobody can read
  or the process is killed. A read of a ring with data returns at once with as many bytes as are there, at
  most \<open>n\<close>; of an empty ring it sleeps, fails if the process is killed, and returns 0, end of file, when
  no writer is left.\<close>

theorem pipe_results:
  assumes "pipe_ok p" "\<not> pi_lock p"
  shows "(\<exists>p'. pipewrite killed n bs p =
      Some (if pipe_count p + length bs \<le> PIPESIZE then Finished n else if \<not> pi_readopen p \<or> killed then Finished (-1) else Asleep,
        drop (PIPESIZE - pipe_count p) bs, p') \<and>
      pipe_content p' = pipe_content p @ take (PIPESIZE - pipe_count p) bs \<and> pipe_ok p' \<and> \<not> pi_lock p') \<and>
    (\<exists>p'. piperead killed n p =
      Some (if pipe_content p = [] \<and> pi_writeopen p then if killed then Finished (-1) else Asleep
          else Finished (int (min (nat n) (pipe_count p))),
        take (nat n) (pipe_content p), p') \<and>
      pipe_content p' = drop (nat n) (pipe_content p) \<and> pipe_ok p' \<and> \<not> pi_lock p')"
proof -
  have e: "length bs \<le> PIPESIZE - pipe_count p \<longleftrightarrow> pipe_count p + length bs \<le> PIPESIZE" using assms(1) by (auto simp: pipe_ok_def)
  show ?thesis using pipewrite_eq [OF assms, of killed n bs] piperead_eq [OF assms, of killed n]
    unfolding write_outcome_def e by blast
qed

theorem pipe_results_witness:
  "\<exists>p'. piperead False 5 (sample_pipe\<lparr>pi_nread := - 1, pi_nwrite := 1, pi_writeopen := True\<rparr>) = Some (Finished 2, [0, 0], p')"
proof -
  define p where "p = sample_pipe\<lparr>pi_nread := - 1, pi_nwrite := 1, pi_writeopen := True\<rparr>"
  have n: "pipe_count p = 2" by (simp add: pipe_count_def p_def)
  have ok: "pipe_ok p" "\<not> pi_lock p" using n by (simp_all add: pipe_ok_def sample_pipe_def PIPESIZE_def p_def)
  have z: "pi_data p ! k = 0" if "k < PIPESIZE" for k using that by (simp add: sample_pipe_def p_def)
  have "pipe_content p ! i = 0" if "i < 2" for i
    using content_nth [of i p] z [of "(unat (pi_nread p) + i) mod PIPESIZE"] that n unfolding PIPESIZE_def by (metis mod_less_divisor zero_less_numeral)
  then have c: "pipe_content p = [0, 0]" using n by (intro nth_equalityI) (auto simp: less_2_cases_iff)
  from pipe_results [OF ok, of False 5] c n show ?thesis by (auto simp flip: p_def)
qed

end
