(* ===== verification/File.thy ===== *)
theory File
  imports Pipe "HOL-Library.Multiset"
begin

text \<open>
  The table of open files (\<^verbatim>\<open>file.h\<close>, \<^verbatim>\<open>file.c\<close>) and the allocation of pipes (\<^verbatim>\<open>pipealloc\<close> in \<^verbatim>\<open>pipe.c\<close>).
  A file is named by its index in the table, a pipe by the address of its page. Calls into the inode and
  log layers are recorded in order; the results of \<^verbatim>\<open>readi\<close> and \<^verbatim>\<open>writei\<close> are arguments.
\<close>

section \<open>State\<close>

definition NFILE :: nat where "NFILE = 100"

datatype file_type = FD_NONE | FD_PIPE | FD_INODE

record file_entry =
  f_type :: file_type
  f_ref :: int
  f_readable :: bool
  f_writable :: bool
  f_pipe :: nat
  f_ip :: nat
  f_off :: u32

datatype icall = Begin_op | End_op | Iput nat | Ilock nat | Iunlock nat | Stati nat | Readi nat u32 int
  | Writei nat u32 "u8 list" | UpdatePage nat u32 "u8 list"

record ftable =
  ft_lock :: bool
  ft_file :: "file_entry list"
  ft_pipes :: "nat \<rightharpoonup> pipe"
  ft_calls :: "icall list"

definition acquire_ft :: "ftable \<Rightarrow> ftable option" where
  "acquire_ft t = (if ft_lock t then None else Some (t\<lparr>ft_lock := True\<rparr>))"

definition release_ft :: "ftable \<Rightarrow> ftable option" where
  "release_ft t = (if ft_lock t then Some (t\<lparr>ft_lock := False\<rparr>) else panic ''release'')"

definition fileinit :: "ftable \<Rightarrow> ftable" where
  "fileinit t = t\<lparr>ft_lock := False\<rparr>"

definition upd_file :: "nat \<Rightarrow> (file_entry \<Rightarrow> file_entry) \<Rightarrow> ftable \<Rightarrow> ftable" where
  "upd_file i f t = t\<lparr>ft_file := (ft_file t)[i := f (ft_file t ! i)]\<rparr>"

definition icall :: "icall list \<Rightarrow> ftable \<Rightarrow> ftable" where
  "icall cs t = t\<lparr>ft_calls := ft_calls t @ cs\<rparr>"

section \<open>Handles\<close>

definition filealloc :: "ftable \<Rightarrow> (nat option \<times> ftable) option" where
  "filealloc t = do {
     t \<leftarrow> acquire_ft t;
     case List.find (\<lambda>i. f_ref (ft_file t ! i) = 0) [0..<NFILE] of
       Some i \<Rightarrow> do { t \<leftarrow> release_ft (upd_file i (\<lambda>f. f\<lparr>f_ref := 1\<rparr>) t); Some (Some i, t) }
     | None \<Rightarrow> do { t \<leftarrow> release_ft t; Some (None, t) }
   }"

definition filedup :: "nat \<Rightarrow> ftable \<Rightarrow> ftable option" where
  "filedup i t = do {
     t \<leftarrow> acquire_ft t;
     if f_ref (ft_file t ! i) < 1 then panic ''filedup''
     else release_ft (upd_file i (\<lambda>f. f\<lparr>f_ref := f_ref f + 1\<rparr>) t)
   }"

text \<open>Closing the end of a pipe; the page is freed when both ends are closed.\<close>

definition close_pipe :: "nat \<Rightarrow> bool \<Rightarrow> ftable \<Rightarrow> ftable option" where
  "close_pipe a writable t = do {
     p \<leftarrow> ft_pipes t a;
     (freed, p) \<leftarrow> pipeclose writable p;
     Some (t\<lparr>ft_pipes := (ft_pipes t)(a := if freed then None else Some p)\<rparr>)
   }"

definition fileclose :: "nat \<Rightarrow> ftable \<Rightarrow> ftable option" where
  "fileclose i t = do {
     t \<leftarrow> acquire_ft t;
     if f_ref (ft_file t ! i) < 1 then panic ''fileclose''
     else do {
       let t = upd_file i (\<lambda>f. f\<lparr>f_ref := f_ref f - 1\<rparr>) t;
       if 0 < f_ref (ft_file t ! i) then release_ft t
       else do {
         let ff = ft_file t ! i;
         t \<leftarrow> release_ft (upd_file i (\<lambda>f. f\<lparr>f_ref := 0, f_type := FD_NONE\<rparr>) t);
         case f_type ff of
           FD_PIPE \<Rightarrow> close_pipe (f_pipe ff) (f_writable ff) t
         | FD_INODE \<Rightarrow> Some (icall [Begin_op, Iput (f_ip ff), End_op] t)
         | FD_NONE \<Rightarrow> Some t
       }
     }
   }"

text \<open>The label \<^verbatim>\<open>bad\<close> of \<^verbatim>\<open>pipealloc\<close>: close what has been allocated.\<close>

fun close_all :: "nat list \<Rightarrow> ftable \<Rightarrow> ftable option" where
  "close_all [] t = Some t"
| "close_all (i # is) t = do { t \<leftarrow> fileclose i t; close_all is t }"

definition pipe_ends :: "nat \<Rightarrow> nat \<Rightarrow> nat \<Rightarrow> pipe \<Rightarrow> ftable \<Rightarrow> ftable" where
  "pipe_ends f0 f1 page old t =
    (let t = t\<lparr>ft_pipes := (ft_pipes t)(page \<mapsto> new_pipe old)\<rparr>;
         t = upd_file f0 (\<lambda>f. f\<lparr>f_type := FD_PIPE, f_readable := True, f_writable := False, f_pipe := page\<rparr>) t in
     upd_file f1 (\<lambda>f. f\<lparr>f_type := FD_PIPE, f_readable := False, f_writable := True, f_pipe := page\<rparr>) t)"

definition pipealloc :: "nat \<Rightarrow> pipe \<Rightarrow> ftable \<Rightarrow> ((nat \<times> nat) option \<times> ftable) option" where
  "pipealloc kalloc_result old t = do {
     (f0, t) \<leftarrow> filealloc t;
     case f0 of
       None \<Rightarrow> Some (None, t)
     | Some f0 \<Rightarrow> do {
         (f1, t) \<leftarrow> filealloc t;
         case f1 of
           None \<Rightarrow> do { t \<leftarrow> close_all [f0] t; Some (None, t) }
         | Some f1 \<Rightarrow>
             if kalloc_result = 0 then do { t \<leftarrow> close_all [f0, f1] t; Some (None, t) }
             else Some (Some (f0, f1), pipe_ends f0 f1 kalloc_result old t)
       }
   }"

section \<open>Reading and writing\<close>

definition filestat :: "nat \<Rightarrow> ftable \<Rightarrow> int \<times> ftable" where
  "filestat i t =
    (let f = ft_file t ! i in
     if f_type f = FD_INODE then (0, icall [Ilock (f_ip f), Stati (f_ip f), Iunlock (f_ip f)] t) else (-1, t))"

text \<open>\<open>readi_result\<close> is what \<^verbatim>\<open>readi\<close> returns and stores at \<^verbatim>\<open>addr\<close>.\<close>

definition fileread :: "bool \<Rightarrow> nat \<Rightarrow> int \<Rightarrow> int \<times> u8 list \<Rightarrow> ftable \<Rightarrow> (io \<times> u8 list \<times> ftable) option" where
  "fileread killed i n readi_result t =
    (let f = ft_file t ! i in
     if \<not> f_readable f then Some (Finished (-1), [], t)
     else case f_type f of
       FD_PIPE \<Rightarrow> do {
         p \<leftarrow> ft_pipes t (f_pipe f);
         (r, bs, p) \<leftarrow> piperead killed n p;
         Some (r, bs, t\<lparr>ft_pipes := (ft_pipes t)(f_pipe f \<mapsto> p)\<rparr>)
       }
     | FD_INODE \<Rightarrow>
         let (r, bs) = readi_result; t = icall [Ilock (f_ip f), Readi (f_ip f) (f_off f) n] t;
             t = (if 0 < r then upd_file i (\<lambda>f. f\<lparr>f_off := f_off f + word_of_int r\<rparr>) t else t) in
         Some (Finished r, bs, icall [Iunlock (f_ip f)] t)
     | FD_NONE \<Rightarrow> panic ''fileread'')"

definition MAXOPBLOCKS :: nat where "MAXOPBLOCKS = 10"

definition write_max :: nat where
  "write_max = ((MAXOPBLOCKS - 1 - 1 - 2) div 2) * 512"

text \<open>The loop of \<^verbatim>\<open>filewrite\<close> on an inode: \<open>bs\<close> are the bytes from \<^verbatim>\<open>addr + i\<close> on, \<open>results\<close> what the successive
  calls of \<^verbatim>\<open>writei\<close> return. It ends with the bytes that are not written.\<close>

fun write_loop :: "nat \<Rightarrow> u8 list \<Rightarrow> int list \<Rightarrow> ftable \<Rightarrow> (u8 list \<times> ftable) option" where
  "write_loop i [] results t = Some ([], t)"
| "write_loop i (b # bs) [] t = None"
| "write_loop i (b # bs) (r # results) t =
    (let f = ft_file t ! i; chunk = take write_max (b # bs);
         t = icall [Begin_op, Ilock (f_ip f), Writei (f_ip f) (f_off f) chunk] t;
         t = (if 0 < r then upd_file i (\<lambda>f. f\<lparr>f_off := f_off f + word_of_int r\<rparr>)
                (icall [UpdatePage (f_ip f) (f_off f) (take (nat r) chunk)] t) else t);
         t = icall [Iunlock (f_ip f), End_op] t in
     if r < 0 then Some (b # bs, t)
     else if r \<noteq> int (length chunk) then panic ''short filewrite''
     else write_loop i (drop write_max (b # bs)) results t)"

text \<open>\<open>bs\<close> are the \<open>n\<close> bytes at \<^verbatim>\<open>addr\<close>; of a write that sleeps in a pipe the rest is given.\<close>

definition filewrite :: "bool \<Rightarrow> nat \<Rightarrow> u8 list \<Rightarrow> int list \<Rightarrow> ftable \<Rightarrow> (io \<times> u8 list \<times> ftable) option" where
  "filewrite killed i bs results t =
    (let f = ft_file t ! i; n = int (length bs) in
     if \<not> f_writable f then Some (Finished (-1), bs, t)
     else case f_type f of
       FD_PIPE \<Rightarrow> do {
         p \<leftarrow> ft_pipes t (f_pipe f);
         (r, rest, p) \<leftarrow> pipewrite killed n bs p;
         Some (r, rest, t\<lparr>ft_pipes := (ft_pipes t)(f_pipe f \<mapsto> p)\<rparr>)
       }
     | FD_INODE \<Rightarrow> do {
         (rest, t) \<leftarrow> write_loop i bs results t;
         Some (Finished (if rest = [] then n else -1), rest, t)
       }
     | FD_NONE \<Rightarrow> panic ''filewrite'')"

section \<open>Reference counts\<close>

text \<open>The table with the handles that the processes hold.\<close>

inductive handle_step :: "ftable \<times> nat multiset \<Rightarrow> ftable \<times> nat multiset \<Rightarrow> bool" where
  h_alloc: "filealloc t = Some (Some i, t') \<Longrightarrow> handle_step (t, h) (t', add_mset i h)"
| h_alloc_fail: "filealloc t = Some (None, t') \<Longrightarrow> handle_step (t, h) (t', h)"
| h_dup: "i \<in># h \<Longrightarrow> filedup i t = Some t' \<Longrightarrow> handle_step (t, h) (t', add_mset i h)"
| h_close: "i \<in># h \<Longrightarrow> fileclose i t = Some t' \<Longrightarrow> handle_step (t, h) (t', h - {#i#})"
| h_pipe: "pipealloc page old t = Some (Some (f0, f1), t') \<Longrightarrow> handle_step (t, h) (t', add_mset f0 (add_mset f1 h))"
| h_pipe_fail: "pipealloc page old t = Some (None, t') \<Longrightarrow> handle_step (t, h) (t', h)"

definition refs_ok :: "ftable \<times> nat multiset \<Rightarrow> bool" where
  "refs_ok s = (case s of (t, h) \<Rightarrow> \<not> ft_lock t \<and> length (ft_file t) = NFILE \<and>
     (\<forall>i < NFILE. f_ref (ft_file t ! i) = int (count h i)) \<and> (\<forall>i \<in># h. i < NFILE))"

lemma upd_file_simps [simp]:
  "ft_file (upd_file i f t) = (ft_file t)[i := f (ft_file t ! i)]" "ft_lock (upd_file i f t) = ft_lock t"
  "ft_pipes (upd_file i f t) = ft_pipes t" "ft_calls (upd_file i f t) = ft_calls t"
  by (simp_all add: upd_file_def)

lemma icall_simps [simp]:
  "ft_file (icall cs t) = ft_file t" "ft_lock (icall cs t) = ft_lock t" "ft_pipes (icall cs t) = ft_pipes t"
  "ft_calls (icall cs t) = ft_calls t @ cs"
  by (simp_all add: icall_def)

lemma refs_okD:
  assumes "refs_ok (t, h)"
  shows "\<not> ft_lock t" "length (ft_file t) = NFILE" "i < NFILE \<Longrightarrow> f_ref (ft_file t ! i) = int (count h i)" "i \<in># h \<Longrightarrow> i < NFILE"
  using assms by (auto simp: refs_ok_def)

lemma filealloc_refs:
  assumes "refs_ok (t, h)" "filealloc t = Some (r, t')"
  shows "case r of Some i \<Rightarrow> i \<notin># h \<and> refs_ok (t', add_mset i h) | None \<Rightarrow> t' = t"
proof -
  note ok = refs_okD [OF assms(1)]
  show ?thesis
  proof (cases "List.find (\<lambda>i. f_ref (ft_file t ! i) = 0) [0..<NFILE]")
    case None
    with assms(2) ok(1) show ?thesis by (auto simp: filealloc_def acquire_ft_def release_ft_def)
  next
    case (Some i)
    from find_upt_Some [OF Some] have i: "i < NFILE" "f_ref (ft_file t ! i) = 0" by auto
    then have z: "count h i = 0" using ok(3) [of i] by simp
    have e: "r = Some i" "t' = (upd_file i (\<lambda>f. f\<lparr>f_ref := 1\<rparr>) (t\<lparr>ft_lock := True\<rparr>))\<lparr>ft_lock := False\<rparr>"
      using assms(2) ok(1) Some by (auto simp: filealloc_def acquire_ft_def release_ft_def)
    have "refs_ok (t', add_mset i h)"
      unfolding refs_ok_def e(2) using ok i z by (auto simp: nth_list_update)
    then show ?thesis using e(1) z by (simp add: not_in_iff)
  qed
qed

lemma filedup_refs:
  assumes "refs_ok (t, h)" "i \<in># h"
  shows "\<exists>t'. filedup i t = Some t' \<and> refs_ok (t', add_mset i h)"
proof -
  note ok = refs_okD [OF assms(1)]
  have i: "i < NFILE" "0 < count h i" using ok(4) assms(2) by auto
  then have "\<not> f_ref (ft_file t ! i) < 1" using ok(3) [of i] by simp
  then have "filedup i t = Some ((upd_file i (\<lambda>f. f\<lparr>f_ref := f_ref f + 1\<rparr>) (t\<lparr>ft_lock := True\<rparr>))\<lparr>ft_lock := False\<rparr>)"
    using ok(1) by (simp add: filedup_def acquire_ft_def release_ft_def)
  moreover have "refs_ok ((upd_file i (\<lambda>f. f\<lparr>f_ref := f_ref f + 1\<rparr>) (t\<lparr>ft_lock := True\<rparr>))\<lparr>ft_lock := False\<rparr>, add_mset i h)"
    unfolding refs_ok_def using ok i by (auto simp: nth_list_update)
  ultimately show ?thesis by blast
qed

lemma close_pipe_frame: "close_pipe a w t = Some t' \<Longrightarrow> ft_file t' = ft_file t \<and> ft_lock t' = ft_lock t"
  by (auto simp: close_pipe_def bind_eq_Some_conv)

lemma fileclose_refs:
  assumes "refs_ok (t, h)" "i \<in># h" "fileclose i t = Some t'"
  shows "refs_ok (t', h - {#i#})"
proof -
  note ok = refs_okD [OF assms(1)]
  have i: "i < NFILE" "0 < count h i" using ok(4) assms(2) by auto
  then have r: "f_ref (ft_file t ! i) = int (count h i)" using ok(3) by simp
  have fr: "length (ft_file t') = NFILE \<and> \<not> ft_lock t' \<and> f_ref (ft_file t' ! i) = int (count h i) - 1 \<and>
      (\<forall>j < NFILE. j \<noteq> i \<longrightarrow> ft_file t' ! j = ft_file t ! j)"
  proof (cases "count h i = 1")
    case True
    let ?t = "(upd_file i (\<lambda>f. f\<lparr>f_ref := 0, f_type := FD_NONE\<rparr>) (upd_file i (\<lambda>f. f\<lparr>f_ref := f_ref f - 1\<rparr>) (t\<lparr>ft_lock := True\<rparr>)))\<lparr>ft_lock := False\<rparr>"
    have "ft_file t' = ft_file ?t \<and> ft_lock t' = ft_lock ?t"
      using assms(3) ok i r True
      by (auto simp: fileclose_def acquire_ft_def release_ft_def Let_def split: file_type.splits dest!: close_pipe_frame)
    then show ?thesis using ok i True by simp
  next
    case False
    then have "t' = (upd_file i (\<lambda>f. f\<lparr>f_ref := f_ref f - 1\<rparr>) (t\<lparr>ft_lock := True\<rparr>))\<lparr>ft_lock := False\<rparr>"
      using assms(3) ok i r by (auto simp: fileclose_def acquire_ft_def release_ft_def Let_def split: if_splits)
    then show ?thesis using ok i r by simp
  qed
  have "f_ref (ft_file t' ! j) = int (count (h - {#i#}) j)" if "j < NFILE" for j
    using that fr ok(3) [of j] i r by (cases "j = i") auto
  then show ?thesis using fr ok(4) by (auto simp: refs_ok_def dest: in_diffD)
qed

lemma pipealloc_refs:
  assumes "refs_ok (t, h)" "pipealloc page old t = Some (Some (f0, f1), t')"
  shows "refs_ok (t', add_mset f0 (add_mset f1 h)) \<and> f0 \<notin># h \<and> f1 \<notin># h \<and> f0 \<noteq> f1"
proof -
  from assms(2) obtain t1 t2 where a: "filealloc t = Some (Some f0, t1)" "filealloc t1 = Some (Some f1, t2)" "t' = pipe_ends f0 f1 page old t2"
    by (auto simp: pipealloc_def bind_eq_Some_conv split: option.splits if_splits)
  from filealloc_refs [OF assms(1) a(1)] have r1: "f0 \<notin># h" "refs_ok (t1, add_mset f0 h)" by auto
  from filealloc_refs [OF r1(2) a(2)] have r2: "f1 \<notin># add_mset f0 h" "refs_ok (t2, add_mset f1 (add_mset f0 h))" by auto
  have "refs_ok (pipe_ends f0 f1 page old t2, add_mset f1 (add_mset f0 h))"
    using refs_okD [OF r2(2)] unfolding refs_ok_def pipe_ends_def by (auto simp: Let_def nth_list_update)
  then show ?thesis using r1 r2 a(3) by (auto simp: add_mset_commute)
qed

lemma pipealloc_fail_refs:
  assumes "refs_ok (t, h)" "pipealloc page old t = Some (None, t')"
  shows "refs_ok (t', h)"
proof -
  from assms(2) obtain f0 t1 where a: "filealloc t = Some (f0, t1)" by (auto simp: pipealloc_def bind_eq_Some_conv)
  show ?thesis
  proof (cases f0)
    case None
    then show ?thesis using assms a filealloc_refs [OF assms(1) a] by (auto simp: pipealloc_def)
  next
    case (Some f0')
    with filealloc_refs [OF assms(1) a] have r1: "refs_ok (t1, add_mset f0' h)" by simp
    from assms(2) a Some obtain f1 t2 where b: "filealloc t1 = Some (f1, t2)" by (auto simp: pipealloc_def bind_eq_Some_conv)
    show ?thesis
    proof (cases f1)
      case None
      then have "t2 = t1" using filealloc_refs [OF r1 b] by simp
      then show ?thesis using assms(2) a Some b None fileclose_refs [OF r1, of f0'] by (auto simp: pipealloc_def bind_eq_Some_conv)
    next
      case (Some f1')
      with filealloc_refs [OF r1 b] have r2: "refs_ok (t2, add_mset f1' (add_mset f0' h))" by simp
      from assms(2) a \<open>f0 = Some f0'\<close> b Some obtain t3 where c: "fileclose f0' t2 = Some t3" "fileclose f1' t3 = Some t'"
        by (auto simp: pipealloc_def bind_eq_Some_conv split: if_splits)
      from fileclose_refs [OF r2 _ c(1)] have "refs_ok (t3, add_mset f1' h)" by simp
      from fileclose_refs [OF this _ c(2)] show ?thesis by simp
    qed
  qed
qed

lemma handle_step_ok: "handle_step s s' \<Longrightarrow> refs_ok s \<Longrightarrow> refs_ok s'"
proof (induction rule: handle_step.induct)
  case (h_alloc t i t' h) then show ?case using filealloc_refs [of t h "Some i" t'] by simp
next
  case (h_alloc_fail t t' h) then show ?case using filealloc_refs [of t h None t'] by simp
next
  case (h_dup i h t t') then show ?case using filedup_refs [of t h i] by auto
next
  case (h_close i h t t') then show ?case using fileclose_refs by blast
next
  case (h_pipe page old t f0 f1 t' h) then show ?case using pipealloc_refs by blast
next
  case (h_pipe_fail page old t t' h) then show ?case using pipealloc_fail_refs by blast
qed

definition empty_file :: file_entry where
  "empty_file = \<lparr>f_type = FD_NONE, f_ref = 0, f_readable = False, f_writable = False, f_pipe = 0, f_ip = 0, f_off = 0\<rparr>"

definition empty_table :: ftable where
  "empty_table = \<lparr>ft_lock = False, ft_file = replicate NFILE empty_file, ft_pipes = Map.empty, ft_calls = []\<rparr>"

lemma empty_table_ok: "refs_ok (empty_table, {#})"
  by (simp add: refs_ok_def empty_table_def empty_file_def)

interpretation fh: transition_system "\<lambda>s. s = (empty_table, {#})" handle_step refs_ok
  by unfold_locales (use empty_table_ok handle_step_ok in blast)+

section \<open>Writing to a file in pieces\<close>

text \<open>The blocks of a write and the offsets they go to.\<close>

fun pieces :: "u32 \<Rightarrow> u8 list \<Rightarrow> nat \<Rightarrow> (u32 \<times> u8 list) list" where
  "pieces off bs 0 = []"
| "pieces off bs (Suc k) =
    (if bs = [] then [] else (off, take write_max bs) # pieces (off + word_of_nat (length (take write_max bs))) (drop write_max bs) k)"

definition written :: "icall list \<Rightarrow> (nat \<times> u32 \<times> u8 list) list" where
  "written cs = List.map_filter (\<lambda>c. case c of Writei ip off bs \<Rightarrow> Some (ip, off, bs) | _ \<Rightarrow> None) cs"

lemma written_append [simp]: "written (xs @ ys) = written xs @ written ys"
  by (simp add: written_def map_filter_def)

lemma written_Cons [simp]:
  "written [] = []" "written (Begin_op # cs) = written cs" "written (End_op # cs) = written cs" "written (Ilock j # cs) = written cs"
  "written (Iunlock j # cs) = written cs" "written (UpdatePage j off bs # cs) = written cs"
  "written (Writei ip off bs # cs) = (ip, off, bs) # written cs"
  by (simp_all add: written_def map_filter_def)

lemma write_max_pos: "0 < write_max" by (simp add: write_max_def MAXOPBLOCKS_def)

lemma pieces_concat: "length bs \<le> k \<Longrightarrow> concat (map snd (pieces off bs k)) = bs"
proof (induction k arbitrary: off bs)
  case (Suc k)
  then show ?case using write_max_pos by (cases bs) auto
qed simp

text \<open>All calls of \<^verbatim>\<open>writei\<close> succeed: one result per piece.\<close>

definition all_written :: "u8 list \<Rightarrow> int list" where
  "all_written bs = map (\<lambda>p. int (length (snd p))) (pieces 0 bs (length bs))"

lemma pieces_results: "map (\<lambda>p. int (length (snd p))) (pieces off bs k) = map (\<lambda>p. int (length (snd p))) (pieces off' bs k)"
  by (induction k arbitrary: off off' bs) auto

lemma write_loop_ok:
  assumes "length bs \<le> k" "i < length (ft_file t)"
  shows "\<exists>t'. write_loop i bs (map (\<lambda>p. int (length (snd p))) (pieces off bs k)) t = Some ([], t') \<and>
    f_off (ft_file t' ! i) = f_off (ft_file t ! i) + word_of_nat (length bs) \<and>
    f_ip (ft_file t' ! i) = f_ip (ft_file t ! i) \<and> length (ft_file t') = length (ft_file t) \<and>
    written (ft_calls t') = written (ft_calls t) @ map (\<lambda>(o', p). (f_ip (ft_file t ! i), o', p)) (pieces (f_off (ft_file t ! i)) bs k)"
  using assms
proof (induction k arbitrary: bs t off)
  case (Suc k)
  show ?case
  proof (cases bs)
    case Nil then show ?thesis by simp
  next
    case (Cons b cs)
    define chunk where "chunk = take write_max bs"
    let ?f = "ft_file t ! i"
    let ?r = "int (length chunk)"
    have ne: "bs \<noteq> []" "0 < ?r" "length chunk \<le> length bs" using Cons write_max_pos by (auto simp: chunk_def)
    define t1 where "t1 = icall [Iunlock (f_ip ?f), End_op] (upd_file i (\<lambda>f. f\<lparr>f_off := f_off f + word_of_int ?r\<rparr>)
      (icall [UpdatePage (f_ip ?f) (f_off ?f) chunk] (icall [Begin_op, Ilock (f_ip ?f), Writei (f_ip ?f) (f_off ?f) chunk] t)))"
    have t1: "length (ft_file t1) = length (ft_file t)" "f_off (ft_file t1 ! i) = f_off ?f + word_of_nat (length chunk)"
        "f_ip (ft_file t1 ! i) = f_ip ?f" "written (ft_calls t1) = written (ft_calls t) @ [(f_ip ?f, f_off ?f, chunk)]"
      using Suc.prems(2) by (simp_all add: t1_def)
    have len: "length (drop write_max bs) \<le> k" using Suc.prems(1) Cons write_max_pos by auto
    from Suc.IH [OF len, of t1 "off + word_of_nat (length chunk)"] Suc.prems(2) t1(1) obtain t' where
      t': "write_loop i (drop write_max bs) (map (\<lambda>p. int (length (snd p))) (pieces (off + word_of_nat (length chunk)) (drop write_max bs) k)) t1 = Some ([], t')"
        "f_off (ft_file t' ! i) = f_off (ft_file t1 ! i) + word_of_nat (length (drop write_max bs))"
        "f_ip (ft_file t' ! i) = f_ip (ft_file t1 ! i)" "length (ft_file t') = length (ft_file t1)"
        "written (ft_calls t') = written (ft_calls t1) @ map (\<lambda>(o', p). (f_ip (ft_file t1 ! i), o', p)) (pieces (f_off (ft_file t1 ! i)) (drop write_max bs) k)"
      by auto
    have p: "pieces o' bs (Suc k) = (o', chunk) # pieces (o' + word_of_nat (length chunk)) (drop write_max bs) k" for o'
      using ne by (simp add: chunk_def)
    have "write_loop i bs (map (\<lambda>p. int (length (snd p))) (pieces off bs (Suc k))) t =
        write_loop i (drop write_max bs) (map (\<lambda>p. int (length (snd p))) (pieces (off + word_of_nat (length chunk)) (drop write_max bs) k)) t1"
    proof -
      have e: "take (min (Suc (length cs)) write_max) (b # cs) = take write_max (b # cs)" by (cases "Suc (length cs) \<le> write_max") simp_all
      show ?thesis using ne unfolding p t1_def chunk_def Cons by (simp add: Let_def) (simp only: e)
    qed
    then have w: "write_loop i bs (map (\<lambda>p. int (length (snd p))) (pieces off bs (Suc k))) t = Some ([], t')" using t'(1) by (rule trans)
    have "length bs = length chunk + length (drop write_max bs)" using ne(3) by (simp add: chunk_def)
    then have "f_off (ft_file t' ! i) = f_off ?f + word_of_nat (length bs)" using t'(2) t1(2) by (simp only: of_nat_add add.assoc)
    moreover have "written (ft_calls t') = written (ft_calls t) @ map (\<lambda>(o', p). (f_ip ?f, o', p)) (pieces (f_off ?f) bs (Suc k))"
      using t'(5) t1 unfolding p [of "f_off ?f"] by (simp only: append_assoc list.map prod.case append_Cons append_Nil)
    ultimately show ?thesis using w t'(3,4) t1(1,3) by (intro exI [of _ t']) (simp only:)
  qed
qed simp

section \<open>Properties\<close>

text \<open>C37. Whatever handles are allocated, duplicated and closed since boot, the reference count of every table
  entry is the number of handles on it: duplicating or closing a handle that is held never panics for a
  bad count, and an entry that is handed out is one on which nobody holds a handle.\<close>

theorem file_reference_counts:
  assumes "handle_step\<^sup>*\<^sup>* (empty_table, {#}) (t, h)"
  shows "(\<forall>i < NFILE. f_ref (ft_file t ! i) = int (count h i)) \<and> (\<forall>i \<in># h. \<exists>t'. filedup i t = Some t') \<and>
    (\<forall>i t'. filealloc t = Some (Some i, t') \<longrightarrow> i \<notin># h)"
proof -
  have ok: "refs_ok (t, h)" using fh.reachable_inv [OF _ assms] by simp
  then show ?thesis using filedup_refs [OF ok] filealloc_refs [OF ok] refs_okD(3) [OF ok] by fastforce
qed

theorem file_reference_counts_witness:
  "\<exists>t. handle_step\<^sup>*\<^sup>* (empty_table, {#}) (t, {#0#}) \<and> f_ref (ft_file t ! 0) = 1"
proof -
  have f: "List.find (\<lambda>i. f_ref (ft_file (empty_table\<lparr>ft_lock := True\<rparr>) ! i) = 0) [0..<NFILE] = Some 0"
    by (simp add: NFILE_def upt_conv_Cons empty_table_def empty_file_def)
  have "\<not> ft_lock empty_table" by (simp add: empty_table_def)
  with f obtain t where t: "filealloc empty_table = Some (Some 0, t)"
    by (simp add: filealloc_def acquire_ft_def release_ft_def)
  then have "handle_step\<^sup>*\<^sup>* (empty_table, {#}) (t, {#0#})" using h_alloc [of empty_table 0 t "{#}"] by auto
  from file_reference_counts [OF this] this show ?thesis by (auto simp: NFILE_def)
qed

text \<open>Writing \<open>n\<close> bytes to a file when the inode layer takes them all: the bytes are handed over in pieces
  of at most 1536 bytes (three blocks, so that a piece fits one log transaction), at consecutive offsets
  from the file's offset on, in order and without gap; the call returns \<open>n\<close> and the offset has moved by \<open>n\<close>.\<close>

theorem filewrite_in_pieces:
  assumes "i < length (ft_file t)" "f_writable (ft_file t ! i)" "f_type (ft_file t ! i) = FD_INODE"
  shows "\<exists>t'. filewrite killed i bs (all_written bs) t = Some (Finished (int (length bs)), [], t') \<and>
    f_off (ft_file t' ! i) = f_off (ft_file t ! i) + word_of_nat (length bs) \<and>
    written (ft_calls t') = written (ft_calls t) @
      map (\<lambda>(off, p). (f_ip (ft_file t ! i), off, p)) (pieces (f_off (ft_file t ! i)) bs (length bs)) \<and>
    concat (map snd (pieces (f_off (ft_file t ! i)) bs (length bs))) = bs"
  using write_loop_ok [OF order.refl assms(1), of bs 0] assms(2,3)
  by (auto simp: filewrite_def all_written_def Let_def pieces_concat)

theorem filewrite_in_pieces_witness:
  "\<exists>t'. filewrite False 0 [1, 2] (all_written [1, 2])
      (upd_file 0 (\<lambda>f. f\<lparr>f_writable := True, f_type := FD_INODE, f_off := 10\<rparr>) empty_table) = Some (Finished 2, [], t') \<and>
    f_off (ft_file t' ! 0) = 12"
  using filewrite_in_pieces [of 0 "upd_file 0 (\<lambda>f. f\<lparr>f_writable := True, f_type := FD_INODE, f_off := 10\<rparr>) empty_table" False "[1, 2]"]
  by (auto simp: empty_table_def NFILE_def)

end
