(* ===== verification/Bio.thy ===== *)
theory Bio
  imports Memory
begin

text \<open>
  The buffer cache of the teaching operating system (\<^verbatim>\<open>buf.h\<close>, \<^verbatim>\<open>bio.c\<close>), its sleep locks
  (\<^verbatim>\<open>sleeplock.h\<close>, \<^verbatim>\<open>sleeplock.c\<close>) and the in-memory disk driver (\<^verbatim>\<open>memide.c\<close>). Buffers are named by
  their index; the doubly linked list in order of use is a list of indices, most recent first. A call
  that would have to wait for a sleep lock has no result. Every block that is written to the disk is also
  appended to a trace, so that a crash is a prefix of the trace.
\<close>

section \<open>State\<close>

definition BSIZE :: nat where "BSIZE = 512"
definition NBUF :: nat where "NBUF = 30"
definition ROOTDEV :: u32 where "ROOTDEV = 1"

type_synonym block = "u8 list"

record sleeplock =
  sl_locked :: bool
  sl_pid :: int

record buf =
  b_valid :: bool
  b_dirty :: bool
  b_dev :: u32
  b_blockno :: nat
  b_lock :: sleeplock
  b_refcnt :: nat
  b_data :: block

record bcache =
  bc_lock :: bool
  bc_buf :: "buf list"
  bc_mru :: "nat list"
  bc_disk :: "nat \<Rightarrow> block"
  bc_disksize :: nat
  bc_trace :: "(nat \<times> block) list"

abbreviation buf_at :: "bcache \<Rightarrow> nat \<Rightarrow> buf" where
  "buf_at s i \<equiv> bc_buf s ! i"

definition upd_buf :: "nat \<Rightarrow> (buf \<Rightarrow> buf) \<Rightarrow> bcache \<Rightarrow> bcache" where
  "upd_buf i f s = s\<lparr>bc_buf := (bc_buf s)[i := f (buf_at s i)]\<rparr>"

section \<open>Sleep locks\<close>

definition initsleeplock :: "sleeplock \<Rightarrow> sleeplock" where
  "initsleeplock lk = lk\<lparr>sl_locked := False, sl_pid := 0\<rparr>"

definition acquiresleep :: "int \<Rightarrow> sleeplock \<Rightarrow> sleeplock option" where
  "acquiresleep pid lk = (if sl_locked lk then None else Some (lk\<lparr>sl_locked := True, sl_pid := pid\<rparr>))"

definition releasesleep :: "sleeplock \<Rightarrow> sleeplock" where
  "releasesleep lk = lk\<lparr>sl_locked := False, sl_pid := 0\<rparr>"

definition holdingsleep :: "int \<Rightarrow> sleeplock \<Rightarrow> bool" where
  "holdingsleep pid lk = (sl_locked lk \<and> sl_pid lk = pid)"

section \<open>The disk\<close>

definition iderw :: "int \<Rightarrow> nat \<Rightarrow> bcache \<Rightarrow> bcache option" where
  "iderw pid i s =
    (let b = buf_at s i in
     if \<not> holdingsleep pid (b_lock b) then panic ''iderw: buf not locked''
     else if b_valid b \<and> \<not> b_dirty b then panic ''iderw: nothing to do''
     else if b_dev b \<noteq> 1 then panic ''iderw: request not for disk 1''
     else if bc_disksize s \<le> b_blockno b then panic ''iderw: block out of range''
     else if b_dirty b then
       Some (upd_buf i (\<lambda>b. b\<lparr>b_dirty := False, b_valid := True\<rparr>)
         (s\<lparr>bc_disk := (bc_disk s)(b_blockno b := b_data b), bc_trace := bc_trace s @ [(b_blockno b, b_data b)]\<rparr>))
     else Some (upd_buf i (\<lambda>b. b\<lparr>b_data := bc_disk s (b_blockno b), b_valid := True\<rparr>) s))"

section \<open>The cache\<close>

text \<open>Every buffer is put at the front of the list in turn.\<close>

definition binit :: "bcache \<Rightarrow> bcache" where
  "binit s = s\<lparr>bc_lock := False, bc_mru := fold (#) [0..<NBUF] [],
     bc_buf := map (\<lambda>b. b\<lparr>b_lock := initsleeplock (b_lock b)\<rparr>) (bc_buf s)\<rparr>"

definition acquire_bc :: "bcache \<Rightarrow> bcache option" where
  "acquire_bc s = (if bc_lock s then None else Some (s\<lparr>bc_lock := True\<rparr>))"

definition release_bc :: "bcache \<Rightarrow> bcache option" where
  "release_bc s = (if bc_lock s then Some (s\<lparr>bc_lock := False\<rparr>) else panic ''release'')"

definition lock_buf :: "int \<Rightarrow> nat \<Rightarrow> bcache \<Rightarrow> bcache option" where
  "lock_buf pid i s = do {
     lk \<leftarrow> acquiresleep pid (b_lock (buf_at s i));
     Some (upd_buf i (\<lambda>b. b\<lparr>b_lock := lk\<rparr>) s)
   }"

definition bget :: "int \<Rightarrow> u32 \<Rightarrow> nat \<Rightarrow> bcache \<Rightarrow> (nat \<times> bcache) option" where
  "bget pid dev blockno s = do {
     s \<leftarrow> acquire_bc s;
     case List.find (\<lambda>i. b_dev (buf_at s i) = dev \<and> b_blockno (buf_at s i) = blockno) (bc_mru s) of
       Some i \<Rightarrow> do {
         s \<leftarrow> release_bc (upd_buf i (\<lambda>b. b\<lparr>b_refcnt := b_refcnt b + 1\<rparr>) s);
         s \<leftarrow> lock_buf pid i s;
         Some (i, s)
       }
     | None \<Rightarrow>
         (case List.find (\<lambda>i. b_refcnt (buf_at s i) = 0 \<and> \<not> b_dirty (buf_at s i)) (rev (bc_mru s)) of
            Some i \<Rightarrow> do {
              s \<leftarrow> release_bc (upd_buf i (\<lambda>b. b\<lparr>b_dev := dev, b_blockno := blockno, b_valid := False, b_dirty := False,
                     b_refcnt := 1\<rparr>) s);
              s \<leftarrow> lock_buf pid i s;
              Some (i, s)
            }
          | None \<Rightarrow> panic ''bget: no buffers'')
   }"

definition bread :: "int \<Rightarrow> u32 \<Rightarrow> nat \<Rightarrow> bcache \<Rightarrow> (nat \<times> bcache) option" where
  "bread pid dev blockno s = do {
     (i, s) \<leftarrow> bget pid dev blockno s;
     s \<leftarrow> (if b_valid (buf_at s i) then Some s else iderw pid i s);
     Some (i, s)
   }"

definition bwrite :: "int \<Rightarrow> nat \<Rightarrow> bcache \<Rightarrow> bcache option" where
  "bwrite pid i s =
    (if \<not> holdingsleep pid (b_lock (buf_at s i)) then panic ''bwrite''
     else iderw pid i (upd_buf i (\<lambda>b. b\<lparr>b_dirty := True\<rparr>) s))"

text \<open>Unlinking a buffer and linking it in at the front.\<close>

definition to_front :: "nat \<Rightarrow> nat list \<Rightarrow> nat list" where
  "to_front i is = i # filter (\<lambda>j. j \<noteq> i) is"

definition brelse :: "int \<Rightarrow> nat \<Rightarrow> bcache \<Rightarrow> bcache option" where
  "brelse pid i s =
    (if \<not> holdingsleep pid (b_lock (buf_at s i)) then panic ''brelse''
     else do {
       s \<leftarrow> acquire_bc (upd_buf i (\<lambda>b. b\<lparr>b_lock := releasesleep (b_lock b)\<rparr>) s);
       let s = upd_buf i (\<lambda>b. b\<lparr>b_refcnt := b_refcnt b - 1\<rparr>) s;
       release_bc (if b_refcnt (buf_at s i) = 0 then s\<lparr>bc_mru := to_front i (bc_mru s)\<rparr> else s)
     })"

section \<open>Coherence\<close>

text \<open>The invariant of the cache, at any moment outside its own critical sections: no block is cached twice, a
  buffer in use has a reference, a buffer that nobody holds and that is not waiting for the log has the
  contents of its block on disk.\<close>

definition buf_ok :: "bcache \<Rightarrow> buf \<Rightarrow> bool" where
  "buf_ok s b = (length (b_data b) = BSIZE \<and> (sl_locked (b_lock b) \<longrightarrow> 0 < b_refcnt b) \<and> (b_dirty b \<longrightarrow> b_valid b) \<and>
     (b_valid b \<or> 0 < b_refcnt b \<longrightarrow> b_dev b = 1 \<and> b_blockno b < bc_disksize s) \<and>
     (b_valid b \<and> \<not> b_dirty b \<and> \<not> sl_locked (b_lock b) \<longrightarrow> b_data b = bc_disk s (b_blockno b)))"

definition no_twins :: "bcache \<Rightarrow> bool" where
  "no_twins s = (\<forall>i < length (bc_buf s). \<forall>j < length (bc_buf s). i \<noteq> j \<and> b_dev (buf_at s i) = 1 \<and> b_dev (buf_at s j) = 1 \<longrightarrow>
     b_blockno (buf_at s i) \<noteq> b_blockno (buf_at s j))"

definition bc_ok :: "bcache \<Rightarrow> bool" where
  "bc_ok s = (\<not> bc_lock s \<and> distinct (bc_mru s) \<and> set (bc_mru s) = {0..<length (bc_buf s)} \<and>
     (\<forall>i < length (bc_buf s). buf_ok s (buf_at s i)) \<and> no_twins s \<and> (\<forall>b. length (bc_disk s b) = BSIZE))"

text \<open>What a reader of block \<open>b\<close> gets.\<close>

definition cached :: "bcache \<Rightarrow> nat \<Rightarrow> nat \<Rightarrow> bool" where
  "cached s b i = (i < length (bc_buf s) \<and> b_dev (buf_at s i) = 1 \<and> b_blockno (buf_at s i) = b \<and> b_valid (buf_at s i))"

definition block_view :: "bcache \<Rightarrow> nat \<Rightarrow> block" where
  "block_view s b = (case List.find (cached s b) [0..<length (bc_buf s)] of Some i \<Rightarrow> b_data (buf_at s i) | None \<Rightarrow> bc_disk s b)"

lemma upd_buf_simps [simp]:
  "bc_buf (upd_buf i f s) = (bc_buf s)[i := f (buf_at s i)]" "bc_lock (upd_buf i f s) = bc_lock s" "bc_mru (upd_buf i f s) = bc_mru s"
  "bc_disk (upd_buf i f s) = bc_disk s" "bc_disksize (upd_buf i f s) = bc_disksize s" "bc_trace (upd_buf i f s) = bc_trace s"
  by (simp_all add: upd_buf_def)

lemma no_twinsD:
  "no_twins s \<Longrightarrow> i < length (bc_buf s) \<Longrightarrow> j < length (bc_buf s) \<Longrightarrow> b_dev (buf_at s i) = 1 \<Longrightarrow> b_dev (buf_at s j) = 1 \<Longrightarrow>
    b_blockno (buf_at s i) = b_blockno (buf_at s j) \<Longrightarrow> i = j"
  unfolding no_twins_def by blast

lemma view_cached: "no_twins s \<Longrightarrow> cached s b i \<Longrightarrow> block_view s b = b_data (buf_at s i)"
proof -
  assume nt: "no_twins s" and c: "cached s b i"
  have "\<exists>j. List.find (cached s b) [0..<length (bc_buf s)] = Some j"
  proof (cases "List.find (cached s b) [0..<length (bc_buf s)]")
    case None
    then show ?thesis using c by (auto simp: find_None_iff cached_def)
  qed simp
  then obtain j where j: "List.find (cached s b) [0..<length (bc_buf s)] = Some j" by blast
  then have "cached s b j" using find_Some_prop by metis
  then have "j = i" using nt c by (auto simp: cached_def intro: no_twinsD)
  with j show ?thesis by (simp add: block_view_def)
qed

lemma view_uncached: "\<forall>i. \<not> cached s b i \<Longrightarrow> block_view s b = bc_disk s b"
  unfolding block_view_def by (cases "List.find (cached s b) [0..<length (bc_buf s)]") (auto dest: find_Some_prop)

text \<open>A description of the view by cases is a complete one.\<close>

lemma viewI:
  assumes "no_twins s" "\<And>i. cached s b i \<Longrightarrow> b_data (buf_at s i) = x" "\<forall>i. \<not> cached s b i \<Longrightarrow> bc_disk s b = x"
  shows "block_view s b = x"
  using assms view_cached [OF assms(1)] view_uncached by metis

lemma bc_ok_view_clean:
  assumes "bc_ok s" "\<forall>i < length (bc_buf s). b_dev (buf_at s i) = 1 \<and> b_blockno (buf_at s i) = b \<longrightarrow>
    \<not> b_dirty (buf_at s i) \<and> \<not> sl_locked (b_lock (buf_at s i))"
  shows "block_view s b = bc_disk s b"
  using assms by (intro viewI) (auto simp: bc_ok_def cached_def buf_ok_def)

lemma length_view: "bc_ok s \<Longrightarrow> length (block_view s b) = BSIZE"
proof -
  assume ok: "bc_ok s"
  show ?thesis
  proof (cases "\<exists>i. cached s b i")
    case True
    then obtain i where i: "cached s b i" by blast
    then have "block_view s b = b_data (buf_at s i)" using ok view_cached by (auto simp: bc_ok_def)
    then show ?thesis using ok i by (auto simp: bc_ok_def buf_ok_def cached_def)
  next
    case False
    then show ?thesis using ok view_uncached [of s b] by (simp add: bc_ok_def)
  qed
qed

section \<open>The calls in terms of the view\<close>

lemma upd_buf_const: "upd_buf i f s = upd_buf i (\<lambda>_. f (buf_at s i)) s"
  by (simp add: upd_buf_def)

lemma upd_buf_twice: "i < length (bc_buf s) \<Longrightarrow> upd_buf i f (upd_buf i g s) = upd_buf i (\<lambda>b. f (g b)) s"
  by (simp add: upd_buf_def)

lemma lock_roundtrip [simp]: "\<not> bc_lock s \<Longrightarrow> (upd_buf i f (s\<lparr>bc_lock := True\<rparr>))\<lparr>bc_lock := False\<rparr> = upd_buf i f s"
  by (cases s) (simp add: upd_buf_def)

text \<open>Replacing one buffer keeps the invariant if the new one is coherent and no twin of another.\<close>

lemma bc_ok_upd:
  assumes ok: "bc_ok s" and i: "i < length (bc_buf s)" and nb: "buf_ok s nb"
    and twin: "b_dev nb = 1 \<Longrightarrow> \<forall>j < length (bc_buf s). j \<noteq> i \<and> b_dev (buf_at s j) = 1 \<longrightarrow> b_blockno (buf_at s j) \<noteq> b_blockno nb"
  shows "bc_ok (upd_buf i (\<lambda>_. nb) s)"
proof -
  have "no_twins (upd_buf i (\<lambda>_. nb) s)"
    unfolding no_twins_def
  proof (intro allI impI, elim conjE)
    fix j k assume jk: "j < length (bc_buf (upd_buf i (\<lambda>_. nb) s))" "k < length (bc_buf (upd_buf i (\<lambda>_. nb) s))" "j \<noteq> k"
      "b_dev (buf_at (upd_buf i (\<lambda>_. nb) s) j) = 1" "b_dev (buf_at (upd_buf i (\<lambda>_. nb) s) k) = 1"
    have "no_twins s" using ok by (simp add: bc_ok_def)
    then show "b_blockno (buf_at (upd_buf i (\<lambda>_. nb) s) j) \<noteq> b_blockno (buf_at (upd_buf i (\<lambda>_. nb) s) k)"
      using jk i twin no_twinsD [of s j k] by (cases "j = i"; cases "k = i") (auto simp: nth_list_update)
  qed
  then show ?thesis using ok i nb by (auto simp: bc_ok_def buf_ok_def nth_list_update)
qed

text \<open>What \<open>bread\<close> does to the one buffer it picks: it is the block's own, or an unused one.\<close>

definition picks :: "bcache \<Rightarrow> nat \<Rightarrow> nat \<Rightarrow> bool" where
  "picks s b i = (i < length (bc_buf s) \<and>
     (b_dev (buf_at s i) = 1 \<and> b_blockno (buf_at s i) = b \<or>
      b_refcnt (buf_at s i) = 0 \<and> \<not> b_dirty (buf_at s i) \<and>
      (\<forall>j < length (bc_buf s). \<not> (b_dev (buf_at s j) = 1 \<and> b_blockno (buf_at s j) = b))))"

definition held :: "int \<Rightarrow> bcache \<Rightarrow> nat \<Rightarrow> nat \<Rightarrow> buf" where
  "held pid s b i = (buf_at s i)\<lparr>b_valid := True, b_dev := 1, b_blockno := b,
     b_lock := (b_lock (buf_at s i))\<lparr>sl_locked := True, sl_pid := pid\<rparr>, b_refcnt := Suc (b_refcnt (buf_at s i)), b_data := block_view s b\<rparr>"

lemma bread_picks:
  assumes ok: "bc_ok s" and b: "b < bc_disksize s"
    and unl: "\<forall>i < length (bc_buf s). b_dev (buf_at s i) = 1 \<and> b_blockno (buf_at s i) = b \<longrightarrow> \<not> sl_locked (b_lock (buf_at s i))"
    and room: "(\<exists>i < length (bc_buf s). b_dev (buf_at s i) = 1 \<and> b_blockno (buf_at s i) = b) \<or>
      (\<exists>i < length (bc_buf s). b_refcnt (buf_at s i) = 0 \<and> \<not> b_dirty (buf_at s i))"
  shows "\<exists>i. picks s b i \<and> bread pid 1 b s = Some (i, upd_buf i (\<lambda>_. held pid s b i) s)"
proof -
  let ?own = "\<lambda>i. b_dev (buf_at s i) = 1 \<and> b_blockno (buf_at s i) = b"
  let ?free = "\<lambda>i. b_refcnt (buf_at s i) = 0 \<and> \<not> b_dirty (buf_at s i)"
  have lk: "\<not> bc_lock s" and mru: "set (bc_mru s) = {0..<length (bc_buf s)}" and nt: "no_twins s" using ok by (auto simp: bc_ok_def)
  have bok: "i < length (bc_buf s) \<Longrightarrow> buf_ok s (buf_at s i)" for i using ok by (simp add: bc_ok_def)
  show ?thesis
  proof (cases "List.find ?own (bc_mru s)")
    case (Some i)
    then have i: "?own i" "i < length (bc_buf s)" using find_Some_prop [OF Some] mru by auto
    let ?f = "\<lambda>x. x\<lparr>b_refcnt := b_refcnt x + 1, b_lock := (b_lock x)\<lparr>sl_locked := True, sl_pid := pid\<rparr>\<rparr>"
    have g: "bget pid 1 b s = Some (i, upd_buf i ?f s)"
      using Some lk i(2) unl i by (simp add: bget_def acquire_bc_def release_bc_def lock_buf_def acquiresleep_def upd_buf_twice)
    have p: "picks s b i" using i by (simp add: picks_def)
    show ?thesis
    proof (cases "b_valid (buf_at s i)")
      case True
      then have "block_view s b = b_data (buf_at s i)" using view_cached [OF nt] i by (auto simp: cached_def)
      then have "held pid s b i = ?f (buf_at s i)" using i True by (cases "buf_at s i") (auto simp: held_def)
      with g True i p show ?thesis using upd_buf_const [of i ?f s] by (auto simp: bread_def)
    next
      case False
      then have nd: "\<not> b_dirty (buf_at s i)" using bok [OF i(2)] by (auto simp: buf_ok_def)
      have "block_view s b = bc_disk s b"
        using False i nt by (intro view_uncached) (auto simp: cached_def dest: no_twinsD)
      then have h: "held pid s b i = (?f (buf_at s i))\<lparr>b_data := bc_disk s b, b_valid := True\<rparr>"
        using i by (cases "buf_at s i") (auto simp: held_def)
      have "iderw pid i (upd_buf i ?f s) = Some (upd_buf i (\<lambda>_. held pid s b i) s)"
        using False nd i b by (simp add: iderw_def Let_def holdingsleep_def upd_buf_twice h)
      with g False i p show ?thesis by (auto simp: bread_def)
    qed
  next
    case None
    then have none: "\<forall>j < length (bc_buf s). \<not> ?own j" using mru by (auto simp: find_None_iff)
    then obtain k where k: "k < length (bc_buf s)" "?free k" using room by blast
    have "\<exists>i. List.find ?free (rev (bc_mru s)) = Some i"
    proof (cases "List.find ?free (rev (bc_mru s))")
      case None
      then show ?thesis using k mru by (auto simp: find_None_iff)
    qed simp
    then obtain i where fi: "List.find ?free (rev (bc_mru s)) = Some i" by blast
    then have i: "?free i" "i < length (bc_buf s)" using find_Some_prop [OF fi] mru by auto
    then have "\<not> sl_locked (b_lock (buf_at s i))" using bok [OF i(2)] by (auto simp: buf_ok_def)
    let ?f = "\<lambda>x. x\<lparr>b_dev := 1, b_blockno := b, b_valid := False, b_dirty := False, b_refcnt := 1,
        b_lock := (b_lock x)\<lparr>sl_locked := True, sl_pid := pid\<rparr>\<rparr>"
    have g: "bget pid 1 b s = Some (i, upd_buf i ?f s)"
      using None fi lk i \<open>\<not> sl_locked (b_lock (buf_at s i))\<close>
      by (simp add: bget_def acquire_bc_def release_bc_def lock_buf_def acquiresleep_def upd_buf_twice)
    have "block_view s b = bc_disk s b" using none by (intro view_uncached) (auto simp: cached_def)
    then have h: "held pid s b i = (?f (buf_at s i))\<lparr>b_data := bc_disk s b, b_valid := True\<rparr>"
      using i by (cases "buf_at s i") (auto simp: held_def)
    have "iderw pid i (upd_buf i ?f s) = Some (upd_buf i (\<lambda>_. held pid s b i) s)"
      using i b by (simp add: iderw_def Let_def holdingsleep_def upd_buf_twice h)
    with g i none show ?thesis by (auto simp: bread_def picks_def)
  qed
qed

lemma held_ok:
  assumes ok: "bc_ok s" and p: "picks s b i" and b: "b < bc_disksize s"
  shows "bc_ok (upd_buf i (\<lambda>_. held pid s b i) s)" "block_view (upd_buf i (\<lambda>_. held pid s b i) s) c = block_view s c"
proof -
  let ?s = "upd_buf i (\<lambda>_. held pid s b i) s"
  have i: "i < length (bc_buf s)" using p by (simp add: picks_def)
  have bok: "buf_ok s (buf_at s i)" and nt: "no_twins s" using ok i by (auto simp: bc_ok_def)
  have twin: "\<forall>j < length (bc_buf s). j \<noteq> i \<and> b_dev (buf_at s j) = 1 \<longrightarrow> b_blockno (buf_at s j) \<noteq> b"
    using p nt i unfolding picks_def by (metis no_twinsD)
  show ok': "bc_ok ?s"
    by (rule bc_ok_upd [OF ok i]) (use bok b twin length_view [OF ok] in \<open>auto simp: held_def buf_ok_def\<close>)
  then have nt': "no_twins ?s" by (simp add: bc_ok_def)
  show "block_view ?s c = block_view s c"
  proof (rule viewI [OF nt'])
    fix j assume c: "cached ?s c j"
    show "b_data (buf_at ?s j) = block_view s c"
    proof (cases "j = i")
      case True
      then show ?thesis using c i by (auto simp: cached_def held_def)
    next
      case False
      then have "cached s c j" using c by (auto simp: cached_def)
      then show ?thesis using view_cached [OF nt] False by simp
    qed
  next
    assume n: "\<forall>j. \<not> cached ?s c j"
    have "cached ?s b i" using i by (simp add: cached_def held_def)
    then have "c \<noteq> b" using n by blast
    have "b_data (buf_at s j) = bc_disk s c" if "cached s c j" for j
    proof (cases "j = i")
      case False
      then have "cached ?s c j" using that by (auto simp: cached_def)
      then show ?thesis using n by simp
    next
      case True
      with that p \<open>c \<noteq> b\<close> have "b_refcnt (buf_at s i) = 0 \<and> \<not> b_dirty (buf_at s i)" by (auto simp: picks_def cached_def)
      then show ?thesis using bok that True by (auto simp: buf_ok_def cached_def)
    qed
    then show "bc_disk ?s c = block_view s c" using viewI [OF nt, of c "bc_disk s c"] by simp
  qed
qed

text \<open>A buffer that process \<open>pid\<close> holds for block \<open>b\<close>.\<close>

definition holds :: "int \<Rightarrow> bcache \<Rightarrow> nat \<Rightarrow> nat \<Rightarrow> bool" where
  "holds pid s b i = (cached s b i \<and> holdingsleep pid (b_lock (buf_at s i)) \<and> 0 < b_refcnt (buf_at s i))"

lemma bread_ok:
  assumes "bc_ok s" "b < bc_disksize s"
    "\<forall>i < length (bc_buf s). b_dev (buf_at s i) = 1 \<and> b_blockno (buf_at s i) = b \<longrightarrow> \<not> sl_locked (b_lock (buf_at s i))"
    "(\<exists>i < length (bc_buf s). b_dev (buf_at s i) = 1 \<and> b_blockno (buf_at s i) = b) \<or>
      (\<exists>i < length (bc_buf s). b_refcnt (buf_at s i) = 0 \<and> \<not> b_dirty (buf_at s i))"
  shows "\<exists>i nb. picks s b i \<and> nb = held pid s b i \<and> bread pid 1 b s = Some (i, upd_buf i (\<lambda>_. nb) s) \<and>
    bc_ok (upd_buf i (\<lambda>_. nb) s) \<and> holds pid (upd_buf i (\<lambda>_. nb) s) b i \<and>
    block_view (upd_buf i (\<lambda>_. nb) s) = block_view s"
proof -
  obtain i where i: "picks s b i" "bread pid 1 b s = Some (i, upd_buf i (\<lambda>_. held pid s b i) s)"
    using bread_picks [OF assms, of pid] by blast
  then have "holds pid (upd_buf i (\<lambda>_. held pid s b i) s) b i"
    by (simp add: holds_def cached_def held_def picks_def holdingsleep_def)
  with i held_ok [OF assms(1) i(1) assms(2), of pid] show ?thesis by blast
qed

text \<open>Changing the data of a held buffer changes the view of its block only.\<close>

definition set_data :: "nat \<Rightarrow> block \<Rightarrow> bcache \<Rightarrow> bcache" where
  "set_data i d s = upd_buf i (\<lambda>b. b\<lparr>b_data := d\<rparr>) s"

lemma set_data_ok:
  assumes ok: "bc_ok s" and h: "holds pid s b i" and d: "length d = BSIZE"
  shows "bc_ok (set_data i d s)" "holds pid (set_data i d s) b i" "block_view (set_data i d s) = (block_view s)(b := d)"
proof -
  let ?s = "set_data i d s"
  have i: "i < length (bc_buf s)" "b_dev (buf_at s i) = 1" "b_blockno (buf_at s i) = b" "b_valid (buf_at s i)"
      "sl_locked (b_lock (buf_at s i))"
    using h by (auto simp: holds_def cached_def holdingsleep_def)
  have bok: "buf_ok s (buf_at s i)" and nt: "no_twins s" using ok i by (auto simp: bc_ok_def)
  show ok': "bc_ok ?s" unfolding set_data_def by (subst upd_buf_const, rule bc_ok_upd [OF ok i(1)])
      (use bok d i nt in \<open>auto simp: buf_ok_def dest: no_twinsD\<close>)
  show "holds pid ?s b i" using h i by (simp add: holds_def cached_def set_data_def)
  have nt': "no_twins ?s" using ok' by (simp add: bc_ok_def)
  show "block_view ?s = (block_view s)(b := d)"
  proof
    fix c
    show "block_view ?s c = ((block_view s)(b := d)) c"
    proof (cases "c = b")
      case True
      have "cached ?s b i" using i by (simp add: cached_def set_data_def)
      then show ?thesis using view_cached [OF nt'] i True by (simp add: set_data_def)
    next
      case False
      have "cached ?s c j \<longleftrightarrow> cached s c j \<and> j \<noteq> i" for j using False i by (auto simp: cached_def set_data_def nth_list_update)
      moreover have "\<not> cached s c i" using False i by (simp add: cached_def)
      ultimately have e: "cached ?s c = cached s c" by (intro ext) blast
      have "b_data (buf_at ?s j) = block_view s c" if "cached s c j" for j
        using that view_cached [OF nt that] \<open>\<not> cached s c i\<close> by (cases "j = i") (auto simp: set_data_def)
      then show ?thesis using e False view_uncached [of s c] by (intro viewI [OF nt']) (auto simp: set_data_def)
    qed
  qed
qed

lemma bwrite_ok:
  assumes ok: "bc_ok s" and h: "holds pid s b i"
  defines "s1 \<equiv> upd_buf i (\<lambda>x. x\<lparr>b_dirty := False\<rparr>) (s\<lparr>bc_disk := (bc_disk s)(b := block_view s b), bc_trace := bc_trace s @ [(b, block_view s b)]\<rparr>)"
  shows "bwrite pid i s = Some s1" "bc_ok s1" "holds pid s1 b i" "block_view s1 = block_view s"
proof -
  have i: "i < length (bc_buf s)" "b_dev (buf_at s i) = 1" "b_blockno (buf_at s i) = b" "b_valid (buf_at s i)"
      "sl_locked (b_lock (buf_at s i))" "sl_pid (b_lock (buf_at s i)) = pid"
    using h by (auto simp: holds_def cached_def holdingsleep_def)
  have bok: "buf_ok s (buf_at s i)" and nt: "no_twins s" using ok i by (auto simp: bc_ok_def)
  have v: "block_view s b = b_data (buf_at s i)" using view_cached [OF nt] h by (simp add: holds_def)
  have bs: "b < bc_disksize s" using bok i by (auto simp: buf_ok_def)
  have vt: "(buf_at s i)\<lparr>b_dirty := False, b_valid := True\<rparr> = (buf_at s i)\<lparr>b_dirty := False\<rparr>" using i by (cases "buf_at s i") simp
  show "bwrite pid i s = Some s1"
    using i v bs by (simp add: bwrite_def iderw_def holdingsleep_def Let_def upd_buf_def s1_def) (simp only: vt)
  let ?sd = "s\<lparr>bc_disk := (bc_disk s)(b := block_view s b), bc_trace := bc_trace s @ [(b, block_view s b)]\<rparr>"
  have "buf_ok s1 (buf_at s1 j)" if "j < length (bc_buf s)" for j
  proof (cases "j = i")
    case True
    then show ?thesis using bok i v by (simp add: s1_def buf_ok_def)
  next
    case False
    then have "buf_ok s (buf_at s j)" "b_dev (buf_at s j) = 1 \<longrightarrow> b_blockno (buf_at s j) \<noteq> b" using ok that nt i
      by (auto simp: bc_ok_def dest: no_twinsD)
    then show ?thesis using False by (auto simp: s1_def buf_ok_def)
  qed
  moreover have "no_twins s1"
    using nt i(1) unfolding no_twins_def s1_def by (auto simp: nth_list_update)
  moreover have "length (b_data (buf_at s i)) = BSIZE" using bok by (simp add: buf_ok_def)
  ultimately show ok1: "bc_ok s1" using ok v by (auto simp: bc_ok_def s1_def)
  show "holds pid s1 b i" using h i by (simp add: holds_def cached_def s1_def)
  show "block_view s1 = block_view s"
  proof
    fix c
    have c: "cached s1 c j \<longleftrightarrow> cached s c j" for j using i by (auto simp: cached_def s1_def nth_list_update)
    show "block_view s1 c = block_view s c"
    proof (rule viewI [OF \<open>no_twins s1\<close>])
      fix j assume "cached s1 c j"
      then show "b_data (buf_at s1 j) = block_view s c" using c view_cached [OF nt] i by (auto simp: s1_def nth_list_update)
    next
      assume "\<forall>j. \<not> cached s1 c j"
      moreover from this have "c \<noteq> b" using c h by (auto simp: holds_def)
      ultimately show "bc_disk s1 c = block_view s c" using c view_uncached [of s c] by (simp add: s1_def)
    qed
  qed
qed

lemma brelse_ok:
  assumes ok: "bc_ok s" and h: "holds pid s b i" and clean: "b_dirty (buf_at s i) \<or> block_view s b = bc_disk s b"
  shows "\<exists>m. brelse pid i s = Some ((upd_buf i (\<lambda>x. x\<lparr>b_lock := releasesleep (b_lock x), b_refcnt := b_refcnt x - 1\<rparr>) s)\<lparr>bc_mru := m\<rparr>) \<and>
      bc_ok ((upd_buf i (\<lambda>x. x\<lparr>b_lock := releasesleep (b_lock x), b_refcnt := b_refcnt x - 1\<rparr>) s)\<lparr>bc_mru := m\<rparr>) \<and>
      block_view ((upd_buf i (\<lambda>x. x\<lparr>b_lock := releasesleep (b_lock x), b_refcnt := b_refcnt x - 1\<rparr>) s)\<lparr>bc_mru := m\<rparr>) = block_view s"
proof -
  let ?f = "\<lambda>x. x\<lparr>b_lock := releasesleep (b_lock x), b_refcnt := b_refcnt x - 1\<rparr>"
  have i: "i < length (bc_buf s)" "b_dev (buf_at s i) = 1" "b_blockno (buf_at s i) = b" "b_valid (buf_at s i)"
      "sl_locked (b_lock (buf_at s i))" "sl_pid (b_lock (buf_at s i)) = pid"
    using h by (auto simp: holds_def cached_def holdingsleep_def)
  have bok: "buf_ok s (buf_at s i)" and nt: "no_twins s" and lk: "\<not> bc_lock s" using ok i by (auto simp: bc_ok_def)
  have v: "block_view s b = b_data (buf_at s i)" using view_cached [OF nt] h by (simp add: holds_def)
  define m where "m = (if b_refcnt (buf_at s i) - 1 = 0 then to_front i (bc_mru s) else bc_mru s)"
  have m: "distinct m" "set m = {0..<length (bc_buf s)}" using ok i(1) by (auto simp: m_def to_front_def bc_ok_def)
  let ?s = "(upd_buf i ?f s)\<lparr>bc_mru := m\<rparr>"
  have "brelse pid i s = Some ?s"
    using i lk by (simp add: brelse_def holdingsleep_def acquire_bc_def release_bc_def m_def upd_buf_def Let_def)
  moreover have "bc_ok (upd_buf i ?f s)"
    by (subst upd_buf_const, rule bc_ok_upd [OF ok i(1)]) (use bok i nt v clean in \<open>auto simp: buf_ok_def releasesleep_def dest: no_twinsD\<close>)
  then have "bc_ok ?s" using m by (auto simp: bc_ok_def buf_ok_def no_twins_def)
  moreover have "block_view ?s c = block_view s c" for c
  proof -
    have c: "cached ?s c j \<longleftrightarrow> cached s c j" for j using i by (auto simp: cached_def nth_list_update)
    have "no_twins ?s" using \<open>bc_ok ?s\<close> by (simp add: bc_ok_def)
    then show ?thesis
      by (rule viewI) (use c view_cached [OF nt, of c] view_uncached [of s c] i in \<open>auto simp: nth_list_update\<close>)
  qed
  ultimately show ?thesis by (intro exI [of _ m]) auto
qed

section \<open>The contract of the cache\<close>

text \<open>What a client of the cache sees: the contents of blocks as readers get them and as they are on disk, the
  writes so far, the blocks that wait for the log, and how many buffers there are.\<close>

record cstate =
  c_view :: "nat \<Rightarrow> block"
  c_disk :: "nat \<Rightarrow> block"
  c_trace :: "(nat \<times> block) list"
  c_dirty :: "nat set"
  c_room :: nat
  c_size :: nat

text \<open>\<open>busy s H\<close>: the blocks in \<open>H\<close> are held, each with its buffer, and nothing else is.\<close>

locale block_cache =
  fixes busy :: "'s \<Rightarrow> (nat \<times> nat) set \<Rightarrow> bool" and abs :: "'s \<Rightarrow> cstate" and data :: "'s \<Rightarrow> nat \<Rightarrow> block"
    and rd :: "nat \<Rightarrow> 's \<Rightarrow> (nat \<times> 's) option" and wr :: "nat \<Rightarrow> 's \<Rightarrow> 's option" and rl :: "nat \<Rightarrow> 's \<Rightarrow> 's option"
    and upd :: "nat \<Rightarrow> block \<Rightarrow> 's \<Rightarrow> 's"
  assumes rd_law: "busy s H \<Longrightarrow> finite H \<Longrightarrow> b \<notin> fst ` H \<Longrightarrow> b < c_size (abs s) \<Longrightarrow>
      b \<in> c_dirty (abs s) \<or> card (c_dirty (abs s)) + card H < c_room (abs s) \<Longrightarrow>
      \<exists>i s'. rd b s = Some (i, s') \<and> busy s' (insert (b, i) H) \<and> abs s' = abs s"
    and data_law: "busy s H \<Longrightarrow> (b, i) \<in> H \<Longrightarrow> data s i = c_view (abs s) b \<and> length (data s i) = BSIZE"
    and upd_law: "busy s H \<Longrightarrow> (b, i) \<in> H \<Longrightarrow> length d = BSIZE \<Longrightarrow>
      busy (upd i d s) H \<and> abs (upd i d s) = (abs s)\<lparr>c_view := (c_view (abs s))(b := d)\<rparr>"
    and wr_law: "busy s H \<Longrightarrow> (b, i) \<in> H \<Longrightarrow> \<exists>s'. wr i s = Some s' \<and> busy s' H \<and>
      abs s' = (abs s)\<lparr>c_disk := (c_disk (abs s))(b := c_view (abs s) b), c_trace := c_trace (abs s) @ [(b, c_view (abs s) b)],
        c_dirty := c_dirty (abs s) - {b}\<rparr>"
    and rl_law: "busy s H \<Longrightarrow> (b, i) \<in> H \<Longrightarrow> b \<in> c_dirty (abs s) \<or> c_view (abs s) b = c_disk (abs s) b \<Longrightarrow>
      \<exists>s'. rl i s = Some s' \<and> busy s' (H - {(b, i)}) \<and> abs s' = abs s"
    and coherent: "busy s {} \<Longrightarrow> b \<notin> c_dirty (abs s) \<Longrightarrow> c_view (abs s) b = c_disk (abs s) b"
begin

text \<open>The state after block \<open>b\<close> has been set to \<open>d\<close> and written through.\<close>

definition stored :: "nat \<Rightarrow> block \<Rightarrow> cstate \<Rightarrow> cstate" where
  "stored b d c = c\<lparr>c_view := (c_view c)(b := d), c_disk := (c_disk c)(b := d), c_trace := c_trace c @ [(b, d)], c_dirty := c_dirty c - {b}\<rparr>"

lemma edit:
  assumes "busy s {}" "b < c_size (abs s)" "b \<in> c_dirty (abs s) \<or> card (c_dirty (abs s)) < c_room (abs s)"
    "\<And>d. length d = BSIZE \<Longrightarrow> length (f d) = BSIZE"
  shows "\<exists>s'. do { (i, s) \<leftarrow> rd b s; s \<leftarrow> wr i (upd i (f (data s i)) s); rl i s } = Some s' \<and> busy s' {} \<and>
    abs s' = stored b (f (c_view (abs s) b)) (abs s)"
proof -
  obtain i s1 where 1: "rd b s = Some (i, s1)" "busy s1 {(b, i)}" "abs s1 = abs s" using rd_law [OF assms(1), of b] assms(2,3) by auto
  let ?d = "f (data s1 i)"
  have d: "data s1 i = c_view (abs s) b" "length ?d = BSIZE" using data_law [OF 1(2)] 1(3) assms(4) by auto
  have 2: "busy (upd i ?d s1) {(b, i)}" "abs (upd i ?d s1) = (abs s)\<lparr>c_view := (c_view (abs s))(b := ?d)\<rparr>"
    using upd_law [OF 1(2) _ d(2)] 1(3) by auto
  obtain s3 where 3: "wr i (upd i ?d s1) = Some s3" "busy s3 {(b, i)}" "abs s3 = stored b ?d (abs s)"
    using wr_law [OF 2(1)] 2(2) by (auto simp: stored_def)
  obtain s4 where 4: "rl i s3 = Some s4" "busy s4 {}" "abs s4 = abs s3" using rl_law [OF 3(2)] 3(3) by (auto simp: stored_def)
  show ?thesis using 1 3 4 d by auto
qed

lemma copy:
  assumes "busy s {}" "x \<noteq> y" "x < c_size (abs s)" "y < c_size (abs s)"
    "card (c_dirty (abs s)) < c_room (abs s)" "y \<in> c_dirty (abs s) \<or> card (c_dirty (abs s)) + 1 < c_room (abs s)"
  shows "\<exists>s'. do { (i, s) \<leftarrow> rd x s; (j, s) \<leftarrow> rd y s; s \<leftarrow> wr j (upd j (data s i) s); s \<leftarrow> rl i s; rl j s } = Some s' \<and>
      busy s' {} \<and> abs s' = stored y (c_view (abs s) x) (abs s)"
    "\<exists>s'. do { (i, s) \<leftarrow> rd x s; (j, s) \<leftarrow> rd y s; s \<leftarrow> wr i (upd i (data s j) s); s \<leftarrow> rl j s; rl i s } = Some s' \<and>
      busy s' {} \<and> abs s' = stored x (c_view (abs s) y) (abs s)"
proof -
  obtain i s1 where 1: "rd x s = Some (i, s1)" "busy s1 {(x, i)}" "abs s1 = abs s" using rd_law [OF assms(1), of x] assms by auto
  obtain j s2 where 2: "rd y s1 = Some (j, s2)" "busy s2 {(y, j), (x, i)}" "abs s2 = abs s"
    using rd_law [OF 1(2), of y] assms 1(3) by auto
  have d: "data s2 i = c_view (abs s) x" "length (data s2 i) = BSIZE" "data s2 j = c_view (abs s) y" "length (data s2 j) = BSIZE"
    using data_law [OF 2(2), of x i] data_law [OF 2(2), of y j] 2(3) by auto
  have out: "(y = x \<and> j = i) = False" using assms(2) by simp
  note cl = coherent [OF assms(1)]
  show "\<exists>s'. do { (i, s) \<leftarrow> rd x s; (j, s) \<leftarrow> rd y s; s \<leftarrow> wr j (upd j (data s i) s); s \<leftarrow> rl i s; rl j s } = Some s' \<and>
      busy s' {} \<and> abs s' = stored y (c_view (abs s) x) (abs s)"
  proof -
    obtain s3 where 3: "wr j (upd j (data s2 i) s2) = Some s3" "busy s3 {(y, j), (x, i)}" "abs s3 = stored y (data s2 i) (abs s)"
      using upd_law [OF 2(2) _ d(2), of y j] wr_law [of "upd j (data s2 i) s2" "{(y, j), (x, i)}" y j] 2(3) by (auto simp: stored_def)
    have "x \<in> c_dirty (abs s3) \<or> c_view (abs s3) x = c_disk (abs s3) x" using 3(3) assms(2) cl [of x] by (auto simp: stored_def)
    then obtain s4 where 4: "rl i s3 = Some s4" "busy s4 {(y, j)}" "abs s4 = abs s3"
      using rl_law [OF 3(2), of x i] out by (auto simp: insert_Diff_if)
    obtain s5 where 5: "rl j s4 = Some s5" "busy s5 {}" "abs s5 = abs s3"
      using rl_law [OF 4(2), of y j] 4(3) 3(3) by (auto simp: stored_def)
    show ?thesis using 1 2 3 4 5 d by auto
  qed
  show "\<exists>s'. do { (i, s) \<leftarrow> rd x s; (j, s) \<leftarrow> rd y s; s \<leftarrow> wr i (upd i (data s j) s); s \<leftarrow> rl j s; rl i s } = Some s' \<and>
      busy s' {} \<and> abs s' = stored x (c_view (abs s) y) (abs s)"
  proof -
    obtain s3 where 3: "wr i (upd i (data s2 j) s2) = Some s3" "busy s3 {(y, j), (x, i)}" "abs s3 = stored x (data s2 j) (abs s)"
      using upd_law [OF 2(2) _ d(4), of x i] wr_law [of "upd i (data s2 j) s2" "{(y, j), (x, i)}" x i] 2(3) by (auto simp: stored_def)
    have "y \<in> c_dirty (abs s3) \<or> c_view (abs s3) y = c_disk (abs s3) y" using 3(3) assms(2) cl [of y] by (auto simp: stored_def)
    then obtain s4 where 4: "rl j s3 = Some s4" "busy s4 {(x, i)}" "abs s4 = abs s3"
      using rl_law [OF 3(2), of y j] out by (auto simp: insert_Diff_if)
    obtain s5 where 5: "rl i s4 = Some s5" "busy s5 {}" "abs s5 = abs s3"
      using rl_law [OF 4(2), of x i] 4(3) 3(3) by (auto simp: stored_def)
    show ?thesis using 1 2 3 4 5 d by auto
  qed
qed

end

section \<open>The buffer cache keeps the contract\<close>

definition dirty_idx :: "bcache \<Rightarrow> nat set" where
  "dirty_idx s = {i. i < length (bc_buf s) \<and> b_dirty (buf_at s i)}"

definition bc_abs :: "bcache \<Rightarrow> cstate" where
  "bc_abs s = \<lparr>c_view = block_view s, c_disk = bc_disk s, c_trace = bc_trace s,
     c_dirty = (\<lambda>i. b_blockno (buf_at s i)) ` dirty_idx s, c_room = length (bc_buf s), c_size = bc_disksize s\<rparr>"

definition bc_busy :: "int \<Rightarrow> bcache \<Rightarrow> (nat \<times> nat) set \<Rightarrow> bool" where
  "bc_busy pid s H = (bc_ok s \<and> (\<forall>(b, i) \<in> H. holds pid s b i \<and> b_refcnt (buf_at s i) = 1) \<and>
     (\<forall>i < length (bc_buf s). i \<notin> snd ` H \<longrightarrow> b_refcnt (buf_at s i) = 0))"

lemma dirty_dev: "bc_ok s \<Longrightarrow> i \<in> dirty_idx s \<Longrightarrow> b_dev (buf_at s i) = 1 \<and> b_valid (buf_at s i)"
  by (auto simp: dirty_idx_def bc_ok_def buf_ok_def)

lemma card_dirty: "bc_ok s \<Longrightarrow> card ((\<lambda>i. b_blockno (buf_at s i)) ` dirty_idx s) = card (dirty_idx s)"
proof -
  assume ok: "bc_ok s"
  have "inj_on (\<lambda>i. b_blockno (buf_at s i)) (dirty_idx s)"
    using ok dirty_dev [OF ok] by (intro inj_onI) (auto simp: dirty_idx_def bc_ok_def intro: no_twinsD)
  then show ?thesis by (rule card_image)
qed

text \<open>A held buffer is the buffer of its block.\<close>

lemma busyD:
  assumes "bc_busy pid s H"
  shows "bc_ok s" "(b, i) \<in> H \<Longrightarrow> holds pid s b i" "(b, i) \<in> H \<Longrightarrow> b_refcnt (buf_at s i) = 1"
    "i < length (bc_buf s) \<Longrightarrow> i \<notin> snd ` H \<Longrightarrow> b_refcnt (buf_at s i) = 0" "(b, i) \<in> H \<Longrightarrow> i < length (bc_buf s)"
  using assms by (auto simp: bc_busy_def holds_def cached_def)

lemma held_unique:
  assumes "bc_busy pid s H" "(b, i) \<in> H" "j < length (bc_buf s)" "b_dev (buf_at s j) = 1" "b_blockno (buf_at s j) = b"
  shows "j = i"
  using busyD(1) [OF assms(1)] busyD(2) [OF assms(1,2)] assms(3-5)
  by (auto simp: holds_def cached_def bc_ok_def intro: no_twinsD)

lemma not_held_unlocked:
  assumes "bc_busy pid s H" "b \<notin> fst ` H" "j < length (bc_buf s)" "b_dev (buf_at s j) = 1" "b_blockno (buf_at s j) = b"
  shows "b_refcnt (buf_at s j) = 0 \<and> \<not> sl_locked (b_lock (buf_at s j))"
proof -
  have "j \<notin> snd ` H" using assms by (force simp: bc_busy_def holds_def cached_def)
  then have "b_refcnt (buf_at s j) = 0" using assms by (auto simp: bc_busy_def)
  then show ?thesis using assms by (auto simp: bc_busy_def bc_ok_def buf_ok_def)
qed

lemma rd_ok:
  assumes b: "bc_busy pid s H" "finite H" "blk \<notin> fst ` H" "blk < c_size (bc_abs s)"
    and room: "blk \<in> c_dirty (bc_abs s) \<or> card (c_dirty (bc_abs s)) + card H < c_room (bc_abs s)"
  shows "\<exists>i s'. bread pid 1 blk s = Some (i, s') \<and> bc_busy pid s' (insert (blk, i) H) \<and> bc_abs s' = bc_abs s"
proof -
  note ok = busyD(1) [OF b(1)]
  let ?own = "\<lambda>i. b_dev (buf_at s i) = 1 \<and> b_blockno (buf_at s i) = blk"
  have unl: "\<forall>i < length (bc_buf s). ?own i \<longrightarrow> \<not> sl_locked (b_lock (buf_at s i))"
    using not_held_unlocked [OF b(1,3)] by blast
  have r: "(\<exists>i < length (bc_buf s). ?own i) \<or> (\<exists>i < length (bc_buf s). b_refcnt (buf_at s i) = 0 \<and> \<not> b_dirty (buf_at s i))"
    using room
  proof
    assume "blk \<in> c_dirty (bc_abs s)"
    then show ?thesis using dirty_dev [OF ok] by (auto simp: bc_abs_def dirty_idx_def)
  next
    assume lt: "card (c_dirty (bc_abs s)) + card H < c_room (bc_abs s)"
    have "card (dirty_idx s \<union> snd ` H) \<le> card (dirty_idx s) + card H"
      using card_Un_le [of "dirty_idx s" "snd ` H"] card_image_le [OF b(2), of snd] by linarith
    then have "card (dirty_idx s \<union> snd ` H) < card {0..<length (bc_buf s)}"
      using lt card_dirty [OF ok] by (simp add: bc_abs_def)
    then have "\<not> {0..<length (bc_buf s)} \<subseteq> dirty_idx s \<union> snd ` H"
      by (metis b(2) card_mono dirty_idx_def finite_Collect_conjI finite_Collect_less_nat finite_UnI finite_imageI linorder_not_less)
    then obtain k where "k \<in> {0..<length (bc_buf s)}" "k \<notin> dirty_idx s \<union> snd ` H" by blast
    then have "k < length (bc_buf s)" "b_refcnt (buf_at s k) = 0" "\<not> b_dirty (buf_at s k)"
      using busyD(4) [OF b(1), of k] by (simp_all add: dirty_idx_def)
    then show ?thesis by blast
  qed
  have "blk < bc_disksize s" using b(4) by (simp add: bc_abs_def)
  from bread_ok [OF ok this unl r, of pid] obtain i where
    i: "picks s blk i" "bread pid 1 blk s = Some (i, upd_buf i (\<lambda>_. held pid s blk i) s)"
      "bc_ok (upd_buf i (\<lambda>_. held pid s blk i) s)" "holds pid (upd_buf i (\<lambda>_. held pid s blk i) s) blk i"
      "block_view (upd_buf i (\<lambda>_. held pid s blk i) s) = block_view s" by blast
  let ?s = "upd_buf i (\<lambda>_. held pid s blk i) s"
  have len: "i < length (bc_buf s)" using i(1) by (simp add: picks_def)
  have z: "b_refcnt (buf_at s i) = 0" using i(1) not_held_unlocked [OF b(1,3)] by (auto simp: picks_def)
  have nH: "i \<notin> snd ` H" using z busyD(3) [OF b(1)] by force
  have "dirty_idx ?s = dirty_idx s" using len by (auto simp: dirty_idx_def nth_list_update held_def)
  moreover have "b_blockno (buf_at ?s k) = b_blockno (buf_at s k)" if "k \<in> dirty_idx s" for k
    using that i(1) len by (auto simp: dirty_idx_def picks_def held_def nth_list_update)
  ultimately have "c_dirty (bc_abs ?s) = c_dirty (bc_abs s)" by (simp add: bc_abs_def)
  then have abs: "bc_abs ?s = bc_abs s" using i(5) by (simp add: bc_abs_def)
  have "holds pid ?s c j \<and> b_refcnt (buf_at ?s j) = 1" if "(c, j) \<in> insert (blk, i) H" for c j
  proof (cases "(c, j) = (blk, i)")
    case True
    then show ?thesis using i(4) z len by (simp add: held_def)
  next
    case False
    then have h: "(c, j) \<in> H" using that by blast
    then have "j \<noteq> i" using nH by force
    then show ?thesis using busyD(2,3) [OF b(1) h] by (simp add: holds_def cached_def)
  qed
  moreover have "b_refcnt (buf_at ?s k) = 0" if "k < length (bc_buf s)" "k \<notin> snd ` insert (blk, i) H" for k
    using that busyD(4) [OF b(1)] by (auto simp: nth_list_update)
  ultimately have "bc_busy pid ?s (insert (blk, i) H)" using i(3) by (auto simp: bc_busy_def)
  then show ?thesis using i(2) abs by blast
qed

text \<open>Operations that touch one held buffer and keep its lock and reference.\<close>

lemma busy_upd:
  assumes "bc_busy pid s H" "(b, i) \<in> H" "bc_ok s'" "holds pid s' b i" "b_refcnt (buf_at s' i) = 1" "length (bc_buf s') = length (bc_buf s)"
    "\<And>j. j \<noteq> i \<Longrightarrow> buf_at s' j = buf_at s j"
  shows "bc_busy pid s' H"
proof -
  have "holds pid s' c j \<and> b_refcnt (buf_at s' j) = 1" if "(c, j) \<in> H" for c j
  proof (cases "j = i")
    case True
    then have "c = b" using busyD(2) [OF assms(1) that] busyD(2) [OF assms(1,2)] by (auto simp: holds_def cached_def)
    then show ?thesis using True assms(4,5) by simp
  next
    case False
    then show ?thesis using busyD(2,3) [OF assms(1) that] assms(6,7) by (simp add: holds_def cached_def)
  qed
  moreover have "i \<in> snd ` H" using assms(2) by force
  then have "b_refcnt (buf_at s' k) = 0" if "k < length (bc_buf s')" "k \<notin> snd ` H" for k
    using that busyD(4) [OF assms(1)] assms(6,7) by (cases "k = i") auto
  ultimately show ?thesis using assms(3) by (auto simp: bc_busy_def)
qed

lemma upd_ok:
  assumes b: "bc_busy pid s H" "(b, i) \<in> H" "length d = BSIZE"
  shows "bc_busy pid (set_data i d s) H \<and> bc_abs (set_data i d s) = (bc_abs s)\<lparr>c_view := (c_view (bc_abs s))(b := d)\<rparr>"
proof -
  note h = busyD(2) [OF b(1,2)] and len = busyD(5) [OF b(1,2)]
  note sd = set_data_ok [OF busyD(1) [OF b(1)] h b(3)]
  have "bc_busy pid (set_data i d s) H"
    by (rule busy_upd [OF b(1,2) sd(1,2)]) (use busyD(3) [OF b(1,2)] len in \<open>simp_all add: set_data_def\<close>)
  moreover have "dirty_idx (set_data i d s) = dirty_idx s" using len by (auto simp: dirty_idx_def set_data_def nth_list_update)
  moreover have "b_blockno (buf_at (set_data i d s) k) = b_blockno (buf_at s k)" for k
    using len by (cases "k = i") (auto simp: set_data_def)
  ultimately show ?thesis using sd(3) by (simp add: bc_abs_def) (simp add: set_data_def)
qed

lemma wr_ok:
  assumes b: "bc_busy pid s H" "(b, i) \<in> H"
  shows "\<exists>s'. bwrite pid i s = Some s' \<and> bc_busy pid s' H \<and>
    bc_abs s' = (bc_abs s)\<lparr>c_disk := (c_disk (bc_abs s))(b := c_view (bc_abs s) b),
      c_trace := c_trace (bc_abs s) @ [(b, c_view (bc_abs s) b)], c_dirty := c_dirty (bc_abs s) - {b}\<rparr>"
proof -
  note h = busyD(2) [OF b] and len = busyD(5) [OF b] and ok = busyD(1) [OF b(1)]
  note w = bwrite_ok [OF ok h]
  let ?s = "upd_buf i (\<lambda>x. x\<lparr>b_dirty := False\<rparr>) (s\<lparr>bc_disk := (bc_disk s)(b := block_view s b), bc_trace := bc_trace s @ [(b, block_view s b)]\<rparr>)"
  have bi: "b_blockno (buf_at s i) = b" "b_dev (buf_at s i) = 1" using h by (auto simp: holds_def cached_def)
  have "bc_busy pid ?s H"
    by (rule busy_upd [OF b w(2,3)]) (use busyD(3) [OF b] len in simp_all)
  moreover have "dirty_idx ?s = dirty_idx s - {i}" using len by (auto simp: dirty_idx_def nth_list_update)
  moreover have "b_blockno (buf_at ?s k) = b_blockno (buf_at s k)" for k using len by (cases "k = i") auto
  moreover have "(\<lambda>i. b_blockno (buf_at s i)) ` (dirty_idx s - {i}) = (\<lambda>i. b_blockno (buf_at s i)) ` dirty_idx s - {b}"
  proof -
    have "k = i" if "k \<in> dirty_idx s" "b_blockno (buf_at s k) = b" for k
      using held_unique [OF b] that dirty_dev [OF ok that(1)] by (auto simp: dirty_idx_def)
    then show ?thesis using bi by auto
  qed
  ultimately show ?thesis using w(1,4) by (intro exI [of _ ?s]) (simp add: bc_abs_def)
qed

lemma rl_ok:
  assumes b: "bc_busy pid s H" "(b, i) \<in> H" "b \<in> c_dirty (bc_abs s) \<or> c_view (bc_abs s) b = c_disk (bc_abs s) b"
  shows "\<exists>s'. brelse pid i s = Some s' \<and> bc_busy pid s' (H - {(b, i)}) \<and> bc_abs s' = bc_abs s"
proof -
  note h = busyD(2) [OF b(1,2)] and len = busyD(5) [OF b(1,2)] and ok = busyD(1) [OF b(1)]
  have "b_dirty (buf_at s i)" if "b \<in> c_dirty (bc_abs s)"
    using that held_unique [OF b(1,2)] dirty_dev [OF ok] by (auto simp: bc_abs_def dirty_idx_def)
  then have "b_dirty (buf_at s i) \<or> block_view s b = bc_disk s b" using b(3) by (auto simp: bc_abs_def)
  from brelse_ok [OF ok h this] obtain m where
    m: "brelse pid i s = Some ((upd_buf i (\<lambda>x. x\<lparr>b_lock := releasesleep (b_lock x), b_refcnt := b_refcnt x - 1\<rparr>) s)\<lparr>bc_mru := m\<rparr>)"
      "bc_ok ((upd_buf i (\<lambda>x. x\<lparr>b_lock := releasesleep (b_lock x), b_refcnt := b_refcnt x - 1\<rparr>) s)\<lparr>bc_mru := m\<rparr>)"
      "block_view ((upd_buf i (\<lambda>x. x\<lparr>b_lock := releasesleep (b_lock x), b_refcnt := b_refcnt x - 1\<rparr>) s)\<lparr>bc_mru := m\<rparr>) = block_view s"
    by blast
  define s' where "s' = (upd_buf i (\<lambda>x. x\<lparr>b_lock := releasesleep (b_lock x), b_refcnt := b_refcnt x - 1\<rparr>) s)\<lparr>bc_mru := m\<rparr>"
  have at: "buf_at s' j = buf_at s j" if "j \<noteq> i" for j using that by (simp add: s'_def)
  have len': "length (bc_buf s') = length (bc_buf s)" by (simp add: s'_def)
  have un: "c = b \<and> j = i" if "(c, j) \<in> H" "j = i" for c j
    using that busyD(2) [OF b(1) that(1)] h by (auto simp: holds_def cached_def)
  have "holds pid s' c j \<and> b_refcnt (buf_at s' j) = 1" if "(c, j) \<in> H - {(b, i)}" for c j
    using that un busyD(2,3) [OF b(1)] at len' by (cases "j = i") (auto simp: holds_def cached_def)
  moreover have "b_refcnt (buf_at s' k) = 0" if "k < length (bc_buf s')" "k \<notin> snd ` (H - {(b, i)})" for k
  proof (cases "k = i")
    case True
    then show ?thesis using busyD(3) [OF b(1,2)] len by (simp add: s'_def)
  next
    case False
    then have "k \<notin> snd ` H" using that(2) by force
    then show ?thesis using busyD(4) [OF b(1)] that(1) at [OF False] len' by simp
  qed
  ultimately have "bc_busy pid s' (H - {(b, i)})" using m(2) by (auto simp: bc_busy_def s'_def)
  moreover have "dirty_idx s' = dirty_idx s" using len by (auto simp: dirty_idx_def s'_def nth_list_update)
  moreover have "b_blockno (buf_at s' k) = b_blockno (buf_at s k)" for k using len by (cases "k = i") (auto simp: s'_def)
  ultimately show ?thesis using m(1,3) by (intro exI [of _ s']) (simp add: bc_abs_def, simp add: s'_def)
qed

lemma coherent_ok:
  assumes "bc_busy pid s {}" "b \<notin> c_dirty (bc_abs s)"
  shows "c_view (bc_abs s) b = c_disk (bc_abs s) b"
proof -
  have "block_view s b = bc_disk s b"
    by (rule bc_ok_view_clean [OF busyD(1) [OF assms(1)]])
      (use assms not_held_unlocked [OF assms(1), of b] in \<open>auto simp: bc_abs_def dirty_idx_def\<close>)
  then show ?thesis by (simp add: bc_abs_def)
qed

interpretation bc: block_cache "bc_busy pid" bc_abs "\<lambda>s i. b_data (buf_at s i)" "bread pid 1" "bwrite pid" "brelse pid" set_data for pid
proof (unfold_locales, goal_cases)
  case 1 then show ?case by (rule rd_ok)
next
  case (2 s H b i)
  have ok: "bc_ok s" and c: "cached s b i" using busyD(1,2) [OF 2(1)] 2(2) by (auto simp: holds_def)
  then have "b_data (buf_at s i) = block_view s b" using view_cached [of s b i] by (simp add: bc_ok_def)
  then show ?case using length_view [OF ok] by (simp add: bc_abs_def)
next
  case 3 then show ?case by (rule upd_ok)
next
  case 4 then show ?case by (rule wr_ok)
next
  case 5 then show ?case by (rule rl_ok)
next
  case 6 then show ?case by (rule coherent_ok)
qed

section \<open>The cache after boot\<close>

definition zero_buf :: buf where
  "zero_buf = \<lparr>b_valid = False, b_dirty = False, b_dev = 0, b_blockno = 0, b_lock = \<lparr>sl_locked = False, sl_pid = 0\<rparr>, b_refcnt = 0,
     b_data = replicate BSIZE 0\<rparr>"

definition boot_cache :: "(nat \<Rightarrow> block) \<Rightarrow> nat \<Rightarrow> bcache" where
  "boot_cache d n = binit \<lparr>bc_lock = False, bc_buf = replicate NBUF zero_buf, bc_mru = [], bc_disk = d, bc_disksize = n, bc_trace = []\<rparr>"

lemma fold_Cons_rev: "fold (#) xs ys = rev xs @ ys"
  by (induction xs arbitrary: ys) auto

lemma boot_cache_simps [simp]:
  "bc_buf (boot_cache d n) = replicate NBUF zero_buf" "bc_disk (boot_cache d n) = d" "bc_disksize (boot_cache d n) = n" "bc_trace (boot_cache d n) = []"
  by (simp_all add: boot_cache_def binit_def zero_buf_def initsleeplock_def)

lemma boot_busy: "\<forall>b. length (d b) = BSIZE \<Longrightarrow> bc_busy pid (boot_cache d n) {}"
  by (auto simp: bc_busy_def bc_ok_def buf_ok_def no_twins_def boot_cache_def binit_def fold_Cons_rev zero_buf_def initsleeplock_def)

lemma boot_abs: "bc_abs (boot_cache d n) = \<lparr>c_view = d, c_disk = d, c_trace = [], c_dirty = {}, c_room = NBUF, c_size = n\<rparr>"
proof -
  have "block_view (boot_cache d n) = d"
    by (rule ext, rule view_uncached [THEN trans]) (auto simp: cached_def zero_buf_def)
  moreover have "dirty_idx (boot_cache d n) = {}" by (auto simp: dirty_idx_def zero_buf_def)
  ultimately show ?thesis by (simp add: bc_abs_def)
qed

section \<open>Properties\<close>

text \<open>C36. The cache is transparent: as long as one buffer is neither held nor waiting for the log, reading a
  block, changing its bytes, writing and releasing it succeeds, whatever buffer is recycled for it; the
  function that changes the bytes sees the latest contents of the block, the disk and every later reader
  see the new ones, exactly one write goes to the disk, and no other block changes for any reader, not
  even one whose changed buffer has not been written yet.\<close>

theorem buffer_cache_transparent:
  assumes "bc_busy pid s {}" "b < bc_disksize s" "card (dirty_idx s) < length (bc_buf s)" "\<And>d. length d = BSIZE \<Longrightarrow> length (f d) = BSIZE"
  shows "\<exists>s'. do { (i, s) \<leftarrow> bread pid 1 b s; s \<leftarrow> bwrite pid i (set_data i (f (b_data (buf_at s i))) s); brelse pid i s } = Some s' \<and>
    bc_busy pid s' {} \<and> block_view s' = (block_view s)(b := f (block_view s b)) \<and>
    bc_disk s' = (bc_disk s)(b := f (block_view s b)) \<and> bc_trace s' = bc_trace s @ [(b, f (block_view s b))]"
proof -
  have "card (c_dirty (bc_abs s)) < c_room (bc_abs s)" using assms(3) card_dirty [OF busyD(1) [OF assms(1)]] by (simp add: bc_abs_def)
  from bc.edit [OF assms(1), of b f] this assms(2,4) show ?thesis by (auto simp: bc.stored_def bc_abs_def)
qed

theorem buffer_cache_transparent_witness:
  "\<exists>s'. do { (i, s) \<leftarrow> bread 7 1 3 (boot_cache (\<lambda>_. replicate BSIZE 0) 100);
       s \<leftarrow> bwrite 7 i (set_data i ((\<lambda>d. d[0 := 1]) (b_data (buf_at s i))) s); brelse 7 i s } = Some s' \<and>
    bc_disk s' 3 = (replicate BSIZE 0)[0 := 1] \<and> block_view s' 4 = replicate BSIZE 0"
proof -
  let ?s = "boot_cache (\<lambda>_. replicate BSIZE 0) 100"
  have v: "block_view ?s = (\<lambda>_. replicate BSIZE 0)" using boot_abs [of "\<lambda>_. replicate BSIZE 0" 100] by (simp add: bc_abs_def)
  have "dirty_idx ?s = {}" by (auto simp: dirty_idx_def zero_buf_def)
  then have "card (dirty_idx ?s) < length (bc_buf ?s)" by (simp add: NBUF_def)
  from buffer_cache_transparent [OF boot_busy, of "\<lambda>_. replicate BSIZE 0" 3 100 "\<lambda>d. d[0 := 1]" 7] this v show ?thesis by auto
qed

end
