(* ===== verification/Log.thy ===== *)
theory Log
  imports Bio
begin

text \<open>
  The redo log of the teaching operating system's file system (\<^verbatim>\<open>log.c\<close>) on top of the buffer cache,
  and the reading of the super block (\<^verbatim>\<open>readsb\<close> in \<^verbatim>\<open>fs.c\<close>). A crash leaves the disk as it was after some
  prefix of the writes; recovery then runs on an empty cache. A call that has to sleep answers \<open>Waits\<close> and is
  made again.
\<close>

section \<open>Integers in a block\<close>

definition get32 :: "block \<Rightarrow> nat \<Rightarrow> u32" where
  "get32 d o' = rd32 (\<lambda>i. d ! i) o'"

definition put32 :: "block \<Rightarrow> nat \<Rightarrow> u32 \<Rightarrow> block" where
  "put32 d o' v = mem_bytes (wr32 (\<lambda>i. d ! i) o' v) 0 (length d)"

lemma length_put32 [simp]: "length (put32 d o' v) = length d"
  by (simp add: put32_def)

lemma nth_put32: "i < length d \<Longrightarrow> put32 d o' v ! i = wr32 (\<lambda>i. d ! i) o' v i"
  by (simp add: put32_def)

lemma get32_put32 [simp]: "o' + 4 \<le> length d \<Longrightarrow> get32 (put32 d o' v) o' = v"
proof -
  assume "o' + 4 \<le> length d"
  then have "get32 (put32 d o' v) o' = rd32 (wr32 (\<lambda>i. d ! i) o' v) o'"
    unfolding get32_def by (intro rd32_cong) (simp add: nth_put32)
  then show ?thesis by simp
qed

lemma get32_put32_other: "o1 + 4 \<le> o2 \<or> o2 + 4 \<le> o1 \<Longrightarrow> o1 + 4 \<le> length d \<Longrightarrow> get32 (put32 d o2 v) o1 = get32 d o1"
proof -
  assume o: "o1 + 4 \<le> o2 \<or> o2 + 4 \<le> o1" "o1 + 4 \<le> length d"
  then have "get32 (put32 d o2 v) o1 = rd32 (wr32 (\<lambda>i. d ! i) o2 v) o1"
    unfolding get32_def by (intro rd32_cong) (simp add: nth_put32)
  then show ?thesis using o by (simp add: rd32_wr32_other get32_def)
qed

section \<open>State\<close>

definition LOGSIZE :: nat where "LOGSIZE = 30"
definition MAXOPBLOCKS :: nat where "MAXOPBLOCKS = 10"

record log =
  lg_lock :: bool
  lg_start :: nat
  lg_size :: nat
  lg_outstanding :: int
  lg_committing :: bool
  lg_n :: nat
  lg_block :: "nat list"

definition acquire_lg :: "log \<Rightarrow> log option" where
  "acquire_lg l = (if lg_lock l then None else Some (l\<lparr>lg_lock := True\<rparr>))"

definition release_lg :: "log \<Rightarrow> log option" where
  "release_lg l = (if lg_lock l then Some (l\<lparr>lg_lock := False\<rparr>) else panic ''release'')"

section \<open>Commit and recovery\<close>

fun install_loop :: "int \<Rightarrow> log \<Rightarrow> nat list \<Rightarrow> bcache \<Rightarrow> bcache option" where
  "install_loop pid l [] s = Some s"
| "install_loop pid l (t # ts) s = do {
     s \<leftarrow> do {
       (lbuf, s) \<leftarrow> bread pid 1 (lg_start l + t + 1) s;
       (dbuf, s) \<leftarrow> bread pid 1 (lg_block l ! t) s;
       s \<leftarrow> bwrite pid dbuf (set_data dbuf (b_data (buf_at s lbuf)) s);
       s \<leftarrow> brelse pid lbuf s;
       brelse pid dbuf s
     };
     install_loop pid l ts s
   }"

definition install_trans :: "int \<Rightarrow> log \<Rightarrow> bcache \<Rightarrow> bcache option" where
  "install_trans pid l s = install_loop pid l [0..<lg_n l] s"

text \<open>The block numbers of a header block; reading more than the log holds runs out of the array.\<close>

definition head_blocks :: "block \<Rightarrow> nat \<Rightarrow> nat list" where
  "head_blocks d n = map (\<lambda>i. unat (get32 d (4 + 4 * i))) [0..<n]"

definition read_head :: "int \<Rightarrow> log \<Rightarrow> bcache \<Rightarrow> (log \<times> bcache) option" where
  "read_head pid l s = do {
     (i, s) \<leftarrow> bread pid 1 (lg_start l) s;
     let d = b_data (buf_at s i);
     let n = sint (get32 d 0);
     if int LOGSIZE < n then None
     else do {
       s \<leftarrow> brelse pid i s;
       Some (l\<lparr>lg_n := nat n, lg_block := head_blocks d (nat n) @ drop (nat n) (lg_block l)\<rparr>, s)
     }
   }"

definition head_data :: "log \<Rightarrow> block \<Rightarrow> block" where
  "head_data l d = fold (\<lambda>i d. put32 d (4 + 4 * i) (word_of_nat (lg_block l ! i))) [0..<lg_n l] (put32 d 0 (word_of_nat (lg_n l)))"

definition write_head :: "int \<Rightarrow> log \<Rightarrow> bcache \<Rightarrow> bcache option" where
  "write_head pid l s = do {
     (i, s) \<leftarrow> bread pid 1 (lg_start l) s;
     s \<leftarrow> bwrite pid i (set_data i (head_data l (b_data (buf_at s i))) s);
     brelse pid i s
   }"

definition recover_from_log :: "int \<Rightarrow> log \<Rightarrow> bcache \<Rightarrow> (log \<times> bcache) option" where
  "recover_from_log pid l s = do {
     (l, s) \<leftarrow> read_head pid l s;
     s \<leftarrow> install_trans pid l s;
     let l = l\<lparr>lg_n := 0\<rparr>;
     s \<leftarrow> write_head pid l s;
     Some (l, s)
   }"

record superblock =
  sb_size :: u32
  sb_nblocks :: u32
  sb_ninodes :: u32
  sb_nlog :: u32
  sb_logstart :: u32
  sb_inodestart :: u32
  sb_bmapstart :: u32

definition readsb :: "int \<Rightarrow> bcache \<Rightarrow> (superblock \<times> bcache) option" where
  "readsb pid s = do {
     (i, s) \<leftarrow> bread pid 1 1 s;
     let d = b_data (buf_at s i);
     s \<leftarrow> brelse pid i s;
     Some (\<lparr>sb_size = get32 d 0, sb_nblocks = get32 d 4, sb_ninodes = get32 d 8, sb_nlog = get32 d 12, sb_logstart = get32 d 16,
       sb_inodestart = get32 d 20, sb_bmapstart = get32 d 24\<rparr>, s)
   }"

abbreviation sizeof_logheader :: nat where "sizeof_logheader \<equiv> 4 + 4 * LOGSIZE"

definition initlog :: "int \<Rightarrow> log \<Rightarrow> bcache \<Rightarrow> (log \<times> bcache) option" where
  "initlog pid l s =
    (if BSIZE \<le> sizeof_logheader then panic ''initlog: too big logheader''
     else do {
       (sb, s) \<leftarrow> readsb pid s;
       recover_from_log pid (l\<lparr>lg_lock := False, lg_start := unat (sb_logstart sb), lg_size := unat (sb_nlog sb)\<rparr>) s
     })"

fun write_log_loop :: "int \<Rightarrow> log \<Rightarrow> nat list \<Rightarrow> bcache \<Rightarrow> bcache option" where
  "write_log_loop pid l [] s = Some s"
| "write_log_loop pid l (t # ts) s = do {
     s \<leftarrow> do {
       (to, s) \<leftarrow> bread pid 1 (lg_start l + t + 1) s;
       (from', s) \<leftarrow> bread pid 1 (lg_block l ! t) s;
       s \<leftarrow> bwrite pid to (set_data to (b_data (buf_at s from')) s);
       s \<leftarrow> brelse pid from' s;
       brelse pid to s
     };
     write_log_loop pid l ts s
   }"

definition write_log :: "int \<Rightarrow> log \<Rightarrow> bcache \<Rightarrow> bcache option" where
  "write_log pid l s = write_log_loop pid l [0..<lg_n l] s"

definition commit :: "int \<Rightarrow> log \<Rightarrow> bcache \<Rightarrow> (log \<times> bcache) option" where
  "commit pid l s =
    (if 0 < lg_n l then do {
       s \<leftarrow> write_log pid l s;
       s \<leftarrow> write_head pid l s;
       s \<leftarrow> install_trans pid l s;
       let l = l\<lparr>lg_n := 0\<rparr>;
       s \<leftarrow> write_head pid l s;
       Some (l, s)
     } else Some (l, s))"

section \<open>Operations\<close>

datatype op_start = Proceeds | Waits

definition begin_op :: "log \<Rightarrow> (op_start \<times> log) option" where
  "begin_op l = do {
     l \<leftarrow> acquire_lg l;
     if lg_committing l \<or> int LOGSIZE < int (lg_n l) + (lg_outstanding l + 1) * int MAXOPBLOCKS
     then do { l \<leftarrow> release_lg l; Some (Waits, l) }
     else do { l \<leftarrow> release_lg (l\<lparr>lg_outstanding := lg_outstanding l + 1\<rparr>); Some (Proceeds, l) }
   }"

definition end_op :: "int \<Rightarrow> log \<Rightarrow> bcache \<Rightarrow> (log \<times> bcache) option" where
  "end_op pid l s = do {
     l \<leftarrow> acquire_lg l;
     let l = l\<lparr>lg_outstanding := lg_outstanding l - 1\<rparr>;
     if lg_committing l then panic ''log.committing''
     else if lg_outstanding l = 0 then do {
       l \<leftarrow> release_lg (l\<lparr>lg_committing := True\<rparr>);
       (l, s) \<leftarrow> commit pid l s;
       l \<leftarrow> acquire_lg l;
       l \<leftarrow> release_lg (l\<lparr>lg_committing := False\<rparr>);
       Some (l, s)
     } else do { l \<leftarrow> release_lg l; Some (l, s) }
   }"

text \<open>The place of a block in the log: where it already is, else after the last one.\<close>

definition log_slot :: "log \<Rightarrow> nat \<Rightarrow> nat" where
  "log_slot l b = (case List.find (\<lambda>i. lg_block l ! i = b) [0..<lg_n l] of Some i \<Rightarrow> i | None \<Rightarrow> lg_n l)"

definition log_write :: "nat \<Rightarrow> log \<Rightarrow> bcache \<Rightarrow> (log \<times> bcache) option" where
  "log_write i l s =
    (if LOGSIZE \<le> lg_n l \<or> int (lg_size l) - 1 \<le> int (lg_n l) then panic ''too big a transaction''
     else if lg_outstanding l < 1 then panic ''log_write outside of trans''
     else do {
       l \<leftarrow> acquire_lg l;
       let b = b_blockno (buf_at s i);
       let k = log_slot l b;
       let l = l\<lparr>lg_block := (lg_block l)[k := b], lg_n := (if k = lg_n l then lg_n l + 1 else lg_n l)\<rparr>;
       l \<leftarrow> release_lg l;
       Some (l, upd_buf i (\<lambda>b. b\<lparr>b_dirty := True\<rparr>) s)
     })"

section \<open>Sequences of writes\<close>

abbreviation stored :: "nat \<Rightarrow> block \<Rightarrow> cstate \<Rightarrow> cstate" where
  "stored \<equiv> bc.stored"

definition writes :: "(nat \<times> block) list \<Rightarrow> (nat \<Rightarrow> block) \<Rightarrow> nat \<Rightarrow> block" where
  "writes ws d = fold (\<lambda>(b, x) d. d(b := x)) ws d"

definition stored_all :: "(nat \<times> block) list \<Rightarrow> cstate \<Rightarrow> cstate" where
  "stored_all ws c = fold (\<lambda>(b, x). stored b x) ws c"

lemma writes_simps [simp]: "writes [] d = d" "writes ((b, x) # ws) d = writes ws (d(b := x))" "writes (vs @ ws) d = writes ws (writes vs d)"
  by (simp_all add: writes_def)

lemma writes_other: "b \<notin> fst ` set ws \<Longrightarrow> writes ws d b = d b"
  by (induction ws arbitrary: d) (auto simp: writes_def)

lemma writes_map:
  assumes "distinct (map f ts)" "t \<in> set ts"
  shows "writes (map (\<lambda>t. (f t, g t)) ts) d (f t) = g t"
  using assms
proof (induction ts arbitrary: d)
  case (Cons u us)
  show ?case
  proof (cases "t \<in> set us")
    case True with Cons show ?thesis by simp
  next
    case False
    then have "t = u" using Cons.prems(2) by simp
    moreover have "f u \<notin> fst ` set (map (\<lambda>t. (f t, g t)) us)" using Cons.prems(1) by (auto simp: image_image)
    ultimately show ?thesis using writes_other [of "f u" "map (\<lambda>t. (f t, g t)) us"] by simp
  qed
qed simp

lemma stored_all_simps:
  "c_view (stored_all ws c) = writes ws (c_view c)" "c_disk (stored_all ws c) = writes ws (c_disk c)"
  "c_trace (stored_all ws c) = c_trace c @ ws" "c_dirty (stored_all ws c) = c_dirty c - fst ` set ws"
  "c_room (stored_all ws c) = c_room c" "c_size (stored_all ws c) = c_size c"
  by (induction ws arbitrary: c) (auto simp: stored_all_def writes_def bc.stored_def)

lemma stored_all_append: "stored_all (vs @ ws) c = stored_all ws (stored_all vs c)"
  by (simp add: stored_all_def)

lemma stored_all_Cons: "stored_all ((b, x) # ws) c = stored_all ws (stored b x c)"
  by (simp add: stored_all_def)

section \<open>The loops as sequences of writes\<close>

text \<open>Entry \<open>t\<close> of the log: its block and its copy in the log area are on the disk and differ.\<close>

definition entry_ok :: "log \<Rightarrow> cstate \<Rightarrow> nat \<Rightarrow> bool" where
  "entry_ok l c t = (lg_start l + t + 1 < c_size c \<and> lg_block l ! t < c_size c)"

definition apart :: "log \<Rightarrow> nat list \<Rightarrow> bool" where
  "apart l ts = (distinct ts \<and> distinct (map ((!) (lg_block l)) ts) \<and>
     (\<forall>t \<in> set ts. \<forall>u \<in> set ts. lg_block l ! t \<noteq> lg_start l + u + 1) \<and> (\<forall>t \<in> set ts. lg_block l ! t \<noteq> lg_start l))"

lemma apart_Cons: "apart l (t # ts) \<Longrightarrow> apart l ts"
  by (auto simp: apart_def)

lemma stored_same [simp]: "c_size (stored b x c) = c_size c" "c_room (stored b x c) = c_room c"
  by (simp_all add: bc.stored_def)

lemma write_log_loop_eq:
  assumes "bc_busy pid s {}" "apart l ts" "\<forall>t \<in> set ts. entry_ok l (bc_abs s) t" "\<forall>t \<in> set ts. lg_block l ! t \<in> c_dirty (bc_abs s)"
    "\<forall>t \<in> set ts. lg_start l + t + 1 \<notin> c_dirty (bc_abs s)" "card (c_dirty (bc_abs s)) < c_room (bc_abs s)"
  shows "\<exists>s'. write_log_loop pid l ts s = Some s' \<and> bc_busy pid s' {} \<and>
    bc_abs s' = stored_all (map (\<lambda>t. (lg_start l + t + 1, c_view (bc_abs s) (lg_block l ! t))) ts) (bc_abs s)"
  using assms
proof (induction ts arbitrary: s)
  case Nil
  then show ?case by (simp add: stored_all_def)
next
  case (Cons t ts)
  let ?x = "lg_start l + t + 1" and ?y = "lg_block l ! t"
  have xy: "?x \<noteq> ?y" using Cons.prems(2) by (auto simp: apart_def)
  have sz: "?x < c_size (bc_abs s)" "?y < c_size (bc_abs s)" using Cons.prems(3) by (auto simp: entry_ok_def)
  have y: "?y \<in> c_dirty (bc_abs s) \<or> card (c_dirty (bc_abs s)) + 1 < c_room (bc_abs s)" using Cons.prems(4) by simp
  obtain s1 where s1: "do { (to, s) \<leftarrow> bread pid 1 ?x s; (from', s) \<leftarrow> bread pid 1 ?y s;
        s \<leftarrow> bwrite pid to (set_data to (b_data (buf_at s from')) s); s \<leftarrow> brelse pid from' s; brelse pid to s } = Some s1"
      "bc_busy pid s1 {}" "bc_abs s1 = stored ?x (c_view (bc_abs s) ?y) (bc_abs s)"
    using bc.copy(2) [OF Cons.prems(1) xy sz Cons.prems(6) y] by auto
  have d: "c_dirty (bc_abs s1) = c_dirty (bc_abs s)" using s1(3) Cons.prems(5) by (simp add: bc.stored_def)
  have v: "c_view (bc_abs s1) (lg_block l ! u) = c_view (bc_abs s) (lg_block l ! u)" if "u \<in> set ts" for u
    using that s1(3) Cons.prems(2) by (simp add: bc.stored_def apart_def)
  have pre: "\<forall>t \<in> set ts. entry_ok l (bc_abs s1) t" "\<forall>t \<in> set ts. lg_block l ! t \<in> c_dirty (bc_abs s1)"
      "\<forall>t \<in> set ts. lg_start l + t + 1 \<notin> c_dirty (bc_abs s1)" "card (c_dirty (bc_abs s1)) < c_room (bc_abs s1)"
    using Cons.prems d s1(3) by (auto simp: entry_ok_def)
  obtain s2 where s2: "write_log_loop pid l ts s1 = Some s2" "bc_busy pid s2 {}"
      "bc_abs s2 = stored_all (map (\<lambda>t. (lg_start l + t + 1, c_view (bc_abs s1) (lg_block l ! t))) ts) (bc_abs s1)"
    using Cons.IH [OF s1(2) apart_Cons [OF Cons.prems(2)] pre] by blast
  have "map (\<lambda>t. (lg_start l + t + 1, c_view (bc_abs s1) (lg_block l ! t))) ts = map (\<lambda>t. (lg_start l + t + 1, c_view (bc_abs s) (lg_block l ! t))) ts"
    using v by simp
  then have "bc_abs s2 = stored_all (map (\<lambda>t. (lg_start l + t + 1, c_view (bc_abs s) (lg_block l ! t))) (t # ts)) (bc_abs s)"
    unfolding s2(3) list.map stored_all_Cons s1(3) [symmetric] by (simp only:)
  moreover have "write_log_loop pid l (t # ts) s = Some s2" using s1(1) s2(1) by (simp only: write_log_loop.simps Option.bind.bind_lunit)
  ultimately show ?case using s2(2) by blast
qed

lemma install_loop_eq:
  assumes "bc_busy pid s {}" "apart l ts" "\<forall>t \<in> set ts. entry_ok l (bc_abs s) t"
    "(\<forall>t \<in> set ts. lg_block l ! t \<in> c_dirty (bc_abs s)) \<or> card (c_dirty (bc_abs s)) + 1 < c_room (bc_abs s)"
    "finite (c_dirty (bc_abs s))" "card (c_dirty (bc_abs s)) < c_room (bc_abs s)"
  shows "\<exists>s'. install_loop pid l ts s = Some s' \<and> bc_busy pid s' {} \<and>
    bc_abs s' = stored_all (map (\<lambda>t. (lg_block l ! t, c_view (bc_abs s) (lg_start l + t + 1))) ts) (bc_abs s)"
  using assms
proof (induction ts arbitrary: s)
  case Nil
  then show ?case by (simp add: stored_all_def)
next
  case (Cons t ts)
  let ?x = "lg_start l + t + 1" and ?y = "lg_block l ! t"
  have xy: "?x \<noteq> ?y" using Cons.prems(2) by (auto simp: apart_def)
  have sz: "?x < c_size (bc_abs s)" "?y < c_size (bc_abs s)" using Cons.prems(3) by (auto simp: entry_ok_def)
  have y: "?y \<in> c_dirty (bc_abs s) \<or> card (c_dirty (bc_abs s)) + 1 < c_room (bc_abs s)" using Cons.prems(4) by auto
  obtain s1 where s1: "do { (lbuf, s) \<leftarrow> bread pid 1 ?x s; (dbuf, s) \<leftarrow> bread pid 1 ?y s;
        s \<leftarrow> bwrite pid dbuf (set_data dbuf (b_data (buf_at s lbuf)) s); s \<leftarrow> brelse pid lbuf s; brelse pid dbuf s } = Some s1"
      "bc_busy pid s1 {}" "bc_abs s1 = stored ?y (c_view (bc_abs s) ?x) (bc_abs s)"
    using bc.copy(1) [OF Cons.prems(1) xy sz Cons.prems(6) y] by auto
  have d: "c_dirty (bc_abs s1) = c_dirty (bc_abs s) - {?y}" using s1(3) by (simp add: bc.stored_def)
  then have le: "card (c_dirty (bc_abs s1)) \<le> card (c_dirty (bc_abs s))" using Cons.prems(5) by (simp add: card_mono)
  have v: "c_view (bc_abs s1) (lg_start l + u + 1) = c_view (bc_abs s) (lg_start l + u + 1)" if "u \<in> set ts" for u
  proof -
    have "lg_start l + u + 1 \<noteq> ?y" using that Cons.prems(2) unfolding apart_def by (metis list.set_intros)
    then show ?thesis using s1(3) by (simp add: bc.stored_def)
  qed
  have ne: "lg_block l ! u \<noteq> ?y" if "u \<in> set ts" for u
    using that Cons.prems(2) unfolding apart_def by (metis distinct.simps(2) image_eqI list.set_map list.simps(9))
  have pre: "\<forall>t \<in> set ts. entry_ok l (bc_abs s1) t"
      "(\<forall>t \<in> set ts. lg_block l ! t \<in> c_dirty (bc_abs s1)) \<or> card (c_dirty (bc_abs s1)) + 1 < c_room (bc_abs s1)"
      "finite (c_dirty (bc_abs s1))" "card (c_dirty (bc_abs s1)) < c_room (bc_abs s1)"
    using Cons.prems d le s1(3) ne by (auto simp: entry_ok_def)
  obtain s2 where s2: "install_loop pid l ts s1 = Some s2" "bc_busy pid s2 {}"
      "bc_abs s2 = stored_all (map (\<lambda>t. (lg_block l ! t, c_view (bc_abs s1) (lg_start l + t + 1))) ts) (bc_abs s1)"
    using Cons.IH [OF s1(2) apart_Cons [OF Cons.prems(2)] pre] by blast
  have "map (\<lambda>t. (lg_block l ! t, c_view (bc_abs s1) (lg_start l + t + 1))) ts = map (\<lambda>t. (lg_block l ! t, c_view (bc_abs s) (lg_start l + t + 1))) ts"
    using v by simp
  then have "bc_abs s2 = stored_all (map (\<lambda>t. (lg_block l ! t, c_view (bc_abs s) (lg_start l + t + 1))) (t # ts)) (bc_abs s)"
    unfolding s2(3) list.map stored_all_Cons s1(3) [symmetric] by (simp only:)
  moreover have "install_loop pid l (t # ts) s = Some s2" using s1(1) s2(1) by (simp only: install_loop.simps Option.bind.bind_lunit)
  ultimately show ?case using s2(2) by blast
qed

text \<open>The header block.\<close>

lemma length_head_data: "length (head_data l d) = length d"
proof -
  have "length (fold (\<lambda>i d. put32 d (4 + 4 * i) (f i)) is d) = length d" for f "is" d by (induction "is" arbitrary: d) simp_all
  then show ?thesis by (simp add: head_data_def)
qed

lemma write_head_eq:
  assumes "bc_busy pid s {}" "lg_start l < c_size (bc_abs s)" "card (c_dirty (bc_abs s)) < c_room (bc_abs s)"
  shows "\<exists>s'. write_head pid l s = Some s' \<and> bc_busy pid s' {} \<and>
    bc_abs s' = stored (lg_start l) (head_data l (c_view (bc_abs s) (lg_start l))) (bc_abs s)"
  using bc.edit [OF assms(1,2), of "head_data l"] assms(3) length_head_data unfolding write_head_def by auto

lemma head_fold:
  assumes "\<forall>i \<in> set is. 4 + 4 * i + 4 \<le> length d" "distinct is"
  shows "get32 (fold (\<lambda>i d. put32 d (4 + 4 * i) (f i)) is d) 0 = (if 4 \<le> length d then get32 d 0 else get32 (fold (\<lambda>i d. put32 d (4 + 4 * i) (f i)) is d) 0)"
    "i \<in> set is \<Longrightarrow> get32 (fold (\<lambda>i d. put32 d (4 + 4 * i) (f i)) is d) (4 + 4 * i) = f i"
proof -
  have l: "length (fold (\<lambda>i d. put32 d (4 + 4 * i) (f i)) is d) = length d" for "is" d by (induction "is" arbitrary: d) simp_all
  have z: "get32 (fold (\<lambda>i d. put32 d (4 + 4 * i) (f i)) is d) 0 = get32 d 0" if "4 \<le> length d" for "is" d
    using that by (induction "is" arbitrary: d) (simp_all add: get32_put32_other)
  then show "get32 (fold (\<lambda>i d. put32 d (4 + 4 * i) (f i)) is d) 0 = (if 4 \<le> length d then get32 d 0 else get32 (fold (\<lambda>i d. put32 d (4 + 4 * i) (f i)) is d) 0)"
    by simp
  have o: "get32 (fold (\<lambda>i d. put32 d (4 + 4 * i) (f i)) js d) (4 + 4 * i) = get32 d (4 + 4 * i)"
    if "i \<notin> set js" "4 + 4 * i + 4 \<le> length d" for js d
    using that
  proof (induction js arbitrary: d)
    case (Cons a js)
    then have "4 + 4 * i + 4 \<le> 4 + 4 * a \<or> 4 + 4 * a + 4 \<le> 4 + 4 * i" by simp linarith
    then show ?case using Cons get32_put32_other [of "4 + 4 * i" "4 + 4 * a" d] by simp
  qed simp
  show "i \<in> set is \<Longrightarrow> get32 (fold (\<lambda>i d. put32 d (4 + 4 * i) (f i)) is d) (4 + 4 * i) = f i"
    using assms
  proof (induction "is" arbitrary: d)
    case (Cons j js)
    show ?case
    proof (cases "i = j")
      case True
      then show ?thesis using Cons.prems o [of js "put32 d (4 + 4 * j) (f j)"] by simp
    next
      case False
      then show ?thesis using Cons.prems Cons.IH [of "put32 d (4 + 4 * j) (f j)"] by simp
    qed
  qed simp
qed

lemma head_data_fields:
  assumes "length d = BSIZE" "lg_n l \<le> LOGSIZE"
  shows "get32 (head_data l d) 0 = word_of_nat (lg_n l)" "i < lg_n l \<Longrightarrow> get32 (head_data l d) (4 + 4 * i) = word_of_nat (lg_block l ! i)"
proof -
  let ?d = "put32 d 0 (word_of_nat (lg_n l))"
  have b: "\<forall>i \<in> set [0..<lg_n l]. 4 + 4 * i + 4 \<le> length ?d" using assms by (auto simp: BSIZE_def LOGSIZE_def)
  have l: "4 \<le> length ?d" using assms(1) by (simp add: BSIZE_def)
  show "get32 (head_data l d) 0 = word_of_nat (lg_n l)"
    unfolding head_data_def using head_fold(1) [OF b, of "\<lambda>i. word_of_nat (lg_block l ! i)"] l by simp
  show "i < lg_n l \<Longrightarrow> get32 (head_data l d) (4 + 4 * i) = word_of_nat (lg_block l ! i)"
    unfolding head_data_def using head_fold(2) [OF b, of i "\<lambda>i. word_of_nat (lg_block l ! i)"] by simp
qed

section \<open>Commit\<close>

text \<open>A transaction that is ready to commit: its blocks are distinct blocks outside the log area, they are the
  ones that wait in the cache, and one buffer is left to work with.\<close>

definition tx_ok :: "log \<Rightarrow> cstate \<Rightarrow> bool" where
  "tx_ok l c = (lg_n l \<le> LOGSIZE \<and> apart l [0..<lg_n l] \<and> (\<forall>t < lg_n l. entry_ok l c t) \<and> lg_start l < c_size c \<and>
     (\<forall>b. lg_start l \<le> b \<and> b \<le> lg_start l + lg_n l \<longrightarrow> b \<notin> c_dirty c) \<and>
     c_dirty c = (!) (lg_block l) ` {0..<lg_n l} \<and> lg_n l < c_room c \<and> c_size c \<le> 2 ^ 31)"

definition commit_writes :: "log \<Rightarrow> cstate \<Rightarrow> (nat \<times> block) list" where
  "commit_writes l c =
     map (\<lambda>t. (lg_start l + t + 1, c_view c (lg_block l ! t))) [0..<lg_n l] @
     (lg_start l, head_data l (c_view c (lg_start l))) #
     map (\<lambda>t. (lg_block l ! t, c_view c (lg_block l ! t))) [0..<lg_n l] @
     [(lg_start l, head_data (l\<lparr>lg_n := 0\<rparr>) (head_data l (c_view c (lg_start l))))]"

lemma tx_okD:
  assumes "tx_ok l c"
  shows "finite (c_dirty c)" "card (c_dirty c) < c_room c" "distinct (map ((!) (lg_block l)) [0..<lg_n l])"
    "t < lg_n l \<Longrightarrow> lg_block l ! t \<in> c_dirty c" "t < lg_n l \<Longrightarrow> u < lg_n l \<Longrightarrow> lg_block l ! t \<noteq> lg_start l + u + 1"
    "t < lg_n l \<Longrightarrow> lg_block l ! t \<noteq> lg_start l" "t \<le> lg_n l \<Longrightarrow> lg_start l + t \<notin> c_dirty c"
    "t < lg_n l \<Longrightarrow> lg_start l + t + 1 \<notin> c_dirty c"
proof -
  have "card (c_dirty c) \<le> lg_n l" using card_image_le [of "{0..<lg_n l}" "(!) (lg_block l)"] assms by (simp add: tx_ok_def)
  then show "finite (c_dirty c)" "card (c_dirty c) < c_room c" using assms by (auto simp: tx_ok_def)
  have "\<forall>b. lg_start l \<le> b \<and> b \<le> lg_start l + lg_n l \<longrightarrow> b \<notin> c_dirty c" using assms unfolding tx_ok_def by blast
  then show "t < lg_n l \<Longrightarrow> lg_start l + t + 1 \<notin> c_dirty c" "t \<le> lg_n l \<Longrightarrow> lg_start l + t \<notin> c_dirty c" by simp_all
qed (use assms in \<open>auto simp: tx_ok_def apart_def\<close>)

lemma commit_eq:
  assumes busy: "bc_busy pid s {}" and tx: "tx_ok l (bc_abs s)" and n: "0 < lg_n l"
  shows "\<exists>s'. commit pid l s = Some (l\<lparr>lg_n := 0\<rparr>, s') \<and> bc_busy pid s' {} \<and>
    bc_abs s' = stored_all (commit_writes l (bc_abs s)) (bc_abs s)"
proof -
  define c where "c = bc_abs s"
  let ?ts = "[0..<lg_n l]"
  note D = tx_okD [OF tx [folded c_def]]
  have ap: "apart l ?ts" and en: "\<forall>t < lg_n l. entry_ok l c t" and st: "lg_start l < c_size c" using tx by (auto simp: tx_ok_def c_def)
  let ?w1 = "map (\<lambda>t. (lg_start l + t + 1, c_view c (lg_block l ! t))) ?ts"
  obtain s1 where s1: "write_log pid l s = Some s1" "bc_busy pid s1 {}" "bc_abs s1 = stored_all ?w1 c"
    using write_log_loop_eq [OF busy ap] en D c_def unfolding write_log_def by auto
  have d1: "c_dirty (bc_abs s1) = c_dirty c" using D(8) unfolding s1(3) stored_all_simps by auto
  have v1: "c_view (bc_abs s1) (lg_start l) = c_view c (lg_start l)"
    unfolding s1(3) stored_all_simps by (rule writes_other) auto
  let ?h = "head_data l (c_view c (lg_start l))"
  obtain s2 where s2: "write_head pid l s1 = Some s2" "bc_busy pid s2 {}" "bc_abs s2 = stored (lg_start l) ?h (bc_abs s1)"
    using write_head_eq [OF s1(2), of l] st D(2) d1 v1 unfolding s1(3) by (auto simp: stored_all_simps)
  have d2: "c_dirty (bc_abs s2) = c_dirty c" using s2(3) d1 D(7) [of 0] by (simp add: bc.stored_def)
  have v2: "c_view (bc_abs s2) (lg_start l + t + 1) = c_view c (lg_block l ! t)" if "t < lg_n l" for t
  proof -
    have "c_view (bc_abs s2) (lg_start l + t + 1) = writes ?w1 (c_view c) (lg_start l + t + 1)"
      using s2(3) s1(3) by (simp add: bc.stored_def stored_all_simps)
    also have "\<dots> = c_view c (lg_block l ! t)"
      by (rule writes_map [where f = "\<lambda>t. lg_start l + t + 1"]) (use that in \<open>auto simp: distinct_map inj_on_def\<close>)
    finally show ?thesis .
  qed
  let ?w3 = "map (\<lambda>t. (lg_block l ! t, c_view c (lg_block l ! t))) ?ts"
  have c2: "c_size (bc_abs s2) = c_size c" "c_room (bc_abs s2) = c_room c" using s2(3) s1(3) by (simp_all add: stored_all_simps)
  have pre: "\<forall>t \<in> set ?ts. entry_ok l (bc_abs s2) t"
      "(\<forall>t \<in> set ?ts. lg_block l ! t \<in> c_dirty (bc_abs s2)) \<or> card (c_dirty (bc_abs s2)) + 1 < c_room (bc_abs s2)"
      "finite (c_dirty (bc_abs s2))" "card (c_dirty (bc_abs s2)) < c_room (bc_abs s2)"
    using en D c2 d2 by (auto simp: entry_ok_def)
  have w3: "map (\<lambda>t. (lg_block l ! t, c_view (bc_abs s2) (lg_start l + t + 1))) ?ts = ?w3" using v2 by simp
  obtain s3 where s3: "install_trans pid l s2 = Some s3" "bc_busy pid s3 {}" "bc_abs s3 = stored_all ?w3 (bc_abs s2)"
    using install_loop_eq [OF s2(2) ap pre] unfolding w3 install_trans_def by blast
  have v3: "c_view (bc_abs s3) (lg_start l) = ?h"
  proof -
    have "c_view (bc_abs s3) (lg_start l) = c_view (bc_abs s2) (lg_start l)"
      unfolding s3(3) stored_all_simps by (rule writes_other) (use D(6) in \<open>force simp: image_image\<close>)
    then show ?thesis using s2(3) by (simp add: bc.stored_def)
  qed
  have "card (c_dirty (bc_abs s3)) < c_room (bc_abs s3)"
    using D(1,2) d2 c2 card_mono [OF D(1), of "c_dirty c - fst ` set ?w3"] unfolding s3(3) stored_all_simps by simp
  then obtain s4 where s4: "write_head pid (l\<lparr>lg_n := 0\<rparr>) s3 = Some s4" "bc_busy pid s4 {}"
      "bc_abs s4 = stored (lg_start l) (head_data (l\<lparr>lg_n := 0\<rparr>) ?h) (bc_abs s3)"
    using write_head_eq [OF s3(2), of "l\<lparr>lg_n := 0\<rparr>"] st c2 v3 unfolding s3(3) by (auto simp: stored_all_simps)
  have "commit pid l s = Some (l\<lparr>lg_n := 0\<rparr>, s4)" using n s1 s2 s3 s4 by (simp add: commit_def)
  moreover have "bc_abs s4 = stored_all (commit_writes l c) c"
    unfolding s4(3) s3(3) s2(3) s1(3) commit_writes_def
    by (simp only: stored_all_append stored_all_Cons append_Cons) (simp add: stored_all_def)
  ultimately show ?thesis using s4(2) c_def by blast
qed

section \<open>Recovery\<close>

lemma read_head_eq:
  assumes "bc_busy pid s {}" "lg_start l < c_size (bc_abs s)" "c_dirty (bc_abs s) = {}" "0 < c_room (bc_abs s)"
    "sint (get32 (c_view (bc_abs s) (lg_start l)) 0) \<le> int LOGSIZE"
  defines "d \<equiv> c_view (bc_abs s) (lg_start l)"
  shows "\<exists>s'. read_head pid l s = Some (l\<lparr>lg_n := nat (sint (get32 d 0)),
        lg_block := head_blocks d (nat (sint (get32 d 0))) @ drop (nat (sint (get32 d 0))) (lg_block l)\<rparr>, s') \<and>
      bc_busy pid s' {} \<and> bc_abs s' = bc_abs s"
proof -
  obtain i s1 where 1: "bread pid 1 (lg_start l) s = Some (i, s1)" "bc_busy pid s1 {(lg_start l, i)}" "bc_abs s1 = bc_abs s"
    using bc.rd_law [OF assms(1), of "lg_start l"] assms(2-4) by auto
  have dd: "b_data (buf_at s1 i) = d" using bc.data_law [OF 1(2)] 1(3) by (simp add: d_def)
  have "c_view (bc_abs s1) (lg_start l) = c_disk (bc_abs s1) (lg_start l)" using bc.coherent [OF assms(1)] assms(3) 1(3) by simp
  then obtain s2 where 2: "brelse pid i s1 = Some s2" "bc_busy pid s2 {}" "bc_abs s2 = bc_abs s"
    using bc.rl_law [OF 1(2)] 1(3) by auto
  show ?thesis using 1(1) 2 dd assms(5) by (auto simp: read_head_def Let_def d_def)
qed

text \<open>Recovery from a disk whose header says that nothing is committed, and from one with a committed
  transaction.\<close>

lemma recover_none:
  assumes "\<forall>b. length (d b) = BSIZE" "lg_start l < N" "get32 (d (lg_start l)) 0 = 0"
  shows "\<exists>l' s'. recover_from_log pid l (boot_cache d N) = Some (l', s') \<and> (\<forall>b. b \<noteq> lg_start l \<longrightarrow> bc_disk s' b = d b)"
proof -
  note busy = boot_busy [OF assms(1), of pid N] and abs = boot_abs [of d N]
  obtain s1 where 1: "read_head pid l (boot_cache d N) = Some (l\<lparr>lg_n := 0\<rparr>, s1)" "bc_busy pid s1 {}" "bc_abs s1 = bc_abs (boot_cache d N)"
    using read_head_eq [OF busy, of l] assms(2,3) by (auto simp: abs NBUF_def LOGSIZE_def head_blocks_def)
  obtain s2 where 2: "write_head pid (l\<lparr>lg_n := 0\<rparr>) s1 = Some s2"
      "bc_abs s2 = stored (lg_start l) (head_data (l\<lparr>lg_n := 0\<rparr>) (c_view (bc_abs s1) (lg_start l))) (bc_abs s1)"
    using write_head_eq [OF 1(2), of "l\<lparr>lg_n := 0\<rparr>"] assms(2) 1(3) by (auto simp: abs NBUF_def)
  have "recover_from_log pid l (boot_cache d N) = Some (l\<lparr>lg_n := 0\<rparr>, s2)"
    using 1(1) 2(1) by (simp add: recover_from_log_def install_trans_def)
  moreover have "bc_disk s2 = d(lg_start l := head_data (l\<lparr>lg_n := 0\<rparr>) (d (lg_start l)))"
    using arg_cong [OF 2(2), of c_disk] 1(3) abs by (simp add: bc_abs_def bc.stored_def)
  ultimately show ?thesis by auto
qed

lemma recover_committed:
  assumes "\<forall>b. length (d b) = BSIZE" "tx_ok l c" "c_size c = N" "lg_start l0 = lg_start l"
    "d (lg_start l) = head_data l x" "length x = BSIZE"
  shows "\<exists>l' s'. recover_from_log pid l0 (boot_cache d N) = Some (l', s') \<and>
    (\<forall>b. b \<noteq> lg_start l \<longrightarrow> bc_disk s' b = writes (map (\<lambda>t. (lg_block l ! t, d (lg_start l + t + 1))) [0..<lg_n l]) d b)"
proof -
  note busy = boot_busy [OF assms(1), of pid N] and abs = boot_abs [of d N] and D = tx_okD [OF assms(2)]
  have n: "lg_n l \<le> LOGSIZE" and ap: "apart l [0..<lg_n l]" and en: "\<forall>t < lg_n l. entry_ok l c t"
      and st: "lg_start l < N" and sz: "N \<le> 2 ^ 31"
    using assms(2,3) by (auto simp: tx_ok_def)
  note hf = head_data_fields [OF assms(6) n]
  have s0: "sint (get32 (d (lg_start l)) 0) = int (lg_n l)"
  proof -
    have "int (lg_n l) < 2 ^ 31" using n by (simp add: LOGSIZE_def)
    then show ?thesis unfolding assms(5) hf(1)
      using signed_take_bit_int_eq_self [of 31 "int (lg_n l)"] by (simp add: signed_of_nat)
  qed
  have hb: "head_blocks (d (lg_start l)) (lg_n l) = map ((!) (lg_block l)) [0..<lg_n l]"
  proof -
    have "unat (word_of_nat (lg_block l ! i) :: u32) = lg_block l ! i" if "i < lg_n l" for i
    proof -
      have "lg_block l ! i < 2 ^ 31" using en that sz assms(3) by (auto simp: entry_ok_def)
      then show ?thesis by (simp add: unat_of_nat)
    qed
    then show ?thesis unfolding head_blocks_def assms(5) by (simp add: hf(2))
  qed
  define l1 where "l1 = l0\<lparr>lg_n := lg_n l, lg_block := map ((!) (lg_block l)) [0..<lg_n l] @ drop (lg_n l) (lg_block l0)\<rparr>"
  have l1: "lg_n l1 = lg_n l" "lg_start l1 = lg_start l" "t < lg_n l \<Longrightarrow> lg_block l1 ! t = lg_block l ! t" for t
    by (simp_all add: l1_def nth_append assms(4))
  obtain s1 where 1: "read_head pid l0 (boot_cache d N) = Some (l1, s1)" "bc_busy pid s1 {}" "bc_abs s1 = bc_abs (boot_cache d N)"
    using read_head_eq [OF busy, of l0] st n s0 hb by (auto simp: abs NBUF_def assms(4) l1_def)
  have ap1: "apart l1 [0..<lg_n l]"
  proof -
    have "map ((!) (lg_block l1)) [0..<lg_n l] = map ((!) (lg_block l)) [0..<lg_n l]" using l1(3) by simp
    with ap have "distinct (map ((!) (lg_block l1)) [0..<lg_n l])" unfolding apart_def by (simp only:)
    then show ?thesis using ap l1 unfolding apart_def by (simp del: distinct_map)
  qed
  have en1: "\<forall>t \<in> set [0..<lg_n l]. entry_ok l1 (bc_abs s1) t" using en l1 1(3) abs assms(3) by (simp add: entry_ok_def)
  have ws: "map (\<lambda>t. (lg_block l1 ! t, c_view (bc_abs s1) (lg_start l1 + t + 1))) [0..<lg_n l] =
      map (\<lambda>t. (lg_block l ! t, d (lg_start l + t + 1))) [0..<lg_n l]" (is "_ = ?ws")
    using l1 1(3) abs by simp
  obtain s2 where 2: "install_trans pid l1 s1 = Some s2" "bc_busy pid s2 {}" "bc_abs s2 = stored_all ?ws (bc_abs s1)"
    using install_loop_eq [OF 1(2) ap1 en1] 1(3) abs unfolding ws install_trans_def l1(1) by (auto simp: NBUF_def)
  obtain s3 h where 3: "write_head pid (l1\<lparr>lg_n := 0\<rparr>) s2 = Some s3" "bc_abs s3 = stored (lg_start l) h (bc_abs s2)"
    using write_head_eq [OF 2(2), of "l1\<lparr>lg_n := 0\<rparr>"] st 1(3) abs l1(2) unfolding 2(3) by (auto simp: stored_all_simps NBUF_def)
  have "recover_from_log pid l0 (boot_cache d N) = Some (l1\<lparr>lg_n := 0\<rparr>, s3)"
    using 1(1) 2(1) 3(1) by (simp add: recover_from_log_def)
  moreover have "bc_disk s3 = (writes ?ws d)(lg_start l := h)"
  proof -
    have "c_disk (bc_abs s3) = (writes ?ws d)(lg_start l := h)"
      unfolding 3(2) 2(3) 1(3) abs by (simp add: bc.stored_def stored_all_simps)
    then show ?thesis by (simp add: bc_abs_def)
  qed
  ultimately show ?thesis by auto
qed

section \<open>Crashes\<close>

lemma writes_lengths: "\<forall>b. length (d b) = BSIZE \<Longrightarrow> \<forall>w \<in> set ws. length (snd w) = BSIZE \<Longrightarrow> length (writes ws d b) = BSIZE"
  by (induction ws arbitrary: d) auto

text \<open>The disk between commits: the header on disk is empty.\<close>

definition disk_clean :: "log \<Rightarrow> (nat \<Rightarrow> block) \<Rightarrow> bool" where
  "disk_clean l d = (get32 (d (lg_start l)) 0 = 0)"

definition in_log :: "log \<Rightarrow> nat \<Rightarrow> bool" where
  "in_log l b = (lg_start l \<le> b \<and> b \<le> lg_start l + lg_n l)"

text \<open>The state in which a commit starts: no buffer is held, the dirty buffers are those of the transaction, the
  header on disk is empty.\<close>

definition commit_ready :: "int \<Rightarrow> log \<Rightarrow> bcache \<Rightarrow> bool" where
  "commit_ready pid l s = (bc_busy pid s {} \<and> tx_ok l (bc_abs s) \<and> disk_clean l (bc_disk s))"

lemma commit_readyD:
  assumes "commit_ready pid l s" "c = bc_abs s"
  shows "bc_busy pid s {}" "tx_ok l c" "disk_clean l (c_disk c)"
  using assms by (simp_all add: commit_ready_def bc_abs_def)

lemma commit_writes_lengths:
  assumes ready: "commit_ready pid l s" and c: "c = bc_abs s"
  shows "\<forall>w \<in> set (commit_writes l c). length (snd w) = BSIZE"
  using length_view [OF busyD(1) [OF commit_readyD(1) [OF assms]]] by (auto simp: commit_writes_def c bc_abs_def length_head_data)

lemma disk_lengths:
  assumes ready: "commit_ready pid l s" and c: "c = bc_abs s"
  shows "length (c_disk c b) = BSIZE"
  using busyD(1) [OF commit_readyD(1) [OF assms]] by (simp add: c bc_abs_def bc_ok_def)

text \<open>A crash before the header is written: nothing outside the log area has changed, and the header is empty.\<close>

lemma crash_before:
  assumes ready: "commit_ready pid l s" and c: "c = bc_abs s" and k: "k \<le> lg_n l"
  shows "disk_clean l (writes (take k (commit_writes l c)) (c_disk c))"
    "\<not> in_log l b \<Longrightarrow> writes (take k (commit_writes l c)) (c_disk c) b = c_disk c b"
proof -
  have t: "take k (commit_writes l c) = map (\<lambda>t. (lg_start l + t + 1, c_view c (lg_block l ! t))) [0..<k]"
    using k by (simp add: commit_writes_def take_map)
  show "disk_clean l (writes (take k (commit_writes l c)) (c_disk c))"
    using commit_readyD(3) [OF ready c] unfolding disk_clean_def t by (subst writes_other) auto
  show "\<not> in_log l b \<Longrightarrow> writes (take k (commit_writes l c)) (c_disk c) b = c_disk c b"
    unfolding t by (rule writes_other) (use k in \<open>auto simp: in_log_def\<close>)
qed

text \<open>A crash after the header is written and before it is cleared: the log holds the new contents of all blocks
  of the transaction.\<close>

lemma crash_after:
  assumes ready: "commit_ready pid l s" and c: "c = bc_abs s" and k: "lg_n l < k" "k \<le> 2 * lg_n l + 1"
  defines "d \<equiv> writes (take k (commit_writes l c)) (c_disk c)"
  shows "d (lg_start l) = head_data l (c_view c (lg_start l))" "t < lg_n l \<Longrightarrow> d (lg_start l + t + 1) = c_view c (lg_block l ! t)"
    "\<not> in_log l b \<Longrightarrow> b \<notin> c_dirty c \<Longrightarrow> d b = c_disk c b"
proof -
  note D = tx_okD [OF commit_readyD(2) [OF ready c]]
  let ?w1 = "map (\<lambda>t. (lg_start l + t + 1, c_view c (lg_block l ! t))) [0..<lg_n l]"
  let ?h = "head_data l (c_view c (lg_start l))"
  obtain j where j: "k = lg_n l + 1 + j" "j \<le> lg_n l" using k by (metis Suc_eq_plus1 Suc_leI add_le_cancel_left le_Suc_ex mult_2 add.commute add.left_commute)
  let ?w3 = "map (\<lambda>t. (lg_block l ! t, c_view c (lg_block l ! t))) [0..<j]"
  have t: "take k (commit_writes l c) = ?w1 @ (lg_start l, ?h) # ?w3"
    using j by (simp add: commit_writes_def take_map)
  have nin: "x \<notin> fst ` set ?w3" if "x \<notin> c_dirty c" for x
    using that j(2) D(4) by (force simp: image_image)
  have d: "d = writes ?w3 ((writes ?w1 (c_disk c))(lg_start l := ?h))" by (simp add: d_def t)
  show "d (lg_start l) = ?h" unfolding d using nin D(7) [of 0] by (subst writes_other) auto
  show "d (lg_start l + t + 1) = c_view c (lg_block l ! t)" if "t < lg_n l"
  proof -
    have "d (lg_start l + t + 1) = writes ?w1 (c_disk c) (lg_start l + t + 1)"
      unfolding d using nin D(8) [OF that] by (subst writes_other) auto
    also have "\<dots> = c_view c (lg_block l ! t)"
      by (rule writes_map [where f = "\<lambda>t. lg_start l + t + 1"]) (use that in \<open>auto simp: distinct_map inj_on_def\<close>)
    finally show ?thesis .
  qed
  show "d b = c_disk c b" if "\<not> in_log l b" "b \<notin> c_dirty c"
  proof -
    have "b \<notin> fst ` set ?w1" "b \<noteq> lg_start l" using that(1) by (auto simp: in_log_def)
    then show ?thesis unfolding d using nin [OF that(2)] by (simp add: writes_other)
  qed
qed

text \<open>After the last write.\<close>

lemma crash_end:
  assumes ready: "commit_ready pid l s" and c: "c = bc_abs s"
  shows "disk_clean l (writes (commit_writes l c) (c_disk c))"
    "\<not> in_log l b \<Longrightarrow> writes (commit_writes l c) (c_disk c) b = c_view c b"
proof -
  note busy = commit_readyD(1) [OF ready c] and tx = commit_readyD(2) [OF ready c]
  note D = tx_okD [OF tx]
  let ?k = "2 * lg_n l + 1"
  let ?h = "head_data l (c_view c (lg_start l))"
  have e: "commit_writes l c = take ?k (commit_writes l c) @ [(lg_start l, head_data (l\<lparr>lg_n := 0\<rparr>) ?h)]"
    by (simp add: commit_writes_def)
  have "length ?h = BSIZE" using length_view [OF busyD(1) [OF busy]] by (simp add: length_head_data c bc_abs_def)
  then show "disk_clean l (writes (commit_writes l c) (c_disk c))"
    using head_data_fields(1) [of ?h "l\<lparr>lg_n := 0\<rparr>"] by (subst e) (simp add: disk_clean_def)
  assume b: "\<not> in_log l b"
  show "writes (commit_writes l c) (c_disk c) b = c_view c b"
  proof (cases "b \<in> c_dirty c")
    case True
    then obtain t where t: "t < lg_n l" "b = lg_block l ! t" using tx by (auto simp: tx_ok_def)
    have "b \<noteq> lg_start l" using b by (auto simp: in_log_def)
    then show ?thesis unfolding commit_writes_def t(2)
      using writes_map [OF D(3), of t "\<lambda>t. c_view c (lg_block l ! t)"] t by simp
  next
    case False
    have w: "writes (commit_writes l c) (c_disk c) b = writes (take ?k (commit_writes l c)) (c_disk c) b"
      using arg_cong [OF e, of "\<lambda>ws. writes ws (c_disk c) b"] b by (auto simp: in_log_def)
    from False have "c_view c b = c_disk c b" using bc.coherent [OF busy] c by simp
    then show ?thesis using crash_after(3) [OF ready c, of ?k b] b False w by simp
  qed
qed

lemma length_commit_writes [simp]: "length (commit_writes l c) = 2 * lg_n l + 2"
  by (simp add: commit_writes_def)

lemma recover_at:
  assumes ready: "commit_ready pid l s" and c: "c = bc_abs s" and l0: "lg_start l0 = lg_start l" and k: "k \<le> 2 * lg_n l + 2"
  shows "\<exists>l' s'. recover_from_log p l0 (boot_cache (writes (take k (commit_writes l c)) (c_disk c)) (c_size c)) = Some (l', s') \<and>
    (\<forall>b. \<not> in_log l b \<longrightarrow> bc_disk s' b = (if k \<le> lg_n l then c_disk c b else c_view c b))"
proof -
  define d where "d = writes (take k (commit_writes l c)) (c_disk c)"
  note tx = commit_readyD(2) [OF ready c]
  have len: "\<forall>b. length (d b) = BSIZE"
    unfolding d_def using commit_writes_lengths [OF ready c] disk_lengths [OF ready c]
    by (auto intro!: writes_lengths dest: in_set_takeD)
  have st: "lg_start l0 < c_size c" using tx l0 by (simp add: tx_ok_def)
  have nl: "b \<noteq> lg_start l0" if "\<not> in_log l b" for b using that l0 by (auto simp: in_log_def)
  have dc: "get32 (d (lg_start l0)) 0 = 0" if "disk_clean l d" using that l0 by (simp add: disk_clean_def)
  consider "k \<le> lg_n l" | "lg_n l < k" "k \<le> 2 * lg_n l + 1" | "k = 2 * lg_n l + 2" "lg_n l < k" using k by linarith
  then show ?thesis
  proof cases
    case 1
    note b = crash_before [OF ready c 1, folded d_def]
    obtain l' s' where r: "recover_from_log p l0 (boot_cache d (c_size c)) = Some (l', s')" "\<forall>b. b \<noteq> lg_start l0 \<longrightarrow> bc_disk s' b = d b"
      using recover_none [OF len st dc [OF b(1)]] by blast
    have "\<forall>b. \<not> in_log l b \<longrightarrow> bc_disk s' b = c_disk c b" using b(2) nl r(2) by simp
    then show ?thesis using r(1) unfolding d_def [symmetric] if_P [OF 1] by blast
  next
    case 2
    note a = crash_after [OF ready c 2, folded d_def]
    have "length (c_view c (lg_start l)) = BSIZE"
      using length_view [OF busyD(1) [OF commit_readyD(1) [OF ready c]]] c by (simp add: bc_abs_def)
    then obtain l' s' where r: "recover_from_log p l0 (boot_cache d (c_size c)) = Some (l', s')"
        "\<forall>b. b \<noteq> lg_start l \<longrightarrow> bc_disk s' b = writes (map (\<lambda>t. (lg_block l ! t, d (lg_start l + t + 1))) [0..<lg_n l]) d b"
      using recover_committed [OF len tx refl l0 a(1)] by blast
    let ?ws = "map (\<lambda>t. (lg_block l ! t, c_view c (lg_block l ! t))) [0..<lg_n l]"
    have ws: "map (\<lambda>t. (lg_block l ! t, d (lg_start l + t + 1))) [0..<lg_n l] = ?ws" using a(2) by simp
    have "writes ?ws d b = c_view c b" if b: "\<not> in_log l b" for b
    proof (cases "b \<in> c_dirty c")
      case True
      then obtain t where "t < lg_n l" "b = lg_block l ! t" using tx by (auto simp: tx_ok_def)
      then show ?thesis using writes_map [OF tx_okD(3) [OF tx], of t "\<lambda>t. c_view c (lg_block l ! t)"] by simp
    next
      case False
      then have "writes ?ws d b = d b" using tx_okD(4) [OF tx] by (intro writes_other) (force simp: image_image)
      also have "\<dots> = c_view c b" using a(3) [OF b False] bc.coherent [OF commit_readyD(1) [OF ready c]] False c by simp
      finally show ?thesis .
    qed
    then have "\<forall>b. \<not> in_log l b \<longrightarrow> bc_disk s' b = c_view c b" using r(2) nl l0 unfolding ws by simp
    moreover have n: "\<not> k \<le> lg_n l" using 2 by simp
    ultimately show ?thesis using r(1) unfolding d_def [symmetric] if_not_P [OF n] by blast
  next
    case 3
    have "take k (commit_writes l c) = commit_writes l c" using 3 by simp
    then have e: "d = writes (commit_writes l c) (c_disk c)" by (simp add: d_def)
    note b = crash_end [OF ready c, folded e]
    obtain l' s' where r: "recover_from_log p l0 (boot_cache d (c_size c)) = Some (l', s')" "\<forall>b. b \<noteq> lg_start l0 \<longrightarrow> bc_disk s' b = d b"
      using recover_none [OF len st dc [OF b(1)]] by blast
    have n: "\<not> k \<le> lg_n l" using 3 by simp
    have "\<forall>b. \<not> in_log l b \<longrightarrow> bc_disk s' b = c_view c b" using b(2) nl r(2) by simp
    then show ?thesis using r(1) unfolding d_def [symmetric] if_not_P [OF n] by blast
  qed
qed

end
