(* ===== verification/Log_Ops.thy ===== *)
theory Log_Ops
  imports Log
begin

text \<open>File system operations on the log (\<open>CS_537_P5/log.c\<close>): the pattern by which every operation changes a block
  (read it, change it, \<open>log_write\<close>, release it), the state machine of operations that begin, change
  blocks and end in any order, its invariant, and the properties of the log.\<close>

section \<open>Changing a block through the log\<close>

text \<open>The use of the log that the comment at \<open>log_write\<close> prescribes.\<close>

definition log_edit :: "int \<Rightarrow> nat \<Rightarrow> (block \<Rightarrow> block) \<Rightarrow> log \<Rightarrow> bcache \<Rightarrow> (log \<times> bcache) option" where
  "log_edit pid b f l s = do {
     (i, s) \<leftarrow> bread pid 1 b s;
     (l, s) \<leftarrow> log_write i l (set_data i (f (b_data (buf_at s i))) s);
     s \<leftarrow> brelse pid i s;
     Some (l, s)
   }"

definition mark :: "nat \<Rightarrow> bcache \<Rightarrow> bcache" where
  "mark i s = upd_buf i (\<lambda>b. b\<lparr>b_dirty := True\<rparr>) s"

lemma mark_ok:
  assumes b: "bc_busy pid s H" "(b, i) \<in> H"
  shows "bc_busy pid (mark i s) H" "bc_abs (mark i s) = (bc_abs s)\<lparr>c_dirty := insert b (c_dirty (bc_abs s))\<rparr>"
proof -
  note h = busyD(2) [OF b] and len = busyD(5) [OF b] and ok = busyD(1) [OF b(1)]
  have bi: "b_blockno (buf_at s i) = b" "b_valid (buf_at s i)" "sl_locked (b_lock (buf_at s i))"
    using h by (auto simp: holds_def cached_def holdingsleep_def)
  have nt: "no_twins (mark i s)" using ok len by (auto simp: mark_def bc_ok_def no_twins_def nth_list_update)
  have ok': "bc_ok (mark i s)" using ok nt len bi by (auto simp: mark_def bc_ok_def buf_ok_def nth_list_update)
  have ca: "cached (mark i s) c j = cached s c j" for c j using len by (cases "j = i") (auto simp: mark_def cached_def)
  show "bc_busy pid (mark i s) H"
    by (rule busy_upd [OF b ok']) (use busyD(3) [OF b] h len ca in \<open>simp_all add: holds_def\<close>, simp_all add: mark_def)
  have "dirty_idx (mark i s) = insert i (dirty_idx s)" using len by (auto simp: dirty_idx_def mark_def nth_list_update)
  moreover have "b_blockno (buf_at (mark i s) k) = b_blockno (buf_at s k)" "b_data (buf_at (mark i s) k) = b_data (buf_at s k)" for k
    using len by (cases "k = i"; simp add: mark_def)+
  moreover have same: "bc_disk (mark i s) = bc_disk s" "length (bc_buf (mark i s)) = length (bc_buf s)" by (simp_all add: mark_def)
  moreover have "cached (mark i s) = cached s" using ca by (intro ext) simp
  then have "block_view (mark i s) = block_view s"
    unfolding block_view_def by (simp only: same calculation(3))
  ultimately show "bc_abs (mark i s) = (bc_abs s)\<lparr>c_dirty := insert b (c_dirty (bc_abs s))\<rparr>"
    using bi(1) by (simp add: bc_abs_def) (simp add: mark_def)
qed

text \<open>The log after \<open>log_write\<close> of block \<open>b\<close>.\<close>

definition logged :: "nat \<Rightarrow> log \<Rightarrow> log" where
  "logged b l = l\<lparr>lg_block := (lg_block l)[log_slot l b := b], lg_n := (if log_slot l b = lg_n l then lg_n l + 1 else lg_n l)\<rparr>"

lemma log_write_eq:
  assumes "\<not> lg_lock l" "lg_n l < LOGSIZE" "lg_n l + 1 < lg_size l" "0 < lg_outstanding l"
  shows "log_write i l s = Some (logged (b_blockno (buf_at s i)) l, mark i s)"
  using assms by (cases l) (simp add: log_write_def acquire_lg_def release_lg_def logged_def mark_def log_slot_def Let_def split: option.split)

lemma logged_fields [simp]:
  "lg_lock (logged b l) = lg_lock l" "lg_start (logged b l) = lg_start l" "lg_size (logged b l) = lg_size l"
  "lg_outstanding (logged b l) = lg_outstanding l" "lg_committing (logged b l) = lg_committing l"
  "length (lg_block (logged b l)) = length (lg_block l)"
  by (simp_all add: logged_def)

abbreviation logged_blocks :: "log \<Rightarrow> nat list" where
  "logged_blocks l \<equiv> take (lg_n l) (lg_block l)"

lemma logged_blocks_logged:
  assumes "lg_n l < length (lg_block l)"
  shows "logged_blocks (logged b l) = (if b \<in> set (logged_blocks l) then logged_blocks l else logged_blocks l @ [b])"
    "lg_n (logged b l) = (if b \<in> set (logged_blocks l) then lg_n l else lg_n l + 1)"
proof -
  have m: "b \<in> set (logged_blocks l) \<longleftrightarrow> (\<exists>i < lg_n l. lg_block l ! i = b)"
    using assms by (auto simp: in_set_conv_nth)
  show "logged_blocks (logged b l) = (if b \<in> set (logged_blocks l) then logged_blocks l else logged_blocks l @ [b])"
    "lg_n (logged b l) = (if b \<in> set (logged_blocks l) then lg_n l else lg_n l + 1)"
    using assms unfolding m logged_def log_slot_def
    by (auto simp: find_upt_None take_Suc_conv_app_nth split: option.split dest!: find_upt_Some)
qed

section \<open>The log between steps\<close>

definition log_area :: "log \<Rightarrow> nat \<Rightarrow> bool" where
  "log_area l b = (lg_start l \<le> b \<and> b < lg_start l + lg_size l)"

text \<open>The log has its place on the disk, there is room for the header's entries, and the logged blocks are the
  dirty ones of the cache, once each, none of them in the log area.\<close>

definition log_wf :: "log \<Rightarrow> cstate \<Rightarrow> bool" where
  "log_wf l c = (\<not> lg_lock l \<and> length (lg_block l) = LOGSIZE \<and> LOGSIZE \<le> lg_size l \<and>
     lg_start l + lg_size l \<le> c_size c \<and> c_size c \<le> 2 ^ 31 \<and> c_room c = NBUF \<and> lg_n l < LOGSIZE \<and>
     distinct (logged_blocks l) \<and> set (logged_blocks l) = c_dirty c \<and> (\<forall>b \<in> c_dirty c. b < c_size c \<and> \<not> log_area l b))"

lemma log_wfD:
  assumes "log_wf l c"
  shows "\<not> lg_lock l" "length (lg_block l) = LOGSIZE" "LOGSIZE \<le> lg_size l" "lg_start l + lg_size l \<le> c_size c"
    "c_size c \<le> 2 ^ 31" "c_room c = NBUF" "lg_n l < LOGSIZE" "distinct (logged_blocks l)" "set (logged_blocks l) = c_dirty c"
    "b \<in> c_dirty c \<Longrightarrow> b < c_size c \<and> \<not> log_area l b"
  using assms unfolding log_wf_def by blast+

lemma log_wf_tx_ok: "log_wf l c \<Longrightarrow> tx_ok l c"
proof -
  assume wf: "log_wf l c"
  note W = log_wfD [OF wf]
  have tk: "logged_blocks l = map ((!) (lg_block l)) [0..<lg_n l]"
    using W(2,7) by (intro nth_equalityI) auto
  have img: "(!) (lg_block l) ` {0..<lg_n l} = c_dirty c" using W(9) unfolding tk by simp
  have out: "lg_block l ! t < c_size c \<and> \<not> log_area l (lg_block l ! t)" if "t < lg_n l" for t
    using W(10) img that by (metis atLeastLessThan_iff imageI zero_le)
  have far: "lg_block l ! t \<noteq> lg_start l + u" if "t < lg_n l" "u \<le> lg_n l" for t u
    using out [OF that(1)] that(2) W(3,7) by (auto simp: log_area_def)
  have "lg_block l ! t \<noteq> lg_start l + u + 1" if "t < lg_n l" "u < lg_n l" for t u using far [of t "u + 1"] that by simp
  then have "apart l [0..<lg_n l]" unfolding apart_def using W(8) far [of _ 0] unfolding tk by (simp del: distinct_map)
  moreover have "entry_ok l c t" if "t < lg_n l" for t using out [OF that] that W(3,4,7) by (simp add: entry_ok_def)
  moreover have "b \<notin> c_dirty c" if "lg_start l \<le> b" "b \<le> lg_start l + lg_n l" for b
    using W(10) [of b] that W(3,7) by (auto simp: log_area_def)
  ultimately show ?thesis using W img by (simp add: tx_ok_def NBUF_def LOGSIZE_def)
qed

lemma card_dirty_wf: "log_wf l c \<Longrightarrow> card (c_dirty c) = lg_n l"
  using log_wfD(2,7-9) [of l c] distinct_card [of "logged_blocks l"] by simp

lemma log_edit_eq:
  assumes busy: "bc_busy pid s {}" and wf: "log_wf l (bc_abs s)" and n: "lg_n l + 1 < LOGSIZE" and o: "0 < lg_outstanding l"
    and b: "b < bc_disksize s" "\<not> log_area l b" and f: "\<And>d. length d = BSIZE \<Longrightarrow> length (f d) = BSIZE"
  shows "\<exists>s'. log_edit pid b f l s = Some (logged b l, s') \<and> bc_busy pid s' {} \<and> log_wf (logged b l) (bc_abs s') \<and>
    bc_abs s' = (bc_abs s)\<lparr>c_view := (block_view s)(b := f (block_view s b)), c_dirty := insert b (c_dirty (bc_abs s))\<rparr>"
proof -
  note W = log_wfD [OF wf]
  define c where "c = bc_abs s"
  have cs: "c_size c = bc_disksize s" "c_view c = block_view s" by (simp_all add: c_def bc_abs_def)
  obtain i s1 where 1: "bread pid 1 b s = Some (i, s1)" "bc_busy pid s1 {(b, i)}" "bc_abs s1 = c"
    using bc.rd_law [OF busy, of b] b(1) card_dirty_wf [OF wf] W(6,7) by (auto simp: c_def cs NBUF_def LOGSIZE_def bc_abs_def)
  let ?d = "f (b_data (buf_at s1 i))"
  have d: "b_data (buf_at s1 i) = block_view s b" "length ?d = BSIZE" using bc.data_law [OF 1(2)] 1(3) f cs by auto
  have 2: "bc_busy pid (set_data i ?d s1) {(b, i)}" "bc_abs (set_data i ?d s1) = c\<lparr>c_view := (c_view c)(b := ?d)\<rparr>"
    using bc.upd_law [OF 1(2) _ d(2)] 1(3) by auto
  let ?s2 = "set_data i ?d s1"
  have 3: "bc_busy pid (mark i ?s2) {(b, i)}" "bc_abs (mark i ?s2) = c\<lparr>c_view := (c_view c)(b := ?d), c_dirty := insert b (c_dirty c)\<rparr>"
    using mark_ok [OF 2(1)] 2(2) by auto
  have "b_blockno (buf_at ?s2 i) = b" using busyD(2) [OF 2(1)] by (auto simp: holds_def cached_def)
  then have w: "log_write i l ?s2 = Some (logged b l, mark i ?s2)"
    using log_write_eq [of l i ?s2] W(1,3) n o by simp
  obtain s4 where 4: "brelse pid i (mark i ?s2) = Some s4" "bc_busy pid s4 {}" "bc_abs s4 = bc_abs (mark i ?s2)"
    using bc.rl_law [OF 3(1), of b i] 3(2) by auto
  note L = logged_blocks_logged [of l b]
  have "log_wf (logged b l) (bc_abs s4)"
    using W n b cs L unfolding 4(3) 3(2) log_wf_def c_def [symmetric] by (auto simp: log_area_def)
  then show ?thesis using 1 w 4 3(2) d cs by (auto simp: log_edit_def c_def)
qed

lemma commit_eq_wf:
  assumes busy: "bc_busy pid s {}" and wf: "log_wf l (bc_abs s)" and clean: "disk_clean l (bc_disk s)"
  shows "\<exists>s'. commit pid l s = Some (l\<lparr>lg_n := 0\<rparr>, s') \<and> bc_busy pid s' {} \<and> log_wf (l\<lparr>lg_n := 0\<rparr>) (bc_abs s') \<and>
    disk_clean l (bc_disk s') \<and> bc_disksize s' = bc_disksize s \<and> (\<forall>b. \<not> log_area l b \<longrightarrow> bc_disk s' b = block_view s b \<and> block_view s' b = block_view s b)"
proof (cases "lg_n l = 0")
  case True
  then have e: "l\<lparr>lg_n := 0\<rparr> = l" by (cases l) simp
  have c: "commit pid l s = Some (l, s)" using True by (simp add: commit_def)
  have "bc_disk s b = block_view s b" for b using bc.coherent [OF busy, of b] log_wfD(9) [OF wf] True by (simp add: bc_abs_def)
  then show ?thesis using assms c unfolding e by (intro exI [of _ s]) simp
next
  case False
  note W = log_wfD [OF wf] and tx = log_wf_tx_ok [OF wf]
  define ws where "ws = commit_writes l (bc_abs s)"
  have "0 < lg_n l" using False by simp
  from commit_eq [OF busy tx this, folded ws_def] obtain s' where s': "commit pid l s = Some (l\<lparr>lg_n := 0\<rparr>, s')"
    "bc_busy pid s' {}" "bc_abs s' = stored_all ws (bc_abs s)" by (elim exE conjE)
  have ready: "commit_ready pid l s" using busy tx clean by (simp add: commit_ready_def)
  have abs: "c_disk (bc_abs s) = bc_disk s" "c_view (bc_abs s) = block_view s" "c_size (bc_abs s) = bc_disksize s" for s by (simp_all add: bc_abs_def)
  have disk: "bc_disk s' = writes ws (bc_disk s)" "bc_disksize s' = bc_disksize s" and dirty: "c_dirty (bc_abs s') = {}"
  proof -
    show "bc_disk s' = writes ws (bc_disk s)" "bc_disksize s' = bc_disksize s"
      using arg_cong [OF s'(3), of c_disk] arg_cong [OF s'(3), of c_size] by (simp_all only: stored_all_simps abs)
    have "c_dirty (bc_abs s) \<subseteq> fst ` set ws" using tx by (simp add: tx_ok_def ws_def commit_writes_def image_image image_Un) blast
    then show "c_dirty (bc_abs s') = {}" unfolding s'(3) stored_all_simps by blast
  qed
  note e = crash_end [OF ready refl, folded ws_def, unfolded abs, folded disk(1)]
  have "bc_disk s' b = block_view s b" if "\<not> log_area l b" for b
    using e(2) [of b] that W(3,7) by (auto simp: in_log_def log_area_def)
  moreover have "block_view s' b = bc_disk s' b" for b using bc.coherent [OF s'(2), of b] dirty by (simp add: abs)
  moreover have sz: "c_size (bc_abs s') = c_size (bc_abs s)" "c_room (bc_abs s') = c_room (bc_abs s)"
    unfolding s'(3) stored_all_simps by (rule refl)+
  have "log_wf (l\<lparr>lg_n := 0\<rparr>) (bc_abs s')"
    using W(1-6) sz unfolding log_wf_def dirty by (simp add: LOGSIZE_def)
  ultimately show ?thesis using s'(1,2) e(1) disk(2) by (intro exI [of _ s']) simp
qed

section \<open>Operations in any order\<close>

text \<open>A state of the machine: the log, the cache, and for each operation between its \<open>begin_op\<close> and its \<open>end_op\<close> the
  number of blocks it has changed.\<close>

type_synonym op_state = "log \<times> bcache \<times> nat list"

definition keeps_length :: "(block \<Rightarrow> block) \<Rightarrow> bool" where
  "keeps_length f = (\<forall>d. length d = BSIZE \<longrightarrow> length (f d) = BSIZE)"

inductive log_step :: "int \<Rightarrow> op_state \<Rightarrow> op_state \<Rightarrow> bool" for pid where
  begins: "begin_op l = Some (Proceeds, l') \<Longrightarrow> log_step pid (l, s, ws) (l', s, ws @ [0])"
| waits: "begin_op l = Some (Waits, l') \<Longrightarrow> log_step pid (l, s, ws) (l', s, ws)"
| edits: "j < length ws \<Longrightarrow> ws ! j + 1 < MAXOPBLOCKS \<Longrightarrow> b < bc_disksize s \<Longrightarrow> \<not> log_area l b \<Longrightarrow> keeps_length f \<Longrightarrow>
    log_edit pid b f l s = Some (l', s') \<Longrightarrow> log_step pid (l, s, ws) (l', s', ws[j := ws ! j + 1])"
| ends: "j < length ws \<Longrightarrow> end_op pid l s = Some (l', s') \<Longrightarrow> log_step pid (l, s, ws) (l', s', take j ws @ drop (Suc j) ws)"

inductive_cases log_stepE: "log_step pid x y"

definition reserved :: "nat list \<Rightarrow> nat" where
  "reserved ws = (\<Sum>w\<leftarrow>ws. MAXOPBLOCKS - w)"

lemma reserved_append [simp]: "reserved (ws @ vs) = reserved ws + reserved vs"
  by (simp add: reserved_def)

lemma reserved_split:
  assumes "j < length ws"
  shows "reserved ws = reserved (take j ws) + (MAXOPBLOCKS - ws ! j) + reserved (drop (Suc j) ws)"
  using arg_cong [OF id_take_nth_drop [OF assms], of reserved] by (simp add: reserved_def)

lemma reserved_edit:
  assumes "j < length ws" "ws ! j < MAXOPBLOCKS"
  shows "Suc (reserved (ws[j := ws ! j + 1])) = reserved ws"
  using reserved_split [OF assms(1)] reserved_split [of j "ws[j := ws ! j + 1]"] assms by simp

lemma reserved_le: "reserved ws \<le> MAXOPBLOCKS * length ws"
  by (induction ws) (auto simp: reserved_def)

fun op_inv :: "int \<Rightarrow> op_state \<Rightarrow> bool" where
  "op_inv pid (l, s, ws) = (bc_busy pid s {} \<and> log_wf l (bc_abs s) \<and> \<not> lg_committing l \<and> disk_clean l (bc_disk s) \<and>
     lg_outstanding l = int (length ws) \<and> (\<forall>w \<in> set ws. w < MAXOPBLOCKS) \<and> lg_n l + reserved ws \<le> LOGSIZE)"

lemma begin_op_eq:
  assumes "\<not> lg_lock l" "\<not> lg_committing l"
  shows "begin_op l = Some (if int LOGSIZE < int (lg_n l) + (lg_outstanding l + 1) * int MAXOPBLOCKS then (Waits, l)
    else (Proceeds, l\<lparr>lg_outstanding := lg_outstanding l + 1\<rparr>))"
  using assms by (cases l) (simp add: begin_op_def acquire_lg_def release_lg_def)

lemma end_op_eq:
  assumes "\<not> lg_lock l" "\<not> lg_committing l"
  shows "end_op pid l s = (if lg_outstanding l = 1 then
      map_option (\<lambda>(l, s). (l\<lparr>lg_committing := False\<rparr>, s)) (do { (l, s) \<leftarrow> commit pid (l\<lparr>lg_outstanding := 0, lg_committing := True\<rparr>) s;
         if lg_lock l then None else Some (l, s) })
    else Some (l\<lparr>lg_outstanding := lg_outstanding l - 1\<rparr>, s))"
  using assms
  by (cases l) (auto simp: end_op_def acquire_lg_def release_lg_def bind_eq_Some_conv map_option_case Let_def split: Option.bind_splits option.splits)

lemma log_wf_flags:
  "log_wf (l\<lparr>lg_outstanding := n\<rparr>) c = log_wf l c" "log_wf (l\<lparr>lg_committing := b\<rparr>) c = log_wf l c"
  "disk_clean (l\<lparr>lg_outstanding := n\<rparr>) d = disk_clean l d" "disk_clean (l\<lparr>lg_committing := b\<rparr>) d = disk_clean l d"
  "disk_clean (l\<lparr>lg_n := k\<rparr>) d = disk_clean l d"
  "log_area (l\<lparr>lg_outstanding := n\<rparr>) b' = log_area l b'" "log_area (l\<lparr>lg_committing := b\<rparr>) b' = log_area l b'"
  by (simp_all add: log_wf_def log_area_def disk_clean_def)

lemma end_op_wf:
  assumes busy: "bc_busy pid s {}" and wf: "log_wf l (bc_abs s)" and clean: "disk_clean l (bc_disk s)" and nc: "\<not> lg_committing l"
    and o: "lg_outstanding l = 1"
  shows "\<exists>s'. end_op pid l s = Some (l\<lparr>lg_outstanding := 0, lg_n := 0\<rparr>, s') \<and> bc_busy pid s' {} \<and>
    log_wf (l\<lparr>lg_outstanding := 0, lg_n := 0\<rparr>) (bc_abs s') \<and> disk_clean l (bc_disk s') \<and> bc_disksize s' = bc_disksize s \<and>
    (\<forall>b. \<not> log_area l b \<longrightarrow> bc_disk s' b = block_view s b \<and> block_view s' b = block_view s b)"
proof -
  define m where "m = l\<lparr>lg_outstanding := 0, lg_committing := True\<rparr>"
  have m: "log_wf m (bc_abs s)" "disk_clean m (bc_disk s)" "\<not> lg_lock m" using wf clean log_wfD(1) [OF wf] by (simp_all add: m_def log_wf_flags)
  from commit_eq_wf [OF busy m(1,2)] obtain s' where s': "commit pid m s = Some (m\<lparr>lg_n := 0\<rparr>, s')" "bc_busy pid s' {}"
    "log_wf (m\<lparr>lg_n := 0\<rparr>) (bc_abs s')" "disk_clean m (bc_disk s')" "bc_disksize s' = bc_disksize s"
    "\<forall>b. \<not> log_area m b \<longrightarrow> bc_disk s' b = block_view s b \<and> block_view s' b = block_view s b" by (elim exE conjE)
  have e: "m\<lparr>lg_n := 0\<rparr>\<lparr>lg_committing := False\<rparr> = l\<lparr>lg_outstanding := 0, lg_n := 0\<rparr>" using nc by (cases l) (simp add: m_def)
  have "end_op pid l s = Some (m\<lparr>lg_n := 0\<rparr>\<lparr>lg_committing := False\<rparr>, s')"
    using end_op_eq [OF log_wfD(1) [OF wf] nc, of pid s] s'(1) m(3) o unfolding m_def [symmetric] by simp
  moreover have "log_wf (m\<lparr>lg_n := 0\<rparr>\<lparr>lg_committing := False\<rparr>) (bc_abs s')" using s'(3) by (simp only: log_wf_flags)
  moreover have "disk_clean l (bc_disk s')" "log_area m = log_area l" using s'(4) by (simp_all add: disk_clean_def m_def log_area_def fun_eq_iff)
  ultimately show ?thesis using s'(2,5,6) unfolding e by (intro exI [of _ s']) simp
qed

lemma op_inv_edit:
  assumes inv: "op_inv pid (l, s, ws)" and j: "j < length ws" "ws ! j + 1 < MAXOPBLOCKS" and b: "b < bc_disksize s" "\<not> log_area l b"
    and f: "keeps_length f"
  shows "\<exists>s'. log_edit pid b f l s = Some (logged b l, s') \<and> op_inv pid (logged b l, s', ws[j := ws ! j + 1]) \<and>
    block_view s' = (block_view s)(b := f (block_view s b)) \<and> bc_disk s' = bc_disk s"
proof -
  have I: "bc_busy pid s {}" "log_wf l (bc_abs s)" "\<not> lg_committing l" "disk_clean l (bc_disk s)" "lg_outstanding l = int (length ws)"
      "\<forall>w \<in> set ws. w < MAXOPBLOCKS" "lg_n l + reserved ws \<le> LOGSIZE"
    using inv by simp_all
  have "2 \<le> reserved ws" using reserved_split [OF j(1)] j(2) by simp
  then have n: "lg_n l + 1 < LOGSIZE" using I(7) by simp
  have o: "0 < lg_outstanding l" using I(5) j(1) by (cases ws) simp_all
  from log_edit_eq [OF I(1,2) n o b, of f] f obtain s' where s': "log_edit pid b f l s = Some (logged b l, s')" "bc_busy pid s' {}"
      "log_wf (logged b l) (bc_abs s')"
      "bc_abs s' = (bc_abs s)\<lparr>c_view := (block_view s)(b := f (block_view s b)), c_dirty := insert b (c_dirty (bc_abs s))\<rparr>"
    unfolding keeps_length_def by blast
  have "block_view s' = (block_view s)(b := f (block_view s b))" "bc_disk s' = bc_disk s"
    using arg_cong [OF s'(4), of c_view] arg_cong [OF s'(4), of c_disk] by (simp_all add: bc_abs_def)
  moreover have "\<forall>w \<in> set (ws[j := ws ! j + 1]). w < MAXOPBLOCKS" using I(6) j(2) set_update_subset_insert [of ws j] by fastforce
  moreover have "lg_n (logged b l) + reserved (ws[j := ws ! j + 1]) \<le> LOGSIZE"
    using reserved_edit [OF j(1)] I(6,7) j log_wfD(2,7) [OF I(2)] logged_blocks_logged(2) [of l b] by (auto split: if_splits)
  ultimately show ?thesis using s'(1-3) I(3-5) by (intro exI [of _ s']) (simp add: disk_clean_def)
qed

lemma op_inv_end:
  assumes inv: "op_inv pid (l, s, ws)" and j: "j < length ws"
  shows "\<exists>l' s'. end_op pid l s = Some (l', s') \<and> op_inv pid (l', s', take j ws @ drop (Suc j) ws) \<and>
    (\<forall>b. \<not> log_area l b \<longrightarrow> block_view s' b = block_view s b) \<and>
    (length ws = 1 \<longrightarrow> (\<forall>b. \<not> log_area l b \<longrightarrow> bc_disk s' b = block_view s b)) \<and> (1 < length ws \<longrightarrow> bc_disk s' = bc_disk s)"
proof -
  have I: "bc_busy pid s {}" "log_wf l (bc_abs s)" "\<not> lg_committing l" "disk_clean l (bc_disk s)" "lg_outstanding l = int (length ws)"
      "\<forall>w \<in> set ws. w < MAXOPBLOCKS" "lg_n l + reserved ws \<le> LOGSIZE"
    using inv by simp_all
  show ?thesis
  proof (cases "length ws = 1")
    case True
    then have ws: "take j ws @ drop (Suc j) ws = []" using j by simp
    have "lg_outstanding l = 1" using I(5) True by simp
    from end_op_wf [OF I(1,2,4,3) this] obtain s' where s': "end_op pid l s = Some (l\<lparr>lg_outstanding := 0, lg_n := 0\<rparr>, s')" "bc_busy pid s' {}"
      "log_wf (l\<lparr>lg_outstanding := 0, lg_n := 0\<rparr>) (bc_abs s')" "disk_clean l (bc_disk s')"
      "\<forall>b. \<not> log_area l b \<longrightarrow> bc_disk s' b = block_view s b \<and> block_view s' b = block_view s b" by (elim exE conjE)
    have "op_inv pid (l\<lparr>lg_outstanding := 0, lg_n := 0\<rparr>, s', [])"
      using s'(2-4) I(3) by (simp add: reserved_def disk_clean_def)
    then show ?thesis using s'(1,5) True unfolding ws by (intro exI [of _ "l\<lparr>lg_outstanding := 0, lg_n := 0\<rparr>"] exI [of _ s']) simp
  next
    case False
    then have "end_op pid l s = Some (l\<lparr>lg_outstanding := lg_outstanding l - 1\<rparr>, s)"
      using end_op_eq [OF log_wfD(1) [OF I(2)] I(3)] I(5) by simp
    moreover have "\<forall>w \<in> set (take j ws @ drop (Suc j) ws). w < MAXOPBLOCKS" using I(6) by (auto dest: in_set_takeD in_set_dropD)
    moreover have "lg_n l + reserved (take j ws @ drop (Suc j) ws) \<le> LOGSIZE" using I(7) reserved_split [OF j] by simp
    moreover have "int (length (take j ws @ drop (Suc j) ws)) = lg_outstanding l - 1" using I(5) j by simp
    ultimately show ?thesis using I(1-4) False j
      by (intro exI [of _ "l\<lparr>lg_outstanding := lg_outstanding l - 1\<rparr>"] exI [of _ s]) (simp add: log_wf_flags)
  qed
qed

lemma op_inv_step: "log_step pid x y \<Longrightarrow> op_inv pid x \<Longrightarrow> op_inv pid y"
proof (induction rule: log_step.induct)
  case (begins l l' s ws)
  note W = log_wfD(1) [of l "bc_abs s"]
  have e: "l' = l\<lparr>lg_outstanding := lg_outstanding l + 1\<rparr>" "int (lg_n l) + (lg_outstanding l + 1) * int MAXOPBLOCKS \<le> int LOGSIZE"
    using begins begin_op_eq [of l] W by (auto split: if_splits)
  have "int (lg_n l + reserved (ws @ [0])) \<le> int (lg_n l) + (lg_outstanding l + 1) * int MAXOPBLOCKS"
    using reserved_le [of "ws @ [0]"] begins.prems by (simp add: MAXOPBLOCKS_def)
  then have "lg_n l + reserved (ws @ [0]) \<le> LOGSIZE" using e(2) by linarith
  then show ?case using begins.prems unfolding e(1) by (simp add: log_wf_flags MAXOPBLOCKS_def)
next
  case (waits l l' s ws)
  then have "l' = l" using begin_op_eq [of l] log_wfD(1) [of l "bc_abs s"] by (auto split: if_splits)
  then show ?case using waits by simp
next
  case (edits j ws b s l f l' s')
  then show ?case using op_inv_edit [of pid l s ws j b f] by auto
next
  case (ends j ws l s l' s')
  then show ?case using op_inv_end [of pid l s ws j] by auto
qed

text \<open>The machine starts with the log that \<open>initlog\<close> sets up at boot, on a disk whose super block describes a log of at
  least \<open>LOGSIZE\<close> blocks and whose log header is empty.\<close>

definition fresh_disk :: "(nat \<Rightarrow> block) \<Rightarrow> nat \<Rightarrow> bool" where
  "fresh_disk d N = (let ls = unat (get32 (d 1) 16); nl = unat (get32 (d 1) 12) in
     (\<forall>b. length (d b) = BSIZE) \<and> LOGSIZE \<le> nl \<and> 1 < ls \<and> ls + nl \<le> N \<and> N \<le> 2 ^ 31 \<and> get32 (d ls) 0 = 0)"

definition zero_log :: log where
  "zero_log = \<lparr>lg_lock = False, lg_start = 0, lg_size = 0, lg_outstanding = 0, lg_committing = False, lg_n = 0, lg_block = replicate LOGSIZE 0\<rparr>"

lemma recover_clean:
  assumes "bc_busy pid s {}" "lg_start l < c_size (bc_abs s)" "c_dirty (bc_abs s) = {}" "0 < c_room (bc_abs s)"
    "get32 (c_view (bc_abs s) (lg_start l)) 0 = 0"
  shows "\<exists>s'. recover_from_log pid l s = Some (l\<lparr>lg_n := 0\<rparr>, s') \<and> bc_busy pid s' {} \<and>
    bc_abs s' = stored (lg_start l) (head_data (l\<lparr>lg_n := 0\<rparr>) (c_view (bc_abs s) (lg_start l))) (bc_abs s)"
proof -
  have "\<exists>s1. read_head pid l s = Some (l\<lparr>lg_n := 0\<rparr>, s1) \<and> bc_busy pid s1 {} \<and> bc_abs s1 = bc_abs s"
    using read_head_eq [OF assms(1-4)] assms(5) by (simp add: LOGSIZE_def head_blocks_def)
  then obtain s1 where 1: "read_head pid l s = Some (l\<lparr>lg_n := 0\<rparr>, s1)" "bc_busy pid s1 {}" "bc_abs s1 = bc_abs s" by (elim exE conjE)
  have "lg_start (l\<lparr>lg_n := 0\<rparr>) < c_size (bc_abs s1)" "card (c_dirty (bc_abs s1)) < c_room (bc_abs s1)" using assms(2-4) 1(3) by simp_all
  from write_head_eq [OF 1(2) this] obtain s2 where "write_head pid (l\<lparr>lg_n := 0\<rparr>) s1 = Some s2" "bc_busy pid s2 {}"
    "bc_abs s2 = stored (lg_start (l\<lparr>lg_n := 0\<rparr>)) (head_data (l\<lparr>lg_n := 0\<rparr>) (c_view (bc_abs s1) (lg_start (l\<lparr>lg_n := 0\<rparr>)))) (bc_abs s1)"
    by (elim exE conjE)
  then show ?thesis using 1 by (intro exI [of _ s2]) (simp add: recover_from_log_def install_trans_def)
qed

lemma initlog_ok:
  assumes fresh: "fresh_disk d N"
  shows "\<exists>l s. initlog pid zero_log (boot_cache d N) = Some (l, s) \<and> op_inv pid (l, s, []) \<and> bc_disksize s = N \<and> lg_n l = 0 \<and>
    lg_start l = unat (get32 (d 1) 16) \<and> lg_size l = unat (get32 (d 1) 12) \<and> (\<forall>b. b \<noteq> lg_start l \<longrightarrow> bc_disk s b = d b \<and> block_view s b = d b)"
proof -
  define ls nl where "ls = unat (get32 (d 1) 16)" and "nl = unat (get32 (d 1) 12)"
  have F: "\<forall>b. length (d b) = BSIZE" "LOGSIZE \<le> nl" "1 < ls" "ls + nl \<le> N" "N \<le> 2 ^ 31" "get32 (d ls) 0 = 0"
    using fresh unfolding fresh_disk_def Let_def ls_def nl_def by blast+
  note busy = boot_busy [OF F(1), of pid N] and abs = boot_abs [of d N]
  have "1 < c_size (bc_abs (boot_cache d N))" "1 \<in> c_dirty (bc_abs (boot_cache d N)) \<or> card (c_dirty (bc_abs (boot_cache d N))) + card {} < c_room (bc_abs (boot_cache d N))"
    using F abs by (simp_all add: NBUF_def)
  from bc.rd_law [OF busy finite.emptyI _ this] obtain i s1 where
    1: "bread pid 1 1 (boot_cache d N) = Some (i, s1)" "bc_busy pid s1 {(1, i)}" "bc_abs s1 = bc_abs (boot_cache d N)" by auto
  have dd: "b_data (buf_at s1 i) = d 1" using bc.data_law [OF 1(2)] 1(3) abs by simp
  have "\<exists>s2. brelse pid i s1 = Some s2 \<and> bc_busy pid s2 ({(1, i)} - {(1, i)}) \<and> bc_abs s2 = bc_abs s1"
    by (rule bc.rl_law [OF 1(2)]) (simp_all add: 1(3) abs)
  then obtain s2 where 2: "brelse pid i s1 = Some s2" "bc_busy pid s2 {}" "bc_abs s2 = bc_abs (boot_cache d N)" using 1(3) by auto
  define l where "l = zero_log\<lparr>lg_lock := False, lg_start := ls, lg_size := nl\<rparr>"
  have r: "initlog pid zero_log (boot_cache d N) = recover_from_log pid l s2"
    using 1(1) 2(1) dd by (simp add: initlog_def readsb_def BSIZE_def LOGSIZE_def l_def ls_def nl_def Let_def)
  have l: "lg_start l = ls" "l\<lparr>lg_n := 0\<rparr> = l" "lg_size l = nl" "lg_n l = 0" by (simp_all add: l_def zero_log_def)
  have "lg_start l < c_size (bc_abs s2)" "c_dirty (bc_abs s2) = {}" "0 < c_room (bc_abs s2)" "get32 (c_view (bc_abs s2) (lg_start l)) 0 = 0"
    using F l abs unfolding 2(3) by (simp_all add: NBUF_def LOGSIZE_def)
  from recover_clean [OF 2(2) this] obtain s3 where 3: "recover_from_log pid l s2 = Some (l, s3)" "bc_busy pid s3 {}"
    "bc_abs s3 = stored ls (head_data l (d ls)) (bc_abs (boot_cache d N))" unfolding l 2(3) abs by auto
  have v: "bc_disk s3 = d(ls := head_data l (d ls))" "block_view s3 = d(ls := head_data l (d ls))" "bc_disksize s3 = N"
    using arg_cong [OF 3(3), of c_disk] arg_cong [OF 3(3), of c_view] arg_cong [OF 3(3), of c_size] unfolding abs bc.stored_def
    by (simp_all add: bc_abs_def)
  have "log_wf l (bc_abs s3)"
    using F l unfolding log_wf_def 3(3) abs bc.stored_def by (simp add: l_def zero_log_def LOGSIZE_def)
  moreover have "get32 (head_data l (d ls)) 0 = 0" using head_data_fields(1) [of "d ls" l] F(1) l(4) by simp
  then have "disk_clean l (bc_disk s3)" using l v by (simp add: disk_clean_def)
  ultimately have "op_inv pid (l, s3, [])" using 3(2) by (simp add: reserved_def l_def zero_log_def)
  then show ?thesis using r 3(1) v l by (intro exI [of _ l] exI [of _ s3]) (simp add: ls_def nl_def)
qed

definition log_boot :: "int \<Rightarrow> op_state \<Rightarrow> bool" where
  "log_boot pid x = (\<exists>d N l s. fresh_disk d N \<and> initlog pid zero_log (boot_cache d N) = Some (l, s) \<and> x = (l, s, []))"

interpretation lo: transition_system "log_boot pid" "log_step pid" "op_inv pid" for pid
proof
  fix x assume "log_boot pid x"
  then obtain d N l s where "fresh_disk d N" "initlog pid zero_log (boot_cache d N) = Some (l, s)" "x = (l, s, [])"
    unfolding log_boot_def by (elim exE conjE)
  then show "op_inv pid x" using initlog_ok [of d N pid] by (auto simp del: op_inv.simps)
qed (rule op_inv_step)

section \<open>Properties\<close>

text \<open>C4. A commit is atomic: started with the buffers of the transaction dirty in the cache and an empty header on
  disk, it returns after a sequence of disk writes, and if the machine stops after any number of these writes, recovery
  at the next boot gives every block outside the log area its old contents (up to the write of the header)
  or its new contents (from then on), all of them together.\<close>

theorem log_commit_atomic:
  assumes "commit_ready pid l s" "0 < lg_n l" "lg_start l0 = lg_start l"
  shows "\<exists>s' ws. commit pid l s = Some (l\<lparr>lg_n := 0\<rparr>, s') \<and> bc_busy pid s' {} \<and>
    bc_trace s' = bc_trace s @ ws \<and> bc_disk s' = writes ws (bc_disk s) \<and> length ws = 2 * lg_n l + 2 \<and>
    (\<forall>k \<le> length ws. \<exists>l'' s''. recover_from_log p l0 (boot_cache (writes (take k ws) (bc_disk s)) (bc_disksize s)) = Some (l'', s'') \<and>
       (\<forall>b. \<not> in_log l b \<longrightarrow> bc_disk s'' b = (if k \<le> lg_n l then bc_disk s b else block_view s b)))"
proof -
  let ?c = "bc_abs s" and ?ws = "commit_writes l (bc_abs s)"
  note R = commit_readyD [OF assms(1) refl]
  have abs: "c_disk ?c = bc_disk s" "c_view ?c = block_view s" "c_size ?c = bc_disksize s" by (simp_all add: bc_abs_def)
  obtain s' where s': "commit pid l s = Some (l\<lparr>lg_n := 0\<rparr>, s')" "bc_busy pid s' {}" "bc_abs s' = stored_all ?ws ?c"
    using commit_eq [OF R(1,2) assms(2)] by blast
  have "bc_trace s' = bc_trace s @ ?ws" using arg_cong [OF s'(3), of c_trace] by (simp add: stored_all_simps) (simp add: bc_abs_def)
  moreover have "bc_disk s' = writes ?ws (bc_disk s)"
    using arg_cong [OF s'(3), of c_disk] by (simp add: stored_all_simps) (simp add: bc_abs_def)
  moreover have "\<forall>k \<le> length ?ws. \<exists>l'' s''. recover_from_log p l0 (boot_cache (writes (take k ?ws) (bc_disk s)) (bc_disksize s)) = Some (l'', s'') \<and>
       (\<forall>b. \<not> in_log l b \<longrightarrow> bc_disk s'' b = (if k \<le> lg_n l then bc_disk s b else block_view s b))"
    using recover_at [OF assms(1) refl assms(3), of _ p] unfolding abs length_commit_writes by blast
  ultimately show ?thesis using s'(1,2) by (intro exI [of _ s'] exI [of _ ?ws]) simp
qed

text \<open>A disk with a log of \<open>LOGSIZE\<close> blocks from block 2 on, and nothing in it.\<close>

definition small_disk :: "nat \<Rightarrow> block" where
  "small_disk b = (if b = 1 then put32 (put32 (replicate BSIZE 0) 12 30) 16 2 else replicate BSIZE 0)"

lemma small_disk_fresh: "fresh_disk small_disk 100"
proof -
  have "get32 (replicate BSIZE 0) 0 = 0" by (simp add: get32_def rd32_def BSIZE_def)
  moreover have "get32 (small_disk 1) 16 = 2" "get32 (small_disk 1) 12 = 30"
    by (simp_all add: small_disk_def get32_put32_other BSIZE_def)
  ultimately show ?thesis by (simp add: fresh_disk_def small_disk_def LOGSIZE_def)
qed

text \<open>The state after one operation has begun on that disk and changed block 50.\<close>

lemma small_edit:
  obtains l s s' where "log_boot 7 (l, s, [])" "begin_op l = Some (Proceeds, l\<lparr>lg_outstanding := 1\<rparr>)"
    "log_edit 7 50 (\<lambda>d. d[0 := 1]) (l\<lparr>lg_outstanding := 1\<rparr>) s = Some (logged 50 (l\<lparr>lg_outstanding := 1\<rparr>), s')"
    "op_inv 7 (logged 50 (l\<lparr>lg_outstanding := 1\<rparr>), s', [1])" "block_view s' 50 = (replicate BSIZE 0)[0 := 1]" "bc_disk s' 50 = replicate BSIZE 0"
    "lg_start l = 2" "lg_size l = 30" "bc_disksize s = 100" "lg_n (logged 50 (l\<lparr>lg_outstanding := 1\<rparr>)) = 1"
proof -
  have sb: "unat (get32 (small_disk 1) 16) = 2" "unat (get32 (small_disk 1) 12) = 30"
    by (simp_all add: small_disk_def get32_put32_other BSIZE_def)
  from initlog_ok [OF small_disk_fresh, of 7, unfolded sb] obtain l s where
    i: "initlog 7 zero_log (boot_cache small_disk 100) = Some (l, s)" "op_inv 7 (l, s, [])" "bc_disksize s = 100" "lg_n l = 0" "lg_start l = 2"
       "lg_size l = 30" "\<forall>b. b \<noteq> lg_start l \<longrightarrow> bc_disk s b = small_disk b \<and> block_view s b = small_disk b" by (elim exE conjE)
  have boot: "log_boot 7 (l, s, [])" unfolding log_boot_def using small_disk_fresh i(1) by blast
  define m where "m = l\<lparr>lg_outstanding := 1\<rparr>"
  have l: "\<not> lg_lock l" "\<not> lg_committing l" "lg_outstanding l = 0" using i(2) log_wfD(1) [of l "bc_abs s"] by simp_all
  have b: "begin_op l = Some (Proceeds, m)" using begin_op_eq [OF l(1,2)] l(3) i(4) by (simp add: m_def LOGSIZE_def MAXOPBLOCKS_def)
  have im: "op_inv 7 (m, s, [0])" using op_inv_step [OF log_step.begins [OF b] i(2)] by (simp del: op_inv.simps)
  have "\<exists>s'. log_edit 7 50 (\<lambda>d. d[0 := 1]) m s = Some (logged 50 m, s') \<and> op_inv 7 (logged 50 m, s', [0][0 := [0] ! 0 + 1]) \<and>
    block_view s' = (block_view s)(50 := (block_view s 50)[0 := 1]) \<and> bc_disk s' = bc_disk s"
    by (rule op_inv_edit [OF im]) (simp_all add: MAXOPBLOCKS_def i(3) log_area_def m_def i(5,6) keeps_length_def)
  then obtain s' where s': "log_edit 7 50 (\<lambda>d. d[0 := 1]) m s = Some (logged 50 m, s')" "op_inv 7 (logged 50 m, s', [1])"
    "block_view s' = (block_view s)(50 := (block_view s 50)[0 := 1])" "bc_disk s' = bc_disk s" by (auto simp del: op_inv.simps)
  have v: "block_view s' 50 = (replicate BSIZE 0)[0 := 1]" "bc_disk s' 50 = replicate BSIZE 0" using s'(3,4) i(5,7) by (simp_all add: small_disk_def)
  have "lg_n m < length (lg_block m)" using i(4) log_wfD(2) [of m "bc_abs s"] im by (simp add: LOGSIZE_def m_def)
  then have n: "lg_n (logged 50 m) = 1" using logged_blocks_logged(2) [of m 50] i(4) by (simp add: m_def)
  show ?thesis by (rule that [of l s, folded m_def, OF boot b s'(1,2) v i(5,6,3) n])
qed

theorem log_commit_atomic_witness:
  "\<exists>l s. commit_ready 7 l s \<and> 0 < lg_n l \<and> block_view s 50 \<noteq> bc_disk s 50 \<and>
    (\<exists>s' ws. commit 7 l s = Some (l\<lparr>lg_n := 0\<rparr>, s') \<and> length ws = 4 \<and>
      (\<forall>k \<le> 4. \<exists>l'' s''. recover_from_log 1 (zero_log\<lparr>lg_start := lg_start l\<rparr>) (boot_cache (writes (take k ws) (bc_disk s)) (bc_disksize s)) = Some (l'', s'') \<and>
         bc_disk s'' 50 = (if k \<le> 1 then bc_disk s 50 else block_view s 50)))"
proof -
  obtain l s s' where e: "op_inv 7 (logged 50 (l\<lparr>lg_outstanding := 1\<rparr>), s', [1])" "block_view s' 50 = (replicate BSIZE 0)[0 := 1]"
    "bc_disk s' 50 = replicate BSIZE 0" "lg_start l = 2" "lg_n (logged 50 (l\<lparr>lg_outstanding := 1\<rparr>)) = 1" by (rule small_edit)
  define m where "m = logged 50 (l\<lparr>lg_outstanding := 1\<rparr>)"
  have r: "commit_ready 7 m s'" using e(1) log_wf_tx_ok unfolding m_def [symmetric] commit_ready_def by simp
  have n: "lg_n m = 1" "\<not> in_log m 50" using e(4,5) by (simp_all add: m_def in_log_def)
  have "0 < lg_n m" using n by simp
  from log_commit_atomic [OF r this, of "zero_log\<lparr>lg_start := lg_start m\<rparr>" 1] obtain s2 ws where c: "commit 7 m s' = Some (m\<lparr>lg_n := 0\<rparr>, s2)"
    "length ws = 2 * lg_n m + 2"
    "\<forall>k \<le> length ws. \<exists>l'' s''. recover_from_log 1 (zero_log\<lparr>lg_start := lg_start m\<rparr>) (boot_cache (writes (take k ws) (bc_disk s')) (bc_disksize s')) = Some (l'', s'') \<and>
       (\<forall>b. \<not> in_log m b \<longrightarrow> bc_disk s'' b = (if k \<le> lg_n m then bc_disk s' b else block_view s' b))" by auto
  have "block_view s' 50 \<noteq> bc_disk s' 50" unfolding e(2,3) by (auto simp: BSIZE_def dest!: arg_cong [of _ _ "\<lambda>d. d ! 0"])
  moreover have "length ws = 4" using c(2) n by simp
  moreover have "\<exists>l'' s''. recover_from_log 1 (zero_log\<lparr>lg_start := lg_start m\<rparr>) (boot_cache (writes (take k ws) (bc_disk s')) (bc_disksize s')) = Some (l'', s'') \<and>
       bc_disk s'' 50 = (if k \<le> 1 then bc_disk s' 50 else block_view s' 50)" if "k \<le> 4" for k
    using c(3) [unfolded \<open>length ws = 4\<close> n(1), rule_format, OF that] n(2) by blast
  ultimately show ?thesis using r n(1) c(1) by (intro exI [of _ m] exI [of _ s'] conjI exI [of _ s2] exI [of _ ws]) simp_all
qed

text \<open>C5. Operations that reserve space with \<open>begin_op\<close> and change at most \<open>MAXOPBLOCKS - 1\<close>, that is 9, blocks each (one less than \<open>begin_op\<close> reserves: with the
  tenth block of every operation the panic at \<^verbatim>\<open>log.c:218\<close> is met) never meet a panic of the log or the cache, in whatever order they run: from the boot on, \<open>begin_op\<close> returns, a block can be changed
  through the log (readers see the change, the disk does not), and \<open>end_op\<close> returns with what readers see
  unchanged. The last of the running operations to end puts every change on the disk, and an earlier one none.\<close>

theorem log_operations_run:
  assumes "log_boot pid x" "(log_step pid)\<^sup>*\<^sup>* x (l, s, ws)"
  shows "(\<exists>r l'. begin_op l = Some (r, l')) \<and>
    (\<forall>j b f. j < length ws \<and> ws ! j + 1 < MAXOPBLOCKS \<and> b < bc_disksize s \<and> \<not> log_area l b \<and> keeps_length f \<longrightarrow>
      (\<exists>l' s'. log_edit pid b f l s = Some (l', s') \<and> block_view s' = (block_view s)(b := f (block_view s b)) \<and> bc_disk s' = bc_disk s)) \<and>
    (ws \<noteq> [] \<longrightarrow> (\<exists>l' s'. end_op pid l s = Some (l', s') \<and> (\<forall>b. \<not> log_area l b \<longrightarrow> block_view s' b = block_view s b) \<and>
      (if length ws = 1 then \<forall>b. \<not> log_area l b \<longrightarrow> bc_disk s' b = block_view s b else bc_disk s' = bc_disk s)))"
proof -
  note inv = lo.reachable_inv [OF assms]
  have "\<not> lg_lock l" "\<not> lg_committing l" using inv log_wfD(1) [of l "bc_abs s"] by simp_all
  then have 1: "\<exists>r l'. begin_op l = Some (r, l')" using begin_op_eq by (metis surj_pair)
  have 2: "\<exists>l' s'. log_edit pid b f l s = Some (l', s') \<and> block_view s' = (block_view s)(b := f (block_view s b)) \<and> bc_disk s' = bc_disk s"
    if "j < length ws" "ws ! j + 1 < MAXOPBLOCKS" "b < bc_disksize s" "\<not> log_area l b" "keeps_length f" for j b f
    using op_inv_edit [OF inv that] by blast
  have 3: "\<exists>l' s'. end_op pid l s = Some (l', s') \<and> (\<forall>b. \<not> log_area l b \<longrightarrow> block_view s' b = block_view s b) \<and>
      (if length ws = 1 then \<forall>b. \<not> log_area l b \<longrightarrow> bc_disk s' b = block_view s b else bc_disk s' = bc_disk s)" if "ws \<noteq> []"
  proof -
    have "0 < length ws" using that by simp
    from op_inv_end [OF inv this] obtain l' s' where e: "end_op pid l s = Some (l', s')" "\<forall>b. \<not> log_area l b \<longrightarrow> block_view s' b = block_view s b"
      "length ws = 1 \<longrightarrow> (\<forall>b. \<not> log_area l b \<longrightarrow> bc_disk s' b = block_view s b)" "1 < length ws \<longrightarrow> bc_disk s' = bc_disk s" by (elim exE conjE)
    have "1 < length ws \<or> length ws = 1" using \<open>0 < length ws\<close> by linarith
    then show ?thesis using e by (intro exI [of _ l'] exI [of _ s']) auto
  qed
  show ?thesis using 1 2 3 by blast
qed

theorem log_operations_run_witness:
  "\<exists>l s l' s'. log_boot 7 (l, s, []) \<and> (log_step 7)\<^sup>*\<^sup>* (l, s, []) (l', s', [1]) \<and> bc_disk s' 50 = replicate BSIZE 0 \<and>
    (\<exists>l'' s''. end_op 7 l' s' = Some (l'', s'') \<and> bc_disk s'' 50 = (replicate BSIZE 0)[0 := 1])"
proof -
  obtain l s s' where e: "log_boot 7 (l, s, [])" "begin_op l = Some (Proceeds, l\<lparr>lg_outstanding := 1\<rparr>)"
    "log_edit 7 50 (\<lambda>d. d[0 := 1]) (l\<lparr>lg_outstanding := 1\<rparr>) s = Some (logged 50 (l\<lparr>lg_outstanding := 1\<rparr>), s')"
    "block_view s' 50 = (replicate BSIZE 0)[0 := 1]" "bc_disk s' 50 = replicate BSIZE 0" "lg_start l = 2" "lg_size l = 30" "bc_disksize s = 100"
    by (rule small_edit)
  define m where "m = logged 50 (l\<lparr>lg_outstanding := 1\<rparr>)"
  have "log_step 7 (l\<lparr>lg_outstanding := 1\<rparr>, s, [0]) (m, s', [0][0 := [0] ! 0 + 1])"
    unfolding m_def by (rule log_step.edits [OF _ _ _ _ _ e(3)]) (simp_all add: e MAXOPBLOCKS_def log_area_def keeps_length_def)
  then have st: "(log_step 7)\<^sup>*\<^sup>* (l, s, []) (m, s', [1])"
    using log_step.begins [OF e(2), of 7 s "[]"] by (auto intro: converse_rtranclp_into_rtranclp)
  have "\<not> log_area m 50" using e by (simp add: m_def log_area_def)
  then have "\<exists>l'' s''. end_op 7 m s' = Some (l'', s'') \<and> bc_disk s'' 50 = (replicate BSIZE 0)[0 := 1]"
    using conjunct2 [OF conjunct2 [OF log_operations_run [OF e(1) st]]] e(4) by auto
  then show ?thesis using e(1,5) st by blast
qed

end
