(* ===== verification/Kalloc.thy ===== *)
theory Kalloc
  imports Kstring
begin

text \<open>
  The physical page allocator of the kernel (\<^verbatim>\<open>CS_537_P5/kalloc.c\<close>). Memory is addressed by kernel virtual
  addresses. The free pages form a list threaded through the pages themselves: the first word of a free page
  is the address of the next one. The address \<^verbatim>\<open>end\<close> of the first byte after the kernel comes from the linker and is a
  field of the state.
\<close>

section \<open>Addresses\<close>

definition PGSIZE :: u32 where "PGSIZE = 4096"
definition KERNBASE :: u32 where "KERNBASE = 0x80000000"
definition PHYSTOP :: u32 where "PHYSTOP = 0xE000000"

definition V2P :: "u32 \<Rightarrow> u32" where "V2P a = a - KERNBASE"
definition P2V :: "u32 \<Rightarrow> u32" where "P2V a = a + KERNBASE"

definition PGROUNDUP :: "u32 \<Rightarrow> u32" where "PGROUNDUP sz = (sz + PGSIZE - 1) AND NOT (PGSIZE - 1)"
definition PGROUNDDOWN :: "u32 \<Rightarrow> u32" where "PGROUNDDOWN a = a AND NOT (PGSIZE - 1)"

lemma P2V_V2P [simp]: "P2V (V2P a) = a" "V2P (P2V a) = a"
  by (simp_all add: P2V_def V2P_def)

lemma unat_PGSIZE [simp]: "unat PGSIZE = 4096"
  by (simp add: PGSIZE_def)

lemma unat_and_not_mask: "unat (a AND NOT (mask k) :: u32) = unat a div 2 ^ k * 2 ^ k"
proof -
  have "a AND NOT (mask k) = push_bit k (drop_bit k a)"
    by (rule bit_word_eqI) (auto simp: bit_simps)
  moreover have "push_bit k (unat (drop_bit k a)) < 2 ^ 32"
  proof -
    have "unat (drop_bit k a) * 2 ^ k \<le> unat a" unfolding unat_drop_bit_eq by (simp add: drop_bit_eq_div)
    also have "\<dots> < 2 ^ 32" using unsigned_less [of a, where ?'a = nat] by simp
    finally show ?thesis by (simp add: push_bit_eq_mult)
  qed
  ultimately show ?thesis
    by (simp add: unsigned_push_bit_eq take_bit_nat_eq_self unat_drop_bit_eq del: drop_bit_eq_div)
      (simp add: drop_bit_eq_div push_bit_eq_mult)
qed

lemma pgsize_mask: "PGSIZE - 1 = mask 12"
  by (simp add: PGSIZE_def mask_eq_exp_minus_1)

lemma unat_PGROUNDDOWN: "unat (PGROUNDDOWN a) = unat a div 4096 * 4096"
  unfolding PGROUNDDOWN_def pgsize_mask unat_and_not_mask by simp

lemma unat_PGROUNDUP:
  assumes "unat a + 4095 < 2 ^ 32"
  shows "unat (PGROUNDUP a) = (unat a + 4095) div 4096 * 4096"
proof -
  have "unat (a + PGSIZE - 1) = unat a + 4095"
    using assms by (simp add: PGSIZE_def unat_word_ariths)
  then show ?thesis unfolding PGROUNDUP_def pgsize_mask unat_and_not_mask by simp
qed

section \<open>State\<close>

record kmem =
  km_lock :: bool
  km_use_lock :: bool
  km_freelist :: u32
  km_mem :: mem
  km_end :: u32

definition acquire_km :: "kmem \<Rightarrow> kmem option" where
  "acquire_km k = (if km_use_lock k then if km_lock k then None else Some (k\<lparr>km_lock := True\<rparr>) else Some k)"

definition release_km :: "kmem \<Rightarrow> kmem option" where
  "release_km k = (if km_use_lock k then if km_lock k then Some (k\<lparr>km_lock := False\<rparr>) else panic ''release'' else Some k)"

definition kfree :: "u32 \<Rightarrow> kmem \<Rightarrow> kmem option" where
  "kfree v k =
    (if v mod PGSIZE \<noteq> 0 \<or> v < km_end k \<or> PHYSTOP \<le> V2P v then panic ''kfree''
     else do {
       let k = k\<lparr>km_mem := memset (km_mem k) (unat v) 1 (unat PGSIZE)\<rparr>;
       k \<leftarrow> acquire_km k;
       let k = k\<lparr>km_mem := wr32 (km_mem k) (unat v) (km_freelist k)\<rparr>;
       release_km (k\<lparr>km_freelist := v\<rparr>)
     })"

definition kalloc :: "kmem \<Rightarrow> (u32 \<times> kmem) option" where
  "kalloc k = do {
     k \<leftarrow> acquire_km k;
     let r = km_freelist k;
     let k = (if r \<noteq> 0 then k\<lparr>km_freelist := rd32 (km_mem k) (unat r)\<rparr> else k);
     k \<leftarrow> release_km k;
     Some (r, k)
   }"

text \<open>The pages that lie between the two addresses; the first argument of the loop is their number.\<close>

fun free_pages :: "nat \<Rightarrow> u32 \<Rightarrow> kmem \<Rightarrow> kmem option" where
  "free_pages 0 p k = Some k"
| "free_pages (Suc n) p k = do { k \<leftarrow> kfree p k; free_pages n (p + PGSIZE) k }"

definition freerange :: "u32 \<Rightarrow> u32 \<Rightarrow> kmem \<Rightarrow> kmem option" where
  "freerange vstart vend k = (let p = PGROUNDUP vstart in free_pages ((unat vend - unat p) div unat PGSIZE) p k)"

definition kinit1 :: "u32 \<Rightarrow> u32 \<Rightarrow> kmem \<Rightarrow> kmem option" where
  "kinit1 vstart vend k = freerange vstart vend (k\<lparr>km_lock := False, km_use_lock := False\<rparr>)"

definition kinit2 :: "u32 \<Rightarrow> u32 \<Rightarrow> kmem \<Rightarrow> kmem option" where
  "kinit2 vstart vend k = do { k \<leftarrow> freerange vstart vend k; Some (k\<lparr>km_use_lock := True\<rparr>) }"

section \<open>The free list\<close>

text \<open>The pages that the allocator may hand out.\<close>

definition page_ok :: "kmem \<Rightarrow> u32 \<Rightarrow> bool" where
  "page_ok k v = (v mod PGSIZE = 0 \<and> km_end k \<le> v \<and> V2P v < PHYSTOP \<and> KERNBASE < km_end k)"

fun chain :: "mem \<Rightarrow> u32 \<Rightarrow> u32 list \<Rightarrow> bool" where
  "chain m p [] = (p = 0)"
| "chain m p (q # qs) = (p = q \<and> q \<noteq> 0 \<and> chain m (rd32 m (unat q)) qs)"

definition kmem_ok :: "kmem \<Rightarrow> u32 list \<Rightarrow> bool" where
  "kmem_ok k ps = (\<not> km_lock k \<and> chain (km_mem k) (km_freelist k) ps \<and> distinct ps \<and> (\<forall>p \<in> set ps. page_ok k p))"

text \<open>The bytes of a page, and memories that differ in given pages only.\<close>

definition page_bytes :: "u32 \<Rightarrow> nat set" where
  "page_bytes p = {unat p ..< unat p + 4096}"

definition agree_off :: "u32 set \<Rightarrow> mem \<Rightarrow> mem \<Rightarrow> bool" where
  "agree_off P m m' = (\<forall>b. b \<notin> (\<Union>p \<in> P. page_bytes p) \<longrightarrow> m' b = m b)"

lemma agree_off_refl [simp]: "agree_off P m m"
  by (simp add: agree_off_def)

lemma agree_off_trans: "agree_off P m m' \<Longrightarrow> agree_off Q m' m'' \<Longrightarrow> agree_off (P \<union> Q) m m''"
  by (auto simp: agree_off_def)

lemma agree_off_mono: "agree_off P m m' \<Longrightarrow> P \<subseteq> Q \<Longrightarrow> agree_off Q m m'"
  by (auto simp: agree_off_def)

lemma page_ok_aligned:
  assumes "page_ok k p"
  shows "unat p mod 4096 = 0" "unat p + 4096 \<le> 2 ^ 32" "p \<noteq> 0" "2 ^ 31 \<le> unat p" "unat (V2P p) = unat p - 2 ^ 31"
proof -
  have "unat (p mod PGSIZE) = 0" using assms by (simp add: page_ok_def)
  then show m: "unat p mod 4096 = 0" by (simp add: unat_mod)
  have "KERNBASE \<le> p" using assms by (auto simp: page_ok_def)
  then show b: "2 ^ 31 \<le> unat p" by (simp add: KERNBASE_def word_le_nat_alt)
  then show "p \<noteq> 0" by auto
  obtain c where c: "unat p = 4096 * c" using m by auto
  moreover have "unat p < 4096 * 1048576" using unsigned_less [of p, where ?'a = nat] by simp
  ultimately show "unat p + 4096 \<le> 2 ^ 32" by simp
  show "unat (V2P p) = unat p - 2 ^ 31"
    using \<open>KERNBASE \<le> p\<close> unfolding V2P_def by (subst unat_sub) (simp_all add: KERNBASE_def)
qed

lemma page_disjoint:
  assumes "page_ok k p" "page_ok k q" "p \<noteq> q"
  shows "page_bytes p \<inter> page_bytes q = {}"
proof -
  have "unat p \<noteq> unat q" using assms(3) by (simp add: word_unat_eq_iff)
  moreover obtain c d where "unat p = 4096 * c" "unat q = 4096 * d" using page_ok_aligned(1) assms(1,2) by (metis dvd_def mod_0_imp_dvd)
  ultimately have "unat p + 4096 \<le> unat q \<or> unat q + 4096 \<le> unat p" by (simp add: neq_iff) linarith
  then show ?thesis by (auto simp: page_bytes_def)
qed

lemma rd32_agree:
  assumes "agree_off P m m'" "\<forall>q \<in> P. page_bytes p \<inter> page_bytes q = {}" "unat p \<le> a" "a + 4 \<le> unat p + 4096"
  shows "rd32 m' a = rd32 m a"
proof (rule rd32_cong)
  fix i :: nat assume "i < 4"
  then have "a + i \<in> page_bytes p" using assms(3,4) by (auto simp: page_bytes_def)
  then show "m' (a + i) = m (a + i)" using assms(1,2) by (auto simp: agree_off_def)
qed

lemma chain_frame:
  assumes "chain m p ps" "agree_off P m m'" "\<forall>p \<in> set ps. page_ok k p" "\<forall>q \<in> P. page_ok k q" "P \<inter> set ps = {}"
  shows "chain m' p ps"
  using assms(1,3,5)
proof (induction ps arbitrary: p)
  case (Cons r rs)
  have "\<forall>q \<in> P. page_bytes r \<inter> page_bytes q = {}"
    using Cons.prems(2,3) assms(4) by (intro ballI page_disjoint) auto
  then have "rd32 m' (unat r) = rd32 m (unat r)" by (rule rd32_agree [OF assms(2)]) simp_all
  then show ?case using Cons by simp
qed simp

text \<open>Writes to pages that are not free keep the free list.\<close>

lemma kmem_ok_frame:
  assumes "kmem_ok k ps" "agree_off P (km_mem k) m" "\<forall>q \<in> P. page_ok k q" "P \<inter> set ps = {}"
  shows "kmem_ok (k\<lparr>km_mem := m\<rparr>) ps"
  using assms chain_frame [of "km_mem k" "km_freelist k" ps P m k] by (auto simp: kmem_ok_def page_ok_def)

lemma kalloc_eq:
  assumes "kmem_ok k ps"
  shows "case ps of [] \<Rightarrow> kalloc k = Some (0, k)
    | q # qs \<Rightarrow> \<exists>k'. kalloc k = Some (q, k') \<and> kmem_ok k' qs \<and> km_mem k' = km_mem k \<and> km_end k' = km_end k \<and>
        km_use_lock k' = km_use_lock k \<and> q \<notin> set qs"
proof (cases ps)
  case Nil
  then have "km_freelist k = 0" "\<not> km_lock k" using assms by (auto simp: kmem_ok_def)
  then show ?thesis using Nil by (cases k) (auto simp: kalloc_def acquire_km_def release_km_def)
next
  case (Cons q qs)
  then have q: "km_freelist k = q" "q \<noteq> 0" "\<not> km_lock k" using assms by (auto simp: kmem_ok_def)
  have "kalloc k = Some (q, k\<lparr>km_freelist := rd32 (km_mem k) (unat q)\<rparr>)"
    using q by (cases k) (auto simp: kalloc_def acquire_km_def release_km_def)
  moreover have "kmem_ok (k\<lparr>km_freelist := rd32 (km_mem k) (unat q)\<rparr>) qs"
    using assms Cons by (auto simp: kmem_ok_def page_ok_def)
  ultimately show ?thesis using Cons assms by (auto simp: kmem_ok_def)
qed

lemma kfree_eq:
  assumes ok: "kmem_ok k ps" and v: "page_ok k v" "v \<notin> set ps"
  shows "\<exists>k'. kfree v k = Some k' \<and> kmem_ok k' (v # ps) \<and> agree_off {v} (km_mem k) (km_mem k') \<and> km_end k' = km_end k \<and>
    km_use_lock k' = km_use_lock k"
proof -
  define m where "m = wr32 (memset (km_mem k) (unat v) 1 4096) (unat v) (km_freelist k)"
  have nl: "\<not> km_lock k" using ok by (simp add: kmem_ok_def)
  have "\<not> (v mod PGSIZE \<noteq> 0 \<or> v < km_end k \<or> PHYSTOP \<le> V2P v)" using v(1) by (auto simp: page_ok_def)
  then have e: "kfree v k = Some (k\<lparr>km_mem := m, km_freelist := v\<rparr>)"
    using nl by (cases k) (simp add: kfree_def acquire_km_def release_km_def m_def Let_def)
  have ag: "agree_off {v} (km_mem k) m"
    by (auto simp: agree_off_def page_bytes_def m_def memset_eq wr32_other memset_m_def)
  have "kmem_ok (k\<lparr>km_mem := m\<rparr>) ps" by (rule kmem_ok_frame [OF ok ag]) (use v in auto)
  moreover have "rd32 m (unat v) = km_freelist k" by (simp add: m_def)
  ultimately have "kmem_ok (k\<lparr>km_mem := m, km_freelist := v\<rparr>) (v # ps)"
    using v page_ok_aligned(3) [OF v(1)] by (auto simp: kmem_ok_def page_ok_def)
  then show ?thesis using e ag by simp
qed

text \<open>What the initialisation puts on the list: the pages of the range, the last one first.\<close>

fun page_run :: "u32 \<Rightarrow> nat \<Rightarrow> u32 list" where
  "page_run p 0 = []"
| "page_run p (Suc n) = page_run (p + PGSIZE) n @ [p]"

lemma free_pages_ok:
  assumes "kmem_ok k ps" "\<forall>q \<in> set (page_run p n). page_ok k q" "distinct (page_run p n @ ps)"
  shows "\<exists>k'. free_pages n p k = Some k' \<and> kmem_ok k' (page_run p n @ ps) \<and> km_end k' = km_end k \<and> km_use_lock k' = km_use_lock k \<and>
    agree_off (set (page_run p n)) (km_mem k) (km_mem k')"
  using assms
proof (induction n arbitrary: k ps p)
  case (Suc n)
  from kfree_eq [OF Suc.prems(1), of p] Suc.prems(2,3) obtain k1 where k1: "kfree p k = Some k1" "kmem_ok k1 (p # ps)"
    "agree_off {p} (km_mem k) (km_mem k1)" "km_end k1 = km_end k" "km_use_lock k1 = km_use_lock k" by auto
  have "page_ok k1 = page_ok k" using k1(4) by (auto simp: page_ok_def fun_eq_iff)
  then have "\<forall>q \<in> set (page_run (p + PGSIZE) n). page_ok k1 q" using Suc.prems(2) by simp
  from Suc.IH [OF k1(2) this] Suc.prems(3) obtain k' where k': "free_pages n (p + PGSIZE) k1 = Some k'"
    "kmem_ok k' (page_run (p + PGSIZE) n @ p # ps)" "km_end k' = km_end k1" "km_use_lock k' = km_use_lock k1"
    "agree_off (set (page_run (p + PGSIZE) n)) (km_mem k1) (km_mem k')" by auto
  show ?case using k1 k' agree_off_trans [OF k1(3) k'(5)] by (intro exI [of _ k']) simp
qed simp

lemma freerange_ok:
  assumes "kmem_ok k ps" "n = (unat vend - unat (PGROUNDUP vstart)) div 4096"
    "\<forall>q \<in> set (page_run (PGROUNDUP vstart) n). page_ok k q" "distinct (page_run (PGROUNDUP vstart) n @ ps)"
  shows "\<exists>k'. freerange vstart vend k = Some k' \<and> kmem_ok k' (page_run (PGROUNDUP vstart) n @ ps) \<and> km_end k' = km_end k \<and>
    agree_off (set (page_run (PGROUNDUP vstart) n)) (km_mem k) (km_mem k')"
  using free_pages_ok [OF assms(1,3,4)] assms(2) by (auto simp: freerange_def Let_def)

end
