(* ===== verification/Vm.thy ===== *)
theory Vm
  imports Kalloc
begin

text \<open>
  Virtual memory (\<^verbatim>\<open>CS_537_P5/vm.c\<close>): the two-level page tables of the processor, which live in pages of the
  allocator, and the operations that build, grow, shrink, copy and free the memory of a process. A page table is what
  \<^verbatim>\<open>walkpgdir\<close> finds in memory; its abstract reading is a map from virtual pages to entries.
  Loops over addresses are given enough fuel for the whole address space; that it is enough is part of what is proved.
\<close>

section \<open>Entries\<close>

definition MMAPBASE :: u32 where "MMAPBASE = 0x60000000"
definition EXTMEM :: u32 where "EXTMEM = 0x100000"
definition DEVSPACE :: u32 where "DEVSPACE = 0xFE000000"

definition PTE_P :: u32 where "PTE_P = 1"
definition PTE_W :: u32 where "PTE_W = 2"
definition PTE_U :: u32 where "PTE_U = 4"

definition PTE_ADDR :: "u32 \<Rightarrow> u32" where "PTE_ADDR pte = pte AND NOT 0xFFF"
definition PTE_FLAGS :: "u32 \<Rightarrow> u32" where "PTE_FLAGS pte = pte AND 0xFFF"

definition PDX :: "u32 \<Rightarrow> nat" where "PDX va = unat (drop_bit 22 va AND 0x3FF)"
definition PTX :: "u32 \<Rightarrow> nat" where "PTX va = unat (drop_bit 12 va AND 0x3FF)"
definition PGADDR :: "nat \<Rightarrow> u32 \<Rightarrow> u32 \<Rightarrow> u32" where "PGADDR d t o' = push_bit 22 (word_of_nat d) OR push_bit 12 t OR o'"

section \<open>Page tables\<close>

abbreviation load32 :: "kmem \<Rightarrow> nat \<Rightarrow> u32" where
  "load32 k a \<equiv> rd32 (km_mem k) a"

definition store32 :: "nat \<Rightarrow> u32 \<Rightarrow> kmem \<Rightarrow> kmem" where
  "store32 a v k = k\<lparr>km_mem := wr32 (km_mem k) a v\<rparr>"

definition clear_page :: "u32 \<Rightarrow> kmem \<Rightarrow> kmem" where
  "clear_page p k = k\<lparr>km_mem := memset (km_mem k) (unat p) 0 (unat PGSIZE)\<rparr>"

text \<open>The address of the entry, 0 when there is none.\<close>

definition walkpgdir :: "u32 \<Rightarrow> u32 \<Rightarrow> bool \<Rightarrow> kmem \<Rightarrow> (u32 \<times> kmem) option" where
  "walkpgdir pgdir va alloc k =
    (let pde = unat pgdir + 4 * PDX va in
     if load32 k pde AND PTE_P \<noteq> 0 then Some (P2V (PTE_ADDR (load32 k pde)) + word_of_nat (4 * PTX va), k)
     else if \<not> alloc then Some (0, k)
     else do {
       (pgtab, k) \<leftarrow> kalloc k;
       if pgtab = 0 then Some (0, k)
       else Some (pgtab + word_of_nat (4 * PTX va), store32 pde (V2P pgtab OR PTE_P OR PTE_W OR PTE_U) (clear_page pgtab k))
     })"

fun map_loop :: "nat \<Rightarrow> u32 \<Rightarrow> u32 \<Rightarrow> u32 \<Rightarrow> u32 \<Rightarrow> u32 \<Rightarrow> kmem \<Rightarrow> (int \<times> kmem) option" where
  "map_loop 0 pgdir a final pa perm k = None"
| "map_loop (Suc n) pgdir a final pa perm k = do {
     (pte, k) \<leftarrow> walkpgdir pgdir a True k;
     if pte = 0 then Some (-1, k)
     else if load32 k (unat pte) AND PTE_P \<noteq> 0 then panic ''remap''
     else (let k = store32 (unat pte) (pa OR perm OR PTE_P) k in
       if a = final then Some (0, k) else map_loop n pgdir (a + PGSIZE) final (pa + PGSIZE) perm k)
   }"

text \<open>There are at most \<open>unat (final - a) div 4096 + 1\<close> turns.\<close>

definition mappages :: "u32 \<Rightarrow> u32 \<Rightarrow> u32 \<Rightarrow> u32 \<Rightarrow> u32 \<Rightarrow> kmem \<Rightarrow> (int \<times> kmem) option" where
  "mappages pgdir va sz pa perm k =
    (let a = PGROUNDDOWN va; final = PGROUNDDOWN (va + sz - 1) in
     map_loop (Suc (unat (final - a) div 4096)) pgdir a final pa perm k)"

section \<open>The memory of a process\<close>

fun dealloc_loop :: "nat \<Rightarrow> u32 \<Rightarrow> u32 \<Rightarrow> u32 \<Rightarrow> kmem \<Rightarrow> kmem option" where
  "dealloc_loop 0 pgdir a oldsz k = None"
| "dealloc_loop (Suc n) pgdir a oldsz k =
    (if a < oldsz then do {
       (pte, k) \<leftarrow> walkpgdir pgdir a False k;
       if pte = 0 then dealloc_loop n pgdir (PGADDR (PDX a + 1) 0 0 - PGSIZE + PGSIZE) oldsz k
       else if load32 k (unat pte) AND PTE_P \<noteq> 0 then do {
         let pa = PTE_ADDR (load32 k (unat pte));
         if pa = 0 then panic ''kfree''
         else do {
           k \<leftarrow> kfree (P2V pa) k;
           dealloc_loop n pgdir (a + PGSIZE) oldsz (store32 (unat pte) 0 k)
         }
       }
       else dealloc_loop n pgdir (a + PGSIZE) oldsz k
     } else Some k)"

text \<open>The loop visits at most the pages below \<open>oldsz\<close>.\<close>

definition page_fuel :: "u32 \<Rightarrow> nat" where
  "page_fuel sz = unat sz div 4096 + 2"

definition deallocuvm :: "u32 \<Rightarrow> u32 \<Rightarrow> u32 \<Rightarrow> kmem \<Rightarrow> (u32 \<times> kmem) option" where
  "deallocuvm pgdir oldsz newsz k =
    (if oldsz \<le> newsz then Some (oldsz, k)
     else do {
       k \<leftarrow> dealloc_loop (page_fuel oldsz) pgdir (PGROUNDUP newsz) oldsz k;
       Some (newsz, k)
     })"

fun alloc_loop :: "nat \<Rightarrow> u32 \<Rightarrow> u32 \<Rightarrow> u32 \<Rightarrow> u32 \<Rightarrow> kmem \<Rightarrow> (u32 \<times> kmem) option" where
  "alloc_loop 0 pgdir a oldsz newsz k = None"
| "alloc_loop (Suc n) pgdir a oldsz newsz k =
    (if a < newsz then do {
       (mem, k) \<leftarrow> kalloc k;
       if mem = 0 then do {
         (_, k) \<leftarrow> deallocuvm pgdir newsz oldsz k;
         Some (0, k)
       }
       else do {
         (r, k) \<leftarrow> mappages pgdir a PGSIZE (V2P mem) (PTE_W OR PTE_U) (clear_page mem k);
         if r < 0 then do {
           (_, k) \<leftarrow> deallocuvm pgdir newsz oldsz k;
           k \<leftarrow> kfree mem k;
           Some (0, k)
         }
         else alloc_loop n pgdir (a + PGSIZE) oldsz newsz k
       }
     } else Some (newsz, k))"

definition allocuvm :: "u32 \<Rightarrow> u32 \<Rightarrow> u32 \<Rightarrow> kmem \<Rightarrow> (u32 \<times> kmem) option" where
  "allocuvm pgdir oldsz newsz k =
    (if MMAPBASE \<le> newsz then Some (0, k)
     else if newsz < oldsz then Some (oldsz, k)
     else alloc_loop (page_fuel newsz) pgdir (PGROUNDUP oldsz) oldsz newsz k)"

fun free_tables :: "u32 \<Rightarrow> nat list \<Rightarrow> kmem \<Rightarrow> kmem option" where
  "free_tables pgdir [] k = Some k"
| "free_tables pgdir (i # is) k = do {
     let pde = load32 k (unat pgdir + 4 * i);
     k \<leftarrow> (if pde AND PTE_P \<noteq> 0 then kfree (P2V (PTE_ADDR pde)) k else Some k);
     free_tables pgdir is k
   }"

definition freevm :: "u32 \<Rightarrow> kmem \<Rightarrow> kmem option" where
  "freevm pgdir k =
    (if pgdir = 0 then panic ''freevm: no pgdir''
     else do {
       (_, k) \<leftarrow> deallocuvm pgdir MMAPBASE 0 k;
       k \<leftarrow> free_tables pgdir [0..<1024] k;
       kfree pgdir k
     })"

text \<open>The kernel's mappings; the address of \<^verbatim>\<open>data\<close> comes from the linker.\<close>

definition kmap :: "u32 \<Rightarrow> (u32 \<times> u32 \<times> u32 \<times> u32) list" where
  "kmap data = [(KERNBASE, 0, EXTMEM, PTE_W), (KERNBASE + EXTMEM, V2P (KERNBASE + EXTMEM), V2P data, 0),
     (data, V2P data, PHYSTOP, PTE_W), (DEVSPACE, DEVSPACE, 0, PTE_W)]"

fun map_kernel :: "u32 \<Rightarrow> (u32 \<times> u32 \<times> u32 \<times> u32) list \<Rightarrow> kmem \<Rightarrow> (u32 \<times> kmem) option" where
  "map_kernel pgdir [] k = Some (pgdir, k)"
| "map_kernel pgdir ((virt, phys_start, phys_end, perm) # ks) k = do {
     (r, k) \<leftarrow> mappages pgdir virt (phys_end - phys_start) phys_start perm k;
     if r < 0 then do { k \<leftarrow> freevm pgdir k; Some (0, k) }
     else map_kernel pgdir ks k
   }"

definition setupkvm :: "u32 \<Rightarrow> kmem \<Rightarrow> (u32 \<times> kmem) option" where
  "setupkvm data k = do {
     (pgdir, k) \<leftarrow> kalloc k;
     if pgdir = 0 then Some (0, k)
     else do {
       let k = clear_page pgdir k;
       if DEVSPACE < P2V PHYSTOP then panic ''PHYSTOP too high'' else map_kernel pgdir (kmap data) k
     }
   }"

text \<open>A page that could not be allocated is written to at once.\<close>

definition inituvm :: "u32 \<Rightarrow> u8 list \<Rightarrow> kmem \<Rightarrow> kmem option" where
  "inituvm pgdir init k =
    (if unat PGSIZE \<le> length init then panic ''inituvm: more than a page''
     else do {
       (mem, k) \<leftarrow> kalloc k;
       if mem = 0 then None
       else do {
         (r, k) \<leftarrow> mappages pgdir 0 PGSIZE (V2P mem) (PTE_W OR PTE_U) (clear_page mem k);
         Some (k\<lparr>km_mem := wr_bytes (km_mem k) (unat mem) init\<rparr>)
       }
     })"

text \<open>\<open>readi off n\<close> is what the inode layer returns for \<open>n\<close> bytes at offset \<open>off\<close>, and the bytes it stores.\<close>

fun load_loop :: "nat \<Rightarrow> (u32 \<Rightarrow> u32 \<Rightarrow> int \<times> u8 list) \<Rightarrow> u32 \<Rightarrow> u32 \<Rightarrow> u32 \<Rightarrow> u32 \<Rightarrow> u32 \<Rightarrow> kmem \<Rightarrow> (int \<times> kmem) option" where
  "load_loop 0 readi pgdir addr offset sz i k = None"
| "load_loop (Suc f) readi pgdir addr offset sz i k =
    (if i < sz then do {
       (pte, k) \<leftarrow> walkpgdir pgdir (addr + i) False k;
       if pte = 0 then panic ''loaduvm: address should exist''
       else do {
         let pa = PTE_ADDR (load32 k (unat pte));
         let n = (if sz - i < PGSIZE then sz - i else PGSIZE);
         let (r, bs) = readi (offset + i) n;
         let k = k\<lparr>km_mem := wr_bytes (km_mem k) (unat (P2V pa)) bs\<rparr>;
         if r \<noteq> uint n then Some (-1, k) else load_loop f readi pgdir addr offset sz (i + PGSIZE) k
       }
     } else Some (0, k))"

definition loaduvm :: "(u32 \<Rightarrow> u32 \<Rightarrow> int \<times> u8 list) \<Rightarrow> u32 \<Rightarrow> u32 \<Rightarrow> u32 \<Rightarrow> u32 \<Rightarrow> kmem \<Rightarrow> (int \<times> kmem) option" where
  "loaduvm readi pgdir addr offset sz k =
    (if addr mod PGSIZE \<noteq> 0 then panic ''loaduvm: addr must be page aligned''
     else load_loop (page_fuel sz) readi pgdir addr offset sz 0 k)"

definition clearpteu :: "u32 \<Rightarrow> u32 \<Rightarrow> kmem \<Rightarrow> kmem option" where
  "clearpteu pgdir uva k = do {
     (pte, k) \<leftarrow> walkpgdir pgdir uva False k;
     if pte = 0 then panic ''clearpteu'' else Some (store32 (unat pte) (load32 k (unat pte) AND NOT PTE_U) k)
   }"

fun copy_loop :: "nat \<Rightarrow> u32 \<Rightarrow> u32 \<Rightarrow> u32 \<Rightarrow> u32 \<Rightarrow> kmem \<Rightarrow> (u32 \<times> kmem) option" where
  "copy_loop 0 d pgdir sz i k = None"
| "copy_loop (Suc n) d pgdir sz i k =
    (if i < sz then do {
       (pte, k) \<leftarrow> walkpgdir pgdir i False k;
       if pte = 0 then panic ''copyuvm: pte should exist''
       else if load32 k (unat pte) AND PTE_P = 0 then panic ''copyuvm: page not present''
       else do {
         let pa = PTE_ADDR (load32 k (unat pte));
         let flags = PTE_FLAGS (load32 k (unat pte));
         (mem, k) \<leftarrow> kalloc k;
         if mem = 0 then do { k \<leftarrow> freevm d k; Some (0, k) }
         else do {
           let k = k\<lparr>km_mem := memmove (km_mem k) (unat mem) (unat (P2V pa)) (unat PGSIZE)\<rparr>;
           (r, k) \<leftarrow> mappages d i PGSIZE (V2P mem) flags k;
           if r < 0 then do { k \<leftarrow> kfree mem k; k \<leftarrow> freevm d k; Some (0, k) }
           else copy_loop n d pgdir sz (i + PGSIZE) k
         }
       }
     } else Some (d, k))"

definition copyuvm :: "u32 \<Rightarrow> u32 \<Rightarrow> u32 \<Rightarrow> kmem \<Rightarrow> (u32 \<times> kmem) option" where
  "copyuvm data pgdir sz k = do {
     (d, k) \<leftarrow> setupkvm data k;
     if d = 0 then Some (0, k) else copy_loop (page_fuel sz) d pgdir sz 0 k
   }"

text \<open>An address without a page table is a null dereference.\<close>

definition uva2ka :: "u32 \<Rightarrow> u32 \<Rightarrow> kmem \<Rightarrow> (u32 \<times> kmem) option" where
  "uva2ka pgdir uva k = do {
     (pte, k) \<leftarrow> walkpgdir pgdir uva False k;
     if pte = 0 then None
     else if load32 k (unat pte) AND PTE_P = 0 then Some (0, k)
     else if load32 k (unat pte) AND PTE_U = 0 then Some (0, k)
     else Some (P2V (PTE_ADDR (load32 k (unat pte))), k)
   }"

fun copyout_loop :: "nat \<Rightarrow> u32 \<Rightarrow> u32 \<Rightarrow> u8 list \<Rightarrow> kmem \<Rightarrow> (int \<times> kmem) option" where
  "copyout_loop 0 pgdir va bs k = None"
| "copyout_loop (Suc f) pgdir va bs k =
    (if bs \<noteq> [] then do {
       let va0 = PGROUNDDOWN va;
       (pa0, k) \<leftarrow> uva2ka pgdir va0 k;
       if pa0 = 0 then Some (-1, k)
       else do {
         let n = min (unat (PGSIZE - (va - va0))) (length bs);
         let k = k\<lparr>km_mem := wr_bytes (km_mem k) (unat (pa0 + (va - va0))) (take n bs)\<rparr>;
         copyout_loop f pgdir (va0 + PGSIZE) (drop n bs) k
       }
     } else Some (0, k))"

definition copyout :: "u32 \<Rightarrow> u32 \<Rightarrow> u8 list \<Rightarrow> kmem \<Rightarrow> (int \<times> kmem) option" where
  "copyout pgdir va bs k = copyout_loop (length bs div 4096 + 3) pgdir va bs k"

end
