(* ===== verification/Page_Table.thy ===== *)
theory Page_Table
  imports Vm
begin

text \<open>
  Page tables as maps. The entry of a virtual address is read off the two levels in memory; under a
  well-formedness invariant (directory and tables are distinct pages that are not free) a store to an entry
  changes the entries of that virtual page and nothing else, and the operations of \<^verbatim>\<open>vm.c\<close> act on the map.
\<close>

section \<open>Bits of addresses and entries\<close>

lemma mask12: "(0xFFF :: u32) = mask 12"
  by (simp add: mask_eq_exp_minus_1)

lemma mask10: "(0x3FF :: u32) = mask 10"
  by (simp add: mask_eq_exp_minus_1)

lemma unat_and_mask: "unat (a AND mask k :: u32) = unat a mod 2 ^ k"
  unfolding take_bit_eq_mask [symmetric] unsigned_take_bit_eq by (simp add: take_bit_eq_mod)

lemma unat_drop: "unat (drop_bit k a :: u32) = unat a div 2 ^ k"
  unfolding unat_drop_bit_eq by (simp add: drop_bit_eq_div)

lemma PDX_eq: "PDX va = unat va div 4194304"
proof -
  have "unat va < 4294967296" using unsigned_less [of va, where ?'a = nat] by simp
  then have "unat va div 4194304 < 1024" by (simp add: less_mult_imp_div_less)
  then show ?thesis unfolding PDX_def mask10 unat_and_mask unat_drop by simp
qed

lemma PTX_eq: "PTX va = unat va div 4096 mod 1024"
  unfolding PTX_def mask10 unat_and_mask unat_drop by simp

lemma PDX_less [simp]: "PDX va < 1024"
  unfolding PDX_def mask10 unat_and_mask by simp

lemma PTX_less [simp]: "PTX va < 1024"
  by (simp add: PTX_eq)

definition vpn :: "u32 \<Rightarrow> nat" where
  "vpn va = unat va div 4096"

lemma same_slot: "PDX va = PDX va' \<and> PTX va = PTX va' \<longleftrightarrow> vpn va = vpn va'"
proof -
  have "PDX va = vpn va div 1024" "PTX va = vpn va mod 1024" for va
    by (simp_all add: PDX_eq PTX_eq vpn_def div_mult2_eq [symmetric])
  then show ?thesis by (metis div_mult_mod_eq)
qed

lemma unat_PTE_ADDR: "unat (PTE_ADDR e) = unat e div 4096 * 4096"
  unfolding PTE_ADDR_def mask12 unat_and_not_mask by simp

lemma PTE_ADDR_aligned: "unat p mod 4096 = 0 \<Longrightarrow> PTE_ADDR p = p"
  by (rule word_unat_eq_iff [THEN iffD2]) (simp only: unat_PTE_ADDR, metis add_0_right div_mult_mod_eq)

lemma pte_parts:
  assumes "PTE_ADDR p = p" "PTE_FLAGS f = f"
  shows "PTE_ADDR (p OR f) = p" "PTE_FLAGS (p OR f) = f"
proof -
  have p: "bit p n \<Longrightarrow> 12 \<le> n" for n
    using arg_cong [OF assms(1), of "\<lambda>x. bit x n"] unfolding PTE_ADDR_def mask12 by (auto simp: bit_simps)
  have f: "bit f n \<Longrightarrow> n < 12" for n
    using arg_cong [OF assms(2), of "\<lambda>x. bit x n"] unfolding PTE_FLAGS_def mask12 by (auto simp: bit_simps)
  show "PTE_ADDR (p OR f) = p" unfolding PTE_ADDR_def mask12
    by (rule bit_word_eqI) (use p f in \<open>auto simp: bit_simps dest: leD\<close>)
  show "PTE_FLAGS (p OR f) = f" unfolding PTE_FLAGS_def mask12
    by (rule bit_word_eqI) (use p f in \<open>auto simp: bit_simps dest: leD\<close>)
qed

definition present :: "u32 \<Rightarrow> bool" where
  "present e = (e AND PTE_P \<noteq> 0)"

lemma present_odd: "present e \<longleftrightarrow> bit e 0"
  by (simp add: present_def PTE_P_def and_one_eq bit_0 odd_iff_mod_2_eq_one even_iff_mod_2_eq_zero)

lemma present_0 [simp]: "\<not> present 0"
  by (simp add: present_def)

lemma present_or [simp]: "present (x OR PTE_P)"
  by (simp add: present_odd bit_simps PTE_P_def)

lemma low_flags: "PTE_FLAGS (PTE_P OR PTE_W OR PTE_U) = PTE_P OR PTE_W OR PTE_U"
  by (simp add: PTE_FLAGS_def PTE_P_def PTE_W_def PTE_U_def)

lemma frame_word:
  assumes "page_ok k p"
  shows "PTE_ADDR (V2P p) = V2P p" "i < 1024 \<Longrightarrow> unat (p + word_of_nat (4 * i)) = unat p + 4 * i"
proof -
  note P = page_ok_aligned [OF assms]
  obtain c where c: "unat p = 4096 * c" using P(1) by auto
  have "(4096 * c - 2 ^ 31) mod 4096 = (0 :: nat)"
  proof -
    have "4096 * c - 2 ^ 31 = 4096 * (c - 524288)" by simp
    then show ?thesis by (simp only: mod_mult_self1_is_0)
  qed
  then show "PTE_ADDR (V2P p) = V2P p" using P(5) c by (intro PTE_ADDR_aligned) simp
  assume "i < 1024"
  then have "unat p + 4 * i < 2 ^ 32" using P(2) by simp
  then show "unat (p + word_of_nat (4 * i)) = unat p + 4 * i" by (simp add: unat_word_ariths unsigned_of_nat take_bit_nat_eq_self)
qed

section \<open>The map\<close>

abbreviation pde_at :: "kmem \<Rightarrow> u32 \<Rightarrow> nat \<Rightarrow> u32" where
  "pde_at k pgdir i \<equiv> load32 k (unat pgdir + 4 * i)"

definition ptab :: "kmem \<Rightarrow> u32 \<Rightarrow> nat \<Rightarrow> u32" where
  "ptab k pgdir i = P2V (PTE_ADDR (pde_at k pgdir i))"

definition tabs :: "kmem \<Rightarrow> u32 \<Rightarrow> nat set" where
  "tabs k pgdir = {i. i < 1024 \<and> present (pde_at k pgdir i)}"

text \<open>The entry of a virtual address, 0 where there is no table.\<close>

definition pte_of :: "kmem \<Rightarrow> u32 \<Rightarrow> u32 \<Rightarrow> u32" where
  "pte_of k pgdir va = (if PDX va \<in> tabs k pgdir then load32 k (unat (ptab k pgdir (PDX va)) + 4 * PTX va) else 0)"

definition tables :: "kmem \<Rightarrow> u32 \<Rightarrow> u32 set" where
  "tables k pgdir = insert pgdir (ptab k pgdir ` tabs k pgdir)"

definition vm_ok :: "kmem \<Rightarrow> u32 list \<Rightarrow> u32 \<Rightarrow> bool" where
  "vm_ok k ps pgdir = (kmem_ok k ps \<and> (\<forall>t \<in> tables k pgdir. page_ok k t) \<and> pgdir \<notin> ptab k pgdir ` tabs k pgdir \<and>
     inj_on (ptab k pgdir) (tabs k pgdir) \<and> tables k pgdir \<inter> set ps = {})"

lemma vm_okD:
  assumes "vm_ok k ps pgdir"
  shows "kmem_ok k ps" "page_ok k pgdir" "i \<in> tabs k pgdir \<Longrightarrow> page_ok k (ptab k pgdir i)" "i \<in> tabs k pgdir \<Longrightarrow> ptab k pgdir i \<noteq> pgdir"
    "i \<in> tabs k pgdir \<Longrightarrow> j \<in> tabs k pgdir \<Longrightarrow> ptab k pgdir i = ptab k pgdir j \<Longrightarrow> i = j"
    "pgdir \<notin> set ps" "i \<in> tabs k pgdir \<Longrightarrow> ptab k pgdir i \<notin> set ps"
proof -
  have D: "kmem_ok k ps" "\<forall>t \<in> tables k pgdir. page_ok k t" "pgdir \<notin> ptab k pgdir ` tabs k pgdir"
      "inj_on (ptab k pgdir) (tabs k pgdir)" "tables k pgdir \<inter> set ps = {}"
    using assms by (simp_all add: vm_ok_def)
  show "kmem_ok k ps" by (rule D)
  show "page_ok k pgdir" "pgdir \<notin> set ps" using D(2,5) by (auto simp: tables_def)
  show "i \<in> tabs k pgdir \<Longrightarrow> page_ok k (ptab k pgdir i)" "i \<in> tabs k pgdir \<Longrightarrow> ptab k pgdir i \<notin> set ps"
    using D(2,5) by (auto simp: tables_def)
  show "i \<in> tabs k pgdir \<Longrightarrow> ptab k pgdir i \<noteq> pgdir" using D(3) by (metis imageI)
  show "i \<in> tabs k pgdir \<Longrightarrow> j \<in> tabs k pgdir \<Longrightarrow> ptab k pgdir i = ptab k pgdir j \<Longrightarrow> i = j" using D(4) by (rule inj_onD)
qed

lemma tabs_less: "i \<in> tabs k pgdir \<Longrightarrow> i < 1024"
  by (simp add: tabs_def)

lemma page_ok_mem [simp]: "page_ok (k\<lparr>km_mem := m\<rparr>) p = page_ok k p" "page_ok (store32 a v k) p = page_ok k p" "page_ok (clear_page q k) p = page_ok k p"
  by (simp_all add: page_ok_def store32_def clear_page_def)

text \<open>The map is a function of the pages of the table.\<close>

lemma table_frame:
  assumes ok: "vm_ok k ps pgdir" and ag: "agree_off P (km_mem k) (km_mem k')" and dis: "P \<inter> tables k pgdir = {}" and pk: "\<forall>p \<in> P. page_ok k p"
  shows "tabs k' pgdir = tabs k pgdir" "i < 1024 \<Longrightarrow> ptab k' pgdir i = ptab k pgdir i"
    "pte_of k' pgdir va = pte_of k pgdir va" "tables k' pgdir = tables k pgdir"
proof -
  have rd: "load32 k' (unat t + 4 * i) = load32 k (unat t + 4 * i)" if "t \<in> tables k pgdir" "i < 1024" for t i
  proof (rule rd32_agree [OF ag])
    have "page_ok k t" using ok that(1) by (auto simp: vm_ok_def)
    then show "\<forall>q \<in> P. page_bytes t \<inter> page_bytes q = {}" using that(1) dis pk by (intro ballI page_disjoint) auto
  qed (use that(2) in simp_all)
  have pde: "pde_at k' pgdir i = pde_at k pgdir i" if "i < 1024" for i using rd [of pgdir i] that by (simp add: tables_def)
  show t: "tabs k' pgdir = tabs k pgdir" using pde by (auto simp: tabs_def)
  show pt: "i < 1024 \<Longrightarrow> ptab k' pgdir i = ptab k pgdir i" for i using pde by (simp add: ptab_def)
  show "pte_of k' pgdir va = pte_of k pgdir va"
    using rd [of "ptab k pgdir (PDX va)" "PTX va"] by (auto simp: pte_of_def t pt tables_def)
  show "tables k' pgdir = tables k pgdir" using pt tabs_less by (auto simp: tables_def t image_iff)
qed

lemma vm_ok_frame:
  assumes ok: "vm_ok k ps pgdir" and ag: "agree_off P (km_mem k) (km_mem k')" and dis: "P \<inter> tables k pgdir = {}" and pk: "\<forall>p \<in> P. page_ok k p"
    and km: "kmem_ok k' qs" "km_end k' = km_end k" "tables k pgdir \<inter> set qs = {}"
  shows "vm_ok k' qs pgdir"
proof -
  note F = table_frame [OF ok ag dis pk]
  have "page_ok k' = page_ok k" using km(2) by (auto simp: page_ok_def fun_eq_iff)
  moreover have "ptab k' pgdir ` tabs k pgdir = ptab k pgdir ` tabs k pgdir" "inj_on (ptab k' pgdir) (tabs k pgdir) = inj_on (ptab k pgdir) (tabs k pgdir)"
    using F(2) tabs_less by (auto intro!: image_cong inj_on_cong)
  ultimately show ?thesis using ok km F(1,4) by (auto simp: vm_ok_def)
qed

section \<open>Walking and storing\<close>

lemma walk_found:
  assumes "vm_ok k ps pgdir" "PDX va \<in> tabs k pgdir"
  shows "walkpgdir pgdir va alloc k = Some (ptab k pgdir (PDX va) + word_of_nat (4 * PTX va), k)"
    "unat (ptab k pgdir (PDX va) + word_of_nat (4 * PTX va)) = unat (ptab k pgdir (PDX va)) + 4 * PTX va"
    "ptab k pgdir (PDX va) + word_of_nat (4 * PTX va) \<noteq> 0"
proof -
  note p = vm_okD(3) [OF assms]
  show "walkpgdir pgdir va alloc k = Some (ptab k pgdir (PDX va) + word_of_nat (4 * PTX va), k)"
    using assms(2) by (simp add: walkpgdir_def tabs_def present_def ptab_def Let_def)
  show u: "unat (ptab k pgdir (PDX va) + word_of_nat (4 * PTX va)) = unat (ptab k pgdir (PDX va)) + 4 * PTX va"
    by (rule frame_word(2) [OF p]) simp
  have "0 < unat (ptab k pgdir (PDX va))" using page_ok_aligned(4) [OF p] by simp
  then show "ptab k pgdir (PDX va) + word_of_nat (4 * PTX va) \<noteq> 0" using u by (metis add_is_0 less_irrefl unat_0)
qed

lemma walk_missing:
  assumes "vm_ok k ps pgdir" "PDX va \<notin> tabs k pgdir"
  shows "walkpgdir pgdir va False k = Some (0, k)"
  using assms(2) by (simp add: walkpgdir_def tabs_def present_def Let_def)

lemma agree_store:
  assumes "unat t \<le> a" "a + 4 \<le> unat t + 4096"
  shows "agree_off {t} (km_mem k) (km_mem (store32 a v k))"
  using assms by (auto simp: agree_off_def page_bytes_def store32_def intro!: wr32_other)

text \<open>A store to the entry of \<open>va\<close>.\<close>

lemma set_pte:
  fixes e :: u32
  assumes ok: "vm_ok k ps pgdir" and i: "PDX va \<in> tabs k pgdir"
  defines "k' \<equiv> store32 (unat (ptab k pgdir (PDX va)) + 4 * PTX va) e k"
  shows "vm_ok k' ps pgdir" "pte_of k' pgdir va' = (if vpn va' = vpn va then e else pte_of k pgdir va')" "tables k' pgdir = tables k pgdir"
    "tabs k' pgdir = tabs k pgdir" "agree_off (tables k pgdir) (km_mem k) (km_mem k')"
proof -
  let ?t = "ptab k pgdir (PDX va)"
  note V = vm_okD [OF ok]
  have ag: "agree_off {?t} (km_mem k) (km_mem k')" unfolding k'_def by (rule agree_store) (use PTX_less [of va] in linarith)+
  then show "agree_off (tables k pgdir) (km_mem k) (km_mem k')" by (rule agree_off_mono) (use i in \<open>auto simp: tables_def\<close>)
  have rd: "load32 k' (unat t + 4 * j) = load32 k (unat t + 4 * j)" if "page_ok k t" "t \<noteq> ?t" "j < 1024" for t j
    by (rule rd32_agree [OF ag, of t]) (use that page_disjoint [OF that(1) V(3) [OF i]] in auto)
  have pde: "pde_at k' pgdir j = pde_at k pgdir j" if "j < 1024" for j using rd [OF V(2) _ that] V(4) [OF i] by auto
  show t: "tabs k' pgdir = tabs k pgdir" using pde by (auto simp: tabs_def)
  have pt: "ptab k' pgdir j = ptab k pgdir j" if "j < 1024" for j using pde [OF that] by (simp add: ptab_def)
  show tb: "tables k' pgdir = tables k pgdir" using pt tabs_less by (auto simp: tables_def t image_iff)
  have km: "kmem_ok k' ps" unfolding k'_def store32_def
    by (rule kmem_ok_frame [OF V(1), of "{?t}"]) (use ag V(3,7) [OF i] in \<open>auto simp: k'_def store32_def\<close>)
  have "page_ok k' = page_ok k" by (simp add: k'_def fun_eq_iff)
  moreover have "ptab k' pgdir ` tabs k pgdir = ptab k pgdir ` tabs k pgdir" "inj_on (ptab k' pgdir) (tabs k pgdir) = inj_on (ptab k pgdir) (tabs k pgdir)"
    using pt tabs_less by (auto intro!: image_cong inj_on_cong)
  ultimately show "vm_ok k' ps pgdir" using ok km tb t by (auto simp: vm_ok_def)
  show "pte_of k' pgdir va' = (if vpn va' = vpn va then e else pte_of k pgdir va')"
  proof (cases "PDX va' \<in> tabs k pgdir")
    case True
    show ?thesis
    proof (cases "PDX va' = PDX va")
      case same: True
      then have e: "vpn va' = vpn va \<longleftrightarrow> PTX va' = PTX va" using same_slot by metis
      have "load32 k' (unat ?t + 4 * PTX va') = (if PTX va' = PTX va then e else load32 k (unat ?t + 4 * PTX va'))"
      proof (cases "PTX va' = PTX va")
        case False
        then show ?thesis by (simp add: k'_def store32_def) (rule rd32_wr32_other, linarith)
      qed (simp add: k'_def store32_def)
      then show ?thesis using True same e by (simp add: pte_of_def t pt)
    next
      case False
      then have "vpn va' \<noteq> vpn va" using same_slot by metis
      moreover have "ptab k pgdir (PDX va') \<noteq> ?t" using V(5) [OF True i] False by blast
      ultimately show ?thesis using rd [OF V(3) [OF True]] True by (simp add: pte_of_def t pt)
    qed
  next
    case False
    then have "PDX va' \<noteq> PDX va" using i by auto
    then show ?thesis using False same_slot by (metis pte_of_def t)
  qed
qed

lemma same_mem:
  assumes "km_mem k' = km_mem k"
  shows "tabs k' = tabs k" "ptab k' = ptab k" "tables k' = tables k" "pte_of k' = pte_of k"
proof -
  show t: "tabs k' = tabs k" and p: "ptab k' = ptab k" by (intro ext, simp add: tabs_def ptab_def assms)+
  show "tables k' = tables k" "pte_of k' = pte_of k" by (intro ext, simp add: tables_def pte_of_def t p assms)+
qed

lemma rd32_memset: "a \<le> b \<Longrightarrow> b + 4 \<le> a + n \<Longrightarrow> rd32 (memset_m m a 0 n) b = 0"
  by (simp add: rd32_def memset_m_def)

lemma agree_clear: "agree_off {p} (km_mem k) (km_mem (clear_page p k))"
  by (auto simp: agree_off_def page_bytes_def clear_page_def memset_eq memset_m_def)

lemma cleared: "i < 1024 \<Longrightarrow> load32 (clear_page p k) (unat p + 4 * i) = 0"
  by (simp add: clear_page_def memset_eq rd32_memset)

text \<open>A new, empty table in an unused slot of the directory.\<close>

lemma add_table:
  assumes ok: "vm_ok k ps pgdir" and i: "i < 1024" "i \<notin> tabs k pgdir" and q: "page_ok k q" "q \<notin> tables k pgdir" "q \<notin> set ps"
  defines "k' \<equiv> store32 (unat pgdir + 4 * i) (V2P q OR PTE_P OR PTE_W OR PTE_U) (clear_page q k)"
  shows "vm_ok k' ps pgdir" "pte_of k' pgdir va = pte_of k pgdir va" "tables k' pgdir = insert q (tables k pgdir)"
    "i \<in> tabs k' pgdir" "ptab k' pgdir i = q" "agree_off {pgdir, q} (km_mem k) (km_mem k')" "km_end k' = km_end k"
proof -
  define k1 where "k1 = clear_page q k"
  let ?e = "V2P q OR PTE_P OR PTE_W OR PTE_U"
  note V = vm_okD [OF ok]
  have k': "k' = store32 (unat pgdir + 4 * i) ?e k1" by (simp add: k'_def k1_def)
  show en: "km_end k' = km_end k" by (simp add: k' k1_def store32_def clear_page_def)
  have a1: "agree_off {q} (km_mem k) (km_mem k1)" unfolding k1_def by (rule agree_clear)
  have a2: "agree_off {pgdir} (km_mem k1) (km_mem k')" unfolding k' by (rule agree_store) (use i in auto)
  show ag: "agree_off {pgdir, q} (km_mem k) (km_mem k')" using agree_off_trans [OF a1 a2] by (simp add: insert_commute)
  have rd: "load32 k' (unat t + 4 * j) = load32 k (unat t + 4 * j)" if "page_ok k t" "t \<noteq> q" "t \<noteq> pgdir" "j < 1024" for t j
    by (rule rd32_agree [OF ag, of t]) (use that page_disjoint [OF that(1) V(2)] page_disjoint [OF that(1) q(1)] in auto)
  have nq: "q \<noteq> pgdir" using q(2) by (auto simp: tables_def)
  have q0: "load32 k' (unat q + 4 * j) = 0" if "j < 1024" for j
  proof -
    have "load32 k' (unat q + 4 * j) = load32 k1 (unat q + 4 * j)"
      by (rule rd32_agree [OF a2, of q]) (use that page_disjoint [OF q(1) V(2) nq] in auto)
    then show ?thesis using cleared [OF that] by (simp add: k1_def)
  qed
  have pde: "pde_at k' pgdir j = (if j = i then ?e else pde_at k pgdir j)" if "j < 1024" for j
  proof (cases "j = i")
    case False
    have "load32 k1 (unat pgdir + 4 * j) = pde_at k pgdir j"
      by (rule rd32_agree [OF a1, of pgdir]) (use that page_disjoint [OF V(2) q(1) nq [symmetric]] in auto)
    moreover have "load32 k' (unat pgdir + 4 * j) = load32 k1 (unat pgdir + 4 * j)"
      unfolding k' store32_def by simp (rule rd32_wr32_other, use False in linarith)
    ultimately show ?thesis using False by simp
  qed (simp add: k' store32_def)
  have e: "PTE_ADDR ?e = V2P q" "present ?e"
    using pte_parts(1) [OF frame_word(1) [OF q(1)] low_flags] by (simp_all add: present_odd bit_simps PTE_P_def)
  have t: "tabs k' pgdir = insert i (tabs k pgdir)" using pde e(2) i(1) by (auto simp: tabs_def)
  then show "i \<in> tabs k' pgdir" by simp
  show pi: "ptab k' pgdir i = q" using pde [OF i(1)] e(1) by (simp add: ptab_def)
  have pt: "ptab k' pgdir j = ptab k pgdir j" if "j \<in> tabs k pgdir" for j
    using pde [OF tabs_less [OF that]] that i(2) by (auto simp: ptab_def)
  have im: "ptab k' pgdir ` tabs k' pgdir = insert q (ptab k pgdir ` tabs k pgdir)" unfolding t image_insert pi using pt by (simp cong: image_cong)
  then show tb: "tables k' pgdir = insert q (tables k pgdir)" unfolding tables_def by (simp only: insert_commute)
  have "q \<notin> ptab k pgdir ` tabs k pgdir" using q(2) by (simp add: tables_def)
  moreover have "inj_on (ptab k' pgdir) (tabs k pgdir)" using ok pt by (simp add: vm_ok_def inj_on_def)
  moreover have "ptab k' pgdir ` (tabs k pgdir - {i}) = ptab k pgdir ` tabs k pgdir" using i(2) pt by (simp cong: image_cong)
  ultimately have inj: "inj_on (ptab k' pgdir) (tabs k' pgdir)" unfolding t inj_on_insert pi by simp
  have "kmem_ok (k\<lparr>km_mem := km_mem k'\<rparr>) ps"
    by (rule kmem_ok_frame [OF V(1) ag]) (use V(2,6) q in auto)
  then have km: "kmem_ok k' ps" by (simp add: k' k1_def store32_def clear_page_def)
  have pk: "page_ok k' = page_ok k" by (simp add: k' k1_def fun_eq_iff)
  have "\<forall>t \<in> tables k pgdir. page_ok k t" "pgdir \<notin> ptab k pgdir ` tabs k pgdir" "tables k pgdir \<inter> set ps = {}" using ok by (simp_all add: vm_ok_def)
  then show "vm_ok k' ps pgdir" unfolding vm_ok_def tb im pk using km inj q nq [symmetric] by simp
  show "pte_of k' pgdir va = pte_of k pgdir va"
  proof (cases "PDX va = i")
    case True
    then show ?thesis using i(2) pi q0 [of "PTX va"] t by (simp add: pte_of_def)
  next
    case False
    have "load32 k' (unat (ptab k pgdir (PDX va)) + 4 * PTX va) = load32 k (unat (ptab k pgdir (PDX va)) + 4 * PTX va)" if "PDX va \<in> tabs k pgdir"
      using that q(2) by (intro rd V(3,4)) (auto simp: tables_def)
    then show ?thesis using False pt t by (auto simp: pte_of_def)
  qed
qed

lemma walk_alloc:
  assumes ok: "vm_ok k ps pgdir"
  shows "\<exists>pte k' qs. walkpgdir pgdir va True k = Some (pte, k') \<and> vm_ok k' qs pgdir \<and> (\<forall>va. pte_of k' pgdir va = pte_of k pgdir va) \<and>
    agree_off (tables k' pgdir) (km_mem k) (km_mem k') \<and> km_end k' = km_end k \<and>
    tables k' pgdir \<union> set qs = tables k pgdir \<union> set ps \<and> tables k pgdir \<subseteq> tables k' pgdir \<and> length ps \<le> length qs + 1 \<and>
    (if pte = 0 then ps = [] \<and> qs = [] \<and> k' = k \<and> PDX va \<notin> tabs k pgdir
     else PDX va \<in> tabs k' pgdir \<and> pte = ptab k' pgdir (PDX va) + word_of_nat (4 * PTX va) \<and> unat pte = unat (ptab k' pgdir (PDX va)) + 4 * PTX va)"
proof (cases "PDX va \<in> tabs k pgdir")
  case True
  note W = walk_found [OF ok True]
  show ?thesis by (rule exI [of _ "ptab k pgdir (PDX va) + word_of_nat (4 * PTX va)"], rule exI [of _ k], rule exI [of _ ps])
    (use W ok True in simp)
next
  case False
  note V = vm_okD [OF ok]
  have ab: "load32 k (unat pgdir + 4 * PDX va) AND PTE_P = 0" using False by (simp add: tabs_def present_def)
  show ?thesis
  proof (cases ps)
    case Nil
    then have "kalloc k = Some (0, k)" using kalloc_eq [OF V(1)] by simp
    then have "walkpgdir pgdir va True k = Some (0, k)" using ab by (simp add: walkpgdir_def Let_def)
    then show ?thesis using ok Nil False by simp
  next
    case (Cons q qs)
    then obtain k1 where 1: "kalloc k = Some (q, k1)" "kmem_ok k1 qs" "km_mem k1 = km_mem k" "km_end k1 = km_end k" "q \<notin> set qs"
      using kalloc_eq [OF V(1)] by auto
    have tq: "tables k pgdir \<inter> set ps = {}" using ok by (simp add: vm_ok_def)
    have v1: "vm_ok k1 qs pgdir"
      by (rule vm_ok_frame [OF ok, of "{}"]) (use 1 tq Cons in auto)
    have same: "tables k1 pgdir = tables k pgdir" "tabs k1 pgdir = tabs k pgdir" "pte_of k1 pgdir = pte_of k pgdir"
      using same_mem [OF 1(3)] by simp_all
    have qk: "page_ok k1 q" using V(1) Cons 1(4) by (simp add: kmem_ok_def page_ok_def)
    define k' where "k' = store32 (unat pgdir + 4 * PDX va) (V2P q OR PTE_P OR PTE_W OR PTE_U) (clear_page q k1)"
    have "q \<notin> tables k1 pgdir" using tq Cons same by auto
    note A = add_table [OF v1 PDX_less _ qk this 1(5), of va, folded k'_def]
    have nt: "PDX va \<notin> tabs k1 pgdir" using False same by simp
    have u: "unat (q + word_of_nat (4 * PTX va)) = unat q + 4 * PTX va" by (rule frame_word(2) [OF qk]) simp
    have q0: "q \<noteq> 0" using page_ok_aligned(3) [OF qk] .
    have "q + word_of_nat (4 * PTX va) \<noteq> 0" using u page_ok_aligned(4) [OF qk] by (metis add_is_0 not_numeral_le_zero unat_0 power_not_zero le_zero_eq zero_neq_numeral)
    moreover have "walkpgdir pgdir va True k = Some (q + word_of_nat (4 * PTX va), k')"
      using ab 1(1) q0 1(3) by (simp add: walkpgdir_def Let_def k'_def)
    moreover have "agree_off (tables k' pgdir) (km_mem k) (km_mem k')"
      by (rule agree_off_mono [OF A(6) [OF nt, unfolded 1(3)]]) (use A(3) [OF nt] in \<open>auto simp: tables_def\<close>)
    ultimately show ?thesis
      using A(1-5,7) [OF nt] u same Cons 1(4)
      by (intro exI [of _ "q + word_of_nat (4 * PTX va)"] exI [of _ k'] exI [of _ qs]) auto
  qed
qed

section \<open>Mapping pages\<close>

text \<open>What an operation on a page table keeps: it takes pages for tables from the free list and writes to tables only.\<close>

definition extends :: "u32 \<Rightarrow> kmem \<Rightarrow> u32 list \<Rightarrow> kmem \<Rightarrow> u32 list \<Rightarrow> bool" where
  "extends pgdir k ps k' qs = (vm_ok k' qs pgdir \<and> km_end k' = km_end k \<and> agree_off (tables k' pgdir) (km_mem k) (km_mem k') \<and>
     tables k' pgdir \<union> set qs = tables k pgdir \<union> set ps \<and> tables k pgdir \<subseteq> tables k' pgdir)"

lemma extends_refl: "vm_ok k ps pgdir \<Longrightarrow> extends pgdir k ps k ps"
  by (simp add: extends_def)

lemma extends_trans:
  assumes "extends pgdir k ps k' qs" "extends pgdir k' qs k'' rs"
  shows "extends pgdir k ps k'' rs"
proof -
  have "agree_off (tables k' pgdir \<union> tables k'' pgdir) (km_mem k) (km_mem k'')"
    using assms by (auto simp: extends_def intro: agree_off_trans)
  moreover have "tables k' pgdir \<subseteq> tables k'' pgdir" using assms(2) by (simp add: extends_def)
  ultimately have "agree_off (tables k'' pgdir) (km_mem k) (km_mem k'')" by (simp add: sup.absorb2)
  then show ?thesis using assms by (auto simp: extends_def)
qed

lemma extends_set_pte:
  assumes "vm_ok k ps pgdir" "PDX va \<in> tabs k pgdir"
  shows "extends pgdir k ps (store32 (unat (ptab k pgdir (PDX va)) + 4 * PTX va) e k) ps"
  using set_pte [OF assms, of e] by (simp add: extends_def store32_def)

text \<open>One turn of the loop of \<^verbatim>\<open>mappages\<close>.\<close>

lemma map_one:
  assumes ok: "vm_ok k ps pgdir" and np: "\<not> present (pte_of k pgdir a)"
  shows "\<exists>pte k1 qs. walkpgdir pgdir a True k = Some (pte, k1) \<and> extends pgdir k ps k1 qs \<and> length ps \<le> length qs + 1 \<and>
    (if pte = 0 then ps = [] \<and> qs = [] \<and> pte_of k1 pgdir = pte_of k pgdir
     else load32 k1 (unat pte) AND PTE_P = 0 \<and> extends pgdir k ps (store32 (unat pte) e k1) qs \<and>
       pte_of (store32 (unat pte) e k1) pgdir = (\<lambda>va. if vpn va = vpn a then e else pte_of k pgdir va))"
proof -
  from walk_alloc [OF ok, of a] obtain pte k1 qs where w: "walkpgdir pgdir a True k = Some (pte, k1)" "vm_ok k1 qs pgdir"
      "\<forall>va. pte_of k1 pgdir va = pte_of k pgdir va" "agree_off (tables k1 pgdir) (km_mem k) (km_mem k1)" "km_end k1 = km_end k"
      "tables k1 pgdir \<union> set qs = tables k pgdir \<union> set ps" "tables k pgdir \<subseteq> tables k1 pgdir"
      and len: "length ps \<le> length qs + 1" and w8:
      "if pte = 0 then ps = [] \<and> qs = [] \<and> k1 = k \<and> PDX a \<notin> tabs k pgdir
       else PDX a \<in> tabs k1 pgdir \<and> pte = ptab k1 pgdir (PDX a) + word_of_nat (4 * PTX a) \<and> unat pte = unat (ptab k1 pgdir (PDX a)) + 4 * PTX a"
    by (elim exE conjE)
  have ex: "extends pgdir k ps k1 qs" using w(2,4-7) by (simp add: extends_def)
  have same: "pte_of k1 pgdir = pte_of k pgdir" using w(3) by (intro ext) simp
  show ?thesis
  proof (cases "pte = 0")
    case True
    then show ?thesis using w(1) w8 len ex same by (intro exI [of _ pte] exI [of _ k1] exI [of _ qs]) simp
  next
    case False
    then have i: "PDX a \<in> tabs k1 pgdir" and u: "unat pte = unat (ptab k1 pgdir (PDX a)) + 4 * PTX a"
      using w8 unfolding if_not_P [OF False] by blast+
    have "load32 k1 (unat pte) = pte_of k pgdir a" using i u same by (simp add: pte_of_def [of k1]) (metis pte_of_def i)
    then have ab: "load32 k1 (unat pte) AND PTE_P = 0" using np by (simp add: present_def)
    have "pte_of (store32 (unat pte) e k1) pgdir = (\<lambda>va. if vpn va = vpn a then e else pte_of k pgdir va)"
      using set_pte(2) [OF w(2) i, of e] same unfolding u by (intro ext) simp
    moreover have "extends pgdir k ps (store32 (unat pte) e k1) qs"
      using extends_trans [OF ex extends_set_pte [OF w(2) i, of e]] unfolding u .
    ultimately show ?thesis using w(1) ex ab False len by (intro exI [of _ pte] exI [of _ k1] exI [of _ qs]) simp
  qed
qed

definition entry :: "u32 \<Rightarrow> u32 \<Rightarrow> nat \<Rightarrow> u32" where
  "entry pa perm j = (pa + word_of_nat (j * 4096)) OR perm OR PTE_P"

text \<open>The table with the \<open>n\<close> pages from \<open>a\<close> on mapped.\<close>

definition map_range :: "u32 \<Rightarrow> nat \<Rightarrow> u32 \<Rightarrow> u32 \<Rightarrow> (u32 \<Rightarrow> u32) \<Rightarrow> u32 \<Rightarrow> u32" where
  "map_range a n pa perm f va = (if vpn a \<le> vpn va \<and> vpn va < vpn a + n then entry pa perm (vpn va - vpn a) else f va)"

lemma next_page:
  assumes "unat a mod 4096 = 0" "unat a + 4096 < 2 ^ 32"
  shows "unat (a + PGSIZE) = unat a + 4096" "vpn (a + PGSIZE) = vpn a + 1" "unat (a + PGSIZE) mod 4096 = 0"
proof -
  show u: "unat (a + PGSIZE) = unat a + 4096" using assms(2) by (simp add: PGSIZE_def unat_word_ariths)
  show "vpn (a + PGSIZE) = vpn a + 1" "unat (a + PGSIZE) mod 4096 = 0" using assms(1) unfolding vpn_def u by simp_all
qed

lemma map_range_Suc:
  assumes "vpn (a + PGSIZE) = vpn a + 1"
  shows "map_range (a + PGSIZE) n (pa + PGSIZE) perm (\<lambda>va. if vpn va = vpn a then pa OR perm OR PTE_P else f va) = map_range a (Suc n) pa perm f"
proof (rule ext)
  fix va
  show "map_range (a + PGSIZE) n (pa + PGSIZE) perm (\<lambda>va. if vpn va = vpn a then pa OR perm OR PTE_P else f va) va = map_range a (Suc n) pa perm f va"
  proof (cases "vpn a < vpn va \<and> vpn va < vpn a + Suc n")
    case True
    then have "vpn va - vpn a = Suc (vpn va - Suc (vpn a))" by linarith
    then have "entry (pa + PGSIZE) perm (vpn va - Suc (vpn a)) = entry pa perm (vpn va - vpn a)"
      by (simp add: entry_def PGSIZE_def algebra_simps)
    then show ?thesis using True assms by (simp add: map_range_def)
  next
    case False
    then show ?thesis using assms by (auto simp: map_range_def entry_def)
  qed
qed

lemma map_loop_ok:
  assumes "vm_ok k ps pgdir" "unat a mod 4096 = 0" "unat final = unat a + n * 4096"
    "\<forall>va. vpn a \<le> vpn va \<and> vpn va \<le> vpn a + n \<longrightarrow> \<not> present (pte_of k pgdir va)"
  shows "\<exists>r k' qs. map_loop (Suc n) pgdir a final pa perm k = Some (r, k') \<and> extends pgdir k ps k' qs \<and>
    (r = 0 \<and> pte_of k' pgdir = map_range a (Suc n) pa perm (pte_of k pgdir) \<or>
     r = -1 \<and> qs = [] \<and> length ps \<le> n \<and> (\<exists>j \<le> n. pte_of k' pgdir = map_range a j pa perm (pte_of k pgdir))) \<and> length ps \<le> length qs + Suc n"
  using assms
proof (induction n arbitrary: k ps a pa)
  case 0
  then have fa: "final = a" by (simp add: word_unat_eq_iff)
  have np: "\<not> present (pte_of k pgdir a)" using 0(4) by simp
  from map_one [OF 0(1) np, of "pa OR perm OR PTE_P"] obtain pte k1 qs where w: "walkpgdir pgdir a True k = Some (pte, k1)" "extends pgdir k ps k1 qs"
      and len: "length ps \<le> length qs + 1" and w3: "if pte = 0 then ps = [] \<and> qs = [] \<and> pte_of k1 pgdir = pte_of k pgdir
       else load32 k1 (unat pte) AND PTE_P = 0 \<and> extends pgdir k ps (store32 (unat pte) (pa OR perm OR PTE_P) k1) qs \<and>
         pte_of (store32 (unat pte) (pa OR perm OR PTE_P) k1) pgdir = (\<lambda>va. if vpn va = vpn a then pa OR perm OR PTE_P else pte_of k pgdir va)"
    by (elim exE conjE)
  have m0: "map_range a 0 pa perm (pte_of k pgdir) = pte_of k pgdir" by (auto simp: map_range_def fun_eq_iff)
  have m1: "map_range a (Suc 0) pa perm (pte_of k pgdir) = (\<lambda>va. if vpn va = vpn a then pa OR perm OR PTE_P else pte_of k pgdir va)"
    by (auto simp: map_range_def entry_def fun_eq_iff)
  show ?case
  proof (cases "pte = 0")
    case True
    then have "map_loop (Suc 0) pgdir a final pa perm k = Some (-1, k1)" using w(1) by simp
    moreover have "ps = [] \<and> qs = [] \<and> pte_of k1 pgdir = map_range a 0 pa perm (pte_of k pgdir)" using w3 unfolding if_P [OF True] m0 .
    ultimately show ?thesis using w(2) by (intro exI [of _ "-1"] exI [of _ k1] exI [of _ qs] conjI disjI2 exI [of _ 0]) simp_all
  next
    case False
    define k2 where "k2 = store32 (unat pte) (pa OR perm OR PTE_P) k1"
    have k2: "load32 k1 (unat pte) AND PTE_P = 0" "extends pgdir k ps k2 qs" "pte_of k2 pgdir = map_range a (Suc 0) pa perm (pte_of k pgdir)"
      using w3 unfolding if_not_P [OF False] m1 k2_def by blast+
    have "map_loop (Suc 0) pgdir a final pa perm k = Some (0, k2)" using w(1) False k2(1) fa by (simp add: k2_def Let_def)
    then show ?thesis using k2 len by (intro exI [of _ 0] exI [of _ k2] exI [of _ qs] conjI disjI1) simp_all
  qed
next
  case (Suc n)
  let ?e = "pa OR perm OR PTE_P"
  have bnd: "unat a + 4096 < 2 ^ 32" using Suc.prems(3) unsigned_less [of final, where ?'a = nat] by simp
  note N = next_page [OF Suc.prems(2) bnd]
  have fa: "final \<noteq> a" using Suc.prems(3) by auto
  have np: "\<not> present (pte_of k pgdir a)" using Suc.prems(4) by simp
  from map_one [OF Suc.prems(1) np, of ?e] obtain pte k1 qs where w: "walkpgdir pgdir a True k = Some (pte, k1)" "extends pgdir k ps k1 qs"
      and len: "length ps \<le> length qs + 1" and w3: "if pte = 0 then ps = [] \<and> qs = [] \<and> pte_of k1 pgdir = pte_of k pgdir
       else load32 k1 (unat pte) AND PTE_P = 0 \<and> extends pgdir k ps (store32 (unat pte) ?e k1) qs \<and>
         pte_of (store32 (unat pte) ?e k1) pgdir = (\<lambda>va. if vpn va = vpn a then ?e else pte_of k pgdir va)"
    by (elim exE conjE)
  show ?case
  proof (cases "pte = 0")
    case True
    have "map_range a 0 pa perm (pte_of k pgdir) = pte_of k pgdir" by (auto simp: map_range_def fun_eq_iff)
    then show ?thesis using w w3 True by (intro exI [of _ "-1"] exI [of _ k1] exI [of _ qs]) (auto simp del: map_loop.simps simp: map_loop.simps(2) [of "Suc n"])
  next
    case False
    define k2 where "k2 = store32 (unat pte) ?e k1"
    have w2: "extends pgdir k ps k2 qs" "pte_of k2 pgdir = (\<lambda>va. if vpn va = vpn a then ?e else pte_of k pgdir va)" "load32 k1 (unat pte) AND PTE_P = 0"
      using w3 False by (simp_all add: k2_def)
    have c1: "vm_ok k2 qs pgdir" using w2(1) by (simp add: extends_def)
    have c2: "unat final = unat (a + PGSIZE) + n * 4096" using Suc.prems(3) N(1) by simp
    have c3: "\<forall>va. vpn (a + PGSIZE) \<le> vpn va \<and> vpn va \<le> vpn (a + PGSIZE) + n \<longrightarrow> \<not> present (pte_of k2 pgdir va)"
      unfolding w2(2) N(2) using Suc.prems(4) by simp
    from Suc.IH [OF c1 N(3) c2 c3, of "pa + PGSIZE"] obtain r k' rs where r: "map_loop (Suc n) pgdir (a + PGSIZE) final (pa + PGSIZE) perm k2 = Some (r, k')" "extends pgdir k2 qs k' rs"
        "r = 0 \<and> pte_of k' pgdir = map_range (a + PGSIZE) (Suc n) (pa + PGSIZE) perm (pte_of k2 pgdir) \<or>
         r = -1 \<and> rs = [] \<and> length qs \<le> n \<and> (\<exists>j \<le> n. pte_of k' pgdir = map_range (a + PGSIZE) j (pa + PGSIZE) perm (pte_of k2 pgdir))"
        "length qs \<le> length rs + Suc n"
      by (elim exE conjE)
    have e: "map_loop (Suc (Suc n)) pgdir a final pa perm k = Some (r, k')"
      unfolding map_loop.simps(2) [of "Suc n"] w(1) using False w2(3) fa r(1) by (simp add: k2_def Let_def del: map_loop.simps)
    have m: "map_range (a + PGSIZE) j (pa + PGSIZE) perm (pte_of k2 pgdir) = map_range a (Suc j) pa perm (pte_of k pgdir)" for j
      unfolding w2(2) by (rule map_range_Suc [OF N(2)])
    have "r = 0 \<and> pte_of k' pgdir = map_range a (Suc (Suc n)) pa perm (pte_of k pgdir) \<or>
        r = -1 \<and> rs = [] \<and> length ps \<le> Suc n \<and> (\<exists>j \<le> Suc n. pte_of k' pgdir = map_range a j pa perm (pte_of k pgdir))"
      using r(3)
    proof (elim disjE conjE exE)
      fix j assume "r = -1" "rs = []" "length qs \<le> n" "j \<le> n" "pte_of k' pgdir = map_range (a + PGSIZE) j (pa + PGSIZE) perm (pte_of k2 pgdir)"
      then show ?thesis using len unfolding m by (intro disjI2 conjI exI [of _ "Suc j"]) simp_all
    qed (simp add: m)
    moreover have "length ps \<le> length rs + Suc (Suc n)" using len r(4) by simp
    ultimately show ?thesis using e extends_trans [OF w2(1) r(2)] by (intro exI [of _ r] exI [of _ k'] exI [of _ rs] conjI)
  qed
qed

section \<open>The pages of a process\<close>

definition upage :: "kmem \<Rightarrow> u32 \<Rightarrow> u32 \<Rightarrow> u32" where
  "upage k pgdir va = P2V (PTE_ADDR (pte_of k pgdir va))"

text \<open>Below the page \<open>B\<close>, the present entries name distinct pages that are neither tables nor free.\<close>

definition uvm_ok :: "nat \<Rightarrow> kmem \<Rightarrow> u32 list \<Rightarrow> u32 \<Rightarrow> bool" where
  "uvm_ok B k ps pgdir = (vm_ok k ps pgdir \<and>
     (\<forall>va. vpn va < B \<and> present (pte_of k pgdir va) \<longrightarrow> page_ok k (upage k pgdir va) \<and> upage k pgdir va \<notin> tables k pgdir \<union> set ps) \<and>
     (\<forall>va va'. vpn va < B \<and> vpn va' < B \<and> present (pte_of k pgdir va) \<and> present (pte_of k pgdir va') \<and>
        upage k pgdir va = upage k pgdir va' \<longrightarrow> vpn va = vpn va'))"

lemma uvm_okD:
  assumes "uvm_ok B k ps pgdir"
  shows "vm_ok k ps pgdir" "vpn va < B \<Longrightarrow> present (pte_of k pgdir va) \<Longrightarrow> page_ok k (upage k pgdir va)"
    "vpn va < B \<Longrightarrow> present (pte_of k pgdir va) \<Longrightarrow> upage k pgdir va \<notin> tables k pgdir"
    "vpn va < B \<Longrightarrow> present (pte_of k pgdir va) \<Longrightarrow> upage k pgdir va \<notin> set ps"
    "vpn va < B \<Longrightarrow> vpn va' < B \<Longrightarrow> present (pte_of k pgdir va) \<Longrightarrow> present (pte_of k pgdir va') \<Longrightarrow>
       upage k pgdir va = upage k pgdir va' \<Longrightarrow> vpn va = vpn va'"
  using assms unfolding uvm_ok_def by blast+

text \<open>The entry of a page depends on the page only.\<close>

lemma pte_of_vpn: "vpn va = vpn va' \<Longrightarrow> pte_of k pgdir va = pte_of k pgdir va'"
  using same_slot [of va va'] by (simp add: pte_of_def)

text \<open>Freeing the page of one entry.\<close>

lemma free_one:
  assumes ok: "uvm_ok B k ps pgdir" and a: "vpn a < B" "present (pte_of k pgdir a)"
  defines "p \<equiv> upage k pgdir a"
  shows "PDX a \<in> tabs k pgdir" "PTE_ADDR (pte_of k pgdir a) \<noteq> 0"
    "\<exists>k1. kfree p k = Some k1 \<and> (let k2 = store32 (unat (ptab k pgdir (PDX a)) + 4 * PTX a) 0 k1 in
      uvm_ok B k2 (p # ps) pgdir \<and> tables k2 pgdir = tables k pgdir \<and> km_end k2 = km_end k \<and>
      agree_off (insert p (tables k pgdir)) (km_mem k) (km_mem k2) \<and>
      pte_of k2 pgdir = (\<lambda>va. if vpn va = vpn a then 0 else pte_of k pgdir va))"
proof -
  note U = uvm_okD [OF ok]
  show i: "PDX a \<in> tabs k pgdir" using a(2) by (auto simp: pte_of_def split: if_splits)
  note pk = U(2) [OF a, folded p_def] and pt = U(3) [OF a, folded p_def] and pp = U(4) [OF a, folded p_def]
  have "KERNBASE < p" using pk by (auto simp: page_ok_def)
  then show "PTE_ADDR (pte_of k pgdir a) \<noteq> 0" by (auto simp: p_def upage_def P2V_def)
  obtain k1 where k1: "kfree p k = Some k1" "kmem_ok k1 (p # ps)" "agree_off {p} (km_mem k) (km_mem k1)" "km_end k1 = km_end k"
    using kfree_eq [OF vm_okD(1) [OF U(1)] pk pp] by blast
  have dis: "{p} \<inter> tables k pgdir = {}" "\<forall>q \<in> {p}. page_ok k q" using pt pk by auto
  have tp: "tables k pgdir \<inter> set (p # ps) = {}" using pt U(1) by (auto simp: vm_ok_def)
  note F = table_frame [OF U(1) k1(3) dis] and v1 = vm_ok_frame [OF U(1) k1(3) dis k1(2,4) tp]
  have i1: "PDX a \<in> tabs k1 pgdir" "ptab k1 pgdir (PDX a) = ptab k pgdir (PDX a)" using i F(1,2) by auto
  define k2 where "k2 = store32 (unat (ptab k pgdir (PDX a)) + 4 * PTX a) 0 k1"
  note S = set_pte [OF v1 i1(1), of 0, unfolded i1(2), folded k2_def]
  have tb: "tables k2 pgdir = tables k pgdir" using S(3) F(4) by simp
  have pe: "pte_of k2 pgdir = (\<lambda>va. if vpn va = vpn a then 0 else pte_of k pgdir va)" using S(2) F(3) by (intro ext) simp
  have en: "km_end k2 = km_end k" using k1(4) by (simp add: k2_def store32_def)
  have pko: "page_ok k2 = page_ok k" using en by (auto simp: page_ok_def fun_eq_iff)
  have ag: "agree_off (insert p (tables k pgdir)) (km_mem k) (km_mem k2)"
    using agree_off_trans [OF k1(3) S(5)] F(4) by simp
  have up: "upage k2 pgdir va = upage k pgdir va \<and> present (pte_of k pgdir va) \<and> upage k pgdir va \<noteq> p" if "vpn va < B" "present (pte_of k2 pgdir va)" for va
  proof -
    have e: "pte_of k2 pgdir va = pte_of k pgdir va" "vpn va \<noteq> vpn a" using that(2) unfolding pe by (auto split: if_splits)
    then have "present (pte_of k pgdir va)" using that(2) by simp
    moreover have "upage k pgdir va \<noteq> p" using U(5) [OF that(1) a(1) \<open>present (pte_of k pgdir va)\<close> a(2)] e(2) by (auto simp: p_def)
    ultimately show ?thesis using e(1) by (simp add: upage_def)
  qed
  have "uvm_ok B k2 (p # ps) pgdir" unfolding uvm_ok_def
  proof (intro conjI allI impI)
    fix va assume v: "vpn va < B \<and> present (pte_of k2 pgdir va)"
    note u = up [OF conjunct1 [OF v] conjunct2 [OF v]]
    show "page_ok k2 (upage k2 pgdir va)" unfolding pko using u U(2) [of va] v by simp
    show "upage k2 pgdir va \<notin> tables k2 pgdir \<union> set (p # ps)" unfolding tb using u U(3,4) [of va] v by simp
  next
    fix va va' assume v: "vpn va < B \<and> vpn va' < B \<and> present (pte_of k2 pgdir va) \<and> present (pte_of k2 pgdir va') \<and> upage k2 pgdir va = upage k2 pgdir va'"
    then show "vpn va = vpn va'" using up [of va] up [of va'] U(5) [of va va'] by simp
  qed (rule S(1))
  then show "\<exists>k1. kfree p k = Some k1 \<and> (let k2 = store32 (unat (ptab k pgdir (PDX a)) + 4 * PTX a) 0 k1 in
      uvm_ok B k2 (p # ps) pgdir \<and> tables k2 pgdir = tables k pgdir \<and> km_end k2 = km_end k \<and>
      agree_off (insert p (tables k pgdir)) (km_mem k) (km_mem k2) \<and>
      pte_of k2 pgdir = (\<lambda>va. if vpn va = vpn a then 0 else pte_of k pgdir va))"
    using k1(1) tb pe en ag unfolding Let_def by (intro exI [of _ k1]) (simp add: k2_def [symmetric])
qed

section \<open>Shrinking\<close>

definition in_range :: "u32 \<Rightarrow> u32 \<Rightarrow> u32 \<Rightarrow> bool" where
  "in_range a sz va = (vpn a \<le> vpn va \<and> vpn va * 4096 < unat sz)"

text \<open>What is left of a map when the pages from \<open>a\<close> up to \<open>sz\<close> are removed, and the pages that are freed.\<close>

definition removed :: "u32 \<Rightarrow> u32 \<Rightarrow> (u32 \<Rightarrow> u32) \<Rightarrow> u32 \<Rightarrow> u32" where
  "removed a sz f va = (if in_range a sz va \<and> present (f va) then 0 else f va)"

definition freed :: "u32 \<Rightarrow> u32 \<Rightarrow> (u32 \<Rightarrow> u32) \<Rightarrow> u32 set" where
  "freed a sz f = (\<lambda>va. P2V (PTE_ADDR (f va))) ` {va. in_range a sz va \<and> present (f va)}"

lemma in_range_step:
  assumes "unat a mod 4096 = 0" "unat a < unat sz" "vpn b = vpn a + 1"
  shows "in_range a sz va \<longleftrightarrow> vpn va = vpn a \<or> in_range b sz va"
proof -
  have "vpn a * 4096 = unat a" using assms(1) by (auto simp: vpn_def)
  then show ?thesis using assms(2,3) by (auto simp: in_range_def)
qed

lemma in_range_empty:
  assumes "unat a mod 4096 = 0" "unat sz \<le> unat a"
  shows "\<not> in_range a sz va"
proof -
  have "vpn a * 4096 = unat a" using assms(1) by (auto simp: vpn_def)
  then show ?thesis using assms(2) mult_le_mono1 [of "vpn a" "vpn va" 4096] by (auto simp: in_range_def)
qed

lemma removed_step:
  assumes "\<And>va. in_range a sz va \<longleftrightarrow> vpn va = vpn a \<or> in_range b sz va" "\<forall>va. in_range b sz va \<longrightarrow> vpn va \<noteq> vpn a"
    "\<forall>va va'. vpn va = vpn va' \<longrightarrow> f va = f va'"
  shows "\<not> present (f a) \<Longrightarrow> removed a sz f = removed b sz f" "\<not> present (f a) \<Longrightarrow> freed a sz f = freed b sz f"
    "present (f a) \<Longrightarrow> removed b sz (\<lambda>va. if vpn va = vpn a then 0 else f va) = removed a sz f"
    "present (f a) \<Longrightarrow> insert (P2V (PTE_ADDR (f a))) (freed b sz (\<lambda>va. if vpn va = vpn a then 0 else f va)) = freed a sz f"
proof -
  have fa: "f va = f a" if "vpn va = vpn a" for va using that assms(3) by blast
  show "removed a sz f = removed b sz f" if "\<not> present (f a)"
  proof (rule ext)
    fix va show "removed a sz f va = removed b sz f va"
      using that assms(1) [of va] fa [of va] by (cases "vpn va = vpn a") (simp_all add: removed_def)
  qed
  show "freed a sz f = freed b sz f" if "\<not> present (f a)"
  proof -
    have "(in_range a sz va \<and> present (f va)) = (in_range b sz va \<and> present (f va))" for va
      using that assms(1) [of va] fa [of va] by (cases "vpn va = vpn a") simp_all
    then show ?thesis unfolding freed_def by simp
  qed
  show "removed b sz (\<lambda>va. if vpn va = vpn a then 0 else f va) = removed a sz f" if "present (f a)"
  proof (rule ext)
    fix va show "removed b sz (\<lambda>va. if vpn va = vpn a then 0 else f va) va = removed a sz f va"
      using that assms(1) [of va] fa [of va] by (cases "vpn va = vpn a") (simp_all add: removed_def)
  qed
  have s: "{va. in_range b sz va \<and> present (if vpn va = vpn a then 0 else f va)} = {va. in_range b sz va \<and> present (f va)}"
  proof (rule Collect_cong)
    fix va show "(in_range b sz va \<and> present (if vpn va = vpn a then 0 else f va)) = (in_range b sz va \<and> present (f va))"
      using spec [OF assms(2), of va] by (cases "in_range b sz va") simp_all
  qed
  have "freed b sz (\<lambda>va. if vpn va = vpn a then 0 else f va) = freed b sz f"
    unfolding freed_def s by (rule image_cong) (use assms(2) in simp_all)
  moreover have "freed a sz f = insert (P2V (PTE_ADDR (f a))) (freed b sz f)" if pa: "present (f a)"
  proof -
    have "{va. in_range a sz va \<and> present (f va)} = {va. vpn va = vpn a} \<union> {va. in_range b sz va \<and> present (f va)}"
    proof -
      have "(in_range a sz va \<and> present (f va)) = (vpn va = vpn a \<or> in_range b sz va \<and> present (f va))" for va
        using pa assms(1) [of va] fa [of va] by (cases "vpn va = vpn a") simp_all
      then show ?thesis by (simp only: Collect_disj_eq)
    qed
    moreover have "(\<lambda>va. P2V (PTE_ADDR (f va))) ` {va. vpn va = vpn a} = {P2V (PTE_ADDR (f a))}"
    proof -
      have "(\<lambda>va. P2V (PTE_ADDR (f va))) ` {va. vpn va = vpn a} = (\<lambda>va. P2V (PTE_ADDR (f a))) ` {va. vpn va = vpn a}"
        by (rule image_cong [OF refl], subst fa) simp_all
      also have "\<dots> = {P2V (PTE_ADDR (f a))}" by (rule image_constant [of a]) simp
      finally show ?thesis .
    qed
    ultimately show ?thesis by (simp add: freed_def image_Un)
  qed
  ultimately show "insert (P2V (PTE_ADDR (f a))) (freed b sz (\<lambda>va. if vpn va = vpn a then 0 else f va)) = freed a sz f" if "present (f a)"
    using that by simp
qed

text \<open>An address without a table: the loop goes to the first address of the next one.\<close>

lemma skip_table:
  assumes "unat a mod 4096 = 0" "unat a < 2 ^ 31"
  defines "b \<equiv> PGADDR (PDX a + 1) 0 0 - PGSIZE + PGSIZE"
  shows "unat b mod 4096 = 0" "unat a + 4096 \<le> unat b" "vpn a \<le> vpn va \<Longrightarrow> vpn va < vpn b \<Longrightarrow> PDX va = PDX a"
proof -
  have d: "PDX a < 512" using assms(2) unfolding PDX_eq by (simp add: less_mult_imp_div_less)
  have "unat (word_of_nat n :: u32) = n" if "n < 1024" for n using that by (simp add: unsigned_of_nat take_bit_nat_eq_self)
  from this [of "PDX a + 1"] have "unat (word_of_nat (PDX a + 1) :: u32) = PDX a + 1" using d by simp
  then have u: "unat b = (PDX a + 1) * 4194304"
    unfolding b_def PGADDR_def using d
    by (simp add: unsigned_push_bit_eq take_bit_nat_eq_self push_bit_eq_mult unat_word_ariths del: of_nat_Suc of_nat_add)
  then have vb: "vpn b = (PDX a + 1) * 1024" by (simp add: vpn_def)
  show "unat b mod 4096 = 0" unfolding u by (simp add: mod_eq_0_iff_dvd)
  obtain c where c: "unat a = 4096 * c" using assms(1) by auto
  then have pd: "PDX a = c div 1024" "vpn a = c" by (simp_all add: PDX_eq vpn_def)
  have "c + 1 \<le> (c div 1024 + 1) * 1024"
  proof -
    define q r where "q = c div 1024" and "r = c mod 1024"
    then have "c = q * 1024 + r" "r < 1024" by simp_all
    then show ?thesis unfolding q_def [symmetric] by simp
  qed
  then have "4096 * (c + 1) \<le> 4096 * ((c div 1024 + 1) * 1024)" by (rule mult_le_mono2)
  then show "unat a + 4096 \<le> unat b" unfolding u c pd(1) by simp
  assume v: "vpn a \<le> vpn va" "vpn va < vpn b"
  have "PDX va = vpn va div 1024" by (simp add: PDX_eq vpn_def div_mult2_eq [symmetric])
  moreover have "vpn va div 1024 = c div 1024" 
  proof (rule antisym)
    have "vpn va < (c div 1024 + 1) * 1024" using v(2) unfolding vb pd .
    then have "vpn va div 1024 < c div 1024 + 1" by (rule less_mult_imp_div_less)
    then show "vpn va div 1024 \<le> c div 1024" by simp
    show "c div 1024 \<le> vpn va div 1024" using v(1) pd(2) by (intro div_le_mono) simp
  qed
  ultimately show "PDX va = PDX a" using pd by simp
qed

text \<open>The pages that the loop still has to visit.\<close>

definition pages_left :: "u32 \<Rightarrow> u32 \<Rightarrow> nat" where
  "pages_left a sz = (unat sz - unat a + 4095) div 4096"

lemma pages_left_less:
  assumes "unat a < unat sz" "unat a + 4096 \<le> unat b"
  shows "pages_left b sz < pages_left a sz"
proof -
  have "unat sz - unat b + 4096 \<le> unat sz - unat a \<or> unat sz \<le> unat b" using assms by linarith
  then show ?thesis
  proof
    assume "unat sz - unat b + 4096 \<le> unat sz - unat a"
    then have "(unat sz - unat b + 4095 + 4096) div 4096 \<le> (unat sz - unat a + 4095) div 4096" by (intro div_le_mono) simp
    moreover have "(unat sz - unat b + 4095 + 4096) div 4096 = pages_left b sz + 1"
      unfolding pages_left_def by (rule div_add_self2) simp
    ultimately show ?thesis unfolding pages_left_def [of a] by linarith
  next
    assume "unat sz \<le> unat b"
    moreover have "1 \<le> pages_left a sz" using assms(1) div_le_mono [of 4096 "unat sz - unat a + 4095" 4096] by (simp add: pages_left_def)
    ultimately show ?thesis by (simp add: pages_left_def)
  qed
qed

definition shrunk :: "nat \<Rightarrow> u32 \<Rightarrow> u32 \<Rightarrow> u32 \<Rightarrow> kmem \<Rightarrow> u32 list \<Rightarrow> kmem \<Rightarrow> u32 list \<Rightarrow> bool" where
  "shrunk B pgdir a sz k ps k' qs = (uvm_ok B k' qs pgdir \<and> tables k' pgdir = tables k pgdir \<and> km_end k' = km_end k \<and>
     set qs = set ps \<union> freed a sz (pte_of k pgdir) \<and> agree_off (tables k pgdir \<union> freed a sz (pte_of k pgdir)) (km_mem k) (km_mem k') \<and>
     pte_of k' pgdir = removed a sz (pte_of k pgdir))"

lemma dealloc_loop_ok:
  assumes "uvm_ok B k ps pgdir" "unat a mod 4096 = 0" "unat sz \<le> B * 4096" "unat sz \<le> 2 ^ 31" "pages_left a sz < n"
  shows "\<exists>k' qs. dealloc_loop n pgdir a sz k = Some k' \<and> shrunk B pgdir a sz k ps k' qs"
  using assms
proof (induction n arbitrary: k ps a)
  case (Suc n)
  note U = uvm_okD [OF Suc.prems(1)]
  show ?case
  proof (cases "a < sz")
    case False
    then have "\<not> in_range a sz va" for va using in_range_empty [OF Suc.prems(2)] by (simp add: word_less_nat_alt)
    then have "removed a sz f = f" "freed a sz f = {}" for f by (simp_all add: removed_def freed_def fun_eq_iff)
    then show ?thesis using False Suc.prems(1) by (intro exI [of _ k] exI [of _ ps]) (simp add: shrunk_def)
  next
    case True
    then have as: "unat a < unat sz" by (simp add: word_less_nat_alt)
    have a31: "unat a < 2 ^ 31" using as Suc.prems(4) by simp
    have av: "vpn a * 4096 = unat a" using Suc.prems(2) by (auto simp: vpn_def)
    have vB: "vpn a < B" using as Suc.prems(3) av by simp
    note N = next_page [OF Suc.prems(2)]
    have b32: "unat a + 4096 < 2 ^ 32" using a31 by simp
    have st: "in_range a sz va \<longleftrightarrow> vpn va = vpn a \<or> in_range (a + PGSIZE) sz va" for va
      by (rule in_range_step [OF Suc.prems(2) as N(2) [OF b32]])
    have dj: "\<forall>va. in_range (a + PGSIZE) sz va \<longrightarrow> vpn va \<noteq> vpn a" using N(2) [OF b32] by (simp add: in_range_def)
    have "\<forall>va va'. vpn va = vpn va' \<longrightarrow> pte_of k pgdir va = pte_of k pgdir va'" using pte_of_vpn by blast
    note R = removed_step [OF st dj this]
    have fuel: "pages_left (a + PGSIZE) sz < n"
      using pages_left_less [OF as, of "a + PGSIZE"] N(1) [OF b32] Suc.prems(5) by simp
    show ?thesis
    proof (cases "PDX a \<in> tabs k pgdir")
      case False
      define b where "b = PGADDR (PDX a + 1) 0 0 - PGSIZE + PGSIZE"
      note S = skip_table [OF Suc.prems(2) a31, folded b_def]
      have e: "dealloc_loop (Suc n) pgdir a sz k = dealloc_loop n pgdir b sz k"
        using True walk_missing [OF U(1) False] by (simp add: b_def)
      have "in_range a sz va \<and> present (pte_of k pgdir va) \<longleftrightarrow> in_range b sz va \<and> present (pte_of k pgdir va)" for va
      proof (cases "vpn va < vpn b")
        case less: True
        have "vpn a \<le> vpn va \<Longrightarrow> \<not> present (pte_of k pgdir va)" using S(3) [OF _ less] False by (simp add: pte_of_def)
        then show ?thesis using less by (auto simp: in_range_def)
      next
        case False
        have "vpn a \<le> vpn b" unfolding vpn_def using S(2) by (intro div_le_mono) simp
        then show ?thesis using False by (auto simp: in_range_def)
      qed
      then have "removed a sz (pte_of k pgdir) = removed b sz (pte_of k pgdir)" "freed a sz (pte_of k pgdir) = freed b sz (pte_of k pgdir)"
        unfolding removed_def freed_def by (simp_all only:)
      then have "shrunk B pgdir a sz k ps = shrunk B pgdir b sz k ps" by (simp add: shrunk_def fun_eq_iff)
      moreover have "pages_left b sz < n" using pages_left_less [OF as S(2)] Suc.prems(5) by simp
      ultimately show ?thesis using Suc.IH [OF Suc.prems(1) S(1) Suc.prems(3,4)] unfolding e by simp
    next
      case tab: True
      note W = walk_found [OF U(1) tab]
      have ld: "load32 k (unat (ptab k pgdir (PDX a) + word_of_nat (4 * PTX a))) = pte_of k pgdir a" using W(2) tab by (simp add: pte_of_def)
      show ?thesis
      proof (cases "present (pte_of k pgdir a)")
        case False
        then have e: "dealloc_loop (Suc n) pgdir a sz k = dealloc_loop n pgdir (a + PGSIZE) sz k"
          using True W(1) [of False] W(3) ld by (simp add: present_def)
        have "shrunk B pgdir a sz k ps = shrunk B pgdir (a + PGSIZE) sz k ps" using R(1,2) [OF False] by (simp add: shrunk_def fun_eq_iff)
        then show ?thesis using Suc.IH [OF Suc.prems(1) N(3) [OF b32] Suc.prems(3,4) fuel] unfolding e by simp
      next
        case pr: True
        let ?p = "upage k pgdir a"
        note F = free_one [OF Suc.prems(1) vB pr]
        from F(3) obtain k1 where k1: "kfree ?p k = Some k1" and k2': "let k2 = store32 (unat (ptab k pgdir (PDX a)) + 4 * PTX a) 0 k1 in
          uvm_ok B k2 (?p # ps) pgdir \<and> tables k2 pgdir = tables k pgdir \<and> km_end k2 = km_end k \<and>
          agree_off (insert ?p (tables k pgdir)) (km_mem k) (km_mem k2) \<and>
          pte_of k2 pgdir = (\<lambda>va. if vpn va = vpn a then 0 else pte_of k pgdir va)" by (elim exE conjE)
        define k2 where "k2 = store32 (unat (ptab k pgdir (PDX a)) + 4 * PTX a) 0 k1"
        have k2: "uvm_ok B k2 (?p # ps) pgdir" "tables k2 pgdir = tables k pgdir" "km_end k2 = km_end k"
          "agree_off (insert ?p (tables k pgdir)) (km_mem k) (km_mem k2)"
          "pte_of k2 pgdir = (\<lambda>va. if vpn va = vpn a then 0 else pte_of k pgdir va)"
          using k2' unfolding Let_def k2_def [symmetric] by blast+
        have e: "dealloc_loop (Suc n) pgdir a sz k = dealloc_loop n pgdir (a + PGSIZE) sz k2"
          using True W(1) [of False] W(2,3) ld pr F(2) k1 by (simp add: present_def upage_def k2_def)
        from Suc.IH [OF k2(1) N(3) [OF b32] Suc.prems(3,4) fuel] obtain k' qs where
          k': "dealloc_loop n pgdir (a + PGSIZE) sz k2 = Some k'" "shrunk B pgdir (a + PGSIZE) sz k2 (?p # ps) k' qs" by (elim exE conjE)
        have fr: "insert ?p (freed (a + PGSIZE) sz (pte_of k2 pgdir)) = freed a sz (pte_of k pgdir)"
          unfolding k2(5) upage_def by (rule R(4) [OF pr])
        have rm: "removed (a + PGSIZE) sz (pte_of k2 pgdir) = removed a sz (pte_of k pgdir)" unfolding k2(5) by (rule R(3) [OF pr])
        have "agree_off (insert ?p (tables k pgdir) \<union> (tables k2 pgdir \<union> freed (a + PGSIZE) sz (pte_of k2 pgdir))) (km_mem k) (km_mem k')"
          using agree_off_trans [OF k2(4)] k'(2) by (simp add: shrunk_def)
        moreover have "insert ?p (tables k pgdir) \<union> (tables k2 pgdir \<union> freed (a + PGSIZE) sz (pte_of k2 pgdir)) = tables k pgdir \<union> freed a sz (pte_of k pgdir)"
          unfolding fr [symmetric] k2(2) by auto
        moreover have "set qs = set ps \<union> freed a sz (pte_of k pgdir)" using k'(2) unfolding fr [symmetric] by (simp add: shrunk_def)
        ultimately have "shrunk B pgdir a sz k ps k' qs" using k'(2) k2(2,3) rm by (simp add: shrunk_def)
        then show ?thesis unfolding e using k'(1) by blast
      qed
    qed
  qed
qed simp

end
