(* ===== verification/Uvm.thy ===== *)
theory Uvm
  imports Page_Table
begin

text \<open>
  The memory of a process as a map from virtual pages to physical pages: growing and shrinking it
  (\<^verbatim>\<open>allocuvm\<close> and \<^verbatim>\<open>deallocuvm\<close> of \<^verbatim>\<open>CS_537_P5/vm.c\<close>) on top of the page tables and the page allocator.
\<close>

section \<open>Pages in hand\<close>

text \<open>A page that has been taken from the allocator and is not mapped yet.\<close>

definition limbo :: "nat \<Rightarrow> kmem \<Rightarrow> u32 list \<Rightarrow> u32 \<Rightarrow> u32 \<Rightarrow> bool" where
  "limbo B k ps pgdir q = (page_ok k q \<and> q \<notin> tables k pgdir \<union> set ps \<and>
     (\<forall>va. vpn va < B \<and> present (pte_of k pgdir va) \<longrightarrow> upage k pgdir va \<noteq> q))"

lemma limboD:
  assumes "limbo B k ps pgdir q"
  shows "page_ok k q" "q \<notin> tables k pgdir" "q \<notin> set ps" "vpn va < B \<Longrightarrow> present (pte_of k pgdir va) \<Longrightarrow> upage k pgdir va \<noteq> q"
  using assms unfolding limbo_def by blast+

lemma page_ok_end: "km_end k' = km_end k \<Longrightarrow> page_ok k' = page_ok k"
  by (auto simp: page_ok_def fun_eq_iff)

text \<open>A step that keeps the entries keeps the pages of the process, if what it takes for tables or frees was not
  one of them.\<close>

lemma uvm_transfer:
  assumes ok: "uvm_ok B k ps pgdir" and v: "vm_ok k' qs pgdir" "km_end k' = km_end k" "pte_of k' pgdir = pte_of k pgdir"
    and sub: "tables k' pgdir \<union> set qs \<subseteq> tables k pgdir \<union> set ps \<union> X"
    and X: "\<forall>q \<in> X. \<forall>va. vpn va < B \<and> present (pte_of k pgdir va) \<longrightarrow> upage k pgdir va \<noteq> q"
  shows "uvm_ok B k' qs pgdir"
proof -
  note U = uvm_okD [OF ok]
  have up: "upage k' pgdir = upage k pgdir" using v(3) by (simp add: upage_def fun_eq_iff)
  have "upage k pgdir va \<notin> tables k' pgdir \<union> set qs" if "vpn va < B" "present (pte_of k pgdir va)" for va
  proof
    assume "upage k pgdir va \<in> tables k' pgdir \<union> set qs"
    with sub have "upage k pgdir va \<in> tables k pgdir \<union> set ps \<union> X" by (rule subsetD)
    then show False using U(3,4) [OF that] X that by blast
  qed
  then show ?thesis unfolding uvm_ok_def v(3) up page_ok_end [OF v(2)] using v(1) U(2,5) by blast
qed

lemma uvm_kalloc:
  assumes ok: "uvm_ok B k (q # qs) pgdir"
  shows "\<exists>k'. kalloc k = Some (q, k') \<and> uvm_ok B k' qs pgdir \<and> limbo B k' qs pgdir q \<and> km_mem k' = km_mem k \<and> km_end k' = km_end k"
proof -
  note U = uvm_okD [OF ok]
  note V = vm_okD [OF U(1)]
  obtain k' where k': "kalloc k = Some (q, k')" "kmem_ok k' qs" "km_mem k' = km_mem k" "km_end k' = km_end k" "q \<notin> set qs"
    using kalloc_eq [OF V(1)] by auto
  note S = same_mem [OF k'(3)]
  have tq: "tables k pgdir \<inter> set (q # qs) = {}" using U(1) by (simp add: vm_ok_def)
  have v: "vm_ok k' qs pgdir" by (rule vm_ok_frame [OF U(1), of "{}"]) (use k' tq in auto)
  have "uvm_ok B k' qs pgdir" by (rule uvm_transfer [OF ok v k'(4), of "{}"]) (auto simp: S)
  moreover have "page_ok k q" using V(1) by (simp add: kmem_ok_def)
  then have "limbo B k' qs pgdir q"
    unfolding limbo_def page_ok_end [OF k'(4)] upage_def S using tq k'(5) U(4) [unfolded upage_def] by auto
  ultimately show ?thesis using k' by blast
qed

lemma uvm_write:
  assumes ok: "uvm_ok B k ps pgdir" and q: "limbo B k ps pgdir q" and ag: "agree_off {q} (km_mem k) m"
  shows "uvm_ok B (k\<lparr>km_mem := m\<rparr>) ps pgdir" "limbo B (k\<lparr>km_mem := m\<rparr>) ps pgdir q" "pte_of (k\<lparr>km_mem := m\<rparr>) pgdir = pte_of k pgdir"
    "tables (k\<lparr>km_mem := m\<rparr>) pgdir = tables k pgdir"
proof -
  let ?k = "k\<lparr>km_mem := m\<rparr>"
  note U = uvm_okD [OF ok] and Q = limboD [OF q]
  have ag': "agree_off {q} (km_mem k) (km_mem ?k)" using ag by simp
  have dis: "{q} \<inter> tables k pgdir = {}" "\<forall>p \<in> {q}. page_ok k p" using Q by auto
  have km: "kmem_ok ?k ps" by (rule kmem_ok_frame [OF vm_okD(1) [OF U(1)] ag dis(2)]) (use Q in auto)
  note F = table_frame [OF U(1) ag' dis]
  show pe: "pte_of ?k pgdir = pte_of k pgdir" using F(3) by (intro ext)
  show tb: "tables ?k pgdir = tables k pgdir" by (rule F(4))
  have tp: "tables k pgdir \<inter> set ps = {}" using U(1) by (simp add: vm_ok_def)
  have v: "vm_ok ?k ps pgdir" by (rule vm_ok_frame [OF U(1) ag' dis km _ tp]) simp
  show "uvm_ok B ?k ps pgdir" by (rule uvm_transfer [OF ok v _ pe, of "{}"]) (use tb in auto)
  show "limbo B ?k ps pgdir q" using q unfolding limbo_def upage_def pe tb by simp
qed

lemma uvm_kfree:
  assumes ok: "uvm_ok B k ps pgdir" and q: "limbo B k ps pgdir q"
  shows "\<exists>k'. kfree q k = Some k' \<and> uvm_ok B k' (q # ps) pgdir \<and> pte_of k' pgdir = pte_of k pgdir \<and> tables k' pgdir = tables k pgdir \<and>
    km_end k' = km_end k \<and> agree_off {q} (km_mem k) (km_mem k')"
proof -
  note U = uvm_okD [OF ok] and Q = limboD [OF q]
  obtain k' where k': "kfree q k = Some k'" "kmem_ok k' (q # ps)" "agree_off {q} (km_mem k) (km_mem k')" "km_end k' = km_end k"
    using kfree_eq [OF vm_okD(1) [OF U(1)] Q(1,3)] by blast
  have dis: "{q} \<inter> tables k pgdir = {}" "\<forall>p \<in> {q}. page_ok k p" using Q by auto
  have tp: "tables k pgdir \<inter> set (q # ps) = {}" using U(1) Q(2) by (auto simp: vm_ok_def)
  note F = table_frame [OF U(1) k'(3) dis] and v = vm_ok_frame [OF U(1) k'(3) dis k'(2,4) tp]
  have pe: "pte_of k' pgdir = pte_of k pgdir" using F(3) by (intro ext)
  have "uvm_ok B k' (q # ps) pgdir" by (rule uvm_transfer [OF ok v k'(4) pe, of "{q}"]) (use F(4) Q(4) in auto)
  then show ?thesis using k' pe F(4) by blast
qed

text \<open>Mapping one page.\<close>

lemma map_user_page:
  assumes ok: "uvm_ok B k ps pgdir" and q: "limbo B k ps pgdir q" and a: "unat a mod 4096 = 0" "vpn a < B" "\<not> present (pte_of k pgdir a)"
    and perm: "PTE_FLAGS (perm OR PTE_P) = perm OR PTE_P"
  shows "\<exists>r k' rs. mappages pgdir a PGSIZE (V2P q) perm k = Some (r, k') \<and> extends pgdir k ps k' rs \<and> uvm_ok B k' rs pgdir \<and>
    (r = 0 \<and> pte_of k' pgdir = (\<lambda>va. if vpn va = vpn a then V2P q OR perm OR PTE_P else pte_of k pgdir va) \<or>
     r = -1 \<and> ps = [] \<and> rs = [] \<and> pte_of k' pgdir = pte_of k pgdir \<and> limbo B k' rs pgdir q) \<and> length ps \<le> length rs + 1"
proof -
  note U = uvm_okD [OF ok] and Q = limboD [OF q]
  obtain c where c: "unat a = 4096 * c" using a(1) by auto
  have lt: "unat a + 4096 \<le> 2 ^ 32"
  proof -
    have "4096 * c < 4096 * 1048576" using unsigned_less [of a, where ?'a = nat] c by simp
    then show ?thesis using c by simp
  qed
  have d1: "PGROUNDDOWN a = a" by (rule word_unat_eq_iff [THEN iffD2]) (simp add: unat_PGROUNDDOWN c)
  have u: "unat (a + PGSIZE - 1) = unat a + 4095"
  proof -
    have e: "a + PGSIZE - 1 = a + 4095" by (simp add: PGSIZE_def)
    show ?thesis unfolding e using lt by (simp add: unat_word_ariths)
  qed
  have d2: "PGROUNDDOWN (a + PGSIZE - 1) = a" by (rule word_unat_eq_iff [THEN iffD2]) (simp add: unat_PGROUNDDOWN u, simp add: c)
  have mp: "mappages pgdir a PGSIZE (V2P q) perm k = map_loop (Suc 0) pgdir a a (V2P q) perm k"
    unfolding mappages_def Let_def d1 d2 by simp
  have np: "\<forall>va. vpn a \<le> vpn va \<and> vpn va \<le> vpn a + 0 \<longrightarrow> \<not> present (pte_of k pgdir va)"
  proof (intro allI impI)
    fix va assume "vpn a \<le> vpn va \<and> vpn va \<le> vpn a + 0"
    then have "vpn va = vpn a" by simp
    from pte_of_vpn [OF this, of k pgdir] a(3) show "\<not> present (pte_of k pgdir va)" by simp
  qed
  have fin: "unat a = unat a + 0 * 4096" by simp
  from map_loop_ok [OF U(1) a(1) fin np, of "V2P q" perm] obtain r k' rs where r: "mappages pgdir a PGSIZE (V2P q) perm k = Some (r, k')"
      "extends pgdir k ps k' rs"
      "r = 0 \<and> pte_of k' pgdir = map_range a (Suc 0) (V2P q) perm (pte_of k pgdir) \<or>
       r = -1 \<and> rs = [] \<and> length ps \<le> 0 \<and> (\<exists>j \<le> 0. pte_of k' pgdir = map_range a j (V2P q) perm (pte_of k pgdir))"
      "length ps \<le> length rs + Suc 0"
    unfolding mp by (elim exE conjE)
  have E: "vm_ok k' rs pgdir" "km_end k' = km_end k" "tables k' pgdir \<union> set rs = tables k pgdir \<union> set ps" using r(2) by (simp_all add: extends_def)
  have q': "q \<notin> tables k' pgdir \<union> set rs" using Q(2,3) E(3) by simp
  have m1: "map_range a (Suc 0) (V2P q) perm f = (\<lambda>va. if vpn va = vpn a then V2P q OR perm OR PTE_P else f va)"
    and m0: "map_range a 0 (V2P q) perm f = f" for f
    by (auto simp: map_range_def entry_def fun_eq_iff)
  from r(3) show ?thesis
  proof (elim disjE conjE exE)
    assume z: "r = 0" "pte_of k' pgdir = map_range a (Suc 0) (V2P q) perm (pte_of k pgdir)"
    define e where "e = V2P q OR perm OR PTE_P"
    have pe: "pte_of k' pgdir = (\<lambda>va. if vpn va = vpn a then e else pte_of k pgdir va)" unfolding z(2) m1 e_def ..
    have e: "PTE_ADDR e = V2P q" using pte_parts(1) [OF frame_word(1) [OF Q(1)] perm] by (simp add: e_def)
    have up: "upage k' pgdir va = (if vpn va = vpn a then q else upage k pgdir va)" for va unfolding upage_def pe using e by simp
    have old: "present (pte_of k pgdir va)" if "present (pte_of k' pgdir va)" "vpn va \<noteq> vpn a" for va using that by (simp add: pe)
    have "uvm_ok B k' rs pgdir" unfolding uvm_ok_def
    proof (intro conjI allI impI)
      fix va assume v: "vpn va < B \<and> present (pte_of k' pgdir va)"
      show "page_ok k' (upage k' pgdir va)" "upage k' pgdir va \<notin> tables k' pgdir \<union> set rs"
        using v Q(1) q' U(2,3,4) [of va] old [of va] E(3) unfolding up page_ok_end [OF E(2)] by (cases "vpn va = vpn a"; simp)+
    next
      fix va va' assume v: "vpn va < B \<and> vpn va' < B \<and> present (pte_of k' pgdir va) \<and> present (pte_of k' pgdir va') \<and> upage k' pgdir va = upage k' pgdir va'"
      then show "vpn va = vpn va'"
        using U(5) [of va va'] Q(4) [of va] Q(4) [of va'] old [of va] old [of va'] unfolding up
        by (cases "vpn va = vpn a"; cases "vpn va' = vpn a"; simp)
    qed (rule E(1))
    then show ?thesis using r(1,2,4) z(1) pe [unfolded e_def] by (intro exI [of _ r] exI [of _ k'] exI [of _ rs]) simp
  next
    fix j :: nat assume z: "r = -1" "rs = []" "j \<le> 0" and pn: "length ps \<le> 0" and zz: "pte_of k' pgdir = map_range a j (V2P q) perm (pte_of k pgdir)"
    then have pe: "pte_of k' pgdir = pte_of k pgdir" using m0 by simp
    have "uvm_ok B k' rs pgdir" by (rule uvm_transfer [OF ok E(1,2) pe, of "{}"]) (use E(3) in auto)
    moreover have "limbo B k' rs pgdir q" unfolding limbo_def page_ok_end [OF E(2)] upage_def pe using Q [unfolded upage_def] q' by blast
    ultimately show ?thesis using r(1,2) z(1,2) pe pn by (intro exI [of _ r] exI [of _ k'] exI [of _ rs]) simp
  qed
qed

section \<open>Shrinking\<close>

lemma PGROUNDUP_bounds:
  assumes "unat sz < 2 ^ 31"
  shows "unat (PGROUNDUP sz) mod 4096 = 0" "unat sz \<le> unat (PGROUNDUP sz)" "unat (PGROUNDUP sz) < unat sz + 4096"
proof -
  have u: "unat (PGROUNDUP sz) = (unat sz + 4095) div 4096 * 4096" using assms by (intro unat_PGROUNDUP) simp
  show "unat (PGROUNDUP sz) mod 4096 = 0" unfolding u by simp
  define q r where "q = (unat sz + 4095) div 4096" and "r = (unat sz + 4095) mod 4096"
  have "unat sz + 4095 = q * 4096 + r" "r < 4096" unfolding q_def r_def by simp_all
  then show "unat sz \<le> unat (PGROUNDUP sz)" "unat (PGROUNDUP sz) < unat sz + 4096" unfolding u q_def [symmetric] by simp_all
qed

lemma deallocuvm_ok:
  assumes ok: "uvm_ok B k ps pgdir" and sz: "unat oldsz \<le> B * 4096" "unat oldsz \<le> 2 ^ 31" and lt: "newsz < oldsz"
  shows "\<exists>k' qs. deallocuvm pgdir oldsz newsz k = Some (newsz, k') \<and> shrunk B pgdir (PGROUNDUP newsz) oldsz k ps k' qs"
proof -
  have n: "unat newsz < 2 ^ 31" using lt sz(2) by (simp add: word_less_nat_alt)
  have "pages_left (PGROUNDUP newsz) oldsz \<le> (unat oldsz + 4095) div 4096" unfolding pages_left_def by (intro div_le_mono) simp
  also have "\<dots> \<le> (unat oldsz + 4096) div 4096" by (intro div_le_mono) simp
  also have "\<dots> = unat oldsz div 4096 + 1" by (rule div_add_self2) simp
  finally have "pages_left (PGROUNDUP newsz) oldsz < page_fuel oldsz" by (simp add: page_fuel_def)
  from dealloc_loop_ok [OF ok PGROUNDUP_bounds(1) [OF n] sz this] obtain k' qs where
    "dealloc_loop (page_fuel oldsz) pgdir (PGROUNDUP newsz) oldsz k = Some k'" "shrunk B pgdir (PGROUNDUP newsz) oldsz k ps k' qs"
    by (elim exE conjE)
  moreover have "\<not> oldsz \<le> newsz" using lt by simp
  ultimately show ?thesis by (intro exI [of _ k'] exI [of _ qs]) (simp add: deallocuvm_def)
qed

section \<open>Growing\<close>

definition zeroed :: "mem \<Rightarrow> u32 \<Rightarrow> bool" where
  "zeroed m p = (\<forall>b \<in> page_bytes p. m b = 0)"

text \<open>The state of the loop of \<^verbatim>\<open>allocuvm\<close>: the pages from \<open>a0\<close> up to \<open>a\<close> are new ones, filled with zeros and writable by
  the user, and nothing else has changed; the pages in \<open>X\<close> are in hand.\<close>

definition grown :: "nat \<Rightarrow> u32 \<Rightarrow> u32 \<Rightarrow> u32 \<Rightarrow> kmem \<Rightarrow> u32 list \<Rightarrow> u32 set \<Rightarrow> kmem \<Rightarrow> u32 list \<Rightarrow> bool" where
  "grown B pgdir a0 a k0 ps0 X k ps = (uvm_ok B k ps pgdir \<and> km_end k = km_end k0 \<and> (\<forall>q \<in> X. limbo B k ps pgdir q) \<and>
     agree_off (tables k0 pgdir \<union> set ps0) (km_mem k0) (km_mem k) \<and> tables k0 pgdir \<subseteq> tables k pgdir \<and>
     tables k pgdir \<union> set ps \<union> X \<union> freed a0 a (pte_of k pgdir) = tables k0 pgdir \<union> set ps0 \<and>
     (\<forall>va. \<not> in_range a0 a va \<longrightarrow> pte_of k pgdir va = pte_of k0 pgdir va) \<and>
     (\<forall>va. in_range a0 a va \<longrightarrow> PTE_FLAGS (pte_of k pgdir va) = PTE_W OR PTE_U OR PTE_P \<and> upage k pgdir va \<in> set ps0 \<and>
        zeroed (km_mem k) (upage k pgdir va)))"

lemma grownD:
  assumes "grown B pgdir a0 a k0 ps0 X k ps"
  shows "uvm_ok B k ps pgdir" "km_end k = km_end k0" "q \<in> X \<Longrightarrow> limbo B k ps pgdir q"
    "agree_off (tables k0 pgdir \<union> set ps0) (km_mem k0) (km_mem k)" "tables k0 pgdir \<subseteq> tables k pgdir"
    "tables k pgdir \<union> set ps \<union> X \<union> freed a0 a (pte_of k pgdir) = tables k0 pgdir \<union> set ps0"
    "\<not> in_range a0 a va \<Longrightarrow> pte_of k pgdir va = pte_of k0 pgdir va"
    "in_range a0 a va \<Longrightarrow> PTE_FLAGS (pte_of k pgdir va) = PTE_W OR PTE_U OR PTE_P"
    "in_range a0 a va \<Longrightarrow> upage k pgdir va \<in> set ps0" "in_range a0 a va \<Longrightarrow> zeroed (km_mem k) (upage k pgdir va)"
  using assms unfolding grown_def by blast+

lemma grown_start:
  assumes "uvm_ok B k ps pgdir" "unat a0 mod 4096 = 0"
  shows "grown B pgdir a0 a0 k ps {} k ps"
proof -
  have "\<not> in_range a0 a0 va" for va by (rule in_range_empty [OF assms(2)]) simp
  then show ?thesis using assms(1) by (simp add: grown_def freed_def)
qed

text \<open>Undoing the growth.\<close>

lemma rollback:
  assumes g: "grown B pgdir (PGROUNDUP oldsz) a k0 ps0 X k ps" and sz: "unat newsz \<le> B * 4096" "unat newsz \<le> 2 ^ 31" "oldsz < newsz"
    and a: "unat a \<le> unat newsz" and free: "\<forall>va. in_range (PGROUNDUP oldsz) newsz va \<longrightarrow> pte_of k0 pgdir va = 0"
  shows "\<exists>k' qs. deallocuvm pgdir newsz oldsz k = Some (oldsz, k') \<and> uvm_ok B k' qs pgdir \<and> km_end k' = km_end k0 \<and>
    pte_of k' pgdir = pte_of k0 pgdir \<and> tables k' pgdir \<union> set qs \<union> X = tables k0 pgdir \<union> set ps0 \<and> tables k0 pgdir \<subseteq> tables k' pgdir \<and>
    agree_off (tables k0 pgdir \<union> set ps0) (km_mem k0) (km_mem k') \<and> (\<forall>q \<in> X. limbo B k' qs pgdir q)"
proof -
  let ?a0 = "PGROUNDUP oldsz" and ?f = "pte_of k pgdir"
  note G = grownD [OF g]
  from deallocuvm_ok [OF G(1) sz] obtain k' qs where k': "deallocuvm pgdir newsz oldsz k = Some (oldsz, k')" "shrunk B pgdir ?a0 newsz k ps k' qs"
    by (elim exE conjE)
  have S: "uvm_ok B k' qs pgdir" "tables k' pgdir = tables k pgdir" "km_end k' = km_end k" "set qs = set ps \<union> freed ?a0 newsz ?f"
      "agree_off (tables k pgdir \<union> freed ?a0 newsz ?f) (km_mem k) (km_mem k')" "pte_of k' pgdir = removed ?a0 newsz ?f"
    using k'(2) by (simp_all add: shrunk_def)
  have sub: "in_range ?a0 a va \<Longrightarrow> in_range ?a0 newsz va" for va using a by (auto simp: in_range_def)
  have pr: "in_range ?a0 newsz va \<and> present (?f va) \<longleftrightarrow> in_range ?a0 a va \<and> present (?f va)" for va
    using sub [of va] G(7) [of va] free by (cases "in_range ?a0 a va") auto
  have fr: "freed ?a0 newsz ?f = freed ?a0 a ?f" unfolding freed_def by (simp only: pr)
  have pres: "present (?f va)" if "in_range ?a0 a va" for va
  proof -
    have "bit (PTE_FLAGS (?f va)) 0" unfolding G(8) [OF that] by (simp add: bit_simps PTE_P_def)
    then show ?thesis by (simp add: present_odd PTE_FLAGS_def bit_simps)
  qed
  have pe: "pte_of k' pgdir = pte_of k0 pgdir"
  proof (rule ext)
    fix va show "pte_of k' pgdir va = pte_of k0 pgdir va"
      unfolding S(6) removed_def using pr [of va] pres [of va] G(7) [of va] free sub [of va] by (cases "in_range ?a0 a va") auto
  qed
  have un: "tables k' pgdir \<union> set qs \<union> X = tables k0 pgdir \<union> set ps0" unfolding S(2,4) fr G(6) [symmetric] by blast
  have "tables k pgdir \<union> freed ?a0 newsz ?f \<subseteq> tables k0 pgdir \<union> set ps0" unfolding fr G(6) [symmetric] by blast
  then have "agree_off (tables k0 pgdir \<union> set ps0) (km_mem k) (km_mem k')" by (rule agree_off_mono [OF S(5)])
  from agree_off_trans [OF G(4) this] have ag: "agree_off (tables k0 pgdir \<union> set ps0) (km_mem k0) (km_mem k')" by simp
  have "limbo B k' qs pgdir q" if "q \<in> X" for q
  proof -
    note L = limboD [OF G(3) [OF that]]
    have B: "vpn va < B" if "in_range ?a0 newsz va" for va using that sz(1) by (simp add: in_range_def)
    have "q \<notin> freed ?a0 newsz ?f" using L(4) B unfolding freed_def upage_def [symmetric] by blast
    moreover have "upage k' pgdir va \<noteq> q" if "vpn va < B" "present (pte_of k' pgdir va)" for va
      using that L(4) [of va] unfolding upage_def S(6) removed_def by (auto split: if_splits)
    ultimately show ?thesis using L(1,2,3) unfolding limbo_def S(2,4) page_ok_end [OF S(3)] by blast
  qed
  then show ?thesis using k'(1) S(1,3) G(2,5) pe un ag S(2) by (intro exI [of _ k'] exI [of _ qs]) simp
qed

lemma zeroed_frame:
  assumes "zeroed m p" "agree_off P m m'" "\<forall>q \<in> P. page_bytes p \<inter> page_bytes q = {}"
  shows "zeroed m' p"
  unfolding zeroed_def
proof
  fix b assume b: "b \<in> page_bytes p"
  then have "b \<notin> (\<Union>q \<in> P. page_bytes q)" using assms(3) by blast
  then have "m' b = m b" using assms(2) unfolding agree_off_def by blast
  then show "m' b = 0" using assms(1) b by (simp add: zeroed_def)
qed

lemma zeroed_clear: "zeroed (km_mem (clear_page p k)) p"
  by (simp add: zeroed_def clear_page_def memset_eq memset_m_def page_bytes_def)

lemma user_flags: "PTE_FLAGS ((PTE_W OR PTE_U) OR PTE_P) = (PTE_W OR PTE_U) OR PTE_P"
  by (simp add: PTE_FLAGS_def PTE_W_def PTE_U_def PTE_P_def)

lemma clear_page_limbo:
  assumes "uvm_ok B k ps pgdir" "limbo B k ps pgdir q"
  shows "uvm_ok B (clear_page q k) ps pgdir" "limbo B (clear_page q k) ps pgdir q" "pte_of (clear_page q k) pgdir = pte_of k pgdir"
    "tables (clear_page q k) pgdir = tables k pgdir" "km_end (clear_page q k) = km_end k"
  using uvm_write [OF assms, of "km_mem (clear_page q k)"] agree_clear [of q k] by (simp_all add: clear_page_def)

text \<open>One turn of the loop.\<close>

lemma grow_step:
  assumes g: "grown B pgdir a0 a k0 ps0 {} k (q # qs)" and a: "unat a mod 4096 = 0" "vpn a < B" "\<not> present (pte_of k pgdir a)"
    "vpn a0 \<le> vpn a" "unat a + 4096 < 2 ^ 32"
  shows "\<exists>k1 r k' rs. kalloc k = Some (q, k1) \<and> q \<noteq> 0 \<and> mappages pgdir a PGSIZE (V2P q) (PTE_W OR PTE_U) (clear_page q k1) = Some (r, k') \<and>
    (r = 0 \<and> grown B pgdir a0 (a + PGSIZE) k0 ps0 {} k' rs \<and> length qs \<le> length rs + 1 \<or>
     r = -1 \<and> qs = [] \<and> grown B pgdir a0 a k0 ps0 {q} k' rs)"
proof -
  note G = grownD [OF g] and N = next_page [OF a(1,5)]
  from uvm_kalloc [OF G(1)] obtain k1 where k1: "kalloc k = Some (q, k1)" "uvm_ok B k1 qs pgdir" "limbo B k1 qs pgdir q" "km_mem k1 = km_mem k" "km_end k1 = km_end k"
    by (elim exE conjE)
  note S = same_mem [OF k1(4)]
  define k2 where "k2 = clear_page q k1"
  note C = clear_page_limbo [OF k1(2,3), folded k2_def]
  have np: "\<not> present (pte_of k2 pgdir a)" using a(3) C(3) S(4) by simp
  from map_user_page [OF C(1,2) a(1,2) np user_flags] obtain r k' rs where m: "mappages pgdir a PGSIZE (V2P q) (PTE_W OR PTE_U) k2 = Some (r, k')"
      "extends pgdir k2 qs k' rs" "uvm_ok B k' rs pgdir"
      "r = 0 \<and> pte_of k' pgdir = (\<lambda>va. if vpn va = vpn a then V2P q OR (PTE_W OR PTE_U) OR PTE_P else pte_of k2 pgdir va) \<or>
       r = -1 \<and> qs = [] \<and> rs = [] \<and> pte_of k' pgdir = pte_of k2 pgdir \<and> limbo B k' rs pgdir q" "length qs \<le> length rs + 1" by (elim exE conjE)
  have E: "km_end k' = km_end k0" "tables k' pgdir \<union> set rs = tables k pgdir \<union> set qs" "tables k0 pgdir \<subseteq> tables k' pgdir"
      "agree_off (tables k' pgdir) (km_mem k2) (km_mem k')"
    using m(2) C(4,5) k1(5) S(3) G(2,5) unfolding extends_def by auto
  have same: "pte_of k2 pgdir = pte_of k pgdir" using C(3) S(4) by simp
  have qk: "page_ok k q" using limboD(1) [OF k1(3)] page_ok_end [OF k1(5)] by simp
  have qn: "q \<notin> tables k' pgdir" "q \<in> tables k0 pgdir \<union> set ps0" using limboD(2,3) [OF k1(3)] S(3) E(2) G(6) by auto
  have "agree_off ({q} \<union> tables k' pgdir) (km_mem k) (km_mem k')"
    using agree_off_trans [OF agree_clear [of q k1, folded k2_def] E(4)] k1(4) by simp
  moreover have "{q} \<union> tables k' pgdir \<subseteq> tables k0 pgdir \<union> set ps0" using qn(2) E(2) G(6) by auto
  ultimately have "agree_off (tables k0 pgdir \<union> set ps0) (km_mem k) (km_mem k')" and agq: "agree_off ({q} \<union> tables k' pgdir) (km_mem k) (km_mem k')"
    using agree_off_mono by blast+
  from agree_off_trans [OF G(4) this(1)] have ag: "agree_off (tables k0 pgdir \<union> set ps0) (km_mem k0) (km_mem k')" by simp
  have pkt: "\<forall>t \<in> tables k' pgdir. page_ok k t"
    using uvm_okD(1) [OF m(3)] page_ok_end [of k' k] E(1) G(2) by (simp add: vm_ok_def)
  have keep: "zeroed (km_mem k') (upage k pgdir va)" if "in_range a0 a va" "vpn va < B" "present (pte_of k pgdir va)" for va
  proof (rule zeroed_frame [OF G(10) [OF that(1)] agq])
    note u = uvm_okD(2,3,4) [OF G(1) that(2,3)]
    have "upage k pgdir va \<noteq> t \<and> page_ok k t" if "t \<in> {q} \<union> tables k' pgdir" for t
      using that u(2,3) E(2) qk pkt by auto
    then show "\<forall>t \<in> {q} \<union> tables k' pgdir. page_bytes (upage k pgdir va) \<inter> page_bytes t = {}" using page_disjoint [OF u(1)] by blast
  qed
  have q0: "q \<in> set ps0" using qn(2) limboD(2) [OF k1(3)] S(3) G(5) by auto
  have rngB: "vpn va < B" if "in_range a0 a va" for va
  proof -
    have "vpn va * 4096 < vpn a * 4096" using that a(1) by (auto simp: in_range_def vpn_def)
    then show ?thesis using a(2) by simp
  qed
  have pres: "present (pte_of k pgdir va)" if "in_range a0 a va" for va
  proof -
    have "bit (PTE_FLAGS (pte_of k pgdir va)) 0" unfolding G(8) [OF that] by (simp add: bit_simps PTE_P_def)
    then show ?thesis by (simp add: present_odd PTE_FLAGS_def bit_simps)
  qed
  show ?thesis
  proof (cases "r = 0")
    case False
    then have f: "r = -1" "rs = []" "pte_of k' pgdir = pte_of k pgdir" "limbo B k' rs pgdir q" "qs = []" using m(4) same by auto
    have "upage k' pgdir = upage k pgdir" using f(3) by (simp add: upage_def fun_eq_iff)
    moreover have "tables k' pgdir \<union> set rs \<union> {q} \<union> freed a0 a (pte_of k pgdir) = tables k0 pgdir \<union> set ps0" using E(2) G(6) by auto
    ultimately have "grown B pgdir a0 a k0 ps0 {q} k' rs"
      unfolding grown_def f(3) using m(3) E(1,3) f(4) ag G(7,8,9) keep rngB pres by simp
    then show ?thesis using k1(1) limboD(1) [OF k1(3)] page_ok_aligned(3) m(1) f(1,5) unfolding k2_def by blast
  next
    case True
    define e where "e = V2P q OR (PTE_W OR PTE_U) OR PTE_P"
    have pe: "pte_of k' pgdir = (\<lambda>va. if vpn va = vpn a then e else pte_of k pgdir va)" using m(4) True unfolding same e_def [symmetric] by simp
    have e: "PTE_ADDR e = V2P q" "PTE_FLAGS e = PTE_W OR PTE_U OR PTE_P"
      using pte_parts [OF frame_word(1) [OF qk] user_flags] by (simp_all add: e_def or.assoc)
    have up: "upage k' pgdir va = (if vpn va = vpn a then q else upage k pgdir va)" for va unfolding upage_def pe using e(1) by simp
    have rng: "in_range a0 (a + PGSIZE) va \<longleftrightarrow> vpn va = vpn a \<or> in_range a0 a va" for va
    proof -
      obtain c where c: "unat a = 4096 * c" using a(1) by auto
      then have "vpn a = c" by (simp add: vpn_def)
      then show ?thesis using a(4) c unfolding in_range_def N(1) by auto
    qed
    have nin: "vpn va \<noteq> vpn a" if "in_range a0 a va" for va using that a(1) by (auto simp: in_range_def vpn_def)
    have "freed a0 (a + PGSIZE) (pte_of k' pgdir) = insert q (freed a0 a (pte_of k pgdir))"
    proof -
      have pe': "present e" by (simp add: e_def present_odd bit_simps PTE_P_def)
      have "{va. in_range a0 (a + PGSIZE) va \<and> present (pte_of k' pgdir va)} = {va. vpn va = vpn a} \<union> {va. in_range a0 a va \<and> present (pte_of k pgdir va)}"
        using rng pe' nin by (auto simp: pe)
      moreover have "upage k' pgdir ` {va. vpn va = vpn a} = {q}" using up by auto
      moreover have "upage k' pgdir ` {va. in_range a0 a va \<and> present (pte_of k pgdir va)} = upage k pgdir ` {va. in_range a0 a va \<and> present (pte_of k pgdir va)}"
        using up nin by (intro image_cong) auto
      ultimately show ?thesis unfolding freed_def upage_def [symmetric] by (simp add: image_Un)
    qed
    then have "tables k' pgdir \<union> set rs \<union> {} \<union> freed a0 (a + PGSIZE) (pte_of k' pgdir) = tables k0 pgdir \<union> set ps0" using E(2) G(6) by auto
    moreover have "zeroed (km_mem k') q"
    proof (rule zeroed_frame [OF zeroed_clear [of q k1, folded k2_def] E(4)])
      show "\<forall>t \<in> tables k' pgdir. page_bytes q \<inter> page_bytes t = {}" using page_disjoint [OF qk] pkt qn(1) by blast
    qed
    moreover have "PTE_FLAGS (pte_of k' pgdir va) = PTE_W OR PTE_U OR PTE_P" if "in_range a0 (a + PGSIZE) va" for va
      using that e(2) G(8) [of va] rng [of va] by (auto simp: pe)
    ultimately have "grown B pgdir a0 (a + PGSIZE) k0 ps0 {} k' rs"
      unfolding grown_def using m(3) E(1,3) ag rng q0 G(7,9) keep rngB pres by (simp add: up) (auto simp: pe)
    then show ?thesis using k1(1) limboD(1) [OF k1(3)] page_ok_aligned(3) m(1,5) True unfolding k2_def by blast
  qed
qed

text \<open>The page below which the memory of a process ends.\<close>

definition user_limit :: nat where
  "user_limit = unat MMAPBASE div 4096"

lemma user_limit_eq: "user_limit = 393216" "unat MMAPBASE = 1610612736"
  by (simp_all add: user_limit_def MMAPBASE_def)

definition rolled :: "u32 \<Rightarrow> kmem \<Rightarrow> u32 list \<Rightarrow> kmem \<Rightarrow> u32 list \<Rightarrow> bool" where
  "rolled pgdir k0 ps0 k qs = (uvm_ok user_limit k qs pgdir \<and> pte_of k pgdir = pte_of k0 pgdir \<and>
     tables k pgdir \<union> set qs = tables k0 pgdir \<union> set ps0 \<and> agree_off (tables k0 pgdir \<union> set ps0) (km_mem k0) (km_mem k))"

lemma alloc_loop_ok:
  assumes "grown user_limit pgdir (PGROUNDUP oldsz) a k0 ps0 {} k ps" "unat a mod 4096 = 0" "unat (PGROUNDUP oldsz) \<le> unat a"
    "newsz < MMAPBASE" "oldsz \<le> newsz" "unat a \<le> unat newsz + 4095"
    "\<forall>va. in_range (PGROUNDUP oldsz) newsz va \<longrightarrow> pte_of k0 pgdir va = 0" "pages_left a newsz < n"
  shows "\<exists>r k' qs. alloc_loop n pgdir a oldsz newsz k = Some (r, k') \<and>
    (r = newsz \<and> (\<exists>b. grown user_limit pgdir (PGROUNDUP oldsz) b k0 ps0 {} k' qs \<and> unat b mod 4096 = 0 \<and> unat newsz \<le> unat b \<and> unat b \<le> unat newsz + 4095) \<or>
     r = 0 \<and> rolled pgdir k0 ps0 k' qs \<and> length ps < 2 * pages_left a newsz)"
  using assms(1-3,6,8)
proof (induction n arbitrary: k ps a)
  case (Suc n)
  have nz: "unat newsz < unat MMAPBASE" using assms(4) by (simp add: word_less_nat_alt)
  show ?case
  proof (cases "a < newsz")
    case False
    then have "unat newsz \<le> unat a" by (simp add: word_less_nat_alt)
    then show ?thesis using False Suc.prems by (intro exI [of _ newsz] exI [of _ k] exI [of _ ps]) auto
  next
    case True
    then have an: "unat a < unat newsz" by (simp add: word_less_nat_alt)
    note G = grownD [OF Suc.prems(1)]
    let ?a0 = "PGROUNDUP oldsz"
    have o31: "unat oldsz < 2 ^ 31" using assms(5) nz user_limit_eq(2) by (simp add: word_le_nat_alt)
    have old: "oldsz < newsz" using PGROUNDUP_bounds(2) [OF o31] Suc.prems(3) an by (simp add: word_less_nat_alt)
    have sz: "unat newsz \<le> user_limit * 4096" "unat newsz \<le> 2 ^ 31" using nz user_limit_eq by simp_all
    have av: "vpn a * 4096 = unat a" using Suc.prems(2) by (auto simp: vpn_def)
    have vB: "vpn a < user_limit" using av an sz(1) by simp
    have v0: "vpn ?a0 \<le> vpn a" unfolding vpn_def by (rule div_le_mono [OF Suc.prems(3)])
    have ain: "\<not> in_range ?a0 a a" using av by (simp add: in_range_def)
    have "in_range ?a0 newsz a" using v0 av an by (simp add: in_range_def)
    then have np: "\<not> present (pte_of k pgdir a)" using G(7) [OF ain] assms(7) by simp
    have b32: "unat a + 4096 < 2 ^ 32" using an sz(2) by simp
    note N = next_page [OF Suc.prems(2) b32]
    have less: "pages_left (a + PGSIZE) newsz < pages_left a newsz" using pages_left_less [OF an, of "a + PGSIZE"] N(1) by simp
    show ?thesis
    proof (cases ps)
      case Nil
      have kn: "kalloc k = Some (0, k)" using kalloc_eq [OF vm_okD(1) [OF uvm_okD(1) [OF G(1)]]] Nil by simp
      from rollback [OF Suc.prems(1) sz old _ assms(7)] an obtain k' qs where r: "deallocuvm pgdir newsz oldsz k = Some (oldsz, k')"
          "uvm_ok user_limit k' qs pgdir" "pte_of k' pgdir = pte_of k0 pgdir" "tables k' pgdir \<union> set qs \<union> {} = tables k0 pgdir \<union> set ps0"
          "agree_off (tables k0 pgdir \<union> set ps0) (km_mem k0) (km_mem k')" by auto
      have "alloc_loop (Suc n) pgdir a oldsz newsz k = Some (0, k')" using True kn r(1) by simp
      moreover have "rolled pgdir k0 ps0 k' qs" using r(2-5) by (simp add: rolled_def)
      ultimately show ?thesis using Nil less by auto
    next
      case (Cons q qs)
      from grow_step [OF Suc.prems(1) [unfolded Cons] Suc.prems(2) vB np v0 b32] obtain k1 r k' rs where
        s: "kalloc k = Some (q, k1)" "q \<noteq> 0" "mappages pgdir a PGSIZE (V2P q) (PTE_W OR PTE_U) (clear_page q k1) = Some (r, k')"
          "r = 0 \<and> grown user_limit pgdir ?a0 (a + PGSIZE) k0 ps0 {} k' rs \<and> length qs \<le> length rs + 1 \<or>
           r = -1 \<and> qs = [] \<and> grown user_limit pgdir ?a0 a k0 ps0 {q} k' rs"
        by (elim exE conjE)
      from s(4) show ?thesis
      proof (elim disjE conjE)
        assume g: "r = 0" "grown user_limit pgdir ?a0 (a + PGSIZE) k0 ps0 {} k' rs" "length qs \<le> length rs + 1"
        have e: "alloc_loop (Suc n) pgdir a oldsz newsz k = alloc_loop n pgdir (a + PGSIZE) oldsz newsz k'" using True s(1-3) g(1) by simp
        have c1: "pages_left (a + PGSIZE) newsz < n" using less Suc.prems(5) by simp
        have c2: "unat ?a0 \<le> unat (a + PGSIZE)" using N(1) Suc.prems(3) by simp
        have c3: "unat (a + PGSIZE) \<le> unat newsz + 4095" using N(1) an by simp
        have len: "length rs < 2 * pages_left (a + PGSIZE) newsz \<Longrightarrow> length ps < 2 * pages_left a newsz" using less g(3) Cons by simp
        from Suc.IH [OF g(2) N(3) c2 c3 c1] obtain r2 k2 qs2 where i: "alloc_loop n pgdir (a + PGSIZE) oldsz newsz k' = Some (r2, k2)"
          "r2 = newsz \<and> (\<exists>b. grown user_limit pgdir ?a0 b k0 ps0 {} k2 qs2 \<and> unat b mod 4096 = 0 \<and> unat newsz \<le> unat b \<and> unat b \<le> unat newsz + 4095) \<or>
           r2 = 0 \<and> rolled pgdir k0 ps0 k2 qs2 \<and> length rs < 2 * pages_left (a + PGSIZE) newsz" by (elim exE conjE)
        from i(2) show ?thesis
        proof
          assume r: "r2 = 0 \<and> rolled pgdir k0 ps0 k2 qs2 \<and> length rs < 2 * pages_left (a + PGSIZE) newsz"
          then have "length ps < 2 * pages_left a newsz" by (intro len) simp
          then show ?thesis using r i(1) unfolding e by blast
        next
          assume "r2 = newsz \<and> (\<exists>b. grown user_limit pgdir ?a0 b k0 ps0 {} k2 qs2 \<and> unat b mod 4096 = 0 \<and> unat newsz \<le> unat b \<and> unat b \<le> unat newsz + 4095)"
          then show ?thesis using i(1) unfolding e by - (rule exI [of _ r2], rule exI [of _ k2], rule exI [of _ qs2], simp)
        qed
      next
        assume g: "r = -1" "grown user_limit pgdir ?a0 a k0 ps0 {q} k' rs" and qn: "qs = []"
        from rollback [OF g(2) sz old _ assms(7)] an obtain k2 qs2 where r: "deallocuvm pgdir newsz oldsz k' = Some (oldsz, k2)"
          "uvm_ok user_limit k2 qs2 pgdir" "pte_of k2 pgdir = pte_of k0 pgdir" "tables k2 pgdir \<union> set qs2 \<union> {q} = tables k0 pgdir \<union> set ps0"
          "agree_off (tables k0 pgdir \<union> set ps0) (km_mem k0) (km_mem k2)" "\<forall>q \<in> {q}. limbo user_limit k2 qs2 pgdir q"
          using order_less_imp_le [OF an] by blast
        from uvm_kfree [OF r(2), of q] r(6) obtain k3 where k3: "kfree q k2 = Some k3" "uvm_ok user_limit k3 (q # qs2) pgdir"
          "pte_of k3 pgdir = pte_of k2 pgdir" "tables k3 pgdir = tables k2 pgdir" "agree_off {q} (km_mem k2) (km_mem k3)" by blast
        have "alloc_loop (Suc n) pgdir a oldsz newsz k = Some (0, k3)" using True s(1-3) g(1) r(1) k3(1) by simp
        moreover have "q \<in> tables k0 pgdir \<union> set ps0" using r(4) by blast
        then have "agree_off (tables k0 pgdir \<union> set ps0) (km_mem k0) (km_mem k3)"
          using agree_off_trans [OF r(5) k3(5)] by (simp add: insert_absorb Un_absorb1)
        then have "rolled pgdir k0 ps0 k3 (q # qs2)" using k3(2-4) r(3,4) unfolding rolled_def by auto
        ultimately show ?thesis using Cons qn less by auto
      qed
    qed
  qed
qed simp

section \<open>A directory without entries\<close>

lemma fresh_dir:
  assumes "kmem_ok k (q # qs)"
  shows "\<exists>k'. kalloc k = Some (q, k') \<and> uvm_ok B (clear_page q k') qs q \<and> pte_of (clear_page q k') q = (\<lambda>va. 0) \<and>
    tables (clear_page q k') q = {q}"
proof -
  obtain k' where k': "kalloc k = Some (q, k')" "kmem_ok k' qs" "km_mem k' = km_mem k" "km_end k' = km_end k" "q \<notin> set qs"
    using kalloc_eq [OF assms] by auto
  have qk: "page_ok k q" using assms by (simp add: kmem_ok_def)
  then have qk': "page_ok k' q" using k'(4) by (simp add: page_ok_def)
  let ?k = "clear_page q k'"
  have "kmem_ok (k'\<lparr>km_mem := km_mem ?k\<rparr>) qs" by (rule kmem_ok_frame [OF k'(2) agree_clear]) (use qk' k'(5) in auto)
  then have km: "kmem_ok ?k qs" by (simp add: clear_page_def)
  have t: "tabs ?k q = {}" using cleared [of _ q k'] by (auto simp: tabs_def)
  have pe: "pte_of ?k q = (\<lambda>va. 0)" by (simp add: pte_of_def t fun_eq_iff)
  have tb: "tables ?k q = {q}" by (simp add: tables_def t)
  have "vm_ok ?k qs q" using km qk' k'(5) by (simp add: vm_ok_def tb t)
  then have "uvm_ok B ?k qs q" by (simp add: uvm_ok_def pe)
  then show ?thesis using k'(1) pe tb by blast
qed

section \<open>Properties\<close>

text \<open>C8. Growing a process from \<open>oldsz\<close> to \<open>newsz\<close> bytes is all or nothing: \<^verbatim>\<open>allocuvm\<close> returns \<open>newsz\<close>, and then every new
  page is mapped, writable by the user, to a page of zeros of its own that was free, and every other entry is as
  before; or it returns 0, which it does only with fewer than two free pages for each
  new page, and then every entry is as before and no page is lost.
  The memory of other pages does not change, and no page is ever both free, a page table and mapped.\<close>

theorem allocuvm_all_or_nothing:
  assumes "uvm_ok user_limit k ps pgdir" "oldsz \<le> newsz" "newsz < MMAPBASE"
    "\<forall>va. in_range (PGROUNDUP oldsz) newsz va \<longrightarrow> pte_of k pgdir va = 0"
  shows "\<exists>r k' qs. allocuvm pgdir oldsz newsz k = Some (r, k') \<and> uvm_ok user_limit k' qs pgdir \<and>
    agree_off (tables k pgdir \<union> set ps) (km_mem k) (km_mem k') \<and>
    (r = newsz \<and> (\<forall>va. if in_range (PGROUNDUP oldsz) newsz va
         then PTE_FLAGS (pte_of k' pgdir va) = PTE_W OR PTE_U OR PTE_P \<and> upage k' pgdir va \<in> set ps \<and> zeroed (km_mem k') (upage k' pgdir va)
         else pte_of k' pgdir va = pte_of k pgdir va) \<or>
     r = 0 \<and> pte_of k' pgdir = pte_of k pgdir \<and> tables k' pgdir \<union> set qs = tables k pgdir \<union> set ps \<and>
       length ps < 2 * pages_left (PGROUNDUP oldsz) newsz)"
proof -
  let ?a0 = "PGROUNDUP oldsz"
  have nz: "unat newsz < 1610612736" using assms(3) user_limit_eq(2) by (simp add: word_less_nat_alt)
  have on: "unat oldsz \<le> unat newsz" using assms(2) by (simp add: word_le_nat_alt)
  then have o31: "unat oldsz < 2 ^ 31" using nz by simp
  note P = PGROUNDUP_bounds [OF o31]
  have "pages_left ?a0 newsz \<le> (unat newsz + 4095) div 4096" unfolding pages_left_def by (intro div_le_mono) simp
  also have "\<dots> \<le> (unat newsz + 4096) div 4096" by (intro div_le_mono) simp
  also have "\<dots> = unat newsz div 4096 + 1" by (rule div_add_self2) simp
  finally have f1: "pages_left ?a0 newsz < page_fuel newsz" by (simp add: page_fuel_def)
  have f2: "unat ?a0 \<le> unat newsz + 4095" using P(3) on by simp
  from alloc_loop_ok [OF grown_start [OF assms(1) P(1)] P(1) order_refl assms(3,2) f2 assms(4) f1] obtain r k' qs where r: "alloc_loop (page_fuel newsz) pgdir ?a0 oldsz newsz k = Some (r, k')"
    "r = newsz \<and> (\<exists>b. grown user_limit pgdir ?a0 b k ps {} k' qs \<and> unat b mod 4096 = 0 \<and> unat newsz \<le> unat b \<and> unat b \<le> unat newsz + 4095) \<or>
     r = 0 \<and> rolled pgdir k ps k' qs \<and> length ps < 2 * pages_left ?a0 newsz"
    by (elim exE conjE)
  have "\<not> MMAPBASE \<le> newsz" "\<not> newsz < oldsz" using assms(2,3) by simp_all
  then have e: "allocuvm pgdir oldsz newsz k = Some (r, k')" using r(1) by (simp add: allocuvm_def)
  from r(2) show ?thesis
  proof (elim disjE conjE exE)
    fix b assume b: "r = newsz" "grown user_limit pgdir ?a0 b k ps {} k' qs" "unat b mod 4096 = 0" "unat newsz \<le> unat b" "unat b \<le> unat newsz + 4095"
    obtain c where c: "unat b = 4096 * c" using b(3) by auto
    have "in_range ?a0 b va = in_range ?a0 newsz va" for va using b(4,5) unfolding in_range_def c by auto
    then show ?thesis using e b(1) grownD [OF b(2)] by (intro exI [of _ r] exI [of _ k'] exI [of _ qs]) simp
  next
    assume "r = 0" "rolled pgdir k ps k' qs" "length ps < 2 * pages_left ?a0 newsz"
    then show ?thesis using e unfolding rolled_def by (intro exI [of _ r] exI [of _ k'] exI [of _ qs]) simp
  qed
qed

text \<open>C38. Shrinking a process frees exactly its pages from the new size up: for a well-formed page table and an old size of at most \<^verbatim>\<open>MMAPBASE\<close>, \<^verbatim>\<open>deallocuvm\<close> returns the new size, the present
  entries in the range are cleared and all others kept, the freed pages are put on the free list and nothing
  else is, and only page tables and freed pages are written.\<close>

theorem deallocuvm_frees:
  assumes "uvm_ok user_limit k ps pgdir" "newsz < oldsz" "oldsz \<le> MMAPBASE"
  shows "\<exists>k' qs. deallocuvm pgdir oldsz newsz k = Some (newsz, k') \<and> uvm_ok user_limit k' qs pgdir \<and>
    (\<forall>va. pte_of k' pgdir va = (if in_range (PGROUNDUP newsz) oldsz va \<and> present (pte_of k pgdir va) then 0 else pte_of k pgdir va)) \<and>
    set qs = set ps \<union> upage k pgdir ` {va. in_range (PGROUNDUP newsz) oldsz va \<and> present (pte_of k pgdir va)} \<and>
    tables k' pgdir = tables k pgdir \<and> agree_off (tables k pgdir \<union> (set qs - set ps)) (km_mem k) (km_mem k')"
proof -
  have o: "unat oldsz \<le> user_limit * 4096" "unat oldsz \<le> 2 ^ 31" using assms(3) user_limit_eq by (simp_all add: word_le_nat_alt)
  from deallocuvm_ok [OF assms(1) o assms(2)] obtain k' qs where k': "deallocuvm pgdir oldsz newsz k = Some (newsz, k')"
    "shrunk user_limit pgdir (PGROUNDUP newsz) oldsz k ps k' qs" by (elim exE conjE)
  have fr: "freed (PGROUNDUP newsz) oldsz (pte_of k pgdir) = upage k pgdir ` {va. in_range (PGROUNDUP newsz) oldsz va \<and> present (pte_of k pgdir va)}"
    by (simp add: freed_def upage_def)
  have "vpn va < user_limit" if "in_range (PGROUNDUP newsz) oldsz va" for va using that o(1) by (simp add: in_range_def)
  then have "freed (PGROUNDUP newsz) oldsz (pte_of k pgdir) \<inter> set ps = {}" unfolding fr using uvm_okD(4) [OF assms(1)] by blast
  then have "set qs - set ps = freed (PGROUNDUP newsz) oldsz (pte_of k pgdir)" using k'(2) unfolding shrunk_def by blast
  then show ?thesis using k' unfolding shrunk_def fr by (intro exI [of _ k'] exI [of _ qs]) (simp add: removed_def)
qed

text \<open>A machine with six free pages, one of which becomes the directory of a process that grows to two pages.\<close>

definition small_kmem :: kmem where
  "small_kmem = \<lparr>km_lock = False, km_use_lock = False, km_freelist = 0, km_mem = (\<lambda>_. 0), km_end = 0x80108000\<rparr>"

lemma small_pages: "page_run (PGROUNDUP 0x80108000) 6 = [0x8010D000, 0x8010C000, 0x8010B000, 0x8010A000, 0x80109000, 0x80108000]"
  by (simp add: PGROUNDUP_def PGSIZE_def numeral_eq_Suc)

lemma small_kinit: "\<exists>k'. kinit1 0x80108000 0x8010E000 small_kmem = Some k' \<and> kmem_ok k' (page_run (PGROUNDUP 0x80108000) 6)"
proof -
  have up: "PGROUNDUP 0x80108000 = 0x80108000" by (simp add: PGROUNDUP_def PGSIZE_def)
  have 1: "kmem_ok small_kmem []" by (simp add: kmem_ok_def small_kmem_def)
  have 2: "6 = (unat (0x8010E000 :: u32) - unat (PGROUNDUP 0x80108000)) div 4096" by (simp add: up)
  have 3: "\<forall>q \<in> set (page_run (PGROUNDUP 0x80108000) 6). page_ok small_kmem q"
    unfolding small_pages by (simp add: page_ok_def small_kmem_def PGSIZE_def V2P_def KERNBASE_def PHYSTOP_def)
  have 4: "distinct (page_run (PGROUNDUP 0x80108000) 6 @ [])" unfolding small_pages by simp
  from freerange_ok [OF 1 2 3 4] show ?thesis by (auto simp: kinit1_def small_kmem_def)
qed

lemma small_dir:
  obtains k k1 where "kinit1 0x80108000 0x8010E000 small_kmem = Some k" "kalloc k = Some (0x8010D000, k1)"
    "uvm_ok user_limit (clear_page 0x8010D000 k1) [0x8010C000, 0x8010B000, 0x8010A000, 0x80109000, 0x80108000] 0x8010D000"
    "pte_of (clear_page 0x8010D000 k1) 0x8010D000 = (\<lambda>va. 0)"
proof -
  obtain k where k: "kinit1 0x80108000 0x8010E000 small_kmem = Some k" "kmem_ok k (page_run (PGROUNDUP 0x80108000) 6)" using small_kinit by blast
  from fresh_dir [OF k(2) [unfolded small_pages], of user_limit] that k(1) show ?thesis by blast
qed

theorem allocuvm_all_or_nothing_witness:
  "\<exists>k k1 k'. kinit1 0x80108000 0x8010E000 small_kmem = Some k \<and> kalloc k = Some (0x8010D000, k1) \<and>
    allocuvm 0x8010D000 0 8192 (clear_page 0x8010D000 k1) = Some (8192, k') \<and>
    PTE_FLAGS (pte_of k' 0x8010D000 4096) = PTE_W OR PTE_U OR PTE_P \<and> pte_of k' 0x8010D000 8192 = 0"
proof -
  obtain k k1 where k: "kinit1 0x80108000 0x8010E000 small_kmem = Some k" "kalloc k = Some (0x8010D000, k1)"
    and u: "uvm_ok user_limit (clear_page 0x8010D000 k1) [0x8010C000, 0x8010B000, 0x8010A000, 0x80109000, 0x80108000] 0x8010D000"
    and p: "pte_of (clear_page 0x8010D000 k1) 0x8010D000 = (\<lambda>va. 0)" by (rule small_dir)
  have up: "PGROUNDUP 0 = 0" by (simp add: PGROUNDUP_def PGSIZE_def)
  have r: "in_range 0 8192 4096" "\<not> in_range 0 8192 8192" by (simp_all add: in_range_def vpn_def)
  have "(0 :: u32) \<le> 8192" "8192 < MMAPBASE" "\<forall>va. in_range (PGROUNDUP 0) 8192 va \<longrightarrow> pte_of (clear_page 0x8010D000 k1) 0x8010D000 va = 0"
    by (simp_all add: p MMAPBASE_def)
  from allocuvm_all_or_nothing [OF u this] obtain k' where a: "allocuvm 0x8010D000 0 8192 (clear_page 0x8010D000 k1) = Some (8192, k')"
      "\<forall>va. if in_range 0 8192 va then PTE_FLAGS (pte_of k' 0x8010D000 va) = PTE_W OR PTE_U OR PTE_P
        else pte_of k' 0x8010D000 va = pte_of (clear_page 0x8010D000 k1) 0x8010D000 va"
    unfolding up by (auto simp: pages_left_def)
  have "PTE_FLAGS (pte_of k' 0x8010D000 4096) = PTE_W OR PTE_U OR PTE_P" "pte_of k' 0x8010D000 8192 = 0"
    using spec [OF a(2), of 4096] spec [OF a(2), of 8192] r p by simp_all
  then show ?thesis using k a(1) by blast
qed

theorem deallocuvm_frees_witness:
  "\<exists>k k1 k2 r k3 k'. kinit1 0x80108000 0x8010E000 small_kmem = Some k \<and> kalloc k = Some (0x8010D000, k1) \<and>
    kalloc (clear_page 0x8010D000 k1) = Some (0x8010C000, k2) \<and> mappages 0x8010D000 0 PGSIZE (V2P 0x8010C000) (PTE_W OR PTE_U) k2 = Some (r, k3) \<and>
    present (pte_of k3 0x8010D000 0) \<and> deallocuvm 0x8010D000 4096 0 k3 = Some (0, k') \<and> pte_of k' 0x8010D000 0 = 0"
proof -
  obtain k k1 where k: "kinit1 0x80108000 0x8010E000 small_kmem = Some k" "kalloc k = Some (0x8010D000, k1)"
    and u: "uvm_ok user_limit (clear_page 0x8010D000 k1) [0x8010C000, 0x8010B000, 0x8010A000, 0x80109000, 0x80108000] 0x8010D000"
    and p: "pte_of (clear_page 0x8010D000 k1) 0x8010D000 = (\<lambda>va. 0)" by (rule small_dir)
  from uvm_kalloc [OF u] obtain k2 where k2: "kalloc (clear_page 0x8010D000 k1) = Some (0x8010C000, k2)"
    "uvm_ok user_limit k2 [0x8010B000, 0x8010A000, 0x80109000, 0x80108000] 0x8010D000"
    "limbo user_limit k2 [0x8010B000, 0x8010A000, 0x80109000, 0x80108000] 0x8010D000 0x8010C000" "km_mem k2 = km_mem (clear_page 0x8010D000 k1)"
    by (elim exE conjE)
  have "pte_of k2 0x8010D000 = (\<lambda>va. 0)" using same_mem(4) [OF k2(4)] p by simp
  then have "unat (0 :: u32) mod 4096 = 0" "vpn 0 < user_limit" "\<not> present (pte_of k2 0x8010D000 0)" by (simp_all add: vpn_def user_limit_eq)
  from map_user_page [OF k2(2,3) this user_flags] obtain r k3 rs where k3: "mappages 0x8010D000 0 PGSIZE (V2P 0x8010C000) (PTE_W OR PTE_U) k2 = Some (r, k3)"
      "uvm_ok user_limit k3 rs 0x8010D000"
      "pte_of k3 0x8010D000 = (\<lambda>va. if vpn va = vpn 0 then V2P 0x8010C000 OR (PTE_W OR PTE_U) OR PTE_P else pte_of k2 0x8010D000 va)" by auto
  have pr: "present (pte_of k3 0x8010D000 0)" by (simp add: k3(3) present_odd bit_simps PTE_P_def)
  have up: "PGROUNDUP 0 = 0" by (simp add: PGROUNDUP_def PGSIZE_def)
  have "(0 :: u32) < 4096" "4096 \<le> MMAPBASE" by (simp_all add: MMAPBASE_def)
  from deallocuvm_frees [OF k3(2) this] obtain k' where d: "deallocuvm 0x8010D000 4096 0 k3 = Some (0, k')"
    "\<forall>va. pte_of k' 0x8010D000 va = (if in_range 0 4096 va \<and> present (pte_of k3 0x8010D000 va) then 0 else pte_of k3 0x8010D000 va)"
    unfolding up by (elim exE conjE)
  have "pte_of k' 0x8010D000 0 = 0" using d(2) pr by (simp add: in_range_def vpn_def)
  then show ?thesis using k k2(1) k3(1) pr d(1) by blast
qed

end
