(* ===== verification/Pagecache.thy ===== *)
theory Pagecache
  imports Vm Bio
begin

text \<open>
  The page cache of the memory mapping project (\<^verbatim>\<open>CS_537_P5/pagecache.h\<close>, \<^verbatim>\<open>pagecache.c\<close>): pages of files, replaced in
  turn. The contents live in pages of kernel memory; \<open>readi off n\<close> is what the inode layer returns for \<open>n\<close> bytes at
  \<open>off\<close> of the file, and the bytes it stores. The caller's process holds the sleep lock of a page between
  \<^verbatim>\<open>getPage\<close> and its release.
\<close>

definition NPAGECACHE :: nat where "NPAGECACHE = 30"

record cached_page =
  cp_dev :: u32
  cp_inode_number :: u32
  cp_offset :: u32
  cp_page :: u32
  cp_lock :: sleeplock

record pagecache =
  pc_pages :: "cached_page list"
  pc_totalCount :: nat
  pc_lock :: bool

type_synonym pc_state = "pagecache \<times> kmem"

definition acquire_pc :: "pagecache \<Rightarrow> pagecache option" where
  "acquire_pc c = (if pc_lock c then None else Some (c\<lparr>pc_lock := True\<rparr>))"

definition release_pc :: "pagecache \<Rightarrow> pagecache option" where
  "release_pc c = (if pc_lock c then Some (c\<lparr>pc_lock := False\<rparr>) else panic ''release'')"

definition upd_page :: "nat \<Rightarrow> (cached_page \<Rightarrow> cached_page) \<Rightarrow> pagecache \<Rightarrow> pagecache" where
  "upd_page i f c = c\<lparr>pc_pages := (pc_pages c)[i := f (pc_pages c ! i)]\<rparr>"

text \<open>Initialisation stops at the first page it cannot get, before the counter is set.\<close>

fun init_pages :: "nat list \<Rightarrow> pagecache \<Rightarrow> kmem \<Rightarrow> pc_state option" where
  "init_pages [] c k = Some (c\<lparr>pc_totalCount := 0\<rparr>, k)"
| "init_pages (i # is) c k = do {
     (p, k) \<leftarrow> kalloc k;
     let c = upd_page i (\<lambda>q. q\<lparr>cp_page := p\<rparr>) c;
     if p = 0 then Some (c, k)
     else init_pages is (upd_page i (\<lambda>q. q\<lparr>cp_lock := initsleeplock (cp_lock q)\<rparr>) c) (clear_page p k)
   }"

definition pagecacheinit :: "pagecache \<Rightarrow> kmem \<Rightarrow> pc_state option" where
  "pagecacheinit c k = init_pages [0..<NPAGECACHE] (c\<lparr>pc_lock := False\<rparr>) k"

definition findPage :: "u32 \<Rightarrow> u32 \<Rightarrow> u32 \<Rightarrow> pagecache \<Rightarrow> nat option option" where
  "findPage inum offset dev c =
    (if \<not> pc_lock c then panic ''Pagecache: find page''
     else Some (List.find (\<lambda>i. cp_inode_number (pc_pages c ! i) = inum \<and> cp_offset (pc_pages c ! i) = offset \<and> cp_dev (pc_pages c ! i) = dev)
            [0..<NPAGECACHE]))"

definition lock_page :: "int \<Rightarrow> nat \<Rightarrow> pagecache \<Rightarrow> pagecache option" where
  "lock_page pid i c = do {
     lk \<leftarrow> acquiresleep pid (cp_lock (pc_pages c ! i));
     Some (upd_page i (\<lambda>q. q\<lparr>cp_lock := lk\<rparr>) c)
   }"

definition unlock_page :: "nat \<Rightarrow> pagecache \<Rightarrow> pagecache" where
  "unlock_page i c = upd_page i (\<lambda>q. q\<lparr>cp_lock := releasesleep (cp_lock q)\<rparr>) c"

text \<open>\<open>bs\<close> are the bytes written to the file at \<open>offset\<close>.\<close>

definition updatePage :: "int \<Rightarrow> u32 \<Rightarrow> u32 \<Rightarrow> u32 \<Rightarrow> u8 list \<Rightarrow> pagecache \<Rightarrow> kmem \<Rightarrow> pc_state option" where
  "updatePage pid offset inum dev bs c k = do {
     c \<leftarrow> acquire_pc c;
     let start_addr = offset mod PGSIZE;
     res \<leftarrow> findPage inum (offset - start_addr) dev c;
     c \<leftarrow> release_pc c;
     case res of
       None \<Rightarrow> Some (c, k)
     | Some i \<Rightarrow> do {
         c \<leftarrow> lock_page pid i c;
         let k = k\<lparr>km_mem := wr_bytes (km_mem k) (unat (cp_page (pc_pages c ! i) + start_addr)) bs\<rparr>;
         Some (unlock_page i c, k)
       }
   }"

text \<open>The page, locked; \<^const>\<open>None\<close> inside when the inode layer fails.\<close>

definition getPage :: "(u32 \<Rightarrow> u32 \<Rightarrow> int \<times> u8 list) \<Rightarrow> int \<Rightarrow> u32 \<Rightarrow> u32 \<Rightarrow> u32 \<Rightarrow> pagecache \<Rightarrow> kmem \<Rightarrow> (nat option \<times> pc_state) option" where
  "getPage readi pid offset inum dev c k = do {
     let offset = offset - offset mod PGSIZE;
     c \<leftarrow> acquire_pc c;
     res \<leftarrow> findPage inum offset dev c;
     case res of
       Some i \<Rightarrow> do {
         c \<leftarrow> lock_page pid i c;
         c \<leftarrow> release_pc c;
         Some (Some i, c, k)
       }
     | None \<Rightarrow> do {
         let i = pc_totalCount c;
         c \<leftarrow> release_pc (c\<lparr>pc_totalCount := pc_totalCount c + 1\<rparr>);
         c \<leftarrow> lock_page pid i c;
         let c = (if pc_totalCount c = NPAGECACHE then c\<lparr>pc_totalCount := 0\<rparr> else c);
         let k = clear_page (cp_page (pc_pages c ! i)) k;
         let (n, bs) = readi offset PGSIZE;
         let k = k\<lparr>km_mem := wr_bytes (km_mem k) (unat (cp_page (pc_pages c ! i))) bs\<rparr>;
         if n = -1 then Some (None, c, k)
         else Some (Some i, upd_page i (\<lambda>q. q\<lparr>cp_dev := dev, cp_inode_number := inum, cp_offset := offset\<rparr>) c, k)
       }
   }"

definition copyPage :: "(u32 \<Rightarrow> u32 \<Rightarrow> int \<times> u8 list) \<Rightarrow> int \<Rightarrow> u32 \<Rightarrow> u32 \<Rightarrow> u32 \<Rightarrow> u32 \<Rightarrow> u32 \<Rightarrow> u32 \<Rightarrow> pagecache \<Rightarrow> kmem \<Rightarrow>
    (int \<times> pc_state) option" where
  "copyPage readi pid offset inum dev dest sz dest_offset c k = do {
     (page, c, k) \<leftarrow> getPage readi pid offset inum dev c k;
     case page of
       None \<Rightarrow> Some (0, c, k)
     | Some i \<Rightarrow>
         if \<not> holdingsleep pid (cp_lock (pc_pages c ! i)) then panic ''pagecache copy page''
         else Some (0, unlock_page i c,
           k\<lparr>km_mem := memmove (km_mem k) (unat dest) (unat (cp_page (pc_pages c ! i) + dest_offset)) (unat sz)\<rparr>)
   }"

end
