(* ===== verification/Mmap.thy ===== *)
theory Mmap
  imports Pagecache File
begin

text \<open>
  Memory mappings (\<^verbatim>\<open>CS_537_P5/sys_mmap.c\<close>, \<^verbatim>\<open>mmap.h\<close>, the page fault handler of \<^verbatim>\<open>trap.c\<close> and \<^verbatim>\<open>delete_mmaps\<close> of
  \<^verbatim>\<open>proc.c\<close>): the array of regions of a process, the search for a place, the lazy mapping of pages at the first access,
  the copy for a child and the removal. C integers are 32-bit words, compared as signed or unsigned the way C does
  after its conversions. An access outside the array of regions is undefined, except for index \<open>-1\<close>,
  which the code reads: there lie the last open files of the process (\<open>mp_before\<close>).
\<close>

section \<open>Regions\<close>

definition MAP_PRIVATE :: u32 where "MAP_PRIVATE = 1"
definition MAP_SHARED :: u32 where "MAP_SHARED = 2"
definition MAP_ANONYMOUS :: u32 where "MAP_ANONYMOUS = 4"
definition MAP_FIXED :: u32 where "MAP_FIXED = 8"
definition MAP_GROWSUP :: u32 where "MAP_GROWSUP = 16"
definition PROT_WRITE :: u32 where "PROT_WRITE = 2"
definition PROT_NONE :: u32 where "PROT_NONE = 8"

definition has :: "u32 \<Rightarrow> u32 \<Rightarrow> bool" where
  "has flags b = (flags AND b \<noteq> 0)"

record mmp =
  mm_addr :: u32
  mm_length :: u32
  mm_flags :: u32
  mm_prot :: u32
  mm_f :: "nat option"
  mm_offset :: u32
  mm_ref :: u32
  mm_stored_length :: u32

record mproc =
  mp_pgdir :: u32
  mp_killed :: bool
  mp_before :: mmp
  mp_mmaps :: "mmp list"
  mp_total :: int

definition mmp_at :: "mproc \<Rightarrow> int \<Rightarrow> mmp option" where
  "mmp_at p i = (if i = -1 then Some (mp_before p) else if 0 \<le> i \<and> i < 32 then Some (mp_mmaps p ! nat i) else None)"

definition upd_mmp :: "int \<Rightarrow> (mmp \<Rightarrow> mmp) \<Rightarrow> mproc \<Rightarrow> mproc option" where
  "upd_mmp i f p = (if 0 \<le> i \<and> i < 32 then Some (p\<lparr>mp_mmaps := (mp_mmaps p)[nat i := f (mp_mmaps p ! nat i)]\<rparr>) else None)"

definition mmp_cpy :: "mmp \<Rightarrow> mmp \<Rightarrow> mmp" where
  "mmp_cpy mr1 mr2 = mr1\<lparr>mm_addr := mm_addr mr2, mm_length := mm_length mr2, mm_flags := mm_flags mr2, mm_prot := mm_prot mr2,
     mm_f := mm_f mr2, mm_offset := mm_offset mr2\<rparr>"

text \<open>The loop that shifts the regions to the right, from index \<open>j\<close> down to \<open>i + 1\<close>.\<close>

fun mmp_shift :: "nat \<Rightarrow> int \<Rightarrow> mproc \<Rightarrow> mproc option" where
  "mmp_shift 0 i p = Some p"
| "mmp_shift (Suc j) i p =
    (if int (Suc j) > i + 1 then do {
       src \<leftarrow> mmp_at p (int j);
       p \<leftarrow> upd_mmp (int (Suc j)) (\<lambda>d. mmp_cpy d src) p;
       mmp_shift j i p
     } else Some p)"

definition mmp_insert :: "mproc \<Rightarrow> u32 \<Rightarrow> int \<Rightarrow> u32 \<Rightarrow> (int \<times> mproc) option" where
  "mmp_insert p len i mmapaddr = do {
     p \<leftarrow> mmp_shift (nat (mp_total p)) i p;
     if KERNBASE \<le> PGROUNDUP (mmapaddr + len) then Some (-1, p)
     else do {
       p \<leftarrow> upd_mmp (i + 1) (\<lambda>m. m\<lparr>mm_addr := mmapaddr, mm_length := len\<rparr>) p;
       Some (i + 1, p)
     }
   }"

text \<open>The first gap that the wanted region fits in, from index \<open>i\<close> on; the number of entries left bounds the search.\<close>

fun check_gaps :: "nat \<Rightarrow> mproc \<Rightarrow> u32 \<Rightarrow> u32 \<Rightarrow> int \<Rightarrow> (int \<times> mproc) option" where
  "check_gaps 0 p addr len i = Some (-1, p)"
| "check_gaps (Suc n) p addr len i = do {
     nxt \<leftarrow> mmp_at p (i + 1);
     cur \<leftarrow> mmp_at p i;
     if PGROUNDUP (mm_addr cur + mm_length cur) \<le> addr \<and> addr + len \<le> PGROUNDUP (mm_addr nxt)
     then mmp_insert p len i addr
     else check_gaps n p addr len (i + 1)
   }"

definition mmp_check :: "mproc \<Rightarrow> u32 \<Rightarrow> u32 \<Rightarrow> (int \<times> mproc) option" where
  "mmp_check p addr len = do {
     let last_index = mp_total p - 1;
     lst \<leftarrow> mmp_at p last_index;
     if PGROUNDUP (mm_addr lst + mm_length lst) < addr then mmp_insert p len last_index addr
     else check_gaps (nat last_index) p addr len 0
   }"

fun any_gap :: "nat \<Rightarrow> mproc \<Rightarrow> u32 \<Rightarrow> int \<Rightarrow> int option" where
  "any_gap 0 p len i = Some i"
| "any_gap (Suc n) p len i = do {
     nxt \<leftarrow> mmp_at p (i + 1);
     cur \<leftarrow> mmp_at p i;
     if mm_addr nxt = 0 then Some i
     else if len + (if has (mm_flags cur) MAP_GROWSUP then PGSIZE else 0) < PGROUNDUP (mm_addr nxt) - PGROUNDUP (mm_addr cur + mm_length cur)
     then Some i
     else any_gap n p len (i + 1)
   }"

definition mmp_any :: "mproc \<Rightarrow> u32 \<Rightarrow> (int \<times> mproc) option" where
  "mmp_any p len =
    (if mp_total p = 0 then
       if KERNBASE \<le> PGROUNDUP (MMAPBASE + len) then Some (-1, p)
       else do {
         p \<leftarrow> upd_mmp 0 (\<lambda>m. m\<lparr>mm_addr := PGROUNDUP MMAPBASE, mm_length := len\<rparr>) p;
         Some (0, p)
       }
     else do {
       m0 \<leftarrow> mmp_at p 0;
       if len < mm_addr m0 - MMAPBASE then mmp_insert p len (-1) MMAPBASE
       else do {
         i \<leftarrow> any_gap (nat (mp_total p)) p len 0;
         cur \<leftarrow> mmp_at p i;
         let mmapaddr = PGROUNDUP (mm_addr cur + mm_length cur);
         if KERNBASE < mmapaddr + len then Some (-1, p)
         else mmp_insert p len i mmapaddr
       }
     })"

section \<open>The mmap call\<close>

text \<open>\<open>readable\<close> and \<open>writable\<close> are the permissions of the open file.\<close>

definition my_mmap :: "u32 \<Rightarrow> nat option \<Rightarrow> bool \<Rightarrow> bool \<Rightarrow> u32 \<Rightarrow> u32 \<Rightarrow> u32 \<Rightarrow> u32 \<Rightarrow> mproc \<Rightarrow> (u32 \<times> mproc) option" where
  "my_mmap addr f readable writable len offset flags protection p =
    (if \<not> has flags MAP_PRIVATE \<and> \<not> has flags MAP_SHARED \<or> sint len \<le> 0 \<or> sint offset < 0 \<or>
        \<not> has flags MAP_ANONYMOUS \<and> \<not> readable \<or> has flags MAP_SHARED \<and> has protection PROT_WRITE \<and> \<not> writable
     then Some (-1, p)
     else if mp_total p = 32 then Some (-1, p)
     else let rounded_addr = PGROUNDUP (PGROUNDUP addr + len) in
     if addr \<noteq> 0 \<and> (sint addr < sint MMAPBASE \<or> KERNBASE < rounded_addr \<or> addr mod PGSIZE \<noteq> 0) then Some (-1, p)
     else do {
       (i, p) \<leftarrow> (if has flags MAP_FIXED then if addr \<noteq> 0 then mmp_check p addr len else Some (-1, p)
                  else if addr \<noteq> 0 then mmp_check p addr len else mmp_any p len);
       if i = -1 then Some (-1, p)
       else do {
         p \<leftarrow> upd_mmp i (\<lambda>m. m\<lparr>mm_flags := flags, mm_prot := (if protection = PROT_NONE then 0 else PTE_U OR protection),
                mm_offset := offset, mm_f := f, mm_addr := (if has flags MAP_FIXED then addr else mm_addr m)\<rparr>) p;
         let p = p\<lparr>mp_total := mp_total p + 1\<rparr>;
         m \<leftarrow> mmp_at p i;
         Some (mm_addr m, p)
       }
     })"

section \<open>Pages\<close>

text \<open>What the mapping layer needs of an open file: its inode number, device and size, and the inode layer's reads.\<close>

record finfo =
  fi_inum :: u32
  fi_dev :: u32
  fi_size :: u32
  fi_readi :: "u32 \<Rightarrow> u32 \<Rightarrow> int \<times> u8 list"

text \<open>The physical address in the entry of a page (0 if there is none) and the address of the entry.\<close>

definition get_physical_page :: "mproc \<Rightarrow> u32 \<Rightarrow> kmem \<Rightarrow> (u32 \<times> u32 \<times> kmem) option" where
  "get_physical_page p tempaddr k = do {
     (pte, k) \<leftarrow> walkpgdir (mp_pgdir p) tempaddr False k;
     Some (if pte = 0 then 0 else PTE_ADDR (load32 k (unat pte)), pte, k)
   }"

fun anon_loop :: "nat \<Rightarrow> u32 \<Rightarrow> u32 \<Rightarrow> u32 \<Rightarrow> u32 \<Rightarrow> u32 \<Rightarrow> kmem \<Rightarrow> (int \<times> kmem) option" where
  "anon_loop 0 pgdir mmapaddr protection len i k = None"
| "anon_loop (Suc n) pgdir mmapaddr protection len i k =
    (if sint i < sint len then do {
       (mapped_page, k) \<leftarrow> kalloc k;
       if mapped_page = 0 then Some (-1, k)
       else do {
         (r, k) \<leftarrow> mappages pgdir (mmapaddr + i) PGSIZE (V2P mapped_page) protection (clear_page mapped_page k);
         if r < 0 then do {
           (_, k) \<leftarrow> deallocuvm pgdir (mmapaddr + i - PGSIZE) (mmapaddr + i) k;
           k \<leftarrow> kfree mapped_page k;
           Some (-1, k)
         }
         else anon_loop n pgdir mmapaddr protection len (i + PGSIZE) k
       }
     } else Some (0, k))"

definition map_anon_main :: "mproc \<Rightarrow> u32 \<Rightarrow> u32 \<Rightarrow> u32 \<Rightarrow> kmem \<Rightarrow> (int \<times> kmem) option" where
  "map_anon_main p mmapaddr protection len k = anon_loop (page_fuel len) (mp_pgdir p) mmapaddr protection len 0 k"

text \<open>The pieces of one page: at most two cached pages overlap it.\<close>

fun fill_page :: "nat \<Rightarrow> int \<Rightarrow> finfo \<Rightarrow> u32 \<Rightarrow> u32 \<Rightarrow> u32 \<Rightarrow> u32 \<Rightarrow> pagecache \<Rightarrow> kmem \<Rightarrow> (int \<times> pc_state) option" where
  "fill_page 0 pid f temp i toRead currOffset c k = None"
| "fill_page (Suc n) pid f temp i toRead currOffset c k =
    (if 0 < sint toRead then do {
       let pageOffset = currOffset mod PGSIZE;
       let readLength = (if PGSIZE - pageOffset < toRead then PGSIZE - pageOffset else toRead);
       if fi_size f < pageOffset then Some (0, c, k)
       else do {
         (r, c, k) \<leftarrow> copyPage (fi_readi f) pid currOffset (fi_inum f) (fi_dev f) (temp + PGSIZE * i) readLength pageOffset c k;
         if r = -1 then Some (-1, c, k)
         else fill_page n pid f temp (i + 1) (toRead - readLength) (currOffset + readLength) c k
       }
     } else Some (0, c, k))"

fun pagecache_loop :: "nat \<Rightarrow> int \<Rightarrow> u32 \<Rightarrow> finfo \<Rightarrow> u32 \<Rightarrow> u32 \<Rightarrow> u32 \<Rightarrow> u32 \<Rightarrow> u32 \<Rightarrow> pagecache \<Rightarrow> kmem \<Rightarrow> (int \<times> pc_state) option" where
  "pagecache_loop 0 pid pgdir f mmapaddr protection offset len currlength c k = None"
| "pagecache_loop (Suc n) pid pgdir f mmapaddr protection offset len currlength c k =
    (if sint currlength < sint len then do {
       (temp, k) \<leftarrow> kalloc k;
       if temp = 0 then Some (-1, c, k)
       else do {
         let toRead = (if sint (len - currlength) < 4096 then len - currlength else PGSIZE);
         (r, c, k) \<leftarrow> fill_page 3 pid f temp 0 toRead (offset + currlength) c (clear_page temp k);
         if r = -1 then do { k \<leftarrow> kfree temp k; Some (-1, c, k) }
         else do {
           (r, k) \<leftarrow> mappages pgdir (mmapaddr + currlength) PGSIZE (V2P temp) protection k;
           if r < 0 then do { k \<leftarrow> kfree temp k; Some (-1, c, k) }
           else pagecache_loop n pid pgdir f mmapaddr protection offset len (currlength + PGSIZE) c k
         }
       }
     } else Some (0, c, k))"

definition map_pagecache_page :: "int \<Rightarrow> mproc \<Rightarrow> finfo \<Rightarrow> u32 \<Rightarrow> u32 \<Rightarrow> u32 \<Rightarrow> u32 \<Rightarrow> pagecache \<Rightarrow> kmem \<Rightarrow> (int \<times> pc_state) option" where
  "map_pagecache_page pid p f mmapaddr protection offset len c k =
     pagecache_loop (page_fuel len) pid (mp_pgdir p) f mmapaddr protection offset len 0 c k"

text \<open>A file mapping without a file is a null dereference.\<close>

definition mmap_store_data :: "(nat \<Rightarrow> finfo) \<Rightarrow> int \<Rightarrow> mproc \<Rightarrow> u32 \<Rightarrow> u32 \<Rightarrow> u32 \<Rightarrow> u32 \<Rightarrow> nat option \<Rightarrow> u32 \<Rightarrow> pagecache \<Rightarrow> kmem \<Rightarrow>
    (int \<times> pc_state) option" where
  "mmap_store_data files pid p addr len flags protection f offset c k =
    (if \<not> has flags MAP_ANONYMOUS then
       case f of
         None \<Rightarrow> None
       | Some i \<Rightarrow> do {
           (r, c, k) \<leftarrow> map_pagecache_page pid p (files i) addr protection offset len c k;
           Some (if r < 0 then -1 else 0, c, k)
         }
     else do {
       (r, k) \<leftarrow> map_anon_main p addr protection len k;
       Some (if r < 0 then -1 else 0, c, k)
     })"

section \<open>Page faults\<close>

type_synonym mm_state = "mproc \<times> pagecache \<times> kmem"

definition kill_proc :: "mproc \<Rightarrow> mproc" where
  "kill_proc p = p\<lparr>mp_killed := True\<rparr>"

text \<open>The page of the faulting address is mapped for region \<open>i\<close>, unless it has an entry already.\<close>

definition fault_in :: "(nat \<Rightarrow> finfo) \<Rightarrow> int \<Rightarrow> u32 \<Rightarrow> nat \<Rightarrow> mproc \<Rightarrow> pagecache \<Rightarrow> kmem \<Rightarrow> mm_state option" where
  "fault_in files pid page_fault_addr i p c k = do {
     let page = PGROUNDDOWN page_fault_addr;
     (pa, pte, k) \<leftarrow> get_physical_page p page k;
     if pa \<noteq> 0 then Some (kill_proc p, c, k)
     else do {
       let m = mp_mmaps p ! i;
       let remsize = mm_length m - mm_stored_length m;
       let sz = (if remsize < PGSIZE then remsize else PGSIZE);
       (r, c, k) \<leftarrow> mmap_store_data files pid p page sz (mm_flags m) (mm_prot m) (mm_f m) (mm_offset m + page - mm_addr m) c k;
       let p = (if r < 0 then kill_proc p else p);
       p \<leftarrow> upd_mmp (int i) (\<lambda>m. m\<lparr>mm_stored_length := mm_stored_length m + PGSIZE\<rparr>) p;
       Some (p, c, k)
     }
   }"

definition handle_page_fault :: "(nat \<Rightarrow> finfo) \<Rightarrow> int \<Rightarrow> u32 \<Rightarrow> mproc \<Rightarrow> pagecache \<Rightarrow> kmem \<Rightarrow> mm_state option" where
  "handle_page_fault files pid page_fault_addr p c k =
    (case List.find (\<lambda>i. let start = mm_addr (mp_mmaps p ! i); end' = start + mm_length (mp_mmaps p ! i) in
              start \<le> page_fault_addr \<and> page_fault_addr \<le> end') [0..<nat (mp_total p)] of
       Some i \<Rightarrow> fault_in files pid page_fault_addr i p c k
     | None \<Rightarrow>
         let next_page_end = PGROUNDDOWN (page_fault_addr + PGSIZE) in
         if KERNBASE \<le> next_page_end then Some (p, c, k)
         else case List.find (\<lambda>i. let start = mm_addr (mp_mmaps p ! i) in
                has (mm_flags (mp_mmaps p ! i)) MAP_GROWSUP \<and> start \<le> page_fault_addr \<and> page_fault_addr \<le> next_page_end \<and>
                (int i = mp_total p - 1 \<or> next_page_end < mm_addr (mp_mmaps p ! (i + 1)))) [0..<nat (mp_total p)] of
             Some i \<Rightarrow> do {
               p \<leftarrow> upd_mmp (int i) (\<lambda>m. m\<lparr>mm_length := mm_length m + PGSIZE\<rparr>) p;
               fault_in files pid page_fault_addr i p c k
             }
           | None \<Rightarrow> Some (kill_proc p, c, k))"

section \<open>Fork\<close>

fun copy_region :: "nat \<Rightarrow> (nat \<Rightarrow> finfo) \<Rightarrow> int \<Rightarrow> nat \<Rightarrow> u32 \<Rightarrow> u32 \<Rightarrow> u32 \<Rightarrow> mproc \<Rightarrow> pagecache \<Rightarrow> kmem \<Rightarrow> (int \<times> mm_state) option" where
  "copy_region 0 files pid index child start end' parent c k = None"
| "copy_region (Suc n) files pid index child start end' parent c k =
    (if start < end' then do {
       let m = mp_mmaps parent ! index;
       let shared = has (mm_flags m) MAP_SHARED;
       (pa, pte, k) \<leftarrow> get_physical_page parent start k;
       (r, pa, parent, c, k) \<leftarrow>
         (if shared \<and> pa = 0 then do {
            let remaining = mm_length m - mm_stored_length m;
            let chunk = (if sint remaining < 4096 then remaining else PGSIZE);
            (r, c, k) \<leftarrow> mmap_store_data files pid parent start chunk (mm_flags m) (mm_prot m) (mm_f m) (mm_offset m) c k;
            if r < 0 then Some (-1, pa, parent, c, k)
            else do {
              parent \<leftarrow> upd_mmp (int index) (\<lambda>m. m\<lparr>mm_stored_length := mm_stored_length m + chunk\<rparr>) parent;
              (pa, pte, k) \<leftarrow> get_physical_page parent start k;
              Some (0, pa, parent, c, k)
            }
          } else Some (0 :: int, pa, parent, c, k));
       if r < 0 then Some (-1, parent, c, k)
       else if pa = 0 \<and> \<not> shared then copy_region n files pid index child (start + PGSIZE) end' parent c k
       else do {
         (mem, k) \<leftarrow> (if shared then Some (P2V pa, k) else kalloc k);
         if mem = 0 then Some (-1, parent, c, k)
         else do {
           let k = (if shared then k else k\<lparr>km_mem := memmove (km_mem k) (unat mem) (unat (P2V pa)) (unat PGSIZE)\<rparr>);
           (r, k) \<leftarrow> mappages child start PGSIZE (V2P mem) (mm_prot m) k;
           if r < 0 then do {
             k \<leftarrow> (if shared then Some k else kfree mem k);
             Some (-1, parent, c, k)
           }
           else copy_region n files pid index child (start + PGSIZE) end' parent c k
         }
       }
     } else Some (0, parent, c, k))"

definition copy_single_mmap :: "(nat \<Rightarrow> finfo) \<Rightarrow> int \<Rightarrow> nat \<Rightarrow> mproc \<Rightarrow> mproc \<Rightarrow> pagecache \<Rightarrow> kmem \<Rightarrow> (int \<times> mproc \<times> mm_state) option" where
  "copy_single_mmap files pid index parent child c k = do {
     let m = mp_mmaps parent ! index;
     (r, parent, c, k) \<leftarrow> copy_region (page_fuel (mm_length m)) files pid index (mp_pgdir child) (mm_addr m) (mm_addr m + mm_length m) parent c k;
     if r < 0 then Some (-1, parent, child, c, k)
     else do {
       child \<leftarrow> upd_mmp (int index) (\<lambda>d. mmp_cpy d (mp_mmaps parent ! index)) child;
       child \<leftarrow> (if has (mm_flags m) MAP_SHARED then upd_mmp (int index) (\<lambda>d. d\<lparr>mm_ref := 1\<rparr>) child else Some child);
       Some (0, parent, child, c, k)
     }
   }"

fun copy_maps_loop :: "(nat \<Rightarrow> finfo) \<Rightarrow> int \<Rightarrow> nat list \<Rightarrow> mproc \<Rightarrow> mproc \<Rightarrow> pagecache \<Rightarrow> kmem \<Rightarrow> (int \<times> mproc \<times> mm_state) option" where
  "copy_maps_loop files pid [] parent child c k = Some (0, parent, child\<lparr>mp_total := mp_total parent\<rparr>, c, k)"
| "copy_maps_loop files pid (i # is) parent child c k = do {
     (r, parent, child, c, k) \<leftarrow> copy_single_mmap files pid i parent child c k;
     if r < 0 then Some (-1, parent, child, c, k) else copy_maps_loop files pid is parent child c k
   }"

definition copy_maps :: "(nat \<Rightarrow> finfo) \<Rightarrow> int \<Rightarrow> mproc \<Rightarrow> mproc \<Rightarrow> pagecache \<Rightarrow> kmem \<Rightarrow> (int \<times> mproc \<times> mm_state) option" where
  "copy_maps files pid parent child c k = copy_maps_loop files pid [0..<nat (mp_total parent)] parent child c k"

section \<open>Unmapping\<close>

fun unmap_pages :: "nat \<Rightarrow> mproc \<Rightarrow> u32 \<Rightarrow> u32 \<Rightarrow> u32 \<Rightarrow> kmem \<Rightarrow> kmem option" where
  "unmap_pages 0 p addr currlength limit k = None"
| "unmap_pages (Suc n) p addr currlength limit k =
    (if sint currlength < sint limit then do {
       (pa, pte, k) \<leftarrow> get_physical_page p (addr + currlength) k;
       k \<leftarrow> (if pa = 0 then Some k else do { k \<leftarrow> kfree (P2V pa) k; Some (store32 (unat pte) 0 k) });
       unmap_pages n p addr (currlength + PGSIZE) limit k
     } else Some k)"

text \<open>The regions behind a removed one move down one place, until an address is 0.\<close>

fun close_gap :: "nat \<Rightarrow> int \<Rightarrow> mproc \<Rightarrow> mproc option" where
  "close_gap 0 i p = Some p"
| "close_gap (Suc n) i p =
    (if i < 32 then do {
       nxt \<leftarrow> mmp_at p (i + 1);
       if mm_addr nxt \<noteq> 0 then do {
         p \<leftarrow> upd_mmp i (\<lambda>d. mmp_cpy d nxt) p;
         close_gap n (i + 1) p
       } else Some p
     } else Some p)"

definition no_region :: "mmp \<Rightarrow> mmp" where
  "no_region m = m\<lparr>mm_addr := 0, mm_length := 0, mm_flags := 0, mm_prot := 0, mm_f := None, mm_offset := 0, mm_stored_length := 0\<rparr>"

text \<open>The write-back of a shared file mapping: \<open>bs\<close> are the bytes of the region as the kernel reads them, \<open>results\<close> what the
  calls of \<^verbatim>\<open>writei\<close> return.\<close>

definition write_back :: "u8 list \<Rightarrow> int list \<Rightarrow> mmp \<Rightarrow> bool \<Rightarrow> ftable \<Rightarrow> (int \<times> ftable) option" where
  "write_back bs results m killed t =
    (if has (mm_flags m) MAP_SHARED \<and> \<not> has (mm_flags m) MAP_ANONYMOUS \<and> has (mm_prot m) PROT_WRITE then do {
       f \<leftarrow> mm_f m;
       (r, rest, t) \<leftarrow> filewrite killed f bs results (upd_file f (\<lambda>e. e\<lparr>f_off := mm_offset m\<rparr>) t);
       case r of Finished n \<Rightarrow> Some (if n < 0 then -1 else 0, t) | Asleep \<Rightarrow> None
     } else Some (0, t))"

definition my_munmap :: "u8 list \<Rightarrow> int list \<Rightarrow> u32 \<Rightarrow> u32 \<Rightarrow> mproc \<Rightarrow> ftable \<Rightarrow> kmem \<Rightarrow> (int \<times> mproc \<times> ftable \<times> kmem) option" where
  "my_munmap bs results addr len p t k =
    (let mainaddr = PGROUNDUP addr; unmapping_length = PGROUNDUP len in
     case List.find (\<lambda>i. mm_addr (mp_mmaps p ! i) = mainaddr) [0..<32] of
       None \<Rightarrow> Some (-1, p, t, k)
     | Some i \<Rightarrow>
         let m = mp_mmaps p ! i; total_length = mm_length m in
         if total_length = 0 then Some (-1, p, t, k)
         else do {
           (r, t) \<leftarrow> write_back bs results m (mp_killed p) t;
           if r < 0 then Some (-1, p, t, k)
           else do {
             let main_map_length = (if sint total_length < sint unmapping_length then total_length else unmapping_length);
             k \<leftarrow> unmap_pages (page_fuel main_map_length) p addr 0 main_map_length k;
             p \<leftarrow> (if total_length \<le> unmapping_length then do {
                     p \<leftarrow> upd_mmp (int i) no_region p;
                     p \<leftarrow> close_gap 33 (int i) p;
                     Some (p\<lparr>mp_total := mp_total p - 1\<rparr>)
                   }
                   else upd_mmp (int i) (\<lambda>m. m\<lparr>mm_addr := mm_addr m + unmapping_length, mm_length := mm_length m - unmapping_length\<rparr>) p);
             Some (0, p, t, k)
           }
         })"

text \<open>\<open>io j\<close>: the bytes and results for the write-back of region \<open>j\<close>.\<close>

fun delete_loop :: "(nat \<Rightarrow> u8 list \<times> int list) \<Rightarrow> nat \<Rightarrow> mproc \<Rightarrow> ftable \<Rightarrow> kmem \<Rightarrow> (mproc \<times> ftable \<times> kmem) option" where
  "delete_loop io 0 p t k = Some (p\<lparr>mp_total := 0\<rparr>, t, k)"
| "delete_loop io (Suc j) p t k = do {
     lst \<leftarrow> mmp_at p (mp_total p - 1);
     m \<leftarrow> mmp_at p (int j);
     (p, t, k) \<leftarrow> (if mm_ref lst = 0 then do {
         (_, p, t, k) \<leftarrow> my_munmap (fst (io j)) (snd (io j)) (mm_addr m) (mm_length m) p t k;
         Some (p, t, k)
       } else Some (p, t, k));
     delete_loop io j p t k
   }"

definition delete_mmaps :: "(nat \<Rightarrow> u8 list \<times> int list) \<Rightarrow> mproc \<Rightarrow> ftable \<Rightarrow> kmem \<Rightarrow> (mproc \<times> ftable \<times> kmem) option" where
  "delete_mmaps io p t k = delete_loop io (nat (mp_total p)) p t k"

end
