(* ===== verification/Mmap_Regions.thy ===== *)
theory Mmap_Regions
  imports Mmap Uvm
begin

text \<open>
  The regions of a process stay in order: \<^verbatim>\<open>my_mmap\<close> (\<^verbatim>\<open>CS_537_P5/sys_mmap.c\<close>) puts a new region into a gap of the array and
  changes no other region; a page fault in an anonymous region maps one page of zeros.
\<close>

section \<open>Regions in order\<close>

definition rnd :: "nat \<Rightarrow> nat" where
  "rnd x = (x + 4095) div 4096 * 4096"

lemma rnd_bounds: "x \<le> rnd x" "rnd x < x + 4096" "rnd x mod 4096 = 0"
proof -
  define q r where "q = (x + 4095) div 4096" and "r = (x + 4095) mod 4096"
  have "x + 4095 = q * 4096 + r" "r < 4096" unfolding q_def r_def by simp_all
  then show "x \<le> rnd x" "rnd x < x + 4096" unfolding rnd_def q_def [symmetric] by simp_all
  show "rnd x mod 4096 = 0" by (simp add: rnd_def)
qed

lemma rnd_le: "x \<le> y \<Longrightarrow> y mod 4096 = 0 \<Longrightarrow> rnd x \<le> y"
proof -
  assume a: "x \<le> y" "y mod 4096 = 0"
  obtain c where c: "y = 4096 * c" using a(2) by auto
  have "(x + 4095) div 4096 \<le> (4096 * c + 4095) div 4096" using a(1) c by (intro div_le_mono) simp
  also have "\<dots> = c" by simp
  finally show ?thesis using c by (simp add: rnd_def)
qed

lemma rnd_aligned: "y mod 4096 = 0 \<Longrightarrow> rnd y = y"
  using rnd_le [of y y] rnd_bounds(1) [of y] by simp

lemma unat_round: "unat a + 4095 < 2 ^ 32 \<Longrightarrow> unat (PGROUNDUP a) = rnd (unat a)"
  by (simp add: unat_PGROUNDUP rnd_def)

definition start :: "mproc \<Rightarrow> nat \<Rightarrow> nat" where
  "start p i = unat (mm_addr (mp_mmaps p ! i))"

definition stop :: "mproc \<Rightarrow> nat \<Rightarrow> nat" where
  "stop p i = rnd (start p i + unat (mm_length (mp_mmaps p ! i)))"

abbreviation nregs :: "mproc \<Rightarrow> nat" where
  "nregs p \<equiv> nat (mp_total p)"

text \<open>The used entries are page-aligned regions between the base of the mappings and the kernel, in order and
  apart; the entries behind them have no address.\<close>

definition regs_ok :: "mproc \<Rightarrow> bool" where
  "regs_ok p = (length (mp_mmaps p) = 32 \<and> 0 \<le> mp_total p \<and> mp_total p \<le> 32 \<and>
     (\<forall>i < nregs p. start p i mod 4096 = 0 \<and> 1610612736 \<le> start p i \<and> 0 < mm_length (mp_mmaps p ! i) \<and> stop p i < 2 ^ 31) \<and>
     (\<forall>i. i + 1 < nregs p \<longrightarrow> stop p i \<le> start p (i + 1)) \<and> (\<forall>i. nregs p \<le> i \<and> i < 32 \<longrightarrow> mm_addr (mp_mmaps p ! i) = 0))"

lemma regs_okD:
  assumes "regs_ok p"
  shows "length (mp_mmaps p) = 32" "0 \<le> mp_total p" "mp_total p \<le> 32" "i < nregs p \<Longrightarrow> start p i mod 4096 = 0"
    "i < nregs p \<Longrightarrow> 1610612736 \<le> start p i" "i < nregs p \<Longrightarrow> 0 < mm_length (mp_mmaps p ! i)" "i < nregs p \<Longrightarrow> stop p i < 2 ^ 31"
    "i + 1 < nregs p \<Longrightarrow> stop p i \<le> start p (i + 1)" "nregs p \<le> i \<Longrightarrow> i < 32 \<Longrightarrow> mm_addr (mp_mmaps p ! i) = 0"
  using assms unfolding regs_ok_def by blast+

lemma region_end:
  assumes "regs_ok p" "i < nregs p"
  shows "unat (PGROUNDUP (mm_addr (mp_mmaps p ! i) + mm_length (mp_mmaps p ! i))) = stop p i"
    "start p i + unat (mm_length (mp_mmaps p ! i)) \<le> stop p i" "start p i < stop p i" "stop p i mod 4096 = 0"
proof -
  note R = regs_okD [OF assms(1)]
  let ?m = "mp_mmaps p ! i"
  show le: "start p i + unat (mm_length ?m) \<le> stop p i" "stop p i mod 4096 = 0" using rnd_bounds by (simp_all add: stop_def)
  have l: "0 < unat (mm_length ?m)" using R(6) [OF assms(2)] by (simp add: word_less_nat_alt)
  then show "start p i < stop p i" using le by simp
  have "start p i + unat (mm_length ?m) < 2 ^ 31" using le(1) R(7) [OF assms(2)] by simp
  then have u: "unat (mm_addr ?m + mm_length ?m) = start p i + unat (mm_length ?m)" by (simp add: start_def unat_word_ariths)
  show "unat (PGROUNDUP (mm_addr ?m + mm_length ?m)) = stop p i"
    unfolding stop_def u [symmetric] by (rule unat_round) (use u \<open>start p i + unat (mm_length ?m) < 2 ^ 31\<close> in simp)
qed

section \<open>Insertion\<close>

lemma mmp_at_nth: "i < 32 \<Longrightarrow> mmp_at p (int i) = Some (mp_mmaps p ! i)"
  by (simp add: mmp_at_def)

lemma upd_mmp_eq: "i < 32 \<Longrightarrow> upd_mmp (int i) f p = Some (p\<lparr>mp_mmaps := (mp_mmaps p)[i := f (mp_mmaps p ! i)]\<rparr>)"
  by (simp add: upd_mmp_def)

lemma mmp_shift_ok:
  assumes "n < 32" "length (mp_mmaps p) = 32" "-1 \<le> i"
  shows "\<exists>ms. mmp_shift n i p = Some (p\<lparr>mp_mmaps := ms\<rparr>) \<and> length ms = 32 \<and>
    (\<forall>q < 32. ms ! q = (if i + 1 < int q \<and> q \<le> n then mmp_cpy (mp_mmaps p ! q) (mp_mmaps p ! (q - 1)) else mp_mmaps p ! q))"
  using assms(1,2)
proof (induction n arbitrary: p)
  case 0
  then show ?case using assms(3) by (intro exI [of _ "mp_mmaps p"]) auto
next
  case (Suc n)
  show ?case
  proof (cases "i + 1 < int (Suc n)")
    case False
    then show ?thesis using Suc.prems by (intro exI [of _ "mp_mmaps p"]) auto
  next
    case True
    define p1 where "p1 = p\<lparr>mp_mmaps := (mp_mmaps p)[Suc n := mmp_cpy (mp_mmaps p ! Suc n) (mp_mmaps p ! n)]\<rparr>"
    have "length (mp_mmaps p1) = 32" using Suc.prems by (simp add: p1_def)
    from Suc.IH [OF _ this] Suc.prems obtain ms where ms: "mmp_shift n i p1 = Some (p1\<lparr>mp_mmaps := ms\<rparr>)" "length ms = 32"
      "\<forall>q < 32. ms ! q = (if i + 1 < int q \<and> q \<le> n then mmp_cpy (mp_mmaps p1 ! q) (mp_mmaps p1 ! (q - 1)) else mp_mmaps p1 ! q)" by auto
    have e: "mmp_shift (Suc n) i p = Some (p\<lparr>mp_mmaps := ms\<rparr>)"
      using True ms(1) mmp_at_nth [of n p] upd_mmp_eq [of "Suc n" _ p] Suc.prems(1) by (simp add: p1_def)
    have "ms ! q = (if i + 1 < int q \<and> q \<le> Suc n then mmp_cpy (mp_mmaps p ! q) (mp_mmaps p ! (q - 1)) else mp_mmaps p ! q)" if "q < 32" for q
      using ms(3) that True Suc.prems by (cases "q = Suc n") (auto simp: p1_def)
    then show ?thesis using e ms(2) by (intro exI [of _ ms]) simp
  qed
qed

text \<open>The array after region \<open>(a, len)\<close> has been put at index \<open>j\<close>.\<close>

definition placed :: "mproc \<Rightarrow> nat \<Rightarrow> u32 \<Rightarrow> u32 \<Rightarrow> mproc \<Rightarrow> bool" where
  "placed p j a len p' = (length (mp_mmaps p') = 32 \<and> mp_total p' = mp_total p \<and>
     (\<forall>q < 32. (mm_addr (mp_mmaps p' ! q), mm_length (mp_mmaps p' ! q)) =
        (if q = j then (a, len) else if j < q \<and> q \<le> nregs p then (mm_addr (mp_mmaps p ! (q - 1)), mm_length (mp_mmaps p ! (q - 1)))
         else (mm_addr (mp_mmaps p ! q), mm_length (mp_mmaps p ! q)))))"

lemma mmp_insert_ok:
  assumes ok: "regs_ok p" and n: "mp_total p < 32" and j: "j \<le> nregs p" "i = int j - 1" and a: "PGROUNDUP (a + len) < KERNBASE"
  shows "\<exists>p'. mmp_insert p len i a = Some (int j, p') \<and> placed p j a len p'"
proof -
  note R = regs_okD [OF ok]
  have "nregs p < 32" "-1 \<le> i" using n j by auto
  from mmp_shift_ok [OF this(1) R(1) this(2)] obtain ms where ms: "mmp_shift (nregs p) i p = Some (p\<lparr>mp_mmaps := ms\<rparr>)" "length ms = 32"
    "\<forall>q < 32. ms ! q = (if i + 1 < int q \<and> q \<le> nregs p then mmp_cpy (mp_mmaps p ! q) (mp_mmaps p ! (q - 1)) else mp_mmaps p ! q)"
    by (elim exE conjE)
  have j32: "j < 32" using j(1) \<open>nregs p < 32\<close> by simp
  define p' where "p' = p\<lparr>mp_mmaps := ms[j := (ms ! j)\<lparr>mm_addr := a, mm_length := len\<rparr>]\<rparr>"
  have "mmp_insert p len i a = Some (int j, p')"
    using ms(1) a j(2) upd_mmp_eq [OF j32, of _ "p\<lparr>mp_mmaps := ms\<rparr>"] by (simp add: mmp_insert_def p'_def)
  moreover have "placed p j a len p'" unfolding placed_def
    using ms(2,3) j j32 by (auto simp: p'_def nth_list_update mmp_cpy_def)
  ultimately show ?thesis by blast
qed

lemma placed_ok:
  assumes ok: "regs_ok p" and n: "mp_total p < 32" and j: "j \<le> nregs p" and p: "placed p j a len p'"
    and a: "unat a mod 4096 = 0" "1610612736 \<le> unat a" "0 < len" "rnd (unat a + unat len) < 2 ^ 31"
    and lo: "0 < j \<Longrightarrow> stop p (j - 1) \<le> unat a" and hi: "j < nregs p \<Longrightarrow> rnd (unat a + unat len) \<le> start p j"
  shows "regs_ok (p'\<lparr>mp_total := mp_total p' + 1\<rparr>)"
proof -
  let ?p = "p'\<lparr>mp_total := mp_total p' + 1\<rparr>"
  note R = regs_okD [OF ok]
  have P: "length (mp_mmaps p') = 32" "mp_total p' = mp_total p" using p by (simp_all add: placed_def)
  have c: "nregs ?p = Suc (nregs p)" "nregs p < 32" using P(2) R(2) n by auto
  have key: "(mm_addr (mp_mmaps p' ! q), mm_length (mp_mmaps p' ! q)) =
      (if q = j then (a, len) else if j < q \<and> q \<le> nregs p then (mm_addr (mp_mmaps p ! (q - 1)), mm_length (mp_mmaps p ! (q - 1)))
       else (mm_addr (mp_mmaps p ! q), mm_length (mp_mmaps p ! q)))" if "q < 32" for q using p that by (simp add: placed_def)
  have st: "start ?p q = (if q = j then unat a else if j < q then start p (q - 1) else start p q)"
    "stop ?p q = (if q = j then rnd (unat a + unat len) else if j < q then stop p (q - 1) else stop p q)"
    "mm_length (mp_mmaps ?p ! q) = (if q = j then len else if j < q then mm_length (mp_mmaps p ! (q - 1)) else mm_length (mp_mmaps p ! q))"
    if "q \<le> nregs p" for q
    using key [of q] that c(2) by (auto simp: start_def stop_def split: if_splits)
  have each: "start ?p i mod 4096 = 0 \<and> 1610612736 \<le> start ?p i \<and> 0 < mm_length (mp_mmaps ?p ! i) \<and> stop ?p i < 2 ^ 31" if "i < nregs ?p" for i
  proof -
    have i: "i \<le> nregs p" using that c(1) by simp
    consider "i = j" | "j < i" "i - 1 < nregs p" | "i < j" "i < nregs p" using i j by linarith
    then show ?thesis
    proof cases
      case 1 then show ?thesis using a st [OF i] by simp
    next
      case 2 then show ?thesis using R(4-7) [of "i - 1"] st [OF i] by simp
    next
      case 3 then show ?thesis using R(4-7) [of i] st [OF i] by simp
    qed
  qed
  have order: "stop ?p i \<le> start ?p (i + 1)" if "i + 1 < nregs ?p" for i
  proof -
    have i: "i \<le> nregs p" "i + 1 \<le> nregs p" using that c(1) by simp_all
    consider "i + 1 < j" | "i + 1 = j" | "i = j" | "j < i" by linarith
    then show ?thesis
    proof cases
      case 1 then show ?thesis using R(8) [of i] st [OF i(1)] st [OF i(2)] j by simp
    next
      case 2 then show ?thesis using lo st [OF i(1)] st [OF i(2)] by auto
    next
      case 3 then show ?thesis using hi st [OF i(1)] st [OF i(2)] i(2) by simp
    next
      case 4 then show ?thesis using R(8) [of "i - 1"] st [OF i(1)] st [OF i(2)] i(2) by simp
    qed
  qed
  have "mm_addr (mp_mmaps ?p ! i) = 0" if "nregs ?p \<le> i" "i < 32" for i
    using key [OF that(2)] that c(1) j R(9) [of i] by auto
  then show ?thesis unfolding regs_ok_def using P R(2) n each order by simp
qed

section \<open>Placement\<close>

text \<open>Where a new region may go: its neighbours leave it room.\<close>

definition fits :: "mproc \<Rightarrow> nat \<Rightarrow> u32 \<Rightarrow> u32 \<Rightarrow> bool" where
  "fits p j a len = (j \<le> nregs p \<and> unat a mod 4096 = 0 \<and> 1610612736 \<le> unat a \<and> rnd (unat a + unat len) < 2 ^ 31 \<and>
     (0 < j \<longrightarrow> stop p (j - 1) \<le> unat a) \<and> (j < nregs p \<longrightarrow> rnd (unat a + unat len) \<le> start p j))"

text \<open>What the search for a place answers.\<close>

definition answer :: "mproc \<Rightarrow> u32 \<Rightarrow> (u32 \<Rightarrow> bool) \<Rightarrow> (int \<times> mproc) option \<Rightarrow> bool" where
  "answer p len A r = (r = Some (-1, p) \<or> (\<exists>j a p'. r = Some (int j, p') \<and> A a \<and> fits p j a len \<and> placed p j a len p'))"

lemma aligned_less: "x mod 4096 = 0 \<Longrightarrow> x < 2 ^ 31 \<Longrightarrow> x \<le> 2147479552" for x :: nat
proof -
  assume a: "x mod 4096 = 0" "x < 2 ^ 31"
  obtain c where "x = 4096 * c" using a(1) by auto
  then show ?thesis using a(2) by simp
qed

lemma round_new:
  assumes "unat a mod 4096 = 0" "unat a < 2 ^ 31" "unat len < 2 ^ 31"
  shows "unat (a + len) = unat a + unat len" "unat (PGROUNDUP (a + len)) = rnd (unat a + unat len)"
    "KERNBASE \<le> PGROUNDUP (a + len) \<longleftrightarrow> 2 ^ 31 \<le> rnd (unat a + unat len)"
proof -
  have b: "unat a + unat len + 4095 < 2 ^ 32" using aligned_less [OF assms(1,2)] assms(3) by simp
  then show u: "unat (a + len) = unat a + unat len" by (simp add: unat_word_ariths)
  show r: "unat (PGROUNDUP (a + len)) = rnd (unat a + unat len)" unfolding u [symmetric] by (rule unat_round) (use u b in simp)
  show "KERNBASE \<le> PGROUNDUP (a + len) \<longleftrightarrow> 2 ^ 31 \<le> rnd (unat a + unat len)" unfolding word_le_nat_alt r by (simp add: KERNBASE_def)
qed

lemma mmp_shift_none: "mmp_shift n (int n - 1) p = Some p"
  by (cases n) simp_all

lemma insert_answer:
  assumes ok: "regs_ok p" and n: "mp_total p < 32" and j: "j \<le> nregs p" and i: "i = int j - 1"
    and a: "unat a mod 4096 = 0" "1610612736 \<le> unat a" "unat a < 2 ^ 31" "unat len < 2 ^ 31" "A a"
    and lo: "0 < j \<Longrightarrow> stop p (j - 1) \<le> unat a" and hi: "j < nregs p \<Longrightarrow> rnd (unat a + unat len) \<le> start p j"
  shows "answer p len A (mmp_insert p len i a)"
proof (cases "2 ^ 31 \<le> rnd (unat a + unat len)")
  case True
  have "j = nregs p"
  proof (rule ccontr)
    assume "j \<noteq> nregs p"
    then have "j < nregs p" using j by simp
    then have "rnd (unat a + unat len) \<le> stop p j" using hi region_end(3) [OF ok] by (meson less_imp_le order_trans)
    then show False using regs_okD(7) [OF ok \<open>j < nregs p\<close>] True by simp
  qed
  then have "mmp_insert p len i a = Some (-1, p)"
    using i mmp_shift_none [of "nregs p" p] round_new(3) [OF a(1,3,4)] True by (simp add: mmp_insert_def)
  then show ?thesis by (simp add: answer_def)
next
  case False
  then have "PGROUNDUP (a + len) < KERNBASE" using round_new(3) [OF a(1,3,4)] by simp
  from mmp_insert_ok [OF ok n j i this] obtain p' where "mmp_insert p len i a = Some (int j, p')" "placed p j a len p'" by (elim exE conjE)
  moreover have "fits p j a len" using j a lo hi False by (simp add: fits_def)
  ultimately show ?thesis using a(5) unfolding answer_def by blast
qed

lemma check_gaps_answer:
  assumes ok: "regs_ok p" and n: "mp_total p < 32" and a: "unat a mod 4096 = 0" "1610612736 \<le> unat a" "unat a < 2 ^ 31" "unat len < 2 ^ 31"
    and i: "i + k + 1 = nregs p"
  shows "answer p len (\<lambda>b. b = a) (check_gaps k p a len (int i))"
  using i
proof (induction k arbitrary: i)
  case 0
  then show ?case by (simp add: answer_def)
next
  case (Suc k)
  have c32: "nregs p < 32" using n by simp
  have i1: "i < nregs p" "i + 1 < nregs p" using Suc.prems by simp_all
  let ?nxt = "mp_mmaps p ! (i + 1)" and ?cur = "mp_mmaps p ! i"
  have m: "mmp_at p (int i) = Some ?cur" "mmp_at p (int i + 1) = Some ?nxt"
    using mmp_at_nth [of i p] mmp_at_nth [of "i + 1" p] i1 c32 by (simp_all add: add.commute)
  note R = regs_okD [OF ok]
  have al: "unat (PGROUNDUP (mm_addr ?nxt)) = start p (i + 1)"
    using unat_round [of "mm_addr ?nxt"] rnd_aligned [OF R(4) [OF i1(2)]] region_end(3) [OF ok i1(2)] R(7) [OF i1(2)] by (simp add: start_def)
  show ?case
  proof (cases "PGROUNDUP (mm_addr ?cur + mm_length ?cur) \<le> a \<and> a + len \<le> PGROUNDUP (mm_addr ?nxt)")
    case True
    then have g: "stop p i \<le> unat a" "unat a + unat len \<le> start p (i + 1)"
      unfolding word_le_nat_alt region_end(1) [OF ok i1(1)] al round_new(1) [OF a(1,3,4)] by simp_all
    have e: "check_gaps (Suc k) p a len (int i) = mmp_insert p len (int i) a" using True m by simp
    show ?thesis unfolding e
      by (rule insert_answer [OF ok n, of "i + 1"]) (use i1 a g rnd_le [OF g(2) R(4) [OF i1(2)]] in simp_all)
  next
    case False
    then have e: "check_gaps (Suc k) p a len (int i) = check_gaps k p a len (int (i + 1))" using m by (auto simp: add.commute)
    show ?thesis unfolding e by (rule Suc.IH) (use Suc.prems in simp)
  qed
qed

lemma mmp_check_answer:
  assumes ok: "regs_ok p" and n: "mp_total p < 32" and a: "unat a mod 4096 = 0" "1610612736 \<le> unat a" "unat a < 2 ^ 31" "unat len < 2 ^ 31"
  shows "answer p len (\<lambda>b. b = a) (mmp_check p a len)"
proof (cases "mp_total p = 0")
  case True
  then have c: "mmp_check p a len = (if PGROUNDUP (mm_addr (mp_before p) + mm_length (mp_before p)) < a then mmp_insert p len (-1) a else Some (-1, p))"
    by (simp add: mmp_check_def mmp_at_def)
  have "answer p len (\<lambda>b. b = a) (mmp_insert p len (-1) a)" by (rule insert_answer [OF ok n, of 0]) (use True a in simp_all)
  then show ?thesis unfolding c by (simp add: answer_def)
next
  case False
  note R = regs_okD [OF ok]
  define l where "l = nregs p - 1"
  have l: "l < nregs p" "int l = mp_total p - 1" "l < 32" "nregs p = Suc l" using False R(2) n by (auto simp: l_def)
  have c: "mmp_check p a len = (if PGROUNDUP (mm_addr (mp_mmaps p ! l) + mm_length (mp_mmaps p ! l)) < a then mmp_insert p len (int l) a
      else check_gaps l p a len 0)"
    using mmp_at_nth [OF l(3), of p] l(2) by (simp add: mmp_check_def nat_diff_distrib' l_def)
  show ?thesis
  proof (cases "PGROUNDUP (mm_addr (mp_mmaps p ! l) + mm_length (mp_mmaps p ! l)) < a")
    case True
    then have "stop p l < unat a" unfolding word_less_nat_alt region_end(1) [OF ok l(1)] .
    then have "answer p len (\<lambda>b. b = a) (mmp_insert p len (int l) a)"
      by (intro insert_answer [OF ok n, of "Suc l"]) (use a l in simp_all)
    then show ?thesis using True c by simp
  next
    case False
    then show ?thesis using check_gaps_answer [OF ok n a, of 0 l] l(4) c by simp
  qed
qed

lemma any_gap_ok:
  assumes ok: "regs_ok p" and n: "mp_total p < 32" and len: "unat len < 2 ^ 31" and i: "i < nregs p" "i + k = nregs p"
  shows "\<exists>g. any_gap k p len (int i) = Some (int g) \<and> g < nregs p \<and> (g + 1 < nregs p \<longrightarrow> stop p g + unat len < start p (g + 1))"
  using i
proof (induction k arbitrary: i)
  case (Suc k)
  note R = regs_okD [OF ok]
  have c32: "nregs p < 32" using n by simp
  let ?nxt = "mp_mmaps p ! (i + 1)" and ?cur = "mp_mmaps p ! i"
  have m: "mmp_at p (int i) = Some ?cur" "mmp_at p (int i + 1) = Some ?nxt"
    using mmp_at_nth [of i p] mmp_at_nth [of "i + 1" p] Suc.prems c32 by (simp_all add: add.commute)
  show ?case
  proof (cases "i + 1 < nregs p")
    case False
    then have "mm_addr ?nxt = 0" using R(9) [of "i + 1"] Suc.prems c32 by simp
    then show ?thesis using m Suc.prems False by (intro exI [of _ i]) simp
  next
    case True
    have nz: "mm_addr ?nxt \<noteq> 0" using R(5) [OF True] by (auto simp: start_def)
    have al: "unat (PGROUNDUP (mm_addr ?nxt)) = start p (i + 1)"
      using unat_round [of "mm_addr ?nxt"] rnd_aligned [OF R(4) [OF True]] region_end(3) [OF ok True] R(7) [OF True] by (simp add: start_def)
    let ?gap = "PGROUNDUP (mm_addr ?nxt) - PGROUNDUP (mm_addr ?cur + mm_length ?cur)"
    let ?need = "len + (if has (mm_flags ?cur) MAP_GROWSUP then PGSIZE else 0)"
    have gap: "unat ?gap = start p (i + 1) - stop p i"
      using R(8) [OF True] al region_end(1) [OF ok Suc.prems(1)] by (subst unat_sub) (simp_all add: word_le_nat_alt)
    have need: "unat len \<le> unat ?need" using len by (auto simp: unat_word_ariths PGSIZE_def)
    show ?thesis
    proof (cases "?need < ?gap")
      case True
      then have "unat len < start p (i + 1) - stop p i" using need gap by (simp add: word_less_nat_alt)
      then have "stop p i + unat len < start p (i + 1)" by linarith
      then show ?thesis using m nz True Suc.prems by (intro exI [of _ i]) simp
    next
      case False
      then have e: "any_gap (Suc k) p len (int i) = any_gap k p len (int (i + 1))" using m nz by (simp add: add.commute)
      show ?thesis unfolding e by (rule Suc.IH) (use True Suc.prems in simp_all)
    qed
  qed
qed simp

lemma mmp_any_answer:
  assumes ok: "regs_ok p" and n: "mp_total p < 32" and len: "unat len < 2 ^ 31"
  shows "answer p len (\<lambda>b. True) (mmp_any p len)"
proof -
  note R = regs_okD [OF ok]
  have base: "PGROUNDUP MMAPBASE = MMAPBASE" "unat MMAPBASE = 1610612736" by (simp_all add: PGROUNDUP_def MMAPBASE_def PGSIZE_def)
  have b: "unat MMAPBASE mod 4096 = 0" "unat MMAPBASE < 2 ^ 31" unfolding base(2) by simp_all
  show ?thesis
  proof (cases "mp_total p = 0")
    case True
    note r = round_new(3) [OF b len]
    have "mmp_insert p len (-1) MMAPBASE = mmp_any p len"
      using True base(1) by (simp add: mmp_any_def mmp_insert_def)
    moreover have "answer p len (\<lambda>b. True) (mmp_insert p len (-1) MMAPBASE)"
      by (rule insert_answer [OF ok n, of 0]) (use True b base len in simp_all)
    ultimately show ?thesis by simp
  next
    case False
    then have c: "0 < nregs p" "nregs p < 32" using R(2) n by auto
    have m0: "mmp_at p 0 = Some (mp_mmaps p ! 0)" using mmp_at_nth [of 0 p] by simp
    show ?thesis
    proof (cases "len < mm_addr (mp_mmaps p ! 0) - MMAPBASE")
      case True
      have "unat (mm_addr (mp_mmaps p ! 0) - MMAPBASE) = start p 0 - 1610612736"
        using R(5) [OF c(1)] base(2) by (subst unat_sub) (simp_all add: word_le_nat_alt start_def)
      then have "unat MMAPBASE + unat len \<le> start p 0" using True base(2) R(5) [OF c(1)] by (simp add: word_less_nat_alt)
      from rnd_le [OF this R(4) [OF c(1)]] have "answer p len (\<lambda>b. True) (mmp_insert p len (-1) MMAPBASE)"
        by (intro insert_answer [OF ok n, of 0]) (use b base len c in simp_all)
      then show ?thesis using False m0 True by (simp add: mmp_any_def)
    next
      case nf: False
      from any_gap_ok [OF ok n len c(1), of "nregs p"] obtain g where g: "any_gap (nregs p) p len 0 = Some (int g)" "g < nregs p"
        "g + 1 < nregs p \<longrightarrow> stop p g + unat len < start p (g + 1)" by auto
      let ?a = "PGROUNDUP (mm_addr (mp_mmaps p ! g) + mm_length (mp_mmaps p ! g))"
      have a: "unat ?a = stop p g" by (rule region_end(1) [OF ok g(2)])
      have mg: "mmp_at p (int g) = Some (mp_mmaps p ! g)" using mmp_at_nth [of g p] g(2) c(2) by simp
      have e: "mmp_any p len = (if KERNBASE < ?a + len then Some (-1, p) else mmp_insert p len (int g) ?a)"
        using False nf m0 g(1) mg by (simp add: mmp_any_def Let_def)
      have "1610612736 \<le> stop p g" using R(5) [OF g(2)] region_end(3) [OF ok g(2)] by simp
      moreover have "rnd (stop p g + unat len) \<le> start p (g + 1)" if "g + 1 < nregs p"
        using g(3) that by (intro rnd_le [OF _ R(4) [OF that]]) simp
      ultimately have "answer p len (\<lambda>b. True) (mmp_insert p len (int g) ?a)"
        by (intro insert_answer [OF ok n, of "g + 1"]) (use g(2) a len R(7) [OF g(2)] region_end(4) [OF ok g(2)] in simp_all)
      then show ?thesis unfolding e by (simp add: answer_def)
    qed
  qed
qed

section \<open>The call\<close>

lemma sint_small:
  fixes a :: u32
  assumes "unat a < 2 ^ 31"
  shows "sint a = int (unat a)"
proof -
  have "int (unat a) < int (2 ^ 31)" using assms by (simp only: of_nat_less_iff)
  then have "uint a < 2 ^ 31" by simp
  moreover have "- (2 ^ 31) \<le> uint a" by (rule order_trans [of _ 0]) simp_all
  ultimately have "to_int32 (uint a) = uint a" by (intro to_int32_id)
  then show ?thesis by (simp add: to_int32_def)
qed

lemma sint_pos:
  fixes a :: u32
  assumes "0 \<le> sint a"
  shows "sint a = int (unat a)" "unat a < 2 ^ 31"
proof -
  have u: "uint a < 4294967296" using uint_lt2p [of a] by simp
  have "sint a = uint a \<and> uint a < 2147483648"
  proof (cases "uint a < 2147483648")
    case True
    then have "int (unat a) < int (2 ^ 31)" by simp
    then have "unat a < 2 ^ 31" by (simp only: of_nat_less_iff)
    then show ?thesis using True sint_small [of a] by simp
  next
    case False
    then have "to_int32 (uint a - 4294967296) = uint a - 4294967296" using u by (intro to_int32_id) simp_all
    moreover have "(word_of_int (uint a - 4294967296) :: u32) = a" by (simp flip: wi_hom_sub)
    ultimately have "sint a = uint a - 4294967296" by (simp only: to_int32_def)
    then show ?thesis using assms u by linarith
  qed
  then have "sint a = int (unat a)" "int (unat a) < int 2147483648" by simp_all
  then show "sint a = int (unat a)" "unat a < 2 ^ 31" unfolding of_nat_less_iff by simp_all
qed

lemma placed_upd:
  assumes "placed p j a len p'" "j < 32" "\<And>m. mm_addr m = a \<Longrightarrow> mm_addr (F m) = a" "\<And>m. mm_length (F m) = mm_length m"
  shows "placed p j a len (p'\<lparr>mp_mmaps := (mp_mmaps p')[j := F (mp_mmaps p' ! j)]\<rparr>)"
proof -
  have "mm_addr (mp_mmaps p' ! j) = a" using assms(1,2) by (auto simp: placed_def)
  then show ?thesis using assms unfolding placed_def by (auto simp: nth_list_update)
qed

text \<open>The regions \<open>p'\<close> has: those of \<open>p\<close>, with a new one of length \<open>len\<close> at \<open>r\<close> put in at index \<open>j\<close>, apart from all others.\<close>

definition one_more :: "mproc \<Rightarrow> u32 \<Rightarrow> u32 \<Rightarrow> nat \<Rightarrow> mproc \<Rightarrow> bool" where
  "one_more p r len j p' = (j \<le> nregs p \<and> nregs p' = nregs p + 1 \<and>
     (mm_addr (mp_mmaps p' ! j), mm_length (mp_mmaps p' ! j)) = (r, len) \<and>
     (\<forall>i < nregs p. let i' = (if i < j then i else i + 1) in
        (mm_addr (mp_mmaps p' ! i'), mm_length (mp_mmaps p' ! i')) = (mm_addr (mp_mmaps p ! i), mm_length (mp_mmaps p ! i)) \<and>
        (stop p i \<le> unat r \<or> rnd (unat r + unat len) \<le> start p i)))"

lemma regs_sorted:
  assumes ok: "regs_ok p" and "i < k" "k < nregs p"
  shows "stop p i \<le> start p k"
  using assms(2,3)
proof (induction k)
  case (Suc k)
  show ?case
  proof (cases "i = k")
    case True then show ?thesis using regs_okD(8) [OF ok, of k] Suc.prems by simp
  next
    case False
    then have "stop p i \<le> start p k" using Suc by simp
    also have "\<dots> \<le> stop p k" using region_end(3) [OF ok, of k] Suc.prems by simp
    also have "\<dots> \<le> start p (Suc k)" using regs_okD(8) [OF ok, of k] Suc.prems by simp
    finally show ?thesis .
  qed
qed simp

lemma one_more_ok:
  assumes ok: "regs_ok p" and n: "mp_total p < 32" and f: "fits p j a len" and pl: "placed p j a len p'" and l: "0 < len"
  shows "regs_ok (p'\<lparr>mp_total := mp_total p' + 1\<rparr>)" "one_more p a len j (p'\<lparr>mp_total := mp_total p' + 1\<rparr>)"
proof -
  have F: "j \<le> nregs p" "unat a mod 4096 = 0" "1610612736 \<le> unat a" "rnd (unat a + unat len) < 2 ^ 31"
      "0 < j \<Longrightarrow> stop p (j - 1) \<le> unat a" "j < nregs p \<Longrightarrow> rnd (unat a + unat len) \<le> start p j"
    using f unfolding fits_def by blast+
  show "regs_ok (p'\<lparr>mp_total := mp_total p' + 1\<rparr>)" by (rule placed_ok [OF ok n F(1) pl F(2,3) l F(4-6)])
  have c: "nregs p < 32" "mp_total p' = mp_total p" "0 \<le> mp_total p" using n pl regs_okD(2) [OF ok] by (simp_all add: placed_def)
  have key: "(mm_addr (mp_mmaps p' ! q), mm_length (mp_mmaps p' ! q)) =
      (if q = j then (a, len) else if j < q \<and> q \<le> nregs p then (mm_addr (mp_mmaps p ! (q - 1)), mm_length (mp_mmaps p ! (q - 1)))
       else (mm_addr (mp_mmaps p ! q), mm_length (mp_mmaps p ! q)))" if "q < 32" for q using pl that by (simp add: placed_def)
  have apart: "stop p i \<le> unat a \<or> rnd (unat a + unat len) \<le> start p i" if "i < nregs p" for i
  proof (cases "i < j")
    case True
    have "stop p i \<le> stop p (j - 1)"
    proof (cases "i = j - 1")
      case False
      have j: "i < j - 1" "j - 1 < nregs p" using True False F(1) by linarith+
      show ?thesis using regs_sorted [OF ok j] region_end(3) [OF ok j(2)] by linarith
    qed simp
    then show ?thesis using F(5) True by linarith
  next
    case False
    then have "start p j \<le> start p i"
      using regs_sorted [OF ok, of j i] region_end(3) [OF ok, of j] that by (cases "i = j") auto
    then show ?thesis using F(6) False that by simp
  qed
  show "one_more p a len j (p'\<lparr>mp_total := mp_total p' + 1\<rparr>)"
    unfolding one_more_def Let_def using F(1) c key [of j] key apart by (auto simp: nat_add_distrib)
qed

text \<open>\<^verbatim>\<open>my_mmap\<close> in three parts: the checks of the arguments, the search for a place, and the fields of the new region.\<close>

definition find_place :: "mproc \<Rightarrow> u32 \<Rightarrow> u32 \<Rightarrow> u32 \<Rightarrow> (int \<times> mproc) option" where
  "find_place p flags addr len = (if has flags MAP_FIXED then if addr \<noteq> 0 then mmp_check p addr len else Some (-1, p)
     else if addr \<noteq> 0 then mmp_check p addr len else mmp_any p len)"

definition fill_in :: "u32 \<Rightarrow> nat option \<Rightarrow> u32 \<Rightarrow> u32 \<Rightarrow> u32 \<Rightarrow> mmp \<Rightarrow> mmp" where
  "fill_in addr f offset flags protection m = m\<lparr>mm_flags := flags, mm_prot := (if protection = PROT_NONE then 0 else PTE_U OR protection),
     mm_offset := offset, mm_f := f, mm_addr := (if has flags MAP_FIXED then addr else mm_addr m)\<rparr>"

lemma my_mmap_checks:
  assumes ok: "regs_ok p"
  shows "my_mmap addr f readable writable len offset flags protection p = Some (-1, p) \<or>
    mp_total p < 32 \<and> unat len < 2 ^ 31 \<and> 0 < len \<and> (addr \<noteq> 0 \<longrightarrow> 1610612736 \<le> sint addr \<and> addr mod PGSIZE = 0) \<and>
    my_mmap addr f readable writable len offset flags protection p = do {
      (i, p) \<leftarrow> find_place p flags addr len;
      if i = -1 then Some (-1, p)
      else do { p \<leftarrow> upd_mmp i (fill_in addr f offset flags protection) p; m \<leftarrow> mmp_at (p\<lparr>mp_total := mp_total p + 1\<rparr>) i; Some (mm_addr m, p\<lparr>mp_total := mp_total p + 1\<rparr>) } }"
proof -
  let ?r = "my_mmap addr f readable writable len offset flags protection p"
  let ?bad = "\<not> has flags MAP_PRIVATE \<and> \<not> has flags MAP_SHARED \<or> sint len \<le> 0 \<or> sint offset < 0 \<or>
    \<not> has flags MAP_ANONYMOUS \<and> \<not> readable \<or> has flags MAP_SHARED \<and> has protection PROT_WRITE \<and> \<not> writable"
  let ?far = "addr \<noteq> 0 \<and> (sint addr < sint MMAPBASE \<or> KERNBASE < PGROUNDUP (PGROUNDUP addr + len) \<or> addr mod PGSIZE \<noteq> 0)"
  show ?thesis
  proof (cases "?bad \<or> mp_total p = 32 \<or> ?far")
    case True
    then have "?r = Some (-1, p)" unfolding my_mmap_def Let_def by (auto split: if_splits)
    then show ?thesis by (rule disjI1)
  next
    case False
    have n: "mp_total p < 32" using False regs_okD(3) [OF ok] by linarith
    have l: "0 < sint len" using False by linarith
    then have "unat len < 2 ^ 31" by (intro sint_pos) simp
    moreover have "0 < len" using l by (metis signed_0 word_neq_0_conv less_irrefl)
    moreover have nb: "\<not> ?bad" "mp_total p \<noteq> 32" "\<not> ?far" using False by blast+
    have m: "sint MMAPBASE = 1610612736" by (simp add: MMAPBASE_def)
    have "addr \<noteq> 0 \<longrightarrow> 1610612736 \<le> sint addr \<and> addr mod PGSIZE = 0" using nb(3) unfolding m by (blast intro: leI)
    moreover have "?r = do { (i, p) \<leftarrow> find_place p flags addr len; if i = -1 then Some (-1, p)
        else do { p \<leftarrow> upd_mmp i (fill_in addr f offset flags protection) p; m \<leftarrow> mmp_at (p\<lparr>mp_total := mp_total p + 1\<rparr>) i; Some (mm_addr m, p\<lparr>mp_total := mp_total p + 1\<rparr>) } }"
      unfolding my_mmap_def Let_def find_place_def fill_in_def [abs_def] if_not_P [OF nb(1)] if_not_P [OF nb(2)] if_not_P [OF nb(3)] by (rule refl)
    ultimately show ?thesis using n by blast
  qed
qed

lemma find_place_answer:
  assumes ok: "regs_ok p" and n: "mp_total p < 32" and len: "unat len < 2 ^ 31" and a: "addr \<noteq> 0 \<longrightarrow> 1610612736 \<le> sint addr \<and> addr mod PGSIZE = 0"
  shows "answer p len (\<lambda>a. (addr \<noteq> 0 \<longrightarrow> a = addr) \<and> (has flags MAP_FIXED \<longrightarrow> a = addr)) (find_place p flags addr len)"
proof (cases "addr = 0")
  case True
  then show ?thesis using mmp_any_answer [OF ok n len] by (auto simp: answer_def find_place_def)
next
  case nz: False
  then have s: "0 \<le> sint addr" "1610612736 \<le> sint addr" "addr mod PGSIZE = 0" using a by simp_all
  have "unat (addr mod PGSIZE) = 0" using s(3) by simp
  then have "unat addr mod 4096 = 0" by (simp add: unat_mod)
  moreover have "1610612736 \<le> unat addr" using s(2) unfolding sint_pos(1) [OF s(1)] by linarith
  moreover have "unat addr < 2 ^ 31" by (rule sint_pos(2) [OF s(1)])
  ultimately have "answer p len (\<lambda>b. b = addr) (mmp_check p addr len)" using len by (intro mmp_check_answer [OF ok n])
  then show ?thesis using nz by (auto simp: answer_def find_place_def)
qed

lemma fill_in_region:
  assumes ok: "regs_ok p" and n: "mp_total p < 32" and len: "0 < len" and j: "has flags MAP_FIXED \<longrightarrow> a = addr" "fits p j a len" "placed p j a len p1"
  obtains p' where "(do { p \<leftarrow> upd_mmp (int j) (fill_in addr f offset flags protection) p1; m \<leftarrow> mmp_at (p\<lparr>mp_total := mp_total p + 1\<rparr>) (int j);
      Some (mm_addr m, p\<lparr>mp_total := mp_total p + 1\<rparr>) }) = Some (a, p')" "regs_ok p'" "one_more p a len j p'"
    "mm_flags (mp_mmaps p' ! j) = flags" "mm_f (mp_mmaps p' ! j) = f" "mm_offset (mp_mmaps p' ! j) = offset"
proof -
  define F where "F = fill_in addr f offset flags protection"
  have j32: "j < 32" using j(2) n by (auto simp: fits_def)
  define p2 where "p2 = p1\<lparr>mp_mmaps := (mp_mmaps p1)[j := F (mp_mmaps p1 ! j)]\<rparr>"
  have pl: "placed p j a len p2" unfolding p2_def
    by (rule placed_upd [OF j(3) j32]) (use j(1) in \<open>auto simp: F_def fill_in_def\<close>)
  have "length (mp_mmaps p1) = 32" using j(3) by (simp add: placed_def)
  then have fl: "mm_flags (mp_mmaps p2 ! j) = flags" "mm_f (mp_mmaps p2 ! j) = f" "mm_offset (mp_mmaps p2 ! j) = offset"
    using j32 by (simp_all add: p2_def F_def fill_in_def)
  have "mm_addr (mp_mmaps p2 ! j) = a" using pl j32 by (auto simp: placed_def)
  then have "(do { p \<leftarrow> upd_mmp (int j) F p1; m \<leftarrow> mmp_at (p\<lparr>mp_total := mp_total p + 1\<rparr>) (int j); Some (mm_addr m, p\<lparr>mp_total := mp_total p + 1\<rparr>) }) =
      Some (a, p2\<lparr>mp_total := mp_total p2 + 1\<rparr>)"
    using upd_mmp_eq [OF j32, of F p1] mmp_at_nth [OF j32, of "p2\<lparr>mp_total := mp_total p2 + 1\<rparr>"] by (simp add: p2_def)
  then show ?thesis using that [of "p2\<lparr>mp_total := mp_total p2 + 1\<rparr>"] one_more_ok [OF ok n j(2) pl len] fl by (simp add: F_def)
qed

section \<open>Properties\<close>

text \<open>C12. In a process whose regions are in order and whose table entries behind the regions have address 0 (\<^const>\<open>regs_ok\<close>: so in a process
  slot that is used for the first time, and by this theorem after any further calls of \<^verbatim>\<open>my_mmap\<close>), \<^verbatim>\<open>my_mmap\<close> returns, and keeps the regions in order and apart and the entries behind
  them 0. It refuses with \<open>-1\<close> and changes nothing, or it returns the address of a new region of the wanted length, page-aligned, between the base of the mappings
  and the kernel, at the wanted address if there is one, apart from every other region; all other regions keep their address and length.
  The hypothesis does not hold after \<^verbatim>\<open>my_munmap\<close> of a region that is not the last one, which leaves a stale address behind the regions (\<^verbatim>\<open>sys_mmap.c:348\<close>),
  nor in a process slot that an earlier process with mappings used (\<^verbatim>\<open>proc.c:114\<close>): \<^verbatim>\<open>mmp_any\<close> reads that entry.\<close>

theorem mmap_keeps_regions_apart:
  assumes ok: "regs_ok p"
  shows "\<exists>r p'. my_mmap addr f readable writable len offset flags protection p = Some (r, p') \<and> regs_ok p' \<and>
    (r = -1 \<and> p' = p \<or>
     (\<exists>j. one_more p r len j p' \<and> unat r mod 4096 = 0 \<and> 1610612736 \<le> unat r \<and> unat r + unat len < 2 ^ 31 \<and> (addr \<noteq> 0 \<longrightarrow> r = addr) \<and>
        mm_flags (mp_mmaps p' ! j) = flags \<and> mm_f (mp_mmaps p' ! j) = f \<and> mm_offset (mp_mmaps p' ! j) = offset))"
proof -
  let ?r = "my_mmap addr f readable writable len offset flags protection p"
  have refuse: ?thesis if "?r = Some (-1, p)" using that ok by blast
  show ?thesis
  proof (cases "?r = Some (-1, p)")
    case False
    then have c: "mp_total p < 32" "unat len < 2 ^ 31" "0 < len" "addr \<noteq> 0 \<longrightarrow> 1610612736 \<le> sint addr \<and> addr mod PGSIZE = 0"
      and r: "?r = do { (i, p) \<leftarrow> find_place p flags addr len; if i = -1 then Some (-1, p)
        else do { p \<leftarrow> upd_mmp i (fill_in addr f offset flags protection) p; m \<leftarrow> mmp_at (p\<lparr>mp_total := mp_total p + 1\<rparr>) i; Some (mm_addr m, p\<lparr>mp_total := mp_total p + 1\<rparr>) } }"
      using my_mmap_checks [OF ok, of addr f readable writable len offset flags protection] by blast+
    have "find_place p flags addr len \<noteq> Some (-1, p)" using False unfolding r by auto
    then obtain j a p1 where j: "find_place p flags addr len = Some (int j, p1)" "addr \<noteq> 0 \<longrightarrow> a = addr" "has flags MAP_FIXED \<longrightarrow> a = addr" "fits p j a len" "placed p j a len p1"
      using find_place_answer [OF ok c(1,2,4), of flags] unfolding answer_def by blast
    obtain p' where p': "(do { p \<leftarrow> upd_mmp (int j) (fill_in addr f offset flags protection) p1; m \<leftarrow> mmp_at (p\<lparr>mp_total := mp_total p + 1\<rparr>) (int j);
        Some (mm_addr m, p\<lparr>mp_total := mp_total p + 1\<rparr>) }) = Some (a, p')" "regs_ok p'" "one_more p a len j p'"
      "mm_flags (mp_mmaps p' ! j) = flags" "mm_f (mp_mmaps p' ! j) = f" "mm_offset (mp_mmaps p' ! j) = offset"
      by (rule fill_in_region [OF ok c(1,3) j(3-5), of f offset protection])
    have e: "?r = Some (a, p')" unfolding r j(1) using p'(1) by simp
    have "unat a + unat len < 2 ^ 31" using j(4) rnd_bounds(1) [of "unat a + unat len"] unfolding fits_def by linarith
    moreover have "unat a mod 4096 = 0" "1610612736 \<le> unat a" using j(4) by (simp_all add: fits_def)
    ultimately show ?thesis using e p'(2-6) j(2) by (intro exI [of _ a] exI [of _ p'] conjI disjI2 exI [of _ j]) simp_all
  qed (rule refuse)
qed

definition no_mapping :: mmp where
  "no_mapping = \<lparr>mm_addr = 0, mm_length = 0, mm_flags = 0, mm_prot = 0, mm_f = None, mm_offset = 0, mm_ref = 0, mm_stored_length = 0\<rparr>"

definition fresh_mproc :: "u32 \<Rightarrow> mproc" where
  "fresh_mproc pgdir = \<lparr>mp_pgdir = pgdir, mp_killed = False, mp_before = no_mapping, mp_mmaps = replicate 32 no_mapping, mp_total = 0\<rparr>"

lemma fresh_mproc_ok: "regs_ok (fresh_mproc pgdir)"
  by (auto simp: regs_ok_def fresh_mproc_def no_mapping_def)

theorem mmap_keeps_regions_apart_witness:
  "regs_ok (fresh_mproc 0) \<and> (\<exists>p1 p2. my_mmap 0 None True True 5000 0 (MAP_PRIVATE OR MAP_ANONYMOUS) PROT_WRITE (fresh_mproc 0) = Some (0x60000000, p1) \<and>
     my_mmap 0 None True True 100 0 (MAP_PRIVATE OR MAP_ANONYMOUS) PROT_WRITE p1 = Some (0x60002000, p2) \<and> regs_ok p2)"
proof -
  note D = my_mmap_def mmp_any_def upd_mmp_def mmp_at_def mmp_insert_def fresh_mproc_def no_mapping_def has_def MAP_PRIVATE_def MAP_SHARED_def
    MAP_ANONYMOUS_def MAP_FIXED_def PROT_WRITE_def PROT_NONE_def KERNBASE_def MMAPBASE_def PGROUNDUP_def PGSIZE_def Let_def MAP_GROWSUP_def
  define p1 where "p1 = snd (the (my_mmap 0 None True True 5000 0 (MAP_PRIVATE OR MAP_ANONYMOUS) PROT_WRITE (fresh_mproc 0)))"
  have 1: "my_mmap 0 None True True 5000 0 (MAP_PRIVATE OR MAP_ANONYMOUS) PROT_WRITE (fresh_mproc 0) = Some (0x60000000, p1)"
    unfolding p1_def by (simp add: D)
  have ok1: "regs_ok p1" using mmap_keeps_regions_apart [OF fresh_mproc_ok, of 0 None True True 5000 0 "MAP_PRIVATE OR MAP_ANONYMOUS" PROT_WRITE 0] 1 by auto
  define p2 where "p2 = snd (the (my_mmap 0 None True True 100 0 (MAP_PRIVATE OR MAP_ANONYMOUS) PROT_WRITE p1))"
  have 2: "my_mmap 0 None True True 100 0 (MAP_PRIVATE OR MAP_ANONYMOUS) PROT_WRITE p1 = Some (0x60002000, p2)"
    unfolding p2_def p1_def by (simp add: D nth_list_update)
  have "regs_ok p2" using mmap_keeps_regions_apart [OF ok1, of 0 None True True 100 0 "MAP_PRIVATE OR MAP_ANONYMOUS" PROT_WRITE] 2 by auto
  then show ?thesis using 1 2 fresh_mproc_ok by blast
qed

end
