(* ===== verification/Page_Fault.thy ===== *)
theory Page_Fault
  imports Mmap_Regions
begin

text \<open>
  The first access to a page of a memory mapping (\<^verbatim>\<open>handle_page_fault\<close> of \<^verbatim>\<open>CS_537_P5/trap.c\<close> with \<^verbatim>\<open>map_anon_main\<close> of
  \<^verbatim>\<open>sys_mmap.c\<close>), on top of the map of pages of a process, and what is left of a region after \<^verbatim>\<open>my_munmap\<close>.
\<close>

section \<open>One page of an anonymous mapping\<close>

text \<open>The pages below the kernel.\<close>

definition kern_limit :: nat where
  "kern_limit = unat KERNBASE div 4096"

lemma kern_limit_eq: "kern_limit = 524288"
  by (simp add: kern_limit_def KERNBASE_def)

lemma get_physical_page_eq:
  assumes "vm_ok k ps (mp_pgdir p)"
  shows "\<exists>pte. get_physical_page p a k = Some (PTE_ADDR (pte_of k (mp_pgdir p) a), pte, k)"
proof (cases "PDX a \<in> tabs k (mp_pgdir p)")
  case True
  show ?thesis using walk_found [OF assms True] True by (simp add: get_physical_page_def pte_of_def)
next
  case False
  show ?thesis using walk_missing [OF assms False] False by (simp add: get_physical_page_def pte_of_def PTE_ADDR_def)
qed

lemma small_flags:
  assumes "perm < 4096"
  shows "PTE_FLAGS (perm OR PTE_P) = perm OR PTE_P"
proof -
  have "take_bit 12 perm = perm" using assms
    by (intro word_unat_eq_iff [THEN iffD2]) (simp add: unsigned_take_bit_eq take_bit_nat_eq_self word_less_nat_alt)
  moreover have "take_bit 12 PTE_P = PTE_P" by (simp add: PTE_P_def)
  moreover have "PTE_FLAGS x = take_bit 12 x" for x unfolding PTE_FLAGS_def mask12 by (simp add: take_bit_eq_mask)
  ultimately show ?thesis by simp
qed

text \<open>What mapping the page of \<open>a\<close> to the free page \<open>q\<close> with permissions \<open>perm\<close> does: the page is filled with zeros,
  the entry of \<open>a\<close> names it, every other entry is kept, and the only other pages written are page tables.\<close>

definition mapped_zero :: "u32 \<Rightarrow> u32 \<Rightarrow> u32 \<Rightarrow> u32 \<Rightarrow> kmem \<Rightarrow> u32 list \<Rightarrow> kmem \<Rightarrow> bool" where
  "mapped_zero pgdir a q perm k qs k' = ((\<exists>rs. uvm_ok kern_limit k' rs pgdir \<and> tables k' pgdir \<union> set rs = tables k pgdir \<union> set qs) \<and>
     (\<forall>va. pte_of k' pgdir va = (if vpn va = vpn a then V2P q OR perm OR PTE_P else pte_of k pgdir va)) \<and>
     zeroed (km_mem k') q \<and> agree_off ({q} \<union> tables k' pgdir) (km_mem k) (km_mem k'))"

lemma anon_page:
  assumes ok: "uvm_ok kern_limit k (q # qs) (mp_pgdir p)" and qs: "qs \<noteq> []" and a: "unat a mod 4096 = 0" "vpn a < kern_limit" "\<not> present (pte_of k (mp_pgdir p) a)"
    and perm: "perm < 4096" and len: "0 < unat len" "unat len \<le> 4096"
  shows "\<exists>k'. map_anon_main p a perm len k = Some (0, k') \<and> mapped_zero (mp_pgdir p) a q perm k qs k'"
proof -
  let ?d = "mp_pgdir p"
  from uvm_kalloc [OF ok] obtain k1 where k1: "kalloc k = Some (q, k1)" "uvm_ok kern_limit k1 qs ?d" "limbo kern_limit k1 qs ?d q" "km_mem k1 = km_mem k" "km_end k1 = km_end k"
    by (elim exE conjE)
  note S = same_mem [OF k1(4)]
  define k2 where "k2 = clear_page q k1"
  note C = clear_page_limbo [OF k1(2,3), folded k2_def]
  have np: "\<not> present (pte_of k2 ?d a)" using a(3) C(3) S(4) by simp
  from map_user_page [OF C(1,2) a(1,2) np small_flags [OF perm]] qs obtain k' rs where m: "mappages ?d a PGSIZE (V2P q) perm k2 = Some (0, k')"
      "extends ?d k2 qs k' rs" "uvm_ok kern_limit k' rs ?d" "pte_of k' ?d = (\<lambda>va. if vpn va = vpn a then V2P q OR perm OR PTE_P else pte_of k2 ?d va)" by auto
  have E: "tables k' ?d \<union> set rs = tables k ?d \<union> set qs" "agree_off (tables k' ?d) (km_mem k2) (km_mem k')" "km_end k' = km_end k2"
    using m(2) C(4) S(3) unfolding extends_def by auto
  have qk: "page_ok k1 q" "q \<notin> tables k' ?d" using limboD(1-3) [OF k1(3)] E(1) S(3) by auto
  have "page_ok k1 t" if "t \<in> tables k' ?d" for t
    using uvm_okD(1) [OF m(3)] that page_ok_end [of k' k1] E(3) C(5) by (simp add: vm_ok_def)
  then have z: "zeroed (km_mem k') q"
    using qk by (intro zeroed_frame [OF zeroed_clear [of q k1, folded k2_def] E(2)] ballI page_disjoint [OF qk(1)]) auto
  have ag: "agree_off ({q} \<union> tables k' ?d) (km_mem k) (km_mem k')"
    using agree_off_trans [OF agree_clear [of q k1, folded k2_def] E(2)] k1(4) by simp
  have l: "sint len = int (unat len)" using len(2) by (intro sint_small) simp
  have "\<exists>n. page_fuel len = Suc (Suc n)" by (simp add: page_fuel_def)
  then obtain n where n: "page_fuel len = Suc (Suc n)" ..
  have c: "sint (0 :: u32) < sint len" "\<not> sint PGSIZE < sint len" 
  proof -
    have s: "sint (0 :: u32) = 0" "sint PGSIZE = 4096" by (simp_all add: PGSIZE_def)
    show "sint (0 :: u32) < sint len" "\<not> sint PGSIZE < sint len" unfolding s l using len by linarith+
  qed
  have "map_anon_main p a perm len k = Some (0, k')"
    using k1(1) page_ok_aligned(3) [OF qk(1)] m(1) c by (simp add: map_anon_main_def n k2_def)
  moreover have "pte_of k2 ?d = pte_of k ?d" using C(3) S(4) by simp
  ultimately show ?thesis using m(3,4) E(1) z ag unfolding mapped_zero_def by auto
qed

section \<open>The fault\<close>

lemma page_of:
  "unat (PGROUNDDOWN a) mod 4096 = 0" "vpn (PGROUNDDOWN a) = vpn a"
  by (simp_all add: unat_PGROUNDDOWN vpn_def)

lemma fault_region:
  assumes ok: "regs_ok p" and i: "i < nregs p" "start p i \<le> unat a" "unat a < start p i + unat (mm_length (mp_mmaps p ! i))"
    and nb: "\<forall>j < i. mm_addr (mp_mmaps p ! j) + mm_length (mp_mmaps p ! j) \<noteq> a"
  shows "List.find (\<lambda>i. let start = mm_addr (mp_mmaps p ! i); end' = start + mm_length (mp_mmaps p ! i) in start \<le> a \<and> a \<le> end') [0..<nregs p] = Some i"
proof -
  have e: "unat (mm_addr (mp_mmaps p ! j) + mm_length (mp_mmaps p ! j)) = start p j + unat (mm_length (mp_mmaps p ! j))" if "j < nregs p" for j
    using region_end(2) [OF ok that] regs_okD(7) [OF ok that] by (simp add: start_def unat_word_ariths)
  have "\<not> a \<le> mm_addr (mp_mmaps p ! j) + mm_length (mp_mmaps p ! j)" if "j < i" for j
  proof -
    have "start p j + unat (mm_length (mp_mmaps p ! j)) \<le> unat a"
      using region_end(2) [OF ok, of j] regs_sorted [OF ok that i(1)] i(1,2) that by simp
    moreover have "unat (mm_addr (mp_mmaps p ! j) + mm_length (mp_mmaps p ! j)) \<noteq> unat a" using nb that by (metis word_unat_eq_iff)
    ultimately show ?thesis using e [of j] that i(1) by (simp add: word_le_nat_alt)
  qed
  moreover have "mm_addr (mp_mmaps p ! i) \<le> a" "a \<le> mm_addr (mp_mmaps p ! i) + mm_length (mp_mmaps p ! i)"
    using i e [OF i(1)] by (simp_all add: word_le_nat_alt start_def)
  ultimately show ?thesis using i(1) unfolding find_Some_iff by (intro exI [of _ i]) (auto simp: Let_def)
qed

text \<open>C16. A page fault in an anonymous mapping gets a page of zeros, under the following conditions. The regions of the process are in order with zero
  addresses behind them (\<^const>\<open>regs_ok\<close>), and the page table is well formed with two pages free; the faulting address lies in a region with the flag
  \<^verbatim>\<open>MAP_ANONYMOUS\<close> whose protection is below 4096, and its page has no entry yet; no earlier region ends exactly at the address (\<^verbatim>\<open>trap.c:44\<close> takes such an
  address for one of the earlier region); and the count of bytes stored by earlier faults is not exactly the length of the region (\<^verbatim>\<open>trap.c:53\<close> computes the
  size of the page from that count, and a size of 0 maps nothing). Then \<^verbatim>\<open>handle_page_fault\<close> maps the page of the address to a free page filled with zeros,
  with the permissions of the region, and does not kill the process; no other entry of the page table changes, no page but the new one and page tables is written, and of the
  process only the region's count of stored bytes changes.\<close>

theorem page_fault_maps_zero_page:
  assumes "uvm_ok kern_limit k (q # q2 # qs) (mp_pgdir p)" "regs_ok p" "i < nregs p" "has (mm_flags (mp_mmaps p ! i)) MAP_ANONYMOUS"
    "start p i \<le> unat a" "unat a < start p i + unat (mm_length (mp_mmaps p ! i))"
    "\<forall>j < i. mm_addr (mp_mmaps p ! j) + mm_length (mp_mmaps p ! j) \<noteq> a"
    "mm_stored_length (mp_mmaps p ! i) \<noteq> mm_length (mp_mmaps p ! i)" "mm_prot (mp_mmaps p ! i) < 4096" "pte_of k (mp_pgdir p) a = 0"
  shows "\<exists>k'. handle_page_fault files pid a p c k =
      Some (p\<lparr>mp_mmaps := (mp_mmaps p)[i := (mp_mmaps p ! i)\<lparr>mm_stored_length := mm_stored_length (mp_mmaps p ! i) + PGSIZE\<rparr>]\<rparr>, c, k') \<and>
    mapped_zero (mp_pgdir p) a q (mm_prot (mp_mmaps p ! i)) k (q2 # qs) k'"
proof -
  let ?m = "mp_mmaps p ! i" and ?a = "PGROUNDDOWN a"
  have pe: "pte_of k (mp_pgdir p) ?a = 0" using pte_of_vpn [OF page_of(2)] assms(10) by metis
  obtain pte where g: "get_physical_page p ?a k = Some (0, pte, k)"
    using get_physical_page_eq [OF uvm_okD(1) [OF assms(1)], of ?a] by (auto simp: pe PTE_ADDR_def)
  define remsize where "remsize = mm_length ?m - mm_stored_length ?m"
  define sz where "sz = (if remsize < PGSIZE then remsize else PGSIZE)"
  have "remsize \<noteq> 0" using assms(8) by (simp add: remsize_def)
  then have sz: "0 < unat sz" "unat sz \<le> 4096" by (auto simp: sz_def word_less_nat_alt unat_gt_0 PGSIZE_def)
  have "unat a < 2 ^ 31" using assms(3,6) region_end(2) [OF assms(2,3)] regs_okD(7) [OF assms(2,3)] by linarith
  then have B: "vpn ?a < kern_limit" unfolding page_of(2) by (simp add: vpn_def kern_limit_eq)
  have "q2 # qs \<noteq> []" "\<not> present (pte_of k (mp_pgdir p) ?a)" using pe by simp_all
  from anon_page [OF assms(1) this(1) page_of(1) B this(2) assms(9) sz] obtain k' where
    k': "map_anon_main p ?a (mm_prot ?m) sz k = Some (0, k')" "mapped_zero (mp_pgdir p) ?a q (mm_prot ?m) k (q2 # qs) k'" by (elim exE conjE)
  have i: "i < 32" using assms(2,3) regs_okD(3) by fastforce
  have "mmap_store_data files pid p ?a sz (mm_flags ?m) (mm_prot ?m) (mm_f ?m) (mm_offset ?m + ?a - mm_addr ?m) c k = Some (0, c, k')"
    using k'(1) assms(4) by (simp add: mmap_store_data_def)
  then have "fault_in files pid a i p c k =
      Some (p\<lparr>mp_mmaps := (mp_mmaps p)[i := ?m\<lparr>mm_stored_length := mm_stored_length ?m + PGSIZE\<rparr>]\<rparr>, c, k')"
    unfolding fault_in_def Let_def remsize_def [symmetric] sz_def [symmetric] using g upd_mmp_eq [OF i] by simp
  then show ?thesis
    unfolding handle_page_fault_def fault_region [OF assms(2,3,5,6,7)] using k'(2) unfolding mapped_zero_def page_of(2)
    by (intro exI [of _ k']) simp
qed

text \<open>A process with one anonymous mapping of two pages touches the second one.\<close>

theorem page_fault_maps_zero_page_witness:
  "\<exists>k k1 p. kinit1 0x80108000 0x8010E000 small_kmem = Some k \<and> kalloc k = Some (0x8010D000, k1) \<and>
     my_mmap 0 None True True 5000 0 (MAP_PRIVATE OR MAP_ANONYMOUS) PROT_WRITE (fresh_mproc 0x8010D000) = Some (0x60000000, p) \<and>
     (\<forall>files c. \<exists>p' k'. handle_page_fault files 1 0x60001004 p c (clear_page 0x8010D000 k1) = Some (p', c, k') \<and> \<not> mp_killed p' \<and>
       pte_of k' 0x8010D000 0x60001FFF = V2P 0x8010C000 OR (PTE_W OR PTE_U) OR PTE_P \<and> pte_of k' 0x8010D000 0x60000000 = 0)"
proof -
  let ?d = "0x8010D000 :: u32"
  note D = my_mmap_def mmp_any_def upd_mmp_def mmp_at_def fresh_mproc_def no_mapping_def has_def MAP_PRIVATE_def MAP_SHARED_def
    MAP_ANONYMOUS_def MAP_FIXED_def PROT_WRITE_def PROT_NONE_def KERNBASE_def MMAPBASE_def PGROUNDUP_def PGSIZE_def Let_def
  obtain k where k: "kinit1 0x80108000 0x8010E000 small_kmem = Some k" "kmem_ok k (page_run (PGROUNDUP 0x80108000) 6)" using small_kinit by blast
  obtain k1 where k1: "kalloc k = Some (?d, k1)" "uvm_ok kern_limit (clear_page ?d k1) [0x8010C000, 0x8010B000, 0x8010A000, 0x80109000, 0x80108000] ?d"
    "pte_of (clear_page ?d k1) ?d = (\<lambda>va. 0)" using fresh_dir [OF k(2) [unfolded small_pages], of kern_limit] by blast
  define p where "p = snd (the (my_mmap 0 None True True 5000 0 (MAP_PRIVATE OR MAP_ANONYMOUS) PROT_WRITE (fresh_mproc ?d)))"
  have m: "my_mmap 0 None True True 5000 0 (MAP_PRIVATE OR MAP_ANONYMOUS) PROT_WRITE (fresh_mproc ?d) = Some (0x60000000, p)"
    unfolding p_def by (simp add: D)
  have F: "mp_pgdir p = ?d" "mp_total p = 1" "\<not> mp_killed p" "length (mp_mmaps p) = 32"
      "mp_mmaps p ! 0 = no_mapping\<lparr>mm_addr := 0x60000000, mm_length := 5000, mm_flags := 5, mm_prot := 6\<rparr>"
    unfolding p_def by (simp_all add: D PTE_U_def)
  have ok: "regs_ok p" using mmap_keeps_regions_apart [OF fresh_mproc_ok, of 0 None True True 5000 0 "MAP_PRIVATE OR MAP_ANONYMOUS" PROT_WRITE ?d] m by auto
  have H: "0 < nregs p" "has (mm_flags (mp_mmaps p ! 0)) MAP_ANONYMOUS" "start p 0 \<le> unat (0x60001004 :: u32)"
      "unat (0x60001004 :: u32) < start p 0 + unat (mm_length (mp_mmaps p ! 0))"
      "\<forall>j < 0. mm_addr (mp_mmaps p ! j) + mm_length (mp_mmaps p ! j) \<noteq> 0x60001004" "mm_stored_length (mp_mmaps p ! 0) \<noteq> mm_length (mp_mmaps p ! 0)"
      "mm_prot (mp_mmaps p ! 0) < 4096"
    by (simp_all add: F(2,5) start_def has_def MAP_ANONYMOUS_def no_mapping_def)
  have "uvm_ok kern_limit (clear_page ?d k1) [0x8010C000, 0x8010B000, 0x8010A000, 0x80109000, 0x80108000] (mp_pgdir p)" using k1(2) F(1) by simp
  note T = page_fault_maps_zero_page [OF this ok H]
  have pr: "mm_prot (mp_mmaps p ! 0) = PTE_W OR PTE_U" by (simp add: F(5) PTE_W_def PTE_U_def no_mapping_def)
  have "\<exists>p' k'. handle_page_fault files 1 0x60001004 p c (clear_page ?d k1) = Some (p', c, k') \<and> \<not> mp_killed p' \<and>
      pte_of k' ?d 0x60001FFF = V2P 0x8010C000 OR (PTE_W OR PTE_U) OR PTE_P \<and> pte_of k' ?d 0x60000000 = 0" for files c
  proof -
    from T [of files 1 c] k1(3) F(1) obtain p' k' where k': "handle_page_fault files 1 0x60001004 p c (clear_page ?d k1) = Some (p', c, k')" "\<not> mp_killed p'"
      "mapped_zero ?d 0x60001004 0x8010C000 (PTE_W OR PTE_U) (clear_page ?d k1) [0x8010B000, 0x8010A000, 0x80109000, 0x80108000] k'"
      unfolding pr using F(3) by auto
    then have "pte_of k' ?d 0x60001FFF = V2P 0x8010C000 OR (PTE_W OR PTE_U) OR PTE_P" "pte_of k' ?d 0x60000000 = 0"
      using k1(3) unfolding mapped_zero_def by (simp_all add: vpn_def)
    then show ?thesis using k' by blast
  qed
  then show ?thesis using k(1) k1(1) m by blast
qed

section \<open>Removing a region\<close>

text \<open>The entries of the array move down over a removed region, but the last one is not cleared: after the first of two regions has been
  unmapped, the entry behind the last region still has the address of the second one, and the regions are no longer
  well-formed.\<close>

theorem munmap_leaves_stale_entry:
  assumes ok: "regs_ok p" and two: "mp_total p = 2" and priv: "\<not> has (mm_flags (mp_mmaps p ! 0)) MAP_SHARED"
    and len: "mm_length (mp_mmaps p ! 0) = PGSIZE" and vm: "vm_ok k ps (mp_pgdir p)" and pe: "pte_of k (mp_pgdir p) (mm_addr (mp_mmaps p ! 0)) = 0"
  shows "\<exists>p'. my_munmap bs results (mm_addr (mp_mmaps p ! 0)) PGSIZE p t k = Some (0, p', t, k) \<and> mp_total p' = 1 \<and>
    mm_addr (mp_mmaps p' ! 0) = mm_addr (mp_mmaps p ! 1) \<and> mm_addr (mp_mmaps p' ! 1) = mm_addr (mp_mmaps p ! 1) \<and> \<not> regs_ok p'"
proof -
  let ?m = "mp_mmaps p ! 0" and ?n = "mp_mmaps p ! 1"
  note R = regs_okD [OF ok]
  have n: "nregs p = 2" using two by simp
  have pos: "1610612736 \<le> unat (mm_addr ?n)" "unat (mm_addr ?m) mod 4096 = 0" "stop p 0 < 2 ^ 31" using R(4,5,7) [of 0] R(5) [of 1] n by (simp_all add: start_def)
  have a31: "unat (mm_addr ?m) < 2 ^ 31" using region_end(3) [OF ok, of 0] pos(3) n by (simp add: start_def)
  have up: "PGROUNDUP (mm_addr ?m) = mm_addr ?m" "PGROUNDUP PGSIZE = PGSIZE"
  proof -
    obtain c where c: "unat (mm_addr ?m) = 4096 * c" using pos(2) by auto
    have "unat (PGROUNDUP (mm_addr ?m)) = (unat (mm_addr ?m) + 4095) div 4096 * 4096" using a31 by (intro unat_PGROUNDUP) simp
    then show "PGROUNDUP (mm_addr ?m) = mm_addr ?m" unfolding c by (intro word_unat_eq_iff [THEN iffD2]) (simp add: c)
  qed (simp add: PGROUNDUP_def PGSIZE_def)
  have f: "List.find (\<lambda>i. mm_addr (mp_mmaps p ! i) = mm_addr ?m) [0..<32] = Some 0" by (simp add: upt_rec [of 0])
  obtain pte where g: "get_physical_page p (mm_addr ?m) k = Some (0, pte, k)"
    using get_physical_page_eq [OF vm, of "mm_addr ?m"] by (auto simp: pe PTE_ADDR_def)
  have u: "unmap_pages (page_fuel PGSIZE) p (mm_addr ?m) 0 PGSIZE k = Some k" by (simp add: page_fuel_def g numeral_3_eq_3 PGSIZE_def)
  define p0 where "p0 = p\<lparr>mp_mmaps := (mp_mmaps p)[0 := no_region ?m]\<rparr>"
  define p1 where "p1 = p\<lparr>mp_mmaps := (mp_mmaps p)[0 := mmp_cpy (no_region ?m) ?n]\<rparr>"
  have "mm_addr ?n \<noteq> 0" using pos(1) by auto
  moreover have "mm_addr (mp_mmaps p ! 2) = 0" using R(9) [of 2] n by simp
  moreover obtain c where c: "(33 :: nat) = Suc (Suc c)" by (rule that [of 31]) simp
  ultimately have cg: "close_gap 33 0 p0 = Some p1"
    unfolding c using R(1) by (simp add: upd_mmp_def mmp_at_def p1_def p0_def)
  have c0: "upd_mmp 0 no_region p = Some p0" by (simp add: upd_mmp_def p0_def)
  have "my_munmap bs results (mm_addr ?m) PGSIZE p t k = Some (0, p1\<lparr>mp_total := mp_total p1 - 1\<rparr>, t, k)"
    using c0 cg priv u len unfolding my_munmap_def Let_def up f by (simp add: write_back_def PGSIZE_def)
  moreover have "mm_addr (mp_mmaps p1 ! 0) = mm_addr ?n" "mm_addr (mp_mmaps p1 ! 1) = mm_addr ?n" "mp_total p1 = 2"
    using R(1) two by (simp_all add: p1_def mmp_cpy_def)
  moreover have "\<not> regs_ok (p1\<lparr>mp_total := mp_total p1 - 1\<rparr>)"
    using regs_okD(9) [of "p1\<lparr>mp_total := mp_total p1 - 1\<rparr>" 1] calculation(3,4) \<open>mm_addr ?n \<noteq> 0\<close> by auto
  ultimately show ?thesis by (intro exI [of _ "p1\<lparr>mp_total := mp_total p1 - 1\<rparr>"]) simp
qed

end
