(* ===== verification/Fs.thy ===== *)
theory Fs
  imports Log_Ops Kstring
begin

text \<open>
  The file system layers above the log (\<^verbatim>\<open>CS_537_P5/fs.c\<close>, \<^verbatim>\<open>fs.h\<close>, \<^verbatim>\<open>file.h\<close>): the block allocator, inodes on disk and in
  the inode cache, the contents of files, directories and path names. The state holds the log, the buffer cache, the
  super block and the inode cache; a buffer and a cached inode are named by their index.
  Names are the bytes of a C string; a string ends with its list, as if a NUL followed.
\<close>

section \<open>Disk layout\<close>

definition NDIRECT :: nat where "NDIRECT = 12"
definition NINDIRECT :: nat where "NINDIRECT = 128"
definition MAXFILE :: nat where "MAXFILE = NDIRECT + NINDIRECT"
definition IPB :: nat where "IPB = 8"
definition BPB :: nat where "BPB = 4096"
definition DIRSIZ :: nat where "DIRSIZ = 14"
definition NINODE :: nat where "NINODE = 50"
definition NDEV :: int where "NDEV = 10"
definition ROOTINO :: u32 where "ROOTINO = 1"
definition T_DIR :: u16 where "T_DIR = 1"
definition T_DEV :: u16 where "T_DEV = 3"

record dinode =
  di_type :: u16
  di_major :: u16
  di_minor :: u16
  di_nlink :: u16
  di_size :: u32
  di_addrs :: "u32 list"

record inode =
  i_dev :: u32
  i_inum :: u32
  i_ref :: int
  i_lock :: sleeplock
  i_valid :: bool
  i_d :: dinode

record dirent =
  de_inum :: u16
  de_name :: "u8 list"

definition IBLOCK :: "nat \<Rightarrow> superblock \<Rightarrow> nat" where
  "IBLOCK i sb = i div IPB + unat (sb_inodestart sb)"

definition BBLOCK :: "nat \<Rightarrow> superblock \<Rightarrow> nat" where
  "BBLOCK b sb = b div BPB + unat (sb_bmapstart sb)"

definition get16 :: "u8 list \<Rightarrow> nat \<Rightarrow> u16" where
  "get16 d o' = word_of_nat (unat (d ! o') + 256 * unat (d ! (o' + 1)))"

definition put16 :: "u8 list \<Rightarrow> nat \<Rightarrow> u16 \<Rightarrow> u8 list" where
  "put16 d o' v = d[o' := ucast v, o' + 1 := ucast (drop_bit 8 v)]"

text \<open>The \<open>k\<close>-th inode of a block of inodes, 64 bytes each.\<close>

definition get_dinode :: "block \<Rightarrow> nat \<Rightarrow> dinode" where
  "get_dinode d k = \<lparr>di_type = get16 d (64 * k), di_major = get16 d (64 * k + 2), di_minor = get16 d (64 * k + 4),
     di_nlink = get16 d (64 * k + 6), di_size = get32 d (64 * k + 8),
     di_addrs = map (\<lambda>i. get32 d (64 * k + 12 + 4 * i)) [0..<NDIRECT + 1]\<rparr>"

definition put_dinode :: "nat \<Rightarrow> dinode \<Rightarrow> block \<Rightarrow> block" where
  "put_dinode k di d = fold (\<lambda>i d. put32 d (64 * k + 12 + 4 * i) (di_addrs di ! i)) [0..<NDIRECT + 1]
     (put32 (put16 (put16 (put16 (put16 d (64 * k) (di_type di)) (64 * k + 2) (di_major di)) (64 * k + 4) (di_minor di)) (64 * k + 6) (di_nlink di))
        (64 * k + 8) (di_size di))"

definition zero_dinode :: "u16 \<Rightarrow> dinode" where
  "zero_dinode type = \<lparr>di_type = type, di_major = 0, di_minor = 0, di_nlink = 0, di_size = 0, di_addrs = replicate (NDIRECT + 1) 0\<rparr>"

section \<open>State\<close>

record fsys =
  fs_log :: log
  fs_bc :: bcache
  fs_sb :: superblock
  fs_iclock :: bool
  fs_inode :: "inode list"

abbreviation inode_at :: "fsys \<Rightarrow> nat \<Rightarrow> inode" where
  "inode_at x ip \<equiv> fs_inode x ! ip"

definition upd_inode :: "nat \<Rightarrow> (inode \<Rightarrow> inode) \<Rightarrow> fsys \<Rightarrow> fsys" where
  "upd_inode ip f x = x\<lparr>fs_inode := (fs_inode x)[ip := f (inode_at x ip)]\<rparr>"

definition upd_di :: "nat \<Rightarrow> (dinode \<Rightarrow> dinode) \<Rightarrow> fsys \<Rightarrow> fsys" where
  "upd_di ip f x = upd_inode ip (\<lambda>i. i\<lparr>i_d := f (i_d i)\<rparr>) x"

definition set_addr :: "nat \<Rightarrow> u32 \<Rightarrow> dinode \<Rightarrow> dinode" where
  "set_addr k a di = di\<lparr>di_addrs := (di_addrs di)[k := a]\<rparr>"

definition fs_bread :: "int \<Rightarrow> u32 \<Rightarrow> nat \<Rightarrow> fsys \<Rightarrow> (nat \<times> fsys) option" where
  "fs_bread pid dev b x = do { (i, s) \<leftarrow> bread pid dev b (fs_bc x); Some (i, x\<lparr>fs_bc := s\<rparr>) }"

definition fs_brelse :: "int \<Rightarrow> nat \<Rightarrow> fsys \<Rightarrow> fsys option" where
  "fs_brelse pid i x = do { s \<leftarrow> brelse pid i (fs_bc x); Some (x\<lparr>fs_bc := s\<rparr>) }"

definition fs_logw :: "nat \<Rightarrow> fsys \<Rightarrow> fsys option" where
  "fs_logw i x = do { (l, s) \<leftarrow> log_write i (fs_log x) (fs_bc x); Some (x\<lparr>fs_log := l, fs_bc := s\<rparr>) }"

abbreviation fs_data :: "fsys \<Rightarrow> nat \<Rightarrow> block" where
  "fs_data x i \<equiv> b_data (buf_at (fs_bc x) i)"

definition fs_set :: "nat \<Rightarrow> block \<Rightarrow> fsys \<Rightarrow> fsys" where
  "fs_set i d x = x\<lparr>fs_bc := set_data i d (fs_bc x)\<rparr>"

definition acquire_ic :: "fsys \<Rightarrow> fsys option" where
  "acquire_ic x = (if fs_iclock x then None else Some (x\<lparr>fs_iclock := True\<rparr>))"

definition release_ic :: "fsys \<Rightarrow> fsys option" where
  "release_ic x = (if fs_iclock x then Some (x\<lparr>fs_iclock := False\<rparr>) else panic ''release'')"

section \<open>Blocks\<close>

definition bzero :: "int \<Rightarrow> u32 \<Rightarrow> nat \<Rightarrow> fsys \<Rightarrow> fsys option" where
  "bzero pid dev bno x = do {
     (bp, x) \<leftarrow> fs_bread pid dev bno x;
     x \<leftarrow> fs_logw bp (fs_set bp (replicate BSIZE 0) x);
     fs_brelse pid bp x
   }"

definition bmask :: "nat \<Rightarrow> u8" where
  "bmask bi = push_bit (bi mod 8) 1"

text \<open>The outer loop of the allocator over the first block number \<open>b\<close> of each bitmap block.\<close>

fun balloc_loop :: "int \<Rightarrow> u32 \<Rightarrow> nat list \<Rightarrow> fsys \<Rightarrow> (u32 \<times> fsys) option" where
  "balloc_loop pid dev [] x = panic ''balloc: out of blocks''"
| "balloc_loop pid dev (b # bs) x = do {
     (bp, x) \<leftarrow> fs_bread pid dev (BBLOCK b (fs_sb x)) x;
     let d = fs_data x bp;
     case List.find (\<lambda>bi. d ! (bi div 8) AND bmask bi = 0) [0..<min BPB (unat (sb_size (fs_sb x)) - b)] of
       Some bi \<Rightarrow> do {
         x \<leftarrow> fs_logw bp (fs_set bp (d[bi div 8 := d ! (bi div 8) OR bmask bi]) x);
         x \<leftarrow> fs_brelse pid bp x;
         x \<leftarrow> bzero pid dev (b + bi) x;
         Some (word_of_nat (b + bi), x)
       }
     | None \<Rightarrow> do {
         x \<leftarrow> fs_brelse pid bp x;
         balloc_loop pid dev bs x
       }
   }"

definition balloc :: "int \<Rightarrow> u32 \<Rightarrow> fsys \<Rightarrow> (u32 \<times> fsys) option" where
  "balloc pid dev x = balloc_loop pid dev (map ((*) BPB) [0..<(unat (sb_size (fs_sb x)) + BPB - 1) div BPB]) x"

definition bfree :: "int \<Rightarrow> u32 \<Rightarrow> u32 \<Rightarrow> fsys \<Rightarrow> fsys option" where
  "bfree pid dev b x = do {
     (bp, x) \<leftarrow> fs_bread pid dev (BBLOCK (unat b) (fs_sb x)) x;
     let bi = unat b mod BPB;
     let d = fs_data x bp;
     if d ! (bi div 8) AND bmask bi = 0 then panic ''freeing free block''
     else do {
       x \<leftarrow> fs_logw bp (fs_set bp (d[bi div 8 := d ! (bi div 8) AND NOT (bmask bi)]) x);
       fs_brelse pid bp x
     }
   }"

section \<open>Inodes\<close>

definition iinit :: "int \<Rightarrow> fsys \<Rightarrow> fsys option" where
  "iinit pid x = do {
     let x = x\<lparr>fs_iclock := False, fs_inode := map (\<lambda>i. i\<lparr>i_lock := initsleeplock (i_lock i)\<rparr>) (fs_inode x)\<rparr>;
     (sb, s) \<leftarrow> readsb pid (fs_bc x);
     Some (x\<lparr>fs_sb := sb, fs_bc := s\<rparr>)
   }"

definition iget :: "u32 \<Rightarrow> u32 \<Rightarrow> fsys \<Rightarrow> (nat \<times> fsys) option" where
  "iget dev inum x = do {
     x \<leftarrow> acquire_ic x;
     case List.find (\<lambda>i. 0 < i_ref (inode_at x i) \<and> i_dev (inode_at x i) = dev \<and> i_inum (inode_at x i) = inum) [0..<NINODE] of
       Some i \<Rightarrow> do {
         x \<leftarrow> release_ic (upd_inode i (\<lambda>n. n\<lparr>i_ref := i_ref n + 1\<rparr>) x);
         Some (i, x)
       }
     | None \<Rightarrow>
         (case List.find (\<lambda>i. i_ref (inode_at x i) = 0) [0..<NINODE] of
            None \<Rightarrow> panic ''iget: no inodes''
          | Some i \<Rightarrow> do {
              x \<leftarrow> release_ic (upd_inode i (\<lambda>n. n\<lparr>i_dev := dev, i_inum := inum, i_ref := 1, i_valid := False\<rparr>) x);
              Some (i, x)
            })
   }"

fun ialloc_loop :: "int \<Rightarrow> u32 \<Rightarrow> u16 \<Rightarrow> nat list \<Rightarrow> fsys \<Rightarrow> (nat \<times> fsys) option" where
  "ialloc_loop pid dev type [] x = panic ''ialloc: no inodes''"
| "ialloc_loop pid dev type (inum # is) x = do {
     (bp, x) \<leftarrow> fs_bread pid dev (IBLOCK inum (fs_sb x)) x;
     if di_type (get_dinode (fs_data x bp) (inum mod IPB)) = 0 then do {
       x \<leftarrow> fs_logw bp (fs_set bp (put_dinode (inum mod IPB) (zero_dinode type) (fs_data x bp)) x);
       x \<leftarrow> fs_brelse pid bp x;
       iget dev (word_of_nat inum) x
     }
     else do {
       x \<leftarrow> fs_brelse pid bp x;
       ialloc_loop pid dev type is x
     }
   }"

definition ialloc :: "int \<Rightarrow> u32 \<Rightarrow> u16 \<Rightarrow> fsys \<Rightarrow> (nat \<times> fsys) option" where
  "ialloc pid dev type x = ialloc_loop pid dev type [1..<unat (sb_ninodes (fs_sb x))] x"

definition iupdate :: "int \<Rightarrow> nat \<Rightarrow> fsys \<Rightarrow> fsys option" where
  "iupdate pid ip x = do {
     let n = inode_at x ip;
     (bp, x) \<leftarrow> fs_bread pid (i_dev n) (IBLOCK (unat (i_inum n)) (fs_sb x)) x;
     x \<leftarrow> fs_logw bp (fs_set bp (put_dinode (unat (i_inum n) mod IPB) (i_d n) (fs_data x bp)) x);
     fs_brelse pid bp x
   }"

definition idup :: "nat \<Rightarrow> fsys \<Rightarrow> (nat \<times> fsys) option" where
  "idup ip x = do {
     x \<leftarrow> acquire_ic x;
     x \<leftarrow> release_ic (upd_inode ip (\<lambda>n. n\<lparr>i_ref := i_ref n + 1\<rparr>) x);
     Some (ip, x)
   }"

definition ilock :: "int \<Rightarrow> nat \<Rightarrow> fsys \<Rightarrow> fsys option" where
  "ilock pid ip x =
    (if i_ref (inode_at x ip) < 1 then panic ''ilock''
     else do {
       lk \<leftarrow> acquiresleep pid (i_lock (inode_at x ip));
       let x = upd_inode ip (\<lambda>n. n\<lparr>i_lock := lk\<rparr>) x;
       let n = inode_at x ip;
       if i_valid n then Some x
       else do {
         (bp, x) \<leftarrow> fs_bread pid (i_dev n) (IBLOCK (unat (i_inum n)) (fs_sb x)) x;
         let x = upd_inode ip (\<lambda>m. m\<lparr>i_d := get_dinode (fs_data x bp) (unat (i_inum n) mod IPB)\<rparr>) x;
         x \<leftarrow> fs_brelse pid bp x;
         let x = upd_inode ip (\<lambda>m. m\<lparr>i_valid := True\<rparr>) x;
         if di_type (i_d (inode_at x ip)) = 0 then panic ''ilock: no type'' else Some x
       }
     })"

definition iunlock :: "int \<Rightarrow> nat \<Rightarrow> fsys \<Rightarrow> fsys option" where
  "iunlock pid ip x =
    (if \<not> holdingsleep pid (i_lock (inode_at x ip)) \<or> i_ref (inode_at x ip) < 1 then panic ''iunlock''
     else Some (upd_inode ip (\<lambda>n. n\<lparr>i_lock := releasesleep (i_lock n)\<rparr>) x))"

section \<open>The blocks of an inode\<close>

definition bmap :: "int \<Rightarrow> nat \<Rightarrow> nat \<Rightarrow> fsys \<Rightarrow> (u32 \<times> fsys) option" where
  "bmap pid ip bn x =
    (let dev = i_dev (inode_at x ip); addrs = di_addrs (i_d (inode_at x ip)) in
     if bn < NDIRECT then
       if addrs ! bn = 0 then do {
         (addr, x) \<leftarrow> balloc pid dev x;
         Some (addr, upd_di ip (set_addr bn addr) x)
       }
       else Some (addrs ! bn, x)
     else if bn - NDIRECT < NINDIRECT then do {
       (addr, x) \<leftarrow> (if addrs ! NDIRECT = 0 then do {
           (addr, x) \<leftarrow> balloc pid dev x;
           Some (addr, upd_di ip (set_addr NDIRECT addr) x)
         }
         else Some (addrs ! NDIRECT, x));
       (bp, x) \<leftarrow> fs_bread pid dev (unat addr) x;
       let addr = get32 (fs_data x bp) (4 * (bn - NDIRECT));
       (addr, x) \<leftarrow> (if addr = 0 then do {
           (addr, x) \<leftarrow> balloc pid dev x;
           x \<leftarrow> fs_logw bp (fs_set bp (put32 (fs_data x bp) (4 * (bn - NDIRECT)) addr) x);
           Some (addr, x)
         }
         else Some (addr, x));
       x \<leftarrow> fs_brelse pid bp x;
       Some (addr, x)
     }
     else panic ''bmap: out of range'')"

fun free_direct :: "int \<Rightarrow> nat \<Rightarrow> nat list \<Rightarrow> fsys \<Rightarrow> fsys option" where
  "free_direct pid ip [] x = Some x"
| "free_direct pid ip (i # is) x = do {
     let a = di_addrs (i_d (inode_at x ip)) ! i;
     x \<leftarrow> (if a \<noteq> 0 then do {
         x \<leftarrow> bfree pid (i_dev (inode_at x ip)) a x;
         Some (upd_di ip (set_addr i 0) x)
       } else Some x);
     free_direct pid ip is x
   }"

fun free_listed :: "int \<Rightarrow> u32 \<Rightarrow> nat \<Rightarrow> nat list \<Rightarrow> fsys \<Rightarrow> fsys option" where
  "free_listed pid dev bp [] x = Some x"
| "free_listed pid dev bp (j # js) x = do {
     let a = get32 (fs_data x bp) (4 * j);
     x \<leftarrow> (if a \<noteq> 0 then bfree pid dev a x else Some x);
     free_listed pid dev bp js x
   }"

definition itrunc :: "int \<Rightarrow> nat \<Rightarrow> fsys \<Rightarrow> fsys option" where
  "itrunc pid ip x = do {
     x \<leftarrow> free_direct pid ip [0..<NDIRECT] x;
     let dev = i_dev (inode_at x ip);
     let a = di_addrs (i_d (inode_at x ip)) ! NDIRECT;
     x \<leftarrow> (if a \<noteq> 0 then do {
         (bp, x) \<leftarrow> fs_bread pid dev (unat a) x;
         x \<leftarrow> free_listed pid dev bp [0..<NINDIRECT] x;
         x \<leftarrow> fs_brelse pid bp x;
         x \<leftarrow> bfree pid dev a x;
         Some (upd_di ip (set_addr NDIRECT 0) x)
       } else Some x);
     iupdate pid ip (upd_di ip (\<lambda>d. d\<lparr>di_size := 0\<rparr>) x)
   }"

definition iput :: "int \<Rightarrow> nat \<Rightarrow> fsys \<Rightarrow> fsys option" where
  "iput pid ip x = do {
     lk \<leftarrow> acquiresleep pid (i_lock (inode_at x ip));
     let x = upd_inode ip (\<lambda>n. n\<lparr>i_lock := lk\<rparr>) x;
     x \<leftarrow> (if i_valid (inode_at x ip) \<and> di_nlink (i_d (inode_at x ip)) = 0 then do {
         x \<leftarrow> acquire_ic x;
         let r = i_ref (inode_at x ip);
         x \<leftarrow> release_ic x;
         if r = 1 then do {
           x \<leftarrow> itrunc pid ip x;
           x \<leftarrow> iupdate pid ip (upd_di ip (\<lambda>d. d\<lparr>di_type := 0\<rparr>) x);
           Some (upd_inode ip (\<lambda>n. n\<lparr>i_valid := False\<rparr>) x)
         } else Some x
       } else Some x);
     let x = upd_inode ip (\<lambda>n. n\<lparr>i_lock := releasesleep (i_lock n)\<rparr>) x;
     x \<leftarrow> acquire_ic x;
     release_ic (upd_inode ip (\<lambda>n. n\<lparr>i_ref := i_ref n - 1\<rparr>) x)
   }"

definition iunlockput :: "int \<Rightarrow> nat \<Rightarrow> fsys \<Rightarrow> fsys option" where
  "iunlockput pid ip x = do { x \<leftarrow> iunlock pid ip x; iput pid ip x }"

record stat =
  st_type :: u16
  st_dev :: u32
  st_ino :: u32
  st_nlink :: u16
  st_size :: u32

definition stati :: "nat \<Rightarrow> fsys \<Rightarrow> stat" where
  "stati ip x = (let n = inode_at x ip in
     \<lparr>st_type = di_type (i_d n), st_dev = i_dev n, st_ino = i_inum n, st_nlink = di_nlink (i_d n), st_size = di_size (i_d n)\<rparr>)"

section \<open>Contents\<close>

text \<open>The functions of the device switch; no entry is a null pointer.\<close>

type_synonym devread = "int \<Rightarrow> (nat \<Rightarrow> u32 \<Rightarrow> fsys \<Rightarrow> (int \<times> u8 list \<times> fsys) option) option"
type_synonym devwrite = "int \<Rightarrow> (nat \<Rightarrow> u8 list \<Rightarrow> fsys \<Rightarrow> (int \<times> fsys) option) option"

text \<open>The loop of \<^verbatim>\<open>readi\<close> with \<open>n\<close> bytes still to be read. The checks before it exclude that an offset wraps around.\<close>

function read_loop :: "int \<Rightarrow> nat \<Rightarrow> nat \<Rightarrow> nat \<Rightarrow> fsys \<Rightarrow> (u8 list \<times> fsys) option" where
  "read_loop pid ip off n x =
    (if n = 0 then Some ([], x)
     else do {
       (addr, x) \<leftarrow> bmap pid ip (off div BSIZE) x;
       (bp, x) \<leftarrow> fs_bread pid (i_dev (inode_at x ip)) (unat addr) x;
       let m = min n (BSIZE - off mod BSIZE);
       let bs = take m (drop (off mod BSIZE) (fs_data x bp));
       x \<leftarrow> fs_brelse pid bp x;
       (rest, x) \<leftarrow> read_loop pid ip (off + m) (n - m) x;
       Some (bs @ rest, x)
     })"
  by pat_completeness auto

termination
  by (relation "measure (\<lambda>(pid, ip, off, n, x). n)") (auto simp: BSIZE_def)

declare read_loop.simps [simp del]

definition readi :: "devread \<Rightarrow> int \<Rightarrow> nat \<Rightarrow> u32 \<Rightarrow> u32 \<Rightarrow> fsys \<Rightarrow> (int \<times> u8 list \<times> fsys) option" where
  "readi devsw pid ip off n x =
    (let d = i_d (inode_at x ip) in
     if di_type d = T_DEV then
       (let major = sint (di_major d) in
        if major < 0 \<or> NDEV \<le> major then Some (-1, [], x)
        else case devsw major of None \<Rightarrow> Some (-1, [], x) | Some f \<Rightarrow> f ip n x)
     else if di_size d < off \<or> off + n < off then Some (-1, [], x)
     else let n = (if di_size d < off + n then di_size d - off else n) in do {
       (bs, x) \<leftarrow> read_loop pid ip (unat off) (unat n) x;
       Some (int (unat n), bs, x)
     })"

function write_loop :: "int \<Rightarrow> nat \<Rightarrow> nat \<Rightarrow> u8 list \<Rightarrow> fsys \<Rightarrow> fsys option" where
  "write_loop pid ip off src x =
    (if src = [] then Some x
     else do {
       (addr, x) \<leftarrow> bmap pid ip (off div BSIZE) x;
       (bp, x) \<leftarrow> fs_bread pid (i_dev (inode_at x ip)) (unat addr) x;
       let m = min (length src) (BSIZE - off mod BSIZE);
       let d = fs_data x bp;
       x \<leftarrow> fs_logw bp (fs_set bp (take (off mod BSIZE) d @ take m src @ drop (off mod BSIZE + m) d) x);
       x \<leftarrow> fs_brelse pid bp x;
       write_loop pid ip (off + m) (drop m src) x
     })"
  by pat_completeness auto

termination
  by (relation "measure (\<lambda>(pid, ip, off, src, x). length src)") (auto simp: BSIZE_def)

declare write_loop.simps [simp del]

text \<open>\<open>src\<close> are the \<open>n\<close> bytes at the source address.\<close>

definition writei :: "devwrite \<Rightarrow> int \<Rightarrow> nat \<Rightarrow> u8 list \<Rightarrow> u32 \<Rightarrow> fsys \<Rightarrow> (int \<times> fsys) option" where
  "writei devsw pid ip src off x =
    (let d = i_d (inode_at x ip); n = word_of_nat (length src) :: u32 in
     if di_type d = T_DEV then
       (let major = sint (di_major d) in
        if major < 0 \<or> NDEV \<le> major then Some (-1, x)
        else case devsw major of None \<Rightarrow> Some (-1, x) | Some f \<Rightarrow> f ip src x)
     else if di_size d < off \<or> off + n < off then Some (-1, x)
     else if word_of_nat (MAXFILE * BSIZE) < off + n then Some (-1, x)
     else do {
       x \<leftarrow> write_loop pid ip (unat off) src x;
       x \<leftarrow> (if 0 < n \<and> di_size (i_d (inode_at x ip)) < off + n
             then iupdate pid ip (upd_di ip (\<lambda>d. d\<lparr>di_size := off + n\<rparr>) x) else Some x);
       Some (int (unat n), x)
     })"

section \<open>Directories\<close>

text \<open>A memory with two strings, the first at 0 and the second at \<^const>\<open>DIRSIZ\<close>.\<close>

definition nth0 :: "u8 list \<Rightarrow> nat \<Rightarrow> u8" where
  "nth0 s i = (if i < length s then s ! i else 0)"

definition two_names :: "u8 list \<Rightarrow> u8 list \<Rightarrow> mem" where
  "two_names s t = (\<lambda>i. if i < DIRSIZ then nth0 s i else nth0 t (i - DIRSIZ))"

definition namecmp :: "u8 list \<Rightarrow> u8 list \<Rightarrow> int" where
  "namecmp s t = strncmp (two_names s t) 0 DIRSIZ DIRSIZ"

definition get_dirent :: "u8 list \<Rightarrow> dirent" where
  "get_dirent d = \<lparr>de_inum = get16 d 0, de_name = take DIRSIZ (drop 2 d)\<rparr>"

definition put_dirent :: "dirent \<Rightarrow> u8 list" where
  "put_dirent de = put16 (replicate 2 0) 0 (de_inum de) @ de_name de"

abbreviation sizeof_dirent :: nat where "sizeof_dirent \<equiv> 16"

text \<open>\<^verbatim>\<open>dirlookup\<close> from offset \<open>off\<close>: the entry's inode and offset, or nothing.\<close>

function dirlookup_loop :: "devread \<Rightarrow> int \<Rightarrow> nat \<Rightarrow> u8 list \<Rightarrow> nat \<Rightarrow> nat \<Rightarrow> fsys \<Rightarrow> ((nat \<times> nat) option \<times> fsys) option" where
  "dirlookup_loop devsw pid dp name off sz x =
    (if off < sz then do {
       (r, bs, x) \<leftarrow> readi devsw pid dp (word_of_nat off) 16 x;
       if r \<noteq> int sizeof_dirent then panic ''dirlookup read''
       else let de = get_dirent bs in
         if de_inum de \<noteq> 0 \<and> namecmp name (de_name de) = 0 then do {
           (ip, x) \<leftarrow> iget (i_dev (inode_at x dp)) (ucast (de_inum de)) x;
           Some (Some (ip, off), x)
         }
         else dirlookup_loop devsw pid dp name (off + sizeof_dirent) sz x
     } else Some (None, x))"
  by pat_completeness auto

termination
  by (relation "measure (\<lambda>(devsw, pid, dp, name, off, sz, x). sz - off)") auto

declare dirlookup_loop.simps [simp del]

definition dirlookup :: "devread \<Rightarrow> int \<Rightarrow> nat \<Rightarrow> u8 list \<Rightarrow> fsys \<Rightarrow> ((nat \<times> nat) option \<times> fsys) option" where
  "dirlookup devsw pid dp name x =
    (if di_type (i_d (inode_at x dp)) \<noteq> T_DIR then panic ''dirlookup not DIR''
     else dirlookup_loop devsw pid dp name 0 (unat (di_size (i_d (inode_at x dp)))) x)"

text \<open>The offset of the first empty entry, or the end of the directory.\<close>

function empty_entry :: "devread \<Rightarrow> int \<Rightarrow> nat \<Rightarrow> nat \<Rightarrow> nat \<Rightarrow> fsys \<Rightarrow> (nat \<times> fsys) option" where
  "empty_entry devsw pid dp off sz x =
    (if off < sz then do {
       (r, bs, x) \<leftarrow> readi devsw pid dp (word_of_nat off) 16 x;
       if r \<noteq> int sizeof_dirent then panic ''dirlink read''
       else if de_inum (get_dirent bs) = 0 then Some (off, x)
       else empty_entry devsw pid dp (off + sizeof_dirent) sz x
     } else Some (off, x))"
  by pat_completeness auto

termination
  by (relation "measure (\<lambda>(devsw, pid, dp, off, sz, x). sz - off)") auto

declare empty_entry.simps [simp del]

definition new_name :: "u8 list \<Rightarrow> u8 list" where
  "new_name name = mem_bytes (strncpy (two_names [] name) 0 DIRSIZ (int DIRSIZ)) 0 DIRSIZ"

definition dirlink :: "devread \<Rightarrow> devwrite \<Rightarrow> int \<Rightarrow> nat \<Rightarrow> u8 list \<Rightarrow> u32 \<Rightarrow> fsys \<Rightarrow> (int \<times> fsys) option" where
  "dirlink rsw wsw pid dp name inum x = do {
     (found, x) \<leftarrow> dirlookup rsw pid dp name x;
     case found of
       Some (ip, _) \<Rightarrow> do { x \<leftarrow> iput pid ip x; Some (-1, x) }
     | None \<Rightarrow> do {
         (off, x) \<leftarrow> empty_entry rsw pid dp 0 (unat (di_size (i_d (inode_at x dp)))) x;
         (r, x) \<leftarrow> writei wsw pid dp (put_dirent \<lparr>de_inum = ucast inum, de_name = new_name name\<rparr>) (word_of_nat off) x;
         if r \<noteq> int sizeof_dirent then panic ''dirlink'' else Some (0, x)
       }
   }"

section \<open>Paths\<close>

abbreviation slash :: u8 where "slash \<equiv> 47"

text \<open>\<open>name\<close> is the buffer of \<^const>\<open>DIRSIZ\<close> bytes for the element; a short element leaves the bytes behind its NUL alone.\<close>

definition skipelem :: "u8 list \<Rightarrow> u8 list \<Rightarrow> (u8 list \<times> u8 list) option" where
  "skipelem path name =
    (let path = dropWhile (\<lambda>c. c = slash) path in
     if path = [] then None
     else let s = takeWhile (\<lambda>c. c \<noteq> slash) path;
              path = dropWhile (\<lambda>c. c \<noteq> slash) path;
              len = length s;
              name = (if DIRSIZ \<le> len then take DIRSIZ s else s @ [0] @ drop (len + 1) name)
          in Some (dropWhile (\<lambda>c. c = slash) path, name))"

lemma skipelem_shorter: "skipelem path name = Some (path', name') \<Longrightarrow> length path' < length path"
proof -
  assume s: "skipelem path name = Some (path', name')"
  define p where "p = dropWhile (\<lambda>c. c = slash) path"
  have p: "p \<noteq> []" and e: "path' = dropWhile (\<lambda>c. c = slash) (dropWhile (\<lambda>c. c \<noteq> slash) p)"
    using s by (auto simp: skipelem_def Let_def p_def split: if_splits)
  obtain c cs where c: "p = c # cs" "c \<noteq> slash" using p hd_dropWhile [of "\<lambda>c. c = slash" path] by (cases p) (auto simp: p_def)
  have "length path' \<le> length (dropWhile (\<lambda>c. c \<noteq> slash) p)" unfolding e by (rule length_dropWhile_le)
  also have "\<dots> \<le> length cs" using c by (simp add: length_dropWhile_le)
  also have "\<dots> < length p" using c by simp
  also have "\<dots> \<le> length path" unfolding p_def by (rule length_dropWhile_le)
  finally show ?thesis .
qed

text \<open>\<open>parent\<close> is the flag \<^verbatim>\<open>nameiparent\<close>. The result is the inode, or nothing, and the name buffer.\<close>

function namex_loop :: "devread \<Rightarrow> int \<Rightarrow> bool \<Rightarrow> nat \<Rightarrow> u8 list \<Rightarrow> u8 list \<Rightarrow> fsys \<Rightarrow> (nat option \<times> u8 list \<times> fsys) option" where
  "namex_loop devsw pid parent ip path name x =
    (case skipelem path name of
       None \<Rightarrow> if parent then do { x \<leftarrow> iput pid ip x; Some (None, name, x) } else Some (Some ip, name, x)
     | Some (path, name) \<Rightarrow> do {
         x \<leftarrow> ilock pid ip x;
         if di_type (i_d (inode_at x ip)) \<noteq> T_DIR then do { x \<leftarrow> iunlockput pid ip x; Some (None, name, x) }
         else if parent \<and> path = [] then do { x \<leftarrow> iunlock pid ip x; Some (Some ip, name, x) }
         else do {
           (found, x) \<leftarrow> dirlookup devsw pid ip name x;
           case found of
             None \<Rightarrow> do { x \<leftarrow> iunlockput pid ip x; Some (None, name, x) }
           | Some (nxt, _) \<Rightarrow> do {
               x \<leftarrow> iunlockput pid ip x;
               namex_loop devsw pid parent nxt path name x
             }
         }
       })"
  by pat_completeness auto

termination
  by (relation "measure (\<lambda>(devsw, pid, parent, ip, path, name, x). length path)") (auto dest: skipelem_shorter)

declare namex_loop.simps [simp del]

definition namex :: "devread \<Rightarrow> int \<Rightarrow> nat \<Rightarrow> bool \<Rightarrow> u8 list \<Rightarrow> u8 list \<Rightarrow> fsys \<Rightarrow> (nat option \<times> u8 list \<times> fsys) option" where
  "namex devsw pid cwd parent path name x = do {
     (ip, x) \<leftarrow> (if path \<noteq> [] \<and> hd path = slash then iget ROOTDEV ROOTINO x else idup cwd x);
     namex_loop devsw pid parent ip path name x
   }"

definition namei :: "devread \<Rightarrow> int \<Rightarrow> nat \<Rightarrow> u8 list \<Rightarrow> u8 list \<Rightarrow> fsys \<Rightarrow> (nat option \<times> fsys) option" where
  "namei devsw pid cwd path buf x = do { (r, _, x) \<leftarrow> namex devsw pid cwd False path buf x; Some (r, x) }"

definition nameiparent :: "devread \<Rightarrow> int \<Rightarrow> nat \<Rightarrow> u8 list \<Rightarrow> u8 list \<Rightarrow> fsys \<Rightarrow> (nat option \<times> u8 list \<times> fsys) option" where
  "nameiparent devsw pid cwd path name x = namex devsw pid cwd True path name x"

end
