(* ===== verification/Fs_Store.thy ===== *)
theory Fs_Store
  imports Fs
begin

text \<open>
  The contract between the file system and the layers below it: blocks are read, changed through the log and
  released, and the file system sees only the view of the blocks. On top of it, the block allocator
  (\<^verbatim>\<open>balloc\<close>, \<^verbatim>\<open>bfree\<close> of \<^verbatim>\<open>CS_537_P5/fs.c\<close>).
\<close>

section \<open>A store of logged blocks\<close>

text \<open>\<open>ok s H k\<close>: the blocks in \<open>H\<close> are held, each with its buffer, and the transaction has room for \<open>k\<close> more changes.
  \<open>env\<close> is what no operation on blocks changes.\<close>

locale logged_store =
  fixes ok :: "'s \<Rightarrow> (nat \<times> nat) set \<Rightarrow> nat \<Rightarrow> bool" and view :: "'s \<Rightarrow> nat \<Rightarrow> block" and env :: "'s \<Rightarrow> 'e"
    and readable writable :: "'e \<Rightarrow> nat \<Rightarrow> bool" and data :: "'s \<Rightarrow> nat \<Rightarrow> block"
    and rd :: "nat \<Rightarrow> 's \<Rightarrow> (nat \<times> 's) option" and lw :: "nat \<Rightarrow> 's \<Rightarrow> 's option" and rl :: "nat \<Rightarrow> 's \<Rightarrow> 's option"
    and put :: "nat \<Rightarrow> block \<Rightarrow> 's \<Rightarrow> 's"
  assumes rd_law: "ok s H k \<Longrightarrow> card H \<le> 1 \<Longrightarrow> b \<notin> fst ` H \<Longrightarrow> readable (env s) b \<Longrightarrow>
      \<exists>i s'. rd b s = Some (i, s') \<and> ok s' (insert (b, i) H) k \<and> view s' = view s \<and> env s' = env s"
    and data_law: "ok s H k \<Longrightarrow> (b, i) \<in> H \<Longrightarrow> data s i = view s b \<and> length (data s i) = BSIZE"
    and lw_law: "ok s H (Suc k) \<Longrightarrow> (b, i) \<in> H \<Longrightarrow> writable (env s) b \<Longrightarrow> length d = BSIZE \<Longrightarrow>
      \<exists>s'. lw i (put i d s) = Some s' \<and> ok s' H k \<and> view s' = (view s)(b := d) \<and> env s' = env s"
    and rl_law: "ok s H k \<Longrightarrow> (b, i) \<in> H \<Longrightarrow> \<exists>s'. rl i s = Some s' \<and> ok s' (H - {(b, i)}) k \<and> view s' = view s \<and> env s' = env s"
    and less_law: "ok s H k \<Longrightarrow> j \<le> k \<Longrightarrow> ok s H j"
begin

text \<open>Reading a block: the data and the state after the release.\<close>

lemma get:
  assumes "ok s H k" "card H \<le> 1" "b \<notin> fst ` H" "readable (env s) b"
  obtains i s1 s2 where "rd b s = Some (i, s1)" "ok s1 (insert (b, i) H) k" "view s1 = view s" "env s1 = env s"
    "data s1 i = view s b" "length (view s b) = BSIZE" "rl i s1 = Some s2" "ok s2 H k" "view s2 = view s" "env s2 = env s"
proof -
  from rd_law [OF assms] obtain i s1 where 1: "rd b s = Some (i, s1)" "ok s1 (insert (b, i) H) k" "view s1 = view s" "env s1 = env s"
    by (elim exE conjE)
  from rl_law [OF 1(2)] obtain s2 where 2: "rl i s1 = Some s2" "ok s2 (insert (b, i) H - {(b, i)}) k" "view s2 = view s1" "env s2 = env s1"
    by blast
  have h: "insert (b, i) H - {(b, i)} = H" using assms(3) by force
  have d: "data s1 i = view s b" "length (view s b) = BSIZE" using data_law [OF 1(2), of b i] 1(3) by auto
  from that [OF 1 d 2(1)] 2 h 1(3,4) show ?thesis by simp
qed

text \<open>Changing a block that is held, and changing one from reading to release.\<close>

lemma change:
  assumes "ok s H (Suc k)" "card H \<le> 1" "b \<notin> fst ` H" "readable (env s) b" "writable (env s) b"
  obtains i s1 where "rd b s = Some (i, s1)" "view s1 = view s" "env s1 = env s" "data s1 i = view s b" "length (view s b) = BSIZE"
    "\<forall>d. length d = BSIZE \<longrightarrow> (\<exists>s2 s3. lw i (put i d s1) = Some s2 \<and> rl i s2 = Some s3 \<and> ok s3 H k \<and> view s3 = (view s)(b := d) \<and> env s3 = env s)"
proof -
  from rd_law [OF assms(1-4)] obtain i s1 where 1: "rd b s = Some (i, s1)" "ok s1 (insert (b, i) H) (Suc k)" "view s1 = view s" "env s1 = env s"
    by (elim exE conjE)
  have h: "insert (b, i) H - {(b, i)} = H" using assms(3) by force
  have "\<exists>s2 s3. lw i (put i d s1) = Some s2 \<and> rl i s2 = Some s3 \<and> ok s3 H k \<and> view s3 = (view s)(b := d) \<and> env s3 = env s" if "length d = BSIZE" for d
  proof -
    have w: "writable (env s1) b" using assms(5) 1(4) by simp
    from lw_law [OF 1(2) _ w that] obtain s2 where 2: "lw i (put i d s1) = Some s2" "ok s2 (insert (b, i) H) k" "view s2 = (view s1)(b := d)" "env s2 = env s1"
      by blast
    from rl_law [OF 2(2), of b i] obtain s3 where 3: "rl i s2 = Some s3" "ok s3 (insert (b, i) H - {(b, i)}) k" "view s3 = view s2" "env s3 = env s2" by blast
    show ?thesis using 2 3 h 1(3,4) by (intro exI [of _ s2] exI [of _ s3]) simp
  qed
  moreover have "data s1 i = view s b" "length (view s b) = BSIZE" using data_law [OF 1(2), of b i] 1(3) by auto
  ultimately show ?thesis using that 1 by blast
qed

lemma edit:
  assumes "ok s H (Suc k)" "card H \<le> 1" "b \<notin> fst ` H" "readable (env s) b" "writable (env s) b"
    and f: "\<And>d. length d = BSIZE \<Longrightarrow> length (f d) = BSIZE"
  shows "\<exists>s'. do { (i, s) \<leftarrow> rd b s; s \<leftarrow> lw i (put i (f (data s i)) s); rl i s } = Some s' \<and> ok s' H k \<and>
    view s' = (view s)(b := f (view s b)) \<and> env s' = env s"
proof -
  obtain i s1 where 1: "rd b s = Some (i, s1)" "data s1 i = view s b" "length (view s b) = BSIZE"
    "\<forall>d. length d = BSIZE \<longrightarrow> (\<exists>s2 s3. lw i (put i d s1) = Some s2 \<and> rl i s2 = Some s3 \<and> ok s3 H k \<and> view s3 = (view s)(b := d) \<and> env s3 = env s)"
    by (rule change [OF assms(1-5)])
  from 1(4) f [OF 1(3)] obtain s2 s3 where "lw i (put i (f (view s b)) s1) = Some s2" "rl i s2 = Some s3" "ok s3 H k"
    "view s3 = (view s)(b := f (view s b))" "env s3 = env s" by blast
  then show ?thesis using 1(1,2) by simp
qed

end

section \<open>The log and the buffer cache are such a store\<close>

definition fs_view :: "fsys \<Rightarrow> nat \<Rightarrow> block" where
  "fs_view x = block_view (fs_bc x)"

record fs_env =
  e_sb :: superblock
  e_iclock :: bool
  e_inode :: "inode list"
  e_lstart :: nat
  e_lsize :: nat
  e_disksize :: nat

definition fs_env :: "fsys \<Rightarrow> fs_env" where
  "fs_env x = \<lparr>e_sb = fs_sb x, e_iclock = fs_iclock x, e_inode = fs_inode x, e_lstart = lg_start (fs_log x), e_lsize = lg_size (fs_log x),
     e_disksize = bc_disksize (fs_bc x)\<rparr>"

definition on_disk :: "fs_env \<Rightarrow> nat \<Rightarrow> bool" where
  "on_disk e b = (b < e_disksize e)"

definition off_log :: "fs_env \<Rightarrow> nat \<Rightarrow> bool" where
  "off_log e b = (b < e_disksize e \<and> \<not> (e_lstart e \<le> b \<and> b < e_lstart e + e_lsize e))"

definition fs_ok :: "int \<Rightarrow> fsys \<Rightarrow> (nat \<times> nat) set \<Rightarrow> nat \<Rightarrow> bool" where
  "fs_ok pid x H k = (bc_busy pid (fs_bc x) H \<and> finite H \<and> log_wf (fs_log x) (bc_abs (fs_bc x)) \<and> 0 < lg_outstanding (fs_log x) \<and>
     lg_n (fs_log x) + k + 2 \<le> LOGSIZE \<and>
     (\<forall>(b, i) \<in> H. b \<in> c_dirty (bc_abs (fs_bc x)) \<or> block_view (fs_bc x) b = bc_disk (fs_bc x) b))"

lemma fs_okD:
  assumes "fs_ok pid x H k"
  shows "bc_busy pid (fs_bc x) H" "finite H" "log_wf (fs_log x) (bc_abs (fs_bc x))" "0 < lg_outstanding (fs_log x)" "lg_n (fs_log x) + k + 2 \<le> LOGSIZE"
    "(b, i) \<in> H \<Longrightarrow> b \<in> c_dirty (bc_abs (fs_bc x)) \<or> c_view (bc_abs (fs_bc x)) b = c_disk (bc_abs (fs_bc x)) b"
  using assms unfolding fs_ok_def by (auto simp: bc_abs_def)

lemma fs_okI:
  assumes "bc_busy pid (fs_bc x) H" "finite H" "log_wf (fs_log x) (bc_abs (fs_bc x))" "0 < lg_outstanding (fs_log x)" "lg_n (fs_log x) + k + 2 \<le> LOGSIZE"
    "\<forall>(b, i) \<in> H. b \<in> c_dirty (bc_abs (fs_bc x)) \<or> c_view (bc_abs (fs_bc x)) b = c_disk (bc_abs (fs_bc x)) b"
  shows "fs_ok pid x H k"
  using assms unfolding fs_ok_def by (simp add: bc_abs_def)

lemma abs_parts: "c_view (bc_abs s) = block_view s" "c_disk (bc_abs s) = bc_disk s" "c_size (bc_abs s) = bc_disksize s"
  by (simp_all add: bc_abs_def)

text \<open>A block that is not held and not dirty has its contents on disk.\<close>

lemma free_coherent:
  assumes "bc_busy pid s H" "b \<notin> fst ` H" "b \<notin> c_dirty (bc_abs s)"
  shows "block_view s b = bc_disk s b"
proof (rule bc_ok_view_clean [OF busyD(1) [OF assms(1)]], intro allI impI)
  fix i assume i: "i < length (bc_buf s)" "b_dev (buf_at s i) = 1 \<and> b_blockno (buf_at s i) = b"
  have "\<not> b_dirty (buf_at s i)" using assms(3) i by (auto simp: bc_abs_def dirty_idx_def)
  then show "\<not> b_dirty (buf_at s i) \<and> \<not> sl_locked (b_lock (buf_at s i))" using not_held_unlocked [OF assms(1,2)] i by blast
qed

lemma fs_rd_law:
  assumes ok: "fs_ok pid x H k" and c: "card H \<le> 1" and b: "b \<notin> fst ` H" "on_disk (fs_env x) b"
  shows "\<exists>i x'. fs_bread pid 1 b x = Some (i, x') \<and> fs_ok pid x' (insert (b, i) H) k \<and> fs_view x' = fs_view x \<and> fs_env x' = fs_env x"
proof -
  note F = fs_okD [OF ok]
  have sz: "b < c_size (bc_abs (fs_bc x))" using b(2) by (simp add: abs_parts on_disk_def fs_env_def)
  have "card (c_dirty (bc_abs (fs_bc x))) + card H < c_room (bc_abs (fs_bc x))"
    using card_dirty_wf [OF F(3)] log_wfD(6) [OF F(3)] F(5) c by (simp add: NBUF_def LOGSIZE_def)
  from bc.rd_law [OF F(1,2) b(1) sz disjI2 [OF this]] obtain i s where s: "bread pid 1 b (fs_bc x) = Some (i, s)" "bc_busy pid s (insert (b, i) H)"
    "bc_abs s = bc_abs (fs_bc x)" by (elim exE conjE)
  have co: "b \<in> c_dirty (bc_abs (fs_bc x)) \<or> c_view (bc_abs (fs_bc x)) b = c_disk (bc_abs (fs_bc x)) b"
    using free_coherent [OF F(1) b(1)] by (auto simp: abs_parts)
  have v: "block_view s = block_view (fs_bc x)" "bc_disksize s = bc_disksize (fs_bc x)" using arg_cong [OF s(3), of c_view] arg_cong [OF s(3), of c_size] by (simp_all add: abs_parts)
  define x' where "x' = x\<lparr>fs_bc := s\<rparr>"
  have "fs_ok pid x' (insert (b, i) H) k" using F co s by (intro fs_okI) (auto simp: x'_def)
  moreover have "fs_view x' = fs_view x" "fs_env x' = fs_env x" using v by (simp_all add: x'_def fs_view_def fs_env_def)
  ultimately show ?thesis using s(1) by (intro exI [of _ i] exI [of _ x']) (simp add: fs_bread_def x'_def)
qed

lemma fs_data_law: "fs_ok pid x H k \<Longrightarrow> (b, i) \<in> H \<Longrightarrow> fs_data x i = fs_view x b \<and> length (fs_data x i) = BSIZE"
  using bc.data_law [OF fs_okD(1), of pid x H k b i] unfolding fs_view_def abs_parts by blast

lemma fs_lw_law:
  assumes ok: "fs_ok pid x H (Suc k)" and h: "(b, i) \<in> H" and w: "off_log (fs_env x) b" and d: "length d = BSIZE"
  shows "\<exists>x'. fs_logw i (fs_set i d x) = Some x' \<and> fs_ok pid x' H k \<and> fs_view x' = (fs_view x)(b := d) \<and> fs_env x' = fs_env x"
proof -
  note F = fs_okD [OF ok] and W = log_wfD [OF fs_okD(3) [OF ok]]
  define l s1 s2 where "l = fs_log x" and "s1 = set_data i d (fs_bc x)" and "s2 = mark i s1"
  have 1: "bc_busy pid s1 H" "bc_abs s1 = (bc_abs (fs_bc x))\<lparr>c_view := (c_view (bc_abs (fs_bc x)))(b := d)\<rparr>"
    using bc.upd_law [OF F(1) h d] by (simp_all add: s1_def)
  note M = mark_ok [OF 1(1) h, folded s2_def, unfolded 1(2)]
  have bn: "b_blockno (buf_at s1 i) = b" using busyD(2) [OF 1(1) h] by (auto simp: holds_def cached_def)
  have n: "lg_n l + 1 < LOGSIZE" using F(5) by (simp add: l_def)
  have "log_write i l s1 = Some (logged b l, s2)" using log_write_eq [of l i s1] W(1,3) F(4) n bn by (simp add: l_def s2_def)
  then have e: "fs_logw i (fs_set i d x) = Some (x\<lparr>fs_log := logged b l, fs_bc := s2\<rparr>)" by (simp add: fs_logw_def fs_set_def l_def s1_def)
  have la: "b < bc_disksize (fs_bc x)" "\<not> log_area l b" using w by (auto simp: off_log_def fs_env_def log_area_def l_def)
  have wf: "log_wf (logged b l) (bc_abs s2)"
    using W n la logged_blocks_logged [of l b] unfolding M(2) log_wf_def l_def [symmetric] by (auto simp: log_area_def abs_parts)
  have n': "lg_n (logged b l) + k + 2 \<le> LOGSIZE" using F(5) W(2,7) logged_blocks_logged(2) [of l b] by (auto simp: l_def)
  have "c \<in> c_dirty (bc_abs s2) \<or> c_view (bc_abs s2) c = c_disk (bc_abs s2) c" if "(c, j) \<in> H" for c j
    using F(6) [OF that] unfolding M(2) by auto
  then have co: "\<forall>(c, j) \<in> H. c \<in> c_dirty (bc_abs s2) \<or> c_view (bc_abs s2) c = c_disk (bc_abs s2) c" by blast
  define x' where "x' = x\<lparr>fs_log := logged b l, fs_bc := s2\<rparr>"
  have "fs_ok pid x' H k" using M(1) F(2,4) wf n' co by (intro fs_okI) (simp_all add: x'_def l_def)
  moreover have "fs_view x' = (fs_view x)(b := d)" using arg_cong [OF M(2), of c_view] by (simp add: abs_parts x'_def fs_view_def)
  moreover have "fs_env x' = fs_env x" using arg_cong [OF M(2), of c_size] by (simp add: abs_parts x'_def fs_env_def l_def)
  ultimately show ?thesis using e by (intro exI [of _ x']) (simp add: x'_def)
qed

lemma fs_rl_law:
  assumes ok: "fs_ok pid x H k" and h: "(b, i) \<in> H"
  shows "\<exists>x'. fs_brelse pid i x = Some x' \<and> fs_ok pid x' (H - {(b, i)}) k \<and> fs_view x' = fs_view x \<and> fs_env x' = fs_env x"
proof -
  note F = fs_okD [OF ok]
  from bc.rl_law [OF F(1) h F(6) [OF h]] obtain s where s: "brelse pid i (fs_bc x) = Some s" "bc_busy pid s (H - {(b, i)})" "bc_abs s = bc_abs (fs_bc x)"
    by (elim exE conjE)
  have v: "block_view s = block_view (fs_bc x)" "bc_disksize s = bc_disksize (fs_bc x)" using arg_cong [OF s(3), of c_view] arg_cong [OF s(3), of c_size] by (simp_all add: abs_parts)
  define x' where "x' = x\<lparr>fs_bc := s\<rparr>"
  have "fs_ok pid x' (H - {(b, i)}) k" using F s by (intro fs_okI) (auto simp: x'_def)
  moreover have "fs_view x' = fs_view x" "fs_env x' = fs_env x" using v by (simp_all add: x'_def fs_view_def fs_env_def)
  ultimately show ?thesis using s(1) by (intro exI [of _ x']) (simp add: fs_brelse_def x'_def)
qed

interpretation st: logged_store "fs_ok pid" fs_view fs_env on_disk off_log fs_data "fs_bread pid 1" fs_logw "fs_brelse pid" fs_set for pid
proof unfold_locales
  fix s H k j assume "fs_ok pid s H k" "j \<le> k"
  then show "fs_ok pid s H j" by (auto simp: fs_ok_def)
qed (rule fs_rd_law fs_data_law fs_lw_law fs_rl_law; assumption)+

section \<open>The bitmap\<close>

definition data_start :: "superblock \<Rightarrow> nat" where
  "data_start sb = unat (sb_bmapstart sb) + (unat (sb_size sb) + 4095) div 4096"

text \<open>The log, the blocks of inodes, the bitmap and the data blocks follow one another on the disk.\<close>

definition layout_ok :: "fs_env \<Rightarrow> bool" where
  "layout_ok e = (let sb = e_sb e in e_lstart e + e_lsize e \<le> unat (sb_inodestart sb) \<and>
     unat (sb_inodestart sb) + (unat (sb_ninodes sb) + 7) div 8 \<le> unat (sb_bmapstart sb) \<and>
     data_start sb \<le> unat (sb_size sb) \<and> unat (sb_size sb) \<le> e_disksize e)"

definition used :: "superblock \<Rightarrow> (nat \<Rightarrow> block) \<Rightarrow> nat \<Rightarrow> bool" where
  "used sb v b = bit (v (BBLOCK b sb) ! (b mod BPB div 8)) (b mod 8)"

definition meta_used :: "superblock \<Rightarrow> (nat \<Rightarrow> block) \<Rightarrow> bool" where
  "meta_used sb v = (\<forall>b < data_start sb. used sb v b)"

lemma bmask_bit: "x AND bmask bi = 0 \<longleftrightarrow> \<not> bit x (bi mod 8)"
proof -
  define q where "q = bi mod 8"
  have "q < 8" by (simp add: q_def)
  then show ?thesis unfolding bmask_def q_def [symmetric] bit_eq_iff [of "x AND push_bit q 1" 0] by (auto simp: bit_simps)
qed

lemma BBLOCK_bounds:
  assumes "layout_ok e" "b < unat (sb_size (e_sb e))"
  shows "BBLOCK b (e_sb e) < data_start (e_sb e)" "on_disk e (BBLOCK b (e_sb e))" "off_log e (BBLOCK b (e_sb e))"
proof -
  have "b div 4096 < (unat (sb_size (e_sb e)) + 4095) div 4096" using assms(2) by linarith
  then show 1: "BBLOCK b (e_sb e) < data_start (e_sb e)" by (simp add: BBLOCK_def BPB_def data_start_def)
  then show "on_disk e (BBLOCK b (e_sb e))" "off_log e (BBLOCK b (e_sb e))"
    using assms(1) by (auto simp: layout_ok_def Let_def on_disk_def off_log_def BBLOCK_def)
qed

lemma data_bounds:
  assumes "layout_ok e" "data_start (e_sb e) \<le> b" "b < unat (sb_size (e_sb e))"
  shows "on_disk e b" "off_log e b"
  using assms by (auto simp: layout_ok_def Let_def on_disk_def off_log_def data_start_def)

text \<open>Block \<open>c\<close> taken: marked in the bitmap and filled with zeros.\<close>

definition mark_used :: "nat \<Rightarrow> block \<Rightarrow> block" where
  "mark_used c d = d[c mod BPB div 8 := d ! (c mod BPB div 8) OR bmask c]"

definition alloc_view :: "superblock \<Rightarrow> nat \<Rightarrow> (nat \<Rightarrow> block) \<Rightarrow> nat \<Rightarrow> block" where
  "alloc_view sb c v = (v(BBLOCK c sb := mark_used c (v (BBLOCK c sb))))(c := replicate BSIZE 0)"

lemma slot_eq:
  "c mod BPB div 8 < BSIZE"
  "BBLOCK c sb = BBLOCK b sb \<Longrightarrow> c mod BPB div 8 = b mod BPB div 8 \<Longrightarrow> c mod 8 = b mod 8 \<Longrightarrow> c = b"
proof -
  show "c mod BPB div 8 < BSIZE" by (simp add: BPB_def BSIZE_def)
  assume "BBLOCK c sb = BBLOCK b sb" and e: "c mod BPB div 8 = b mod BPB div 8" "c mod 8 = b mod 8"
  then have d: "c div 4096 = b div 4096" by (simp add: BBLOCK_def BPB_def)
  have m: "x mod 4096 = 8 * (x mod 4096 div 8) + x mod 8" for x :: nat
    using mult_div_mod_eq [of 8 "x mod 4096"] by (simp add: mod_mod_cancel)
  have "c mod 4096 = b mod 4096" using m [of c] m [of b] e by (simp add: BPB_def)
  then show "c = b" using d by (metis div_mult_mod_eq)
qed

lemma used_alloc:
  assumes "length (v (BBLOCK c sb)) = BSIZE" "data_start sb \<le> c" "BBLOCK b sb < data_start sb"
  shows "used sb (alloc_view sb c v) b \<longleftrightarrow> b = c \<or> used sb v b"
proof -
  have ne: "BBLOCK b sb \<noteq> c" using assms(2,3) by simp
  show ?thesis
  proof (cases "BBLOCK b sb = BBLOCK c sb \<and> b mod BPB div 8 = c mod BPB div 8")
    case True
    have "bit (bmask c) (b mod 8) \<longleftrightarrow> b mod 8 = c mod 8" by (auto simp: bmask_def bit_simps)
    moreover have "b mod 8 = c mod 8 \<longleftrightarrow> b = c" using True slot_eq(2) [of b sb c] by auto
    ultimately show ?thesis using True ne assms(1) slot_eq(1) [of c]
      by (simp add: used_def alloc_view_def mark_used_def bit_simps) blast
  next
    case False
    then show ?thesis using ne by (auto simp: used_def alloc_view_def mark_used_def)
  qed
qed

section \<open>Allocation\<close>

lemma bzero_ok:
  assumes "fs_ok pid x H (Suc k)" "card H \<le> 1" "b \<notin> fst ` H" "off_log (fs_env x) b"
  shows "\<exists>x'. bzero pid 1 b x = Some x' \<and> fs_ok pid x' H k \<and> fs_view x' = (fs_view x)(b := replicate BSIZE 0) \<and> fs_env x' = fs_env x"
proof -
  have d: "on_disk (fs_env x) b" using assms(4) by (simp add: on_disk_def off_log_def)
  from st.edit [OF assms(1-3) d assms(4), of "\<lambda>_. replicate BSIZE 0"] show ?thesis by (simp add: bzero_def)
qed

text \<open>The blocks that a caller of the allocator may hold.\<close>

definition held_data :: "superblock \<Rightarrow> (nat \<Rightarrow> block) \<Rightarrow> (nat \<times> nat) set \<Rightarrow> bool" where
  "held_data sb v H = (card H \<le> 1 \<and> (\<forall>b \<in> fst ` H. used sb v b \<and> data_start sb \<le> b))"

lemma balloc_step:
  assumes ok: "fs_ok pid x H (Suc (Suc k))" and lay: "layout_ok (fs_env x)" and meta: "meta_used (fs_sb x) (fs_view x)"
    and H: "held_data (fs_sb x) (fs_view x) H" and b: "b mod BPB = 0" "b < unat (sb_size (fs_sb x))"
  shows "(\<exists>c x'. balloc_loop pid 1 (b # bs) x = Some (word_of_nat c, x') \<and> data_start (fs_sb x) \<le> c \<and> c < unat (sb_size (fs_sb x)) \<and>
      \<not> used (fs_sb x) (fs_view x) c \<and> fs_ok pid x' H k \<and> fs_view x' = alloc_view (fs_sb x) c (fs_view x) \<and> fs_env x' = fs_env x) \<or>
    (\<forall>c. c div BPB = b div BPB \<and> c < unat (sb_size (fs_sb x)) \<longrightarrow> used (fs_sb x) (fs_view x) c) \<and>
    (\<exists>x'. balloc_loop pid 1 (b # bs) x = balloc_loop pid 1 bs x' \<and> fs_ok pid x' H (Suc (Suc k)) \<and> fs_view x' = fs_view x \<and> fs_env x' = fs_env x)"
proof -
  define sb v where "sb = fs_sb x" and "v = fs_view x"
  have sbe: "e_sb (fs_env x) = sb" by (simp add: fs_env_def sb_def)
  have b2: "b < unat (sb_size (e_sb (fs_env x)))" using b(2) sbe by (simp add: sb_def)
  note B = BBLOCK_bounds [OF lay b2, unfolded sbe]
  have nH: "BBLOCK b sb \<notin> fst ` H" and cH: "card H \<le> 1" using H B(1) unfolding held_data_def sb_def by force+
  obtain i x1 where 1: "fs_bread pid 1 (BBLOCK b sb) x = Some (i, x1)" "fs_view x1 = v" "fs_env x1 = fs_env x" "fs_data x1 i = v (BBLOCK b sb)" "length (v (BBLOCK b sb)) = BSIZE"
    "\<forall>d. length d = BSIZE \<longrightarrow> (\<exists>x2 x3. fs_logw i (fs_set i d x1) = Some x2 \<and> fs_brelse pid i x2 = Some x3 \<and> fs_ok pid x3 H (Suc k) \<and>
        fs_view x3 = v(BBLOCK b sb := d) \<and> fs_env x3 = fs_env x)"
    using st.change [OF ok cH nH B(2,3)] unfolding v_def by blast
  obtain i' x1' x2' where 2: "fs_bread pid 1 (BBLOCK b sb) x = Some (i', x1')" "fs_brelse pid i' x1' = Some x2'" "fs_ok pid x2' H (Suc (Suc k))"
    "fs_view x2' = v" "fs_env x2' = fs_env x" using st.get [OF ok cH nH B(2)] unfolding v_def by metis
  have same: "i' = i" "x1' = x1" using 1(1) 2(1) by simp_all
  have sb1: "fs_sb x1 = sb" using arg_cong [OF 1(3), of e_sb] by (simp add: fs_env_def sb_def)
  let ?d = "v (BBLOCK b sb)" and ?n = "min BPB (unat (sb_size sb) - b)"
  obtain j where j: "b = 4096 * j" using b(1) by (auto simp: BPB_def)
  have c: "(b + bi) mod BPB = bi" "BBLOCK (b + bi) sb = BBLOCK b sb" "(b + bi) mod 8 = bi mod 8" "(b + bi) div BPB = b div BPB" if "bi < BPB" for bi
  proof -
    have "(8 * (512 * j) + bi) mod 8 = bi mod 8" by (rule mod_mult_self4)
    then show "(b + bi) mod 8 = bi mod 8" unfolding j by (simp only: mult.assoc [symmetric] numeral_times_numeral Num.mult_num_simps Num.arith_simps)
  qed (use that in \<open>simp_all add: BPB_def BBLOCK_def j\<close>)
  have us: "used sb v (b + bi) \<longleftrightarrow> bit (?d ! (bi div 8)) (bi mod 8)" if "bi < BPB" for bi using c [OF that] by (simp add: used_def)
  show ?thesis
  proof (cases "List.find (\<lambda>bi. ?d ! (bi div 8) AND bmask bi = 0) [0..<?n]")
    case None
    have "used sb v c" if "c div BPB = b div BPB" "c < unat (sb_size sb)" for c
    proof -
      define bi where "bi = c - b"
      have cb: "c = b + bi" "bi < BPB" using that(1) unfolding bi_def j BPB_def by (simp, linarith)+
      then have "bi < ?n" using that(2) by simp
      then show ?thesis using None us [OF cb(2)] cb(1) unfolding find_upt_None bmask_bit by simp
    qed
    moreover have "balloc_loop pid 1 (b # bs) x = balloc_loop pid 1 bs x2'"
      using 1(1,4) 2(2) None sb1 unfolding same by (simp add: sb_def [symmetric] Let_def)
    ultimately show ?thesis using 2(3-5) unfolding sb_def v_def by blast
  next
    case (Some bi)
    have bi: "bi < BPB" "b + bi < unat (sb_size sb)" "\<not> bit (?d ! (bi div 8)) (bi mod 8)" using find_upt_Some [OF Some] by (auto simp: bmask_bit less_diff_conv)
    define c' where "c' = b + bi"
    have nu: "\<not> used sb v c'" using us [OF bi(1)] bi(3) by (simp add: c'_def)
    then have ds: "data_start sb \<le> c'" using meta unfolding meta_used_def sb_def v_def by (meson not_le)
    let ?d' = "?d[bi div 8 := ?d ! (bi div 8) OR bmask bi]"
    from 1(5,6) obtain x2 x3 where 3: "fs_logw i (fs_set i ?d' x1) = Some x2" "fs_brelse pid i x2 = Some x3" "fs_ok pid x3 H (Suc k)"
      "fs_view x3 = v(BBLOCK b sb := ?d')" "fs_env x3 = fs_env x" by (metis length_list_update)
    have "c' \<notin> fst ` H" using nu H unfolding held_data_def sb_def v_def by blast
    moreover have "off_log (fs_env x3) c'" using data_bounds(2) [OF lay] ds bi(2) unfolding 3(5) sbe c'_def by blast
    ultimately obtain x4 where 4: "bzero pid 1 c' x3 = Some x4" "fs_ok pid x4 H k" "fs_view x4 = (fs_view x3)(c' := replicate BSIZE 0)" "fs_env x4 = fs_env x3"
      using bzero_ok [OF 3(3) cH] by blast
    have "bmask c' = bmask bi" using c(3) [OF bi(1)] by (simp add: bmask_def c'_def)
    then have "fs_view x4 = alloc_view sb c' v" using c(1,2) [OF bi(1)] unfolding 4(3) 3(4) alloc_view_def mark_used_def c'_def by simp
    moreover have "balloc_loop pid 1 (b # bs) x = Some (word_of_nat c', x4)"
      using 1(1,4) Some sb1 3(1,2) 4(1) by (simp add: sb_def [symmetric] Let_def c'_def)
    ultimately show ?thesis using ds bi(2) nu 4(2,4) 3(5) unfolding c'_def [symmetric] sb_def v_def
      by (intro disjI1 exI [of _ c'] exI [of _ x4]) simp
  qed
qed

definition some_free :: "superblock \<Rightarrow> (nat \<Rightarrow> block) \<Rightarrow> bool" where
  "some_free sb v = (\<exists>c < unat (sb_size sb). \<not> used sb v c)"

lemma balloc_loop_ok:
  assumes "fs_ok pid x H (Suc (Suc k))" "layout_ok (fs_env x)" "meta_used (fs_sb x) (fs_view x)" "held_data (fs_sb x) (fs_view x) H"
    "\<forall>b \<in> set bs. b mod BPB = 0 \<and> b < unat (sb_size (fs_sb x))"
    "\<exists>c < unat (sb_size (fs_sb x)). \<not> used (fs_sb x) (fs_view x) c \<and> c div BPB * BPB \<in> set bs"
  shows "\<exists>c x'. balloc_loop pid 1 bs x = Some (word_of_nat c, x') \<and> data_start (fs_sb x) \<le> c \<and> c < unat (sb_size (fs_sb x)) \<and>
    \<not> used (fs_sb x) (fs_view x) c \<and> fs_ok pid x' H k \<and> fs_view x' = alloc_view (fs_sb x) c (fs_view x) \<and> fs_env x' = fs_env x"
  using assms
proof (induction bs arbitrary: x)
  case (Cons b bs)
  have b: "b mod BPB = 0" "b < unat (sb_size (fs_sb x))" using Cons.prems(5) by simp_all
  from balloc_step [OF Cons.prems(1-4) b, of bs] show ?case
  proof
    assume r: "(\<forall>c. c div BPB = b div BPB \<and> c < unat (sb_size (fs_sb x)) \<longrightarrow> used (fs_sb x) (fs_view x) c) \<and>
      (\<exists>x'. balloc_loop pid 1 (b # bs) x = balloc_loop pid 1 bs x' \<and> fs_ok pid x' H (Suc (Suc k)) \<and> fs_view x' = fs_view x \<and> fs_env x' = fs_env x)"
    then obtain x' where x': "balloc_loop pid 1 (b # bs) x = balloc_loop pid 1 bs x'" "fs_ok pid x' H (Suc (Suc k))" "fs_view x' = fs_view x" "fs_env x' = fs_env x"
      by blast
    have sb: "fs_sb x' = fs_sb x" using arg_cong [OF x'(4), of e_sb] by (simp add: fs_env_def)
    obtain c where c: "c < unat (sb_size (fs_sb x))" "\<not> used (fs_sb x) (fs_view x) c" "c div BPB * BPB \<in> set (b # bs)" using Cons.prems(6) by blast
    have "c div BPB * BPB \<noteq> b"
    proof
      assume "c div BPB * BPB = b"
      then have "c div BPB = b div BPB" by (auto simp: BPB_def)
      then show False using r c by blast
    qed
    then have "\<exists>c < unat (sb_size (fs_sb x)). \<not> used (fs_sb x) (fs_view x) c \<and> c div BPB * BPB \<in> set bs" using c by auto
    from Cons.IH [OF x'(2), unfolded sb x'(3,4), OF Cons.prems(2-4) _ this] Cons.prems(5) show ?thesis unfolding x'(1) by simp
  qed
qed simp

text \<open>The allocator finds a free block if there is one, marks it and fills it with zeros.\<close>

lemma balloc_ok:
  assumes ok: "fs_ok pid x H (Suc (Suc k))" and lay: "layout_ok (fs_env x)" and meta: "meta_used (fs_sb x) (fs_view x)"
    and H: "held_data (fs_sb x) (fs_view x) H" and free: "some_free (fs_sb x) (fs_view x)"
  obtains a x' where "balloc pid 1 x = Some (a, x')" "data_start (fs_sb x) \<le> unat a" "unat a < unat (sb_size (fs_sb x))"
    "\<not> used (fs_sb x) (fs_view x) (unat a)" "fs_ok pid x' H k" "fs_view x' = alloc_view (fs_sb x) (unat a) (fs_view x)" "fs_env x' = fs_env x"
proof -
  let ?n = "unat (sb_size (fs_sb x))"
  let ?bs = "map ((*) BPB) [0..<(?n + BPB - 1) div BPB]"
  have "BPB * j < ?n" if "j < (?n + BPB - 1) div BPB" for j
  proof -
    have "Suc j * 4096 \<le> (?n + 4095) div 4096 * 4096" using that by (intro mult_right_mono) (simp_all add: BPB_def)
    also have "\<dots> \<le> ?n + 4095" by simp
    finally show ?thesis by (simp add: BPB_def)
  qed
  then have a: "\<forall>b \<in> set ?bs. b mod BPB = 0 \<and> b < ?n" by auto
  obtain c where c: "c < ?n" "\<not> used (fs_sb x) (fs_view x) c" using free unfolding some_free_def by blast
  have "c div 4096 < (?n + 4095) div 4096" using c(1) by linarith
  then have "c div BPB * BPB \<in> set ?bs" by (auto simp: BPB_def)
  then have e: "\<exists>c < ?n. \<not> used (fs_sb x) (fs_view x) c \<and> c div BPB * BPB \<in> set ?bs" using c by blast
  from balloc_loop_ok [OF ok lay meta H a e] obtain d x' where
    r: "balloc_loop pid 1 ?bs x = Some (word_of_nat d, x')" "data_start (fs_sb x) \<le> d" "d < ?n" "\<not> used (fs_sb x) (fs_view x) d"
      "fs_ok pid x' H k" "fs_view x' = alloc_view (fs_sb x) d (fs_view x)" "fs_env x' = fs_env x" by (elim exE conjE)
  have "?n < 2 ^ 32" using unsigned_less [of "sb_size (fs_sb x)", where ?'a = nat] by simp
  then have u: "unat (word_of_nat d :: u32) = d" using r(3) by (simp add: unsigned_of_nat take_bit_nat_eq_self)
  show ?thesis by (rule that [of "word_of_nat d" x']) (use r u in \<open>simp_all add: balloc_def\<close>)
qed

text \<open>With every block in use, it panics.\<close>

lemma balloc_full:
  assumes "fs_ok pid x H (Suc (Suc k))" "layout_ok (fs_env x)" "meta_used (fs_sb x) (fs_view x)" "held_data (fs_sb x) (fs_view x) H"
    "\<not> some_free (fs_sb x) (fs_view x)"
  shows "balloc pid 1 x = None"
proof -
  have "balloc_loop pid 1 bs x = None" if "\<forall>b \<in> set bs. b mod BPB = 0 \<and> b < unat (sb_size (fs_sb x))" for bs
    using assms that
  proof (induction bs arbitrary: x)
    case (Cons b bs)
    have b: "b mod BPB = 0" "b < unat (sb_size (fs_sb x))" using Cons.prems(6) by simp_all
    from balloc_step [OF Cons.prems(1-4) b, of bs] Cons.prems(5) obtain x' where x': "balloc_loop pid 1 (b # bs) x = balloc_loop pid 1 bs x'"
      "fs_ok pid x' H (Suc (Suc k))" "fs_view x' = fs_view x" "fs_env x' = fs_env x" unfolding some_free_def by blast
    have sb: "fs_sb x' = fs_sb x" using arg_cong [OF x'(4), of e_sb] by (simp add: fs_env_def)
    from Cons.IH [OF x'(2), unfolded sb x'(3,4), OF Cons.prems(2-5)] Cons.prems(6) show ?case unfolding x'(1) by simp
  qed simp
  moreover have "BPB * j < unat (sb_size (fs_sb x))" if "j < (unat (sb_size (fs_sb x)) + BPB - 1) div BPB" for j
    using that by (simp add: BPB_def less_eq_div_iff_mult_less_eq flip: Suc_le_eq)
  ultimately show ?thesis unfolding balloc_def by auto
qed

end
