(* ===== verification/Fs_File.thy ===== *)
theory Fs_File
  imports Fs_Store
begin

text \<open>
  The contents of files (\<^verbatim>\<open>bmap\<close>, \<^verbatim>\<open>readi\<close>, \<^verbatim>\<open>writei\<close> of \<^verbatim>\<open>CS_537_P5/fs.c\<close>): a file is a sequence of bytes, spread over blocks that
  the inode and its indirect block list. A block that is not allocated counts as zeros.
\<close>

section \<open>The blocks of a file\<close>

definition ind :: "dinode \<Rightarrow> nat" where
  "ind di = unat (di_addrs di ! NDIRECT)"

definition baddr :: "(nat \<Rightarrow> block) \<Rightarrow> dinode \<Rightarrow> nat \<Rightarrow> nat" where
  "baddr v di bn = (if bn < NDIRECT then unat (di_addrs di ! bn) else if ind di = 0 then 0 else unat (get32 (v (ind di)) (4 * (bn - NDIRECT))))"

definition fblock :: "(nat \<Rightarrow> block) \<Rightarrow> dinode \<Rightarrow> nat \<Rightarrow> block" where
  "fblock v di bn = (if baddr v di bn = 0 then replicate BSIZE 0 else v (baddr v di bn))"

definition fbyte :: "(nat \<Rightarrow> block) \<Rightarrow> dinode \<Rightarrow> nat \<Rightarrow> u8" where
  "fbyte v di p = fblock v di (p div BSIZE) ! (p mod BSIZE)"

text \<open>All blocks that belong to the file.\<close>

definition blocks :: "(nat \<Rightarrow> block) \<Rightarrow> dinode \<Rightarrow> nat set" where
  "blocks v di = ({ind di} \<union> baddr v di ` {..<MAXFILE}) - {0}"

definition data_block :: "superblock \<Rightarrow> (nat \<Rightarrow> block) \<Rightarrow> nat \<Rightarrow> bool" where
  "data_block sb v b = (data_start sb \<le> b \<and> b < unat (sb_size sb) \<and> used sb v b)"

definition inode_ok :: "superblock \<Rightarrow> (nat \<Rightarrow> block) \<Rightarrow> dinode \<Rightarrow> bool" where
  "inode_ok sb v di = (length (di_addrs di) = NDIRECT + 1 \<and> 0 < data_start sb \<and> (\<forall>b \<in> blocks v di. data_block sb v b) \<and>
     (\<forall>bn < MAXFILE. baddr v di bn \<noteq> 0 \<longrightarrow> baddr v di bn \<noteq> ind di) \<and>
     (\<forall>bn < MAXFILE. \<forall>bm < MAXFILE. baddr v di bn \<noteq> 0 \<and> baddr v di bn = baddr v di bm \<longrightarrow> bn = bm))"

lemma inode_okD:
  assumes "inode_ok sb v di"
  shows "length (di_addrs di) = NDIRECT + 1" "0 < data_start sb" "bn < MAXFILE \<Longrightarrow> baddr v di bn \<noteq> 0 \<Longrightarrow> data_block sb v (baddr v di bn)"
    "ind di \<noteq> 0 \<Longrightarrow> data_block sb v (ind di)" "bn < MAXFILE \<Longrightarrow> baddr v di bn \<noteq> 0 \<Longrightarrow> baddr v di bn \<noteq> ind di"
    "bn < MAXFILE \<Longrightarrow> bm < MAXFILE \<Longrightarrow> baddr v di bn \<noteq> 0 \<Longrightarrow> baddr v di bn = baddr v di bm \<Longrightarrow> bn = bm"
proof -
  note d = assms [unfolded inode_ok_def]
  note c = conjunct1 [OF d] conjunct1 [OF conjunct2 [OF d]] conjunct1 [OF conjunct2 [OF conjunct2 [OF d]]]
    conjunct1 [OF conjunct2 [OF conjunct2 [OF conjunct2 [OF d]]]] conjunct2 [OF conjunct2 [OF conjunct2 [OF conjunct2 [OF d]]]]
  show "length (di_addrs di) = NDIRECT + 1" "0 < data_start sb" by (rule c(1), rule c(2))
  show "bn < MAXFILE \<Longrightarrow> baddr v di bn \<noteq> 0 \<Longrightarrow> data_block sb v (baddr v di bn)" "ind di \<noteq> 0 \<Longrightarrow> data_block sb v (ind di)"
    using c(3) by (simp_all add: blocks_def)
  show "bn < MAXFILE \<Longrightarrow> baddr v di bn \<noteq> 0 \<Longrightarrow> baddr v di bn \<noteq> ind di" using c(4) by simp
  show "bn < MAXFILE \<Longrightarrow> bm < MAXFILE \<Longrightarrow> baddr v di bn \<noteq> 0 \<Longrightarrow> baddr v di bn = baddr v di bm \<Longrightarrow> bn = bm" using c(5) by simp
qed

section \<open>Changes of the view\<close>

text \<open>What an operation on a file may change: blocks that were in use stay in use, and of those only the ones in \<open>X\<close> change; the blocks before the
  bitmap do not change.\<close>

definition keeps :: "superblock \<Rightarrow> nat set \<Rightarrow> (nat \<Rightarrow> block) \<Rightarrow> (nat \<Rightarrow> block) \<Rightarrow> bool" where
  "keeps sb X v v' = ((\<forall>b < unat (sb_size sb). used sb v b \<longrightarrow> used sb v' b) \<and> (\<forall>b. data_block sb v b \<and> b \<notin> X \<longrightarrow> v' b = v b) \<and>
     (\<forall>b < unat (sb_bmapstart sb). v' b = v b))"

lemma keepsD:
  assumes "keeps sb X v v'"
  shows "b < unat (sb_size sb) \<Longrightarrow> used sb v b \<Longrightarrow> used sb v' b" "data_block sb v b \<Longrightarrow> b \<notin> X \<Longrightarrow> v' b = v b"
    "b < unat (sb_bmapstart sb) \<Longrightarrow> v' b = v b" "data_block sb v b \<Longrightarrow> data_block sb v' b"
  using assms by (auto simp: keeps_def data_block_def)

lemma keeps_refl: "keeps sb X v v"
  by (simp add: keeps_def)

lemma keeps_trans: "keeps sb X v v' \<Longrightarrow> keeps sb Y v' v'' \<Longrightarrow> keeps sb (X \<union> Y) v v''"
  unfolding keeps_def data_block_def by (metis UnI1 UnI2)

lemma keeps_mono: "keeps sb X v v' \<Longrightarrow> X \<subseteq> Y \<Longrightarrow> keeps sb Y v v'"
  unfolding keeps_def by blast

lemma keeps_meta: "keeps sb X v v' \<Longrightarrow> meta_used sb v \<Longrightarrow> data_start sb \<le> unat (sb_size sb) \<Longrightarrow> meta_used sb v'"
  unfolding keeps_def meta_used_def by (meson less_le_trans)

text \<open>The number of free blocks.\<close>

definition nfree :: "superblock \<Rightarrow> (nat \<Rightarrow> block) \<Rightarrow> nat" where
  "nfree sb v = card {c. c < unat (sb_size sb) \<and> \<not> used sb v c}"

lemma nfree_some: "0 < nfree sb v \<Longrightarrow> some_free sb v"
  by (metis (mono_tags, lifting) card.empty nfree_def empty_Collect_eq less_irrefl some_free_def)

definition bitmap_ok :: "superblock \<Rightarrow> (nat \<Rightarrow> block) \<Rightarrow> bool" where
  "bitmap_ok sb v = (\<forall>b < unat (sb_size sb). BBLOCK b sb < data_start sb \<and> length (v (BBLOCK b sb)) = BSIZE)"

lemma bitmap_okI:
  assumes "layout_ok (fs_env x)" "fs_ok pid x {} k"
  shows "bitmap_ok (fs_sb x) (fs_view x)"
  unfolding bitmap_ok_def
proof (intro allI impI conjI)
  fix b assume b: "b < unat (sb_size (fs_sb x))"
  have e: "e_sb (fs_env x) = fs_sb x" by (simp add: fs_env_def)
  note B = BBLOCK_bounds [OF assms(1), of b, unfolded e, OF b]
  show "BBLOCK b (fs_sb x) < data_start (fs_sb x)" by (rule B)
  have "length (fs_view x b) = BSIZE" for b
    using length_view [OF busyD(1) [OF fs_okD(1) [OF assms(2)]]] by (simp add: fs_view_def)
  then show "length (fs_view x (BBLOCK b (fs_sb x))) = BSIZE" .
qed

lemma alloc_keeps:
  assumes bm: "bitmap_ok sb v" and c: "data_start sb \<le> c" "c < unat (sb_size sb)" "\<not> used sb v c"
  shows "keeps sb {} v (alloc_view sb c v)" "data_block sb (alloc_view sb c v) c" "Suc (nfree sb (alloc_view sb c v)) = nfree sb v"
    "alloc_view sb c v c = replicate BSIZE 0"
proof -
  have us: "used sb (alloc_view sb c v) b \<longleftrightarrow> b = c \<or> used sb v b" if "b < unat (sb_size sb)" for b
    using bm that c unfolding bitmap_ok_def by (intro used_alloc) blast+
  have "BBLOCK c sb < data_start sb" "unat (sb_bmapstart sb) \<le> BBLOCK c sb" using bm c(2) by (auto simp: bitmap_ok_def BBLOCK_def)
  moreover have "unat (sb_bmapstart sb) \<le> c" using c(1) by (simp add: data_start_def)
  ultimately show "keeps sb {} v (alloc_view sb c v)"
    using us c(3) unfolding keeps_def data_block_def by (auto simp: alloc_view_def)
  show "data_block sb (alloc_view sb c v) c" using us [OF c(2)] c by (simp add: data_block_def)
  have "{b. b < unat (sb_size sb) \<and> \<not> used sb v b} = insert c {b. b < unat (sb_size sb) \<and> \<not> used sb (alloc_view sb c v) b}" using us c by auto
  moreover have "c \<notin> {b. b < unat (sb_size sb) \<and> \<not> used sb (alloc_view sb c v) b}" using us [OF c(2)] by simp
  ultimately show "Suc (nfree sb (alloc_view sb c v)) = nfree sb v" unfolding nfree_def by (simp add: card_insert_disjoint)
  show "alloc_view sb c v c = replicate BSIZE 0" by (simp add: alloc_view_def)
qed

section \<open>Adding a block to a file\<close>

text \<open>The file after \<^verbatim>\<open>bmap\<close> of block \<open>bn\<close>: its contents are what they were, and block \<open>bn\<close> has the address \<open>a\<close>.\<close>

definition extended :: "superblock \<Rightarrow> (nat \<Rightarrow> block) \<Rightarrow> dinode \<Rightarrow> nat \<Rightarrow> (nat \<Rightarrow> block) \<Rightarrow> dinode \<Rightarrow> bool" where
  "extended sb v di n v' di' = (inode_ok sb v' di' \<and> (\<forall>bm < MAXFILE. fblock v' di' bm = fblock v di bm) \<and> keeps sb {ind di} v v' \<and>
     (\<forall>bm < MAXFILE. baddr v di bm \<noteq> 0 \<longrightarrow> baddr v' di' bm = baddr v di bm) \<and> (\<forall>b \<in> blocks v' di'. b \<in> blocks v di \<or> \<not> used sb v b) \<and>
     di'\<lparr>di_addrs := []\<rparr> = di\<lparr>di_addrs := []\<rparr> \<and> (ind di' = ind di \<or> ind di' \<noteq> 0 \<and> \<not> used sb v (ind di')) \<and> nfree sb v \<le> nfree sb v' + n)"

lemma extendedD:
  assumes "extended sb v di n v' di'"
  shows "inode_ok sb v' di'" "bm < MAXFILE \<Longrightarrow> fblock v' di' bm = fblock v di bm" "keeps sb {ind di} v v'"
    "bm < MAXFILE \<Longrightarrow> baddr v di bm \<noteq> 0 \<Longrightarrow> baddr v' di' bm = baddr v di bm" "b \<in> blocks v' di' \<Longrightarrow> b \<in> blocks v di \<or> \<not> used sb v b"
    "di'\<lparr>di_addrs := []\<rparr> = di\<lparr>di_addrs := []\<rparr>" "ind di' = ind di \<or> ind di' \<noteq> 0 \<and> \<not> used sb v (ind di')" "nfree sb v \<le> nfree sb v' + n"
  using assms unfolding extended_def by blast+

lemma extended_refl:
  assumes "inode_ok sb v di"
  shows "extended sb v di 0 v di"
  using assms by (simp add: extended_def keeps_refl)

lemma get32_zeros: "p + 4 \<le> n \<Longrightarrow> get32 (replicate n 0) p = 0"
  by (simp add: get32_def rd32_def)

lemma zero_block: "n < NINDIRECT \<Longrightarrow> get32 (replicate BSIZE 0) (4 * n) = 0"
  unfolding NINDIRECT_def BSIZE_def by (rule get32_zeros) linarith

lemma set_addr_simps [simp]:
  "n < length (di_addrs di) \<Longrightarrow> di_addrs (set_addr n a di) ! m = (if m = n then a else di_addrs di ! m)"
  "length (di_addrs (set_addr n a di)) = length (di_addrs di)"
  "n \<noteq> NDIRECT \<Longrightarrow> ind (set_addr n a di) = ind di" "NDIRECT < length (di_addrs di) \<Longrightarrow> ind (set_addr NDIRECT a di) = unat a"
  by (simp_all add: set_addr_def ind_def nth_list_update)

text \<open>One new block for entry \<open>bn\<close>, wherever the entry lies.\<close>

lemma add_block:
  assumes ok: "inode_ok sb v di" and bn: "bn < MAXFILE" "baddr v di bn = 0" and a: "data_start sb \<le> a" "\<not> used sb v a" "data_block sb v' a"
    and kp: "keeps sb X v v'" "X \<subseteq> {ind di}" and z: "v' a = replicate BSIZE 0" and nf: "nfree sb v = Suc (nfree sb v')"
    and di: "di' = di\<lparr>di_addrs := as\<rparr>" "length as = NDIRECT + 1" "ind di' = ind di"
    and ad: "\<forall>bm < MAXFILE. baddr v' di' bm = (if bm = bn then a else baddr v di bm)"
  shows "extended sb v di 1 v' di'"
proof -
  note D = inode_okD [OF ok]
  have old: "b \<noteq> a" "data_block sb v' b" if "b \<in> blocks v di" for b
  proof -
    have b: "data_block sb v b" using ok that by (simp add: inode_ok_def)
    then show "b \<noteq> a" using a(2) by (auto simp: data_block_def)
    show "data_block sb v' b" by (rule keepsD(4) [OF kp(1) b])
  qed
  have bl: "blocks v' di' = insert a (blocks v di)"
  proof -
    have a0: "a \<noteq> 0" using a(1) D(2) by simp
    have "baddr v' di' ` {..<MAXFILE} = insert a (baddr v di ` ({..<MAXFILE} - {bn}))" using ad bn(1) by (auto simp: image_iff)
    moreover have "insert a (baddr v di ` ({..<MAXFILE} - {bn})) - {0} = insert a (baddr v di ` {..<MAXFILE}) - {0}" using bn(2) by auto
    ultimately have e: "baddr v' di' ` {..<MAXFILE} - {0} = insert a (baddr v di ` {..<MAXFILE}) - {0}" by (rule trans [OF arg_cong [of _ _ "\<lambda>X. X - {0}"]])
    have "blocks v' di' = ({ind di} - {0}) \<union> (baddr v' di' ` {..<MAXFILE} - {0})" unfolding blocks_def di(3) by (rule Un_Diff)
    also have "\<dots> = insert a (({ind di} - {0}) \<union> (baddr v di ` {..<MAXFILE} - {0}))" unfolding e using a0 by (simp add: insert_Diff_if)
    also have "\<dots> = insert a (blocks v di)" unfolding blocks_def by (simp only: Un_Diff)
    finally show ?thesis .
  qed
  have mem: "bm < MAXFILE \<Longrightarrow> baddr v di bm \<noteq> 0 \<Longrightarrow> baddr v di bm \<in> blocks v di" "ind di \<noteq> 0 \<Longrightarrow> ind di \<in> blocks v di" for bm by (auto simp: blocks_def)
  have na: "bm < MAXFILE \<Longrightarrow> baddr v di bm \<noteq> a" "ind di \<noteq> a" for bm using old(1) mem a(1) D(2) by (metis not_less)+
  have "inode_ok sb v' di'" unfolding inode_ok_def
  proof (intro conjI ballI allI impI)
    show "length (di_addrs di') = NDIRECT + 1" "0 < data_start sb" using di D(2) by simp_all
    show "data_block sb v' b" if "b \<in> blocks v' di'" for b using that old(2) a(3) unfolding bl by blast
    show "baddr v' di' bm \<noteq> ind di'" if "bm < MAXFILE" "baddr v' di' bm \<noteq> 0" for bm
      using that ad na(2) D(5) [of bm] unfolding di(3) by (cases "bm = bn") auto
    show "bm = bk" if "bm < MAXFILE" "bk < MAXFILE" "baddr v' di' bm \<noteq> 0 \<and> baddr v' di' bm = baddr v' di' bk" for bm bk
      using that ad na(1) [of bm] na(1) [of bk] D(6) [of bm bk] by (cases "bm = bn"; cases "bk = bn") auto
  qed
  moreover have "fblock v' di' bm = fblock v di bm" if "bm < MAXFILE" for bm
  proof (cases "bm = bn")
    case True
    then show ?thesis using ad that z bn(2) by (auto simp: fblock_def)
  next
    case False
    have "v' (baddr v di bm) = v (baddr v di bm)" if "baddr v di bm \<noteq> 0"
      using keepsD(2) [OF kp(1) D(3) [OF \<open>bm < MAXFILE\<close> that]] D(5) [OF \<open>bm < MAXFILE\<close> that] kp(2) by blast
    then show ?thesis using ad that False by (auto simp: fblock_def)
  qed
  moreover have "\<forall>b \<in> blocks v' di'. b \<in> blocks v di \<or> \<not> used sb v b" unfolding bl using a(2) by blast
  moreover have "\<forall>bm < MAXFILE. baddr v di bm \<noteq> 0 \<longrightarrow> baddr v' di' bm = baddr v di bm" using ad bn by auto
  ultimately show ?thesis unfolding extended_def using keeps_mono [OF kp] di(1,3) nf by auto
qed

lemma extended_trans:
  assumes 1: "extended sb v di n v1 di1" and 2: "extended sb v1 di1 m v2 di2"
  shows "extended sb v di (n + m) v2 di2"
proof -
  note A = extendedD [OF 1] and B = extendedD [OF 2]
  have unu: "\<not> used sb v b" if "\<not> used sb v1 b" "b < unat (sb_size sb)" for b using keepsD(1) [OF A(3) that(2)] that(1) by blast
  have sz: "b < unat (sb_size sb)" if "b \<in> blocks v2 di2" for b
    using B(1) that unfolding inode_ok_def data_block_def by blast
  have k: "keeps sb ({ind di} \<union> {ind di1}) v v2" by (rule keeps_trans [OF A(3) B(3)])
  have kk: "keeps sb {ind di} v v2" using k A(7) unfolding keeps_def data_block_def by blast
  have bl: "b \<in> blocks v di \<or> \<not> used sb v b" if "b \<in> blocks v2 di2" for b using B(5) [OF that] A(5) [of b] unu [OF _ sz [OF that]] by blast
  have i2: "ind di2 = ind di \<or> ind di2 \<noteq> 0 \<and> \<not> used sb v (ind di2)"
  proof (cases "ind di2 = ind di1")
    case False
    then have nz: "ind di2 \<noteq> 0" "\<not> used sb v1 (ind di2)" using B(7) by blast+
    then have "ind di2 \<in> blocks v2 di2" by (simp add: blocks_def)
    then show ?thesis using nz unu [OF _ sz] by blast
  qed (use A(7) in simp)
  have "baddr v2 di2 bm = baddr v di bm" if "bm < MAXFILE" "baddr v di bm \<noteq> 0" for bm using A(4) [OF that] B(4) [OF that(1)] that by simp
  then show ?thesis unfolding extended_def using B(1) A(2) B(2) kk bl i2 A(6,8) B(6,8) by auto
qed

text \<open>Storing to a data block.\<close>

lemma store_data:
  assumes bm: "bitmap_ok sb v" and b: "data_start sb \<le> b"
  shows "c < unat (sb_size sb) \<Longrightarrow> used sb (v(b := d)) c = used sb v c" "keeps sb {b} v (v(b := d))" "nfree sb (v(b := d)) = nfree sb v"
    "data_block sb (v(b := d)) c = data_block sb v c"
proof -
  have us: "used sb (v(b := d)) c = used sb v c" if "c < unat (sb_size sb)" for c using bm b that by (auto simp: used_def bitmap_ok_def)
  then show "c < unat (sb_size sb) \<Longrightarrow> used sb (v(b := d)) c = used sb v c" .
  show "data_block sb (v(b := d)) c = data_block sb v c" using us [of c] by (auto simp: data_block_def)
  show "keeps sb {b} v (v(b := d))" using us b by (auto simp: keeps_def data_start_def)
  show "nfree sb (v(b := d)) = nfree sb v" unfolding nfree_def using us by (metis (no_types, lifting) Collect_cong)
qed

lemma bitmap_keeps: "keeps sb X v v' \<Longrightarrow> bitmap_ok sb v \<Longrightarrow> \<forall>b. length (v' b) = BSIZE \<Longrightarrow> bitmap_ok sb v'"
  by (simp add: bitmap_ok_def)

text \<open>The three ways in which a block is added.\<close>

lemma add_direct:
  assumes ok: "inode_ok sb v di" and bm: "bitmap_ok sb v" and bn: "bn < NDIRECT" "di_addrs di ! bn = 0"
    and a: "data_start sb \<le> unat a" "unat a < unat (sb_size sb)" "\<not> used sb v (unat a)"
  shows "extended sb v di 1 (alloc_view sb (unat a) v) (set_addr bn a di)" "baddr (alloc_view sb (unat a) v) (set_addr bn a di) bn = unat a"
proof -
  note D = inode_okD [OF ok] and K = alloc_keeps [OF bm a]
  let ?v = "alloc_view sb (unat a) v" and ?d = "set_addr bn a di"
  have bl: "bn < length (di_addrs di)" "bn \<noteq> NDIRECT" "bn < MAXFILE" using D(1) bn(1) by (simp_all add: MAXFILE_def)
  have i: "ind ?d = ind di" using bl(2) by simp
  have vi: "?v (ind di) = v (ind di)" if "ind di \<noteq> 0" using keepsD(2) [OF K(1) D(4) [OF that]] by simp
  have ad: "baddr ?v ?d bm = (if bm = bn then unat a else baddr v di bm)" for bm
    using vi bl bn unfolding baddr_def i by auto
  then show "baddr ?v ?d bn = unat a" by simp
  have b0: "baddr v di bn = 0" using bn by (simp add: baddr_def)
  have "?d = di\<lparr>di_addrs := (di_addrs di)[bn := a]\<rparr>" by (simp add: set_addr_def)
  moreover have "length ((di_addrs di)[bn := a]) = NDIRECT + 1" using D(1) by simp
  ultimately show "extended sb v di 1 ?v ?d"
    using ad by (intro add_block [where as = "(di_addrs di)[bn := a]", OF ok bl(3) b0 a(1,3) K(2,1) _ K(4) K(3) [symmetric] _ _ i]) simp_all
qed

lemma add_indirect:
  assumes ok: "inode_ok sb v di" and bm: "bitmap_ok sb v" and z: "di_addrs di ! NDIRECT = 0"
    and a: "data_start sb \<le> unat a" "unat a < unat (sb_size sb)" "\<not> used sb v (unat a)"
  shows "extended sb v di 1 (alloc_view sb (unat a) v) (set_addr NDIRECT a di)"
proof -
  note D = inode_okD [OF ok] and K = alloc_keeps [OF bm a]
  let ?v = "alloc_view sb (unat a) v" and ?d = "set_addr NDIRECT a di"
  have a0: "unat a \<noteq> 0" using a(1) D(2) by simp
  have i: "ind ?d = unat a" "ind di = 0" using D(1) z by (simp_all add: ind_def)
  have ad: "baddr ?v ?d n = baddr v di n" if "n < MAXFILE" for n
  proof (cases "n < NDIRECT")
    case True
    then show ?thesis using D(1) by (simp add: baddr_def)
  next
    case False
    have "n - NDIRECT < NINDIRECT" using that False by (simp add: MAXFILE_def)
    then show ?thesis using False i K(4) a0 by (simp add: baddr_def zero_block)
  qed
  have na: "baddr v di n \<noteq> unat a" if "n < MAXFILE" for n using D(3) [OF that] a(3) a0 by (auto simp: data_block_def)
  have im: "baddr ?v ?d ` {..<MAXFILE} = baddr v di ` {..<MAXFILE}" using ad by (intro image_cong) auto
  have bl: "blocks ?v ?d = insert (unat a) (blocks v di)" unfolding blocks_def im i using a0 by auto
  have db: "data_block sb ?v b" if "b \<in> blocks ?v ?d" for b
    using that K(2) keepsD(4) [OF K(1)] ok unfolding bl inode_ok_def by blast
  have "inode_ok sb ?v ?d" unfolding inode_ok_def i
  proof (intro conjI ballI allI impI)
    show "length (di_addrs ?d) = NDIRECT + 1" "0 < data_start sb" using D(1,2) by simp_all
    show "baddr ?v ?d n \<noteq> unat a" if "n < MAXFILE" for n using na [OF that] ad [OF that] by simp
    show "n = m" if "n < MAXFILE" "m < MAXFILE" "baddr ?v ?d n \<noteq> 0 \<and> baddr ?v ?d n = baddr ?v ?d m" for n m
      using D(6) [OF that(1,2)] that(3) ad [OF that(1)] ad [OF that(2)] by simp
  qed (rule db)
  moreover have "fblock ?v ?d n = fblock v di n" if "n < MAXFILE" for n
    using ad [OF that] keepsD(2) [OF K(1) D(3) [OF that]] by (simp add: fblock_def)
  moreover have "?d\<lparr>di_addrs := []\<rparr> = di\<lparr>di_addrs := []\<rparr>" by (simp add: set_addr_def)
  moreover have "ind ?d = ind di \<or> ind ?d \<noteq> 0 \<and> \<not> used sb v (ind ?d)" using i a0 a(3) by simp
  moreover have "\<forall>b \<in> blocks ?v ?d. b \<in> blocks v di \<or> \<not> used sb v b" unfolding bl using a(3) by blast
  ultimately show ?thesis unfolding extended_def using keeps_mono [OF K(1)] ad K(3) by auto
qed

lemma add_listed:
  assumes ok: "inode_ok sb v di" and bm: "bitmap_ok sb v" "length (v (ind di)) = BSIZE" and bn: "NDIRECT \<le> bn" "bn < MAXFILE" "ind di \<noteq> 0"
      "get32 (v (ind di)) (4 * (bn - NDIRECT)) = 0"
    and a: "data_start sb \<le> unat a" "unat a < unat (sb_size sb)" "\<not> used sb v (unat a)"
  defines "v' \<equiv> (alloc_view sb (unat a) v)(ind di := put32 (v (ind di)) (4 * (bn - NDIRECT)) a)"
  shows "extended sb v di 1 v' di" "baddr v' di bn = unat a"
proof -
  note D = inode_okD [OF ok] and K = alloc_keeps [OF bm(1) a]
  have id: "data_block sb v (ind di)" by (rule D(4) [OF bn(3)])
  have ds: "data_start sb \<le> ind di" "ind di \<noteq> unat a" using id a(3) by (auto simp: data_block_def)
  have off: "4 * (n - NDIRECT) + 4 \<le> length (v (ind di))" if "n < MAXFILE" for n
    using that bm(2) by (simp add: MAXFILE_def NDIRECT_def NINDIRECT_def BSIZE_def)
  have bm': "bitmap_ok sb (alloc_view sb (unat a) v)"
    using bm(1) a(1) slot_eq(1) by (auto simp: bitmap_ok_def alloc_view_def mark_used_def)
  note S = store_data [where d = "put32 (v (ind di)) (4 * (bn - NDIRECT)) a", OF bm' ds(1), folded v'_def]
  have kp: "keeps sb {ind di} v v'" using keeps_trans [OF K(1) S(2)] by simp
  have db: "data_block sb v' (unat a)" using S(4) K(2) by simp
  have za: "v' (unat a) = replicate BSIZE 0" using K(4) ds(2) by (simp add: v'_def)
  have nf: "nfree sb v = Suc (nfree sb v')" using S(3) K(3) by simp
  have ad: "baddr v' di n = (if n = bn then unat a else baddr v di n)" if "n < MAXFILE" for n
  proof (cases "n < NDIRECT")
    case True
    then show ?thesis using bn(1) by (simp add: baddr_def)
  next
    case False
    have "get32 (v' (ind di)) (4 * (n - NDIRECT)) = (if n = bn then a else get32 (v (ind di)) (4 * (n - NDIRECT)))"
    proof (cases "n = bn")
      case False
      then have "4 * (n - NDIRECT) + 4 \<le> 4 * (bn - NDIRECT) \<or> 4 * (bn - NDIRECT) + 4 \<le> 4 * (n - NDIRECT)" using bn(1) \<open>\<not> n < NDIRECT\<close> by linarith
      then show ?thesis using get32_put32_other off [OF that] False by (simp add: v'_def)
    qed (use get32_put32 off [OF that] in \<open>simp add: v'_def\<close>)
    then show ?thesis using False bn(3) by (simp add: baddr_def)
  qed
  then show "baddr v' di bn = unat a" using bn(2) by simp
  have b0: "baddr v di bn = 0" using bn by (simp add: baddr_def)
  have "di = di\<lparr>di_addrs := di_addrs di\<rparr>" by simp
  then show "extended sb v di 1 v' di"
    using ad by (intro add_block [where as = "di_addrs di", OF ok bn(2) b0 a(1,3) db kp _ za nf _ D(1)]) simp_all
qed

section \<open>Looking up a block\<close>

text \<open>The state with the cached inode \<open>ip\<close> set to \<open>di\<close>.\<close>

definition with_di :: "nat \<Rightarrow> dinode \<Rightarrow> fs_env \<Rightarrow> fs_env" where
  "with_di ip di e = e\<lparr>e_inode := (e_inode e)[ip := (e_inode e ! ip)\<lparr>i_d := di\<rparr>]\<rparr>"

abbreviation di_of :: "fsys \<Rightarrow> nat \<Rightarrow> dinode" where
  "di_of x ip \<equiv> i_d (inode_at x ip)"

lemma upd_di_simps [simp]:
  "fs_view (upd_di ip f x) = fs_view x" "fs_env (upd_di ip f x) = with_di ip (f (di_of x ip)) (fs_env x)" "fs_ok pid (upd_di ip f x) H k = fs_ok pid x H k"
  "fs_sb (upd_di ip f x) = fs_sb x"
  by (simp_all add: upd_di_def upd_inode_def fs_view_def fs_env_def with_di_def fs_ok_def)

lemma with_di_simps [simp]:
  "e_sb (with_di ip di e) = e_sb e" "layout_ok (with_di ip di e) = layout_ok e" "on_disk (with_di ip di e) = on_disk e" "off_log (with_di ip di e) = off_log e"
  by (simp_all add: with_di_def layout_ok_def Let_def on_disk_def off_log_def fun_eq_iff)

lemma with_di_twice [simp]: "with_di ip di (with_di ip di' e) = with_di ip di e"
  by (cases "ip < length (e_inode e)") (simp_all add: with_di_def list_update_beyond)

lemma with_di_same: "with_di ip (di_of x ip) (fs_env x) = fs_env x"
  by (simp add: with_di_def fs_env_def)

lemma env_fields: "e_sb (fs_env x) = fs_sb x" "e_inode (fs_env x) = fs_inode x"
  by (simp_all add: fs_env_def)

lemma env_with_di:
  assumes "fs_env x' = with_di ip di (fs_env x)" "ip < length (fs_inode x)"
  shows "fs_sb x' = fs_sb x" "di_of x' ip = di" "i_dev (inode_at x' ip) = i_dev (inode_at x ip)" "length (fs_inode x') = length (fs_inode x)"
    "i_inum (inode_at x' ip) = i_inum (inode_at x ip)"
proof -
  have "fs_inode x' = (fs_inode x)[ip := (inode_at x ip)\<lparr>i_d := di\<rparr>]" "fs_sb x' = fs_sb x"
    using arg_cong [OF assms(1), of e_inode] arg_cong [OF assms(1), of e_sb] by (simp_all add: fs_env_def with_di_def)
  then show "fs_sb x' = fs_sb x" "di_of x' ip = di" "i_dev (inode_at x' ip) = i_dev (inode_at x ip)" "length (fs_inode x') = length (fs_inode x)"
    "i_inum (inode_at x' ip) = i_inum (inode_at x ip)" using assms(2) by simp_all
qed

lemma env_same:
  assumes "fs_env x' = fs_env x"
  shows "fs_sb x' = fs_sb x" "fs_inode x' = fs_inode x"
  using arg_cong [OF assms, of e_sb] arg_cong [OF assms, of e_inode] by (simp_all add: fs_env_def)

text \<open>The conditions under which the operations on an open file run: \<open>k\<close> changes fit into the transaction and \<open>n\<close> blocks are free.\<close>

definition file_ok :: "int \<Rightarrow> fsys \<Rightarrow> nat \<Rightarrow> nat \<Rightarrow> nat \<Rightarrow> bool" where
  "file_ok pid x ip k n = (fs_ok pid x {} k \<and> layout_ok (fs_env x) \<and> meta_used (fs_sb x) (fs_view x) \<and> ip < length (fs_inode x) \<and>
     i_dev (inode_at x ip) = 1 \<and> inode_ok (fs_sb x) (fs_view x) (di_of x ip) \<and> n \<le> nfree (fs_sb x) (fs_view x))"

lemma file_okD:
  assumes "file_ok pid x ip k n"
  shows "fs_ok pid x {} k" "layout_ok (fs_env x)" "meta_used (fs_sb x) (fs_view x)" "ip < length (fs_inode x)" "i_dev (inode_at x ip) = 1"
    "inode_ok (fs_sb x) (fs_view x) (di_of x ip)" "n \<le> nfree (fs_sb x) (fs_view x)" "bitmap_ok (fs_sb x) (fs_view x)"
    "length (fs_view x b) = BSIZE"
proof -
  show f: "fs_ok pid x {} k" "layout_ok (fs_env x)" "meta_used (fs_sb x) (fs_view x)" "ip < length (fs_inode x)" "i_dev (inode_at x ip) = 1"
    "inode_ok (fs_sb x) (fs_view x) (di_of x ip)" "n \<le> nfree (fs_sb x) (fs_view x)" using assms by (simp_all add: file_ok_def)
  show "bitmap_ok (fs_sb x) (fs_view x)" by (rule bitmap_okI [OF f(2,1)])
  show "length (fs_view x b) = BSIZE" using length_view [OF busyD(1) [OF fs_okD(1) [OF f(1)]]] by (simp add: fs_view_def)
qed

lemma fs_ok_less: "fs_ok pid x H k \<Longrightarrow> j \<le> k \<Longrightarrow> fs_ok pid x H j"
  by (rule st.less_law)

lemma file_ok_less: "file_ok pid x ip k n \<Longrightarrow> j \<le> k \<Longrightarrow> m \<le> n \<Longrightarrow> file_ok pid x ip j m"
  unfolding file_ok_def using fs_ok_less by auto

text \<open>The state after a block has been added.\<close>

lemma file_ok_extended:
  assumes f: "file_ok pid x ip k0 (n + m)" and ok: "fs_ok pid x' {} k" and env: "fs_env x' = with_di ip di (fs_env x)"
    and ext: "extended (fs_sb x) (fs_view x) (di_of x ip) m (fs_view x') di"
  shows "file_ok pid x' ip k n"
proof -
  note F = file_okD [OF f] and E = env_with_di [OF env file_okD(4) [OF f]] and X = extendedD [OF ext]
  have "data_start (fs_sb x) \<le> unat (sb_size (fs_sb x))" using F(2) by (simp add: layout_ok_def Let_def env_fields)
  then have "meta_used (fs_sb x) (fs_view x')" by (rule keeps_meta [OF X(3) F(3)])
  moreover have "n \<le> nfree (fs_sb x) (fs_view x')" using X(8) F(7) by linarith
  ultimately show ?thesis unfolding file_ok_def E using ok env F(2,4,5) X(1) by simp
qed

lemma balloc_file:
  assumes f: "file_ok pid x ip (k + 2) (Suc n)" and H: "fs_ok pid x H (k + 2)" "held_data (fs_sb x) (fs_view x) H"
  obtains a x' where "balloc pid 1 x = Some (a, x')" "data_start (fs_sb x) \<le> unat a" "unat a < unat (sb_size (fs_sb x))"
    "\<not> used (fs_sb x) (fs_view x) (unat a)" "fs_ok pid x' H k" "fs_view x' = alloc_view (fs_sb x) (unat a) (fs_view x)" "fs_env x' = fs_env x"
proof -
  note F = file_okD [OF f]
  have "some_free (fs_sb x) (fs_view x)" using F(7) by (intro nfree_some) simp
  from balloc_ok [OF _ F(2,3) H(2) this, of pid k] H(1) that show ?thesis by auto
qed

lemma no_held: "held_data sb v {}"
  by (simp add: held_data_def)

lemma bmap_direct:
  assumes f: "file_ok pid x ip (k + 2) (Suc n)" and bn: "bn < NDIRECT"
  shows "\<exists>a x' di. bmap pid ip bn x = Some (a, x') \<and> fs_ok pid x' {} k \<and> fs_env x' = with_di ip di (fs_env x) \<and>
    extended (fs_sb x) (fs_view x) (di_of x ip) 1 (fs_view x') di \<and> baddr (fs_view x') di bn = unat a \<and> a \<noteq> 0"
proof (cases "di_addrs (di_of x ip) ! bn = 0")
  case True
  note F = file_okD [OF f]
  obtain a x' where a: "balloc pid 1 x = Some (a, x')" "data_start (fs_sb x) \<le> unat a" "unat a < unat (sb_size (fs_sb x))"
    "\<not> used (fs_sb x) (fs_view x) (unat a)" "fs_ok pid x' {} k" "fs_view x' = alloc_view (fs_sb x) (unat a) (fs_view x)" "fs_env x' = fs_env x"
    by (rule balloc_file [OF f F(1) no_held])
  note A = add_direct [OF F(6,8) bn True a(2-4)]
  have di: "di_of x' ip = di_of x ip" using env_same(2) [OF a(7)] by simp
  have "bmap pid ip bn x = Some (a, upd_di ip (set_addr bn a) x')" using a(1) F(5) bn True by (simp add: bmap_def)
  moreover have "a \<noteq> 0" using a(2) inode_okD(2) [OF F(6)] by auto
  ultimately show ?thesis using A a(5,6,7) di by (intro exI [of _ a] exI [of _ "upd_di ip (set_addr bn a) x'"] exI [of _ "set_addr bn a (di_of x ip)"]) simp
next
  case False
  note F = file_okD [OF f]
  have "bmap pid ip bn x = Some (di_addrs (di_of x ip) ! bn, x)" using False bn by (simp add: bmap_def)
  moreover have "baddr (fs_view x) (di_of x ip) bn = unat (di_addrs (di_of x ip) ! bn)" using bn by (simp add: baddr_def)
  moreover have "extended (fs_sb x) (fs_view x) (di_of x ip) 1 (fs_view x) (di_of x ip)" using F(6) by (simp add: extended_def keeps_refl)
  ultimately show ?thesis using fs_ok_less [OF F(1)] with_di_same [of ip x] False by (intro exI) auto
qed

text \<open>The indirect block, allocated if there is none.\<close>

definition ind_step :: "int \<Rightarrow> nat \<Rightarrow> fsys \<Rightarrow> (u32 \<times> fsys) option" where
  "ind_step pid ip x = (let dev = i_dev (inode_at x ip); addrs = di_addrs (di_of x ip) in
     if addrs ! NDIRECT = 0 then do {
       (addr, x) \<leftarrow> balloc pid dev x;
       Some (addr, upd_di ip (set_addr NDIRECT addr) x)
     }
     else Some (addrs ! NDIRECT, x))"

lemma ind_step_ok:
  assumes f: "file_ok pid x ip (k + 2) (Suc n)"
  shows "\<exists>a x' di. ind_step pid ip x = Some (a, x') \<and> fs_ok pid x' {} k \<and> fs_env x' = with_di ip di (fs_env x) \<and>
    extended (fs_sb x) (fs_view x) (di_of x ip) 1 (fs_view x') di \<and> ind di = unat a \<and> a \<noteq> 0"
proof (cases "di_addrs (di_of x ip) ! NDIRECT = 0")
  case True
  note F = file_okD [OF f]
  obtain a x' where a: "balloc pid 1 x = Some (a, x')" "data_start (fs_sb x) \<le> unat a" "unat a < unat (sb_size (fs_sb x))"
    "\<not> used (fs_sb x) (fs_view x) (unat a)" "fs_ok pid x' {} k" "fs_view x' = alloc_view (fs_sb x) (unat a) (fs_view x)" "fs_env x' = fs_env x"
    by (rule balloc_file [OF f F(1) no_held])
  note A = add_indirect [OF F(6,8) True a(2-4)]
  have di: "di_of x' ip = di_of x ip" using env_same(2) [OF a(7)] by simp
  have i: "ind (set_addr NDIRECT a (di_of x ip)) = unat a" "a \<noteq> 0" using inode_okD(1,2) [OF F(6)] a(2) by auto
  have "ind_step pid ip x = Some (a, upd_di ip (set_addr NDIRECT a) x')" using a(1) F(5) True by (simp add: ind_step_def)
  then show ?thesis using A a(5,6,7) di i
    by (intro exI [of _ a] exI [of _ "upd_di ip (set_addr NDIRECT a) x'"] exI [of _ "set_addr NDIRECT a (di_of x ip)"]) simp
next
  case False
  note F = file_okD [OF f]
  have "extended (fs_sb x) (fs_view x) (di_of x ip) 1 (fs_view x) (di_of x ip)" using F(6) by (simp add: extended_def keeps_refl)
  then show ?thesis using fs_ok_less [OF F(1)] with_di_same [of ip x] False
    by (intro exI [of _ "di_addrs (di_of x ip) ! NDIRECT"] exI [of _ x] exI [of _ "di_of x ip"]) (simp add: ind_step_def ind_def)
qed

lemma bmap_indirect_eq:
  assumes "\<not> bn < NDIRECT" "bn < MAXFILE" "i_dev (inode_at x ip) = 1"
  shows "bmap pid ip bn x = do {
     (addr, x) \<leftarrow> ind_step pid ip x;
     (bp, x) \<leftarrow> fs_bread pid 1 (unat addr) x;
     let addr = get32 (fs_data x bp) (4 * (bn - NDIRECT));
     (addr, x) \<leftarrow> (if addr = 0 then do {
         (addr, x) \<leftarrow> balloc pid 1 x;
         x \<leftarrow> fs_logw bp (fs_set bp (put32 (fs_data x bp) (4 * (bn - NDIRECT)) addr) x);
         Some (addr, x)
       }
       else Some (addr, x));
     x \<leftarrow> fs_brelse pid bp x;
     Some (addr, x) }"
proof -
  have "bn - NDIRECT < NINDIRECT" using assms(1,2) by (simp add: MAXFILE_def)
  then show ?thesis using assms(1,3) by (simp add: bmap_def ind_step_def Let_def)
qed

lemma bmap_listed:
  assumes f: "file_ok pid x ip (k + 3) (Suc n)" and bn: "\<not> bn < NDIRECT" "bn < MAXFILE" and a: "ind (di_of x ip) = unat a" "a \<noteq> 0"
  shows "\<exists>b x'. (do {
     (bp, x) \<leftarrow> fs_bread pid 1 (unat a) x;
     let addr = get32 (fs_data x bp) (4 * (bn - NDIRECT));
     (addr, x) \<leftarrow> (if addr = 0 then do {
         (addr, x) \<leftarrow> balloc pid 1 x;
         x \<leftarrow> fs_logw bp (fs_set bp (put32 (fs_data x bp) (4 * (bn - NDIRECT)) addr) x);
         Some (addr, x)
       }
       else Some (addr, x));
     x \<leftarrow> fs_brelse pid bp x;
     Some (addr, x) }) = Some (b, x') \<and> fs_ok pid x' {} k \<and> fs_env x' = fs_env x \<and>
    extended (fs_sb x) (fs_view x) (di_of x ip) 1 (fs_view x') (di_of x ip) \<and> baddr (fs_view x') (di_of x ip) bn = unat b \<and> b \<noteq> 0"
proof -
  define sb v di where "sb = fs_sb x" and "v = fs_view x" and "di = di_of x ip"
  note F = file_okD [OF f, folded sb_def v_def di_def] and sbe = env_fields(1) [of x, folded sb_def]
  have i: "ind di = unat a" "unat a \<noteq> 0" using a by (simp_all add: di_def unat_eq_zero)
  have id: "data_block sb v (unat a)" using inode_okD(4) [OF F(6)] i by simp
  have B: "on_disk (fs_env x) (unat a)" "off_log (fs_env x) (unat a)" using data_bounds [OF F(2), of "unat a"] id by (simp_all add: data_block_def sbe)
  let ?e = "get32 (v (unat a)) (4 * (bn - NDIRECT))"
  have ba: "baddr v di bn = unat ?e" using bn(1) i by (simp add: baddr_def)
  from st.rd_law [OF F(1) _ _ B(1)] obtain j x1 where 1: "fs_bread pid 1 (unat a) x = Some (j, x1)" "fs_ok pid x1 {(unat a, j)} (k + 3)" "fs_view x1 = v" "fs_env x1 = fs_env x"
    by (auto simp: v_def)
  have d1: "fs_data x1 j = v (unat a)" using st.data_law [OF 1(2), of "unat a" j] 1(3) by simp
  show ?thesis
  proof (cases "?e = 0")
    case False
    from st.rl_law [OF 1(2), of "unat a" j] obtain x2 where 2: "fs_brelse pid j x1 = Some x2" "fs_ok pid x2 {} (k + 3)" "fs_view x2 = v" "fs_env x2 = fs_env x"
      using 1(3,4) by auto
    have "extended sb v di 1 v di" using F(6) by (simp add: extended_def keeps_refl)
    then show ?thesis using 1(1) 2(1) d1 False fs_ok_less [OF 2(2), of k] 2(3,4) ba unfolding sb_def [symmetric] v_def [symmetric] di_def [symmetric]
      by (intro exI [of _ ?e] exI [of _ x2]) simp
  next
    case True
    have sb1: "fs_sb x1 = sb" using env_same(1) [OF 1(4)] by (simp add: sb_def)
    have hd: "held_data sb v {(unat a, j)}" using id by (simp add: held_data_def data_block_def)
    have "some_free sb v" using F(7) by (intro nfree_some) simp
    moreover have "fs_ok pid x1 {(unat a, j)} (Suc (Suc (k + 1)))" using 1(2) by (simp add: numeral_3_eq_3)
    ultimately obtain b x2 where 2: "balloc pid 1 x1 = Some (b, x2)" "data_start sb \<le> unat b" "unat b < unat (sb_size sb)" "\<not> used sb v (unat b)"
      "fs_ok pid x2 {(unat a, j)} (k + 1)" "fs_view x2 = alloc_view sb (unat b) v" "fs_env x2 = fs_env x"
      using balloc_ok [of pid x1 "{(unat a, j)}" "k + 1"] F(2,3) hd unfolding sb1 1(3,4) by metis
    have ab: "alloc_view sb (unat b) v (unat a) = v (unat a)"
      using keepsD(2) [OF alloc_keeps(1) [OF F(8) 2(2-4)] id] by simp
    have d2: "fs_data x2 j = v (unat a)" using st.data_law [OF 2(5), of "unat a" j] 2(6) ab by simp
    let ?d = "put32 (v (unat a)) (4 * (bn - NDIRECT)) b"
    have len: "length ?d = BSIZE" "off_log (fs_env x2) (unat a)" "fs_ok pid x2 {(unat a, j)} (Suc k)" using F(9) B(2) 2(5,7) by (simp_all add: v_def)
    from st.lw_law [OF len(3) _ len(2,1)] obtain x3 where 3: "fs_logw j (fs_set j ?d x2) = Some x3" "fs_ok pid x3 {(unat a, j)} k"
      "fs_view x3 = (alloc_view sb (unat b) v)(unat a := ?d)" "fs_env x3 = fs_env x" using 2(6,7) by auto
    from st.rl_law [OF 3(2), of "unat a" j] obtain x4 where 4: "fs_brelse pid j x3 = Some x4" "fs_ok pid x4 {} k" "fs_view x4 = fs_view x3" "fs_env x4 = fs_env x"
      using 3(4) by auto
    have "NDIRECT \<le> bn" "length (v (ind di)) = BSIZE" "get32 (v (ind di)) (4 * (bn - NDIRECT)) = 0" "ind di \<noteq> 0" using bn(1) F(9) True i by (simp_all add: v_def)
    from add_listed [OF F(6,8) this(2,1) bn(2) this(4,3) 2(2-4)] have X: "extended sb v di 1 (fs_view x4) di" "baddr (fs_view x4) di bn = unat b"
      unfolding 4(3) 3(3) i by simp_all
    have "b \<noteq> 0" using 2(2) inode_okD(2) [OF F(6)] by auto
    then show ?thesis using 1(1) 2(1) 3(1) 4(1) d1 d2 True 4(2,4) X unfolding sb_def [symmetric] v_def [symmetric] di_def [symmetric]
      by (intro exI [of _ b] exI [of _ x4]) simp
  qed
qed

lemma bmap_ok:
  assumes f: "file_ok pid x ip (k + 5) (n + 2)" and bn: "bn < MAXFILE"
  obtains a x' di where "bmap pid ip bn x = Some (a, x')" "file_ok pid x' ip k n" "fs_env x' = with_di ip di (fs_env x)"
    "extended (fs_sb x) (fs_view x) (di_of x ip) 2 (fs_view x') di" "baddr (fs_view x') di bn = unat a" "a \<noteq> 0"
proof (cases "bn < NDIRECT")
  case True
  have f': "file_ok pid x ip (k + 2) (Suc n)" by (rule file_ok_less [OF f]) simp_all
  from bmap_direct [OF f' True] obtain a x' di where r: "bmap pid ip bn x = Some (a, x')" "fs_ok pid x' {} k" "fs_env x' = with_di ip di (fs_env x)"
    "extended (fs_sb x) (fs_view x) (di_of x ip) 1 (fs_view x') di" "baddr (fs_view x') di bn = unat a" "a \<noteq> 0" by (elim exE conjE)
  have e: "extended (fs_sb x) (fs_view x) (di_of x ip) 2 (fs_view x') di" using r(4) by (auto simp: extended_def)
  from that [OF r(1) file_ok_extended [OF f r(2,3) e] r(3) e r(5,6)] show ?thesis .
next
  case False
  note F = file_okD [OF f]
  have f': "file_ok pid x ip (k + 3 + 2) (Suc (n + 1))" using f by (simp add: numeral_eq_Suc)
  from ind_step_ok [OF f'] obtain a x1 d1 where 1: "ind_step pid ip x = Some (a, x1)" "fs_ok pid x1 {} (k + 3)" "fs_env x1 = with_di ip d1 (fs_env x)"
    "extended (fs_sb x) (fs_view x) (di_of x ip) 1 (fs_view x1) d1" "ind d1 = unat a" "a \<noteq> 0" by (elim exE conjE)
  note E = env_with_di [OF 1(3) F(4)]
  have f1: "file_ok pid x1 ip (k + 3) (Suc n)" using file_ok_extended [OF _ 1(2,3,4), of "k + 5" "Suc n"] f by (simp add: numeral_eq_Suc)
  have i1: "ind (di_of x1 ip) = unat a" using E(2) 1(5) by simp
  from bmap_listed [OF f1 False bn i1 1(6)] obtain b x2 where 2: "(do {
     (bp, x) \<leftarrow> fs_bread pid 1 (unat a) x1;
     let addr = get32 (fs_data x bp) (4 * (bn - NDIRECT));
     (addr, x) \<leftarrow> (if addr = 0 then do {
         (addr, x) \<leftarrow> balloc pid 1 x;
         x \<leftarrow> fs_logw bp (fs_set bp (put32 (fs_data x bp) (4 * (bn - NDIRECT)) addr) x);
         Some (addr, x)
       }
       else Some (addr, x));
     x \<leftarrow> fs_brelse pid bp x;
     Some (addr, x) }) = Some (b, x2)" "fs_ok pid x2 {} k" "fs_env x2 = fs_env x1"
    "extended (fs_sb x1) (fs_view x1) (di_of x1 ip) 1 (fs_view x2) (di_of x1 ip)" "baddr (fs_view x2) (di_of x1 ip) bn = unat b" "b \<noteq> 0" by (elim exE conjE)
  have "extended (fs_sb x) (fs_view x) (di_of x ip) (1 + 1) (fs_view x2) d1" using extended_trans [OF 1(4)] 2(4) unfolding E(1,2) by blast
  then have e: "extended (fs_sb x) (fs_view x) (di_of x ip) 2 (fs_view x2) d1" by (simp add: numeral_2_eq_2)
  have env: "fs_env x2 = with_di ip d1 (fs_env x)" using 2(3) 1(3) by simp
  have "bmap pid ip bn x = Some (b, x2)" unfolding bmap_indirect_eq [OF False bn F(5)] 1(1) using 2(1) by simp
  from that [OF this file_ok_extended [OF f 2(2) env e] env e] 2(5,6) E(2) show ?thesis by simp
qed

section \<open>Reading\<close>

text \<open>No block of the file up to byte \<open>e\<close> is missing.\<close>

definition no_holes :: "(nat \<Rightarrow> block) \<Rightarrow> dinode \<Rightarrow> nat \<Rightarrow> bool" where
  "no_holes v di e = (\<forall>p < e. baddr v di (p div BSIZE) \<noteq> 0)"

text \<open>Looking up a block that is there changes nothing.\<close>

lemma bmap_present:
  assumes ok: "fs_ok pid x {} k" and lay: "layout_ok (fs_env x)" and dev: "i_dev (inode_at x ip) = 1"
    and di: "inode_ok (fs_sb x) (fs_view x) (di_of x ip)" and bn: "bn < MAXFILE" "baddr (fs_view x) (di_of x ip) bn \<noteq> 0"
  shows "\<exists>a x'. bmap pid ip bn x = Some (a, x') \<and> unat a = baddr (fs_view x) (di_of x ip) bn \<and> fs_ok pid x' {} k \<and> fs_view x' = fs_view x \<and> fs_env x' = fs_env x"
proof (cases "bn < NDIRECT")
  case True
  have "di_addrs (di_of x ip) ! bn \<noteq> 0" using bn(2) True by (auto simp: baddr_def)
  then have "bmap pid ip bn x = Some (di_addrs (di_of x ip) ! bn, x)" using True by (simp add: bmap_def Let_def)
  then show ?thesis using ok True by (simp add: baddr_def)
next
  case False
  define a where "a = di_addrs (di_of x ip) ! NDIRECT"
  have i: "ind (di_of x ip) = unat a" "unat a \<noteq> 0" "a \<noteq> 0" using bn(2) False by (auto simp: baddr_def ind_def a_def split: if_splits)
  have ba: "baddr (fs_view x) (di_of x ip) bn = unat (get32 (fs_view x (unat a)) (4 * (bn - NDIRECT)))" using False i by (simp add: baddr_def)
  have "data_block (fs_sb x) (fs_view x) (unat a)" using inode_okD(4) [OF di] i by simp
  then have B: "on_disk (fs_env x) (unat a)" using data_bounds(1) [OF lay, of "unat a"] by (simp add: data_block_def env_fields)
  obtain j x1 x2 where g: "fs_bread pid 1 (unat a) x = Some (j, x1)" "fs_data x1 j = fs_view x (unat a)" "fs_brelse pid j x1 = Some x2" "fs_ok pid x2 {} k"
    "fs_view x2 = fs_view x" "fs_env x2 = fs_env x" using st.get [OF ok _ _ B] by (metis card.empty image_empty empty_iff zero_le)
  have "ind_step pid ip x = Some (a, x)" using i(3) by (simp add: ind_step_def a_def)
  moreover have "get32 (fs_view x (unat a)) (4 * (bn - NDIRECT)) \<noteq> 0" using bn(2) ba by auto
  ultimately have "bmap pid ip bn x = Some (get32 (fs_view x (unat a)) (4 * (bn - NDIRECT)), x2)"
    unfolding bmap_indirect_eq [OF False bn(1) dev] using g(1,2,3) by simp
  then show ?thesis using g(4-6) ba by simp
qed

lemma fbyte_block: "m + p mod BSIZE \<le> BSIZE \<Longrightarrow> length (fblock v di (p div BSIZE)) = BSIZE \<Longrightarrow>
    take m (drop (p mod BSIZE) (fblock v di (p div BSIZE))) = map (fbyte v di) [p..<p + m]"
proof (rule nth_equalityI)
  assume a: "m + p mod BSIZE \<le> BSIZE" "length (fblock v di (p div BSIZE)) = BSIZE"
  then show "length (take m (drop (p mod BSIZE) (fblock v di (p div BSIZE)))) = length (map (fbyte v di) [p..<p + m])" by simp
  fix j assume "j < length (take m (drop (p mod BSIZE) (fblock v di (p div BSIZE))))"
  then have j: "j < m" by simp
  define q r where "q = p div 512" and "r = p mod 512"
  have p: "p = q * 512 + r" "r + j < 512" using a(1) j by (simp_all add: q_def r_def BSIZE_def)
  define t where "t = r + j"
  have "p + j = 512 * q + t" "t < 512" using p by (simp_all add: t_def)
  then have "(p + j) div 512 = q" "(p + j) mod 512 = r + j" unfolding t_def [symmetric] by simp_all
  then have "(p + j) div BSIZE = p div BSIZE" "(p + j) mod BSIZE = p mod BSIZE + j" by (simp_all add: BSIZE_def q_def r_def)
  then show "take m (drop (p mod BSIZE) (fblock v di (p div BSIZE))) ! j = map (fbyte v di) [p..<p + m] ! j"
    using j a by (simp add: fbyte_def)
qed

lemma read_loop_ok:
  assumes "fs_ok pid x {} k" "layout_ok (fs_env x)" "i_dev (inode_at x ip) = 1" "inode_ok (fs_sb x) (fs_view x) (di_of x ip)"
    "off + n \<le> MAXFILE * BSIZE" "no_holes (fs_view x) (di_of x ip) (off + n)"
  shows "\<exists>x'. read_loop pid ip off n x = Some (map (fbyte (fs_view x) (di_of x ip)) [off..<off + n], x') \<and> fs_ok pid x' {} k \<and>
    fs_view x' = fs_view x \<and> fs_env x' = fs_env x"
  using assms
proof (induction n arbitrary: off x rule: less_induct)
  case (less n)
  show ?case
  proof (cases "n = 0")
    case True
    then show ?thesis using less.prems(1) by (simp add: read_loop.simps)
  next
    case False
    define bn m where "bn = off div BSIZE" and "m = min n (BSIZE - off mod BSIZE)"
    have m: "0 < m" "m \<le> n" "m + off mod BSIZE \<le> BSIZE" using False by (auto simp: m_def BSIZE_def)
    have bn: "bn < MAXFILE" "baddr (fs_view x) (di_of x ip) bn \<noteq> 0"
    proof -
      have "off < MAXFILE * BSIZE" using less.prems(5) False by linarith
      then show "bn < MAXFILE" unfolding bn_def by (rule less_mult_imp_div_less)
      show "baddr (fs_view x) (di_of x ip) bn \<noteq> 0" using less.prems(6) False by (simp add: no_holes_def bn_def)
    qed
    from bmap_present [OF less.prems(1-4) bn] obtain a x1 where 1: "bmap pid ip bn x = Some (a, x1)" "unat a = baddr (fs_view x) (di_of x ip) bn"
      "fs_ok pid x1 {} k" "fs_view x1 = fs_view x" "fs_env x1 = fs_env x" by (elim exE conjE)
    note E1 = env_same [OF 1(5)]
    have "data_block (fs_sb x) (fs_view x) (unat a)" using inode_okD(3) [OF less.prems(4) bn] 1(2) by simp
    then have B: "on_disk (fs_env x1) (unat a)" using data_bounds(1) [OF less.prems(2), of "unat a"] by (simp add: data_block_def env_fields 1(5))
    obtain j x2 x3 where g: "fs_bread pid 1 (unat a) x1 = Some (j, x2)" "fs_data x2 j = fs_view x1 (unat a)" "length (fs_view x1 (unat a)) = BSIZE"
      "fs_brelse pid j x2 = Some x3" "fs_ok pid x3 {} k" "fs_view x3 = fs_view x1" "fs_env x3 = fs_env x1"
      using st.get [OF 1(3) _ _ B] by (metis card.empty image_empty empty_iff zero_le)
    have v3: "fs_view x3 = fs_view x" "fs_env x3 = fs_env x" using g(6,7) 1(4,5) by simp_all
    note E3 = env_same [OF v3(2)]
    have lt: "n - m < n" using m by simp
    have nh: "no_holes (fs_view x3) (di_of x3 ip) (off + m + (n - m))" "off + m + (n - m) \<le> MAXFILE * BSIZE" using less.prems(5,6) m(2) v3 E3 by simp_all
    from less.IH [OF lt g(5), unfolded v3 E3, OF less.prems(2-4) nh(2) nh(1) [unfolded v3 E3]] obtain x4 where 4: "read_loop pid ip (off + m) (n - m) x3 =
        Some (map (fbyte (fs_view x) (di_of x ip)) [off + m..<off + m + (n - m)], x4)" "fs_ok pid x4 {} k" "fs_view x4 = fs_view x" "fs_env x4 = fs_env x"
      by (elim exE conjE)
    have fb: "fblock (fs_view x) (di_of x ip) bn = fs_view x (unat a)" using bn(2) 1(2) by (simp add: fblock_def)
    have tk: "take m (drop (off mod BSIZE) (fs_data x2 j)) = map (fbyte (fs_view x) (di_of x ip)) [off..<off + m]"
      using fbyte_block [OF m(3), of "fs_view x" "di_of x ip"] g(2,3) 1(4) fb by (simp add: bn_def)
    have "[off..<off + n] = [off..<off + m] @ [off + m..<off + m + (n - m)]"
      using upt_add_eq_append [of off "off + m" "n - m"] m(2) by simp
    moreover have "read_loop pid ip off n x = Some (map (fbyte (fs_view x) (di_of x ip)) [off..<off + m] @
        map (fbyte (fs_view x) (di_of x ip)) [off + m..<off + m + (n - m)], x4)"
      unfolding read_loop.simps [of pid ip off n x] bn_def [symmetric] m_def [symmetric] using False 1(1) g(1,4) E1 less.prems(3) 4(1) tk by simp
    ultimately show ?thesis using 4(2-4) by simp
  qed
qed

end
