(* ===== verification/Fs_Rw.thy ===== *)
theory Fs_Rw
  imports Fs_File
begin

text \<open>
  Writing to files (\<^verbatim>\<open>writei\<close> of \<^verbatim>\<open>CS_537_P5/fs.c\<close>): what a write does to the bytes of the file, to the bytes of other files,
  to the inode on disk, and that it fits into a transaction; reading back what has been written.
\<close>

section \<open>Writing one block\<close>

definition overwrite :: "nat \<Rightarrow> 'a list \<Rightarrow> 'a list \<Rightarrow> 'a list" where
  "overwrite r s d = take r d @ s @ drop (r + length s) d"

lemma length_patch [simp]: "r + length s \<le> length d \<Longrightarrow> length (overwrite r s d) = length d"
  by (simp add: overwrite_def)

lemma nth_overwrite:
  assumes "r + length s \<le> length d" "t < length d"
  shows "overwrite r s d ! t = (if r \<le> t \<and> t < r + length s then s ! (t - r) else d ! t)"
  using assms by (auto simp: overwrite_def nth_append min_def)

lemma keeps_weaken: "keeps sb X v v' \<Longrightarrow> \<forall>b \<in> X. b \<in> Y \<or> \<not> data_block sb v b \<Longrightarrow> keeps sb Y v v'"
  unfolding keeps_def by blast

lemma block_of_file:
  assumes ok: "inode_ok sb v di" and bn: "bn < MAXFILE" "baddr v di bn = a" "a \<noteq> 0"
  shows "data_block sb v a" "a \<in> blocks v di"
  using inode_okD(3) [OF ok bn(1)] bn by (auto simp: blocks_def)

lemma store_block:
  assumes ok: "inode_ok sb v di" and bm: "bitmap_ok sb v" and bn: "bn < MAXFILE" "baddr v di bn = a" "a \<noteq> 0"
  shows "inode_ok sb (v(a := d)) di" "baddr (v(a := d)) di = baddr v di" "blocks (v(a := d)) di = blocks v di"
    "n < MAXFILE \<Longrightarrow> fblock (v(a := d)) di n = (if n = bn then d else fblock v di n)"
proof -
  note D = inode_okD [OF ok]
  have ad: "data_block sb v a" "a \<noteq> ind di" using D(3,5) [OF bn(1)] bn(2,3) by auto
  note S = store_data [where d = d, OF bm, of a]
  have ds: "data_start sb \<le> a" using ad(1) by (simp add: data_block_def)
  have "(v(a := d)) (ind di) = v (ind di)" using ad(2) by simp
  then show ba: "baddr (v(a := d)) di = baddr v di" unfolding baddr_def by (intro ext) simp
  show bl: "blocks (v(a := d)) di = blocks v di" by (simp add: blocks_def ba)
  have "data_block sb (v(a := d)) = data_block sb v" using S(4) [OF ds] by (intro ext)
  then show "inode_ok sb (v(a := d)) di" using ok by (simp add: inode_ok_def ba bl)
  show "n < MAXFILE \<Longrightarrow> fblock (v(a := d)) di n = (if n = bn then d else fblock v di n)"
  proof -
    assume n: "n < MAXFILE"
    have "baddr v di n = a \<longleftrightarrow> n = bn" using D(6) [OF n bn(1)] bn(2,3) by metis
    then show ?thesis using bn(2,3) unfolding fblock_def ba by (cases "n = bn") simp_all
  qed
qed

section \<open>Writing bytes\<close>

text \<open>The bytes of \<open>src\<close> stand at offset \<open>off\<close> of the file and every other byte is what it was; blocks of other files do not change.\<close>

definition written :: "superblock \<Rightarrow> (nat \<Rightarrow> block) \<Rightarrow> dinode \<Rightarrow> nat \<Rightarrow> u8 list \<Rightarrow> (nat \<Rightarrow> block) \<Rightarrow> dinode \<Rightarrow> bool" where
  "written sb v di off src v' di' = (inode_ok sb v' di' \<and>
     (\<forall>p < MAXFILE * BSIZE. fbyte v' di' p = (if off \<le> p \<and> p < off + length src then src ! (p - off) else fbyte v di p)) \<and>
     keeps sb (blocks v di) v v' \<and> (\<forall>b \<in> blocks v' di'. b \<in> blocks v di \<or> \<not> used sb v b) \<and>
     (\<forall>n < MAXFILE. baddr v di n \<noteq> 0 \<longrightarrow> baddr v' di' n = baddr v di n) \<and>
     (\<forall>p. off \<le> p \<and> p < off + length src \<longrightarrow> baddr v' di' (p div BSIZE) \<noteq> 0) \<and>
     di'\<lparr>di_addrs := []\<rparr> = di\<lparr>di_addrs := []\<rparr> \<and>
     ((\<forall>p. off \<le> p \<and> p < off + length src \<longrightarrow> baddr v di (p div BSIZE) \<noteq> 0) \<longrightarrow> di' = di))"

lemma writtenD:
  assumes "written sb v di off src v' di'"
  shows "inode_ok sb v' di'" "p < MAXFILE * BSIZE \<Longrightarrow> fbyte v' di' p = (if off \<le> p \<and> p < off + length src then src ! (p - off) else fbyte v di p)"
    "keeps sb (blocks v di) v v'" "b \<in> blocks v' di' \<Longrightarrow> b \<in> blocks v di \<or> \<not> used sb v b"
    "n < MAXFILE \<Longrightarrow> baddr v di n \<noteq> 0 \<Longrightarrow> baddr v' di' n = baddr v di n"
    "off \<le> p \<Longrightarrow> p < off + length src \<Longrightarrow> baddr v' di' (p div BSIZE) \<noteq> 0" "di'\<lparr>di_addrs := []\<rparr> = di\<lparr>di_addrs := []\<rparr>"
    "\<forall>p. off \<le> p \<and> p < off + length src \<longrightarrow> baddr v di (p div BSIZE) \<noteq> 0 \<Longrightarrow> di' = di"
  using assms unfolding written_def by (elim conjE; simp)+

text \<open>Writing in two steps.\<close>

lemma written_join:
  assumes 1: "written sb v di off s v1 di1" and 2: "written sb v1 di1 (off + length s) t v2 di2" and sz: "off + length s + length t \<le> MAXFILE * BSIZE"
  shows "written sb v di off (s @ t) v2 di2"
proof -
  note A = writtenD [OF 1] and B = writtenD [OF 2]
  have szb: "b < unat (sb_size sb)" if "b \<in> blocks v2 di2 \<or> b \<in> blocks v1 di1" for b
    using that A(1) B(1) unfolding inode_ok_def data_block_def by blast
  have unu: "\<not> used sb v b" if "\<not> used sb v1 b" "b < unat (sb_size sb)" for b using keepsD(1) [OF A(3) that(2)] that(1) by blast
  have bl: "b \<in> blocks v di \<or> \<not> used sb v b" if "b \<in> blocks v2 di2" for b
    using B(4) [OF that] A(4) [of b] unu [OF _ szb] that by blast
  have "keeps sb (blocks v di \<union> blocks v1 di1) v v2" by (rule keeps_trans [OF A(3) B(3)])
  then have kp: "keeps sb (blocks v di) v v2"
    by (rule keeps_weaken) (use A(4) in \<open>auto simp: data_block_def\<close>)
  have byt: "fbyte v2 di2 p = (if off \<le> p \<and> p < off + length (s @ t) then (s @ t) ! (p - off) else fbyte v di p)" if "p < MAXFILE * BSIZE" for p
    unfolding B(2) [OF that] A(2) [OF that] by (auto simp: nth_append)
  have mf: "p div BSIZE < MAXFILE" if "p < off + length (s @ t)" for p using that sz by (intro less_mult_imp_div_less) simp
  have nz: "baddr v2 di2 (p div BSIZE) \<noteq> 0" if "off \<le> p" "p < off + length (s @ t)" for p
  proof (cases "p < off + length s")
    case True
    then show ?thesis using A(6) [OF that(1)] B(5) [OF mf [OF that(2)]] by simp
  next
    case False
    then show ?thesis using B(6) [of p] that(2) by simp
  qed
  have ba: "baddr v2 di2 n = baddr v di n" if "n < MAXFILE" "baddr v di n \<noteq> 0" for n using A(5) [OF that] B(5) [OF that(1)] that(2) by simp
  have eq: "di2 = di" if all: "\<forall>p. off \<le> p \<and> p < off + length (s @ t) \<longrightarrow> baddr v di (p div BSIZE) \<noteq> 0"
  proof -
    have d1: "di1 = di" using all by (intro A(8)) simp
    have "baddr v1 di1 (p div BSIZE) \<noteq> 0" if "off + length s \<le> p" "p < off + length s + length t" for p
      using all that A(5) [OF mf, of p] by simp
    then have "di2 = di1" by (intro B(8)) simp
    then show ?thesis using d1 by simp
  qed
  have "di2\<lparr>di_addrs := []\<rparr> = di\<lparr>di_addrs := []\<rparr>" using A(7) B(7) by simp
  then show ?thesis unfolding written_def using B(1) byt kp bl ba nz eq by (intro conjI) simp_all
qed

text \<open>The number of blocks that \<open>n\<close> bytes from offset \<open>off\<close> touch.\<close>

definition span :: "nat \<Rightarrow> nat \<Rightarrow> nat" where
  "span off n = (if n = 0 then 0 else (off + n - 1) div BSIZE - off div BSIZE + 1)"

lemma span_step:
  assumes "0 < n"
  shows "span off n = Suc (span (off + min n (BSIZE - off mod BSIZE)) (n - min n (BSIZE - off mod BSIZE)))"
proof -
  define q r where "q = off div 512" and "r = off mod 512"
  have o: "off = 512 * q + r" "r < 512" by (simp_all add: q_def r_def)
  show ?thesis
  proof (cases "n \<le> 512 - r")
    case True
    then have "(off + n - 1) div 512 = q" using o assms by (intro div_nat_eqI) simp_all
    then show ?thesis using True assms by (simp add: span_def BSIZE_def q_def r_def)
  next
    case False
    have a: "off + (512 - r) = 512 * (q + 1)" using o by simp
    have b: "off + n - 1 = 512 * (q + 1) + (n - (512 - r)) - 1" using o False by simp
    have "512 * (q + 1) \<le> off + n - 1" using o False by simp
    then have "512 * (q + 1) div 512 \<le> (off + n - 1) div 512" by (rule div_le_mono)
    then have c: "q + 1 \<le> (off + n - 1) div 512" by simp
    have d: "(512 * (q + 1)) div 512 = q + 1" by simp
    have m: "min n (512 - r) = 512 - r" using False by simp
    have "span (off + (512 - r)) (n - (512 - r)) = (off + n - 1) div 512 - (q + 1) + 1"
      using False unfolding span_def BSIZE_def a d b [symmetric] by simp
    moreover have "span off n = (off + n - 1) div 512 - q + 1" using assms by (simp add: span_def BSIZE_def q_def)
    ultimately show ?thesis unfolding BSIZE_def r_def [symmetric] m using c by linarith
  qed
qed

text \<open>One turn of the loop.\<close>

lemma block_written:
  assumes ext: "extended sb v di k v1 di1" and bm: "bitmap_ok sb v1" and len: "\<forall>b. length (v1 b) = BSIZE"
    and bn: "off < MAXFILE * BSIZE" "baddr v1 di1 (off div BSIZE) = a" "a \<noteq> 0" and s: "0 < length s" "length s \<le> BSIZE - off mod BSIZE"
    and same: "baddr v di (off div BSIZE) \<noteq> 0 \<Longrightarrow> di1 = di"
  defines "v2 \<equiv> v1(a := overwrite (off mod BSIZE) s (v1 a))"
  shows "written sb v di off s v2 di1" "nfree sb v2 = nfree sb v1" "meta_used sb v1 \<Longrightarrow> data_start sb \<le> unat (sb_size sb) \<Longrightarrow> meta_used sb v2"
    "data_block sb v1 a"
proof -
  note X = extendedD [OF ext]
  have bf: "off div BSIZE < MAXFILE" using bn(1) by (rule less_mult_imp_div_less)
  define q r where "q = off div BSIZE" and "r = off mod BSIZE"
  have o: "off = BSIZE * q + r" "r < BSIZE" by (simp_all add: q_def r_def BSIZE_def)
  note M = block_of_file [OF X(1) bf bn(2,3)]
  have v2: "v2 = v1(a := overwrite r s (v1 a))" by (simp add: v2_def r_def)
  note S = store_block [where d = "overwrite r s (v1 a)", OF X(1) bm bf bn(2,3), folded v2 q_def]
  have ds: "data_start sb \<le> a" using M(1) by (simp add: data_block_def)
  note T = store_data [where d = "overwrite r s (v1 a)", OF bm ds, folded v2]
  show "nfree sb v2 = nfree sb v1" "data_block sb v1 a" by (rule T(3), rule M(1))
  show "meta_used sb v1 \<Longrightarrow> data_start sb \<le> unat (sb_size sb) \<Longrightarrow> meta_used sb v2" by (rule keeps_meta [OF T(2)])
  have b1: "fblock v1 di1 q = v1 a" using bn(2,3) by (simp add: fblock_def q_def)
  have rs: "r + length s \<le> length (v1 a)" using s(2) len o(2) by (simp add: r_def [symmetric])
  have blk: "p div BSIZE = q" if "off \<le> p" "p < off + length s" for p
  proof -
    have "BSIZE * q \<le> p" "p < BSIZE * q + BSIZE" using that o s(2) by (auto simp: r_def [symmetric])
    then show ?thesis by (intro div_nat_eqI) (simp_all add: algebra_simps)
  qed
  have byt: "fbyte v2 di1 p = (if off \<le> p \<and> p < off + length s then s ! (p - off) else fbyte v di p)" if p: "p < MAXFILE * BSIZE" for p
  proof -
    have pf: "p div BSIZE < MAXFILE" using p by (rule less_mult_imp_div_less)
    have old: "fbyte v di p = fbyte v1 di1 p" using X(2) [OF pf] by (simp add: fbyte_def)
    show ?thesis
    proof (cases "p div BSIZE = q")
      case True
      define t where "t = p mod BSIZE"
      have t: "p = BSIZE * q + t" "t < BSIZE" using True by (simp_all add: t_def BSIZE_def flip: True)
      have "fbyte v2 di1 p = overwrite r s (v1 a) ! t" using S(4) [OF pf] True by (simp add: fbyte_def t_def)
      also have "\<dots> = (if r \<le> t \<and> t < r + length s then s ! (t - r) else v1 a ! t)" using rs t(2) len by (intro nth_overwrite) simp_all
      also have "\<dots> = (if off \<le> p \<and> p < off + length s then s ! (p - off) else v1 a ! t)" using o(1) t(1) by auto
      also have "v1 a ! t = fbyte v1 di1 p" using True b1 by (simp add: fbyte_def t_def)
      finally show ?thesis using old by simp
    next
      case False
      have "\<not> (off \<le> p \<and> p < off + length s)" using blk [of p] False by blast
      then show ?thesis using S(4) [OF pf] False old by (auto simp: fbyte_def)
    qed
  qed
  have k2: "keeps sb ({ind di} \<union> {a}) v v2" by (rule keeps_trans [OF X(3) T(2)])
  have "a \<in> blocks v di \<or> \<not> data_block sb v a" using X(5) [OF M(2)] by (auto simp: data_block_def)
  moreover have "ind di \<in> blocks v di \<or> \<not> data_block sb v (ind di)"
  proof (cases "ind di = 0")
    case True
    then show ?thesis using inode_okD(2) [OF X(1)] by (simp add: data_block_def)
  qed (simp add: blocks_def)
  ultimately have kp: "keeps sb (blocks v di) v v2" by (intro keeps_weaken [OF k2]) blast
  have "di1 = di" if "\<forall>p. off \<le> p \<and> p < off + length s \<longrightarrow> baddr v di (p div BSIZE) \<noteq> 0" using that s(1) same by simp
  then show "written sb v di off s v2 di1" unfolding written_def S(2,3)
    using S(1) byt kp X(4,5,6) blk bn(2,3) by (intro conjI) (simp_all add: q_def)
qed

lemma written_nil: "inode_ok sb v di \<Longrightarrow> written sb v di off [] v di"
  by (auto simp: written_def keeps_refl)

lemma file_write_loop_ok:
  assumes "file_ok pid x ip (k + 6 * span off (length src)) (n + 2 * span off (length src))" "off + length src \<le> MAXFILE * BSIZE"
  shows "\<exists>x' di. write_loop pid ip off src x = Some x' \<and> file_ok pid x' ip k n \<and> fs_env x' = with_di ip di (fs_env x) \<and>
    written (fs_sb x) (fs_view x) (di_of x ip) off src (fs_view x') di"
  using assms
proof (induction "length src" arbitrary: src off x rule: less_induct)
  case less
  note F = file_okD [OF less.prems(1)]
  show ?case
  proof (cases "src = []")
    case True
    then show ?thesis using less.prems(1) written_nil [OF F(6)] with_di_same [of ip x]
      by (intro exI [of _ x] exI [of _ "di_of x ip"]) (simp add: write_loop.simps span_def)
  next
    case False
    define m where "m = min (length src) (BSIZE - off mod BSIZE)"
    define s t where "s = take m src" and "t = drop m src"
    have m: "0 < m" "m \<le> length src" "m \<le> BSIZE - off mod BSIZE" using False by (auto simp: m_def BSIZE_def)
    have st: "src = s @ t" "length s = m" "length t = length src - m" "length t < length src" using m by (simp_all add: s_def t_def)
    have sp: "span off (length src) = Suc (span (off + m) (length t))" using span_step [of "length src" off] False by (simp add: m_def [symmetric] st(3))
    have offm: "off < MAXFILE * BSIZE" using less.prems(2) False by (cases src) auto
    then have bf: "off div BSIZE < MAXFILE" by (rule less_mult_imp_div_less)
    define k' n' where "k' = k + 6 * span (off + m) (length t)" and "n' = n + 2 * span (off + m) (length t)"
    have f: "file_ok pid x ip (Suc k' + 5) (n' + 2)" using less.prems(1) unfolding sp by (simp add: k'_def n'_def ac_simps)
    obtain a x1 d1 where 1: "bmap pid ip (off div BSIZE) x = Some (a, x1)" "file_ok pid x1 ip (Suc k') n'" "fs_env x1 = with_di ip d1 (fs_env x)"
      "extended (fs_sb x) (fs_view x) (di_of x ip) 2 (fs_view x1) d1" "baddr (fs_view x1) d1 (off div BSIZE) = unat a" "a \<noteq> 0" by (rule bmap_ok [OF f bf])
    note E1 = env_with_di [OF 1(3) F(4)] and F1 = file_okD [OF 1(2), unfolded env_with_di(1) [OF 1(3) F(4)]]
    have a0: "unat a \<noteq> 0" using 1(6) by (simp add: unat_eq_zero)
    have same: "d1 = di_of x ip" if nz: "baddr (fs_view x) (di_of x ip) (off div BSIZE) \<noteq> 0"
    proof -
      from bmap_present [OF F(1,2,5,6) bf nz] have "fs_env x1 = fs_env x" using 1(1) by auto
      then show ?thesis using E1(2) env_same(2) by metis
    qed
    have s: "0 < length s" "length s \<le> BSIZE - off mod BSIZE" using st(2) m by simp_all
    define v2 where "v2 = (fs_view x1)(unat a := overwrite (off mod BSIZE) s (fs_view x1 (unat a)))"
    note W = block_written [OF 1(4) F1(8) _ offm 1(5) a0 s same, folded v2_def]
    have len: "\<forall>b. length (fs_view x1 b) = BSIZE" using F1(9) by blast
    have db: "data_block (fs_sb x) (fs_view x1) (unat a)" by (rule W(4) [OF len])
    have B: "on_disk (fs_env x1) (unat a)" "off_log (fs_env x1) (unat a)"
      using data_bounds [OF F1(2), of "unat a"] db by (simp_all add: data_block_def 1(3) env_fields)
    obtain j x2 where 2: "fs_bread pid 1 (unat a) x1 = Some (j, x2)" "fs_data x2 j = fs_view x1 (unat a)"
      "\<forall>d. length d = BSIZE \<longrightarrow> (\<exists>x3 x4. fs_logw j (fs_set j d x2) = Some x3 \<and> fs_brelse pid j x3 = Some x4 \<and> fs_ok pid x4 {} k' \<and>
         fs_view x4 = (fs_view x1)(unat a := d) \<and> fs_env x4 = fs_env x1)"
      using st.change [OF F1(1) _ _ B] by (metis card.empty image_empty empty_iff zero_le)
    have "off mod BSIZE + length s \<le> BSIZE" using s(2) by (simp add: BSIZE_def)
    then have "length (overwrite (off mod BSIZE) s (fs_view x1 (unat a))) = BSIZE" using len by simp
    with 2(3) obtain x3 x4 where 4: "fs_logw j (fs_set j (overwrite (off mod BSIZE) s (fs_view x1 (unat a))) x2) = Some x3" "fs_brelse pid j x3 = Some x4"
      "fs_ok pid x4 {} k'" "fs_view x4 = v2" "fs_env x4 = fs_env x1" unfolding v2_def by blast
    have env4: "fs_env x4 = with_di ip d1 (fs_env x)" using 4(5) 1(3) by simp
    note E4 = env_with_di [OF env4 F(4)]
    have sz: "data_start (fs_sb x) \<le> unat (sb_size (fs_sb x))" using F(2) by (simp add: layout_ok_def Let_def env_fields)
    have f4: "file_ok pid x4 ip k' n'"
      unfolding file_ok_def E4 4(4) using 4(3) F1(3,7) W(1-3) [OF len] sz F(2,4,5) env4 by (simp add: written_def)
    have sz4: "off + m + length t \<le> MAXFILE * BSIZE" using less.prems(2) st(3) m(2) by simp
    from less.hyps [OF st(4) f4 [unfolded k'_def n'_def] sz4, unfolded E4] obtain x5 di where 5: "write_loop pid ip (off + m) t x4 = Some x5" "file_ok pid x5 ip k n"
      "fs_env x5 = with_di ip di (fs_env x4)" "written (fs_sb x) (fs_view x4) d1 (off + m) t (fs_view x5) di" by (elim exE conjE)
    have "written (fs_sb x) (fs_view x) (di_of x ip) off src (fs_view x5) di"
      unfolding st(1) using written_join [OF W(1) [OF len], of t "fs_view x5" di] 5(4) 4(4) sz4 st(2) by simp
    moreover have "overwrite (off mod BSIZE) s d = take (off mod BSIZE) d @ take m src @ drop (off mod BSIZE + m) d" for d
      using m(2) by (simp add: overwrite_def s_def min_absorb2)
    then have "write_loop pid ip off src x = Some x5"
      unfolding write_loop.simps [of pid ip off src x] m_def [symmetric] using False 1(1) 2(1,2) 4(1,2) 5(1) [unfolded t_def] E1(3) F(5) by simp
    moreover have "fs_env x5 = with_di ip di (fs_env x)" using 5(3) env4 by simp
    ultimately show ?thesis using 5(2) by blast
  qed
qed

section \<open>Inodes on disk\<close>

lemma length_put16 [simp]: "length (put16 d p v) = length d"
  by (simp add: put16_def)

lemma get16_put16: "p + 2 \<le> length d \<Longrightarrow> get16 (put16 d p v) p = v"
proof -
  assume "p + 2 \<le> length d"
  then have e: "put16 d p v ! p = ucast v" "put16 d p v ! (p + 1) = ucast (drop_bit 8 v)" by (simp_all add: put16_def)
  have "unat v = unat v mod 256 + 256 * (unat v div 256)" by simp
  moreover have "unat (ucast v :: u8) = unat v mod 256" by (simp add: unsigned_ucast_eq take_bit_eq_mod)
  moreover have "unat (ucast (drop_bit 8 v) :: u8) = unat v div 256"
  proof -
    have "unat v < 65536" using unsigned_less [of v, where ?'a = nat] by simp
    then have "unat v div 256 mod 256 = unat v div 256" by simp
    then show ?thesis by (simp add: unsigned_ucast_eq unsigned_drop_bit_eq take_bit_eq_mod drop_bit_eq_div unat_div)
  qed
  ultimately have "unat (ucast v :: u8) + 256 * unat (ucast (drop_bit 8 v) :: u8) = unat v" by simp
  then show ?thesis unfolding get16_def e by simp
qed

lemma get16_other: "p + 2 \<le> q \<or> q + 2 \<le> p \<Longrightarrow> get16 (put16 d q v) p = get16 d p"
  by (auto simp: get16_def put16_def)

lemma get16_put32: "p + 2 \<le> q \<or> q + 4 \<le> p \<Longrightarrow> p + 2 \<le> length d \<Longrightarrow> get16 (put32 d q v) p = get16 d p"
  by (simp add: get16_def nth_put32) (auto simp: wr32_other)

lemma get32_put16: "p + 4 \<le> q \<or> q + 2 \<le> p \<Longrightarrow> get32 (put16 d q v) p = get32 d p"
  unfolding get32_def by (intro rd32_cong) (auto simp: put16_def)

text \<open>The loop that stores the addresses.\<close>

lemma put_addrs:
  assumes "p + 4 * n \<le> length d"
  shows "length (fold (\<lambda>i d. put32 d (p + 4 * i) (f i)) [0..<n] d) = length d"
    "i < n \<Longrightarrow> get32 (fold (\<lambda>i d. put32 d (p + 4 * i) (f i)) [0..<n] d) (p + 4 * i) = f i"
    "q + 4 \<le> p \<or> p + 4 * n \<le> q \<Longrightarrow> q + 4 \<le> length d \<Longrightarrow> get32 (fold (\<lambda>i d. put32 d (p + 4 * i) (f i)) [0..<n] d) q = get32 d q"
    "q + 2 \<le> p \<or> p + 4 * n \<le> q \<Longrightarrow> q + 2 \<le> length d \<Longrightarrow> get16 (fold (\<lambda>i d. put32 d (p + 4 * i) (f i)) [0..<n] d) q = get16 d q"
  using assms
proof (induction n)
  case (Suc n)
  {
    case 1
    then show ?case using Suc(1) by simp
  next
    case 2
    then show ?case using Suc(1,2) by (cases "i = n") (simp_all add: get32_put32 get32_put32_other)
  next
    case 3
    then have "q + 4 \<le> p + 4 * n \<or> p + 4 * n + 4 \<le> q" "q + 4 \<le> p \<or> p + 4 * n \<le> q" by auto
    then show ?case using 3 Suc(1,3) by (simp add: get32_put32_other)
  next
    case 4
    then have "q + 2 \<le> p + 4 * n \<or> p + 4 * n + 4 \<le> q" "q + 2 \<le> p \<or> p + 4 * n \<le> q" by auto
    then show ?case using 4 Suc(1,4) by (simp add: get16_put32)
  }
qed simp_all

lemma put_dinode_ok:
  assumes k: "k < IPB" and d: "length d = BSIZE" and a: "length (di_addrs di) = NDIRECT + 1"
  shows "length (put_dinode k di d) = BSIZE" "get_dinode (put_dinode k di d) k = di"
    "j < IPB \<Longrightarrow> j \<noteq> k \<Longrightarrow> get_dinode (put_dinode k di d) j = get_dinode d j"
proof -
  define p where "p = 64 * k"
  have p: "p + 64 \<le> 512" using k by (simp add: p_def IPB_def)
  define e where "e = put32 (put16 (put16 (put16 (put16 d p (di_type di)) (p + 2) (di_major di)) (p + 4) (di_minor di)) (p + 6) (di_nlink di)) (p + 8) (di_size di)"
  have le: "length e = 512" using d by (simp add: e_def BSIZE_def)
  define g where "g = fold (\<lambda>i d. put32 d (p + 12 + 4 * i) (di_addrs di ! i)) [0..<NDIRECT + 1] e"
  have pd: "put_dinode k di d = g" by (simp add: put_dinode_def g_def e_def p_def)
  have n: "p + 12 + 4 * (NDIRECT + 1) \<le> length e" using p le by (simp add: NDIRECT_def)
  note P = put_addrs [where f = "\<lambda>i. di_addrs di ! i", OF n, folded g_def]
  show "length (put_dinode k di d) = BSIZE" unfolding pd P(1) le BSIZE_def ..
  have "map (\<lambda>i. get32 g (p + 12 + 4 * i)) [0..<NDIRECT + 1] = di_addrs di"
    using P(2) a by (intro nth_equalityI) (simp_all del: upt_Suc)
  moreover have "get16 g p = di_type di" "get16 g (p + 2) = di_major di" "get16 g (p + 4) = di_minor di" "get16 g (p + 6) = di_nlink di" "get32 g (p + 8) = di_size di"
    using p le d by (simp_all add: P(3,4) e_def get16_put32 get16_other get16_put16 get32_put32 BSIZE_def)
  ultimately show "get_dinode (put_dinode k di d) k = di" unfolding pd get_dinode_def p_def [symmetric] by simp
  show "get_dinode (put_dinode k di d) j = get_dinode d j" if j: "j < IPB" "j \<noteq> k"
  proof -
    define q where "q = 64 * j"
    have q: "q + 64 \<le> 512" "q + 64 \<le> p \<or> p + 64 \<le> q" using j by (auto simp: q_def p_def IPB_def)
    have 16: "get16 g (q + i) = get16 d (q + i)" if "i + 2 \<le> 64" for i
    proof -
      have "get16 g (q + i) = get16 e (q + i)" using q that le by (intro P(4)) (auto simp: NDIRECT_def)
      also have "\<dots> = get16 d (q + i)" unfolding e_def using q that d by (subst get16_put32; (auto simp: get16_other BSIZE_def)?)
      finally show ?thesis .
    qed
    have 32: "get32 g (q + i) = get32 d (q + i)" if "i + 4 \<le> 64" for i
    proof -
      have "get32 g (q + i) = get32 e (q + i)" using q that le by (intro P(3)) (auto simp: NDIRECT_def)
      also have "\<dots> = get32 d (q + i)" unfolding e_def using q that d by (subst get32_put32_other; (auto simp: get32_put16 BSIZE_def)?)
      finally show ?thesis .
    qed
    have "map (\<lambda>i. get32 g (q + 12 + 4 * i)) [0..<NDIRECT + 1] = map (\<lambda>i. get32 d (q + 12 + 4 * i)) [0..<NDIRECT + 1]"
      using 32 by (intro map_cong) (auto simp: add.assoc NDIRECT_def simp del: upt_Suc)
    then show ?thesis unfolding pd get_dinode_def q_def [symmetric] using 16 [of 0] 16 [of 2] 16 [of 4] 16 [of 6] 32 [of 8] by simp
  qed
qed

end
