(* ===== verification/Fs_Props.thy ===== *)
theory Fs_Props
  imports Fs_Rw
begin

text \<open>
  Properties of the file system operations of \<^verbatim>\<open>CS_537_P5/fs.c\<close>: reading, writing, and reading back.
\<close>

section \<open>Storing an inode\<close>

lemma IBLOCK_bounds:
  assumes "layout_ok e" "inum < unat (sb_ninodes (e_sb e))"
  shows "IBLOCK inum (e_sb e) < unat (sb_bmapstart (e_sb e))" "on_disk e (IBLOCK inum (e_sb e))" "off_log e (IBLOCK inum (e_sb e))"
proof -
  have "inum div 8 < (unat (sb_ninodes (e_sb e)) + 7) div 8" using assms(2) by linarith
  then show "IBLOCK inum (e_sb e) < unat (sb_bmapstart (e_sb e))" "on_disk e (IBLOCK inum (e_sb e))" "off_log e (IBLOCK inum (e_sb e))"
    using assms(1) by (auto simp: layout_ok_def Let_def IBLOCK_def IPB_def on_disk_def off_log_def data_start_def)
qed

text \<open>A block before the bitmap belongs to no file.\<close>

lemma store_meta:
  assumes b: "b < unat (sb_bmapstart sb)" and ok: "inode_ok sb v di"
  shows "used sb (v(b := d)) = used sb v" "baddr (v(b := d)) di = baddr v di" "blocks (v(b := d)) di = blocks v di"
    "p < MAXFILE * BSIZE \<Longrightarrow> fbyte (v(b := d)) di p = fbyte v di p" "inode_ok sb (v(b := d)) di" "nfree sb (v(b := d)) = nfree sb v"
proof -
  note D = inode_okD [OF ok]
  have ds: "b < data_start sb" using b by (simp add: data_start_def)
  show us: "used sb (v(b := d)) = used sb v" using b by (auto simp: used_def BBLOCK_def fun_eq_iff)
  have "ind di \<noteq> 0 \<Longrightarrow> ind di \<noteq> b" using D(4) ds by (auto simp: data_block_def)
  then have "ind di = 0 \<or> (v(b := d)) (ind di) = v (ind di)" by auto
  then show ba: "baddr (v(b := d)) di = baddr v di" unfolding baddr_def by (intro ext) auto
  show bl: "blocks (v(b := d)) di = blocks v di" by (simp add: blocks_def ba)
  have db: "data_block sb (v(b := d)) = data_block sb v" by (intro ext) (simp add: data_block_def us)
  show "inode_ok sb (v(b := d)) di" using ok by (simp add: inode_ok_def ba bl db)
  show "nfree sb (v(b := d)) = nfree sb v" by (simp add: nfree_def us)
  assume p: "p < MAXFILE * BSIZE"
  have pf: "p div BSIZE < MAXFILE" using p by (rule less_mult_imp_div_less)
  have "baddr v di (p div BSIZE) \<noteq> 0 \<Longrightarrow> baddr v di (p div BSIZE) \<noteq> b" using D(3) [OF pf] ds by (auto simp: data_block_def)
  then show "fbyte (v(b := d)) di p = fbyte v di p" by (simp add: fbyte_def fblock_def ba)
qed

lemma iupdate_ok:
  assumes f: "file_ok pid x ip (Suc k) n" and i: "unat (i_inum (inode_at x ip)) < unat (sb_ninodes (fs_sb x))"
  shows "\<exists>x'. iupdate pid ip x = Some x' \<and> file_ok pid x' ip k n \<and> fs_env x' = fs_env x \<and>
    fs_view x' = (fs_view x)(IBLOCK (unat (i_inum (inode_at x ip))) (fs_sb x) :=
      put_dinode (unat (i_inum (inode_at x ip)) mod IPB) (di_of x ip) (fs_view x (IBLOCK (unat (i_inum (inode_at x ip))) (fs_sb x))))"
proof -
  note F = file_okD [OF f]
  define inum b where "inum = unat (i_inum (inode_at x ip))" and "b = IBLOCK inum (fs_sb x)"
  note B = IBLOCK_bounds [OF F(2), of inum, unfolded env_fields, OF i [folded inum_def], folded b_def]
  have k: "inum mod IPB < IPB" by (simp add: IPB_def)
  have f': "\<And>d. length d = BSIZE \<Longrightarrow> length (put_dinode (inum mod IPB) (di_of x ip) d) = BSIZE"
    by (rule put_dinode_ok(1) [OF k _ inode_okD(1) [OF F(6)]])
  from st.edit [OF F(1) _ _ B(2,3), of "put_dinode (inum mod IPB) (di_of x ip)"] f' obtain x' where
    x': "do { (i, s) \<leftarrow> fs_bread pid 1 b x; s \<leftarrow> fs_logw i (fs_set i (put_dinode (inum mod IPB) (di_of x ip) (fs_data s i)) s); fs_brelse pid i s } = Some x'"
      "fs_ok pid x' {} k" "fs_view x' = (fs_view x)(b := put_dinode (inum mod IPB) (di_of x ip) (fs_view x b))" "fs_env x' = fs_env x" by auto
  have "iupdate pid ip x = Some x'" using x'(1) F(5) by (simp add: iupdate_def Let_def inum_def [symmetric] b_def [symmetric])
  moreover note S = store_meta [OF B(1) F(6)] and E = env_same [OF x'(4)]
  have "meta_used (fs_sb x) (fs_view x')" using F(3) unfolding meta_used_def x'(3) S(1) .
  then have "file_ok pid x' ip k n" unfolding file_ok_def E using x' F(2,4,5,7) S(5,6) by simp
  ultimately show ?thesis using x'(3,4) by (simp add: inum_def b_def)
qed

section \<open>Files apart\<close>

text \<open>Two files share no block.\<close>

definition disjoint_files :: "(nat \<Rightarrow> block) \<Rightarrow> dinode \<Rightarrow> dinode \<Rightarrow> bool" where
  "disjoint_files v di di2 = (blocks v di \<inter> blocks v di2 = {})"

text \<open>A file whose blocks are none of the changed ones is the same after the change.\<close>

lemma other_file:
  assumes kp: "keeps sb X v v'" and ok: "inode_ok sb v di" and X: "X \<inter> blocks v di = {}"
  shows "inode_ok sb v' di" "blocks v' di = blocks v di" "p < MAXFILE * BSIZE \<Longrightarrow> fbyte v' di p = fbyte v di p"
proof -
  note D = inode_okD [OF ok]
  have same: "v' b = v b" if "b \<in> blocks v di" for b
  proof (rule keepsD(2) [OF kp])
    show "data_block sb v b" using ok that by (simp add: inode_ok_def)
    show "b \<notin> X" using X that by blast
  qed
  have i: "ind di = 0 \<or> v' (ind di) = v (ind di)" using same [of "ind di"] by (cases "ind di = 0") (simp_all add: blocks_def)
  then have ba: "baddr v' di = baddr v di" unfolding baddr_def by (intro ext) auto
  then show bl: "blocks v' di = blocks v di" by (simp add: blocks_def)
  show "inode_ok sb v' di" using ok keepsD(4) [OF kp] unfolding inode_ok_def ba bl by blast
  assume "p < MAXFILE * BSIZE"
  then have "p div BSIZE < MAXFILE" by (rule less_mult_imp_div_less)
  then have "baddr v di (p div BSIZE) = 0 \<or> v' (baddr v di (p div BSIZE)) = v (baddr v di (p div BSIZE))"
    using same [of "baddr v di (p div BSIZE)"] by (cases "baddr v di (p div BSIZE) = 0") (simp_all add: blocks_def)
  then show "fbyte v' di p = fbyte v di p" by (auto simp: fbyte_def fblock_def ba)
qed

lemma disjoint_written:
  assumes w: "written sb v di off src v' di'" and ok: "inode_ok sb v di2" and dj: "disjoint_files v di di2"
  shows "inode_ok sb v' di2" "disjoint_files v' di' di2" "p < MAXFILE * BSIZE \<Longrightarrow> fbyte v' di2 p = fbyte v di2 p"
proof -
  note W = writtenD [OF w]
  note O = other_file [OF W(3) ok dj [unfolded disjoint_files_def]]
  show "inode_ok sb v' di2" "p < MAXFILE * BSIZE \<Longrightarrow> fbyte v' di2 p = fbyte v di2 p" by (rule O(1), rule O(3))
  have "used sb v b" if "b \<in> blocks v di2" for b using ok that unfolding inode_ok_def data_block_def by blast
  then show "disjoint_files v' di' di2" using W(4) dj unfolding disjoint_files_def O(2) by blast
qed

section \<open>Writing\<close>

text \<open>The inode on disk is the one in the cache.\<close>

definition disk_inode :: "superblock \<Rightarrow> (nat \<Rightarrow> block) \<Rightarrow> nat \<Rightarrow> dinode" where
  "disk_inode sb v inum = get_dinode (v (IBLOCK inum sb)) (inum mod IPB)"

abbreviation inum_of :: "fsys \<Rightarrow> nat \<Rightarrow> nat" where
  "inum_of x ip \<equiv> unat (i_inum (inode_at x ip))"

definition fsize :: "fsys \<Rightarrow> nat \<Rightarrow> nat" where
  "fsize x ip = unat (di_size (di_of x ip))"

text \<open>An open file: its inode is in use and the one on disk is the same, its blocks are there up to its size, and it is no device.\<close>

definition open_file :: "fsys \<Rightarrow> nat \<Rightarrow> bool" where
  "open_file x ip = (inum_of x ip < unat (sb_ninodes (fs_sb x)) \<and> disk_inode (fs_sb x) (fs_view x) (inum_of x ip) = di_of x ip \<and>
     no_holes (fs_view x) (di_of x ip) (fsize x ip) \<and> fsize x ip \<le> MAXFILE * BSIZE \<and> di_type (di_of x ip) \<noteq> T_DEV)"

lemma keeps_inodes:
  assumes "keeps sb X v v'" "layout_ok e" "sb = e_sb e" "inum < unat (sb_ninodes sb)"
  shows "disk_inode sb v' inum = disk_inode sb v inum"
proof -
  have "IBLOCK inum sb < unat (sb_bmapstart sb)" using IBLOCK_bounds(1) [OF assms(2), folded assms(3), OF assms(4)] .
  then show ?thesis using keepsD(3) [OF assms(1)] by (simp add: disk_inode_def)
qed

lemma max_size: "MAXFILE * BSIZE = 71680"
  by (simp add: MAXFILE_def NDIRECT_def NINDIRECT_def BSIZE_def)

text \<open>What a write has done to the state.\<close>

definition wrote :: "fsys \<Rightarrow> nat \<Rightarrow> nat \<Rightarrow> u8 list \<Rightarrow> fsys \<Rightarrow> bool" where
  "wrote x ip off src x' = (fs_env x' = with_di ip (di_of x' ip) (fs_env x) \<and> di_of x' ip = (di_of x ip)\<lparr>di_addrs := di_addrs (di_of x' ip), di_size := di_size (di_of x' ip)\<rparr> \<and> fsize x' ip = max (fsize x ip) (off + length src) \<and>
     (\<forall>p < MAXFILE * BSIZE. fbyte (fs_view x') (di_of x' ip) p = (if off \<le> p \<and> p < off + length src then src ! (p - off) else fbyte (fs_view x) (di_of x ip) p)) \<and>
     (\<forall>inum < unat (sb_ninodes (fs_sb x)). inum \<noteq> inum_of x ip \<longrightarrow> disk_inode (fs_sb x) (fs_view x') inum = disk_inode (fs_sb x) (fs_view x) inum) \<and>
     (\<forall>di. inode_ok (fs_sb x) (fs_view x) di \<and> disjoint_files (fs_view x) (di_of x ip) di \<longrightarrow>
        inode_ok (fs_sb x) (fs_view x') di \<and> disjoint_files (fs_view x') (di_of x' ip) di \<and> (\<forall>p < MAXFILE * BSIZE. fbyte (fs_view x') di p = fbyte (fs_view x) di p)))"

lemma addrs_only: "di'\<lparr>di_addrs := []\<rparr> = di\<lparr>di_addrs := []\<rparr> \<Longrightarrow> di_size di' = di_size di \<and> di_type di' = di_type di"
  by (metis dinode.select_convs(1,5) dinode.surjective dinode.update_convs(6))

text \<open>The state after the loop of a write, with the size already set.\<close>

lemma wrote_loop:
  assumes f: "file_ok pid x ip k n" and env: "fs_env x' = with_di ip di' (fs_env x)"
    and w: "written (fs_sb x) (fs_view x) (di_of x ip) off src (fs_view x') di" and di': "di' = di\<lparr>di_size := di_size di'\<rparr>"
    and sz: "unat (di_size di') = max (fsize x ip) (off + length src)"
  shows "wrote x ip off src x'"
proof -
  note E = env_with_di [OF env file_okD(4) [OF f]] and F = file_okD [OF f] and W = writtenD [OF w]
  have e: "ind di' = ind di" "baddr v di' = baddr v di" "blocks v di' = blocks v di" "fbyte v di' = fbyte v di" for v
    by (subst di', simp add: ind_def baddr_def blocks_def fbyte_def fblock_def fun_eq_iff)+
  have 1: "\<forall>inum < unat (sb_ninodes (fs_sb x)). inum \<noteq> inum_of x ip \<longrightarrow> disk_inode (fs_sb x) (fs_view x') inum = disk_inode (fs_sb x) (fs_view x) inum"
    using keeps_inodes [OF W(3) F(2) env_fields(1) [symmetric]] by blast
  have 2: "inode_ok (fs_sb x) (fs_view x') d \<and> disjoint_files (fs_view x') (di_of x' ip) d \<and> (\<forall>p < MAXFILE * BSIZE. fbyte (fs_view x') d p = fbyte (fs_view x) d p)"
    if "inode_ok (fs_sb x) (fs_view x) d" "disjoint_files (fs_view x) (di_of x ip) d" for d
    using disjoint_written [OF w that] unfolding E(2) disjoint_files_def e by blast
  have 3: "\<forall>p < MAXFILE * BSIZE. fbyte (fs_view x') (di_of x' ip) p = (if off \<le> p \<and> p < off + length src then src ! (p - off) else fbyte (fs_view x) (di_of x ip) p)"
    unfolding E(2) e(4) using W(2) by blast
  have 4: "fsize x' ip = max (fsize x ip) (off + length src)" unfolding fsize_def [of x'] E(2) sz ..
  have 5: "fs_env x' = with_di ip (di_of x' ip) (fs_env x)" unfolding E(2) by (rule env)
  have "di = (di_of x ip)\<lparr>di_addrs := di_addrs di\<rparr>" using W(7) by (metis dinode.surjective dinode.update_convs(6) dinode.select_convs(6))
  then have 6: "di_of x' ip = (di_of x ip)\<lparr>di_addrs := di_addrs (di_of x' ip), di_size := di_size (di_of x' ip)\<rparr>"
    unfolding E(2) using di' by (metis dinode.surjective dinode.update_convs(5,6) dinode.select_convs(5,6))
  show ?thesis unfolding wrote_def using 1 2 3 4 5 6 by blast
qed

lemma wrote_inode:
  assumes w: "wrote x ip off src x1" and f: "file_ok pid x1 ip k n" and i: "inum_of x ip < unat (sb_ninodes (fs_sb x))"
    and same: "fs_sb x1 = fs_sb x" "inum_of x1 ip = inum_of x ip" and env: "fs_env x2 = fs_env x1"
    and v: "fs_view x2 = (fs_view x1)(IBLOCK (inum_of x ip) (fs_sb x) := put_dinode (inum_of x ip mod IPB) (di_of x1 ip) (fs_view x1 (IBLOCK (inum_of x ip) (fs_sb x))))"
  shows "wrote x ip off src x2" "disk_inode (fs_sb x) (fs_view x2) (inum_of x ip) = di_of x2 ip"
proof -
  note F = file_okD [OF f, unfolded same] and E = env_same [OF env]
  define b d where "b = IBLOCK (inum_of x ip) (fs_sb x)" and "d = put_dinode (inum_of x ip mod IPB) (di_of x1 ip) (fs_view x1 b)"
  have v': "fs_view x2 = (fs_view x1)(b := d)" by (simp add: v b_def d_def)
  have di: "di_of x2 ip = di_of x1 ip" using E(2) by simp
  have bb: "b < unat (sb_bmapstart (fs_sb x))" using IBLOCK_bounds(1) [OF F(2), unfolded env_fields same, OF i] by (simp add: b_def)
  have m: "j mod IPB < IPB" for j by (simp add: IPB_def)
  have a: "length (di_addrs (di_of x1 ip)) = NDIRECT + 1" "length (fs_view x1 b) = BSIZE" by (rule inode_okD(1) [OF F(6)], rule F(9))
  note P = put_dinode_ok [OF m [of "inum_of x ip"] a(2,1), folded d_def]
  show "disk_inode (fs_sb x) (fs_view x2) (inum_of x ip) = di_of x2 ip" unfolding disk_inode_def b_def [symmetric] v' di using P(2) by simp
  note S = store_meta [where d = d and v = "fs_view x1", OF bb, folded v']
  have "disk_inode (fs_sb x) (fs_view x2) j = disk_inode (fs_sb x) (fs_view x1) j" if "j \<noteq> inum_of x ip" for j
  proof (cases "IBLOCK j (fs_sb x) = b")
    case True
    then have "j div 8 = inum_of x ip div 8" by (simp add: b_def IBLOCK_def IPB_def)
    then have "j mod IPB \<noteq> inum_of x ip mod IPB" using that unfolding IPB_def by (metis div_mult_mod_eq)
    then show ?thesis using P(3) [OF m] True by (simp add: disk_inode_def v')
  qed (simp add: disk_inode_def v')
  moreover have "inode_ok (fs_sb x) (fs_view x2) di \<and> disjoint_files (fs_view x2) (di_of x2 ip) di \<and> (\<forall>p < MAXFILE * BSIZE. fbyte (fs_view x2) di p = fbyte (fs_view x1) di p)"
    if "inode_ok (fs_sb x) (fs_view x1) di" "disjoint_files (fs_view x1) (di_of x1 ip) di" for di
    using that S(3-5) [OF that(1)] S(3) [OF F(6)] unfolding disjoint_files_def \<open>di_of x2 ip = di_of x1 ip\<close> by simp
  moreover have "\<forall>p < MAXFILE * BSIZE. fbyte (fs_view x2) (di_of x2 ip) p = fbyte (fs_view x1) (di_of x1 ip) p" using S(4) [OF F(6)] di by simp
  moreover have "fs_env x2 = with_di ip (di_of x1 ip) (fs_env x)" using w unfolding wrote_def env by blast
  ultimately show "wrote x ip off src x2" using w unfolding wrote_def fsize_def di by simp
qed

lemma no_holes_written:
  assumes "written sb v di off src v' di'" "no_holes v di e" "off \<le> e" "e \<le> MAXFILE * BSIZE"
  shows "no_holes v' di' (max e (off + length src))"
  unfolding no_holes_def
proof (intro allI impI)
  note W = writtenD [OF assms(1)]
  fix p assume p: "p < max e (off + length src)"
  show "baddr v' di' (p div BSIZE) \<noteq> 0"
  proof (cases "p < e")
    case True
    then have "p div BSIZE < MAXFILE" using assms(4) by (intro less_mult_imp_div_less) simp
    then show ?thesis using W(5) assms(2) True by (simp add: no_holes_def)
  next
    case False
    then show ?thesis using W(6) [of p] p assms(3) by simp
  qed
qed

lemma writei_ok:
  assumes f: "file_ok pid x ip (1 + 6 * span (unat off) (length src)) (2 * span (unat off) (length src))" and o: "open_file x ip"
    and off: "unat off \<le> fsize x ip" "unat off + length src \<le> MAXFILE * BSIZE"
  shows "\<exists>x'. writei devsw pid ip src off x = Some (int (length src), x') \<and> file_ok pid x' ip 0 0 \<and> open_file x' ip \<and> wrote x ip (unat off) src x'"
proof -
  define n :: u32 where "n = word_of_nat (length src)"
  define di where "di = di_of x ip"
  note F = file_okD [OF f]
  have O: "inum_of x ip < unat (sb_ninodes (fs_sb x))" "disk_inode (fs_sb x) (fs_view x) (inum_of x ip) = di" "no_holes (fs_view x) di (fsize x ip)"
      "fsize x ip \<le> MAXFILE * BSIZE" "di_type di \<noteq> T_DEV" using o by (simp_all add: open_file_def di_def)
  have un: "unat n = length src" using off(2) by (simp add: n_def max_size unsigned_of_nat take_bit_nat_eq_self)
  have uon: "unat (off + n) = unat off + length src" using off(2) un by (simp add: max_size unat_word_ariths)
  have g: "\<not> (di_size di < off \<or> off + n < off)" "\<not> word_of_nat (MAXFILE * BSIZE) < off + n"
    using off uon by (simp_all add: word_less_nat_alt fsize_def di_def max_size)
  have f': "file_ok pid x ip (1 + 6 * span (unat off) (length src)) (0 + 2 * span (unat off) (length src))" using f by simp
  from file_write_loop_ok [OF f' off(2)] obtain x1 d1 where 1: "write_loop pid ip (unat off) src x = Some x1" "file_ok pid x1 ip 1 0"
    "fs_env x1 = with_di ip d1 (fs_env x)" "written (fs_sb x) (fs_view x) di (unat off) src (fs_view x1) d1" unfolding di_def by (elim exE conjE)
  note E1 = env_with_di [OF 1(3) F(4)] and W = writtenD [OF 1(4)]
  have sz1: "di_size d1 = di_size di" "di_type d1 = di_type di" using addrs_only [OF W(7)] by simp_all
  have nh: "no_holes (fs_view x1) d1 (max (fsize x ip) (unat off + length src))" by (rule no_holes_written [OF 1(4) O(3) off(1) O(4)])
  have wi: "writei devsw pid ip src off x = do {
       x \<leftarrow> (if 0 < n \<and> di_size d1 < off + n then iupdate pid ip (upd_di ip (\<lambda>d. d\<lparr>di_size := off + n\<rparr>) x1) else Some x1); Some (int (length src), x) }"
    unfolding writei_def Let_def di_def [symmetric] n_def [symmetric] if_not_P [OF O(5)] if_not_P [OF g(1)] if_not_P [OF g(2)]
    using 1(1) E1(2) un by simp
  show ?thesis
  proof (cases "0 < n \<and> di_size d1 < off + n")
    case False
    have n0: "length src = 0 \<or> unat off + length src \<le> fsize x ip"
      using False uon un unfolding sz1 by (auto simp: word_less_nat_alt fsize_def di_def not_less)
    then have m: "max (fsize x ip) (unat off + length src) = fsize x ip" using off(1) by auto
    have d: "d1 = di" using n0 O(3) by (intro W(8)) (auto simp: no_holes_def)
    have "wrote x ip (unat off) src x1"
      by (rule wrote_loop [OF f 1(3) 1(4) [unfolded di_def]]) (simp_all add: sz1 m, simp add: fsize_def di_def)
    moreover have "open_file x1 ip" unfolding open_file_def E1 fsize_def d
      using O nh [unfolded m d] keeps_inodes [OF W(3) F(2) env_fields(1) [symmetric] O(1)] by (simp add: fsize_def di_def)
    ultimately show ?thesis unfolding wi using False file_ok_less [OF 1(2)] by auto
  next
    case True
    define d2 where "d2 = d1\<lparr>di_size := off + n\<rparr>"
    define x2 where "x2 = upd_di ip (\<lambda>d. d\<lparr>di_size := off + n\<rparr>) x1"
    have v2: "fs_view x2 = fs_view x1" "fs_env x2 = with_di ip d2 (fs_env x)" "fs_sb x2 = fs_sb x" by (simp_all add: x2_def d2_def 1(3) E1(1,2))
    note E2 = env_with_di [OF v2(2) F(4)]
    have e: "ind d2 = ind d1" "baddr v d2 = baddr v d1" "blocks v d2 = blocks v d1" for v
      by (simp_all add: d2_def ind_def baddr_def blocks_def fun_eq_iff)
    have ik: "inode_ok sb v d2 = inode_ok sb v d1" for sb v unfolding inode_ok_def e by (simp add: d2_def)
    have f2: "file_ok pid x2 ip (Suc 0) 0"
      unfolding file_ok_def E2 v2 using file_okD [OF 1(2)] F(2,4,5) by (simp add: x2_def E1 ik)
    have i2: "unat (i_inum (inode_at x2 ip)) < unat (sb_ninodes (fs_sb x2))" using O(1) by (simp only: E2 v2)
    from iupdate_ok [OF f2 i2] obtain x3 where 3: "iupdate pid ip x2 = Some x3" "file_ok pid x3 ip 0 0" "fs_env x3 = with_di ip d2 (fs_env x)"
      "fs_view x3 = (fs_view x1)(IBLOCK (inum_of x ip) (fs_sb x) := put_dinode (inum_of x ip mod IPB) d2 (fs_view x1 (IBLOCK (inum_of x ip) (fs_sb x))))"
      unfolding E2 v2 by (elim exE conjE)
    note E3 = env_with_di [OF 3(3) F(4)] and B = IBLOCK_bounds(1) [OF F(2), unfolded env_fields, OF O(1)]
    have "\<not> unat off + length src \<le> fsize x ip" using True uon unfolding sz1 by (simp add: word_less_nat_alt fsize_def di_def)
    then have m: "max (fsize x ip) (unat off + length src) = unat off + length src" by simp
    have w2: "wrote x ip (unat off) src x2"
      by (rule wrote_loop [OF f v2(2) 1(4) [unfolded di_def, folded v2(1)]]) (simp_all add: d2_def uon m)
    note R = wrote_inode [OF w2 f2 O(1) v2(3) _ _ 3(4) [folded v2(1), folded E2(2)]]
    have R: "wrote x ip (unat off) src x3" "disk_inode (fs_sb x) (fs_view x3) (inum_of x ip) = d2" using R E2(5) 3(3) v2(2) E3(2) by simp_all
    have "no_holes (fs_view x3) d2 (unat off + length src)"
      using nh store_meta(2) [OF B W(1)] unfolding m no_holes_def e 3(4) by simp
    then have "open_file x3 ip" unfolding open_file_def E3 fsize_def using O(1,5) R(2) off(2) uon sz1 by (simp add: d2_def)
    then show ?thesis unfolding wi using True 3(1,2) R(1) by (simp add: x2_def)
  qed
qed

section \<open>Reading\<close>

lemma readi_ok:
  assumes f: "file_ok pid x ip k n" and o: "open_file x ip" and w: "unat off + unat len < 2 ^ 32"
  shows "if fsize x ip < unat off then readi devsw pid ip off len x = Some (-1, [], x)
    else \<exists>x'. readi devsw pid ip off len x = Some (int (min (unat len) (fsize x ip - unat off)),
        map (fbyte (fs_view x) (di_of x ip)) [unat off..<unat off + min (unat len) (fsize x ip - unat off)], x') \<and>
      file_ok pid x' ip k n \<and> open_file x' ip \<and> fs_view x' = fs_view x \<and> fs_env x' = fs_env x"
proof -
  define di where "di = di_of x ip"
  note F = file_okD [OF f]
  have O: "no_holes (fs_view x) (di_of x ip) (fsize x ip)" "fsize x ip \<le> MAXFILE * BSIZE" "di_type di \<noteq> T_DEV" using o by (simp_all add: open_file_def di_def)
  have uon: "unat (off + len) = unat off + unat len" using w by (simp add: unat_word_ariths)
  have nw: "\<not> off + len < off" using uon by (simp add: word_less_nat_alt)
  have lt: "di_size di < off \<longleftrightarrow> fsize x ip < unat off" by (simp add: word_less_nat_alt fsize_def di_def)
  show ?thesis
  proof (cases "fsize x ip < unat off")
    case True
    then show ?thesis unfolding readi_def Let_def di_def [symmetric] if_not_P [OF O(3)] using lt by simp
  next
    case False
    define m where "m = min (unat len) (fsize x ip - unat off)"
    have um: "unat (if di_size di < off + len then di_size di - off else len) = m"
    proof (cases "di_size di < off + len")
      case True
      have "unat (di_size di - off) = fsize x ip - unat off" using lt False by (subst unat_sub) (simp_all add: fsize_def di_def word_le_nat_alt)
      moreover have "fsize x ip - unat off \<le> unat len" using True uon by (simp add: word_less_nat_alt fsize_def di_def)
      ultimately show ?thesis using True by (simp add: m_def)
    next
      case False
      then have "unat len \<le> fsize x ip - unat off" using uon \<open>\<not> fsize x ip < unat off\<close> by (simp add: word_less_nat_alt fsize_def di_def)
      then show ?thesis using False by (simp add: m_def)
    qed
    have om: "unat off + m \<le> fsize x ip" using False by (simp add: m_def)
    then have nh: "no_holes (fs_view x) (di_of x ip) (unat off + m)" "unat off + m \<le> MAXFILE * BSIZE" using O(1,2) by (auto simp: no_holes_def)
    from read_loop_ok [OF F(1,2,5,6) nh(2,1)] obtain x' where x': "read_loop pid ip (unat off) m x = Some (map (fbyte (fs_view x) (di_of x ip)) [unat off..<unat off + m], x')"
      "fs_ok pid x' {} k" "fs_view x' = fs_view x" "fs_env x' = fs_env x" by (elim exE conjE)
    have r: "readi devsw pid ip off len x = Some (int m, map (fbyte (fs_view x) (di_of x ip)) [unat off..<unat off + m], x')"
      unfolding readi_def Let_def di_def [symmetric] if_not_P [OF O(3)] um using x'(1) lt False nw by (simp add: di_def)
    have "file_ok pid x' ip k n" "open_file x' ip"
      using f o x' env_same [OF x'(4)] by (simp_all add: file_ok_def open_file_def fsize_def)
    then show ?thesis using r x'(3,4) False unfolding m_def [symmetric] by simp
  qed
qed

section \<open>A small file system\<close>

text \<open>A disk of 100 blocks: the log in blocks 2 to 31, eight inodes in block 32, the bitmap in block 33; inode 1 is empty, of a given type.\<close>

definition tiny_sb :: superblock where
  "tiny_sb = \<lparr>sb_size = 100, sb_nblocks = 66, sb_ninodes = 8, sb_nlog = 30, sb_logstart = 2, sb_inodestart = 32, sb_bmapstart = 33\<rparr>"

definition tiny_inode :: "u16 \<Rightarrow> dinode" where
  "tiny_inode ty = zero_dinode ty"

definition tiny_disk :: "u16 \<Rightarrow> nat \<Rightarrow> block" where
  "tiny_disk ty b = (if b = 32 then put_dinode 1 (tiny_inode ty) (replicate BSIZE 0)
     else if b = 33 then replicate 4 255 @ [3] @ replicate 507 0 else replicate BSIZE 0)"

definition tiny_fs :: "u16 \<Rightarrow> fsys" where
  "tiny_fs ty = \<lparr>fs_log = zero_log\<lparr>lg_start := 2, lg_size := 30, lg_outstanding := 1\<rparr>, fs_bc = boot_cache (tiny_disk ty) 100, fs_sb = tiny_sb, fs_iclock = False,
     fs_inode = replicate NINODE \<lparr>i_dev = 1, i_inum = 1, i_ref = 1, i_lock = \<lparr>sl_locked = True, sl_pid = 7\<rparr>, i_valid = True, i_d = tiny_inode ty\<rparr>\<rparr>"

lemma tiny_addrs: "length (di_addrs (tiny_inode ty)) = NDIRECT + 1" "n < NDIRECT + 1 \<Longrightarrow> di_addrs (tiny_inode ty) ! n = 0"
  by (simp_all add: tiny_inode_def zero_dinode_def del: replicate_Suc)

lemma tiny_dinode: "length (tiny_disk ty b) = BSIZE" "get_dinode (tiny_disk ty 32) 1 = tiny_inode ty"
  using put_dinode_ok(1,2) [of 1 "replicate BSIZE 0" "tiny_inode ty"] tiny_addrs(1) by (simp_all add: tiny_disk_def IPB_def BSIZE_def)

lemma tiny_used: "b < 4096 \<Longrightarrow> used tiny_sb (tiny_disk ty) b = bit ((replicate 4 255 @ [3] @ replicate 507 0 :: block) ! (b div 8)) (b mod 8)"
  by (simp add: used_def tiny_sb_def tiny_disk_def BBLOCK_def BPB_def)

lemma tiny_meta: "meta_used tiny_sb (tiny_disk ty)"
  unfolding meta_used_def
proof (intro allI impI)
  fix b assume "b < data_start tiny_sb"
  then have "b < 34" by (simp add: data_start_def tiny_sb_def)
  then consider "b < 32" | "b = 32" | "b = 33" by linarith
  then show "used tiny_sb (tiny_disk ty) b"
  proof cases
    case 1
    then have "b div 8 < 4" by linarith
    moreover have "bit (255 :: u8) (b mod 8)"
    proof -
      have e: "(255 :: u8) = mask 8" by (simp add: mask_eq_exp_minus_1)
      show ?thesis unfolding e by (subst bit_mask_iff) simp
    qed
    ultimately show ?thesis using 1 by (simp add: tiny_used nth_append)
  qed (simp_all add: tiny_used bit_iff_odd_drop_bit nth_append)
qed

lemma tiny_free: "4 \<le> nfree tiny_sb (tiny_disk ty)"
proof -
  have "\<not> used tiny_sb (tiny_disk ty) b" if "b \<in> {40..<44}" for b
  proof -
    have "b div 8 = 5" using that by auto
    then show ?thesis using that by (simp add: tiny_used nth_append)
  qed
  then have "{40..<44} \<subseteq> {c. c < unat (sb_size tiny_sb) \<and> \<not> used tiny_sb (tiny_disk ty) c}" by (auto simp: tiny_sb_def)
  from card_mono [OF _ this] show ?thesis by (simp add: nfree_def)
qed

lemma tiny_view: "fs_view (tiny_fs ty) = tiny_disk ty"
  using arg_cong [OF boot_abs [of "tiny_disk ty" 100], of c_view] by (simp add: fs_view_def tiny_fs_def abs_parts)

lemma tiny_open: "file_ok 7 (tiny_fs ty) 0 7 2" "ty \<noteq> T_DEV \<Longrightarrow> open_file (tiny_fs ty) 0" "fsize (tiny_fs ty) 0 = 0"
proof -
  have i0: "i_d (fs_inode (tiny_fs ty) ! 0) = tiny_inode ty" "i_dev (fs_inode (tiny_fs ty) ! 0) = 1" "i_inum (fs_inode (tiny_fs ty) ! 0) = 1" "fs_sb (tiny_fs ty) = tiny_sb"
    by (simp_all add: tiny_fs_def NINODE_def)
  have z: "ind (tiny_inode ty) = 0" "n < MAXFILE \<Longrightarrow> baddr v (tiny_inode ty) n = 0" for v n using tiny_addrs(2) by (simp_all add: ind_def baddr_def)
  then have bl: "blocks v (tiny_inode ty) = {}" for v by (auto simp: blocks_def)
  have ik: "inode_ok tiny_sb (tiny_disk ty) (tiny_inode ty)" using z tiny_addrs(1) by (simp add: inode_ok_def bl data_start_def tiny_sb_def)
  have "bc_busy 7 (fs_bc (tiny_fs ty)) {}" using boot_busy tiny_dinode(1) by (simp add: tiny_fs_def)
  moreover have "log_wf (fs_log (tiny_fs ty)) (bc_abs (fs_bc (tiny_fs ty)))"
    by (simp add: tiny_fs_def boot_abs log_wf_def zero_log_def LOGSIZE_def NBUF_def)
  ultimately have "fs_ok 7 (tiny_fs ty) {} 7" by (intro fs_okI) (simp_all add: tiny_fs_def zero_log_def LOGSIZE_def)
  moreover have "layout_ok (fs_env (tiny_fs ty))" by (simp add: layout_ok_def fs_env_def tiny_fs_def tiny_sb_def data_start_def zero_log_def)
  ultimately show "file_ok 7 (tiny_fs ty) 0 7 2"
    unfolding file_ok_def i0 tiny_view using tiny_meta tiny_free [of ty] ik by (simp add: tiny_fs_def NINODE_def)
  show s: "fsize (tiny_fs ty) 0 = 0" unfolding fsize_def i0 by (simp add: tiny_inode_def zero_dinode_def)
  show "open_file (tiny_fs ty) 0" if "ty \<noteq> T_DEV" unfolding open_file_def s i0 tiny_view
    using that tiny_dinode(2) by (simp add: disk_inode_def IBLOCK_def IPB_def tiny_sb_def no_holes_def) (simp add: tiny_inode_def zero_dinode_def)
qed

lemma tiny_span: "span (unat (0 :: u32)) (length [1, 2, 3 :: u8]) = 1"
  by (simp add: span_def BSIZE_def)

text \<open>The same disk with an empty file and with an empty directory.\<close>

lemma tiny_file: "open_file (tiny_fs 2) 0"
  by (rule tiny_open(2)) (simp add: T_DEV_def)

section \<open>Properties\<close>

text \<open>C1. A write to an open file writes exactly its bytes. Within the largest file size, from an offset in the file or at its end, and
  with room in the log and on the disk, \<^verbatim>\<open>writei\<close> returns the number of bytes; the bytes at the offset are then those
  of the source and all others of the file are what they were, the size is the old one or the end of the write, and the inode on disk is
  again the one in memory. Every other file that shared no block with this one has the same
  contents and still shares none, and every other inode on disk is the same.\<close>

theorem writei_writes:
  assumes "file_ok pid x ip (1 + 6 * span (unat off) (length src)) (2 * span (unat off) (length src))" "open_file x ip"
    "unat off \<le> fsize x ip" "unat off + length src \<le> MAXFILE * BSIZE"
  shows "\<exists>x'. writei devsw pid ip src off x = Some (int (length src), x') \<and> file_ok pid x' ip 0 0 \<and> open_file x' ip \<and> wrote x ip (unat off) src x'"
  using assms by (rule writei_ok)

theorem writei_writes_witness:
  "\<exists>x'. writei (\<lambda>_. None) 7 0 [1, 2, 3] 0 (tiny_fs 2) = Some (3, x') \<and> fsize x' 0 = 3 \<and> fbyte (fs_view x') (di_of x' 0) 2 = 3 \<and>
     disk_inode (fs_sb x') (fs_view x') 1 = di_of x' 0"
proof -
  have f: "file_ok 7 (tiny_fs 2) 0 (1 + 6 * span (unat (0 :: u32)) (length [1, 2, 3 :: u8])) (2 * span (unat (0 :: u32)) (length [1, 2, 3 :: u8]))"
    using tiny_open(1) unfolding tiny_span by simp
  have "unat (0 :: u32) \<le> fsize (tiny_fs 2) 0" "unat (0 :: u32) + length [1, 2, 3 :: u8] \<le> MAXFILE * BSIZE" by (simp_all add: max_size)
  from writei_writes [OF f tiny_file this, of "\<lambda>_. None"] obtain x' where x': "writei (\<lambda>_. None) 7 0 [1, 2, 3] 0 (tiny_fs 2) = Some (int (length [1, 2, 3 :: u8]), x')"
    "open_file x' 0" "wrote (tiny_fs 2) 0 (unat (0 :: u32)) [1, 2, 3] x'" by blast
  have "fsize x' 0 = 3" "fbyte (fs_view x') (di_of x' 0) 2 = 3" using x'(3) unfolding wrote_def tiny_open(3) by (simp_all add: max_size)
  moreover have "0 < length (fs_inode (tiny_fs 2))" "inum_of (tiny_fs 2) 0 = 1" by (simp_all add: tiny_fs_def NINODE_def)
  then have "inum_of x' 0 = 1" using env_with_di(5) [of x' 0 _ "tiny_fs 2"] x'(3) unfolding wrote_def by auto
  then have "disk_inode (fs_sb x') (fs_view x') 1 = di_of x' 0" using x'(2) by (simp add: open_file_def)
  ultimately show ?thesis using x'(1) by simp
qed

text \<open>C29. A read of an open file returns its bytes: from an offset behind the end \<^verbatim>\<open>readi\<close> returns \<open>-1\<close>; else it returns the
  bytes from the offset up to the wanted number or the end of the file, and neither the file nor any block changes.\<close>

theorem readi_reads:
  assumes "file_ok pid x ip k n" "open_file x ip" "unat off + unat len < 2 ^ 32"
  shows "if fsize x ip < unat off then readi devsw pid ip off len x = Some (-1, [], x)
    else \<exists>x'. readi devsw pid ip off len x = Some (int (min (unat len) (fsize x ip - unat off)),
        map (fbyte (fs_view x) (di_of x ip)) [unat off..<unat off + min (unat len) (fsize x ip - unat off)], x') \<and>
      file_ok pid x' ip k n \<and> open_file x' ip \<and> fs_view x' = fs_view x \<and> fs_env x' = fs_env x"
  using assms by (rule readi_ok)

theorem readi_reads_witness:
  "readi (\<lambda>_. None) 7 0 1 10 (tiny_fs 2) = Some (-1, [], (tiny_fs 2)) \<and> (\<exists>x'. readi (\<lambda>_. None) 7 0 0 10 (tiny_fs 2) = Some (0, [], x'))"
  using readi_reads [OF tiny_open(1) tiny_file, of 1 10 "\<lambda>_. None"] readi_reads [OF tiny_open(1) tiny_file, of 0 10 "\<lambda>_. None"] tiny_open(3) by auto

text \<open>C2. What has been written is read back: after a write to an open file, a read of the same range returns the bytes that were written.\<close>

theorem read_after_write:
  assumes f: "file_ok pid x ip (1 + 6 * span (unat off) (length src)) (2 * span (unat off) (length src))" and o: "open_file x ip"
    and off: "unat off \<le> fsize x ip" "unat off + length src \<le> MAXFILE * BSIZE"
  shows "\<exists>x1 x2. writei wsw pid ip src off x = Some (int (length src), x1) \<and>
    readi rsw pid ip off (word_of_nat (length src)) x1 = Some (int (length src), src, x2)"
proof -
  from writei_ok [OF assms] obtain x1 where 1: "writei wsw pid ip src off x = Some (int (length src), x1)" "file_ok pid x1 ip 0 0" "open_file x1 ip"
    "wrote x ip (unat off) src x1" by blast
  have un: "unat (word_of_nat (length src) :: u32) = length src" using off(2) by (simp add: max_size unsigned_of_nat take_bit_nat_eq_self)
  have w: "unat off + unat (word_of_nat (length src) :: u32) < 2 ^ 32" using off(2) by (simp add: un max_size)
  have sz: "fsize x1 ip = max (fsize x ip) (unat off + length src)" using 1(4) by (simp add: wrote_def)
  then have m: "\<not> fsize x1 ip < unat off" "min (length src) (fsize x1 ip - unat off) = length src" by simp_all
  have "map (fbyte (fs_view x1) (di_of x1 ip)) [unat off..<unat off + length src] = src"
    using 1(4) off(2) by (intro nth_equalityI) (simp_all add: wrote_def)
  then show ?thesis using 1(1) readi_ok [OF 1(2,3) w, of rsw] m unfolding un by auto
qed


theorem read_after_write_witness:
  "\<exists>x1 x2. writei (\<lambda>_. None) 7 0 [1, 2, 3] 0 (tiny_fs 2) = Some (3, x1) \<and> readi (\<lambda>_. None) 7 0 0 3 x1 = Some (3, [1, 2, 3], x2)"
proof -
  have f: "file_ok 7 (tiny_fs 2) 0 (1 + 6 * span (unat (0 :: u32)) (length [1, 2, 3 :: u8])) (2 * span (unat (0 :: u32)) (length [1, 2, 3 :: u8]))"
    using tiny_open(1) unfolding tiny_span by simp
  have "unat (0 :: u32) \<le> fsize (tiny_fs 2) 0" "unat (0 :: u32) + length [1, 2, 3 :: u8] \<le> MAXFILE * BSIZE" by (simp_all add: max_size)
  from read_after_write [OF f tiny_file this, of "\<lambda>_. None" "\<lambda>_. None"] show ?thesis by simp
qed

end
