(* ===== verification/Fs_Dir.thy ===== *)
theory Fs_Dir
  imports Fs_Props
begin

text \<open>
  Directories and paths (\<^verbatim>\<open>dirlookup\<close>, \<^verbatim>\<open>dirlink\<close>, \<^verbatim>\<open>skipelem\<close> of \<^verbatim>\<open>CS_537_P5/fs.c\<close>): a directory is a finite map from names to inode numbers, kept as
  a file of entries of 16 bytes, and a path is a list of names.
\<close>

section \<open>Names\<close>

text \<open>The name that a buffer or a string holds: at most \<^const>\<open>DIRSIZ\<close> bytes, up to the first NUL.\<close>

definition cname :: "u8 list \<Rightarrow> u8 list" where
  "cname s = takeWhile (\<lambda>c. c \<noteq> 0) (take DIRSIZ s)"

lemma strncmp_zero: "strncmp m p q n = 0 \<longleftrightarrow> takeWhile (\<lambda>c. c \<noteq> 0) (mem_bytes m p n) = takeWhile (\<lambda>c. c \<noteq> 0) (mem_bytes m q n)"
proof (induction n arbitrary: p q)
  case 0
  then show ?case by (simp add: mem_bytes_def)
next
  case (Suc n)
  have "uint (m p) - uint (m q) = 0 \<longleftrightarrow> m p = m q" by (simp add: word_uint_eq_iff)
  then show ?case using Suc [of "p + 1" "q + 1"] by (auto simp: mem_bytes_Suc)
qed

lemma takeWhile_zeros: "takeWhile (\<lambda>c. c \<noteq> 0) (xs @ replicate k 0) = takeWhile (\<lambda>c. c \<noteq> (0 :: u8)) xs"
  by (induction xs) (auto simp: takeWhile_replicate)

lemma nth0_bytes: "map (nth0 s) [0..<n] = take n s @ replicate (n - length s) 0"
  by (rule nth_equalityI) (auto simp: nth0_def nth_append)

lemma two_names_bytes:
  "mem_bytes (two_names s t) 0 DIRSIZ = take DIRSIZ s @ replicate (DIRSIZ - length s) 0"
  "mem_bytes (two_names s t) DIRSIZ DIRSIZ = take DIRSIZ t @ replicate (DIRSIZ - length t) 0"
  unfolding nth0_bytes [symmetric] mem_bytes_def by (simp_all add: two_names_def)

text \<open>Names are compared as strings of at most \<^const>\<open>DIRSIZ\<close> bytes.\<close>

lemma namecmp_eq: "namecmp s t = 0 \<longleftrightarrow> cname s = cname t"
  by (simp add: namecmp_def strncmp_zero two_names_bytes takeWhile_zeros cname_def)

lemma zero_fill_eq: "zero_fill m a n = memset_m m a 0 n"
proof (induction n arbitrary: m a)
  case (Suc n)
  show ?case unfolding zero_fill.simps Suc by (auto simp: memset_m_def fun_eq_iff)
qed simp

lemma strncpy_loop_bytes:
  assumes "d + n \<le> t \<or> t + n \<le> d"
  shows "mem_bytes (strncpy_loop m d t n) d n = takeWhile (\<lambda>c. c \<noteq> 0) (mem_bytes m t n) @
      replicate (n - length (takeWhile (\<lambda>c. c \<noteq> 0) (mem_bytes m t n))) 0 \<and> (\<forall>b. b < d \<longrightarrow> strncpy_loop m d t n b = m b)"
  using assms
proof (induction n arbitrary: m d t)
  case 0
  then show ?case by (simp add: mem_bytes_def)
next
  case (Suc n)
  define m' where "m' = m(d := m t)"
  have src: "mem_bytes m' (t + 1) n = mem_bytes m (t + 1) n" using Suc.prems by (intro mem_bytes_cong) (auto simp: m'_def)
  have dis: "d + 1 + n \<le> t + 1 \<or> t + 1 + n \<le> d + 1" using Suc.prems by auto
  show ?case
  proof (cases "m t = 0")
    case True
    have "mem_bytes (memset_m m' (d + 1) 0 n) (d + 1) n = replicate n 0"
      by (rule nth_equalityI) (simp_all add: memset_m_def)
    then show ?thesis using True by (simp add: Let_def m'_def [symmetric] zero_fill_eq mem_bytes_Suc) (simp add: memset_m_def m'_def)
  next
    case False
    note IH = Suc.IH [of "d + 1" "t + 1" m', OF dis, unfolded src]
    have k: "strncpy_loop m' (d + 1) (t + 1) n b = m' b" if "b < d + 1" for b using conjunct2 [OF IH] that by blast
    have "m' d = m t" "\<forall>b. b < d \<longrightarrow> m' b = m b" by (simp_all add: m'_def)
    moreover have "strncpy_loop m d t (Suc n) = strncpy_loop m' (d + 1) (t + 1) n" using False by (simp add: Let_def m'_def)
    ultimately show ?thesis using False conjunct1 [OF IH] k by (simp add: mem_bytes_Suc del: strncpy_loop.simps)
  qed
qed

lemma new_name_ok: "length (new_name name) = DIRSIZ" "cname (new_name name) = cname name"
proof -
  let ?w = "takeWhile (\<lambda>c. c \<noteq> 0) (mem_bytes (two_names [] name) DIRSIZ DIRSIZ)"
  have e: "new_name name = ?w @ replicate (DIRSIZ - length ?w) 0"
    using strncpy_loop_bytes [of 0 DIRSIZ DIRSIZ "two_names [] name"] by (simp add: new_name_def strncpy_def)
  have w: "?w = cname name" by (simp add: two_names_bytes takeWhile_zeros cname_def)
  show "length (new_name name) = DIRSIZ" by (simp add: new_name_def)
  have "length (cname name) \<le> DIRSIZ" using length_takeWhile_le [of "\<lambda>c. c \<noteq> 0" "take DIRSIZ name"] by (simp add: cname_def)
  then have t: "take DIRSIZ (cname name @ replicate (DIRSIZ - length (cname name)) 0) = cname name @ replicate (DIRSIZ - length (cname name)) 0" by simp
  have "takeWhile (\<lambda>c. c \<noteq> 0) (cname name) = cname name" unfolding cname_def takeWhile_eq_all_conv by (auto dest: set_takeWhileD)
  then show "cname (new_name name) = cname name" 
    using cname_def [of "new_name name"] unfolding e w t takeWhile_zeros by (rule trans [rotated])
qed

section \<open>Directories as maps\<close>

definition dentry :: "(nat \<Rightarrow> block) \<Rightarrow> dinode \<Rightarrow> nat \<Rightarrow> dirent" where
  "dentry v di j = get_dirent (map (fbyte v di) [16 * j..<16 * j + 16])"

definition dir_entries :: "fsys \<Rightarrow> nat \<Rightarrow> dirent list" where
  "dir_entries x dp = map (dentry (fs_view x) (di_of x dp)) [0..<fsize x dp div 16]"

text \<open>The inode number a name stands for: that of the first entry in use with that name.\<close>

definition named :: "u8 list \<Rightarrow> dirent \<Rightarrow> bool" where
  "named name e = (de_inum e \<noteq> 0 \<and> cname name = cname (de_name e))"

definition dir_map :: "dirent list \<Rightarrow> u8 list \<Rightarrow> u16 option" where
  "dir_map es name = map_option de_inum (List.find (named name) es)"

definition open_dir :: "fsys \<Rightarrow> nat \<Rightarrow> bool" where
  "open_dir x dp = (open_file x dp \<and> di_type (di_of x dp) = T_DIR \<and> fsize x dp mod 16 = 0)"

lemma dir_same: "fs_view x' = fs_view x \<Longrightarrow> fs_env x' = fs_env x \<Longrightarrow> dir_entries x' dp = dir_entries x dp \<and> fsize x' dp = fsize x dp \<and> open_dir x' dp = open_dir x dp"
  using env_same [of x' x] by (simp add: dir_entries_def fsize_def open_dir_def open_file_def)

lemma unat_word32: "n < 2 ^ 32 \<Longrightarrow> unat (word_of_nat n :: u32) = n"
  by (simp add: unsigned_of_nat take_bit_nat_eq_self)

text \<open>Reading one entry.\<close>

lemma read_entry:
  assumes f: "file_ok pid x dp k n" and o: "open_dir x dp" and j: "j < fsize x dp div 16"
  shows "\<exists>x'. readi devsw pid dp (word_of_nat (16 * j)) 16 x = Some (16, map (fbyte (fs_view x) (di_of x dp)) [16 * j..<16 * j + 16], x') \<and>
    file_ok pid x' dp k n \<and> fs_view x' = fs_view x \<and> fs_env x' = fs_env x"
proof -
  have fo: "open_file x dp" "fsize x dp mod 16 = 0" using o unfolding open_dir_def by blast+
  then have sz: "fsize x dp \<le> 71680" unfolding open_file_def max_size by blast
  obtain c where c: "fsize x dp = 16 * c" using fo(2) by auto
  have jl: "16 * j + 16 \<le> fsize x dp" using j c by simp
  have u: "unat (word_of_nat (16 * j) :: u32) = 16 * j" using jl sz by (intro unat_word32) simp
  have "unat (word_of_nat (16 * j) :: u32) + unat (16 :: u32) < 2 ^ 32" using jl sz unfolding u by simp
  from readi_ok [OF f fo(1) this, of devsw, unfolded u] jl show ?thesis by (auto simp: min_def)
qed

lemma dirlookup_loop_ok:
  assumes "file_ok pid x dp k n" "open_dir x dp" "j \<le> fsize x dp div 16"
  shows "\<exists>x' off. dirlookup_loop devsw pid dp name (16 * j) (fsize x dp) x =
      (case List.find (named name) (drop j (dir_entries x dp)) of None \<Rightarrow> Some (None, x')
       | Some e \<Rightarrow> do { (ip, y) \<leftarrow> iget 1 (ucast (de_inum e)) x'; Some (Some (ip, off), y) }) \<and>
    file_ok pid x' dp k n \<and> fs_view x' = fs_view x \<and> fs_env x' = fs_env x"
  using assms
proof (induction "fsize x dp div 16 - j" arbitrary: j x)
  case 0
  have l: "length (dir_entries x dp) = fsize x dp div 16" by (simp add: dir_entries_def)
  have "j = fsize x dp div 16" "fsize x dp mod 16 = 0" using 0 by (simp_all add: open_dir_def)
  then have "\<not> 16 * j < fsize x dp" by auto
  then show ?case using 0 l by (intro exI [of _ x] exI [of _ 0]) (simp add: dirlookup_loop.simps)
next
  case (Suc d)
  have j: "j < fsize x dp div 16" using Suc.hyps(2) by simp
  then have lt: "16 * j < fsize x dp" by linarith
  define e where "e = dentry (fs_view x) (di_of x dp) j"
  have dr: "drop j (dir_entries x dp) = e # drop (Suc j) (dir_entries x dp)"
    using j Cons_nth_drop_Suc [of j "dir_entries x dp", symmetric] by (simp add: dir_entries_def e_def)
  from read_entry [OF Suc.prems(1,2) j, of devsw] obtain x1 where 1: "readi devsw pid dp (word_of_nat (16 * j)) 16 x =
      Some (16, map (fbyte (fs_view x) (di_of x dp)) [16 * j..<16 * j + 16], x1)" "file_ok pid x1 dp k n" "fs_view x1 = fs_view x" "fs_env x1 = fs_env x"
    by (elim exE conjE)
  note E = env_same [OF 1(4)] and S = dir_same [OF 1(3,4), of dp]
  have dev: "i_dev (inode_at x1 dp) = 1" using file_okD(5) [OF 1(2)] .
  show ?case
  proof (cases "named name e")
    case True
    then have "dirlookup_loop devsw pid dp name (16 * j) (fsize x dp) x = do { (ip, y) \<leftarrow> iget 1 (ucast (de_inum e)) x1; Some (Some (ip, 16 * j), y) }"
      using lt 1(1) dev by (subst dirlookup_loop.simps) (simp add: e_def dentry_def named_def namecmp_eq Let_def)
    then show ?thesis unfolding dr using True 1(2-4) by (intro exI [of _ x1] exI [of _ "16 * j"]) simp
  next
    case False
    then have st: "dirlookup_loop devsw pid dp name (16 * j) (fsize x dp) x = dirlookup_loop devsw pid dp name (16 * Suc j) (fsize x dp) x1"
      using lt 1(1) by (subst dirlookup_loop.simps) (auto simp: e_def dentry_def named_def namecmp_eq Let_def add.commute)
    have "d = fsize x1 dp div 16 - Suc j" "Suc j \<le> fsize x1 dp div 16" "open_dir x1 dp" using Suc.hyps(2) j S Suc.prems(2) by simp_all
    from Suc.hyps(1) [OF this(1) 1(2) this(3,2)] show ?thesis unfolding st dr using S False 1(3,4) by simp
  qed
qed

lemma dirlookup_ok:
  assumes "file_ok pid x dp k n" "open_dir x dp"
  shows "\<exists>x' off. dirlookup devsw pid dp name x =
      (case dir_map (dir_entries x dp) name of None \<Rightarrow> Some (None, x')
       | Some inum \<Rightarrow> do { (ip, y) \<leftarrow> iget 1 (ucast inum) x'; Some (Some (ip, off), y) }) \<and>
    file_ok pid x' dp k n \<and> fs_view x' = fs_view x \<and> fs_env x' = fs_env x"
proof -
  have "dirlookup devsw pid dp name x = dirlookup_loop devsw pid dp name (16 * 0) (fsize x dp) x" using assms(2) by (simp add: dirlookup_def open_dir_def fsize_def)
  then show ?thesis using dirlookup_loop_ok [OF assms, of 0 devsw name] unfolding dir_map_def
    by (cases "List.find (named name) (dir_entries x dp)") simp_all
qed

text \<open>The first empty entry.\<close>

lemma empty_entry_ok:
  assumes "file_ok pid x dp k n" "open_dir x dp" "j \<le> fsize x dp div 16"
  shows "\<exists>x' i. empty_entry devsw pid dp (16 * j) (fsize x dp) x = Some (16 * i, x') \<and> i \<le> fsize x dp div 16 \<and>
    (i < fsize x dp div 16 \<longrightarrow> de_inum (dir_entries x dp ! i) = 0) \<and> file_ok pid x' dp k n \<and> fs_view x' = fs_view x \<and> fs_env x' = fs_env x"
  using assms
proof (induction "fsize x dp div 16 - j" arbitrary: j x)
  case 0
  have "j = fsize x dp div 16" "fsize x dp mod 16 = 0" using 0 by (simp_all add: open_dir_def)
  moreover from this have "\<not> 16 * j < fsize x dp" by auto
  ultimately show ?case using 0 by (intro exI [of _ x] exI [of _ j]) (simp add: empty_entry.simps)
next
  case (Suc d)
  have j: "j < fsize x dp div 16" using Suc.hyps(2) by simp
  then have lt: "16 * j < fsize x dp" by linarith
  from read_entry [OF Suc.prems(1,2) j, of devsw] obtain x1 where 1: "readi devsw pid dp (word_of_nat (16 * j)) 16 x =
      Some (16, map (fbyte (fs_view x) (di_of x dp)) [16 * j..<16 * j + 16], x1)" "file_ok pid x1 dp k n" "fs_view x1 = fs_view x" "fs_env x1 = fs_env x"
    by (elim exE conjE)
  note S = dir_same [OF 1(3,4), of dp]
  have e: "dir_entries x dp ! j = get_dirent (map (fbyte (fs_view x) (di_of x dp)) [16 * j..<16 * j + 16])" using j by (simp add: dir_entries_def dentry_def)
  show ?case
  proof (cases "de_inum (dir_entries x dp ! j) = 0")
    case True
    then have "empty_entry devsw pid dp (16 * j) (fsize x dp) x = Some (16 * j, x1)" using lt 1(1) unfolding e by (subst empty_entry.simps) simp
    then show ?thesis using True 1(2-4) j by (intro exI [of _ x1] exI [of _ j]) simp
  next
    case False
    then have st: "empty_entry devsw pid dp (16 * j) (fsize x dp) x = empty_entry devsw pid dp (16 * Suc j) (fsize x dp) x1"
      using lt 1(1) unfolding e by (subst empty_entry.simps) (simp add: add.commute)
    have "d = fsize x1 dp div 16 - Suc j" "Suc j \<le> fsize x1 dp div 16" "open_dir x1 dp" using Suc.hyps(2) j S Suc.prems(2) by simp_all
    from Suc.hyps(1) [OF this(1) 1(2) this(3,2)] show ?thesis unfolding st using S 1(3,4) by simp
  qed
qed

section \<open>Linking\<close>

lemma find_upd_other: "i < length es \<Longrightarrow> \<not> P (es ! i) \<Longrightarrow> \<not> P e \<Longrightarrow> List.find P (es[i := e]) = List.find P es"
  by (induction es arbitrary: i) (auto split: nat.split)

lemma find_upd_new: "i < length es \<Longrightarrow> \<forall>e' \<in> set es. \<not> P e' \<Longrightarrow> P e \<Longrightarrow> List.find P (es[i := e]) = Some e"
  by (induction es arbitrary: i) (auto split: nat.split)

lemma find_append_new: "List.find P (es @ [e]) = (case List.find P es of Some e' \<Rightarrow> Some e' | None \<Rightarrow> if P e then Some e else None)"
  by (induction es) auto

text \<open>An entry in a free place, or at the end, adds one name to the map.\<close>

lemma dir_map_add:
  assumes i: "i \<le> length es" "i < length es \<Longrightarrow> de_inum (es ! i) = 0" and e: "de_inum e \<noteq> 0" and new: "dir_map es (de_name e) = None"
  shows "dir_map (if i < length es then es[i := e] else es @ [e]) name = (if cname name = cname (de_name e) then Some (de_inum e) else dir_map es name)"
proof -
  have none: "\<forall>e' \<in> set es. \<not> named (de_name e) e'" using new by (simp add: dir_map_def find_None_iff)
  have nm: "named name = named (de_name e)" if "cname name = cname (de_name e)" using that by (simp add: named_def fun_eq_iff)
  show ?thesis
  proof (cases "cname name = cname (de_name e)")
    case True
    have "named (de_name e) e" using e by (simp add: named_def)
    then have "List.find (named (de_name e)) (if i < length es then es[i := e] else es @ [e]) = Some e"
      using find_upd_new [of i es "named (de_name e)" e] none new by (simp add: find_append_new dir_map_def)
    then show ?thesis using True nm by (simp add: dir_map_def)
  next
    case False
    then have "\<not> named name e" by (simp add: named_def)
    moreover have "i < length es \<Longrightarrow> \<not> named name (es ! i)" using i(2) by (simp add: named_def)
    ultimately show ?thesis using False find_upd_other [of i es "named name" e] by (auto simp: dir_map_def find_append_new split: option.split)
  qed
qed

lemma get_put_dirent:
  assumes "length (de_name e) = DIRSIZ"
  shows "length (put_dirent e) = 16" "get_dirent (put_dirent e) = e"
proof -
  show "length (put_dirent e) = 16" using assms by (simp add: put_dirent_def DIRSIZ_def)
  have "get16 (put16 (replicate 2 0) 0 (de_inum e) @ de_name e) 0 = get16 (put16 (replicate 2 0) 0 (de_inum e)) 0"
    by (simp add: get16_def nth_append)
  then have "get16 (put_dirent e) 0 = de_inum e" using get16_put16 [of 0 "replicate 2 0" "de_inum e"] by (simp add: put_dirent_def)
  then show "get_dirent (put_dirent e) = e" using assms by (simp add: get_dirent_def put_dirent_def)
qed

lemma entries_wrote:
  assumes w: "wrote x dp (16 * i) (put_dirent e) x'" and o: "open_dir x dp" and i: "i \<le> fsize x dp div 16" and n: "length (de_name e) = DIRSIZ"
    and mx: "16 * i + 16 \<le> MAXFILE * BSIZE"
  shows "dir_entries x' dp = (if i < length (dir_entries x dp) then (dir_entries x dp)[i := e] else dir_entries x dp @ [e])" "fsize x' dp mod 16 = 0"
proof -
  note G = get_put_dirent [OF n]
  obtain c where c: "fsize x dp = 16 * c" using o by (auto simp: open_dir_def)
  have i': "i \<le> c" using i c by simp
  have sz: "fsize x' dp = max (16 * c) (16 * i + 16)" using w c G(1) by (simp add: wrote_def)
  then show "fsize x' dp mod 16 = 0" by (simp add: max_def)
  have le: "fsize x dp \<le> MAXFILE * BSIZE" using o by (simp add: open_dir_def open_file_def)
  have d: "dentry (fs_view x') (di_of x' dp) j = (if j = i then e else dentry (fs_view x) (di_of x dp) j)" if "16 * j + 16 \<le> MAXFILE * BSIZE" for j
  proof -
    have fb: "fbyte (fs_view x') (di_of x' dp) p = (if 16 * i \<le> p \<and> p < 16 * i + 16 then put_dirent e ! (p - 16 * i) else fbyte (fs_view x) (di_of x dp) p)"
      if "p < MAXFILE * BSIZE" for p using w that G(1) by (simp add: wrote_def)
    have "map (fbyte (fs_view x') (di_of x' dp)) [16 * j..<16 * j + 16] =
        (if j = i then put_dirent e else map (fbyte (fs_view x) (di_of x dp)) [16 * j..<16 * j + 16])"
      using that G(1) by (intro nth_equalityI) (auto simp: fb)
    then show ?thesis using G(2) by (simp add: dentry_def)
  qed
  have n1: "fsize x dp div 16 = c" using c by simp
  show "dir_entries x' dp = (if i < length (dir_entries x dp) then (dir_entries x dp)[i := e] else dir_entries x dp @ [e])"
  proof (cases "i < c")
    case True
    then have "fsize x' dp div 16 = c" using sz by simp
    then show ?thesis unfolding dir_entries_def n1 using True d le c by (intro nth_equalityI) (simp_all add: nth_list_update)
  next
    case False
    then have ic: "i = c" using i' by simp
    then have "fsize x' dp div 16 = Suc c" using sz by simp
    then show ?thesis unfolding dir_entries_def n1 using ic d le c mx by simp
  qed
qed

lemma wrote_cong:
  assumes "fs_view x1 = fs_view x" "fs_env x1 = fs_env x"
  shows "wrote x1 ip off src x' = wrote x ip off src x'"
  unfolding wrote_def fsize_def assms env_same [OF assms(2)] by (rule refl)

lemma entry_span: "span (16 * i) 16 = 1"
proof -
  define q r where "q = i div 32" and "r = i mod 32"
  have "i = 32 * q + r" by (simp add: q_def r_def)
  then have i: "16 * i = 512 * q + 16 * r" "r < 32" by (simp_all add: r_def)
  have "(16 * i + 15) div 512 = q" "16 * i div 512 = q" unfolding i(1) using i(2) by (intro div_nat_eqI; simp)+
  then show ?thesis by (simp add: span_def BSIZE_def)
qed

text \<open>C6. Linking a new name adds it to the directory and changes no other name. If a directory has no entry of the name, can still grow, and there is
  room in the log and on the disk, \<^verbatim>\<open>dirlink\<close> returns 0, and then the directory maps the name to the inode number and every other name to what it
  mapped it to before; every other file is as it was. Names are the same if their first 14 bytes agree
  up to a NUL.\<close>

theorem dirlink_binds_name:
  assumes f: "file_ok pid x dp 7 2" and o: "open_dir x dp" and sz: "fsize x dp + 16 \<le> MAXFILE * BSIZE"
    and new: "dir_map (dir_entries x dp) name = None" and nz: "(ucast inum :: u16) \<noteq> 0"
  shows "\<exists>x' i. dirlink rsw wsw pid dp name inum x = Some (0, x') \<and> file_ok pid x' dp 0 0 \<and> open_dir x' dp \<and>
    (\<forall>t. dir_map (dir_entries x' dp) t = (if cname t = cname name then Some (ucast inum) else dir_map (dir_entries x dp) t)) \<and>
    16 * i \<le> fsize x dp \<and> wrote x dp (16 * i) (put_dirent \<lparr>de_inum = ucast inum, de_name = new_name name\<rparr>) x'"
proof -
  from dirlookup_ok [OF f o, of rsw name] new obtain x1 where 1: "dirlookup rsw pid dp name x = Some (None, x1)" "file_ok pid x1 dp 7 2" "fs_view x1 = fs_view x" "fs_env x1 = fs_env x"
    by auto
  note S1 = dir_same [OF 1(3,4), of dp]
  have o1: "open_dir x1 dp" using S1 o by simp
  from empty_entry_ok [OF 1(2) o1, of 0 rsw] obtain x2 i where 2: "empty_entry rsw pid dp 0 (fsize x1 dp) x1 = Some (16 * i, x2)" "i \<le> fsize x1 dp div 16"
    "i < fsize x1 dp div 16 \<longrightarrow> de_inum (dir_entries x1 dp ! i) = 0" "file_ok pid x2 dp 7 2" "fs_view x2 = fs_view x1" "fs_env x2 = fs_env x1" by auto
  note S2 = dir_same [OF 2(5,6), of dp]
  have o2: "open_dir x2 dp" "open_file x2 dp" using S2 o1 by (simp_all add: open_dir_def)
  define e where "e = \<lparr>de_inum = ucast inum, de_name = new_name name\<rparr>"
  have n: "length (de_name e) = DIRSIZ" using new_name_ok(1) by (simp add: e_def)
  note G = get_put_dirent [OF n]
  obtain c where c: "fsize x dp = 16 * c" using o by (auto simp: open_dir_def)
  have il: "16 * i \<le> fsize x2 dp" "16 * i + 16 \<le> MAXFILE * BSIZE" using 2(2) S1 S2 c sz by auto
  have u: "unat (word_of_nat (16 * i) :: u32) = 16 * i" using il(2) by (intro unat_word32) (simp add: max_size)
  have f2: "file_ok pid x2 dp (1 + 6 * span (unat (word_of_nat (16 * i) :: u32)) (length (put_dirent e))) (2 * span (unat (word_of_nat (16 * i) :: u32)) (length (put_dirent e)))"
    using 2(4) unfolding u G(1) entry_span by simp
  have "unat (word_of_nat (16 * i) :: u32) \<le> fsize x2 dp" "unat (word_of_nat (16 * i) :: u32) + length (put_dirent e) \<le> MAXFILE * BSIZE" using il unfolding u G(1) by simp_all
  from writei_ok [OF f2 o2(2) this, of wsw] obtain x3 where 3: "writei wsw pid dp (put_dirent e) (word_of_nat (16 * i)) x2 = Some (16, x3)"
    "file_ok pid x3 dp 0 0" "open_file x3 dp" "wrote x2 dp (16 * i) (put_dirent e) x3" unfolding u G(1) by auto
  have i2: "i \<le> fsize x2 dp div 16" using 2(2) S2 by simp
  note W = entries_wrote [OF 3(4) o2(1) i2 n il(2)]
  have "di_type (di_of x3 dp) = di_type (di_of x2 dp)" using 3(4) unfolding wrote_def by (metis dinode.select_convs(1) dinode.surjective dinode.update_convs(5,6))
  then have o3: "open_dir x3 dp" using o2 3(3) W(2) by (simp add: open_dir_def)
  have es: "dir_entries x2 dp = dir_entries x dp" using S1 S2 by simp
  have l: "length (dir_entries x dp) = fsize x1 dp div 16" using S1 by (simp add: dir_entries_def)
  have cn: "cname (de_name e) = cname name" using new_name_ok(2) by (simp add: e_def)
  have "named (de_name e) = named name" using cn by (simp add: named_def fun_eq_iff)
  then have "dir_map (dir_entries x dp) (de_name e) = dir_map (dir_entries x dp) name" by (simp add: dir_map_def)
  then have dm: "dir_map (dir_entries x3 dp) t = (if cname t = cname name then Some (ucast inum) else dir_map (dir_entries x dp) t)" for t
    unfolding W(1) es using dir_map_add [of i "dir_entries x dp" e t] 2(2,3) l S1 nz new cn by (simp add: e_def)
  have dl: "dirlink rsw wsw pid dp name inum x = Some (0, x3)"
    using 1(1) 2(1) 3(1) by (simp add: dirlink_def fsize_def e_def)
  have "fs_view x2 = fs_view x" "fs_env x2 = fs_env x" using 2(5,6) 1(3,4) by simp_all
  then have "wrote x dp (16 * i) (put_dirent e) x3" using 3(4) wrote_cong by blast
  then show ?thesis using dl dm 3(2) o3 il(1) S1 S2 unfolding e_def
    by (intro exI [of _ x3] exI [of _ i]) simp
qed

theorem dirlink_binds_name_witness:
  "\<exists>x'. dirlink (\<lambda>_. None) (\<lambda>_. None) 7 0 [97] 5 (tiny_fs T_DIR) = Some (0, x') \<and> dir_map (dir_entries x' 0) [97] = Some 5 \<and> dir_map (dir_entries x' 0) [98] = None"
proof -
  have "open_file (tiny_fs T_DIR) 0" by (rule tiny_open(2)) (simp add: T_DEV_def T_DIR_def)
  then have o: "open_dir (tiny_fs T_DIR) 0"
    unfolding open_dir_def tiny_open(3) by (simp add: tiny_fs_def NINODE_def tiny_inode_def zero_dinode_def)
  have e: "dir_map (dir_entries (tiny_fs T_DIR) 0) t = None" for t by (simp add: dir_entries_def tiny_open(3) dir_map_def)
  have "fsize (tiny_fs T_DIR) 0 + 16 \<le> MAXFILE * BSIZE" "(ucast (5 :: u32) :: u16) \<noteq> 0" by (simp_all add: tiny_open(3) max_size)
  from dirlink_binds_name [OF tiny_open(1) o this(1) e this(2), of "\<lambda>_. None" "\<lambda>_. None" "[97]"] obtain x' where
    "dirlink (\<lambda>_. None) (\<lambda>_. None) 7 0 [97] 5 (tiny_fs T_DIR) = Some (0, x')"
    "\<forall>t. dir_map (dir_entries x' 0) t = (if cname t = cname [97] then Some (ucast (5 :: u32)) else None)" unfolding e by auto
  then show ?thesis by (intro exI [of _ x']) (simp add: cname_def DIRSIZ_def)
qed

section \<open>Paths\<close>

text \<open>The names of a path, between slashes.\<close>

fun path_names :: "u8 list \<Rightarrow> u8 list list" where
  "path_names [] = [[]]"
| "path_names (c # p) = (if c = slash then [] # path_names p else (case path_names p of [] \<Rightarrow> [[c]] | s # ss \<Rightarrow> (c # s) # ss))"

definition components :: "u8 list \<Rightarrow> u8 list list" where
  "components path = map (take DIRSIZ) (filter (\<lambda>s. s \<noteq> []) (path_names path))"

lemma path_names_nonempty: "path_names p \<noteq> []"
  by (induction p) (auto split: list.splits)

lemma split_first: "slash \<notin> set s \<Longrightarrow> path_names (s @ p) = (s @ hd (path_names p)) # tl (path_names p)"
  by (induction s) (auto simp: path_names_nonempty)

lemma components_slash: "components (slash # p) = components p"
  by (simp add: components_def)

lemma components_slashes: "components (dropWhile (\<lambda>c. c = slash) p) = components p"
  by (induction p) (auto simp: components_slash)

lemma components_split:
  assumes "s \<noteq> []" "slash \<notin> set s" "p = [] \<or> hd p = slash"
  shows "components (s @ p) = take DIRSIZ s # components p"
proof (cases p)
  case Nil
  then show ?thesis using split_first [OF assms(2), of "[]"] assms(1) by (simp add: components_def)
next
  case (Cons c q)
  then have "path_names p = [] # path_names q" using assms(3) by simp
  then show ?thesis using split_first [OF assms(2), of p] assms(1) by (simp add: components_def)
qed

lemma components_nonempty: "r \<noteq> [] \<Longrightarrow> hd r \<noteq> slash \<Longrightarrow> components r \<noteq> []"
proof -
  assume "r \<noteq> []" "hd r \<noteq> slash"
  then obtain c t where r: "r = c # t" "c \<noteq> slash" by (cases r) auto
  have "path_names r = (c # hd (path_names t)) # tl (path_names t)" using r by (simp split: list.split) (metis list.exhaust_sel path_names_nonempty list.sel)
  then show ?thesis by (simp add: components_def)
qed

text \<open>The buffer after an element has been copied into it.\<close>

lemma cname_element:
  assumes z: "0 \<notin> set s"
  shows "cname (if DIRSIZ \<le> length s then take DIRSIZ s else s @ [0] @ drop (length s + 1) name) = take DIRSIZ s"
proof (cases "DIRSIZ \<le> length s")
  case True
  then show ?thesis using z by (auto simp: cname_def takeWhile_eq_all_conv dest: in_set_takeD)
next
  case False
  have "takeWhile (\<lambda>c. c \<noteq> 0) (s @ 0 # xs) = s" for xs using z by (induction s) auto
  then show ?thesis using False by (simp add: cname_def take_Cons')
qed

text \<open>C31. \<^verbatim>\<open>skipelem\<close> takes the first name off a path: it answers that there is none exactly if the path has no name in it, else the buffer then
  holds the first name, cut to \<^const>\<open>DIRSIZ\<close> bytes, the rest of the path holds the others, is shorter and
  does not begin with a slash, so that the walk over a path takes as many steps as it has names.\<close>

theorem skipelem_takes_first_name:
  assumes "0 \<notin> set path" "length name = DIRSIZ"
  shows "case skipelem path name of
      None \<Rightarrow> components path = []
    | Some (path', name') \<Rightarrow> components path = cname name' # components path' \<and> length path' < length path \<and> length name' = DIRSIZ \<and>
        0 \<notin> set path' \<and> (path' = [] \<or> hd path' \<noteq> slash) \<and> (path' = [] \<longleftrightarrow> components path' = [])"
proof -
  define p where "p = dropWhile (\<lambda>c. c = slash) path"
  have cp: "components path = components p" by (simp add: p_def components_slashes)
  show ?thesis
  proof (cases "p = []")
    case True
    then have "skipelem path name = None" by (simp add: skipelem_def p_def)
    moreover have "components path = []" unfolding cp True by (simp add: components_def)
    ultimately show ?thesis by simp
  next
    case False
    define s q r where "s = takeWhile (\<lambda>c. c \<noteq> slash) p" and "q = dropWhile (\<lambda>c. c \<noteq> slash) p" and "r = dropWhile (\<lambda>c. c = slash) q"
    define name' where "name' = (if DIRSIZ \<le> length s then take DIRSIZ s else s @ [0] @ drop (length s + 1) name)"
    have e: "skipelem path name = Some (r, name')" using False by (simp add: skipelem_def p_def [symmetric] s_def q_def r_def name'_def Let_def)
    have sq: "p = s @ q" by (simp add: s_def q_def)
    have hp: "hd p \<noteq> slash" using hd_dropWhile [of "\<lambda>c. c = slash" path] False by (simp add: p_def)
    then have s: "s \<noteq> []" "slash \<notin> set s" using False by (cases p; auto simp: s_def dest: set_takeWhileD)+
    have hq: "q = [] \<or> hd q = slash" using hd_dropWhile [of "\<lambda>c. c \<noteq> slash" p] by (auto simp: q_def)
    have ps: "set p \<subseteq> set path" "set r \<subseteq> set p" by (auto simp: p_def r_def q_def dest!: set_dropWhileD)
    have z: "0 \<notin> set s" using assms(1) ps(1) by (auto simp: sq)
    have "cname name' = take DIRSIZ s" unfolding name'_def by (rule cname_element [OF z])
    moreover have "components p = take DIRSIZ s # components q" unfolding sq by (rule components_split [OF s hq])
    moreover have "components q = components r" by (simp add: r_def components_slashes)
    moreover have "length name' = DIRSIZ" using assms(2) by (auto simp: name'_def)
    moreover have "length r < length path" by (rule skipelem_shorter [OF e])
    moreover have hr: "r = [] \<or> hd r \<noteq> slash" using hd_dropWhile [of "\<lambda>c. c = slash" q] by (auto simp: r_def)
    moreover have "components r \<noteq> []" if "r \<noteq> []" using hr that components_nonempty by blast
    moreover have "components [] = []" by (simp add: components_def)
    ultimately show ?thesis unfolding e cp using assms(1) ps by auto
  qed
qed

theorem skipelem_takes_first_name_witness:
  "skipelem [47, 47, 97, 47, 47, 98, 98] (replicate 14 0) = Some ([98, 98], [97, 0] @ replicate 12 0) \<and> components [47, 47, 97, 47, 47, 98, 98] = [[97], [98, 98]]"
proof -
  have "skipelem [47, 47, 97, 47, 47, 98, 98] (replicate 14 0) = Some ([98, 98], [97, 0] @ replicate 12 0)" by (simp add: skipelem_def DIRSIZ_def)
  moreover have "cname ([97, 0] @ replicate 12 0) = [97]" "components [98, 98] = [[98, 98]]" by (simp_all add: cname_def DIRSIZ_def components_def)
  ultimately show ?thesis using skipelem_takes_first_name [of "[47, 47, 97, 47, 47, 98, 98]" "replicate 14 0"] by (simp add: DIRSIZ_def)
qed

end
