(* ===== verification/Wsh.thy ===== *)
theory Wsh
  imports CString
begin

text \<open>
  The shell (\<^verbatim>\<open>CS_537_P3/wsh.c\<close>): parsing of a command line, the table of jobs, the built-in commands, programs
  in the foreground and in the background, pipelines, the signal handlers, and the interactive and the batch mode.

  The state holds the global variables of the shell, the heap of job records and the sequence of the system calls
  and the output made so far. The operating system is an argument: what a call returns may depend on all calls
  before it. A call that waits also tells which signals arrive meanwhile; their handlers then run. A forked
  child appears in the sequence as the list of the calls it makes.

  Two behaviours are outside of the model. Signals arrive at the prompt and during waits only, not between other statements: the model does not show
  the race of a \<^verbatim>\<open>SIGCHLD\<close> that arrives after \<^verbatim>\<open>fork\<close> and before \<^verbatim>\<open>cur_id\<close> is assigned (\<^verbatim>\<open>wsh.c:354\<close> to \<open>363\<close>), after which \<^verbatim>\<open>sigchild_handler\<close> can follow a null
  pointer (\<^verbatim>\<open>wsh.c:162\<close>). And the child of a command is followed up to its \<^verbatim>\<open>execvp\<close>: when that fails, the child returns into the loop of the shell (\<^verbatim>\<open>wsh.c:344\<close> to \<open>368\<close>) and
  acts as a second shell, which is not part of the list.
\<close>

section \<open>System calls\<close>

datatype signal = SIGINT | SIGTSTP | SIGCHLD | SIGTTOU | SIGSTOP | SIGCONT

datatype call =
    Kill int signal
  | Tcsetpgrp int
  | Waitpid int bool bool \<comment> \<open>process, \<^verbatim>\<open>WNOHANG\<close>, \<^verbatim>\<open>WUNTRACED\<close>\<close>
  | Wait
  | Setpgid int int
  | Signal_default signal
  | Signal_handle signal
  | Signal_ignore signal
  | Execvp string "string list"
  | Chdir string
  | Pipe
  | Dup2 int int
  | Close int
  | Fork "call list" \<comment> \<open>the calls of the child\<close>
  | Out string
  | Err string
  | Exit int
  | Crash

record wait_result =
  wr_pid :: int
  wr_stopped :: bool
  wr_signals :: "signal list"

record os =
  os_access :: "string \<Rightarrow> bool"
  os_malloc :: "call list \<Rightarrow> bool" \<comment> \<open>there is memory\<close>
  os_fork :: "call list \<Rightarrow> int"
  os_waitpid :: "call list \<Rightarrow> wait_result"
  os_chdir :: "call list \<Rightarrow> int"
  os_pipe :: "call list \<Rightarrow> (int \<times> int) option"

section \<open>State\<close>

definition MAX_ARGS :: nat where "MAX_ARGS = 256"
definition MAX_INPUT_SIZE :: nat where "MAX_INPUT_SIZE = 1024"

record Job =
  pgid :: int
  pid :: int
  jid :: int
  command_args :: "string list"
  num_args :: nat
  status :: int

record wsh =
  w_jobs :: "nat list" \<comment> \<open>pointers into the heap, 0 is NULL\<close>
  w_heap :: "nat \<Rightarrow> Job option"
  w_id :: "int list"
  w_cur :: int
  w_pgid :: int
  w_brk :: nat \<comment> \<open>the last address that \<^verbatim>\<open>malloc\<close> gave\<close>
  w_calls :: "call list"

definition sys :: "call \<Rightarrow> wsh \<Rightarrow> wsh" where
  "sys c w = w\<lparr>w_calls := w_calls w @ [c]\<rparr>"

text \<open>The pointer in \<^verbatim>\<open>jobs[i]\<close>, the record behind a pointer, and a change of it.\<close>

definition slot :: "wsh \<Rightarrow> int \<Rightarrow> nat option" where
  "slot w i = (if 0 \<le> i \<and> i < int MAX_ARGS then Some (w_jobs w ! nat i) else None)"

definition deref :: "wsh \<Rightarrow> nat \<Rightarrow> Job option" where
  "deref w p = (if p = 0 then None else w_heap w p)"

definition put_job :: "nat \<Rightarrow> Job \<Rightarrow> wsh \<Rightarrow> wsh" where
  "put_job p j w = w\<lparr>w_heap := (w_heap w)(p \<mapsto> j)\<rparr>"

definition clear_slot :: "nat \<Rightarrow> wsh \<Rightarrow> wsh" where
  "clear_slot i w = w\<lparr>w_jobs := (w_jobs w)[i := 0], w_id := (w_id w)[i := 0]\<rparr>"

section \<open>Signal handlers\<close>

definition sigint_handler :: "wsh \<Rightarrow> wsh option" where
  "sigint_handler w =
    (if w_cur w = -1 then Some w
     else do {
       p \<leftarrow> slot w (w_cur w - 1);
       if p = 0 then Some w
       else do {
         j \<leftarrow> deref w p;
         Some (put_job p (j\<lparr>status := 1\<rparr>) (sys (Kill (pgid j) SIGINT) w))
       }
     })"

definition sigtstp_handler :: "wsh \<Rightarrow> wsh option" where
  "sigtstp_handler w =
    (if w_cur w = -1 then Some w
     else do {
       p \<leftarrow> slot w (w_cur w - 1);
       if p = 0 then Some w
       else do {
         j \<leftarrow> deref w p;
         Some (put_job p (j\<lparr>status := 2\<rparr>) (sys (Kill (pgid j) SIGSTOP) w))
       }
     })"

definition sigchild_handler :: "wsh \<Rightarrow> wsh option" where
  "sigchild_handler w =
    (if w_cur w = -1 then Some w
     else do {
       p \<leftarrow> slot w (w_cur w - 1);
       j \<leftarrow> deref w p;
       Some ((if status j = 1 then clear_slot (nat (w_cur w - 1)) w else w)\<lparr>w_cur := -1\<rparr>)
     })"

definition handle :: "signal \<Rightarrow> wsh \<Rightarrow> wsh option" where
  "handle s w = (case s of SIGINT \<Rightarrow> sigint_handler w | SIGTSTP \<Rightarrow> sigtstp_handler w | SIGCHLD \<Rightarrow> sigchild_handler w | _ \<Rightarrow> Some w)"

fun handle_all :: "signal list \<Rightarrow> wsh \<Rightarrow> wsh option" where
  "handle_all [] w = Some w"
| "handle_all (s # ss) w = do { w \<leftarrow> handle s w; handle_all ss w }"

text \<open>A call that waits for a process: the handlers of the signals that arrive run before it returns.\<close>

definition waiting :: "os \<Rightarrow> call \<Rightarrow> wsh \<Rightarrow> (int \<times> bool \<times> wsh) option" where
  "waiting os c w =
    (let w = sys c w; r = os_waitpid os (w_calls w) in do {
       w \<leftarrow> handle_all (wr_signals r) w;
       Some (wr_pid r, wr_stopped r, w)
     })"

section \<open>Commands\<close>

definition PATH :: "string list" where
  "PATH = [''/bin'', ''/usr/bin'']"

text \<open>\<^verbatim>\<open>snprintf\<close> cuts the path to the buffer.\<close>

fun find_in :: "os \<Rightarrow> string list \<Rightarrow> string \<Rightarrow> string option" where
  "find_in os [] cmd = None"
| "find_in os (d # ds) cmd =
    (let file_path = take (MAX_INPUT_SIZE - 1) (d @ ''/'' @ cmd) in
     if os_access os file_path then Some file_path else find_in os ds cmd)"

definition find_executable :: "os \<Rightarrow> string \<Rightarrow> string option" where
  "find_executable os cmd = find_in os PATH cmd"

fun excludeAmpersand :: "string list \<Rightarrow> string list" where
  "excludeAmpersand [] = []"
| "excludeAmpersand (a # args) = (if a \<noteq> ''&'' then a # excludeAmpersand args else excludeAmpersand args)"

definition job_line :: "Job \<Rightarrow> string" where
  "job_line j = show_int (jid j) @ '':'' @ concat (map (\<lambda>a. '' '' @ a) (command_args j)) @ newline"

function jobs_loop :: "nat \<Rightarrow> wsh \<Rightarrow> wsh option" where
  "jobs_loop i w =
    (if i < MAX_ARGS \<and> w_jobs w ! i \<noteq> 0 then do {
       j \<leftarrow> deref w (w_jobs w ! i);
       jobs_loop (i + 1) (if status j = 0 \<or> status j = 2 then sys (Out (job_line j)) w else w)
     } else Some w)"
  by pat_completeness auto

termination
  by (relation "measure (\<lambda>(i, w). MAX_ARGS - i)") auto

declare jobs_loop.simps [simp del]

definition jobs_command :: "wsh \<Rightarrow> wsh option" where
  "jobs_command w = jobs_loop 0 w"

definition cd_command :: "os \<Rightarrow> string list \<Rightarrow> wsh \<Rightarrow> wsh" where
  "cd_command os args w =
    (if length args \<le> 1 then sys (Err (''Error: Missing argument for cd'' @ newline)) w
     else let w = sys (Chdir (args ! 1)) w in
       if os_chdir os (w_calls w) \<noteq> 0 then sys (Err ''chdir'') w else w)"

text \<open>The words of the line and the flag, 0 for a command in the background. The array has room for 255 words and the end mark.\<close>

definition parse_input :: "string \<Rightarrow> (string list \<times> int) option" where
  "parse_input input =
    (let args = tokens '' '' input in
     if MAX_ARGS \<le> length args then None
     else Some (args, if args \<noteq> [] \<and> last args = ''&'' then 0 else 1))"

definition next_proc_id :: "wsh \<Rightarrow> int \<times> wsh" where
  "next_proc_id w =
    (case List.find (\<lambda>i. w_id w ! i = 0) [0..<MAX_ARGS] of
       Some i \<Rightarrow> (int i + 1, w\<lparr>w_id := (w_id w)[i := 1]\<rparr>)
     | None \<Rightarrow> (0, w))"

text \<open>The largest number of a job with a property, and the first slot with a job of a given number.\<close>

fun largest_id :: "(Job \<Rightarrow> bool) \<Rightarrow> wsh \<Rightarrow> nat list \<Rightarrow> int \<Rightarrow> int option" where
  "largest_id P w [] n = Some n"
| "largest_id P w (i # is) n =
    (if w_jobs w ! i = 0 then largest_id P w is n
     else do {
       j \<leftarrow> deref w (w_jobs w ! i);
       largest_id P w is (if n < jid j \<and> P j then jid j else n)
     })"

fun find_job :: "(Job \<Rightarrow> bool) \<Rightarrow> wsh \<Rightarrow> nat list \<Rightarrow> int \<Rightarrow> nat option option" where
  "find_job P w [] n = Some None"
| "find_job P w (i # is) n =
    (if w_jobs w ! i = 0 then find_job P w is n
     else do {
       j \<leftarrow> deref w (w_jobs w ! i);
       if jid j = n \<and> P j then Some (Some (w_jobs w ! i)) else find_job P w is n
     })"

definition background :: "Job \<Rightarrow> bool" where
  "background j = (status j = 0 \<or> status j = 2)"

definition stopped :: "Job \<Rightarrow> bool" where
  "stopped j = (status j = 2)"

text \<open>\<^verbatim>\<open>fg_command\<close> once the number of the job is known.\<close>

definition fg_job :: "os \<Rightarrow> int \<Rightarrow> wsh \<Rightarrow> wsh option" where
  "fg_job os job_id w = do {
     found \<leftarrow> find_job background w [0..<MAX_ARGS] job_id;
     case found of
       None \<Rightarrow> Some w
     | Some p \<Rightarrow> do {
         j \<leftarrow> deref w p;
         let w = put_job p (j\<lparr>status := 1\<rparr>) w;
         let w = sys (Kill (- pgid j) SIGCONT) (sys (Tcsetpgrp (pgid j)) w);
         (_, stop, w) \<leftarrow> waiting os (Waitpid (pgid j) False True) w;
         w \<leftarrow> (if stop then do { j \<leftarrow> deref w p; Some (put_job p (j\<lparr>status := 2\<rparr>) w) } else Some w);
         Some (sys (Tcsetpgrp (w_pgid w)) w)
       }
   }"

definition fg_command :: "os \<Rightarrow> int \<Rightarrow> wsh \<Rightarrow> wsh option" where
  "fg_command os job_id w =
    (if job_id = -1 then do {
       n \<leftarrow> largest_id background w [0..<MAX_ARGS] (-1);
       if n \<noteq> -1 then fg_job os n w
       else Some (sys (Out (''No background jobs available.'' @ newline)) w)
     }
     else fg_job os job_id w)"

definition bg_job :: "int \<Rightarrow> wsh \<Rightarrow> wsh option" where
  "bg_job job_id w = do {
     found \<leftarrow> find_job stopped w [0..<MAX_ARGS] job_id;
     case found of
       None \<Rightarrow> Some (sys (Out (''No such stopped background job with id '' @ show_int job_id @ newline)) w)
     | Some p \<Rightarrow> do {
         j \<leftarrow> deref w p;
         Some (sys (Kill (pgid j) SIGCONT) (put_job p (j\<lparr>status := 0\<rparr>) w))
       }
   }"

definition bg_command :: "int \<Rightarrow> wsh \<Rightarrow> wsh option" where
  "bg_command job_id w =
    (if job_id = -1 then do {
       n \<leftarrow> largest_id stopped w [0..<MAX_ARGS] (-1);
       if n \<noteq> -1 then bg_job n w
       else Some (sys (Out (''No stopped background jobs available.'' @ newline)) w)
     }
     else bg_job job_id w)"

text \<open>The new record stands at a fresh address, if there is memory.\<close>

definition add_job :: "os \<Rightarrow> string list \<Rightarrow> int \<Rightarrow> int \<Rightarrow> int \<Rightarrow> wsh \<Rightarrow> wsh option" where
  "add_job os args stat child index w =
    (if index < 1 \<or> int MAX_ARGS < index \<or> \<not> os_malloc os (w_calls w) then None
     else let p = w_brk w + 1 in
       Some (put_job p \<lparr>pgid = child, pid = child, jid = index, command_args = args, num_args = length args, status = stat\<rparr>
         (w\<lparr>w_brk := p, w_jobs := (w_jobs w)[nat (index - 1) := p]\<rparr>)))"

fun remove_loop :: "os \<Rightarrow> nat list \<Rightarrow> wsh \<Rightarrow> wsh option" where
  "remove_loop os [] w = Some w"
| "remove_loop os (i # is) w =
    (if w_id w ! i = 1 then do {
       j \<leftarrow> deref w (w_jobs w ! i);
       (result, _, w) \<leftarrow> waiting os (Waitpid (pid j) True True) w;
       w \<leftarrow> (if 0 < result then do {
           let p = w_jobs w ! i;
           _ \<leftarrow> deref w p;
           Some (clear_slot i (w\<lparr>w_heap := (w_heap w)(p := None)\<rparr>))
         } else Some w);
       remove_loop os is w
     } else remove_loop os is w)"

definition remove_finished_jobs :: "os \<Rightarrow> wsh \<Rightarrow> wsh option" where
  "remove_finished_jobs os w = remove_loop os [0..<MAX_ARGS] w"

text \<open>What the child of a command does up to its \<^verbatim>\<open>execvp\<close>; what it does when that fails is not modelled.\<close>

definition child_calls :: "string \<Rightarrow> string list \<Rightarrow> call list" where
  "child_calls executable_path args =
    [Setpgid 0 0, Signal_default SIGTSTP, Signal_default SIGINT, Signal_default SIGCHLD,
     Execvp executable_path (if last args = ''&'' then excludeAmpersand args else args)]"

text \<open>Signals arrive during the wait only: not between the fork and the assignment of \<^verbatim>\<open>cur_id\<close>.\<close>

definition run_program :: "os \<Rightarrow> string \<Rightarrow> string list \<Rightarrow> int \<Rightarrow> wsh \<Rightarrow> wsh option" where
  "run_program os executable_path args is_background w =
    (let w = sys (Fork (child_calls executable_path args)) w; child = os_fork os (w_calls w) in
     if 0 < child then do {
       let (n, w) = next_proc_id w;
       w \<leftarrow> add_job os args is_background child n w;
       if last args = ''&'' then do {
         (_, _, w) \<leftarrow> waiting os (Waitpid child True False) w;
         Some w
       } else do {
         (_, _, w) \<leftarrow> waiting os (Waitpid child False True) (w\<lparr>w_cur := n\<rparr>);
         Some (sys (Tcsetpgrp (w_pgid w)) w)
       }
     } else Some w)"

text \<open>The flag in the result says that the shell has ended.\<close>

definition execute_command :: "os \<Rightarrow> string list \<Rightarrow> int \<Rightarrow> wsh \<Rightarrow> (bool \<times> wsh) option" where
  "execute_command os args is_background w =
    (let cmd = hd args; n = length args in
     if cmd = ''exit'' then Some (True, sys (Exit 0) w)
     else if cmd = ''cd'' then Some (False, cd_command os args w)
     else if cmd = ''jobs'' then do { w \<leftarrow> jobs_command w; Some (False, w) }
     else if cmd = ''fg'' \<and> (n = 1 \<or> n = 2) then do { w \<leftarrow> fg_command os (if n = 2 then atoi (args ! 1) else -1) w; Some (False, w) }
     else if cmd = ''bg'' \<and> (n = 1 \<or> n = 2) then do { w \<leftarrow> bg_command (if n > 1 then atoi (args ! 1) else -1) w; Some (False, w) }
     else case find_executable os cmd of
       None \<Rightarrow> Some (False, w)
     | Some path \<Rightarrow> do { w \<leftarrow> run_program os path args is_background w; Some (False, w) })"

section \<open>Pipelines\<close>

text \<open>The commands between the bars; the last one is the command under construction.\<close>

fun split_cmds :: "string list \<Rightarrow> string list \<Rightarrow> string list list" where
  "split_cmds [] cmd = [cmd]"
| "split_cmds (a # args) cmd = (if a \<noteq> ''|'' then split_cmds args (cmd @ [a]) else cmd # split_cmds args [])"

text \<open>The pipes of the pipeline, or the exit when one cannot be made.\<close>

fun make_pipes :: "os \<Rightarrow> nat \<Rightarrow> wsh \<Rightarrow> (int \<times> int) list option \<times> wsh" where
  "make_pipes os 0 w = (Some [], w)"
| "make_pipes os (Suc n) w =
    (let w = sys Pipe w in
     case os_pipe os (w_calls w) of
       None \<Rightarrow> (None, sys (Exit (-1)) w)
     | Some fds \<Rightarrow> (case make_pipes os n w of (r, w) \<Rightarrow> (map_option ((#) fds) r, w)))"

definition close_all :: "(int \<times> int) list \<Rightarrow> call list" where
  "close_all pipefd = concat (map (\<lambda>(r, w). [Close r, Close w]) pipefd)"

text \<open>What child \<open>i\<close> of the pipeline does; it is the first of its own group, since only children set \<^verbatim>\<open>pgid\<close>.\<close>

definition stage_calls :: "int \<Rightarrow> (int \<times> int) list \<Rightarrow> string list list \<Rightarrow> nat \<Rightarrow> call list" where
  "stage_calls self pipefd cmds i =
    [Setpgid self self] @
    (if 0 < i then [Dup2 (fst (pipefd ! (i - 1))) 0] else []) @
    (if i < length cmds - 1 then [Dup2 (snd (pipefd ! i)) 1] else []) @
    close_all pipefd @
    (case cmds ! i of
       [] \<Rightarrow> [Crash]
     | c # _ \<Rightarrow> if 256 \<le> length (''/bin/'' @ c) then [Crash] else [Execvp (''/bin/'' @ c) (cmds ! i), Exit (-1)])"

fun fork_stages :: "os \<Rightarrow> (int \<times> int) list \<Rightarrow> string list list \<Rightarrow> nat list \<Rightarrow> wsh \<Rightarrow> bool \<times> wsh" where
  "fork_stages os pipefd cmds [] w = (False, w)"
| "fork_stages os pipefd cmds (i # is) w =
    (let child = os_fork os (w_calls w) in
     if child = -1 then (True, sys (Exit (-1)) (sys (Out (''fork fails'' @ newline)) w))
     else fork_stages os pipefd cmds is (sys (Fork (stage_calls child pipefd cmds i)) w))"

partial_function (option) wait_all :: "os \<Rightarrow> wsh \<Rightarrow> wsh option" where
  "wait_all os w = do {
     (r, _, w) \<leftarrow> waiting os Wait w;
     if 1 < r then wait_all os w else Some w
   }"

definition execute_pipe :: "os \<Rightarrow> string list \<Rightarrow> nat \<Rightarrow> wsh \<Rightarrow> (bool \<times> wsh) option" where
  "execute_pipe os args num_cmd w =
    (let cmds = split_cmds args [] in
     case make_pipes os (num_cmd - 1) w of
       (None, w) \<Rightarrow> Some (True, w)
     | (Some pipefd, w) \<Rightarrow>
         (case fork_stages os pipefd cmds [0..<num_cmd] w of
            (True, w) \<Rightarrow> Some (True, w)
          | (False, w) \<Rightarrow> do {
              w \<leftarrow> wait_all os (w\<lparr>w_calls := w_calls w @ close_all pipefd\<rparr>);
              Some (False, w)
            }))"

section \<open>The two modes\<close>

definition chomp :: "string \<Rightarrow> string" where
  "chomp s = takeWhile (\<lambda>c. c \<noteq> CHR 0x0A \<and> c \<noteq> CHR 0x00) s"

definition run_line :: "os \<Rightarrow> string \<Rightarrow> wsh \<Rightarrow> (bool \<times> wsh) option" where
  "run_line os input w = do {
     (args, is_background) \<leftarrow> parse_input (chomp input);
     let num_cmds = 1 + length (filter (\<lambda>a. a = ''|'') args);
     if num_cmds = 1 then
       if args \<noteq> [] then do {
         w \<leftarrow> remove_finished_jobs os w;
         execute_command os args is_background w
       } else Some (False, w)
     else execute_pipe os args num_cmds w
   }"

text \<open>What the shell meets at its prompt: a line, or a signal before the next line is complete. The end of the list is the end of the input.\<close>

datatype input = Line string | Signal signal

definition prompt :: "wsh \<Rightarrow> wsh" where
  "prompt w = sys (Out ''wsh> '') w"

fun interactive_loop :: "os \<Rightarrow> input list \<Rightarrow> wsh \<Rightarrow> wsh option" where
  "interactive_loop os [] w = Some w"
| "interactive_loop os (Signal s # ins) w = do { w \<leftarrow> handle s w; interactive_loop os ins w }"
| "interactive_loop os (Line input # ins) w = do {
     (ended, w) \<leftarrow> run_line os input w;
     if ended then Some w else interactive_loop os ins (prompt w)
   }"

definition interactive_mode :: "os \<Rightarrow> input list \<Rightarrow> wsh \<Rightarrow> wsh option" where
  "interactive_mode os ins w = interactive_loop os ins (prompt w)"

fun batch_loop :: "os \<Rightarrow> string list \<Rightarrow> wsh \<Rightarrow> (bool \<times> wsh) option" where
  "batch_loop os [] w = Some (False, w)"
| "batch_loop os (l # ls) w = do {
     let w = sys (Out (''Executing: '' @ chomp l @ newline)) w;
     (args, is_background) \<leftarrow> parse_input (chomp l);
     (ended, w) \<leftarrow> (if args \<noteq> [] then execute_command os args is_background w else Some (False, w));
     if ended then Some (True, w) else batch_loop os ls w
   }"

text \<open>\<open>contents\<close> is what the file holds, or nothing if it cannot be opened.\<close>

definition batch_mode :: "os \<Rightarrow> string option \<Rightarrow> wsh \<Rightarrow> wsh option" where
  "batch_mode os contents w =
    (case contents of
       None \<Rightarrow> Some (sys (Err ''fopen'') w)
     | Some s \<Rightarrow> do { (_, w) \<leftarrow> batch_loop os (fgets_lines MAX_INPUT_SIZE s) w; Some w })"

definition start_wsh :: "int \<Rightarrow> wsh" where
  "start_wsh shell_pgid = \<lparr>w_jobs = replicate MAX_ARGS 0, w_heap = Map.empty, w_id = replicate MAX_ARGS 0, w_cur = -1, w_pgid = shell_pgid, w_brk = 0,
     w_calls = [Signal_handle SIGTSTP, Signal_handle SIGCHLD, Signal_handle SIGINT, Signal_ignore SIGTTOU]\<rparr>"

definition wsh_main :: "os \<Rightarrow> int \<Rightarrow> int \<Rightarrow> string option \<Rightarrow> input list \<Rightarrow> wsh option" where
  "wsh_main os shell_pgid argc contents ins =
    (let w = start_wsh shell_pgid in
     if argc = 1 then interactive_mode os ins w
     else if argc = 2 then batch_mode os contents w
     else Some (sys (Exit 1) (sys (Err (''Error: Invalid number of arguments'' @ newline)) w)))"

end
