(* ===== verification/Wsh_Props.thy ===== *)
theory Wsh_Props
  imports Wsh
begin

text \<open>
  Properties of the shell: the table of jobs stays consistent and a session does not crash, the words of a line,
  the number of a new job, the choice of \<^verbatim>\<open>fg\<close>, and the descriptors of the programs of a pipeline.
\<close>

section \<open>The table of jobs\<close>

text \<open>An entry is free, or holds a job record that carries its number; no two entries share a record, and
  addresses that \<^verbatim>\<open>malloc\<close> has not given hold none.\<close>

definition slot_ok :: "wsh \<Rightarrow> nat \<Rightarrow> bool" where
  "slot_ok w i = (if w_jobs w ! i = 0 then w_id w ! i = 0
     else w_id w ! i = 1 \<and> (\<exists>j. w_heap w (w_jobs w ! i) = Some j \<and> jid j = int i + 1))"

definition tab_ok :: "wsh \<Rightarrow> bool" where
  "tab_ok w = (length (w_jobs w) = MAX_ARGS \<and> length (w_id w) = MAX_ARGS \<and> (\<forall>i < MAX_ARGS. slot_ok w i) \<and>
     (\<forall>i < MAX_ARGS. \<forall>k < MAX_ARGS. w_jobs w ! i = w_jobs w ! k \<and> w_jobs w ! i \<noteq> 0 \<longrightarrow> i = k) \<and> (\<forall>p > w_brk w. w_heap w p = None))"

text \<open>The entries in use, and that the current job is one of them.\<close>

definition in_use :: "wsh \<Rightarrow> nat set" where
  "in_use w = {i. i < MAX_ARGS \<and> w_jobs w ! i \<noteq> 0}"

definition cur_ok :: "wsh \<Rightarrow> bool" where
  "cur_ok w = (w_cur w = -1 \<or> (1 \<le> w_cur w \<and> w_cur w \<le> int MAX_ARGS \<and> nat (w_cur w - 1) \<in> in_use w))"

lemma tab_okD:
  assumes "tab_ok w"
  shows "length (w_jobs w) = MAX_ARGS" "length (w_id w) = MAX_ARGS" "i < MAX_ARGS \<Longrightarrow> slot_ok w i"
    "i < MAX_ARGS \<Longrightarrow> k < MAX_ARGS \<Longrightarrow> w_jobs w ! i = w_jobs w ! k \<Longrightarrow> w_jobs w ! i \<noteq> 0 \<Longrightarrow> i = k"
    "w_brk w < p \<Longrightarrow> w_heap w p = None"
  using assms by (auto simp: tab_ok_def)

lemma sys_simps [simp]:
  "w_jobs (sys c w) = w_jobs w" "w_heap (sys c w) = w_heap w" "w_id (sys c w) = w_id w" "w_cur (sys c w) = w_cur w"
  "w_pgid (sys c w) = w_pgid w" "w_brk (sys c w) = w_brk w" "w_calls (sys c w) = w_calls w @ [c]"
  by (simp_all add: sys_def)

lemma put_job_simps [simp]:
  "w_jobs (put_job p j w) = w_jobs w" "w_heap (put_job p j w) = (w_heap w)(p \<mapsto> j)" "w_id (put_job p j w) = w_id w"
  "w_cur (put_job p j w) = w_cur w" "w_pgid (put_job p j w) = w_pgid w" "w_brk (put_job p j w) = w_brk w" "w_calls (put_job p j w) = w_calls w"
  by (simp_all add: put_job_def)

lemma clear_slot_simps [simp]:
  "w_jobs (clear_slot i w) = (w_jobs w)[i := 0]" "w_heap (clear_slot i w) = w_heap w" "w_id (clear_slot i w) = (w_id w)[i := 0]"
  "w_cur (clear_slot i w) = w_cur w" "w_pgid (clear_slot i w) = w_pgid w" "w_brk (clear_slot i w) = w_brk w" "w_calls (clear_slot i w) = w_calls w"
  by (simp_all add: clear_slot_def)

text \<open>The table depends on these parts of the state only.\<close>

lemma tab_ok_cong:
  assumes "w_jobs w' = w_jobs w" "w_heap w' = w_heap w" "w_id w' = w_id w" "w_brk w' = w_brk w"
  shows "tab_ok w' = tab_ok w" "in_use w' = in_use w"
  using assms by (simp_all add: tab_ok_def slot_ok_def in_use_def)

lemma tab_ok_frame [simp]:
  "tab_ok (sys c w) = tab_ok w" "in_use (sys c w) = in_use w" "tab_ok (w\<lparr>w_cur := n\<rparr>) = tab_ok w" "in_use (w\<lparr>w_cur := n\<rparr>) = in_use w"
  "tab_ok (w\<lparr>w_calls := cs\<rparr>) = tab_ok w" "in_use (w\<lparr>w_calls := cs\<rparr>) = in_use w" "in_use (put_job p j w) = in_use w" "cur_ok (sys c w) = cur_ok w"
  by (simp_all add: tab_ok_def slot_ok_def in_use_def cur_ok_def)

lemma deref_simps [simp]: "deref (sys c w) p = deref w p" "deref (w\<lparr>w_cur := n\<rparr>) p = deref w p" "deref (put_job p j w) q = (if p = q \<and> q \<noteq> 0 then Some j else deref w q)"
  by (simp_all add: deref_def)

lemma used_job:
  assumes "tab_ok w" "i \<in> in_use w"
  obtains j where "deref w (w_jobs w ! i) = Some j" "jid j = int i + 1" "w_id w ! i = 1"
proof -
  have i: "i < MAX_ARGS" "w_jobs w ! i \<noteq> 0" using assms(2) by (simp_all add: in_use_def)
  show ?thesis using tab_okD(3) [OF assms(1) i(1)] i(2) that by (auto simp: slot_ok_def deref_def)
qed

lemma put_job_ok:
  assumes t: "tab_ok w" and p: "deref w p = Some j" "jid j' = jid j"
  shows "tab_ok (put_job p j' w)"
proof -
  have h: "w_heap w p = Some j" using p(1) by (simp add: deref_def split: if_splits)
  have "p \<le> w_brk w" using tab_okD(5) [OF t, of p] h by (cases "p \<le> w_brk w") auto
  moreover have "slot_ok (put_job p j' w) i" if "i < MAX_ARGS" for i using tab_okD(3) [OF t that] h p(2) by (auto simp: slot_ok_def)
  ultimately show ?thesis using t unfolding tab_ok_def by auto
qed

lemma clear_ok:
  assumes t: "tab_ok w" and i: "i < MAX_ARGS" and h: "w_heap w' = w_heap w \<or> w_heap w' = (w_heap w)(w_jobs w ! i := None)"
    and w': "w_jobs w' = (w_jobs w)[i := 0]" "w_id w' = (w_id w)[i := 0]" "w_brk w' = w_brk w"
  shows "tab_ok w'" "in_use w' = in_use w - {i}"
proof -
  note T = tab_okD [OF t]
  have o: "w_heap w' (w_jobs w ! k) = w_heap w (w_jobs w ! k)" if "k < MAX_ARGS" "k \<noteq> i" "w_jobs w ! k \<noteq> 0" for k
    using T(4) [OF that(1) i] h that(2,3) by auto
  have "slot_ok w' k" if "k < MAX_ARGS" for k
    using T(1,2) T(3) [OF that] o [OF that] w' that by (cases "k = i") (auto simp: slot_ok_def)
  moreover have "k = l" if "k < MAX_ARGS" "l < MAX_ARGS" "w_jobs w' ! k = w_jobs w' ! l" "w_jobs w' ! k \<noteq> 0" for k l
    using T(4) [OF that(1,2)] that T(1) i unfolding w' by (auto simp: nth_list_update split: if_splits)
  moreover have "w_heap w' p = None" if "w_brk w' < p" for p using T(5) [of p] that h w'(3) by auto
  ultimately show "tab_ok w'" using T(1,2) w' unfolding tab_ok_def by auto
  show "in_use w' = in_use w - {i}" using T(1) w'(1) i by (auto simp: in_use_def nth_list_update)
qed

section \<open>Handlers\<close>

lemma cur_job:
  assumes "tab_ok w" "cur_ok w" "w_cur w \<noteq> -1"
  obtains j where "slot w (w_cur w - 1) = Some (w_jobs w ! nat (w_cur w - 1))" "deref w (w_jobs w ! nat (w_cur w - 1)) = Some j"
    "nat (w_cur w - 1) \<in> in_use w" "w_jobs w ! nat (w_cur w - 1) \<noteq> 0"
proof -
  have c: "1 \<le> w_cur w" "w_cur w \<le> int MAX_ARGS" "nat (w_cur w - 1) \<in> in_use w" using assms(2,3) by (auto simp: cur_ok_def)
  then have "slot w (w_cur w - 1) = Some (w_jobs w ! nat (w_cur w - 1))" by (simp add: slot_def)
  moreover have "w_jobs w ! nat (w_cur w - 1) \<noteq> 0" using c(3) by (simp add: in_use_def)
  moreover obtain j where "deref w (w_jobs w ! nat (w_cur w - 1)) = Some j" using used_job [OF assms(1) c(3)] by blast
  ultimately show ?thesis using c(3) that by blast
qed

lemma handle_idle: "w_cur w = -1 \<Longrightarrow> handle s w = Some w"
  by (cases s) (simp_all add: handle_def sigint_handler_def sigtstp_handler_def sigchild_handler_def)

lemma handle_all_idle: "w_cur w = -1 \<Longrightarrow> handle_all ss w = Some w"
  by (induction ss) (simp_all add: handle_idle)

text \<open>With a current job in the table no handler crashes, each keeps the table and the
  current job in it, and the end of a child leaves no current job.\<close>

lemma handle_ok:
  assumes t: "tab_ok w" and c: "cur_ok w"
  shows "\<exists>w'. handle s w = Some w' \<and> tab_ok w' \<and> cur_ok w' \<and> in_use w' \<subseteq> in_use w \<and> (w_cur w = -1 \<or> s = SIGCHLD \<longrightarrow> w_cur w' = -1)"
proof (cases "w_cur w = -1")
  case True
  then show ?thesis using assms by (simp add: handle_idle)
next
  case False
  then obtain j where j: "slot w (w_cur w - 1) = Some (w_jobs w ! nat (w_cur w - 1))" "deref w (w_jobs w ! nat (w_cur w - 1)) = Some j"
    "nat (w_cur w - 1) \<in> in_use w" "w_jobs w ! nat (w_cur w - 1) \<noteq> 0" using cur_job [OF assms] by blast
  have put: "tab_ok (put_job (w_jobs w ! nat (w_cur w - 1)) (j\<lparr>status := n\<rparr>) (sys k w))" "cur_ok (put_job (w_jobs w ! nat (w_cur w - 1)) (j\<lparr>status := n\<rparr>) (sys k w))" for n k
    using put_job_ok [of "sys k w" "w_jobs w ! nat (w_cur w - 1)" j "j\<lparr>status := n\<rparr>"] t c j(2) by (simp_all add: cur_ok_def)
  have i: "nat (w_cur w - 1) < MAX_ARGS" using j(3) by (simp add: in_use_def)
  have cl: "tab_ok ((clear_slot (nat (w_cur w - 1)) w)\<lparr>w_cur := -1\<rparr>)" "in_use ((clear_slot (nat (w_cur w - 1)) w)\<lparr>w_cur := -1\<rparr>) \<subseteq> in_use w"
    using clear_ok [OF t i, of "(clear_slot (nat (w_cur w - 1)) w)\<lparr>w_cur := -1\<rparr>"] by auto
  show ?thesis
  proof (cases s)
    case SIGCHLD
    then show ?thesis using False j cl t by (cases "status j = 1") (simp_all add: handle_def sigchild_handler_def cur_ok_def)
  qed (use False j put t c in \<open>simp_all add: handle_def sigint_handler_def sigtstp_handler_def\<close>)
qed

lemma handle_all_ok:
  assumes "tab_ok w" "cur_ok w"
  shows "\<exists>w'. handle_all ss w = Some w' \<and> tab_ok w' \<and> cur_ok w' \<and> in_use w' \<subseteq> in_use w \<and> (w_cur w = -1 \<or> SIGCHLD \<in> set ss \<longrightarrow> w_cur w' = -1)"
  using assms
proof (induction ss arbitrary: w)
  case (Cons s ss)
  from handle_ok [OF Cons.prems, of s] obtain w1 where 1: "handle s w = Some w1" "tab_ok w1" "cur_ok w1" "in_use w1 \<subseteq> in_use w"
    "w_cur w = -1 \<or> s = SIGCHLD \<longrightarrow> w_cur w1 = -1" by blast
  from Cons.IH [OF 1(2,3)] obtain w2 where "handle_all ss w1 = Some w2" "tab_ok w2" "cur_ok w2" "in_use w2 \<subseteq> in_use w1"
    "w_cur w1 = -1 \<or> SIGCHLD \<in> set ss \<longrightarrow> w_cur w2 = -1" by blast
  then show ?case using 1 by auto
qed simp

section \<open>Commands\<close>

text \<open>Between two commands there is no current job.\<close>

definition idle :: "wsh \<Rightarrow> bool" where
  "idle w = (tab_ok w \<and> w_cur w = -1)"

definition job_of :: "wsh \<Rightarrow> nat \<Rightarrow> Job" where
  "job_of w i = the (deref w (w_jobs w ! i))"

lemma used_deref: "tab_ok w \<Longrightarrow> i \<in> in_use w \<Longrightarrow> deref w (w_jobs w ! i) = Some (job_of w i) \<and> jid (job_of w i) = int i + 1"
  using used_job [of w i] by (metis job_of_def option.sel)

lemma free_slot: "i < MAX_ARGS \<Longrightarrow> i \<notin> in_use w \<longleftrightarrow> w_jobs w ! i = 0"
  by (simp add: in_use_def)

lemma waiting_idle: "w_cur w = -1 \<Longrightarrow> waiting os c w = Some (wr_pid (os_waitpid os (w_calls w @ [c])), wr_stopped (os_waitpid os (w_calls w @ [c])), sys c w)"
  by (simp add: waiting_def Let_def handle_all_idle)

lemma idle_frame [simp]: "idle (sys c w) = idle w" "idle (w\<lparr>w_calls := cs\<rparr>) = idle w"
  by (simp_all add: idle_def)

lemma idle_put: "idle w \<Longrightarrow> deref w p = Some j \<Longrightarrow> idle (put_job p (j\<lparr>status := n\<rparr>) w)"
  by (simp add: idle_def put_job_ok)

text \<open>\<^verbatim>\<open>jobs\<close> prints the jobs in the background up to the first free entry.\<close>

lemma jobs_loop_eq:
  assumes "tab_ok w"
  shows "jobs_loop i w = Some (w\<lparr>w_calls := w_calls w @ map (\<lambda>k. Out (job_line (job_of w k)))
    (filter (\<lambda>k. background (job_of w k)) (takeWhile (\<lambda>k. k \<in> in_use w) [i..<MAX_ARGS]))\<rparr>)"
  using assms
proof (induction i w rule: jobs_loop.induct)
  case (1 i w)
  show ?case
  proof (cases "i \<in> in_use w")
    case True
    then have i: "i < MAX_ARGS \<and> w_jobs w ! i \<noteq> 0" by (simp add: in_use_def)
    define w1 where "w1 = (if background (job_of w i) then sys (Out (job_line (job_of w i))) w else w)"
    have d: "deref w (w_jobs w ! i) = Some (job_of w i)" using used_deref [OF 1(2) True] by simp
    have w1: "tab_ok w1" "in_use w1 = in_use w" "job_of w1 = job_of w" using 1(2) by (auto simp: w1_def job_of_def fun_eq_iff)
    have "jobs_loop i w = jobs_loop (i + 1) w1" using i d by (subst jobs_loop.simps) (simp add: w1_def background_def)
    also have "\<dots> = Some (w1\<lparr>w_calls := w_calls w1 @ map (\<lambda>k. Out (job_line (job_of w1 k)))
        (filter (\<lambda>k. background (job_of w1 k)) (takeWhile (\<lambda>k. k \<in> in_use w1) [i + 1..<MAX_ARGS]))\<rparr>)"
      using 1(1) [OF i d] w1(1) by (simp add: w1_def background_def)
    finally show ?thesis using i True by (simp add: w1 upt_conv_Cons) (simp add: w1_def sys_def)
  next
    case False
    then have "\<not> (i < MAX_ARGS \<and> w_jobs w ! i \<noteq> 0)" by (simp add: in_use_def)
    moreover have "takeWhile (\<lambda>k. k \<in> in_use w) [i..<MAX_ARGS] = []" using False by (cases "i < MAX_ARGS") (simp_all add: upt_conv_Cons)
    ultimately show ?thesis by (subst jobs_loop.simps) (simp only: if_False list.map filter.simps append_Nil2, simp)
  qed
qed

text \<open>The job with the largest number, and the job with a given number.\<close>

lemma largest_id_ok:
  assumes "tab_ok w" "set is \<subseteq> {..<MAX_ARGS}"
  shows "\<exists>m. largest_id P w is n = Some m \<and> n \<le> m \<and> (\<forall>i \<in> set is. i \<in> in_use w \<and> P (job_of w i) \<longrightarrow> int i + 1 \<le> m) \<and>
    (m = n \<or> (\<exists>i \<in> set is. i \<in> in_use w \<and> P (job_of w i) \<and> m = int i + 1))"
  using assms(2)
proof (induction "is" arbitrary: n)
  case (Cons i "is")
  have i: "i < MAX_ARGS" "set is \<subseteq> {..<MAX_ARGS}" using Cons.prems by auto
  show ?case
  proof (cases "i \<in> in_use w")
    case True
    note d = used_deref [OF assms(1) True]
    have "w_jobs w ! i \<noteq> 0" using True by (simp add: in_use_def)
    then have e: "largest_id P w (i # is) n = largest_id P w is (if n < int i + 1 \<and> P (job_of w i) then int i + 1 else n)" using d by simp
    obtain m where "largest_id P w is (if n < int i + 1 \<and> P (job_of w i) then int i + 1 else n) = Some m"
      "(if n < int i + 1 \<and> P (job_of w i) then int i + 1 else n) \<le> m" "\<forall>i \<in> set is. i \<in> in_use w \<and> P (job_of w i) \<longrightarrow> int i + 1 \<le> m"
      "m = (if n < int i + 1 \<and> P (job_of w i) then int i + 1 else n) \<or> (\<exists>i \<in> set is. i \<in> in_use w \<and> P (job_of w i) \<and> m = int i + 1)"
      using Cons.IH [OF i(2)] by blast
    then show ?thesis unfolding e using True by (intro exI [of _ m]) (auto split: if_splits)
  next
    case False
    then show ?thesis using Cons.IH [OF i(2), of n] free_slot [OF i(1)] by auto
  qed
qed simp

lemma largest_id_all:
  assumes "tab_ok w"
  obtains m where "largest_id P w [0..<MAX_ARGS] (-1) = Some m" "\<And>i. i \<in> in_use w \<Longrightarrow> P (job_of w i) \<Longrightarrow> int i + 1 \<le> m"
    "m = -1 \<or> (\<exists>i \<in> in_use w. P (job_of w i) \<and> m = int i + 1)"
proof -
  have "set [0..<MAX_ARGS] \<subseteq> {..<MAX_ARGS}" by auto
  from largest_id_ok [OF assms this, of P "-1"] obtain m where m: "largest_id P w [0..<MAX_ARGS] (-1) = Some m"
    "\<forall>i \<in> set [0..<MAX_ARGS]. i \<in> in_use w \<and> P (job_of w i) \<longrightarrow> int i + 1 \<le> m"
    "m = -1 \<or> (\<exists>i \<in> set [0..<MAX_ARGS]. i \<in> in_use w \<and> P (job_of w i) \<and> m = int i + 1)" by blast
  then show ?thesis using that [of m] by (auto simp: in_use_def)
qed

lemma find_job_eq:
  assumes "tab_ok w" "set is \<subseteq> {..<MAX_ARGS}"
  shows "find_job P w is n = Some (if \<exists>i \<in> set is. i \<in> in_use w \<and> P (job_of w i) \<and> n = int i + 1 then Some (w_jobs w ! nat (n - 1)) else None)"
  using assms(2)
proof (induction "is")
  case (Cons i "is")
  have i: "i < MAX_ARGS" "set is \<subseteq> {..<MAX_ARGS}" using Cons.prems by auto
  show ?case
  proof (cases "i \<in> in_use w")
    case True
    note d = used_deref [OF assms(1) True]
    have "w_jobs w ! i \<noteq> 0" using True by (simp add: in_use_def)
    then show ?thesis using Cons.IH [OF i(2)] d True by auto
  next
    case False
    then show ?thesis using Cons.IH [OF i(2)] free_slot [OF i(1)] by auto
  qed
qed simp

lemma find_job_all:
  assumes "tab_ok w"
  shows "find_job P w [0..<MAX_ARGS] n = Some (if \<exists>i \<in> in_use w. P (job_of w i) \<and> n = int i + 1 then Some (w_jobs w ! nat (n - 1)) else None)"
  using find_job_eq [OF assms, of "[0..<MAX_ARGS]" P n] by (simp add: lessThan_atLeast0) (auto simp: in_use_def)

text \<open>\<^verbatim>\<open>fg\<close> on a job: the job becomes the foreground job, is continued and waited for.\<close>

definition fg_calls :: "wsh \<Rightarrow> Job \<Rightarrow> call list" where
  "fg_calls w j = [Tcsetpgrp (pgid j), Kill (- pgid j) SIGCONT, Waitpid (pgid j) False True]"

lemma fg_job_eq:
  assumes w: "idle w"
  shows "fg_job os n w = (if \<exists>i \<in> in_use w. background (job_of w i) \<and> n = int i + 1
    then let j = job_of w (nat (n - 1)); cs = w_calls w @ fg_calls w j in
      Some (put_job (w_jobs w ! nat (n - 1)) (j\<lparr>status := if wr_stopped (os_waitpid os cs) then 2 else 1\<rparr>) w\<lparr>w_calls := cs @ [Tcsetpgrp (w_pgid w)]\<rparr>)
    else Some w)"
proof -
  have t: "tab_ok w" "w_cur w = -1" using w by (simp_all add: idle_def)
  show ?thesis
  proof (cases "\<exists>i \<in> in_use w. background (job_of w i) \<and> n = int i + 1")
    case True
    then obtain i where i: "i \<in> in_use w" "background (job_of w i)" "n = int i + 1" by blast
    then have n: "nat (n - 1) = i" by simp
    note d = used_deref [OF t(1) i(1)]
    have nz: "w_jobs w ! i \<noteq> 0" using i(1) by (simp add: in_use_def)
    then show ?thesis using True d t(2) unfolding fg_job_def find_job_all [OF t(1)] n
      by (simp add: waiting_idle Let_def fg_calls_def n)
  next
    case False
    show ?thesis unfolding fg_job_def find_job_all [OF t(1)] if_not_P [OF False] by simp
  qed
qed

lemma fg_job_idle:
  assumes "idle w"
  shows "\<exists>w'. fg_job os n w = Some w' \<and> idle w' \<and> in_use w' = in_use w"
proof -
  have "idle (put_job (w_jobs w ! nat (n - 1)) (job_of w (nat (n - 1))\<lparr>status := s\<rparr>) w)" if ex: "\<exists>i \<in> in_use w. background (job_of w i) \<and> n = int i + 1" for s
  proof -
    from ex obtain i where i: "i \<in> in_use w" "nat (n - 1) = i" by auto
    then show ?thesis using idle_put [OF assms] used_deref [of w i] assms by (simp add: idle_def)
  qed
  then show ?thesis unfolding fg_job_eq [OF assms] using assms by (auto simp: Let_def)
qed

lemma fg_idle:
  assumes "idle w"
  shows "\<exists>w'. fg_command os n w = Some w' \<and> idle w' \<and> in_use w' = in_use w"
proof (cases "n = -1")
  case True
  obtain m where "largest_id background w [0..<MAX_ARGS] (-1) = Some m" using largest_id_all [of w background] assms by (auto simp: idle_def)
  then show ?thesis using True assms fg_job_idle [OF assms, of os m] by (simp add: fg_command_def)
qed (use fg_job_idle [OF assms] in \<open>simp add: fg_command_def\<close>)

lemma bg_job_idle:
  assumes "idle w"
  shows "\<exists>w'. bg_job n w = Some w' \<and> idle w' \<and> in_use w' = in_use w"
proof -
  have t: "tab_ok w" using assms by (simp add: idle_def)
  show ?thesis
  proof (cases "\<exists>i \<in> in_use w. stopped (job_of w i) \<and> n = int i + 1")
    case True
    then obtain i where i: "i \<in> in_use w" "nat (n - 1) = i" by auto
    then show ?thesis unfolding bg_job_def find_job_all [OF t] if_P [OF True] using idle_put [OF assms] used_deref [OF t i(1)] by simp
  next
    case False
    show ?thesis unfolding bg_job_def find_job_all [OF t] if_not_P [OF False] using assms by simp
  qed
qed

lemma bg_idle:
  assumes "idle w"
  shows "\<exists>w'. bg_command n w = Some w' \<and> idle w' \<and> in_use w' = in_use w"
proof (cases "n = -1")
  case True
  obtain m where "largest_id stopped w [0..<MAX_ARGS] (-1) = Some m" using largest_id_all [of w stopped] assms by (auto simp: idle_def)
  then show ?thesis using True assms bg_job_idle [OF assms, of m] by (simp add: bg_command_def)
qed (use bg_job_idle [OF assms] in \<open>simp add: bg_command_def\<close>)

lemma remove_loop_idle:
  assumes "idle w" "set is \<subseteq> {..<MAX_ARGS}"
  shows "\<exists>w'. remove_loop os is w = Some w' \<and> idle w' \<and> in_use w' \<subseteq> in_use w"
  using assms
proof (induction "is" arbitrary: w)
  case (Cons i "is")
  have i: "i < MAX_ARGS" "set is \<subseteq> {..<MAX_ARGS}" using Cons.prems(2) by auto
  have t: "tab_ok w" "w_cur w = -1" using Cons.prems(1) by (simp_all add: idle_def)
  show ?case
  proof (cases "w_id w ! i = 1")
    case True
    then have u: "i \<in> in_use w" using tab_okD(3) [OF t(1) i(1)] i(1) by (auto simp: slot_ok_def in_use_def split: if_splits)
    note d = used_deref [OF t(1) u]
    define w1 where "w1 = sys (Waitpid (pid (job_of w i)) True True) w"
    define w2 where "w2 = (if 0 < wr_pid (os_waitpid os (w_calls w1)) then clear_slot i (w1\<lparr>w_heap := (w_heap w1)(w_jobs w1 ! i := None)\<rparr>) else w1)"
    have "tab_ok w2" "in_use w2 \<subseteq> in_use w" "w_cur w2 = -1"
      using clear_ok [of w1 i "clear_slot i (w1\<lparr>w_heap := (w_heap w1)(w_jobs w1 ! i := None)\<rparr>)"] t i(1) by (auto simp: w2_def w1_def)
    then have w2: "idle w2" "in_use w2 \<subseteq> in_use w" by (simp_all add: idle_def)
    have "remove_loop os (i # is) w = remove_loop os is w2" using True d t(2) by (simp add: waiting_idle w2_def w1_def)
    then show ?thesis using Cons.IH [OF w2(1) i(2)] w2(2) by auto
  qed (use Cons.IH [OF Cons.prems(1) i(2)] in simp)
qed simp

text \<open>The number of a new job is the smallest one that no job has.\<close>

lemma next_proc_id_eq:
  assumes t: "tab_ok w" and f: "card (in_use w) < MAX_ARGS"
  obtains i where "i < MAX_ARGS" "i \<notin> in_use w" "{..<i} \<subseteq> in_use w" "next_proc_id w = (int i + 1, w\<lparr>w_id := (w_id w)[i := 1]\<rparr>)"
proof -
  have z: "w_id w ! i = 0 \<longleftrightarrow> i \<notin> in_use w" if "i < MAX_ARGS" for i using tab_okD(3) [OF t that] that by (auto simp: slot_ok_def in_use_def split: if_splits)
  have "\<not> {..<MAX_ARGS} \<subseteq> in_use w" using card_mono [of "in_use w" "{..<MAX_ARGS}"] f by (auto simp: in_use_def)
  then have "List.find (\<lambda>i. w_id w ! i = 0) [0..<MAX_ARGS] \<noteq> None" using z by (auto simp: find_upt_None)
  then obtain i where i: "List.find (\<lambda>i. w_id w ! i = 0) [0..<MAX_ARGS] = Some i" by blast
  from find_upt_Some [OF i] have "i < MAX_ARGS" "i \<notin> in_use w" "{..<i} \<subseteq> in_use w" using z by auto
  then show ?thesis using that i by (simp add: next_proc_id_def)
qed

text \<open>What the shell relies on: memory for a job record; the signal for a child that ends or stops arrives before the wait for this
  child returns; a sequence of waits runs out of children.\<close>

definition os_ok :: "os \<Rightarrow> bool" where
  "os_ok os = ((\<forall>cs. os_malloc os cs) \<and>
     (\<forall>cs c. 0 < os_fork os (cs @ [Fork c]) \<longrightarrow> SIGCHLD \<in> set (wr_signals (os_waitpid os (cs @ [Fork c, Waitpid (os_fork os (cs @ [Fork c])) False True])))) \<and>
     (\<forall>cs. \<exists>n. wr_pid (os_waitpid os (cs @ replicate (Suc n) Wait)) \<le> 1))"

lemma waits_end: "os_ok os \<Longrightarrow> \<exists>n. wr_pid (os_waitpid os (cs @ replicate (Suc n) Wait)) \<le> 1"
  unfolding os_ok_def by (elim conjE allE)

definition new_job :: "int \<Rightarrow> nat \<Rightarrow> string list \<Rightarrow> int \<Rightarrow> Job" where
  "new_job child i args st = \<lparr>pgid = child, pid = child, jid = int i + 1, command_args = args, num_args = length args, status = st\<rparr>"

text \<open>The state after a job has been entered at a free place.\<close>

lemma add_job_ok:
  assumes t: "tab_ok w" and i: "i < MAX_ARGS" "i \<notin> in_use w" and m: "os_malloc os (w_calls w)"
  shows "\<exists>w'. add_job os args st child (int i + 1) (w\<lparr>w_id := (w_id w)[i := 1]\<rparr>) = Some w' \<and> tab_ok w' \<and> in_use w' = insert i (in_use w) \<and>
    job_of w' i = new_job child i args st \<and> (\<forall>k \<in> in_use w. job_of w' k = job_of w k) \<and> w_calls w' = w_calls w \<and> w_cur w' = w_cur w \<and> w_pgid w' = w_pgid w"
proof -
  note T = tab_okD [OF t]
  define p where "p = w_brk w + 1"
  define w' where "w' = put_job p (new_job child i args st) (w\<lparr>w_id := (w_id w)[i := 1], w_brk := p, w_jobs := (w_jobs w)[i := p]\<rparr>)"
  have e: "add_job os args st child (int i + 1) (w\<lparr>w_id := (w_id w)[i := 1]\<rparr>) = Some w'"
    using i(1) m by (simp add: add_job_def w'_def new_job_def p_def Let_def)
  have new: "w_heap w p = None" using T(5) [of p] by (simp add: p_def)
  have np: "w_jobs w ! k \<noteq> p" if "k < MAX_ARGS" for k using T(3) [OF that] new by (auto simp: slot_ok_def p_def split: if_splits)
  have "slot_ok w' k" if "k < MAX_ARGS" for k
    using T(1,2) T(3) [OF that] np [OF that] i(1) that by (cases "k = i") (auto simp: slot_ok_def w'_def p_def new_job_def)
  moreover have "k = l" if "k < MAX_ARGS" "l < MAX_ARGS" "w_jobs w' ! k = w_jobs w' ! l" "w_jobs w' ! k \<noteq> 0" for k l
    using T(1) T(4) [OF that(1,2)] np [OF that(1)] np [OF that(2)] that i(1) by (auto simp: w'_def nth_list_update split: if_splits)
  ultimately have "tab_ok w'" using T(1,2,5) unfolding tab_ok_def by (auto simp: w'_def p_def)
  moreover have "in_use w' = insert i (in_use w)" using T(1) i by (auto simp: in_use_def w'_def p_def nth_list_update)
  moreover have "job_of w' i = new_job child i args st" using T(1) i(1) by (simp add: job_of_def w'_def deref_def p_def)
  moreover have "job_of w' k = job_of w k" if k: "k \<in> in_use w" for k
  proof -
    have k': "k < MAX_ARGS" "k \<noteq> i" using k i(2) by (auto simp: in_use_def)
    then show ?thesis using np [OF k'(1)] by (simp add: job_of_def w'_def deref_def)
  qed
  moreover have "w_calls w' = w_calls w" "w_cur w' = w_cur w" "w_pgid w' = w_pgid w" by (simp_all add: w'_def)
  ultimately show ?thesis using e by blast
qed

text \<open>Starting a program: the job is entered at the smallest free place, then the shell waits.\<close>

lemma program_started:
  assumes w: "idle w" and f: "card (in_use w) < MAX_ARGS" and mem: "\<forall>cs. os_malloc os cs"
    and cs: "cs = w_calls w @ [Fork (child_calls path args)]" and child: "child = os_fork os cs" "0 < child"
  obtains i w1 where "i < MAX_ARGS" "i \<notin> in_use w" "{..<i} \<subseteq> in_use w" "tab_ok w1" "in_use w1 = insert i (in_use w)" "w_calls w1 = cs" "w_cur w1 = -1" "w_pgid w1 = w_pgid w"
    "job_of w1 i = new_job child i args st" "\<forall>k \<in> in_use w. job_of w1 k = job_of w k"
    "run_program os path args st w = (if last args = ''&'' then Some (sys (Waitpid child True False) w1)
       else do { w3 \<leftarrow> handle_all (wr_signals (os_waitpid os (cs @ [Waitpid child False True]))) (sys (Waitpid child False True) (w1\<lparr>w_cur := int i + 1\<rparr>));
                 Some (sys (Tcsetpgrp (w_pgid w3)) w3) })"
proof -
  define w0 where "w0 = sys (Fork (child_calls path args)) w"
  have t: "tab_ok w0" "w_cur w0 = -1" "card (in_use w0) < MAX_ARGS" "in_use w0 = in_use w" "w_calls w0 = cs" "w_pgid w0 = w_pgid w" "job_of w0 = job_of w"
    using w f by (auto simp: w0_def idle_def cs job_of_def fun_eq_iff)
  obtain i where i: "i < MAX_ARGS" "i \<notin> in_use w0" "{..<i} \<subseteq> in_use w0" "next_proc_id w0 = (int i + 1, w0\<lparr>w_id := (w_id w0)[i := 1]\<rparr>)"
    by (rule next_proc_id_eq [OF t(1,3)])
  have m: "os_malloc os (w_calls w0)" using mem by blast
  from add_job_ok [OF t(1) i(1,2) m, of args st child] obtain w1 where 1: "add_job os args st child (int i + 1) (w0\<lparr>w_id := (w_id w0)[i := 1]\<rparr>) = Some w1"
    "tab_ok w1" "in_use w1 = insert i (in_use w0)" "job_of w1 i = new_job child i args st" "\<forall>k \<in> in_use w0. job_of w1 k = job_of w0 k"
    "w_calls w1 = w_calls w0" "w_cur w1 = w_cur w0" "w_pgid w1 = w_pgid w0" by (elim exE conjE)
  have e: "sys (Fork (child_calls path args)) w = w0" "os_fork os (w_calls w0) = child" using child(1) t(5) by (simp_all add: w0_def)
  have c1: "w_calls w1 = cs" "w_cur w1 = -1" using 1(6,7) t(2,5) by simp_all
  have "run_program os path args st w = (if last args = ''&'' then Some (sys (Waitpid child True False) w1)
       else do { w3 \<leftarrow> handle_all (wr_signals (os_waitpid os (cs @ [Waitpid child False True]))) (sys (Waitpid child False True) (w1\<lparr>w_cur := int i + 1\<rparr>));
                 Some (sys (Tcsetpgrp (w_pgid w3)) w3) })"
    using child(2) i(4) 1(1) c1 by (simp add: run_program_def Let_def e waiting_def handle_all_idle)
  then show ?thesis using that [OF i(1)] i(2,3) 1 c1 t by simp
qed

lemma run_program_idle:
  assumes w: "idle w" and f: "card (in_use w) < MAX_ARGS" and os: "os_ok os"
  shows "\<exists>w'. run_program os path args bg w = Some w' \<and> idle w' \<and> (\<exists>i. in_use w' \<subseteq> insert i (in_use w))"
proof -
  define cs where "cs = w_calls w @ [Fork (child_calls path args)]"
  define child where "child = os_fork os cs"
  have mem: "\<forall>cs. os_malloc os cs" using os by (simp add: os_ok_def)
  show ?thesis
  proof (cases "0 < child")
    case True
    obtain i w1 where 1: "i < MAX_ARGS" "tab_ok w1" "in_use w1 = insert i (in_use w)" "w_calls w1 = cs" "w_cur w1 = -1"
      "run_program os path args bg w = (if last args = ''&'' then Some (sys (Waitpid child True False) w1)
         else do { w3 \<leftarrow> handle_all (wr_signals (os_waitpid os (cs @ [Waitpid child False True]))) (sys (Waitpid child False True) (w1\<lparr>w_cur := int i + 1\<rparr>));
                   Some (sys (Tcsetpgrp (w_pgid w3)) w3) })"
      by (rule program_started [OF w f mem cs_def child_def True, of bg])
    define w2 where "w2 = sys (Waitpid child False True) (w1\<lparr>w_cur := int i + 1\<rparr>)"
    have "tab_ok w2" "cur_ok w2" using 1(1-3) by (simp_all add: w2_def cur_ok_def)
    moreover have "SIGCHLD \<in> set (wr_signals (os_waitpid os (cs @ [Waitpid child False True])))" using os True by (simp add: os_ok_def child_def cs_def)
    ultimately obtain w3 where 3: "handle_all (wr_signals (os_waitpid os (cs @ [Waitpid child False True]))) w2 = Some w3" "tab_ok w3" "in_use w3 \<subseteq> in_use w2" "w_cur w3 = -1"
      using handle_all_ok by blast
    define w' where "w' = (if last args = ''&'' then sys (Waitpid child True False) w1 else sys (Tcsetpgrp (w_pgid w3)) w3)"
    have "run_program os path args bg w = Some w'" using 1(6) 3(1) by (simp add: w2_def w'_def)
    moreover have "idle w'" "in_use w' \<subseteq> insert i (in_use w)" using 1(2,3,5) 3(2-4) by (auto simp: idle_def w'_def w2_def)
    ultimately show ?thesis by blast
  next
    case False
    then have "run_program os path args bg w = Some (sys (Fork (child_calls path args)) w)" by (simp add: run_program_def Let_def cs_def child_def)
    then show ?thesis using w by (intro exI [of _ "sys (Fork (child_calls path args)) w"]) auto
  qed
qed

lemma execute_command_idle:
  assumes w: "idle w" and f: "card (in_use w) < MAX_ARGS" and os: "os_ok os"
  shows "\<exists>ended w'. execute_command os args bg w = Some (ended, w') \<and> idle w' \<and> (\<exists>i. in_use w' \<subseteq> insert i (in_use w))"
proof -
  have "jobs_command w = Some (w\<lparr>w_calls := w_calls w @ map (\<lambda>k. Out (job_line (job_of w k)))
    (filter (\<lambda>k. background (job_of w k)) (takeWhile (\<lambda>k. k \<in> in_use w) [0..<MAX_ARGS]))\<rparr>)"
    using w by (simp add: jobs_command_def jobs_loop_eq idle_def)
  then obtain cs where jb: "jobs_command w = Some (w\<lparr>w_calls := cs\<rparr>)" by blast
  have cd: "idle (cd_command os args w)" "in_use (cd_command os args w) = in_use w" using w by (simp_all add: cd_command_def Let_def)
  obtain w1 where fg: "fg_command os (if length args = 2 then atoi (args ! 1) else -1) w = Some w1" "idle w1" "in_use w1 = in_use w" using fg_idle [OF w] by blast
  obtain w2 where bgc: "bg_command (if length args > 1 then atoi (args ! 1) else -1) w = Some w2" "idle w2" "in_use w2 = in_use w" using bg_idle [OF w] by blast
  have rp: "\<exists>ended w'. (do { w \<leftarrow> run_program os path args bg w; Some (False, w) }) = Some (ended, w') \<and> idle w' \<and> (\<exists>i. in_use w' \<subseteq> insert i (in_use w))" for path
    using run_program_idle [OF w f os, of path args bg] by (elim exE conjE) auto
  show ?thesis
    unfolding execute_command_def Let_def jb fg(1) bgc(1) bind.bind_lunit
    using w cd fg(2,3) bgc(2,3) rp by (auto split: option.split)
qed

text \<open>Waiting for all children of a pipeline.\<close>

lemma wait_all_idle:
  assumes "w_cur w = -1" "wr_pid (os_waitpid os (w_calls w @ replicate (Suc n) Wait)) \<le> 1"
  shows "\<exists>k. wait_all os w = Some (w\<lparr>w_calls := w_calls w @ replicate (Suc k) Wait\<rparr>)"
  using assms
proof (induction n arbitrary: w)
  case 0
  then show ?case by (intro exI [of _ 0], subst wait_all.simps) (simp add: waiting_idle sys_def)
next
  case (Suc n)
  show ?case
  proof (cases "1 < wr_pid (os_waitpid os (w_calls w @ [Wait]))")
    case True
    have "w_cur (sys Wait w) = -1" "wr_pid (os_waitpid os (w_calls (sys Wait w) @ replicate (Suc n) Wait)) \<le> 1" using Suc.prems by simp_all
    from Suc.IH [OF this] obtain k where "wait_all os (sys Wait w) = Some (w\<lparr>w_calls := w_calls w @ replicate (Suc (Suc k)) Wait\<rparr>)" by (auto simp: sys_def)
    then show ?thesis using True Suc.prems(1) by (intro exI [of _ "Suc k"], subst wait_all.simps) (simp add: waiting_idle)
  next
    case False
    then show ?thesis using Suc.prems(1) by (intro exI [of _ 0], subst wait_all.simps) (simp add: waiting_idle sys_def)
  qed
qed

lemma make_pipes_calls: "make_pipes os n w = (r, w') \<Longrightarrow> \<exists>cs. w' = w\<lparr>w_calls := w_calls w @ cs\<rparr>"
proof (induction n arbitrary: w r w')
  case 0
  then show ?case by (auto intro: exI [of _ "[]"])
next
  case (Suc n)
  show ?case
  proof (cases "os_pipe os (w_calls w @ [Pipe])")
    case None
    then show ?thesis using Suc.prems by (auto simp: Let_def sys_def)
  next
    case (Some fds)
    then obtain r1 where "make_pipes os n (sys Pipe w) = (r1, w')" using Suc.prems by (auto simp: Let_def split: prod.splits)
    from Suc.IH [OF this] show ?thesis by (auto simp: sys_def)
  qed
qed

lemma fork_stages_calls: "fork_stages os pipefd cmds is w = (r, w') \<Longrightarrow> \<exists>cs. w' = w\<lparr>w_calls := w_calls w @ cs\<rparr>"
proof (induction "is" arbitrary: w)
  case Nil
  then show ?case by (auto intro: exI [of _ "[]"])
next
  case (Cons i "is")
  show ?case
  proof (cases "os_fork os (w_calls w) = -1")
    case True
    then show ?thesis using Cons.prems by (auto simp: Let_def sys_def)
  next
    case False
    then show ?thesis using Cons.IH [of "sys (Fork (stage_calls (os_fork os (w_calls w)) pipefd cmds i)) w"] Cons.prems by (auto simp: Let_def sys_def)
  qed
qed

lemma execute_pipe_idle:
  assumes w: "idle w" and os: "os_ok os"
  shows "\<exists>ended w'. execute_pipe os args n w = Some (ended, w') \<and> idle w' \<and> in_use w' = in_use w"
proof -
  obtain r1 w1 where 1: "make_pipes os (n - 1) w = (r1, w1)" by (cases "make_pipes os (n - 1) w")
  from make_pipes_calls [OF 1] have i1: "idle w1" "in_use w1 = in_use w" using w by (elim exE, simp)+
  show ?thesis
  proof (cases r1)
    case None
    then have "execute_pipe os args n w = Some (True, w1)" using 1 by (simp add: execute_pipe_def)
    then show ?thesis using i1 by (intro exI [of _ True] exI [of _ w1]) simp
  next
    case (Some fds)
    obtain b w2 where 2: "fork_stages os fds (split_cmds args []) [0..<n] w1 = (b, w2)" by (cases "fork_stages os fds (split_cmds args []) [0..<n] w1")
    from fork_stages_calls [OF 2] have i2: "idle w2" "in_use w2 = in_use w" using i1 by (elim exE, simp)+
    define w3 where "w3 = w2\<lparr>w_calls := w_calls w2 @ close_all fds\<rparr>"
    have i3: "idle w3" "in_use w3 = in_use w" using i2 by (simp_all add: w3_def)
    obtain m where m: "wr_pid (os_waitpid os (w_calls w3 @ replicate (Suc m) Wait)) \<le> 1" using waits_end [OF os, of "w_calls w3"] by (elim exE)
    have "w_cur w3 = -1" using i3(1) by (simp add: idle_def)
    from wait_all_idle [OF this m] obtain k where k: "wait_all os w3 = Some (w3\<lparr>w_calls := w_calls w3 @ replicate (Suc k) Wait\<rparr>)" by (elim exE)
    define w4 where "w4 = w3\<lparr>w_calls := w_calls w3 @ replicate (Suc k) Wait\<rparr>"
    have i4: "idle w4" "in_use w4 = in_use w" using i3 by (simp_all add: w4_def)
    have "execute_pipe os args n w = (if b then Some (True, w2) else Some (False, w4))"
      using 1 2 Some k [folded w4_def] by (simp add: execute_pipe_def Let_def w3_def [symmetric])
    then show ?thesis using i2 i4 by (intro exI [of _ b] exI [of _ "if b then w2 else w4"]) simp
  qed
qed

section \<open>Sessions\<close>

definition words :: "string \<Rightarrow> string list" where
  "words l = tokens '' '' (chomp l)"

lemma run_line_idle:
  assumes w: "idle w" and f: "card (in_use w) < MAX_ARGS" and os: "os_ok os" and l: "length (words l) < MAX_ARGS"
  shows "\<exists>ended w'. run_line os l w = Some (ended, w') \<and> idle w' \<and> card (in_use w') \<le> Suc (card (in_use w))"
proof -
  have fin: "finite (in_use w)" for w by (simp add: in_use_def)
  obtain bg where p: "parse_input (chomp l) = Some (words l, bg)" using l by (simp add: parse_input_def words_def Let_def)
  have "set [0..<MAX_ARGS] \<subseteq> {..<MAX_ARGS}" by auto
  from remove_loop_idle [OF w this, of os] obtain w1 where 1: "remove_finished_jobs os w = Some w1" "idle w1" "in_use w1 \<subseteq> in_use w" by (auto simp: remove_finished_jobs_def)
  have c1: "card (in_use w1) \<le> card (in_use w)" using card_mono [OF fin 1(3)] .
  then have "card (in_use w1) < MAX_ARGS" using f by simp
  from execute_command_idle [OF 1(2) this os, of "words l" bg] obtain ended w2 i where 2: "execute_command os (words l) bg w1 = Some (ended, w2)" "idle w2"
    "in_use w2 \<subseteq> insert i (in_use w1)" by blast
  have "card (in_use w2) \<le> card (insert i (in_use w1))" by (rule card_mono [OF _ 2(3)]) (simp add: fin)
  also have "\<dots> \<le> Suc (card (in_use w))" using card_insert_le_m1 [of "Suc (card (in_use w))" "in_use w1" i] c1 by simp
  finally have c2: "card (in_use w2) \<le> Suc (card (in_use w))" .
  from execute_pipe_idle [OF w os, of "words l"] obtain e3 w3 where
    "execute_pipe os (words l) (1 + length (filter (\<lambda>a. a = ''|'') (words l))) w = Some (e3, w3)" "idle w3" "in_use w3 = in_use w" by blast
  then show ?thesis using p 1(1) 2(1,2) c2 w by (cases "words l = []") (auto simp: run_line_def Let_def)
qed

definition is_line :: "input \<Rightarrow> bool" where
  "is_line i = (case i of Line _ \<Rightarrow> True | Signal _ \<Rightarrow> False)"

definition short_line :: "input \<Rightarrow> bool" where
  "short_line i = (case i of Line l \<Rightarrow> length (words l) < MAX_ARGS | Signal _ \<Rightarrow> True)"

lemma interactive_loop_idle:
  assumes "idle w" "card (in_use w) + length (filter is_line ins) \<le> MAX_ARGS" "os_ok os" "list_all short_line ins"
  shows "\<exists>w'. interactive_loop os ins w = Some w' \<and> idle w'"
  using assms
proof (induction ins arbitrary: w)
  case (Cons x ins)
  show ?case
  proof (cases x)
    case (Line l)
    have "card (in_use w) < MAX_ARGS" "length (words l) < MAX_ARGS" using Cons.prems(2,4) Line unfolding Line by (simp_all add: is_line_def [of "Line l"] short_line_def)
    from run_line_idle [OF Cons.prems(1) this(1) Cons.prems(3) this(2)] obtain ended w1 where 1: "run_line os l w = Some (ended, w1)" "idle w1" "card (in_use w1) \<le> Suc (card (in_use w))" by blast
    have "card (in_use (prompt w1)) + length (filter is_line ins) \<le> MAX_ARGS" using Cons.prems(2) 1(3) unfolding Line prompt_def by (simp add: is_line_def [of "Line l"])
    from Cons.IH [OF _ this Cons.prems(3)] show ?thesis using 1 Line Cons.prems(4) by (cases ended) (simp_all add: prompt_def)
  next
    case (Signal s)
    then show ?thesis using Cons by (simp add: is_line_def [of "Signal s"] handle_idle idle_def)
  qed
qed simp

section \<open>Words and pipelines\<close>

text \<open>A line made of words, each after at least one blank.\<close>

definition blanks :: "nat \<Rightarrow> string" where
  "blanks n = replicate n CHR '' ''"

definition word_ok :: "string \<Rightarrow> bool" where
  "word_ok t = (t \<noteq> [] \<and> CHR '' '' \<notin> set t)"

lemma tokens_blanks: "tokens '' '' (blanks n @ s) = tokens '' '' s"
  by (induction n) (simp_all add: blanks_def tokens_delim)

lemma tokens_first:
  assumes "word_ok t" "s = [] \<or> hd s = CHR '' ''"
  shows "tokens '' '' (t @ s) = t # tokens '' '' s"
proof (cases s)
  case Nil
  then show ?thesis using assms by (simp add: word_ok_def tokens_word)
next
  case (Cons c u)
  then have c: "c = CHR '' ''" using assms(2) by simp
  have "tokens '' '' (t @ c # u) = t # tokens '' '' u"
    using assms(1) strtok_word(2) [of t "'' ''" c u] by (subst tokens.simps) (simp add: word_ok_def c)
  then show ?thesis using Cons c tokens_delim [of c "'' ''" u] by simp
qed

definition spaced :: "(nat \<times> string) list \<Rightarrow> string" where
  "spaced ws = concat (map (\<lambda>(k, t). blanks (Suc k) @ t) ws)"

lemma tokens_spaced: "list_all (\<lambda>(k, t). word_ok t) ws \<Longrightarrow> tokens '' '' (spaced ws @ blanks n) = map snd ws"
proof (induction ws)
  case Nil
  then show ?case using tokens_blanks [of n "[]"] by (simp add: spaced_def)
next
  case (Cons x ws)
  obtain k t where x: "x = (k, t)" by (cases x)
  have h: "spaced ws @ blanks n = [] \<or> hd (spaced ws @ blanks n) = CHR '' ''"
    by (cases ws; cases n) (auto simp: spaced_def blanks_def split: prod.splits)
  have "tokens '' '' (spaced (x # ws) @ blanks n) = tokens '' '' (t @ spaced ws @ blanks n)" using tokens_blanks [of "Suc k"] by (simp add: spaced_def x)
  also have "\<dots> = t # tokens '' '' (spaced ws @ blanks n)" using Cons.prems h by (intro tokens_first) (simp_all add: x)
  finally show ?case using Cons by (simp add: x)
qed

text \<open>The commands of a pipeline joined by bars.\<close>

fun join_bars :: "string list list \<Rightarrow> string list" where
  "join_bars [] = []"
| "join_bars [c] = c"
| "join_bars (c # cs) = c @ ''|'' # join_bars cs"

lemma split_prefix: "''|'' \<notin> set c \<Longrightarrow> split_cmds (c @ args) acc = split_cmds args (acc @ c)"
  by (induction c arbitrary: acc) auto

lemma split_join: "cmds \<noteq> [] \<Longrightarrow> list_all (\<lambda>c. ''|'' \<notin> set c) cmds \<Longrightarrow> split_cmds (join_bars cmds) [] = cmds"
proof (induction cmds rule: join_bars.induct)
  case (2 c)
  then show ?case using split_prefix [of c "[]" "[]"] by simp
qed (simp_all add: split_prefix)

text \<open>The effect of calls on a table of descriptors.\<close>

fun fd_run :: "call list \<Rightarrow> (int \<Rightarrow> 'd option) \<Rightarrow> int \<Rightarrow> 'd option" where
  "fd_run [] t = t"
| "fd_run (Dup2 a b # cs) t = fd_run cs (if t a = None then t else t(b := t a))"
| "fd_run (Close a # cs) t = fd_run cs (t(a := None))"
| "fd_run (_ # cs) t = fd_run cs t"

lemma fd_run_append: "fd_run (cs @ ds) t = fd_run ds (fd_run cs t)"
  by (induction cs t rule: fd_run.induct) (simp_all add: fun_upd_def)

text \<open>The descriptors of pipes, and that they are what \<^verbatim>\<open>pipe\<close> gives: distinct, and behind the standard ones.\<close>

definition pipe_fds :: "(int \<times> int) list \<Rightarrow> int list" where
  "pipe_fds ps = concat (map (\<lambda>(r, w). [r, w]) ps)"

definition pipes_ok :: "(int \<times> int) list \<Rightarrow> bool" where
  "pipes_ok ps = (distinct (pipe_fds ps) \<and> list_all (\<lambda>f. 2 < f) (pipe_fds ps))"

lemma pipe_lists [simp]: "pipe_fds [] = []" "pipe_fds ((r, w) # ps) = r # w # pipe_fds ps" "close_all [] = []" "close_all ((r, w) # ps) = Close r # Close w # close_all ps"
  by (simp_all add: pipe_fds_def close_all_def)

lemma fd_close_all: "fd_run (close_all ps) t = (\<lambda>f. if f \<in> set (pipe_fds ps) then None else t f)"
proof (induction ps arbitrary: t)
  case (Cons p ps)
  obtain r w where p: "p = (r, w)" by (cases p)
  show ?case unfolding p by (auto simp: Cons fun_eq_iff)
qed simp

lemma pipe_ends: "k < length ps \<Longrightarrow> fst (ps ! k) \<in> set (pipe_fds ps) \<and> snd (ps ! k) \<in> set (pipe_fds ps)"
  unfolding pipe_fds_def by (induction ps arbitrary: k) (auto simp: nth_Cons split: nat.splits prod.splits)

text \<open>The table of a shell that has just made the pipes.\<close>

datatype 'd descriptor = Reads nat | Writes nat | Other 'd

definition pipe_table :: "(int \<times> int) list \<Rightarrow> (int \<Rightarrow> 'd descriptor option) \<Rightarrow> bool" where
  "pipe_table ps t = (\<forall>k < length ps. t (fst (ps ! k)) = Some (Reads k) \<and> t (snd (ps ! k)) = Some (Writes k))"

lemma stage_fds:
  assumes ok: "pipes_ok ps" and t: "pipe_table ps t" and n: "length cmds = Suc (length ps)" "i < length cmds"
  shows "fd_run (stage_calls self ps cmds i) t = (\<lambda>f. if f \<in> set (pipe_fds ps) then None else if f = 0 \<and> 0 < i then Some (Reads (i - 1))
    else if f = 1 \<and> i < length ps then Some (Writes i) else t f)"
proof -
  have g: "2 < f" if "f \<in> set (pipe_fds ps)" for f using ok that by (auto simp: pipes_ok_def list_all_iff)
  have tl: "fd_run (case cmds ! i of [] \<Rightarrow> [Crash] | c # _ \<Rightarrow> if 256 \<le> length (''/bin/'' @ c) then [Crash] else [Execvp (''/bin/'' @ c) (cmds ! i), Exit (-1)]) u = u" for u :: "int \<Rightarrow> 'd descriptor option"
    by (auto split: list.split)
  have rd: "t (fst (ps ! (i - 1))) = Some (Reads (i - 1))" if "0 < i" using t n that by (simp add: pipe_table_def)
  have wr: "(if 0 < i then t(0 := Some (Reads (i - 1))) else t) (snd (ps ! i)) = Some (Writes i)" if "i < length ps"
  proof -
    have "2 < snd (ps ! i)" using g pipe_ends [OF that] by blast
    then show ?thesis using t that by (auto simp: pipe_table_def)
  qed
  show ?thesis unfolding stage_calls_def fd_run_append tl fd_close_all using rd wr n by (auto simp: fun_eq_iff)
qed

section \<open>Properties\<close>

text \<open>C3. An interactive session does not crash the shell, when signals arrive only at the prompt and while the shell waits. In a session of at most 256 lines of at most 255
  words each, on a system that has memory for a job record, delivers the \<^verbatim>\<open>SIGCHLD\<close> for a child in the foreground during the wait for it (\<^const>\<open>os_ok\<close>) and runs out of children after
  finitely many waits, with any other signals at the prompt and during waits, the shell runs to the end of its input or to its exit: no null pointer is followed
  and no array is left. Then the table of jobs is consistent and there is no current job. Excluded is the race at \<^verbatim>\<open>wsh.c:162\<close>: a \<^verbatim>\<open>SIGCHLD\<close> that arrives between the
  fork and the assignment of \<^verbatim>\<open>cur_id\<close> can make a later one follow a null pointer.\<close>

theorem wsh_session_runs:
  assumes "os_ok os" "length (filter is_line ins) \<le> MAX_ARGS" "list_all short_line ins"
  shows "\<exists>w. wsh_main os shell 1 contents ins = Some w \<and> tab_ok w \<and> w_cur w = -1"
proof -
  have st: "tab_ok (start_wsh shell)" "in_use (start_wsh shell) = {}" by (simp_all add: tab_ok_def slot_ok_def in_use_def start_wsh_def)
  then have "idle (prompt (start_wsh shell))" "card (in_use (prompt (start_wsh shell))) + length (filter is_line ins) \<le> MAX_ARGS"
    using assms(2) by (simp_all add: prompt_def idle_def) (simp add: start_wsh_def)
  from interactive_loop_idle [OF this assms(1,3)] show ?thesis by (auto simp: wsh_main_def interactive_mode_def idle_def Let_def)
qed

text \<open>A system on which every program exists and runs to its end at once.\<close>

definition quick_os :: os where
  "quick_os = \<lparr>os_access = (\<lambda>_. True), os_malloc = (\<lambda>_. True), os_fork = (\<lambda>_. 7),
     os_waitpid = (\<lambda>cs. \<lparr>wr_pid = (if last cs = Wait then -1 else 7), wr_stopped = False, wr_signals = [SIGCHLD]\<rparr>),
     os_chdir = (\<lambda>_. 0), os_pipe = (\<lambda>cs. Some (int (2 * length cs), int (2 * length cs + 1)))\<rparr>"

lemma quick_os_ok: "os_ok quick_os"
  by (simp add: os_ok_def quick_os_def)

theorem wsh_session_runs_witness:
  "\<exists>w. wsh_main quick_os 1 1 None [Line ''ls -l &'', Signal SIGINT, Line ''fg'', Line ''cat x | wc''] = Some w \<and> tab_ok w \<and> w_cur w = -1"
proof -
  have "list_all short_line [Line ''ls -l &'', Signal SIGINT, Line ''fg'', Line ''cat x | wc'']"
    by (simp add: short_line_def words_def tokens_eq_split chomp_def MAX_ARGS_def)
  moreover have "length (filter is_line [Line ''ls -l &'', Signal SIGINT, Line ''fg'', Line ''cat x | wc'']) \<le> MAX_ARGS" by (simp add: is_line_def MAX_ARGS_def)
  ultimately show ?thesis using wsh_session_runs [OF quick_os_ok] by blast
qed

text \<open>Printing words with any blanks between them and parsing the line gives the words back, and the line is a background command
  exactly if the last word is an ampersand.\<close>

theorem parse_input_words:
  assumes "list_all (\<lambda>(k, t). word_ok t) ws" "length ws < MAX_ARGS"
  shows "parse_input (spaced ws @ blanks n) = Some (map snd ws, if ws \<noteq> [] \<and> snd (last ws) = ''&'' then 0 else 1)"
  using assms tokens_spaced [OF assms(1), of n] by (auto simp: parse_input_def Let_def last_map)

theorem parse_input_words_witness:
  "parse_input ''  ls   -l & '' = Some ([''ls'', ''-l'', ''&''], 0)"
  using parse_input_words [of "[(1, ''ls''), (2, ''-l''), (0, ''&'')]" 1] by (simp add: word_ok_def MAX_ARGS_def spaced_def blanks_def numeral_eq_Suc)

text \<open>C34. \<^verbatim>\<open>fg\<close> without a number takes the job with the largest number among those in the background: it gets the terminal, is continued and
  waited for, and the shell takes the terminal back. Its status is then foreground, or stopped if the wait ended with a stop; no other
  job changes. With no job in the background there is only a message.\<close>

theorem fg_resumes_largest:
  assumes w: "idle w"
  shows "if \<exists>i \<in> in_use w. background (job_of w i)
    then let i = Max {i \<in> in_use w. background (job_of w i)}; j = job_of w i; cs = w_calls w @ fg_calls w j in
      \<exists>w'. fg_command os (-1) w = Some w' \<and> w_calls w' = cs @ [Tcsetpgrp (w_pgid w)] \<and> idle w' \<and> in_use w' = in_use w \<and>
        job_of w' i = j\<lparr>status := if wr_stopped (os_waitpid os cs) then 2 else 1\<rparr> \<and> (\<forall>k \<in> in_use w. k \<noteq> i \<longrightarrow> job_of w' k = job_of w k)
    else fg_command os (-1) w = Some (sys (Out (''No background jobs available.'' @ newline)) w)"
proof -
  have t: "tab_ok w" using w by (simp add: idle_def)
  obtain m where m: "largest_id background w [0..<MAX_ARGS] (-1) = Some m" "\<And>i. i \<in> in_use w \<Longrightarrow> background (job_of w i) \<Longrightarrow> int i + 1 \<le> m"
    "m = -1 \<or> (\<exists>i \<in> in_use w. background (job_of w i) \<and> m = int i + 1)" using largest_id_all [OF t] by blast
  show ?thesis
  proof (cases "\<exists>i \<in> in_use w. background (job_of w i)")
    case True
    then obtain i where i: "i \<in> in_use w" "background (job_of w i)" "m = int i + 1" using m(2,3) by force
    have mx: "Max {i \<in> in_use w. background (job_of w i)} = i"
      using i m(2) by (intro Max_eqI) (auto simp: in_use_def)
    define j cs where "j = job_of w i" and "cs = w_calls w @ fg_calls w j"
    define p where "p = w_jobs w ! i"
    define j' where "j' = j\<lparr>status := if wr_stopped (os_waitpid os cs) then 2 else 1\<rparr>"
    define w' where "w' = put_job p j' w\<lparr>w_calls := cs @ [Tcsetpgrp (w_pgid w)]\<rparr>"
    have ex: "\<exists>i \<in> in_use w. background (job_of w i) \<and> m = int i + 1" using i by blast
    have n: "nat (m - 1) = i" using i(3) by simp
    have "fg_job os m w = Some w'" unfolding fg_job_eq [OF w] if_P [OF ex] n Let_def by (simp add: w'_def p_def j'_def cs_def j_def)
    then have e: "fg_command os (-1) w = Some w'" using m(1) i(3) by (simp add: fg_command_def)
    have d: "deref w p = Some j" using used_deref [OF t i(1)] by (simp add: p_def j_def)
    have "idle w'" using idle_put [OF w d] by (simp add: w'_def j'_def)
    moreover have "job_of w' i = j'" using i(1) by (simp add: job_of_def w'_def p_def deref_def in_use_def)
    moreover have "job_of w' k = job_of w k" if "k \<in> in_use w" "k \<noteq> i" for k
      using tab_okD(4) [OF t, of k i] that i(1) by (auto simp: job_of_def w'_def p_def deref_def in_use_def)
    ultimately have "\<exists>w'. fg_command os (-1) w = Some w' \<and> w_calls w' = cs @ [Tcsetpgrp (w_pgid w)] \<and> idle w' \<and> in_use w' = in_use w \<and>
        job_of w' i = j' \<and> (\<forall>k \<in> in_use w. k \<noteq> i \<longrightarrow> job_of w' k = job_of w k)" using e by (intro exI [of _ w']) (simp add: w'_def in_use_def)
    then show ?thesis using True unfolding mx Let_def by (simp add: j'_def cs_def j_def)
  next
    case False
    then have "m = -1" using m(3) by blast
    then show ?thesis using False m(1) by (simp add: fg_command_def)
  qed
qed

text \<open>A shell with two jobs in the background, the second one stopped.\<close>

definition two_jobs :: wsh where
  "two_jobs = (start_wsh 1)\<lparr>w_jobs := 1 # 2 # replicate 254 0, w_id := 1 # 1 # replicate 254 0, w_brk := 2,
     w_heap := [1 \<mapsto> new_job 50 0 [''a'', ''&''] 0, 2 \<mapsto> new_job 60 1 [''b''] 2]\<rparr>"

lemma two_jobs_nth: "(1 # 2 # replicate 254 (0 :: nat)) ! i = (if i = 0 then 1 else if i = 1 then 2 else if i < 256 then 0 else replicate 254 0 ! (i - 2))"
  by (auto simp: nth_Cons split: nat.split)

lemma two_jobs_in_use: "in_use two_jobs = {0, 1}"
proof -
  have "w_jobs two_jobs = 1 # 2 # replicate 254 0" by (simp add: two_jobs_def)
  then show ?thesis unfolding in_use_def by (simp only: two_jobs_nth) (auto simp: MAX_ARGS_def split: if_splits)
qed

lemma two_jobs_idle: "idle two_jobs"
proof -
  have f: "w_jobs two_jobs = 1 # 2 # replicate 254 0" "w_id two_jobs = 1 # 1 # replicate 254 0" "w_brk two_jobs = 2" "w_cur two_jobs = -1"
    "w_heap two_jobs = [1 \<mapsto> new_job 50 0 [''a'', ''&''] 0, 2 \<mapsto> new_job 60 1 [''b''] 2]" by (simp_all add: two_jobs_def start_wsh_def)
  have "slot_ok two_jobs i" if "i < MAX_ARGS" for i
    using that by (auto simp: slot_ok_def f nth_Cons MAX_ARGS_def new_job_def split: nat.split)
  moreover have "i = k" if "i < MAX_ARGS" "k < MAX_ARGS" "w_jobs two_jobs ! i = w_jobs two_jobs ! k" "w_jobs two_jobs ! i \<noteq> 0" for i k
    using that unfolding f two_jobs_nth by (auto simp: MAX_ARGS_def split: if_splits)
  moreover have "length (w_jobs two_jobs) = MAX_ARGS" "length (w_id two_jobs) = MAX_ARGS" by (simp_all add: f MAX_ARGS_def)
  moreover have "\<forall>p > w_brk two_jobs. w_heap two_jobs p = None" by (simp add: f)
  ultimately show ?thesis unfolding idle_def tab_ok_def f(4) by blast
qed

lemma two_jobs_of: "job_of two_jobs 0 = new_job 50 0 [''a'', ''&''] 0" "job_of two_jobs 1 = new_job 60 1 [''b''] 2" "job_of two_jobs (Suc 0) = new_job 60 1 [''b''] 2"
  by (simp_all add: job_of_def deref_def two_jobs_def)

theorem fg_resumes_largest_witness:
  "\<exists>w'. fg_command quick_os (-1) two_jobs = Some w' \<and> Kill (-60) SIGCONT \<in> set (w_calls w') \<and> status (job_of w' 1) = 1"
proof -
  have b: "{i \<in> in_use two_jobs. background (job_of two_jobs i)} = {0, 1}" by (auto simp: two_jobs_in_use two_jobs_of background_def new_job_def)
  then have ex: "\<exists>i \<in> in_use two_jobs. background (job_of two_jobs i)" by blast
  have mx: "Max {0, 1 :: nat} = 1" by simp
  from fg_resumes_largest [OF two_jobs_idle, of quick_os, unfolded if_P [OF ex] b mx Let_def] obtain w' where
    "fg_command quick_os (-1) two_jobs = Some w'" "w_calls w' = (w_calls two_jobs @ fg_calls two_jobs (job_of two_jobs 1)) @ [Tcsetpgrp (w_pgid two_jobs)]"
    "job_of w' 1 = (job_of two_jobs 1)\<lparr>status := if wr_stopped (os_waitpid quick_os (w_calls two_jobs @ fg_calls two_jobs (job_of two_jobs 1))) then 2 else 1\<rparr>"
    by (elim exE conjE)
  then show ?thesis by (intro exI [of _ w']) (simp add: fg_calls_def two_jobs_of new_job_def quick_os_def)
qed

text \<open>The handlers that run when the foreground program ends, and when it is stopped.\<close>

lemma foreground_signals:
  assumes t: "tab_ok w" and i: "i \<in> in_use w" "w_cur w = int i + 1"
  shows "status (job_of w i) = 1 \<Longrightarrow> handle_all [SIGCHLD] w = Some ((clear_slot i w)\<lparr>w_cur := -1\<rparr>)"
    "handle_all [SIGTSTP, SIGCHLD] w = Some ((put_job (w_jobs w ! i) (job_of w i\<lparr>status := 2\<rparr>) (sys (Kill (pgid (job_of w i)) SIGSTOP) w))\<lparr>w_cur := -1\<rparr>)"
proof -
  have s: "slot w (int i) = Some (w_jobs w ! i)" "w_jobs w ! i \<noteq> 0" using i(1) by (simp_all add: slot_def in_use_def)
  note d = used_deref [OF t i(1)]
  show "status (job_of w i) = 1 \<Longrightarrow> handle_all [SIGCHLD] w = Some ((clear_slot i w)\<lparr>w_cur := -1\<rparr>)"
    using s d i(2) by (simp add: handle_def sigchild_handler_def)
  have "slot (put_job p j (sys c w)) k = slot w k" for p j c k by (simp add: slot_def)
  then show "handle_all [SIGTSTP, SIGCHLD] w = Some ((put_job (w_jobs w ! i) (job_of w i\<lparr>status := 2\<rparr>) (sys (Kill (pgid (job_of w i)) SIGSTOP) w))\<lparr>w_cur := -1\<rparr>)"
    using s d i(2) by (simp add: handle_def sigchild_handler_def sigtstp_handler_def)
qed

text \<open>A job entered at a free place and waited for: what its end and its stop leave.\<close>

lemma foreground_end:
  assumes t: "tab_ok w1" "in_use w1 = insert i U" "i \<notin> U" "i < MAX_ARGS" and s: "status (job_of w1 i) = 1"
    and w2: "w2 = sys c (w1\<lparr>w_cur := int i + 1\<rparr>)"
  obtains w3 where "handle_all [SIGCHLD] w2 = Some w3" "idle w3" "in_use w3 = U" "w_calls w3 = w_calls w2" "w_pgid w3 = w_pgid w1" "\<forall>k \<in> U. job_of w3 k = job_of w1 k"
proof -
  define w3 where "w3 = (clear_slot i w2)\<lparr>w_cur := -1\<rparr>"
  have j2: "job_of w2 = job_of w1" by (simp add: w2 job_of_def fun_eq_iff)
  have t2: "tab_ok w2" "i \<in> in_use w2" "w_cur w2 = int i + 1" "in_use w2 = insert i U" using t by (simp_all add: w2)
  have h: "handle_all [SIGCHLD] w2 = Some w3" using foreground_signals(1) [OF t2(1-3)] s by (simp add: w3_def j2)
  have "tab_ok w3" "in_use w3 = in_use w2 - {i}" using clear_ok [OF t2(1) t(4), of w3] by (simp_all add: w3_def)
  moreover have "job_of w3 k = job_of w1 k" if "k \<in> U" for k
  proof -
    have "k \<noteq> i" using that t(3) by auto
    then show ?thesis by (simp add: w3_def job_of_def deref_def w2)
  qed
  ultimately show ?thesis using that [OF h] t(3) t2(4) by (auto simp: idle_def w3_def w2)
qed

lemma foreground_stop:
  assumes t: "tab_ok w1" "in_use w1 = insert i U" "i \<notin> U" and w2: "w2 = sys c (w1\<lparr>w_cur := int i + 1\<rparr>)"
  obtains w3 where "handle_all [SIGTSTP, SIGCHLD] w2 = Some w3" "idle w3" "in_use w3 = insert i U" "w_calls w3 = w_calls w2 @ [Kill (pgid (job_of w1 i)) SIGSTOP]"
    "w_pgid w3 = w_pgid w1" "job_of w3 i = job_of w1 i\<lparr>status := 2\<rparr>" "\<forall>k \<in> U. job_of w3 k = job_of w1 k"
proof -
  define p where "p = w_jobs w1 ! i"
  define w3 where "w3 = (put_job p (job_of w1 i\<lparr>status := 2\<rparr>) (sys (Kill (pgid (job_of w1 i)) SIGSTOP) w2))\<lparr>w_cur := -1\<rparr>"
  have j2: "job_of w2 = job_of w1" "w_jobs w2 = w_jobs w1" by (simp_all add: w2 job_of_def fun_eq_iff)
  have t2: "tab_ok w2" "i \<in> in_use w2" "w_cur w2 = int i + 1" "in_use w2 = insert i U" using t by (simp_all add: w2)
  have h: "handle_all [SIGTSTP, SIGCHLD] w2 = Some w3" using foreground_signals(2) [OF t2(1-3)] by (simp add: w3_def j2 p_def)
  have nz: "p \<noteq> 0" using t2(2) by (simp add: in_use_def p_def j2)
  have "tab_ok w3" using put_job_ok [of "sys (Kill (pgid (job_of w1 i)) SIGSTOP) w2" p "job_of w1 i"] used_deref [OF t2(1,2)] t2(1) by (simp add: w3_def j2 p_def)
  moreover have "job_of w3 i = job_of w1 i\<lparr>status := 2\<rparr>" using nz unfolding job_of_def [of w3] by (simp add: w3_def p_def j2)
  moreover have "job_of w3 k = job_of w1 k" if k: "k \<in> U" for k
  proof -
    have "w_jobs w1 ! k \<noteq> p" using tab_okD(4) [OF t(1), of k i] t(2,3) k unfolding p_def in_use_def by blast
    then show ?thesis unfolding job_of_def by (simp add: w3_def j2) (simp add: w2)
  qed
  moreover have "in_use w3 = in_use w2" by (simp add: w3_def in_use_def)
  ultimately show ?thesis using that [OF h] t2(4) by (auto simp: idle_def w3_def w2)
qed

text \<open>C19. A program becomes a job with the smallest number that no job has. The forked child leads a group of its own and executes the program with the words of
  the line, without ampersands if the last word is one. A command with an ampersand at the end leaves the job in the table with the status
  of the line; one that is waited for to its end leaves the table as it was; one that Ctrl-Z stops
  gets the stop signal and stays in the table as stopped. All other jobs are unchanged.\<close>

theorem program_becomes_job:
  assumes w: "idle w" and f: "card (in_use w) < MAX_ARGS" and mem: "\<forall>cs. os_malloc os cs"
    and i: "i = (LEAST i. i \<notin> in_use w)" and cs: "cs = w_calls w @ [Fork (child_calls path args)]" and child: "child = os_fork os cs" "0 < child"
    and sg: "sigs = wr_signals (os_waitpid os (cs @ [Waitpid child False True]))"
  shows "if last args = ''&''
    then \<exists>w'. run_program os path args st w = Some w' \<and> w_calls w' = cs @ [Waitpid child True False] \<and> idle w' \<and>
      in_use w' = insert i (in_use w) \<and> job_of w' i = new_job child i args st \<and> (\<forall>k \<in> in_use w. job_of w' k = job_of w k)
    else (sigs = [SIGCHLD] \<and> st = 1 \<longrightarrow> (\<exists>w'. run_program os path args st w = Some w' \<and> w_calls w' = cs @ [Waitpid child False True, Tcsetpgrp (w_pgid w)] \<and>
        idle w' \<and> in_use w' = in_use w \<and> (\<forall>k \<in> in_use w. job_of w' k = job_of w k))) \<and>
      (sigs = [SIGTSTP, SIGCHLD] \<longrightarrow> (\<exists>w'. run_program os path args st w = Some w' \<and>
        w_calls w' = cs @ [Waitpid child False True, Kill child SIGSTOP, Tcsetpgrp (w_pgid w)] \<and> idle w' \<and>
        in_use w' = insert i (in_use w) \<and> job_of w' i = new_job child i args 2 \<and> (\<forall>k \<in> in_use w. job_of w' k = job_of w k)))"
proof -
  obtain i' w1 where 1: "i' < MAX_ARGS" "i' \<notin> in_use w" "{..<i'} \<subseteq> in_use w" "tab_ok w1" "in_use w1 = insert i' (in_use w)" "w_calls w1 = cs" "w_cur w1 = -1" "w_pgid w1 = w_pgid w"
    "job_of w1 i' = new_job child i' args st" "\<forall>k \<in> in_use w. job_of w1 k = job_of w k"
    "run_program os path args st w = (if last args = ''&'' then Some (sys (Waitpid child True False) w1)
       else do { w3 \<leftarrow> handle_all (wr_signals (os_waitpid os (cs @ [Waitpid child False True]))) (sys (Waitpid child False True) (w1\<lparr>w_cur := int i' + 1\<rparr>));
                 Some (sys (Tcsetpgrp (w_pgid w3)) w3) })"
    by (rule program_started [OF w f mem cs child, of st])
  have ii: "i' = i" unfolding i using 1(2,3) by (intro Least_equality [symmetric]) (auto simp: subset_iff not_less [symmetric])
  note 1 = 1 [unfolded ii, folded sg]
  define w2 where "w2 = sys (Waitpid child False True) (w1\<lparr>w_cur := int i + 1\<rparr>)"
  have c2: "w_calls w2 = cs @ [Waitpid child False True]" using 1(6) by (simp add: w2_def)
  have jsys: "job_of (sys c x) = job_of x" for c x by (simp add: job_of_def fun_eq_iff)
  show ?thesis
  proof (cases "last args = ''&''")
    case True
    then show ?thesis using 1 by (intro if_P [THEN iffD2] exI [of _ "sys (Waitpid child True False) w1"]) (simp_all add: idle_def jsys)
  next
    case False
    have r: "run_program os path args st w = do { w3 \<leftarrow> handle_all sigs w2; Some (sys (Tcsetpgrp (w_pgid w3)) w3) }" using 1(11) False by (simp add: w2_def)
    have "\<exists>w'. run_program os path args st w = Some w' \<and> w_calls w' = cs @ [Waitpid child False True, Tcsetpgrp (w_pgid w)] \<and>
        idle w' \<and> in_use w' = in_use w \<and> (\<forall>k \<in> in_use w. job_of w' k = job_of w k)" if s: "sigs = [SIGCHLD] \<and> st = 1"
    proof -
      have "status (job_of w1 i) = 1" using 1(9) s by (simp add: new_job_def)
      from foreground_end [OF 1(4,5,2,1) this w2_def] obtain w3 where "handle_all [SIGCHLD] w2 = Some w3" "idle w3" "in_use w3 = in_use w" "w_calls w3 = w_calls w2"
        "w_pgid w3 = w_pgid w1" "\<forall>k \<in> in_use w. job_of w3 k = job_of w1 k" by blast
      then show ?thesis using r s 1(8,10) c2 by (intro exI [of _ "sys (Tcsetpgrp (w_pgid w)) w3"]) (simp add: jsys)
    qed
    moreover have "\<exists>w'. run_program os path args st w = Some w' \<and> w_calls w' = cs @ [Waitpid child False True, Kill child SIGSTOP, Tcsetpgrp (w_pgid w)] \<and> idle w' \<and>
        in_use w' = insert i (in_use w) \<and> job_of w' i = new_job child i args 2 \<and> (\<forall>k \<in> in_use w. job_of w' k = job_of w k)" if s: "sigs = [SIGTSTP, SIGCHLD]"
    proof -
      from foreground_stop [OF 1(4,5,2) w2_def] obtain w3 where "handle_all [SIGTSTP, SIGCHLD] w2 = Some w3" "idle w3" "in_use w3 = insert i (in_use w)"
        "w_calls w3 = w_calls w2 @ [Kill (pgid (job_of w1 i)) SIGSTOP]" "w_pgid w3 = w_pgid w1" "job_of w3 i = job_of w1 i\<lparr>status := 2\<rparr>" "\<forall>k \<in> in_use w. job_of w3 k = job_of w1 k" by blast
      then show ?thesis using r s 1(8,9,10) c2 by (intro exI [of _ "sys (Tcsetpgrp (w_pgid w)) w3"]) (simp add: jsys new_job_def)
    qed
    ultimately show ?thesis using False by simp
  qed
qed

theorem program_becomes_job_witness:
  "(\<exists>w'. run_program quick_os ''/bin/ls'' [''ls''] 1 two_jobs = Some w' \<and> in_use w' = {0, 1}) \<and>
   (\<exists>w'. run_program quick_os ''/bin/ls'' [''ls'', ''&''] 0 two_jobs = Some w' \<and> in_use w' = {0, 1, 2} \<and> job_of w' 2 = new_job 7 2 [''ls'', ''&''] 0)"
proof -
  have c: "card (in_use two_jobs) < MAX_ARGS" by (simp add: two_jobs_in_use MAX_ARGS_def)
  have m: "\<forall>cs. os_malloc quick_os cs" by (simp add: quick_os_def)
  have l: "2 = (LEAST i. i \<notin> in_use two_jobs)" unfolding two_jobs_in_use by (rule Least_equality [symmetric]) auto
  have o: "7 = os_fork quick_os cs" "0 < (7 :: int)" "[SIGCHLD] = wr_signals (os_waitpid quick_os cs)" for cs by (simp_all add: quick_os_def)
  from program_becomes_job [OF two_jobs_idle c m l refl o, where path = "''/bin/ls''" and args = "[''ls'']" and st = 1] program_becomes_job [OF two_jobs_idle c m l refl o, where path = "''/bin/ls''" and args = "[''ls'', ''&'']" and st = 0]
  show ?thesis by (simp add: two_jobs_in_use) (auto simp: insert_commute)
qed

text \<open>The calls of a pipeline whose pipes and processes can be made.\<close>

lemma make_pipes_ok: "make_pipes os n w = (Some ps, w') \<Longrightarrow> length ps = n \<and> w' = w\<lparr>w_calls := w_calls w @ replicate n Pipe\<rparr>"
proof (induction n arbitrary: w ps)
  case (Suc n)
  obtain fds ps1 where "make_pipes os n (sys Pipe w) = (Some ps1, w')" "ps = fds # ps1"
    using Suc.prems by (auto simp: Let_def split: option.splits prod.splits)
  then show ?case using Suc.IH [of "sys Pipe w" ps1] by (auto simp: sys_def)
qed simp

lemma fork_stages_ok:
  assumes "\<forall>cs. os_fork os cs \<noteq> -1"
  shows "\<exists>pids. length pids = length is \<and> fork_stages os ps cmds is w = (False, w\<lparr>w_calls := w_calls w @ map (\<lambda>(p, i). Fork (stage_calls p ps cmds i)) (zip pids is)\<rparr>)"
proof (induction "is" arbitrary: w)
  case (Cons i "is")
  define w1 where "w1 = sys (Fork (stage_calls (os_fork os (w_calls w)) ps cmds i)) w"
  from Cons.IH [of w1] obtain pids where p: "length pids = length is"
    "fork_stages os ps cmds is w1 = (False, w1\<lparr>w_calls := w_calls w1 @ map (\<lambda>(p, i). Fork (stage_calls p ps cmds i)) (zip pids is)\<rparr>)" by (elim exE conjE)
  have "fork_stages os ps cmds (i # is) w = fork_stages os ps cmds is w1" using assms by (simp add: w1_def)
  then show ?case using p by (intro exI [of _ "os_fork os (w_calls w) # pids"]) (simp add: w1_def sys_def)
qed simp

text \<open>C10. A pipeline connects its programs. If the pipes and the processes can be made, the shell forks one child for each command of the line, closes all
  ends of the pipes and waits until there is no child left. Child \<open>i\<close> executes command \<open>i\<close>; its standard
  input is the read end of pipe \<open>i - 1\<close>, its standard output the write end of pipe \<open>i\<close>, the first and the last child keep the shell's,
  and no other end of a pipe is open in any child or in the shell, so that a reader meets
  the end of its input once the program before it has ended.\<close>

theorem pipeline_connects:
  assumes w: "idle w" and os: "os_ok os" "\<forall>cs. os_fork os cs \<noteq> -1" and cmds: "cmds \<noteq> []" "list_all (\<lambda>c. ''|'' \<notin> set c) cmds"
    and ps: "make_pipes os (length cmds - 1) w = (Some ps, w0)" "pipes_ok ps" and t: "pipe_table ps t"
  shows "\<exists>w' pids n. execute_pipe os (join_bars cmds) (length cmds) w = Some (False, w') \<and> length pids = length cmds \<and>
    w_calls w' = w_calls w @ replicate (length cmds - 1) Pipe @ map (\<lambda>(p, i). Fork (stage_calls p ps cmds i)) (zip pids [0..<length cmds]) @ close_all ps @ replicate (Suc n) Wait \<and>
    (\<forall>i < length cmds. let u = fd_run (stage_calls (pids ! i) ps cmds i) t in
      u 0 = (if i = 0 then t 0 else Some (Reads (i - 1))) \<and> u 1 = (if i = length cmds - 1 then t 1 else Some (Writes i)) \<and> u 2 = t 2 \<and>
      (\<forall>f \<in> set (pipe_fds ps). u f = None)) \<and>
    (\<forall>f \<in> set (pipe_fds ps). fd_run (close_all ps) t f = None)"
proof -
  have l: "length cmds = Suc (length ps)" "w0 = w\<lparr>w_calls := w_calls w @ replicate (length cmds - 1) Pipe\<rparr>" using make_pipes_ok [OF ps(1)] cmds(1) by (cases cmds; simp)+
  obtain pids where p: "length pids = length [0..<length cmds]" "fork_stages os ps cmds [0..<length cmds] w0 =
      (False, w0\<lparr>w_calls := w_calls w0 @ map (\<lambda>(p, i). Fork (stage_calls p ps cmds i)) (zip pids [0..<length cmds])\<rparr>)" using fork_stages_ok [OF os(2), of "[0..<length cmds]" ps cmds w0] by (elim exE conjE)
  define w1 where "w1 = w0\<lparr>w_calls := w_calls w0 @ map (\<lambda>(p, i). Fork (stage_calls p ps cmds i)) (zip pids [0..<length cmds]) @ close_all ps\<rparr>"
  have "w_cur w1 = -1" using w by (simp add: w1_def l(2) idle_def)
  with waits_end [OF os(1), of "w_calls w1"] wait_all_idle obtain n where n: "wait_all os w1 = Some (w1\<lparr>w_calls := w_calls w1 @ replicate (Suc n) Wait\<rparr>)" by blast
  have e: "execute_pipe os (join_bars cmds) (length cmds) w = Some (False, w1\<lparr>w_calls := w_calls w1 @ replicate (Suc n) Wait\<rparr>)"
    using ps(1) p(2) n by (simp add: execute_pipe_def split_join [OF cmds] w1_def)
  have g: "f \<notin> set (pipe_fds ps)" if "f \<le> 2" for f using ps(2) that by (auto simp: pipes_ok_def list_all_iff)
  show ?thesis
  proof (intro exI conjI)
    show "execute_pipe os (join_bars cmds) (length cmds) w = Some (False, w1\<lparr>w_calls := w_calls w1 @ replicate (Suc n) Wait\<rparr>)" by (rule e)
    show "length pids = length cmds" using p(1) by simp
    show "\<forall>i < length cmds. let u = fd_run (stage_calls (pids ! i) ps cmds i) t in
      u 0 = (if i = 0 then t 0 else Some (Reads (i - 1))) \<and> u 1 = (if i = length cmds - 1 then t 1 else Some (Writes i)) \<and> u 2 = t 2 \<and> (\<forall>f \<in> set (pipe_fds ps). u f = None)"
      using stage_fds [OF ps(2) t l(1)] g l(1) by (auto simp: Let_def)
  qed (simp_all add: w1_def l(2) fd_close_all)
qed

theorem pipeline_connects_witness:
  "\<exists>w' pids n. execute_pipe quick_os [''cat'', ''x'', ''|'', ''wc''] 2 two_jobs = Some (False, w') \<and>
     w_calls w' = w_calls two_jobs @ [Pipe] @ map (\<lambda>(p, i). Fork (stage_calls p [(10, 11)] [[''cat'', ''x''], [''wc'']] i)) (zip pids [0, 1]) @ [Close 10, Close 11] @ replicate (Suc n) Wait \<and>
     fd_run (stage_calls (pids ! 1) [(10, 11)] [[''cat'', ''x''], [''wc'']] 1) [0 \<mapsto> Other ''tty'', 1 \<mapsto> Other ''tty'', 10 \<mapsto> Reads 0, 11 \<mapsto> Writes 0] 0 = Some (Reads 0)"
proof -
  define cmds where "cmds = [[''cat'', ''x''], [''wc'']]"
  define t :: "int \<Rightarrow> string descriptor option" where "t = [0 \<mapsto> Other ''tty'', 1 \<mapsto> Other ''tty'', 10 \<mapsto> Reads 0, 11 \<mapsto> Writes 0]"
  have c: "length (w_calls two_jobs) = 4" by (simp add: two_jobs_def start_wsh_def)
  have m: "make_pipes quick_os (length cmds - 1) two_jobs = (Some [(10, 11)], sys Pipe two_jobs)" by (simp add: cmds_def quick_os_def Let_def c)
  have o: "\<forall>cs. os_fork quick_os cs \<noteq> -1" by (simp add: quick_os_def)
  have a: "pipes_ok [(10, 11)]" "pipe_table [(10, 11)] t" "cmds \<noteq> []" "list_all (\<lambda>c. ''|'' \<notin> set c) cmds" "join_bars cmds = [''cat'', ''x'', ''|'', ''wc'']" "length cmds = 2"
    by (simp_all add: pipes_ok_def pipe_table_def t_def cmds_def)
  from pipeline_connects [OF two_jobs_idle quick_os_ok o a(3,4) m a(1,2)] obtain w' pids n where 1:
    "execute_pipe quick_os (join_bars cmds) (length cmds) two_jobs = Some (False, w')"
    "w_calls w' = w_calls two_jobs @ replicate (length cmds - 1) Pipe @ map (\<lambda>(p, i). Fork (stage_calls p [(10, 11)] cmds i)) (zip pids [0..<length cmds]) @ close_all [(10, 11)] @ replicate (Suc n) Wait"
    "\<forall>i < length cmds. let u = fd_run (stage_calls (pids ! i) [(10, 11)] cmds i) t in u 0 = (if i = 0 then t 0 else Some (Reads (i - 1))) \<and> u 1 = (if i = length cmds - 1 then t 1 else Some (Writes i)) \<and> u 2 = t 2 \<and>
      (\<forall>f \<in> set (pipe_fds [(10, 11)]). u f = None)" by (elim exE conjE)
  have u: "[0..<2] = [0, 1 :: nat]" by (simp add: upt_rec)
  have e: "execute_pipe quick_os [''cat'', ''x'', ''|'', ''wc''] 2 two_jobs = Some (False, w')" using 1(1) unfolding a(5,6) .
  have "fd_run (stage_calls (pids ! 1) [(10, 11)] cmds 1) t 0 = Some (Reads 0)" using 1(3) a(6) by (simp add: Let_def)
  then show ?thesis using 1(2) unfolding a(6) u cmds_def t_def by (intro exI conjI) (rule e, simp_all)
qed

text \<open>\<^verbatim>\<open>jobs\<close> stops at the first free entry: it prints a job in the background only if all smaller numbers are in use.\<close>

lemma jobs_stops_at_gap:
  assumes "tab_ok w" "i < MAX_ARGS" "i \<notin> in_use w"
  shows "\<exists>ks. jobs_command w = Some (w\<lparr>w_calls := w_calls w @ map (\<lambda>k. Out (job_line (job_of w k))) ks\<rparr>) \<and> (\<forall>k \<in> set ks. k < i)"
proof -
  define ks where "ks = filter (\<lambda>k. background (job_of w k)) (takeWhile (\<lambda>k. k \<in> in_use w) [0..<MAX_ARGS])"
  have "[0..<MAX_ARGS] = [0..<i] @ i # [Suc i..<MAX_ARGS]" using assms(2) by (metis le_add_same_cancel1 less_imp_add_positive upt_add_eq_append upt_conv_Cons zero_le)
  then have "set (takeWhile (\<lambda>k. k \<in> in_use w) [0..<MAX_ARGS]) \<subseteq> set [0..<i]" using assms(3) by (auto simp: takeWhile_append dest: set_takeWhileD split: if_splits)
  then show ?thesis using jobs_loop_eq [OF assms(1), of 0] by (intro exI [of _ ks]) (auto simp: jobs_command_def ks_def)
qed

text \<open>A job brought to the foreground that runs to its end keeps its entry: it is marked as the foreground job and no wait for its process succeeds any more.\<close>

lemma fg_keeps_finished_job: "\<exists>w'. fg_command quick_os 1 two_jobs = Some w' \<and> 0 \<in> in_use w' \<and> status (job_of w' 0) = 1"
proof -
  have ex: "\<exists>i \<in> in_use two_jobs. background (job_of two_jobs i) \<and> 1 = int i + 1" by (auto simp: two_jobs_in_use two_jobs_of background_def new_job_def)
  define w' where "w' = put_job (w_jobs two_jobs ! 0) (job_of two_jobs 0\<lparr>status := 1\<rparr>) two_jobs"
  have "\<exists>cs. fg_command quick_os 1 two_jobs = Some (w'\<lparr>w_calls := cs\<rparr>)"
    unfolding fg_command_def fg_job_eq [OF two_jobs_idle] if_P [OF ex] Let_def by (auto simp: w'_def quick_os_def)
  moreover have j: "w_jobs two_jobs ! 0 = 1" by (simp add: two_jobs_def)
  have "0 \<in> in_use (w'\<lparr>w_calls := cs\<rparr>)" for cs by (simp add: w'_def two_jobs_in_use)
  moreover have "status (job_of (w'\<lparr>w_calls := cs\<rparr>) 0) = 1" for cs
    unfolding job_of_def [of "w'\<lparr>w_calls := cs\<rparr>"] by (simp add: w'_def deref_def j)
  ultimately show ?thesis by (elim exE) auto
qed

end
