(* ===== verification/Manpages.thy ===== *)
theory Manpages
  imports CString
begin

text \<open>
  The three utilities for manual pages (\<^verbatim>\<open>CS_537_P1\<close>): \<^verbatim>\<open>wgroff\<close> formats a page, \<^verbatim>\<open>wman\<close> finds and prints one,
  \<^verbatim>\<open>wapropos\<close> searches all pages for a word. Files and directories are arguments: the contents that opening a path gives. A
  program returns what it prints, the files it writes and its exit status. C strings are given by the
  characters before the NUL; an index behind them, a string that overruns its buffer or a null stream is \<^term>\<open>None\<close>.
\<close>

section \<open>wgroff\<close>

text \<open>The loop of \<^verbatim>\<open>removeNewlines\<close> over the buffer.\<close>

function remove_newlines :: "nat \<Rightarrow> nat \<Rightarrow> nat \<Rightarrow> string \<Rightarrow> string" where
  "remove_newlines len readIndex writeIndex str =
    (if readIndex < len then
       if str ! readIndex \<noteq> CHR 0x0A then remove_newlines len (readIndex + 1) (writeIndex + 1) (str[writeIndex := str ! readIndex])
       else remove_newlines len (readIndex + 1) writeIndex str
     else take writeIndex str)"
  by pat_completeness auto

termination
  by (relation "measure (\<lambda>(len, r, w, str). len - r)") auto

declare remove_newlines.simps [simp del]

definition removeNewlines :: "string \<Rightarrow> string" where
  "removeNewlines str = remove_newlines (length str) 0 0 str"

definition esc :: "string \<Rightarrow> string" where
  "esc code = [CHR 0x1B, CHR ''[''] @ code @ ''m''"

text \<open>What \<^verbatim>\<open>convertFormattingMarks\<close> writes for the rest of a line.\<close>

function convertFormattingMarks :: "string \<Rightarrow> string" where
  "convertFormattingMarks formatted =
    (if formatted = [] then []
     else if strncmp_eq formatted ''/fB'' 3 then esc ''1'' @ convertFormattingMarks (drop 3 formatted)
     else if strncmp_eq formatted ''/fI'' 3 then esc ''3'' @ convertFormattingMarks (drop 3 formatted)
     else if strncmp_eq formatted ''/fU'' 3 then esc ''4'' @ convertFormattingMarks (drop 3 formatted)
     else if strncmp_eq formatted ''/fP'' 3 then esc ''0'' @ convertFormattingMarks (drop 3 formatted)
     else if strncmp_eq formatted ''//'' 2 then ''/'' @ convertFormattingMarks (drop 2 formatted)
     else hd formatted # convertFormattingMarks (tl formatted))"
  by pat_completeness auto

termination
  by (relation "measure length") auto

declare convertFormattingMarks.simps [simp del]

text \<open>The conversions of \<^verbatim>\<open>sscanf\<close> that the program uses: a word, and a decimal number.\<close>

definition scan_word :: "string \<Rightarrow> (string \<times> string) option" where
  "scan_word s = (let t = dropWhile is_space s; w = takeWhile (\<lambda>c. \<not> is_space c) t in
     if w = [] then None else Some (w, dropWhile (\<lambda>c. \<not> is_space c) t))"

definition scan_int :: "string \<Rightarrow> string option" where
  "scan_int s = (let t = dropWhile is_space s;
       u = (case t of c # r \<Rightarrow> if c = CHR ''-'' \<or> c = CHR ''+'' then r else t | [] \<Rightarrow> t) in
     if takeWhile is_digit u = [] then None else Some (dropWhile is_digit u))"

definition scan_char :: "char \<Rightarrow> string \<Rightarrow> string option" where
  "scan_char c s = (case s of d # r \<Rightarrow> if d = c then Some r else None | [] \<Rightarrow> None)"

text \<open>\<^verbatim>\<open>".TH %s %s %s"\<close> and \<^verbatim>\<open>"%d-%d-%d"\<close>.\<close>

definition scan_TH :: "string \<Rightarrow> (string \<times> string \<times> string) option" where
  "scan_TH line = do {
     (command, s) \<leftarrow> scan_word (drop 3 line);
     (section, s) \<leftarrow> scan_word s;
     (date, s) \<leftarrow> scan_word s;
     Some (command, section, date)
   }"

definition is_date :: "string \<Rightarrow> bool" where
  "is_date date = ((do {
     s \<leftarrow> scan_int date; s \<leftarrow> scan_char CHR ''-'' s; s \<leftarrow> scan_int s; s \<leftarrow> scan_char CHR ''-'' s; scan_int s
   }) \<noteq> None)"

text \<open>\<^verbatim>\<open>"%*s"\<close> of the empty string: a negative width is a width with the text to the left.\<close>

definition padding :: "int \<Rightarrow> string" where
  "padding n = replicate (nat \<bar>n\<bar>) CHR '' ''"

record groff =
  g_out :: string \<comment> \<open>standard output\<close>
  g_files :: "(string \<times> string) list" \<comment> \<open>the files written; the last one is open\<close>
  g_date :: "string option"

definition put_file :: "string \<Rightarrow> groff \<Rightarrow> groff option" where
  "put_file s g = (case rev (g_files g) of [] \<Rightarrow> None | (n, c) # fs \<Rightarrow> Some (g\<lparr>g_files := rev ((n, c @ s) # fs)\<rparr>))"

definition improper :: "nat \<Rightarrow> groff \<Rightarrow> groff" where
  "improper lineNumber g = g\<lparr>g_out := g_out g @ ''Improper formatting on line '' @ show_nat lineNumber @ newline\<rparr>"

definition page_line :: "string \<Rightarrow> string \<Rightarrow> string" where
  "page_line command sect = command @ ''('' @ sect @ '')'' @ padding (80 - (int (length command) + int (length sect) + 2) * 2) @ command @ ''('' @ sect @ '')'' @ newline"

definition upper :: "char \<Rightarrow> char" where
  "upper c = (if 97 \<le> code_of c \<and> code_of c \<le> 122 then char_of (code_of c - 32) else c)"

text \<open>One line of the input. The flag says that the program ends here. \<open>creates\<close> tells which files can be made.\<close>

definition groff_TH :: "(string \<Rightarrow> bool) \<Rightarrow> nat \<Rightarrow> string \<Rightarrow> groff \<Rightarrow> (bool \<times> groff) option" where
  "groff_TH creates lineNumber line g =
    (case scan_TH line of
       None \<Rightarrow> Some (True, improper lineNumber g)
     | Some (command, sect, date) \<Rightarrow>
         if 256 \<le> length command \<or> 256 \<le> length sect \<or> 256 \<le> length date then None
         else if \<not> is_date date \<or> atoi sect < 1 \<or> 9 < atoi sect then Some (True, improper lineNumber g)
         else if \<not> creates (command @ ''.'' @ sect) then Some (True, g)
         else do {
           g \<leftarrow> put_file (page_line command sect) (g\<lparr>g_files := g_files g @ [(command @ ''.'' @ sect, [])], g_date := Some date\<rparr>);
           Some (False, g)
         })"

definition groff_SH :: "string \<Rightarrow> groff \<Rightarrow> groff option" where
  "groff_SH line g =
    (let line = map upper line; header = newline @ esc ''1'' @ removeNewlines (drop 4 line) @ esc ''0'' @ newline in
     if length line < 4 \<or> 256 \<le> length header then None else put_file header g)"

definition groff_line :: "(string \<Rightarrow> bool) \<Rightarrow> nat \<Rightarrow> string \<Rightarrow> groff \<Rightarrow> (bool \<times> groff) option" where
  "groff_line creates lineNumber line g =
    (if lineNumber = 1 \<and> \<not> strncmp_eq line ''.TH'' 3 then Some (True, improper lineNumber g)
     else if line \<noteq> [] \<and> hd line = CHR ''#'' then Some (False, g)
     else if strncmp_eq line ''.TH'' 3 then groff_TH creates lineNumber line g
     else if strncmp_eq line ''.SH'' 3 then do { g \<leftarrow> groff_SH line g; Some (False, g) }
     else do { g \<leftarrow> put_file (''       '' @ convertFormattingMarks line) g; Some (False, g) })"

fun groff_lines :: "(string \<Rightarrow> bool) \<Rightarrow> nat \<Rightarrow> string list \<Rightarrow> groff \<Rightarrow> (bool \<times> groff) option" where
  "groff_lines creates n [] g = Some (False, g)"
| "groff_lines creates n (l # ls) g = do {
     (ended, g) \<leftarrow> groff_line creates (n + 1) l g;
     if ended then Some (True, g) else groff_lines creates (n + 1) ls g
   }"

definition date_line :: "string \<Rightarrow> string" where
  "date_line date = (let p = padding (40 - int (length date div 2)) in p @ date @ p @ newline)"

text \<open>\<open>input\<close> is what the input file holds, if it can be opened; \<open>prog\<close> is the name of the program.\<close>

definition wgroff :: "(string \<Rightarrow> bool) \<Rightarrow> (string \<Rightarrow> string option) \<Rightarrow> string list \<Rightarrow> groff option" where
  "wgroff creates opens argv =
    (let g = \<lparr>g_out = [], g_files = [], g_date = None\<rparr> in
     if length argv \<noteq> 2 then Some (g\<lparr>g_out := ''Improper number of arguments'' @ newline @ ''Usage: '' @ hd argv @ '' <file>'' @ newline\<rparr>)
     else case opens (argv ! 1) of
       None \<Rightarrow> Some (g\<lparr>g_out := ''File doesn'' @ [CHR 39] @ ''t exist'' @ newline\<rparr>)
     | Some contents \<Rightarrow> do {
         (ended, g) \<leftarrow> groff_lines creates 0 (map c_string (fgets_lines 1024 contents)) g;
         if ended then Some g
         else do { date \<leftarrow> g_date g; put_file (date_line date) g }
       })"

section \<open>wman\<close>

datatype opened = Contents string | Hard_error | No_file \<comment> \<open>\<^verbatim>\<open>EISDIR\<close>, \<^verbatim>\<open>EACCES\<close>, \<^verbatim>\<open>EINVAL\<close>, \<^verbatim>\<open>ENOMEM\<close> are the hard errors\<close>

definition page_path :: "nat \<Rightarrow> string \<Rightarrow> string" where
  "page_path sect name = ''./man_pages/man'' @ show_nat sect @ ''/'' @ name @ ''.'' @ show_nat sect"

text \<open>\<^verbatim>\<open>printf("%s")\<close> of each piece stops at a NUL.\<close>

definition print_pieces :: "string \<Rightarrow> string" where
  "print_pieces contents = concat (map c_string (fgets_lines 1000 contents))"

fun wman_search :: "(string \<Rightarrow> opened) \<Rightarrow> string \<Rightarrow> nat list \<Rightarrow> (string \<times> int) option" where
  "wman_search opens name [] = Some (''No manual entry for '' @ name @ newline, 0)"
| "wman_search opens name (sect # sects) =
    (if 512 \<le> length (page_path sect name) then None
     else case opens (page_path sect name) of
       Contents c \<Rightarrow> Some (print_pieces c, 0)
     | Hard_error \<Rightarrow> Some (''cannot open file'' @ newline, 1)
     | No_file \<Rightarrow> wman_search opens name sects)"

definition wman :: "(string \<Rightarrow> opened) \<Rightarrow> string list \<Rightarrow> (string \<times> int) option" where
  "wman opens argv =
    (if length argv \<noteq> 2 \<and> length argv \<noteq> 3 then
       Some (''What manual page do you want?'' @ newline @ ''For example, try '' @ [CHR 39] @ ''wman wman'' @ [CHR 39] @ newline, 0)
     else if length argv = 2 then wman_search opens (argv ! 1) [1..<10]
     else let sect = atoi (argv ! 1) in
       if sect < 1 \<or> 9 < sect then Some (''invalid section'' @ newline, 1)
       else if 521 \<le> length (page_path (nat sect) (argv ! 2)) then None
       else case opens (page_path (nat sect) (argv ! 2)) of
         Contents c \<Rightarrow> Some (print_pieces c, 0)
       | _ \<Rightarrow> Some (''No manual entry for '' @ argv ! 2 @ '' in section '' @ show_int sect @ newline, 0))"

section \<open>wapropos\<close>

text \<open>\<^verbatim>\<open>trim\<close>: the two scans and the move. The scan from the left ends at the latest at the NUL.\<close>

fun skip_spaces :: "string \<Rightarrow> nat" where
  "skip_spaces [] = 0"
| "skip_spaces (c # s) = (if is_space c then Suc (skip_spaces s) else 0)"

fun trim_end :: "string \<Rightarrow> nat \<Rightarrow> nat \<Rightarrow> nat" where
  "trim_end str start 0 = 0"
| "trim_end str start (Suc e) = (if start < Suc e \<and> is_space (str ! Suc e) then trim_end str start e else Suc e)"

definition trim :: "string \<Rightarrow> string" where
  "trim str = (let start = skip_spaces str in
     if int (length str) - 1 < int start then []
     else let e = trim_end str start (length str - 1) in take (e - start + 1) (drop start str))"

definition removeBeforeHyphen :: "string \<Rightarrow> string" where
  "removeBeforeHyphen str = (case strchr str CHR ''-'' of None \<Rightarrow> str | Some t \<Rightarrow> tl t)"

definition contains :: "string \<Rightarrow> string \<Rightarrow> bool" where
  "contains line pat = (strstr line pat \<noteq> None)"

text \<open>The first line after one with the word NAME.\<close>

fun describe :: "bool \<Rightarrow> string list \<Rightarrow> string" where
  "describe found [] = []"
| "describe found (l # ls) =
    (if contains l ''NAME'' then describe True ls
     else if found then removeBeforeHyphen (trim (take 999 l))
     else describe found ls)"

text \<open>The second scan: whether the keyword is in a part that counts. \<open>named\<close> is \<^verbatim>\<open>count != 0\<close>, \<open>fin\<close> is \<^verbatim>\<open>end\<close>.\<close>

fun scan_page :: "string \<Rightarrow> bool \<Rightarrow> bool \<Rightarrow> bool \<Rightarrow> string list \<Rightarrow> bool" where
  "scan_page keyword scan named fin [] = False"
| "scan_page keyword scan named fin (l # ls) =
    (if contains l ''NAME'' \<and> \<not> named then scan_page keyword True True fin ls
     else if contains l ''SYNOPSIS'' then scan_page keyword False named fin ls
     else if contains l ''DESCRIPTION'' then scan_page keyword True named fin ls
     else if contains l ''FORMATTED INPUT FILES'' then scan_page keyword False named True ls
     else if contains l keyword \<and> scan \<and> \<not> fin then True
     else scan_page keyword scan named fin ls)"

text \<open>One directory: what is printed and how many pages match. A name of one character is cut at index \<open>-1\<close>.\<close>

fun search_entries :: "(string \<Rightarrow> string option) \<Rightarrow> string \<Rightarrow> string \<Rightarrow> nat \<Rightarrow> string list \<Rightarrow> (string \<times> nat) option" where
  "search_entries opens keyword directory sect [] = Some ([], 0)"
| "search_entries opens keyword directory sect (d_name # es) =
    (if d_name = ''.'' \<or> d_name = ''..'' then search_entries opens keyword directory sect es
     else case opens (take 511 (directory @ ''/'' @ d_name)) of
       None \<Rightarrow> search_entries opens keyword directory sect es
     | Some contents \<Rightarrow>
         let lines = map c_string (fgets_lines 1000 contents) in
         if scan_page keyword False False False lines then
           if length d_name < 2 then None
           else do {
             (rest, n) \<leftarrow> search_entries opens keyword directory sect es;
             Some (take (length d_name - 2) d_name @ '' ('' @ show_nat sect @ '') -'' @ describe False lines @ newline @ rest, n + 1)
           }
         else search_entries opens keyword directory sect es)"

definition searchAndPrintKeyword :: "(string \<Rightarrow> string list option) \<Rightarrow> (string \<Rightarrow> string option) \<Rightarrow> string \<Rightarrow> string \<Rightarrow> nat \<Rightarrow> (string \<times> nat) option" where
  "searchAndPrintKeyword reads opens keyword directory sect = do { es \<leftarrow> reads directory; search_entries opens keyword directory sect es }"

fun search_sections :: "(string \<Rightarrow> string list option) \<Rightarrow> (string \<Rightarrow> string option) \<Rightarrow> string \<Rightarrow> nat list \<Rightarrow> (string \<times> nat) option" where
  "search_sections reads opens keyword [] = Some ([], 0)"
| "search_sections reads opens keyword (sect # sects) = do {
     (out, n) \<leftarrow> searchAndPrintKeyword reads opens keyword (''./man_pages/man'' @ show_nat sect) sect;
     (rest, m) \<leftarrow> search_sections reads opens keyword sects;
     Some (out @ rest, n + m)
   }"

definition wapropos :: "(string \<Rightarrow> string list option) \<Rightarrow> (string \<Rightarrow> string option) \<Rightarrow> string list \<Rightarrow> string option" where
  "wapropos reads opens argv =
    (if length argv = 1 then Some (''wapropos what?'' @ newline)
     else do {
       (out, countOfPages) \<leftarrow> search_sections reads opens (argv ! 1) [1..<10];
       Some (if countOfPages = 0 then out @ ''nothing appropriate'' @ newline else out)
     })"

end
