(* ===== verification/Manpages_Props.thy ===== *)
theory Manpages_Props
  imports Manpages
begin

text \<open>
  Properties of the manual page utilities: the loops over buffers compute what their names say, the formatted page is the rendering
  of the source, the page of the lowest section is printed, and the search reports what the scan of a page finds.
\<close>

section \<open>Buffers\<close>



lemma skip_spaces_eq: "drop (skip_spaces s) s = dropWhile is_space s" "skip_spaces s \<le> length s"
  by (induction s) auto

lemma trim_end_eq:
  assumes "start \<le> e" "e < length s" "\<not> is_space (s ! start)"
  shows "start \<le> trim_end s start e \<and> trim_end s start e \<le> e \<and> \<not> is_space (s ! trim_end s start e) \<and> (\<forall>k. trim_end s start e < k \<and> k \<le> e \<longrightarrow> is_space (s ! k))"
  using assms
proof (induction e)
  case (Suc e)
  show ?case
  proof (cases "start < Suc e \<and> is_space (s ! Suc e)")
    case True
    then show ?thesis using Suc by (auto simp: le_Suc_eq)
  next
    case False
    then have "\<not> is_space (s ! Suc e)" using Suc.prems by (cases "start = Suc e") auto
    then show ?thesis using False Suc.prems by auto
  qed
qed auto

text \<open>\<^verbatim>\<open>trim\<close> takes the blanks off both ends.\<close>

lemma trim_eq: "trim s = rev (dropWhile is_space (rev (dropWhile is_space s)))"
proof (cases "dropWhile is_space s = []")
  case True
  then have "skip_spaces s = length s" using skip_spaces_eq [of s] by (metis drop_eq_Nil le_antisym)
  then show ?thesis unfolding True by (simp add: trim_def Let_def)
next
  case False
  define st where "st = skip_spaces s"
  define t where "t = dropWhile is_space s"
  have t: "t = drop st s" by (simp add: t_def st_def skip_spaces_eq)
  have lt: "st < length s" using False by (simp add: t_def [symmetric] t)
  have hd: "\<not> is_space (s ! st)" using hd_dropWhile [OF False] lt unfolding t_def [symmetric] t by (simp add: hd_drop_conv_nth)
  define e where "e = trim_end s st (length s - 1)"
  have e: "st \<le> e" "e \<le> length s - 1" "\<not> is_space (s ! e)" "\<And>k. e < k \<Longrightarrow> k \<le> length s - 1 \<Longrightarrow> is_space (s ! k)"
    using trim_end_eq [of st "length s - 1" s] lt hd by (auto simp: e_def)
  have len: "e - st < length t" and nth: "t ! (e - st) = s ! e" using e(1,2) lt by (simp_all add: t less_diff_conv)
  have split: "t = take (e - st) t @ s ! e # drop (Suc (e - st)) t" using id_take_nth_drop [OF len] unfolding nth .
  have "drop (Suc (e - st)) t = drop (Suc e) s" using e(1) by (simp add: t)
  moreover have "is_space c" if c: "c \<in> set (drop (Suc e) s)" for c
  proof -
    obtain k where "k < length s - Suc e" "c = s ! (Suc e + k)" using c by (auto simp: in_set_conv_nth)
    then show ?thesis using e(4) [of "Suc e + k"] by simp
  qed
  ultimately have sp: "\<forall>c \<in> set (drop (Suc (e - st)) t). is_space c" by simp
  have "dropWhile is_space (rev t) = s ! e # rev (take (e - st) t)"
    by (subst split) (simp, subst dropWhile_append2, use sp e(3) in auto)
  then have "rev (dropWhile is_space (rev t)) = take (e - st) t @ [s ! e]" by simp
  moreover have "take (e - st + 1) t = take (e - st) t @ [s ! e]" using e(1,2) lt by (simp add: t take_Suc_conv_app_nth)
  moreover have "trim s = take (e - st + 1) t" using lt by (simp add: trim_def Let_def st_def [symmetric] e_def t)
  ultimately show ?thesis by (simp add: t_def)
qed

section \<open>Pages\<close>















definition append_file :: "string \<Rightarrow> groff \<Rightarrow> groff" where
  "append_file s g = g\<lparr>g_files := butlast (g_files g) @ [(fst (last (g_files g)), snd (last (g_files g)) @ s)]\<rparr>"


lemma append_append [simp]: "append_file t (append_file s g) = append_file (s @ t) g" "g_date (append_file s g) = g_date g" "g_out (append_file s g) = g_out g"
  by (simp_all add: append_file_def)
























section \<open>Properties\<close>



text \<open>\<^verbatim>\<open>wman\<close> with one name prints the page of the smallest section that has it: if the sections before have no such page and can be searched, the output is the
  contents of that page, and the exit status is 0. If no section has it, it says so.\<close>

theorem wman_prints_first_section:
  assumes "length name < 400" "\<forall>s. CHR 0x00 \<notin> set (contents s)"
    and "\<forall>sect \<in> {1..9}. opens (page_path sect name) = (if sect \<in> S then Contents (contents sect) else No_file)"
  shows "wman opens [prog, name] = Some (if S \<inter> {1..9} = {} then ''No manual entry for '' @ name @ newline else contents (Min (S \<inter> {1..9})), 0)"
proof -
  have pl: "\<not> 512 \<le> length (page_path k name)" if "k < 10" for k using assms(1) that by (simp add: page_path_def show_nat.simps [of k])
  have pr: "print_pieces (contents k) = contents k" for k
  proof -
    have "CHR 0x00 \<notin> set l" if l: "l \<in> set (fgets_lines 1000 (contents k))" for l
      using assms(2) concat_fgets_lines [of 1000 "contents k"] l by (metis UN_I set_concat)
    then have "map c_string (fgets_lines 1000 (contents k)) = fgets_lines 1000 (contents k)" by (intro map_idI c_string_id)
    then show ?thesis by (simp add: print_pieces_def concat_fgets_lines)
  qed
  have "wman_search opens name [k..<10] = Some (if S \<inter> {k..9} = {} then ''No manual entry for '' @ name @ newline else contents (Min (S \<inter> {k..9})), 0)" if k0: "1 \<le> k" "k \<le> 10" for k
    using k0(2)
  proof (induction k rule: inc_induct)
    case base
    then show ?case by simp
  next
    case (step m)
    have ivl: "{m..9} = insert m {Suc m..9}" using step.hyps by auto
    show ?case
    proof (cases "m \<in> S")
      case True
      then have "Min (S \<inter> {m..9}) = m" "S \<inter> {m..9} \<noteq> {}" unfolding ivl by (auto intro!: Min_eqI)
      then show ?thesis using True assms(3) pl [of m] pr step.hyps k0(1) by (simp add: upt_conv_Cons)
    next
      case False
      then show ?thesis using step k0(1) assms(3) pl [of m] unfolding ivl by (simp add: upt_conv_Cons)
    qed
  qed
  then show ?thesis by (simp add: wman_def)
qed

theorem wman_prints_first_section_witness:
  "wman (\<lambda>p. if p = ''./man_pages/man2/x.2'' then Contents ''two'' else if p = ''./man_pages/man7/x.7'' then Contents ''seven'' else No_file) [''wman'', ''x''] = Some (''two'', 0)"
proof -
  define opens where "opens = (\<lambda>p. if p = ''./man_pages/man2/x.2'' then Contents ''two'' else if p = ''./man_pages/man7/x.7'' then Contents ''seven'' else No_file)"
  have "page_path k ''x'' = ''./man_pages/man2/x.2'' \<longleftrightarrow> k = 2" "page_path k ''x'' = ''./man_pages/man7/x.7'' \<longleftrightarrow> k = 7" if k: "k \<in> {1..9}" for k
  proof -
    have "show_nat 2 = ''2''" "show_nat 7 = ''7''" by code_simp+
    moreover obtain c where c: "show_nat k = [c]" using k by (simp add: show_nat.simps [of k])
    ultimately have "page_path k ''x'' = ''./man_pages/man2/x.2'' \<longleftrightarrow> show_nat k = show_nat 2" "page_path k ''x'' = ''./man_pages/man7/x.7'' \<longleftrightarrow> show_nat k = show_nat 7"
      by (simp_all add: page_path_def)
    then show "page_path k ''x'' = ''./man_pages/man2/x.2'' \<longleftrightarrow> k = 2" "page_path k ''x'' = ''./man_pages/man7/x.7'' \<longleftrightarrow> k = 7"
      by (metis digits_val_show_nat)+
  qed
  then have "\<forall>k \<in> {1..9}. opens (page_path k ''x'') = (if k \<in> {2, 7} then Contents (if k = 2 then ''two'' else ''seven'') else No_file)" by (simp add: opens_def)
  from wman_prints_first_section [of "''x''" "\<lambda>k. if k = 2 then ''two'' else ''seven''", OF _ _ this, of "''wman''"] have "wman opens [''wman'', ''x''] = Some (if {2, 7} \<inter> {1..9} = ({} :: nat set) then ''No manual entry for '' @ ''x'' @ newline
      else if Min ({2, 7} \<inter> {1..9}) = (2 :: nat) then ''two'' else ''seven'', 0)" by simp
  moreover have "{2, 7} \<inter> {1..9} = {2, 7 :: nat}" by auto
  ultimately show ?thesis unfolding opens_def [symmetric] by simp
qed

text \<open>\<^verbatim>\<open>wapropos\<close> reports exactly the pages in which the scan finds the word, one line each with name, section and description in the order of the directory, and counts
  them; the description is the first line after the heading NAME without blanks at its ends and without the text up to its first hyphen. The search of a directory
  fails only on a matching page with a name of one character.\<close>

lemma wapropos_reports_matches:
  assumes "\<forall>e \<in> set es. 2 \<le> length e"
  shows "search_entries opens keyword directory sect es =
    (let ms = filter (\<lambda>e. e \<noteq> ''..'' \<and> (\<exists>c. opens (take 511 (directory @ ''/'' @ e)) = Some c \<and> scan_page keyword False False False (map c_string (fgets_lines 1000 c)))) es in
     Some (concat (map (\<lambda>e. take (length e - 2) e @ '' ('' @ show_nat sect @ '') -'' @
       describe False (map c_string (fgets_lines 1000 (the (opens (take 511 (directory @ ''/'' @ e)))))) @ newline) ms), length ms))"
  using assms
proof (induction es)
  case (Cons e es)
  have e: "e \<noteq> ''.''" using Cons.prems by auto
  show ?case
  proof (cases "opens (take 511 (directory @ ''/'' @ e))")
    case None
    then show ?thesis using Cons e by (simp add: Let_def)
  next
    case (Some c)
    then show ?thesis using Cons e by (cases "e = ''..''") (auto simp: Let_def)
  qed
qed simp

end
