(* ===== verification/Sh.thy ===== *)
theory Sh
  imports CString "HOL-Library.Sublist"
begin

text \<open>
  The shell of the teaching operating system (\<^verbatim>\<open>CS_537_P5/sh.c\<close>) with the calls on file descriptors that it makes
  (\<^verbatim>\<open>fdalloc\<close>, \<^verbatim>\<open>sys_dup\<close>, \<^verbatim>\<open>sys_close\<close>, \<^verbatim>\<open>sys_pipe\<close>, \<^verbatim>\<open>sys_open\<close> of \<^verbatim>\<open>CS_537_P5/sysfile.c\<close>).

  A pointer \<^verbatim>\<open>*ps\<close> into the line is the rest of the line from there, so that the end \<^verbatim>\<open>es\<close> is the empty string. The words of a command are pairs of
  pointers, to the first character and behind the last one; each is given by its distance from the end of the line. A panic of the parser is a
  value of the result type, because the process that parses is a child of the shell. The mutually recursive procedures of the parser take a
  bound on their depth; that \<^verbatim>\<open>parsecmd\<close> passes a bound that is never met is proved in \<open>Sh_Props\<close>. Memory for the nodes of a command is taken to be at hand: the code does not test the result of \<^verbatim>\<open>malloc\<close>.
\<close>

section \<open>Commands\<close>

definition MAXARGS :: nat where "MAXARGS = 10"

datatype (words: 'w) cmd =
    EXEC "'w list"
  | REDIR "'w cmd" 'w int nat
  | PIPE "'w cmd" "'w cmd"
  | LIST "'w cmd" "'w cmd"
  | BACK "'w cmd"

type_synonym pointers = "nat \<times> nat"

definition O_RDONLY :: int where "O_RDONLY = 0x000"
definition O_WRONLY :: int where "O_WRONLY = 0x001"
definition O_RDWR :: int where "O_RDWR = 0x002"
definition O_CREATE :: int where "O_CREATE = 0x200"

datatype 'a parsed = Parsed 'a | Panic string | Too_deep

fun and_then :: "'a parsed \<Rightarrow> ('a \<Rightarrow> 'b parsed) \<Rightarrow> 'b parsed" where
  "and_then (Parsed x) f = f x"
| "and_then (Panic msg) f = Panic msg"
| "and_then Too_deep f = Too_deep"

lemma and_then_cong [fundef_cong]:
  "m = m' \<Longrightarrow> (\<And>x. m' = Parsed x \<Longrightarrow> f x = g x) \<Longrightarrow> and_then m f = and_then m' g"
  by (cases m) auto

section \<open>Tokens\<close>

definition whitespace :: string where
  "whitespace = [CHR '' '', CHR 0x09, CHR 0x0D, CHR 0x0A, CHR 0x0B]"

definition symbols :: string where
  "symbols = ''<|>&;()''"

definition skip_blanks :: "string \<Rightarrow> string" where
  "skip_blanks = dropWhile (\<lambda>c. c \<in> set whitespace)"

definition word_char :: "char \<Rightarrow> bool" where
  "word_char c = (c \<notin> set whitespace \<and> c \<notin> set symbols)"

text \<open>What \<^verbatim>\<open>gettoken\<close> finds behind the blanks: the kind of token and the text behind it. At the end of the line the kind is NUL.\<close>

fun token :: "string \<Rightarrow> char \<times> string" where
  "token [] = (CHR 0x00, [])"
| "token (c # t) =
    (if c \<in> set ''|();&<'' then (c, t)
     else if c = CHR ''>'' then
       (case t of d # u \<Rightarrow> if d = CHR ''>'' then (CHR ''+'', u) else (c, t) | [] \<Rightarrow> (c, t))
     else (CHR ''a'', dropWhile word_char (c # t)))"

definition gettoken :: "string \<Rightarrow> char \<times> pointers \<times> string" where
  "gettoken r = (let s = skip_blanks r; (ret, e) = token s in (ret, (length s, length e), skip_blanks e))"

definition peek :: "string \<Rightarrow> string \<Rightarrow> bool \<times> string" where
  "peek toks r = (let s = skip_blanks r in (s \<noteq> [] \<and> hd s \<in> set toks, s))"

definition next_token :: "string \<Rightarrow> string" where
  "next_token r = snd (snd (gettoken r))"

lemma skip_blanks_suffix: "suffix (skip_blanks r) r"
  by (simp add: skip_blanks_def suffix_dropWhile)

lemma skip_blanks_head: "skip_blanks r = c # t \<Longrightarrow> c \<notin> set whitespace"
  unfolding skip_blanks_def by (metis (full_types) dropWhile_eq_Cons_conv)

lemma token_suffix: "suffix (snd (token s)) s"
  by (cases s) (auto simp: suffix_dropWhile suffix_ConsI split: list.split intro: suffix_ConsI)

lemma token_shorter: "s \<noteq> [] \<Longrightarrow> hd s \<notin> set whitespace \<Longrightarrow> length (snd (token s)) < length s"
proof (cases s)
  case (Cons c t)
  assume "hd s \<notin> set whitespace"
  then have "word_char c" if "c \<notin> set ''|();&<''" "c \<noteq> CHR ''>''" using that Cons by (auto simp: word_char_def symbols_def)
  then show ?thesis using Cons length_dropWhile_le [of word_char t] by (auto split: list.split)
qed simp

lemma gettoken_eq:
  "gettoken r = (fst (token (skip_blanks r)), (length (skip_blanks r), length (snd (token (skip_blanks r)))), skip_blanks (snd (token (skip_blanks r))))"
  by (simp add: gettoken_def Let_def split: prod.split)

lemma next_token_eq: "next_token r = skip_blanks (snd (token (skip_blanks r)))"
  by (simp add: next_token_def gettoken_eq)

lemma next_token_suffix: "suffix (next_token r) r"
  unfolding next_token_eq using skip_blanks_suffix token_suffix suffix_order.trans by metis

lemma gettoken_suffix: "gettoken r = (tok, w, r') \<Longrightarrow> suffix r' r"
  using next_token_suffix [of r] by (simp add: next_token_def)

lemma next_token_shorter: "skip_blanks r \<noteq> [] \<Longrightarrow> length (next_token r) < length r"
proof -
  assume ne: "skip_blanks r \<noteq> []"
  then have "hd (skip_blanks r) \<notin> set whitespace" using skip_blanks_head [of r] by (cases "skip_blanks r") auto
  from token_shorter [OF ne this] skip_blanks_suffix [of r] skip_blanks_suffix [of "snd (token (skip_blanks r))"] show ?thesis
    unfolding next_token_eq by (meson le_less_trans less_le_trans suffix_length_le)
qed

lemma gettoken_shorter: "gettoken r = (tok, w, r') \<Longrightarrow> tok \<noteq> CHR 0x00 \<Longrightarrow> length r' < length r"
  using next_token_shorter [of r] by (cases "skip_blanks r") (auto simp: next_token_def gettoken_eq)

lemma peek_rest: "peek toks r = (b, s) \<Longrightarrow> s = skip_blanks r \<and> (b \<longrightarrow> s \<noteq> [] \<and> hd s \<in> set toks)"
  by (auto simp: peek_def Let_def)

lemma skip_skip [simp]: "skip_blanks (skip_blanks r) = skip_blanks r"
  by (simp add: skip_blanks_def)

lemma peek_shorter: "peek toks r = (True, s) \<Longrightarrow> length (next_token s) < length r"
  using peek_rest [of toks r True s] next_token_shorter [of s] suffix_length_le [OF skip_blanks_suffix [of r]] by auto

section \<open>Redirections and words\<close>

text \<open>The redirections from here on in their order (file, mode and descriptor), as the loop of \<^verbatim>\<open>parseredirs\<close> meets them.\<close>

type_synonym 'w redir = "'w \<times> int \<times> nat"

definition redir_kind :: "char \<Rightarrow> int \<times> nat" where
  "redir_kind tok = (if tok = CHR ''<'' then (O_RDONLY, 0) else (O_WRONLY OR O_CREATE, 1))"

lemma redirs_shorter:
  "peek toks r = (True, s) \<Longrightarrow> gettoken s = (tok, w, r1) \<Longrightarrow> gettoken r1 = (t, w', r2) \<Longrightarrow> length r2 < length r"
  using peek_shorter [of toks r s] gettoken_suffix [THEN suffix_length_le, of r1 t w' r2] by (simp add: next_token_def)

function redirs :: "string \<Rightarrow> (pointers redir list \<times> string) parsed" where
  "redirs r =
    (case peek ''<>'' r of
       (False, r) \<Rightarrow> Parsed ([], r)
     | (True, r) \<Rightarrow>
         (case gettoken r of (tok, _, r) \<Rightarrow>
          case gettoken r of (t, w, r) \<Rightarrow>
            if t \<noteq> CHR ''a'' then Panic ''missing file for redirection''
            else and_then (redirs r) (\<lambda>(rs, r). Parsed ((w, redir_kind tok) # rs, r))))"
  by pat_completeness auto

termination
  by (relation "measure length") (simp, metis redirs_shorter in_measure)

declare redirs.simps [simp del]

definition redircmd :: "'w cmd \<Rightarrow> 'w redir \<Rightarrow> 'w cmd" where
  "redircmd c rd = (case rd of (w, mode, fd) \<Rightarrow> REDIR c w mode fd)"

definition parseredirs :: "pointers cmd \<Rightarrow> string \<Rightarrow> (pointers cmd \<times> string) parsed" where
  "parseredirs c r = and_then (redirs r) (\<lambda>(rs, r). Parsed (foldl redircmd c rs, r))"

lemma redirs_suffix: "redirs r = Parsed (rs, r') \<Longrightarrow> suffix r' r"
proof (induction r arbitrary: rs r' rule: redirs.induct)
  case (1 r)
  show ?case
  proof (cases "peek ''<>'' r")
    case (Pair b s)
    note s = peek_rest [OF Pair]
    obtain tok w r1 where g1: "gettoken s = (tok, w, r1)" by (cases "gettoken s")
    obtain t w' r2 where g2: "gettoken r1 = (t, w', r2)" by (cases "gettoken r1")
    show ?thesis
    proof (cases b)
      case True
      with 1(2) Pair g1 g2 obtain rs2 where t: "t = CHR ''a''" and rec: "redirs r2 = Parsed (rs2, r')"
        by (subst (asm) redirs.simps) (cases "redirs r2", auto split: if_splits)
      have "suffix r' r2" using 1(1) [OF Pair [symmetric] _ g1 [symmetric] refl g2 [symmetric] refl] t True rec by simp
      then show ?thesis using gettoken_suffix [OF g1] gettoken_suffix [OF g2] s skip_blanks_suffix [of r] by (metis suffix_order.trans)
    next
      case False
      then show ?thesis using 1(2) Pair s skip_blanks_suffix [of r] by (subst (asm) redirs.simps) auto
    qed
  qed
qed

text \<open>The loop of \<^verbatim>\<open>parseexec\<close>: the words so far and the redirections so far, which are wrapped around the command at the end.\<close>

lemma exec_args_shorter:
  assumes "peek toks r = (b, s)" "gettoken s = (tok, w, r1)" "tok \<noteq> CHR 0x00" "redirs r1 = Parsed (rs, r2)"
  shows "length r2 < length r"
  using gettoken_shorter [OF assms(2,3)] redirs_suffix [OF assms(4), THEN suffix_length_le] peek_rest [OF assms(1)]
    skip_blanks_suffix [THEN suffix_length_le, of r] by simp

function exec_args :: "pointers list \<Rightarrow> pointers redir list \<Rightarrow> string \<Rightarrow> (pointers list \<times> pointers redir list \<times> string) parsed" where
  "exec_args args rs r =
    (case peek ''|)&;'' r of
       (True, r) \<Rightarrow> Parsed (args, rs, r)
     | (False, r) \<Rightarrow>
         (case gettoken r of (tok, w, r) \<Rightarrow>
            if tok = CHR 0x00 then Parsed (args, rs, r)
            else if tok \<noteq> CHR ''a'' then Panic ''syntax''
            else if length args + 1 \<ge> MAXARGS then Panic ''too many args''
            else and_then (redirs r) (\<lambda>(rs', r). exec_args (args @ [w]) (rs @ rs') r)))"
  by pat_completeness auto

termination
  by (relation "measure (\<lambda>(args, rs, r). length r)") (simp, clarsimp, rule exec_args_shorter [OF sym sym], assumption+, simp, assumption)

declare exec_args.simps [simp del]

section \<open>The parser\<close>

text \<open>The loop of \<^verbatim>\<open>parseline\<close> over the ampersands.\<close>

function backs :: "pointers cmd \<Rightarrow> string \<Rightarrow> pointers cmd \<times> string" where
  "backs c r = (case peek ''&'' r of (True, r) \<Rightarrow> backs (BACK c) (next_token r) | (False, r) \<Rightarrow> (c, r))"
  by pat_completeness auto

termination
  by (relation "measure (\<lambda>(c, r). length r)") (simp, clarsimp, rule peek_shorter [OF sym])

declare backs.simps [simp del]

fun parseline :: "nat \<Rightarrow> string \<Rightarrow> (pointers cmd \<times> string) parsed"
  and parsepipe :: "nat \<Rightarrow> string \<Rightarrow> (pointers cmd \<times> string) parsed"
  and parseexec :: "nat \<Rightarrow> string \<Rightarrow> (pointers cmd \<times> string) parsed"
  and parseblock :: "nat \<Rightarrow> string \<Rightarrow> (pointers cmd \<times> string) parsed" where
  "parseline 0 r = Too_deep"
| "parseline (Suc n) r =
    and_then (parsepipe n r) (\<lambda>(c, r).
      case backs c r of (c, r) \<Rightarrow>
        (case peek '';'' r of
           (True, r) \<Rightarrow> and_then (parseline n (next_token r)) (\<lambda>(d, r). Parsed (LIST c d, r))
         | (False, r) \<Rightarrow> Parsed (c, r)))"
| "parsepipe 0 r = Too_deep"
| "parsepipe (Suc n) r =
    and_then (parseexec n r) (\<lambda>(c, r).
      case peek ''|'' r of
        (True, r) \<Rightarrow> and_then (parsepipe n (next_token r)) (\<lambda>(d, r). Parsed (PIPE c d, r))
      | (False, r) \<Rightarrow> Parsed (c, r))"
| "parseexec 0 r = Too_deep"
| "parseexec (Suc n) r =
    (case peek ''('' r of
       (True, r) \<Rightarrow> parseblock n r
     | (False, r) \<Rightarrow>
         and_then (redirs r) (\<lambda>(rs, r).
         and_then (exec_args [] rs r) (\<lambda>(args, rs, r).
           Parsed (foldl redircmd (EXEC args) rs, r))))"
| "parseblock 0 r = Too_deep"
| "parseblock (Suc n) r =
    (case peek ''('' r of
       (False, r) \<Rightarrow> Panic ''parseblock''
     | (True, r) \<Rightarrow>
         and_then (parseline n (next_token r)) (\<lambda>(c, r).
           case peek '')'' r of
             (False, r) \<Rightarrow> Panic ''syntax - missing )''
           | (True, r) \<Rightarrow> parseredirs c (next_token r)))"

text \<open>\<^verbatim>\<open>nulterminate\<close> on the buffer that holds a line of \<open>n\<close> characters and its NUL.\<close>

definition put_nul :: "nat \<Rightarrow> pointers \<Rightarrow> string \<Rightarrow> string" where
  "put_nul n w buf = buf[n - snd w := CHR 0x00]"

primrec nulterminate :: "nat \<Rightarrow> pointers cmd \<Rightarrow> string \<Rightarrow> string" where
  "nulterminate n (EXEC args) buf = fold (put_nul n) args buf"
| "nulterminate n (REDIR c w mode fd) buf = put_nul n w (nulterminate n c buf)"
| "nulterminate n (PIPE c d) buf = nulterminate n d (nulterminate n c buf)"
| "nulterminate n (LIST c d) buf = nulterminate n d (nulterminate n c buf)"
| "nulterminate n (BACK c) buf = nulterminate n c buf"

text \<open>The string that a pointer to a word names afterwards, and the command with these strings.\<close>

definition string_at :: "nat \<Rightarrow> string \<Rightarrow> pointers \<Rightarrow> string" where
  "string_at n buf w = c_string (drop (n - fst w) buf)"

definition parsecmd :: "string \<Rightarrow> string cmd parsed" where
  "parsecmd buf =
    (let line = c_string buf; n = length line in
     and_then (parseline (4 * n + 4) line) (\<lambda>(c, r).
       if snd (peek [] r) \<noteq> [] then Panic ''syntax''
       else Parsed (map_cmd (string_at n (nulterminate n c (line @ [CHR 0x00]))) c)))"

section \<open>File descriptors\<close>

text \<open>The table \<^verbatim>\<open>ofile\<close> of a process has \<^verbatim>\<open>NOFILE\<close> = 16 entries. The open files as the shell distinguishes them: a file by the name and mode it was opened with, the ends of the pipe that a process
  made. A process is named by the numbers of the forks that lead to it.\<close>

type_synonym pid = "nat list"

datatype obj = Opened string int | Read_end pid | Write_end pid

type_synonym ofile = "obj option list"

fun fdalloc_loop :: "obj \<Rightarrow> ofile \<Rightarrow> nat \<Rightarrow> (nat \<times> ofile) option" where
  "fdalloc_loop f [] fd = None"
| "fdalloc_loop f (None # t) fd = Some (fd, Some f # t)"
| "fdalloc_loop f (Some g # t) fd = map_option (\<lambda>(fd, t). (fd, Some g # t)) (fdalloc_loop f t (fd + 1))"

definition fdalloc :: "obj \<Rightarrow> ofile \<Rightarrow> (nat \<times> ofile) option" where
  "fdalloc f t = fdalloc_loop f t 0"

definition argfd :: "nat \<Rightarrow> ofile \<Rightarrow> obj option" where
  "argfd fd t = (if fd \<ge> length t then None else t ! fd)"

text \<open>A call that fails changes nothing; the shell ignores the results of \<^verbatim>\<open>dup\<close> and \<^verbatim>\<open>close\<close>.\<close>

definition sys_dup :: "nat \<Rightarrow> ofile \<Rightarrow> ofile" where
  "sys_dup fd t =
    (case argfd fd t of
       None \<Rightarrow> t
     | Some f \<Rightarrow> (case fdalloc f t of None \<Rightarrow> t | Some (_, t') \<Rightarrow> t'))"

definition sys_close :: "nat \<Rightarrow> ofile \<Rightarrow> ofile" where
  "sys_close fd t = (case argfd fd t of None \<Rightarrow> t | Some f \<Rightarrow> t[fd := None])"

text \<open>\<open>ok\<close> is the answer of the layer below: the pipe was allocated, the inode was found or made.\<close>

definition sys_pipe :: "bool \<Rightarrow> pid \<Rightarrow> ofile \<Rightarrow> (nat \<times> nat \<times> ofile) option" where
  "sys_pipe ok p t =
    (if \<not> ok then None
     else do {
       (fd0, t) \<leftarrow> fdalloc (Read_end p) t;
       (fd1, t) \<leftarrow> fdalloc (Write_end p) t;
       Some (fd0, fd1, t)
     })"

definition sys_open :: "bool \<Rightarrow> string \<Rightarrow> int \<Rightarrow> ofile \<Rightarrow> (nat \<times> ofile) option" where
  "sys_open ok path omode t = (if \<not> ok then None else fdalloc (Opened path omode) t)"

section \<open>Running commands\<close>

text \<open>What a process does: it exits, panics or says that a call failed and exits, becomes a program with its open files, forks a child and
  goes on, or waits for a child, with the files that it has open meanwhile, and goes on.\<close>

datatype run = Exits | Panics string | Fails string string | Program "string list" ofile | Forks run run | Waits ofile run

text \<open>The answers of the operating system to the process \<open>p\<close>.\<close>

record sys =
  can_fork :: "pid \<Rightarrow> bool"
  can_pipe :: "pid \<Rightarrow> bool"
  can_open :: "pid \<Rightarrow> string \<Rightarrow> int \<Rightarrow> bool"
  can_exec :: "pid \<Rightarrow> string list \<Rightarrow> bool"
  can_chdir :: "string \<Rightarrow> bool"

definition fork1 :: "sys \<Rightarrow> pid \<Rightarrow> run \<Rightarrow> run \<Rightarrow> run" where
  "fork1 sys child r cont = (if can_fork sys child then Forks r cont else Panics ''fork'')"

text \<open>The process \<open>p\<close>, which has forked \<open>k\<close> children so far, runs a command.\<close>

primrec runcmd :: "sys \<Rightarrow> string cmd \<Rightarrow> pid \<Rightarrow> nat \<Rightarrow> ofile \<Rightarrow> run" where
  "runcmd sys (EXEC argv) p k t =
    (if argv = [] then Exits
     else if can_exec sys p argv then Program argv t
     else Fails ''exec'' (hd argv))"
| "runcmd sys (REDIR c path mode fd) p k t =
    (case sys_open (can_open sys p path mode) path mode (sys_close fd t) of
       None \<Rightarrow> Fails ''open'' path
     | Some (_, t) \<Rightarrow> runcmd sys c p k t)"
| "runcmd sys (LIST c d) p k t =
    fork1 sys (p @ [k]) (runcmd sys c (p @ [k]) 0 t) (Waits t (runcmd sys d p (k + 1) t))"
| "runcmd sys (PIPE c d) p k t =
    (case sys_pipe (can_pipe sys p) p t of
       None \<Rightarrow> Panics ''pipe''
     | Some (p0, p1, t) \<Rightarrow>
         fork1 sys (p @ [k]) (runcmd sys c (p @ [k]) 0 (sys_close p1 (sys_close p0 (sys_dup p1 (sys_close 1 t)))))
          (fork1 sys (p @ [k + 1]) (runcmd sys d (p @ [k + 1]) 0 (sys_close p1 (sys_close p0 (sys_dup p0 (sys_close 0 t)))))
            (let t = sys_close p1 (sys_close p0 t) in Waits t (Waits t Exits))))"
| "runcmd sys (BACK c) p k t = fork1 sys (p @ [k]) (runcmd sys c (p @ [k]) 0 t) Exits"

section \<open>The main loop\<close>

text \<open>The loop that opens the console until three descriptors are open; it ends at the latest when the table is full.\<close>

fun open_console :: "nat \<Rightarrow> bool \<Rightarrow> ofile \<Rightarrow> ofile" where
  "open_console 0 ok t = t"
| "open_console (Suc n) ok t =
    (case sys_open ok ''console'' O_RDWR t of
       None \<Rightarrow> t
     | Some (fd, t) \<Rightarrow> if fd \<ge> 3 then sys_close fd t else open_console n ok t)"

text \<open>\<^verbatim>\<open>gets\<close> into a buffer of 100 bytes: what it takes off the input.\<close>

fun gets_piece :: "nat \<Rightarrow> string \<Rightarrow> string" where
  "gets_piece 0 s = []"
| "gets_piece (Suc n) [] = []"
| "gets_piece (Suc n) (c # s) = c # (if c = CHR 0x0A \<or> c = CHR 0x0D then [] else gets_piece n s)"

text \<open>What the shell itself does: it changes the directory (the flag tells whether that worked), forks a child, which then does the given run, waits for a child, or panics.\<close>

datatype action = Chdir string bool | Child run | Wait | Shell_panics string

lemma gets_piece_empty: "gets_piece (Suc n) s = [] \<longleftrightarrow> s = []"
  by (cases s) auto

text \<open>The shell is the process with the empty name; \<open>k\<close> counts its children.\<close>

function sh_loop :: "sys \<Rightarrow> nat \<Rightarrow> ofile \<Rightarrow> string \<Rightarrow> action list" where
  "sh_loop sys k t inp =
    (let piece = gets_piece 99 inp; buf = c_string piece; rest = drop (length piece) inp in
     if buf = [] then []
     else if take 3 buf = ''cd '' then
       (let dir = drop 3 (butlast buf) in Chdir dir (can_chdir sys dir) # sh_loop sys k t rest)
     else if \<not> can_fork sys [k] then [Shell_panics ''fork'']
     else
       Child (case parsecmd buf of Parsed c \<Rightarrow> runcmd sys c [k] 0 t | Panic msg \<Rightarrow> Panics msg | Too_deep \<Rightarrow> Exits)
         # Wait # sh_loop sys (k + 1) t rest)"
  by pat_completeness auto

termination
proof (relation "measure (\<lambda>(sys, k, t, inp). length inp)", goal_cases)
  case (2 sys k t inp)
  then show ?case using gets_piece_empty [of 98 inp] by (cases inp) (auto simp: c_string_def numeral_eq_Suc)
next
  case (3 sys k t inp)
  then show ?case using gets_piece_empty [of 98 inp] by (cases inp) (auto simp: c_string_def numeral_eq_Suc)
qed simp

declare sh_loop.simps [simp del]

definition sh_main :: "sys \<Rightarrow> ofile \<Rightarrow> string \<Rightarrow> action list" where
  "sh_main sys t inp = sh_loop sys 0 (open_console (length t + 1) (can_open sys [] ''console'' O_RDWR) t) inp"

end
