(* ===== verification/Sh_Props.thy ===== *)
theory Sh_Props
  imports Sh "HOL-Library.Multiset"
begin

text \<open>
  Properties of the shell of \<^verbatim>\<open>CS_537_P5/sh.c\<close>: the parser returns a well-formed command or panics, the words of a command are the words of the line,
  every command has a line that is parsed to it, and the programs of a command get the files that the command names and nothing else.
\<close>

section \<open>Results of the parser\<close>

named_theorems parsed_simps

lemma and_then_Parsed [parsed_simps]: "and_then m f = Parsed y \<longleftrightarrow> (\<exists>x. m = Parsed x \<and> f x = Parsed y)"
  by (cases m) auto

lemma and_then_Panic [parsed_simps]: "and_then m f = Panic msg \<longleftrightarrow> m = Panic msg \<or> (\<exists>x. m = Parsed x \<and> f x = Panic msg)"
  by (cases m) auto

lemma and_then_Too_deep [parsed_simps]: "and_then m f = Too_deep \<longleftrightarrow> m = Too_deep \<or> (\<exists>x. m = Parsed x \<and> f x = Too_deep)"
  by (cases m) auto

text \<open>A word of the line: its pointers enclose a longest sequence of word characters.\<close>

definition good_word :: "string \<Rightarrow> pointers \<Rightarrow> bool" where
  "good_word line w = (snd w < fst w \<and> fst w \<le> length line \<and> length (dropWhile word_char (drop (length line - fst w) line)) = snd w)"

definition redir_ok :: "int \<Rightarrow> nat \<Rightarrow> bool" where
  "redir_ok mode fd = ((mode, fd) \<in> {redir_kind (CHR ''<''), redir_kind (CHR ''>'')})"

primrec cmd_ok :: "('w \<Rightarrow> bool) \<Rightarrow> 'w cmd \<Rightarrow> bool" where
  "cmd_ok P (EXEC args) = (length args < MAXARGS \<and> (\<forall>w\<in>set args. P w))"
| "cmd_ok P (REDIR c w mode fd) = (cmd_ok P c \<and> P w \<and> redir_ok mode fd)"
| "cmd_ok P (PIPE c d) = (cmd_ok P c \<and> cmd_ok P d)"
| "cmd_ok P (LIST c d) = (cmd_ok P c \<and> cmd_ok P d)"
| "cmd_ok P (BACK c) = cmd_ok P c"

text \<open>The words that a command holds, and the words from a place of the line on.\<close>

primrec cmd_words :: "'w cmd \<Rightarrow> 'w multiset" where
  "cmd_words (EXEC args) = mset args"
| "cmd_words (REDIR c w mode fd) = add_mset w (cmd_words c)"
| "cmd_words (PIPE c d) = cmd_words c + cmd_words d"
| "cmd_words (LIST c d) = cmd_words c + cmd_words d"
| "cmd_words (BACK c) = cmd_words c"

function rest_words :: "string \<Rightarrow> pointers multiset" where
  "rest_words r =
    (case gettoken r of (tok, w, r') \<Rightarrow>
       if tok = CHR 0x00 then {#} else if tok = CHR ''a'' then add_mset w (rest_words r') else rest_words r')"
  by pat_completeness auto

termination
  by (relation "measure length") (auto dest: gettoken_shorter [OF sym])

declare rest_words.simps [simp del]

lemma skip_blanks_Nil [simp]: "skip_blanks [] = []"
  by (simp add: skip_blanks_def)

lemma rest_words_skip [simp]: "rest_words (skip_blanks r) = rest_words r"
  by (subst (1 2) rest_words.simps) (simp add: gettoken_eq)

lemma rest_words_peek: "peek toks r = (b, s) \<Longrightarrow> rest_words s = rest_words r"
  using peek_rest [of toks r b s] by simp

lemma rest_words_symbol:
  assumes "peek toks r = (True, s)" "set toks \<subseteq> set symbols"
  shows "rest_words (next_token s) = rest_words r" "CHR 0x00 \<noteq> fst (gettoken s)" "fst (gettoken s) \<noteq> CHR ''a''"
proof -
  have p: "skip_blanks s = s" "s \<noteq> []" "hd s \<in> set symbols" using peek_rest [OF assms(1)] assms(2) by auto
  then obtain c t where s: "s = c # t" "c \<in> set symbols" by (cases s) auto
  with p(1) show g: "CHR 0x00 \<noteq> fst (gettoken s)" "fst (gettoken s) \<noteq> CHR ''a''"
    by (auto simp: gettoken_eq symbols_def split: list.splits)
  have "rest_words s = rest_words (next_token s)" using g by (subst rest_words.simps) (auto simp: next_token_def split: prod.splits)
  then show "rest_words (next_token s) = rest_words r" using rest_words_peek [OF assms(1)] by simp
qed

lemma gettoken_end: "gettoken r = (CHR 0x00, w, r') \<Longrightarrow> rest_words r = {#} \<and> rest_words r' = {#}"
proof -
  assume g: "gettoken r = (CHR 0x00, w, r')"
  then have "skip_blanks r = []" by (cases "skip_blanks r") (auto simp: gettoken_eq split: list.splits if_splits)
  then have "r' = []" using g by (simp add: gettoken_eq)
  moreover have "rest_words [] = {#}" by (subst rest_words.simps) (simp add: gettoken_eq)
  ultimately show ?thesis using g rest_words.simps [of r] by simp
qed

lemma gettoken_word:
  assumes "suffix r line" "gettoken r = (CHR ''a'', w, r')"
  shows "good_word line w"
proof -
  obtain c t where s: "skip_blanks r = c # t" using assms(2) by (cases "skip_blanks r") (auto simp: gettoken_eq)
  have suf: "suffix (c # t) line" using s skip_blanks_suffix [of r] assms(1) by (metis suffix_order.trans)
  have c: "c \<notin> set ''|();&<''" "c \<noteq> CHR ''>''" using assms(2) s by (auto simp: gettoken_eq split: list.splits if_splits)
  then have wc: "word_char c" using skip_blanks_head [OF s] by (auto simp: word_char_def symbols_def)
  have w: "w = (length (c # t), length (dropWhile word_char (c # t)))" using assms(2) s c by (simp add: gettoken_eq)
  have "drop (length line - length (c # t)) line = c # t" using suf by (auto simp: suffix_def)
  then show ?thesis using w wc suffix_length_le [OF suf] length_dropWhile_le [of word_char t] by (simp add: good_word_def)
qed

lemma redirs_words:
  "redirs r = Parsed (rs, r') \<Longrightarrow> suffix r line \<Longrightarrow>
    (\<forall>(w, mode, fd)\<in>set rs. good_word line w \<and> redir_ok mode fd) \<and> mset (map fst rs) + rest_words r' = rest_words r"
proof (induction r arbitrary: rs r' rule: redirs.induct)
  case (1 r)
  obtain b s where p: "peek ''<>'' r = (b, s)" by (cases "peek ''<>'' r")
  obtain tok w r1 where g1: "gettoken s = (tok, w, r1)" by (cases "gettoken s")
  obtain t w' r2 where g2: "gettoken r1 = (t, w', r2)" by (cases "gettoken r1")
  show ?case
  proof (cases b)
    case True
    with 1(2) p g1 g2 obtain rs2 where t: "t = CHR ''a''" and rec: "redirs r2 = Parsed (rs2, r')" and rs: "rs = (w', redir_kind tok) # rs2"
      by (subst (asm) redirs.simps) (auto simp: parsed_simps split: if_splits)
    have suf: "suffix r1 line" "suffix r2 line"
      using gettoken_suffix [OF g1] gettoken_suffix [OF g2] peek_rest [OF p] skip_blanks_suffix [of r] 1(3) by (metis suffix_order.trans)+
    have "(\<forall>(w, mode, fd)\<in>set rs2. good_word line w \<and> redir_ok mode fd) \<and> mset (map fst rs2) + rest_words r' = rest_words r2"
      using 1(1) [OF p [symmetric] _ g1 [symmetric] refl g2 [symmetric] refl _ rec suf(2)] t True by simp
    moreover have "redir_ok (fst (redir_kind tok)) (snd (redir_kind tok))" by (simp add: redir_ok_def redir_kind_def)
    moreover have "rest_words r = add_mset w' (rest_words r2)"
      using rest_words_symbol(1) [of "''<>''" r s] p True g1 g2 t rest_words.simps [of r1] by (simp add: symbols_def next_token_def)
    ultimately show ?thesis using gettoken_word [OF suf(1)] g2 t rs by (auto split: prod.splits)
  next
    case False
    then show ?thesis using 1(2) p rest_words_peek [OF p] by (subst (asm) redirs.simps) auto
  qed
qed

lemma foldl_redircmd_words: "cmd_words (foldl redircmd c rs) = cmd_words c + mset (map fst rs)"
  by (induction rs arbitrary: c) (auto simp: redircmd_def)

lemma foldl_redircmd_ok:
  "cmd_ok P (foldl redircmd c rs) \<longleftrightarrow> cmd_ok P c \<and> (\<forall>(w, mode, fd)\<in>set rs. P w \<and> redir_ok mode fd)"
  by (induction rs arbitrary: c) (auto simp: redircmd_def)

lemma exec_args_ok:
  "exec_args args rs r = Parsed (args', rs', r') \<Longrightarrow> suffix r line \<Longrightarrow> cmd_ok (good_word line) (foldl redircmd (EXEC args) rs)
     \<Longrightarrow> suffix r' r \<and> cmd_ok (good_word line) (foldl redircmd (EXEC args') rs')
         \<and> mset args' + mset (map fst rs') + rest_words r' = mset args + mset (map fst rs) + rest_words r"
proof (induction args rs r rule: exec_args.induct)
  case (1 args rs r)
  obtain b s where p: "peek ''|)&;'' r = (b, s)" by (cases "peek ''|)&;'' r")
  obtain tok w r1 where g: "gettoken s = (tok, w, r1)" by (cases "gettoken s")
  have s: "suffix s r" using peek_rest [OF p] skip_blanks_suffix [of r] by simp
  have r1: "suffix r1 r" using s gettoken_suffix [OF g] by (metis suffix_order.trans)
  show ?case
  proof (cases "b \<or> tok = CHR 0x00")
    case True
    then show ?thesis using 1(2,4) p g s r1 rest_words_peek [OF p] gettoken_end [of s w r1]
      by (subst (asm) exec_args.simps) (cases b; auto)
  next
    case False
    with 1(2) p g obtain rs2 r2 where t: "tok = CHR ''a''" "length args + 1 < MAXARGS" and rd: "redirs r1 = Parsed (rs2, r2)"
      and rec: "exec_args (args @ [w]) (rs @ rs2) r2 = Parsed (args', rs', r')"
      by (subst (asm) exec_args.simps) (auto simp: parsed_simps split: if_splits)
    have suf: "suffix s line" "suffix r1 line" "suffix r2 line" "suffix r2 r"
      using s r1 redirs_suffix [OF rd] 1(3) by (metis suffix_order.trans)+
    have "cmd_ok (good_word line) (foldl redircmd (EXEC (args @ [w])) (rs @ rs2))"
      using 1(4) redirs_words [OF rd suf(2)] gettoken_word [OF suf(1)] g t by (auto simp: foldl_redircmd_ok simp del: foldl_append)
    from 1(1) [OF p [symmetric] _ g [symmetric] refl _ _ _ rd refl rec suf(3) this] False t suf(4) redirs_words [OF rd suf(2)]
      rest_words_peek [OF p] rest_words.simps [of s] g show ?thesis
      by (auto intro: suffix_order.trans)
  qed
qed

lemma backs_ok: "backs c r = (c', r') \<Longrightarrow> suffix r' r \<and> cmd_ok P c' = cmd_ok P c \<and> cmd_words c' = cmd_words c \<and> rest_words r' = rest_words r"
proof (induction c r rule: backs.induct)
  case (1 c r)
  obtain b s where p: "peek ''&'' r = (b, s)" by (cases "peek ''&'' r")
  have s: "suffix s r" using peek_rest [OF p] skip_blanks_suffix [of r] by simp
  show ?case
  proof (cases b)
    case True
    then have "backs (BACK c) (next_token s) = (c', r')" using 1(2) p by (subst (asm) backs.simps) simp
    from 1(1) [OF p [symmetric] _ this] True s next_token_suffix [of s] rest_words_symbol(1) [of "''&''" r s] p show ?thesis
      by (auto simp: symbols_def intro: suffix_order.trans)
  next
    case False
    then show ?thesis using 1(2) p s rest_words_peek [OF p] by (subst (asm) backs.simps) simp
  qed
qed

text \<open>What a procedure of the parser that starts at \<open>r\<close> returns: a well-formed command, or a panic with one of four messages.\<close>

definition messages :: "string set" where
  "messages = {''syntax'', ''too many args'', ''missing file for redirection'', ''syntax - missing )''}"

definition result_ok :: "string \<Rightarrow> string \<Rightarrow> pointers multiset \<Rightarrow> (pointers cmd \<times> string) parsed \<Rightarrow> bool" where
  "result_ok line r ws m =
    (case m of
       Parsed (c, r') \<Rightarrow> suffix r' r \<and> cmd_ok (good_word line) c \<and> cmd_words c + rest_words r' = ws
     | Panic msg \<Rightarrow> msg \<in> messages
     | Too_deep \<Rightarrow> False)"

lemma result_ok_mono: "result_ok line s ws m \<Longrightarrow> suffix s r \<Longrightarrow> result_ok line r ws m"
  by (auto simp: result_ok_def split: parsed.splits intro: suffix_order.trans)

lemma result_ok_then:
  assumes "result_ok line r ws m"
    "\<And>c s. suffix s r \<Longrightarrow> cmd_ok (good_word line) c \<Longrightarrow> cmd_words c + rest_words s = ws \<Longrightarrow> result_ok line r ws' (f (c, s))"
  shows "result_ok line r ws' (and_then m f)"
proof (cases m)
  case (Parsed x)
  moreover obtain c s where "x = (c, s)" by (cases x)
  ultimately show ?thesis using assms(1) assms(2) [of s c] by (simp add: result_ok_def [of line r ws "Parsed (c, s)"])
qed (use assms in \<open>simp_all add: result_ok_def\<close>)

lemma redirs_result: "redirs r \<noteq> Too_deep \<and> (redirs r = Panic msg \<longrightarrow> msg \<in> messages)"
proof (induction r rule: redirs.induct)
  case (1 r)
  obtain b s where p: "peek ''<>'' r = (b, s)" by (cases "peek ''<>'' r")
  obtain tok w r1 where g1: "gettoken s = (tok, w, r1)" by (cases "gettoken s")
  obtain t w' r2 where g2: "gettoken r1 = (t, w', r2)" by (cases "gettoken r1")
  show ?case using 1 [OF p [symmetric] _ g1 [symmetric] refl g2 [symmetric] refl]
    by (subst (1 2) redirs.simps) (cases b; auto simp: p g1 g2 parsed_simps messages_def split: prod.splits)
qed

lemma exec_args_result: "exec_args args rs r \<noteq> Too_deep \<and> (exec_args args rs r = Panic msg \<longrightarrow> msg \<in> messages)"
proof (induction args rs r rule: exec_args.induct)
  case (1 args rs r)
  obtain b s where p: "peek ''|)&;'' r = (b, s)" by (cases "peek ''|)&;'' r")
  obtain tok w r1 where g: "gettoken s = (tok, w, r1)" by (cases "gettoken s")
  show ?case
  proof (cases "b \<or> tok \<noteq> CHR ''a'' \<or> MAXARGS \<le> length args + 1")
    case True
    then show ?thesis by (subst (1 2) exec_args.simps) (cases b; auto simp: p g messages_def)
  next
    case False
    have rec: "redirs r1 = Parsed (rs2, r2) \<Longrightarrow> exec_args (args @ [w]) (rs @ rs2) r2 \<noteq> Too_deep
        \<and> (exec_args (args @ [w]) (rs @ rs2) r2 = Panic msg \<longrightarrow> msg \<in> messages)" for rs2 r2
      using 1 [OF p [symmetric] _ g [symmetric] refl _ _ _ _ refl] False by simp
    have "exec_args args rs r = and_then (redirs r1) (\<lambda>(rs', r). exec_args (args @ [w]) (rs @ rs') r)"
      using False by (subst exec_args.simps) (simp add: p g)
    then show ?thesis using redirs_result [of r1 msg] rec by (cases "redirs r1") (auto simp del: exec_args.simps)
  qed
qed

lemma parseredirs_ok: "suffix r line \<Longrightarrow> cmd_ok (good_word line) c \<Longrightarrow> result_ok line r (cmd_words c + rest_words r) (parseredirs c r)"
  using redirs_result [of r] redirs_suffix [of r] redirs_words [of r _ _ line]
  by (cases "redirs r") (auto simp: parseredirs_def result_ok_def foldl_redircmd_ok foldl_redircmd_words)

lemma exec_ok:
  assumes "suffix r line"
  shows "result_ok line r (rest_words r) (and_then (redirs r) (\<lambda>(rs, r). and_then (exec_args [] rs r) (\<lambda>(args, rs, r). Parsed (foldl redircmd (EXEC args) rs, r))))"
proof (cases "redirs r")
  case (Parsed x)
  then obtain rs r1 where x: "redirs r = Parsed (rs, r1)" by (cases x) simp
  have r1: "suffix r1 line" "suffix r1 r" using redirs_suffix [OF x] assms by (auto intro: suffix_order.trans)
  have ok: "cmd_ok (good_word line) (foldl redircmd (EXEC []) rs)"
    using redirs_words [OF x assms] by (simp add: foldl_redircmd_ok MAXARGS_def)
  show ?thesis using x exec_args_result [of "[]" rs r1] exec_args_ok [OF _ r1(1) ok] r1(2) redirs_words [OF x assms]
    by (cases "exec_args [] rs r1") (auto simp: result_ok_def foldl_redircmd_words intro: suffix_order.trans)
qed (use redirs_result [of r] in \<open>auto simp: result_ok_def\<close>)

lemma peek_suffix: "peek toks r = (b, s) \<Longrightarrow> suffix s r"
  using peek_rest [of toks r b s] skip_blanks_suffix [of r] by simp

lemma peek_next: "peek toks r = (True, s) \<Longrightarrow> suffix (next_token s) r \<and> length (next_token s) < length r"
  using peek_suffix [of toks r True s] next_token_suffix [of s] peek_shorter [of toks r s] by (auto intro: suffix_order.trans)

lemma parseline_step:
  assumes "result_ok line r (rest_words r) (parsepipe n r)" "\<And>s. suffix s r \<Longrightarrow> length s < length r \<Longrightarrow> result_ok line s (rest_words s) (parseline n s)"
  shows "result_ok line r (rest_words r) (parseline (Suc n) r)"
  unfolding parseline.simps
proof (rule result_ok_then [OF assms(1)], goal_cases)
  case (1 c s)
  obtain c2 s2 where b: "backs c s = (c2, s2)" by (cases "backs c s")
  obtain x s3 where k: "peek '';'' s2 = (x, s3)" by (cases "peek '';'' s2")
  note B = backs_ok [OF b, of "good_word line"]
  have s2: "suffix s2 r" using B 1 by (auto intro: suffix_order.trans)
  show ?case
  proof (cases x)
    case True
    have nx: "suffix (next_token s3) r" "length (next_token s3) < length r"
      using peek_next [of "'';''" s2 s3] k True s2 suffix_length_le [OF s2] by (auto intro: suffix_order.trans)
    have "result_ok line r (rest_words r) (and_then (parseline n (next_token s3)) (\<lambda>(d, r). Parsed (LIST c2 d, r)))"
      using B 1 rest_words_symbol(1) [of "'';''" s2 s3] k True
      by (intro result_ok_then [OF result_ok_mono [OF assms(2) [OF nx] nx(1)]]) (simp add: result_ok_def symbols_def add.assoc)
    then show ?thesis using b k True by simp
  next
    case False
    then show ?thesis using b k B 1 s2 peek_suffix [OF k] rest_words_peek [OF k] by (auto simp: result_ok_def intro: suffix_order.trans)
  qed
qed

lemma parsepipe_step:
  assumes "result_ok line r (rest_words r) (parseexec n r)" "\<And>s. suffix s r \<Longrightarrow> length s < length r \<Longrightarrow> result_ok line s (rest_words s) (parsepipe n s)"
  shows "result_ok line r (rest_words r) (parsepipe (Suc n) r)"
  unfolding parsepipe.simps
proof (rule result_ok_then [OF assms(1)], goal_cases)
  case (1 c s)
  obtain x s3 where k: "peek ''|'' s = (x, s3)" by (cases "peek ''|'' s")
  show ?case
  proof (cases x)
    case True
    have nx: "suffix (next_token s3) r" "length (next_token s3) < length r"
      using peek_next [of "''|''" s s3] k True 1 suffix_length_le [OF 1(1)] by (auto intro: suffix_order.trans)
    have "result_ok line r (rest_words r) (and_then (parsepipe n (next_token s3)) (\<lambda>(d, r). Parsed (PIPE c d, r)))"
      using 1 rest_words_symbol(1) [of "''|''" s s3] k True
      by (intro result_ok_then [OF result_ok_mono [OF assms(2) [OF nx] nx(1)]]) (simp add: result_ok_def symbols_def add.assoc)
    then show ?thesis using k True by simp
  next
    case False
    then show ?thesis using k 1 peek_suffix [OF k] rest_words_peek [OF k] by (auto simp: result_ok_def intro: suffix_order.trans)
  qed
qed

lemma parseblock_step:
  assumes "fst (peek ''('' r)" "\<And>s. suffix s r \<Longrightarrow> length s < length r \<Longrightarrow> result_ok line s (rest_words s) (parseline n s)" "suffix r line"
  shows "result_ok line r (rest_words r) (parseblock (Suc n) r)"
proof -
  obtain s where k: "peek ''('' r = (True, s)" using assms(1) by (cases "peek ''('' r") simp
  note nx = peek_next [OF k, THEN conjunct1] peek_next [OF k, THEN conjunct2]
  have "result_ok line r (rest_words r) (and_then (parseline n (next_token s)) (\<lambda>(c, r).
           case peek '')'' r of
             (False, r) \<Rightarrow> Panic ''syntax - missing )''
           | (True, r) \<Rightarrow> parseredirs c (next_token r)))"
  proof (rule result_ok_then [OF result_ok_mono [OF assms(2) [OF nx] nx(1)]], goal_cases)
    case (1 c s1)
    obtain x s2 where k2: "peek '')'' s1 = (x, s2)" by (cases "peek '')'' s1")
    show ?case
    proof (cases x)
      case True
      have s: "suffix (next_token s2) r" using peek_next [of "'')''" s1 s2] k2 True 1 by (auto intro: suffix_order.trans)
      then have "suffix (next_token s2) line" using assms(3) by (auto intro: suffix_order.trans)
      from result_ok_mono [OF parseredirs_ok [OF this 1(2)] s] show ?thesis
        using k2 True 1(3) rest_words_symbol(1) [of "'')''" s1 s2] rest_words_symbol(1) [OF k] by (simp add: symbols_def)
    qed (simp add: k2 result_ok_def messages_def)
  qed
  then show ?thesis using k by simp
qed

text \<open>With a bound of four levels for each character of the line the bound is never met.\<close>

lemma parse_ok:
  "suffix r line \<Longrightarrow>
     (4 * length r + 4 \<le> n \<longrightarrow> result_ok line r (rest_words r) (parseline n r)) \<and>
     (4 * length r + 3 \<le> n \<longrightarrow> result_ok line r (rest_words r) (parsepipe n r)) \<and>
     (4 * length r + 2 \<le> n \<longrightarrow> result_ok line r (rest_words r) (parseexec n r)) \<and>
     (4 * length r + 1 \<le> n \<longrightarrow> fst (peek ''('' r) \<longrightarrow> result_ok line r (rest_words r) (parseblock n r))"
proof (induction n arbitrary: r)
  case (Suc n)
  have line: "result_ok line s (rest_words s) (parseline n s)" if "suffix s r" "length s < length r" "4 * length r \<le> n" for s
    using Suc.IH [of s] Suc.prems that by (auto intro: suffix_order.trans)
  have pipe: "result_ok line s (rest_words s) (parsepipe n s)" if "suffix s r" "length s < length r" "4 * length r \<le> n" for s
    using Suc.IH [of s] Suc.prems that by (auto intro: suffix_order.trans)
  obtain x s where k: "peek ''('' r = (x, s)" by (cases "peek ''('' r")
  have s: "suffix s r" "suffix s line" "fst (peek ''('' s) = x"
    using peek_suffix [OF k] Suc.prems k peek_rest [OF k] by (auto simp: peek_def Let_def intro: suffix_order.trans)
  have blk: "result_ok line r (rest_words r) (parseblock n s)" if "x" "4 * length r + 1 \<le> n"
    using Suc.IH [OF s(2)] s that suffix_length_le [OF s(1)] rest_words_peek [OF k] by (auto intro: result_ok_mono)
  have "result_ok line r (rest_words r) (parseexec (Suc n) r)" if "4 * length r + 1 \<le> n"
    using blk that k result_ok_mono [OF exec_ok [OF s(2)] s(1)] rest_words_peek [OF k] by (cases x) auto
  then show ?case using Suc.IH [OF Suc.prems] line pipe Suc.prems
    by (auto intro!: parseline_step parsepipe_step parseblock_step simp del: parseline.simps parsepipe.simps parseexec.simps parseblock.simps)
qed simp

section \<open>The strings of a command\<close>

text \<open>The characters that the pointers of a word enclose.\<close>

definition text_at :: "string \<Rightarrow> pointers \<Rightarrow> string" where
  "text_at line w = take (fst w - snd w) (drop (length line - fst w) line)"

text \<open>Writing NUL behind words keeps the characters of words.\<close>

definition keeps_words :: "string \<Rightarrow> string \<Rightarrow> bool" where
  "keeps_words line buf = (length buf = length line + 1 \<and> (\<forall>i < length line. word_char (line ! i) \<longrightarrow> buf ! i = line ! i))"

lemma good_word_length:
  assumes "good_word line w"
  shows "length (takeWhile word_char (drop (length line - fst w) line)) = fst w - snd w"
proof -
  let ?t = "drop (length line - fst w) line"
  have "length (takeWhile word_char ?t) + length (dropWhile word_char ?t) = fst w"
    using assms by (metis (no_types) good_word_def diff_diff_cancel length_append length_drop takeWhile_dropWhile_id)
  then show ?thesis using assms by (simp add: good_word_def)
qed

lemma good_word_end:
  assumes "good_word line w" "snd w \<noteq> 0"
  shows "length line - snd w < length line \<and> \<not> word_char (line ! (length line - snd w))"
proof -
  let ?t = "drop (length line - fst w) line"
  have w: "snd w < fst w" "fst w \<le> length line" "length (dropWhile word_char ?t) = snd w" using assms(1) by (auto simp: good_word_def)
  then have ne: "dropWhile word_char ?t \<noteq> []" using assms(2) by (metis length_0_conv)
  have "dropWhile word_char ?t = drop (length (takeWhile word_char ?t)) ?t" by (metis append_eq_conv_conj takeWhile_dropWhile_id)
  then have d: "dropWhile word_char ?t = drop (length line - snd w) line" using w good_word_length [OF assms(1)] by simp
  have "hd (drop (length line - snd w) line) = line ! (length line - snd w)" using w assms(2) by (intro hd_drop_conv_nth) simp
  then show ?thesis using hd_dropWhile [OF ne] d w assms(2) by simp
qed

lemma put_nul_keeps: "keeps_words line buf \<Longrightarrow> good_word line w \<Longrightarrow> keeps_words line (put_nul (length line) w buf)"
  using good_word_end [of line w] by (cases "snd w = 0") (auto simp: keeps_words_def put_nul_def nth_list_update)

lemma put_nuls_keeps: "keeps_words line buf \<Longrightarrow> \<forall>w\<in>set ws. good_word line w \<Longrightarrow> keeps_words line (fold (put_nul (length line)) ws buf)"
  by (induction ws arbitrary: buf) (auto simp: put_nul_keeps)

lemma nulterminate_keeps: "cmd_ok (good_word line) c \<Longrightarrow> keeps_words line buf \<Longrightarrow> keeps_words line (nulterminate (length line) c buf)"
  by (induction c arbitrary: buf) (auto simp: put_nul_keeps put_nuls_keeps)

text \<open>NUL stays where it has been written, and is written behind each word.\<close>

lemma put_nul_nul: "buf ! i = CHR 0x00 \<or> i = n - snd w \<and> i < length buf \<Longrightarrow> put_nul n w buf ! i = CHR 0x00"
  by (cases "i = n - snd w"; cases "i < length buf") (auto simp: put_nul_def not_less list_update_beyond)

lemma put_nul_length [simp]: "length (put_nul n w buf) = length buf"
  by (simp add: put_nul_def)

lemma put_nuls_end: "buf ! i = CHR 0x00 \<or> (\<exists>w\<in>set ws. i = n - snd w \<and> i < length buf) \<Longrightarrow> fold (put_nul n) ws buf ! i = CHR 0x00"
proof (induction ws arbitrary: buf)
  case (Cons w ws)
  then have "put_nul n w buf ! i = CHR 0x00 \<or> (\<exists>w\<in>set ws. i = n - snd w \<and> i < length (put_nul n w buf))"
    using put_nul_nul [of buf i n w] by auto
  then show ?case using Cons.IH by simp
qed simp

lemma put_nuls_length [simp]: "length (fold (put_nul n) ws buf) = length buf"
  by (induction ws arbitrary: buf) auto

lemma nulterminate_length [simp]: "length (nulterminate n c buf) = length buf"
  by (induction c arbitrary: buf) auto

lemma nulterminate_end:
  "buf ! i = CHR 0x00 \<or> (\<exists>w\<in>words c. i = n - snd w \<and> i < length buf) \<Longrightarrow> nulterminate n c buf ! i = CHR 0x00"
proof (induction c arbitrary: buf)
  case (EXEC args)
  then show ?case using put_nuls_end [of buf i args n] by simp
next
  case (REDIR c w mode fd)
  then have "nulterminate n c buf ! i = CHR 0x00 \<or> i = n - snd w \<and> i < length (nulterminate n c buf)" by auto
  from put_nul_nul [OF this] show ?case by simp
next
  case (PIPE c d)
  then have "nulterminate n c buf ! i = CHR 0x00 \<or> (\<exists>w\<in>words d. i = n - snd w \<and> i < length (nulterminate n c buf))" by auto
  from PIPE.IH(2) [OF this] show ?case by simp
next
  case (LIST c d)
  then have "nulterminate n c buf ! i = CHR 0x00 \<or> (\<exists>w\<in>words d. i = n - snd w \<and> i < length (nulterminate n c buf))" by auto
  from LIST.IH(2) [OF this] show ?case by simp
qed simp

lemma cmd_ok_words: "cmd_ok P c \<Longrightarrow> w \<in> words c \<Longrightarrow> P w"
  by (induction c) auto

lemma string_at_text:
  assumes "keeps_words line buf" "good_word line w" "buf ! (length line - snd w) = CHR 0x00" "CHR 0x00 \<notin> set line"
  shows "string_at (length line) buf w = text_at line w"
proof -
  let ?q = "length line - fst w"
  let ?k = "fst w - snd w"
  let ?t = "drop ?q line"
  have w: "snd w < fst w" "fst w \<le> length line" "length (dropWhile word_char ?t) = snd w" using assms(2) by (auto simp: good_word_def)
  have tk: "takeWhile word_char ?t = take ?k ?t" using good_word_length [OF assms(2)] by (metis takeWhile_eq_take)
  have wc: "word_char (line ! (?q + j))" if "j < ?k" for j
    using nth_mem [of j "takeWhile word_char ?t"] tk w that set_takeWhileD [of "take ?k ?t ! j" word_char ?t] by auto
  have eq: "take ?k (drop ?q buf) = take ?k ?t"
    using assms(1) w wc by (intro nth_equalityI) (auto simp: keeps_words_def)
  have "drop ?q buf = take ?k ?t @ CHR 0x00 # drop (Suc (?q + ?k)) buf"
    using id_take_nth_drop [of ?k "drop ?q buf"] assms(1,3) w eq by (simp add: keeps_words_def add.commute)
  moreover have "CHR 0x00 \<notin> set (take ?k ?t)" using assms(4) by (meson in_set_dropD in_set_takeD)
  then have "takeWhile (\<lambda>c. c \<noteq> CHR 0x00) (take ?k ?t @ CHR 0x00 # xs) = take ?k ?t" for xs
    by (subst takeWhile_append2) auto
  ultimately show ?thesis by (simp add: string_at_def text_at_def c_string_def)
qed

text \<open>The words of the line are what \<^verbatim>\<open>strtok\<close> finds between blanks and symbols.\<close>

abbreviation line_words :: "string \<Rightarrow> string list" where
  "line_words \<equiv> tokens (whitespace @ symbols)"

lemma line_words_skip [simp]: "line_words (skip_blanks r) = line_words r"
  unfolding skip_blanks_def by (induction r) (auto simp: tokens_delim)

lemma line_words_word:
  assumes "s \<noteq> []" "word_char (hd s)"
  shows "line_words s = takeWhile word_char s # line_words (dropWhile word_char s)"
proof -
  let ?w = "takeWhile word_char s"
  have w: "?w \<noteq> []" "set ?w \<inter> set (whitespace @ symbols) = {}"
    using assms by (cases s) (auto simp: word_char_def dest: set_takeWhileD)
  have s: "s = ?w @ dropWhile word_char s" by simp
  show ?thesis
  proof (cases "dropWhile word_char s")
    case Nil
    then have "?w = s" using s by (metis append_Nil2)
    then show ?thesis using tokens_word [OF w] Nil by (simp only: tokens_Nil)
  next
    case (Cons d t)
    then have "\<not> word_char d" using hd_dropWhile [of word_char s] by simp
    then have d: "d \<in> set (whitespace @ symbols)" by (auto simp: word_char_def)
    have "line_words s = ?w # line_words t"
      using tokens.simps [of "whitespace @ symbols" s] strtok_word(2) [OF w d, of t] s Cons by simp
    then show ?thesis using Cons tokens_delim [OF d, of t] by simp
  qed
qed

lemma text_at_takeWhile:
  assumes "suffix s line"
  shows "text_at line (length s, length (dropWhile word_char s)) = takeWhile word_char s"
proof -
  have "drop (length line - length s) line = s" using assms by (auto simp: suffix_def)
  moreover have "length s - length (dropWhile word_char s) = length (takeWhile word_char s)"
    by (metis add_diff_cancel_right' length_append takeWhile_dropWhile_id)
  ultimately show ?thesis by (simp add: text_at_def) (metis takeWhile_eq_take)
qed

lemma rest_words_texts: "suffix r line \<Longrightarrow> image_mset (text_at line) (rest_words r) = mset (line_words r)"
proof (induction r rule: rest_words.induct)
  case (1 r)
  obtain tok w r' where g: "gettoken r = (tok, w, r')" by (cases "gettoken r")
  let ?s = "skip_blanks r"
  have r': "r' = skip_blanks (snd (token ?s))" and w: "w = (length ?s, length (snd (token ?s)))" and tok: "tok = fst (token ?s)"
    using g by (auto simp: gettoken_eq)
  have suf: "suffix r' line" "suffix ?s line"
    using 1(3) gettoken_suffix [OF g] skip_blanks_suffix [of r] by (auto intro: suffix_order.trans)
  show ?case
  proof (cases ?s)
    case Nil
    then show ?thesis using line_words_skip [of r] rest_words.simps [of r] g tok by simp
  next
    case (Cons c t)
    note nb = skip_blanks_head [OF Cons]
    show ?thesis
    proof (cases "word_char c")
      case True
      then have c: "c \<notin> set ''|();&<''" "c \<noteq> CHR ''>''" by (auto simp: word_char_def symbols_def)
      have "image_mset (text_at line) (rest_words r) = add_mset (text_at line w) (mset (line_words r'))"
        using 1(1) [OF g [symmetric] refl] suf g tok Cons c rest_words.simps [of r] by simp
      moreover have "line_words r = takeWhile word_char ?s # line_words r'"
        using line_words_word [of ?s] line_words_skip [of r] True Cons r' c by simp
      moreover have "text_at line w = takeWhile word_char ?s" using text_at_takeWhile [OF suf(2)] w Cons c by simp
      ultimately show ?thesis by simp
    next
      case False
      then have c: "c \<in> set symbols" using nb by (auto simp: word_char_def)
      then have "tok \<noteq> CHR 0x00" "tok \<noteq> CHR ''a''" using tok Cons by (auto simp: symbols_def split: list.splits)
      moreover have "line_words (snd (token ?s)) = line_words ?s" using c Cons by (auto simp: symbols_def tokens_delim split: list.split)
      ultimately show ?thesis using 1(2) [OF g [symmetric] refl] suf g r' rest_words.simps [of r] line_words_skip [of r] by simp
    qed
  qed
qed

lemma cmd_words_map: "cmd_words (map_cmd f c) = image_mset f (cmd_words c)"
  by (induction c) auto

lemma cmd_ok_map: "cmd_ok P (map_cmd f c) = cmd_ok (\<lambda>w. P (f w)) c"
  by (induction c) auto

lemma cmd_ok_mono: "cmd_ok P c \<Longrightarrow> (\<And>w. P w \<Longrightarrow> Q w) \<Longrightarrow> cmd_ok Q c"
  by (induction c) auto

lemma good_word_text: "good_word line w \<Longrightarrow> text_at line w \<noteq> [] \<and> list_all word_char (text_at line w)"
proof -
  assume w: "good_word line w"
  let ?t = "takeWhile word_char (drop (length line - fst w) line)"
  have "text_at line w = ?t" unfolding text_at_def good_word_length [OF w, symmetric] by (metis takeWhile_eq_take)
  moreover have "?t \<noteq> []" using good_word_length [OF w] w by (metis good_word_def list.size(3) zero_less_diff less_irrefl)
  ultimately show ?thesis by (auto simp: list_all_iff dest: set_takeWhileD)
qed

text \<open>The strings of a parsed command are the texts of its words.\<close>

lemma parsed_strings:
  assumes "cmd_ok (good_word line) c" "CHR 0x00 \<notin> set line"
  shows "map_cmd (string_at (length line) (nulterminate (length line) c (line @ [CHR 0x00]))) c = map_cmd (text_at line) c"
proof (rule cmd.map_cong0)
  fix w assume w: "w \<in> words c"
  let ?buf = "nulterminate (length line) c (line @ [CHR 0x00])"
  have k: "keeps_words line ?buf" using assms(1) by (intro nulterminate_keeps) (auto simp: keeps_words_def nth_append)
  have "?buf ! (length line - snd w) = CHR 0x00" using w by (intro nulterminate_end) auto
  from string_at_text [OF k cmd_ok_words [OF assms(1) w] this assms(2)]
  show "string_at (length line) ?buf w = text_at line w" .
qed

lemma c_string_no_nul: "CHR 0x00 \<notin> set (c_string s)"
  unfolding c_string_def by (auto dest: set_takeWhileD)

lemma parsecmd_result:
  "case parsecmd buf of
     Parsed c \<Rightarrow> cmd_words c = mset (line_words (c_string buf)) \<and> cmd_ok (\<lambda>w. w \<noteq> [] \<and> list_all word_char w) c
   | Panic msg \<Rightarrow> msg \<in> messages
   | Too_deep \<Rightarrow> False"
proof -
  let ?line = "c_string buf"
  let ?n = "length ?line"
  have ok: "result_ok ?line ?line (rest_words ?line) (parseline (4 * ?n + 4) ?line)"
    using parse_ok [of ?line ?line "4 * ?n + 4"] by simp
  show ?thesis
  proof (cases "parseline (4 * ?n + 4) ?line")
    case (Parsed x)
    obtain c r where x: "x = (c, r)" by (cases x)
    with ok Parsed have c: "cmd_ok (good_word ?line) c" "cmd_words c + rest_words r = rest_words ?line" by (auto simp: result_ok_def)
    show ?thesis
    proof (cases "skip_blanks r = []")
      case True
      then have "rest_words r = {#}" using rest_words_skip [of r] gettoken_end [of "[]"] by (simp add: gettoken_eq)
      then have "cmd_words (map_cmd (text_at ?line) c) = mset (line_words ?line)"
        using c(2) rest_words_texts [of ?line ?line] by (simp add: cmd_words_map)
      moreover have "cmd_ok (\<lambda>w. w \<noteq> [] \<and> list_all word_char w) (map_cmd (text_at ?line) c)"
        using cmd_ok_mono [OF c(1) good_word_text] by (simp add: cmd_ok_map)
      ultimately show ?thesis using Parsed x True parsed_strings [OF c(1) c_string_no_nul] by (simp add: parsecmd_def Let_def peek_def)
    qed (simp add: parsecmd_def Let_def peek_def Parsed x messages_def)
  qed (use ok in \<open>simp_all add: parsecmd_def Let_def result_ok_def messages_def\<close>)
qed

lemma parsed_cmd_ok: "parsecmd buf = Parsed c \<Longrightarrow> cmd_ok (\<lambda>w. w \<noteq> [] \<and> list_all word_char w) c"
  using parsecmd_result [of buf] by simp

text \<open>C7. The parser always returns. It panics with one of four messages, or the command holds exactly the words of the line between blanks and
  symbols, each as often as the line has it and each as a string of its own, at most nine of them in the argument vector of a program, and every
  redirection is of standard input for reading or of standard output for writing and creating.
\<close>

theorem parsecmd_keeps_words:
  "case parsecmd buf of
     Parsed c \<Rightarrow> cmd_words c = mset (line_words (c_string buf)) \<and> cmd_ok (\<lambda>w. w \<noteq> [] \<and> list_all word_char w) c
   | Panic msg \<Rightarrow> msg \<in> {''syntax'', ''too many args'', ''missing file for redirection'', ''syntax - missing )''}
   | Too_deep \<Rightarrow> False"
  using parsecmd_result [of buf] unfolding messages_def .

section \<open>Every command can be written\<close>

text \<open>A line for a command: every part of it in parentheses.\<close>

definition show_words :: "string list \<Rightarrow> string" where
  "show_words ws = concat (map (\<lambda>w. w @ '' '') ws)"

primrec show_cmd :: "string cmd \<Rightarrow> string" where
  "show_cmd (EXEC ws) = show_words ws"
| "show_cmd (REDIR c w mode fd) = ''('' @ show_cmd c @ '')'' @ (if fd = 0 then ''<'' else ''>'') @ w"
| "show_cmd (PIPE c d) = ''('' @ show_cmd c @ '')|('' @ show_cmd d @ '')''"
| "show_cmd (LIST c d) = ''('' @ show_cmd c @ '');('' @ show_cmd d @ '')''"
| "show_cmd (BACK c) = ''('' @ show_cmd c @ '')&''"

primrec depth :: "'w cmd \<Rightarrow> nat" where
  "depth (EXEC ws) = 4"
| "depth (REDIR c w mode fd) = 5 + depth c"
| "depth (PIPE c d) = 5 + max (depth c) (depth d)"
| "depth (LIST c d) = 5 + max (depth c) (depth d)"
| "depth (BACK c) = 5 + depth c"

definition a_word :: "string \<Rightarrow> bool" where
  "a_word w = (w \<noteq> [] \<and> list_all word_char w)"

text \<open>What may follow a command: the end of the line or of a block.\<close>

definition stops :: "string \<Rightarrow> bool" where
  "stops t = (t = [] \<or> hd t = CHR '')'')"

lemma depth_length: "depth c \<le> 4 * length (show_cmd c) + 4"
  by (induction c) auto

lemma skip_blanks_Cons [simp]: "c \<notin> set whitespace \<Longrightarrow> skip_blanks (c # t) = c # t"
  by (simp add: skip_blanks_def)

lemma peek_Nil [simp]: "peek toks [] = (False, [])"
  by (simp add: peek_def)

lemma peek_Cons [simp]: "c \<notin> set whitespace \<Longrightarrow> peek toks (c # t) = (c \<in> set toks, c # t)"
  by (simp add: peek_def)

lemma symbols_plain [simp]: "c \<in> set symbols \<Longrightarrow> c \<notin> set whitespace"
  by (auto simp: symbols_def whitespace_def)

lemma next_token_Cons: "c \<in> set ''|();&'' \<Longrightarrow> next_token (c # t) = skip_blanks t"
  using symbols_plain [of c] by (auto simp: next_token_eq symbols_def)

lemma a_word_head: "a_word w \<Longrightarrow> \<exists>c u. w = c # u \<and> word_char c"
  by (cases w) (auto simp: a_word_def)

lemma word_char_plain: "word_char c \<Longrightarrow> c \<notin> set whitespace \<and> c \<notin> set symbols"
  by (simp add: word_char_def)

lemma gettoken_a_word:
  assumes "a_word w" "t = [] \<or> \<not> word_char (hd t)"
  shows "gettoken (w @ t) = (CHR ''a'', (length (w @ t), length t), skip_blanks t)"
    and "suffix (w @ t) line \<Longrightarrow> text_at line (length (w @ t), length t) = w"
proof -
  obtain c u where w: "w = c # u" "word_char c" using a_word_head [OF assms(1)] by blast
  have tw: "dropWhile word_char (w @ t) = t" "takeWhile word_char (w @ t) = w"
    using assms by (auto simp: a_word_def list_all_iff; cases t; auto)+
  have "token (w @ t) = (CHR ''a'', dropWhile word_char (w @ t))"
    using w word_char_plain [OF w(2)] by (auto simp: symbols_def)
  then show "gettoken (w @ t) = (CHR ''a'', (length (w @ t), length t), skip_blanks t)"
    using w word_char_plain [OF w(2)] tw by (simp add: gettoken_eq)
  show "suffix (w @ t) line \<Longrightarrow> text_at line (length (w @ t), length t) = w"
    using text_at_takeWhile [of "w @ t" line] tw by simp
qed

lemma stops_plain: "stops t \<Longrightarrow> skip_blanks t = t"
  by (cases t) (auto simp: stops_def whitespace_def)

lemma show_words_plain: "list_all a_word ws \<Longrightarrow> stops t \<Longrightarrow> skip_blanks (show_words ws @ t) = show_words ws @ t"
  using a_word_head [of "hd ws"] word_char_plain by (cases ws) (auto simp: show_words_def stops_plain)

lemma show_words_peek:
  assumes "list_all a_word ws" "stops t" "set toks \<subseteq> set symbols - {CHR '')''}"
  shows "peek toks (show_words ws @ t) = (False, show_words ws @ t)"
proof (cases ws)
  case Nil
  then show ?thesis using assms(2,3) by (cases t) (auto simp: show_words_def stops_def whitespace_def)
next
  case (Cons w ws')
  then obtain c u where "w = c # u" "word_char c" using a_word_head [of w] assms(1) by auto
  then show ?thesis using word_char_plain [of c] Cons assms(3) by (auto simp: show_words_def)
qed

lemma redirs_none: "peek ''<>'' r = (False, s) \<Longrightarrow> redirs r = Parsed ([], s)"
  by (simp add: redirs.simps [of r])

lemma exec_args_show:
  "list_all a_word ws \<Longrightarrow> length args + length ws < MAXARGS \<Longrightarrow> stops t \<Longrightarrow> suffix (show_words ws @ t) line \<Longrightarrow>
     \<exists>ps. exec_args args rs (show_words ws @ t) = Parsed (args @ ps, rs, t) \<and> map (text_at line) ps = ws"
proof (induction ws arbitrary: args)
  case Nil
  then show ?case
    by (intro exI [of _ "[]"]) (cases t, auto simp: exec_args.simps [of args] show_words_def stops_def gettoken_eq whitespace_def)
next
  case (Cons w ws)
  let ?t = "'' '' @ show_words ws @ t"
  have e: "show_words (w # ws) @ t = w @ ?t" by (simp add: show_words_def)
  obtain c u where w: "a_word w" "w = c # u" "word_char c" using Cons.prems(1) a_word_head [of w] by auto
  have p: "peek ''|)&;'' (w @ ?t) = (False, w @ ?t)" using w word_char_plain [OF w(3)] by (auto simp: symbols_def)
  have nw: "?t = [] \<or> \<not> word_char (hd ?t)" by (simp add: word_char_def whitespace_def)
  have sk: "skip_blanks ?t = show_words ws @ t"
    using show_words_plain [of ws t] Cons.prems by (simp add: skip_blanks_def whitespace_def)
  have rd: "redirs (show_words ws @ t) = Parsed ([], show_words ws @ t)"
    using Cons.prems by (intro redirs_none show_words_peek) (auto simp: symbols_def)
  let ?p = "(length (w @ ?t), length ?t)"
  have suf: "suffix (w @ ?t) line" using Cons.prems(4) e by simp
  then have "suffix (show_words ws @ t) line" by (metis append.assoc suffix_appendD)
  with Cons.IH [of "args @ [?p]"] Cons.prems obtain ps where
    ps: "exec_args (args @ [?p]) rs (show_words ws @ t) = Parsed ((args @ [?p]) @ ps, rs, t)" "map (text_at line) ps = ws" by auto
  define r where "r = w @ ?t"
  have r: "peek ''|)&;'' r = (False, r)" "gettoken r = (CHR ''a'', ?p, show_words ws @ t)"
    using p gettoken_a_word(1) [OF w(1) nw] sk by (simp_all add: r_def)
  have "exec_args args rs r = exec_args (args @ [?p]) rs (show_words ws @ t)"
    unfolding exec_args.simps [of args rs r] using Cons.prems(2) by (simp add: rd r)
  then have "exec_args args rs (w @ ?t) = Parsed (args @ ?p # ps, rs, t)" using ps(1) by (simp add: r_def)
  then show ?case using ps(2) gettoken_a_word(2) [OF w(1) nw suf] e by (intro exI [of _ "?p # ps"]) simp
qed

text \<open>What the printed command is parsed to, in front of anything that ends a command.\<close>

definition parses_back :: "string cmd \<Rightarrow> bool" where
  "parses_back c = (\<forall>n t line. depth c \<le> n \<longrightarrow> stops t \<longrightarrow> suffix (show_cmd c @ t) line \<longrightarrow>
     (\<exists>p. parseline n (show_cmd c @ t) = Parsed (p, t) \<and> map_cmd (text_at line) p = c))"

lemma show_cmd_plain: "cmd_ok a_word c \<Longrightarrow> stops t \<Longrightarrow> skip_blanks (show_cmd c @ t) = show_cmd c @ t"
  by (cases c) (auto simp: show_words_plain list_all_iff whitespace_def)

lemma backs_none: "peek ''&'' r = (False, s) \<Longrightarrow> backs c r = (c, s)"
  by (simp add: backs.simps [of c r])

lemma parseline_stop:
  assumes "parsepipe n r = Parsed (p, t)" "stops t"
  shows "parseline (Suc n) r = Parsed (p, t)"
proof -
  have "peek ''&'' t = (False, t)" "peek '';'' t = (False, t)" using assms(2) by (cases t; auto simp: stops_def whitespace_def)+
  then show ?thesis using assms(1) by (simp add: backs_none)
qed

lemma parsepipe_stop:
  assumes "parseexec n r = Parsed (p, t)" "stops t"
  shows "parsepipe (Suc n) r = Parsed (p, t)"
proof -
  have "peek ''|'' t = (False, t)" using assms(2) by (cases t) (auto simp: stops_def whitespace_def)
  then show ?thesis using assms(1) by simp
qed

lemma parseexec_block:
  assumes "parses_back c" "cmd_ok a_word c" "depth c \<le> n" "suffix (''('' @ show_cmd c @ '')'' @ t) line"
  shows "\<exists>p. parseexec (Suc (Suc n)) (''('' @ show_cmd c @ '')'' @ t) = parseredirs p (skip_blanks t) \<and> map_cmd (text_at line) p = c"
proof -
  have st: "stops ('')'' @ t)" by (simp add: stops_def)
  have suf: "suffix (show_cmd c @ '')'' @ t) line" using assms(4) by (metis append_Cons append_Nil suffix_ConsD)
  obtain p where p: "parseline n (show_cmd c @ '')'' @ t) = Parsed (p, '')'' @ t)" "map_cmd (text_at line) p = c"
    using assms(1,3) st suf unfolding parses_back_def by blast
  have "next_token (''('' @ show_cmd c @ '')'' @ t) = show_cmd c @ '')'' @ t"
    using show_cmd_plain [OF assms(2) st] next_token_Cons [of "CHR ''(''"] by simp
  moreover have "peek ''('' (''('' @ show_cmd c @ '')'' @ t) = (True, ''('' @ show_cmd c @ '')'' @ t)"
      "peek '')'' ('')'' @ t) = (True, '')'' @ t)" "next_token ('')'' @ t) = skip_blanks t"
    using next_token_Cons [of "CHR '')''"] by (auto simp: whitespace_def)
  ultimately have "parseexec (Suc (Suc n)) (''('' @ show_cmd c @ '')'' @ t) = parseredirs p (skip_blanks t)"
    by (simp only: parseexec.simps parseblock.simps p and_then.simps prod.case bool.case)
  then show ?thesis using p(2) by blast
qed

text \<open>A block behind which no redirection follows.\<close>

lemma parseexec_plain_block:
  assumes "parses_back c" "cmd_ok a_word c" "depth c \<le> n" "suffix (''('' @ show_cmd c @ '')'' @ t) line"
    "stops t \<or> hd t \<in> set ''|&;''"
  shows "\<exists>p. parseexec (Suc (Suc n)) (''('' @ show_cmd c @ '')'' @ t) = Parsed (p, t) \<and> map_cmd (text_at line) p = c"
proof -
  have "skip_blanks t = t" "peek ''<>'' t = (False, t)" using assms(5) by (cases t; auto simp: stops_def whitespace_def)+
  then have "parseredirs p (skip_blanks t) = Parsed (p, t)" for p by (simp add: parseredirs_def redirs_none)
  then show ?thesis using parseexec_block [OF assms(1-4)] by simp
qed

lemma depth_split: "5 + k \<le> n \<Longrightarrow> \<exists>m. n = Suc (Suc (Suc (Suc (Suc m)))) \<and> k \<le> m"
  by (rule exI [of _ "n - 5"]) arith

lemma redir_parses:
  assumes "a_word w" "redir_ok mode fd" "stops t" "suffix ((if fd = 0 then ''<'' else ''>'') @ w @ t) line"
  shows "\<exists>q. parseredirs p ((if fd = 0 then ''<'' else ''>'') @ w @ t) = Parsed (REDIR p q mode fd, t) \<and> text_at line q = w"
proof -
  let ?sym = "if fd = 0 then CHR ''<'' else CHR ''>''"
  obtain c u where w: "w = c # u" "word_char c" using a_word_head [OF assms(1)] by blast
  have c: "c \<notin> set whitespace" "c \<noteq> CHR ''>''" using word_char_plain [OF w(2)] by (auto simp: symbols_def)
  define r where "r = ?sym # w @ t"
  have p1: "peek ''<>'' r = (True, r)" by (simp add: r_def whitespace_def)
  have g1: "fst (gettoken r) = ?sym" "next_token r = w @ t"
    using w c by (auto simp: r_def gettoken_eq next_token_eq whitespace_def)
  have nw: "t = [] \<or> \<not> word_char (hd t)" using assms(3) by (auto simp: stops_def word_char_def symbols_def)
  let ?q = "(length (w @ t), length t)"
  have g2: "gettoken (w @ t) = (CHR ''a'', ?q, t)" using gettoken_a_word(1) [OF assms(1) nw] stops_plain [OF assms(3)] by simp
  have p2: "peek ''<>'' t = (False, t)" using assms(3) by (cases t) (auto simp: stops_def whitespace_def)
  obtain x where g: "gettoken r = (?sym, x, w @ t)" using g1 by (cases "gettoken r") (auto simp: next_token_def)
  have "redirs r = Parsed ([(?q, redir_kind ?sym)], t)"
    unfolding redirs.simps [of r] p1 by (simp add: g g2 redirs_none [OF p2] del: length_append)
  moreover have "redir_kind ?sym = (mode, fd)" using assms(2) by (auto simp: redir_ok_def redir_kind_def)
  moreover have "text_at line ?q = w" using gettoken_a_word(2) [OF assms(1) nw] assms(4) by (metis suffix_appendD)
  ultimately show ?thesis by (intro exI [of _ ?q]) (auto simp: parseredirs_def redircmd_def r_def)
qed

lemma parses_back_EXEC:
  assumes "cmd_ok a_word (EXEC ws)"
  shows "parses_back (EXEC ws)"
  unfolding parses_back_def
proof (intro allI impI)
  fix n t line assume n: "depth (EXEC ws) \<le> n" and t: "stops t" and suf: "suffix (show_cmd (EXEC ws) @ t) line"
  obtain m where m: "n = Suc (Suc (Suc m))" using n by (intro that [of "n - 3"]) simp
  have ws: "list_all a_word ws" "length ws < MAXARGS" using assms by (auto simp: list_all_iff)
  obtain ps where "exec_args [] [] (show_words ws @ t) = Parsed (ps, [], t)" "map (text_at line) ps = ws"
    using exec_args_show [OF ws(1) _ t, of "[]" line "[]"] ws(2) suf by auto
  moreover have "peek ''('' (show_words ws @ t) = (False, show_words ws @ t)" by (rule show_words_peek [OF ws(1) t]) (simp add: symbols_def)
  ultimately have "parseexec (Suc m) (show_words ws @ t) = Parsed (EXEC ps, t)"
    using redirs_none [OF show_words_peek [OF ws(1) t]] by (simp add: symbols_def)
  from parseline_stop [OF parsepipe_stop [OF this t] t] show "\<exists>p. parseline n (show_cmd (EXEC ws) @ t) = Parsed (p, t) \<and> map_cmd (text_at line) p = EXEC ws"
    using m \<open>map (text_at line) ps = ws\<close> by (intro exI [of _ "EXEC ps"]) simp
qed

lemma parses_back_REDIR:
  assumes "cmd_ok a_word (REDIR c w mode fd)" "parses_back c"
  shows "parses_back (REDIR c w mode fd)"
  unfolding parses_back_def
proof (intro allI impI)
  fix n t line assume n: "depth (REDIR c w mode fd) \<le> n" and t: "stops t" and suf: "suffix (show_cmd (REDIR c w mode fd) @ t) line"
  let ?t = "(if fd = 0 then ''<'' else ''>'') @ w @ t"
  obtain m where m: "n = Suc (Suc (Suc (Suc (Suc m))))" "depth c \<le> m" using depth_split [of "depth c" n] n by auto
  have suf1: "suffix (''('' @ show_cmd c @ '')'' @ ?t) line" using suf by simp
  have suf2: "suffix ?t line" using suf1 by (metis suffix_appendD)
  obtain p where p: "parseexec (Suc (Suc (Suc m))) (''('' @ show_cmd c @ '')'' @ ?t) = parseredirs p (skip_blanks ?t)" "map_cmd (text_at line) p = c"
    using parseexec_block [OF _ _ _ suf1, of "Suc m"] assms m(2) by auto
  have "skip_blanks ?t = ?t" by (simp add: whitespace_def)
  moreover obtain q where "parseredirs p ?t = Parsed (REDIR p q mode fd, t)" "text_at line q = w"
    using redir_parses [of w mode fd t line p] assms t suf2 by auto
  ultimately show "\<exists>p. parseline n (show_cmd (REDIR c w mode fd) @ t) = Parsed (p, t) \<and> map_cmd (text_at line) p = REDIR c w mode fd"
    using p m(1) parseline_stop [OF parsepipe_stop [OF _ t] t, of "Suc (Suc (Suc m))"] by (intro exI [of _ "REDIR p q mode fd"]) simp
qed

lemma parses_back_PIPE:
  assumes "cmd_ok a_word (PIPE c d)" "parses_back c" "parses_back d"
  shows "parses_back (PIPE c d)"
  unfolding parses_back_def
proof (intro allI impI)
  fix n t line assume n: "depth (PIPE c d) \<le> n" and t: "stops t" and suf: "suffix (show_cmd (PIPE c d) @ t) line"
  let ?b = "''('' @ show_cmd d @ '')'' @ t"
  obtain m where m: "n = Suc (Suc (Suc (Suc (Suc m))))" "depth c \<le> Suc m" "depth d \<le> m" using depth_split [of "max (depth c) (depth d)" n] n by auto
  have suf1: "suffix (''('' @ show_cmd c @ '')'' @ ''|'' @ ?b) line" using suf by simp
  then have suf2: "suffix ?b line" by (metis suffix_appendD)
  obtain p where p: "parseexec (Suc (Suc (Suc m))) (''('' @ show_cmd c @ '')'' @ ''|'' @ ?b) = Parsed (p, ''|'' @ ?b)" "map_cmd (text_at line) p = c"
    using parseexec_plain_block [OF _ _ m(2) suf1] assms by auto
  obtain q where q: "parseexec (Suc (Suc m)) ?b = Parsed (q, t)" "map_cmd (text_at line) q = d"
    using parseexec_plain_block [OF _ _ m(3) suf2] assms t by auto
  have "peek ''|'' (''|'' @ ?b) = (True, ''|'' @ ?b)" "next_token (''|'' @ ?b) = ?b"
    using next_token_Cons [of "CHR ''|''" ?b] by (auto simp: whitespace_def)
  then have "parsepipe (Suc (Suc (Suc (Suc m)))) (''('' @ show_cmd c @ '')'' @ ''|'' @ ?b) = Parsed (PIPE p q, t)"
    using p(1) parsepipe_stop [OF q(1) t] by (simp only: parsepipe.simps(2) [of "Suc (Suc (Suc m))"] and_then.simps prod.case bool.case)
  from parseline_stop [OF this t] show "\<exists>p. parseline n (show_cmd (PIPE c d) @ t) = Parsed (p, t) \<and> map_cmd (text_at line) p = PIPE c d"
    using m(1) p(2) q(2) by (intro exI [of _ "PIPE p q"]) simp
qed

lemma parses_back_LIST:
  assumes "cmd_ok a_word (LIST c d)" "parses_back c" "parses_back d"
  shows "parses_back (LIST c d)"
  unfolding parses_back_def
proof (intro allI impI)
  fix n t line assume n: "depth (LIST c d) \<le> n" and t: "stops t" and suf: "suffix (show_cmd (LIST c d) @ t) line"
  let ?b = "''('' @ show_cmd d @ '')'' @ t"
  obtain m where m: "n = Suc (Suc (Suc (Suc (Suc m))))" "depth c \<le> Suc m" "depth d \<le> m" using depth_split [of "max (depth c) (depth d)" n] n by auto
  have suf1: "suffix (''('' @ show_cmd c @ '')'' @ '';'' @ ?b) line" using suf by simp
  then have suf2: "suffix ?b line" by (metis suffix_appendD)
  obtain p where p: "parseexec (Suc (Suc (Suc m))) (''('' @ show_cmd c @ '')'' @ '';'' @ ?b) = Parsed (p, '';'' @ ?b)" "map_cmd (text_at line) p = c"
    using parseexec_plain_block [OF _ _ m(2) suf1] assms by auto
  obtain q where q: "parseexec (Suc (Suc m)) ?b = Parsed (q, t)" "map_cmd (text_at line) q = d"
    using parseexec_plain_block [OF _ _ m(3) suf2] assms t by auto
  have pk: "peek ''|'' ('';'' @ ?b) = (False, '';'' @ ?b)" "peek ''&'' ('';'' @ ?b) = (False, '';'' @ ?b)"
      "peek '';'' ('';'' @ ?b) = (True, '';'' @ ?b)" "next_token ('';'' @ ?b) = ?b"
    using next_token_Cons [of "CHR '';''" ?b] by (auto simp: whitespace_def)
  have "parsepipe (Suc (Suc (Suc (Suc m)))) (''('' @ show_cmd c @ '')'' @ '';'' @ ?b) = Parsed (p, '';'' @ ?b)"
    using p(1) pk(1) by (simp only: parsepipe.simps(2) [of "Suc (Suc (Suc m))"] and_then.simps prod.case bool.case)
  then have "parseline n (''('' @ show_cmd c @ '')'' @ '';'' @ ?b) = Parsed (LIST p q, t)"
    using pk backs_none [OF pk(2)] parseline_stop [OF parsepipe_stop [OF q(1) t] t] m(1)
    by (simp only: parseline.simps(2) [of "Suc (Suc (Suc (Suc m)))"] and_then.simps prod.case bool.case)
  then show "\<exists>p. parseline n (show_cmd (LIST c d) @ t) = Parsed (p, t) \<and> map_cmd (text_at line) p = LIST c d"
    using p(2) q(2) by (intro exI [of _ "LIST p q"]) simp
qed

lemma parses_back_BACK:
  assumes "cmd_ok a_word (BACK c)" "parses_back c"
  shows "parses_back (BACK c)"
  unfolding parses_back_def
proof (intro allI impI)
  fix n t line assume n: "depth (BACK c) \<le> n" and t: "stops t" and suf: "suffix (show_cmd (BACK c) @ t) line"
  obtain m where m: "n = Suc (Suc (Suc (Suc (Suc m))))" "depth c \<le> Suc m" using depth_split [of "depth c" n] n by auto
  have suf1: "suffix (''('' @ show_cmd c @ '')'' @ ''&'' @ t) line" using suf by simp
  obtain p where p: "parseexec (Suc (Suc (Suc m))) (''('' @ show_cmd c @ '')'' @ ''&'' @ t) = Parsed (p, ''&'' @ t)" "map_cmd (text_at line) p = c"
    using parseexec_plain_block [OF _ _ m(2) suf1] assms by auto
  have pk: "peek ''|'' (''&'' @ t) = (False, ''&'' @ t)" "peek ''&'' (''&'' @ t) = (True, ''&'' @ t)" "next_token (''&'' @ t) = t"
      "peek ''&'' t = (False, t)" "peek '';'' t = (False, t)"
    using next_token_Cons [of "CHR ''&''" t] stops_plain [OF t] t by (auto simp: whitespace_def) (cases t; auto simp: stops_def whitespace_def)+
  have b: "backs p (''&'' @ t) = (BACK p, t)" unfolding backs.simps [of p "''&'' @ t"] by (simp only: pk prod.case bool.case backs_none)
  have "parsepipe (Suc (Suc (Suc (Suc m)))) (''('' @ show_cmd c @ '')'' @ ''&'' @ t) = Parsed (p, ''&'' @ t)"
    using p(1) pk(1) by (simp only: parsepipe.simps(2) [of "Suc (Suc (Suc m))"] and_then.simps prod.case bool.case)
  then have "parseline n (''('' @ show_cmd c @ '')'' @ ''&'' @ t) = Parsed (BACK p, t)"
    using pk(5) b m(1) by (simp only: parseline.simps(2) [of "Suc (Suc (Suc (Suc m)))"] and_then.simps prod.case bool.case)
  then show "\<exists>p. parseline n (show_cmd (BACK c) @ t) = Parsed (p, t) \<and> map_cmd (text_at line) p = BACK c"
    using p(2) by (intro exI [of _ "BACK p"]) simp
qed

lemma show_parses_back: "cmd_ok a_word c \<Longrightarrow> parses_back c"
  by (induction c) (auto intro!: parses_back_EXEC parses_back_REDIR parses_back_PIPE parses_back_LIST parses_back_BACK)

lemma show_cmd_chars: "cmd_ok (\<lambda>w. CHR 0x00 \<notin> set w) c \<Longrightarrow> CHR 0x00 \<notin> set (show_cmd c)"
  by (induction c) (auto simp: show_words_def)

text \<open>C9. Every command has a line. Written with parentheses around its parts, any command whose words are proper words, whose programs have at
  most nine words and whose redirections are of input or of output is parsed back to itself: pipes, lists, background commands, redirections of
  blocks and empty commands at any depth.
\<close>

theorem parse_shown_command:
  assumes "cmd_ok (\<lambda>w. w \<noteq> [] \<and> list_all word_char w \<and> CHR 0x00 \<notin> set w) c"
  shows "parsecmd (show_cmd c) = Parsed c"
proof -
  let ?line = "show_cmd c"
  have ok: "cmd_ok a_word c" "cmd_ok (\<lambda>w. CHR 0x00 \<notin> set w) c" using cmd_ok_mono [OF assms] by (auto simp: a_word_def)
  have nul: "CHR 0x00 \<notin> set ?line" by (rule show_cmd_chars [OF ok(2)])
  obtain p where p: "parseline (4 * length ?line + 4) ?line = Parsed (p, [])" "map_cmd (text_at ?line) p = c"
    using show_parses_back [OF ok(1), unfolded parses_back_def, rule_format, OF depth_length, of "[]" ?line] by (auto simp: stops_def)
  have "cmd_ok (good_word ?line) p" using parse_ok [of ?line ?line "4 * length ?line + 4"] p(1) by (simp add: result_ok_def)
  from parsed_strings [OF this nul] show ?thesis using p by (simp add: parsecmd_def Let_def c_string_id [OF nul])
qed

theorem parse_shown_command_witness:
  "parsecmd (show_cmd (LIST (BACK (PIPE (EXEC [''ls'', ''-l'']) (REDIR (EXEC [''wc'']) ''out'' 0x201 1))) (EXEC [])))
    = Parsed (LIST (BACK (PIPE (EXEC [''ls'', ''-l'']) (REDIR (EXEC [''wc'']) ''out'' 0x201 1))) (EXEC []))"
  by (rule parse_shown_command) (simp add: word_char_def whitespace_def symbols_def MAXARGS_def redir_ok_def redir_kind_def O_RDONLY_def O_WRONLY_def O_CREATE_def)

section \<open>The files of the programs of a command\<close>

text \<open>The table of open files of a process with standard input, output and error and nothing else.\<close>

definition std_files :: "obj \<Rightarrow> obj \<Rightarrow> obj \<Rightarrow> ofile" where
  "std_files i out e = [Some i, Some out, Some e, None, None, None, None, None, None, None, None, None, None, None, None, None]"

text \<open>What a command means: its programs, each with the object it reads and the object it writes.\<close>

primrec meaning :: "string cmd \<Rightarrow> pid \<Rightarrow> nat \<Rightarrow> obj \<Rightarrow> obj \<Rightarrow> (string list \<times> obj \<times> obj) list" where
  "meaning (EXEC argv) p k i out = (if argv = [] then [] else [(argv, i, out)])"
| "meaning (REDIR c path mode fd) p k i out =
    (if fd = 0 then meaning c p k (Opened path mode) out else meaning c p k i (Opened path mode))"
| "meaning (PIPE c d) p k i out = meaning c (p @ [k]) 0 i (Write_end p) @ meaning d (p @ [k + 1]) 0 (Read_end p) out"
| "meaning (LIST c d) p k i out = meaning c (p @ [k]) 0 i out @ meaning d p (k + 1) i out"
| "meaning (BACK c) p k i out = meaning c (p @ [k]) 0 i out"

primrec programs :: "run \<Rightarrow> (string list \<times> ofile) list" where
  "programs Exits = []"
| "programs (Panics msg) = []"
| "programs (Fails call name) = []"
| "programs (Program argv t) = [(argv, t)]"
| "programs (Forks r s) = programs r @ programs s"
| "programs (Waits t r) = programs r"

text \<open>The tables of open files with which processes wait.\<close>

primrec waiting :: "run \<Rightarrow> ofile list" where
  "waiting Exits = []"
| "waiting (Panics msg) = []"
| "waiting (Fails call name) = []"
| "waiting (Program argv t) = []"
| "waiting (Forks r s) = waiting r @ waiting s"
| "waiting (Waits t r) = t # waiting r"

definition with_files :: "obj \<Rightarrow> string list \<times> obj \<times> obj \<Rightarrow> string list \<times> ofile" where
  "with_files e x = (case x of (argv, i, out) \<Rightarrow> (argv, std_files i out e))"

definition grants :: "sys \<Rightarrow> bool" where
  "grants sys = ((\<forall>p. can_fork sys p \<and> can_pipe sys p \<and> (\<forall>argv. can_exec sys p argv)) \<and> (\<forall>p path mode. can_open sys p path mode))"

lemmas descriptor_defs = std_files_def sys_pipe_def sys_dup_def sys_close_def sys_open_def argfd_def fdalloc_def

lemma pipe_std: "sys_pipe ok p (std_files i out e) =
  (if ok then Some (3, 4, (std_files i out e)[3 := Some (Read_end p), 4 := Some (Write_end p)]) else None)"
  by (simp add: descriptor_defs)

lemma pipe_left: "sys_close 4 (sys_close 3 (sys_dup 4 (sys_close (Suc 0) ((std_files i out e)[3 := Some r, 4 := Some w])))) = std_files i w e"
  by (simp add: descriptor_defs)

lemma pipe_right: "sys_close 4 (sys_close 3 (sys_dup 3 (sys_close 0 ((std_files i out e)[3 := Some r, 4 := Some w])))) = std_files r out e"
  by (simp add: descriptor_defs)

lemma pipe_parent: "sys_close 4 (sys_close 3 ((std_files i out e)[3 := Some r, 4 := Some w])) = std_files i out e"
  by (simp add: descriptor_defs)

lemma redir_std:
  assumes "redir_ok mode fd"
  shows "sys_open ok path mode (sys_close fd (std_files i out e)) =
    (if ok then Some (fd, if fd = 0 then std_files (Opened path mode) out e else std_files i (Opened path mode) e) else None)"
  using assms by (auto simp: descriptor_defs redir_ok_def redir_kind_def)

lemmas run_simps = pipe_std pipe_left pipe_right pipe_parent redir_std fork1_def with_files_def Let_def

lemma runcmd_at_most:
  "cmd_ok P c \<Longrightarrow> subseq (programs (runcmd sys c p k (std_files i out e))) (map (with_files e) (meaning c p k i out))"
  by (induction c arbitrary: p k i out) (auto simp: run_simps intro: list_emb_append_mono subseq_rev_drop_many)

lemma runcmd_all:
  "cmd_ok P c \<Longrightarrow> grants sys \<Longrightarrow> programs (runcmd sys c p k (std_files i out e)) = map (with_files e) (meaning c p k i out)"
  by (induction c arbitrary: p k i out) (auto simp: run_simps grants_def)

lemma runcmd_waiting:
  "cmd_ok P c \<Longrightarrow> t \<in> set (waiting (runcmd sys c p k (std_files i out e))) \<Longrightarrow> \<exists>i' out'. t = std_files i' out' e"
  by (induction c arbitrary: p k i out) (auto simp: run_simps split: if_splits)

text \<open>A shell that is started without open files opens the console three times.\<close>

lemma open_console_std: "open_console 17 True (replicate 16 None) = std_files (Opened ''console'' O_RDWR) (Opened ''console'' O_RDWR) (Opened ''console'' O_RDWR)"
  by (simp add: descriptor_defs numeral_eq_Suc)

text \<open>So in a whole session every program runs with three open files.\<close>

lemma line_programs_files:
  assumes "cmd_ok P c" "(argv, t) \<in> set (programs (runcmd sys c p k (std_files i out e)))"
  shows "\<exists>i' out'. t = std_files i' out' e"
proof -
  have "(argv, t) \<in> set (map (with_files e) (meaning c p k i out))"
    using list_emb_set [OF runcmd_at_most [OF assms(1)] assms(2)] by blast
  then show ?thesis by (auto simp: with_files_def)
qed

lemma session_programs_files:
  "Child r \<in> set (sh_loop sys k (std_files i out e) inp) \<Longrightarrow> (argv, t) \<in> set (programs r) \<Longrightarrow> \<exists>i' out'. t = std_files i' out' e"
proof (induction sys k "std_files i out e" inp rule: sh_loop.induct)
  case (1 sys k inp)
  let ?piece = "gets_piece 99 inp"
  let ?buf = "c_string ?piece"
  have line: "\<exists>i' out'. t = std_files i' out' e"
    if "(argv, t) \<in> set (programs (case parsecmd ?buf of Parsed c \<Rightarrow> runcmd sys c [k] 0 (std_files i out e) | Panic msg \<Rightarrow> Panics msg | Too_deep \<Rightarrow> Exits))"
    using that line_programs_files [OF parsed_cmd_ok [of ?buf]] by (cases "parsecmd ?buf") auto
  show ?case
    using 1(1) [OF refl refl refl _ _ refl] 1(2) [OF refl refl refl] 1(3,4) line unfolding sh_loop.simps [of sys k "std_files i out e" inp] Let_def
    by (auto split: if_splits)
qed

text \<open>C11. The programs of a line run with the files that the line names. A process whose only open files are standard input, output and error runs a
  parsed line: each program that it starts, directly or through any number of forks, has exactly three open files again; it reads its redirection, the
  pipe before it or the input of the line, writes its redirection, the pipe behind it or the output of the line, and no end of another pipe
  stays open, neither in a program nor in a process that waits for others. Programs are missing only if a call fails, and if none fails all programs run.
\<close>

theorem line_connects_programs:
  assumes "parsecmd buf = Parsed c"
  shows "subseq (programs (runcmd sys c p k (std_files i out e))) (map (with_files e) (meaning c p k i out))
    \<and> (grants sys \<longrightarrow> programs (runcmd sys c p k (std_files i out e)) = map (with_files e) (meaning c p k i out))
    \<and> (\<forall>t \<in> set (waiting (runcmd sys c p k (std_files i out e))). \<exists>i' out'. t = std_files i' out' e)"
proof -
  note ok = parsed_cmd_ok [OF assms]
  show ?thesis using runcmd_at_most [OF ok] runcmd_all [OF ok] runcmd_waiting [OF ok] by (intro conjI impI ballI)
qed

theorem line_connects_programs_witness:
  "programs (runcmd \<lparr>can_fork = \<lambda>_. True, can_pipe = \<lambda>_. True, can_open = \<lambda>_ _ _. True, can_exec = \<lambda>_ _. True, can_chdir = \<lambda>_. True\<rparr>
      (PIPE (EXEC [''ls'']) (REDIR (EXEC [''wc'']) ''out'' 0x201 1)) [0] 0 (std_files (Opened ''console'' 2) (Opened ''console'' 2) (Opened ''console'' 2)))
    = [([''ls''], std_files (Opened ''console'' 2) (Write_end [0]) (Opened ''console'' 2)), ([''wc''], std_files (Read_end [0]) (Opened ''out'' 0x201) (Opened ''console'' 2))]"
proof -
  let ?c = "PIPE (EXEC [''ls'']) (REDIR (EXEC [''wc'']) ''out'' 0x201 1)"
  let ?sys = "\<lparr>can_fork = \<lambda>_. True, can_pipe = \<lambda>_. True, can_open = \<lambda>_ _ _. True, can_exec = \<lambda>_ _. True, can_chdir = \<lambda>_. True\<rparr>"
  have "parsecmd ''ls | wc > out'' = Parsed ?c" by code_simp
  from line_connects_programs [OF this, of ?sys "[0]" 0 "Opened ''console'' 2" "Opened ''console'' 2" "Opened ''console'' 2"] show ?thesis
    by (simp add: grants_def with_files_def)
qed

end
