(* ===== verification/Lastcat.thy ===== *)
theory Lastcat
  imports CString "HOL-Library.Sublist"
begin

text \<open>
  The system call \<^verbatim>\<open>getlastcat\<close> of the second project (\<^verbatim>\<open>CS_537_P2/src\<close>): the kernel notes in \<^verbatim>\<open>exec.c\<close> which file the program \<^verbatim>\<open>cat\<close> was called with
  and in \<^verbatim>\<open>sysfile.c\<close> whether a file could not be opened, and the call of \<^verbatim>\<open>sysproc.c\<close> reports it. The abstract specification is what the
  README of the project asks for, on the history of these events; the four global variables implement it on the histories that the theorem names.
\<close>

section \<open>What the kernel notes\<close>

record lastcat =
  lc_buffer :: string
  lc_catNum :: int
  lc_noArg :: int
  lc_switch1 :: int

definition lc_boot :: lastcat where
  "lc_boot = \<lparr>lc_buffer = replicate 256 (CHR 0x00), lc_catNum = 0, lc_noArg = 0, lc_switch1 = 0\<rparr>"

text \<open>\<^verbatim>\<open>dst[i] = 0\<close>, and \<^verbatim>\<open>strncpy(dst, s, strlen(s))\<close>, which copies the characters of \<open>s\<close> and no NUL. Writing behind the array is a fault.\<close>

definition end_at :: "nat \<Rightarrow> string \<Rightarrow> string option" where
  "end_at i dst = (if i < length dst then Some (dst[i := CHR 0x00]) else None)"

definition copy_chars :: "string \<Rightarrow> string \<Rightarrow> string option" where
  "copy_chars s dst = (if length s \<le> length dst then Some (s @ drop (length s) dst) else None)"

text \<open>The name of a process: what is behind the last slash of the path, at most 15 characters.\<close>

definition proc_name :: "string \<Rightarrow> string" where
  "proc_name path = take 15 (rev (takeWhile (\<lambda>c. c \<noteq> CHR ''/'') (rev path)))"

text \<open>\<^verbatim>\<open>strncmp(name, "cat", strlen(name)) == 0\<close>.\<close>

definition taken_for_cat :: "string \<Rightarrow> bool" where
  "taken_for_cat name = prefix name ''cat''"

definition exec_notes :: "string \<Rightarrow> string list \<Rightarrow> lastcat \<Rightarrow> lastcat option" where
  "exec_notes path argv s =
    (if \<not> taken_for_cat (proc_name path) then Some s
     else
       let s = s\<lparr>lc_catNum := to_int32 (lc_catNum s + 1), lc_switch1 := 0\<rparr> in
       if length argv = 1 then Some (s\<lparr>lc_noArg := 1\<rparr>)
       else if argv = [] then None
       else do {
         b \<leftarrow> end_at (length (last argv)) (lc_buffer s);
         b \<leftarrow> copy_chars (last argv) b;
         Some (s\<lparr>lc_noArg := 0, lc_buffer := b\<rparr>)
       })"

text \<open>The ends of \<^verbatim>\<open>sys_open\<close>.\<close>

datatype open_end = Bad_arguments | Not_created | Not_found | Is_directory | No_descriptor | Opens

definition open_notes :: "open_end \<Rightarrow> lastcat \<Rightarrow> lastcat" where
  "open_notes e s = (if e \<in> {Bad_arguments, Not_created, Not_found, Is_directory} then s\<lparr>lc_switch1 := 1\<rparr> else s)"

definition msg_never :: string where "msg_never = ''Cat has not yet been called''"
definition msg_no_args :: string where "msg_no_args = ''No args were passed''"
definition msg_invalid :: string where "msg_invalid = ''Invalid filename''"

definition tell :: "string \<Rightarrow> string \<Rightarrow> lastcat \<Rightarrow> (int \<times> string \<times> lastcat) option" where
  "tell msg u s =
    do {
      b \<leftarrow> end_at (length msg) (lc_buffer s);
      u \<leftarrow> copy_chars msg u;
      Some (0, u, s\<lparr>lc_buffer := b\<rparr>)
    }"

text \<open>The call with the pointer that the caller passed (\<^term>\<open>None\<close>: it does not lie in the memory of the process) and the bytes \<open>u\<close> from there on.\<close>

definition sys_getlastcat :: "nat option \<Rightarrow> string \<Rightarrow> lastcat \<Rightarrow> (int \<times> string \<times> lastcat) option" where
  "sys_getlastcat ptr u s =
    (if ptr = None \<or> ptr = Some 0 then Some (-1, u, s)
     else if lc_catNum s = 0 then tell msg_never u s
     else if lc_noArg s = 1 then tell msg_no_args u s
     else if lc_switch1 s = 1 then tell msg_invalid u s
     else do {
       u \<leftarrow> copy_chars (c_string (lc_buffer s)) u;
       Some (0, u, s)
     })"

section \<open>Histories and their specification\<close>

text \<open>Processes start programs, open files and make the call; each event but the call says which process it is.\<close>

datatype event = Exec nat string "string list" | Open nat open_end | Ask string

fun happens :: "event \<Rightarrow> lastcat \<Rightarrow> lastcat option" where
  "happens (Exec pid path argv) s = exec_notes path argv s"
| "happens (Open pid e) s = Some (open_notes e s)"
| "happens (Ask u) s = map_option (\<lambda>(r, u, s). s) (sys_getlastcat (Some 1) u s)"

fun history :: "event list \<Rightarrow> lastcat \<Rightarrow> lastcat option" where
  "history [] s = Some s"
| "history (e # es) s = Option.bind (happens e s) (history es)"

text \<open>
  The specification is the one of \<^verbatim>\<open>CS_537_P2/README.md\<close> (lines 48 to 54), on the history alone. The latest use of \<^verbatim>\<open>cat\<close> is the process that
  runs it (as long as it runs nothing else), the arguments it was given and whether that process asked for a file that does not exist.
\<close>

type_synonym cat_use = "nat option \<times> string list \<times> bool"

definition named_cat :: "string \<Rightarrow> bool" where
  "named_cat path = (path = ''cat'' \<or> suffix ''/cat'' path)"

fun next_use :: "event \<Rightarrow> cat_use option \<Rightarrow> cat_use option" where
  "next_use (Exec pid path argv) c =
    (if named_cat path then Some (Some pid, argv, False)
     else map_option (\<lambda>(p, args, missed). (if p = Some pid then None else p, args, missed)) c)"
| "next_use (Open pid e) c = map_option (\<lambda>(p, args, missed). (p, args, missed \<or> p = Some pid \<and> e = Not_found)) c"
| "next_use (Ask u) c = c"

fun reported :: "cat_use option \<Rightarrow> string" where
  "reported None = ''Cat has not yet been called''"
| "reported (Some (p, args, missed)) =
    (if length args = 1 then ''No args were passed'' else if missed then ''Invalid filename'' else last args)"

definition answer :: "event list \<Rightarrow> string" where
  "answer es = reported (fold next_use es None)"

text \<open>
  The events on which the code follows this specification. Arguments of programs are C strings that fit into the buffer, buffers of callers have room, and
  no program is called \<^verbatim>\<open>c\<close> or \<^verbatim>\<open>ca\<close> or by a path that ends in a slash, which the code takes for \<^verbatim>\<open>cat\<close>. An \<^verbatim>\<open>open\<close> that fails after a run of \<^verbatim>\<open>cat\<close> with arguments
  is that process's own and finds no file, unless the answer is \<^verbatim>\<open>Invalid filename\<close> already: the code takes every failing \<^verbatim>\<open>open\<close> for one of \<^verbatim>\<open>cat\<close>.
\<close>

fun event_ok :: "event \<Rightarrow> cat_use option \<Rightarrow> bool" where
  "event_ok (Exec pid path argv) c =
    (argv \<noteq> [] \<and> length (last argv) < 256 \<and> CHR 0x00 \<notin> set (last argv) \<and> proc_name path \<notin> {'''', ''c'', ''ca''})"
| "event_ok (Open pid e) c =
    (e \<in> {No_descriptor, Opens} \<or>
     (case c of None \<Rightarrow> True | Some (p, args, missed) \<Rightarrow> length args = 1 \<or> missed \<or> p = Some pid \<and> e = Not_found))"
| "event_ok (Ask u) c = (256 \<le> length u)"

fun events_ok :: "event list \<Rightarrow> cat_use option \<Rightarrow> bool" where
  "events_ok [] c = True"
| "events_ok (e # es) c = (event_ok e c \<and> events_ok es (next_use e c))"

text \<open>The variables when \<open>c\<close> is the latest use of \<^verbatim>\<open>cat\<close> after \<open>n\<close> events.\<close>

fun noted_use :: "cat_use option \<Rightarrow> lastcat \<Rightarrow> bool" where
  "noted_use None s = (lc_catNum s = 0)"
| "noted_use (Some (p, args, missed)) s =
    (lc_catNum s \<noteq> 0 \<and> lc_noArg s = (if length args = 1 then 1 else 0) \<and> length (last args) < 256 \<and>
     (length args = 1 \<or> lc_switch1 s = (if missed then 1 else 0) \<and> (missed \<or> c_string (lc_buffer s) = last args)))"

definition noted :: "nat \<Rightarrow> cat_use option \<Rightarrow> lastcat \<Rightarrow> bool" where
  "noted n c s = (length (lc_buffer s) = 256 \<and> 0 \<le> lc_catNum s \<and> lc_catNum s \<le> int n \<and> noted_use c s)"

lemma taken_for_cat_eq: "taken_for_cat name = (name \<in> {'''', ''c'', ''ca'', ''cat''})"
  by (auto simp: taken_for_cat_def prefix_Cons)

lemma take_15_cat: "take 15 (rev t) = ''cat'' \<longleftrightarrow> t = ''tac''"
proof (cases "length t \<le> 15")
  case False
  have "take 15 (rev t) \<noteq> ''cat''"
  proof
    assume "take 15 (rev t) = ''cat''"
    moreover have "length (take 15 (rev t)) = 15" using False by simp
    ultimately show False by simp
  qed
  then show ?thesis using False by auto
qed (simp add: rev_swap)

lemma takeWhile_tac: "takeWhile (\<lambda>c. c \<noteq> CHR ''/'') xs = ''tac'' \<longleftrightarrow> xs = ''tac'' \<or> prefix ''tac/'' xs"
proof
  let ?P = "\<lambda>c. c \<noteq> CHR ''/''"
  assume "takeWhile ?P xs = ''tac''"
  then have "xs = ''tac'' @ dropWhile ?P xs" using takeWhile_dropWhile_id [of ?P xs] by simp
  moreover have "dropWhile ?P xs = [] \<or> (\<exists>r. dropWhile ?P xs = CHR ''/'' # r)"
    using hd_dropWhile [of ?P xs] by (cases "dropWhile ?P xs") auto
  ultimately show "xs = ''tac'' \<or> prefix ''tac/'' xs" by (elim disjE exE) (simp, metis Cons_prefix_Cons append_Cons append_Nil prefixI)
qed (auto simp: prefix_def)

lemma proc_name_cat: "proc_name path = ''cat'' \<longleftrightarrow> named_cat path"
  unfolding proc_name_def take_15_cat takeWhile_tac by (simp add: named_cat_def suffix_to_prefix rev_swap)

lemma copy_chars_string:
  assumes "length s < length dst" "CHR 0x00 \<notin> set s"
  shows "\<exists>b. copy_chars s (dst[length s := CHR 0x00]) = Some b \<and> length b = length dst \<and> c_string b = s"
proof -
  have "drop (length s) (dst[length s := CHR 0x00]) = CHR 0x00 # drop (Suc (length s)) dst"
    using assms(1) by (simp add: Cons_nth_drop_Suc [symmetric])
  moreover have "c_string (s @ CHR 0x00 # t) = s" for t
    unfolding c_string_def using assms(2) by (subst takeWhile_append2) auto
  ultimately show ?thesis using assms(1) by (auto simp: copy_chars_def)
qed

lemmas message_defs = msg_never_def msg_no_args_def msg_invalid_def

lemma tell_writes: "length (lc_buffer s) = 256 \<Longrightarrow> msg \<in> {msg_never, msg_no_args, msg_invalid} \<Longrightarrow> 256 \<le> length u \<Longrightarrow>
  tell msg u s = Some (0, msg @ drop (length msg) u, s\<lparr>lc_buffer := (lc_buffer s)[length msg := CHR 0x00]\<rparr>)"
  by (auto simp: tell_def end_at_def copy_chars_def message_defs)

lemma getlastcat_answers:
  assumes "noted n c s" "256 \<le> length u" "0 < ptr"
  shows "\<exists>s'. sys_getlastcat (Some ptr) u s = Some (0, reported c @ drop (length (reported c)) u, s') \<and> noted n c s'"
proof (cases c)
  case None
  then show ?thesis using assms by (auto simp: noted_def sys_getlastcat_def tell_writes simp flip: msg_never_def)
next
  case (Some use)
  obtain p args missed where c: "c = Some (p, args, missed)" using Some by (cases use) auto
  then have n: "lc_catNum s \<noteq> 0" "length (lc_buffer s) = 256" "lc_noArg s = (if length args = 1 then 1 else 0)" "length (last args) < 256"
      "length args = 1 \<or> lc_switch1 s = (if missed then 1 else 0) \<and> (missed \<or> c_string (lc_buffer s) = last args)"
    using assms(1) by (auto simp: noted_def)
  consider "length args = 1" | "length args \<noteq> 1" missed | "length args \<noteq> 1" "\<not> missed" by blast
  then show ?thesis
  proof cases
    case 1
    then show ?thesis using assms n c by (simp add: sys_getlastcat_def tell_writes noted_def flip: msg_no_args_def)
  next
    case 2
    then show ?thesis using assms n c by (simp add: sys_getlastcat_def tell_writes noted_def flip: msg_invalid_def)
  next
    case 3
    then show ?thesis using assms n c by (simp add: sys_getlastcat_def copy_chars_def noted_def)
  qed
qed

lemma exec_noted:
  assumes "noted n c s" "event_ok (Exec pid path argv) c" "n < 2 ^ 31 - 1"
  shows "\<exists>s'. exec_notes path argv s = Some s' \<and> noted (Suc n) (next_use (Exec pid path argv) c) s'"
proof (cases "named_cat path")
  case True
  have n: "to_int32 (lc_catNum s + 1) = lc_catNum s + 1" "0 \<le> lc_catNum s" "lc_catNum s \<le> int n" "length (lc_buffer s) = 256"
    using assms(1,3) by (auto simp: noted_def intro!: to_int32_id)
  have a: "argv \<noteq> []" "length (last argv) < 256" "CHR 0x00 \<notin> set (last argv)" using assms(2) by simp_all
  obtain b where "copy_chars (last argv) ((lc_buffer s)[length (last argv) := CHR 0x00]) = Some b" "length b = 256" "c_string b = last argv"
    using copy_chars_string [OF _ a(3), of "lc_buffer s"] a(2) n(4) by auto
  moreover have "taken_for_cat (proc_name path)" using True by (simp add: taken_for_cat_eq proc_name_cat)
  ultimately show ?thesis using True a n by (simp add: exec_notes_def noted_def end_at_def Let_def)
next
  case False
  then have "\<not> taken_for_cat (proc_name path)" using assms(2) by (simp add: taken_for_cat_eq proc_name_cat)
  then show ?thesis using False assms(1) by (cases c) (auto simp: exec_notes_def noted_def)
qed

lemma happens_noted:
  assumes "noted n c s" "event_ok e c" "n < 2 ^ 31 - 1"
  shows "\<exists>s'. happens e s = Some s' \<and> noted (Suc n) (next_use e c) s'"
proof (cases e)
  case (Exec pid path argv)
  then show ?thesis using exec_noted [OF assms(1) _ assms(3), of pid path argv] assms(2) by simp
next
  case (Open pid x)
  then show ?thesis using assms(1,2) by (cases c; cases x) (auto simp: noted_def open_notes_def)
next
  case (Ask u)
  then obtain s' where "sys_getlastcat (Some 1) u s = Some (0, reported c @ drop (length (reported c)) u, s')" "noted n c s'"
    using getlastcat_answers [OF assms(1), of u 1] assms(2) by auto
  then show ?thesis using Ask by (auto simp: noted_def)
qed

lemma history_noted:
  "noted n c s \<Longrightarrow> events_ok es c \<Longrightarrow> n + length es < 2 ^ 31 \<Longrightarrow>
   \<exists>s'. history es s = Some s' \<and> noted (n + length es) (fold next_use es c) s'"
proof (induction es arbitrary: n c s)
  case (Cons e es)
  then obtain s1 where "happens e s = Some s1" "noted (Suc n) (next_use e c) s1" using happens_noted [of n c s e] by auto
  then show ?case using Cons.IH [of "Suc n" "next_use e c" s1] Cons.prems by simp
qed simp

text \<open>C25. After a history of started programs, opened files and earlier calls, \<^verbatim>\<open>getlastcat\<close> returns 0 and writes exactly the characters of the answer that the
  README of the project asks for into the buffer of the caller: \<^verbatim>\<open>Cat has not yet been called\<close>, \<^verbatim>\<open>No args were passed\<close> when the latest run of \<^verbatim>\<open>cat\<close> had no
  argument, \<^verbatim>\<open>Invalid filename\<close> when it asked for a file that does not exist, and its last argument otherwise. The histories are those of
  \<^const>\<open>events_ok\<close>: no program is called \<^verbatim>\<open>c\<close>, \<^verbatim>\<open>ca\<close> or by a path ending in a slash (\<^verbatim>\<open>exec.c:99\<close> takes them for \<^verbatim>\<open>cat\<close>), arguments have fewer than 256
  characters, and, while the answer is a file name, no \<^verbatim>\<open>open\<close> fails but the one by which \<^verbatim>\<open>cat\<close> itself finds a file missing (\<^verbatim>\<open>sysfile.c:309\<close> takes every failing
  \<^verbatim>\<open>open\<close> for one of \<^verbatim>\<open>cat\<close>). For a null pointer, or one that is not the caller's, the call returns -1 and writes nothing. It writes no NUL behind the answer, so that the
  caller reads it as a string only if the buffer holds a NUL there already.\<close>

theorem getlastcat_reports:
  assumes "events_ok es None" "length es < 2 ^ 31" "256 \<le> length u" "0 < ptr"
  shows "\<exists>s s'. history es lc_boot = Some s \<and>
    sys_getlastcat (Some ptr) u s = Some (0, answer es @ drop (length (answer es)) u, s') \<and>
    sys_getlastcat (Some 0) u s = Some (-1, u, s) \<and> sys_getlastcat None u s = Some (-1, u, s)"
proof -
  have "noted 0 None lc_boot" by (simp add: noted_def lc_boot_def)
  from history_noted [OF this assms(1)] assms(2) obtain s where
    s: "history es lc_boot = Some s" "noted (length es) (fold next_use es None) s" by auto
  moreover have "sys_getlastcat (Some 0) u s = Some (-1, u, s)" "sys_getlastcat None u s = Some (-1, u, s)" by (simp_all add: sys_getlastcat_def)
  ultimately show ?thesis unfolding answer_def using getlastcat_answers [OF s(2) assms(3,4)] by blast
qed

theorem getlastcat_reports_witness:
  "(\<exists>s s'. history [Exec 3 ''/cat'' [''cat'', ''f1'', ''README''], Open 3 Opens, Open 3 Opens] lc_boot = Some s \<and>
     sys_getlastcat (Some 4096) (replicate 256 (CHR ''x'')) s = Some (0, ''README'' @ replicate 250 (CHR ''x''), s')) \<and>
   (\<exists>s s'. history [Open 2 Not_found, Exec 3 ''cat'' [''cat'', ''README'', ''g''], Open 3 Opens, Open 3 Not_found] lc_boot = Some s \<and>
     sys_getlastcat (Some 4096) (replicate 256 (CHR ''x'')) s = Some (0, ''Invalid filename'' @ replicate 240 (CHR ''x''), s'))"
proof -
  let ?es = "[Exec 3 ''/cat'' [''cat'', ''f1'', ''README''], Open 3 Opens, Open 3 Opens]"
  let ?fs = "[Open 2 Not_found, Exec 3 ''cat'' [''cat'', ''README'', ''g''], Open 3 Opens, Open 3 Not_found]"
  have a: "answer ?es = ''README''" "answer ?fs = ''Invalid filename''" by (simp_all add: answer_def named_cat_def suffix_to_prefix)
  have "events_ok ?es None" "length ?es < 2 ^ 31" by (simp_all add: proc_name_def)
  note e = getlastcat_reports [OF this, of "replicate 256 (CHR ''x'')" 4096]
  have "events_ok ?fs None" "length ?fs < 2 ^ 31" by (simp_all add: proc_name_def named_cat_def suffix_to_prefix)
  note f = getlastcat_reports [OF this, of "replicate 256 (CHR ''x'')" 4096]
  show ?thesis using e f by (auto simp: a simp del: history.simps)
qed

end
