(* ===== verification/Umalloc.thy ===== *)
theory Umalloc
  imports Prelude
begin

text \<open>
  The memory allocator of the user library (\<^verbatim>\<open>CS_537_P5/umalloc.c\<close>). Free blocks form a circular list in the order of their addresses, threaded through the headers in front
  of the blocks; the header \<^verbatim>\<open>base\<close> with size 0 lies below all of them. Addresses and sizes are natural numbers, with the wrap-around of 32 bits
  written out; a header takes 8 bytes, and sizes count headers. Memory is modelled by its headers: the two fields of a header are functions of
  its address. What \<^verbatim>\<open>sbrk\<close> answers is an argument. The walks over the circular list are partial functions; that they return is proved.
\<close>

section \<open>Headers\<close>

definition w32 :: "nat \<Rightarrow> nat" where
  "w32 x = x mod 2 ^ 32"

record umem =
  um_base :: nat
  um_ptr :: "nat \<Rightarrow> nat"
  um_size :: "nat \<Rightarrow> nat"
  um_freep :: nat

definition set_ptr :: "nat \<Rightarrow> nat \<Rightarrow> umem \<Rightarrow> umem" where
  "set_ptr a q m = m\<lparr>um_ptr := (um_ptr m)(a := q)\<rparr>"

definition set_size :: "nat \<Rightarrow> nat \<Rightarrow> umem \<Rightarrow> umem" where
  "set_size a n m = m\<lparr>um_size := (um_size m)(a := n)\<rparr>"

text \<open>The pointer \<^verbatim>\<open>p + n\<close> to a header.\<close>

definition hdr_add :: "nat \<Rightarrow> nat \<Rightarrow> nat" where
  "hdr_add p n = w32 (p + 8 * n)"

section \<open>The operations\<close>

partial_function (option) free_walk :: "umem \<Rightarrow> nat \<Rightarrow> nat \<Rightarrow> nat option" where
  "free_walk m bp p =
    (if p < bp \<and> bp < um_ptr m p then Some p
     else if um_ptr m p \<le> p \<and> (p < bp \<or> bp < um_ptr m p) then Some p
     else free_walk m bp (um_ptr m p))"

definition join_next :: "nat \<Rightarrow> nat \<Rightarrow> umem \<Rightarrow> umem" where
  "join_next bp p m =
    (let q = um_ptr m p in
     if hdr_add bp (um_size m bp) = q
     then set_ptr bp (um_ptr m q) (set_size bp (w32 (um_size m bp + um_size m q)) m)
     else set_ptr bp q m)"

definition join_prev :: "nat \<Rightarrow> nat \<Rightarrow> umem \<Rightarrow> umem" where
  "join_prev bp p m =
    (if hdr_add p (um_size m p) = bp
     then set_ptr p (um_ptr m bp) (set_size p (w32 (um_size m p + um_size m bp)) m)
     else set_ptr p bp m)"

definition free :: "nat \<Rightarrow> umem \<Rightarrow> umem option" where
  "free ap m =
    do {
      let bp = ap - 8;
      p \<leftarrow> free_walk m bp (um_freep m);
      Some ((join_prev bp p (join_next bp p m))\<lparr>um_freep := p\<rparr>)
    }"

definition morecore :: "(nat \<Rightarrow> nat option) \<Rightarrow> nat \<Rightarrow> umem \<Rightarrow> (nat \<times> umem) option" where
  "morecore sbrk nu m =
    (let nu = (if nu < 4096 then 4096 else nu) in
     case sbrk (w32 (nu * 8)) of
       None \<Rightarrow> Some (0, m)
     | Some hp \<Rightarrow>
         do {
           m \<leftarrow> free (hp + 8) (set_size hp nu m);
           Some (um_freep m, m)
         })"

text \<open>The block \<open>p\<close>, behind \<open>prevp\<close> in the list, is large enough: all of it or its end is handed out.\<close>

definition take_block :: "nat \<Rightarrow> nat \<Rightarrow> nat \<Rightarrow> umem \<Rightarrow> nat \<times> umem" where
  "take_block nunits prevp p m =
    (if um_size m p = nunits then (p + 8, (set_ptr prevp (um_ptr m p) m)\<lparr>um_freep := prevp\<rparr>)
     else
       let m = set_size p (um_size m p - nunits) m; q = hdr_add p (um_size m p); m = set_size q nunits m
       in (q + 8, m\<lparr>um_freep := prevp\<rparr>))"

partial_function (option) malloc_loop :: "(nat \<Rightarrow> nat option) \<Rightarrow> nat \<Rightarrow> nat \<Rightarrow> nat \<Rightarrow> umem \<Rightarrow> (nat \<times> umem) option" where
  "malloc_loop sbrk nunits prevp p m =
    (if nunits \<le> um_size m p then Some (take_block nunits prevp p m)
     else if p = um_freep m then
       Option.bind (morecore sbrk nunits m) (\<lambda>(p, m). if p = 0 then Some (0, m) else malloc_loop sbrk nunits p (um_ptr m p) m)
     else malloc_loop sbrk nunits p (um_ptr m p) m)"

definition units :: "nat \<Rightarrow> nat" where
  "units nbytes = w32 (nbytes + 8 - 1) div 8 + 1"

definition malloc :: "(nat \<Rightarrow> nat option) \<Rightarrow> nat \<Rightarrow> umem \<Rightarrow> (nat \<times> umem) option" where
  "malloc sbrk nbytes m =
    (let m = (if um_freep m = 0 then (set_size (um_base m) 0 (set_ptr (um_base m) (um_base m) m))\<lparr>um_freep := um_base m\<rparr> else m)
     in malloc_loop sbrk (units nbytes) (um_freep m) (um_ptr m (um_freep m)) m)"

section \<open>The list of free blocks\<close>

type_synonym blocks = "(nat \<times> nat) list"

text \<open>The headers of a segment of the list; \<open>e\<close> is the address of the block behind it.\<close>

definition first_of :: "nat \<Rightarrow> blocks \<Rightarrow> nat" where
  "first_of e bs = (case bs of [] \<Rightarrow> e | b # _ \<Rightarrow> fst b)"

primrec links :: "umem \<Rightarrow> nat \<Rightarrow> blocks \<Rightarrow> bool" where
  "links m e [] = True"
| "links m e (b # bs) = (um_size m (fst b) = snd b \<and> um_ptr m (fst b) = first_of e bs \<and> links m e bs)"

text \<open>Blocks in the order of their addresses, with room between any two of them.\<close>

fun gaps :: "blocks \<Rightarrow> bool" where
  "gaps ((a, s) # (b, t) # bs) = (a + 8 * s < b \<and> gaps ((b, t) # bs))"
| "gaps bs = True"

lemma first_of_simps [simp]: "first_of e [] = e" "first_of e (b # bs) = fst b" "first_of e (bs @ cs) = first_of (first_of e cs) bs"
  by (simp_all add: first_of_def split: list.split)

lemma links_append [simp]: "links m e (bs @ cs) \<longleftrightarrow> links m (first_of e cs) bs \<and> links m e cs"
  by (induction bs) auto

lemma links_cong: "(\<And>a. a \<in> fst ` set bs \<Longrightarrow> um_size m' a = um_size m a \<and> um_ptr m' a = um_ptr m a) \<Longrightarrow> links m' e bs = links m e bs"
  by (induction bs) auto

lemma links_freep [simp]: "links (m\<lparr>um_freep := f\<rparr>) e bs = links m e bs"
  by (intro links_cong) simp

lemma gaps_Cons: "gaps (b # bs) \<longleftrightarrow> (\<forall>c\<in>set bs. fst b + 8 * snd b < fst c) \<and> gaps bs"
proof (induction bs arbitrary: b)
  case (Cons c bs)
  show ?case using Cons.IH [of c] by (cases b; cases c) (auto; force)
qed (cases b, simp)

lemma gaps_append: "gaps (bs @ cs) \<longleftrightarrow> gaps bs \<and> gaps cs \<and> (\<forall>b\<in>set bs. \<forall>c\<in>set cs. fst b + 8 * snd b < fst c)"
  by (induction bs) (auto simp: gaps_Cons)

section \<open>The walk of free\<close>

lemma walk_below:
  "links m e (bs @ (p, s) # cs) \<Longrightarrow> gaps (bs @ [(p, s)]) \<Longrightarrow> p < bp \<Longrightarrow> bp < first_of e cs \<or> first_of e cs \<le> p \<Longrightarrow>
     free_walk m bp (first_of p bs) = Some p"
proof (induction bs)
  case Nil
  then show ?case by (subst free_walk.simps) auto
next
  case (Cons b bs)
  have "fst b < first_of p bs" "first_of p bs \<le> p"
    using Cons.prems(2) by (auto simp: gaps_Cons gaps_append; cases bs; force)+
  then have "free_walk m bp (fst b) = free_walk m bp (first_of p bs)"
    using Cons.prems by (subst free_walk.simps) auto
  then show ?case using Cons by (simp add: gaps_Cons)
qed

lemma walk_above:
  "links m e bs \<Longrightarrow> gaps bs \<Longrightarrow> \<forall>b\<in>set bs. bp < fst b \<Longrightarrow> e < bp \<Longrightarrow> free_walk m bp (first_of e bs) = free_walk m bp e"
proof (induction bs)
  case (Cons b bs)
  have "free_walk m bp (fst b) = free_walk m bp (first_of e bs)"
    using Cons.prems by (subst free_walk.simps) (cases bs; auto simp: gaps_Cons)
  then show ?case using Cons by (simp add: gaps_Cons)
qed simp

lemma walk_finds:
  assumes L: "links m B (xs @ (p, s) # ys)" "gaps (xs @ (p, s) # ys)" "first_of p xs = B"
    and p: "p < bp" "\<forall>c\<in>set ys. bp < fst c" and f: "f \<in> fst ` set (xs @ (p, s) # ys)"
  shows "free_walk m bp f = Some p"
proof -
  have Bp: "B \<le> p" using L(2,3) by (cases xs) (auto simp: gaps_append gaps_Cons)
  have stop: "bp < first_of B ys \<or> first_of B ys \<le> p" using p(2) Bp by (cases ys) auto
  have below: "free_walk m bp (first_of p vs) = Some p" if "xs = us @ vs" for us vs
    using walk_below [of m B vs p s ys bp] that L(1,2) p(1) stop by (auto simp: gaps_append gaps_Cons)
  consider "f = p" | "f \<in> fst ` set xs" | "f \<in> fst ` set ys" using f by auto
  then show ?thesis
  proof cases
    case 1
    then show ?thesis using below [of xs "[]"] by simp
  next
    case 2
    then obtain us vs t where "xs = us @ (f, t) # vs" by (auto dest!: split_list)
    then show ?thesis using below [of us "(f, t) # vs"] by simp
  next
    case 3
    then obtain us vs t where ys: "ys = us @ (f, t) # vs" by (auto dest!: split_list)
    have "free_walk m bp (first_of B ((f, t) # vs)) = free_walk m bp B"
      using L(1,2) p Bp ys by (intro walk_above) (auto simp: gaps_append gaps_Cons)
    then show ?thesis using below [of "[]" xs] L(3) by simp
  qed
qed

section \<open>The effect of free\<close>

text \<open>The bytes of a block with its header, and of all blocks of a list.\<close>

definition region :: "nat \<times> nat \<Rightarrow> nat set" where
  "region b = {fst b..<fst b + 8 * snd b}"

definition bytes_of :: "blocks \<Rightarrow> nat set" where
  "bytes_of bs = (\<Union>b\<in>set bs. region b)"

lemma bytes_of_simps [simp]: "bytes_of [] = {}" "bytes_of (b # bs) = region b \<union> bytes_of bs" "bytes_of (bs @ cs) = bytes_of bs \<union> bytes_of cs"
  by (auto simp: bytes_of_def)

lemma region_join: "region (a, s) \<union> region (a + 8 * s, n) = region (a, s + n)"
  by (auto simp: region_def)

text \<open>The block and what follows it in the list, after it has been joined with a neighbour behind it.\<close>

definition joined :: "nat \<Rightarrow> nat \<Rightarrow> blocks \<Rightarrow> nat \<times> blocks" where
  "joined bp n ys = (case ys of (q, t) # zs \<Rightarrow> if bp + 8 * n = q then (n + t, zs) else (n, ys) | [] \<Rightarrow> (n, ys))"

lemma joined_blocks:
  assumes "joined bp n ys = (n', ys')" "gaps ys" "\<forall>c\<in>set ys. bp + 8 * n \<le> fst c" "\<forall>c\<in>set ys. 1 \<le> snd c"
  shows "gaps ((bp, n') # ys')" "region (bp, n') \<union> bytes_of ys' = region (bp, n) \<union> bytes_of ys" "n \<le> n'" "set ys' \<subseteq> set ys"
    "bp + 8 * n' \<in> {bp + 8 * n} \<union> (\<lambda>c. fst c + 8 * snd c) ` set ys"
proof -
  show "gaps ((bp, n') # ys')"
  proof (cases ys)
    case (Cons c zs)
    obtain q t where c: "c = (q, t)" by (cases c)
    have z: "q + 8 * t < fst d" if "d \<in> set zs" for d using assms(2) Cons c that by (auto simp: gaps_Cons)
    have q: "gaps zs" "bp + 8 * n \<le> q" using assms(2,3) Cons c by (auto simp: gaps_Cons)
    have n': "n' = n + t \<and> ys' = zs \<and> bp + 8 * n = q \<or> n' = n \<and> ys' = ys \<and> bp + 8 * n < q"
      using assms(1) Cons c q(2) by (auto simp: joined_def split: if_splits)
    have "bp + 8 * n' < fst d" if "d \<in> set ys'" for d using n' z [of d] that Cons c by auto
    then show ?thesis using n' assms(2) q(1) by (auto simp: gaps_Cons [of "(bp, n')"])
  qed (use assms in \<open>simp add: joined_def\<close>)
  show "region (bp, n') \<union> bytes_of ys' = region (bp, n) \<union> bytes_of ys"
    using assms(1) by (cases ys) (auto simp: joined_def region_def split: if_splits)
  show "n \<le> n'" "set ys' \<subseteq> set ys" "bp + 8 * n' \<in> {bp + 8 * n} \<union> (\<lambda>c. fst c + 8 * snd c) ` set ys"
    using assms(1) by (cases ys; auto simp: joined_def split: if_splits)+
qed

lemma w32_id: "x < 2 ^ 32 \<Longrightarrow> w32 x = x"
  by (simp add: w32_def)

lemma join_next_eq:
  assumes L: "links m B ((p, s) # ys)" and b: "um_size m bp = n" "B < bp" "bp + 8 * n < 2 ^ 32" "\<forall>c\<in>set ys. fst c + 8 * snd c < 2 ^ 32"
    and j: "joined bp n ys = (n', ys')"
  shows "join_next bp p m = m\<lparr>um_ptr := (um_ptr m)(bp := first_of B ys'), um_size := (um_size m)(bp := n')\<rparr>"
proof (cases ys)
  case Nil
  then show ?thesis using L b j by (simp add: join_next_def Let_def hdr_add_def w32_id set_ptr_def joined_def fun_upd_idem)
next
  case (Cons c zs)
  obtain q t where c: "c = (q, t)" by (cases c)
  have "q + 8 * t < 2 ^ 32" using b(4) Cons c by simp
  then have "bp + 8 * n = q \<Longrightarrow> n + t < 2 ^ 32" by simp
  then show ?thesis using L b j Cons c
    by (auto simp: join_next_def Let_def hdr_add_def w32_id set_ptr_def set_size_def joined_def fun_upd_idem split: if_splits)
qed

text \<open>The list after \<open>(bp, n)\<close> has been put behind \<open>(p, s)\<close>.\<close>

definition put_block :: "blocks \<Rightarrow> nat \<Rightarrow> nat \<Rightarrow> nat \<Rightarrow> nat \<Rightarrow> blocks \<Rightarrow> blocks" where
  "put_block xs p s bp n ys =
    (case joined bp n ys of (n', ys') \<Rightarrow> if p + 8 * s = bp then xs @ (p, s + n') # ys' else xs @ (p, s) # (bp, n') # ys')"

lemma put_block_props:
  assumes g: "gaps (xs @ (p, s) # ys)" and b: "p + 8 * s \<le> bp" "\<forall>c\<in>set ys. bp + 8 * n \<le> fst c" "\<forall>c\<in>set ys. 1 \<le> snd c" "p < bp" "1 \<le> n"
  shows "gaps (put_block xs p s bp n ys)" "bytes_of (put_block xs p s bp n ys) = bytes_of (xs @ (p, s) # ys) \<union> region (bp, n)"
proof -
  obtain n' ys' where j: "joined bp n ys = (n', ys')" by (cases "joined bp n ys")
  have gy: "gaps ys" using g by (simp add: gaps_append gaps_Cons)
  note J = joined_blocks [OF j gy b(2,3)]
  have before: "\<forall>x\<in>set xs. fst x + 8 * snd x < p" "gaps xs" using g by (auto simp: gaps_append)
  have behind: "\<forall>c\<in>set ys'. bp + 8 * n' < fst c" "gaps ys'" "\<forall>c\<in>set ys'. bp < fst c" using J(1) by (force simp: gaps_Cons)+
  show "gaps (put_block xs p s bp n ys)"
    using before behind b(1,4) by (auto simp: put_block_def j gaps_append gaps_Cons; force)
  show "bytes_of (put_block xs p s bp n ys) = bytes_of (xs @ (p, s) # ys) \<union> region (bp, n)"
    using J(2) region_join [of p s n'] by (auto simp: put_block_def j)
qed

lemma free_links:
  assumes L: "links m B (xs @ (p, s) # ys)" "gaps (xs @ (p, s) # ys)" "first_of p xs = B"
    and b: "um_size m bp = n" "1 \<le> n" "p < bp" "p + 8 * s \<le> bp" "\<forall>c\<in>set ys. bp + 8 * n \<le> fst c" "\<forall>c\<in>set ys. 1 \<le> snd c"
    and hi: "bp + 8 * n < 2 ^ 32" "\<forall>c\<in>set ys. fst c + 8 * snd c < 2 ^ 32"
  shows "links (join_prev bp p (join_next bp p m)) B (put_block xs p s bp n ys)"
    "\<And>a. a \<noteq> p \<Longrightarrow> a \<noteq> bp \<Longrightarrow> um_size (join_prev bp p (join_next bp p m)) a = um_size m a"
    "um_base (join_prev bp p (join_next bp p m)) = um_base m"
proof -
  have Bp: "B \<le> p" using L(2,3) by (cases xs) (auto simp: gaps_append gaps_Cons)
  obtain n' ys' where j: "joined bp n ys = (n', ys')" by (cases "joined bp n ys")
  note J = joined_blocks [OF j _ b(5,6)]
  let ?m = "join_next bp p m"
  have m: "?m = m\<lparr>um_ptr := (um_ptr m)(bp := first_of B ys'), um_size := (um_size m)(bp := n')\<rparr>"
    using join_next_eq [OF _ b(1) _ hi j, of B p s] L(1) Bp b(3) by simp
  have n'hi: "bp + 8 * n' < 2 ^ 32" using J(5) hi L(2) by (auto simp: gaps_append gaps_Cons)
  have ps: "um_size m p = s" using L(1) by simp
  let ?m' = "join_prev bp p ?m"
  have m': "?m' = (if p + 8 * s = bp
      then m\<lparr>um_ptr := (um_ptr m)(bp := first_of B ys', p := first_of B ys'), um_size := (um_size m)(bp := n', p := s + n')\<rparr>
      else m\<lparr>um_ptr := (um_ptr m)(bp := first_of B ys', p := bp), um_size := (um_size m)(bp := n')\<rparr>)"
    using b(3,4) n'hi ps by (simp add: m join_prev_def hdr_add_def w32_id set_ptr_def set_size_def fun_upd_twist)
  have at_p: "um_size ?m' p = (if p + 8 * s = bp then s + n' else s)" "um_ptr ?m' p = (if p + 8 * s = bp then first_of B ys' else bp)"
    using b(3) ps by (simp_all add: m')
  have at_bp: "um_size ?m' bp = n'" "um_ptr ?m' bp = first_of B ys'" using b(3) by (simp_all add: m')
  have xs: "p \<notin> fst ` set xs" "bp \<notin> fst ` set xs" using L(2) b(3) by (force simp: gaps_append)+
  have ys: "p \<notin> fst ` set ys'" "bp \<notin> fst ` set ys'" using J(4) L(2) b(2,3,5) by (force simp: gaps_append gaps_Cons)+
  have cong: "links ?m' e bs = links m e bs" if "p \<notin> fst ` set bs" "bp \<notin> fst ` set bs" for bs e
    using that by (intro links_cong) (auto simp: m')
  have "links m B ys'" using L(1) j by (cases ys) (auto simp: joined_def split: if_splits)
  then show "links ?m' B (put_block xs p s bp n ys)"
    using L(1) by (simp add: put_block_def j cong [OF xs] cong [OF ys] at_p at_bp)
  show "\<And>a. a \<noteq> p \<Longrightarrow> a \<noteq> bp \<Longrightarrow> um_size ?m' a = um_size m a" "um_base ?m' = um_base m" by (auto simp: m')
qed

section \<open>The heap\<close>

text \<open>
  The invariant. The free blocks lie in the list, in order and never side by side; \<open>A\<close> is the set of blocks that are handed out. All blocks lie
  between \<^verbatim>\<open>base\<close> and the end \<open>hi\<close> of the memory obtained so far, and no byte belongs to two blocks.
\<close>

definition block_ok :: "nat \<Rightarrow> nat \<Rightarrow> nat \<times> nat \<Rightarrow> bool" where
  "block_ok lo hi b = (1 \<le> snd b \<and> lo + 8 \<le> fst b \<and> fst b + 8 * snd b \<le> hi)"

definition free_list :: "nat \<Rightarrow> blocks \<Rightarrow> umem \<Rightarrow> bool" where
  "free_list hi bs m =
    (links m (um_base m) ((um_base m, 0) # bs) \<and> gaps ((um_base m, 0) # bs) \<and> um_freep m \<in> fst ` set ((um_base m, 0) # bs) \<and>
     (\<forall>b\<in>set bs. block_ok (um_base m) hi b) \<and> 0 < um_base m \<and> um_base m + 8 \<le> hi \<and> hi < 2 ^ 32)"

definition handed_out :: "nat \<Rightarrow> blocks \<Rightarrow> (nat \<times> nat) set \<Rightarrow> umem \<Rightarrow> bool" where
  "handed_out hi bs A m =
    ((\<forall>x\<in>A. block_ok (um_base m) hi x \<and> um_size m (fst x) = snd x \<and> region x \<inter> bytes_of bs = {}) \<and>
     (\<forall>x\<in>A. \<forall>y\<in>A. x \<noteq> y \<longrightarrow> region x \<inter> region y = {}))"

lemma split_at:
  assumes "gaps L" "bp \<notin> fst ` set L" "\<exists>b\<in>set L. fst b < bp"
  shows "\<exists>xs p s ys. L = xs @ (p, s) # ys \<and> p < bp \<and> (\<forall>c\<in>set ys. bp < fst c)"
  using assms
proof (induction L rule: rev_induct)
  case (snoc b L)
  show ?case
  proof (cases "fst b < bp")
    case True
    then show ?thesis by (intro exI [of _ L] exI [of _ "fst b"] exI [of _ "snd b"] exI [of _ "[]"]) simp
  next
    case False
    then have "bp < fst b" "\<exists>b\<in>set L. fst b < bp" using snoc.prems by auto
    then obtain xs p s ys where "L = xs @ (p, s) # ys" "p < bp" "\<forall>c\<in>set ys. bp < fst c" using snoc by (auto simp: gaps_append)
    with \<open>bp < fst b\<close> show ?thesis by (intro exI [of _ xs] exI [of _ p] exI [of _ s] exI [of _ "ys @ [b]"]) auto
  qed
qed simp

lemma disjoint_block:
  assumes "region (bp, n) \<inter> region b = {}" "1 \<le> n" "1 \<le> snd b"
  shows "fst b \<noteq> bp" "bp < fst b \<Longrightarrow> bp + 8 * n \<le> fst b" "fst b < bp \<Longrightarrow> fst b + 8 * snd b \<le> bp"
proof -
  have "bp \<in> region (bp, n)" "fst b \<in> region b" using assms(2,3) by (auto simp: region_def)
  then have "bp \<notin> region b" "fst b \<notin> region (bp, n)" using assms(1) by auto
  then show "fst b \<noteq> bp" "bp < fst b \<Longrightarrow> bp + 8 * n \<le> fst b" "fst b < bp \<Longrightarrow> fst b + 8 * snd b \<le> bp"
    using \<open>fst b \<in> region b\<close> by (auto simp: region_def)
qed

lemma block_ok_region: "block_ok lo hi b \<longleftrightarrow> 1 \<le> snd b \<and> region b \<subseteq> {lo + 8..<hi}"
  by (auto simp: block_ok_def region_def)

lemma put_block_list:
  assumes "(B, 0) # bs = xs @ (p, s) # ys" "B < bp" "p < bp" "\<forall>b\<in>set bs. 1 \<le> snd b" "1 \<le> n"
  shows "\<exists>bs'. put_block xs p s bp n ys = (B, 0) # bs' \<and> (\<forall>b\<in>set bs'. 1 \<le> snd b) \<and> (\<exists>b\<in>set bs'. n \<le> snd b) \<and> p \<in> fst ` set ((B, 0) # bs')"
proof -
  obtain n' ys' where j: "joined bp n ys = (n', ys')" by (cases "joined bp n ys")
  have n': "n \<le> n'" "set ys' \<subseteq> set ys" using j by (cases ys; auto simp: joined_def split: if_splits)+
  show ?thesis using assms n' by (cases xs) (auto simp: put_block_def j subset_iff)
qed

text \<open>The place of a block that touches no free block.\<close>

lemma free_place:
  assumes F: "free_list hi bs m" and b: "block_ok (um_base m) hi (bp, n)" "region (bp, n) \<inter> bytes_of bs = {}"
  shows "\<exists>xs p s ys. (um_base m, 0) # bs = xs @ (p, s) # ys \<and> p < bp \<and> first_of p xs = um_base m \<and> free_walk m bp (um_freep m) = Some p \<and>
    p + 8 * s \<le> bp \<and> (\<forall>c\<in>set ys. bp + 8 * n \<le> fst c) \<and> (\<forall>c\<in>set ys. 1 \<le> snd c) \<and> (\<forall>c\<in>set ys. fst c + 8 * snd c < 2 ^ 32)"
proof -
  let ?B = "um_base m"
  let ?L = "(?B, 0) # bs"
  have L: "links m ?B ?L" "gaps ?L" "um_freep m \<in> fst ` set ?L" "\<forall>b\<in>set bs. block_ok ?B hi b" "hi < 2 ^ 32"
    using F by (auto simp: free_list_def)
  have n: "1 \<le> n" "?B < bp" "bp + 8 * n \<le> hi" using b(1) by (auto simp: block_ok_def)
  have dis: "fst c \<noteq> bp" "bp < fst c \<Longrightarrow> bp + 8 * n \<le> fst c" "fst c < bp \<Longrightarrow> fst c + 8 * snd c \<le> bp" if "c \<in> set bs" for c
  proof -
    have "region (bp, n) \<inter> region c = {}" "1 \<le> snd c" using b(2) L(4) that by (auto simp: bytes_of_def block_ok_def)
    then show "fst c \<noteq> bp" "bp < fst c \<Longrightarrow> bp + 8 * n \<le> fst c" "fst c < bp \<Longrightarrow> fst c + 8 * snd c \<le> bp"
      using disjoint_block [of bp n c] n(1) by auto
  qed
  have "bp \<notin> fst ` set ?L" using dis(1) n(2) by auto
  with split_at [OF L(2), of bp] n(2) obtain xs p s ys where sp: "?L = xs @ (p, s) # ys" "p < bp" "\<forall>c\<in>set ys. bp < fst c" by auto
  have first: "first_of p xs = ?B" using sp(1) by (cases xs) auto
  have walk: "free_walk m bp (um_freep m) = Some p" using walk_finds [of m ?B xs p s ys bp] L(1-3) sp first by simp
  have ps: "p + 8 * s \<le> bp" using sp(1,2) dis(3) [of "(p, s)"] n(2) by (cases xs) auto
  have ysbs: "set ys \<subseteq> set bs" using sp(1) by (cases xs) auto
  have ys: "\<forall>c\<in>set ys. bp + 8 * n \<le> fst c" "\<forall>c\<in>set ys. 1 \<le> snd c" "\<forall>c\<in>set ys. fst c + 8 * snd c < 2 ^ 32"
  proof -
    show "\<forall>c\<in>set ys. bp + 8 * n \<le> fst c" using ysbs sp(3) dis(2) by blast
    show "\<forall>c\<in>set ys. 1 \<le> snd c" using ysbs L(4) unfolding block_ok_def by blast
    show "\<forall>c\<in>set ys. fst c + 8 * snd c < 2 ^ 32" using ysbs L(4,5) unfolding block_ok_def by (meson le_less_trans subsetD)
  qed
  show ?thesis using sp(1,2) first walk ps ys by (intro exI [of _ xs] exI [of _ p] exI [of _ s] exI [of _ ys]) simp
qed

text \<open>Freeing a block that touches no free block puts its bytes into the list.\<close>

lemma free_puts:
  assumes F: "free_list hi bs m" and b: "block_ok (um_base m) hi (bp, n)" "um_size m bp = n" "region (bp, n) \<inter> bytes_of bs = {}"
  shows "\<exists>m' bs'. free (bp + 8) m = Some m' \<and> free_list hi bs' m' \<and> bytes_of bs' = bytes_of bs \<union> region (bp, n)
    \<and> um_base m' = um_base m \<and> (\<forall>a. a \<noteq> um_base m \<longrightarrow> a \<notin> bytes_of bs \<union> region (bp, n) \<longrightarrow> um_size m' a = um_size m a)
    \<and> (\<exists>c\<in>set bs'. n \<le> snd c)"
proof -
  let ?B = "um_base m"
  let ?L = "(?B, 0) # bs"
  have L: "links m ?B ?L" "gaps ?L" "\<forall>b\<in>set bs. block_ok ?B hi b" "hi < 2 ^ 32"
    using F by (auto simp: free_list_def)
  have n: "1 \<le> n" "?B < bp" "bp + 8 * n \<le> hi" using b(1) by (auto simp: block_ok_def)
  from free_place [OF F b(1,3)] obtain xs p s ys where sp: "?L = xs @ (p, s) # ys" "p < bp" and first: "first_of p xs = ?B"
    and walk: "free_walk m bp (um_freep m) = Some p" and ps: "p + 8 * s \<le> bp"
    and ys: "\<forall>c\<in>set ys. bp + 8 * n \<le> fst c" "\<forall>c\<in>set ys. 1 \<le> snd c" "\<forall>c\<in>set ys. fst c + 8 * snd c < 2 ^ 32" by blast
  define m1 where "m1 = join_prev bp p (join_next bp p m)"
  have bhi: "bp + 8 * n < 2 ^ 32" using n(3) L(4) by simp
  note P = put_block_props [OF L(2) [unfolded sp(1)] ps ys(1,2) sp(2) n(1)]
  note K = free_links [OF L(1,2) [unfolded sp(1)] first b(2) n(1) sp(2) ps ys(1,2) bhi ys(3), folded m1_def]
  have one: "\<forall>b\<in>set bs. 1 \<le> snd b" using L(3) by (auto simp: block_ok_def)
  obtain bs' where bs': "put_block xs p s bp n ys = (?B, 0) # bs'" "\<forall>b\<in>set bs'. 1 \<le> snd b" "\<exists>b\<in>set bs'. n \<le> snd b" "p \<in> fst ` set ((?B, 0) # bs')"
    using put_block_list [OF sp(1) n(2) sp(2) one n(1)] by auto
  have bytes: "bytes_of bs' = bytes_of bs \<union> region (bp, n)"
    using P(2) unfolding sp(1) [symmetric] bs'(1) by (simp add: region_def)
  have "region b \<subseteq> {?B + 8..<hi}" if "b \<in> set bs'" for b
  proof -
    have "region b \<subseteq> bytes_of bs \<union> region (bp, n)" using that bytes by (auto simp: bytes_of_def)
    also have "\<dots> \<subseteq> {?B + 8..<hi}" using L(3) b(1) by (auto simp: block_ok_region bytes_of_def)
    finally show ?thesis .
  qed
  then have "\<forall>b\<in>set bs'. block_ok ?B hi b" using bs'(2) by (auto simp: block_ok_region)
  moreover have "links (m1\<lparr>um_freep := p\<rparr>) ?B ((?B, 0) # bs')" using K(1) bs'(1) by simp
  ultimately have fl: "free_list hi bs' (m1\<lparr>um_freep := p\<rparr>)" using F P(1) bs'(1,4) K(3) by (simp add: free_list_def)
  have "p = ?B \<or> p \<in> bytes_of bs"
  proof (cases xs)
    case (Cons x zs)
    then have "(p, s) \<in> set bs" using sp(1) by auto
    moreover from this have "p \<in> region (p, s)" using one by (auto simp: region_def)
    ultimately show ?thesis by (auto simp: bytes_of_def)
  qed (use sp(1) in simp)
  moreover have "bp \<in> region (bp, n)" using n(1) by (simp add: region_def)
  ultimately have "um_size m1 a = um_size m a" if "a \<noteq> ?B" "a \<notin> bytes_of bs \<union> region (bp, n)" for a
    using K(2) [of a] that by auto
  moreover have "free (bp + 8) m = Some (m1\<lparr>um_freep := p\<rparr>)" using walk by (simp add: free_def m1_def)
  ultimately show ?thesis using fl bytes bs'(3) K(3)
    by (intro exI [of _ "m1\<lparr>um_freep := p\<rparr>"] exI [of _ bs']) simp
qed

section \<open>The effect of malloc\<close>

text \<open>What a part of the free memory becomes when \<open>n\<close> headers of it are handed out at \<open>b\<close>.\<close>

definition taken :: "nat \<Rightarrow> blocks \<Rightarrow> umem \<Rightarrow> nat \<Rightarrow> nat \<Rightarrow> umem \<Rightarrow> bool" where
  "taken hi bs m b n m' =
    (\<exists>bs'. free_list hi bs' m' \<and> um_base m' = um_base m \<and> um_size m' b = n \<and> block_ok (um_base m) hi (b, n) \<and>
      bytes_of bs = bytes_of bs' \<union> region (b, n) \<and> bytes_of bs' \<inter> region (b, n) = {} \<and>
      (\<forall>a. a \<notin> bytes_of bs \<longrightarrow> um_size m' a = um_size m a))"

lemma gaps_disjoint:
  assumes "gaps (xs @ (p, s) # ys)"
  shows "bytes_of xs \<inter> region (p, s) = {}" "region (p, s) \<inter> bytes_of ys = {}"
  using assms by (force simp: gaps_append gaps_Cons bytes_of_def region_def)+

lemma take_all:
  assumes F: "free_list hi bs m" and L: "(um_base m, 0) # bs = xs @ (q, t) # (p, s) # ys"
  shows "taken hi bs m p s ((set_ptr q (um_ptr m p) m)\<lparr>um_freep := q\<rparr>)"
proof -
  let ?B = "um_base m"
  let ?m = "set_ptr q (um_ptr m p) m"
  obtain bs' where bs': "xs @ (q, t) # ys = (?B, 0) # bs'" "set bs' \<subseteq> set bs" "(p, s) \<in> set bs" using L by (cases xs) auto
  have f: "links m ?B (xs @ (q, t) # (p, s) # ys)" "gaps (xs @ (q, t) # (p, s) # ys)" "\<forall>b\<in>set bs. block_ok ?B hi b"
    using F by (auto simp: free_list_def L [symmetric])
  have qn: "q \<notin> fst ` set xs" "q \<notin> fst ` set ys" using f(2) by (force simp: gaps_append gaps_Cons)+
  have "links ?m e zs = links m e zs" if "q \<notin> fst ` set zs" for e zs using that by (intro links_cong) (auto simp: set_ptr_def)
  then have "links ?m ?B ((?B, 0) # bs')" unfolding bs'(1) [symmetric] using f(1) qn by (auto simp: set_ptr_def)
  moreover have "gaps ((?B, 0) # bs')" unfolding bs'(1) [symmetric] using f(2) by (auto simp: gaps_append gaps_Cons)
  moreover have "q \<in> fst ` set ((?B, 0) # bs')" unfolding bs'(1) [symmetric] by simp
  moreover have "um_base ?m = ?B" by (simp add: set_ptr_def)
  ultimately have fl: "free_list hi bs' (?m\<lparr>um_freep := q\<rparr>)"
    using F f(3) bs'(2) unfolding free_list_def by auto
  have bytes: "bytes_of bs = bytes_of xs \<union> region (q, t) \<union> region (p, s) \<union> bytes_of ys" "bytes_of bs' = bytes_of xs \<union> region (q, t) \<union> bytes_of ys"
    using arg_cong [OF L, of bytes_of] arg_cong [OF bs'(1), of bytes_of] by (auto simp: region_def)
  have "bytes_of bs' \<inter> region (p, s) = {}"
    using gaps_disjoint [of "xs @ [(q, t)]" p s ys] f(2) bytes(2) by auto
  moreover have "um_size ?m p = s" using f(1) by (simp add: set_ptr_def)
  ultimately show ?thesis unfolding taken_def using fl bytes f(3) bs'(3) by (intro exI [of _ bs']) (auto simp: set_ptr_def)
qed

lemma take_end:
  assumes F: "free_list hi bs m" and L: "(um_base m, 0) # bs = xs @ (q, t) # (p, s) # ys" and n: "1 \<le> n" "n < s"
  shows "taken hi bs m (p + 8 * (s - n)) n ((set_size (p + 8 * (s - n)) n (set_size p (s - n) m))\<lparr>um_freep := q\<rparr>)"
proof -
  let ?B = "um_base m"
  let ?b = "p + 8 * (s - n)"
  let ?m = "set_size ?b n (set_size p (s - n) m)"
  obtain bs' where bs': "xs @ (q, t) # (p, s - n) # ys = (?B, 0) # bs'" "set bs' \<subseteq> insert (p, s - n) (set bs)" "(p, s) \<in> set bs" using L by (cases xs) auto
  have f: "links m ?B (xs @ (q, t) # (p, s) # ys)" "gaps (xs @ (q, t) # (p, s) # ys)" "\<forall>b\<in>set bs. block_ok ?B hi b"
    using F by (auto simp: free_list_def L [symmetric])
  have b: "?b < p + 8 * s" "p < ?b" using n by auto
  have out: "p \<notin> fst ` set (xs @ (q, t) # ys)" "?b \<notin> fst ` set (xs @ (q, t) # ys)"
    using f(2) b by (force simp: gaps_append gaps_Cons)+
  have "links ?m e zs = links m e zs" if "set zs \<subseteq> set (xs @ (q, t) # ys)" for e zs
  proof -
    have "a \<noteq> p" "a \<noteq> ?b" if "a \<in> fst ` set zs" for a
      using that out image_mono [OF \<open>set zs \<subseteq> set (xs @ (q, t) # ys)\<close>, of fst] by blast+
    then show ?thesis by (intro links_cong) (simp add: set_size_def)
  qed
  then have "links ?m ?B ((?B, 0) # bs')" unfolding bs'(1) [symmetric] using f(1) out b(2) by (auto simp: set_size_def)
  moreover have "gaps ((?B, 0) # bs')" unfolding bs'(1) [symmetric] using f(2) n by (force simp: gaps_append gaps_Cons)
  moreover have "q \<in> fst ` set ((?B, 0) # bs')" unfolding bs'(1) [symmetric] by simp
  moreover have "um_base ?m = ?B" by (simp add: set_size_def)
  moreover have "block_ok ?B hi (p, s - n)" using f(3) bs'(3) n by (force simp: block_ok_def)
  ultimately have fl: "free_list hi bs' (?m\<lparr>um_freep := q\<rparr>)"
    using F f(3) bs'(2) unfolding free_list_def by auto
  have reg: "region (p, s) = region (p, s - n) \<union> region (?b, n)" "region (p, s - n) \<inter> region (?b, n) = {}" using n by (auto simp: region_def)
  have bytes: "bytes_of bs = bytes_of xs \<union> region (q, t) \<union> region (p, s) \<union> bytes_of ys"
      "bytes_of bs' = bytes_of xs \<union> region (q, t) \<union> region (p, s - n) \<union> bytes_of ys"
    using arg_cong [OF L, of bytes_of] arg_cong [OF bs'(1), of bytes_of] by (auto simp: region_def)
  have "bytes_of bs' \<inter> region (?b, n) = {}"
    using gaps_disjoint [of "xs @ [(q, t)]" p s ys] f(2) bytes(2) reg by auto
  moreover have "bytes_of bs = bytes_of bs' \<union> region (?b, n)" using bytes reg(1) by auto
  moreover have "block_ok ?B hi (?b, n)" using f(3) bs'(3) n by (force simp: block_ok_def)
  moreover have "p \<in> region (p, s)" "?b \<in> region (p, s)" using b by (auto simp: region_def)
  ultimately show ?thesis unfolding taken_def using fl bytes(1) by (intro exI [of _ bs']) (auto simp: set_size_def)
qed

lemma take_block_taken:
  assumes F: "free_list hi bs m" and L: "(um_base m, 0) # bs = xs @ (q, t) # (p, s) # ys" and n: "1 \<le> n" "n \<le> s"
  shows "\<exists>b m'. take_block n q p m = (b + 8, m') \<and> taken hi bs m b n m'"
proof -
  have "links m (um_base m) (xs @ (q, t) # (p, s) # ys)" using F unfolding free_list_def L by blast
  then have ps: "um_size m p = s" "(p, s) \<in> set bs" using L by (simp, cases xs) auto
  then have hi: "p + 8 * s < 2 ^ 32" using F by (auto simp: free_list_def block_ok_def)
  show ?thesis
  proof (cases "s = n")
    case True
    then show ?thesis using take_all [OF F L] ps by (auto simp: take_block_def)
  next
    case False
    then have "hdr_add p (s - n) = p + 8 * (s - n)" using hi by (simp add: hdr_add_def w32_id)
    then show ?thesis using take_end [OF F L n(1)] n(2) False ps
      by (intro exI [of _ "p + 8 * (s - n)"]) (simp add: take_block_def Let_def set_size_def)
  qed
qed

text \<open>The loop of malloc over a part of the list that does not hold the block where it started.\<close>

lemma scan:
  "links m e zs \<Longrightarrow> um_freep m \<notin> fst ` set zs \<Longrightarrow> zs \<noteq> [] \<Longrightarrow>
     (\<exists>us a s vs. zs = us @ (a, s) # vs \<and> n \<le> s \<and>
        malloc_loop sbrk n prev (fst (hd zs)) m = Some (take_block n (if us = [] then prev else fst (last us)) a m)) \<or>
     ((\<forall>b\<in>set zs. snd b < n) \<and> malloc_loop sbrk n prev (fst (hd zs)) m = malloc_loop sbrk n (fst (last zs)) e m)"
proof (induction zs arbitrary: prev)
  case (Cons z zs)
  obtain a s where z: "z = (a, s)" by (cases z)
  show ?case
  proof (cases "n \<le> s")
    case True
    then show ?thesis using Cons.prems z by (intro disjI1 exI [of _ "[]"] exI [of _ a] exI [of _ s] exI [of _ zs]) (subst malloc_loop.simps, simp)
  next
    case False
    then have step: "malloc_loop sbrk n prev a m = malloc_loop sbrk n a (first_of e zs) m"
      using Cons.prems z by (subst malloc_loop.simps) auto
    show ?thesis
    proof (cases "zs = []")
      case True
      then show ?thesis using step False z by simp
    next
      case ne: False
      then have "first_of e zs = fst (hd zs)" by (cases zs) auto
      then have st: "malloc_loop sbrk n prev a m = malloc_loop sbrk n a (fst (hd zs)) m" using step by simp
      have "links m e zs" "um_freep m \<notin> fst ` set zs" using Cons.prems by auto
      from Cons.IH [OF this ne, of a, folded st] consider us b t vs where "zs = us @ (b, t) # vs" "n \<le> t"
            "malloc_loop sbrk n prev a m = Some (take_block n (if us = [] then a else fst (last us)) b m)"
        | "\<forall>b\<in>set zs. snd b < n" "malloc_loop sbrk n prev a m = malloc_loop sbrk n (fst (last zs)) e m"
        by blast
      then show ?thesis
      proof cases
        case 1
        then show ?thesis using z by (intro disjI1 exI [of _ "z # us"] exI [of _ b] exI [of _ t] exI [of _ vs]) auto
      next
        case 2
        then show ?thesis using z False ne by (intro disjI2) auto
      qed
    qed
  qed
qed simp

lemma consecutive:
  "us \<noteq> [] \<Longrightarrow> \<exists>xs' t. xs @ us @ (a, s) # vs = xs' @ (fst (last us), t) # (a, s) # vs"
  by (cases us rule: rev_cases) (auto intro: exI [of _ "xs @ butlast us"])

lemma found_at:
  assumes "L = xs @ us @ (a, s) # vs" "us \<noteq> []" "n \<le> s" "R = Some (take_block n (fst (last us)) a m)"
  shows "\<exists>xs q t p s ys. L = xs @ (q, t) # (p, s) # ys \<and> n \<le> s \<and> R = Some (take_block n q p m)"
proof -
  obtain xs' t where "L = xs' @ (fst (last us), t) # (a, s) # vs" using consecutive [OF assms(2)] assms(1) by blast
  then show ?thesis using assms(3,4) by (intro exI [of _ xs'] exI [of _ "fst (last us)"] exI [of _ t] exI [of _ a] exI [of _ s] exI [of _ vs]) simp
qed

lemma scan_part:
  assumes S: "links m e zs" "um_freep m \<notin> fst ` set zs" "zs \<noteq> []" and L: "L = xs @ pre @ zs @ ws"
    and pre: "pre \<noteq> [] \<and> prev = fst (last pre) \<or> pre = [] \<and> snd (hd zs) < n"
  shows "(\<exists>xs q t p s ys. L = xs @ (q, t) # (p, s) # ys \<and> n \<le> s \<and> malloc_loop sbrk n prev (fst (hd zs)) m = Some (take_block n q p m)) \<or>
    (\<forall>b\<in>set zs. snd b < n) \<and> malloc_loop sbrk n prev (fst (hd zs)) m = malloc_loop sbrk n (fst (last zs)) e m"
  using scan [OF S, of n sbrk prev]
proof (elim disjE exE conjE)
  fix us a s vs
  assume u: "zs = us @ (a, s) # vs" "n \<le> s" "malloc_loop sbrk n prev (fst (hd zs)) m = Some (take_block n (if us = [] then prev else fst (last us)) a m)"
  have "pre @ us \<noteq> []" "(if us = [] then prev else fst (last us)) = fst (last (pre @ us))" using u(1,2) pre by (cases us; auto)+
  then show ?thesis using u L by (intro disjI1 found_at [of _ xs "pre @ us" a s "vs @ ws"]) auto
qed (use S in blast)

text \<open>A whole round: a block that is large enough is found and taken, or there is none and the kernel is asked for memory.\<close>

lemma first_fit:
  assumes F: "free_list hi bs m" and n: "1 \<le> n"
  shows "(\<exists>xs q t p s ys. (um_base m, 0) # bs = xs @ (q, t) # (p, s) # ys \<and> n \<le> s \<and>
       malloc_loop sbrk n (um_freep m) (um_ptr m (um_freep m)) m = Some (take_block n q p m)) \<or>
     ((\<forall>b\<in>set bs. snd b < n) \<and>
       malloc_loop sbrk n (um_freep m) (um_ptr m (um_freep m)) m =
         Option.bind (morecore sbrk n m) (\<lambda>(p, m). if p = 0 then Some (0, m) else malloc_loop sbrk n p (um_ptr m p) m))"
    (is "?found \<or> ?none")
proof -
  let ?B = "um_base m"
  let ?f = "um_freep m"
  have L0: "links m ?B ((?B, 0) # bs)" "gaps ((?B, 0) # bs)" "?f \<in> fst ` set ((?B, 0) # bs)" using F unfolding free_list_def by blast+
  from L0(3) obtain t where "(?f, t) \<in> set ((?B, 0) # bs)" by force
  then obtain xs ys where L: "(?B, 0) # bs = xs @ (?f, t) # ys" by (meson split_list)
  have l: "links m ?f xs" "um_size m ?f = t" "um_ptr m ?f = first_of ?B ys" "links m ?B ys" using L0(1) unfolding L by auto
  have out: "?f \<notin> fst ` set xs" "?f \<notin> fst ` set ys" using L0(2) unfolding L by (force simp: gaps_append gaps_Cons)+
  have ys: "?found \<or> (\<forall>b\<in>set ys. snd b < n) \<and> (\<exists>q. malloc_loop sbrk n ?f (um_ptr m ?f) m = malloc_loop sbrk n q ?B m)"
  proof (cases "ys = []")
    case ne: False
    then have p: "um_ptr m ?f = fst (hd ys)" using l(3) by (cases ys) auto
    then show ?thesis using scan_part [OF l(4) out(2) ne, of _ xs "[(?f, t)]" "[]" ?f n sbrk] L by auto
  qed (use l(3) in auto)
  have xs: "?found \<or> (\<forall>b\<in>set xs. snd b < n) \<and> (\<exists>q. malloc_loop sbrk n q' ?B m = malloc_loop sbrk n q ?f m \<and> (xs \<noteq> [] \<longrightarrow> q = fst (last xs)))"
    if "malloc_loop sbrk n ?f (um_ptr m ?f) m = malloc_loop sbrk n q' ?B m" for q'
  proof (cases "xs = []")
    case True
    then show ?thesis using L by auto
  next
    case ne: False
    then have "hd xs = (?B, 0)" using L by (cases xs) auto
    then show ?thesis using scan_part [OF l(1) out(1) ne, of _ "[]" "[]" "(?f, t) # ys" q' n sbrk] L that n by auto
  qed
  show ?thesis
  proof (rule ccontr)
    assume no: "\<not> ?thesis"
    with ys obtain q' where q': "\<forall>b\<in>set ys. snd b < n" "malloc_loop sbrk n ?f (um_ptr m ?f) m = malloc_loop sbrk n q' ?B m" by blast
    with xs [OF q'(2)] no obtain q where q: "\<forall>b\<in>set xs. snd b < n" "malloc_loop sbrk n q' ?B m = malloc_loop sbrk n q ?f m" "xs \<noteq> [] \<longrightarrow> q = fst (last xs)" by blast
    show False
    proof (cases "n \<le> t")
      case True
      then have "xs \<noteq> []" using L n by (cases xs) auto
      moreover have "malloc_loop sbrk n q ?f m = Some (take_block n q ?f m)" using True l(2) by (subst malloc_loop.simps) simp
      ultimately have "?found" using True q q'(2) L by (intro found_at [of _ "[]" xs ?f t ys]) auto
      then show False using no by blast
    next
      case False
      have "set bs \<subseteq> set xs \<union> {(?f, t)} \<union> set ys" using arg_cong [OF L, of set] by auto
      then have "\<forall>b\<in>set bs. snd b < n" using q(1) q'(1) False by auto
      moreover have "malloc_loop sbrk n q ?f m = Option.bind (morecore sbrk n m) (\<lambda>(p, m). if p = 0 then Some (0, m) else malloc_loop sbrk n p (um_ptr m p) m)"
        using False l(2) by (subst malloc_loop.simps) simp
      ultimately show False using no q(2) q'(2) by simp
    qed
  qed
qed

section \<open>Memory from the kernel\<close>

lemma block_ok_mono: "block_ok lo hi b \<Longrightarrow> hi \<le> hi' \<Longrightarrow> block_ok lo hi' b"
  by (auto simp: block_ok_def)

lemma bytes_below: "\<forall>b\<in>set bs. block_ok lo hi b \<Longrightarrow> x \<in> bytes_of bs \<Longrightarrow> x < hi \<and> lo + 8 \<le> x"
  unfolding bytes_of_def block_ok_region by fastforce

lemma block_start: "block_ok lo hi b \<Longrightarrow> fst b \<in> region b"
  by (auto simp: block_ok_def region_def)

text \<open>A header that is written above all blocks changes none of them.\<close>

lemma set_size_above:
  assumes "free_list hi bs m" "handed_out hi bs A m" "hi \<le> hp" "hi' < 2 ^ 32" "hi \<le> hi'"
  shows "free_list hi' bs (set_size hp nu m)" "handed_out hi' bs A (set_size hp nu m)"
proof -
  have ne: "a \<noteq> hp" if "a \<in> fst ` set ((um_base m, 0) # bs)" for a
    using assms(1,3) that by (fastforce simp: free_list_def block_ok_def)
  have "links (set_size hp nu m) (um_base m) ((um_base m, 0) # bs) = links m (um_base m) ((um_base m, 0) # bs)"
    using ne by (intro links_cong) (simp add: set_size_def)
  then show "free_list hi' bs (set_size hp nu m)"
    using assms(1,4,5) by (auto simp: free_list_def set_size_def block_ok_mono simp del: links.simps)
  have "fst x \<noteq> hp" if "x \<in> A" for x using assms(2,3) that by (fastforce simp: handed_out_def block_ok_def)
  then show "handed_out hi' bs A (set_size hp nu m)"
    using assms(2,5) by (auto simp: handed_out_def set_size_def intro: block_ok_mono)
qed

lemma handed_out_less:
  assumes "handed_out hi bs A m" "B \<subseteq> A" "um_base m' = um_base m"
    "\<And>x. x \<in> B \<Longrightarrow> region x \<inter> bytes_of bs' = {} \<and> um_size m' (fst x) = um_size m (fst x)"
  shows "handed_out hi bs' B m'"
  using assms unfolding handed_out_def by (metis subsetD)

lemma morecore_grows:
  assumes F: "free_list hi bs m" and A: "handed_out hi bs A m" and n: "8 * n < 2 ^ 31"
    and s: "sbrk (8 * max n 4096) = Some hp" "hi \<le> hp" "hp + 8 * max n 4096 < 2 ^ 32"
  shows "\<exists>m' bs' hi'. morecore sbrk n m = Some (um_freep m', m') \<and> free_list hi' bs' m' \<and> handed_out hi' bs' A m' \<and> (\<exists>c\<in>set bs'. n \<le> snd c)"
proof -
  let ?nu = "max n 4096"
  let ?hi = "hp + 8 * ?nu"
  let ?m = "set_size hp ?nu m"
  note S = set_size_above [OF F A s(2) s(3), of ?nu]
  have F1: "free_list ?hi bs ?m" "handed_out ?hi bs A ?m" using S s(2) by auto
  have bs: "\<forall>b\<in>set bs. block_ok (um_base m) hi b" "um_base m + 8 \<le> hi" using F by (auto simp: free_list_def)
  have new: "block_ok (um_base ?m) ?hi (hp, ?nu)" "um_size ?m hp = ?nu" "region (hp, ?nu) \<inter> bytes_of bs = {}" "um_base ?m = um_base m"
    using bs s(2) bytes_below [OF bs(1)] by (auto simp: block_ok_def set_size_def region_def) fastforce
  from free_puts [OF F1(1) new(1-3)] obtain m' bs' where f: "free (hp + 8) ?m = Some m'" "free_list ?hi bs' m'"
    "bytes_of bs' = bytes_of bs \<union> region (hp, ?nu)" "um_base m' = um_base ?m"
    "\<forall>a. a \<noteq> um_base ?m \<longrightarrow> a \<notin> bytes_of bs \<union> region (hp, ?nu) \<longrightarrow> um_size m' a = um_size ?m a" "\<exists>c\<in>set bs'. ?nu \<le> snd c" by auto
  have "region x \<inter> bytes_of bs' = {} \<and> um_size m' (fst x) = um_size ?m (fst x)" if "x \<in> A" for x
  proof -
    have x: "block_ok (um_base m) hi x" "region x \<inter> bytes_of bs = {}" using A that by (auto simp: handed_out_def)
    then have d: "region x \<inter> bytes_of bs' = {}" using s(2) f(3) by (auto simp: block_ok_region region_def)
    moreover have "fst x \<noteq> um_base m" using x(1) by (auto simp: block_ok_def)
    ultimately show ?thesis using f(3,5) block_start [OF x(1)] new(4) by auto
  qed
  then have "handed_out ?hi bs' A m'" using handed_out_less [OF F1(2) subset_refl f(4)] by blast
  moreover have "morecore sbrk n m = Some (um_freep m', m')"
    using s(1) n f(1) by (auto simp: morecore_def Let_def w32_id max_def mult.commute)
  moreover have "\<exists>c\<in>set bs'. n \<le> snd c" using f(6) by auto
  ultimately show ?thesis using f(2) by blast
qed

section \<open>malloc and free on the heap\<close>

text \<open>Before the first call \<^verbatim>\<open>freep\<close> is null and nothing has been handed out.\<close>

definition heap_ok :: "nat \<Rightarrow> (nat \<times> nat) set \<Rightarrow> umem \<Rightarrow> bool" where
  "heap_ok hi A m =
    (um_freep m = 0 \<and> A = {} \<and> 0 < um_base m \<and> um_base m + 8 \<le> hi \<and> hi < 2 ^ 32 \<or>
     (\<exists>bs. free_list hi bs m \<and> handed_out hi bs A m))"

text \<open>What the allocator relies on: \<^verbatim>\<open>sbrk\<close> with a positive argument gives memory behind all that was given before.\<close>

definition sbrk_ok :: "nat \<Rightarrow> (nat \<Rightarrow> nat option) \<Rightarrow> bool" where
  "sbrk_ok hi sbrk = (\<forall>k a. k < 2 ^ 31 \<longrightarrow> sbrk k = Some a \<longrightarrow> hi \<le> a \<and> a + k < 2 ^ 32)"

lemma taken_heap:
  assumes "handed_out hi bs A m" "taken hi bs m b n m'"
  shows "heap_ok hi (insert (b, n) A) m' \<and> (\<forall>x\<in>A. region x \<inter> region (b, n) = {})"
proof -
  obtain bs' where t: "free_list hi bs' m'" "um_base m' = um_base m" "um_size m' b = n" "block_ok (um_base m) hi (b, n)"
      "bytes_of bs = bytes_of bs' \<union> region (b, n)" "bytes_of bs' \<inter> region (b, n) = {}" "\<forall>a. a \<notin> bytes_of bs \<longrightarrow> um_size m' a = um_size m a"
    using assms(2) unfolding taken_def by blast
  have old: "block_ok (um_base m) hi x" "um_size m' (fst x) = snd x" "region x \<inter> bytes_of bs' = {}" "region x \<inter> region (b, n) = {}" if "x \<in> A" for x
  proof -
    have x: "block_ok (um_base m) hi x" "um_size m (fst x) = snd x" "region x \<inter> bytes_of bs = {}" using assms(1) that by (auto simp: handed_out_def)
    then show "block_ok (um_base m) hi x" "um_size m' (fst x) = snd x" "region x \<inter> bytes_of bs' = {}" "region x \<inter> region (b, n) = {}"
      using t(5,7) block_start [OF x(1)] by auto
  qed
  have "handed_out hi bs' (insert (b, n) A) m'"
    using assms(1) old t(2,3,4,6) unfolding handed_out_def by (auto simp: Int_commute)
  then show ?thesis using t(1) old(4) by (auto simp: heap_ok_def)
qed

lemma take_ok:
  assumes "free_list hi bs m" "handed_out hi bs A m" "(um_base m, 0) # bs = xs @ (q, t) # (p, s) # ys" "1 \<le> n" "n \<le> s"
  shows "\<exists>b m'. take_block n q p m = (b + 8, m') \<and> heap_ok hi (insert (b, n) A) m' \<and> (\<forall>x\<in>A. region x \<inter> region (b, n) = {})"
proof -
  obtain b m' where "take_block n q p m = (b + 8, m')" "taken hi bs m b n m'" using take_block_taken [OF assms(1,3-5)] by blast
  then show ?thesis using taken_heap [OF assms(2)] by blast
qed

lemma malloc_loop_ok:
  assumes F: "free_list hi bs m" and A: "handed_out hi bs A m" and n: "1 \<le> n" "8 * n < 2 ^ 31" and s: "sbrk_ok hi sbrk"
  shows "\<exists>r m'. malloc_loop sbrk n (um_freep m) (um_ptr m (um_freep m)) m = Some (r, m') \<and>
    (r = 0 \<and> m' = m \<and> sbrk (8 * max n 4096) = None \<or>
     (\<exists>b hi'. r = b + 8 \<and> heap_ok hi' (insert (b, n) A) m' \<and> (\<forall>x\<in>A. region x \<inter> region (b, n) = {})))"
proof -
  note found = take_ok [OF _ _ _ n(1)]
  from first_fit [OF F n(1), of sbrk] show ?thesis
  proof (elim disjE exE conjE)
    fix xs q t p s' ys
    assume "(um_base m, 0) # bs = xs @ (q, t) # (p, s') # ys" "n \<le> s'" "malloc_loop sbrk n (um_freep m) (um_ptr m (um_freep m)) m = Some (take_block n q p m)"
    moreover from found [OF F A this(1,2)] obtain b m' where "take_block n q p m = (b + 8, m')" "heap_ok hi (insert (b, n) A) m'"
      "\<forall>x\<in>A. region x \<inter> region (b, n) = {}" by blast
    ultimately show ?thesis by auto
  next
    assume none: "malloc_loop sbrk n (um_freep m) (um_ptr m (um_freep m)) m =
      Option.bind (morecore sbrk n m) (\<lambda>(p, m). if p = 0 then Some (0, m) else malloc_loop sbrk n p (um_ptr m p) m)"
    show ?thesis
    proof (cases "sbrk (8 * max n 4096)")
      case None
      then have "morecore sbrk n m = Some (0, m)" using n(2) by (auto simp: morecore_def Let_def w32_id max_def mult.commute)
      then show ?thesis using none None by simp
    next
      case (Some hp)
      have "8 * max n 4096 < 2 ^ 31" using n(2) by (simp add: max_def)
      then have "hi \<le> hp" "hp + 8 * max n 4096 < 2 ^ 32" using s Some unfolding sbrk_ok_def by blast+
      from morecore_grows [where sbrk = sbrk and hp = hp, OF F A n(2) Some this] obtain m' bs' hi' c where
        g: "morecore sbrk n m = Some (um_freep m', m')" "free_list hi' bs' m'" "handed_out hi' bs' A m'" "c \<in> set bs'" "n \<le> snd c" by blast
      have nz: "um_freep m' \<noteq> 0" using g(2) by (auto simp: free_list_def block_ok_def)
      from first_fit [OF g(2) n(1), of sbrk] g(4,5) obtain xs q t p s' ys where
        f: "(um_base m', 0) # bs' = xs @ (q, t) # (p, s') # ys" "n \<le> s'" "malloc_loop sbrk n (um_freep m') (um_ptr m' (um_freep m')) m' = Some (take_block n q p m')"
        by (meson not_le)
      from found [OF g(2,3) f(1,2)] obtain b m'' where "take_block n q p m' = (b + 8, m'')" "heap_ok hi' (insert (b, n) A) m''"
        "\<forall>x\<in>A. region x \<inter> region (b, n) = {}" by blast
      then show ?thesis using none g(1) nz f(3) by auto
    qed
  qed
qed

lemma units_bounds: "nbytes + 16 \<le> 2 ^ 31 \<Longrightarrow> 1 \<le> units nbytes \<and> nbytes + 8 \<le> 8 * units nbytes \<and> 8 * units nbytes < nbytes + 16"
  by (simp add: units_def w32_def) presburger

text \<open>The first call makes the list of no blocks.\<close>

lemma first_call:
  assumes "um_freep m = 0" "0 < um_base m" "um_base m + 8 \<le> hi" "hi < 2 ^ 32"
  shows "free_list hi [] ((set_size (um_base m) 0 (set_ptr (um_base m) (um_base m) m))\<lparr>um_freep := um_base m\<rparr>)"
    "handed_out hi [] {} ((set_size (um_base m) 0 (set_ptr (um_base m) (um_base m) m))\<lparr>um_freep := um_base m\<rparr>)"
  using assms by (auto simp: free_list_def handed_out_def set_size_def set_ptr_def)

text \<open>C13. For every request of up to two gigabytes \<^verbatim>\<open>malloc\<close> returns. It returns null only if the kernel refuses memory, and then keeps the heap; or it hands out
  a block behind a header of its own that has room for the request and less than a header more, overlaps no other block that is in use, and
  leaves a heap in which the free blocks are again in order, never side by side, and disjoint from all blocks in use.
\<close>

theorem malloc_allocates:
  assumes "heap_ok hi A m" "sbrk_ok hi sbrk" "nbytes + 16 \<le> 2 ^ 31"
  shows "\<exists>r m'. malloc sbrk nbytes m = Some (r, m') \<and>
    (r = 0 \<and> heap_ok hi A m' \<and> sbrk (8 * max (units nbytes) 4096) = None \<or>
     (\<exists>b n hi'. r = b + 8 \<and> nbytes + 8 \<le> 8 * n \<and> 8 * n < nbytes + 16 \<and> heap_ok hi' (insert (b, n) A) m' \<and>
        (\<forall>x\<in>A. region x \<inter> region (b, n) = {})))"
proof -
  define m0 where "m0 = (if um_freep m = 0 then (set_size (um_base m) 0 (set_ptr (um_base m) (um_base m) m))\<lparr>um_freep := um_base m\<rparr> else m)"
  have nz: "um_freep m \<noteq> 0" if "free_list hi bs m" for bs using that by (auto simp: free_list_def block_ok_def)
  obtain bs where F: "free_list hi bs m0" "handed_out hi bs A m0"
    using assms(1) first_call [of m hi] nz unfolding heap_ok_def m0_def by fastforce
  have u: "1 \<le> units nbytes" "nbytes + 8 \<le> 8 * units nbytes" "8 * units nbytes < nbytes + 16" using units_bounds [OF assms(3)] by auto
  then have "8 * units nbytes < 2 ^ 31" using assms(3) by linarith
  from malloc_loop_ok [OF F u(1) this assms(2)] obtain r m' where
    r: "malloc sbrk nbytes m = Some (r, m')" "r = 0 \<and> m' = m0 \<and> sbrk (8 * max (units nbytes) 4096) = None \<or>
      (\<exists>b hi'. r = b + 8 \<and> heap_ok hi' (insert (b, units nbytes) A) m' \<and> (\<forall>x\<in>A. region x \<inter> region (b, units nbytes) = {}))"
    by (auto simp: malloc_def Let_def m0_def)
  have "heap_ok hi A m0" using F unfolding heap_ok_def by blast
  then show ?thesis using r u(2,3) by blast
qed

theorem malloc_allocates_witness:
  "\<exists>r m' b n hi'. malloc (\<lambda>k. Some 8192) 100 \<lparr>um_base = 4096, um_ptr = \<lambda>_. 0, um_size = \<lambda>_. 0, um_freep = 0\<rparr> = Some (r, m') \<and>
    r = b + 8 \<and> 108 \<le> 8 * n \<and> 8 * n < 116 \<and> heap_ok hi' {(b, n)} m'"
proof -
  have "heap_ok 8192 {} \<lparr>um_base = 4096, um_ptr = \<lambda>_. 0, um_size = \<lambda>_. 0, um_freep = 0\<rparr>" by (simp add: heap_ok_def)
  moreover have "sbrk_ok 8192 (\<lambda>k. Some 8192)" by (auto simp: sbrk_ok_def)
  ultimately show ?thesis using malloc_allocates [of 8192 "{}" _ "\<lambda>k. Some 8192" 100] by fastforce
qed

text \<open>C14. \<^verbatim>\<open>free\<close> of a block in use returns, whatever the order in which blocks were handed out and returned: the walk around the list finds the place of the
  block. The free bytes are then the former ones and exactly those of the block, joined with free neighbours on either side, and all other blocks
  stay in use and untouched.
\<close>

theorem free_returns_block:
  assumes "free_list hi bs m" "handed_out hi bs A m" "(b, n) \<in> A"
  shows "\<exists>m' bs'. free (b + 8) m = Some m' \<and> free_list hi bs' m' \<and> handed_out hi bs' (A - {(b, n)}) m' \<and>
    bytes_of bs' = bytes_of bs \<union> region (b, n)"
proof -
  have b: "block_ok (um_base m) hi (b, n)" "um_size m b = n" "region (b, n) \<inter> bytes_of bs = {}"
    using assms(2,3) unfolding handed_out_def by force+
  from free_puts [OF assms(1) b] obtain m' bs' where f: "free (b + 8) m = Some m'" "free_list hi bs' m'"
    "bytes_of bs' = bytes_of bs \<union> region (b, n)" "um_base m' = um_base m"
    "\<forall>a. a \<noteq> um_base m \<longrightarrow> a \<notin> bytes_of bs \<union> region (b, n) \<longrightarrow> um_size m' a = um_size m a" by (elim exE conjE)
  have "region x \<inter> bytes_of bs' = {} \<and> um_size m' (fst x) = um_size m (fst x)" if "x \<in> A - {(b, n)}" for x
  proof -
    have x: "block_ok (um_base m) hi x" "region x \<inter> bytes_of bs = {}" "region x \<inter> region (b, n) = {}"
      using assms(2,3) that unfolding handed_out_def by blast+
    have "fst x \<noteq> um_base m" "fst x \<in> region x" using x(1) block_start [OF x(1)] by (auto simp: block_ok_def)
    then have "um_size m' (fst x) = um_size m (fst x)" using f(5) x(2,3) by auto
    then show ?thesis using x(2,3) f(3) by (simp add: Int_Un_distrib)
  qed
  then have "handed_out hi bs' (A - {(b, n)}) m'" by (intro handed_out_less [OF assms(2) Diff_subset f(4)])
  then show ?thesis using f(1-3) by (intro exI conjI)
qed

theorem free_returns_block_witness:
  "\<exists>m' bs'. free 40 \<lparr>um_base = 8, um_ptr = \<lambda>a. if a = 8 then 16 else 8, um_size = \<lambda>a. if a = 16 then 2 else if a = 32 then 3 else 0, um_freep = 8\<rparr> = Some m' \<and>
    free_list 100 bs' m' \<and> handed_out 100 bs' {} m' \<and> bytes_of bs' = {16..<56}"
proof -
  let ?m = "\<lparr>um_base = 8, um_ptr = \<lambda>a. if a = 8 then 16 else 8, um_size = \<lambda>a. if a = 16 then 2 else if a = 32 then 3 else 0, um_freep = 8\<rparr>"
  have "free_list 100 [(16, 2)] ?m" by (simp add: free_list_def block_ok_def)
  moreover have "handed_out 100 [(16, 2)] {(32, 3)} ?m" by (auto simp: handed_out_def block_ok_def region_def)
  moreover have "region (16, 2) \<union> region (32, 3) = {16..<56}" by (auto simp: region_def)
  ultimately show ?thesis using free_returns_block [of 100 "[(16, 2)]" ?m "{(32, 3)}" 32 3] by simp
qed

text \<open>The number of headers wraps around: the largest request is taken for one of no bytes.\<close>

lemma huge_request: "units (2 ^ 32 - 1) = 1"
  by (simp add: units_def w32_def)

end
