(* ===== verification/Spec2Isabelle.thy ===== *)
theory Spec2Isabelle
  imports Proxy Wfs_Fs Sched Kstring Grep File Log_Ops Uvm Page_Fault Fs_Dir Wsh_Props Manpages_Props Sh_Props Lastcat Umalloc
begin

text \<open>
  \<^bold>\<open>What this is.\<close> A verification development for the seven course projects of this repository: three manual page tools
  (\<^verbatim>\<open>CS_537_P1\<close>), a system call for a teaching kernel (\<^verbatim>\<open>CS_537_P2\<close>), a shell with job control (\<^verbatim>\<open>CS_537_P3\<close>), a feedback scheduler for the
  kernel (\<^verbatim>\<open>CS_537_P4\<close>), memory mapped files for the kernel (\<^verbatim>\<open>CS_537_P5\<close>), a proxy server with a priority queue (\<^verbatim>\<open>CS_537_P6\<close>) and a
  log-structured file system in user space (\<^verbatim>\<open>CS_537_P7\<close>). P2, P4 and P5 each hold a whole copy of the same kernel; a file that is the same in
  several copies is modelled once, from P5 unless said otherwise.

  \<^bold>\<open>Conventions.\<close> Every function of the C code that changes state is a function of its own on an explicit state (a \<^verbatim>\<open>record\<close>, or byte-addressed memory);
  sequencing is the option monad. \<^term>\<open>None\<close> stands for a call that does not return: a panic, a null or wild pointer, an overrun array, an
  infinite loop. Error codes of the C code are ordinary results. A theorem that a call returns is therefore a theorem that the model is
  \<^term>\<open>Some\<close>. Unsigned integers are words of their width, so that addition wraps; a C \<^verbatim>\<open>int\<close> is an integer cut by \<^const>\<open>to_int32\<close>
  where it can overflow. What the operating system, the network, the clock or a layer below answers is an argument, so that a theorem
  holds for all answers. A kernel routine that has to wait returns an outcome that says so, or is a step of a transition relation.

  \<^bold>\<open>Shared theories.\<close>
  \<^item> \<open>Prelude\<close>: the machine integers, the meaning of \<^verbatim>\<open>panic\<close>, generic lemmas, and the locale \<open>transition_system\<close> (start states, steps, an invariant that
    the steps keep; reachable states satisfy it). It is interpreted for the open file table, the log, pipes, the proxy server, the kernel with its
    scheduler, and the log-structured file system.
  \<^item> \<open>Memory\<close>: byte-addressed memory with little-endian words and frame lemmas. \<open>CString\<close>: the C library functions on strings
    (\<^verbatim>\<open>strtok\<close>, \<^verbatim>\<open>atoi\<close>, \<^verbatim>\<open>fgets\<close>, ...) with a reference tokenizer.
  \<^item> \<open>Kstring\<close>: \<^verbatim>\<open>string.c\<close> and the strings of \<^verbatim>\<open>ulib.c\<close> on memory; the word-wise \<^verbatim>\<open>memset\<close> equals the byte-wise one, \<^verbatim>\<open>memmove\<close> is right for
    overlapping blocks, \<^verbatim>\<open>safestrcpy\<close> stays in its buffer.

  \<^bold>\<open>Manual page tools (P1).\<close> \<open>Manpages\<close> models \<^verbatim>\<open>wgroff.c\<close>, \<^verbatim>\<open>wman.c\<close> and \<^verbatim>\<open>wapropos.c\<close>; \<open>Manpages_Props\<close> shows that the loops that rewrite buffers in place compute
    the rendering of a page that the README describes, for sources whose date and section have the form it asks for (the code accepts more), and which page is found.

  \<^bold>\<open>The last file of cat (P2).\<close> \<open>Lastcat\<close> models what \<^verbatim>\<open>exec.c\<close> and \<^verbatim>\<open>sysfile.c\<close> note and what \<^verbatim>\<open>sys_getlastcat\<close> reports. The abstract specification is the
    answer that the README asks for, on the history of events; the variables refine it on the histories in which no other program is taken for \<^verbatim>\<open>cat\<close> and no other failing \<^verbatim>\<open>open\<close> for one of
    \<^verbatim>\<open>cat\<close>.

  \<^bold>\<open>The shell (P3).\<close> \<open>Wsh\<close> models \<^verbatim>\<open>wsh.c\<close> as a whole: the job table and the variables are the record; signals arrive at the prompt and during waits, chosen
    by the environment, but not between other statements, so that the race between \<^verbatim>\<open>fork\<close> and the assignment of \<^verbatim>\<open>cur_id\<close> is outside of the model; a child is followed up to its \<^verbatim>\<open>execvp\<close>.
    \<open>Wsh_Props\<close> proves the invariant of the job table, that under these signals a session does not crash, that a program becomes a job, that \<^verbatim>\<open>fg\<close> picks the right
    job, and that each program of a pipeline holds the right two ends and no other.

  \<^bold>\<open>Processes and the scheduler (P4).\<close> \<open>Spinlock\<close> models the spin locks of one CPU; \<open>Proc\<close> the process table, \<^verbatim>\<open>fork\<close>, \<^verbatim>\<open>exit\<close>, \<^verbatim>\<open>wait\<close>, \<^verbatim>\<open>sleep\<close>, \<^verbatim>\<open>kill\<close>, the
    scheduler with its decay, and the system calls; \<open>Sched\<close> composes them into one machine in which system calls, interrupts and rounds of the
    scheduler interleave, proves its invariant, and states what each operation does to the table.

  \<^bold>\<open>The kernel of P5\<close>, from the bottom up.
  \<^item> Pipes and files: \<open>Pipe\<close> (ring buffer with 32-bit counters; a locale \<open>byte_fifo\<close> and its refinement by the ring) and \<open>File\<close> (table of open files; the
    counts are the numbers of handles).
  \<^item> Disk: \<open>Bio\<close> (sleep locks, the list of buffers, the disk; locale \<open>block_cache\<close>), \<open>Log\<close> and \<open>Log_Ops\<close> (transactions, recovery; a crash at any write
    leaves the old or the new blocks).
  \<^item> File system: \<open>Fs\<close> models \<^verbatim>\<open>fs.c\<close>: block allocator, inode cache, contents, directories, path walk. \<open>Fs_Store\<close> states what the file system needs of log and
    cache as the locale \<open>logged_store\<close>, interpreted by them, and treats the block allocator in it; \<open>Fs_File\<close> the block map of a file as a map of bytes; \<open>Fs_Rw\<close>, \<open>Fs_Props\<close>
    writing, reading, and reading back; \<open>Fs_Dir\<close> directories as finite maps and the elements of paths.
  \<^item> Memory: \<open>Kalloc\<close> (free list in the free pages), \<open>Vm\<close> and \<open>Page_Table\<close> (two-level tables in memory as a map), \<open>Uvm\<close> (growing and shrinking a
    process), \<open>Pagecache\<close>, \<open>Mmap\<close> with \<open>Mmap_Regions\<close> (regions do not overlap, as long as the entries behind them are clear) and \<open>Page_Fault\<close> (an access to a page that is not mapped yet maps a zeroed page, outside of the cases in which the
    fault handler picks a wrong region or size).
  \<^item> Programs: \<open>Sh\<close> and \<open>Sh_Props\<close> (parser and execution of \<^verbatim>\<open>sh.c\<close>, with the descriptor table of \<^verbatim>\<open>sysfile.c\<close>: words are neither lost nor made up, every command can
    be written, programs get exactly their files), \<open>Umalloc\<close> (the allocator of the user library: blocks in use never
    overlap, freed blocks are joined) and \<open>Grep\<close> (the matcher decides the meaning of patterns).

  \<^bold>\<open>The proxy server (P6).\<close> \<open>Safequeue\<close> models the linked list on an explicit heap and proves that it refines a bounded priority queue (locale \<open>bounded_pq\<close>);
    \<open>Proxy\<close> models the parser of requests, listeners and workers, and lets them interleave over the queue.

  \<^bold>\<open>The log-structured file system (P7).\<close> \<open>Wfs\<close> models every operation on the bytes of the image; \<open>Wfs_Log\<close> gives the effect of each on the list of entries that the image
    represents; \<open>Wfs_Fs\<close> proves the invariant of the log over all sequences of operations and what users see: creating, writing, reading, removing.

  \<^bold>\<open>Bounds and fuel.\<close> Loops over arrays and lists recurse on their data or have a termination proof. Loops over addresses take \<open>page_fuel\<close>, the number of
    pages up to the size plus two; that it suffices is part of the proofs in \<open>Page_Table\<close> and \<open>Uvm\<close>. The parser of \<^verbatim>\<open>sh.c\<close> takes four levels per character of the line plus four, and the
    result that the bound is met does not occur. \<^verbatim>\<open>wait\<close> loops, list walks and searches for a NUL are \<^verbatim>\<open>partial_function\<close>s: that they return is proved
    where a property needs it. The theorems on writing files ask for six entries of the log per block plus one and two free blocks per block, which covers the data
    block, the indirect block, their bitmap blocks and the inode; a session of the shell of P3 has at most 256 lines, the size of its job table.

  \<^bold>\<open>Not modelled.\<close> Drivers, the boot loader and the processor's registers (port input and output without logic of its own); the composition of the layers in
    \<^verbatim>\<open>sysfile.c\<close> and \<^verbatim>\<open>exec.c\<close>, and fetching of arguments; P5's own process table (P4's is modelled); \<^verbatim>\<open>printf\<close> of the user library; the small user programs, which
    are loops around system calls; the host program \<^verbatim>\<open>mkfs\<close>; creation of sockets and threads in the proxy server; the older shell \<^verbatim>\<open>wsh2.c\<close>; tests. Interleaving is at the
    granularity of the critical sections that the locks make; weak memory is not modelled. The inode cache and the path walk of \<open>Fs\<close> are modelled, and the block operations below
    them proved, but there is no theorem on a whole path walk.
\<close>

end
